(* ===== verification/Prelude.thy ===== *)
theory Prelude
  imports Complex_Main "HOL-Library.Word"
begin

text \<open>
  Shared vocabulary of the development: the faults the Python code can raise (and the
  undefined behaviour its compiled kernels can reach), sequencing of fallible steps,
  pre-allocated buffers that are read and written by index, and the bit strings the
  telemetry coders work on.
\<close>

section \<open>Faults and sequencing\<close>

text \<open>
  The code under \<^verbatim>\<open>backend/src/satcom_core\<close> fails in two ways. Plain Python raises. A kernel
  compiled with \<^verbatim>\<open>boundscheck=False\<close> does not raise: an index outside an array or a shift
  by a negative amount is undefined behaviour there. Both are values of one type, so that a
  theorem saying a function returns \<open>Ok\<close> excludes both.
\<close>

datatype fault =
    OutOfBounds      \<comment> \<open>index outside a pre-allocated array\<close>
  | NegativeShift    \<comment> \<open>a shift whose amount is negative\<close>
  | ValueError
  | IndexError
  | KeyError
  | TypeError
  | StructError      \<comment> \<open>\<^verbatim>\<open>struct.error\<close>: a field out of range or a buffer of the wrong size\<close>
  | BufferError
  | ZeroDivisionError
  | AttributeError
  | SystemExit     \<comment> \<open>\<^verbatim>\<open>sys.exit\<close> with a failure status\<close>
  | DecodeError      \<comment> \<open>\<^verbatim>\<open>UnicodeDecodeError\<close> or \<^verbatim>\<open>JSONDecodeError\<close>\<close>

abbreviation Ok :: "'a \<Rightarrow> 'e + 'a" where "Ok \<equiv> Inr"

abbreviation Fail :: "'e \<Rightarrow> 'e + 'a" where "Fail \<equiv> Inl"

type_synonym byte = "8 word"

definition seqE :: "'e + 'a \<Rightarrow> ('a \<Rightarrow> 'e + 'b) \<Rightarrow> 'e + 'b" where
  "seqE r k = (case r of Inl e \<Rightarrow> Inl e | Inr x \<Rightarrow> k x)"

lemma seqE_simps [simp]: "seqE (Inl e) k = Inl e" "seqE (Inr x) k = k x"
  by (simp_all add: seqE_def)

lemma seqE_assoc [simp]: "seqE (seqE r f) g = seqE r (\<lambda>x. seqE (f x) g)"
  by (cases r) auto

lemma seqE_Ok_iff: "seqE r k = Inr y \<longleftrightarrow> (\<exists>x. r = Inr x \<and> k x = Inr y)"
  by (cases r) auto

text \<open>A fallible step for every element, in order; the first failure ends it.\<close>

fun mapE :: "('a \<Rightarrow> 'e + 'b) \<Rightarrow> 'a list \<Rightarrow> 'e + 'b list" where
  "mapE f [] = Ok []"
| "mapE f (x # xs) = seqE (f x) (\<lambda>y. seqE (mapE f xs) (\<lambda>ys. Ok (y # ys)))"

lemma mapE_Ok: "(\<And>x. x \<in> set xs \<Longrightarrow> f x = Ok (g x)) \<Longrightarrow> mapE f xs = Ok (map g xs)"
  by (induction xs) simp_all

named_theorems buffer_simps \<open>reads and writes of pre-allocated buffers\<close>
named_theorems bits_simps \<open>bit strings and their values\<close>
named_theorems ring_simps \<open>index arithmetic of circular buffers\<close>

section \<open>Pre-allocated buffers\<close>

definition load :: "'a list \<Rightarrow> nat \<Rightarrow> fault + 'a" where
  "load buf i = (if i < length buf then Ok (buf ! i) else Fail OutOfBounds)"

definition store :: "'a list \<Rightarrow> nat \<Rightarrow> 'a \<Rightarrow> fault + 'a list" where
  "store buf i v = (if i < length buf then Ok (buf[i := v]) else Fail OutOfBounds)"

text \<open>Writing several values one after the other, from index \<open>w\<close> on.\<close>

fun store_all :: "'a list \<Rightarrow> nat \<Rightarrow> 'a list \<Rightarrow> fault + 'a list" where
  "store_all buf w [] = Ok buf"
| "store_all buf w (v # vs) = seqE (store buf w v) (\<lambda>buf'. store_all buf' (Suc w) vs)"

lemma store_Ok [buffer_simps]: "i < length buf \<Longrightarrow> store buf i v = Ok (buf[i := v])"
  by (simp add: store_def)

lemma store_length: "store buf i v = Ok buf' \<Longrightarrow> length buf' = length buf"
  by (auto simp: store_def split: if_splits)

lemma store_all_append:
  "store_all buf w (us @ vs) = seqE (store_all buf w us) (\<lambda>buf'. store_all buf' (w + length us) vs)"
proof (induction us arbitrary: buf w)
  case Nil
  then show ?case by simp
next
  case (Cons u us)
  then show ?case by (cases "store buf w u") auto
qed

lemma store_all_length: "store_all buf w vs = Ok buf' \<Longrightarrow> length buf' = length buf"
  by (induction vs arbitrary: buf w) (auto simp: seqE_Ok_iff dest: store_length)

lemma store_all_fault: "store_all buf w vs = Fail e \<Longrightarrow> e = OutOfBounds"
  by (induction vs arbitrary: buf w) (auto simp: store_def split: if_splits)

text \<open>The effect of a run of writes that fits: the written block, and nothing else, changes.\<close>

lemma store_all_Ok:
  "w + length vs \<le> length buf \<Longrightarrow>
   store_all buf w vs = Ok (take w buf @ vs @ drop (w + length vs) buf)"
proof (induction vs arbitrary: buf w)
  case Nil
  then show ?case by simp
next
  case (Cons v vs)
  then have w: "w < length buf" by simp
  then have "take (Suc w) (buf[w := v]) = take w buf @ [v]"
    by (simp add: take_Suc_conv_app_nth)
  with Cons w show ?case by (simp add: buffer_simps drop_update_swap)
qed

text \<open>A run of writes that does not fit leaves the buffer: the undefined behaviour is reached.\<close>

lemma store_all_Fail:
  "vs \<noteq> [] \<Longrightarrow> length buf < w + length vs \<Longrightarrow> store_all buf w vs = Fail OutOfBounds"
proof (induction vs arbitrary: buf w)
  case Nil
  then show ?case by simp
next
  case (Cons v vs)
  show ?case
  proof (cases "w < length buf")
    case True
    with Cons.prems have "vs \<noteq> []" by auto
    with Cons True show ?thesis by (simp add: store_def)
  next
    case False
    then show ?thesis by (simp add: store_def)
  qed
qed

lemma store_all_take:
  assumes "store_all buf w vs = Ok buf'" and "w \<le> length buf"
  shows "take (w + length vs) buf' = take w buf @ vs"
proof (cases "w + length vs \<le> length buf")
  case True
  with assms have "buf' = take w buf @ vs @ drop (w + length vs) buf"
    by (simp add: store_all_Ok)
  with True show ?thesis by simp
next
  case False
  with assms show ?thesis using store_all_Fail [of vs buf w] by (cases vs) auto
qed

lemma store_all_Ok_fits:
  assumes "store_all buf w vs = Ok buf'" and "vs \<noteq> []"
  shows "w + length vs \<le> length buf"
  using assms store_all_Fail [of vs buf w] by (cases "w + length vs \<le> length buf") auto

section \<open>Bit strings\<close>

text \<open>\<open>bits_of n v\<close> is the \<open>n\<close> low bits of \<open>v\<close>, most significant first; \<open>val_of\<close> reads one back.\<close>

fun bits_of :: "nat \<Rightarrow> nat \<Rightarrow> bool list" where
  "bits_of 0 v = []"
| "bits_of (Suc n) v = bit v n # bits_of n v"

fun val_of :: "bool list \<Rightarrow> nat" where
  "val_of [] = 0"
| "val_of (b # bs) = (if b then 2 ^ length bs else 0) + val_of bs"

lemma length_bits_of [simp]: "length (bits_of n v) = n"
  by (induction n) auto

lemma bits_of_add: "bits_of (m + n) v = bits_of m (drop_bit n v) @ bits_of n v"
  by (induction m) (auto simp: bit_drop_bit_eq add.commute)

lemma bits_of_cong: "(\<And>i. i < n \<Longrightarrow> bit u i = bit v i) \<Longrightarrow> bits_of n u = bits_of n v"
  by (induction n) auto

lemma bits_of_take_bit [simp]: "n \<le> k \<Longrightarrow> bits_of n (take_bit k v) = bits_of n v"
  by (rule bits_of_cong) (simp add: bit_take_bit_iff)

lemma drop_bits_of: "k \<le> n \<Longrightarrow> drop k (bits_of n v) = bits_of (n - k) v"
  using bits_of_add [of k "n - k" v] by simp

lemma take_bits_of: "k \<le> n \<Longrightarrow> take k (bits_of n v) = bits_of k (drop_bit (n - k) v)"
  using bits_of_add [of k "n - k" v] by simp

lemma val_of_bound: "val_of bs < 2 ^ length bs"
  by (induction bs) auto

lemma val_of_bits_of [simp]: "val_of (bits_of n v) = take_bit n v"
  by (induction n) (auto simp: take_bit_Suc_from_most of_bool_def)

lemma bit_val_of: "i < length bs \<Longrightarrow> bit (val_of bs) i = bs ! (length bs - 1 - i)"
proof (induction bs)
  case Nil
  then show ?case by simp
next
  case (Cons b bs)
  have low: "take_bit (length bs) (val_of bs) = val_of bs"
    by (simp add: take_bit_nat_eq_self val_of_bound)
  have sum: "val_of (b # bs) = push_bit (length bs) (of_bool b) + take_bit (length bs) (val_of bs)"
    by (simp add: low push_bit_eq_mult)
  have "bit (val_of (b # bs)) i \<longleftrightarrow> (if i < length bs then bit (val_of bs) i else b)"
    using Cons.prems
    by (subst sum, subst disjunctive_add)
      (auto simp: bit_or_iff bit_push_bit_iff bit_take_bit_iff bit_of_bool_iff)
  with Cons show ?case by (auto simp: nth_Cons' Suc_diff_Suc)
qed

lemma bits_of_val_of [simp]: "bits_of (length bs) (val_of bs) = bs"
proof (rule nth_equalityI)
  fix i assume i: "i < length (bits_of (length bs) (val_of bs))"
  have nth: "bits_of n v ! j = bit v (n - 1 - j)" if "j < n" for n v j
    using that by (induction n arbitrary: j) (auto simp: nth_Cons')
  from i show "bits_of (length bs) (val_of bs) ! i = bs ! i"
    by (simp add: nth bit_val_of)
qed simp

lemma unat_byte [simp]: "unat (x :: byte) < 256"
proof -
  have "unat x < 2 ^ LENGTH(8)" by (rule unsigned_less)
  then show ?thesis by simp
qed

lemma take_bit_unat_byte [simp]: "take_bit 8 (unat (x :: byte)) = unat x"
  by (simp add: take_bit_nat_eq_self)

text \<open>The bits of a byte, as the coders put them on the wire.\<close>

abbreviation byte_bits :: "byte \<Rightarrow> bool list" where
  "byte_bits b \<equiv> bits_of 8 (unat b)"

lemma val_of_byte_bits [simp]: "val_of (byte_bits b) = unat b"
  by simp

lemma byte_bits_word_of_val: "length bs = 8 \<Longrightarrow> byte_bits (word_of_nat (val_of bs)) = bs"
proof -
  assume len: "length bs = 8"
  have "val_of bs < 256" using val_of_bound [of bs] len by simp
  then have "unat (word_of_nat (val_of bs) :: byte) = val_of bs"
    by (simp add: unsigned_of_nat take_bit_nat_eq_self)
  then show ?thesis using bits_of_val_of [of bs] len by simp
qed

definition bytes_bits :: "byte list \<Rightarrow> bool list" where
  "bytes_bits bs = concat (map byte_bits bs)"

lemma bytes_bits_simps [simp, bits_simps]:
  "bytes_bits [] = []"
  "bytes_bits (b # bs) = byte_bits b @ bytes_bits bs"
  "bytes_bits (xs @ ys) = bytes_bits xs @ bytes_bits ys"
  by (simp_all add: bytes_bits_def)

lemma length_bytes_bits [simp]: "length (bytes_bits bs) = 8 * length bs"
  by (induction bs) auto

section \<open>Index arithmetic of circular buffers\<close>

text \<open>Distinct offsets below the size are distinct slots, and an offset is recovered from its slot.\<close>

lemma unread_add [ring_simps]:
  fixes r c n :: nat
  assumes "r < n" and "c < n" shows "((r + c) mod n + n - r) mod n = c"
proof (cases "r + c < n")
  case False
  then have "(r + c) mod n = r + c - n" using assms by (simp add: le_mod_geq)
  with False assms show ?thesis by simp
qed (use assms in simp)

lemma slots_differ: "(c :: nat) < k \<Longrightarrow> k < n \<Longrightarrow> (r + c) mod n \<noteq> (r + k) mod n"
proof
  assume "c < k" "k < n" and eq: "(r + c) mod n = (r + k) mod n"
  then have "n dvd (r + k) - (r + c)" using mod_eq_dvd_iff_nat [of "r + c" "r + k" n] by simp
  with \<open>c < k\<close> \<open>k < n\<close> show False by (auto dest: dvd_imp_le)
qed

section \<open>The last entries of a sequence\<close>

definition last_n :: "nat \<Rightarrow> 'a list \<Rightarrow> 'a list" where
  "last_n n xs = drop (length xs - n) xs"

lemma last_n_short: "length xs \<le> n \<Longrightarrow> last_n n xs = xs"
  by (simp add: last_n_def)

lemma length_last_n [simp]: "length (last_n n xs) = min n (length xs)"
  by (simp add: last_n_def)

lemma last_n_append [simp]: "last_n n (last_n n us @ vs) = last_n n (us @ vs)"
proof -
  define k W where "k = length us - n" and "W = us @ vs"
  have "last_n n us @ vs = drop k W" by (simp add: last_n_def k_def W_def)
  moreover have "length W - k - n + k = length W - n" by (auto simp: k_def W_def)
  then have "last_n n (drop k W) = last_n n W" by (simp add: last_n_def)
  ultimately show ?thesis by (simp add: W_def)
qed

lemma last_n_snoc: "0 < n \<Longrightarrow> last_n n (xs @ [x]) =
    (if length xs < n then xs else tl (last_n n xs)) @ [x]"
  by (auto simp: last_n_def tl_drop drop_Suc [symmetric] Suc_diff_le)

lemma last_n_drop: "a \<le> length zs - n \<Longrightarrow> last_n n (drop a zs) = last_n n zs"
proof -
  assume "a \<le> length zs - n"
  then have "length zs - a - n + a = length zs - n" by arith
  then show ?thesis by (simp add: last_n_def)
qed

text \<open>
  A circular history: an array of \<open>n\<close> entries written at \<open>t mod n\<close> in turn \<open>t\<close> holds the whole
  sequence while it fits, and its last \<open>n\<close> entries, rotated, afterwards.
\<close>

definition ring_holds :: "nat \<Rightarrow> 'a list \<Rightarrow> 'a list \<Rightarrow> bool" where
  "ring_holds n h ys \<longleftrightarrow> length h = n \<and>
     (if length ys < n then take (length ys) h = ys
      else drop (length ys mod n) h @ take (length ys mod n) h = last_n n ys)"

lemma ring_holds_init: "0 < n \<Longrightarrow> ring_holds n (replicate n x) []"
  by (simp add: ring_holds_def)

lemma ring_holds_step:
  assumes "0 < n" and h: "ring_holds n h ys"
  shows "ring_holds n (h[length ys mod n := v]) (ys @ [v])"
proof (cases "length ys < n")
  case True
  then have "take (length ys) h = ys" "length h = n" using h by (auto simp: ring_holds_def)
  then have new: "take (Suc (length ys)) (h[length ys := v]) = ys @ [v]"
    using True by (simp add: take_Suc_conv_app_nth)
  show ?thesis
  proof (cases "Suc (length ys) = n")
    case True
    then have "h[length ys := v] = ys @ [v]" using new \<open>length h = n\<close> by simp
    with True show ?thesis by (simp add: ring_holds_def last_n_def)
  next
    case False
    with True new h show ?thesis by (simp add: ring_holds_def)
  qed
next
  case False
  let ?w = "length ys mod n"
  have len: "length h = n" and rot: "drop ?w h @ take ?w h = last_n n ys"
    using h False by (auto simp: ring_holds_def)
  have w: "?w < length h" using assms(1) len by simp
  have "drop ?w h = h ! ?w # drop (Suc ?w) h" using w by (rule Cons_nth_drop_Suc [symmetric])
  then have last: "last_n n (ys @ [v]) = drop (Suc ?w) h @ take ?w h @ [v]"
    using last_n_snoc [OF assms(1), of ys v] False by (simp flip: rot)
  have upd: "h[?w := v] = take ?w h @ v # drop (Suc ?w) h" using w by (rule upd_conv_take_nth_drop)
  show ?thesis
  proof (cases "Suc ?w = n")
    case True
    then have "Suc (length ys) mod n = 0" by (simp add: mod_Suc)
    with False True last upd len show ?thesis by (simp add: ring_holds_def)
  next
    case no: False
    then have "Suc (length ys) mod n = Suc ?w" by (simp add: mod_Suc)
    with False last upd len w show ?thesis by (simp add: ring_holds_def min_def)
  qed
qed

section \<open>JSON values\<close>

text \<open>What \<^verbatim>\<open>json.loads\<close> yields, and the dictionaries the telemetry code builds.\<close>

datatype json = JNull | JBool bool | JInt int | JNum real | JStr string | JList "json list"
  | JObj "(string \<times> json) list"

type_synonym payload = "string \<Rightarrow> json option"

text \<open>Decimal numerals, as \<^verbatim>\<open>str\<close> and f-strings print integers.\<close>

fun digits :: "nat \<Rightarrow> string" where
  "digits n = (if n < 10 then [char_of (48 + n)] else digits (n div 10) @ [char_of (48 + n mod 10)])"

declare digits.simps [simp del]

definition str_int :: "int \<Rightarrow> string" where
  "str_int i = (if i < 0 then CHR ''-'' # digits (nat (- i)) else digits (nat i))"

end
