(* ===== verification/Fft_Core.thy ===== *)
theory Fft_Core
  imports Prelude
begin

unbundle bit_operations_syntax

text \<open>
  \<^verbatim>\<open>vectorized_fft_core.py\<close>: the radix-4 transform, with its digit-reversed copy, its flattened twiddle factors and its
  butterflies in place. Single-precision numbers are exact complex numbers. The kernel has no bounds checks; every
  index is inside the rows the constructor and the shape test let through, as the lemmas on a stage show.
\<close>

section \<open>Tables\<close>

text \<open>The binary logarithm of a power of two, which is all the constructor lets through\<close>

fun bit_log :: "nat \<Rightarrow> nat" where
  "bit_log n = (if n \<le> 1 then 0 else Suc (bit_log (n div 2)))"

declare bit_log.simps [simp del]

fun reverse_digits :: "nat \<Rightarrow> nat \<Rightarrow> nat \<Rightarrow> nat" where
  "reverse_digits 0 res temp = res"
| "reverse_digits (Suc d) res temp = reverse_digits d (push_bit 2 res OR (temp AND 3)) (drop_bit 2 temp)"

definition generate_radix4_rev :: "nat \<Rightarrow> nat list" where
  "generate_radix4_rev n = map (reverse_digits (bit_log n div 2) 0) [0..<n]"

text \<open>The factors of the \<open>q\<close>th table, stage after stage: \<open>L\<close> is the size of the stage.\<close>

fun twiddle_stages :: "nat \<Rightarrow> nat \<Rightarrow> nat \<Rightarrow> complex list" where
  "twiddle_stages q 0 L = []"
| "twiddle_stages q (Suc n) L = map (\<lambda>i. cis (real q * (- 2 * pi * real i / real L))) [0..<L div 4] @ twiddle_stages q n (4 * L)"

definition generate_twiddles :: "nat \<Rightarrow> complex list \<times> complex list \<times> complex list \<times> nat" where
  "generate_twiddles n = (let stages = bit_log n div 2
     in (twiddle_stages 1 stages 4, twiddle_stages 2 stages 4, twiddle_stages 3 stages 4, stages))"

section \<open>The kernel\<close>

definition butterfly4 :: "complex \<Rightarrow> complex \<Rightarrow> complex \<Rightarrow> complex \<Rightarrow> complex list" where
  "butterfly4 A B C D =
     (let t0 = A + C; t1 = A - C; t2 = B + D; t3 = B - D
      in [t0 + t2, Complex (Re t1 + Im t3) (Im t1 - Re t3), t0 - t2, Complex (Re t1 - Im t3) (Im t1 + Re t3)])"

definition butterfly_at :: "complex list \<Rightarrow> complex list \<Rightarrow> complex list \<Rightarrow> nat \<Rightarrow> nat \<Rightarrow> nat \<times> nat \<Rightarrow> complex list \<Rightarrow> complex list" where
  "butterfly_at W1 W2 W3 offset quarter bi buf =
     (let idx0 = fst bi + snd bi; idx1 = idx0 + quarter; idx2 = idx1 + quarter; idx3 = idx2 + quarter;
          r = butterfly4 (buf ! idx0) (buf ! idx1 * W1 ! (offset + snd bi)) (buf ! idx2 * W2 ! (offset + snd bi)) (buf ! idx3 * W3 ! (offset + snd bi))
      in buf[idx0 := r ! 0, idx1 := r ! 1, idx2 := r ! 2, idx3 := r ! 3])"

definition block_starts :: "nat \<Rightarrow> nat \<Rightarrow> nat list" where
  "block_starts n L = map (\<lambda>b. b * L) [0..<(n + L - 1) div L]"

fun stage_loop :: "complex list \<Rightarrow> complex list \<Rightarrow> complex list \<Rightarrow> nat \<Rightarrow> nat \<Rightarrow> nat \<Rightarrow> nat \<Rightarrow> complex list \<Rightarrow> complex list" where
  "stage_loop W1 W2 W3 n 0 offset L buf = buf"
| "stage_loop W1 W2 W3 n (Suc stages) offset L buf =
     stage_loop W1 W2 W3 n stages (offset + L div 4) (4 * L)
       (fold (\<lambda>block. fold (\<lambda>i. butterfly_at W1 W2 W3 offset (L div 4) (block, i)) [0..<L div 4]) (block_starts n L) buf)"

definition radix4_fft_core :: "complex list list \<Rightarrow> nat list \<Rightarrow> complex list \<Rightarrow> complex list \<Rightarrow> complex list \<Rightarrow> nat \<Rightarrow> nat \<Rightarrow> complex list list" where
  "radix4_fft_core in_buffer rev_indices W1 W2 W3 n stages =
     map (\<lambda>row. stage_loop W1 W2 W3 n stages 0 4 (map (\<lambda>i. row ! (rev_indices ! i)) [0..<n])) in_buffer"

record fft_core =
  fft_channels :: nat
  fft_N :: nat
  fft_rev :: "nat list"
  fft_W1 :: "complex list"
  fft_W2 :: "complex list"
  fft_W3 :: "complex list"
  fft_stages :: nat

definition fft_init :: "nat \<Rightarrow> nat \<Rightarrow> fault + fft_core" where
  "fft_init channels n =
     (if n = 0 \<or> n AND (n - 1) \<noteq> 0 \<or> odd (bit_log n) then Fail ValueError
      else let (W1, W2, W3, stages) = generate_twiddles n
        in Ok \<lparr>fft_channels = channels, fft_N = n, fft_rev = generate_radix4_rev n, fft_W1 = W1, fft_W2 = W2, fft_W3 = W3, fft_stages = stages\<rparr>)"

definition execute_transform :: "fft_core \<Rightarrow> complex list list \<Rightarrow> fault + complex list list" where
  "execute_transform f iq =
     (if length iq \<noteq> fft_channels f \<or> \<not> list_all (\<lambda>row. length row = fft_N f) iq then Fail ValueError
      else Ok (radix4_fft_core iq (fft_rev f) (fft_W1 f) (fft_W2 f) (fft_W3 f) (fft_N f) (fft_stages f)))"

section \<open>The discrete Fourier transform\<close>

definition dft :: "nat \<Rightarrow> (nat \<Rightarrow> complex) \<Rightarrow> nat \<Rightarrow> complex" where
  "dft L y k = (\<Sum>j<L. y j * cis (- (2 * pi * real (j * k) / real L)))"

lemma cis_period: "cis (x - 2 * pi * real n) = cis x"
proof -
  have "cis (2 * pi * (- real n)) = 1" by (rule cis_multiple_2pi) simp
  then have "cis x * cis (2 * pi * (- real n)) = cis x" by simp
  then show ?thesis unfolding cis_mult by simp
qed

lemma sum_group4: "sum g {j * 4..<j * 4 + 4} = (\<Sum>q<4. g (4 * j + q))" for g :: "nat \<Rightarrow> complex"
  using sum.shift_bounds_nat_ivl [of g 0 "j * 4" 4] by (simp add: lessThan_atLeast0 add.commute mult.commute)

lemma cis_quarter: "cis (- (pi / 2) * real n) = (- \<i>) ^ n"
proof -
  have "cis (- (pi / 2)) = - \<i>" by (simp add: complex_eq_iff)
  then show ?thesis using DeMoivre [of "- (pi / 2)" n] by (simp add: mult.commute)
qed

text \<open>Decimation in time: a transform of \<open>4 L\<close> points from the four of its residues\<close>

lemma dft_decimation:
  assumes "0 < L"
  shows "dft (4 * L) y (k + p * L) = (\<Sum>q<4. cis (real q * (- 2 * pi * real k / real (4 * L))) * (- \<i>) ^ (q * p) * dft L (\<lambda>j. y (4 * j + q)) k)"
proof -
  have angle: "cis (- (2 * pi * real ((4 * j + q) * (k + p * L)) / real (4 * L))) =
      cis (real q * (- 2 * pi * real k / real (4 * L))) * (- \<i>) ^ (q * p) * cis (- (2 * pi * real (j * k) / real L))" for j q
  proof -
    have "- (2 * pi * real ((4 * j + q) * (k + p * L)) / real (4 * L)) =
        (real q * (- 2 * pi * real k / real (4 * L)) + - (pi / 2) * real (q * p) + - (2 * pi * real (j * k) / real L)) - 2 * pi * real (j * p)"
      using assms by (simp add: field_simps)
    then show ?thesis by (simp only: cis_period cis_mult [symmetric] cis_quarter)
  qed
  have "dft (4 * L) y (k + p * L) = (\<Sum>j<L * 4. y j * cis (- (2 * pi * real (j * (k + p * L)) / real (4 * L))))" by (simp add: dft_def mult.commute)
  also have "\<dots> = (\<Sum>j<L. \<Sum>t \<in> {j * 4..<j * 4 + 4}. y t * cis (- (2 * pi * real (t * (k + p * L)) / real (4 * L))))"
    by (rule sum.nat_group [symmetric])
  also have "\<dots> = (\<Sum>j<L. \<Sum>q<4. y (4 * j + q) * cis (- (2 * pi * real ((4 * j + q) * (k + p * L)) / real (4 * L))))"
    unfolding sum_group4 ..
  also have "\<dots> = (\<Sum>q<4. \<Sum>j<L. y (4 * j + q) * cis (- (2 * pi * real ((4 * j + q) * (k + p * L)) / real (4 * L))))" by (rule sum.swap)
  also have "\<dots> = (\<Sum>q<4. cis (real q * (- 2 * pi * real k / real (4 * L))) * (- \<i>) ^ (q * p) * dft L (\<lambda>j. y (4 * j + q)) k)"
    unfolding angle dft_def by (simp add: sum_distrib_left ac_simps)
  finally show ?thesis .
qed

text \<open>The butterfly is that sum.\<close>

lemma butterfly_sum:
  assumes "p < 4"
  shows "butterfly4 A B C D ! p = A + (- \<i>) ^ p * B + (- \<i>) ^ (2 * p) * C + (- \<i>) ^ (3 * p) * D"
proof -
  have "p = 0 \<or> p = 1 \<or> p = 2 \<or> p = 3" using assms by auto
  then show ?thesis
    by (elim disjE) (simp_all add: butterfly4_def Let_def complex_eq_iff power_numeral_reduce)
qed

section \<open>One stage\<close>

text \<open>A loop of updates each of which reads and writes only the quad_entries it owns\<close>

lemma fold_local:
  assumes "\<And>x buf. length (op x buf) = length buf"
    and "\<And>x buf j. x \<in> V \<Longrightarrow> length buf = n \<Longrightarrow> j < n \<Longrightarrow> own j \<noteq> x \<Longrightarrow> op x buf ! j = buf ! j"
    and "\<And>x buf buf' j. x \<in> V \<Longrightarrow> length buf = n \<Longrightarrow> length buf' = n \<Longrightarrow> (\<And>k. k < n \<Longrightarrow> own k = x \<Longrightarrow> buf ! k = buf' ! k) \<Longrightarrow>
      j < n \<Longrightarrow> own j = x \<Longrightarrow> op x buf ! j = op x buf' ! j"
    and "j < n"
  shows "distinct xs \<Longrightarrow> set xs \<subseteq> V \<Longrightarrow> length buf = n \<Longrightarrow> fold op xs buf ! j = (if own j \<in> set xs then op (own j) buf ! j else buf ! j)"
proof (induction xs arbitrary: buf)
  case (Cons x xs)
  then have x: "x \<in> V" "set xs \<subseteq> V" "x \<notin> set xs" "distinct xs" "length (op x buf) = n" by (simp_all add: assms(1))
  note IH = Cons.IH [OF x(4,2,5)]
  show ?case
  proof (cases "own j = x")
    case False
    have "op (own j) (op x buf) ! j = op (own j) buf ! j" if "own j \<in> set xs"
    proof (rule assms(3))
      show "own j \<in> V" using that x(2) by blast
      show "op x buf ! k = buf ! k" if "k < n" "own k = own j" for k using assms(2) [OF x(1) Cons.prems(3) that(1)] that(2) False by simp
    qed (use x(5) Cons.prems(3) assms(4) in simp_all)
    moreover have "op x buf ! j = buf ! j" using assms(2) [OF x(1) Cons.prems(3) assms(4) False] .
    ultimately show ?thesis using IH False by simp
  qed (use IH x(3) in simp)
qed simp

lemma fold_length: "(\<And>x buf. length (f x buf) = length buf) \<Longrightarrow> length (fold f xs buf) = length buf"
  by (induction xs arbitrary: buf) simp_all

lemma fold_pairs: "fold (\<lambda>b. fold (\<lambda>i. f (b, i)) is) bs s = fold f (List.product bs is) s"
proof (induction bs arbitrary: s)
  case (Cons b bs)
  have "fold (\<lambda>i. f (b, i)) is s = fold f (map (Pair b) is) s" for s by (simp add: fold_map comp_def)
  then show ?case by (simp add: Cons)
qed simp

definition owner :: "nat \<Rightarrow> nat \<Rightarrow> nat \<times> nat" where
  "owner Q j = (j div (4 * Q) * (4 * Q), j mod Q)"

lemma owner_at: "i < Q \<Longrightarrow> q < 4 \<Longrightarrow> owner Q (b * (4 * Q) + q * Q + i) = (b * (4 * Q), i)"
proof -
  assume i: "i < Q" "q < 4"
  then have "q * Q + i < Suc q * Q" by simp
  also have "\<dots> \<le> 4 * Q" using i(2) by (intro mult_right_mono) auto
  finally have "(b * (4 * Q) + (q * Q + i)) div (4 * Q) = b" using i(1) by simp
  moreover have "(b * (4 * Q) + (q * Q + i)) mod Q = i"
    using i(1) mod_mult_self3 [of "b * 4 + q" Q i] by (simp add: algebra_simps)
  ultimately show ?thesis by (simp add: owner_def add.assoc)
qed

lemma butterfly_at_length [simp]: "length (butterfly_at W1 W2 W3 off Q x buf) = length buf"
  by (simp add: butterfly_at_def Let_def)

lemma butterfly_at_nth:
  "butterfly_at W1 W2 W3 off Q (a, i) buf ! j =
     (let r = butterfly4 (buf ! (a + i)) (buf ! (a + i + Q) * W1 ! (off + i)) (buf ! (a + i + 2 * Q) * W2 ! (off + i)) (buf ! (a + i + 3 * Q) * W3 ! (off + i))
      in buf[a + i := r ! 0, a + i + Q := r ! 1, a + i + 2 * Q := r ! 2, a + i + 3 * Q := r ! 3] ! j)"
  by (simp add: butterfly_at_def Let_def mult_2 numeral_3_eq_3 add.assoc)

definition quad_entries :: "nat \<Rightarrow> nat \<Rightarrow> nat set" where
  "quad_entries Q a = {a, a + Q, a + 2 * Q, a + 3 * Q}"

lemma butterfly_at_other: "j \<notin> quad_entries Q (a + i) \<Longrightarrow> butterfly_at W1 W2 W3 off Q (a, i) buf ! j = buf ! j"
  by (simp add: butterfly_at_nth Let_def quad_entries_def)

lemma update_nth_cong: "length xs = length ys \<Longrightarrow> xs ! j = ys ! j \<Longrightarrow> xs[a := v] ! j = ys[a := v] ! j"
  by (cases "a < length ys") (simp_all add: nth_list_update list_update_beyond)

lemma butterfly_at_cong:
  assumes "\<And>t. t \<in> quad_entries Q (a + i) \<Longrightarrow> buf ! t = buf' ! t" "buf ! j = buf' ! j" "length buf = length buf'"
  shows "butterfly_at W1 W2 W3 off Q (a, i) buf ! j = butterfly_at W1 W2 W3 off Q (a, i) buf' ! j"
proof -
  have "buf ! (a + i) = buf' ! (a + i)" "buf ! (a + i + Q) = buf' ! (a + i + Q)" "buf ! (a + i + 2 * Q) = buf' ! (a + i + 2 * Q)"
    "buf ! (a + i + 3 * Q) = buf' ! (a + i + 3 * Q)" by (simp_all add: assms(1) quad_entries_def)
  then show ?thesis unfolding butterfly_at_nth Let_def by (simp only:) (intro update_nth_cong; simp add: assms(2,3))
qed

lemma owner_quad_entries: "i < Q \<Longrightarrow> t \<in> quad_entries Q (c * (4 * Q) + i) \<Longrightarrow> owner Q t = (c * (4 * Q), i)"
  using owner_at [of i Q 0 c] owner_at [of i Q 1 c] owner_at [of i Q 2 c] owner_at [of i Q 3 c]
  by (auto simp: quad_entries_def add.assoc add.commute add.left_commute)

lemma quad_entries_bound: "c < M \<Longrightarrow> i < Q \<Longrightarrow> t \<in> quad_entries Q (c * (4 * Q) + i) \<Longrightarrow> t < M * (4 * Q)"
proof -
  assume "c < M" "i < Q" "t \<in> quad_entries Q (c * (4 * Q) + i)"
  moreover from this(1) have "Suc c * (4 * Q) \<le> M * (4 * Q)" by (intro mult_right_mono) auto
  ultimately show ?thesis by (auto simp: quad_entries_def)
qed

text \<open>The four quad_entries a butterfly owns, and what it leaves in them\<close>

lemma butterfly_at_own:
  assumes "i < Q" "q < 4" "length buf = M * (4 * Q)" "b < M"
  shows "butterfly_at W1 W2 W3 off Q (b * (4 * Q), i) buf ! (b * (4 * Q) + q * Q + i) =
    butterfly4 (buf ! (b * (4 * Q) + 0 * Q + i)) (buf ! (b * (4 * Q) + 1 * Q + i) * W1 ! (off + i))
      (buf ! (b * (4 * Q) + 2 * Q + i) * W2 ! (off + i)) (buf ! (b * (4 * Q) + 3 * Q + i) * W3 ! (off + i)) ! q"
proof -
  have "Suc b * (4 * Q) \<le> M * (4 * Q)" using assms(4) by (intro mult_right_mono) auto
  then have "b * (4 * Q) + 3 * Q + i < length buf" using assms(1,3) by simp
  moreover have "q = 0 \<or> q = 1 \<or> q = 2 \<or> q = 3" using assms(2) by auto
  ultimately show ?thesis using assms(1) by (elim disjE) (simp_all add: butterfly_at_nth Let_def nth_list_update add.assoc add.commute add.left_commute)
qed

lemma stage_effect:
  assumes "length buf = M * (4 * Q)" "b < M" "q < 4" "i < Q"
  shows "fold (\<lambda>block. fold (\<lambda>i. butterfly_at W1 W2 W3 off Q (block, i)) [0..<Q]) (block_starts (M * (4 * Q)) (4 * Q)) buf ! (b * (4 * Q) + q * Q + i) =
    butterfly4 (buf ! (b * (4 * Q) + 0 * Q + i)) (buf ! (b * (4 * Q) + 1 * Q + i) * W1 ! (off + i))
      (buf ! (b * (4 * Q) + 2 * Q + i) * W2 ! (off + i)) (buf ! (b * (4 * Q) + 3 * Q + i) * W3 ! (off + i)) ! q"
proof -
  let ?op = "butterfly_at W1 W2 W3 off Q" and ?xs = "List.product (block_starts (M * (4 * Q)) (4 * Q)) [0..<Q]" and ?n = "M * (4 * Q)"
  have Q: "0 < Q" using assms(4) by simp
  have "(M * (4 * Q) + 4 * Q - 1) div (4 * Q) = M" using Q by (intro div_nat_eqI) (simp_all add: algebra_simps)
  then have starts: "block_starts ?n (4 * Q) = map (\<lambda>b. b * (4 * Q)) [0..<M]" by (simp add: block_starts_def)
  have dist: "distinct ?xs" using Q by (auto simp: starts distinct_map inj_on_def intro!: distinct_product)
  have xs: "(b, i) \<in> set ?xs \<longleftrightarrow> (\<exists>c < M. b = c * (4 * Q)) \<and> i < Q" for b i by (auto simp: starts)
  have keep: "?op x l ! j = l ! j" if x: "x \<in> set ?xs" and j: "owner Q j \<noteq> x" for x l j
  proof -
    obtain c k where c: "x = (c * (4 * Q), k)" "k < Q" using x xs by (metis prod.collapse)
    then have "j \<notin> quad_entries Q (c * (4 * Q) + k)" using owner_quad_entries j by blast
    then show ?thesis unfolding c(1) by (rule butterfly_at_other)
  qed
  have local: "?op x l ! j = ?op x l' ! j"
    if x: "x \<in> set ?xs" and l: "length l = ?n" "length l' = ?n" and eq: "\<And>k. k < ?n \<Longrightarrow> owner Q k = x \<Longrightarrow> l ! k = l' ! k" and j: "j < ?n" "owner Q j = x"
    for x l l' j
  proof -
    obtain c k where c: "x = (c * (4 * Q), k)" "k < Q" "c < M" using x xs by (metis prod.collapse)
    show ?thesis unfolding c(1)
    proof (rule butterfly_at_cong)
      show "l ! t = l' ! t" if t: "t \<in> quad_entries Q (c * (4 * Q) + k)" for t
        using eq [OF quad_entries_bound [OF c(3,2) t]] owner_quad_entries [OF c(2) t] c(1) by simp
    qed (use eq [OF j] l j(1) in simp_all)
  qed
  let ?j = "b * (4 * Q) + q * Q + i"
  have o: "owner Q ?j = (b * (4 * Q), i)" by (rule owner_at [OF assms(4,3)])
  have mem: "(b * (4 * Q), i) \<in> set ?xs" using assms(2,4) xs by blast
  have "q * Q \<le> 3 * Q" using assms(3) by (intro mult_right_mono) auto
  moreover have "b * (4 * Q) + i + 3 * Q < ?n" by (rule quad_entries_bound [OF assms(2,4)]) (simp add: quad_entries_def)
  ultimately have j: "?j < ?n" by linarith
  have "fold ?op ?xs buf ! ?j = (if owner Q ?j \<in> set ?xs then ?op (owner Q ?j) buf ! ?j else buf ! ?j)"
  proof (rule fold_local [where op = ?op and V = "set ?xs" and n = ?n and own = "owner Q"])
    show "length (?op x l) = length l" for x l by (rule butterfly_at_length)
    show "?op x l ! t = l ! t" if "x \<in> set ?xs" "length l = ?n" "t < ?n" "owner Q t \<noteq> x" for x l t by (rule keep [OF that(1,4)])
    show "?op x l ! t = ?op x l' ! t" if "x \<in> set ?xs" "length l = ?n" "length l' = ?n" "\<And>k. k < ?n \<Longrightarrow> owner Q k = x \<Longrightarrow> l ! k = l' ! k" "t < ?n" "owner Q t = x"
      for x l l' t by (rule local [OF that])
  qed (rule j dist subset_refl assms(1))+
  then have "fold ?op ?xs buf ! ?j = ?op (b * (4 * Q), i) buf ! ?j" by (simp only: o mem if_True)
  then show ?thesis unfolding fold_pairs butterfly_at_own [OF assms(4,3,1,2)] .
qed

section \<open>All stages\<close>

lemma and_3: "temp AND 3 = temp mod (4 :: nat)"
  using take_bit_eq_mask [of 2 temp] by (simp add: mask_eq_exp_minus_1 take_bit_eq_mod)

lemma shift_in_digit: "push_bit 2 res OR temp mod 4 = 4 * res + temp mod (4 :: nat)"
proof -
  have "push_bit 2 res AND take_bit 2 temp = 0" by (rule bit_eqI) (simp add: bit_simps)
  then have "push_bit 2 res OR take_bit 2 temp = push_bit 2 res + take_bit 2 temp" by (simp add: disjunctive_add_eq_or)
  then show ?thesis by (simp add: push_bit_eq_mult take_bit_eq_mod)
qed

lemma reverse_digits_res: "reverse_digits d res temp = res * 4 ^ d + reverse_digits d 0 temp"
proof (induction d arbitrary: res temp)
  case (Suc d)
  show ?case using Suc [of "4 * res + temp mod 4"] Suc [of "temp mod 4"] by (simp add: and_3 shift_in_digit drop_bit_eq_div algebra_simps)
qed simp

lemma reverse_digits_digit: "q < 4 \<Longrightarrow> reverse_digits (Suc d) 0 (4 * b + q) = q * 4 ^ d + reverse_digits d 0 b"
  using reverse_digits_res [of d q b] by (simp add: and_3 shift_in_digit drop_bit_eq_div)

lemma reverse_digits_bound: "reverse_digits d 0 temp < 4 ^ d"
proof (induction d arbitrary: temp)
  case (Suc d)
  have "temp mod 4 * 4 ^ d \<le> 3 * 4 ^ d" by (intro mult_right_mono) auto
  moreover have "reverse_digits (Suc d) 0 temp = temp mod 4 * 4 ^ d + reverse_digits d 0 (temp div 4)"
    using reverse_digits_res [of d "temp mod 4" "temp div 4"] by (simp add: and_3 shift_in_digit drop_bit_eq_div)
  moreover have "(4 :: nat) ^ Suc d = 4 * 4 ^ d" by simp
  ultimately show ?case using Suc [of "temp div 4"] by linarith
qed simp

lemma split_index:
  fixes k Q :: nat
  assumes "k < 4 * Q"
  obtains p i where "p < 4" "i < Q" "k = p * Q + i"
proof
  have "0 < Q" using assms by (cases Q) auto
  then show "k div Q < 4" "k mod Q < Q" "k = k div Q * Q + k mod Q" using assms by (simp_all add: div_less_iff_less_mult)
qed

text \<open>
  After some stages every block holds the transform of the samples whose index ends, digit by digit, in the block's own number:
  the remaining stages make the transform of all samples out of them.
\<close>

lemma stage_loop_dft:
  assumes "length buf = 4 ^ (s + stages)"
    and "drop off W1 = twiddle_stages 1 stages (4 * 4 ^ s)" "drop off W2 = twiddle_stages 2 stages (4 * 4 ^ s)" "drop off W3 = twiddle_stages 3 stages (4 * 4 ^ s)"
    and "\<And>b k. b < 4 ^ stages \<Longrightarrow> k < 4 ^ s \<Longrightarrow> buf ! (b * 4 ^ s + k) = dft (4 ^ s) (\<lambda>j. x (reverse_digits stages 0 b + j * 4 ^ stages)) k"
  shows "stage_loop W1 W2 W3 (4 ^ (s + stages)) stages off (4 * 4 ^ s) buf = map (dft (4 ^ (s + stages)) x) [0..<4 ^ (s + stages)]"
  using assms
proof (induction stages arbitrary: s off buf)
  case 0
  show ?case by (rule nth_equalityI) (use 0(1) 0(5) [of 0] in simp_all)
next
  case (Suc n)
  let ?Q = "4 ^ s :: nat" and ?N = "4 ^ (s + Suc n) :: nat"
  let ?buf = "fold (\<lambda>block. fold (\<lambda>i. butterfly_at W1 W2 W3 off ?Q (block, i)) [0..<?Q]) (block_starts ?N (4 * ?Q)) buf"
  have N: "?N = 4 ^ n * (4 * ?Q)" by (simp add: power_add)
  have tables: "drop (off + ?Q) W1 = twiddle_stages 1 n (4 * 4 ^ Suc s)" "drop (off + ?Q) W2 = twiddle_stages 2 n (4 * 4 ^ Suc s)"
    "drop (off + ?Q) W3 = twiddle_stages 3 n (4 * 4 ^ Suc s)"
    using Suc.prems(2-4) by (simp_all add: add.commute [of off] flip: drop_drop)
  have w: "W ! (off + i) = cis (real q * (- 2 * pi * real i / real (4 * ?Q)))" if "drop off W = twiddle_stages q (Suc n) (4 * ?Q)" "i < ?Q" for W q i
  proof -
    have "drop off W ! i = cis (real q * (- 2 * pi * real i / real (4 * ?Q)))" unfolding that(1) using that(2) by (simp add: nth_append)
    moreover have "off \<le> length W" using arg_cong [OF that(1), of length] that(2) by (cases "off \<le> length W") auto
    ultimately show ?thesis by simp
  qed
  have "length ?buf = length buf"
    by (intro fold_length butterfly_at_length)
  then have len: "length ?buf = 4 ^ (Suc s + n)" using Suc.prems(1) by simp
  have block: "?buf ! (b * 4 ^ Suc s + k) = dft (4 ^ Suc s) (\<lambda>j. x (reverse_digits n 0 b + j * 4 ^ n)) k" if bk: "b < 4 ^ n" "k < 4 ^ Suc s" for b k
  proof -
    obtain p i where p: "p < 4" "i < ?Q" "k = p * ?Q + i" using bk(2) split_index [of k ?Q] by auto
    have part: "buf ! (b * (4 * ?Q) + q * ?Q + i) = dft ?Q (\<lambda>j. x (reverse_digits n 0 b + (4 * j + q) * 4 ^ n)) i" if "q < 4" for q
    proof -
      have "4 * b + q < 4 ^ Suc n" using bk(1) that by simp
      moreover have "reverse_digits (Suc n) 0 (4 * b + q) + j * 4 ^ Suc n = reverse_digits n 0 b + (4 * j + q) * 4 ^ n" for j
        unfolding reverse_digits_digit [OF that] by (simp add: algebra_simps)
      moreover have "(4 * b + q) * ?Q + i = b * (4 * ?Q) + q * ?Q + i" by (simp add: algebra_simps)
      ultimately show ?thesis using Suc.prems(5) [of "4 * b + q" i] p(2) by simp
    qed
    have "?buf ! (b * (4 * ?Q) + p * ?Q + i) = butterfly4 (buf ! (b * (4 * ?Q) + 0 * ?Q + i)) (buf ! (b * (4 * ?Q) + 1 * ?Q + i) * W1 ! (off + i))
        (buf ! (b * (4 * ?Q) + 2 * ?Q + i) * W2 ! (off + i)) (buf ! (b * (4 * ?Q) + 3 * ?Q + i) * W3 ! (off + i)) ! p"
      using stage_effect [OF Suc.prems(1) [unfolded N] bk(1) p(1,2)] unfolding N .
    also have "\<dots> = dft (4 * ?Q) (\<lambda>j. x (reverse_digits n 0 b + j * 4 ^ n)) (i + p * ?Q)"
      unfolding dft_decimation [OF zero_less_power, of 4 s, simplified] butterfly_sum [OF p(1)] w [OF Suc.prems(2) p(2)] w [OF Suc.prems(3) p(2)] w [OF Suc.prems(4) p(2)]
      using part [of 0] part [of 1] part [of 2] part [of 3]
      by (simp add: numeral_eq_Suc lessThan_Suc ac_simps)
    finally show ?thesis by (simp add: p(3) algebra_simps)
  qed
  from Suc.IH [OF len tables block] show ?case by simp
qed

section \<open>The transform\<close>

lemma power_of_two:
  fixes n :: nat
  shows "0 < n \<Longrightarrow> n AND (n - 1) = 0 \<Longrightarrow> n = 2 ^ bit_log n"
proof (induction n rule: bit_log.induct)
  case (1 n)
  show ?case
  proof (cases "n \<le> 1")
    case False
    have step: "(n div 2) AND ((n - 1) div 2) = 0" using 1(3) and_rec [of n "n - 1"] False by (simp split: if_splits)
    have "even n"
    proof (rule ccontr)
      assume "odd n"
      then have "(n - 1) div 2 = n div 2" by (elim oddE) simp
      then show False using step False by simp
    qed
    then have "(n - 1) div 2 = n div 2 - 1" using False by (elim evenE) (simp add: div_nat_eqI)
    then have "n div 2 = 2 ^ bit_log (n div 2)" using False step by (intro 1(1)) simp_all
    then show ?thesis using False \<open>even n\<close> bit_log.simps [of n] by (elim evenE) simp
  qed (use 1(2) bit_log.simps [of n] in \<open>simp add: le_Suc_eq\<close>)
qed

lemma bit_log_power: "bit_log (2 ^ k) = k"
proof (induction k)
  case 0
  show ?case by (simp add: bit_log.simps)
next
  case (Suc k)
  have "(1 :: nat) < 2 ^ Suc k" by (rule one_less_power) simp_all
  then have "\<not> (2 :: nat) ^ Suc k \<le> 1" by (simp only: not_le)
  then show ?case using Suc bit_log.simps [of "2 ^ Suc k"] by simp
qed

lemma fft_init_iff:
  "fft_init channels n = (if \<exists>m. n = 4 ^ m
     then Ok \<lparr>fft_channels = channels, fft_N = n, fft_rev = map (reverse_digits (bit_log n div 2) 0) [0..<n], fft_W1 = twiddle_stages 1 (bit_log n div 2) 4,
       fft_W2 = twiddle_stages 2 (bit_log n div 2) 4, fft_W3 = twiddle_stages 3 (bit_log n div 2) 4, fft_stages = bit_log n div 2\<rparr>
     else Fail ValueError)"
proof -
  have "(n = 0 \<or> n AND (n - 1) \<noteq> 0 \<or> odd (bit_log n)) \<longleftrightarrow> (\<nexists>m. n = 4 ^ m)"
  proof (cases "\<exists>m. n = 4 ^ m")
    case True
    then obtain m where n: "n = 2 ^ (2 * m)" by (auto simp: power_mult)
    have "(2 :: nat) ^ (2 * m) AND (2 ^ (2 * m) - 1) = take_bit (2 * m) (2 ^ (2 * m))" by (simp add: take_bit_eq_mask mask_eq_exp_minus_1)
    then show ?thesis using True by (simp add: n bit_log_power)
  next
    case False
    have "\<exists>m. n = 4 ^ m" if n: "0 < n" "n AND (n - 1) = 0" "even (bit_log n)"
    proof -
      obtain m where "bit_log n = 2 * m" using n(3) by (elim evenE)
      then have "n = (2 ^ 2) ^ m" using power_of_two [OF n(1,2)] by (simp only: power_mult)
      then show ?thesis by auto
    qed
    then show ?thesis using False by auto
  qed
  then show ?thesis by (simp add: fft_init_def generate_twiddles_def generate_radix4_rev_def Let_def)
qed


end
