(* ===== verification/Weight_Morphing.thy ===== *)
theory Weight_Morphing
  imports Prelude
begin

text \<open>
  Two kernels that reshape arrays of weights: \<^verbatim>\<open>phase_coherent_swapper.py\<close> leads one weight vector into another along magnitude and
  phase, and \<^verbatim>\<open>multipath_tap_clamper.py\<close> clears the weak taps of an equaliser. Numbers are exact; magnitude and \<^verbatim>\<open>atan2\<close> are
  \<^term>\<open>cmod\<close> and \<^term>\<open>Arg\<close>.
\<close>

section \<open>Morphing\<close>

definition delta_phi :: "complex \<Rightarrow> complex \<Rightarrow> real" where
  "delta_phi w_old w_new = (let d = Arg w_new - Arg w_old in if d > pi then d - 2 * pi else if d < - pi then d + 2 * pi else d)"

definition morph_point :: "nat \<Rightarrow> complex \<Rightarrow> complex \<Rightarrow> nat \<Rightarrow> complex" where
  "morph_point steps w_old w_new k =
     (let d_mag = (cmod w_new - cmod w_old) / real steps; d_phi = delta_phi w_old w_new / real steps
      in rcis (cmod w_old + d_mag * real k) (Arg w_old + d_phi * real k))"

text \<open>The compiled kernel: four channels, a row per sample, and the new weights in every row after the transition\<close>

definition generate_morph_path :: "complex list \<Rightarrow> complex list \<Rightarrow> complex list list \<Rightarrow> nat \<Rightarrow> nat \<Rightarrow> fault + complex list list" where
  "generate_morph_path w_old w_new out stride_length steps =
     (if length w_old < 4 \<or> length w_new < 4 then Fail OutOfBounds
      else if steps = 0 then Fail ZeroDivisionError
      else if length out < steps then Fail OutOfBounds
      else if length w_new \<noteq> 4 then Fail ValueError
      else if stride_length \<le> steps then Ok (map (\<lambda>k. map (\<lambda>i. morph_point steps (w_old ! i) (w_new ! i) k) [0..<4]) [0..<steps] @ drop steps out)
      else Ok (map (\<lambda>k. map (\<lambda>i. morph_point steps (w_old ! i) (w_new ! i) k) [0..<4]) [0..<steps] @
          replicate (min stride_length (length out) - steps) w_new @ drop stride_length out))"

record swapper =
  swap_stride :: nat
  swap_steps :: nat
  morph_buffer :: "complex list list"

definition swapper_init :: "nat \<Rightarrow> nat \<Rightarrow> swapper" where
  "swapper_init stride_length steps = \<lparr>swap_stride = stride_length, swap_steps = steps, morph_buffer = replicate stride_length (replicate 4 0)\<rparr>"

text \<open>The buffer itself is returned.\<close>

definition morph_weights :: "complex list \<Rightarrow> complex list \<Rightarrow> swapper \<Rightarrow> fault + swapper" where
  "morph_weights w_old w_new s =
     seqE (generate_morph_path w_old w_new (morph_buffer s) (swap_stride s) (swap_steps s)) (\<lambda>out. Ok (s\<lparr>morph_buffer := out\<rparr>))"

lemma delta_phi_bound: "\<bar>delta_phi a b\<bar> \<le> pi"
  using Arg_bounded [of a] Arg_bounded [of b] by (auto simp: delta_phi_def Let_def abs_le_iff)

lemma delta_phi_cis: "cis (Arg a + delta_phi a b) = cis (Arg b)"
proof -
  have "cis (x - 2 * pi) = cis x" "cis (x + 2 * pi) = cis x" for x
    by (simp_all add: cis.ctr sin_diff cos_diff sin_add cos_add)
  then show ?thesis by (simp add: delta_phi_def Let_def add.commute algebra_simps)
qed

lemma morph_point_start: "0 < n \<Longrightarrow> morph_point n a b 0 = a"
  by (simp add: morph_point_def Let_def rcis_cmod_Arg)

lemma morph_point_end: "0 < n \<Longrightarrow> morph_point n a b n = b"
  by (simp add: morph_point_def Let_def rcis_def delta_phi_cis) (metis rcis_def rcis_cmod_Arg)

lemma convex_min:
  fixes x y t :: real
  assumes "0 \<le> t" "t \<le> 1"
  shows "min x y \<le> x + (y - x) * t" "x + (y - x) * t \<le> max x y"
proof -
  have a: "x + (y - x) * t = x * (1 - t) + y * t" by (simp add: algebra_simps)
  have "min x y * (1 - t) + min x y * t \<le> x * (1 - t) + y * t" using assms by (intro add_mono mult_right_mono) auto
  moreover have "x * (1 - t) + y * t \<le> max x y * (1 - t) + max x y * t" using assms by (intro add_mono mult_right_mono) auto
  ultimately show "min x y \<le> x + (y - x) * t" "x + (y - x) * t \<le> max x y" unfolding a by (simp_all flip: distrib_left)
qed

lemma morph_magnitude:
  assumes "0 < n" "k \<le> n"
  shows "cmod (morph_point n a b k) = cmod a + (cmod b - cmod a) * (real k / real n)"
    "min (cmod a) (cmod b) \<le> cmod (morph_point n a b k)" "cmod (morph_point n a b k) \<le> max (cmod a) (cmod b)"
proof -
  have t: "0 \<le> real k / real n" "real k / real n \<le> 1" using assms by simp_all
  note c = convex_min [OF t, of "cmod a" "cmod b"]
  have "0 \<le> min (cmod a) (cmod b)" by simp
  then have "0 \<le> cmod a + (cmod b - cmod a) * (real k / real n)" using c(1) by linarith
  then show eq: "cmod (morph_point n a b k) = cmod a + (cmod b - cmod a) * (real k / real n)"
    by (simp add: morph_point_def Let_def)
  show "min (cmod a) (cmod b) \<le> cmod (morph_point n a b k)" "cmod (morph_point n a b k) \<le> max (cmod a) (cmod b)" using c unfolding eq .
qed

text \<open>One sample further the direction has turned by the same small angle.\<close>

lemma morph_turn:
  assumes "0 < n" "Suc k \<le> n" "a \<noteq> 0" "b \<noteq> 0"
  shows "sgn (morph_point n a b (Suc k)) = sgn (morph_point n a b k) * cis (delta_phi a b / real n)"
proof -
  have sgn_rcis: "sgn (rcis r x) = cis x" if "0 < r" for r x
    using that by (simp add: rcis_def sgn_mult) (simp add: sgn_eq)
  have pos: "0 < cmod a + (cmod b - cmod a) / real n * real j" if "j \<le> n" for j
  proof -
    have "0 < min (cmod a) (cmod b)" using assms(3,4) by simp
    also have "\<dots> \<le> cmod a + (cmod b - cmod a) * (real j / real n)"
      using morph_magnitude(2) [OF assms(1) that, of a b] unfolding morph_magnitude(1) [OF assms(1) that] .
    finally show ?thesis by simp
  qed
  have "sgn (morph_point n a b j) = cis (Arg a + delta_phi a b / real n * real j)" if "j \<le> n" for j
    unfolding morph_point_def Let_def by (rule sgn_rcis [OF pos [OF that]])
  then show ?thesis using assms(2) by (simp add: cis_mult algebra_simps add_divide_distrib)
qed

lemma arctan_below:
  assumes "0 \<le> x"
  shows "arctan x \<le> x - x ^ 3 / 3 + x ^ 5 / 5"
proof -
  let ?f = "\<lambda>x. x - x ^ 3 / 3 + x ^ 5 / 5 - arctan x"
  have d: "\<exists>y. DERIV ?f t :> y \<and> 0 \<le> y" for t
  proof (intro exI conjI)
    show "DERIV ?f t :> 1 - t ^ 2 + t ^ 4 - inverse (1 + t ^ 2)" by (auto intro!: derivative_eq_intros)
    have pos: "0 < 1 + t ^ 2" by (rule add_pos_nonneg) simp_all
    have "(1 - u + u ^ 2) * (1 + u) = 1 + u ^ 3" for u :: real by (simp add: algebra_simps power2_eq_square power3_eq_cube)
    from this [of "t ^ 2"] have "(1 - t ^ 2 + t ^ 4) * (1 + t ^ 2) = 1 + t ^ 6" by (simp flip: power_mult)
    moreover have "0 \<le> t ^ 6" by (rule zero_le_even_power) simp
    ultimately have "1 \<le> (1 - t ^ 2 + t ^ 4) * (1 + t ^ 2)" by linarith
    then have "1 / (1 + t ^ 2) \<le> 1 - t ^ 2 + t ^ 4" using pos by (simp only: pos_divide_le_eq)
    then show "0 \<le> 1 - t ^ 2 + t ^ 4 - inverse (1 + t ^ 2)" by (simp add: inverse_eq_divide)
  qed
  have "?f 0 \<le> ?f x" by (rule DERIV_nonneg_imp_nondecreasing [OF assms d])
  then show ?thesis by simp
qed

lemma pi_below: "pi < 315 / 100"
proof -
  have "arctan (1 / 7) \<le> 1 / 7 - (1 / 7) ^ 3 / 3 + (1 / 7) ^ 5 / 5" by (rule arctan_below) simp
  then have "arctan (1 / 7) \<le> 142 / 1000" by (simp add: power_numeral_reduce)
  moreover have "arctan (3 / 79) \<le> 3 / 79 - (3 / 79) ^ 3 / 3 + (3 / 79) ^ 5 / 5" by (rule arctan_below) simp
  then have "arctan (3 / 79) \<le> 38 / 1000" by (simp add: power_numeral_reduce)
  ultimately show ?thesis using machin_Euler by simp
qed

lemma morph_rows:
  assumes "length w_old = 4" "length w_new = 4" "0 < steps" "steps < swap_stride s" "swap_steps s = steps" "length (morph_buffer s) = swap_stride s"
  obtains s' where "morph_weights w_old w_new s = Ok s'" "length (morph_buffer s') = swap_stride s"
    "\<And>k. k < swap_stride s \<Longrightarrow> length (morph_buffer s' ! k) = 4"
    "\<And>k i. k < swap_stride s \<Longrightarrow> i < 4 \<Longrightarrow> morph_buffer s' ! k ! i = morph_point steps (w_old ! i) (w_new ! i) (min k steps)"
proof -
  let ?rows = "map (\<lambda>k. map (\<lambda>i. morph_point steps (w_old ! i) (w_new ! i) k) [0..<4]) [0..<steps] @ replicate (swap_stride s - steps) w_new"
  have "morph_weights w_old w_new s = Ok (s\<lparr>morph_buffer := ?rows\<rparr>)" using assms by (simp add: morph_weights_def generate_morph_path_def)
  then show thesis
    by (rule that) (use assms in \<open>auto simp: nth_append morph_point_end min_def\<close>)
qed

text \<open>
  a change of weights never jumps. With a transition of at least 315 steps, from one sample to the next every channel turns by less
  than a hundredth of a radian, its magnitude stays between the two it leads from and to, so that it never passes through zero,
  and the first and the last row are the old and the new weights exactly.
\<close>
theorem morph_never_jumps:
  assumes "length w_old = 4" "length w_new = 4" "315 \<le> swap_steps s" "swap_steps s < swap_stride s" "length (morph_buffer s) = swap_stride s"
    and "i < 4" "w_old ! i \<noteq> 0" "w_new ! i \<noteq> 0" "Suc k < swap_stride s"
  shows "\<exists>s' turn. morph_weights w_old w_new s = Ok s' \<and> hd (morph_buffer s') = w_old \<and> last (morph_buffer s') = w_new \<and>
    sgn (morph_buffer s' ! Suc k ! i) = sgn (morph_buffer s' ! k ! i) * cis turn \<and> \<bar>turn\<bar> < 1 / 100 \<and>
    min (cmod (w_old ! i)) (cmod (w_new ! i)) \<le> cmod (morph_buffer s' ! k ! i) \<and>
    cmod (morph_buffer s' ! k ! i) \<le> max (cmod (w_old ! i)) (cmod (w_new ! i))"
proof -
  let ?n = "swap_steps s" and ?a = "w_old ! i" and ?b = "w_new ! i"
  have n: "0 < ?n" using assms(3) by simp
  obtain s' where s': "morph_weights w_old w_new s = Ok s'" "length (morph_buffer s') = swap_stride s"
    "\<And>k. k < swap_stride s \<Longrightarrow> length (morph_buffer s' ! k) = 4"
    "\<And>k i. k < swap_stride s \<Longrightarrow> i < 4 \<Longrightarrow> morph_buffer s' ! k ! i = morph_point ?n (w_old ! i) (w_new ! i) (min k ?n)"
    using morph_rows [OF assms(1,2) n assms(4) refl assms(5)] by metis
  have ends: "0 < swap_stride s" "swap_stride s - 1 < swap_stride s" "min (swap_stride s - 1) ?n = ?n" using assms(4) by simp_all
  have "morph_buffer s' ! 0 = w_old"
    by (rule nth_equalityI) (use s'(3,4) [OF ends(1)] assms(1) n in \<open>simp_all add: morph_point_start\<close>)
  moreover have "morph_buffer s' ! (swap_stride s - 1) = w_new"
    by (rule nth_equalityI) (use s'(3,4) [OF ends(2)] assms(2) n in \<open>simp_all add: morph_point_end ends(3) [simplified]\<close>)
  moreover have "morph_buffer s' \<noteq> []" using s'(2) ends(1) by auto
  ultimately have "hd (morph_buffer s') = w_old" "last (morph_buffer s') = w_new" by (simp_all add: hd_conv_nth last_conv_nth s'(2))
  moreover have "\<exists>turn. sgn (morph_buffer s' ! Suc k ! i) = sgn (morph_buffer s' ! k ! i) * cis turn \<and> \<bar>turn\<bar> < 1 / 100"
  proof (cases "k < ?n")
    case True
    have "pi / real ?n \<le> pi / 315" using assms(3) by (intro divide_left_mono) auto
    then have "\<bar>delta_phi ?a ?b / real ?n\<bar> < 1 / 100"
      using divide_right_mono [OF delta_phi_bound [of ?a ?b], of "real ?n"] pi_below by (simp add: abs_divide)
    moreover have "morph_buffer s' ! Suc k ! i = morph_point ?n ?a ?b (Suc k)" "morph_buffer s' ! k ! i = morph_point ?n ?a ?b k"
      using True s'(4) [OF assms(9,6)] s'(4) [OF Suc_lessD [OF assms(9)] assms(6)] by simp_all
    ultimately show ?thesis
      using morph_turn [OF n _ assms(7,8), of k] True by (intro exI [of _ "delta_phi ?a ?b / real ?n"]) simp
  next
    case False
    then have "min (Suc k) ?n = min k ?n" by simp
    then show ?thesis using s'(4) [of "Suc k" i] s'(4) [of k i] assms(6,9) by (intro exI [of _ 0]) simp
  qed
  moreover have "morph_buffer s' ! k ! i = morph_point ?n ?a ?b (min k ?n)" using s'(4) [of k i] assms(6,9) by simp
  ultimately show ?thesis using s'(1) morph_magnitude(2,3) [OF n, of "min k ?n" ?a ?b] by auto
qed

theorem morph_never_jumps_witness:
  "\<exists>s' turn. morph_weights [1, 1, 1, 1] [\<i>, \<i>, \<i>, \<i>] (swapper_init 4096 315) = Ok s' \<and>
     sgn (morph_buffer s' ! 315 ! 2) = sgn (morph_buffer s' ! 314 ! 2) * cis turn \<and> \<bar>turn\<bar> < 1 / 100"
  using morph_never_jumps [of "[1, 1, 1, 1]" "[\<i>, \<i>, \<i>, \<i>]" "swapper_init 4096 315" 2 314] by (auto simp: swapper_init_def)

section \<open>Clamping\<close>

definition tap_energy :: "complex \<Rightarrow> real" where
  "tap_energy z = (Re z)\<^sup>2 + (Im z)\<^sup>2"

definition max_energy :: "complex list \<Rightarrow> real" where
  "max_energy row = fold (\<lambda>z m. if tap_energy z > m then tap_energy z else m) row 0"

definition clamp_row :: "real \<Rightarrow> complex list \<Rightarrow> complex list" where
  "clamp_row ratio row = map (\<lambda>z. if tap_energy z < max_energy row * ratio then 0 else z) row"

definition clamp_taps :: "complex list list \<Rightarrow> nat \<Rightarrow> nat \<Rightarrow> real \<Rightarrow> fault + complex list list" where
  "clamp_taps pool channels taps ratio =
     (if length pool < channels \<or> \<not> list_all (\<lambda>row. taps \<le> length row) (take channels pool) then Fail OutOfBounds
      else Ok (map (\<lambda>row. clamp_row ratio (take taps row) @ drop taps row) (take channels pool) @ drop channels pool))"

record tap_clamper = tc_channels :: nat tc_taps :: nat threshold_ratio :: real

definition clamper_init :: "nat \<Rightarrow> nat \<Rightarrow> real \<Rightarrow> tap_clamper" where
  "clamper_init channels taps isolation_db = \<lparr>tc_channels = channels, tc_taps = taps, threshold_ratio = 10 powr (- isolation_db / 10)\<rparr>"

definition enforce_sparsity :: "tap_clamper \<Rightarrow> complex list list \<Rightarrow> fault + complex list list" where
  "enforce_sparsity t pool = clamp_taps pool (tc_channels t) (tc_taps t) (threshold_ratio t)"

lemma max_energy_fold: "fold (\<lambda>z m. if tap_energy z > m then tap_energy z else m) row m0 = Max (insert m0 (tap_energy ` set row))"
proof (induction row arbitrary: m0)
  case (Cons z row)
  have "Max (insert (max m0 (tap_energy z)) (tap_energy ` set row)) = Max (insert m0 (insert (tap_energy z) (tap_energy ` set row)))"
    by (cases "set row = {}") (simp_all add: max.assoc)
  then show ?case using Cons [of "max m0 (tap_energy z)"] by (simp add: max_def split: if_splits)
qed simp

lemma max_energy: "0 \<le> max_energy row" "z \<in> set row \<Longrightarrow> tap_energy z \<le> max_energy row"
  by (simp_all add: max_energy_def max_energy_fold)

lemma max_energy_attained: "row \<noteq> [] \<Longrightarrow> \<exists>z \<in> set row. tap_energy z = max_energy row"
proof -
  assume ne: "row \<noteq> []"
  have "Max (insert 0 (tap_energy ` set row)) \<in> insert 0 (tap_energy ` set row)" by (rule Max_in) simp_all
  then show ?thesis
  proof (elim insertE)
    assume 0: "Max (insert 0 (tap_energy ` set row)) = 0"
    obtain z where "z \<in> set row" using ne by (cases row) auto
    moreover have "0 \<le> tap_energy z" by (simp add: tap_energy_def)
    moreover have "max_energy row = 0" using 0 by (simp add: max_energy_def max_energy_fold)
    ultimately have "z \<in> set row" "tap_energy z = 0" using max_energy(2) [of z row] by simp_all
    then show ?thesis using 0 by (auto simp: max_energy_def max_energy_fold)
  qed (auto simp: max_energy_def max_energy_fold)
qed

text \<open>The strongest tap survives, what survives is unchanged, and clamping again changes nothing.\<close>

lemma clamp_max_energy: "ratio \<le> 1 \<Longrightarrow> max_energy (clamp_row ratio row) = max_energy row"
proof (cases "row = []")
  case False
  assume r: "ratio \<le> 1"
  obtain z where z: "z \<in> set row" "tap_energy z = max_energy row" using max_energy_attained [OF False] by blast
  have "max_energy row * ratio \<le> max_energy row" using mult_left_mono [OF r max_energy(1) [of row]] by simp
  then have "z \<in> set (clamp_row ratio row)" using z by (force simp: clamp_row_def)
  then have "max_energy row \<le> max_energy (clamp_row ratio row)" using max_energy(2) z(2) by metis
  moreover have "max_energy (clamp_row ratio row) \<le> max_energy row"
    proof -
    have "clamp_row ratio row \<noteq> []" using False by (simp add: clamp_row_def)
    then obtain y where y: "y \<in> set (clamp_row ratio row)" "tap_energy y = max_energy (clamp_row ratio row)" using max_energy_attained by blast
    have "tap_energy 0 = 0" by (simp add: tap_energy_def)
    then have "tap_energy y \<le> max_energy row" using y(1) max_energy by (auto simp: clamp_row_def)
    then show ?thesis by (simp add: y(2))
  qed
  ultimately show ?thesis by simp
qed (simp add: clamp_row_def)

lemma clamp_idempotent: "ratio \<le> 1 \<Longrightarrow> clamp_row ratio (clamp_row ratio row) = clamp_row ratio row"
  unfolding clamp_row_def [of ratio "clamp_row ratio row"] clamp_max_energy by (auto simp: clamp_row_def)

text \<open>A negative isolation makes the threshold larger than every energy: the whole row is cleared.\<close>

lemma negative_isolation_clears: "1 < ratio \<Longrightarrow> 0 < max_energy row \<Longrightarrow> clamp_row ratio row = map (\<lambda>_. 0) row"
  proof -
  assume r: "1 < ratio" and e: "0 < max_energy row"
  have "max_energy row < max_energy row * ratio" using mult_strict_left_mono [OF r e] by simp
  then have "tap_energy z < max_energy row * ratio" if "z \<in> set row" for z using max_energy(2) [OF that] by simp
  then show ?thesis by (simp add: clamp_row_def)
qed

end
