(* ===== verification/Sub_Bin_Peak.thy ===== *)
theory Sub_Bin_Peak
  imports Prelude
begin

text \<open>
  \<^verbatim>\<open>quadratic_peak_tracker.py\<close>: the peak of the cross-ambiguity surface between its bins, by the vertex of a quadratic that
  is fitted to the neighbourhood of the largest value. Numbers are exact reals; a surface is its 33 rows, and \<open>None\<close> is the
  Doppler of a surface with a single column, whose bins have no spacing.
\<close>

section \<open>The fit\<close>

record fit = fit_x :: real fit_y :: real fit_xx :: real fit_yy :: real fit_xy :: real

definition caf_cell :: "real list list \<Rightarrow> nat \<Rightarrow> nat \<Rightarrow> int \<Rightarrow> int \<Rightarrow> real" where
  "caf_cell caf r c i j = caf ! nat (int r + i) ! nat (int c + j)"

definition fit_surface :: "(int \<Rightarrow> int \<Rightarrow> real) \<Rightarrow> fit" where
  "fit_surface z =
     (let sum_x1 = z 1 (-1) + z 1 0 + z 1 1; sum_x0 = z (-1) (-1) + z (-1) 0 + z (-1) 1;
          sum_y1 = z (-1) 1 + z 0 1 + z 1 1; sum_y0 = z (-1) (-1) + z 0 (-1) + z 1 (-1);
          sum_mid_x = z 0 (-1) + z 0 0 + z 0 1; sum_mid_y = z (-1) 0 + z 0 0 + z 1 0
      in \<lparr>fit_x = (sum_x1 - sum_x0) / 6, fit_y = (sum_y1 - sum_y0) / 6, fit_xx = (sum_x1 + sum_x0 - 2 * sum_mid_x) / 6,
          fit_yy = (sum_y1 + sum_y0 - 2 * sum_mid_y) / 6, fit_xy = (z (-1) (-1) - z (-1) 1 - z 1 (-1) + z 1 1) / 4\<rparr>)"

definition fit_det :: "fit \<Rightarrow> real" where
  "fit_det f = 4 * fit_xx f * fit_yy f - (fit_xy f)\<^sup>2"

definition vertex_x :: "fit \<Rightarrow> real" where
  "vertex_x f = (- 2 * fit_yy f * fit_x f + fit_xy f * fit_y f) / fit_det f"

definition vertex_y :: "fit \<Rightarrow> real" where
  "vertex_y f = (- 2 * fit_xx f * fit_y f + fit_xy f * fit_x f) / fit_det f"

definition fit_valid :: "fit \<Rightarrow> bool" where
  "fit_valid f \<longleftrightarrow> \<bar>fit_det f\<bar> > 1 / 10 ^ 12 \<and> fit_xx f < 0 \<and> fit_yy f < 0 \<and> fit_det f > 0 \<and> \<bar>vertex_x f\<bar> \<le> 3 / 2 \<and> \<bar>vertex_y f\<bar> \<le> 3 / 2"

definition fit_value :: "real \<Rightarrow> fit \<Rightarrow> real \<Rightarrow> real \<Rightarrow> real" where
  "fit_value z0 f dx dy = z0 + fit_x f * dx + fit_y f * dy + fit_xx f * dx * dx + fit_yy f * dy * dy + fit_xy f * dx * dy"

definition solve_quadratic_peak :: "real list list \<Rightarrow> nat \<Rightarrow> nat \<Rightarrow> real \<times> real \<times> real \<times> bool" where
  "solve_quadratic_peak caf r c =
     (let f = fit_surface (caf_cell caf r c); valid = fit_valid f; dx = (if valid then vertex_x f else 0); dy = (if valid then vertex_y f else 0)
      in (dx, dy, fit_value (caf_cell caf r c 0 0) f dx dy, valid))"

section \<open>The tracker\<close>

record correction_slot =
  slot_valid :: bool
  fractional_lag :: real
  fine_doppler_hz :: "real option"
  slot_peak :: real

definition slots_init :: "nat \<Rightarrow> correction_slot list" where
  "slots_init n = replicate n \<lparr>slot_valid = False, fractional_lag = 0, fine_doppler_hz = Some 0, slot_peak = 0\<rparr>"

definition flat_argmax :: "real list \<Rightarrow> nat" where
  "flat_argmax xs = length (takeWhile (\<lambda>v. v \<noteq> Max (set xs)) xs)"

definition surface_columns :: "real list list \<Rightarrow> nat" where
  "surface_columns caf = (case caf of [] \<Rightarrow> 0 | row # _ \<Rightarrow> length row)"

definition refine_peak :: "real list list \<Rightarrow> nat \<Rightarrow> nat \<Rightarrow> real \<times> real \<times> real \<times> bool" where
  "refine_peak caf r c = (if r = 0 \<or> r = 32 \<or> c = 0 \<or> c = surface_columns caf - 1 then (0, 0, caf ! r ! c, False) else solve_quadratic_peak caf r c)"

definition doppler_at :: "real list \<Rightarrow> nat \<Rightarrow> real \<Rightarrow> fault + real option" where
  "doppler_at bins n x = (if bins = [] then Fail IndexError
     else Ok (if n = 1 then None else Some (hd bins + x * ((last bins - hd bins) / (real n - 1)))))"

definition process_surface :: "real list list \<Rightarrow> real list \<Rightarrow> nat \<Rightarrow> correction_slot list \<Rightarrow>
    fault + (real \<times> real option \<times> real \<times> bool) \<times> correction_slot list" where
  "process_surface caf bins channel slots =
     (let n = surface_columns caf
      in if length caf \<noteq> 33 \<or> n = 0 then Fail ValueError
         else let k = flat_argmax (concat caf); r = k div n; c = k mod n; (dx, dy, peak_val, valid) = refine_peak caf r c; lag = real r - 16 + dx
           in seqE (doppler_at bins n (real c + dy)) (\<lambda>doppler.
                if channel < length slots
                then Ok ((lag, doppler, peak_val, valid),
                  slots[channel := \<lparr>slot_valid = valid, fractional_lag = lag, fine_doppler_hz = doppler, slot_peak = peak_val\<rparr>])
                else Fail IndexError))"

lemma flat_argmax_first: "list_all (\<lambda>x. x < m) xs \<Longrightarrow> list_all (\<lambda>x. x \<le> m) ys \<Longrightarrow> flat_argmax (xs @ m # ys) = length xs"
proof -
  assume less: "list_all (\<lambda>x. x < m) xs" "list_all (\<lambda>x. x \<le> m) ys"
  then have "Max (set (xs @ m # ys)) = m" by (intro Max_eqI) (auto simp: list_all_iff less_imp_le)
  moreover have "takeWhile (\<lambda>v. v \<noteq> m) (xs @ m # ys) = xs" using less(1) by (induction xs) auto
  ultimately show ?thesis by (simp add: flat_argmax_def)
qed

section \<open>The fit is exact on quadratics\<close>

text \<open>A paraboloid with its summit \<open>p\<close> at \<open>(u, v)\<close>\<close>

definition paraboloid :: "real \<Rightarrow> real \<Rightarrow> real \<Rightarrow> real \<Rightarrow> real \<Rightarrow> real \<Rightarrow> real \<Rightarrow> real \<Rightarrow> real" where
  "paraboloid p a b c u v x y = p - (a * (x - u)\<^sup>2 + b * (x - u) * (y - v) + c * (y - v)\<^sup>2)"

lemma fit_paraboloid:
  assumes "\<forall>i \<in> {-1, 0, 1}. \<forall>j \<in> {-1, 0, 1}. z i j = paraboloid p a b c u v (of_int i) (of_int j)"
  shows "fit_surface z = \<lparr>fit_x = 2 * a * u + b * v, fit_y = b * u + 2 * c * v, fit_xx = - a, fit_yy = - c, fit_xy = - b\<rparr>"
proof -
  have z: "z i j = paraboloid p a b c u v (of_int i) (of_int j)" if "i \<in> {-1, 0, 1}" "j \<in> {-1, 0, 1}" for i j using assms that by blast
  show ?thesis by (simp add: fit_surface_def Let_def z paraboloid_def power2_eq_square) (simp add: algebra_simps)
qed

lemma vertex_paraboloid:
  assumes "f = \<lparr>fit_x = 2 * a * u + b * v, fit_y = b * u + 2 * c * v, fit_xx = - a, fit_yy = - c, fit_xy = - b\<rparr>" "b\<^sup>2 < 4 * a * c"
  shows "fit_det f = 4 * a * c - b\<^sup>2" "vertex_x f = u" "vertex_y f = v"
proof -
  show d: "fit_det f = 4 * a * c - b\<^sup>2" by (simp add: assms(1) fit_det_def)
  have ne: "4 * a * c - b\<^sup>2 \<noteq> 0" using assms(2) by simp
  have "- 2 * fit_yy f * fit_x f + fit_xy f * fit_y f = u * (4 * a * c - b\<^sup>2)" "- 2 * fit_xx f * fit_y f + fit_xy f * fit_x f = v * (4 * a * c - b\<^sup>2)"
    by (simp_all add: assms(1) algebra_simps power2_eq_square)
  then show "vertex_x f = u" "vertex_y f = v" using ne by (simp_all add: vertex_x_def vertex_y_def d)
qed

lemma value_paraboloid:
  assumes "f = \<lparr>fit_x = 2 * a * u + b * v, fit_y = b * u + 2 * c * v, fit_xx = - a, fit_yy = - c, fit_xy = - b\<rparr>"
  shows "fit_value (paraboloid p a b c u v 0 0) f u v = p"
  by (simp add: assms fit_value_def paraboloid_def power2_eq_square algebra_simps)

text \<open>
  sub-bin peaks are exact. If the surface is a paraboloid around its largest value, with a summit within one and a half bins of
  it, the tracker returns the lag and the Doppler of the summit itself, and its height, and publishes
  them in the slot of the channel.
\<close>
theorem sub_bin_peak_exact:
  assumes "length caf = 33" "surface_columns caf = n" "flat_argmax (concat caf) = r * n + k" "0 < r" "r < 32" "0 < k" "Suc k < n"
    and "list_all (\<lambda>i. list_all (\<lambda>j. caf_cell caf r k i j = paraboloid p a b c u v (of_int i) (of_int j)) [-1, 0, 1]) [-1, 0, 1]"
    and "0 < a" "0 < c" "1 / 10 ^ 12 < 4 * a * c - b\<^sup>2" "\<bar>u\<bar> \<le> 3 / 2" "\<bar>v\<bar> \<le> 3 / 2"
    and "bins \<noteq> []" "channel < length slots"
  shows "\<exists>slots'. process_surface caf bins channel slots =
      Ok ((real r + u - 16, Some (hd bins + (real k + v) * ((last bins - hd bins) / (real n - 1))), p, True), slots') \<and>
    slots' ! channel = \<lparr>slot_valid = True, fractional_lag = real r + u - 16,
      fine_doppler_hz = Some (hd bins + (real k + v) * ((last bins - hd bins) / (real n - 1))), slot_peak = p\<rparr>"
proof -
  have z: "\<forall>i \<in> {-1, 0, 1}. \<forall>j \<in> {-1, 0, 1}. caf_cell caf r k i j = paraboloid p a b c u v (of_int i) (of_int j)" using assms(8) by simp
  define f where "f = fit_surface (caf_cell caf r k)"
  have f: "f = \<lparr>fit_x = 2 * a * u + b * v, fit_y = b * u + 2 * c * v, fit_xx = - a, fit_yy = - c, fit_xy = - b\<rparr>"
    unfolding f_def by (rule fit_paraboloid [OF z])
  have pos: "b\<^sup>2 < 4 * a * c" using less_trans [OF _ assms(11), of 0] by simp
  note vx = vertex_paraboloid [OF f pos]
  have "fit_xx f = - a" "fit_yy f = - c" by (simp_all add: f)
  then have valid: "fit_valid f" unfolding fit_valid_def vx using assms(9-13) pos by simp
  have "caf_cell caf r k 0 0 = paraboloid p a b c u v 0 0" using z by simp
  then have "solve_quadratic_peak caf r k = (u, v, p, True)"
    using value_paraboloid [OF f, of p] by (simp add: solve_quadratic_peak_def f_def [symmetric] valid vx Let_def)
  then have "refine_peak caf r k = (u, v, p, True)" using assms(2,4-7) by (simp add: refine_peak_def)
  moreover have "(r * n + k) div n = r" "(r * n + k) mod n = k" using assms(7) by simp_all
  ultimately show ?thesis using assms(1-3,7,14,15) by (simp add: process_surface_def doppler_at_def Let_def add.commute)
qed

definition sample_surface :: "real list list" where
  "sample_surface = replicate 19 [0, 0, 0] @ map (\<lambda>i. map (paraboloid 10 1 0 1 (1 / 4) 0 i) [-1, 0, 1]) [-1, 0, 1] @ replicate 11 [0, 0, 0]"

theorem sub_bin_peak_exact_witness:
  "\<exists>slots'. process_surface sample_surface [-100, 0, 100] 0 (slots_init 1) = Ok ((17 / 4, Some 0, 10, True), slots')"
proof -
  have caf: "sample_surface = replicate 19 [0, 0, 0] @ [[119 / 16, 135 / 16, 119 / 16], [143 / 16, 159 / 16, 143 / 16], [135 / 16, 151 / 16, 135 / 16]] @ replicate 11 [0, 0, 0]"
    by (simp add: sample_surface_def paraboloid_def power2_eq_square)
  have "concat sample_surface = replicate 57 0 @ [119 / 16, 135 / 16, 119 / 16, 143 / 16] @ 159 / 16 # [143 / 16, 135 / 16, 151 / 16, 135 / 16] @ replicate 33 0"
    unfolding caf by (simp add: numeral_eq_Suc)
  then have "flat_argmax (concat sample_surface) = 20 * 3 + 1"
    using flat_argmax_first [where xs = "replicate 57 0 @ [119 / 16, 135 / 16, 119 / 16, 143 / 16]" and m = "159 / 16"] by (simp add: list_all_iff)
  moreover have "list_all (\<lambda>i. list_all (\<lambda>j. caf_cell sample_surface 20 1 i j = paraboloid 10 1 0 1 (1 / 4) 0 (of_int i) (of_int j)) [-1, 0, 1]) [-1, 0, 1]"
    by (simp add: caf_cell_def caf nth_append paraboloid_def power2_eq_square)
  ultimately show ?thesis
    using sub_bin_peak_exact [of sample_surface 3 20 1 10 1 0 1 "1 / 4" 0 "[-100, 0, 100]" 0 "slots_init 1"]
    by (auto simp: caf surface_columns_def slots_init_def numeral_eq_Suc)
qed

section \<open>Every correction is small\<close>

lemma zero_le_mult_cancel: "0 \<le> t * q \<Longrightarrow> 0 < t \<Longrightarrow> 0 \<le> (q :: real)"
  by (simp add: zero_le_mult_iff)

lemma vertex_raises:
  assumes "fit_valid f"
  shows "z0 \<le> fit_value z0 f (vertex_x f) (vertex_y f)"
proof -
  let ?x = "vertex_x f" and ?y = "vertex_y f" let ?A = "- fit_xx f" and ?C = "- fit_yy f" and ?B = "fit_xy f"
  have d: "0 < fit_det f" "0 < ?A" "0 < ?C" using assms by (simp_all add: fit_valid_def)
  have ex: "?x * fit_det f = - 2 * fit_yy f * fit_x f + ?B * fit_y f" "?y * fit_det f = - 2 * fit_xx f * fit_y f + ?B * fit_x f"
    using d(1) by (simp_all add: vertex_x_def vertex_y_def)
  have "(2 * fit_xx f * ?x + ?B * ?y + fit_x f) * fit_det f = 2 * fit_xx f * (?x * fit_det f) + ?B * (?y * fit_det f) + fit_x f * fit_det f"
    by (simp add: algebra_simps)
  also have "\<dots> = 0" unfolding ex by (simp add: fit_det_def algebra_simps power2_eq_square)
  finally have gx: "fit_x f = - (2 * fit_xx f * ?x + ?B * ?y)" using d(1) by simp
  have "(2 * fit_yy f * ?y + ?B * ?x + fit_y f) * fit_det f = 2 * fit_yy f * (?y * fit_det f) + ?B * (?x * fit_det f) + fit_y f * fit_det f"
    by (simp add: algebra_simps)
  also have "\<dots> = 0" unfolding ex by (simp add: fit_det_def algebra_simps power2_eq_square)
  finally have gy: "fit_y f = - (2 * fit_yy f * ?y + ?B * ?x)" using d(1) by simp
  have "fit_value z0 f ?x ?y - z0 = fit_x f * ?x + fit_y f * ?y + fit_xx f * ?x * ?x + fit_yy f * ?y * ?y + ?B * ?x * ?y"
    by (simp add: fit_value_def)
  also have "\<dots> = ?A * ?x\<^sup>2 - ?B * ?x * ?y + ?C * ?y\<^sup>2" unfolding gx gy by (simp add: algebra_simps power2_eq_square)
  finally have gain: "fit_value z0 f ?x ?y - z0 = ?A * ?x\<^sup>2 - ?B * ?x * ?y + ?C * ?y\<^sup>2" .
  have "4 * ?A * (?A * ?x\<^sup>2 - ?B * ?x * ?y + ?C * ?y\<^sup>2) = (2 * ?A * ?x - ?B * ?y)\<^sup>2 + fit_det f * ?y\<^sup>2"
    by (simp add: fit_det_def algebra_simps power2_eq_square)
  then have "0 \<le> 4 * ?A * (?A * ?x\<^sup>2 - ?B * ?x * ?y + ?C * ?y\<^sup>2)" using d(1) by simp
  moreover have "0 < 4 * ?A" using d(2) by simp
  ultimately have "0 \<le> ?A * ?x\<^sup>2 - ?B * ?x * ?y + ?C * ?y\<^sup>2" by (rule zero_le_mult_cancel)
  then show ?thesis using gain by linarith
qed

text \<open>
  On every surface the correction stays within one and a half bins of the largest value, and the height that is reported is at
  least that value.
\<close>

lemma correction_bounded:
  assumes "refine_peak caf r c = (dx, dy, h, valid)"
  shows "\<bar>dx\<bar> \<le> 3 / 2 \<and> \<bar>dy\<bar> \<le> 3 / 2 \<and> caf ! r ! c \<le> h \<and> (\<not> valid \<longrightarrow> dx = 0 \<and> dy = 0 \<and> h = caf ! r ! c)"
proof -
  have "caf_cell caf r c 0 0 = caf ! r ! c" by (simp add: caf_cell_def)
  moreover have "fit_value z0 f 0 0 = z0" for z0 f by (simp add: fit_value_def)
  ultimately show ?thesis
    using assms vertex_raises [of "fit_surface (caf_cell caf r c)" "caf ! r ! c"]
    by (auto simp: refine_peak_def solve_quadratic_peak_def Let_def fit_valid_def split: if_splits)
qed

end
