(* ===== verification/Cfar_Thresholds.thy ===== *)
theory Cfar_Thresholds
  imports Prelude
begin

text \<open>
  The adaptive decision thresholds of \<^verbatim>\<open>neyman_pearson_coordinator.py\<close>: circular histories of two statistics, and the
  background round that averages the lower part of the older entries. Numbers are exact reals; \<open>None\<close> is
  the mean of nothing, which the library makes a number that no comparison accepts.
\<close>

section \<open>State and ingestion\<close>

record np_coordinator =
  np_window :: nat
  np_guard :: nat
  np_active :: nat
  alpha_cfar :: real
  sphericity_buffer :: "real list"
  kurtosis_buffer :: "real list"
  np_write :: nat
  cells_filled :: nat
  sphericity_threshold :: real
  kurtosis_threshold :: real

text \<open>A window no larger than the guard is not used and not modelled: the numbers of cells are natural.\<close>

definition np_init :: "nat \<Rightarrow> nat \<Rightarrow> real \<Rightarrow> fault + np_coordinator" where
  "np_init window_size guard_cells p_fa =
     (let n = window_size - guard_cells in if n = 0 then Fail ZeroDivisionError else
      Ok \<lparr>np_window = window_size, np_guard = guard_cells, np_active = n, alpha_cfar = real n * (p_fa powr (- (1 / real n)) - 1),
          sphericity_buffer = replicate window_size 0, kurtosis_buffer = replicate window_size 0, np_write = 0, cells_filled = 0,
          sphericity_threshold = 5017 / 100, kurtosis_threshold = 65 / 10\<rparr>)"

definition ingest_metrics :: "real \<times> real \<Rightarrow> np_coordinator \<Rightarrow> np_coordinator" where
  "ingest_metrics m c =
     c\<lparr>sphericity_buffer := (sphericity_buffer c)[np_write c := fst m], kurtosis_buffer := (kurtosis_buffer c)[np_write c := snd m],
       np_write := (np_write c + 1) mod np_window c,
       cells_filled := (if cells_filled c < np_window c then cells_filled c + 1 else cells_filled c)\<rparr>"

section \<open>The background round\<close>

definition chronological :: "nat \<Rightarrow> real list \<Rightarrow> real list" where
  "chronological idx buf = drop idx buf @ take idx buf"

text \<open>A slice that ends \<open>g\<close> before the end; with no guard it ends at the start and is empty.\<close>

definition drop_newest :: "nat \<Rightarrow> real list \<Rightarrow> real list" where
  "drop_newest g xs = (if g = 0 then [] else take (length xs - g) xs)"

text \<open>The partition puts the \<open>k\<close> smallest first, in some order that neither mean nor deviation sees; \<open>k\<close> must be an index.\<close>

definition smallest :: "nat \<Rightarrow> real list \<Rightarrow> fault + real list" where
  "smallest k xs = (if k < length xs then Ok (take k (sort xs)) else Fail ValueError)"

definition np_mean :: "real list \<Rightarrow> real option" where
  "np_mean xs = (if xs = [] then None else Some (sum_list xs / real (length xs)))"

definition np_std :: "real list \<Rightarrow> real option" where
  "np_std xs = (case np_mean xs of None \<Rightarrow> None
     | Some m \<Rightarrow> Some (sqrt (sum_list (map (\<lambda>x. (x - m)\<^sup>2) xs) / real (length xs))))"

definition at_least :: "real \<Rightarrow> real option \<Rightarrow> real" where
  "at_least low v = (case v of None \<Rightarrow> low | Some x \<Rightarrow> max low x)"

definition trim_cutoff :: "nat \<Rightarrow> nat" where
  "trim_cutoff n = n * 95 div 100"

definition new_sphericity :: "real \<Rightarrow> real list \<Rightarrow> real option" where
  "new_sphericity alpha xs = map_option (\<lambda>m. m + m * alpha * (5 / 100)) (np_mean xs)"

definition new_kurtosis :: "real list \<Rightarrow> real option" where
  "new_kurtosis xs = (case (np_mean xs, np_std xs) of (Some m, Some sd) \<Rightarrow> Some (m + 475 / 100 * sd) | _ \<Rightarrow> None)"

definition optimization_round :: "np_coordinator \<Rightarrow> fault + np_coordinator" where
  "optimization_round c =
     (if cells_filled c < np_window c then Ok c
      else let idx = np_write c; k = trim_cutoff (np_active c)
        in seqE (smallest k (drop_newest (np_guard c) (chronological idx (sphericity_buffer c)))) (\<lambda>sph.
           seqE (smallest k (drop_newest (np_guard c) (chronological idx (kurtosis_buffer c)))) (\<lambda>kur.
             Ok (c\<lparr>sphericity_threshold := at_least 20 (new_sphericity (alpha_cfar c) sph),
                   kurtosis_threshold := at_least (35 / 10) (new_kurtosis kur)\<rparr>))))"

definition decision_boundaries :: "np_coordinator \<Rightarrow> real \<times> real" where
  "decision_boundaries c = (sphericity_threshold c, kurtosis_threshold c)"

section \<open>The thresholds of a history\<close>

definition np_holds :: "nat \<Rightarrow> nat \<Rightarrow> real \<Rightarrow> (real \<times> real) list \<Rightarrow> np_coordinator \<Rightarrow> bool" where
  "np_holds w g p ms c \<longleftrightarrow> np_window c = w \<and> np_guard c = g \<and> np_active c = w - g \<and>
     alpha_cfar c = real (w - g) * (p powr (- (1 / real (w - g))) - 1) \<and>
     ring_holds w (sphericity_buffer c) (map fst ms) \<and> ring_holds w (kurtosis_buffer c) (map snd ms) \<and>
     np_write c = length ms mod w \<and> cells_filled c = min w (length ms)"

lemma np_holds_init: "np_init w g p = Ok c \<Longrightarrow> 0 < w \<Longrightarrow> np_holds w g p [] c"
  by (auto simp: np_init_def np_holds_def ring_holds_init Let_def split: if_splits)

lemma ingest_holds: "0 < w \<Longrightarrow> np_holds w g p ms c \<Longrightarrow> np_holds w g p (ms @ [m]) (ingest_metrics m c)"
  using ring_holds_step [of w "sphericity_buffer c" "map fst ms" "fst m"] ring_holds_step [of w "kurtosis_buffer c" "map snd ms" "snd m"]
  by (auto simp: np_holds_def ingest_metrics_def mod_Suc_eq)

lemma ingest_all_holds: "0 < w \<Longrightarrow> np_holds w g p ms c \<Longrightarrow> np_holds w g p (ms @ xs) (fold ingest_metrics xs c)"
proof (induction xs arbitrary: ms c)
  case (Cons x xs)
  from Cons.IH [OF Cons.prems(1) ingest_holds [OF Cons.prems, of x]] show ?case by simp
qed simp

lemma ring_chronological: "ring_holds w buf ys \<Longrightarrow> w \<le> length ys \<Longrightarrow> chronological (length ys mod w) buf = last_n w ys"
  by (simp add: ring_holds_def chronological_def)

text \<open>The background of a history: its last window without the newest cells\<close>

definition background :: "nat \<Rightarrow> nat \<Rightarrow> real list \<Rightarrow> real list" where
  "background w g ys = take (w - g) (last_n w ys)"

lemma sorted_few_above:
  assumes "k \<le> length (filter (\<lambda>x. x \<le> b) xs)" "y \<in> set (take k (sort xs))"
  shows "y \<le> (b :: real)"
proof (rule ccontr)
  let ?s = "sort xs"
  assume "\<not> y \<le> b"
  obtain i where i: "i < k" "i < length ?s" "y = ?s ! i" using assms(2) by (auto simp: in_set_conv_nth)
  have "b < x" if el: "x \<in> set (drop i ?s)" for x
  proof -
    obtain j where "j < length (drop i ?s)" "x = drop i ?s ! j" using el by (metis in_set_conv_nth)
    then have "i + j < length ?s" "x = ?s ! (i + j)" using i(2) by simp_all
    then show ?thesis using sorted_nth_mono [of ?s i "i + j"] \<open>\<not> y \<le> b\<close> i(3) by simp
  qed
  then have "filter (\<lambda>x. x \<le> b) (drop i ?s) = []" by (auto simp: filter_empty_conv not_le)
  then have "length (filter (\<lambda>x. x \<le> b) ?s) = length (filter (\<lambda>x. x \<le> b) (take i ?s))"
    by (metis append_Nil2 append_take_drop_id filter_append)
  also have "\<dots> \<le> i" by (rule order_trans [OF length_filter_le]) simp
  finally have "length (filter (\<lambda>x. x \<le> b) ?s) < k" using i(1) by simp
  moreover have "length (filter (\<lambda>x. x \<le> b) ?s) = length (filter (\<lambda>x. x \<le> b) xs)"
    by (simp add: filter_sort)
  ultimately show False using assms(1) by simp
qed

lemma mean_le: "xs \<noteq> [] \<Longrightarrow> (\<And>x. x \<in> set xs \<Longrightarrow> x \<le> b) \<Longrightarrow> sum_list xs / real (length xs) \<le> (b :: real)"
proof -
  assume "xs \<noteq> []" "\<And>x. x \<in> set xs \<Longrightarrow> x \<le> b"
  then have "sum_list xs \<le> sum_list (map (\<lambda>_. b) xs)" using sum_list_mono [of xs "\<lambda>x. x" "\<lambda>_. b"] by simp
  then show ?thesis using \<open>xs \<noteq> []\<close> by (simp add: divide_le_eq sum_list_triv mult.commute)
qed

text \<open>
  the thresholds come from the past only. Whatever was ingested, once the window is full a round succeeds and sets
  the sphericity threshold from the trimmed mean of the window's older cells, so that the newest \<open>g\<close> readings move
  neither threshold; and a burst in the background that is no longer than the trimmed twentieth leaves the threshold at or below the one of
  the level \<open>b\<close> that all other readings stay under.
\<close>
theorem thresholds_from_background:
  assumes "np_init w g p = Ok c0" "0 < g" "2 \<le> w - g" "0 < p" "p \<le> 1" "w \<le> length ms"
    and "trim_cutoff (w - g) \<le> length (filter (\<lambda>x. x \<le> b) (background w g (map fst ms)))" "0 \<le> b"
  shows "\<exists>c s. optimization_round (fold ingest_metrics ms c0) = Ok c \<and>
    s = take (trim_cutoff (w - g)) (sort (background w g (map fst ms))) \<and>
    decision_boundaries c = (at_least 20 (new_sphericity (alpha_cfar c0) s),
      at_least (35 / 10) (new_kurtosis (take (trim_cutoff (w - g)) (sort (background w g (map snd ms)))))) \<and>
    sphericity_threshold c \<le> max 20 (b * (1 + alpha_cfar c0 * (5 / 100)))"
proof -
  let ?c = "fold ingest_metrics ms c0" let ?k = "trim_cutoff (w - g)"
  have w: "0 < w" using assms(3) by simp
  note h = ingest_all_holds [OF w np_holds_init [OF assms(1) w], of ms]
  have alpha: "alpha_cfar ?c = alpha_cfar c0" using h np_holds_init [OF assms(1) w] by (simp add: np_holds_def)
  have rings: "ring_holds w (sphericity_buffer ?c) (map fst ms)" "ring_holds w (kurtosis_buffer ?c) (map snd ms)"
    using h by (simp_all add: np_holds_def)
  have old: "drop_newest g (chronological (length ms mod w) (sphericity_buffer ?c)) = background w g (map fst ms)"
    "drop_newest g (chronological (length ms mod w) (kurtosis_buffer ?c)) = background w g (map snd ms)"
    using ring_chronological [OF rings(1)] ring_chronological [OF rings(2)] assms(2,6) by (simp_all add: drop_newest_def background_def min_absorb1)
  have len: "length (background w g (map f ms)) = w - g" for f :: "real \<times> real \<Rightarrow> real" using assms(6) by (simp add: background_def)
  have k: "?k < w - g" "0 < ?k" using assms(3) by (auto simp: trim_cutoff_def div_greater_zero_iff)
  define s where "s = take ?k (sort (background w g (map fst ms)))"
  have small: "smallest ?k (background w g (map f ms)) = Ok (take ?k (sort (background w g (map f ms))))" for f :: "real \<times> real \<Rightarrow> real"
    using k(1) by (simp add: smallest_def len)
  have round: "optimization_round ?c = Ok (?c\<lparr>sphericity_threshold := at_least 20 (new_sphericity (alpha_cfar ?c) s),
      kurtosis_threshold := at_least (35 / 10) (new_kurtosis (take ?k (sort (background w g (map snd ms)))))\<rparr>)"
    using h assms(6) by (simp add: optimization_round_def np_holds_def old small s_def Let_def)
  have "s \<noteq> []" using k len [of fst] by (simp add: s_def flip: length_0_conv)
  then have m: "np_mean s = Some (sum_list s / real (length s))" "sum_list s / real (length s) \<le> b"
    using mean_le [of s b] sorted_few_above [OF assms(7)] by (simp_all add: np_mean_def s_def)
  have "1 \<le> p powr (- (1 / real (w - g)))" using powr_mono_both' [of p 1 "1 / real (w - g)" 0] assms(4,5) by (simp add: powr_minus_divide powr_le1 field_simps)
  then have "0 \<le> alpha_cfar c0" using np_holds_init [OF assms(1) w] by (simp add: np_holds_def)
  then have "sum_list s / real (length s) * (1 + alpha_cfar c0 * (5 / 100)) \<le> b * (1 + alpha_cfar c0 * (5 / 100))"
    by (intro mult_right_mono m(2)) simp
  then have "at_least 20 (new_sphericity (alpha_cfar c0) s) \<le> max 20 (b * (1 + alpha_cfar c0 * (5 / 100)))"
    by (simp add: at_least_def new_sphericity_def m(1) algebra_simps)
  then show ?thesis using round alpha by (simp add: decision_boundaries_def s_def)
qed

theorem thresholds_from_background_witness:
  "\<exists>c0 c. np_init 4 2 (1 / 2) = Ok c0 \<and> optimization_round (fold ingest_metrics [(30, 4), (90, 4), (99, 9), (99, 9)] c0) = Ok c \<and>
     sphericity_threshold c \<le> max 20 (30 * (1 + alpha_cfar c0 * (5 / 100)))"
proof -
  obtain c0 where c0: "np_init 4 2 (1 / 2) = Ok c0" by (simp add: np_init_def)
  have "background 4 2 (map fst [(30 :: real, 4 :: real), (90, 4), (99, 9), (99, 9)]) = [30, 90]" by (simp add: background_def last_n_def)
  then show ?thesis
    using thresholds_from_background [OF c0, of "[(30, 4), (90, 4), (99, 9), (99, 9)]" 30] c0 by (auto simp: trim_cutoff_def)
qed

text \<open>Without a guard the slice is empty, and the round fails: the thread that runs it ends.\<close>

lemma unguarded_round_fails: "np_init w 0 p = Ok c0 \<Longrightarrow> w \<le> length ms \<Longrightarrow> optimization_round (fold ingest_metrics ms c0) = Fail ValueError"
proof (cases "w = 0")
  case False
  assume c0: "np_init w 0 p = Ok c0" and full: "w \<le> length ms"
  have "np_holds w 0 p ([] @ ms) (fold ingest_metrics ms c0)" using False by (intro ingest_all_holds np_holds_init [OF c0]) simp_all
  then show ?thesis using full by (simp add: optimization_round_def np_holds_def drop_newest_def smallest_def Let_def)
qed (simp add: np_init_def)

end
