(* ===== verification/Ledger.thy ===== *)
theory Ledger
  imports Prelude
begin

text \<open>
  The incident ledger \<^verbatim>\<open>certin_incident_spoofing.json\<close> and the security log: the programs that
  append hash-chained entries (\<^verbatim>\<open>cluster_failover_broker.py\<close>, \<^verbatim>\<open>secure_model_deployer.py\<close>,
  \<^verbatim>\<open>secure_handshake_interceptor.py\<close>, \<^verbatim>\<open>space_shield_supervisor.py\<close>,
  \<^verbatim>\<open>rf_threat_simulator.py\<close>), those that audit it (\<^verbatim>\<open>compact_worm_ledger.py\<close>,
  \<^verbatim>\<open>verify_log_integrity.py\<close>), and those that restructure it (\<^verbatim>\<open>secure_ledger_rotator.py\<close>,
  \<^verbatim>\<open>disaster_recovery_restore.py\<close>).

  A file is a list of lines, a line is what \<^verbatim>\<open>json.loads\<close> makes of it, and a JSON document is
  kept on one line. \<open>digest\<close> is SHA-256 of the sorted serialisation of a record, \<open>chash\<close> the
  one of the recovery program, which serialises differently; both are parameters. Input and
  output errors are not modelled.
\<close>

section \<open>Files\<close>

datatype item = Rec payload | NotRec json

datatype line = Blank | Garbage | Doc item | Arr "item list"

type_synonym ledger_file = "line list"

definition ZERO :: json where "ZERO = JStr (replicate 64 (CHR ''0''))"

definition field :: "payload \<Rightarrow> string \<Rightarrow> json \<Rightarrow> json" where
  "field m k d = (case m k of Some v \<Rightarrow> v | None \<Rightarrow> d)"

text \<open>
  \<^verbatim>\<open>json.loads\<close> of a whole file: one document, and nothing else, parses; two documents are
  \<^verbatim>\<open>Extra data\<close>.
\<close>

definition nonblank :: "ledger_file \<Rightarrow> line list" where
  "nonblank f = filter (\<lambda>l. l \<noteq> Blank) f"

definition load_whole :: "ledger_file \<Rightarrow> line option" where
  "load_whole f = (case nonblank f of [Doc d] \<Rightarrow> Some (Doc d) | [Arr xs] \<Rightarrow> Some (Arr xs) | _ \<Rightarrow> None)"

text \<open>Linking and sealing an entry: the link field, then the hash over everything else.\<close>

definition seal :: "(payload \<Rightarrow> string) \<Rightarrow> string \<Rightarrow> json \<Rightarrow> payload \<Rightarrow> payload" where
  "seal digest key prev incident =
     (let m = incident(key \<mapsto> prev) in m(''hash'' \<mapsto> JStr (digest m)))"

definition append_entry :: "ledger_file \<Rightarrow> payload \<Rightarrow> ledger_file" where
  "append_entry f m = f @ [Doc (Rec m)]"

section \<open>Programs that append\<close>

text \<open>The failover broker takes the hash of the last line, and gives up when that is no record.\<close>

definition broker_last :: "ledger_file \<Rightarrow> fault + json" where
  "broker_last f = (if f = [] then Ok ZERO
     else case last f of
       Doc (Rec m) \<Rightarrow> Ok (field m ''hash'' ZERO)
     | Doc (NotRec v) \<Rightarrow> Fail AttributeError
     | Arr xs \<Rightarrow> Fail AttributeError
     | _ \<Rightarrow> Fail DecodeError)"

definition failover_incident :: "json \<Rightarrow> string \<Rightarrow> string \<Rightarrow> payload" where
  "failover_incident trigger_time primary standby =
     [''timestamp'' \<mapsto> trigger_time, ''incident_type'' \<mapsto> JStr ''CLUSTER_FAILOVER_TRIGGER'',
      ''failed_node'' \<mapsto> JStr primary, ''promoted_node'' \<mapsto> JStr standby,
      ''reason'' \<mapsto> JStr ''MISSED_UDP_HEARTBEATS_30MS'']"

definition commit_failover :: "(payload \<Rightarrow> string) \<Rightarrow> json \<Rightarrow> string \<Rightarrow> string \<Rightarrow> ledger_file \<Rightarrow> ledger_file" where
  "commit_failover digest trigger_time primary standby f =
     (case broker_last f of
        Fail e \<Rightarrow> f
      | Ok h \<Rightarrow> append_entry f (seal digest ''previous_hash'' h (failover_incident trigger_time primary standby)))"

text \<open>
  The model deployer reads the file as one document first and falls back to the last line that
  is one; \<open>None\<close> is the exception that abandons the commit.
\<close>

fun item_hash :: "item \<Rightarrow> json option" where
  "item_hash (Rec m) = Some (field m ''hash'' ZERO)"
| "item_hash (NotRec v) = None"

fun last_line_hash :: "line list \<Rightarrow> json option" where
  "last_line_hash [] = Some ZERO"
| "last_line_hash (Doc d # ls) = item_hash d"
| "last_line_hash (Arr xs # ls) = None"
| "last_line_hash (l # ls) = last_line_hash ls"

definition deployer_last :: "ledger_file \<Rightarrow> json option" where
  "deployer_last f = (if nonblank f = [] then Some ZERO
     else case load_whole f of
       Some (Arr xs) \<Rightarrow> if xs = [] then Some ZERO else item_hash (last xs)
     | Some (Doc (Rec m)) \<Rightarrow> Some (field m ''hash'' ZERO)
     | Some l \<Rightarrow> Some ZERO
     | None \<Rightarrow> last_line_hash (rev f))"

definition violation_incident :: "json \<Rightarrow> string \<Rightarrow> string \<Rightarrow> payload" where
  "violation_incident now model_name reason =
     [''timestamp'' \<mapsto> now, ''incident_type'' \<mapsto> JStr ''SUPPLY_CHAIN_VIOLATION'',
      ''threat_vector'' \<mapsto> JStr ''TAMPERED_ML_TENSOR'', ''quarantined_file'' \<mapsto> JStr model_name,
      ''reason'' \<mapsto> JStr reason, ''action'' \<mapsto> JStr ''HOTSWAP_PIPELINE_ABORTED'']"

definition violation_entry :: "(payload \<Rightarrow> string) \<Rightarrow> json \<Rightarrow> string \<Rightarrow> string \<Rightarrow> ledger_file \<Rightarrow> payload option" where
  "violation_entry digest now model_name reason f =
     (case deployer_last f of
        None \<Rightarrow> None
      | Some h \<Rightarrow> Some (seal digest ''previous_hash'' h (violation_incident now model_name reason)))"

definition commit_violation :: "(payload \<Rightarrow> string) \<Rightarrow> json \<Rightarrow> string \<Rightarrow> string \<Rightarrow> ledger_file \<Rightarrow> ledger_file" where
  "commit_violation digest now model_name reason f =
     (case violation_entry digest now model_name reason f of None \<Rightarrow> f | Some e \<Rightarrow> append_entry f e)"

text \<open>The handshake interceptor only reads the file as one document, and swallows the failure.\<close>

definition handshake_last :: "ledger_file \<Rightarrow> json" where
  "handshake_last f = (case load_whole f of
       Some (Arr xs) \<Rightarrow> if xs = [] then ZERO else (case item_hash (last xs) of Some h \<Rightarrow> h | None \<Rightarrow> ZERO)
     | Some (Doc (Rec m)) \<Rightarrow> field m ''hash'' ZERO
     | _ \<Rightarrow> ZERO)"

definition handshake_incident :: "json \<Rightarrow> int \<Rightarrow> string \<Rightarrow> string \<Rightarrow> payload" where
  "handshake_incident now node reason quarantine_id =
     [''node_id'' \<mapsto> JInt node, ''reason'' \<mapsto> JStr reason, ''quarantine_id'' \<mapsto> JStr quarantine_id,
      ''status'' \<mapsto> JStr ''DROPPED'', ''timestamp'' \<mapsto> now,
      ''incident_type'' \<mapsto> JStr ''SECURE_HANDSHAKE_VIOLATION'']"

definition commit_handshake :: "(payload \<Rightarrow> string) \<Rightarrow> json \<Rightarrow> int \<Rightarrow> string \<Rightarrow> string \<Rightarrow> ledger_file \<Rightarrow> ledger_file" where
  "commit_handshake digest now node reason quarantine_id f =
     append_entry f (seal digest ''previous_hash'' (handshake_last f) (handshake_incident now node reason quarantine_id))"

text \<open>The supervisor never looks at the chain.\<close>

definition commit_fatal :: "(payload \<Rightarrow> string) \<Rightarrow> json \<Rightarrow> string \<Rightarrow> ledger_file \<Rightarrow> ledger_file" where
  "commit_fatal digest now failing_module f =
     append_entry f (seal digest ''previous_hash'' ZERO
       [''timestamp'' \<mapsto> now, ''incident_type'' \<mapsto> JStr ''SUPERVISOR_CRITICAL_FAILURE'',
        ''failing_module'' \<mapsto> JStr failing_module, ''action'' \<mapsto> JStr ''NODE_FALLBACK_INITIATED'',
        ''reason'' \<mapsto> JStr ''MAXIMUM_RESTART_THRESHOLD_EXCEEDED''])"

text \<open>The simulator's log links its entries by another key, \<^verbatim>\<open>prev_hash\<close>.\<close>

definition simulator_last :: "ledger_file \<Rightarrow> json" where
  "simulator_last f = (if f = [] then ZERO
     else case last f of Doc (Rec m) \<Rightarrow> field m ''hash'' ZERO | _ \<Rightarrow> ZERO)"

record certin_report =
  rep_timestamp :: string
  rep_scenario :: string
  rep_itu :: json
  rep_glr_alert :: bool
  rep_verdict :: string
  rep_score :: json
  rep_telemetry :: json
  rep_causes :: json

definition certin_entry :: "certin_report \<Rightarrow> payload" where
  "certin_entry r =
     [''timestamp'' \<mapsto> JStr (rep_timestamp r),
      ''guideline_compliance'' \<mapsto> JStr ''CERT-In/SIA-India Space Cyber Security Framework (Feb 2026)'',
      ''facility_id'' \<mapsto> JStr ''IN-GS-KA-01'', ''node_type'' \<mapsto> JStr ''NavIC L5 / S-band SDR Receiver Agent'',
      ''monitoring_scenario'' \<mapsto> JStr (rep_scenario r), ''itu_compliance'' \<mapsto> rep_itu r,
      ''glr_status'' \<mapsto> JStr (if rep_glr_alert r then ''ALERT'' else ''NOMINAL''),
      ''incident_details'' \<mapsto> JObj [(''threat_detected'', JBool (rep_verdict r \<noteq> ''NORMAL'')),
         (''threat_category'', JStr (rep_verdict r)), (''severity_score_pct'', rep_score r),
         (''telemetry'', rep_telemetry r), (''root_causes'', rep_causes r)],
      ''compliance_action'' \<mapsto> JObj [(''cert_in_6h_report_required'', JBool (rep_verdict r \<noteq> ''NORMAL'')),
         (''cert_in_reporting_deadline'', JStr ''6 Hours from Detection''),
         (''log_retention_period'', JStr ''180 Days Mandatory''),
         (''security_certification'', JStr ''ISO/IEC 27001 & FIPS 140-3 Hardware Compliant'')]]"

definition write_certin_log :: "(payload \<Rightarrow> string) \<Rightarrow> certin_report \<Rightarrow> ledger_file \<Rightarrow> ledger_file" where
  "write_certin_log digest r f =
     append_entry f (seal digest ''prev_hash'' (simulator_last f) (certin_entry r))"

section \<open>Programs that audit\<close>

text \<open>The compactor's records: one document or its elements, otherwise line by line.\<close>

fun line_items :: "line list \<Rightarrow> fault + item list" where
  "line_items [] = Ok []"
| "line_items (Blank # ls) = line_items ls"
| "line_items (Garbage # ls) = Fail DecodeError"
| "line_items (Doc d # ls) = seqE (line_items ls) (\<lambda>ds. Ok (d # ds))"
| "line_items (Arr xs # ls) = seqE (line_items ls) (\<lambda>ds. Ok (NotRec (JList []) # ds))"

definition ledger_records :: "ledger_file \<Rightarrow> fault + item list" where
  "ledger_records f = (case load_whole f of
       Some (Arr xs) \<Rightarrow> Ok xs | Some (Doc d) \<Rightarrow> Ok [d] | _ \<Rightarrow> line_items f)"

fun sweep :: "(payload \<Rightarrow> string) \<Rightarrow> bool \<Rightarrow> json \<Rightarrow> item list \<Rightarrow> fault + json" where
  "sweep digest first last_seen [] = Ok last_seen"
| "sweep digest first last_seen (NotRec v # ds) =
     Fail (case v of JList xs \<Rightarrow> TypeError | _ \<Rightarrow> AttributeError)"
| "sweep digest first last_seen (Rec m # ds) =
     (let claimed_hash = m ''hash''; r = m(''hash'' := None);
          claimed_prev = field r ''previous_hash'' ZERO;
          actual = JStr (digest r)
      in if \<not> first \<and> claimed_prev \<noteq> last_seen then Fail ValueError
         else if claimed_hash \<noteq> Some actual then Fail ValueError
         else sweep digest False actual ds)"

definition verify_chain :: "(payload \<Rightarrow> string) \<Rightarrow> ledger_file \<Rightarrow> fault + json" where
  "verify_chain digest f = (if nonblank f = [] then Ok ZERO
     else seqE (ledger_records f) (sweep digest True ZERO))"

text \<open>
  The log verifier, with the exceptions of its report line: the nested \<^verbatim>\<open>get\<close> needs an object
  and the padded fields need a format. A line's result is its computed hash and whether it
  failed a check.
\<close>

fun padded_ok :: "json \<Rightarrow> bool" where
  "padded_ok JNull = False"
| "padded_ok (JList xs) = False"
| "padded_ok (JObj m) = False"
| "padded_ok v = True"

definition verdict_of :: "payload \<Rightarrow> fault + json" where
  "verdict_of m = (case field m ''incident_details'' (JObj []) of
       JObj d \<Rightarrow> Ok (field (map_of d) ''threat_category'' (JStr ''UNKNOWN''))
     | _ \<Rightarrow> Fail AttributeError)"

definition check_entry :: "(payload \<Rightarrow> string) \<Rightarrow> json \<Rightarrow> payload \<Rightarrow> fault + (json \<times> bool)" where
  "check_entry digest prev_computed m =
     seqE (verdict_of m) (\<lambda>verdict.
       let computed = JStr (digest (m(''hash'' := None)));
           hash_mismatch = (computed \<noteq> field m ''hash'' (JStr ''''));
           chain_broken = (field m ''prev_hash'' (JStr '''') \<noteq> prev_computed)
       in if padded_ok (field m ''monitoring_scenario'' (JStr ''UNKNOWN'')) \<and> padded_ok verdict
          then Ok (computed, hash_mismatch \<or> chain_broken) else Fail TypeError)"

fun verify_lines :: "(payload \<Rightarrow> string) \<Rightarrow> json \<Rightarrow> nat \<Rightarrow> nat \<Rightarrow> ledger_file \<Rightarrow> fault + (nat \<times> nat)" where
  "verify_lines digest prev processed errors [] = Ok (processed, errors)"
| "verify_lines digest prev processed errors (Blank # ls) = verify_lines digest prev processed errors ls"
| "verify_lines digest prev processed errors (Garbage # ls) =
     verify_lines digest prev (processed + 1) (errors + 1) ls"
| "verify_lines digest prev processed errors (Doc (Rec m) # ls) =
     seqE (check_entry digest prev m) (\<lambda>(computed, failed).
       verify_lines digest computed (processed + 1) (if failed then errors + 1 else errors) ls)"
| "verify_lines digest prev processed errors (l # ls) = Fail AttributeError"

definition verify_log_integrity :: "(payload \<Rightarrow> string) \<Rightarrow> ledger_file option \<Rightarrow> fault + bool" where
  "verify_log_integrity digest logfile = (case logfile of
       None \<Rightarrow> Ok False
     | Some f \<Rightarrow> seqE (verify_lines digest ZERO 0 0 f) (\<lambda>(processed, errors). Ok (errors = 0 \<and> processed > 0)))"

section \<open>Programs that restructure\<close>

text \<open>The ledger on disk and the archived ledgers, oldest first.\<close>

record worm =
  active :: "ledger_file option"
  archives :: "ledger_file list"

definition anchor :: "(payload \<Rightarrow> string) \<Rightarrow> json \<Rightarrow> string \<Rightarrow> string \<Rightarrow> json \<Rightarrow> ledger_file" where
  "anchor digest now kind status final_hash =
     (let m = [''timestamp'' \<mapsto> now, ''incident_type'' \<mapsto> JStr kind, ''previous_hash'' \<mapsto> final_hash,
               ''status'' \<mapsto> JStr status]
      in [Doc (Rec (m(''hash'' \<mapsto> JStr (digest m))))])"

definition contents :: "worm \<Rightarrow> ledger_file" where
  "contents w = (case active w of None \<Rightarrow> [] | Some f \<Rightarrow> f)"

text \<open>
  Compaction: the count, the renaming, the audit with the new ledger, the archive. The renaming
  fails when the file has gone since the count, which ends the program; a failed audit renames
  the file back, over whatever has been written meanwhile, and ends it too.
\<close>

definition compaction_due :: "nat \<Rightarrow> worm \<Rightarrow> bool" where
  "compaction_due max_entries w = (case active w of
       None \<Rightarrow> False
     | Some f \<Rightarrow> \<not> length (nonblank f) < max_entries)"

definition set_aside :: "worm \<Rightarrow> (worm \<times> ledger_file) option" where
  "set_aside w = (case active w of None \<Rightarrow> None | Some f \<Rightarrow> Some (w\<lparr>active := None\<rparr>, f))"

definition rebaseline :: "(payload \<Rightarrow> string) \<Rightarrow> json \<Rightarrow> ledger_file \<Rightarrow> worm \<Rightarrow> worm \<times> bool" where
  "rebaseline digest now f w = (case verify_chain digest f of
       Fail e \<Rightarrow> (w\<lparr>active := Some f\<rparr>, True)
     | Ok final_hash \<Rightarrow>
         (w\<lparr>active := Some (anchor digest now ''BASELINE_COMPACTION_ANCHOR'' ''CHAIN_AUDIT_PASSED'' final_hash)\<rparr>, False))"

definition cold_store :: "ledger_file \<Rightarrow> worm \<Rightarrow> worm" where
  "cold_store f w = w\<lparr>archives := archives w @ [f]\<rparr>"

text \<open>The whole program, run alone; the flag says whether it exited with a failure.\<close>

definition execute_compaction :: "(payload \<Rightarrow> string) \<Rightarrow> nat \<Rightarrow> json \<Rightarrow> worm \<Rightarrow> worm \<times> bool" where
  "execute_compaction digest max_entries now w =
     (if \<not> compaction_due max_entries w then (w, False)
      else case set_aside w of
        None \<Rightarrow> (w, True)
      | Some (w', f) \<Rightarrow> (case rebaseline digest now f w' of
            (w2, True) \<Rightarrow> (w2, True)
          | (w2, False) \<Rightarrow> (cold_store f w2, False)))"

definition extract_final_block_hash :: "ledger_file \<Rightarrow> json" where
  "extract_final_block_hash f = (case last_line_hash (rev f) of Some h \<Rightarrow> h | None \<Rightarrow> ZERO)"

definition resume_chain :: "(payload \<Rightarrow> string) \<Rightarrow> json \<Rightarrow> ledger_file \<Rightarrow> worm \<Rightarrow> worm" where
  "resume_chain digest now f w =
     w\<lparr>active := Some (anchor digest now ''LEDGER_ROTATION_GENESIS'' ''SECURE_CHAIN_RESUMED''
         (extract_final_block_hash f))\<rparr>"

definition perform_rotation :: "(payload \<Rightarrow> string) \<Rightarrow> json \<Rightarrow> worm \<Rightarrow> worm" where
  "perform_rotation digest now w = (case set_aside w of
       None \<Rightarrow> w
     | Some (w', f) \<Rightarrow> cold_store f (resume_chain digest now f w'))"

text \<open>
  Recovery. Its chain check hashes the whole block, the stored hash included, and writes a
  missing link into the block; \<open>None\<close> as start is the absolute genesis.
\<close>

definition GENESIS_HASH :: string where
  "GENESIS_HASH = ''GENESIS_ROOT_000000000000000000000000000000000000000000000000000000''"

definition link_of :: "payload \<Rightarrow> json option" where
  "link_of m = (case m ''previous_hash'' of Some JNull \<Rightarrow> None | v \<Rightarrow> v)"

fun verify_ledger_chain :: "(item \<Rightarrow> string) \<Rightarrow> bool \<Rightarrow> string option \<Rightarrow> item list \<Rightarrow>
    fault + (item list \<times> string option)" where
  "verify_ledger_chain chash first last_hash [] = Ok ([], last_hash)"
| "verify_ledger_chain chash first last_hash (b # bs) =
     (if first \<and> last_hash = None
      then seqE (verify_ledger_chain chash False (Some (chash b)) bs) (\<lambda>(bs', h). Ok (b # bs', h))
      else case b of
        NotRec v \<Rightarrow> Fail AttributeError
      | Rec m \<Rightarrow>
          (case last_hash of
             None \<Rightarrow> seqE (verify_ledger_chain chash False (Some (chash b)) bs) (\<lambda>(bs', h). Ok (b # bs', h))
           | Some lh \<Rightarrow>
               (let b' = (if link_of m = None then Rec (m(''previous_hash'' \<mapsto> JStr lh)) else b);
                    expected = (case link_of m of None \<Rightarrow> JStr lh | Some v \<Rightarrow> v)
                in if expected \<noteq> JStr lh then Fail ValueError
                   else seqE (verify_ledger_chain chash False (Some (chash b')) bs) (\<lambda>(bs', h). Ok (b' # bs', h)))))"

text \<open>Every failure while an archive is checked ends the program.\<close>

fun crawl_archives :: "(item \<Rightarrow> string) \<Rightarrow> string \<Rightarrow> ledger_file list \<Rightarrow> fault + string" where
  "crawl_archives chash baseline [] = Ok baseline"
| "crawl_archives chash baseline (f # fs) = (case load_whole f of
       Some (Arr data) \<Rightarrow>
         if (case data of Rec m # _ \<Rightarrow> link_of m \<noteq> None \<and> link_of m \<noteq> Some (JStr baseline) \<and> baseline \<noteq> GENESIS_HASH
             | NotRec v # _ \<Rightarrow> True | [] \<Rightarrow> False)
         then Fail SystemExit
         else (case verify_ledger_chain chash True (Some baseline) data of
             Fail e \<Rightarrow> Fail SystemExit
           | Ok (data', h) \<Rightarrow> crawl_archives chash
               (case h of Some hs \<Rightarrow> if hs \<noteq> '''' then hs else baseline | None \<Rightarrow> baseline) fs)
     | _ \<Rightarrow> Fail SystemExit)"

definition recovery_block :: "json \<Rightarrow> string \<Rightarrow> item" where
  "recovery_block now baseline =
     Rec [''timestamp_iso'' \<mapsto> now, ''event_classification'' \<mapsto> JStr ''COLD_BOOT_RECOVERY'',
          ''previous_hash'' \<mapsto> JStr baseline, ''recovery_status'' \<mapsto> JStr ''VERIFIED_SECURE'',
          ''message'' \<mapsto> JStr ''Fallback bootloader successfully synchronized temporal continuity.'']"

definition check_active :: "(item \<Rightarrow> string) \<Rightarrow> string \<Rightarrow> item list \<Rightarrow> fault + item list" where
  "check_active chash baseline blocks = (case blocks of
       [] \<Rightarrow> Ok []
     | NotRec v # bs \<Rightarrow> Fail TypeError
     | Rec m # bs \<Rightarrow>
         if m ''previous_hash'' = None
         then seqE (verify_ledger_chain chash True (Some baseline)
                (Rec (m(''previous_hash'' \<mapsto> JStr baseline)) # bs)) (\<lambda>(bs', h). Ok bs')
         else if m ''previous_hash'' \<noteq> Some (JStr baseline) \<and> baseline \<noteq> GENESIS_HASH then Fail SystemExit
         else seqE (verify_ledger_chain chash True (Some baseline) blocks) (\<lambda>(bs', h). Ok bs'))"

definition cold_recovery :: "(item \<Rightarrow> string) \<Rightarrow> json \<Rightarrow> worm \<Rightarrow> fault + worm" where
  "cold_recovery chash now w =
     seqE (crawl_archives chash GENESIS_HASH (archives w)) (\<lambda>baseline.
     seqE (case active w of
             None \<Rightarrow> Ok []
           | Some f \<Rightarrow> (case load_whole f of
               Some (Arr xs) \<Rightarrow> check_active chash baseline xs
             | Some (Doc d) \<Rightarrow> check_active chash baseline [d]
             | _ \<Rightarrow> Ok [])) (\<lambda>blocks.
       Ok (w\<lparr>active := Some [Arr (if blocks = [] then [recovery_block now baseline] else blocks)]\<rparr>)))"

section \<open>Chains\<close>

text \<open>
  The abstract ledger: records that carry the hash of their own content and the hash of their
  predecessor under \<open>key\<close>. \<open>chain_end\<close> is the hash a chain ends in, if it is one.
\<close>

definition body :: "payload \<Rightarrow> payload" where
  "body m = m(''hash'' := None)"

fun chain_end :: "(payload \<Rightarrow> string) \<Rightarrow> string \<Rightarrow> json \<Rightarrow> payload list \<Rightarrow> json option" where
  "chain_end d key prev [] = Some prev"
| "chain_end d key prev (m # ms) =
     (if m key = Some prev \<and> m ''hash'' = Some (JStr (d (body m))) then chain_end d key (JStr (d (body m))) ms
      else None)"

abbreviation entries :: "payload list \<Rightarrow> ledger_file" where
  "entries ms \<equiv> map (\<lambda>m. Doc (Rec m)) ms"

lemma chain_end_append:
  "chain_end d key prev (ms @ ms') =
     (case chain_end d key prev ms of None \<Rightarrow> None | Some h \<Rightarrow> chain_end d key h ms')"
  by (induction ms arbitrary: prev) auto

lemma chain_last:
  "chain_end d key prev ms = Some h \<Longrightarrow> ms \<noteq> [] \<Longrightarrow> last ms ''hash'' = Some h"
  by (induction ms arbitrary: prev) (auto split: if_splits)

lemma chain_end_seal:
  assumes "key \<noteq> ''hash''" and "inc ''hash'' = None"
  shows "chain_end d key prev [seal d key prev inc] = Some (JStr (d (inc(key \<mapsto> prev))))"
proof -
  have "body (seal d key prev inc) = inc(key \<mapsto> prev)"
    using assms by (auto simp: body_def seal_def Let_def)
  then show ?thesis using assms by (simp add: seal_def Let_def)
qed

lemma nonblank_entries [simp]: "nonblank (entries ms) = entries ms"
  by (simp add: nonblank_def filter_map o_def)

lemma load_whole_entries:
  "load_whole (entries ms) = (case ms of [m] \<Rightarrow> Some (Doc (Rec m)) | _ \<Rightarrow> None)"
  unfolding load_whole_def nonblank_entries by (auto split: list.splits)

lemma line_items_entries [simp]: "line_items (entries ms) = Ok (map Rec ms)"
  by (induction ms) auto

lemma ledger_records_entries: "ledger_records (entries ms) = Ok (map Rec ms)"
  unfolding ledger_records_def load_whole_entries by (auto split: list.splits)

lemma sweep_chain:
  assumes "chain_end d ''previous_hash'' prev ms = Some h" and "ms \<noteq> []" and "first \<or> last_seen = prev"
  shows "sweep d first last_seen (map Rec ms) = Ok h"
  using assms
proof (induction ms arbitrary: prev first last_seen)
  case Nil
  then show ?case by simp
next
  case (Cons m ms)
  let ?h = "JStr (d (body m))"
  from Cons.prems have m: "m ''previous_hash'' = Some prev" "m ''hash'' = Some ?h"
    "chain_end d ''previous_hash'' ?h ms = Some h" by (auto split: if_splits)
  then have step: "sweep d first last_seen (map Rec (m # ms)) = sweep d False ?h (map Rec ms)"
    using Cons.prems by (auto simp: Let_def field_def body_def)
  show ?case
  proof (cases "ms = []")
    case True
    with m step show ?thesis by simp
  next
    case False
    with Cons.IH [OF m(3)] step show ?thesis by simp
  qed
qed

lemma verify_chain_entries:
  assumes "chain_end d ''previous_hash'' prev ms = Some h" and "ms \<noteq> []"
  shows "verify_chain d (entries ms) = Ok h"
  using assms sweep_chain [OF assms, of True] by (simp add: verify_chain_def ledger_records_entries)

text \<open>What each reader takes as the end of a well-formed chain.\<close>

definition tip :: "payload list \<Rightarrow> json" where
  "tip ms = (if ms = [] then ZERO else field (last ms) ''hash'' ZERO)"

lemma tip_chain: "chain_end d key ZERO ms = Some h \<Longrightarrow> tip ms = h"
  using chain_last [of d key ZERO ms h] by (auto simp: tip_def field_def)

lemma tip_chain_ne: "chain_end d key prev ms = Some h \<Longrightarrow> ms \<noteq> [] \<Longrightarrow> tip ms = h"
  using chain_last [of d key prev ms h] by (auto simp: tip_def field_def)

lemma broker_last_entries [simp]: "broker_last (entries ms) = Ok (tip ms)"
  by (cases ms rule: rev_cases) (auto simp: broker_last_def tip_def)

lemma last_line_hash_entries [simp]: "last_line_hash (rev (entries ms)) = Some (tip ms)"
  by (cases ms rule: rev_cases) (auto simp: tip_def)

lemma deployer_last_entries [simp]: "deployer_last (entries ms) = Some (tip ms)"
proof (cases "\<exists>m. ms = [m]")
  case True
  then show ?thesis unfolding deployer_last_def nonblank_entries load_whole_entries by (auto simp: tip_def)
next
  case False
  then have "load_whole (entries ms) = None" by (auto simp: load_whole_entries split: list.splits)
  then show ?thesis unfolding deployer_last_def nonblank_entries
    by (cases "ms = []") (simp_all add: tip_def)
qed

lemma simulator_last_entries [simp]: "simulator_last (entries ms) = tip ms"
  by (cases ms rule: rev_cases) (auto simp: simulator_last_def tip_def)

lemma rotator_last_entries [simp]: "extract_final_block_hash (entries ms) = tip ms"
  by (simp add: extract_final_block_hash_def)

section \<open>The contract of an append-only log\<close>

text \<open>
  \<open>accepts\<close> is what the auditor of the log checks. A program that appends must keep the log
  acceptable and may not touch what is there.
\<close>

locale chained_log =
  fixes commit :: "'i \<Rightarrow> ledger_file \<Rightarrow> ledger_file" and accepts :: "ledger_file \<Rightarrow> bool"
  assumes accepts_empty: "accepts []"
    and accepts_commit: "accepts f \<Longrightarrow> accepts (commit i f)"
    and commit_appends: "accepts f \<Longrightarrow> \<exists>e. commit i f = f @ [e]"
begin

lemma accepts_all: "accepts f \<Longrightarrow> accepts (fold commit is f)"
  by (induction "is" arbitrary: f) (auto intro: accepts_commit)

lemma accepts_run: "accepts (fold commit is [])"
  by (rule accepts_all [OF accepts_empty])

lemma commits_append: "accepts f \<Longrightarrow> \<exists>es. fold commit is f = f @ es \<and> length es = length is"
proof (induction "is" arbitrary: f)
  case Nil
  then show ?case by simp
next
  case (Cons i "is")
  obtain e where e: "commit i f = f @ [e]" using commit_appends [OF Cons.prems] by auto
  from Cons.IH [OF accepts_commit [OF Cons.prems], of i] show ?case by (auto simp: e)
qed

end

text \<open>
  The two programs that chain an incident ledger correctly, each its own: the broker the one
  under \<^verbatim>\<open>backend/compliance\<close>, the deployer the one under \<^verbatim>\<open>compliance\<close>.
\<close>

datatype writer_op = Failover json string string | Violation json string string

fun commit_op :: "(payload \<Rightarrow> string) \<Rightarrow> writer_op \<Rightarrow> ledger_file \<Rightarrow> ledger_file" where
  "commit_op d (Failover t primary standby) f = commit_failover d t primary standby f"
| "commit_op d (Violation t model_name reason) f = commit_violation d t model_name reason f"

definition linked :: "(payload \<Rightarrow> string) \<Rightarrow> string \<Rightarrow> ledger_file \<Rightarrow> bool" where
  "linked d key f \<longleftrightarrow> (\<exists>ms h. f = entries ms \<and> chain_end d key ZERO ms = Some h)"

fun op_incident :: "writer_op \<Rightarrow> payload" where
  "op_incident (Failover t primary standby) = failover_incident t primary standby"
| "op_incident (Violation t model_name reason) = violation_incident t model_name reason"

lemma op_incident_hash [simp]: "op_incident i ''hash'' = None"
  by (cases i) (simp_all add: failover_incident_def violation_incident_def)

lemma commit_op_entries:
  "commit_op d i (entries ms) = entries (ms @ [seal d ''previous_hash'' (tip ms) (op_incident i)])"
  by (cases i) (simp_all add: commit_failover_def commit_violation_def violation_entry_def append_entry_def)

lemma chain_end_commit:
  assumes "chain_end d key prev ms = Some (tip ms)" and "key \<noteq> ''hash''" and "inc ''hash'' = None"
  shows "chain_end d key prev (ms @ [seal d key (tip ms) inc]) = Some (JStr (d (inc(key \<mapsto> tip ms))))"
  using assms chain_end_seal [where key = key and inc = inc and d = d and prev = "tip ms"]
  by (simp add: chain_end_append)

interpretation incident_ledger: chained_log "commit_op d" "linked d ''previous_hash''" for d
proof
  show "linked d ''previous_hash'' []" by (auto simp: linked_def intro: exI [of _ "[]"])
next
  fix f i assume "linked d ''previous_hash'' f"
  then obtain ms where f: "f = entries ms" "chain_end d ''previous_hash'' ZERO ms = Some (tip ms)"
    by (auto simp: linked_def dest: tip_chain)
  from chain_end_commit [where inc = "op_incident i", OF f(2) _ op_incident_hash] show "linked d ''previous_hash'' (commit_op d i f)"
    unfolding linked_def f(1) commit_op_entries by fastforce
  show "\<exists>e. commit_op d i f = f @ [e]" by (simp add: f(1) commit_op_entries)
qed

text \<open>Entries the verifier's report line can print.\<close>

definition printable :: "payload \<Rightarrow> bool" where
  "printable m \<longleftrightarrow> padded_ok (field m ''monitoring_scenario'' (JStr ''UNKNOWN'')) \<and>
     (\<exists>v. verdict_of m = Ok v \<and> padded_ok v)"

lemma certin_entry_facts [simp]:
  "certin_entry r ''hash'' = None"
  "printable (seal d ''prev_hash'' h (certin_entry r))"
  by (simp_all add: certin_entry_def printable_def verdict_of_def field_def seal_def Let_def)

definition readable :: "(payload \<Rightarrow> string) \<Rightarrow> ledger_file \<Rightarrow> bool" where
  "readable d f \<longleftrightarrow> (\<exists>ms h. f = entries ms \<and> chain_end d ''prev_hash'' ZERO ms = Some h \<and> list_all printable ms)"

lemma verify_lines_chain:
  assumes "chain_end d ''prev_hash'' prev ms = Some h" and "list_all printable ms"
  shows "verify_lines d prev n e (entries ms) = Ok (n + length ms, e)"
  using assms
proof (induction ms arbitrary: prev n)
  case Nil
  then show ?case by simp
next
  case (Cons m ms)
  let ?h = "JStr (d (body m))"
  from Cons.prems have m: "m ''prev_hash'' = Some prev" "m ''hash'' = Some ?h" "printable m"
    "chain_end d ''prev_hash'' ?h ms = Some h" "list_all printable ms" by (auto split: if_splits)
  then have "check_entry d prev m = Ok (?h, False)"
    by (auto simp: check_entry_def printable_def Let_def field_def body_def split: option.splits)
  with Cons.IH [OF m(4,5)] show ?case by simp
qed

interpretation security_log: chained_log "write_certin_log d" "readable d" for d
proof
  show "readable d []" by (auto simp: readable_def intro: exI [of _ "[]"])
next
  fix f r assume "readable d f"
  then obtain ms where f: "f = entries ms" "chain_end d ''prev_hash'' ZERO ms = Some (tip ms)" "list_all printable ms"
    by (auto simp: readable_def dest: tip_chain)
  have step: "write_certin_log d r f = entries (ms @ [seal d ''prev_hash'' (tip ms) (certin_entry r)])"
    by (simp add: f(1) write_certin_log_def append_entry_def)
  show "readable d (write_certin_log d r f)"
  proof -
    let ?ms = "ms @ [seal d ''prev_hash'' (tip ms) (certin_entry r)]"
    have "list_all printable ?ms" using f(3) by simp
    moreover obtain h where "chain_end d ''prev_hash'' ZERO ?ms = Some h"
      using chain_end_commit [OF f(2), of "certin_entry r"] by auto
    ultimately show ?thesis unfolding readable_def step by blast
  qed
  show "\<exists>e. write_certin_log d r f = f @ [e]" by (simp only: step) (simp add: f(1))
qed

section \<open>The history across compactions and rotations\<close>

text \<open>
  The programs that share the ledger under \<^verbatim>\<open>compliance\<close>: the deployer, the compactor and the
  rotation daemon. One operation run alone; a failed compaction exits.
\<close>

datatype worm_op = Violate json string string | Compact nat json | Rotate json

fun worm_step :: "(payload \<Rightarrow> string) \<Rightarrow> worm_op \<Rightarrow> worm \<Rightarrow> worm \<times> bool" where
  "worm_step d (Violate now model_name reason) w =
     (w\<lparr>active := Some (commit_violation d now model_name reason (contents w))\<rparr>, False)"
| "worm_step d (Compact n now) w = execute_compaction d n now w"
| "worm_step d (Rotate now) w = (perform_rotation d now w, False)"

text \<open>
  The same programs as processes of their own, which no lock keeps apart. \<open>pc\<close> is what a process
  still has to do: append the entry it has linked to the end it read, rename the file it has
  counted, write a new ledger for the one it has set aside, archive that one.
\<close>

datatype pc = Appending payload | Counted json | Compacting ledger_file json
  | Rotating ledger_file json | Storing ledger_file

fun begin_op :: "(payload \<Rightarrow> string) \<Rightarrow> worm_op \<Rightarrow> worm \<Rightarrow> worm \<times> pc option" where
  "begin_op d (Violate now model_name reason) w =
     (w, map_option Appending (violation_entry d now model_name reason (contents w)))"
| "begin_op d (Compact n now) w = (w, if compaction_due n w then Some (Counted now) else None)"
| "begin_op d (Rotate now) w = (case set_aside w of
       None \<Rightarrow> (w, None) | Some (w', f) \<Rightarrow> (w', Some (Rotating f now)))"

fun next_op :: "(payload \<Rightarrow> string) \<Rightarrow> pc \<Rightarrow> worm \<Rightarrow> worm \<times> pc option \<times> bool" where
  "next_op d (Appending e) w = (w\<lparr>active := Some (append_entry (contents w) e)\<rparr>, None, False)"
| "next_op d (Counted now) w = (case set_aside w of
       None \<Rightarrow> (w, None, True) | Some (w', f) \<Rightarrow> (w', Some (Compacting f now), False))"
| "next_op d (Compacting f now) w = (case rebaseline d now f w of
       (w', True) \<Rightarrow> (w', None, True) | (w', False) \<Rightarrow> (w', Some (Storing f), False))"
| "next_op d (Rotating f now) w = (resume_chain d now f w, Some (Storing f), False)"
| "next_op d (Storing f) w = (cold_store f w, None, False)"

record ledger_host =
  disk :: worm
  running :: "nat \<Rightarrow> pc option"
  aborted :: bool

datatype ledger_event = Start nat worm_op | Advance nat

fun host_step :: "(payload \<Rightarrow> string) \<Rightarrow> ledger_host \<Rightarrow> ledger_event \<Rightarrow> ledger_host" where
  "host_step d s (Start p op) = (case running s p of
       Some q \<Rightarrow> s
     | None \<Rightarrow> (case begin_op d op (disk s) of (w, q) \<Rightarrow>
         s\<lparr>disk := w, running := (running s)(p := q)\<rparr>))"
| "host_step d s (Advance p) = (case running s p of
       None \<Rightarrow> s
     | Some q \<Rightarrow> (case next_op d q (disk s) of (w, q', failed) \<Rightarrow>
         s\<lparr>disk := w, running := (running s)(p := q'), aborted := aborted s \<or> failed\<rparr>))"

definition host_run :: "(payload \<Rightarrow> string) \<Rightarrow> ledger_event list \<Rightarrow> ledger_host \<Rightarrow> ledger_host" where
  "host_run d es s = foldl (host_step d) s es"

text \<open>No operation takes more than three further steps.\<close>

definition serially :: "(nat \<times> worm_op) list \<Rightarrow> ledger_event list" where
  "serially ops = concat (map (\<lambda>(p, op). [Start p op, Advance p, Advance p, Advance p]) ops)"

definition fresh :: worm where
  "fresh = \<lparr>active = None, archives = []\<rparr>"

definition idle_host :: "worm \<Rightarrow> ledger_host" where
  "idle_host w = \<lparr>disk = w, running = \<lambda>p. None, aborted = False\<rparr>"

definition history :: "worm \<Rightarrow> ledger_file" where
  "history w = concat (archives w) @ (case active w of None \<Rightarrow> [] | Some f \<Rightarrow> f)"

definition worm_inv :: "(payload \<Rightarrow> string) \<Rightarrow> worm \<Rightarrow> bool" where
  "worm_inv d w \<longleftrightarrow> (\<exists>old cur h. concat (archives w) = entries old \<and>
     chain_end d ''previous_hash'' ZERO (old @ cur) = Some h \<and>
     (case active w of None \<Rightarrow> cur = [] \<and> old = [] | Some f \<Rightarrow> f = entries cur \<and> cur \<noteq> []))"

lemma chain_split:
  assumes "chain_end d key prev (old @ cur) = Some h" and "cur \<noteq> []"
  obtains p where "chain_end d key prev old = Some p" "chain_end d key p cur = Some h" "tip cur = h"
    "tip (old @ cur) = h"
proof -
  from assms(1) obtain p where p: "chain_end d key prev old = Some p" "chain_end d key p cur = Some h"
    by (auto simp: chain_end_append split: option.splits)
  from tip_chain_ne [OF p(2) assms(2)] have "tip cur = h" .
  moreover from this assms(2) have "tip (old @ cur) = h" by (simp add: tip_def)
  ultimately show thesis using p that by blast
qed

lemma anchor_entries:
  obtains inc where "anchor d now kind status h = entries [seal d ''previous_hash'' h inc]"
    "inc ''hash'' = None"
proof
  let ?inc = "[''timestamp'' \<mapsto> now, ''incident_type'' \<mapsto> JStr kind, ''status'' \<mapsto> JStr status]"
  show "?inc ''hash'' = None" by simp
  have "[''timestamp'' \<mapsto> now, ''incident_type'' \<mapsto> JStr kind, ''previous_hash'' \<mapsto> h, ''status'' \<mapsto> JStr status] =
      ?inc(''previous_hash'' \<mapsto> h)" by (auto simp: fun_eq_iff)
  then show "anchor d now kind status h = entries [seal d ''previous_hash'' h ?inc]"
    by (simp add: anchor_def seal_def Let_def)
qed

text \<open>Replacing the active file by an anchor that links to its end keeps the history a chain.\<close>

lemma worm_inv_anchor:
  assumes "worm_inv d w" and "active w = Some f" and "h = tip cur" and "f = entries cur"
  shows "worm_inv d (w\<lparr>active := Some (anchor d now kind status h), archives := archives w @ [f]\<rparr>)"
proof -
  from assms obtain old h' where old: "concat (archives w) = entries old" "cur \<noteq> []"
    "chain_end d ''previous_hash'' ZERO (old @ cur) = Some h'"
    by (auto simp: worm_inv_def inj_def dest!: map_injective)
  obtain inc where inc: "anchor d now kind status h = entries [seal d ''previous_hash'' h inc]" "inc ''hash'' = None"
    using anchor_entries .
  have "tip (old @ cur) = h" using old(2) assms(3) by (simp add: tip_def)
  with old(3) tip_chain [OF old(3)] have chain: "chain_end d ''previous_hash'' ZERO (old @ cur) = Some (tip (old @ cur))"
    by simp
  from chain_end_commit [OF chain, of inc] inc(2) \<open>tip (old @ cur) = h\<close> obtain h2 where
    h2: "chain_end d ''previous_hash'' ZERO ((old @ cur) @ [seal d ''previous_hash'' h inc]) = Some h2"
    by auto
  show ?thesis
    unfolding worm_inv_def
    by (rule exI [of _ "old @ cur"], rule exI [of _ "[seal d ''previous_hash'' h inc]"], rule exI [of _ h2])
      (use old(1) assms(4) h2 inc(1) in simp)
qed

lemma worm_step_inv:
  assumes "worm_inv d w"
  shows "worm_inv d (fst (worm_step d op w)) \<and> \<not> snd (worm_step d op w)"
proof (cases op)
  case (Violate now model_name reason)
  let ?i = "Violation now model_name reason"
  from assms obtain old cur h where w: "concat (archives w) = entries old"
    "chain_end d ''previous_hash'' ZERO (old @ cur) = Some h"
    "contents w = entries cur" "cur = [] \<Longrightarrow> old = []"
    by (cases "active w") (fastforce simp: worm_inv_def contents_def)+
  have "tip cur = tip (old @ cur)" using w(4) by (auto simp: tip_def)
  then have chain: "chain_end d ''previous_hash'' ZERO (old @ cur) = Some (tip cur)"
    using w(2) tip_chain [OF w(2)] by simp
  let ?e = "seal d ''previous_hash'' (tip cur) (op_incident ?i)"
  have "chain_end d ''previous_hash'' ZERO ((old @ cur) @ [seal d ''previous_hash'' (tip (old @ cur)) (op_incident ?i)]) =
      Some (JStr (d ((op_incident ?i)(''previous_hash'' \<mapsto> tip (old @ cur)))))"
    by (rule chain_end_commit [where inc = "op_incident ?i"])
      (simp_all only: chain op_incident_hash \<open>tip cur = tip (old @ cur)\<close> [symmetric], simp)
  then obtain h' where "chain_end d ''previous_hash'' ZERO (old @ cur @ [?e]) = Some h'"
    by (simp only: \<open>tip cur = tip (old @ cur)\<close> [symmetric] append_assoc that)
  then have "worm_inv d (w\<lparr>active := Some (entries (cur @ [?e]))\<rparr>)"
    unfolding worm_inv_def by (intro exI [of _ old] exI [of _ "cur @ [?e]"] exI [of _ h']) (simp add: w(1))
  moreover have "commit_violation d now model_name reason (contents w) = entries (cur @ [?e])"
    using commit_op_entries [of d ?i cur] by (simp only: w(3) commit_op.simps)
  ultimately show ?thesis using Violate by simp
next
  case (Compact n now)
  show ?thesis
  proof (cases "active w")
    case None
    with Compact assms show ?thesis by (simp add: execute_compaction_def compaction_due_def)
  next
    case (Some f)
    with assms obtain old cur h where w: "concat (archives w) = entries old" "f = entries cur" "cur \<noteq> []"
      "chain_end d ''previous_hash'' ZERO (old @ cur) = Some h" by (auto simp: worm_inv_def)
    obtain p where "chain_end d ''previous_hash'' p cur = Some h" "tip cur = h"
      using chain_split [OF w(4,3)] by metis
    then have "verify_chain d f = Ok (tip cur)" using verify_chain_entries w(2,3) by simp
    with Compact Some assms worm_inv_anchor [OF assms Some refl w(2)] show ?thesis
      by (simp add: execute_compaction_def compaction_due_def set_aside_def rebaseline_def cold_store_def)
  qed
next
  case (Rotate now)
  show ?thesis
  proof (cases "active w")
    case None
    with Rotate assms show ?thesis by (simp add: perform_rotation_def set_aside_def)
  next
    case (Some f)
    with assms obtain cur where "f = entries cur" by (auto simp: worm_inv_def)
    with Rotate Some worm_inv_anchor [OF assms Some refl] show ?thesis
      by (simp add: perform_rotation_def set_aside_def cold_store_def resume_chain_def)
  qed
qed

lemma worm_inv_fresh: "worm_inv d fresh"
  by (simp add: worm_inv_def fresh_def)

text \<open>The steps of an operation that no other process interrupts make up the whole operation.\<close>

lemma host_step_simps [simp]:
  "running (host_step d (idle_host w) (Advance p)) = (\<lambda>p. None)"
  by (simp add: idle_host_def)

lemma alone_is_whole:
  assumes "\<not> snd (worm_step d op w)" and "active w = None \<Longrightarrow> worm_inv d w"
    and "\<And>t n r. op = Violate t n r \<Longrightarrow> violation_entry d t n r (contents w) \<noteq> None"
  shows "host_run d [Start p op, Advance p, Advance p, Advance p] (idle_host w) = idle_host (fst (worm_step d op w))"
proof (cases op)
  case (Violate t n r)
  with assms(3) obtain e where "violation_entry d t n r (contents w) = Some e" by blast
  with Violate show ?thesis by (simp add: host_run_def idle_host_def commit_violation_def fun_eq_iff)
next
  case (Compact n now)
  show ?thesis
  proof (cases "compaction_due n w")
    case True
    then obtain f where f: "active w = Some f" by (auto simp: compaction_due_def split: option.splits)
    with assms(1) Compact True obtain h where "verify_chain d f = Ok h"
      by (cases "verify_chain d f") (auto simp: execute_compaction_def set_aside_def rebaseline_def)
    with f True Compact show ?thesis
      by (simp add: host_run_def idle_host_def execute_compaction_def set_aside_def rebaseline_def fun_eq_iff)
  next
    case False
    with Compact show ?thesis by (simp add: host_run_def idle_host_def execute_compaction_def fun_eq_iff)
  qed
next
  case (Rotate now)
  then show ?thesis
    by (cases "active w") (simp_all add: host_run_def idle_host_def perform_rotation_def set_aside_def fun_eq_iff)
qed

lemma violation_entry_inv:
  assumes "worm_inv d w"
  obtains e where "violation_entry d t n r (contents w) = Some e"
proof -
  from assms obtain cur where "contents w = entries cur"
    by (cases "active w") (auto simp: worm_inv_def contents_def intro: that)
  with that show thesis by (simp add: violation_entry_def)
qed

lemma host_run_append: "host_run d (es @ es') s = host_run d es' (host_run d es s)"
  by (simp add: host_run_def)

lemma serially_inv:
  "worm_inv d w \<Longrightarrow> \<exists>w'. host_run d (serially ops) (idle_host w) = idle_host w' \<and> worm_inv d w'"
proof (induction ops arbitrary: w)
  case Nil
  then show ?case by (auto simp: host_run_def serially_def)
next
  case (Cons po ops)
  obtain p op where po: "po = (p, op)" by (cases po)
  have step: "worm_inv d (fst (worm_step d op w))" "\<not> snd (worm_step d op w)"
    using worm_step_inv [OF Cons.prems] by auto
  have "host_run d [Start p op, Advance p, Advance p, Advance p] (idle_host w) = idle_host (fst (worm_step d op w))"
    using alone_is_whole [OF step(2)] Cons.prems violation_entry_inv [OF Cons.prems] by (metis option.distinct(1))
  moreover have "serially (po # ops) = [Start p op, Advance p, Advance p, Advance p] @ serially ops"
    by (simp add: serially_def po)
  ultimately show ?case using Cons.IH [OF step(1)] by (simp only: host_run_append)
qed

section \<open>What the audit establishes\<close>

lemma sweep_append:
  "sweep d first l (xs @ ys) = seqE (sweep d first l xs) (\<lambda>l'. sweep d (first \<and> xs = []) l' ys)"
proof (induction xs arbitrary: first l)
  case Nil
  then show ?case by simp
next
  case (Cons x xs)
  then show ?case by (cases x) (simp_all add: Let_def)
qed

lemma sweep_snoc:
  assumes "sweep d True ZERO (map Rec (ms @ [m])) = Ok h"
  obtains p where "sweep d True ZERO (map Rec ms) = Ok p" "ms \<noteq> [] \<Longrightarrow> field (body m) ''previous_hash'' ZERO = p"
    "m ''hash'' = Some h" "h = JStr (d (body m))"
  using assms by (auto simp: sweep_append seqE_Ok_iff Let_def body_def split: if_splits)

lemma body_hash_eq: "body m = body m' \<Longrightarrow> m ''hash'' = m' ''hash'' \<Longrightarrow> m = m'"
  by (metis body_def fun_upd_triv fun_upd_upd)

lemma sweep_inj:
  assumes "sweep d True ZERO (map Rec ms) = Ok h" and "sweep d True ZERO (map Rec ms') = Ok h"
    and "length ms = length ms'" and "inj_on d (body ` (set ms \<union> set ms'))"
  shows "ms = ms'"
  using assms
proof (induction ms arbitrary: ms' h rule: rev_induct)
  case Nil
  then show ?case by simp
next
  case (snoc m ms)
  then obtain ms2 m2 where ms': "ms' = ms2 @ [m2]" by (cases ms' rule: rev_cases) auto
  obtain p where p: "sweep d True ZERO (map Rec ms) = Ok p" "ms \<noteq> [] \<Longrightarrow> field (body m) ''previous_hash'' ZERO = p"
    "m ''hash'' = Some h" "h = JStr (d (body m))"
    using sweep_snoc [OF snoc.prems(1)] by blast
  obtain p2 where p2: "sweep d True ZERO (map Rec ms2) = Ok p2"
    "ms2 \<noteq> [] \<Longrightarrow> field (body m2) ''previous_hash'' ZERO = p2" "m2 ''hash'' = Some h" "h = JStr (d (body m2))"
    using sweep_snoc [of d ms2 m2 h] snoc.prems(2) ms' by blast
  have "d (body m) = d (body m2)" using p(4) p2(4) by simp
  then have body: "body m = body m2" by (rule inj_onD [OF snoc.prems(4)]) (auto simp: ms')
  then have m: "m = m2" using body_hash_eq p(3) p2(3) by simp
  have len: "length ms = length ms2" using snoc.prems(3) ms' by simp
  have "p = p2"
  proof (cases "ms = []")
    case True
    with len p(1) p2(1) show ?thesis by simp
  next
    case False
    moreover from False len have "ms2 \<noteq> []" by auto
    ultimately show ?thesis using p(2) p2(2) body by simp
  qed
  moreover have "inj_on d (body ` (set ms \<union> set ms2))"
    using snoc.prems(4) by (rule inj_on_subset) (auto simp: ms')
  ultimately show ?case using snoc.IH [OF p(1), of ms2] p2(1) len m ms' by simp
qed

lemma broken_link:
  assumes "chain_end d ''previous_hash'' ZERO ms = Some h" and "ms \<noteq> []" and "h \<noteq> ZERO"
    and "e ''previous_hash'' = Some ZERO"
  shows "verify_chain d (append_entry (entries ms) e) = Fail ValueError"
proof -
  have "append_entry (entries ms) e = entries (ms @ [e])" by (simp add: append_entry_def)
  moreover have "sweep d True ZERO (map Rec (ms @ [e])) = Fail ValueError"
    using sweep_chain [OF assms(1,2), of True ZERO] assms by (simp add: sweep_append Let_def field_def)
  ultimately show ?thesis unfolding verify_chain_def by (simp only: nonblank_entries ledger_records_entries) simp
qed

section \<open>Properties\<close>

text \<open>
  C1: as long as the programs that share the ledger under \<^verbatim>\<open>compliance\<close> do not overlap, whatever
  supply-chain incidents, compactions and rotations they carry out in whatever order, no
  compaction aborts, the active ledger passes the audit, and the archives followed by the
  active ledger are one unbroken hash chain from the zero hash on.
\<close>

theorem unbroken_history:
  "let s = host_run d (serially ops) (idle_host fresh) in
     \<not> aborted s \<and> linked d ''previous_hash'' (history (disk s)) \<and>
     (case active (disk s) of None \<Rightarrow> True | Some f \<Rightarrow> \<exists>h. verify_chain d f = Ok h)"
proof -
  obtain w where run: "host_run d (serially ops) (idle_host fresh) = idle_host w" and inv: "worm_inv d w"
    using serially_inv [OF worm_inv_fresh] by metis
  then obtain old cur h where w: "concat (archives w) = entries old"
    "chain_end d ''previous_hash'' ZERO (old @ cur) = Some h"
    "case active w of None \<Rightarrow> cur = [] \<and> old = [] | Some f \<Rightarrow> f = entries cur \<and> cur \<noteq> []"
    by (auto simp: worm_inv_def)
  then have "history w = entries (old @ cur)" by (auto simp: history_def split: option.splits)
  with w(2) have "linked d ''previous_hash'' (history w)" unfolding linked_def by blast
  moreover have "case active w of None \<Rightarrow> True | Some f \<Rightarrow> \<exists>h. verify_chain d f = Ok h"
  proof (cases "active w")
    case (Some f)
    with w(3) have f: "f = entries cur" "cur \<noteq> []" by auto
    obtain p where "chain_end d ''previous_hash'' p cur = Some h" using chain_split [OF w(2) f(2)] by metis
    from verify_chain_entries [OF this f(2)] f(1) Some show ?thesis by simp
  qed simp
  ultimately show ?thesis unfolding run by (simp add: idle_host_def)
qed



text \<open>
  C3: the audit is tamper-evident. Two ledgers of the same length that both pass it and end in
  the same hash are identical, unless two of their entries collide under the hash function.
\<close>

theorem tamper_evident:
  assumes "verify_chain d (entries ms) = Ok h" and "verify_chain d (entries ms') = Ok h"
    and "length ms = length ms'" and "inj_on d (body ` (set ms \<union> set ms'))"
  shows "ms = ms'"
proof (cases "ms = []")
  case True
  with assms(3) show ?thesis by simp
next
  case False
  moreover from this assms(3) have "ms' \<noteq> []" by auto
  ultimately have "sweep d True ZERO (map Rec ms) = Ok h" "sweep d True ZERO (map Rec ms') = Ok h"
    using assms(1,2) by (simp_all add: verify_chain_def ledger_records_entries)
  from sweep_inj [OF this assms(3,4)] show ?thesis .
qed

theorem tamper_evident_witness:
  "\<exists>m m'. verify_chain (\<lambda>m. ''h'') (entries [m]) = Ok (JStr ''h'') \<and>
     verify_chain (\<lambda>m. ''h'') (entries [m']) = Ok (JStr ''h'') \<and> [m] = [m']"
proof -
  let ?d = "\<lambda>m :: payload. ''h''"
  let ?m = "seal ?d ''previous_hash'' ZERO Map.empty"
  have "chain_end ?d ''previous_hash'' ZERO [?m] = Some (JStr ''h'')"
    by (simp add: seal_def Let_def)
  from verify_chain_entries [OF this] have ok: "verify_chain ?d (entries [?m]) = Ok (JStr ''h'')" by simp
  from tamper_evident [OF ok ok] ok show ?thesis by auto
qed

text \<open>
  a ledger of two or more correctly chained entries no longer passes the audit after a
  handshake violation or a supervisor failure has been recorded in it: both writers link their
  entry to the zero hash, the interceptor because it parses the line-wise file as one document.
\<close>

theorem handshake_breaks_audit:
  assumes "chain_end d ''previous_hash'' ZERO ms = Some h" and "2 \<le> length ms" and "h \<noteq> ZERO"
  shows "verify_chain d (commit_handshake d now node reason qid (entries ms)) = Fail ValueError \<and>
    verify_chain d (commit_fatal d now failing (entries ms)) = Fail ValueError"
proof -
  have "load_whole (entries ms) = None"
    using assms(2) by (auto simp: load_whole_entries split: list.splits)
  then have "handshake_last (entries ms) = ZERO" by (simp add: handshake_last_def)
  moreover have "ms \<noteq> []" using assms(2) by auto
  ultimately show ?thesis
    unfolding commit_handshake_def commit_fatal_def
    by (auto intro!: broken_link [OF assms(1) _ assms(3)] simp: seal_def Let_def)
qed

theorem handshake_breaks_audit_witness:
  "\<exists>ms. verify_chain (\<lambda>m. ''x'') (commit_handshake (\<lambda>m. ''x'') (JInt 0) 1 ''REPLAY'' ''q'' (entries ms)) =
     Fail ValueError"
proof -
  let ?d = "\<lambda>m :: payload. ''x''"
  let ?a = "seal ?d ''previous_hash'' ZERO (failover_incident (JInt 0) ''A'' ''B'')"
  let ?b = "seal ?d ''previous_hash'' (JStr ''x'') (failover_incident (JInt 0) ''A'' ''B'')"
  have "chain_end ?d ''previous_hash'' ZERO [?a, ?b] = Some (JStr ''x'')"
    by (simp add: seal_def Let_def)
  moreover have "JStr ''x'' \<noteq> ZERO"
  proof
    assume "JStr ''x'' = ZERO"
    then have "length ''x'' = length (replicate 64 (CHR ''0''))" unfolding ZERO_def by (metis json.inject(4))
    then show False by simp
  qed
  ultimately have "verify_chain ?d (commit_handshake ?d (JInt 0) 1 ''REPLAY'' ''q'' (entries [?a, ?b])) = Fail ValueError"
    using handshake_breaks_audit [of ?d "[?a, ?b]" "JStr ''x''"] by simp
  then show ?thesis by blast
qed

text \<open>
  recovery destroys intact evidence. Run on a line-wise ledger of two or more entries, whose
  chain may be in perfect order, it takes the file for corrupted and replaces it by a single
  recovery block.
\<close>

theorem recovery_erases_ledger:
  assumes "2 \<le> length ms"
  shows "cold_recovery chash now \<lparr>active = Some (entries ms), archives = []\<rparr> =
    Ok \<lparr>active = Some [Arr [recovery_block now GENESIS_HASH]], archives = []\<rparr>"
proof -
  have "load_whole (entries ms) = None"
    using assms by (auto simp: load_whole_entries split: list.splits)
  then show ?thesis by (simp add: cold_recovery_def)
qed

theorem recovery_erases_ledger_witness:
  "cold_recovery (\<lambda>b. ''h'') (JStr ''t'') \<lparr>active = Some (entries [Map.empty, Map.empty]), archives = []\<rparr> =
    Ok \<lparr>active = Some [Arr [recovery_block (JStr ''t'') GENESIS_HASH]], archives = []\<rparr>"
  by (rule recovery_erases_ledger) simp

text \<open>
  the security log and its verifier agree: every log the simulator has written, whatever
  the reports were, is declared intact, and no report makes the verifier fail.
\<close>

theorem security_log_verifies:
  "verify_log_integrity d (Some (fold (write_certin_log d) (r # rs) [])) = Ok True"
proof -
  obtain ms h where ms: "fold (write_certin_log d) (r # rs) [] = entries ms"
    "chain_end d ''prev_hash'' ZERO ms = Some h" "list_all printable ms"
    using security_log.accepts_run [of d "r # rs"] unfolding readable_def by blast
  have "length (entries ms) = Suc (length rs)"
    using security_log.commits_append [OF security_log.accepts_empty, of d "r # rs"] ms(1) by auto
  then have "ms \<noteq> []" by auto
  with verify_lines_chain [OF ms(2,3), of 0 0] show ?thesis
    unfolding ms(1) verify_log_integrity_def by simp
qed

end
