(* ===== verification/Process_Supervisor.thy ===== *)
theory Process_Supervisor
  imports Ledger
begin

text \<open>
  \<^verbatim>\<open>space_shield_supervisor.py\<close>: the entry point of the container starts three scripts, restarts the ones that fail and
  takes the node down when one of them has failed too often. A child is known by the number of its start; the exit
  statuses and the answers of \<^verbatim>\<open>poll\<close> are the operating system's and arguments, as is the set of files. \<^verbatim>\<open>sys.exit\<close> in the
  teardown ends the run, so a state that is not running is final.
\<close>

section \<open>Modules and paths\<close>

definition module_names :: "string list" where
  "module_names = [''hardware_ingestion'', ''telemetry_gateway'', ''raft_consensus_mesh'']"

record module_config =
  command :: string
  max_retries :: nat
  current_retries :: nat
  process :: "nat option"

definition MODULES :: "string \<Rightarrow> module_config" where
  "MODULES name = \<lparr>command =
       (if name = ''hardware_ingestion'' then ''backend/src/satcom_core/spatial_hardware_harness.py''
        else if name = ''telemetry_gateway'' then ''backend/src/satcom_core/dashboard_api.py''
        else ''backend/src/satcom_core/cluster_raft_consensus.py''),
     max_retries = 3, current_retries = 0, process = None\<rparr>"

text \<open>\<^verbatim>\<open>os.path.dirname\<close> and \<^verbatim>\<open>os.path.join\<close> on paths without repeated separators\<close>

definition dirname :: "string \<Rightarrow> string" where
  "dirname p = rev (tl (dropWhile (\<lambda>c. c \<noteq> CHR ''/'') (rev p)))"

definition path_join :: "string \<Rightarrow> string \<Rightarrow> string" where
  "path_join a b = (if take 1 b = ''/'' then b else a @ ''/'' @ b)"

datatype sup_action = Spawned string | Sent_term string | Sent_kill string

record node_supervisor =
  sup_running :: bool
  base_dir :: string
  sup_modules :: "string \<Rightarrow> module_config"
  futures :: "(nat \<times> string) list"
  next_child :: nat
  sup_ledger :: ledger_file
  sup_log :: "sup_action list"

record host_env =
  he_files :: "string \<Rightarrow> bool"
  he_status :: "nat \<Rightarrow> int"
  he_poll :: "nat \<Rightarrow> bool"
  he_poll_later :: "nat \<Rightarrow> bool"
  he_digest :: "payload \<Rightarrow> string"
  he_now :: json

definition supervisor_boot :: "string \<Rightarrow> ledger_file \<Rightarrow> node_supervisor" where
  "supervisor_boot own_file ledger = \<lparr>sup_running = True, base_dir = dirname (dirname own_file), sup_modules = MODULES,
     futures = [], next_child = 0, sup_ledger = ledger, sup_log = []\<rparr>"

section \<open>Starting, failing, ending\<close>

text \<open>Starting a child and watching it: the thread that reads its output becomes one more future.\<close>

definition spawn_module :: "string \<Rightarrow> node_supervisor \<Rightarrow> node_supervisor" where
  "spawn_module name s =
     (let child = next_child s
      in s\<lparr>sup_modules := (sup_modules s)(name := (sup_modules s name)\<lparr>process := Some child\<rparr>), next_child := Suc child,
           futures := futures s @ [(child, name)], sup_log := sup_log s @ [Spawned name]\<rparr>)"

text \<open>The interpreter returns 2 when it cannot open the script, which it looks for from the directory of the call.\<close>

definition return_code :: "host_env \<Rightarrow> node_supervisor \<Rightarrow> string \<Rightarrow> nat \<Rightarrow> int" where
  "return_code env s name child =
     (if he_files env (path_join (base_dir s) (command (sup_modules s name))) then he_status env child else 2)"

definition signalled :: "(nat \<Rightarrow> bool) \<Rightarrow> (string \<Rightarrow> sup_action) \<Rightarrow> node_supervisor \<Rightarrow> sup_action list" where
  "signalled alive act s = map act (filter (\<lambda>n. case process (sup_modules s n) of None \<Rightarrow> False | Some c \<Rightarrow> alive c) module_names)"

definition graceful_teardown :: "host_env \<Rightarrow> node_supervisor \<Rightarrow> node_supervisor" where
  "graceful_teardown env s = (if \<not> sup_running s then s
     else s\<lparr>sup_running := False, sup_log := sup_log s @ signalled (he_poll env) Sent_term s @ signalled (he_poll_later env) Sent_kill s\<rparr>)"

definition crashed :: "host_env \<Rightarrow> string \<Rightarrow> node_supervisor \<Rightarrow> node_supervisor" where
  "crashed env name s =
     (let cfg = (sup_modules s name)\<lparr>current_retries := Suc (current_retries (sup_modules s name))\<rparr>;
          s1 = s\<lparr>sup_modules := (sup_modules s)(name := cfg)\<rparr>
      in if current_retries cfg \<le> max_retries cfg then spawn_module name s1
         else graceful_teardown env (s1\<lparr>sup_ledger := commit_fatal (he_digest env) (he_now env) name (sup_ledger s1)\<rparr>))"

definition handle_exit :: "host_env \<Rightarrow> nat \<Rightarrow> node_supervisor \<Rightarrow> node_supervisor" where
  "handle_exit env child s = (case map_of (futures s) child of None \<Rightarrow> s
     | Some name \<Rightarrow> if sup_running s \<and> return_code env s name child \<noteq> 0 then crashed env name s else s)"

fun handle_exits :: "host_env \<Rightarrow> nat list \<Rightarrow> node_supervisor \<Rightarrow> node_supervisor" where
  "handle_exits env [] s = s"
| "handle_exits env (c # cs) s = handle_exits env cs (handle_exit env c s)"

text \<open>What ends the wait: futures that completed, in the order of the set, or a termination signal.\<close>

datatype sup_event = Completed "nat list" | Signal

fun sup_round :: "host_env \<Rightarrow> sup_event \<Rightarrow> node_supervisor \<Rightarrow> node_supervisor" where
  "sup_round env (Completed done) s =
     (let s' = handle_exits env done s in if sup_running s' then s'\<lparr>futures := filter (\<lambda>f. fst f \<notin> set done) (futures s')\<rparr> else s')"
| "sup_round env Signal s = graceful_teardown env s"

fun supervise :: "host_env \<Rightarrow> sup_event list \<Rightarrow> node_supervisor \<Rightarrow> node_supervisor" where
  "supervise env [] s = s"
| "supervise env (e # es) s = (if sup_running s \<and> futures s \<noteq> [] then supervise env es (sup_round env e s) else s)"

definition supervisor_execute :: "host_env \<Rightarrow> string \<Rightarrow> ledger_file \<Rightarrow> sup_event list \<Rightarrow> node_supervisor" where
  "supervisor_execute env own_file ledger es = supervise env es (fold spawn_module module_names (supervisor_boot own_file ledger))"

section \<open>Restarts\<close>

definition retries :: "node_supervisor \<Rightarrow> string \<Rightarrow> nat" where
  "retries s n = current_retries (sup_modules s n)"

definition spawns :: "node_supervisor \<Rightarrow> string \<Rightarrow> nat" where
  "spawns s n = count_list (sup_log s) (Spawned n)"

text \<open>
  Every start is the first or a restart; the ledger gains an entry exactly when a module has failed for the fourth time, and the
  node is down then.
\<close>

definition restarts_inv :: "host_env \<Rightarrow> ledger_file \<Rightarrow> node_supervisor \<Rightarrow> bool" where
  "restarts_inv env ledger s \<longleftrightarrow>
     (\<forall>n. max_retries (sup_modules s n) = 3 \<and> command (sup_modules s n) = command (MODULES n)) \<and> snd ` set (futures s) \<subseteq> set module_names \<and>
     (\<forall>n \<in> set module_names. spawns s n = 1 + min 3 (retries s n)) \<and>
     ((\<forall>n. retries s n \<le> 3) \<and> sup_ledger s = ledger \<or>
      \<not> sup_running s \<and> (\<exists>n \<in> set module_names. retries s n = 4 \<and> (\<forall>m. m \<noteq> n \<longrightarrow> retries s m \<le> 3) \<and>
        sup_ledger s = commit_fatal (he_digest env) (he_now env) n ledger))"

lemma count_signalled [simp]:
  "count_list (signalled p Sent_term s) (Spawned n) = 0" "count_list (signalled p Sent_kill s) (Spawned n) = 0"
  by (auto simp: signalled_def count_list_0_iff)

lemma teardown_facts [simp]:
  "spawns (graceful_teardown env s) n = spawns s n" "retries (graceful_teardown env s) n = retries s n"
  "sup_modules (graceful_teardown env s) = sup_modules s" "sup_ledger (graceful_teardown env s) = sup_ledger s"
  "futures (graceful_teardown env s) = futures s" "base_dir (graceful_teardown env s) = base_dir s"
  "sup_running (graceful_teardown env s) = False"
  by (simp_all add: graceful_teardown_def spawns_def retries_def)

lemma spawn_facts [simp]:
  "spawns (spawn_module name s) n = spawns s n + (if n = name then 1 else 0)" "retries (spawn_module name s) n = retries s n"
  "sup_ledger (spawn_module name s) = sup_ledger s" "sup_running (spawn_module name s) = sup_running s"
  "futures (spawn_module name s) = futures s @ [(next_child s, name)]" "base_dir (spawn_module name s) = base_dir s"
  "next_child (spawn_module name s) = Suc (next_child s)"
  "max_retries (sup_modules (spawn_module name s) n) = max_retries (sup_modules s n)"
  "command (sup_modules (spawn_module name s) n) = command (sup_modules s n)"
  by (simp_all add: spawn_module_def spawns_def retries_def Let_def)

lemma crashed_inv:
  assumes "restarts_inv env ledger s" "sup_running s" "name \<in> set module_names"
  shows "restarts_inv env ledger (crashed env name s)"
proof -
  from assms have i: "\<forall>n. max_retries (sup_modules s n) = 3 \<and> command (sup_modules s n) = command (MODULES n)"
    "snd ` set (futures s) \<subseteq> set module_names" "\<forall>n \<in> set module_names. spawns s n = 1 + min 3 (retries s n)"
    "\<forall>n. retries s n \<le> 3" "sup_ledger s = ledger" by (auto simp: restarts_inv_def)
  define s1 where "s1 = s\<lparr>sup_modules := (sup_modules s)(name := (sup_modules s name)\<lparr>current_retries := Suc (retries s name)\<rparr>)\<rparr>"
  have s1: "retries s1 n = (if n = name then Suc (retries s name) else retries s n)" "spawns s1 n = spawns s n" "sup_ledger s1 = ledger"
    "max_retries (sup_modules s1 n) = 3" "command (sup_modules s1 n) = command (MODULES n)" "futures s1 = futures s" for n
    using i(1,5) by (auto simp: s1_def retries_def spawns_def)
  have eq: "crashed env name s = (if Suc (retries s name) \<le> 3 then spawn_module name s1
      else graceful_teardown env (s1\<lparr>sup_ledger := commit_fatal (he_digest env) (he_now env) name ledger\<rparr>))"
    using i(1,5) by (simp add: crashed_def s1_def retries_def Let_def)
  show ?thesis
  proof (cases "Suc (retries s name) \<le> 3")
    case True
    then show ?thesis using i assms(3) s1 by (auto simp: eq restarts_inv_def)
  next
    case False
    then have "retries s name = 3" using i(4) [rule_format, of name] by simp
    moreover have "spawns (s1\<lparr>sup_ledger := l\<rparr>) n = spawns s1 n" "retries (s1\<lparr>sup_ledger := l\<rparr>) n = retries s1 n" for l n
      by (simp_all add: spawns_def retries_def)
    ultimately show ?thesis using i s1 assms(3) by (auto simp: eq restarts_inv_def)
  qed
qed

lemma handle_exit_inv: "restarts_inv env ledger s \<Longrightarrow> restarts_inv env ledger (handle_exit env c s)"
  using crashed_inv [of env ledger s]
  by (auto simp: handle_exit_def restarts_inv_def [of env ledger s] dest!: map_of_SomeD split: option.split)

lemma handle_exits_inv: "restarts_inv env ledger s \<Longrightarrow> restarts_inv env ledger (handle_exits env cs s)"
  by (induction cs arbitrary: s) (simp_all add: handle_exit_inv)

lemma sup_round_inv: "restarts_inv env ledger s \<Longrightarrow> restarts_inv env ledger (sup_round env e s)"
proof (cases e)
  case (Completed cs)
  assume "restarts_inv env ledger s"
  from handle_exits_inv [OF this, of cs] show ?thesis
    by (auto simp: Completed Let_def restarts_inv_def spawns_def retries_def)
next
  case Signal
  assume "restarts_inv env ledger s"
  then show ?thesis by (auto simp: Signal restarts_inv_def)
qed

lemma supervise_inv: "restarts_inv env ledger s \<Longrightarrow> restarts_inv env ledger (supervise env es s)"
  by (induction es arbitrary: s) (simp_all add: sup_round_inv)

lemma boot_inv: "restarts_inv env ledger (fold spawn_module module_names (supervisor_boot own_file ledger))"
  by (simp add: restarts_inv_def module_names_def supervisor_boot_def)
    (simp add: spawns_def retries_def MODULES_def)

definition exhausted :: "node_supervisor \<Rightarrow> string list" where
  "exhausted s = filter (\<lambda>n. 3 < retries s n) module_names"

text \<open>
  restarts are bounded and accounted for. Whatever the children do and whenever a signal arrives, every module has been
  started once and once more for each of its first three failures; the ledger is untouched as long as no module failed a
  fourth time, and otherwise it has exactly one more entry, which names the only module that did, and the node is down.
\<close>
theorem restarts_bounded:
  "let s = supervisor_execute env own_file ledger es
   in list_all (\<lambda>n. spawns s n = 1 + min 3 (retries s n)) module_names \<and>
      (case exhausted s of [] \<Rightarrow> sup_ledger s = ledger
       | n # others \<Rightarrow> others = [] \<and> retries s n = 4 \<and> sup_running s = False \<and> sup_ledger s = commit_fatal (he_digest env) (he_now env) n ledger)"
proof -
  define s where "s = supervisor_execute env own_file ledger es"
  have inv: "restarts_inv env ledger s" unfolding s_def supervisor_execute_def by (rule supervise_inv [OF boot_inv])
  then have spawned: "list_all (\<lambda>n. spawns s n = 1 + min 3 (retries s n)) module_names"
    by (simp add: restarts_inv_def list_all_iff)
  consider "\<forall>n. retries s n \<le> 3" "sup_ledger s = ledger"
    | n where "\<not> sup_running s" "n \<in> set module_names" "retries s n = 4" "\<forall>m. m \<noteq> n \<longrightarrow> retries s m \<le> 3"
        "sup_ledger s = commit_fatal (he_digest env) (he_now env) n ledger"
    using inv unfolding restarts_inv_def by blast
  then show ?thesis
  proof cases
    case 1
    then have "exhausted s = []" by (simp add: exhausted_def filter_empty_conv not_less)
    then show ?thesis using 1 spawned by (simp add: s_def [symmetric])
  next
    case (2 n)
    have "(3 < retries s m) = (m = n)" for m using 2(3) 2(4) [rule_format, of m] by (cases "m = n") auto
    then have "exhausted s = filter (\<lambda>m. m = n) module_names" by (simp add: exhausted_def)
    also have "\<dots> = [n]" using 2(2) by (auto simp: module_names_def)
    finally show ?thesis using 2 spawned by (simp add: s_def [symmetric])
  qed
qed

section \<open>The container\<close>

text \<open>What a wait can return: at least one of the futures that are outstanding\<close>

fun completes :: "node_supervisor \<Rightarrow> sup_event \<Rightarrow> bool" where
  "completes s (Completed done) = (done \<noteq> [] \<and> list_all (\<lambda>c. map_of (futures s) c \<noteq> None) done)"
| "completes s Signal = True"

fun schedule_ok :: "host_env \<Rightarrow> sup_event list \<Rightarrow> node_supervisor \<Rightarrow> bool" where
  "schedule_ok env [] s = True"
| "schedule_ok env (e # es) s = (if sup_running s \<and> futures s \<noteq> [] then completes s e \<and> schedule_ok env es (sup_round env e s) else True)"

definition all_retries :: "node_supervisor \<Rightarrow> nat" where
  "all_retries s = sum_list (map (retries s) module_names)"

definition children_known :: "node_supervisor \<Rightarrow> bool" where
  "children_known s \<longleftrightarrow> (\<forall>f \<in> set (futures s). fst f < next_child s)"

definition scripts_missing :: "host_env \<Rightarrow> node_supervisor \<Rightarrow> bool" where
  "scripts_missing env s \<longleftrightarrow> (\<forall>n. \<not> he_files env (path_join (base_dir s) (command (MODULES n))))"

lemma handle_exits_stopped: "\<not> sup_running s \<Longrightarrow> handle_exits env cs s = s"
  by (induction cs) (simp_all add: handle_exit_def split: option.split)

lemma crashed_grows:
  assumes "restarts_inv env ledger s" "sup_running s" "name \<in> set module_names" "children_known s"
  shows "all_retries s < all_retries (crashed env name s)" "set (futures s) \<subseteq> set (futures (crashed env name s))"
    "base_dir (crashed env name s) = base_dir s" "children_known (crashed env name s)" "next_child s \<le> next_child (crashed env name s)"
    "sup_running (crashed env name s) \<Longrightarrow> (next_child s, name) \<in> set (futures (crashed env name s))"
    "\<not> sup_running (crashed env name s) \<Longrightarrow> retries (crashed env name s) name = 4"
proof -
  define s1 where "s1 = s\<lparr>sup_modules := (sup_modules s)(name := (sup_modules s name)\<lparr>current_retries := Suc (retries s name)\<rparr>)\<rparr>"
  have i: "max_retries (sup_modules s name) = 3" "retries s name \<le> 3" "sup_ledger s = ledger" using assms(1,2) by (auto simp: restarts_inv_def)
  have eq: "crashed env name s = (if Suc (retries s name) \<le> 3 then spawn_module name s1
      else graceful_teardown env (s1\<lparr>sup_ledger := commit_fatal (he_digest env) (he_now env) name ledger\<rparr>))"
    using i by (simp add: crashed_def s1_def retries_def Let_def)
  have r: "retries (crashed env name s) n = (if n = name then Suc (retries s name) else retries s n)" for n
    by (simp add: eq s1_def) (simp add: retries_def)
  show "all_retries s < all_retries (crashed env name s)" using assms(3) by (auto simp: all_retries_def r module_names_def)
  have "next_child (graceful_teardown env t) = next_child t" for t by (simp add: graceful_teardown_def)
  then show "set (futures s) \<subseteq> set (futures (crashed env name s))" "base_dir (crashed env name s) = base_dir s"
    "children_known (crashed env name s)" "next_child s \<le> next_child (crashed env name s)"
    "sup_running (crashed env name s) \<Longrightarrow> (next_child s, name) \<in> set (futures (crashed env name s))"
    using assms(4) by (auto simp: eq s1_def children_known_def)
  show "\<not> sup_running (crashed env name s) \<Longrightarrow> retries (crashed env name s) name = 4"
    using i(2) assms(2) unfolding r by (auto simp: eq s1_def split: if_splits)
qed

lemma handle_exits_grow:
  "restarts_inv env ledger s \<Longrightarrow> children_known s \<Longrightarrow> sup_running s \<or> (\<exists>n. retries s n = 4) \<Longrightarrow>
   all_retries s \<le> all_retries (handle_exits env cs s) \<and> set (futures s) \<subseteq> set (futures (handle_exits env cs s)) \<and>
   base_dir (handle_exits env cs s) = base_dir s \<and> children_known (handle_exits env cs s) \<and>
   (sup_running (handle_exits env cs s) \<or> (\<exists>n. retries (handle_exits env cs s) n = 4))"
proof (induction cs arbitrary: s)
  case (Cons c cs)
  show ?case
  proof (cases "handle_exit env c s = s")
    case False
    then obtain name where n: "(c, name) \<in> set (futures s)" "sup_running s" "handle_exit env c s = crashed env name s"
      by (auto simp: handle_exit_def dest: map_of_SomeD split: option.splits if_splits)
    then have m: "name \<in> set module_names" using Cons.prems(1) by (force simp: restarts_inv_def)
    note g = crashed_grows [OF Cons.prems(1) n(2) m Cons.prems(2)]
    have "sup_running (crashed env name s) \<or> (\<exists>n. retries (crashed env name s) n = 4)" using g(7) by blast
    from Cons.IH [OF crashed_inv [OF Cons.prems(1) n(2) m] g(4) this] g(1-3) show ?thesis by (auto simp: n(3))
  qed (use Cons in simp)
qed simp

lemma round_progress:
  assumes "restarts_inv env ledger s" "children_known s" "sup_running s" "completes s (Completed done)" "scripts_missing env s"
  defines "s' \<equiv> sup_round env (Completed done) s"
  shows "all_retries s < all_retries s' \<and> children_known s' \<and> base_dir s' = base_dir s \<and> (sup_running s' \<longrightarrow> futures s' \<noteq> []) \<and>
    (sup_running s' \<or> (\<exists>n. retries s' n = 4))"
proof -
  obtain c cs where cs: "done = c # cs" using assms(4) by (cases "done") auto
  obtain name where n: "map_of (futures s) c = Some name" using assms(4) by (auto simp: cs)
  have "\<forall>n. command (sup_modules s n) = command (MODULES n)" using assms(1) by (simp add: restarts_inv_def)
  then have "return_code env s name c = 2" using assms(5) by (simp add: return_code_def scripts_missing_def)
  then have first: "handle_exit env c s = crashed env name s" using n assms(3) by (simp add: handle_exit_def)
  have m: "name \<in> set module_names" using assms(1) map_of_SomeD [OF n] by (force simp: restarts_inv_def)
  note g = crashed_grows [OF assms(1,3) m assms(2)]
  have stopped: "sup_running (crashed env name s) \<or> (\<exists>n. retries (crashed env name s) n = 4)" using g(7) by blast
  note h = handle_exits_grow [OF crashed_inv [OF assms(1,3) m] g(4) stopped, of cs]
  let ?t = "handle_exits env cs (crashed env name s)"
  have s': "s' = (if sup_running ?t then ?t\<lparr>futures := filter (\<lambda>f. fst f \<notin> set done) (futures ?t)\<rparr> else ?t)"
    by (simp add: s'_def cs first Let_def)
  have "\<forall>c \<in> set done. c < next_child s"
    using assms(2,4) by (fastforce simp: children_known_def list_all_iff dest: map_of_SomeD)
  then have fresh: "next_child s \<notin> set done" by auto
  have "sup_running (crashed env name s)" if "sup_running ?t" using that handle_exits_stopped by metis
  then have "(next_child s, name) \<in> set (futures ?t)" if "sup_running ?t" using that g(6) h by blast
  then have "futures s' \<noteq> []" if "sup_running s'" using that fresh by (force simp: s' filter_empty_conv split: if_splits)
  moreover have same: "retries s' = retries ?t" by (rule ext) (simp add: s' retries_def)
  moreover have "all_retries s' = all_retries ?t" by (simp add: all_retries_def same)
  moreover have "children_known s'" "base_dir s' = base_dir ?t" "sup_running s' = sup_running ?t" using h by (auto simp: s' children_known_def)
  ultimately show ?thesis using g(1,3) h by auto
qed

lemma running_few_retries: "restarts_inv env ledger s \<Longrightarrow> sup_running s \<Longrightarrow> all_retries s \<le> 9"
proof -
  assume "restarts_inv env ledger s" "sup_running s"
  then have "retries s n \<le> 3" for n by (auto simp: restarts_inv_def)
  from this [of "module_names ! 0"] this [of "module_names ! 1"] this [of "module_names ! 2"] show ?thesis by (simp add: all_retries_def module_names_def)
qed

lemma supervise_collapses:
  assumes "restarts_inv env ledger s" "children_known s" "sup_running s \<longrightarrow> futures s \<noteq> []" "scripts_missing env s"
    "schedule_ok env (map Completed rs) s" "10 \<le> all_retries s + length rs" "sup_running s \<or> (\<exists>n. retries s n = 4)"
  shows "\<not> sup_running (supervise env (map Completed rs) s) \<and> (\<exists>n. retries (supervise env (map Completed rs) s) n = 4)"
  using assms
proof (induction rs arbitrary: s)
  case Nil
  then show ?case using running_few_retries [of env ledger s] by auto
next
  case (Cons r rs)
  show ?case
  proof (cases "sup_running s")
    case True
    then have ok: "completes s (Completed r)" "schedule_ok env (map Completed rs) (sup_round env (Completed r) s)" "futures s \<noteq> []"
      using Cons.prems(3,5) by (auto simp del: sup_round.simps completes.simps)
    note p = round_progress [OF Cons.prems(1,2) True ok(1) Cons.prems(4)]
    from p have "scripts_missing env (sup_round env (Completed r) s)" using Cons.prems(4) by (simp add: scripts_missing_def del: sup_round.simps)
    moreover from p Cons.prems(6) have "10 \<le> all_retries (sup_round env (Completed r) s) + length rs" by (simp del: sup_round.simps)
    ultimately show ?thesis
      using Cons.IH [OF sup_round_inv [OF Cons.prems(1), of "Completed r"]] p ok(2,3) True by (simp del: sup_round.simps)
  qed (use Cons.prems in simp)
qed

text \<open>
  the container never comes up. Every child is started in \<^verbatim>\<open>backend/src\<close> with a script path that begins with
  \<^verbatim>\<open>backend/src\<close> again, and the repository has no such directory there: whatever the order in which the children end, after
  at most ten waits the supervisor has taken the node down and recorded a fatal failure.
\<close>
theorem container_never_comes_up:
  assumes "own_file = repo @ ''/backend/src/satcom_core/space_shield_supervisor.py''"
    and "\<forall>p. he_files env p \<longrightarrow> (\<forall>q. p \<noteq> repo @ ''/backend/src/backend/'' @ q)"
    and "schedule_ok env (map Completed rs) (fold spawn_module module_names (supervisor_boot own_file ledger))" and "10 \<le> length rs"
  shows "\<not> sup_running (supervisor_execute env own_file ledger (map Completed rs)) \<and>
    (\<exists>n. sup_ledger (supervisor_execute env own_file ledger (map Completed rs)) = commit_fatal (he_digest env) (he_now env) n ledger)"
proof -
  define s where "s = fold spawn_module module_names (supervisor_boot own_file ledger)"
  have base: "base_dir s = repo @ ''/backend/src''"
    by (simp add: s_def module_names_def supervisor_boot_def assms(1) dirname_def)
  have "\<exists>q. path_join (base_dir s) (command (MODULES n)) = repo @ ''/backend/src/backend/'' @ q" for n
    by (simp add: base path_join_def MODULES_def)
  then have "scripts_missing env s" using assms(2) by (metis scripts_missing_def)
  moreover have "children_known s" "sup_running s" "futures s \<noteq> []" by (simp_all add: s_def children_known_def module_names_def supervisor_boot_def)
  moreover have inv: "restarts_inv env ledger s" unfolding s_def by (rule boot_inv)
  ultimately have down: "\<not> sup_running (supervise env (map Completed rs) s)" "\<exists>n. retries (supervise env (map Completed rs) s) n = 4"
    using supervise_collapses [OF inv, of rs] assms(3,4) by (auto simp: s_def [symmetric])
  have end_inv: "restarts_inv env ledger (supervise env (map Completed rs) s)" by (rule supervise_inv [OF inv])
  obtain n where "retries (supervise env (map Completed rs) s) n = 4" using down(2) by blast
  then have "\<not> retries (supervise env (map Completed rs) s) n \<le> 3" by simp
  then have "\<exists>n. sup_ledger (supervise env (map Completed rs) s) = commit_fatal (he_digest env) (he_now env) n ledger"
    using end_inv unfolding restarts_inv_def by blast
  with down(1) show ?thesis unfolding supervisor_execute_def s_def [symmetric] by blast
qed

definition bare_host :: host_env where
  "bare_host = \<lparr>he_files = (\<lambda>_. False), he_status = (\<lambda>_. 0), he_poll = (\<lambda>_. False), he_poll_later = (\<lambda>_. False), he_digest = (\<lambda>_. ''h''), he_now = JInt 0\<rparr>"

text \<open>One child ends at a time, always the one of the first outstanding future.\<close>

theorem container_never_comes_up_witness:
  "\<not> sup_running (supervisor_execute bare_host ''/r/backend/src/satcom_core/space_shield_supervisor.py'' [] (map Completed (map (\<lambda>k. [k]) [0..<10])))"
proof -
  have "schedule_ok bare_host (map Completed (map (\<lambda>k. [k]) [0..<10]))
     (fold spawn_module module_names (supervisor_boot ''/r/backend/src/satcom_core/space_shield_supervisor.py'' []))"
    by code_simp
  then show ?thesis
    using container_never_comes_up [of _ "''/r''" bare_host "map (\<lambda>k. [k]) [0..<10]" "[]"] by (simp add: bare_host_def)
qed

end
