(* ===== verification/Python_Text.thy ===== *)
theory Python_Text
  imports Prelude
begin

text \<open>
  Python's reading of integers and splitting of strings, as the token, message and datagram
  parsers use them, with the laws the parsers rest on.
\<close>

section \<open>Integers as text\<close>

text \<open>
  What Python's \<^verbatim>\<open>int(s)\<close> accepts: surrounding white space, one sign, decimal digits with
  single underscores between them (\<open>None\<close> is the \<^verbatim>\<open>ValueError\<close>). CPython's limit of 4300
  digits is not modelled.
\<close>

definition is_space :: "char \<Rightarrow> bool" where
  "is_space c \<longleftrightarrow> (of_char c :: nat) \<in> set [9, 10, 11, 12, 13, 28, 29, 30, 31, 32, 133, 160]"

definition strip :: "string \<Rightarrow> string" where
  "strip s = rev (dropWhile is_space (rev (dropWhile is_space s)))"

definition is_digit :: "char \<Rightarrow> bool" where
  "is_digit c \<longleftrightarrow> 48 \<le> (of_char c :: nat) \<and> (of_char c :: nat) \<le> 57"

definition digit_val :: "char \<Rightarrow> nat" where
  "digit_val c = of_char c - 48"

fun parse_digits :: "nat \<Rightarrow> string \<Rightarrow> nat option" where
  "parse_digits acc [] = Some acc"
| "parse_digits acc (c # cs) =
     (if is_digit c then parse_digits (10 * acc + digit_val c) cs
      else if c = CHR ''_'' then
        (case cs of d # ds \<Rightarrow> if is_digit d then parse_digits (10 * acc + digit_val d) ds else None
         | [] \<Rightarrow> None)
      else None)"

definition parse_nat :: "string \<Rightarrow> nat option" where
  "parse_nat s = (case s of c # cs \<Rightarrow> if is_digit c then parse_digits (digit_val c) cs else None
                  | [] \<Rightarrow> None)"

definition parse_int :: "string \<Rightarrow> int option" where
  "parse_int s = (case strip s of
       [] \<Rightarrow> None
     | c # cs \<Rightarrow> if c = CHR ''-'' then map_option (\<lambda>n. - int n) (parse_nat cs)
                 else if c = CHR ''+'' then map_option int (parse_nat cs)
                 else map_option int (parse_nat (c # cs)))"

definition digit_char :: "nat \<Rightarrow> char" where
  "digit_char d = char_of (48 + d)"

lemma of_digit_char: "d < 10 \<Longrightarrow> (of_char (digit_char d) :: nat) = 48 + d"
  by (simp add: digit_char_def)

lemma digit_char_facts [simp]:
  assumes "d < 10"
  shows "is_digit (digit_char d)" "digit_val (digit_char d) = d" "\<not> is_space (digit_char d)"
  using assms by (auto simp: is_digit_def digit_val_def is_space_def of_digit_char)

lemma digit_char_neq [simp]:
  assumes "d < 10"
  shows "digit_char d \<noteq> CHR ''-''" "digit_char d \<noteq> CHR ''+''" "digit_char d \<noteq> CHR '':''"
    "digit_char d \<noteq> CHR ''_''" "digit_char d \<noteq> CHR ''|''"
  using of_digit_char [OF assms] assms by auto

lemma digits_rec: "digits n = (if n < 10 then [digit_char n] else digits (n div 10) @ [digit_char (n mod 10)])"
  by (subst digits.simps) (simp add: digit_char_def)

lemma digits_chars: "c \<in> set (digits n) \<Longrightarrow> \<exists>d < 10. c = digit_char d"
proof (induction n rule: digits.induct)
  case (1 n)
  have "n mod 10 < 10" by simp
  with 1 show ?case by (subst (asm) (2) digits_rec) (force split: if_splits)
qed

lemma digits_not_Nil [simp]: "digits n \<noteq> []"
  by (subst digits_rec) auto

lemma parse_digits_append:
  "(\<forall>c \<in> set xs. \<exists>d < 10. c = digit_char d) \<Longrightarrow>
   parse_digits acc (xs @ ys) = parse_digits (foldl (\<lambda>a c. 10 * a + digit_val c) acc xs) ys"
  by (induction xs arbitrary: acc) auto

lemma digits_value: "foldl (\<lambda>a c. 10 * a + digit_val c) 0 (digits n) = n"
proof (induction n rule: digits.induct)
  case (1 n)
  then show ?case by (subst digits_rec) auto
qed

lemma parse_nat_digits: "parse_nat (digits n) = Some n"
proof -
  obtain c cs where e: "digits n = c # cs" by (cases "digits n") auto
  have all: "\<forall>c \<in> set (digits n). \<exists>d < 10. c = digit_char d" using digits_chars by blast
  have "parse_digits 0 (digits n @ []) = parse_digits n []"
    using parse_digits_append [OF all, of 0 "[]"] by (simp add: digits_value)
  then show ?thesis using all e by (auto simp: parse_nat_def)
qed

lemma strip_id: "s \<noteq> [] \<Longrightarrow> \<not> is_space (hd s) \<Longrightarrow> \<not> is_space (last s) \<Longrightarrow> strip s = s"
proof -
  assume s: "s \<noteq> []" and h: "\<not> is_space (hd s)" and l: "\<not> is_space (last s)"
  have drop: "xs \<noteq> [] \<Longrightarrow> \<not> is_space (hd xs) \<Longrightarrow> dropWhile is_space xs = xs" for xs
    by (cases xs) auto
  from s h l show ?thesis by (simp add: strip_def drop hd_rev)
qed

lemma digits_edge: "\<not> is_space (hd (digits n))" "\<not> is_space (last (digits n))"
  using digits_chars [of "hd (digits n)" n] digits_chars [of "last (digits n)" n] by auto

lemma parse_int_str [simp]: "parse_int (str_int i) = Some i"
proof (cases "i < 0")
  case True
  have "strip (str_int i) = str_int i"
    by (rule strip_id) (use True digits_edge in \<open>auto simp: str_int_def is_space_def\<close>)
  with True show ?thesis by (simp add: parse_int_def str_int_def parse_nat_digits)
next
  case False
  have "strip (str_int i) = str_int i"
    by (rule strip_id) (use False digits_edge in \<open>auto simp: str_int_def\<close>)
  moreover obtain c cs where e: "digits (nat i) = c # cs" by (cases "digits (nat i)") auto
  moreover have "c \<noteq> CHR ''-''" "c \<noteq> CHR ''+''" using digits_chars [of c "nat i"] e by auto
  ultimately show ?thesis using False parse_nat_digits [of "nat i"]
    by (simp add: parse_int_def str_int_def)
qed

lemma str_int_no_colon: "CHR '':'' \<notin> set (str_int i)"
proof -
  have "CHR '':'' \<notin> set (digits n)" for n using digits_chars [of "CHR '':''" n] digit_char_neq(3) by metis
  then show ?thesis by (simp add: str_int_def)
qed

section \<open>Splitting\<close>

text \<open>\<^verbatim>\<open>str.split\<close> on one character.\<close>

fun split_on :: "char \<Rightarrow> string \<Rightarrow> string list" where
  "split_on x [] = [[]]"
| "split_on x (c # cs) = (if c = x then [] # split_on x cs
     else (case split_on x cs of p # ps \<Rightarrow> (c # p) # ps | [] \<Rightarrow> [[c]]))"

lemma split_on_none: "x \<notin> set s \<Longrightarrow> split_on x s = [s]"
  by (induction s) auto

lemma split_on_once: "x \<notin> set s \<Longrightarrow> split_on x (s @ x # t) = s # split_on x t"
  by (induction s) auto

end
