(* ===== verification/Text_Encoding.thy ===== *)
theory Text_Encoding
  imports Python_Text
begin

text \<open>
  Hexadecimal numbers as \<^verbatim>\<open>hex\<close> prints and \<^verbatim>\<open>int(s, 16)\<close> reads them, and base64 as
  \<^verbatim>\<open>base64.b64encode\<close> writes and \<^verbatim>\<open>base64.b64decode\<close> reads it. Bytes are characters.
\<close>

section \<open>Hexadecimal\<close>

definition hex_digit :: "nat \<Rightarrow> char" where
  "hex_digit d = char_of (if d < 10 then 48 + d else 87 + d)"

fun hex_digits :: "nat \<Rightarrow> string" where
  "hex_digits n = (if n < 16 then [hex_digit n] else hex_digits (n div 16) @ [hex_digit (n mod 16)])"

declare hex_digits.simps [simp del]

definition hex :: "nat \<Rightarrow> string" where
  "hex n = ''0x'' @ hex_digits n"

definition hex_val :: "char \<Rightarrow> nat option" where
  "hex_val c = (let k = of_char c in
     if 48 \<le> k \<and> k \<le> 57 then Some (k - 48)
     else if 97 \<le> k \<and> k \<le> 102 then Some (k - 87)
     else if 65 \<le> k \<and> k \<le> 70 then Some (k - 55) else None)"

fun parse_hex_digits :: "nat \<Rightarrow> string \<Rightarrow> nat option" where
  "parse_hex_digits acc [] = Some acc"
| "parse_hex_digits acc (c # cs) = (case hex_val c of
       Some d \<Rightarrow> parse_hex_digits (16 * acc + d) cs
     | None \<Rightarrow> if c = CHR ''_'' then
         (case cs of e # es \<Rightarrow> (case hex_val e of Some d \<Rightarrow> parse_hex_digits (16 * acc + d) es | None \<Rightarrow> None)
          | [] \<Rightarrow> None)
       else None)"

definition parse_hex_nat :: "string \<Rightarrow> nat option" where
  "parse_hex_nat s = (case s of [] \<Rightarrow> None
     | c # cs \<Rightarrow> (case hex_val c of Some d \<Rightarrow> parse_hex_digits d cs | None \<Rightarrow> None))"

text \<open>The prefix may be followed by one underscore.\<close>

definition strip_prefix :: "string \<Rightarrow> string" where
  "strip_prefix s = (case s of c # x # cs \<Rightarrow>
       if c = CHR ''0'' \<and> (x = CHR ''x'' \<or> x = CHR ''X'')
       then (case cs of u # us \<Rightarrow> if u = CHR ''_'' then us else cs | [] \<Rightarrow> cs) else s
     | _ \<Rightarrow> s)"

definition parse_int16 :: "string \<Rightarrow> int option" where
  "parse_int16 s = (case strip s of
       [] \<Rightarrow> None
     | c # cs \<Rightarrow> if c = CHR ''-'' then map_option (\<lambda>n. - int n) (parse_hex_nat (strip_prefix cs))
                 else if c = CHR ''+'' then map_option int (parse_hex_nat (strip_prefix cs))
                 else map_option int (parse_hex_nat (strip_prefix (c # cs))))"

lemma of_hex_digit: "d < 16 \<Longrightarrow> (of_char (hex_digit d) :: nat) = (if d < 10 then 48 + d else 87 + d)"
  by (simp add: hex_digit_def)

lemma hex_digit_facts [simp]:
  assumes "d < 16"
  shows "hex_val (hex_digit d) = Some d" "\<not> is_space (hex_digit d)" "hex_digit d \<noteq> CHR ''_''"
    "hex_digit d \<noteq> CHR '':''" "hex_digit d \<noteq> CHR ''|''" "(of_char (hex_digit d) :: nat) < 128"
  using assms of_hex_digit [OF assms] by (auto simp: hex_val_def is_space_def Let_def split: if_splits)

lemmas hex_digit_sym [simp] = hex_digit_facts(3-5) [THEN not_sym]

lemma hex_digits_chars: "c \<in> set (hex_digits n) \<Longrightarrow> \<exists>d < 16. c = hex_digit d"
proof (induction n rule: hex_digits.induct)
  case (1 n)
  have "n mod 16 < 16" by simp
  with 1 show ?case by (subst (asm) (2) hex_digits.simps) (force split: if_splits)
qed

lemma hex_digits_not_Nil [simp]: "hex_digits n \<noteq> []"
  by (subst hex_digits.simps) auto

lemma parse_hex_append:
  "(\<forall>c \<in> set xs. \<exists>d < 16. c = hex_digit d) \<Longrightarrow>
   parse_hex_digits acc (xs @ ys) = parse_hex_digits (foldl (\<lambda>a c. 16 * a + the (hex_val c)) acc xs) ys"
  by (induction xs arbitrary: acc) auto

lemma hex_digits_value: "foldl (\<lambda>a c. 16 * a + the (hex_val c)) 0 (hex_digits n) = n"
proof (induction n rule: hex_digits.induct)
  case (1 n)
  then show ?case by (subst hex_digits.simps) auto
qed

lemma parse_hex_nat_digits: "parse_hex_nat (hex_digits n) = Some n"
proof -
  obtain c cs where e: "hex_digits n = c # cs" by (cases "hex_digits n") auto
  have all: "\<forall>c \<in> set (hex_digits n). \<exists>d < 16. c = hex_digit d" using hex_digits_chars by blast
  have "parse_hex_digits 0 (hex_digits n @ []) = parse_hex_digits n []"
    using parse_hex_append [OF all, of 0 "[]"] by (simp add: hex_digits_value)
  then show ?thesis using all e by (auto simp: parse_hex_nat_def)
qed

lemma parse_int16_hex [simp]: "parse_int16 (hex n) = Some (int n)"
proof -
  have "\<not> is_space (last (hex n))" using hex_digits_chars [of "last (hex_digits n)" n] by (auto simp: hex_def)
  then have "strip (hex n) = hex n" by (intro strip_id) (simp_all add: hex_def is_space_def)
  moreover have "strip_prefix (hex n) = hex_digits n"
    using hex_digits_chars [of "hd (hex_digits n)" n] by (auto simp: hex_def strip_prefix_def split: list.splits)
  ultimately show ?thesis by (simp add: parse_int16_def hex_def parse_hex_nat_digits)
qed

lemma hex_chars: "c \<in> set (hex n) \<Longrightarrow> c \<noteq> CHR '':'' \<and> c \<noteq> CHR ''|'' \<and> (of_char c :: nat) < 128"
  using hex_digits_chars [of c n] by (auto simp: hex_def)

section \<open>Base64\<close>

definition b64_char :: "nat \<Rightarrow> char" where
  "b64_char i = char_of (if i < 26 then 65 + i else if i < 52 then 71 + i else if i < 62 then i - 4
     else if i = 62 then 43 else 47)"

definition b64_val :: "char \<Rightarrow> nat option" where
  "b64_val c = (let k = of_char c in
     if 65 \<le> k \<and> k \<le> 90 then Some (k - 65)
     else if 97 \<le> k \<and> k \<le> 122 then Some (k - 71)
     else if 48 \<le> k \<and> k \<le> 57 then Some (k + 4)
     else if k = 43 then Some 62 else if k = 47 then Some 63 else None)"

text \<open>Encoding, three bytes at a time, with padding.\<close>

fun b64_encode :: "nat list \<Rightarrow> string" where
  "b64_encode (a # b # c # bs) =
     [b64_char (a div 4), b64_char (a mod 4 * 16 + b div 16), b64_char (b mod 16 * 4 + c div 64),
      b64_char (c mod 64)] @ b64_encode bs"
| "b64_encode [a, b] =
     [b64_char (a div 4), b64_char (a mod 4 * 16 + b div 16), b64_char (b mod 16 * 4), CHR ''='']"
| "b64_encode [a] = [b64_char (a div 4), b64_char (a mod 4 * 16), CHR ''='', CHR ''='']"
| "b64_encode [] = []"

text \<open>
  Decoding as \<^verbatim>\<open>binascii.a2b_base64\<close> does it: characters outside the alphabet are skipped, a
  complete padding ends the input, and an incomplete group at the end is an error.
\<close>

fun b64_decode :: "nat \<Rightarrow> nat \<Rightarrow> nat \<Rightarrow> string \<Rightarrow> nat list option" where
  "b64_decode quad left pads [] = (if quad = 0 then Some [] else None)"
| "b64_decode quad left pads (c # cs) =
     (if c = CHR ''='' then
        (if quad \<ge> 2 then (if quad + (pads + 1) \<ge> 4 then Some [] else b64_decode quad left (pads + 1) cs)
         else b64_decode quad left pads cs)
      else case b64_val c of
          None \<Rightarrow> b64_decode quad left pads cs
        | Some x \<Rightarrow>
            if quad = 0 then b64_decode 1 x 0 cs
            else if quad = 1 then map_option ((#) (left * 4 + x div 16)) (b64_decode 2 (x mod 16) 0 cs)
            else if quad = 2 then map_option ((#) (left * 16 + x div 4)) (b64_decode 3 (x mod 4) 0 cs)
            else map_option ((#) (left * 64 + x)) (b64_decode 0 0 0 cs))"

definition b64encode :: "string \<Rightarrow> string" where
  "b64encode s = b64_encode (map of_char s)"

text \<open>A text argument with a character outside ASCII raises.\<close>

definition b64decode :: "string \<Rightarrow> string option" where
  "b64decode s = (if (\<exists>c \<in> set s. 128 \<le> (of_char c :: nat)) then None
     else map_option (map char_of) (b64_decode 0 0 0 s))"

lemma b64_char_facts [simp]:
  assumes "i < 64"
  shows "b64_val (b64_char i) = Some i" "b64_char i \<noteq> CHR ''=''" "(of_char (b64_char i) :: nat) < 128"
proof -
  have k: "(of_char (b64_char i) :: nat) = (if i < 26 then 65 + i else if i < 52 then 71 + i else if i < 62 then i - 4
     else if i = 62 then 43 else 47)" using assms by (simp add: b64_char_def)
  then show "b64_val (b64_char i) = Some i" "(of_char (b64_char i) :: nat) < 128"
    using assms by (auto simp: b64_val_def Let_def)
  have "(of_char (b64_char i) :: nat) \<noteq> 61" using k assms by (auto split: if_splits)
  then show "b64_char i \<noteq> CHR ''=''" by auto
qed

lemma b64_roundtrip_nat: "\<forall>b \<in> set bs. b < 256 \<Longrightarrow> b64_decode 0 0 0 (b64_encode bs) = Some bs"
proof (induction bs rule: b64_encode.induct)
  case (1 a b c bs)
  have "b div 16 < 16" "c div 64 < 4" "a div 4 < 64" using 1 by auto
  moreover from this have "a mod 4 * 16 + b div 16 < 64" "b mod 16 * 4 + c div 64 < 64"
    by simp_all
  ultimately show ?case using 1 by (simp add: div_mult_mod_eq)
next
  case (2 a b)
  have "b div 16 < 16" "a div 4 < 64" using 2 by auto
  moreover from this have "a mod 4 * 16 + b div 16 < 64" "b mod 16 * 4 < 64" by simp_all
  ultimately show ?case using 2 by simp
next
  case (3 a)
  have "a div 4 < 64" "a mod 4 * 16 < 64" using 3 by auto
  then show ?case by simp
next
  case 4
  show ?case by simp
qed


lemma b64_decode_encode: "b64decode (b64encode s) = Some s"
proof -
  have "\<forall>c \<in> set (b64_encode bs). (of_char c :: nat) < 128" if "\<forall>b \<in> set bs. b < 256" for bs
    using that
  proof (induction bs rule: b64_encode.induct)
    case (1 a b c bs)
    have "b div 16 < 16" "c div 64 < 4" "a div 4 < 64" using 1 by auto
    moreover from this have "a mod 4 * 16 + b div 16 < 64" "b mod 16 * 4 + c div 64 < 64" by simp_all
    ultimately show ?case using 1 by simp
  next
    case (2 a b)
    have "b div 16 < 16" "a div 4 < 64" using 2 by auto
    moreover from this have "a mod 4 * 16 + b div 16 < 64" "b mod 16 * 4 < 64" by simp_all
    ultimately show ?case by simp
  next
    case (3 a)
    have "a div 4 < 64" "a mod 4 * 16 < 64" using 3 by auto
    then show ?case by simp
  next
    case 4
    show ?case by simp
  qed
  moreover have bytes: "\<forall>b \<in> set (map of_char s). b < (256 :: nat)" by simp
  ultimately have "\<not> (\<exists>c \<in> set (b64encode s). 128 \<le> (of_char c :: nat))"
    unfolding b64encode_def by (meson not_le)
  with b64_roundtrip_nat [OF bytes] show ?thesis by (simp add: b64decode_def b64encode_def o_def)
qed

end
