(* ===== verification/Host_Setup.thy ===== *)
theory Host_Setup
  imports Text_Encoding Python_Text "HOL-Library.Word"
begin

unbundle bit_operations_syntax

text \<open>
  What a node does before it processes anything: the licence check of \<^verbatim>\<open>license_validator.py\<close>, which guards the harness, and
  the real-time set-up of \<^verbatim>\<open>rt_thread_allocator.py\<close>. SHA-256, the decoding of UTF-8, the JSON and the date reader of the standard library are
  parameters, as are the answers of the operating system.
\<close>

section \<open>The licence\<close>

definition RSA_N :: nat where
  "RSA_N = 0x7ac92795f74531d6927d97793319f5fec3e2b1dd22b595144de89dd7f40fffb396924d7960a31d97c5644e1423bffd9b31d11f74042bb6ec17b7ff280983f26d"

definition RSA_E :: nat where "RSA_E = 0x10001"

text \<open>Truth values of JSON values\<close>

fun json_truthy :: "json \<Rightarrow> bool" where
  "json_truthy JNull = False"
| "json_truthy (JBool b) = b"
| "json_truthy (JInt i) = (i \<noteq> 0)"
| "json_truthy (JNum r) = (r \<noteq> 0)"
| "json_truthy (JStr s) = (s \<noteq> [])"
| "json_truthy (JList xs) = (xs \<noteq> [])"
| "json_truthy (JObj m) = (m \<noteq> [])"

text \<open>\<^verbatim>\<open>get\<close> on what the reader returned: an object only\<close>

definition get_key :: "json \<Rightarrow> string \<Rightarrow> json option" where
  "get_key j k = (case j of JObj m \<Rightarrow> Some (case map_of (rev m) k of Some v \<Rightarrow> v | None \<Rightarrow> JNull) | _ \<Rightarrow> None)"

text \<open>
  A calendar day as \<^verbatim>\<open>strptime\<close> reads it, and a moment as a day and the seconds since its midnight; moments compare in
  this order.
\<close>

type_synonym day = "nat \<times> nat \<times> nat"
type_synonym moment = "day \<times> real"

definition day_less :: "day \<Rightarrow> day \<Rightarrow> bool" where
  "day_less a b \<longleftrightarrow> fst a < fst b \<or> (fst a = fst b \<and> (fst (snd a) < fst (snd b) \<or> (fst (snd a) = fst (snd b) \<and> snd (snd a) < snd (snd b))))"

definition later_than :: "moment \<Rightarrow> moment \<Rightarrow> bool" where
  "later_than a b \<longleftrightarrow> day_less (fst b) (fst a) \<or> (fst a = fst b \<and> snd b < snd a)"

record licence_env =
  le_sha256 :: "string \<Rightarrow> nat"
  le_utf8 :: "string \<Rightarrow> string option"
  le_loads :: "string \<Rightarrow> json option"
  le_strptime :: "string \<Rightarrow> day option"

definition decode_json :: "licence_env \<Rightarrow> string \<Rightarrow> json option" where
  "decode_json env s = (case b64decode s of None \<Rightarrow> None
     | Some bytes \<Rightarrow> (case le_utf8 env bytes of None \<Rightarrow> None | Some text \<Rightarrow> le_loads env text))"

text \<open>The signature over the text of the payload\<close>

definition signature_valid :: "licence_env \<Rightarrow> string \<Rightarrow> string \<Rightarrow> bool" where
  "signature_valid env payload_b64 signature_hex =
     (case parse_int16 signature_hex of None \<Rightarrow> False
      | Some sig_int \<Rightarrow> (sig_int ^ RSA_E) mod int RSA_N = int (le_sha256 env payload_b64))"

text \<open>The payload, unless its day of expiry cannot be read or its midnight is past\<close>

definition check_expiry :: "licence_env \<Rightarrow> moment \<Rightarrow> json \<Rightarrow> json option" where
  "check_expiry env now payload =
     (case get_key payload ''expires'' of
        Some (JStr s) \<Rightarrow> (if s = [] then None
          else case le_strptime env s of None \<Rightarrow> None | Some d \<Rightarrow> if later_than now (d, 0) then None else Some payload)
      | _ \<Rightarrow> None)"

text \<open>\<^verbatim>\<open>None\<close> stands for every refusal, an exception included.\<close>

definition verify_license_token :: "licence_env \<Rightarrow> moment \<Rightarrow> string \<Rightarrow> json option" where
  "verify_license_token env now token_str =
     (case decode_json env (strip token_str) of None \<Rightarrow> None
      | Some envelope \<Rightarrow> (case (get_key envelope ''payload'', get_key envelope ''signature'') of
            (Some (JStr p), Some (JStr sg)) \<Rightarrow>
              (if p = [] \<or> sg = [] \<or> \<not> signature_valid env p sg then None
               else case decode_json env p of None \<Rightarrow> None | Some payload \<Rightarrow> check_expiry env now payload)
          | _ \<Rightarrow> None))"

text \<open>The token in the environment, or else what the licence file holds; \<open>None\<close> is a variable that is not set or a file that cannot be read.\<close>

definition run_license_audit :: "licence_env \<Rightarrow> moment \<Rightarrow> string option \<Rightarrow> string option \<Rightarrow> bool" where
  "run_license_audit env now variable file_text =
     (let from_env = (case variable of Some t \<Rightarrow> t | None \<Rightarrow> []);
          token = (if from_env = [] then (case file_text of Some t \<Rightarrow> strip t | None \<Rightarrow> []) else from_env)
      in if token = [] then False
         else (case verify_license_token env now token of Some payload \<Rightarrow> json_truthy payload | None \<Rightarrow> False))"

text \<open>The guard at the start of the harness; a validator that cannot be imported is passed over.\<close>

definition harness_gate :: "bool \<Rightarrow> licence_env \<Rightarrow> moment \<Rightarrow> string option \<Rightarrow> string option \<Rightarrow> fault + unit" where
  "harness_gate importable env now variable file_text =
     (if importable \<and> \<not> run_license_audit env now variable file_text then Fail SystemExit else Ok ())"

section \<open>Issued licences\<close>

definition licence_token :: "string \<Rightarrow> string" where
  "licence_token envelope_text = b64encode envelope_text"

lemma b64_char_no_space: "i < 64 \<Longrightarrow> \<not> is_space (b64_char i)"
proof -
  assume i: "i < 64"
  let ?k = "if i < 26 then 65 + i else if i < 52 then 71 + i else if i < 62 then i - 4 else if i = 62 then 43 else 47"
  have "(of_char (b64_char i) :: nat) = ?k" using i by (simp add: b64_char_def of_char_of)
  moreover have "43 \<le> ?k" "?k \<le> 122" using i by auto
  ultimately show "\<not> is_space (b64_char i)" by (auto simp: is_space_def)
qed

lemma sextets:
  fixes a b :: nat
  assumes "a < 256" "b < 256"
  shows "a div 4 < 64" "a mod 4 * 16 + b div 16 < 64" "a mod 16 * 4 + b div 64 < 64" "a mod 64 < 64" "a mod 4 * 16 < 64" "a mod 16 * 4 < 64"
proof -
  have "b div 16 < 16" "b div 64 < 4" using assms by (simp_all add: div_less_iff_less_mult)
  moreover have "a mod 4 < 4" "a mod 16 < 16" by simp_all
  ultimately show "a mod 4 * 16 + b div 16 < 64" "a mod 16 * 4 + b div 64 < 64" "a mod 4 * 16 < 64" "a mod 16 * 4 < 64" by linarith+
  show "a div 4 < 64" "a mod 64 < 64" using assms by (simp_all add: div_less_iff_less_mult)
qed

lemma pad_no_space: "\<not> is_space (CHR ''='')"
  by (simp add: is_space_def)

lemma b64_encode_no_space: "\<forall>b \<in> set bs. b < 256 \<Longrightarrow> c \<in> set (b64_encode bs) \<Longrightarrow> \<not> is_space c"
proof (induction bs rule: b64_encode.induct)
  case (1 a b d bs)
  then have lt: "a < 256" "b < 256" "d < 256" "\<forall>b \<in> set bs. b < 256" by auto
  note f = sextets [OF lt(1,2)] sextets [OF lt(2,3)] sextets [OF lt(3,3)]
  from 1(3) have "c = b64_char (a div 4) \<or> c = b64_char (a mod 4 * 16 + b div 16) \<or> c = b64_char (b mod 16 * 4 + d div 64) \<or>
      c = b64_char (d mod 64) \<or> c \<in> set (b64_encode bs)" by simp
  then show ?case
    using f(1,2,9,16) [THEN b64_char_no_space] 1(1) [OF lt(4)] by metis
next
  case (2 a b)
  then have lt: "a < 256" "b < 256" by auto
  from 2(2) have "c = b64_char (a div 4) \<or> c = b64_char (a mod 4 * 16 + b div 16) \<or> c = b64_char (b mod 16 * 4) \<or> c = CHR ''=''" by simp
  then show ?case using sextets(1,2) [OF lt, THEN b64_char_no_space] sextets(6) [OF lt(2,2), THEN b64_char_no_space] pad_no_space by metis
next
  case (3 a)
  then have lt: "a < 256" by auto
  from 3(2) have "c = b64_char (a div 4) \<or> c = b64_char (a mod 4 * 16) \<or> c = CHR ''=''" by auto
  then show ?case using sextets(1,5) [OF lt lt, THEN b64_char_no_space] pad_no_space by metis
qed simp

lemma strip_b64 [simp]: "strip (b64encode s) = b64encode s"
proof (cases "b64encode s = []")
  case True
  then show ?thesis by (simp add: strip_def)
next
  case False
  have "\<not> is_space c" if "c \<in> set (b64encode s)" for c using b64_encode_no_space [of "map of_char s" c] that by (auto simp: b64encode_def)
  with False show ?thesis by (intro strip_id) simp_all
qed

text \<open>
  C38: a licence needs a signature and is good until the midnight its last day begins with. The token made of any payload with a
  day of expiry and any signature is accepted, and the payload returned, exactly when the signature is one of the text of the
  payload and the clock has not passed the midnight of the day of expiry, so that it is refused all through the day printed as
  its last. A harness that finds the validator starts with such a token exactly then; one that does not find it starts with any.
\<close>
theorem issued_licence_valid:
  fixes now :: moment
  assumes "le_utf8 env envelope_bytes = Some envelope_text"
    and "le_loads env envelope_text = Some (JObj [(''payload'', JStr (b64encode payload_bytes)), (''signature'', JStr (hex sig))])"
    and "payload_bytes \<noteq> []" "envelope_bytes \<noteq> []"
    and "le_utf8 env payload_bytes = Some payload_text" "le_loads env payload_text = Some payload"
    and "get_key payload ''expires'' = Some (JStr s)" "s \<noteq> []" "le_strptime env s = Some d"
  defines "granted \<equiv> sig ^ RSA_E mod RSA_N = le_sha256 env (b64encode payload_bytes) \<and> \<not> later_than now (d, 0)"
  shows "verify_license_token env now (licence_token envelope_bytes) = (if granted then Some payload else None) \<and>
    harness_gate True env now (Some (licence_token envelope_bytes)) file_text = (if granted then Ok () else Fail SystemExit) \<and>
    harness_gate False env now variable file_text = Ok ()"
proof -
  have env: "decode_json env (strip (licence_token envelope_bytes)) = Some (JObj [(''payload'', JStr (b64encode payload_bytes)), (''signature'', JStr (hex sig))])"
    using assms(1,2) by (simp add: decode_json_def licence_token_def b64_decode_encode)
  have pay: "decode_json env (b64encode payload_bytes) = Some payload" using assms(5,6) by (simp add: decode_json_def b64_decode_encode)
  have "int (sig ^ RSA_E mod RSA_N) = int sig ^ RSA_E mod int RSA_N" by (simp only: of_nat_mod of_nat_power)
  then have sgn: "signature_valid env (b64encode payload_bytes) (hex sig) \<longleftrightarrow>
      sig ^ RSA_E mod RSA_N = le_sha256 env (b64encode payload_bytes)"
    unfolding signature_valid_def by (simp only: parse_int16_hex option.case) linarith
  have "b64_encode bs \<noteq> []" if "bs \<noteq> []" for bs using that by (cases bs rule: b64_encode.cases) auto
  then have ne: "b64encode payload_bytes \<noteq> []" "hex sig \<noteq> []" "licence_token envelope_bytes \<noteq> []"
    using assms(3,4) by (auto simp: b64encode_def hex_def licence_token_def)
  have expiry: "check_expiry env now payload = (if later_than now (d, 0) then None else Some payload)"
    using assms(7-9) by (simp add: check_expiry_def)
  have verdict: "verify_license_token env now (licence_token envelope_bytes) = (if granted then Some payload else None)"
    using env pay sgn ne expiry by (simp add: verify_license_token_def get_key_def granted_def)
  have "json_truthy payload" using assms(7) by (cases payload) (auto simp: get_key_def)
  then show ?thesis using verdict ne(3) by (simp add: harness_gate_def run_license_audit_def)
qed

definition sample_envelope :: json where
  "sample_envelope = JObj [(''payload'', JStr (b64encode ''p'')), (''signature'', JStr (hex 1))]"

definition sample_payload :: json where "sample_payload = JObj [(''expires'', JStr ''d'')]"

definition sample_env :: licence_env where
  "sample_env = \<lparr>le_sha256 = (\<lambda>_. 1), le_utf8 = Some,
     le_loads = (\<lambda>t. if t = ''e'' then Some sample_envelope else Some sample_payload), le_strptime = (\<lambda>_. Some (2030, 1, 1))\<rparr>"

theorem issued_licence_valid_witness:
  "verify_license_token sample_env ((2030, 1, 1), 60) (licence_token ''e'') = None \<and>
   verify_license_token sample_env ((2029, 12, 31), 60) (licence_token ''e'') = Some sample_payload"
proof -
  have "later_than ((2030, 1, 1), 60) ((2030, 1, 1), 0)" "\<not> later_than ((2029, 12, 31), 60) ((2030, 1, 1), 0)"
    by (simp_all add: later_than_def day_less_def)
  moreover have "verify_license_token sample_env now (licence_token ''e'') =
      (if 1 ^ RSA_E mod RSA_N = le_sha256 sample_env (b64encode ''p'') \<and> \<not> later_than now ((2030, 1, 1), 0)
       then Some sample_payload else None)" for now
    by (rule issued_licence_valid [where sig = 1 and payload_bytes = "''p''" and envelope_text = "''e''" and payload_text = "''p''" and s = "''d''",
          THEN conjunct1])
      (simp_all add: sample_env_def sample_envelope_def sample_payload_def get_key_def)
  ultimately show ?thesis by (simp add: sample_env_def RSA_N_def)
qed

section \<open>Bare metal\<close>

text \<open>
  Inside a class body Python rewrites a name that starts with two underscores and does not end with two: the name of the class,
  less its own leading underscores, goes before it.
\<close>

definition mangle :: "string \<Rightarrow> string \<Rightarrow> string" where
  "mangle cls name = (let bare = dropWhile (\<lambda>c. c = CHR ''_'') cls in
     if take 2 name = ''__'' \<and> take 2 (rev name) \<noteq> ''__'' \<and> bare \<noteq> [] then ''_'' @ bare @ name else name)"

definition MCL_CURRENT :: int where "MCL_CURRENT = 1"
definition MCL_FUTURE :: int where "MCL_FUTURE = 2"
definition SCHED_FIFO :: int where "SCHED_FIFO = 1"
definition SCHED_MAX_PRIORITY :: int where "SCHED_MAX_PRIORITY = 99"
definition CPU_SETSIZE :: nat where "CPU_SETSIZE = 1024"
definition NCPUBITS :: nat where "NCPUBITS = 64"

text \<open>A C structure is its attributes: the fields, by the names they were declared with.\<close>

type_synonym cpu_set = "(string \<times> 64 word list) list"

definition CpuSet :: cpu_set where
  "CpuSet = [(''__bits'', replicate (CPU_SETSIZE div NCPUBITS) 0)]"

definition attr_store :: "cpu_set \<Rightarrow> string \<Rightarrow> nat \<Rightarrow> (64 word \<Rightarrow> 64 word) \<Rightarrow> fault + cpu_set" where
  "attr_store cs name i f = (case map_of cs name of None \<Rightarrow> Fail AttributeError
     | Some ws \<Rightarrow> if i < length ws then Ok (map (\<lambda>(n, v). if n = name then (n, v[i := f (v ! i)]) else (n, v)) cs) else Fail IndexError)"

definition self_bits :: string where "self_bits = mangle ''CpuSet'' ''__bits''"

fun zero_from :: "cpu_set \<Rightarrow> nat list \<Rightarrow> fault + cpu_set" where
  "zero_from cs [] = Ok cs"
| "zero_from cs (i # is) = (case attr_store cs self_bits i (\<lambda>_. 0) of Inl e \<Rightarrow> Fail e | Inr cs' \<Rightarrow> zero_from cs' is)"

definition cpu_zero :: "cpu_set \<Rightarrow> fault + cpu_set" where
  "cpu_zero cs = zero_from cs [0..<CPU_SETSIZE div NCPUBITS]"

definition cpu_set_bit :: "cpu_set \<Rightarrow> nat \<Rightarrow> fault + cpu_set" where
  "cpu_set_bit cs cpu = (if cpu < CPU_SETSIZE then attr_store cs self_bits (cpu div NCPUBITS) (\<lambda>w. w OR push_bit (cpu mod NCPUBITS) 1) else Ok cs)"

fun cpu_set_all :: "cpu_set \<Rightarrow> nat list \<Rightarrow> fault + cpu_set" where
  "cpu_set_all cs [] = Ok cs"
| "cpu_set_all cs (c # cores) = (case cpu_set_bit cs c of Inl e \<Rightarrow> Fail e | Inr cs' \<Rightarrow> cpu_set_all cs' cores)"

datatype syscall = Mlockall int | Sched_setscheduler int int | Sched_setaffinity cpu_set

record rt_host =
  is_linux :: bool
  libc :: bool
  cpu_count :: nat
  answer :: "syscall \<Rightarrow> int"

definition discover_topology :: "rt_host \<Rightarrow> nat list" where
  "discover_topology h = (if cpu_count h > 1 then [1..<cpu_count h] else [0])"

text \<open>The system calls that were made, and what the operation returned\<close>

definition enforce_memory_lock :: "rt_host \<Rightarrow> syscall list \<times> bool" where
  "enforce_memory_lock h = (if \<not> libc h then ([], False) else let c = Mlockall (MCL_CURRENT OR MCL_FUTURE) in ([c], answer h c = 0))"

definition enforce_rt_scheduler :: "rt_host \<Rightarrow> syscall list \<times> bool" where
  "enforce_rt_scheduler h = (if \<not> libc h then ([], False) else let c = Sched_setscheduler SCHED_FIFO SCHED_MAX_PRIORITY in ([c], answer h c = 0))"

definition pin_thread_affinity :: "rt_host \<Rightarrow> nat list \<Rightarrow> syscall list \<times> (fault + bool)" where
  "pin_thread_affinity h core_list =
     (if \<not> libc h \<or> core_list = [] then ([], Ok False)
      else case cpu_zero CpuSet of Inl e \<Rightarrow> ([], Fail e)
        | Inr mask0 \<Rightarrow> (case cpu_set_all mask0 core_list of Inl e \<Rightarrow> ([], Fail e)
            | Inr m \<Rightarrow> let c = Sched_setaffinity m in ([c], Ok (answer h c = 0))))"

definition orchestrate_bare_metal :: "rt_host \<Rightarrow> syscall list \<times> (fault + unit)" where
  "orchestrate_bare_metal h =
     (if \<not> is_linux h then ([], Ok ())
      else let (locked, _) = enforce_memory_lock h
        in case pin_thread_affinity h (discover_topology h) of
             (pinned, Inl e) \<Rightarrow> (locked @ pinned, Fail e)
           | (pinned, Inr _) \<Rightarrow> (locked @ pinned @ fst (enforce_rt_scheduler h), Ok ()))"

lemma cpu_zero_fails: "cpu_zero CpuSet = Fail AttributeError"
proof -
  have "[0..<CPU_SETSIZE div NCPUBITS] = 0 # [1..<CPU_SETSIZE div NCPUBITS]"
    by (simp add: CPU_SETSIZE_def NCPUBITS_def upt_conv_Cons)
  moreover have "map_of CpuSet self_bits = None" by (simp add: CpuSet_def self_bits_def mangle_def)
  ultimately show ?thesis by (simp add: cpu_zero_def attr_store_def)
qed

lemma topology_not_empty: "discover_topology h \<noteq> []"
  by (simp add: discover_topology_def)

text \<open>
  C40: a node never becomes a real-time process. Whatever the host, no call pins the threads or raises the scheduling
  class: off Linux or without its C library nothing is done, and on Linux the memory is locked and the set-up then
  dies of an \<^verbatim>\<open>AttributeError\<close>, because the mask of the cores is declared under one name and used under another.
\<close>
theorem boot_never_real_time:
  "orchestrate_bare_metal h = (if is_linux h \<and> libc h then ([Mlockall 3], Fail AttributeError) else ([], Ok ()))"
proof -
  have "(MCL_CURRENT OR MCL_FUTURE) = 3" by (simp add: MCL_CURRENT_def MCL_FUTURE_def)
  then show ?thesis
    using topology_not_empty [of h]
    by (simp add: orchestrate_bare_metal_def enforce_memory_lock_def pin_thread_affinity_def cpu_zero_fails enforce_rt_scheduler_def Let_def)
qed

end
