(* ===== verification/Spatial_Glrt.thy ===== *)
theory Spatial_Glrt
  imports Prelude
begin

text \<open>
  The sphericity test on the spatial covariance: the detector of \<^verbatim>\<open>spatial_glrt_detector.py\<close>, which works on
  eigenvalues, and the compiled evaluation of \<^verbatim>\<open>phase58_fusion_supervisor.py\<close> (\<^verbatim>\<open>_fast_glrt_eval_jit\<close>), which works on an elimination
  and a power iteration. Numbers are exact; the eigenvalue routine and the quantile function of
  the libraries are parameters.
\<close>

section \<open>Covariance\<close>

type_synonym cmat = "nat \<Rightarrow> nat \<Rightarrow> complex"

definition sample_cov :: "nat \<Rightarrow> nat \<Rightarrow> complex list list \<Rightarrow> cmat" where
  "sample_cov len n Y = (\<lambda>i j. (\<Sum>k<len. Y ! i ! k * cnj (Y ! j ! k)) / of_nat n)"

definition trace4 :: "cmat \<Rightarrow> real" where
  "trace4 R = (\<Sum>i<4. Re (R i i))"

section \<open>The compiled evaluation\<close>

text \<open>One column of the elimination, and the product of the pivots; a small pivot makes the determinant 0.\<close>

definition lu_step :: "nat \<Rightarrow> cmat \<Rightarrow> cmat" where
  "lu_step i A = (\<lambda>j k. if i < j \<and> i < k then A j k - A j i / A i i * A i k else A j k)"

fun lu_det :: "nat list \<Rightarrow> cmat \<Rightarrow> complex \<Rightarrow> complex" where
  "lu_det [] A det_val = det_val"
| "lu_det (i # is) A det_val = (if cmod (A i i) < 1 / 10 ^ 12 then 0 else lu_det is (lu_step i A) (det_val * A i i))"

definition clip_ratio :: "real \<Rightarrow> real" where
  "clip_ratio r = (if 1 < r then 1 else if r < 1 / 10 ^ 15 then 1 / 10 ^ 15 else r)"

definition mat_vec :: "cmat \<Rightarrow> (nat \<Rightarrow> complex) \<Rightarrow> nat \<Rightarrow> complex" where
  "mat_vec R v = (\<lambda>i. \<Sum>j<4. R i j * v j)"

definition sum_sq :: "(nat \<Rightarrow> complex) \<Rightarrow> real" where
  "sum_sq w = (\<Sum>i<4. cmod (w i) * cmod (w i))"

definition norm_floor :: "(nat \<Rightarrow> complex) \<Rightarrow> real" where
  "norm_floor w = (if sqrt (sum_sq w) < 1 / 10 ^ 12 then 1 / 10 ^ 12 else sqrt (sum_sq w))"

text \<open>\<open>k\<close> rounds of the power iteration leave the normalised vector and the product before it.\<close>

fun power_iteration :: "nat \<Rightarrow> cmat \<Rightarrow> (nat \<Rightarrow> complex) \<times> (nat \<Rightarrow> complex) \<Rightarrow> (nat \<Rightarrow> complex) \<times> (nat \<Rightarrow> complex)" where
  "power_iteration 0 R vw = vw"
| "power_iteration (Suc k) R (v, w) =
     (let w' = mat_vec R v in power_iteration k R (\<lambda>i. w' i / complex_of_real (norm_floor w'), w'))"

definition lambda_max_val :: "cmat \<Rightarrow> real" where
  "lambda_max_val R = (case power_iteration 5 R (\<lambda>i. 1, \<lambda>i. 0) of (v, w) \<Rightarrow> \<Sum>i<4. Re (cnj (v i) * w i))"

record glrt_result =
  gr_sphericity :: real
  gr_metr :: real
  gr_alert :: bool
  gr_lambda_max :: real

text \<open>The loops run over 4 channels and 50 samples whatever \<open>M\<close> and \<open>N\<close> are; divisions by zero raise.\<close>

definition fast_glrt_eval :: "complex list list \<Rightarrow> nat \<Rightarrow> nat \<Rightarrow> real \<Rightarrow> real \<Rightarrow> fault + glrt_result" where
  "fast_glrt_eval Y M N rho gamma =
     (if length Y < 4 \<or> list_ex (\<lambda>row. length row < 50) (take 4 Y) then Fail OutOfBounds
      else if N = 0 \<or> M = 0 then Fail ZeroDivisionError
      else let R = sample_cov 50 N Y; tr = trace4 R; det_val = Re (lu_det [0..<4] R 1);
               det_real = (if det_val < 1 / 10 ^ 15 then 1 / 10 ^ 15 else det_val)
        in if (tr / real M) ^ M = 0 then Fail ZeroDivisionError
           else let lambda_sphericity = - real N * rho * ln (clip_ratio (det_real / (tr / real M) ^ M)); lambda_max = lambda_max_val R
             in Ok \<lparr>gr_sphericity = lambda_sphericity, gr_metr = lambda_max / (tr + 1 / 10 ^ 12),
                   gr_alert = gamma < lambda_sphericity, gr_lambda_max = lambda_max\<rparr>)"

section \<open>The detector\<close>

record glrt_detector =
  gd_M :: nat
  gd_N :: nat
  gd_p_fa :: real
  gd_df :: int
  gd_rho :: real
  gd_gamma :: real

text \<open>\<open>ppf q df\<close> is the quantile of the chi-squared distribution.\<close>

definition glrt_init :: "(real \<Rightarrow> int \<Rightarrow> real) \<Rightarrow> nat \<Rightarrow> nat \<Rightarrow> real \<Rightarrow> fault + glrt_detector" where
  "glrt_init ppf num_channels window_size p_fa =
     (let M = int num_channels; N = int window_size; df = (M - 1) * (M + 2) div 2
      in if 6 * M * (N - 1) = 0 then Fail ZeroDivisionError
         else Ok \<lparr>gd_M = num_channels, gd_N = window_size, gd_p_fa = p_fa, gd_df = df,
           gd_rho = 1 - (2 * real num_channels ^ 2 + real num_channels + 2) / (6 * real num_channels * (real window_size - 1)),
           gd_gamma = ppf (1 - p_fa) df\<rparr>)"

definition compute_spatial_covariance :: "glrt_detector \<Rightarrow> complex list list \<Rightarrow> fault + cmat" where
  "compute_spatial_covariance d Y =
     (if length Y = gd_M d \<and> list_all (\<lambda>row. length row = gd_N d) Y then Ok (sample_cov (gd_N d) (gd_N d) Y)
      else Fail ValueError)"

record glrt_report =
  rp_sphericity :: real
  rp_metr :: real
  rp_eigenvalues :: "real list"
  rp_alert :: bool

text \<open>\<open>eigvalsh\<close> returns the eigenvalues in ascending order.\<close>

definition evaluate :: "(cmat \<Rightarrow> real list) \<Rightarrow> glrt_detector \<Rightarrow> complex list list \<Rightarrow> fault + glrt_report" where
  "evaluate eigvalsh d Y =
     seqE (compute_spatial_covariance d Y) (\<lambda>R.
       let eigenvalues = map (\<lambda>x. max x (1 / 10 ^ 12)) (eigvalsh R); det_R = prod_list eigenvalues; trace_R = sum_list eigenvalues;
           ratio = det_R / (trace_R / real (gd_M d)) ^ gd_M d;
           sphericity = - real (gd_N d) * gd_rho d * ln (clip_ratio ratio)
       in if eigenvalues = [] then Fail IndexError
          else Ok \<lparr>rp_sphericity = sphericity, rp_metr = last eigenvalues / trace_R, rp_eigenvalues = eigenvalues,
                rp_alert = gd_gamma d < sphericity\<rparr>)"

section \<open>The elimination computes the determinant\<close>

definition det2 :: "nat \<Rightarrow> nat \<Rightarrow> cmat \<Rightarrow> complex" where
  "det2 p q A = A 2 p * A 3 q - A 2 q * A 3 p"

definition det3 :: "nat \<Rightarrow> nat \<Rightarrow> nat \<Rightarrow> cmat \<Rightarrow> complex" where
  "det3 p q r A = A 1 p * det2 q r A - A 1 q * det2 p r A + A 1 r * det2 p q A"

text \<open>Expansion along the first row\<close>

definition det4 :: "cmat \<Rightarrow> complex" where
  "det4 A = A 0 0 * det3 1 2 3 A - A 0 1 * det3 0 2 3 A + A 0 2 * det3 0 1 3 A - A 0 3 * det3 0 1 2 A"

lemma det4_step:
  assumes "A 0 0 \<noteq> 0"
  shows "det4 A = A 0 0 * det3 1 2 3 (lu_step 0 A)"
proof -
  define f where "f = (\<lambda>j. A j 0 / A 0 0)"
  have f: "A (Suc 0) 0 = f (Suc 0) * A 0 0" "A 2 0 = f 2 * A 0 0" "A 3 0 = f 3 * A 0 0" using assms by (simp_all add: f_def)
  have s: "lu_step 0 A j k = A j k - f j * A 0 k" if "0 < j" "0 < k" for j k using that by (simp add: lu_step_def f_def)
  show ?thesis by (simp add: det4_def det3_def det2_def s f) algebra
qed

lemma det3_step:
  assumes "A 1 1 \<noteq> 0"
  shows "det3 1 2 3 A = A 1 1 * det2 2 3 (lu_step 1 A)"
proof -
  define f where "f = (\<lambda>j. A j 1 / A 1 1)"
  have f: "A 2 (Suc 0) = f 2 * A (Suc 0) (Suc 0)" "A 3 (Suc 0) = f 3 * A (Suc 0) (Suc 0)" using assms by (simp_all add: f_def)
  have s: "lu_step (Suc 0) A j k = A j k - f j * A 1 k" if "1 < j" "1 < k" for j k using that by (simp add: lu_step_def f_def)
  show ?thesis by (simp add: det3_def det2_def s f) algebra
qed

lemma det2_step: "A 2 2 \<noteq> 0 \<Longrightarrow> det2 2 3 A = A 2 2 * lu_step 2 A 3 3"
  by (simp add: det2_def lu_step_def field_simps)

definition pivots :: "cmat \<Rightarrow> complex list" where
  "pivots A = (let A1 = lu_step 0 A; A2 = lu_step 1 A1; A3 = lu_step 2 A2 in [A 0 0, A1 1 1, A2 2 2, A3 3 3])"

lemma lu_det_correct:
  assumes "list_all (\<lambda>p. 1 / 10 ^ 12 \<le> cmod p) (pivots A)"
  shows "lu_det [0..<4] A 1 = det4 A"
proof -
  let ?A1 = "lu_step 0 A" let ?A2 = "lu_step 1 ?A1" let ?A3 = "lu_step 2 ?A2"
  have c: "1 / 10 ^ 12 \<le> cmod (A 0 0)" "1 / 10 ^ 12 \<le> cmod (?A1 1 1)" "1 / 10 ^ 12 \<le> cmod (?A2 2 2)" "1 / 10 ^ 12 \<le> cmod (?A3 3 3)"
    using assms by (simp_all add: pivots_def Let_def)
  then have nz: "A 0 0 \<noteq> 0" "?A1 1 1 \<noteq> 0" "?A2 2 2 \<noteq> 0" by (metis norm_zero not_le zero_less_divide_1_iff zero_less_numeral zero_less_power)+
  have "[0..<4] = [0, 1, 2, 3 :: nat]" by (simp add: upt_rec)
  then have "lu_det [0..<4] A 1 = A 0 0 * ?A1 1 1 * ?A2 2 2 * ?A3 3 3"
    using c by (simp only: lu_det.simps not_less [symmetric] if_False mult_1)
  then show ?thesis
    unfolding det4_step [of A, OF nz(1)] det3_step [of ?A1, OF nz(2)] det2_step [of ?A2, OF nz(3)] by (simp only: mult.assoc)
qed

section \<open>Bounds\<close>

lemma clip_bounds: "1 / 10 ^ 15 \<le> clip_ratio r" "clip_ratio r \<le> 1" "0 < clip_ratio r"
  by (auto simp: clip_ratio_def)

lemma neg_ln_clip: "0 \<le> - ln (clip_ratio r)" "- ln (clip_ratio r) \<le> 15 * ln 10"
proof -
  show "0 \<le> - ln (clip_ratio r)" using clip_bounds [of r] by (simp add: ln_le_zero_iff)
  have "ln ((10 :: real) ^ 15) = 15 * ln 10" by (subst ln_realpow) simp_all
  moreover have "ln (1 / y) = - ln y" if "0 < y" for y :: real using that by (simp add: ln_div)
  ultimately have "- (15 * ln 10) = ln (1 / 10 ^ 15 :: real)" by (simp only: zero_less_numeral zero_less_power)
  also have "\<dots> \<le> ln (clip_ratio r)" using clip_bounds [of r] by (subst ln_le_cancel_iff) simp_all
  finally show "- ln (clip_ratio r) \<le> 15 * ln 10" by simp
qed

lemma cauchy_schwarz:
  fixes a b :: "nat \<Rightarrow> real"
  shows "(\<Sum>i<n. a i * b i)\<^sup>2 \<le> (\<Sum>i<n. (a i)\<^sup>2) * (\<Sum>i<n. (b i)\<^sup>2)"
proof -
  have "0 \<le> (\<Sum>i<n. \<Sum>j<n. (a i * b j - a j * b i)\<^sup>2)" by (intro sum_nonneg) simp
  also have "\<dots> = (\<Sum>i<n. \<Sum>j<n. (a i)\<^sup>2 * (b j)\<^sup>2 + (b i)\<^sup>2 * (a j)\<^sup>2 - 2 * ((a i * b i) * (a j * b j)))"
    by (intro sum.cong refl) (simp add: power2_eq_square algebra_simps)
  also have "\<dots> = (\<Sum>i<n. (a i)\<^sup>2) * (\<Sum>i<n. (b i)\<^sup>2) + (\<Sum>i<n. (b i)\<^sup>2) * (\<Sum>i<n. (a i)\<^sup>2) -
      2 * ((\<Sum>i<n. a i * b i) * (\<Sum>i<n. a i * b i))"
    by (simp only: sum.distrib sum_subtractf sum_product sum_distrib_left [symmetric])
  finally show ?thesis by (simp add: power2_eq_square)
qed

lemma cauchy_schwarz_complex:
  fixes a b :: "nat \<Rightarrow> complex"
  shows "(cmod (\<Sum>i<n. a i * b i))\<^sup>2 \<le> (\<Sum>i<n. (cmod (a i))\<^sup>2) * (\<Sum>i<n. (cmod (b i))\<^sup>2)"
proof -
  have "cmod (\<Sum>i<n. a i * b i) \<le> (\<Sum>i<n. cmod (a i) * cmod (b i))"
    by (rule order_trans [OF norm_sum]) (simp add: norm_mult)
  then have "(cmod (\<Sum>i<n. a i * b i))\<^sup>2 \<le> (\<Sum>i<n. cmod (a i) * cmod (b i))\<^sup>2" by (simp add: power_mono)
  also have "\<dots> \<le> (\<Sum>i<n. (cmod (a i))\<^sup>2) * (\<Sum>i<n. (cmod (b i))\<^sup>2)" by (rule cauchy_schwarz)
  finally show ?thesis .
qed

definition row_power :: "nat \<Rightarrow> complex list list \<Rightarrow> nat \<Rightarrow> real" where
  "row_power len Y i = (\<Sum>k<len. (cmod (Y ! i ! k))\<^sup>2)"

lemma row_power_nonneg: "0 \<le> row_power len Y i"
  by (simp add: row_power_def sum_nonneg)

lemma cov_diag: "sample_cov len n Y i i = complex_of_real (row_power len Y i / real n)"
  by (simp add: sample_cov_def row_power_def complex_norm_square flip: of_real_power)

lemma trace_power: "trace4 (sample_cov len n Y) = (\<Sum>i<4. row_power len Y i) / real n"
  by (simp add: trace4_def cov_diag sum_divide_distrib)

lemma trace_nonneg: "0 \<le> trace4 (sample_cov len n Y)"
  by (simp add: trace_power sum_nonneg row_power_nonneg)

lemma cov_entry: "(cmod (sample_cov len n Y i j))\<^sup>2 \<le> (row_power len Y i / real n) * (row_power len Y j / real n)"
proof -
  have "(cmod (\<Sum>k<len. Y ! i ! k * cnj (Y ! j ! k)))\<^sup>2 \<le> row_power len Y i * row_power len Y j"
    using cauchy_schwarz_complex [of "\<lambda>k. Y ! i ! k" "\<lambda>k. cnj (Y ! j ! k)" len] by (simp add: row_power_def)
  then show ?thesis by (simp add: sample_cov_def norm_divide power_divide divide_right_mono power2_eq_square)
qed

lemma sum_sq_alt: "sum_sq w = (\<Sum>i<4. (cmod (w i))\<^sup>2)"
  by (simp add: sum_sq_def power2_eq_square)

lemma sum_sq_nonneg: "0 \<le> sum_sq w"
  by (simp add: sum_sq_alt sum_nonneg)

text \<open>The covariance stretches a vector by at most its trace.\<close>

lemma mat_vec_bound: "sum_sq (mat_vec (sample_cov len n Y) v) \<le> (trace4 (sample_cov len n Y))\<^sup>2 * sum_sq v"
proof -
  let ?R = "sample_cov len n Y" and ?d = "\<lambda>i. row_power len Y i / real n"
  have tr: "trace4 ?R = (\<Sum>i<4. ?d i)" by (simp add: trace_power sum_divide_distrib)
  have "(cmod (mat_vec ?R v i))\<^sup>2 \<le> ?d i * (trace4 ?R * sum_sq v)" for i
  proof -
    have "(\<Sum>j<4. (cmod (?R i j))\<^sup>2) \<le> (\<Sum>j<4. ?d i * ?d j)" by (rule sum_mono) (rule cov_entry)
    also have "\<dots> = ?d i * trace4 ?R" by (simp only: tr sum_distrib_left)
    finally have "(\<Sum>j<4. (cmod (?R i j))\<^sup>2) * sum_sq v \<le> ?d i * trace4 ?R * sum_sq v"
      by (rule mult_right_mono) (rule sum_sq_nonneg)
    with cauchy_schwarz_complex [of "?R i" v 4] show ?thesis by (simp add: mat_vec_def sum_sq_alt mult.assoc)
  qed
  then have "sum_sq (mat_vec ?R v) \<le> (\<Sum>i<4. ?d i * (trace4 ?R * sum_sq v))" unfolding sum_sq_alt [of "mat_vec ?R v"] by (intro sum_mono)
  also have "\<dots> = trace4 ?R * (trace4 ?R * sum_sq v)" by (simp only: tr sum_distrib_right)
  finally show ?thesis by (simp add: power2_eq_square mult.assoc)
qed

lemma norm_floor_bounds: "0 < norm_floor w" "sqrt (sum_sq w) \<le> norm_floor w"
proof -
  have m: "norm_floor w = max (1 / 10 ^ 12) (sqrt (sum_sq w))" by (simp add: norm_floor_def max_def)
  show "0 < norm_floor w" unfolding m less_max_iff_disj by simp
  show "sqrt (sum_sq w) \<le> norm_floor w" unfolding m by (rule max.cobounded2)
qed

lemma normalised: "sum_sq (\<lambda>i. w i / complex_of_real (norm_floor w)) \<le> 1"
proof -
  have "sum_sq (\<lambda>i. w i / complex_of_real (norm_floor w)) = sum_sq w / (norm_floor w)\<^sup>2"
    using norm_floor_bounds [of w] by (simp add: sum_sq_alt norm_divide power_divide sum_divide_distrib)
  moreover have "(sqrt (sum_sq w))\<^sup>2 \<le> (norm_floor w)\<^sup>2" using norm_floor_bounds sum_sq_nonneg by (intro power_mono) simp_all
  ultimately show ?thesis using norm_floor_bounds [of w] sum_sq_nonneg [of w] by simp
qed

lemma power_iteration_Suc: "power_iteration (Suc k) R vw =
    (let w = mat_vec R (fst (power_iteration k R vw)) in (\<lambda>i. w i / complex_of_real (norm_floor w), w))"
proof (induction k arbitrary: vw)
  case 0
  show ?case by (cases vw) (simp add: Let_def)
next
  case (Suc k)
  obtain v w where vw: "vw = (v, w)" by (cases vw)
  let ?w = "mat_vec R v"
  let ?vw = "(\<lambda>i. ?w i / complex_of_real (norm_floor ?w), ?w)"
  have step: "power_iteration (Suc j) R vw = power_iteration j R ?vw" for j by (simp add: vw Let_def)
  show ?case unfolding step [of "Suc k"] Suc [of ?vw] step [of k] ..
qed

lemma lambda_max_bounds:
  shows "0 \<le> lambda_max_val (sample_cov len n Y)" "lambda_max_val (sample_cov len n Y) \<le> trace4 (sample_cov len n Y)"
proof -
  let ?R = "sample_cov len n Y"
  define v where "v = fst (power_iteration 4 ?R (\<lambda>i. 1, \<lambda>i. 0))"
  define w where "w = mat_vec ?R v"
  have five: "power_iteration 5 ?R (\<lambda>i. 1, \<lambda>i. 0) = (\<lambda>i. w i / complex_of_real (norm_floor w), w)"
    using power_iteration_Suc [of 4] by (simp add: v_def w_def Let_def numeral_eq_Suc)
  have "Re (cnj (w i / complex_of_real (norm_floor w)) * w i) = (cmod (w i))\<^sup>2 / norm_floor w" for i
    unfolding cmod_power2 by (simp add: power2_eq_square add_divide_distrib)
  then have val: "lambda_max_val ?R = sum_sq w / norm_floor w"
    unfolding lambda_max_val_def five prod.case sum_sq_alt sum_divide_distrib by (intro sum.cong refl)
  then show "0 \<le> lambda_max_val ?R" using norm_floor_bounds [of w] sum_sq_nonneg [of w] by simp
  have "sum_sq w = sqrt (sum_sq w) * sqrt (sum_sq w)" using sum_sq_nonneg [of w] by simp
  also have "\<dots> \<le> sqrt (sum_sq w) * norm_floor w" using norm_floor_bounds [of w] sum_sq_nonneg [of w] by (intro mult_left_mono) simp_all
  finally have "lambda_max_val ?R \<le> sqrt (sum_sq w)" unfolding val using norm_floor_bounds [of w] by (simp add: pos_divide_le_eq)
  also have "sqrt (sum_sq w) \<le> trace4 ?R"
  proof -
    have "sum_sq v \<le> 1" using power_iteration_Suc [of 3 ?R "(\<lambda>i. 1, \<lambda>i. 0)"] normalised by (simp add: v_def Let_def numeral_eq_Suc)
    then have "(trace4 ?R)\<^sup>2 * sum_sq v \<le> (trace4 ?R)\<^sup>2" by (simp add: mult_left_le)
    with mat_vec_bound [of len n Y v] have "sum_sq w \<le> (trace4 ?R)\<^sup>2" unfolding w_def by linarith
    then show ?thesis using trace_nonneg [of len n Y] by (simp add: real_le_lsqrt)
  qed
  finally show "lambda_max_val ?R \<le> trace4 ?R" .
qed

definition strided :: "complex list list \<Rightarrow> bool" where
  "strided Y \<longleftrightarrow> length Y = 4 \<and> list_all (\<lambda>row. length row = 50) Y"

definition silent :: "complex list list \<Rightarrow> bool" where
  "silent Y \<longleftrightarrow> list_all (list_all (\<lambda>y. y = 0)) Y"

lemma silent_trace:
  assumes "strided Y" "0 < n"
  shows "trace4 (sample_cov 50 n Y) = 0 \<longleftrightarrow> silent Y"
proof -
  have len: "length Y = 4" "\<And>i. i < 4 \<Longrightarrow> length (Y ! i) = 50" using assms(1) by (auto simp: strided_def list_all_length)
  have "trace4 (sample_cov 50 n Y) = 0 \<longleftrightarrow> (\<forall>i<4. row_power 50 Y i = 0)"
    using assms(2) by (auto simp: trace_power sum_nonneg_eq_0_iff row_power_nonneg)
  also have "\<dots> \<longleftrightarrow> silent Y" using len by (auto simp: row_power_def sum_nonneg_eq_0_iff silent_def list_all_length)
  finally show ?thesis .
qed

lemma fast_value:
  assumes "strided Y" "0 < N" "\<not> silent Y"
  shows "fast_glrt_eval Y 4 N rho gamma =
    (let R = sample_cov 50 N Y; d = Re (lu_det [0..<4] R 1);
         s = - real N * rho * ln (clip_ratio ((if d < 1 / 10 ^ 15 then 1 / 10 ^ 15 else d) / (trace4 R / 4) ^ 4))
     in Ok \<lparr>gr_sphericity = s, gr_metr = lambda_max_val R / (trace4 R + 1 / 10 ^ 12), gr_alert = gamma < s, gr_lambda_max = lambda_max_val R\<rparr>)"
proof -
  have shape: "\<not> (length Y < 4 \<or> list_ex (\<lambda>row. length row < 50) (take 4 Y))"
    using assms(1) by (auto simp: strided_def list_all_iff list_ex_iff)
  have tr: "(trace4 (sample_cov 50 N Y) / 4) ^ 4 \<noteq> 0" using silent_trace [OF assms(1,2)] assms(3) by simp
  show ?thesis unfolding fast_glrt_eval_def Let_def using shape tr assms(2) by (simp del: upt_rec_numeral)
qed

text \<open>
  On 4 by 50 samples the compiled evaluation raises exactly when all are zero; otherwise the statistic lies between 0
  and 15 ln 10 times the number of samples and the correction, the eigenvalue estimate between 0 and
  the trace, and the ratio of the two below 1.
\<close>

theorem glrt_bounded:
  assumes "strided Y" "0 < N" "0 \<le> rho"
  shows "if silent Y then fast_glrt_eval Y 4 N rho gamma = Fail ZeroDivisionError
    else \<exists>r. fast_glrt_eval Y 4 N rho gamma = Ok r \<and> 0 \<le> gr_sphericity r \<and> gr_sphericity r \<le> real N * rho * (15 * ln 10) \<and>
      (gr_alert r \<longleftrightarrow> gamma < gr_sphericity r) \<and> 0 \<le> gr_lambda_max r \<and> gr_lambda_max r \<le> trace4 (sample_cov 50 N Y) \<and>
      0 \<le> gr_metr r \<and> gr_metr r < 1"
proof (cases "silent Y")
  case True
  have "\<not> (length Y < 4 \<or> list_ex (\<lambda>row. length row < 50) (take 4 Y))"
    using assms(1) by (auto simp: strided_def list_all_iff list_ex_iff)
  with True silent_trace [OF assms(1,2)] assms(2) show ?thesis by (simp add: fast_glrt_eval_def Let_def del: upt_rec_numeral)
next
  case False
  let ?R = "sample_cov 50 N Y"
  have scaled: "0 \<le> - real N * rho * ln (clip_ratio q)" "- real N * rho * ln (clip_ratio q) \<le> real N * rho * (15 * ln 10)" for q
  proof -
    have c: "0 \<le> real N * rho" using assms(3) by simp
    show "0 \<le> - real N * rho * ln (clip_ratio q)" using mult_nonneg_nonneg [OF c neg_ln_clip(1) [of q]] by simp
    show "- real N * rho * ln (clip_ratio q) \<le> real N * rho * (15 * ln 10)" using mult_left_mono [OF neg_ln_clip(2) [of q] c] by simp
  qed
  have "0 < trace4 ?R" using silent_trace [OF assms(1,2)] False trace_nonneg [of 50 N Y] by simp
  then have metr: "0 \<le> lambda_max_val ?R / (trace4 ?R + 1 / 10 ^ 12)" "lambda_max_val ?R / (trace4 ?R + 1 / 10 ^ 12) < 1"
    using lambda_max_bounds [of 50 N Y] by (simp_all add: pos_divide_less_eq add_pos_pos)
  show ?thesis
    unfolding fast_value [OF assms(1,2) False] Let_def using False scaled metr lambda_max_bounds [of 50 N Y] by (simp del: upt_rec_numeral)
qed

theorem glrt_bounded_witness:
  "fast_glrt_eval (replicate 4 (replicate 50 0)) 4 50 1 1 = Fail ZeroDivisionError \<and>
   (\<exists>r. fast_glrt_eval (replicate 4 (replicate 50 1)) 4 50 1 1 = Ok r \<and> gr_metr r < 1)"
proof -
  have "strided (replicate 4 (replicate 50 c))" for c by (simp add: strided_def list_all_iff)
  moreover have "silent (replicate 4 (replicate 50 0))" "\<not> silent (replicate 4 (replicate 50 1))" by (simp_all add: silent_def list_all_iff)
  ultimately show ?thesis
    using glrt_bounded [of "replicate 4 (replicate 50 0)" 50 1 1] glrt_bounded [of "replicate 4 (replicate 50 1)" 50 1 1] by auto
qed

section \<open>Both evaluations\<close>

text \<open>What is relied on of the eigenvalue routine: four eigenvalues with the determinant and the trace.\<close>

definition spectrum_of :: "cmat \<Rightarrow> real list \<Rightarrow> bool" where
  "spectrum_of R es \<longleftrightarrow> length es = 4 \<and> complex_of_real (prod_list es) = det4 R \<and> sum_list es = trace4 R"

lemma evaluate_value:
  assumes "gd_M d = 4" "gd_N d = 50" "strided Y" "eigvalsh (sample_cov 50 50 Y) = es" "es \<noteq> []"
  shows "evaluate eigvalsh d Y =
    (let fs = map (\<lambda>x. max x (1 / 10 ^ 12)) es; s = - 50 * gd_rho d * ln (clip_ratio (prod_list fs / (sum_list fs / 4) ^ 4))
     in Ok \<lparr>rp_sphericity = s, rp_metr = last fs / sum_list fs, rp_eigenvalues = fs, rp_alert = gd_gamma d < s\<rparr>)"
  using assms by (simp add: evaluate_def compute_spatial_covariance_def strided_def Let_def)

lemma flooring_idle: "list_all (\<lambda>x. c \<le> x) es \<Longrightarrow> map (\<lambda>x. max x c) es = (es :: real list)"
  by (induction es) auto

text \<open>
  C32: When no eigenvalue, no pivot and not the determinant is under its floor, the compiled evaluation and the
  detector give the same statistic and the same verdict, for any threshold.
\<close>

theorem fast_matches_detector:
  assumes "gd_M d = 4" "gd_N d = 50" "strided Y" "spectrum_of (sample_cov 50 50 Y) (eigvalsh (sample_cov 50 50 Y))"
    "list_all (\<lambda>x. 1 / 10 ^ 12 \<le> x) (eigvalsh (sample_cov 50 50 Y))" "1 / 10 ^ 15 \<le> prod_list (eigvalsh (sample_cov 50 50 Y))"
    "list_all (\<lambda>p. 1 / 10 ^ 12 \<le> cmod p) (pivots (sample_cov 50 50 Y))"
  shows "\<exists>r p. fast_glrt_eval Y 4 50 (gd_rho d) (gd_gamma d) = Ok r \<and> evaluate eigvalsh d Y = Ok p \<and>
    gr_sphericity r = rp_sphericity p \<and> gr_alert r = rp_alert p"
proof -
  let ?R = "sample_cov 50 50 Y" let ?es = "eigvalsh ?R"
  have es: "length ?es = 4" "complex_of_real (prod_list ?es) = det4 ?R" "sum_list ?es = trace4 ?R"
    using assms(4) by (auto simp: spectrum_of_def)
  then have ne: "?es \<noteq> []" by auto
  have "\<not> silent Y"
  proof
    assume "silent Y"
    then have "sample_cov 50 50 Y 0 0 = 0"
      using assms(3) by (simp add: sample_cov_def silent_def strided_def list_all_length)
    then have "list_all (\<lambda>p. 1 / 10 ^ 12 \<le> cmod p) [0]" using assms(7) by (simp add: pivots_def Let_def)
    then show False by simp
  qed
  moreover have "Re (lu_det [0..<4] ?R 1) = prod_list ?es"
    unfolding lu_det_correct [OF assms(7)] es(2) [symmetric] by simp
  moreover have "evaluate eigvalsh d Y = (let s = - 50 * gd_rho d * ln (clip_ratio (prod_list ?es / (sum_list ?es / 4) ^ 4))
     in Ok \<lparr>rp_sphericity = s, rp_metr = last ?es / sum_list ?es, rp_eigenvalues = ?es, rp_alert = gd_gamma d < s\<rparr>)"
    by (simp only: evaluate_value [of d Y eigvalsh ?es, OF assms(1-3) _ ne] flooring_idle [OF assms(5)] Let_def)
  ultimately show ?thesis
    using assms(6) by (simp add: fast_value [OF assms(3)] es(3) not_less Let_def del: upt_rec_numeral)
qed

text \<open>Four tones in turn on the four channels: the covariance is twice the identity.\<close>

definition one_at_a_time :: "complex list list" where
  "one_at_a_time = map (\<lambda>i. (replicate 50 0)[i := 10]) [0..<4]"

lemma one_at_a_time_cov: "i < 4 \<Longrightarrow> j < 4 \<Longrightarrow> sample_cov 50 50 one_at_a_time i j = (if i = j then 2 else 0)"
proof -
  assume ij: "i < 4" "j < 4"
  have "(\<Sum>k<50. one_at_a_time ! i ! k * cnj (one_at_a_time ! j ! k)) = (\<Sum>k<50. if k = i then (if i = j then 100 else 0) else 0)"
    using ij by (intro sum.cong) (auto simp: one_at_a_time_def nth_list_update)
  then show ?thesis using ij by (simp add: sample_cov_def)
qed

definition detector50 :: glrt_detector where
  "detector50 = \<lparr>gd_M = 4, gd_N = 50, gd_p_fa = 1 / 10 ^ 7, gd_df = 9, gd_rho = 1 - 38 / 1176, gd_gamma = 51\<rparr>"

theorem fast_matches_detector_witness:
  "\<exists>r p. fast_glrt_eval one_at_a_time 4 50 (gd_rho detector50) 51 = Ok r \<and> evaluate (\<lambda>R. [2, 2, 2, 2]) detector50 one_at_a_time = Ok p \<and>
     gr_sphericity r = rp_sphericity p \<and> gr_alert r = rp_alert p"
proof -
  let ?R = "sample_cov 50 50 one_at_a_time"
  have entries: "?R i j = (if i = j then 2 else 0)" if "i \<in> {0, Suc 0, 2, 3}" "j \<in> {0, Suc 0, 2, 3}" for i j
    using that by (intro one_at_a_time_cov) auto
  have lu: "lu_step i A j k = (if j = k then 2 else 0)"
    if "\<And>i j. i \<in> {0, Suc 0, 2, 3} \<Longrightarrow> j \<in> {0, Suc 0, 2, 3} \<Longrightarrow> A i j = (if i = j then 2 else (0 :: complex))"
      "i \<in> {0, Suc 0, 2, 3}" "j \<in> {0, Suc 0, 2, 3}" "k \<in> {0, Suc 0, 2, 3}" for A i j k
    using that(1) [OF that(2,2)] that(1) [OF that(3,2)] that(1) [OF that(2,4)] that(1) [OF that(3,4)] that(1) [OF that(4,4)] by (simp add: lu_step_def)
  have A1: "lu_step 0 ?R j k = (if j = k then 2 else 0)" if "j \<in> {0, Suc 0, 2, 3}" "k \<in> {0, Suc 0, 2, 3}" for j k
    by (rule lu) (use entries that in auto)
  have A2: "lu_step 1 (lu_step 0 ?R) j k = (if j = k then 2 else 0)" if "j \<in> {0, Suc 0, 2, 3}" "k \<in> {0, Suc 0, 2, 3}" for j k
    by (rule lu) (use A1 that in auto)
  have A3: "lu_step 2 (lu_step 1 (lu_step 0 ?R)) j k = (if j = k then 2 else 0)" if "j \<in> {0, Suc 0, 2, 3}" "k \<in> {0, Suc 0, 2, 3}" for j k
    by (rule lu) (use A2 that in auto)
  have piv: "pivots ?R = [2, 2, 2, 2]"
    using entries [of 0 0] A1 [of 1 1] A2 [of 2 2] A3 [of 3 3] by (simp add: pivots_def Let_def)
  have det: "det4 ?R = 16" by (simp add: det4_def det3_def det2_def entries)
  have tr: "trace4 ?R = 8" by (simp add: trace4_def one_at_a_time_cov)
  have "strided one_at_a_time" by (auto simp: strided_def one_at_a_time_def list_all_iff)
  with fast_matches_detector [of detector50 one_at_a_time "\<lambda>R. [2, 2, 2, 2]"] show ?thesis
    by (simp add: piv spectrum_of_def det tr detector50_def)
qed

text \<open>
  The floor under the determinant comes before the scaling by the power. A single coherent source on all channels
  with a trace between 1e-6 and 4 times the fourth root of 1e-15 has the largest statistic the detector can report, and the
  compiled evaluation reports 0 and no alert.
\<close>

theorem weak_jammer_unseen:
  assumes "gd_M d = 4" "gd_N d = 50" "0 \<le> gd_gamma d" "strided Y" "eigvalsh (sample_cov 50 50 Y) = [0, 0, 0, trace4 (sample_cov 50 50 Y)]"
    "1 / 10 ^ 6 \<le> trace4 (sample_cov 50 50 Y)" "(trace4 (sample_cov 50 50 Y) / 4) ^ 4 \<le> 1 / 10 ^ 15"
  shows "\<exists>r p. fast_glrt_eval Y 4 50 (gd_rho d) (gd_gamma d) = Ok r \<and> gr_sphericity r = 0 \<and> \<not> gr_alert r \<and>
    evaluate eigvalsh d Y = Ok p \<and> rp_sphericity p = 50 * gd_rho d * (15 * ln 10) \<and> rp_alert p = (gd_gamma d < 50 * gd_rho d * (15 * ln 10))"
proof -
  let ?R = "sample_cov 50 50 Y" let ?l = "trace4 ?R" let ?D = "Re (lu_det [0..<4] ?R 1)"
  have loud: "\<not> silent Y" using silent_trace [OF assms(4), of 50] assms(6) by auto
  have pos: "0 < ?l" using assms(6) by (rule less_le_trans [rotated]) simp
  have "(?l / 4) ^ 4 \<le> (if ?D < 1 / 10 ^ 15 then 1 / 10 ^ 15 else ?D)"
    using assms(7) by (rule order_trans) (simp only: not_less order_refl split: if_split, blast)
  then have "1 \<le> (if ?D < 1 / 10 ^ 15 then 1 / 10 ^ 15 else ?D) / (?l / 4) ^ 4" using pos by (subst le_divide_eq_1_pos) simp_all
  then have "ln (clip_ratio ((if ?D < 1 / 10 ^ 15 then 1 / 10 ^ 15 else ?D) / (?l / 4) ^ 4)) = 0" by (simp add: clip_ratio_def)
  then obtain r where r: "fast_glrt_eval Y 4 50 (gd_rho d) (gd_gamma d) = Ok r" "gr_sphericity r = 0" "\<not> gr_alert r"
    using assms(3) by (simp add: fast_value [OF assms(4) _ loud] Let_def del: upt_rec_numeral)
  let ?e = "1 / 10 ^ 12 :: real"
  have fs: "map (\<lambda>x. max x ?e) [0, 0, 0, ?l] = [?e, ?e, ?e, ?l]" using assms(6) by (simp add: max_def)
  have "?e * (?e * (?e * ?l)) / ((?e + (?e + (?e + ?l))) / 4) ^ 4 < 1 / 10 ^ 15"
  proof -
    have "(1 / 10 ^ 6) ^ 3 \<le> ?l ^ 3" by (rule power_mono [OF assms(6)]) simp
    then have "1 / 10 ^ 18 * ?l \<le> ?l ^ 3 * ?l" using pos by (intro mult_right_mono) (simp_all add: power_divide)
    also have "\<dots> = ?l ^ 4" by (simp add: power_Suc2 [of ?l 3, symmetric] del: power_Suc2)
    also have "?l ^ 4 \<le> (?e + (?e + (?e + ?l))) ^ 4" using pos by (intro power_mono) simp_all
    finally have big: "1 / 10 ^ 18 * ?l / 256 \<le> ((?e + (?e + (?e + ?l))) / 4) ^ 4" by (simp add: power_divide)
    have "?e * (?e * (?e * ?l)) < 1 / 10 ^ 15 * (1 / 10 ^ 18 * ?l / 256)" using pos by simp
    also have "\<dots> \<le> 1 / 10 ^ 15 * ((?e + (?e + (?e + ?l))) / 4) ^ 4" using big by (rule mult_left_mono) simp
    finally show ?thesis using pos by (subst pos_divide_less_eq) (simp_all add: add_pos_pos zero_less_power)
  qed
  then have "clip_ratio (prod_list [?e, ?e, ?e, ?l] / (sum_list [?e, ?e, ?e, ?l] / 4) ^ 4) = 1 / 10 ^ 15"
    by (simp only: clip_ratio_def prod_list.Cons prod_list.Nil sum_list.Cons sum_list.Nil mult_1_right add_0_right) (simp add: less_imp_le not_less)
  moreover have "- ln (1 / 10 ^ 15 :: real) = 15 * ln 10"
  proof -
    have "ln (1 / y) = - ln y" if "0 < y" for y :: real using that by (simp add: ln_div)
    moreover have "ln ((10 :: real) ^ 15) = 15 * ln 10" by (subst ln_realpow) simp_all
    ultimately show ?thesis by (simp only: zero_less_numeral zero_less_power minus_minus)
  qed
  ultimately have L: "ln (clip_ratio (prod_list [?e, ?e, ?e, ?l] / (sum_list [?e, ?e, ?e, ?l] / 4) ^ 4)) = - (15 * ln 10)"
    by (metis minus_minus)
  obtain p where "evaluate eigvalsh d Y = Ok p" "rp_sphericity p = - 50 * gd_rho d * - (15 * ln 10)"
    "rp_alert p = (gd_gamma d < - 50 * gd_rho d * - (15 * ln 10))"
    unfolding evaluate_value [of d Y eigvalsh "[0, 0, 0, ?l]", OF assms(1,2,4,5) list.distinct(2)] Let_def fs L by simp
  then have "evaluate eigvalsh d Y = Ok p" "rp_sphericity p = 50 * gd_rho d * (15 * ln 10)"
    "rp_alert p = (gd_gamma d < 50 * gd_rho d * (15 * ln 10))" by simp_all
  with r show ?thesis by blast
qed

theorem weak_jammer_unseen_witness:
  "\<exists>r p. fast_glrt_eval (replicate 4 (replicate 50 (1 / 100))) 4 50 (gd_rho detector50) 51 = Ok r \<and> \<not> gr_alert r \<and>
     evaluate (\<lambda>R. [0, 0, 0, 1 / 2500]) detector50 (replicate 4 (replicate 50 (1 / 100))) = Ok p \<and>
     rp_sphericity p = 50 * gd_rho detector50 * (15 * ln 10)"
proof -
  let ?Y = "replicate 4 (replicate 50 (1 / 100 :: complex))"
  have tr: "trace4 (sample_cov 50 50 ?Y) = 1 / 2500" by (simp add: trace4_def sample_cov_def)
  have d: "gd_M detector50 = 4" "gd_N detector50 = 50" "gd_gamma detector50 = 51" by (simp_all add: detector50_def)
  have "strided ?Y" by (simp add: strided_def list_all_iff)
  moreover have "(1 / 2500 / 4) ^ 4 \<le> (1 :: real) / 10 ^ 15" "(1 :: real) / 10 ^ 6 \<le> 1 / 2500" by (simp_all add: power_divide)
  ultimately show ?thesis
    using weak_jammer_unseen [of detector50 ?Y "\<lambda>R. [0, 0, 0, 1 / 2500]"] unfolding tr d by simp blast
qed

end
