(* ===== verification/Array_Calibration.thy ===== *)
theory Array_Calibration
  imports Spatial_Glrt
begin

text \<open>
  \<^verbatim>\<open>array_calibration_engine.py\<close>: gain and phase correction of the antennas from the principal eigenvector of the
  first hundred snapshots. Numbers are exact, with \<open>None\<close> for a value that is not finite; the eigenvector routine
  and \<^verbatim>\<open>np.sign\<close> on complex numbers (which releases of the library define differently) are parameters.
\<close>

section \<open>The engine\<close>

record calibrator =
  ca_M :: nat
  ca_calibrated :: bool
  ca_W_diag :: "complex option list"

definition calibrator_init :: "nat \<Rightarrow> calibrator" where
  "calibrator_init num_channels = \<lparr>ca_M = num_channels, ca_calibrated = False, ca_W_diag = replicate num_channels (Some 1)\<rparr>"

definition compute_circularity_margin :: "complex list \<Rightarrow> real" where
  "compute_circularity_margin channel_data =
     (let n = real (length channel_data); total_power = sum_list (map (\<lambda>z. (cmod z)\<^sup>2) channel_data) / n
      in if total_power < 1 / 10 ^ 12 then 1
         else let x_norm = map (\<lambda>z. z / complex_of_real (sqrt total_power)) channel_data;
                  pseudo_cov = sum_list (map (\<lambda>z. z\<^sup>2) x_norm) / of_real n
           in 1 - (cmod pseudo_cov)\<^sup>2)"

definition snapshots :: nat where "snapshots = 100"

definition correction :: "(complex \<Rightarrow> complex) \<Rightarrow> complex \<Rightarrow> complex option" where
  "correction np_sign v =
     (let v' = (if cmod v < 1 / 10 ^ 6 then 1 / 10 ^ 6 * np_sign v else v)
      in if v' = 0 then None else Some (1 / v'))"

text \<open>The factors go into a column of \<^verbatim>\<open>M\<close> rows: one factor is repeated, any other number does not fit.\<close>

definition calibrate :: "(cmat \<Rightarrow> nat \<Rightarrow> complex) \<Rightarrow> (complex \<Rightarrow> complex) \<Rightarrow> complex list list \<Rightarrow> calibrator \<Rightarrow> fault + calibrator" where
  "calibrate eigvec np_sign Y_raw c =
     (let len = min snapshots (length (Y_raw ! 0)); u_max = eigvec (sample_cov len snapshots Y_raw);
          ref_elem = (if cmod (u_max 0) < 1 / 10 ^ 12 then 1 / 10 ^ 12 else u_max 0);
          w = (map (\<lambda>i. correction np_sign (u_max i / ref_elem)) [0..<length Y_raw])[0 := Some 1]
      in if Y_raw = [] then Fail IndexError
         else if length w = ca_M c then Ok (c\<lparr>ca_W_diag := w, ca_calibrated := True\<rparr>)
         else if length w = 1 then Ok (c\<lparr>ca_W_diag := replicate (ca_M c) (w ! 0), ca_calibrated := True\<rparr>)
         else Fail ValueError)"

text \<open>Writing a block into a buffer of \<open>M\<close> rows of \<open>n\<close> samples: single rows and columns are repeated, other shapes do not fit.\<close>

definition broadcast_to :: "nat \<Rightarrow> nat \<Rightarrow> 'a list list \<Rightarrow> fault + 'a list list" where
  "broadcast_to M n Y =
     (if (length Y = M \<or> length Y = 1) \<and> (list_all (\<lambda>row. length row = n) Y \<or> list_all (\<lambda>row. length row = 1) Y)
      then Ok (map (\<lambda>i. let row = Y ! (if length Y = 1 then 0 else i) in if length row = n then row else replicate n (row ! 0)) [0..<M])
      else Fail ValueError)"

text \<open>Rows of the output buffer; a channel whose factor is not finite has no finite sample.\<close>

definition equalize :: "nat \<Rightarrow> complex list list \<Rightarrow> calibrator \<Rightarrow> fault + complex option list list" where
  "equalize n Y_raw c =
     seqE (broadcast_to (ca_M c) n Y_raw) (\<lambda>Y.
       Ok (if \<not> ca_calibrated c then map (map Some) Y
           else map2 (\<lambda>w row. map (\<lambda>y. map_option (\<lambda>f. f * y) w) row) (ca_W_diag c) Y))"

section \<open>A source in the first block\<close>

text \<open>What the library documents of the last eigenvector of a Hermitian matrix\<close>

definition eigen_pair :: "nat \<Rightarrow> cmat \<Rightarrow> real \<Rightarrow> (nat \<Rightarrow> complex) \<Rightarrow> bool" where
  "eigen_pair M R ev u \<longleftrightarrow> (\<exists>i<M. u i \<noteq> 0) \<and> (\<forall>i<M. (\<Sum>j<M. R i j * u j) = complex_of_real ev * u i)"

definition top_eigenvector :: "nat \<Rightarrow> cmat \<Rightarrow> (nat \<Rightarrow> complex) \<Rightarrow> bool" where
  "top_eigenvector M R u \<longleftrightarrow> (\<Sum>i<M. (cmod (u i))\<^sup>2) = 1 \<and> (\<exists>ev. eigen_pair M R ev u \<and> (\<forall>ev' v. eigen_pair M R ev' v \<longrightarrow> ev' \<le> ev))"

definition source_block :: "nat \<Rightarrow> (nat \<Rightarrow> complex) \<Rightarrow> complex list \<Rightarrow> complex list list" where
  "source_block M a s = map (\<lambda>i. map (\<lambda>x. a i * x) s) [0..<M]"

definition array_energy :: "nat \<Rightarrow> (nat \<Rightarrow> complex) \<Rightarrow> real" where
  "array_energy M a = (\<Sum>i<M. (cmod (a i))\<^sup>2)"

lemma source_cov:
  assumes "len \<le> length s" "i < M" "j < M"
  shows "sample_cov len n (source_block M a s) i j = complex_of_real ((\<Sum>k<len. (cmod (s ! k))\<^sup>2) / n) * a i * cnj (a j)"
proof -
  have "source_block M a s ! i ! k * cnj (source_block M a s ! j ! k) = complex_of_real ((cmod (s ! k))\<^sup>2) * (a i * cnj (a j))" if "k < len" for k
    using that assms complex_norm_square [of "s ! k"] by (simp add: source_block_def algebra_simps)
  then have "(\<Sum>k<len. source_block M a s ! i ! k * cnj (source_block M a s ! j ! k)) =
      (\<Sum>k<len. complex_of_real ((cmod (s ! k))\<^sup>2) * (a i * cnj (a j)))" by (intro sum.cong) auto
  also have "\<dots> = complex_of_real (\<Sum>k<len. (cmod (s ! k))\<^sup>2) * (a i * cnj (a j))"
    unfolding of_real_sum by (rule sum_distrib_right [symmetric])
  finally show ?thesis by (simp add: sample_cov_def)
qed

lemma top_eigenvector_cong:
  assumes "\<And>i j. i < M \<Longrightarrow> j < M \<Longrightarrow> R i j = R' i j"
  shows "top_eigenvector M R u = top_eigenvector M R' u"
proof -
  have "(\<Sum>j<M. R i j * v j) = (\<Sum>j<M. R' i j * v j)" if "i < M" for i v using assms that by (intro sum.cong) auto
  then show ?thesis by (simp add: top_eigenvector_def eigen_pair_def)
qed

lemma rank_one_eigenvector:
  assumes top: "top_eigenvector M R u" and R: "\<And>i j. i < M \<Longrightarrow> j < M \<Longrightarrow> R i j = complex_of_real P * a i * cnj (a j)"
    and "0 < P" "\<exists>i<M. a i \<noteq> 0"
  shows "\<exists>c. c \<noteq> 0 \<and> (\<forall>i<M. u i = c * a i)"
proof -
  have act: "(\<Sum>j<M. R i j * v j) = complex_of_real P * a i * (\<Sum>j<M. cnj (a j) * v j)" if "i < M" for i v
    using that R by (simp add: sum_distrib_left mult.assoc)
  have "(\<Sum>j<M. cnj (a j) * a j) = complex_of_real (array_energy M a)"
    unfolding array_energy_def of_real_sum by (intro sum.cong refl) (metis complex_norm_square mult.commute)
  then have "eigen_pair M R (P * array_energy M a) a" using act [of _ a] assms(4) by (simp add: eigen_pair_def)
  moreover obtain ev where ev: "eigen_pair M R ev u" "\<And>ev' v. eigen_pair M R ev' v \<Longrightarrow> ev' \<le> ev"
    using top by (auto simp: top_eigenvector_def)
  moreover have "0 < array_energy M a"
    unfolding array_energy_def using assms(4) by (meson finite_lessThan lessThan_iff sum_pos2 zero_le_power2 zero_less_norm_iff zero_less_power)
  ultimately have pos: "0 < ev" using assms(3) by (smt (verit) mult_pos_pos)
  define c where "c = complex_of_real P * (\<Sum>j<M. cnj (a j) * u j) / complex_of_real ev"
  have u: "u i = c * a i" if "i < M" for i
    using ev(1) that pos act [OF that, of u] by (auto simp: eigen_pair_def c_def field_simps)
  moreover have "c \<noteq> 0" using u ev(1) by (auto simp: eigen_pair_def)
  ultimately show ?thesis by blast
qed

definition aligned :: "nat \<Rightarrow> (nat \<Rightarrow> complex) \<Rightarrow> bool" where
  "aligned M a \<longleftrightarrow> (1 / 10 ^ 12) * sqrt (array_energy M a) \<le> cmod (a 0) \<and> a 0 \<noteq> 0 \<and> (\<forall>i<M. cmod (a 0) \<le> 10 ^ 6 * cmod (a i))"

lemma correction_normal: "1 / 10 ^ 6 \<le> cmod v \<Longrightarrow> correction np_sign v = Some (1 / v)"
  by (auto simp: correction_def Let_def)

lemma calibrated_factors:
  assumes "top_eigenvector M R u" "R = sample_cov len snapshots (source_block M a s)" "len = min snapshots (length s)"
    and "aligned M a" "0 < M" "\<exists>k<len. s ! k \<noteq> 0" "i < M" "eigvec R = u"
  shows "\<exists>c. calibrate eigvec np_sign (source_block M a s) (calibrator_init M) = Ok c \<and> ca_M c = M \<and> ca_calibrated c \<and>
      length (ca_W_diag c) = M \<and> ca_W_diag c ! i = Some (a 0 / a i)"
proof -
  let ?P = "(\<Sum>k<len. (cmod (s ! k))\<^sup>2) / snapshots"
  have P: "0 < ?P" using assms(6) by (auto simp: snapshots_def intro!: sum_pos2)
  have a0: "a 0 \<noteq> 0" "0 < cmod (a 0)" using assms(4) by (auto simp: aligned_def)
  have Rij: "R i j = complex_of_real ?P * a i * cnj (a j)" if "i < M" "j < M" for i j
    using source_cov [of len s i M j snapshots a] that assms(3) by (simp add: assms(2))
  obtain c where c: "c \<noteq> 0" "\<And>i. i < M \<Longrightarrow> u i = c * a i"
    using rank_one_eigenvector [OF assms(1) Rij P] a0(1) assms(5) by blast
  have "(\<Sum>i<M. (cmod (u i))\<^sup>2) = (cmod c)\<^sup>2 * array_energy M a"
    unfolding array_energy_def sum_distrib_left by (intro sum.cong) (simp_all add: c(2) norm_mult power_mult_distrib)
  then have unit: "(cmod c * sqrt (array_energy M a))\<^sup>2 = 1"
    using assms(1) by (simp add: top_eigenvector_def power_mult_distrib array_energy_def sum_nonneg)
  moreover have "0 \<le> cmod c * sqrt (array_energy M a)" by (simp add: array_energy_def sum_nonneg)
  ultimately have "cmod c * sqrt (array_energy M a) = 1" using power2_eq_iff_nonneg [where x = "cmod c * sqrt (array_energy M a)" and y = 1] by simp
  moreover have "cmod c * ((1 / 10 ^ 12) * sqrt (array_energy M a)) \<le> cmod c * cmod (a 0)"
    by (rule mult_left_mono) (use assms(4) in \<open>auto simp: aligned_def\<close>)
  ultimately have "1 / 10 ^ 12 \<le> cmod c * cmod (a 0)" by (simp add: mult.left_commute)
  then have ref: "\<not> cmod (u 0) < 1 / 10 ^ 12" using c(2) [of 0] assms(5) by (simp add: norm_mult)
  have Y: "min snapshots (length (source_block M a s ! 0)) = len" using assms(3,5) by (simp add: source_block_def)
  have ai: "cmod (a 0) \<le> 10 ^ 6 * cmod (a i)" using assms(4,7) by (simp add: aligned_def)
  then have "1 / 10 ^ 6 \<le> cmod (u i / u 0)" using c(1) c(2) [of i] c(2) [of 0] a0 assms(5,7) by (simp add: norm_divide norm_mult field_simps)
  then have corr: "correction np_sign (u i / u 0) = Some (u 0 / u i)" by (simp add: correction_normal)
  have "a i \<noteq> 0" using ai a0(2) by auto
  then have "u 0 / u i = a 0 / a i" using c assms(5,7) by (simp add: field_simps)
  moreover have "u 0 / u i = 1" if "i = 0" using that c(1) c(2) [of 0] a0(1) assms(5) by simp
  moreover have "length (source_block M a s) = M" "source_block M a s \<noteq> []" using assms(5) by (auto simp: source_block_def)
  ultimately show ?thesis
    using assms(7) ref corr
    by (cases "i = 0") (simp_all add: calibrate_def calibrator_init_def Let_def Y assms(8) assms(2) [symmetric] nth_list_update)
qed

text \<open>
  C39: calibration takes the first block for the reference. When one source fills the first hundred samples and every antenna
  hears it within 120 dB of the first, then from then on every block from the same direction, whatever its
  waveform, comes out of the equaliser with all channels equal to the first: gain and phase errors are gone, and so is the direction of the
  source, be it the satellite or an attacker that transmits when the receiver starts.
\<close>
theorem calibration_aligns:
  assumes "top_eigenvector M (sample_cov (min snapshots (length s)) snapshots (source_block M a s)) (eigvec (sample_cov (min snapshots (length s)) snapshots (source_block M a s)))"
    and "aligned M a" "0 < M" and "\<exists>k<min snapshots (length s). s ! k \<noteq> 0"
  shows "\<exists>c. calibrate eigvec np_sign (source_block M a s) (calibrator_init M) = Ok c \<and>
      equalize (length t) (source_block M a t) c = Ok (replicate M (map (\<lambda>x. Some (a 0 * x)) t))"
proof -
  have factors: "\<exists>c. calibrate eigvec np_sign (source_block M a s) (calibrator_init M) = Ok c \<and> ca_M c = M \<and> ca_calibrated c \<and>
      length (ca_W_diag c) = M \<and> ca_W_diag c ! i = Some (a 0 / a i)" if "i < M" for i
    by (rule calibrated_factors [OF assms(1) _ _ assms(2-4) that]) simp_all
  obtain c where c: "calibrate eigvec np_sign (source_block M a s) (calibrator_init M) = Ok c" "ca_M c = M" "ca_calibrated c" "length (ca_W_diag c) = M"
    using factors [of 0] assms(3) by auto
  have W: "ca_W_diag c ! i = Some (a 0 / a i)" if "i < M" for i using factors [of i] that c(1) by auto
  have "broadcast_to M (length t) (source_block M a t) = Ok (source_block M a t)"
    using map_nth [of "source_block M a t"] by (auto simp: broadcast_to_def source_block_def list_all_iff Let_def intro: nth_equalityI)
  moreover have "a i \<noteq> 0" if "i < M" for i using assms(2) that by (force simp: aligned_def)
  then have "map2 (\<lambda>w row. map (\<lambda>y. map_option (\<lambda>f. f * y) w) row) (ca_W_diag c) (source_block M a t) = replicate M (map (\<lambda>x. Some (a 0 * x)) t)"
    using W c(4) by (intro nth_equalityI) (auto simp: source_block_def)
  ultimately show ?thesis using c by (simp add: equalize_def)
qed

text \<open>Two antennas in phase\<close>

lemma pair_eigenvector:
  "top_eigenvector 2 (\<lambda>i j. 1) (\<lambda>i. complex_of_real (1 / sqrt 2))"
proof -
  have pair: "eigen_pair 2 (\<lambda>i j. 1) 2 (\<lambda>i. complex_of_real (1 / sqrt 2))" by (auto simp: eigen_pair_def intro!: exI [of _ 0])
  have "ev \<le> 2" if "eigen_pair 2 (\<lambda>i j. 1) ev v" for ev v
  proof -
    have s: "v 0 + v 1 = complex_of_real ev * v 0" "v 0 + v 1 = complex_of_real ev * v 1" and ne: "v 0 \<noteq> 0 \<or> v 1 \<noteq> 0"
      using that by (auto simp: eigen_pair_def numeral_2_eq_2 less_Suc_eq all_conj_distrib)
    show ?thesis
    proof (cases "ev = 0")
      case False
      moreover have "complex_of_real ev * v 0 = complex_of_real ev * v 1" using s by simp
      ultimately have "v 0 = v 1" by simp
      then have "complex_of_real (ev - 2) * v 0 = 0" "v 0 \<noteq> 0" using s ne by (auto simp: algebra_simps)
      then show ?thesis by (simp only: mult_eq_0_iff of_real_eq_0_iff) simp
    qed simp
  qed
  with pair show ?thesis by (auto simp: top_eigenvector_def norm_divide power_divide intro!: exI [of _ 2])
qed

theorem calibration_aligns_witness:
  "\<exists>c. calibrate (\<lambda>R i. complex_of_real (1 / sqrt 2)) sgn (source_block 2 (\<lambda>i. 1) (replicate 100 1)) (calibrator_init 2) = Ok c \<and>
     equalize 2 (source_block 2 (\<lambda>i. 1) [3, 4]) c = Ok [[Some 3, Some 4], [Some 3, Some 4]]"
proof -
  have cov: "sample_cov 100 100 (source_block 2 (\<lambda>i. 1) (replicate 100 1)) i j = 1" if "i < 2" "j < 2" for i j
    using source_cov [of 100 "replicate 100 1" i 2 j 100 "\<lambda>i. 1"] that by simp
  have "top_eigenvector 2 (sample_cov 100 100 (source_block 2 (\<lambda>i. 1) (replicate 100 1))) (\<lambda>i. complex_of_real (1 / sqrt 2))"
    using pair_eigenvector top_eigenvector_cong [of 2 "sample_cov 100 100 (source_block 2 (\<lambda>i. 1) (replicate 100 1))" "\<lambda>i j. 1"] cov by blast
  moreover have "sqrt 2 \<le> 10 ^ 12" by (rule real_le_lsqrt) simp_all
  ultimately show ?thesis
    using calibration_aligns [where M = 2 and s = "replicate 100 1" and a = "\<lambda>i. 1" and eigvec = "\<lambda>R i. complex_of_real (1 / sqrt 2)"
      and np_sign = sgn and t = "[3, 4]"]
    by (simp add: snapshots_def aligned_def array_energy_def numeral_2_eq_2 exI [of _ 0])
qed

lemma dead_antenna_unprotected: "np_sign 0 = 0 \<Longrightarrow> correction np_sign 0 = None"
  by (simp add: correction_def)

end
