(* ===== verification/Rff_Features.thy ===== *)
theory Rff_Features
  imports Prelude
begin

text \<open>
  \<^verbatim>\<open>rff_feature_extractor.py\<close>: the transmitter signature of a stream of samples. Numbers are exact reals; the
  library's phase unwrapping, line fit and averaged periodogram are parameters. \<^verbatim>\<open>np.angle\<close> is \<^term>\<open>Arg\<close>, with
  values above \<open>- \<pi>\<close> and up to \<open>\<pi>\<close>, and 0 at 0.
\<close>

section \<open>The estimators\<close>

definition mean :: "real list \<Rightarrow> real" where
  "mean xs = sum_list xs / length xs"

definition lag_one :: "complex list \<Rightarrow> complex" where
  "lag_one iq = sum_list (map2 (\<lambda>x y. x * cnj y) (tl iq) (butlast iq)) / of_nat (length iq - 1)"

definition estimate_cfo :: "real \<Rightarrow> complex list \<Rightarrow> real" where
  "estimate_cfo fs iq = (if length iq < 2 then 0 else Arg (lag_one iq) * fs / (2 * pi))"

definition np_clip :: "real \<Rightarrow> real \<Rightarrow> real \<Rightarrow> real" where
  "np_clip lo hi x = (if x < lo then lo else if hi < x then hi else x)"

definition estimate_iq_imbalance :: "complex list \<Rightarrow> real \<times> real" where
  "estimate_iq_imbalance iq =
     (let var_i = mean (map (\<lambda>z. (Re z)\<^sup>2) iq); var_q = mean (map (\<lambda>z. (Im z)\<^sup>2) iq)
      in if var_i < 1 / 10 ^ 12 \<or> var_q < 1 / 10 ^ 12 then (0, 0)
         else let g_linear = sqrt (var_q / var_i); g_db = 20 * log 10 (g_linear + 1 / 10 ^ 12);
                  correlation = mean (map (\<lambda>z. Re z * Im z) iq);
                  sin_phi = np_clip (- 1) 1 (correlation / (sqrt (var_i * var_q) + 1 / 10 ^ 12));
                  phi_deg = arcsin sin_phi * 180 / pi
           in (g_db, phi_deg))"

definition std_dev :: "real list \<Rightarrow> real" where
  "std_dev xs = sqrt (mean (map (\<lambda>x. (x - mean xs)\<^sup>2) xs))"

text \<open>\<open>unwrap\<close> is \<^verbatim>\<open>np.unwrap\<close>; \<open>fit xs ys\<close> the slope and the offset of \<^verbatim>\<open>np.polyfit\<close> of degree 1\<close>

definition estimate_phase_noise :: "(real list \<Rightarrow> real list) \<Rightarrow> (real list \<Rightarrow> real list \<Rightarrow> real \<times> real) \<Rightarrow> real \<Rightarrow> complex list \<Rightarrow> real \<Rightarrow> real" where
  "estimate_phase_noise unwrap fit fs iq cfo_hz =
     (let n = length iq
      in if n < 10 then 0
         else let iq_corrected = map (\<lambda>k. iq ! k * cis (- 2 * pi * cfo_hz * (real k / fs))) [0..<n];
                  phases = unwrap (map Arg iq_corrected); x = map real [0..<n]; (slope, offset) = fit x phases;
                  phase_residuals = map2 (\<lambda>p t. p - (slope * t + offset)) phases x
           in std_dev phase_residuals)"

text \<open>\<open>welch fs nperseg iq\<close> is the averaged periodogram; \<^verbatim>\<open>np.max\<close> of an empty one raises.\<close>

definition calculate_spectral_metrics :: "(real \<Rightarrow> nat \<Rightarrow> complex list \<Rightarrow> real list) \<Rightarrow> real \<Rightarrow> complex list \<Rightarrow> fault + real \<times> real" where
  "calculate_spectral_metrics welch fs iq =
     (let psd = welch fs (min 256 (length iq)) iq; eps = 1 / 10 ^ 12;
          psd_norm = map (\<lambda>p. p / (sum_list psd + eps)) psd;
          geometric_mean = exp (mean (map (\<lambda>p. ln (p + eps)) psd_norm));
          spectral_flatness = geometric_mean / (mean psd_norm + eps);
          psd_db = map (\<lambda>p. 10 * log 10 (p + eps)) psd
      in if psd = [] then Fail ValueError else Ok (spectral_flatness, Max (set psd_db) - mean psd_db))"

record rff_features =
  rf_cfo_hz :: real
  rf_iq_amp :: real
  rf_iq_phase :: real
  rf_phase_noise :: real
  rf_flatness :: real
  rf_prominence :: real

definition rff_extract :: "(real list \<Rightarrow> real list) \<Rightarrow> (real list \<Rightarrow> real list \<Rightarrow> real \<times> real) \<Rightarrow> (real \<Rightarrow> nat \<Rightarrow> complex list \<Rightarrow> real list) \<Rightarrow>
    real \<Rightarrow> complex list \<Rightarrow> fault + rff_features" where
  "rff_extract unwrap fit welch fs iq =
     (let cfo = estimate_cfo fs iq; (amp_imb, phase_imb) = estimate_iq_imbalance iq;
          phase_noise = estimate_phase_noise unwrap fit fs iq cfo
      in seqE (calculate_spectral_metrics welch fs iq) (\<lambda>(flatness, prominence).
           Ok \<lparr>rf_cfo_hz = cfo, rf_iq_amp = amp_imb, rf_iq_phase = phase_imb, rf_phase_noise = phase_noise,
               rf_flatness = flatness, rf_prominence = prominence\<rparr>))"

section \<open>The offset of a tone\<close>

definition tone :: "complex \<Rightarrow> real \<Rightarrow> real \<Rightarrow> nat \<Rightarrow> complex list" where
  "tone amp f fs n = map (\<lambda>k. amp * cis (2 * pi * f * (real k / fs))) [0..<n]"

lemma Arg_positive: "0 < r \<Longrightarrow> Arg (complex_of_real r * z) = Arg z"
  by (cases "z = 0") (auto simp: Arg_def sgn_mult sgn_of_real)

lemma lag_one_tone:
  assumes "2 \<le> n" "fs \<noteq> 0"
  shows "lag_one (tone amp f fs n) = complex_of_real ((cmod amp)\<^sup>2) * cis (2 * pi * f / fs)"
proof -
  let ?w = "2 * pi * f / fs"
  have "map2 (\<lambda>x y. x * cnj y) (tl (tone amp f fs n)) (butlast (tone amp f fs n)) =
      replicate (n - 1) (complex_of_real ((cmod amp)\<^sup>2) * cis ?w)"
  proof (rule nth_equalityI)
    fix k assume "k < length (map2 (\<lambda>x y. x * cnj y) (tl (tone amp f fs n)) (butlast (tone amp f fs n)))"
    then have k: "k < n - 1" by (simp add: tone_def)
    have "?w * real (Suc k) - ?w * real k = ?w" by (simp add: algebra_simps add_divide_distrib)
    then have "cis (?w * real (Suc k)) * cnj (cis (?w * real k)) = cis ?w"
      by (simp add: cis_cnj cis_mult del: of_nat_Suc)
    then have "amp * cis (?w * real (Suc k)) * cnj (amp * cis (?w * real k)) = complex_of_real ((cmod amp)\<^sup>2) * cis ?w"
      by (metis complex_cnj_mult complex_norm_square mult.assoc mult.left_commute)
    with k show "map2 (\<lambda>x y. x * cnj y) (tl (tone amp f fs n)) (butlast (tone amp f fs n)) ! k =
        replicate (n - 1) (complex_of_real ((cmod amp)\<^sup>2) * cis ?w) ! k"
      by (simp add: tone_def nth_tl nth_butlast del: of_nat_Suc)
  qed (simp add: tone_def)
  moreover have "(of_nat (n - 1) :: complex) \<noteq> 0" using assms(1) by simp
  ultimately show ?thesis by (simp add: lag_one_def sum_list_replicate tone_def)
qed

lemma estimate_cfo_tone:
  assumes "2 \<le> n" "amp \<noteq> 0" "0 < fs" "- fs / 2 < f" "f \<le> fs / 2"
  shows "estimate_cfo fs (tone amp f fs n) = f"
proof -
  let ?w = "2 * pi * f / fs"
  have "2 * f / fs \<le> 1" "- 1 < 2 * f / fs" using assms(3-5) by (simp_all add: field_simps)
  then have "pi * (2 * f / fs) \<le> pi * 1" "pi * (- 1) < pi * (2 * f / fs)"
    using mult_left_mono [of "2 * f / fs" 1 pi] mult_strict_left_mono [of "- 1" "2 * f / fs" pi] by simp_all
  then have range: "- pi < ?w" "?w \<le> pi" by (simp_all add: algebra_simps)
  have "Arg (cis ?w) = ?w" by (rule cis_Arg_unique) (use range in \<open>simp_all add: sgn_cis\<close>)
  then have "Arg (lag_one (tone amp f fs n)) = ?w"
    using lag_one_tone [of n fs amp f] Arg_positive [of "(cmod amp)\<^sup>2" "cis ?w"] assms(1-3) by simp
  then show ?thesis using assms(1,3) by (simp add: estimate_cfo_def) (simp add: tone_def)
qed

text \<open>Mixed out with its own frequency a tone stands still.\<close>

lemma tone_mixed_out:
  assumes "fs \<noteq> 0"
  shows "map (\<lambda>k. tone amp f fs n ! k * cis (- 2 * pi * f * (real k / fs))) [0..<n] = replicate n amp"
  by (rule nth_equalityI) (simp_all add: tone_def mult.assoc cis_mult)

lemma phase_noise_tone:
  assumes "fs \<noteq> 0" "\<And>n c. unwrap (replicate n c) = replicate n c"
    "\<And>xs c. 2 \<le> length xs \<Longrightarrow> distinct xs \<Longrightarrow> fit xs (replicate (length xs) c) = (0, c)"
  shows "estimate_phase_noise unwrap fit fs (tone amp f fs n) f = 0"
proof (cases "n < 10")
  case True
  then show ?thesis by (simp add: estimate_phase_noise_def tone_def)
next
  case False
  have len: "length (tone amp f fs n) = n" by (simp add: tone_def)
  have still: "unwrap (map Arg (map (\<lambda>k. tone amp f fs n ! k * cis (- 2 * pi * f * (real k / fs))) [0..<n])) = replicate n (Arg amp)"
    by (simp only: tone_mixed_out [OF assms(1)] map_replicate assms(2))
  have "fit (map real [0..<n]) (replicate n (Arg amp)) = (0, Arg amp)"
    using assms(3) [of "map real [0..<n]" "Arg amp"] False by (simp add: distinct_map inj_on_def)
  moreover have "map2 (\<lambda>p t. p - (0 * t + Arg amp)) (replicate n (Arg amp)) (map real [0..<n]) = replicate n 0"
    by (rule nth_equalityI) simp_all
  moreover have "std_dev (replicate n 0) = 0" by (simp add: std_dev_def mean_def sum_list_replicate)
  ultimately show ?thesis
    using False unfolding estimate_phase_noise_def len still Let_def by simp
qed

text \<open>
  the fingerprint of a clean carrier is clean. For a tone of any amplitude and phase, seen through any complex gain, whose
  frequency is within half the sampling rate, two samples or more give its frequency exactly as the carrier offset and no
  phase noise at all; an empty periodogram makes the extraction fail. Of the library it is assumed that unwrapping leaves
  constant phases alone and that the line fitted to constant values is flat.
\<close>
theorem tone_signature:
  assumes "2 \<le> n" "amp \<noteq> 0" "gain \<noteq> 0" "0 < fs" "- fs / 2 < f" "f \<le> fs / 2"
    and "\<And>n c. unwrap (replicate n c) = replicate n c"
    and "\<And>xs c. 2 \<le> length xs \<Longrightarrow> distinct xs \<Longrightarrow> fit xs (replicate (length xs) c) = (0, c)"
  shows "let iq = map ((*) gain) (tone amp f fs n) in
    if welch fs (min 256 n) iq = [] then rff_extract unwrap fit welch fs iq = Fail ValueError
    else \<exists>r. rff_extract unwrap fit welch fs iq = Ok r \<and> rf_cfo_hz r = f \<and> rf_phase_noise r = 0"
proof -
  have scaled: "map ((*) gain) (tone amp f fs n) = tone (gain * amp) f fs n" by (simp add: tone_def mult.assoc)
  have cfo: "estimate_cfo fs (tone (gain * amp) f fs n) = f"
    using assms(2,3) by (intro estimate_cfo_tone [OF assms(1) _ assms(4-6)]) simp
  have noise: "estimate_phase_noise unwrap fit fs (tone (gain * amp) f fs n) f = 0"
    using assms(4) by (intro phase_noise_tone assms(7,8)) auto
  have len: "length (tone (gain * amp) f fs n) = n" by (simp add: tone_def)
  show ?thesis
    unfolding scaled rff_extract_def Let_def cfo noise calculate_spectral_metrics_def len by (auto split: prod.split)
qed

definition flat_fit :: "real list \<Rightarrow> real list \<Rightarrow> real \<times> real" where
  "flat_fit xs ys = (0, hd ys)"

theorem tone_signature_witness:
  "\<exists>r. rff_extract id flat_fit (\<lambda>_ _ _. [1]) 1000 (map ((*) 3) (tone 2 250 1000 16)) = Ok r \<and> rf_cfo_hz r = 250 \<and> rf_phase_noise r = 0"
proof -
  have flat: "flat_fit xs (replicate (length xs) c) = (0, c)" if "2 \<le> length xs" for xs c
    using that by (cases xs) (simp_all add: flat_fit_def)
  show ?thesis
    using tone_signature [of 16 2 3 1000 250 id flat_fit "\<lambda>_ _ _. [1]"] flat by (simp add: Let_def)
qed

section \<open>Ranges of the spectral features\<close>

lemma mean_mono: "xs \<noteq> [] \<Longrightarrow> (\<And>x. x \<in> set xs \<Longrightarrow> f x \<le> g x) \<Longrightarrow> mean (map f xs) \<le> mean (map g xs)"
  by (simp add: mean_def divide_right_mono sum_list_mono)

lemma mean_const [simp]: "xs \<noteq> [] \<Longrightarrow> mean (map (\<lambda>_. c) xs) = c"
  by (simp add: mean_def sum_list_triv)

lemma mean_shift: "xs \<noteq> [] \<Longrightarrow> mean (map (\<lambda>x. f x + c) xs) = mean (map f xs) + c"
  by (simp add: mean_def sum_list_addf sum_list_triv add_divide_distrib)

lemma mean_scale: "mean (map (\<lambda>x. f x / a) xs) = mean (map f xs) / a"
  using sum_list_const_mult [of "1 / a" f xs] by (simp add: mean_def)

lemma geometric_le_arithmetic:
  assumes "xs \<noteq> []" "\<And>x. x \<in> set xs \<Longrightarrow> 0 < f x"
  shows "exp (mean (map (\<lambda>x. ln (f x)) xs)) \<le> mean (map f xs)"
proof -
  let ?A = "mean (map f xs)"
  have "0 < sum_list (map f xs)" using assms by (cases xs) (auto intro!: add_pos_nonneg sum_list_nonneg simp: less_imp_le)
  with assms(1) have A: "0 < ?A" by (simp add: mean_def)
  have "ln (f x) \<le> f x / ?A + (ln ?A - 1)" if "x \<in> set xs" for x
    using ln_le_minus_one [of "f x / ?A"] A assms(2) [OF that] by (simp add: ln_div)
  then have "mean (map (\<lambda>x. ln (f x)) xs) \<le> mean (map (\<lambda>x. f x / ?A + (ln ?A - 1)) xs)" by (rule mean_mono [OF assms(1)])
  also have "\<dots> = ?A / ?A + (ln ?A - 1)" by (simp only: mean_shift [OF assms(1)] mean_scale)
  also have "\<dots> = ln ?A" using A by simp
  finally have "exp (mean (map (\<lambda>x. ln (f x)) xs)) \<le> exp (ln ?A)" by simp
  with A show ?thesis by simp
qed

lemma Max_ge_mean: "xs \<noteq> [] \<Longrightarrow> mean xs \<le> Max (set xs)"
  using mean_mono [of xs id "\<lambda>_. Max (set xs)"] mean_const [of xs "Max (set xs)"] by simp

lemma spectral_bounds:
  assumes "welch fs (min 256 (length iq)) iq = psd" "psd \<noteq> []" "\<forall>p \<in> set psd. 0 \<le> p"
  shows "\<exists>flatness prominence. calculate_spectral_metrics welch fs iq = Ok (flatness, prominence) \<and>
    0 < flatness \<and> flatness \<le> 1 \<and> 0 \<le> prominence"
proof -
  define eps :: real where "eps = 1 / 10 ^ 12"
  define nrm where "nrm = map (\<lambda>p. p / (sum_list psd + eps)) psd"
  have eps: "0 < eps" by (simp add: eps_def)
  have "0 \<le> sum_list psd" using assms(3) by (simp add: sum_list_nonneg)
  with assms(3) eps have nonneg: "0 \<le> p" if "p \<in> set nrm" for p using that by (auto simp: nrm_def)
  have ne: "nrm \<noteq> []" using assms(2) by (simp add: nrm_def)
  have le: "exp (mean (map (\<lambda>p. ln (p + eps)) nrm)) \<le> mean nrm + eps"
    using geometric_le_arithmetic [OF ne, of "\<lambda>p. p + eps"] nonneg eps mean_shift [OF ne, of "\<lambda>p. p" eps] by force
  then have pos: "0 < mean nrm + eps" by (meson exp_gt_zero less_le_trans)
  have "calculate_spectral_metrics welch fs iq = Ok (exp (mean (map (\<lambda>p. ln (p + eps)) nrm)) / (mean nrm + eps),
      Max (set (map (\<lambda>p. 10 * log 10 (p + eps)) psd)) - mean (map (\<lambda>p. 10 * log 10 (p + eps)) psd))"
    using assms(2) by (simp add: calculate_spectral_metrics_def Let_def assms(1) nrm_def eps_def)
  moreover have "0 < exp (mean (map (\<lambda>p. ln (p + eps)) nrm)) / (mean nrm + eps)" using pos by (intro divide_pos_pos) simp_all
  moreover have "exp (mean (map (\<lambda>p. ln (p + eps)) nrm)) / (mean nrm + eps) \<le> 1" using pos le by (simp only: divide_le_eq_1_pos)
  moreover have "mean (map (\<lambda>p. 10 * log 10 (p + eps)) psd) \<le> Max (set (map (\<lambda>p. 10 * log 10 (p + eps)) psd))"
    using assms(2) by (intro Max_ge_mean) simp
  ultimately show ?thesis by simp
qed

end
