(* ===== verification/Inference_Engine.thy ===== *)
theory Inference_Engine
  imports Prelude "HOL-Library.Sublist"
begin

text \<open>
  \<^verbatim>\<open>edge_inference_engine.py\<close>: the feature vector of a fingerprint, the fallback network, the verdict with its score,
  and the producers and the worker that share a bounded queue, in steps of one queue operation each. Half-precision numbers are exact reals, the weights (drawn by
  the library's generator) and the compiled session are parameters, and a time is a reading of the clock.
\<close>

section \<open>The feature vector\<close>

record fingerprint =
  fp_get :: "string \<Rightarrow> real option"
  fp_rff :: "(string \<Rightarrow> real option) option"

text \<open>Python's \<^verbatim>\<open>or\<close> on what \<^verbatim>\<open>get\<close> returns: a zero counts as missing, and the last operand is returned as it is.\<close>

fun get_or :: "(string \<Rightarrow> real option) \<Rightarrow> string list \<Rightarrow> real option" where
  "get_or m [] = None"
| "get_or m [k] = m k"
| "get_or m (k # ks) = (case m k of Some v \<Rightarrow> if v \<noteq> 0 then Some v else get_or m ks | None \<Rightarrow> get_or m ks)"

definition nested :: "fingerprint \<Rightarrow> string \<Rightarrow> real option \<Rightarrow> real option" where
  "nested d k v = (case v of Some x \<Rightarrow> Some x | None \<Rightarrow> (case fp_rff d of Some m \<Rightarrow> m k | None \<Rightarrow> None))"

definition or_default :: "real \<Rightarrow> real option \<Rightarrow> real" where
  "or_default x v = (case v of Some y \<Rightarrow> y | None \<Rightarrow> x)"

definition flatten_dict :: "fingerprint \<Rightarrow> real list" where
  "flatten_dict d =
     (let cfo = nested d ''cfo'' (get_or (fp_get d) [''cfo_hz'', ''cfo'']);
          phase_noise = nested d ''phase_noise'' (get_or (fp_get d) [''phase_noise_std_rad'', ''phase_noise'']);
          iq_amp = nested d ''iq_amp_imbalance'' (get_or (fp_get d) [''iq_amp_imbalance_db'', ''iq_amp_imbalance'']);
          iq_phase = nested d ''iq_phase_imbalance'' (get_or (fp_get d) [''iq_phase_imbalance_deg'', ''iq_phase_imbalance'']);
          flatness = get_or (fp_get d) [''spectral_flatness'', ''flatness''];
          prominence = get_or (fp_get d) [''spectral_peak_prominence_db'', ''spectral_peak_prominence'', ''prominence'']
      in [or_default 0 cfo, or_default 0 iq_amp, or_default 0 iq_phase, or_default 0 phase_noise, or_default (1 / 2) flatness, or_default 0 prominence])"

section \<open>The fallback network\<close>

record fallback_weights =
  W_proj :: "real list list"
  b_proj :: "real list"
  W_conv1 :: "real list list list"
  b_conv1 :: "real list"
  W_conv2 :: "real list list list"
  b_conv2 :: "real list"
  W_fc1 :: "real list list"
  b_fc1 :: "real list"
  W_fc2 :: "real list list"
  b_fc2 :: "real list"

definition relu :: "real list \<Rightarrow> real list" where
  "relu xs = map (\<lambda>x. if x < 0 then 0 else x) xs"

definition dot_row :: "real list \<Rightarrow> real list list \<Rightarrow> nat \<Rightarrow> real" where
  "dot_row x W j = sum_list (map2 (\<lambda>a row. a * row ! j) x W)"

definition affine :: "real list list \<Rightarrow> real list \<Rightarrow> real list \<Rightarrow> real list" where
  "affine W b x = map (\<lambda>j. dot_row x W j + b ! j) [0..<length b]"

definition reshape_steps :: "nat \<Rightarrow> nat \<Rightarrow> real list \<Rightarrow> real list list" where
  "reshape_steps steps channels h = map (\<lambda>l. map (\<lambda>c. h ! (channels * l + c)) [0..<channels]) [0..<steps]"

text \<open>Three taps over the steps, padded with a zero step on either side\<close>

definition conv1d :: "real list list list \<Rightarrow> real list \<Rightarrow> real list list \<Rightarrow> real list list" where
  "conv1d W b h =
     (let zero_step = replicate (length (h ! 0)) 0; h_pad = zero_step # h @ [zero_step]
      in map (\<lambda>l. relu (map (\<lambda>j. dot_row (h_pad ! l) (W ! 0) j + dot_row (h_pad ! Suc l) (W ! 1) j +
              dot_row (h_pad ! Suc (Suc l)) (W ! 2) j + b ! j) [0..<length b])) [0..<length h])"

definition average_pool :: "nat \<Rightarrow> real list list \<Rightarrow> real list" where
  "average_pool channels h = map (\<lambda>c. sum_list (map (\<lambda>step. step ! c) h) / length h) [0..<channels]"

definition calibration_bias :: "real \<Rightarrow> real \<Rightarrow> real list \<Rightarrow> real list" where
  "calibration_bias cfo_val flatness_val logits =
     (if 6 / 10 < flatness_val then logits[1 := logits ! 1 + 10]
      else if 50 < cfo_val \<or> cfo_val < - 50 then logits[2 := logits ! 2 + 10]
      else logits[0 := logits ! 0 + 5])"

definition softmax :: "real list \<Rightarrow> real list" where
  "softmax logits = (let e = map (\<lambda>l. exp (l - Max (set logits))) logits in map (\<lambda>x. x / sum_list e) e)"

definition forward_row :: "fallback_weights \<Rightarrow> real list \<Rightarrow> real list" where
  "forward_row w x =
     (let h = reshape_steps 8 16 (relu (affine (W_proj w) (b_proj w) x));
          conv1 = conv1d (W_conv1 w) (b_conv1 w) h;
          conv2 = conv1d (W_conv2 w) (b_conv2 w) conv1;
          gap = average_pool (length (b_conv2 w)) conv2;
          fc1 = relu (affine (W_fc1 w) (b_fc1 w) gap);
          logits = affine (W_fc2 w) (b_fc2 w) fc1
      in softmax (calibration_bias (x ! 0) (x ! 4) logits))"

text \<open>A batch that is no matrix with six columns does not fit the projection.\<close>

definition forward_fallback :: "fallback_weights \<Rightarrow> real list list \<Rightarrow> fault + real list list" where
  "forward_fallback w X = (if list_all (\<lambda>x. length x = 6) X then Ok (map (forward_row w) X) else Fail ValueError)"

definition argmax :: "real list \<Rightarrow> nat" where
  "argmax xs = length (takeWhile (\<lambda>x. x \<noteq> Max (set xs)) xs)"

definition classes :: "string list" where
  "classes = [''NORMAL'', ''JAMMING'', ''SPOOFING'']"

type_synonym session_run = "real list list \<Rightarrow> fault + real list list"

definition run_model :: "fallback_weights \<Rightarrow> session_run option \<Rightarrow> real list list \<Rightarrow> fault + real list list" where
  "run_model w session X = (case session of Some run \<Rightarrow> run X | None \<Rightarrow> forward_fallback w X)"

definition classify_fingerprint :: "fallback_weights \<Rightarrow> session_run option \<Rightarrow> fingerprint \<Rightarrow> fault + (string \<times> real)" where
  "classify_fingerprint w session d =
     seqE (run_model w session [flatten_dict d]) (\<lambda>probs.
       seqE (load probs 0) (\<lambda>p. seqE (load classes (argmax p)) (\<lambda>verdict. Ok (verdict, p ! argmax p))))"

fun postprocess_probs :: "real list list \<Rightarrow> fault + (string \<times> real) list" where
  "postprocess_probs ps = mapE (\<lambda>p. seqE (load classes (argmax p)) (\<lambda>verdict. Ok (verdict, p ! argmax p * 100))) ps"

definition run_inference :: "fallback_weights \<Rightarrow> session_run option \<Rightarrow> real list list \<Rightarrow> fault + (string \<times> real) list" where
  "run_inference w session X = seqE (run_model w session X) postprocess_probs"

section \<open>The queues and the worker\<close>

type_synonym signature_item = "real list \<times> real"

record inference_output =
  io_verdict :: string
  io_score :: real
  io_batch_size :: nat
  io_timestamp :: real

text \<open>
  Where a thread stands between two operations on the input queue: a producer has found it full, or has taken the oldest item
  out; the worker waits for its first item, gathers more, or has a batch to judge.
\<close>

datatype producer_pc = Free | FoundFull "real list" | MadeRoom "real list"
datatype worker_pc = Waiting | Gathering "signature_item list" | Judging "signature_item list"

text \<open>
  The engine with its threads. The last three fields are kept for the statements: what was put into the queue, how many items
  producers took out again, and what the calls of \<^verbatim>\<open>enqueue\<close> returned.
\<close>

record inference_engine =
  en_weights :: fallback_weights
  en_session :: "session_run option"
  en_max_batch :: nat
  en_timeout :: real
  en_input :: "signature_item list"
  en_unfinished :: nat
  en_output :: "inference_output list"
  en_worker :: worker_pc
  en_producers :: "nat \<Rightarrow> producer_pc"
  en_accepted :: "signature_item list"
  en_evicted :: nat
  en_returns :: "(nat \<times> bool) list"

definition engine_init :: "fallback_weights \<Rightarrow> session_run option \<Rightarrow> nat \<Rightarrow> real \<Rightarrow> inference_engine" where
  "engine_init w session max_batch_size latency_timeout_sec =
     \<lparr>en_weights = w, en_session = session, en_max_batch = max_batch_size, en_timeout = latency_timeout_sec,
      en_input = [], en_unfinished = 0, en_output = [], en_worker = Waiting, en_producers = (\<lambda>_. Free),
      en_accepted = [], en_evicted = 0, en_returns = []\<rparr>"

definition input_bound :: nat where "input_bound = 1000"

text \<open>\<^verbatim>\<open>put_nowait\<close> counts an unfinished task; \<open>None\<close> is \<^verbatim>\<open>queue.Full\<close>.\<close>

definition put_item :: "signature_item \<Rightarrow> inference_engine \<Rightarrow> inference_engine option" where
  "put_item x e = (if length (en_input e) < input_bound
     then Some (e\<lparr>en_input := en_input e @ [x], en_unfinished := Suc (en_unfinished e), en_accepted := en_accepted e @ [x]\<rparr>)
     else None)"

definition finish_call :: "nat \<Rightarrow> bool \<Rightarrow> inference_engine \<Rightarrow> inference_engine" where
  "finish_call p r e = e\<lparr>en_producers := (en_producers e)(p := Free), en_returns := en_returns e @ [(p, r)]\<rparr>"

text \<open>\<^verbatim>\<open>enqueue\<close>: offer, take the oldest out when the queue is full, offer once more.\<close>

definition enqueue_offer :: "nat \<Rightarrow> real list \<Rightarrow> real \<Rightarrow> inference_engine \<Rightarrow> inference_engine" where
  "enqueue_offer p feature_vector now e = (case en_producers e p of
       Free \<Rightarrow> (case put_item (feature_vector, now) e of
           Some e' \<Rightarrow> finish_call p True e'
         | None \<Rightarrow> e\<lparr>en_producers := (en_producers e)(p := FoundFull feature_vector)\<rparr>)
     | _ \<Rightarrow> e)"

definition enqueue_make_room :: "nat \<Rightarrow> inference_engine \<Rightarrow> inference_engine" where
  "enqueue_make_room p e = (case en_producers e p of
       FoundFull f \<Rightarrow> e\<lparr>en_input := tl (en_input e), en_evicted := en_evicted e + (if en_input e = [] then 0 else 1),
           en_producers := (en_producers e)(p := MadeRoom f)\<rparr>
     | _ \<Rightarrow> e)"

definition enqueue_retry :: "nat \<Rightarrow> real \<Rightarrow> inference_engine \<Rightarrow> inference_engine" where
  "enqueue_retry p now e = (case en_producers e p of
       MadeRoom f \<Rightarrow> (case put_item (f, now) e of Some e' \<Rightarrow> finish_call p True e' | None \<Rightarrow> finish_call p False e)
     | _ \<Rightarrow> e)"

definition outputs_of :: "signature_item list \<Rightarrow> (string \<times> real) list \<Rightarrow> inference_output list" where
  "outputs_of batch results =
     map2 (\<lambda>(_, ts) (verdict, score). \<lparr>io_verdict = verdict, io_score = score, io_batch_size = length batch, io_timestamp = ts\<rparr>) batch results"

text \<open>
  The worker: the blocking get, one turn of the draining loop with the reading of its timer, the judgement of the batch. An
  exception is printed and the batch is gone; more results than items end with an exception after the last item. Nobody else
  writes the output queue.
\<close>

definition worker_first :: "inference_engine \<Rightarrow> inference_engine" where
  "worker_first e = (case (en_worker e, en_input e) of
       (Waiting, x # q) \<Rightarrow> e\<lparr>en_input := q, en_worker := Gathering [x]\<rparr>
     | _ \<Rightarrow> e)"

definition worker_more :: "real \<Rightarrow> inference_engine \<Rightarrow> inference_engine" where
  "worker_more elapsed e = (case en_worker e of
       Gathering b \<Rightarrow>
         if length b < en_max_batch e \<and> \<not> elapsed > en_timeout e
         then (case en_input e of [] \<Rightarrow> e\<lparr>en_worker := Judging b\<rparr>
               | x # q \<Rightarrow> e\<lparr>en_input := q, en_worker := Gathering (b @ [x])\<rparr>)
         else e\<lparr>en_worker := Judging b\<rparr>
     | _ \<Rightarrow> e)"

definition batch_outputs :: "fallback_weights \<Rightarrow> session_run option \<Rightarrow> signature_item list \<Rightarrow> inference_output list" where
  "batch_outputs w session b = (case run_inference w session (map fst b) of Fail _ \<Rightarrow> [] | Ok results \<Rightarrow> outputs_of b results)"

definition worker_judge :: "inference_engine \<Rightarrow> inference_engine" where
  "worker_judge e = (case en_worker e of
       Judging b \<Rightarrow> (let out = batch_outputs (en_weights e) (en_session e) b
         in e\<lparr>en_output := en_output e @ out, en_unfinished := en_unfinished e - length out, en_worker := Waiting\<rparr>)
     | _ \<Rightarrow> e)"

datatype engine_event = Offer nat "real list" real | MakeRoom nat | Retry nat real | First | More real | Judge

fun engine_step :: "engine_event \<Rightarrow> inference_engine \<Rightarrow> inference_engine" where
  "engine_step (Offer p f now) e = enqueue_offer p f now e"
| "engine_step (MakeRoom p) e = enqueue_make_room p e"
| "engine_step (Retry p now) e = enqueue_retry p now e"
| "engine_step First e = worker_first e"
| "engine_step (More elapsed) e = worker_more elapsed e"
| "engine_step Judge e = worker_judge e"

definition engine_run :: "engine_event list \<Rightarrow> inference_engine \<Rightarrow> inference_engine" where
  "engine_run es e = fold engine_step es e"

section \<open>Verdicts and scores\<close>

definition weights_ok :: "fallback_weights \<Rightarrow> bool" where
  "weights_ok w \<longleftrightarrow> length (b_fc2 w) = 3"

lemma length_forward_row [simp]: "length (forward_row w x) = length (b_fc2 w)"
  by (simp add: forward_row_def softmax_def calibration_bias_def affine_def Let_def)

lemma argmax_value:
  assumes "xs \<noteq> []"
  shows "argmax xs < length xs" "xs ! argmax xs = Max (set xs)"
proof -
  have "Max (set xs) \<in> set xs" using assms by simp
  then have "takeWhile (\<lambda>x. x \<noteq> Max (set xs)) xs \<noteq> xs" by (metis (mono_tags, lifting) set_takeWhileD)
  then show "argmax xs < length xs" unfolding argmax_def by (metis length_takeWhile_le linorder_not_less nat_less_le takeWhile_eq_take take_all)
  then show "xs ! argmax xs = Max (set xs)" using nth_length_takeWhile [of "\<lambda>x. x \<noteq> Max (set xs)" xs] by (simp add: argmax_def)
qed

lemma softmax_facts:
  assumes "l \<noteq> []"
  shows "sum_list (softmax l) = 1" and "\<forall>p \<in> set (softmax l). 0 < p \<and> p \<le> 1"
proof -
  let ?e = "map (\<lambda>x. exp (x - Max (set l))) l"
  have pos: "0 < sum_list ?e" using assms by (cases l) (auto intro!: add_pos_nonneg sum_list_nonneg)
  have "sum_list (softmax l) = sum_list ?e / sum_list ?e"
    using sum_list_const_mult [of "1 / sum_list ?e" id ?e] by (simp add: softmax_def Let_def)
  with pos show "sum_list (softmax l) = 1" by simp
  show "\<forall>p \<in> set (softmax l). 0 < p \<and> p \<le> 1"
  proof
    fix p assume "p \<in> set (softmax l)"
    then obtain x where x: "x \<in> set ?e" "p = x / sum_list ?e" by (auto simp: softmax_def Let_def)
    have "x \<le> sum_list ?e" by (rule member_le_sum_list) (use x in auto)
    moreover have "0 < x" using x(1) by auto
    ultimately show "0 < p \<and> p \<le> 1" using pos x(2) by simp
  qed
qed

lemma max_share:
  fixes xs :: "real list"
  assumes "xs \<noteq> []" "sum_list xs = 1"
  shows "1 / length xs \<le> Max (set xs)"
proof -
  have "sum_list xs \<le> sum_list (map (\<lambda>_. Max (set xs)) xs)" by (rule sum_list_mono2) (simp_all add: map_nth)
  then have "1 \<le> length xs * Max (set xs)" by (simp add: assms(2) sum_list_triv)
  with assms(1) show ?thesis by (simp add: field_simps)
qed

lemma forward_row_softmax: "\<exists>l. forward_row w x = softmax l \<and> length l = length (b_fc2 w)"
  by (simp add: forward_row_def Let_def) (metis (no_types, lifting) affine_def calibration_bias_def length_list_update length_map map_nth)

lemma score_bounds:
  assumes "weights_ok w"
  shows "argmax (forward_row w x) < 3" "1 / 3 \<le> forward_row w x ! argmax (forward_row w x)" "forward_row w x ! argmax (forward_row w x) \<le> 1"
proof -
  obtain l where l: "forward_row w x = softmax l" "length l = 3" using forward_row_softmax assms by (metis weights_ok_def)
  then have ne: "forward_row w x \<noteq> []" "l \<noteq> []" using assms by (auto simp: weights_ok_def dest: arg_cong [of _ _ length])
  note m = argmax_value [OF ne(1)]
  show "argmax (forward_row w x) < 3" using m(1) assms by (simp add: weights_ok_def)
  show "1 / 3 \<le> forward_row w x ! argmax (forward_row w x)"
    using max_share [OF ne(1)] softmax_facts(1) [OF ne(2)] l m(2) length_forward_row [of w x] assms by (simp add: weights_ok_def)
  show "forward_row w x ! argmax (forward_row w x) \<le> 1"
    using softmax_facts(2) [OF ne(2)] l(1) m(1) by (metis nth_mem)
qed

lemma fallback_answers:
  assumes "weights_ok w" and "p = forward_row w (flatten_dict d)"
  shows "classify_fingerprint w None d = Ok (classes ! argmax p, p ! argmax p)"
proof -
  have "length (flatten_dict d) = 6" by (simp add: flatten_dict_def Let_def)
  then have "run_model w None [flatten_dict d] = Ok [p]" by (simp add: run_model_def forward_fallback_def assms(2))
  moreover have "argmax p < length classes" using score_bounds(1) [OF assms(1), of "flatten_dict d"] by (simp add: classes_def assms(2))
  ultimately show ?thesis by (simp add: classify_fingerprint_def load_def)
qed

text \<open>
  the score of a verdict is a confidence, never below one third. On any fingerprint, however incomplete, the fallback
  network answers with one of the three classes and a probability between 1/3 and 1, so that what the harness logs as a
  threat score is at least 33 also for a normal signal.
\<close>
theorem confidence_bounds:
  assumes "weights_ok w"
  shows "\<exists>verdict score. classify_fingerprint w None d = Ok (verdict, score) \<and> verdict \<in> set classes \<and> 1 / 3 \<le> score \<and> score \<le> 1"
proof -
  let ?p = "forward_row w (flatten_dict d)"
  have "argmax ?p < length classes" using score_bounds(1) [OF assms, of "flatten_dict d"] by (simp add: classes_def)
  then have "classes ! argmax ?p \<in> set classes" by (rule nth_mem)
  then show ?thesis using score_bounds [OF assms] by (simp add: fallback_answers [OF assms refl])
qed

definition zero_weights :: fallback_weights where
  "zero_weights = \<lparr>W_proj = replicate 6 (replicate 128 0), b_proj = replicate 128 0, W_conv1 = replicate 3 (replicate 16 (replicate 32 0)),
     b_conv1 = replicate 32 0, W_conv2 = replicate 3 (replicate 32 (replicate 32 0)), b_conv2 = replicate 32 0,
     W_fc1 = replicate 32 (replicate 16 0), b_fc1 = replicate 16 0, W_fc2 = replicate 16 (replicate 3 0), b_fc2 = replicate 3 0\<rparr>"

theorem confidence_bounds_witness:
  "\<exists>verdict score. classify_fingerprint zero_weights None \<lparr>fp_get = [''cfo_hz'' \<mapsto> 5], fp_rff = None\<rparr> = Ok (verdict, score) \<and> 1 / 3 \<le> score \<and> score \<le> 1"
  using confidence_bounds [of zero_weights "\<lparr>fp_get = [''cfo_hz'' \<mapsto> 5], fp_rff = None\<rparr>"] by (auto simp: weights_ok_def zero_weights_def)

lemma zero_flatness_lost:
  "fp_get d ''spectral_flatness'' = Some 0 \<Longrightarrow> fp_get d ''flatness'' = None \<Longrightarrow> flatten_dict d ! 4 = 1 / 2"
  by (simp add: flatten_dict_def or_default_def)

section \<open>Every accepted signature is judged once\<close>

definition judged :: "fallback_weights \<Rightarrow> real list \<Rightarrow> string \<times> real" where
  "judged w f = (let p = forward_row w f in (classes ! argmax p, p ! argmax p * 100))"

lemma run_inference_fallback:
  assumes "weights_ok w" "list_all (\<lambda>x. length x = 6) X"
  shows "run_inference w None X = Ok (map (judged w) X)"
proof -
  have "mapE (\<lambda>p. seqE (load classes (argmax p)) (\<lambda>verdict. Ok (verdict, p ! argmax p * 100))) (map (forward_row w) X) =
      Ok (map (\<lambda>p. (classes ! argmax p, p ! argmax p * 100)) (map (forward_row w) X))"
  proof (rule mapE_Ok)
    fix p assume "p \<in> set (map (forward_row w) X)"
    then obtain x where "p = forward_row w x" by auto
    then have "argmax p < length classes" using score_bounds(1) [OF assms(1), of x] by (simp add: classes_def)
    then show "seqE (load classes (argmax p)) (\<lambda>verdict. Ok (verdict, p ! argmax p * 100)) = Ok (classes ! argmax p, p ! argmax p * 100)"
      by (simp add: load_def)
  qed
  with assms(2) show ?thesis by (simp add: run_inference_def run_model_def forward_fallback_def judged_def Let_def)
qed

definition answers :: "fallback_weights \<Rightarrow> signature_item list \<Rightarrow> (string \<times> real \<times> real) list" where
  "answers w P = map (\<lambda>(f, ts). (fst (judged w f), snd (judged w f), ts)) P"

definition answer_of :: "inference_output \<Rightarrow> string \<times> real \<times> real" where
  "answer_of out = (io_verdict out, io_score out, io_timestamp out)"

text \<open>What the worker has in hand\<close>

definition in_hand :: "inference_engine \<Rightarrow> signature_item list" where
  "in_hand e = (case en_worker e of Waiting \<Rightarrow> [] | Gathering b \<Rightarrow> b | Judging b \<Rightarrow> b)"

text \<open>\<open>bs\<close> are the batches judged so far.\<close>

definition queue_accounted :: "signature_item list list \<Rightarrow> inference_engine \<Rightarrow> bool" where
  "queue_accounted bs e \<longleftrightarrow>
     subseq (concat bs @ in_hand e @ en_input e) (en_accepted e) \<and>
     length (en_accepted e) = length (concat bs @ in_hand e @ en_input e) + en_evicted e \<and>
     en_output e = concat (map (batch_outputs (en_weights e) (en_session e)) bs) \<and>
     list_all (\<lambda>b. length b \<le> max 1 (en_max_batch e)) bs \<and> length (in_hand e) \<le> max 1 (en_max_batch e) \<and>
     en_unfinished e + length (en_output e) = length (en_accepted e) \<and>
     length (filter snd (en_returns e)) = length (en_accepted e)"

lemma batch_outputs_length: "length (batch_outputs w session b) \<le> length b"
  by (simp add: batch_outputs_def outputs_of_def split: sum.split)

lemma outputs_length: "length (concat (map (batch_outputs w session) bs)) \<le> length (concat bs)"
  using batch_outputs_length by (induction bs) (auto intro: add_mono)

lemma put_accounted:
  assumes "queue_accounted bs e" "put_item x e = Some e'"
  shows "queue_accounted bs (finish_call p True e')"
proof -
  have e': "e' = e\<lparr>en_input := en_input e @ [x], en_unfinished := Suc (en_unfinished e), en_accepted := en_accepted e @ [x]\<rparr>"
    using assms(2) by (simp add: put_item_def split: if_splits)
  have "subseq ((concat bs @ in_hand e @ en_input e) @ [x]) (en_accepted e @ [x])"
    by (rule list_emb_append_mono) (use assms(1) in \<open>auto simp: queue_accounted_def\<close>)
  with assms(1) show ?thesis by (auto simp: e' queue_accounted_def finish_call_def in_hand_def)
qed

lemma accounted_producers:
  "queue_accounted bs e \<Longrightarrow> queue_accounted bs (e\<lparr>en_producers := f\<rparr>)"
  "queue_accounted bs e \<Longrightarrow> queue_accounted bs (finish_call p False e)"
  by (auto simp: queue_accounted_def finish_call_def in_hand_def)

lemma dropped_head:
  assumes "subseq (xs @ q) ys" shows "subseq (xs @ tl q) ys"
proof -
  have "subseq (xs @ tl q) (xs @ q)" by (rule list_emb_append_mono) (cases q; auto)+
  then show ?thesis using assms by (rule subseq_order.trans)
qed

lemma engine_step_accounted:
  assumes "queue_accounted bs e"
  shows "\<exists>bs'. queue_accounted bs' (engine_step ev e)"
proof (cases ev)
  case (Offer p f now)
  have "queue_accounted bs (enqueue_offer p f now e)"
    using assms accounted_producers(1) put_accounted [OF assms]
    by (cases "put_item (f, now) e") (simp_all add: enqueue_offer_def split: producer_pc.split)
  then show ?thesis using Offer by auto
next
  case (MakeRoom p)
  have "queue_accounted bs (enqueue_make_room p e)"
  proof (cases "\<exists>f. en_producers e p = FoundFull f")
    case True
    then obtain f where f: "en_producers e p = FoundFull f" ..
    have "subseq ((concat bs @ in_hand e) @ tl (en_input e)) (en_accepted e)"
      by (rule dropped_head) (use assms in \<open>simp add: queue_accounted_def\<close>)
    with assms f show ?thesis by (cases "en_input e") (auto simp: enqueue_make_room_def queue_accounted_def in_hand_def)
  next
    case False
    with assms show ?thesis by (auto simp: enqueue_make_room_def split: producer_pc.split)
  qed
  then show ?thesis using MakeRoom by auto
next
  case (Retry p now)
  have "queue_accounted bs (enqueue_retry p now e)"
  proof (cases "en_producers e p")
    case (MadeRoom f)
    then show ?thesis using assms accounted_producers(2) put_accounted [OF assms]
      by (cases "put_item (f, now) e") (simp_all add: enqueue_retry_def)
  qed (use assms in \<open>simp_all add: enqueue_retry_def\<close>)
  then show ?thesis using Retry by auto
next
  case First
  have "queue_accounted bs (worker_first e)"
    using assms by (auto simp: worker_first_def queue_accounted_def in_hand_def split: worker_pc.split list.split)
  then show ?thesis using First by auto
next
  case (More elapsed)
  have "queue_accounted bs (worker_more elapsed e)"
    using assms by (auto simp: worker_more_def queue_accounted_def in_hand_def split: worker_pc.split list.split)
  then show ?thesis using More by auto
next
  case Judge
  show ?thesis
  proof (cases "en_worker e")
    case (Judging b)
    let ?out = "batch_outputs (en_weights e) (en_session e) b"
    have "length (en_output e) + length ?out \<le> length (concat bs) + length b"
      using assms outputs_length [of "en_weights e" "en_session e" bs] batch_outputs_length [of "en_weights e" "en_session e" b]
      by (simp add: queue_accounted_def)
    also have "\<dots> \<le> length (en_accepted e)" using assms Judging by (simp add: queue_accounted_def in_hand_def)
    finally have "queue_accounted (bs @ [b]) (worker_judge e)"
      using assms Judging by (auto simp: worker_judge_def queue_accounted_def in_hand_def Let_def)
    then show ?thesis using Judge by auto
  qed (use assms Judge in \<open>auto simp: worker_judge_def\<close>)
qed

lemma engine_settings:
  "en_weights (engine_run es e) = en_weights e \<and> en_max_batch (engine_run es e) = en_max_batch e \<and> en_session (engine_run es e) = en_session e"
proof (induction es arbitrary: e)
  case (Cons ev es)
  have "en_weights (engine_step ev e) = en_weights e \<and> en_max_batch (engine_step ev e) = en_max_batch e \<and>
      en_session (engine_step ev e) = en_session e"
    by (cases ev) (auto simp: enqueue_offer_def enqueue_make_room_def enqueue_retry_def put_item_def finish_call_def worker_first_def
      worker_more_def worker_judge_def Let_def split: producer_pc.split worker_pc.split list.split)
  with Cons show ?case by (simp add: engine_run_def)
qed (simp add: engine_run_def)

lemma run_accounted: "\<exists>bs. queue_accounted bs (engine_run es (engine_init w session n timeout))"
proof (induction es rule: rev_induct)
  case Nil
  show ?case by (intro exI [of _ "[]"]) (simp add: queue_accounted_def engine_run_def engine_init_def in_hand_def)
next
  case (snoc ev es)
  then show ?case using engine_step_accounted by (auto simp: engine_run_def)
qed

lemma answers_outputs:
  "map answer_of (map2 (\<lambda>(_, ts) (verdict, score). \<lparr>io_verdict = verdict, io_score = score, io_batch_size = n, io_timestamp = ts\<rparr>) b
        (map (judged w) (map fst b))) = answers w b"
  by (induction b) (auto simp: answers_def answer_of_def split: prod.splits)

lemma fallback_batch:
  assumes "weights_ok w" "list_all (\<lambda>x. length (fst x) = 6) b"
  shows "map answer_of (batch_outputs w None b) = answers w b"
proof -
  have "list_all (\<lambda>x. length x = 6) (map fst b)" using assms(2) by (simp add: list_all_iff)
  from run_inference_fallback [OF assms(1) this] show ?thesis
    by (simp only: batch_outputs_def sum.case outputs_of_def answers_outputs)
qed

lemma fallback_batches:
  "weights_ok w \<Longrightarrow> list_all (\<lambda>x. length (fst x) = 6) (concat bs) \<Longrightarrow>
    map answer_of (concat (map (batch_outputs w None) bs)) = answers w (concat bs)"
  by (induction bs) (simp_all add: fallback_batch answers_def)

text \<open>
  C36: micro-batching changes no verdict. Let any number of producers and the worker interleave between their queue operations
  as they like, and let the timer cut the batches where it will. The batches \<open>bs\<close> judged so far, what the worker has in hand
  and what waits are, in this order, a subsequence of what was put into the queue, from which only the items are missing
  that producers pushed out; the output is, batch by batch, what the session or the fallback network makes of it, nothing
  for a batch that raises; no batch exceeds the bound; a call returned true exactly when its vector was put; and the count
  of unfinished tasks is off by every item pushed out and every batch that raised. With the fallback network and vectors of
  six features every item of a judged batch has its own answer, with its own time.
\<close>
theorem batching_keeps_order:
  assumes "e = engine_run es (engine_init w session n timeout)"
  shows "\<exists>bs. subseq (concat bs @ in_hand e @ en_input e) (en_accepted e) \<and>
      length (en_accepted e) = length (concat bs @ in_hand e @ en_input e) + en_evicted e \<and>
      en_output e = concat (map (batch_outputs w session) bs) \<and> list_all (\<lambda>b. length b \<le> max 1 n) bs \<and>
      en_unfinished e + length (en_output e) = length (en_accepted e) \<and>
      length (filter snd (en_returns e)) = length (en_accepted e) \<and>
      (session = None \<and> weights_ok w \<and> list_all (\<lambda>x. length (fst x) = 6) (en_accepted e) \<longrightarrow>
        map answer_of (en_output e) = answers w (concat bs))"
proof -
  obtain bs where bs: "queue_accounted bs e" using run_accounted assms by blast
  have e: "en_weights e = w" "en_max_batch e = n" "en_session e = session"
    using engine_settings by (simp_all add: assms engine_init_def)
  have "subseq (concat bs @ in_hand e @ en_input e) (en_accepted e)" using bs by (simp add: queue_accounted_def)
  then have "set (concat bs) \<subseteq> set (en_accepted e)" by (auto elim!: list_emb_set)
  then have "list_all (\<lambda>x. length (fst x) = 6) (concat bs)" if "list_all (\<lambda>x. length (fst x) = 6) (en_accepted e)"
    using that unfolding list_all_iff by blast
  with bs fallback_batches [of w bs] show ?thesis
    by (intro exI [of _ bs]) (auto simp: queue_accounted_def e)
qed

definition sample_events :: "engine_event list" where
  "sample_events = [Offer 0 [1, 2, 3, 4, 5, 6] 7, First, Offer 1 [0, 0, 0, 0, 0, 0] 8, More 0, More 0, Judge]"

theorem batching_keeps_order_witness:
  "map answer_of (en_output (engine_run sample_events (engine_init zero_weights None 4 1))) =
     answers zero_weights [([1, 2, 3, 4, 5, 6], 7), ([0, 0, 0, 0, 0, 0], 8)]"
proof -
  let ?e = "engine_run sample_events (engine_init zero_weights None 4 1)"
  have acc: "en_accepted ?e = [([1, 2, 3, 4, 5, 6], 7), ([0, 0, 0, 0, 0, 0], 8)]" "in_hand ?e = []" "en_input ?e = []" "en_evicted ?e = 0"
    by (simp_all add: sample_events_def engine_run_def engine_init_def enqueue_offer_def put_item_def finish_call_def worker_first_def
      worker_more_def worker_judge_def input_bound_def in_hand_def Let_def)
  have ok: "weights_ok zero_weights" by (simp add: weights_ok_def zero_weights_def)
  obtain bs where bs: "subseq (concat bs) (en_accepted ?e)" "length (en_accepted ?e) = length (concat bs)"
    "map answer_of (en_output ?e) = answers zero_weights (concat bs)"
    using batching_keeps_order [of ?e sample_events zero_weights None 4 1] acc ok by auto
  then have "concat bs = en_accepted ?e" by (metis subseq_same_length)
  with bs(3) acc(1) show ?thesis by simp
qed

end
