(* ===== verification/Alert_Queue.thy ===== *)
theory Alert_Queue
  imports Prelude
begin

text \<open>
  The bounded client queue with critical-alert retention. The code has it twice, as
  \<^verbatim>\<open>BinaryPriorityQueue\<close> (\<^verbatim>\<open>hardened_websocket_runtime.py\<close>, raw frames) and as
  \<^verbatim>\<open>PriorityClientQueue\<close> (\<^verbatim>\<open>telemetry_dispatcher.py\<close>, JSON payloads); the bodies differ in how
  a critical item is recognised. The locale states the overflow policy as a contract, its
  lemmas say what a whole history of pushes leaves in the queue, and both classes interpret
  it in their own theories.
\<close>

record 'a alert_queue =
  max_capacity :: nat
  queue :: "'a list"
  drop_count :: nat
  critical_drop_count :: nat

definition new_queue :: "nat \<Rightarrow> 'a alert_queue" where
  "new_queue cap = \<lparr>max_capacity = cap, queue = [], drop_count = 0, critical_drop_count = 0\<rparr>"

text \<open>\<^verbatim>\<open>for idx, frame in enumerate(queue): if not critical: break\<close>; \<open>None\<close> is the code's \<open>-1\<close>.\<close>

fun non_crit_index :: "('a \<Rightarrow> bool) \<Rightarrow> 'a list \<Rightarrow> nat option" where
  "non_crit_index crit [] = None"
| "non_crit_index crit (x # xs) =
     (if \<not> crit x then Some 0 else map_option Suc (non_crit_index crit xs))"

definition alert_push :: "('a \<Rightarrow> bool) \<Rightarrow> 'a \<Rightarrow> 'a alert_queue \<Rightarrow> fault + 'a alert_queue" where
  "alert_push crit x q =
     (if length (queue q) < max_capacity q then Ok (q\<lparr>queue := queue q @ [x]\<rparr>)
      else if crit x then
        (case non_crit_index crit (queue q) of
           Some i \<Rightarrow> Ok (q\<lparr>queue := take i (queue q) @ drop (Suc i) (queue q) @ [x],
                          drop_count := drop_count q + 1\<rparr>)
         | None \<Rightarrow>
             (case queue q of
                [] \<Rightarrow> Fail IndexError
              | _ # rest \<Rightarrow> Ok (q\<lparr>queue := rest @ [x], critical_drop_count := critical_drop_count q + 1\<rparr>)))
      else Ok (q\<lparr>drop_count := drop_count q + 1\<rparr>))"

definition alert_pop :: "'a alert_queue \<Rightarrow> 'a option \<times> 'a alert_queue" where
  "alert_pop q = (case queue q of [] \<Rightarrow> (None, q) | x # xs \<Rightarrow> (Some x, q\<lparr>queue := xs\<rparr>))"

section \<open>The first non-critical entry\<close>

lemma non_crit_index_None: "non_crit_index crit xs = None \<longleftrightarrow> (\<forall>x \<in> set xs. crit x)"
  by (induction xs) auto

lemma non_crit_index_Some:
  "non_crit_index crit xs = Some i \<Longrightarrow>
   \<exists>us x vs. xs = us @ x # vs \<and> length us = i \<and> (\<forall>u \<in> set us. crit u) \<and> \<not> crit x"
proof (induction xs arbitrary: i)
  case (Cons y ys)
  show ?case
  proof (cases "crit y")
    case True
    with Cons.prems obtain j where j: "non_crit_index crit ys = Some j" "i = Suc j" by auto
    from Cons.IH [OF j(1)] obtain us x vs where
      "ys = us @ x # vs" "length us = j" "\<forall>u \<in> set us. crit u" "\<not> crit x" by blast
    with True j have "y # ys = (y # us) @ x # vs \<and> length (y # us) = i \<and>
        (\<forall>u \<in> set (y # us). crit u) \<and> \<not> crit x" by simp
    then show ?thesis by blast
  qed (use Cons.prems in fastforce)
qed simp

section \<open>Fan-out to the registered clients\<close>

text \<open>
  The loop both transports run under their lock: push to every client in registration order,
  add the client's drop counters to the totals and clear them. An exception leaves the loop
  with what was done so far.
\<close>

type_synonym 'a clients = "(string \<times> 'a alert_queue) list"

fun fan_out :: "('a \<Rightarrow> 'a alert_queue \<Rightarrow> fault + 'a alert_queue) \<Rightarrow> 'a \<Rightarrow> 'a clients \<Rightarrow> nat \<Rightarrow> nat \<Rightarrow>
    fault option \<times> 'a clients \<times> nat \<times> nat" where
  "fan_out push x [] dropped critical = (None, [], dropped, critical)"
| "fan_out push x ((cid, q) # cs) dropped critical =
     (case push x q of
        Inl e \<Rightarrow> (Some e, (cid, q) # cs, dropped, critical)
      | Inr q' \<Rightarrow>
          let (err, cs', d, c) = fan_out push x cs (dropped + drop_count q')
                                   (critical + critical_drop_count q')
          in (err, (cid, q'\<lparr>drop_count := 0, critical_drop_count := 0\<rparr>) # cs', d, c))"

section \<open>The overflow contract\<close>

fun push_all :: "('a \<Rightarrow> 'a alert_queue \<Rightarrow> fault + 'a alert_queue) \<Rightarrow> 'a list \<Rightarrow> 'a alert_queue \<Rightarrow>
    fault + 'a alert_queue" where
  "push_all push [] q = Ok q"
| "push_all push (x # xs) q = seqE (push x q) (push_all push xs)"

locale alert_retention =
  fixes push :: "'a \<Rightarrow> 'a alert_queue \<Rightarrow> fault + 'a alert_queue"
    and crit :: "'a \<Rightarrow> bool" and accepts :: "'a \<Rightarrow> bool"
  assumes room: "accepts x \<Longrightarrow> length (queue q) < max_capacity q \<Longrightarrow>
      push x q = Ok (q\<lparr>queue := queue q @ [x]\<rparr>)"
    and routine: "accepts x \<Longrightarrow> max_capacity q \<le> length (queue q) \<Longrightarrow> \<not> crit x \<Longrightarrow>
      push x q = Ok (q\<lparr>drop_count := drop_count q + 1\<rparr>)"
    and displace: "accepts x \<Longrightarrow> max_capacity q \<le> length (queue q) \<Longrightarrow> crit x \<Longrightarrow>
      queue q = us @ r # vs \<Longrightarrow> \<forall>u \<in> set us. crit u \<Longrightarrow> \<not> crit r \<Longrightarrow>
      push x q = Ok (q\<lparr>queue := us @ vs @ [x], drop_count := drop_count q + 1\<rparr>)"
    and yield: "accepts x \<Longrightarrow> max_capacity q \<le> length (queue q) \<Longrightarrow> crit x \<Longrightarrow>
      queue q = y # ys \<Longrightarrow> \<forall>u \<in> set (queue q). crit u \<Longrightarrow>
      push x q = Ok (q\<lparr>queue := ys @ [x], critical_drop_count := critical_drop_count q + 1\<rparr>)"
begin

text \<open>
  What a history \<open>h\<close> of accepted pushes, with no pop in between, leaves in the queue: the
  critical entries are the most recent critical ones, and nothing is dropped before the
  queue is full. Each push adds exactly one entry to the queue or one drop to a counter.
\<close>

definition retained :: "nat \<Rightarrow> 'a list \<Rightarrow> 'a alert_queue \<Rightarrow> bool" where
  "retained cap h q \<longleftrightarrow> max_capacity q = cap \<and> length (queue q) \<le> cap \<and> length (queue q) \<le> length h \<and>
     filter crit (queue q) = last_n cap (filter crit h) \<and>
     (length (queue q) < cap \<longrightarrow> queue q = h)"

definition accounted :: "nat \<Rightarrow> 'a list \<Rightarrow> 'a \<Rightarrow> 'a alert_queue \<Rightarrow> 'a alert_queue \<Rightarrow> bool" where
  "accounted cap h x q q' \<longleftrightarrow>
     length (queue q') + drop_count q' + critical_drop_count q' =
       length (queue q) + drop_count q + critical_drop_count q + 1 \<and>
     critical_drop_count q' =
       critical_drop_count q + (if crit x \<and> cap \<le> length (filter crit h) then 1 else 0)"

lemma retained_new: "retained cap [] (new_queue cap)"
  by (simp add: retained_def new_queue_def last_n_def)

lemma retained_counters [simp]:
  "retained cap h (q\<lparr>drop_count := d, critical_drop_count := c\<rparr>) = retained cap h q"
  by (simp add: retained_def)

lemma retained_short: "retained cap h q \<Longrightarrow> length h < cap \<Longrightarrow> queue q = h"
  by (simp add: retained_def)

lemma retained_push:
  assumes h: "retained cap h q" and cap: "0 < cap" and x: "accepts x"
  shows "\<exists>q'. push x q = Ok q' \<and> retained cap (h @ [x]) q' \<and> accounted cap h x q q'"
proof (cases "length (queue q) < cap")
  case True
  with h have "length (filter crit h) < cap"
    using le_less_trans [OF length_filter_le [of crit h]] by (auto simp: retained_def)
  with True h room [OF x, of q] show ?thesis
    by (auto simp: retained_def accounted_def last_n_short)
next
  case False
  with h have full: "length (queue q) = cap" "max_capacity q \<le> length (queue q)"
    by (auto simp: retained_def)
  show ?thesis
  proof (cases "crit x")
    case False
    with routine [OF x full(2) False] h show ?thesis by (auto simp: retained_def accounted_def full)
  next
    case True
    show ?thesis
    proof (cases "\<forall>u \<in> set (queue q). crit u")
      case all: True
      from full cap obtain y ys where q: "queue q = y # ys" by (cases "queue q") auto
      from all h have C: "last_n cap (filter crit h) = y # ys" by (auto simp: retained_def q)
      then have "length (last_n cap (filter crit h)) = cap" using full(1) q by simp
      then have le: "cap \<le> length (filter crit h)" by simp
      have "last_n cap (filter crit (h @ [x])) = ys @ [x]"
        using le cap True by (simp add: last_n_snoc C)
      moreover have "filter crit ys = ys" using all by (simp add: q)
      ultimately have "retained cap (h @ [x])
          (q\<lparr>queue := ys @ [x], critical_drop_count := critical_drop_count q + 1\<rparr>)"
        using h q full(1) True by (simp add: retained_def)
      with yield [OF x full(2) True q all] le q True show ?thesis by (simp add: accounted_def)
    next
      case False
      then obtain us r vs where q: "queue q = us @ r # vs" "\<forall>u \<in> set us. crit u" "\<not> crit r"
        using split_list_first_prop [of "queue q" "\<lambda>u. \<not> crit u"] by auto
      have "length (filter crit (queue q)) < cap"
        using length_filter_less [of r "queue q" crit] q full by auto
      with h have small: "length (filter crit h) < cap" by (auto simp: retained_def)
      then have "last_n cap (filter crit (h @ [x])) = filter crit h @ [x]"
        using True by (simp add: last_n_short)
      with displace [OF x full(2) True q] h q small full(1) True show ?thesis
        by (auto simp: retained_def accounted_def last_n_short)
    qed
  qed
qed

text \<open>The counters of a whole history: every push is in the queue or in one of the two counts.\<close>

lemma retained_push_all:
  assumes "retained cap h q" and "0 < cap" and "\<forall>x \<in> set xs. accepts x"
    and "length (queue q) + drop_count q + critical_drop_count q = length h"
    and "critical_drop_count q = length (filter crit h) - cap"
  shows "\<exists>q'. push_all push xs q = Ok q' \<and> retained cap (h @ xs) q' \<and>
    length (queue q') + drop_count q' + critical_drop_count q' = length (h @ xs) \<and>
    critical_drop_count q' = length (filter crit (h @ xs)) - cap"
  using assms
proof (induction xs arbitrary: h q)
  case (Cons x xs)
  then obtain q1 where "push x q = Ok q1" "retained cap (h @ [x]) q1" "accounted cap h x q q1"
    using retained_push [of cap h q x] by auto
  moreover from this Cons.prems have
    "length (queue q1) + drop_count q1 + critical_drop_count q1 = length (h @ [x])"
    "critical_drop_count q1 = length (filter crit (h @ [x])) - cap"
    by (auto simp: accounted_def)
  ultimately show ?case using Cons.IH [of "h @ [x]" q1] Cons.prems by simp
qed simp

text \<open>One broadcast: every client's history grows by the item and the totals take up its drops.\<close>

lemma fan_out_retained:
  assumes "\<forall>(cid, q) \<in> set cs. retained cap h q \<and> drop_count q = 0 \<and> critical_drop_count q = 0"
    and "0 < cap" and "accepts x"
  shows "\<exists>cs' d' c'. fan_out push x cs d c = (None, cs', d', c') \<and> map fst cs' = map fst cs \<and>
    (\<forall>(cid, q) \<in> set cs'. retained cap (h @ [x]) q \<and> drop_count q = 0 \<and> critical_drop_count q = 0) \<and>
    (\<Sum>(cid, q) \<leftarrow> cs'. length (queue q)) + d' + c' =
      (\<Sum>(cid, q) \<leftarrow> cs. length (queue q)) + d + c + length cs"
  using assms
proof (induction cs arbitrary: d c)
  case (Cons cq cs)
  obtain cid q where cq: "cq = (cid, q)" by (cases cq)
  with Cons.prems obtain q' where q': "push x q = Ok q'" "retained cap (h @ [x]) q'" "accounted cap h x q q'"
    using retained_push [of cap h q x] by auto
  from Cons.IH [of "d + drop_count q'" "c + critical_drop_count q'"] Cons.prems
  obtain cs' d' c' where
    "fan_out push x cs (d + drop_count q') (c + critical_drop_count q') = (None, cs', d', c')"
    "map fst cs' = map fst cs"
    "\<forall>(cid, q) \<in> set cs'. retained cap (h @ [x]) q \<and> drop_count q = 0 \<and> critical_drop_count q = 0"
    "(\<Sum>(cid, q) \<leftarrow> cs'. length (queue q)) + d' + c' =
      (\<Sum>(cid, q) \<leftarrow> cs. length (queue q)) + (d + drop_count q') + (c + critical_drop_count q') + length cs"
    by auto
  with q' cq Cons.prems show ?case by (simp add: accounted_def)
qed simp

end

section \<open>The shared body meets the contract\<close>

lemma alert_push_room: "length (queue q) < max_capacity q \<Longrightarrow>
    alert_push crit x q = Ok (q\<lparr>queue := queue q @ [x]\<rparr>)"
  by (simp add: alert_push_def)

lemma alert_push_routine: "max_capacity q \<le> length (queue q) \<Longrightarrow> \<not> crit x \<Longrightarrow>
    alert_push crit x q = Ok (q\<lparr>drop_count := drop_count q + 1\<rparr>)"
  by (simp add: alert_push_def)

lemma non_crit_index_first:
  "\<forall>u \<in> set us. crit u \<Longrightarrow> \<not> crit r \<Longrightarrow> non_crit_index crit (us @ r # vs) = Some (length us)"
  by (induction us) auto

lemma alert_push_displace:
  "max_capacity q \<le> length (queue q) \<Longrightarrow> crit x \<Longrightarrow> queue q = us @ r # vs \<Longrightarrow>
   \<forall>u \<in> set us. crit u \<Longrightarrow> \<not> crit r \<Longrightarrow>
   alert_push crit x q = Ok (q\<lparr>queue := us @ vs @ [x], drop_count := drop_count q + 1\<rparr>)"
  by (simp add: alert_push_def non_crit_index_first)

lemma alert_push_yield:
  "max_capacity q \<le> length (queue q) \<Longrightarrow> crit x \<Longrightarrow> queue q = y # ys \<Longrightarrow>
   \<forall>u \<in> set (queue q). crit u \<Longrightarrow>
   alert_push crit x q = Ok (q\<lparr>queue := ys @ [x], critical_drop_count := critical_drop_count q + 1\<rparr>)"
  by (simp add: alert_push_def non_crit_index_None [THEN iffD2])

section \<open>The client dictionary\<close>

text \<open>\<^verbatim>\<open>clients[client_id] = q\<close>: a dict keeps the position of a key it already has.\<close>

fun dict_set :: "'k \<Rightarrow> 'v \<Rightarrow> ('k \<times> 'v) list \<Rightarrow> ('k \<times> 'v) list" where
  "dict_set k v [] = [(k, v)]"
| "dict_set k v ((k', v') # kvs) = (if k' = k then (k, v) # kvs else (k', v') # dict_set k v kvs)"

definition dict_del :: "'k \<Rightarrow> ('k \<times> 'v) list \<Rightarrow> ('k \<times> 'v) list" where
  "dict_del k kvs = filter (\<lambda>kv. fst kv \<noteq> k) kvs"

lemma map_of_dict_set [simp]: "map_of (dict_set k v kvs) = (map_of kvs)(k \<mapsto> v)"
  by (induction k v kvs rule: dict_set.induct) (auto simp: fun_eq_iff)

lemma dom_dict_set: "fst ` set (dict_set k v kvs) = insert k (fst ` set kvs)"
  by (induction k v kvs rule: dict_set.induct) auto

lemma distinct_dict_set: "distinct (map fst kvs) \<Longrightarrow> distinct (map fst (dict_set k v kvs))"
proof (induction k v kvs rule: dict_set.induct)
  case (2 k v k' v' kvs)
  then show ?case using dom_dict_set [of k v kvs] by auto
qed simp

lemma set_dict_set: "set (dict_set k v kvs) \<subseteq> insert (k, v) (set kvs)"
  by (induction k v kvs rule: dict_set.induct) auto

end
