(* ===== verification/Websocket_Runtime.thy ===== *)
theory Websocket_Runtime
  imports Alert_Queue
begin

text \<open>
  \<^verbatim>\<open>hardened_websocket_runtime.py\<close>: the binary transport. A frame's threat state is read
  from its bytes 1 to 4, so pushing a frame shorter than five bytes raises \<open>IndexError\<close>
  before the queue changes; the frames already queued have passed that check.
\<close>

unbundle bit_operations_syntax

section \<open>The frame's threat state\<close>

definition threat_bytes :: "byte \<Rightarrow> byte \<Rightarrow> byte \<Rightarrow> byte \<Rightarrow> int" where
  "threat_bytes b1 b2 b3 b4 =
     (let threat_state = uint b1 + push_bit 8 (uint b2) + push_bit 16 (uint b3) + push_bit 24 (uint b4)
      in if threat_state > 0x7fffffff then threat_state - 0x100000000 else threat_state)"

definition frame_threat :: "byte list \<Rightarrow> fault + int" where
  "frame_threat f =
     (if length f < 5 then Fail IndexError else Ok (threat_bytes (f ! 1) (f ! 2) (f ! 3) (f ! 4)))"

definition frame_critical :: "byte list \<Rightarrow> bool" where
  "frame_critical f \<longleftrightarrow> frame_threat f = Ok 3"

section \<open>The queue and the runtime\<close>

definition binary_push :: "byte list \<Rightarrow> byte list alert_queue \<Rightarrow> fault + byte list alert_queue" where
  "binary_push binary_frame q = seqE (frame_threat binary_frame) (\<lambda>_. alert_push frame_critical binary_frame q)"

definition binary_pop :: "byte list alert_queue \<Rightarrow> byte list option \<times> byte list alert_queue" where
  "binary_pop q = alert_pop q"

record ws_runtime =
  queue_capacity :: nat
  clients :: "byte list clients"
  total_broadcasts :: nat
  total_dropped_frames :: nat
  total_critical_drops :: nat

definition ws_init :: "nat \<Rightarrow> ws_runtime" where
  "ws_init cap = \<lparr>queue_capacity = cap, clients = [], total_broadcasts = 0,
     total_dropped_frames = 0, total_critical_drops = 0\<rparr>"

definition ws_register :: "string \<Rightarrow> ws_runtime \<Rightarrow> ws_runtime" where
  "ws_register client_id rt =
     rt\<lparr>clients := dict_set client_id (new_queue (queue_capacity rt)) (clients rt)\<rparr>"

definition ws_unregister :: "string \<Rightarrow> ws_runtime \<Rightarrow> ws_runtime" where
  "ws_unregister client_id rt = rt\<lparr>clients := dict_del client_id (clients rt)\<rparr>"

definition ws_broadcast :: "byte list \<Rightarrow> ws_runtime \<Rightarrow> fault option \<times> ws_runtime" where
  "ws_broadcast binary_frame rt =
     (let (err, cs, d, c) = fan_out binary_push binary_frame (clients rt)
                              (total_dropped_frames rt) (total_critical_drops rt)
      in (err, rt\<lparr>total_broadcasts := total_broadcasts rt + 1, clients := cs,
                  total_dropped_frames := d, total_critical_drops := c\<rparr>))"

section \<open>The queue keeps the retention contract\<close>

interpretation binary_queue: alert_retention binary_push frame_critical "\<lambda>f. 5 \<le> length f"
  by unfold_locales
    (simp_all add: binary_push_def frame_threat_def alert_push_room alert_push_routine
      alert_push_displace alert_push_yield)

lemma binary_push_short: "length f < 5 \<Longrightarrow> binary_push f q = Fail IndexError"
  by (simp add: binary_push_def frame_threat_def)

section \<open>Histories of broadcasts\<close>

fun ws_broadcast_all :: "byte list list \<Rightarrow> ws_runtime \<Rightarrow> fault option \<times> ws_runtime" where
  "ws_broadcast_all [] rt = (None, rt)"
| "ws_broadcast_all (f # fs) rt =
     (case ws_broadcast f rt of
        (Some e, rt') \<Rightarrow> (Some e, rt')
      | (None, rt') \<Rightarrow> ws_broadcast_all fs rt')"

definition ws_register_all :: "string list \<Rightarrow> ws_runtime \<Rightarrow> ws_runtime" where
  "ws_register_all ids rt = fold ws_register ids rt"

definition queued_entries :: "ws_runtime \<Rightarrow> nat" where
  "queued_entries rt = (\<Sum>(cid, q) \<leftarrow> clients rt. length (queue q))"

text \<open>The state of the transport after a history \<open>h\<close> sent to every registered client.\<close>

definition ws_history :: "nat \<Rightarrow> byte list list \<Rightarrow> ws_runtime \<Rightarrow> bool" where
  "ws_history cap h rt \<longleftrightarrow>
     (\<forall>(cid, q) \<in> set (clients rt). binary_queue.retained cap h q \<and> drop_count q = 0 \<and>
        critical_drop_count q = 0) \<and>
     queued_entries rt + total_dropped_frames rt + total_critical_drops rt =
       length (clients rt) * length h \<and>
     total_broadcasts rt = length h"

lemma ws_broadcast_history:
  assumes "ws_history cap h rt" and "0 < cap" and "5 \<le> length f"
  shows "\<exists>rt'. ws_broadcast f rt = (None, rt') \<and> ws_history cap (h @ [f]) rt' \<and>
    map fst (clients rt') = map fst (clients rt)"
proof -
  from assms binary_queue.fan_out_retained [of "clients rt" cap h f "total_dropped_frames rt" "total_critical_drops rt"]
  obtain cs' d' c' where fo:
    "fan_out binary_push f (clients rt) (total_dropped_frames rt) (total_critical_drops rt) = (None, cs', d', c')"
    "map fst cs' = map fst (clients rt)"
    "\<forall>(cid, q) \<in> set cs'. binary_queue.retained cap (h @ [f]) q \<and> drop_count q = 0 \<and> critical_drop_count q = 0"
    "(\<Sum>(cid, q) \<leftarrow> cs'. length (queue q)) + d' + c' =
      queued_entries rt + total_dropped_frames rt + total_critical_drops rt + length (clients rt)"
    by (auto simp: ws_history_def queued_entries_def)
  moreover have "length cs' = length (clients rt)" using arg_cong [OF fo(2), of length] by simp
  ultimately show ?thesis
    using assms(1) by (simp add: ws_broadcast_def ws_history_def queued_entries_def)
qed

lemma ws_broadcast_all_history:
  assumes "ws_history cap h rt" and "0 < cap" and "\<forall>f \<in> set fs. 5 \<le> length f"
  shows "\<exists>rt'. ws_broadcast_all fs rt = (None, rt') \<and> ws_history cap (h @ fs) rt' \<and>
    map fst (clients rt') = map fst (clients rt)"
  using assms
proof (induction fs arbitrary: h rt)
  case (Cons f fs)
  then obtain rt1 where "ws_broadcast f rt = (None, rt1)" "ws_history cap (h @ [f]) rt1"
    "map fst (clients rt1) = map fst (clients rt)"
    using ws_broadcast_history [of cap h rt f] by auto
  with Cons.IH [of "h @ [f]" rt1] Cons.prems show ?case by simp
qed simp

lemma ws_register_history:
  "ws_history (queue_capacity rt) [] rt \<Longrightarrow> ws_history (queue_capacity rt) [] (ws_register cid rt)"
proof -
  assume h: "ws_history (queue_capacity rt) [] rt"
  let ?P = "\<lambda>(i :: string, q). binary_queue.retained (queue_capacity rt) [] q \<and> drop_count q = 0 \<and>
      critical_drop_count q = 0 \<and> queue q = []"
  have "?P (cid, new_queue (queue_capacity rt))"
    using binary_queue.retained_new [of "queue_capacity rt"] by (simp add: new_queue_def)
  moreover have "\<forall>c \<in> set (clients rt). ?P c"
    using h by (auto simp: ws_history_def queued_entries_def)
  ultimately have "\<forall>c \<in> set (dict_set cid (new_queue (queue_capacity rt)) (clients rt)). ?P c"
    using set_dict_set [of cid "new_queue (queue_capacity rt)" "clients rt"] by blast
  with h show ?thesis
    by (auto simp: ws_history_def ws_register_def queued_entries_def)
qed

lemma ws_register_all_history: "ws_history cap [] (ws_register_all ids (ws_init cap))"
proof -
  have "queue_capacity rt = cap \<Longrightarrow> ws_history cap [] rt \<Longrightarrow>
      ws_history cap [] (fold ws_register ids rt)" for rt
  proof (induction ids arbitrary: rt)
    case (Cons i ids)
    moreover have "queue_capacity (ws_register i rt) = queue_capacity rt" by (simp add: ws_register_def)
    ultimately show ?case using ws_register_history [of rt i] by simp
  qed simp
  moreover have "ws_history cap [] (ws_init cap)"
    by (simp add: ws_history_def ws_init_def queued_entries_def)
  ultimately show ?thesis by (simp add: ws_register_all_def ws_init_def)
qed

section \<open>Properties\<close>

text \<open>
  after any history of broadcasts to freshly registered clients, no exception has
  occurred, every client holds at most \<open>cap\<close> frames whose critical ones are exactly the most
  recent \<open>cap\<close> critical frames in order, nothing is dropped before a queue is full, and every
  delivery is either still queued or counted as a drop.
\<close>

theorem broadcast_critical_retention:
  assumes "0 < cap" and "\<forall>f \<in> set fs. 5 \<le> length f"
  shows "\<exists>rt. ws_broadcast_all fs (ws_register_all ids (ws_init cap)) = (None, rt) \<and>
    map fst (clients rt) = map fst (clients (ws_register_all ids (ws_init cap))) \<and>
    (\<forall>(cid, q) \<in> set (clients rt). length (queue q) \<le> cap \<and>
       filter frame_critical (queue q) = last_n cap (filter frame_critical fs) \<and>
       (length (queue q) < cap \<longrightarrow> queue q = fs)) \<and>
    queued_entries rt + total_dropped_frames rt + total_critical_drops rt = length (clients rt) * length fs \<and>
    total_broadcasts rt = length fs"
  using ws_broadcast_all_history [OF ws_register_all_history assms, of ids]
  by (auto simp: ws_history_def binary_queue.retained_def)

theorem broadcast_critical_retention_witness:
  "\<exists>rt. ws_broadcast_all [[1, 3, 0, 0, 0], [1, 0, 0, 0, 0]] (ws_register_all [''a'', ''b''] (ws_init 1)) = (None, rt) \<and>
    map fst (clients rt) = map fst (clients (ws_register_all [''a'', ''b''] (ws_init 1))) \<and>
    (\<forall>(cid, q) \<in> set (clients rt). length (queue q) \<le> 1 \<and>
       filter frame_critical (queue q) =
         last_n 1 (filter frame_critical [[1, 3, 0, 0, 0], [1, 0, 0, 0, 0]]) \<and>
       (length (queue q) < 1 \<longrightarrow> queue q = [[1, 3, 0, 0, 0], [1, 0, 0, 0, 0]])) \<and>
    queued_entries rt + total_dropped_frames rt + total_critical_drops rt =
      length (clients rt) * length [[1, 3, 0, 0, 0], [1, 0, 0, 0, 0 :: byte]] \<and>
    total_broadcasts rt = length [[1, 3, 0, 0, 0], [1, 0, 0, 0, 0 :: byte]]"
  by (rule broadcast_critical_retention) simp_all

text \<open>
  a frame shorter than five bytes makes the broadcast raise \<open>IndexError\<close> as soon as one
  client is registered; no queue and no drop total has changed, only the broadcast counter.
\<close>

theorem broadcast_short_frame:
  assumes "length f < 5" and "clients rt \<noteq> []"
  shows "ws_broadcast f rt = (Some IndexError, rt\<lparr>total_broadcasts := total_broadcasts rt + 1\<rparr>)"
proof -
  obtain cid q cs where "clients rt = (cid, q) # cs" using assms(2) by (cases "clients rt") auto
  with assms(1) show ?thesis by (simp add: ws_broadcast_def binary_push_short)
qed

theorem broadcast_short_frame_witness:
  "ws_broadcast [1, 3] (ws_register ''a'' (ws_init 2)) =
     (Some IndexError, (ws_register ''a'' (ws_init 2))
        \<lparr>total_broadcasts := total_broadcasts (ws_register ''a'' (ws_init 2)) + 1\<rparr>)"
  by (rule broadcast_short_frame) (simp_all add: ws_register_def ws_init_def)

end
