(* ===== verification/Binary_Codec.thy ===== *)
theory Binary_Codec
  imports Websocket_Runtime
begin

text \<open>
  \<^verbatim>\<open>binary_telemetry_codec.py\<close>: the fixed 109-byte telemetry frame. \<^verbatim>\<open>struct\<close>'s little-endian
  formats are modelled with their range checks; a double is its 64-bit pattern, which
  \<^verbatim>\<open>struct\<close> copies verbatim. \<open>encode\<close> writes into one buffer that the codec owns and returns
  a view of it, so a later \<open>encode\<close> changes what an earlier view shows.
\<close>

type_synonym float64 = "64 word"

section \<open>The parts of \<^verbatim>\<open>struct\<close> the codec uses\<close>

datatype fmt = U8 | I32 | F64 | I8

datatype field = VInt int | VDouble float64

fun fmt_size :: "fmt \<Rightarrow> nat" where
  "fmt_size U8 = 1"
| "fmt_size I32 = 4"
| "fmt_size F64 = 8"
| "fmt_size I8 = 1"

definition calcsize :: "fmt list \<Rightarrow> nat" where
  "calcsize fs = sum_list (map fmt_size fs)"

fun le_bytes :: "nat \<Rightarrow> nat \<Rightarrow> byte list" where
  "le_bytes 0 v = []"
| "le_bytes (Suc n) v = word_of_nat v # le_bytes n (v div 256)"

fun le_val :: "byte list \<Rightarrow> nat" where
  "le_val [] = 0"
| "le_val (b # bs) = unat b + 256 * le_val bs"

definition pack_signed :: "nat \<Rightarrow> int \<Rightarrow> fault + byte list" where
  "pack_signed n v =
     (if - (2 ^ (8 * n - 1)) \<le> v \<and> v < 2 ^ (8 * n - 1) then Ok (le_bytes n (nat (v mod 2 ^ (8 * n))))
      else Fail StructError)"

definition unpack_signed :: "byte list \<Rightarrow> int" where
  "unpack_signed bs =
     (let v = int (le_val bs) in if 2 ^ (8 * length bs - 1) \<le> v then v - 2 ^ (8 * length bs) else v)"

fun pack_field :: "fmt \<Rightarrow> field \<Rightarrow> fault + byte list" where
  "pack_field U8 (VInt v) = (if 0 \<le> v \<and> v < 256 then Ok (le_bytes 1 (nat v)) else Fail StructError)"
| "pack_field I32 (VInt v) = pack_signed 4 v"
| "pack_field I8 (VInt v) = pack_signed 1 v"
| "pack_field F64 (VDouble d) = Ok (le_bytes 8 (unat d))"
| "pack_field _ _ = Fail StructError"

fun unpack_field :: "fmt \<Rightarrow> byte list \<Rightarrow> field" where
  "unpack_field U8 bs = VInt (int (le_val bs))"
| "unpack_field I32 bs = VInt (unpack_signed bs)"
| "unpack_field I8 bs = VInt (unpack_signed bs)"
| "unpack_field F64 bs = VDouble (word_of_nat (le_val bs))"

fun pack_fields :: "fmt list \<Rightarrow> field list \<Rightarrow> fault + byte list" where
  "pack_fields [] [] = Ok []"
| "pack_fields (f # fs) (v # vs) =
     seqE (pack_field f v) (\<lambda>bs. seqE (pack_fields fs vs) (\<lambda>rest. Ok (bs @ rest)))"
| "pack_fields _ _ = Fail StructError"

fun unpack_fields :: "fmt list \<Rightarrow> byte list \<Rightarrow> field list" where
  "unpack_fields [] bs = []"
| "unpack_fields (f # fs) bs = unpack_field f (take (fmt_size f) bs) # unpack_fields fs (drop (fmt_size f) bs)"

definition struct_unpack :: "fmt list \<Rightarrow> byte list \<Rightarrow> fault + field list" where
  "struct_unpack fs bs = (if length bs = calcsize fs then Ok (unpack_fields fs bs) else Fail StructError)"

section \<open>The codec\<close>

text \<open>\<^verbatim>\<open>"<B iddd dddd dddd bbbb d i"\<close>\<close>

definition schema_format :: "fmt list" where
  "schema_format = [U8, I32] @ replicate 11 F64 @ replicate 4 I8 @ [F64, I32]"

definition schema_size :: nat where
  "schema_size = calcsize schema_format"

record sample =
  threat_state :: int
  jammer_score :: float64
  spoof_score :: float64
  sphericity :: float64
  skew_residuals :: "float64 list"
  aoa_deviation :: "float64 list"
  nulling_directives :: "bool list"
  timestamp :: float64

record telemetry = sample +
  buffer_drops :: int

record codec =
  version :: int
  write_buf :: "byte list"

definition codec_init :: "int \<Rightarrow> codec" where
  "codec_init v = \<lparr>version = v, write_buf = replicate schema_size 0\<rparr>"

text \<open>\<^verbatim>\<open>a[0], a[1], a[2], a[3]\<close> of an array.\<close>

definition four :: "'a list \<Rightarrow> fault + 'a list" where
  "four xs = (if length xs < 4 then Fail IndexError else Ok (take 4 xs))"

definition encode_fields :: "int \<Rightarrow> telemetry \<Rightarrow> fault + field list" where
  "encode_fields ver t =
     seqE (four (skew_residuals t)) (\<lambda>sk.
     seqE (four (aoa_deviation t)) (\<lambda>ao.
     seqE (four (nulling_directives t)) (\<lambda>nd.
       Ok ([VInt ver, VInt (threat_state t), VDouble (jammer_score t), VDouble (spoof_score t),
            VDouble (sphericity t)] @ map VDouble sk @ map VDouble ao @
           map (\<lambda>b. VInt (if b then 1 else 0)) nd @ [VDouble (timestamp t), VInt (buffer_drops t)]))))"

definition encode :: "telemetry \<Rightarrow> codec \<Rightarrow> fault + codec" where
  "encode t c =
     seqE (encode_fields (version c) t) (\<lambda>fs.
     seqE (pack_fields schema_format fs) (\<lambda>bs.
     seqE (store_all (write_buf c) 0 bs) (\<lambda>buf. Ok (c\<lparr>write_buf := buf\<rparr>))))"

text \<open>What the returned \<^verbatim>\<open>memoryview\<close> reads, at the time it is read.\<close>

definition view :: "codec \<Rightarrow> byte list" where
  "view c = write_buf c"

fun int_at :: "field list \<Rightarrow> nat \<Rightarrow> int" where
  "int_at fs i = (case fs ! i of VInt v \<Rightarrow> v | VDouble _ \<Rightarrow> 0)"

fun double_at :: "field list \<Rightarrow> nat \<Rightarrow> float64" where
  "double_at fs i = (case fs ! i of VDouble d \<Rightarrow> d | VInt _ \<Rightarrow> 0)"

definition decode :: "byte list \<Rightarrow> fault + (int \<times> telemetry)" where
  "decode data =
     seqE (struct_unpack schema_format data) (\<lambda>u.
       Ok (int_at u 0,
           \<lparr>threat_state = int_at u 1, jammer_score = double_at u 2, spoof_score = double_at u 3,
            sphericity = double_at u 4, skew_residuals = map (double_at u) [5..<9],
            aoa_deviation = map (double_at u) [9..<13],
            nulling_directives = map (\<lambda>i. int_at u i \<noteq> 0) [13..<17],
            timestamp = double_at u 17, buffer_drops = int_at u 18\<rparr>))"

section \<open>Packing and unpacking\<close>

lemma length_le_bytes [simp]: "length (le_bytes n v) = n"
  by (induction n arbitrary: v) auto

lemma le_val_le_bytes: "v < 256 ^ n \<Longrightarrow> le_val (le_bytes n v) = v"
proof (induction n arbitrary: v)
  case (Suc n)
  then have "v div 256 < 256 ^ n" by (simp add: less_mult_imp_div_less mult.commute)
  with Suc.IH show ?case by (simp add: unsigned_of_nat take_bit_eq_mod)
qed simp

lemma unpack_pack_signed:
  assumes "pack_signed n v = Ok bs" and "0 < n"
  shows "length bs = n \<and> unpack_signed bs = v"
proof -
  have r: "- (2 ^ (8 * n - 1)) \<le> v" "v < 2 ^ (8 * n - 1)" "bs = le_bytes n (nat (v mod 2 ^ (8 * n)))"
    using assms(1) by (auto simp: pack_signed_def split: if_splits)
  have dbl: "(2::int) ^ (8 * n) = 2 * 2 ^ (8 * n - 1)"
    using assms(2) by (simp add: power_Suc [symmetric] del: power_Suc)
  have "nat (v mod 2 ^ (8 * n)) < 256 ^ n"
    by (simp add: nat_less_iff power_mult [symmetric] power_mult)
  then have val: "int (le_val bs) = v mod 2 ^ (8 * n)"
    by (simp add: r(3) le_val_le_bytes)
  have "v mod 2 ^ (8 * n) = (if 0 \<le> v then v else v + 2 ^ (8 * n))"
  proof (cases "0 \<le> v")
    case False
    have "v mod 2 ^ (8 * n) = (v + 2 ^ (8 * n)) mod 2 ^ (8 * n)" by simp
    also have "\<dots> = v + 2 ^ (8 * n)" using False r(1,2) dbl by (intro mod_pos_pos_trivial) linarith+
    finally show ?thesis using False by simp
  qed (use r(1,2) dbl in simp)
  with val r dbl show ?thesis by (auto simp: unpack_signed_def Let_def)
qed

lemma unpack_pack_field: "pack_field f v = Ok bs \<Longrightarrow> length bs = fmt_size f \<and> unpack_field f bs = v"
proof (induction f v rule: pack_field.induct)
  case (4 d)
  have "unat d < 256 ^ 8" using unsigned_less [of d] by simp
  with 4 show ?case by (auto simp: le_val_le_bytes)
next
  case (1 v)
  then have "0 \<le> v" "v < 256" "bs = le_bytes 1 (nat v)" by (auto split: if_splits)
  moreover from this have "le_val (le_bytes 1 (nat v)) = nat v" by (intro le_val_le_bytes) simp
  ultimately show ?case by simp
qed (auto dest: unpack_pack_signed)

text \<open>Unpacking is the inverse of packing, for every format and every list of values it takes.\<close>

lemma unpack_pack_fields:
  "pack_fields fs vs = Ok bs \<Longrightarrow> length bs = calcsize fs \<and> unpack_fields fs bs = vs"
proof (induction fs vs arbitrary: bs rule: pack_fields.induct)
  case (2 f fs v vs)
  then obtain b1 rest where "pack_field f v = Ok b1" "pack_fields fs vs = Ok rest" "bs = b1 @ rest"
    by (auto simp: seqE_Ok_iff)
  with 2 unpack_pack_field [of f v b1] show ?case by (simp add: calcsize_def)
qed (auto simp: calcsize_def)

lemma struct_roundtrip: "pack_fields fs vs = Ok bs \<Longrightarrow> struct_unpack fs bs = Ok vs"
  using unpack_pack_fields [of fs vs bs] by (simp add: struct_unpack_def)

lemma schema_size_value: "schema_size = 109"
  by (simp add: schema_size_def calcsize_def schema_format_def sum_list_replicate)

section \<open>The frame of a telemetry record\<close>

definition int32 :: "int \<Rightarrow> bool" where
  "int32 v \<longleftrightarrow> - (2 ^ 31) \<le> v \<and> v < 2 ^ 31"

definition well_shaped :: "telemetry \<Rightarrow> bool" where
  "well_shaped t \<longleftrightarrow> length (skew_residuals t) = 4 \<and> length (aoa_deviation t) = 4 \<and>
     length (nulling_directives t) = 4"

definition encodable :: "int \<Rightarrow> telemetry \<Rightarrow> bool" where
  "encodable ver t \<longleftrightarrow> 0 \<le> ver \<and> ver < 256 \<and> int32 (threat_state t) \<and> int32 (buffer_drops t) \<and> well_shaped t"

lemma pack_signed_fits: "pack_signed 4 v = (if int32 v then Ok (le_bytes 4 (nat (v mod 2 ^ 32))) else Fail StructError)"
  by (simp add: pack_signed_def int32_def)

lemma pack_directive: "pack_signed (Suc 0) 0 = Ok [0]" "pack_signed (Suc 0) 1 = Ok [1]"
  by (simp_all add: pack_signed_def)

lemma list_of_four: "length xs = 4 \<Longrightarrow> \<exists>a b c d. xs = [a, b, c, d]"
  by (auto simp: numeral_eq_Suc length_Suc_conv)

text \<open>The four-element arrays of a well-shaped record, spelled out once for the lemmas below.\<close>

lemma well_shaped_cases:
  assumes "well_shaped t"
  obtains s0 s1 s2 s3 a0 a1 a2 a3 n0 n1 n2 n3
  where "skew_residuals t = [s0, s1, s2, s3]" "aoa_deviation t = [a0, a1, a2, a3]"
    "nulling_directives t = [n0, n1, n2, n3]"
  using assms list_of_four [of "skew_residuals t"] list_of_four [of "aoa_deviation t"]
    list_of_four [of "nulling_directives t"] unfolding well_shaped_def by metis

lemma schema_unfold: "schema_format =
    [U8, I32, F64, F64, F64, F64, F64, F64, F64, F64, F64, F64, F64, I8, I8, I8, I8, F64, I32]"
  by (simp add: schema_format_def numeral_eq_Suc)

lemma encode_fields_pack:
  assumes "well_shaped t" and "0 \<le> ver" and "ver < 256"
  shows "\<exists>fs. encode_fields ver t = Ok fs \<and>
    (encodable ver t \<longrightarrow> (\<exists>rest. pack_fields schema_format fs =
        Ok (le_bytes 1 (nat ver) @ le_bytes 4 (nat (threat_state t mod 2 ^ 32)) @ rest))) \<and>
    (\<not> encodable ver t \<longrightarrow> pack_fields schema_format fs = Fail StructError)"
  using assms(1)
proof (rule well_shaped_cases)
  fix s0 s1 s2 s3 a0 a1 a2 a3 n0 n1 n2 n3
  assume "skew_residuals t = [s0, s1, s2, s3]" "aoa_deviation t = [a0, a1, a2, a3]"
    "nulling_directives t = [n0, n1, n2, n3]"
  with assms show ?thesis
    by (simp add: encode_fields_def four_def schema_unfold pack_signed_fits pack_directive encodable_def
        del: le_bytes.simps)
qed

lemma decode_fields:
  assumes "well_shaped t" and "encode_fields ver t = Ok fs" and "struct_unpack schema_format bs = Ok fs"
  shows "decode bs = Ok (ver, t)"
  using assms(1)
proof (rule well_shaped_cases)
  fix s0 s1 s2 s3 a0 a1 a2 a3 n0 n1 n2 n3
  assume "skew_residuals t = [s0, s1, s2, s3]" "aoa_deviation t = [a0, a1, a2, a3]"
    "nulling_directives t = [n0, n1, n2, n3]"
  with assms show ?thesis
    by (auto simp: decode_def encode_fields_def four_def upt_rec numeral_eq_Suc)
qed

lemma encode_Ok:
  assumes "encodable (version c) t" and "length (write_buf c) = schema_size"
  shows "\<exists>fs bs rest. encode t c = Ok (c\<lparr>write_buf := bs\<rparr>) \<and> encode_fields (version c) t = Ok fs \<and>
    struct_unpack schema_format bs = Ok fs \<and> length bs = schema_size \<and>
    bs = le_bytes 1 (nat (version c)) @ le_bytes 4 (nat (threat_state t mod 2 ^ 32)) @ rest"
proof -
  have "well_shaped t" "0 \<le> version c" "version c < 256" using assms(1) by (simp_all add: encodable_def)
  from encode_fields_pack [OF this] assms(1) obtain fs bs rest where
    fs: "encode_fields (version c) t = Ok fs" and bs: "pack_fields schema_format fs = Ok bs"
    and pre: "bs = le_bytes 1 (nat (version c)) @ le_bytes 4 (nat (threat_state t mod 2 ^ 32)) @ rest"
    by blast
  have len: "length bs = schema_size" using unpack_pack_fields [OF bs] by (simp add: schema_size_def)
  then have "store_all (write_buf c) 0 bs = Ok bs" using assms(2) by (simp add: store_all_Ok)
  with fs bs have "encode t c = Ok (c\<lparr>write_buf := bs\<rparr>)" by (simp add: encode_def)
  with fs struct_roundtrip [OF bs] len pre show ?thesis by blast
qed

text \<open>The transport's byte arithmetic reads the field that the codec wrote.\<close>

lemma threat_bytes_unpack: "threat_bytes b1 b2 b3 b4 = unpack_signed [b1, b2, b3, b4]"
  by (simp add: threat_bytes_def unpack_signed_def Let_def push_bit_eq_mult)

lemma frame_threat_encoded:
  assumes "int32 v"
  shows "frame_threat (le_bytes 1 w @ le_bytes 4 (nat (v mod 2 ^ 32)) @ rest) = Ok v"
proof -
  obtain b1 b2 b3 b4 where b: "le_bytes 4 (nat (v mod 2 ^ 32)) = [b1, b2, b3, b4]"
    using list_of_four length_le_bytes by metis
  have "unpack_signed [b1, b2, b3, b4] = v"
    using unpack_pack_signed [of 4 v "[b1, b2, b3, b4]"] assms b by (simp add: pack_signed_fits)
  then show ?thesis unfolding b by (simp add: frame_threat_def threat_bytes_unpack)
qed

section \<open>Properties\<close>

text \<open>
  C20: for every telemetry record whose fields fit the schema, \<open>encode\<close> succeeds, fills the
  whole 109-byte buffer whatever it held before, and \<open>decode\<close> of what the view shows gives
  the version and the record back, with every double bit for bit.
\<close>

theorem codec_roundtrip:
  assumes "encodable (version c) t" and "length (write_buf c) = schema_size"
  shows "\<exists>c'. encode t c = Ok c' \<and> version c' = version c \<and> length (view c') = 109 \<and>
    decode (view c') = Ok (version c, t)"
proof -
  obtain fs bs where "encode t c = Ok (c\<lparr>write_buf := bs\<rparr>)" "encode_fields (version c) t = Ok fs"
    "struct_unpack schema_format bs = Ok fs" "length bs = schema_size"
    using encode_Ok [OF assms] by blast
  moreover have "well_shaped t" using assms by (simp add: encodable_def)
  ultimately show ?thesis using decode_fields by (simp add: view_def schema_size_value)
qed

definition sample_telemetry :: telemetry where
  "sample_telemetry = \<lparr>threat_state = 3, jammer_score = 4605831338911806259, spoof_score = 0,
     sphericity = 1, skew_residuals = [1, 2, 3, 4], aoa_deviation = [5, 6, 7, 8],
     nulling_directives = [False, True, True, False], timestamp = 9, buffer_drops = -12\<rparr>"

theorem codec_roundtrip_witness:
  "encodable 1 sample_telemetry \<and>
   (\<exists>c'. encode sample_telemetry (codec_init 1) = Ok c' \<and> version c' = version (codec_init 1) \<and>
      length (view c') = 109 \<and> decode (view c') = Ok (version (codec_init 1), sample_telemetry))"
proof
  show e: "encodable 1 sample_telemetry"
    by (simp add: encodable_def sample_telemetry_def int32_def well_shaped_def)
  show "\<exists>c'. encode sample_telemetry (codec_init 1) = Ok c' \<and> version c' = version (codec_init 1) \<and>
      length (view c') = 109 \<and> decode (view c') = Ok (version (codec_init 1), sample_telemetry)"
    by (rule codec_roundtrip) (use e in \<open>simp_all add: codec_init_def\<close>)
qed

text \<open>
  a threat state or a drop count outside the signed 32-bit range makes \<open>encode\<close> raise
  \<^verbatim>\<open>struct.error\<close>; it is never truncated into the frame.
\<close>

theorem encode_range_error:
  assumes "well_shaped t" and "0 \<le> version c" and "version c < 256"
    and "\<not> (int32 (threat_state t) \<and> int32 (buffer_drops t))"
  shows "encode t c = Fail StructError"
  using encode_fields_pack [OF assms(1-3)] assms(4) by (auto simp: encode_def encodable_def)

theorem encode_range_error_witness:
  "encode (sample_telemetry\<lparr>threat_state := 2147483648\<rparr>) (codec_init 1) = Fail StructError"
  by (rule encode_range_error)
    (simp_all add: sample_telemetry_def int32_def well_shaped_def codec_init_def)

end
