(* ===== verification/Shared_Memory.thy ===== *)
theory Shared_Memory
  imports Binary_Codec Ledger
begin

text \<open>
  Memory shared between processes. \<^verbatim>\<open>secure_ipc_bridge.py\<close> copies blocks of samples in and out of two
  rings under a file lock and kills the caller that breaks a bound; \<^verbatim>\<open>peer_pipeline_transport.py\<close> drops
  datagrams into the slots of a mapped pool; \<^verbatim>\<open>hil_register_ingestor.py\<close> waits for a device flag and returns a
  view of the device's buffer. Samples are of any type, and the copy of one channel is one step.
\<close>

section \<open>The rings between processes\<close>

text \<open>What \<^verbatim>\<open>np.copyto\<close> and the checks look at: the shape, whether the type is \<^verbatim>\<open>complex64\<close>, and the rows of a matrix\<close>

record 'a ndarray =
  nd_shape :: "nat list"
  nd_complex64 :: bool
  nd_rows :: "'a list list"

definition nd_ok :: "'a ndarray \<Rightarrow> bool" where
  "nd_ok a \<longleftrightarrow> (case nd_shape a of [m, n] \<Rightarrow> length (nd_rows a) = m \<and> (\<forall>row \<in> set (nd_rows a). length row = n) | _ \<Rightarrow> True)"

datatype 'a ipc_call = WriteBuffer int "'a ndarray" | ReadBuffer int "'a ndarray"

text \<open>
  Where a process stands: outside, at the lock, copying (with the number of channels copied), or killed.
  A writer carries its payload and a reader the rows of its output buffer.
\<close>

datatype direction = Into | OutOf

datatype 'a ipc_pc =
    Outside
  | AtLock direction nat "'a list list"
  | Copying direction nat "'a list list" nat
  | Killed

record 'a ipc =
  ip_channels :: nat
  ip_chunk :: nat
  ip_rings :: "'a list list list"
  ip_lock :: "nat option"
  ip_pc :: "nat \<Rightarrow> 'a ipc_pc"
  ip_ledger :: ledger_file
  ip_side_ledger :: ledger_file

definition initialize_memory :: "'a \<Rightarrow> nat \<Rightarrow> nat \<Rightarrow> ledger_file \<Rightarrow> 'a ipc" where
  "initialize_memory zero num_channels chunk_size ledger =
     \<lparr>ip_channels = num_channels, ip_chunk = chunk_size,
      ip_rings = replicate 2 (replicate num_channels (replicate chunk_size zero)),
      ip_lock = None, ip_pc = (\<lambda>_. Outside), ip_ledger = ledger, ip_side_ledger = []\<rparr>"

text \<open>What opening the ledger for appending does\<close>

datatype ledger_access = Writable | Denied | Broken

definition segv_entry :: "json \<Rightarrow> string \<Rightarrow> payload" where
  "segv_entry now reason = [''timestamp'' \<mapsto> now, ''incident_type'' \<mapsto> JStr ''IPC_OOB_MEMORY_VIOLATION'',
     ''reason'' \<mapsto> JStr reason, ''containment_action'' \<mapsto> JStr ''FORCED_SIGSEGV'']"

definition trigger_sigsegv :: "ledger_access \<Rightarrow> json \<Rightarrow> string \<Rightarrow> nat \<Rightarrow> 'a ipc \<Rightarrow> 'a ipc" where
  "trigger_sigsegv acc now reason p s =
     (let e = segv_entry now reason;
          s1 = (case acc of
              Writable \<Rightarrow> s\<lparr>ip_ledger := append_entry (ip_ledger s) e\<rparr>
            | Denied \<Rightarrow> s\<lparr>ip_side_ledger := [Doc (Rec e)]\<rparr>
            | Broken \<Rightarrow> s)
      in s1\<lparr>ip_lock := (if ip_lock s1 = Some p then None else ip_lock s1), ip_pc := (ip_pc s1)(p := Killed)\<rparr>)"

text \<open>The checks at the head of both calls\<close>

definition call_violation :: "nat \<Rightarrow> nat \<Rightarrow> 'a ipc_call \<Rightarrow> string option" where
  "call_violation channels chunk c =
     (case c of
        WriteBuffer r a \<Rightarrow>
          if r \<noteq> 0 \<and> r \<noteq> 1 then Some ''Invalid Ring Buffer Index Request''
          else if nd_shape a \<noteq> [channels, chunk] \<or> \<not> nd_complex64 a then Some ''Payload Signature Mismatch'' else None
      | ReadBuffer r a \<Rightarrow>
          if r \<noteq> 0 \<and> r \<noteq> 1 then Some ''Invalid Ring Buffer Index Request''
          else if nd_shape a \<noteq> [channels, chunk] \<or> \<not> nd_complex64 a then Some ''Output Buffer Constraints Violated'' else None)"

definition admitted :: "'a ipc_call \<Rightarrow> 'a ipc_pc" where
  "admitted c = (case c of WriteBuffer r a \<Rightarrow> AtLock Into (nat r) (nd_rows a) | ReadBuffer r a \<Rightarrow> AtLock OutOf (nat r) (nd_rows a))"

definition call_buffer :: "ledger_access \<Rightarrow> json \<Rightarrow> nat \<Rightarrow> 'a ipc_call \<Rightarrow> 'a ipc \<Rightarrow> 'a ipc option" where
  "call_buffer acc now p c s =
     (if ip_pc s p \<noteq> Outside then None
      else case call_violation (ip_channels s) (ip_chunk s) c of
          Some reason \<Rightarrow> Some (trigger_sigsegv acc now reason p s)
        | None \<Rightarrow> Some (s\<lparr>ip_pc := (ip_pc s)(p := admitted c)\<rparr>))"

text \<open>Without \<^verbatim>\<open>fcntl\<close> both lock calls do nothing.\<close>

definition acquire_lock :: "bool \<Rightarrow> nat \<Rightarrow> 'a ipc \<Rightarrow> 'a ipc option" where
  "acquire_lock has_fcntl p s =
     (case ip_pc s p of
        AtLock d r rows \<Rightarrow>
          if has_fcntl \<and> ip_lock s \<noteq> None then None
          else Some (s\<lparr>ip_lock := (if has_fcntl then Some p else ip_lock s), ip_pc := (ip_pc s)(p := Copying d r rows 0)\<rparr>)
      | _ \<Rightarrow> None)"

definition copy_channel :: "nat \<Rightarrow> 'a ipc \<Rightarrow> 'a ipc option" where
  "copy_channel p s =
     (case ip_pc s p of
        Copying d r rows k \<Rightarrow>
          if k < ip_channels s
          then (case d of
              Into \<Rightarrow> Some (s\<lparr>ip_rings := (ip_rings s)[r := (ip_rings s ! r)[k := rows ! k]], ip_pc := (ip_pc s)(p := Copying d r rows (Suc k))\<rparr>)
            | OutOf \<Rightarrow> Some (s\<lparr>ip_pc := (ip_pc s)(p := Copying d r (rows[k := ip_rings s ! r ! k]) (Suc k))\<rparr>))
          else None
      | _ \<Rightarrow> None)"

datatype 'a completed = Wrote nat "'a list list" | GotRows nat "'a list list"

definition release_lock :: "bool \<Rightarrow> nat \<Rightarrow> 'a ipc \<Rightarrow> ('a completed \<times> 'a ipc) option" where
  "release_lock has_fcntl p s =
     (case ip_pc s p of
        Copying d r rows k \<Rightarrow>
          if k < ip_channels s then None
          else Some (case d of Into \<Rightarrow> Wrote r rows | OutOf \<Rightarrow> GotRows r rows,
                     s\<lparr>ip_lock := (if has_fcntl then None else ip_lock s), ip_pc := (ip_pc s)(p := Outside)\<rparr>)
      | _ \<Rightarrow> None)"

text \<open>Any number of processes, one step of one of them at a time\<close>

datatype 'a ipc_event = Call ledger_access json nat "'a ipc_call" | Lock nat | CopyRow nat | Unlock nat

fun ipc_step :: "bool \<Rightarrow> 'a ipc_event \<Rightarrow> 'a ipc \<Rightarrow> ('a completed list \<times> 'a ipc) option" where
  "ipc_step fc (Call acc now p c) s = map_option (Pair []) (call_buffer acc now p c s)"
| "ipc_step fc (Lock p) s = map_option (Pair []) (acquire_lock fc p s)"
| "ipc_step fc (CopyRow p) s = map_option (Pair []) (copy_channel p s)"
| "ipc_step fc (Unlock p) s = map_option (\<lambda>(c, s'). ([c], s')) (release_lock fc p s)"

fun ipc_run :: "bool \<Rightarrow> 'a ipc_event list \<Rightarrow> 'a ipc \<Rightarrow> ('a completed list \<times> 'a ipc) option" where
  "ipc_run fc [] s = Some ([], s)"
| "ipc_run fc (e # es) s =
     (case ipc_step fc e s of
        None \<Rightarrow> None
      | Some (c, s1) \<Rightarrow> (case ipc_run fc es s1 of None \<Rightarrow> None | Some (cs, s2) \<Rightarrow> Some (c @ cs, s2)))"

text \<open>The specification: whole blocks, stored and fetched in one step each\<close>

fun atomic_rings :: "'a completed list \<Rightarrow> 'a list list list \<Rightarrow> 'a list list list option" where
  "atomic_rings [] m = Some m"
| "atomic_rings (Wrote r rows # cs) m = atomic_rings cs (m[r := rows])"
| "atomic_rings (GotRows r rows # cs) m = (if rows = m ! r then atomic_rings cs m else None)"

section \<open>One holder of the lock at a time\<close>

text \<open>The concrete rings stand for the blocks \<open>m\<close>, up to the part of a ring its writer has replaced.\<close>

definition stands_for :: "'a ipc \<Rightarrow> 'a list list list \<Rightarrow> bool" where
  "stands_for s m \<longleftrightarrow>
     length m = 2 \<and> (\<forall>b \<in> set m. length b = ip_channels s) \<and>
     (\<forall>p d r rows. ip_pc s p = AtLock d r rows \<longrightarrow> r < 2 \<and> length rows = ip_channels s) \<and>
     (\<forall>p d r rows k. ip_pc s p = Copying d r rows k \<longrightarrow> ip_lock s = Some p \<and> r < 2 \<and> length rows = ip_channels s \<and> k \<le> ip_channels s) \<and>
     (case ip_lock s of
        None \<Rightarrow> ip_rings s = m
      | Some p \<Rightarrow> (case ip_pc s p of
            Copying Into r rows k \<Rightarrow> ip_rings s = m[r := take k rows @ drop k (m ! r)]
          | Copying OutOf r rows k \<Rightarrow> ip_rings s = m \<and> take k rows = take k (m ! r)
          | _ \<Rightarrow> False))"

fun sound_event :: "'a ipc_event \<Rightarrow> bool" where
  "sound_event (Call acc now p (WriteBuffer r a)) = nd_ok a"
| "sound_event (Call acc now p (ReadBuffer r a)) = nd_ok a"
| "sound_event e = True"

lemma atomic_rings_append:
  "atomic_rings (cs @ ds) m = (case atomic_rings cs m of None \<Rightarrow> None | Some m' \<Rightarrow> atomic_rings ds m')"
proof (induction cs arbitrary: m)
  case (Cons c cs)
  then show ?case by (cases c) auto
qed simp

lemma stands_forI:
  assumes "length m = 2" "\<And>b. b \<in> set m \<Longrightarrow> length b = ip_channels s"
    "\<And>p d r rows. ip_pc s p = AtLock d r rows \<Longrightarrow> r < 2 \<and> length rows = ip_channels s"
    "\<And>p d r rows k. ip_pc s p = Copying d r rows k \<Longrightarrow> ip_lock s = Some p \<and> r < 2 \<and> length rows = ip_channels s \<and> k \<le> ip_channels s"
    "case ip_lock s of None \<Rightarrow> ip_rings s = m
      | Some p \<Rightarrow> (case ip_pc s p of
            Copying Into r rows k \<Rightarrow> ip_rings s = m[r := take k rows @ drop k (m ! r)]
          | Copying OutOf r rows k \<Rightarrow> ip_rings s = m \<and> take k rows = take k (m ! r)
          | _ \<Rightarrow> False)"
  shows "stands_for s m"
  unfolding stands_for_def using assms by blast

lemma stands_for_facts:
  assumes "stands_for s m"
  shows "length m = 2" and "\<And>b. b \<in> set m \<Longrightarrow> length b = ip_channels s"
    and "\<And>p d r rows. ip_pc s p = AtLock d r rows \<Longrightarrow> r < 2 \<and> length rows = ip_channels s"
    and "\<And>p d r rows k. ip_pc s p = Copying d r rows k \<Longrightarrow> ip_lock s = Some p \<and> r < 2 \<and> length rows = ip_channels s \<and> k \<le> ip_channels s"
    and "ip_lock s = None \<Longrightarrow> ip_rings s = m"
    and "\<And>p. ip_lock s = Some p \<Longrightarrow> (\<exists>r rows k. ip_pc s p = Copying Into r rows k \<and> ip_rings s = m[r := take k rows @ drop k (m ! r)]) \<or>
          (\<exists>r rows k. ip_pc s p = Copying OutOf r rows k \<and> ip_rings s = m \<and> take k rows = take k (m ! r))"
proof -
  fix p assume "ip_lock s = Some p"
  with assms have "case ip_pc s p of
            Copying Into r rows k \<Rightarrow> ip_rings s = m[r := take k rows @ drop k (m ! r)]
          | Copying OutOf r rows k \<Rightarrow> ip_rings s = m \<and> take k rows = take k (m ! r)
          | _ \<Rightarrow> False"
    by (simp add: stands_for_def)
  then show "(\<exists>r rows k. ip_pc s p = Copying Into r rows k \<and> ip_rings s = m[r := take k rows @ drop k (m ! r)]) \<or>
          (\<exists>r rows k. ip_pc s p = Copying OutOf r rows k \<and> ip_rings s = m \<and> take k rows = take k (m ! r))"
    by (auto split: ipc_pc.splits direction.splits)
qed (use assms in \<open>auto simp: stands_for_def\<close>)

text \<open>A step that moves one process between the states outside the lock keeps the correspondence.\<close>

lemma stands_for_outside:
  assumes "stands_for s m" and "\<forall>d r rows k. ip_pc s p \<noteq> Copying d r rows k"
    and "\<forall>d r rows k. pc \<noteq> Copying d r rows k" and "\<forall>d r rows. pc = AtLock d r rows \<longrightarrow> r < 2 \<and> length rows = ip_channels s"
    and "ip_channels s' = ip_channels s" "ip_rings s' = ip_rings s" "ip_lock s' = ip_lock s" "ip_pc s' = (ip_pc s)(p := pc)"
  shows "stands_for s' m"
proof -
  note f = stands_for_facts [OF assms(1)]
  have free: "ip_lock s \<noteq> Some p" using f(6) [of p] assms(2) by blast
  have "case ip_lock s of None \<Rightarrow> ip_rings s = m
      | Some p \<Rightarrow> (case ip_pc s p of
            Copying Into r rows k \<Rightarrow> ip_rings s = m[r := take k rows @ drop k (m ! r)]
          | Copying OutOf r rows k \<Rightarrow> ip_rings s = m \<and> take k rows = take k (m ! r)
          | _ \<Rightarrow> False)"
    using assms(1) by (simp add: stands_for_def)
  then have now: "case ip_lock s' of None \<Rightarrow> ip_rings s' = m
      | Some p \<Rightarrow> (case ip_pc s' p of
            Copying Into r rows k \<Rightarrow> ip_rings s' = m[r := take k rows @ drop k (m ! r)]
          | Copying OutOf r rows k \<Rightarrow> ip_rings s' = m \<and> take k rows = take k (m ! r)
          | _ \<Rightarrow> False)"
    unfolding assms(6) using free assms(7,8) by (cases "ip_lock s") auto
  show ?thesis
    by (rule stands_forI [OF _ _ _ _ now]) (use f(1-4) assms(3-8) in \<open>auto split: if_splits\<close>)
qed

lemma call_stands_for:
  assumes "stands_for s m" "sound_event (Call acc now p c)" "call_buffer acc now p c s = Some s'"
  shows "stands_for s' m"
proof -
  have out: "ip_pc s p = Outside" using assms(3) by (auto simp: call_buffer_def split: if_splits)
  have free: "ip_lock s \<noteq> Some p" using stands_for_facts(6) [OF assms(1), of p] out by auto
  show ?thesis
  proof (cases "call_violation (ip_channels s) (ip_chunk s) c")
    case None
    with assms(3) out have s': "s' = s\<lparr>ip_pc := (ip_pc s)(p := admitted c)\<rparr>" by (simp add: call_buffer_def)
    have "\<forall>d r rows. admitted c = AtLock d r rows \<longrightarrow> r < 2 \<and> length rows = ip_channels s"
      using None assms(2) by (cases c) (auto simp: admitted_def call_violation_def nd_ok_def split: if_splits)
    then show ?thesis
      by (intro stands_for_outside [OF assms(1), of p "admitted c"]) (auto simp: s' out admitted_def split: ipc_call.splits)
  next
    case (Some reason)
    with assms(3) out have "s' = trigger_sigsegv acc now reason p s" by (simp add: call_buffer_def)
    then show ?thesis using free
      by (intro stands_for_outside [OF assms(1), of p Killed]) (auto simp: trigger_sigsegv_def Let_def out split: ledger_access.splits)
  qed
qed

lemma lock_stands_for:
  assumes "stands_for s m" "acquire_lock True p s = Some s'"
  shows "stands_for s' m"
proof -
  obtain d r rows where at: "ip_pc s p = AtLock d r rows" and free: "ip_lock s = None"
    and s': "s' = s\<lparr>ip_lock := Some p, ip_pc := (ip_pc s)(p := Copying d r rows 0)\<rparr>"
    using assms(2) by (auto simp: acquire_lock_def split: ipc_pc.splits if_splits)
  note f = stands_for_facts [OF assms(1)]
  have none: "\<And>q d r rows k. ip_pc s q \<noteq> Copying d r rows k" using f(4) free by fastforce
  show ?thesis
    by (rule stands_forI) (use f(1,2,3) f(5) [OF free] at none in \<open>auto simp: s' split: if_splits direction.splits\<close>)
qed

lemma copy_stands_for:
  assumes "stands_for s m" "copy_channel p s = Some s'"
  shows "stands_for s' m"
proof -
  obtain d r rows k where at: "ip_pc s p = Copying d r rows k" and k: "k < ip_channels s"
    using assms(2) by (auto simp: copy_channel_def split: ipc_pc.splits if_splits)
  note f = stands_for_facts [OF assms(1)]
  have held: "ip_lock s = Some p" and r: "r < 2" and len: "length rows = ip_channels s" using f(4) [OF at] by auto
  have only: "\<And>q d r rows k. ip_pc s q = Copying d r rows k \<Longrightarrow> q = p" using f(4) held by fastforce
  have mlen: "length (m ! r) = ip_channels s" using f(1,2) r by simp
  show ?thesis
  proof (cases d)
    case Into
    then have ring: "ip_rings s = m[r := take k rows @ drop k (m ! r)]" using f(6) [OF held] at by auto
    have s': "s' = s\<lparr>ip_rings := (ip_rings s)[r := (ip_rings s ! r)[k := rows ! k]], ip_pc := (ip_pc s)(p := Copying Into r rows (Suc k))\<rparr>"
      using assms(2) at k Into by (simp add: copy_channel_def)
    have "(take k rows @ drop k (m ! r))[k := rows ! k] = take (Suc k) rows @ drop (Suc k) (m ! r)"
      using k len mlen by (simp add: list_update_append take_Suc_conv_app_nth Cons_nth_drop_Suc [symmetric])
    then have "ip_rings s' = m[r := take (Suc k) rows @ drop (Suc k) (m ! r)]"
      using ring r f(1) by (simp add: s')
    then show ?thesis
      by (intro stands_forI) (use f(1,2,3) held r len k only in \<open>auto simp: s' split: if_splits\<close>)
  next
    case OutOf
    then have ring: "ip_rings s = m" and part: "take k rows = take k (m ! r)" using f(6) [OF held] at by auto
    have s': "s' = s\<lparr>ip_pc := (ip_pc s)(p := Copying OutOf r (rows[k := ip_rings s ! r ! k]) (Suc k))\<rparr>"
      using assms(2) at k OutOf by (simp add: copy_channel_def)
    have "take (Suc k) (rows[k := m ! r ! k]) = take (Suc k) (m ! r)"
      using k len mlen part by (simp add: take_Suc_conv_app_nth)
    then show ?thesis
      by (intro stands_forI) (use f(1,2,3) held r len k only ring in \<open>auto simp: s' split: if_splits\<close>)
  qed
qed

lemma unlock_stands_for:
  assumes "stands_for s m" "release_lock True p s = Some (c, s')"
  shows "\<exists>m'. atomic_rings [c] m = Some m' \<and> stands_for s' m'"
proof -
  obtain d r rows k where at: "ip_pc s p = Copying d r rows k" and k: "\<not> k < ip_channels s"
    and c: "c = (case d of Into \<Rightarrow> Wrote r rows | OutOf \<Rightarrow> GotRows r rows)"
    and s': "s' = s\<lparr>ip_lock := None, ip_pc := (ip_pc s)(p := Outside)\<rparr>"
    using assms(2) by (auto simp: release_lock_def split: ipc_pc.splits if_splits)
  note f = stands_for_facts [OF assms(1)]
  have held: "ip_lock s = Some p" and r: "r < 2" and len: "length rows = ip_channels s" and full: "k = ip_channels s"
    using f(4) [OF at] k by auto
  have only: "\<And>q d r rows k. ip_pc s q = Copying d r rows k \<Longrightarrow> q = p" using f(4) held by fastforce
  have mlen: "length (m ! r) = ip_channels s" using f(1,2) r by simp
  have new: "stands_for s' m'" if "ip_rings s = m'" "length m' = 2" "\<And>b. b \<in> set m' \<Longrightarrow> length b = ip_channels s" for m'
    by (rule stands_forI) (use f(3) only that in \<open>auto simp: s' split: if_splits\<close>)
  show ?thesis
  proof (cases d)
    case Into
    then have "ip_rings s = m[r := rows]" using f(6) [OF held] at full len mlen by auto
    moreover have "length b = ip_channels s" if "b \<in> set (m[r := rows])" for b
      using that set_update_subset_insert [of m r rows] f(2) len by auto
    ultimately have "stands_for s' (m[r := rows])" using f(1) by (intro new) auto
    then show ?thesis by (simp add: c Into)
  next
    case OutOf
    then have "ip_rings s = m" "rows = m ! r" using f(6) [OF held] at full len mlen by auto
    then show ?thesis using new [of m] f(1,2) by (auto simp: c OutOf)
  qed
qed

lemma step_stands_for:
  assumes "stands_for s m" "sound_event e" "ipc_step True e s = Some (cs, s')"
  shows "\<exists>m'. atomic_rings cs m = Some m' \<and> stands_for s' m'"
proof (cases e)
  case (Call acc now p c)
  then show ?thesis using assms call_stands_for [OF assms(1)] by auto
next
  case (Lock p)
  then show ?thesis using assms lock_stands_for [OF assms(1)] by auto
next
  case (CopyRow p)
  then show ?thesis using assms copy_stands_for [OF assms(1)] by auto
next
  case (Unlock p)
  then show ?thesis using assms unlock_stands_for [OF assms(1)] by auto
qed

lemma run_stands_for:
  "stands_for s m \<Longrightarrow> list_all sound_event es \<Longrightarrow> ipc_run True es s = Some (cs, s') \<Longrightarrow>
   \<exists>m'. atomic_rings cs m = Some m' \<and> stands_for s' m'"
proof (induction es arbitrary: s m cs)
  case Nil
  then show ?case by simp
next
  case (Cons e es)
  then obtain c s1 ds where step: "ipc_step True e s = Some (c, s1)" and rest: "ipc_run True es s1 = Some (ds, s')" and cs: "cs = c @ ds"
    by (auto split: option.splits)
  obtain m1 where m1: "atomic_rings c m = Some m1" "stands_for s1 m1"
    using step_stands_for [OF Cons.prems(1) _ step] Cons.prems(2) by auto
  show ?case using Cons.IH [OF m1(2) _ rest] Cons.prems(2) by (auto simp: cs atomic_rings_append m1(1))
qed

definition two_by_one :: "nat \<Rightarrow> nat \<Rightarrow> nat ndarray" where
  "two_by_one a b = \<lparr>nd_shape = [2, 1], nd_complex64 = True, nd_rows = [[a], [b]]\<rparr>"

definition reader_and_writer :: "nat ipc_event list" where
  "reader_and_writer =
     [Call Writable JNull 0 (WriteBuffer 1 (two_by_one 7 8)), Call Writable JNull 1 (ReadBuffer 1 (two_by_one 0 0)), Lock 0, CopyRow 0, CopyRow 0,
      Unlock 0, Lock 1, CopyRow 1, CopyRow 1, Unlock 1, Call Writable JNull 2 (WriteBuffer 2 (two_by_one 5 5))]"

lemmas ipc_eval = reader_and_writer_def two_by_one_def initialize_memory_def call_buffer_def call_violation_def admitted_def
  acquire_lock_def copy_channel_def release_lock_def trigger_sigsegv_def append_entry_def numeral_2_eq_2

text \<open>Where there is no \<^verbatim>\<open>fcntl\<close> nothing keeps the reader out, and it gets a row of each block.\<close>

definition torn_schedule :: "nat ipc_event list" where
  "torn_schedule =
     [Call Writable JNull 0 (WriteBuffer 1 (two_by_one 7 8)), Call Writable JNull 1 (ReadBuffer 1 (two_by_one 0 0)), Lock 0, Lock 1, CopyRow 0,
      CopyRow 1, CopyRow 1, Unlock 1, CopyRow 0, Unlock 0]"

lemma unlocked_reader_torn:
  "\<exists>s. ipc_run False torn_schedule (initialize_memory 0 2 1 []) = Some ([GotRows 1 [[7], [0]], Wrote 1 [[7], [8]]], s)"
  "ipc_run True torn_schedule (initialize_memory 0 2 1 []) = None"
  by (simp_all add: torn_schedule_def ipc_eval)

text \<open>
  C10: the lock makes the rings atomic. Where \<^verbatim>\<open>fcntl\<close> exists, however the calls of any number of processes interleave,
  every block a process gets is exactly the last block some process finished writing to that ring (or the zeros it was
  created with), never a mixture, and while nobody holds the lock the memory is that block; a caller with a bad index or
  a payload of the wrong shape never changes it. Where it does not exist, calls of the same kind have a schedule in which
  a reader gets one row of the new block and one of the old.
\<close>
theorem ipc_rings_atomic:
  assumes "list_all sound_event es" and "ipc_run True es (initialize_memory zero channels chunk ledger) = Some (cs, s)"
  shows "(\<exists>m. atomic_rings cs (replicate 2 (replicate channels (replicate chunk zero))) = Some m \<and> (ip_lock s = None \<longrightarrow> ip_rings s = m)) \<and>
    list_all sound_event torn_schedule \<and>
    (\<exists>s'. ipc_run False torn_schedule (initialize_memory 0 2 1 []) = Some ([GotRows 1 [[7], [0]], Wrote 1 [[7], [8]]], s') \<and>
      atomic_rings [GotRows 1 [[7 :: nat], [0]], Wrote 1 [[7], [8]]] (replicate 2 (replicate 2 (replicate 1 0))) = None)"
proof -
  have "stands_for (initialize_memory zero channels chunk ledger) (replicate 2 (replicate channels (replicate chunk zero)))"
    by (simp add: stands_for_def initialize_memory_def)
  from run_stands_for [OF this assms] obtain m
    where "atomic_rings cs (replicate 2 (replicate channels (replicate chunk zero))) = Some m" "stands_for s m" by blast
  moreover have "list_all sound_event torn_schedule" by (simp add: torn_schedule_def two_by_one_def nd_ok_def)
  moreover have "atomic_rings [GotRows 1 [[7 :: nat], [0]], Wrote 1 [[7], [8]]] (replicate 2 (replicate 2 (replicate 1 0))) = None"
    by (simp add: numeral_2_eq_2)
  moreover have "ip_lock s = None \<longrightarrow> ip_rings s = m" using stands_for_facts(5) [OF \<open>stands_for s m\<close>] by (rule impI)
  ultimately show ?thesis using unlocked_reader_torn(1) by (simp only: simp_thms) (rule exI [of _ m], simp only: simp_thms)
qed

theorem ipc_rings_atomic_witness:
  "\<exists>s m. ipc_run True reader_and_writer (initialize_memory 0 2 1 []) = Some ([Wrote 1 [[7], [8]], GotRows 1 [[7], [8]]], s) \<and>
     ip_rings s = [[[0], [0]], [[7], [8]]] \<and> length (ip_ledger s) = 1 \<and> ip_rings s = m"
proof -
  obtain s where run: "ipc_run True reader_and_writer (initialize_memory 0 2 1 []) = Some ([Wrote 1 [[7], [8]], GotRows 1 [[7], [8]]], s)"
    and len: "length (ip_ledger s) = 1" and unlocked: "ip_lock s = None"
    by (simp add: ipc_eval)
  have "list_all sound_event reader_and_writer" by (simp add: reader_and_writer_def two_by_one_def nd_ok_def)
  from ipc_rings_atomic [OF this run, THEN conjunct1] unlocked have "ip_rings s = [[[0], [0]], [[7], [8]]]" by (simp add: numeral_2_eq_2)
  with run len show ?thesis by blast
qed

section \<open>A violation\<close>

lemma line_items_snoc: "line_items (f @ [Doc d]) = seqE (line_items f) (\<lambda>ds. Ok (ds @ [d]))"
  by (induction f rule: line_items.induct) auto

lemma unsealed_entry_fails:
  assumes "m ''hash'' = None"
  shows "\<exists>e. verify_chain digest (append_entry f m) = Fail e"
proof -
  have last_fails: "\<exists>e. sweep digest first prev [Rec m] = Fail e" for first prev
    using assms by (cases "\<not> first \<and> field m ''previous_hash'' ZERO \<noteq> prev") (auto simp: Let_def field_def fun_upd_idem)
  show ?thesis
  proof (cases "nonblank f = []")
    case True
    then have "load_whole (append_entry f m) = Some (Doc (Rec m))" by (auto simp: append_entry_def load_whole_def nonblank_def)
    moreover have "nonblank (append_entry f m) \<noteq> []" by (simp add: append_entry_def nonblank_def)
    ultimately show ?thesis using last_fails [of True ZERO] by (simp add: verify_chain_def ledger_records_def del: sweep.simps)
  next
    case False
    then have "load_whole (append_entry f m) = None"
      by (auto simp: append_entry_def load_whole_def nonblank_def split: list.splits line.splits)
    moreover have "nonblank (append_entry f m) \<noteq> []" by (simp add: append_entry_def nonblank_def)
    ultimately have "verify_chain digest (append_entry f m) = seqE (line_items (append_entry f m)) (sweep digest True ZERO)"
      by (simp add: verify_chain_def ledger_records_def)
    also have "\<dots> = seqE (line_items f) (\<lambda>ds. sweep digest True ZERO (ds @ [Rec m]))"
      by (simp add: append_entry_def line_items_snoc)
    finally show ?thesis
      using last_fails by (cases "line_items f"; cases "sweep digest True ZERO (projr (line_items f))") (auto simp: sweep_append)
  qed
qed

text \<open>
  a call that breaks the bounds is contained and recorded, and the record spoils the chain. The caller is
  killed with its lock state untouched, the shared memory and every other process are as they were, and one entry
  is appended to the incident ledger when it can be opened; but that entry carries no hash, so from then on the chain
  verification of the ledger fails, whatever it held.
\<close>
theorem violation_spoils_ledger:
  assumes "ip_pc s p = Outside" and "call_violation (ip_channels s) (ip_chunk s) c = Some reason" and "ip_lock s \<noteq> Some p"
  shows "\<exists>s'. call_buffer Writable now p c s = Some s' \<and> ip_rings s' = ip_rings s \<and> ip_lock s' = ip_lock s \<and>
      ip_pc s' = (ip_pc s)(p := Killed) \<and> length (ip_ledger s') = Suc (length (ip_ledger s)) \<and>
      (\<exists>e. verify_chain digest (ip_ledger s') = Fail e)"
proof -
  have "\<exists>e. verify_chain digest (append_entry (ip_ledger s) (segv_entry now reason)) = Fail e"
    by (rule unsealed_entry_fails) (simp add: segv_entry_def)
  with assms show ?thesis
    by (simp add: call_buffer_def trigger_sigsegv_def append_entry_def)
qed

theorem violation_spoils_ledger_witness:
  "\<exists>s'. call_buffer Writable JNull 3 (WriteBuffer 2 (two_by_one 1 1)) (initialize_memory 0 2 1 []) = Some s' \<and>
     ip_rings s' = [[[0], [0]], [[0], [0]]] \<and> (\<exists>e. verify_chain (\<lambda>_. ''d'') (ip_ledger s') = Fail e)"
  using violation_spoils_ledger [of "initialize_memory (0::nat) 2 1 []" 3 "WriteBuffer 2 (two_by_one 1 1)" "''Invalid Ring Buffer Index Request''" JNull "\<lambda>_. ''d''"]
  by (auto simp: initialize_memory_def call_violation_def numeral_2_eq_2)

section \<open>Peers' covariances\<close>

text \<open>The layout \<^verbatim>\<open>_pack_ = 8\<close> gives the structure: the identifier, four bytes of padding, the time and 32 floats\<close>

definition block_size :: nat where "block_size = 4 + 4 + 8 + 4 * 32"

definition peer_slots :: nat where "peer_slots = 16"

record peer_pool =
  pp_pool :: "byte list list"
  pp_rx_buffer :: "byte list"
  pp_waiting :: "byte list list"
  pp_switches :: nat

definition pool_init :: "peer_pool" where
  "pool_init = \<lparr>pp_pool = replicate peer_slots (replicate block_size 0), pp_rx_buffer = replicate 256 0, pp_waiting = [], pp_switches = 0\<rparr>"

text \<open>\<^verbatim>\<open>recvfrom_into\<close> with room for 256 bytes: what does not fit is lost.\<close>

definition recvfrom_into :: "byte list \<Rightarrow> byte list \<Rightarrow> nat \<times> byte list" where
  "recvfrom_into datagram buf = (let got = take 256 datagram in (length got, got @ drop (length got) buf))"

definition ingest_asynchronous_stream :: "peer_pool \<Rightarrow> peer_pool" where
  "ingest_asynchronous_stream t =
     (case pp_waiting t of
        [] \<Rightarrow> t\<lparr>pp_switches := Suc (pp_switches t)\<rparr>
      | datagram # rest \<Rightarrow>
          let (bytes_rx, buf) = recvfrom_into datagram (pp_rx_buffer t);
              peer_id = le_val (take 4 buf);
              pool = (if bytes_rx = block_size \<and> peer_id < peer_slots then (pp_pool t)[peer_id := take bytes_rx buf] else pp_pool t)
          in t\<lparr>pp_pool := pool, pp_rx_buffer := buf, pp_waiting := rest, pp_switches := Suc (pp_switches t)\<rparr>)"

text \<open>A row of four samples of eight bytes each\<close>

definition matrix_at :: "byte list \<Rightarrow> byte list list list" where
  "matrix_at block = map (\<lambda>i. map (\<lambda>j. take 8 (drop (16 + 8 * (4 * i + j)) block)) [0..<4]) [0..<4]"

definition retrieve_peer_matrix :: "int \<Rightarrow> peer_pool \<Rightarrow> byte list list list option" where
  "retrieve_peer_matrix peer_id t = (if 0 \<le> peer_id \<and> peer_id < int peer_slots then Some (matrix_at (pp_pool t ! nat peer_id)) else None)"

text \<open>What a sender puts on the wire\<close>

definition covariance_block :: "nat \<Rightarrow> byte list \<Rightarrow> byte list \<Rightarrow> byte list list list \<Rightarrow> byte list" where
  "covariance_block node pad time m = le_bytes 4 node @ pad @ time @ concat (concat m)"

definition datagram_arrives :: "byte list \<Rightarrow> peer_pool \<Rightarrow> peer_pool" where
  "datagram_arrives d t = ingest_asynchronous_stream (t\<lparr>pp_waiting := pp_waiting t @ [d]\<rparr>)"

definition accepted :: "byte list \<Rightarrow> bool" where
  "accepted d \<longleftrightarrow> length d = block_size \<and> le_val (take 4 d) < peer_slots"

lemma datagram_pool:
  assumes "pp_waiting t = []" "length (pp_rx_buffer t) = 256"
  shows "pp_pool (datagram_arrives d t) = (if accepted d then (pp_pool t)[le_val (take 4 d) := d] else pp_pool t)"
    and "pp_waiting (datagram_arrives d t) = []" and "length (pp_rx_buffer (datagram_arrives d t)) = 256"
proof -
  have "take 4 (take 256 d @ drop (length (take 256 d)) (pp_rx_buffer t)) = take 4 d" if "length d = block_size"
    using that by (simp add: block_size_def)
  moreover have "length (take 256 d) = block_size \<longleftrightarrow> length d = block_size" by (auto simp: block_size_def)
  moreover have "take block_size (take 256 d @ drop (length (take 256 d)) (pp_rx_buffer t)) = d" if "length d = block_size"
    using that by (simp add: block_size_def)
  ultimately show "pp_pool (datagram_arrives d t) = (if accepted d then (pp_pool t)[le_val (take 4 d) := d] else pp_pool t)"
    by (auto simp: datagram_arrives_def ingest_asynchronous_stream_def recvfrom_into_def Let_def accepted_def assms(1))
  show "pp_waiting (datagram_arrives d t) = []" "length (pp_rx_buffer (datagram_arrives d t)) = 256"
    using assms by (simp_all add: datagram_arrives_def ingest_asynchronous_stream_def recvfrom_into_def Let_def)
qed

text \<open>The last accepted datagram that names a slot\<close>

definition latest_for :: "nat \<Rightarrow> byte list list \<Rightarrow> byte list" where
  "latest_for i ds = foldl (\<lambda>b d. if accepted d \<and> le_val (take 4 d) = i then d else b) (replicate block_size 0) ds"

lemma arrivals_pool:
  "pp_waiting (fold datagram_arrives ds pool_init) = [] \<and> length (pp_rx_buffer (fold datagram_arrives ds pool_init)) = 256 \<and>
   pp_pool (fold datagram_arrives ds pool_init) = map (\<lambda>i. latest_for i ds) [0..<peer_slots]"
proof (induction ds rule: rev_induct)
  case Nil
  show ?case by (simp add: pool_init_def latest_for_def map_replicate_const)
next
  case (snoc d ds)
  let ?t = "fold datagram_arrives ds pool_init"
  have step: "latest_for i (ds @ [d]) = (if accepted d \<and> le_val (take 4 d) = i then d else latest_for i ds)" for i
    by (simp add: latest_for_def)
  have "pp_pool (datagram_arrives d ?t) = map (\<lambda>i. latest_for i (ds @ [d])) [0..<peer_slots]"
    using snoc datagram_pool(1) [of ?t d] by (auto simp: step intro!: nth_equalityI simp: nth_list_update)
  with snoc datagram_pool(2,3) [of ?t d] show ?case by simp
qed

lemma latest_for_later:
  "list_all (\<lambda>d. \<not> (accepted d \<and> le_val (take 4 d) = i)) ds \<Longrightarrow>
   foldl (\<lambda>b d. if accepted d \<and> le_val (take 4 d) = i then d else b) b ds = b"
  by (induction ds arbitrary: b) auto

lemma take_chunk:
  "list_all (\<lambda>x. length x = n) xs \<Longrightarrow> i < length xs \<Longrightarrow> take n (drop (n * i) (concat xs)) = xs ! i"
proof (induction xs arbitrary: i)
  case (Cons x xs)
  then show ?case by (cases i) auto
qed simp

lemma length_concat_const: "list_all (\<lambda>x. length x = n) xs \<Longrightarrow> length (concat xs) = n * length xs"
  by (induction xs) auto

definition matrix_shaped :: "byte list list list \<Rightarrow> bool" where
  "matrix_shaped m \<longleftrightarrow> length m = 4 \<and> list_all (\<lambda>row. length row = 4 \<and> list_all (\<lambda>x. length x = 8) row) m"

lemma matrix_at_block:
  assumes "matrix_shaped m" "length pad = 4" "length time = 8"
  shows "matrix_at (covariance_block node pad time m) = m" and "length (covariance_block node pad time m) = block_size"
proof -
  have rows: "length m = 4" "list_all (\<lambda>row. length row = 4) m" "list_all (\<lambda>x. length x = 8) (concat m)"
    using assms(1) by (auto simp: matrix_shaped_def list_all_iff)
  have len: "length (concat m) = 16" using length_concat_const [OF rows(2)] rows(1) by simp
  have size: "length (concat (concat m)) = 128" using length_concat_const [OF rows(3)] len by simp
  have cell: "take 8 (drop (16 + 8 * (4 * i + j)) (covariance_block node pad time m)) = m ! i ! j" if "i < 4" "j < 4" for i j
  proof -
    have "take 8 (drop (16 + 8 * (4 * i + j)) (covariance_block node pad time m)) = take 8 (drop (8 * (4 * i + j)) (concat (concat m)))"
      using assms(2,3) by (simp add: covariance_block_def)
    also have "\<dots> = concat m ! (4 * i + j)" by (rule take_chunk [OF rows(3)]) (use that len in simp)
    also have "\<dots> = take 4 (drop (4 * i) (concat m)) ! j" using that len by (simp add: nth_take)
    also have "take 4 (drop (4 * i) (concat m)) = m ! i" using take_chunk [OF rows(2)] that rows(1) by simp
    finally show ?thesis .
  qed
  show "matrix_at (covariance_block node pad time m) = m"
  proof (rule nth_equalityI)
    show "length (matrix_at (covariance_block node pad time m)) = length m" by (simp add: matrix_at_def rows(1))
    fix i assume "i < length (matrix_at (covariance_block node pad time m))"
    then have i: "i < 4" by (simp add: matrix_at_def)
    then have "length (m ! i) = 4" using rows(1,2) by (simp add: list_all_length)
    moreover have "matrix_at (covariance_block node pad time m) ! i = map (\<lambda>j. m ! i ! j) [0..<4]"
      using i cell [OF i] by (simp add: matrix_at_def nth_map del: upt_Suc upt_rec_numeral)
    ultimately show "matrix_at (covariance_block node pad time m) ! i = m ! i" using map_nth [of "m ! i"] by simp
  qed
  show "length (covariance_block node pad time m) = block_size" using assms(2,3) size by (simp add: covariance_block_def block_size_def)
qed

text \<open>
  C22: a covariance sent is the covariance retrieved. A block with a slot's number that arrives, whatever came before it
  (datagrams of any length and content), is what the retrieval for that number returns, sample for sample, until the
  next full-sized datagram that names the same slot; nothing else changes it. Nothing ties the number to the sender.
\<close>
theorem peer_matrix_roundtrip:
  assumes "node < peer_slots" "matrix_shaped m" "length pad = 4" "length time = 8"
    and "list_all (\<lambda>d. \<not> (accepted d \<and> le_val (take 4 d) = node)) later"
  shows "retrieve_peer_matrix (int node) (fold datagram_arrives (before @ [covariance_block node pad time m] @ later) pool_init) = Some m"
proof -
  let ?d = "covariance_block node pad time m"
  have "le_val (take 4 ?d) = node" using assms(1) le_val_le_bytes [of node 4] by (simp add: covariance_block_def peer_slots_def)
  moreover from this have "accepted ?d" using matrix_at_block(2) [OF assms(2-4)] assms(1) by (simp add: accepted_def)
  ultimately have "latest_for node (before @ [?d] @ later) = ?d" using latest_for_later [OF assms(5)] by (simp add: latest_for_def)
  with assms(1) show ?thesis
    using arrivals_pool [of "before @ [?d] @ later"] matrix_at_block(1) [OF assms(2-4), of node] by (simp add: retrieve_peer_matrix_def)
qed

theorem peer_matrix_roundtrip_witness:
  "retrieve_peer_matrix 3 (fold datagram_arrives ([[1, 2, 3]] @ [covariance_block 3 (replicate 4 0) (replicate 8 9) (replicate 4 (replicate 4 (replicate 8 5)))] @
     [replicate 140 3]) pool_init) = Some (replicate 4 (replicate 4 (replicate 8 5)))"
  using peer_matrix_roundtrip [of 3 "replicate 4 (replicate 4 (replicate 8 5))" "replicate 4 0" "replicate 8 9" "[replicate 140 3]" "[[1, 2, 3]]"]
  by (simp add: matrix_shaped_def peer_slots_def accepted_def block_size_def list_all_iff)

lemma packed_block_dropped: "length d = 140 \<Longrightarrow> \<not> accepted d"
  by (simp add: accepted_def block_size_def)

section \<open>The device's buffer\<close>

record 'a bar =
  ready_flag :: nat
  dma_sequence :: nat
  raw_adc :: "'a list"

definition flat_index :: "nat \<Rightarrow> nat \<Rightarrow> nat \<Rightarrow> nat" where
  "flat_index channels c s = s * channels + c"

text \<open>The transposed view: it has no data of its own, and reads the memory it is given.\<close>

definition planar_view :: "nat \<Rightarrow> nat \<Rightarrow> 'a bar \<Rightarrow> 'a list list" where
  "planar_view channels stride_len b = map (\<lambda>c. map (\<lambda>s. raw_adc b ! flat_index channels c s) [0..<stride_len]) [0..<channels]"

text \<open>The device as the poller sees it: the memory at each of its reads of the flag\<close>

partial_function (option) acquire_memory_fence :: "(nat \<Rightarrow> 'a bar) \<Rightarrow> nat \<Rightarrow> nat option" where
  "acquire_memory_fence device t = (if ready_flag (device t) = 0 then acquire_memory_fence device (Suc t) else Some t)"

definition release_memory_fence :: "'a bar \<Rightarrow> 'a bar" where
  "release_memory_fence b = b\<lparr>ready_flag := 0\<rparr>"

text \<open>The memory the consumer leaves behind; the view it returns is of that memory from then on.\<close>

definition hil_ingest_stride :: "(nat \<Rightarrow> 'a bar) \<Rightarrow> nat \<Rightarrow> 'a bar option" where
  "hil_ingest_stride device t = map_option (\<lambda>t'. release_memory_fence (device t')) (acquire_memory_fence device t)"

text \<open>A device that keeps to the flag: it writes samples, and raises the flag, only while the flag is down.\<close>

datatype 'a dma = DmaSample nat 'a | DmaDone

fun dma_step :: "'a dma \<Rightarrow> 'a bar \<Rightarrow> 'a bar" where
  "dma_step (DmaSample i v) b = (if ready_flag b = 0 then b\<lparr>raw_adc := (raw_adc b)[i := v]\<rparr> else b)"
| "dma_step DmaDone b = (if ready_flag b = 0 then b\<lparr>ready_flag := 1, dma_sequence := Suc (dma_sequence b)\<rparr> else b)"

definition interleaved :: "nat \<Rightarrow> nat \<Rightarrow> 'a list list \<Rightarrow> 'a list" where
  "interleaved channels stride_len m = map (\<lambda>i. m ! (i mod channels) ! (i div channels)) [0..<stride_len * channels]"

lemma planar_interleaved:
  assumes "length m = channels" "\<And>row. row \<in> set m \<Longrightarrow> length row = stride_len" "raw_adc b = interleaved channels stride_len m"
  shows "planar_view channels stride_len b = m"
proof (rule nth_equalityI)
  show "length (planar_view channels stride_len b) = length m" by (simp add: planar_view_def assms(1))
  fix c assume "c < length (planar_view channels stride_len b)"
  then have c: "c < channels" by (simp add: planar_view_def)
  have "flat_index channels c s < stride_len * channels" if "s < stride_len" for s
    using mult_le_mono1 [of "Suc s" stride_len channels] c that by (simp add: flat_index_def)
  moreover have "flat_index channels c s mod channels = c" "flat_index channels c s div channels = s" for s
    using c by (simp_all add: flat_index_def)
  ultimately have "planar_view channels stride_len b ! c = map (\<lambda>s. m ! c ! s) [0..<stride_len]"
    using c by (simp add: planar_view_def assms(3) interleaved_def)
  also have "\<dots> = m ! c" using assms(1,2) c map_nth [of "m ! c"] by simp
  finally show "planar_view channels stride_len b ! c = m ! c" .
qed

lemma fence_waits:
  "\<forall>i. t \<le> i \<and> i < n \<longrightarrow> ready_flag (device i) = 0 \<Longrightarrow> ready_flag (device n) \<noteq> 0 \<Longrightarrow> t \<le> n \<Longrightarrow> acquire_memory_fence device t = Some n"
proof (induction "n - t" arbitrary: t)
  case 0
  then show ?case by (simp add: acquire_memory_fence.simps [of device t])
next
  case (Suc k)
  then show ?case by (subst acquire_memory_fence.simps) auto
qed

text \<open>
  a stride comes back in the consumer's layout. When the flag first goes up at some later poll the wait ends
  there, and if the device has by then stored a stride channel by channel within each sample, the view the consumer
  gets is that stride, one row per channel, in the memory as it is at that moment.
\<close>
theorem stride_ingested:
  assumes "ready_flag (device n) \<noteq> 0" and "t \<le> n" and "\<forall>i. t \<le> i \<and> i < n \<longrightarrow> ready_flag (device i) = 0"
    and "raw_adc (device n) = interleaved channels stride_len m" and "length m = channels" and "\<forall>row \<in> set m. length row = stride_len"
  shows "\<exists>b. hil_ingest_stride device t = Some b \<and> ready_flag b = 0 \<and> planar_view channels stride_len b = m"
  using fence_waits [OF assms(3,1,2)] planar_interleaved [of m channels stride_len "release_memory_fence (device n)"] assms(4-6)
  by (simp add: hil_ingest_stride_def release_memory_fence_def)

definition late_device :: "nat \<Rightarrow> nat bar" where
  "late_device t = (if t < 2 then \<lparr>ready_flag = 0, dma_sequence = 0, raw_adc = [0, 0, 0, 0]\<rparr>
     else \<lparr>ready_flag = 1, dma_sequence = 1, raw_adc = [1, 3, 2, 4]\<rparr>)"

theorem stride_ingested_witness:
  "\<exists>b. hil_ingest_stride late_device 0 = Some b \<and> ready_flag b = 0 \<and> planar_view 2 2 b = [[1, 2], [3, 4]]"
  using stride_ingested [of late_device 2 0 2 2 "[[1, 2], [3, 4]]"]
  by (simp add: late_device_def interleaved_def upt_rec)

lemma fence_result: "acquire_memory_fence device t = Some n \<Longrightarrow> ready_flag (device n) \<noteq> 0"
  by (rule acquire_memory_fence.raw_induct [of "\<lambda>device t n. ready_flag (device n) \<noteq> 0"]) (auto split: if_splits)

lemma fence_never: "\<forall>i. ready_flag (device i) = 0 \<Longrightarrow> acquire_memory_fence device t = None"
  using fence_result [of device t] by (cases "acquire_memory_fence device t") auto

text \<open>
  the flag is released before the stride is read, so the stride is not the consumer's. On what an ingestion leaves,
  a device that keeps to the flag may store its next sample at once, and the view already handed out shows it.
\<close>
theorem returned_view_overwritten:
  assumes "hil_ingest_stride device t = Some b" and "c < channels" "s < stride_len" and "length (raw_adc b) = stride_len * channels"
  shows "planar_view channels stride_len (dma_step (DmaSample (flat_index channels c s) v) b) ! c ! s = v"
proof -
  have "ready_flag b = 0" using assms(1) by (auto simp: hil_ingest_stride_def release_memory_fence_def)
  moreover have "flat_index channels c s < stride_len * channels"
    using mult_le_mono1 [of "Suc s" stride_len channels] assms(2,3) by (simp add: flat_index_def)
  ultimately show ?thesis using assms(2-4) by (simp add: planar_view_def)
qed

theorem returned_view_overwritten_witness:
  "\<exists>b. hil_ingest_stride late_device 0 = Some b \<and> planar_view 2 2 b = [[1, 2], [3, 4]] \<and>
     planar_view 2 2 (dma_step (DmaSample (flat_index 2 0 1) 9) b) ! 0 ! 1 = 9"
proof -
  have fence: "acquire_memory_fence late_device 0 = Some 2" by (rule fence_waits) (auto simp: late_device_def)
  then have b: "hil_ingest_stride late_device 0 = Some (release_memory_fence (late_device 2))" by (simp add: hil_ingest_stride_def)
  from returned_view_overwritten [OF b, of 0 2 1 2 9] b show ?thesis
    by (simp add: release_memory_fence_def late_device_def planar_view_def flat_index_def upt_rec)
qed

end
