(* ===== verification/Harness_Pipeline.thy ===== *)
theory Harness_Pipeline
  imports Array_Calibration Rff_Features Inference_Engine Shared_Memory
begin

text \<open>
  The workers of \<^verbatim>\<open>spatial_hardware_harness.py\<close>: blocks leave the ingestion queue, are calibrated
  (\<^verbatim>\<open>array_calibration_engine.py\<close>), tested (\<^verbatim>\<open>spatial_glrt_detector.py\<close>), described
  (\<^verbatim>\<open>rff_feature_extractor.py\<close>) and judged (\<^verbatim>\<open>edge_inference_engine.py\<close>); incidents go through the log queue to
  \<^verbatim>\<open>write_certin_compliance_log\<close> of \<^verbatim>\<open>rf_threat_simulator.py\<close>. A worker's turn is two steps, taking a block and finishing
  it; between them any other thread may run. The libraries' routines are collected in one record.
\<close>

section \<open>A block\<close>

datatype harness_payload = LiveBlock "complex list list" real | SynthBlock "complex list list" string real

record libraries =
  lib_eigvec :: "cmat \<Rightarrow> nat \<Rightarrow> complex"
  lib_sign :: "complex \<Rightarrow> complex"
  lib_eigvalsh :: "cmat \<Rightarrow> real list"
  lib_not_finite :: "complex option list list \<Rightarrow> fault + glrt_report"
  lib_unwrap :: "real list \<Rightarrow> real list"
  lib_fit :: "real list \<Rightarrow> real list \<Rightarrow> real \<times> real"
  lib_welch :: "real \<Rightarrow> nat \<Rightarrow> complex list \<Rightarrow> real list"
  lib_round :: "real \<Rightarrow> nat \<Rightarrow> real"

definition unpack :: "harness_payload \<Rightarrow> complex list list \<times> string" where
  "unpack p = (case p of LiveBlock b t \<Rightarrow> (b, ''live'') | SynthBlock b sc t \<Rightarrow> (b, sc))"

definition attenuate :: "real \<Rightarrow> complex list list \<Rightarrow> complex list list" where
  "attenuate current_atten b = (if 0 < current_atten then map (map (\<lambda>z. z * complex_of_real (10 powr (- current_atten / 20)))) b else b)"

text \<open>The columns of one snapshot_window, and the test on it; a covariance that is not finite is left to the library.\<close>

definition snapshot_window :: "nat \<Rightarrow> nat \<Rightarrow> 'a list list \<Rightarrow> 'a list list" where
  "snapshot_window start n Y = map (\<lambda>row. take n (drop start row)) Y"

definition test_window :: "libraries \<Rightarrow> glrt_detector \<Rightarrow> complex option list list \<Rightarrow> fault + glrt_report" where
  "test_window lib d Y =
     (if \<forall>row \<in> set Y. None \<notin> set row then evaluate (lib_eigvalsh lib) d (map (map the) Y) else lib_not_finite lib Y)"

definition scan_windows :: "libraries \<Rightarrow> glrt_detector \<Rightarrow> nat \<Rightarrow> complex option list list \<Rightarrow> fault + glrt_report list" where
  "scan_windows lib d chunk_size Y =
     mapE (\<lambda>idx. test_window lib d (snapshot_window (idx * gd_N d) (gd_N d) Y)) [0..<chunk_size div gd_N d]"

text \<open>The running maxima start at 0.\<close>

definition running_max :: "real list \<Rightarrow> real" where
  "running_max xs = foldl max 0 xs"

record block_outcome =
  bo_scenario :: string
  bo_stat :: real
  bo_metr :: real
  bo_lambda :: real
  bo_h1 :: bool
  bo_cfo :: real
  bo_beta :: real
  bo_power_db :: real
  bo_verdict :: string
  bo_probability :: real

definition fingerprint_of :: "rff_features \<Rightarrow> fingerprint" where
  "fingerprint_of f =
     \<lparr>fp_get = [''cfo_hz'' \<mapsto> rf_cfo_hz f, ''phase_noise_std_rad'' \<mapsto> rf_phase_noise f, ''iq_amp_imbalance_db'' \<mapsto> rf_iq_amp f,
        ''iq_phase_imbalance_deg'' \<mapsto> rf_iq_phase f, ''spectral_flatness'' \<mapsto> rf_flatness f,
        ''spectral_peak_prominence_db'' \<mapsto> rf_prominence f], fp_rff = None\<rparr>"

text \<open>What the fast path reports instead of measuring\<close>

definition nominal_features :: rff_features where
  "nominal_features = \<lparr>rf_cfo_hz = 5, rf_iq_amp = 5 / 100, rf_iq_phase = 1 / 2, rf_phase_noise = 2 / 100, rf_flatness = 3 / 10, rf_prominence = 415 / 10\<rparr>"

definition finite_row :: "complex option list \<Rightarrow> complex list" where
  "finite_row row = map the row"

definition mean_power :: "complex list \<Rightarrow> real" where
  "mean_power row = sum_list (map (\<lambda>z. (cmod z)\<^sup>2) row) / length row"

definition circularity :: "complex list \<Rightarrow> real" where
  "circularity row =
     (let x_norm = map (\<lambda>z. z / complex_of_real (sqrt (mean_power row) + 1 / 10 ^ 12)) row
      in 1 - (cmod (sum_list (map (\<lambda>z. z\<^sup>2) x_norm) / of_nat (length row)))\<^sup>2)"

definition h1_triggered :: "glrt_report list \<Rightarrow> bool" where
  "h1_triggered reports \<longleftrightarrow> list_ex rp_alert reports \<or> list_ex (\<lambda>r. 1 / 2 < rp_metr r) reports"

text \<open>The tests of a block, with the first channel, whose factor is always 1\<close>

definition test_block :: "libraries \<Rightarrow> nat \<Rightarrow> glrt_detector \<Rightarrow> complex list list \<Rightarrow> calibrator \<Rightarrow> fault + (glrt_report list \<times> complex list)" where
  "test_block lib chunk_size detector iq cal =
     seqE (equalize chunk_size iq cal) (\<lambda>Y. seqE (scan_windows lib detector chunk_size Y) (\<lambda>reports.
       seqE (load Y 0) (\<lambda>row0. Ok (reports, finite_row row0))))"

definition judge_block :: "libraries \<Rightarrow> fallback_weights \<Rightarrow> session_run option \<Rightarrow> real \<Rightarrow> string \<Rightarrow> glrt_report list \<Rightarrow> complex list \<Rightarrow> fault + block_outcome" where
  "judge_block lib w session fs scenario reports ch0 =
     (let h1 = h1_triggered reports;
          beta = (if h1 then circularity ch0 else 99 / 100)
      in seqE (if h1 then rff_extract (lib_unwrap lib) (lib_fit lib) (lib_welch lib) fs ch0 else Ok nominal_features) (\<lambda>f.
         seqE (classify_fingerprint w session (fingerprint_of f)) (\<lambda>(verdict, probability).
           Ok \<lparr>bo_scenario = scenario, bo_stat = running_max (map rp_sphericity reports), bo_metr = running_max (map rp_metr reports),
               bo_lambda = running_max (map (\<lambda>r. last (rp_eigenvalues r)) reports), bo_h1 = h1, bo_cfo = rf_cfo_hz f, bo_beta = beta,
               bo_power_db = 10 * log 10 (mean_power ch0 + 1 / 10 ^ 12), bo_verdict = verdict, bo_probability = probability\<rparr>)))"

text \<open>The calibration it leaves, whether the fast path was counted, and what becomes of the block\<close>

definition process_block :: "libraries \<Rightarrow> fallback_weights \<Rightarrow> session_run option \<Rightarrow> real \<Rightarrow> nat \<Rightarrow> glrt_detector \<Rightarrow> real \<Rightarrow> harness_payload \<Rightarrow>
    calibrator \<Rightarrow> calibrator \<times> bool \<times> (fault + block_outcome)" where
  "process_block lib w session fs chunk_size detector current_atten payload cal =
     (let (raw, scenario) = unpack payload; iq = attenuate current_atten raw
      in case (if \<not> ca_calibrated cal then calibrate (lib_eigvec lib) (lib_sign lib) iq cal else Ok cal) of
           Fail e \<Rightarrow> (cal, False, Fail e)
         | Ok cal1 \<Rightarrow> (case test_block lib chunk_size detector iq cal1 of
               Fail e \<Rightarrow> (cal1, False, Fail e)
             | Ok (reports, ch0) \<Rightarrow> (cal1, \<not> h1_triggered reports, judge_block lib w session fs scenario reports ch0)))"

section \<open>The incident record\<close>

record log_item =
  li_scenario :: string
  li_features :: payload
  li_verdict :: string
  li_score :: real
  li_itu :: string
  li_glr_alert :: bool
  li_indicators :: json

definition log_item_of :: "real \<Rightarrow> json \<Rightarrow> block_outcome \<Rightarrow> log_item" where
  "log_item_of gamma indicators b =
     \<lparr>li_scenario = bo_scenario b,
      li_features = [''rms_power_db'' \<mapsto> JNum (bo_power_db b), ''glr_statistic'' \<mapsto> JNum (bo_stat b), ''glr_threshold'' \<mapsto> JNum gamma,
        ''beta'' \<mapsto> JNum (bo_beta b), ''rff'' \<mapsto> JObj [(''cfo'', JNum (bo_cfo b))]],
      li_verdict = bo_verdict b, li_score = bo_probability b * 100, li_itu = (if bo_verdict b \<noteq> ''NORMAL'' then ''VIOLATION'' else ''COMPLIANT''),
      li_glr_alert = bo_h1 b, li_indicators = indicators\<rparr>"

definition key_number :: "payload \<Rightarrow> string \<Rightarrow> fault + real" where
  "key_number m k = (case m k of None \<Rightarrow> Fail KeyError | Some (JNum x) \<Rightarrow> Ok x | Some _ \<Rightarrow> Fail TypeError)"

definition key_value :: "payload \<Rightarrow> string \<Rightarrow> fault + json" where
  "key_value m k = (case m k of None \<Rightarrow> Fail KeyError | Some v \<Rightarrow> Ok v)"

definition upper_char :: "char \<Rightarrow> char" where
  "upper_char c = (let n = of_char c :: nat in if 97 \<le> n \<and> n \<le> 122 then char_of (n - 32) else c)"

text \<open>The fields of the report, in the order the dictionary is built\<close>

definition certin_fields :: "(real \<Rightarrow> nat \<Rightarrow> real) \<Rightarrow> string \<Rightarrow> log_item \<Rightarrow> fault + certin_report" where
  "certin_fields py_round stamp i =
     seqE (key_number (li_features i) ''in_ratio_db'') (\<lambda>in_ratio.
     seqE (key_number (li_features i) ''spectral_flatness'') (\<lambda>flatness.
     seqE (key_number (li_features i) ''glr_statistic'') (\<lambda>glr.
     seqE (key_value (li_features i) ''rff'') (\<lambda>rff.
       Ok \<lparr>rep_timestamp = stamp, rep_scenario = map upper_char (li_scenario i), rep_itu = JStr (li_itu i), rep_glr_alert = li_glr_alert i,
           rep_verdict = li_verdict i, rep_score = JNum (li_score i),
           rep_telemetry = JObj [(''interference_to_noise_db'', JNum (py_round in_ratio 2)), (''spectral_flatness'', JNum (py_round flatness 4)),
             (''glr_path_statistic'', JNum (py_round glr 2)), (''rff_fingerprint'', rff)],
           rep_causes = li_indicators i\<rparr>))))"

definition write_compliance :: "(payload \<Rightarrow> string) \<Rightarrow> (real \<Rightarrow> nat \<Rightarrow> real) \<Rightarrow> string \<Rightarrow> log_item \<Rightarrow> ledger_file \<Rightarrow> fault + ledger_file" where
  "write_compliance digest py_round stamp i f =
     seqE (certin_fields py_round stamp i) (\<lambda>r. Ok (write_certin_log digest r f))"

section \<open>The threads\<close>

record pipeline =
  pl_running :: bool
  pl_iq :: "harness_payload list"
  pl_iq_unfinished :: nat
  pl_held :: "nat \<Rightarrow> (harness_payload \<times> real \<times> real) option"
  pl_log :: "log_item list"
  pl_log_unfinished :: nat
  pl_calibrator :: calibrator
  pl_processed :: nat
  pl_dropped :: nat
  pl_alerts :: nat
  pl_fast_hits :: nat
  pl_last_stat :: real
  pl_last_metr :: real
  pl_last_lambda :: real
  pl_last_verdict :: string
  pl_last_cfo :: real
  pl_latencies :: "real list"
  pl_inference :: "real list"
  pl_last_log_time :: real
  pl_gamma :: real
  pl_atten :: real
  pl_lockout :: bool
  pl_incident_ledger :: ledger_file
  pl_security_log :: ledger_file

definition pipeline_init :: "nat \<Rightarrow> ledger_file \<Rightarrow> ledger_file \<Rightarrow> pipeline" where
  "pipeline_init num_channels incidents security =
     \<lparr>pl_running = True, pl_iq = [], pl_iq_unfinished = 0, pl_held = (\<lambda>_. None), pl_log = [], pl_log_unfinished = 0,
      pl_calibrator = calibrator_init num_channels, pl_processed = 0, pl_dropped = 0, pl_alerts = 0, pl_fast_hits = 0,
      pl_last_stat = 0, pl_last_metr = 1 / 4, pl_last_lambda = 1, pl_last_verdict = ''NORMAL'', pl_last_cfo = 0, pl_latencies = [],
      pl_inference = [], pl_last_log_time = 0, pl_gamma = 5017 / 100, pl_atten = 0, pl_lockout = False,
      pl_incident_ledger = incidents, pl_security_log = security\<rparr>"

definition iq_bound :: nat where "iq_bound = 1000"
definition log_bound :: nat where "log_bound = 2000"

definition produce :: "harness_payload \<Rightarrow> pipeline \<Rightarrow> pipeline" where
  "produce p s = (if length (pl_iq s) < iq_bound
     then s\<lparr>pl_iq := pl_iq s @ [p], pl_iq_unfinished := Suc (pl_iq_unfinished s)\<rparr>
     else s\<lparr>pl_dropped := Suc (pl_dropped s)\<rparr>)"

text \<open>The settings are read before the block is taken.\<close>

definition take_block :: "nat \<Rightarrow> pipeline \<Rightarrow> pipeline" where
  "take_block w s =
     (if pl_held s w \<noteq> None \<or> pl_lockout s \<or> (\<not> pl_running s \<and> pl_iq s = []) then s
      else case pl_iq s of
          [] \<Rightarrow> s
        | p # q \<Rightarrow> s\<lparr>pl_iq := q, pl_held := (pl_held s)(w := Some (p, pl_gamma s, pl_atten s))\<rparr>)"

definition keep_thousand :: "real \<Rightarrow> real list \<Rightarrow> real list" where
  "keep_thousand x xs = (let ys = xs @ [x] in if 1000 < length ys then tl ys else ys)"

text \<open>An alert is logged half a second after the last one that was; a full log queue loses it.\<close>

definition log_alert :: "real \<Rightarrow> log_item \<Rightarrow> pipeline \<Rightarrow> pipeline" where
  "log_alert current_time item s =
     (if 1 / 2 \<le> current_time - pl_last_log_time s
      then let s1 = s\<lparr>pl_last_log_time := current_time\<rparr>
           in if length (pl_log s1) < log_bound
              then s1\<lparr>pl_log := pl_log s1 @ [item], pl_log_unfinished := Suc (pl_log_unfinished s1)\<rparr> else s1
      else s)"

definition commit_block :: "real \<Rightarrow> real \<Rightarrow> real \<Rightarrow> json \<Rightarrow> real \<Rightarrow> block_outcome \<Rightarrow> pipeline \<Rightarrow> pipeline" where
  "commit_block current_time latency infer indicators gamma b s =
     (let s2 = s\<lparr>pl_last_stat := bo_stat b, pl_last_metr := bo_metr b, pl_last_lambda := bo_lambda b, pl_last_verdict := bo_verdict b, pl_last_cfo := bo_cfo b\<rparr>;
          s3 = (if bo_h1 b then (log_alert current_time (log_item_of gamma indicators b) s2)\<lparr>pl_alerts := Suc (pl_alerts s2)\<rparr> else s2)
      in s3\<lparr>pl_latencies := keep_thousand latency (pl_latencies s3), pl_inference := keep_thousand infer (pl_inference s3),
            pl_processed := Suc (pl_processed s3)\<rparr>)"

text \<open>Readings of the clocks while a block is finished, and the text of the indicators\<close>

record readings =
  rd_time :: real
  rd_latency :: real
  rd_inference :: real
  rd_indicators :: json

record harness_setup =
  hs_lib :: libraries
  hs_weights :: fallback_weights
  hs_session :: "session_run option"
  hs_fs :: real
  hs_chunk :: nat
  hs_detector :: glrt_detector
  hs_digest :: "payload \<Rightarrow> string"

text \<open>Success or failure, the block counts as done; of a failed one at most the fast path is recorded.\<close>

definition finish_block :: "harness_setup \<Rightarrow> nat \<Rightarrow> readings \<Rightarrow> pipeline \<Rightarrow> pipeline" where
  "finish_block h w rd s =
     (case pl_held s w of
        None \<Rightarrow> s
      | Some (p, gamma, atten) \<Rightarrow>
          let (cal, fast, r) = process_block (hs_lib h) (hs_weights h) (hs_session h) (hs_fs h) (hs_chunk h) ((hs_detector h)\<lparr>gd_gamma := gamma\<rparr>)
                 atten p (pl_calibrator s);
              s1 = s\<lparr>pl_calibrator := cal, pl_fast_hits := pl_fast_hits s + (if fast then 1 else 0)\<rparr>;
              s2 = (case r of Fail _ \<Rightarrow> s1 | Ok b \<Rightarrow> commit_block (rd_time rd) (rd_latency rd) (rd_inference rd) (rd_indicators rd) gamma b s1)
          in s2\<lparr>pl_held := (pl_held s2)(w := None), pl_iq_unfinished := pl_iq_unfinished s2 - 1\<rparr>)"

text \<open>One turn of the logger: what the writer raises is swallowed, and the item is then never marked as done.\<close>

definition log_turn :: "harness_setup \<Rightarrow> string \<Rightarrow> pipeline \<Rightarrow> pipeline" where
  "log_turn h stamp s =
     (case pl_log s of
        [] \<Rightarrow> s
      | i # q \<Rightarrow> (case write_compliance (hs_digest h) (lib_round (hs_lib h)) stamp i (pl_security_log s) of
            Fail _ \<Rightarrow> s\<lparr>pl_log := q\<rparr>
          | Ok f \<Rightarrow> s\<lparr>pl_log := q, pl_security_log := f, pl_log_unfinished := pl_log_unfinished s - 1\<rparr>))"

text \<open>The queue is emptied behind its counter, and the incident file is opened for writing.\<close>

definition lockdown_entry :: "json \<Rightarrow> payload" where
  "lockdown_entry now = [''EMERGENCY_LOCKDOWN'' \<mapsto> JBool True, ''timestamp'' \<mapsto> now, ''reason'' \<mapsto> JStr ''ZERO_TRUST_LOCKOUT_TRIGGERED'']"

definition emergency_lockdown :: "json \<Rightarrow> pipeline \<Rightarrow> pipeline" where
  "emergency_lockdown now s = s\<lparr>pl_iq := [], pl_incident_ledger := [Doc (Rec (lockdown_entry now))]\<rparr>"

datatype harness_event =
    Produce harness_payload
  | TakeBlock nat
  | FinishBlock nat readings
  | LogTurn string
  | LockdownNow json
  | Configure real real bool
  | StopRunning

fun harness_step :: "harness_setup \<Rightarrow> harness_event \<Rightarrow> pipeline \<Rightarrow> pipeline" where
  "harness_step h (Produce p) s = produce p s"
| "harness_step h (TakeBlock w) s = take_block w s"
| "harness_step h (FinishBlock w rd) s = finish_block h w rd s"
| "harness_step h (LogTurn stamp) s = log_turn h stamp s"
| "harness_step h (LockdownNow now) s = emergency_lockdown now s"
| "harness_step h (Configure gamma atten lockout) s = s\<lparr>pl_gamma := gamma, pl_atten := atten, pl_lockout := lockout\<rparr>"
| "harness_step h StopRunning s = s\<lparr>pl_running := False\<rparr>"

definition harness_run :: "harness_setup \<Rightarrow> harness_event list \<Rightarrow> pipeline \<Rightarrow> pipeline" where
  "harness_run h es s = fold (harness_step h) es s"

text \<open>\<^verbatim>\<open>join\<close> on either queue returns when its count of unfinished tasks is zero.\<close>

definition joins :: "pipeline \<Rightarrow> bool \<times> bool" where
  "joins s = (pl_iq_unfinished s = 0, pl_log_unfinished s = 0)"

section \<open>No incident is ever written\<close>

lemma certin_fields_of_item: "certin_fields py_round stamp (log_item_of gamma indicators b) = Fail KeyError"
  by (simp add: certin_fields_def key_number_def log_item_of_def)

definition from_blocks :: "log_item list \<Rightarrow> bool" where
  "from_blocks is \<longleftrightarrow> (\<forall>i \<in> set is. \<exists>gamma ind b. i = log_item_of gamma ind b)"

lemma commit_block_frame:
  "pl_security_log (commit_block t l n ind g b s) = pl_security_log s" "pl_incident_ledger (commit_block t l n ind g b s) = pl_incident_ledger s"
  "pl_held (commit_block t l n ind g b s) = pl_held s" "pl_iq (commit_block t l n ind g b s) = pl_iq s"
  "pl_iq_unfinished (commit_block t l n ind g b s) = pl_iq_unfinished s"
  by (simp_all add: commit_block_def log_alert_def Let_def)

lemma commit_block_log:
  "(\<exists>is. pl_log (commit_block t l n ind g b s) = pl_log s @ is \<and> from_blocks is \<and>
     pl_log_unfinished (commit_block t l n ind g b s) = pl_log_unfinished s + length is)"
proof (cases "bo_h1 b \<and> 1 / 2 \<le> t - pl_last_log_time s \<and> length (pl_log s) < log_bound")
  case True
  then show ?thesis
    by (intro exI [of _ "[log_item_of g ind b]"]) (auto simp: commit_block_def log_alert_def Let_def from_blocks_def)
next
  case False
  then show ?thesis
    by (intro exI [of _ "[]"]) (auto simp: commit_block_def log_alert_def Let_def from_blocks_def)
qed

definition log_stuck :: "ledger_file \<Rightarrow> pipeline \<Rightarrow> bool" where
  "log_stuck f s \<longleftrightarrow> pl_security_log s = f \<and> from_blocks (pl_log s)"

lemma finish_log:
  assumes "log_stuck f s"
  shows "log_stuck f (finish_block h w rd s) \<and> pl_log_unfinished s \<le> pl_log_unfinished (finish_block h w rd s)"
proof (cases "pl_held s w")
  case None
  with assms show ?thesis by (simp add: finish_block_def)
next
  case (Some a)
  obtain p gamma atten where a: "a = (p, gamma, atten)" by (cases a)
  obtain cal fast r where r: "process_block (hs_lib h) (hs_weights h) (hs_session h) (hs_fs h) (hs_chunk h) ((hs_detector h)\<lparr>gd_gamma := gamma\<rparr>)
      atten p (pl_calibrator s) = (cal, fast, r)" by (metis prod_cases3)
  show ?thesis
  proof (cases r)
    case (Inl e)
    with Some assms show ?thesis by (simp add: finish_block_def a r log_stuck_def)
  next
    case (Inr b)
    with Some assms commit_block_log [of "rd_time rd" "rd_latency rd" "rd_inference rd" "rd_indicators rd" gamma b
        "s\<lparr>pl_calibrator := cal, pl_fast_hits := pl_fast_hits s + (if fast then 1 else 0)\<rparr>"]
    show ?thesis by (auto simp: finish_block_def a r log_stuck_def commit_block_frame from_blocks_def)
  qed
qed

lemma harness_step_log:
  assumes "log_stuck f s"
  shows "log_stuck f (harness_step h e s) \<and> pl_log_unfinished s \<le> pl_log_unfinished (harness_step h e s)"
proof (cases e)
  case (FinishBlock w rd)
  then show ?thesis using finish_log [OF assms] by simp
next
  case (LogTurn stamp)
  show ?thesis
  proof (cases "pl_log s")
    case Nil
    then show ?thesis using assms by (simp add: LogTurn log_turn_def)
  next
    case (Cons i q)
    then obtain gamma ind b where "i = log_item_of gamma ind b" using assms by (auto simp: log_stuck_def from_blocks_def)
    then show ?thesis using assms Cons
      by (simp add: LogTurn log_turn_def write_compliance_def certin_fields_of_item log_stuck_def from_blocks_def)
  qed
qed (use assms in \<open>auto simp: log_stuck_def produce_def take_block_def emergency_lockdown_def split: list.split\<close>)

lemma harness_run_log:
  "log_stuck f s \<Longrightarrow> log_stuck f (harness_run h es s) \<and> pl_log_unfinished s \<le> pl_log_unfinished (harness_run h es s)"
proof (induction es arbitrary: s)
  case (Cons e es)
  with harness_step_log [OF Cons.prems, of h e] Cons.IH [of "harness_step h e s"] show ?case
    by (simp add: harness_run_def) (meson order_trans)
qed (simp add: harness_run_def)

text \<open>
  C9: the harness never writes an incident. Whatever blocks arrive, however the threads interleave and whatever is
  configured, the security log stays as it was, since the features a worker queues lack two of the fields the log writer reads;
  the logger swallows that, and the count the final wait for the log queue watches never falls.
\<close>
theorem incidents_never_written:
  "pl_security_log (harness_run h (es @ later) (pipeline_init n incidents security)) = security \<and>
   pl_log_unfinished (harness_run h es (pipeline_init n incidents security)) \<le> pl_log_unfinished (harness_run h (es @ later) (pipeline_init n incidents security))"
proof -
  have "log_stuck security (pipeline_init n incidents security)" by (simp add: log_stuck_def pipeline_init_def from_blocks_def)
  from harness_run_log [OF this, of h es] have "log_stuck security (harness_run h es (pipeline_init n incidents security))" by simp
  from harness_run_log [OF this, of h later] show ?thesis by (simp add: log_stuck_def harness_run_def)
qed

text \<open>One antenna, one sample: the alert is counted, queued and never written.\<close>

definition one_antenna :: harness_setup where
  "one_antenna = \<lparr>hs_lib = \<lparr>lib_eigvec = \<lambda>R i. 1, lib_sign = sgn, lib_eigvalsh = \<lambda>R. [1], lib_not_finite = \<lambda>Y. Fail ValueError,
       lib_unwrap = id, lib_fit = \<lambda>_ _. (0, 0), lib_welch = \<lambda>_ _ _. [1], lib_round = \<lambda>x _. x\<rparr>,
     hs_weights = zero_weights, hs_session = None, hs_fs = 1, hs_chunk = 1,
     hs_detector = \<lparr>gd_M = 1, gd_N = 1, gd_p_fa = 0, gd_df = 0, gd_rho = 1, gd_gamma = 1\<rparr>, hs_digest = \<lambda>_. ''d''\<rparr>"

lemma one_antenna_alert:
  "\<exists>b. process_block (hs_lib one_antenna) zero_weights None 1 1 (hs_detector one_antenna\<lparr>gd_gamma := g\<rparr>) 0 (LiveBlock [[1]] 0) (calibrator_init 1) =
     (calibrator_init 1\<lparr>ca_calibrated := True\<rparr>, False, Ok b) \<and> bo_h1 b"
proof -
  have "weights_ok zero_weights" by (simp add: weights_ok_def zero_weights_def)
  note answers = fallback_answers [OF this refl]
  obtain r where r: "rff_extract id (\<lambda>_ _. (0, 0)) (\<lambda>_ _ _. [1]) 1 [1] = Ok r"
    by (cases "estimate_iq_imbalance [1]") (simp add: rff_extract_def calculate_spectral_metrics_def Let_def)
  obtain v p where "classify_fingerprint zero_weights None (fingerprint_of r) = Ok (v, p)" using answers by blast
  with r show ?thesis
    by (simp add: process_block_def one_antenna_def unpack_def attenuate_def calibrator_init_def calibrate_def Let_def correction_def equalize_def
      broadcast_to_def test_block_def judge_block_def h1_triggered_def scan_windows_def test_window_def snapshot_window_def evaluate_def compute_spatial_covariance_def load_def finite_row_def clip_ratio_def)
qed

lemma one_alert_waits_for_ever:
  assumes "s = harness_run one_antenna [Produce (LiveBlock [[1]] 0), TakeBlock 0, FinishBlock 0 \<lparr>rd_time = 1, rd_latency = 1, rd_inference = 1, rd_indicators = JNull\<rparr>]
    (pipeline_init 1 [] [])"
  shows "pl_alerts s = 1" "\<not> snd (joins (harness_run one_antenna later s))"
proof -
  obtain b where b: "process_block (hs_lib one_antenna) zero_weights None 1 1 (hs_detector one_antenna\<lparr>gd_gamma := 5017 / 100\<rparr>) 0 (LiveBlock [[1]] 0) (calibrator_init 1) =
     (calibrator_init 1\<lparr>ca_calibrated := True\<rparr>, False, Ok b)" "bo_h1 b"
    using one_antenna_alert by blast
  have "log_stuck [] (pipeline_init 1 [] [])" by (simp add: log_stuck_def pipeline_init_def from_blocks_def)
  then have stuck: "log_stuck [] s" unfolding assms by (rule harness_run_log [THEN conjunct1])
  have settings: "hs_weights one_antenna = zero_weights" "hs_session one_antenna = None" "hs_fs one_antenna = 1" "hs_chunk one_antenna = 1"
    by (simp_all add: one_antenna_def)
  show "pl_alerts s = 1" using b
    by (simp add: assms harness_run_def produce_def pipeline_init_def iq_bound_def take_block_def finish_block_def settings commit_block_def Let_def)
  have one: "pl_log_unfinished s = 1" using b
    by (simp add: assms harness_run_def produce_def pipeline_init_def iq_bound_def take_block_def finish_block_def settings commit_block_def Let_def
      log_alert_def log_bound_def)
  show "\<not> snd (joins (harness_run one_antenna later s))"
    using harness_run_log [OF stuck, of one_antenna later] one by (simp add: joins_def)
qed

section \<open>The final wait\<close>

definition holding :: "pipeline \<Rightarrow> nat set" where
  "holding s = {w. pl_held s w \<noteq> None}"

text \<open>Blocks thrown out of the queue by lockdowns\<close>

fun purged :: "harness_setup \<Rightarrow> harness_event list \<Rightarrow> pipeline \<Rightarrow> nat" where
  "purged h [] s = 0"
| "purged h (e # es) s = (case e of LockdownNow _ \<Rightarrow> length (pl_iq s) | _ \<Rightarrow> 0) + purged h es (harness_step h e s)"

definition counted :: "nat \<Rightarrow> pipeline \<Rightarrow> bool" where
  "counted k s \<longleftrightarrow> finite (holding s) \<and> pl_iq_unfinished s = length (pl_iq s) + card (holding s) + k"

lemma counted_cong:
  "pl_held s' = pl_held s \<Longrightarrow> pl_iq s' = pl_iq s \<Longrightarrow> pl_iq_unfinished s' = pl_iq_unfinished s \<Longrightarrow> counted k s' = counted k s"
  by (simp add: counted_def holding_def)

lemma take_counted:
  assumes "counted k s"
  shows "counted k (take_block w s)"
proof (cases "pl_held s w \<noteq> None \<or> pl_lockout s \<or> (\<not> pl_running s \<and> pl_iq s = []) \<or> pl_iq s = []")
  case True
  with assms show ?thesis by (auto simp: take_block_def split: list.split)
next
  case False
  then obtain p q where q: "pl_iq s = p # q" by (cases "pl_iq s") auto
  have "take_block w s = s\<lparr>pl_iq := q, pl_held := (pl_held s)(w := Some (p, pl_gamma s, pl_atten s))\<rparr>"
    using False q by (simp add: take_block_def)
  moreover have "holding (s\<lparr>pl_iq := q, pl_held := (pl_held s)(w := Some (p, pl_gamma s, pl_atten s))\<rparr>) = insert w (holding s)"
    by (auto simp: holding_def)
  moreover have "w \<notin> holding s" using False by (simp add: holding_def)
  ultimately show ?thesis using assms q by (simp add: counted_def)
qed

lemma finish_counted:
  assumes "counted k s"
  shows "counted k (finish_block h w rd s)"
proof (cases "pl_held s w")
  case None
  with assms show ?thesis by (simp add: finish_block_def)
next
  case (Some a)
  let ?s = "finish_block h w rd s"
  have f: "pl_held ?s = (pl_held s)(w := None)" "pl_iq ?s = pl_iq s" "pl_iq_unfinished ?s = pl_iq_unfinished s - 1"
    using Some by (auto simp: finish_block_def Let_def commit_block_frame split: prod.splits sum.splits)
  have "holding ?s = holding s - {w}" by (auto simp: holding_def f)
  moreover have "w \<in> holding s" using Some by (simp add: holding_def del: not_None_eq)
  moreover from this have "0 < card (holding s)" using assms card_gt_0_iff by (auto simp: counted_def)
  ultimately show ?thesis using assms f by (simp add: counted_def)
qed

lemma harness_step_counted:
  assumes "counted k s"
  shows "counted (k + (case e of LockdownNow _ \<Rightarrow> length (pl_iq s) | _ \<Rightarrow> 0)) (harness_step h e s)"
proof (cases e)
  case (Produce p)
  with assms show ?thesis by (simp add: produce_def counted_def holding_def)
next
  case (LogTurn stamp)
  with assms show ?thesis by (simp add: log_turn_def counted_def holding_def split: list.split sum.split)
next
  case (LockdownNow now)
  with assms show ?thesis by (simp add: emergency_lockdown_def counted_def holding_def)
qed (use assms take_counted finish_counted in \<open>simp_all add: counted_def holding_def\<close>)

lemma harness_run_counted: "counted k s \<Longrightarrow> counted (k + purged h es s) (harness_run h es s)"
proof (induction es arbitrary: s k)
  case (Cons e es)
  from Cons.IH [OF harness_step_counted [OF Cons.prems, of e h]] show ?case by (simp add: harness_run_def add.assoc)
qed (simp add: harness_run_def)

text \<open>
  C23: when the harness can stop. However the threads interleave, the wait for the ingestion queue at the end of a run
  returns exactly when no block is queued, no worker holds one, and no lockdown ever found a block in the queue: a block that
  fails counts as done, but what a lockdown clears is waited for for ever.
\<close>
theorem join_iff_nothing_purged:
  "fst (joins (harness_run h es (pipeline_init n incidents security))) \<longleftrightarrow>
     pl_iq (harness_run h es (pipeline_init n incidents security)) = [] \<and>
     (\<forall>w. pl_held (harness_run h es (pipeline_init n incidents security)) w = None) \<and>
     purged h es (pipeline_init n incidents security) = 0"
proof -
  have "counted 0 (pipeline_init n incidents security)" by (simp add: counted_def pipeline_init_def holding_def)
  from harness_run_counted [OF this, of h es] have "counted (purged h es (pipeline_init n incidents security)) (harness_run h es (pipeline_init n incidents security))"
    by simp
  then show ?thesis unfolding counted_def joins_def by (simp only: fst_conv) (auto simp: holding_def simp del: not_None_eq)
qed

lemma purging_lockdown: "purged h [Produce p, LockdownNow now] (pipeline_init n incidents security) = 1"
  by (simp add: produce_def pipeline_init_def iq_bound_def)

section \<open>What a lockdown leaves of the ledger\<close>

lemma incident_ledger_step:
  "pl_incident_ledger (harness_step h e s) = (case e of LockdownNow now \<Rightarrow> [Doc (Rec (lockdown_entry now))] | _ \<Rightarrow> pl_incident_ledger s)"
  by (cases e)
    (auto simp: produce_def take_block_def finish_block_def log_turn_def emergency_lockdown_def Let_def commit_block_frame
      split: list.split sum.split option.split prod.split)

lemma incident_ledger_kept:
  "\<exists>now. pl_incident_ledger s = [Doc (Rec (lockdown_entry now))] \<Longrightarrow>
   \<exists>now. pl_incident_ledger (harness_run h es s) = [Doc (Rec (lockdown_entry now))]"
proof (induction es arbitrary: s)
  case (Cons e es)
  have "\<exists>now. pl_incident_ledger (harness_step h e s) = [Doc (Rec (lockdown_entry now))]"
    unfolding incident_ledger_step using Cons.prems by (auto split: harness_event.split)
  from Cons.IH [OF this] show ?case by (simp add: harness_run_def)
qed (simp add: harness_run_def)

text \<open>
  a lockdown erases the incident history. Whatever the ledger held, after an emergency lockdown and anything that
  follows it is a single entry without a hash, which no chain verification accepts; every earlier incident is gone.
\<close>
theorem lockdown_erases_ledger:
  "length (pl_incident_ledger (harness_run h (es @ LockdownNow now # later) (pipeline_init n incidents security))) = 1 \<and>
   (\<exists>e. verify_chain digest (pl_incident_ledger (harness_run h (es @ LockdownNow now # later) (pipeline_init n incidents security))) = Fail e)"
proof -
  let ?s = "harness_run h es (pipeline_init n incidents security)"
  have "\<exists>now'. pl_incident_ledger (harness_step h (LockdownNow now) ?s) = [Doc (Rec (lockdown_entry now'))]" unfolding incident_ledger_step by auto
  from incident_ledger_kept [OF this, of h later] obtain now'
    where l: "pl_incident_ledger (harness_run h (es @ LockdownNow now # later) (pipeline_init n incidents security)) = append_entry [] (lockdown_entry now')"
    by (auto simp: harness_run_def append_entry_def)
  have "\<exists>e. verify_chain digest (append_entry [] (lockdown_entry now')) = Fail e"
    by (rule unsealed_entry_fails) (simp add: lockdown_entry_def)
  then show ?thesis unfolding l by (simp add: append_entry_def)
qed

end
