(* ===== verification/Power_Failover.thy ===== *)
theory Power_Failover
  imports Ledger
begin

text \<open>
  The power daemon of \<^verbatim>\<open>energy_aware_orchestrator.py\<close> with its hysteresis, and the heartbeat
  watchdog of \<^verbatim>\<open>cluster_failover_broker.py\<close>. A poll of the battery and a round of the watchdog
  are steps; clock readings are arguments, in exact reals.
\<close>

section \<open>The power daemon\<close>

datatype power_state = NOMINAL_RENEWABLE_MODE | CRITICAL_SUSTAINABILITY_MODE

record system_config =
  sdr_ingest_rate_hz :: nat
  onnx_inference_interval_ms :: nat
  dsp_matrix_threads :: nat
  power_state :: power_state

definition NOMINAL_CONFIG :: system_config where
  "NOMINAL_CONFIG = \<lparr>sdr_ingest_rate_hz = 4000000, onnx_inference_interval_ms = 100, dsp_matrix_threads = 24,
     power_state = NOMINAL_RENEWABLE_MODE\<rparr>"

definition CRITICAL_CONFIG :: system_config where
  "CRITICAL_CONFIG = \<lparr>sdr_ingest_rate_hz = 1000000, onnx_inference_interval_ms = 1000, dsp_matrix_threads = 24,
     power_state = CRITICAL_SUSTAINABILITY_MODE\<rparr>"

record orchestrator =
  critical_threshold_pct :: real
  hysteresis_pct :: real
  active_system_config :: system_config
  current_power :: power_state

definition orchestrator_init :: "real \<Rightarrow> real \<Rightarrow> orchestrator" where
  "orchestrator_init crit hyst = \<lparr>critical_threshold_pct = crit, hysteresis_pct = hyst,
     active_system_config = NOMINAL_CONFIG, current_power = NOMINAL_RENEWABLE_MODE\<rparr>"

definition execute_atomic_transition :: "power_state \<Rightarrow> orchestrator \<Rightarrow> orchestrator" where
  "execute_atomic_transition target o' = (case target of
       CRITICAL_SUSTAINABILITY_MODE \<Rightarrow> o'\<lparr>active_system_config := CRITICAL_CONFIG, current_power := CRITICAL_SUSTAINABILITY_MODE\<rparr>
     | NOMINAL_RENEWABLE_MODE \<Rightarrow> o'\<lparr>active_system_config := NOMINAL_CONFIG, current_power := NOMINAL_RENEWABLE_MODE\<rparr>)"

text \<open>One round of the daemon; a poll that raises is logged and changes nothing.\<close>

definition power_round :: "real option \<Rightarrow> orchestrator \<Rightarrow> orchestrator" where
  "power_round poll o' = (case poll of
       None \<Rightarrow> o'
     | Some soc \<Rightarrow> (case current_power o' of
           NOMINAL_RENEWABLE_MODE \<Rightarrow>
             if soc < critical_threshold_pct o' then execute_atomic_transition CRITICAL_SUSTAINABILITY_MODE o' else o'
         | CRITICAL_SUSTAINABILITY_MODE \<Rightarrow>
             if soc > hysteresis_pct o' then execute_atomic_transition NOMINAL_RENEWABLE_MODE o' else o'))"

text \<open>The reference: the last reading outside the band decides.\<close>

fun last_decisive :: "real \<Rightarrow> real \<Rightarrow> power_state \<Rightarrow> real option list \<Rightarrow> power_state" where
  "last_decisive crit hyst s [] = s"
| "last_decisive crit hyst s (p # ps) = last_decisive crit hyst (case p of
       None \<Rightarrow> s
     | Some soc \<Rightarrow> if soc < crit then CRITICAL_SUSTAINABILITY_MODE
                   else if soc > hyst then NOMINAL_RENEWABLE_MODE else s) ps"

lemma power_rounds:
  assumes "crit \<le> hyst"
    and "o' = \<lparr>critical_threshold_pct = crit, hysteresis_pct = hyst,
      active_system_config = (if s = NOMINAL_RENEWABLE_MODE then NOMINAL_CONFIG else CRITICAL_CONFIG), current_power = s\<rparr>"
  shows "fold power_round ps o' = \<lparr>critical_threshold_pct = crit, hysteresis_pct = hyst,
    active_system_config = (if last_decisive crit hyst s ps = NOMINAL_RENEWABLE_MODE then NOMINAL_CONFIG else CRITICAL_CONFIG),
    current_power = last_decisive crit hyst s ps\<rparr>"
  using assms(2)
proof (induction ps arbitrary: o' s)
  case Nil
  then show ?case by simp
next
  case (Cons p ps)
  let ?s = "last_decisive crit hyst s [p]"
  have "power_round p o' = \<lparr>critical_threshold_pct = crit, hysteresis_pct = hyst,
      active_system_config = (if ?s = NOMINAL_RENEWABLE_MODE then NOMINAL_CONFIG else CRITICAL_CONFIG), current_power = ?s\<rparr>"
    using assms(1) Cons.prems
    by (cases s; cases p) (auto simp: power_round_def execute_atomic_transition_def)
  from Cons.IH [OF this] show ?case by simp
qed

section \<open>The heartbeat watchdog\<close>

record broker =
  primary_peer :: string
  standby_peer :: string
  last_heartbeats :: "string \<Rightarrow> real option"
  is_primary_active :: bool
  broker_ledger :: ledger_file

text \<open>\<^verbatim>\<open>start\<close> gives the primary a first heartbeat.\<close>

definition broker_start :: "string \<Rightarrow> string \<Rightarrow> real \<Rightarrow> ledger_file \<Rightarrow> broker" where
  "broker_start primary standby now f = \<lparr>primary_peer = primary, standby_peer = standby,
     last_heartbeats = [primary \<mapsto> now], is_primary_active = True, broker_ledger = f\<rparr>"

definition register_heartbeat :: "string \<Rightarrow> real \<Rightarrow> broker \<Rightarrow> broker" where
  "register_heartbeat node now b = b\<lparr>last_heartbeats := (last_heartbeats b)(node \<mapsto> now)\<rparr>"

definition execute_failover :: "(payload \<Rightarrow> string) \<Rightarrow> json \<Rightarrow> broker \<Rightarrow> broker" where
  "execute_failover digest t_start b = b\<lparr>is_primary_active := False,
     broker_ledger := commit_failover digest t_start (primary_peer b) (standby_peer b) (broker_ledger b)\<rparr>"

definition monitor_round :: "(payload \<Rightarrow> string) \<Rightarrow> real \<Rightarrow> json \<Rightarrow> broker \<Rightarrow> broker" where
  "monitor_round digest now t_start b =
     (if \<not> is_primary_active b then b
      else let last_seen = (case last_heartbeats b (primary_peer b) of Some t \<Rightarrow> t | None \<Rightarrow> now)
           in if now - last_seen > 10 / 1000 * 3 then execute_failover digest t_start b else b)"

datatype broker_event = Heartbeat string real | Monitor real json

fun broker_step :: "(payload \<Rightarrow> string) \<Rightarrow> broker_event \<Rightarrow> broker \<Rightarrow> broker" where
  "broker_step digest (Heartbeat node now) b = register_heartbeat node now b"
| "broker_step digest (Monitor now t_start) b = monitor_round digest now t_start b"

text \<open>
  The specification: the first monitor round more than 30 ms after the primary was last heard,
  if there is one, with the time it reports.
\<close>

fun first_silence :: "string \<Rightarrow> real \<Rightarrow> broker_event list \<Rightarrow> json option" where
  "first_silence primary seen [] = None"
| "first_silence primary seen (Heartbeat node now # es) = first_silence primary (if node = primary then now else seen) es"
| "first_silence primary seen (Monitor now t_start # es) =
     (if now - seen > 3 / 100 then Some t_start else first_silence primary seen es)"

lemma failed_over_stays:
  "\<not> is_primary_active b \<Longrightarrow> is_primary_active (fold (broker_step digest) es b) = False \<and>
     broker_ledger (fold (broker_step digest) es b) = broker_ledger b"
proof (induction es arbitrary: b)
  case (Cons e es)
  then show ?case by (cases e) (simp_all add: register_heartbeat_def monitor_round_def)
qed simp

lemma watchdog_run:
  assumes "is_primary_active b" "last_heartbeats b (primary_peer b) = Some seen"
  shows "is_primary_active (fold (broker_step digest) es b) = (first_silence (primary_peer b) seen es = None) \<and>
    broker_ledger (fold (broker_step digest) es b) = (case first_silence (primary_peer b) seen es of
        None \<Rightarrow> broker_ledger b
      | Some t \<Rightarrow> commit_failover digest t (primary_peer b) (standby_peer b) (broker_ledger b))"
  using assms
proof (induction es arbitrary: b seen)
  case Nil
  then show ?case by simp
next
  case (Cons e es)
  show ?case
  proof (cases e)
    case (Heartbeat node now)
    with Cons.prems Cons.IH [of "register_heartbeat node now b" "if node = primary_peer b then now else seen"]
    show ?thesis by (auto simp: register_heartbeat_def)
  next
    case (Monitor now t_start)
    show ?thesis
    proof (cases "now - seen > 3 / 100")
      case True
      with Monitor Cons.prems have "monitor_round digest now t_start b = execute_failover digest t_start b"
        by (simp add: monitor_round_def)
      with True Monitor failed_over_stays [of "execute_failover digest t_start b" digest es] show ?thesis
        by (simp add: execute_failover_def)
    next
      case False
      with Monitor Cons.prems have "monitor_round digest now t_start b = b" by (simp add: monitor_round_def)
      with False Monitor Cons.IH [OF Cons.prems] show ?thesis by simp
    qed
  qed
qed

section \<open>Properties\<close>

text \<open>
  with the thresholds in order, the power state after any polls (failing ones included) is
  the one the last reading outside the band asks for, readings inside the band never change it,
  and the published configuration is always the one of the state.
\<close>

theorem power_state_hysteresis:
  assumes "crit \<le> hyst"
  shows "current_power (fold power_round ps (orchestrator_init crit hyst)) =
      last_decisive crit hyst NOMINAL_RENEWABLE_MODE ps \<and>
    active_system_config (fold power_round ps (orchestrator_init crit hyst)) =
      (if last_decisive crit hyst NOMINAL_RENEWABLE_MODE ps = NOMINAL_RENEWABLE_MODE then NOMINAL_CONFIG else CRITICAL_CONFIG)"
  by (subst (1 2) power_rounds [OF assms]) (simp_all add: orchestrator_init_def)

theorem power_state_hysteresis_witness:
  "current_power (fold power_round [Some 19, None, Some 22, Some 24] (orchestrator_init 20 25)) = CRITICAL_SUSTAINABILITY_MODE"
  using power_state_hysteresis [of 20 25 "[Some 19, None, Some 22, Some 24]"] by simp

text \<open>
  after the start the watchdog fails over exactly when some round comes more than 30 ms
  after the primary was last heard, whatever heartbeats of whatever nodes arrive; it then
  records one failover, with the time of that round, and never another.
\<close>

theorem failover_iff_silence:
  "is_primary_active (fold (broker_step digest) es (broker_start primary standby now f)) =
     (first_silence primary now es = None) \<and>
   broker_ledger (fold (broker_step digest) es (broker_start primary standby now f)) =
     (case first_silence primary now es of None \<Rightarrow> f | Some t \<Rightarrow> commit_failover digest t primary standby f)"
  using watchdog_run [of "broker_start primary standby now f" now digest es] by (simp add: broker_start_def cong: option.case_cong)

end
