(* ===== verification/Receiver_Bridge.thy ===== *)
theory Receiver_Bridge
  imports Harness_Pipeline Power_Failover
begin

text \<open>
  One turn of the capture loop of \<^verbatim>\<open>soapy_receiver_bridge.py\<close>, between the power configuration of
  \<^verbatim>\<open>energy_aware_orchestrator.py\<close> and the pipeline of \<^verbatim>\<open>spatial_hardware_harness.py\<close>: decimation, the smoothing of a mode change and
  the block it queues. What the device and the impairment emulator do are arguments; numbers are exact reals.
\<close>

section \<open>The capture loop\<close>

record soapy_bridge =
  sb_sample_rate :: real
  sb_chunk_size :: nat
  sb_freq :: real
  sb_current_mode :: power_state

definition soapy_init :: "real \<Rightarrow> real \<Rightarrow> nat \<Rightarrow> soapy_bridge" where
  "soapy_init freq_mhz sample_rate_msps chunk_size =
     \<lparr>sb_sample_rate = sample_rate_msps * 10 ^ 6, sb_chunk_size = chunk_size, sb_freq = freq_mhz * 10 ^ 6, sb_current_mode = NOMINAL_RENEWABLE_MODE\<rparr>"

text \<open>\<^verbatim>\<open>np.hanning\<close>\<close>

definition hanning :: "nat \<Rightarrow> real list" where
  "hanning n = (if n = 1 then [1] else map (\<lambda>k. 1 / 2 - 1 / 2 * cos (2 * pi * real k / real (n - 1))) [0..<n])"

definition decimation :: "soapy_bridge \<Rightarrow> system_config option \<Rightarrow> fault + nat" where
  "decimation b cfg =
     (case cfg of
        None \<Rightarrow> Ok 1
      | Some c \<Rightarrow> if power_state c = CRITICAL_SUSTAINABILITY_MODE
          then (if sdr_ingest_rate_hz c = 0 then Fail ZeroDivisionError
                else let d = \<lfloor>sb_sample_rate b / real (sdr_ingest_rate_hz c)\<rfloor> in Ok (if d < 1 then 1 else nat d))
          else Ok 1)"

definition every_nth :: "nat \<Rightarrow> 'a list \<Rightarrow> 'a list" where
  "every_nth d xs = map (\<lambda>k. xs ! (k * d)) [0..<(length xs + d - 1) div d]"

record captured =
  cp_payload :: harness_payload
  cp_center_freq :: real
  cp_sample_rate :: real

text \<open>The mode is taken over before the read; a read that times out, overflows or is partial delivers nothing.\<close>

definition capture_turn :: "(complex list list \<Rightarrow> complex list list) option \<Rightarrow> system_config option \<Rightarrow> int \<Rightarrow> complex list list \<Rightarrow> real \<Rightarrow>
    soapy_bridge \<Rightarrow> fault + (captured option \<times> soapy_bridge)" where
  "capture_turn emulate cfg ret buffers now b =
     seqE (decimation b cfg) (\<lambda>d.
       let mode_shifted = (case cfg of Some c \<Rightarrow> sb_current_mode b \<noteq> power_state c | None \<Rightarrow> False);
           b1 = (case cfg of Some c \<Rightarrow> b\<lparr>sb_current_mode := power_state c\<rparr> | None \<Rightarrow> b);
           active_sample_rate = (if d = 1 then sb_sample_rate b else sb_sample_rate b / real d)
       in if ret < 0 \<or> ret \<noteq> int (sb_chunk_size b) then Ok (None, b1)
          else let block = (case emulate of Some f \<Rightarrow> f buffers | None \<Rightarrow> buffers);
                   smoothed = (if mode_shifted then map (\<lambda>row. map2 (\<lambda>z w. z * complex_of_real w) row (hanning (sb_chunk_size b))) block else block);
                   processed = (if 1 < d then map (every_nth d) smoothed else smoothed)
               in Ok (Some \<lparr>cp_payload = LiveBlock processed now, cp_center_freq = sb_freq b, cp_sample_rate = active_sample_rate\<rparr>, b1))"

section \<open>Saving power blinds the receiver\<close>

lemma attenuate_lengths: "map length (attenuate a Y) = map length Y"
  by (simp add: attenuate_def comp_def)

lemma broadcast_fails:
  assumes "Y \<noteq> []" "\<forall>row \<in> set Y. length row \<noteq> n \<and> length row \<noteq> 1"
  shows "broadcast_to M n Y = Fail ValueError"
  using assms by (cases Y) (auto simp: broadcast_to_def)

lemma short_block_fails:
  assumes "Y \<noteq> []" "\<forall>row \<in> set Y. length row \<noteq> chunk \<and> length row \<noteq> 1"
  shows "\<exists>cal' e. process_block lib w session fs chunk d atten (LiveBlock Y now) cal = (cal', False, Fail e)"
proof -
  let ?iq = "attenuate atten Y"
  have "length ` set ?iq = length ` set Y" using attenuate_lengths [of atten Y] by (metis list.set_map)
  then have "length row \<noteq> chunk \<and> length row \<noteq> 1" if "row \<in> set ?iq" for row using that assms(2) by (metis image_iff)
  moreover have "?iq \<noteq> []" using assms(1) by (simp add: attenuate_def)
  ultimately have "test_block lib chunk d ?iq c = Fail ValueError" for c
    using broadcast_fails [of ?iq chunk "ca_M c"] by (simp add: test_block_def equalize_def)
  then show ?thesis by (auto simp: process_block_def unpack_def Let_def split: sum.split)
qed

lemma every_nth_length: "2 \<le> d \<Longrightarrow> d < length xs \<Longrightarrow> 1 < length (every_nth d xs) \<and> length (every_nth d xs) < length xs"
proof -
  assume d: "2 \<le> d" "d < length xs"
  have "2 * d \<le> length xs + d - 1" using d by simp
  then have "2 \<le> (length xs + d - 1) div d" using d by (simp add: less_eq_div_iff_mult_less_eq)
  moreover have "length xs + d - 1 < length xs * d"
  proof -
    have "(length xs - 1) * 2 \<le> (length xs - 1) * d" using d by (intro mult_le_mono2)
    moreover have "length xs * d = (length xs - 1) * d + d" using d by (cases "length xs") auto
    ultimately show ?thesis using d by linarith
  qed
  then have "(length xs + d - 1) div d < length xs" using d by (simp add: div_less_iff_less_mult)
  ultimately show ?thesis by (simp add: every_nth_def)
qed

lemma config_follows_power:
  "active_system_config (fold power_round polls (orchestrator_init crit hyst)) =
     (if current_power (fold power_round polls (orchestrator_init crit hyst)) = NOMINAL_RENEWABLE_MODE then NOMINAL_CONFIG else CRITICAL_CONFIG)"
proof (induction polls rule: rev_induct)
  case (snoc p ps)
  then show ?case
    by (auto simp: power_round_def execute_atomic_transition_def split: option.splits power_state.splits)
qed (simp add: orchestrator_init_def)

text \<open>What the operators see of a block\<close>

definition detections :: "pipeline \<Rightarrow> nat \<times> nat \<times> nat \<times> string \<times> log_item list" where
  "detections s = (pl_processed s, pl_alerts s, pl_fast_hits s, pl_last_verdict s, pl_log s)"

text \<open>
  What the two files would do together. The harness builds its bridge without an orchestrator, so that under \<^verbatim>\<open>src\<close> nothing
  decimates its blocks; were the bridge given one, then in the critical mode every full read of a device running at two million
  samples a second or more would be queued decimated, and a worker of the harness would fail on it. Here no emulator is bound,
  the worker is idle, the queue is empty and the factor is smaller than a block.
\<close>
lemma critical_mode_blind:
  assumes "current_power (fold power_round polls (orchestrator_init crit hyst)) = CRITICAL_SUSTAINABILITY_MODE"
    and "cfg = active_system_config (fold power_round polls (orchestrator_init crit hyst))"
    and "2 * 10 ^ 6 \<le> sb_sample_rate b" "\<lfloor>sb_sample_rate b / 10 ^ 6\<rfloor> < int (sb_chunk_size b)" "0 < length buffers"
    and "\<forall>row \<in> set buffers. length row = sb_chunk_size b"
    and "pl_held s w = None" "\<not> pl_lockout s" "pl_running s" "pl_iq s = []" "hs_chunk h = sb_chunk_size b"
  shows "\<exists>c b'. capture_turn None (Some cfg) (int (sb_chunk_size b)) buffers now b = Ok (Some c, b') \<and>
      detections (finish_block h w rd (take_block w (produce (cp_payload c) s))) = detections s"
proof -
  have cfg: "cfg = CRITICAL_CONFIG"
    using assms(1,2) config_follows_power [of polls crit hyst] by simp
  have "2 \<le> sb_sample_rate b / 10 ^ 6" using assms(3) by simp
  then have two: "2 \<le> \<lfloor>sb_sample_rate b / 10 ^ 6\<rfloor>" by (simp add: le_floor_iff)
  have "decimation b (Some cfg) = Ok (nat \<lfloor>sb_sample_rate b / 10 ^ 6\<rfloor>)" using two by (simp add: decimation_def cfg CRITICAL_CONFIG_def Let_def)
  moreover have "2 \<le> nat \<lfloor>sb_sample_rate b / 10 ^ 6\<rfloor>" "nat \<lfloor>sb_sample_rate b / 10 ^ 6\<rfloor> < sb_chunk_size b" using two assms(4) by linarith+
  ultimately obtain d where d: "decimation b (Some cfg) = Ok d" "2 \<le> d" "d < sb_chunk_size b" by blast
  define smoothed where "smoothed = (if sb_current_mode b \<noteq> power_state cfg
      then map (\<lambda>row. map2 (\<lambda>z w. z * complex_of_real w) row (hanning (sb_chunk_size b))) buffers else buffers)"
  have "length (hanning (sb_chunk_size b)) = sb_chunk_size b" by (simp add: hanning_def)
  then have rows: "length row = sb_chunk_size b" if "row \<in> set smoothed" for row
    using that assms(6) by (auto simp: smoothed_def split: if_splits)
  let ?Y = "map (every_nth d) smoothed"
  let ?c = "\<lparr>cp_payload = LiveBlock ?Y now, cp_center_freq = sb_freq b, cp_sample_rate = sb_sample_rate b / real d\<rparr>"
  have turn: "capture_turn None (Some cfg) (int (sb_chunk_size b)) buffers now b = Ok (Some ?c, b\<lparr>sb_current_mode := power_state cfg\<rparr>)"
    using d by (simp add: capture_turn_def smoothed_def Let_def)
  have "?Y \<noteq> []" using assms(5) by (auto simp: smoothed_def)
  moreover have "\<forall>row \<in> set ?Y. length row \<noteq> sb_chunk_size b \<and> length row \<noteq> 1"
  proof
    fix row assume "row \<in> set ?Y"
    then obtain r where "r \<in> set smoothed" "row = every_nth d r" by auto
    then show "length row \<noteq> sb_chunk_size b \<and> length row \<noteq> 1" using every_nth_length [OF d(2), of r] rows [of r] d(3) by simp
  qed
  ultimately obtain cal' e where blind: "process_block (hs_lib h) (hs_weights h) (hs_session h) (hs_fs h) (hs_chunk h)
      ((hs_detector h)\<lparr>gd_gamma := pl_gamma s\<rparr>) (pl_atten s) (LiveBlock ?Y now) (pl_calibrator s) = (cal', False, Fail e)"
    using short_block_fails [of ?Y] assms(11) by metis
  have "take_block w (produce (cp_payload ?c) s) = s\<lparr>pl_iq_unfinished := Suc (pl_iq_unfinished s), pl_iq := [],
      pl_held := (pl_held s)(w := Some (LiveBlock ?Y now, pl_gamma s, pl_atten s))\<rparr>"
    using assms(7-10) by (simp add: produce_def take_block_def iq_bound_def)
  then have "detections (finish_block h w rd (take_block w (produce (cp_payload ?c) s))) = detections s"
    using blind by (simp add: finish_block_def detections_def)
  with turn show ?thesis by blast
qed

lemma critical_mode_blind_example:
  "\<forall>rd. \<exists>c b'. capture_turn None (Some CRITICAL_CONFIG) 8 [[1, 1, 1, 1, 1, 1, 1, 1]] 0 (soapy_init 1176 4 8) = Ok (Some c, b') \<and>
     detections (finish_block (one_antenna\<lparr>hs_chunk := 8\<rparr>) 0 rd (take_block 0 (produce (cp_payload c) (pipeline_init 1 [] [])))) = (0, 0, 0, ''NORMAL'', [])"
proof -
  have power: "power_round (Some 19) (orchestrator_init 20 25) =
      \<lparr>critical_threshold_pct = 20, hysteresis_pct = 25, active_system_config = CRITICAL_CONFIG, current_power = CRITICAL_SUSTAINABILITY_MODE\<rparr>"
    by (simp add: power_round_def orchestrator_init_def execute_atomic_transition_def)
  have "\<exists>c b'. capture_turn None (Some CRITICAL_CONFIG) (int (sb_chunk_size (soapy_init 1176 4 8))) [[1, 1, 1, 1, 1, 1, 1, 1]] 0 (soapy_init 1176 4 8) = Ok (Some c, b') \<and>
     detections (finish_block (one_antenna\<lparr>hs_chunk := 8\<rparr>) 0 rd (take_block 0 (produce (cp_payload c) (pipeline_init 1 [] [])))) = detections (pipeline_init 1 [] [])" for rd
    by (rule critical_mode_blind [of "[Some 19]" 20 25]) (simp_all add: power soapy_init_def pipeline_init_def)
  moreover have "detections (pipeline_init 1 [] []) = (0, 0, 0, ''NORMAL'', [])" by (simp add: detections_def pipeline_init_def)
  moreover have "int (sb_chunk_size (soapy_init 1176 4 8)) = 8" by (simp add: soapy_init_def)
  ultimately show ?thesis by simp
qed

text \<open>A mode change whose first read fails is never smoothed: the next full block comes out as it was read.\<close>

lemma smoothing_lost:
  assumes "power_state cfg = NOMINAL_RENEWABLE_MODE" "ret < 0 \<or> ret \<noteq> int (sb_chunk_size b)" "capture_turn None (Some cfg) ret bufs t b = Ok (out, b1)"
  shows "\<exists>c. capture_turn None (Some cfg) (int (sb_chunk_size b1)) buffers now b1 = Ok (Some c, b1) \<and> cp_payload c = LiveBlock buffers now"
  using assms by (auto simp: capture_turn_def decimation_def Let_def split: if_splits)

end
