(* ===== verification/Link_Monitors.thy ===== *)
theory Link_Monitors
  imports Spatial_Glrt
begin

text \<open>
  Monitors of the downlink: \<^verbatim>\<open>subframe_timing_lock.py\<close> judges arrival times, \<^verbatim>\<open>downlink_ber_monitor.py\<close> watches the bit
  errors and raises the diagonal load of \<^verbatim>\<open>covariance_conditioner.py\<close>, and \<^verbatim>\<open>thermal_drift_compensator.py\<close> tracks
  the noise floor behind a gate. Numbers are exact reals.
\<close>

section \<open>Arrival times\<close>

record timing_lock =
  tl_rolling_var :: real
  tl_alpha :: real
  tl_var_threshold :: real
  tl_shift_threshold :: real

definition timing_init :: "real \<Rightarrow> timing_lock" where
  "timing_init tolerance_samples = \<lparr>tl_rolling_var = 0, tl_alpha = 1 / 10, tl_var_threshold = tolerance_samples ^ 2,
     tl_shift_threshold = tolerance_samples * 2\<rparr>"

definition eval_timing_coherence :: "real list \<Rightarrow> real \<Rightarrow> real \<Rightarrow> real \<Rightarrow> real \<Rightarrow> real \<Rightarrow> fault + (real \<times> real \<times> bool)" where
  "eval_timing_coherence arrival_stamps expected_baseline rolling_var alpha var_threshold shift_threshold =
     (if length arrival_stamps < 4 then Fail OutOfBounds
      else let stamps = take 4 arrival_stamps; mean_arrival = sum_list stamps * (1 / 4);
               inst_variance = sum_list (map (\<lambda>a. (a - mean_arrival) * (a - mean_arrival)) stamps) * (1 / 4);
               rolling_var_new = (1 - alpha) * rolling_var + alpha * inst_variance;
               time_shift_error = mean_arrival - expected_baseline
        in Ok (rolling_var_new, time_shift_error, var_threshold < rolling_var_new \<or> shift_threshold < \<bar>time_shift_error\<bar>))"

definition check_timing :: "real list \<Rightarrow> real \<Rightarrow> timing_lock \<Rightarrow> fault + (string \<times> real \<times> timing_lock)" where
  "check_timing arrival_indices expected_baseline t =
     seqE (eval_timing_coherence arrival_indices expected_baseline (tl_rolling_var t) (tl_alpha t) (tl_var_threshold t) (tl_shift_threshold t))
       (\<lambda>(v, shift, breached). Ok (if breached then ''TIMING_COHERENCE_BREACH'' else ''NOMINAL_TIMING'', shift, t\<lparr>tl_rolling_var := v\<rparr>))"

fun timing_run :: "(real list \<times> real) list \<Rightarrow> timing_lock \<Rightarrow> fault + (string list \<times> timing_lock)" where
  "timing_run [] t = Ok ([], t)"
| "timing_run ((stamps, baseline) # xs) t =
     seqE (check_timing stamps baseline t) (\<lambda>(flag, shift, t1). seqE (timing_run xs t1) (\<lambda>(flags, t2). Ok (flag # flags, t2)))"

section \<open>Diagonal loading and its feedback\<close>

record conditioner =
  co_base_load :: real
  co_trace_scale :: real

definition loaded_diagonal :: "conditioner \<Rightarrow> real \<Rightarrow> real" where
  "loaded_diagonal c tr = co_base_load c + co_trace_scale c * tr"

definition condition_matrix :: "nat \<Rightarrow> cmat \<Rightarrow> conditioner \<Rightarrow> cmat" where
  "condition_matrix n R c =
     (let R_trace = Re (\<Sum>i<n. R i i); alpha = loaded_diagonal c R_trace
      in (\<lambda>i j. R i j + (if i = j then complex_of_real alpha else 0)))"

record ber_monitor =
  bm_threshold :: real
  bm_shielding :: bool
  bm_degradation :: "real list"

definition ber_init :: "real \<Rightarrow> ber_monitor" where
  "ber_init critical_ber_threshold = \<lparr>bm_threshold = critical_ber_threshold, bm_shielding = False, bm_degradation = replicate 4 0\<rparr>"

text \<open>\<^verbatim>\<open>np.outer\<close>, the arrays of four, and the feedback on the conditioner the monitor holds\<close>

definition diagnostic_matrix :: "real list \<Rightarrow> real list list" where
  "diagnostic_matrix d = map (\<lambda>a. map (\<lambda>b. a * b) d) d"

definition shield :: "real \<Rightarrow> ber_monitor \<Rightarrow> conditioner \<Rightarrow> ber_monitor \<times> conditioner" where
  "shield max_ber m c =
     (if bm_threshold m < max_ber
      then (if \<not> bm_shielding m then (m\<lparr>bm_shielding := True\<rparr>, c\<lparr>co_trace_scale := 1 / 100\<rparr>) else (m, c))
      else (if bm_shielding m then (m\<lparr>bm_shielding := False\<rparr>, c\<lparr>co_trace_scale := 1 / 10000\<rparr>) else (m, c)))"

text \<open>Arrays of one entry are broadcast.\<close>

definition spread4 :: "real list \<Rightarrow> fault + real list" where
  "spread4 xs = (if length xs = 4 then Ok xs else if length xs = 1 then Ok (replicate 4 (xs ! 0)) else Fail ValueError)"

definition process_framing_stride :: "real list \<Rightarrow> real list \<Rightarrow> real list \<Rightarrow> ber_monitor \<times> conditioner \<Rightarrow>
    fault + (real list list \<times> ber_monitor \<times> conditioner)" where
  "process_framing_stride ber fec faw mc =
     seqE (spread4 fec) (\<lambda>f4. seqE (spread4 faw) (\<lambda>w4. seqE (spread4 ber) (\<lambda>b4.
       let d = map (\<lambda>(b, f, w). b + f * (1 / 10) + w * 1) (zip b4 (zip f4 w4));
           (m, c) = shield (Max (set ber)) (fst mc) (snd mc)
       in Ok (diagnostic_matrix d, m\<lparr>bm_degradation := d\<rparr>, c))))"

fun framing_run :: "(real list \<times> real list \<times> real list) list \<Rightarrow> ber_monitor \<times> conditioner \<Rightarrow> fault + (ber_monitor \<times> conditioner)" where
  "framing_run [] mc = Ok mc"
| "framing_run ((ber, fec, faw) # xs) mc = seqE (process_framing_stride ber fec faw mc) (\<lambda>(_, mc'). framing_run xs mc')"

section \<open>The noise floor\<close>

definition kalman_1d_update :: "real \<Rightarrow> real \<Rightarrow> real \<Rightarrow> real \<Rightarrow> real \<Rightarrow> real \<Rightarrow> fault + (real \<times> real)" where
  "kalman_1d_update current_power x_est p_est q_process r_measure spike_threshold =
     (let x_pred = x_est; p_pred = p_est + q_process; innovation = current_power - x_pred;
          r_dynamic = (if spike_threshold < innovation then r_measure * 10000 else r_measure)
      in if p_pred + r_dynamic = 0 then Fail ZeroDivisionError
         else let k_gain = p_pred / (p_pred + r_dynamic) in Ok (x_pred + k_gain * innovation, (1 - k_gain) * p_pred))"

record thermal =
  th_nominal :: real
  th_x :: real
  th_p :: real
  th_q :: real
  th_r :: real
  th_spike :: real

definition thermal_init :: "real \<Rightarrow> thermal" where
  "thermal_init nominal_thermal_dbm = (let nominal = 10 powr (nominal_thermal_dbm / 10)
     in \<lparr>th_nominal = nominal, th_x = nominal, th_p = nominal * (1 / 10), th_q = nominal * (1 / 1000), th_r = nominal * (1 / 2), th_spike = nominal * 4\<rparr>)"

text \<open>The factor by which the covariance is scaled\<close>

definition compensate_stride :: "complex list list \<Rightarrow> real \<Rightarrow> thermal \<Rightarrow> fault + (complex list list \<times> real \<times> thermal)" where
  "compensate_stride cov_matrix instantaneous_power t =
     seqE (kalman_1d_update instantaneous_power (th_x t) (th_p t) (th_q t) (th_r t) (th_spike t)) (\<lambda>(x, p).
       if x = 0 then Fail ZeroDivisionError
       else let norm_factor = th_nominal t / x
         in Ok (map (map (\<lambda>z. z * complex_of_real norm_factor)) cov_matrix, norm_factor, t\<lparr>th_x := x, th_p := p\<rparr>))"

fun thermal_run :: "(complex list list \<times> real) list \<Rightarrow> thermal \<Rightarrow> fault + (real list \<times> thermal)" where
  "thermal_run [] t = Ok ([], t)"
| "thermal_run ((R, reading) # xs) t =
     seqE (compensate_stride R reading t) (\<lambda>(_, factor, t1). seqE (thermal_run xs t1) (\<lambda>(fs, t2). Ok (factor # fs, t2)))"

section \<open>Verdicts on arrival times\<close>

definition mean4 :: "real list \<Rightarrow> real" where
  "mean4 xs = sum_list (take 4 xs) * (1 / 4)"

definition variance4 :: "real list \<Rightarrow> real" where
  "variance4 xs = sum_list (map (\<lambda>a. (a - mean4 xs) * (a - mean4 xs)) (take 4 xs)) * (1 / 4)"

definition smoothed :: "(real list \<times> real) list \<Rightarrow> real" where
  "smoothed xs = foldl (\<lambda>v x. 9 / 10 * v + 1 / 10 * variance4 (fst x)) 0 xs"

definition breached :: "real \<Rightarrow> (real list \<times> real) list \<Rightarrow> bool" where
  "breached tol xs \<longleftrightarrow> tol ^ 2 < smoothed xs \<or> tol * 2 < \<bar>mean4 (fst (last xs)) - snd (last xs)\<bar>"

lemma check_timing_exact:
  assumes "4 \<le> length stamps" "t = (timing_init tol)\<lparr>tl_rolling_var := smoothed xs\<rparr>"
  shows "check_timing stamps baseline t = Ok (if breached tol (xs @ [(stamps, baseline)]) then ''TIMING_COHERENCE_BREACH'' else ''NOMINAL_TIMING'',
    mean4 stamps - baseline, (timing_init tol)\<lparr>tl_rolling_var := smoothed (xs @ [(stamps, baseline)])\<rparr>)"
  using assms by (simp add: check_timing_def eval_timing_coherence_def Let_def timing_init_def breached_def smoothed_def mean4_def variance4_def)

lemma timing_run_exact:
  assumes "list_all (\<lambda>x. 4 \<le> length (fst x)) ys" "t = (timing_init tol)\<lparr>tl_rolling_var := smoothed xs\<rparr>"
  shows "timing_run ys t = Ok (map (\<lambda>k. if breached tol (xs @ take (Suc k) ys) then ''TIMING_COHERENCE_BREACH'' else ''NOMINAL_TIMING'') [0..<length ys],
    (timing_init tol)\<lparr>tl_rolling_var := smoothed (xs @ ys)\<rparr>)"
  using assms
proof (induction ys arbitrary: xs t)
  case (Cons y ys)
  obtain stamps baseline where y: "y = (stamps, baseline)" by (cases y)
  have "4 \<le> length stamps" using Cons.prems(1) by (simp add: y)
  with Cons.IH [of "(timing_init tol)\<lparr>tl_rolling_var := smoothed (xs @ [y])\<rparr>" "xs @ [y]"] Cons.prems show ?case
    by (simp add: y check_timing_exact map_upt_Suc del: upt_Suc)
qed simp

lemma four_stamps: "4 \<le> length xs \<Longrightarrow> \<exists>a b c d. take 4 xs = [a, b, c, d]"
  by (cases xs; cases "tl xs"; cases "tl (tl xs)"; cases "tl (tl (tl xs))") auto

lemma variance4_nonneg: "0 \<le> variance4 xs"
  unfolding variance4_def by (intro mult_nonneg_nonneg sum_list_nonneg) auto

lemma within_tolerance:
  assumes "4 \<le> length xs" "list_all (\<lambda>a. \<bar>a - b\<bar> \<le> tol) xs"
  shows "\<bar>mean4 xs - b\<bar> \<le> tol" "variance4 xs \<le> tol ^ 2"
proof -
  obtain p q r s where four: "take 4 xs = [p, q, r, s]" using four_stamps [OF assms(1)] by blast
  have "list_all (\<lambda>a. \<bar>a - b\<bar> \<le> tol) (take 4 xs)" using assms(2) by (auto simp: list_all_iff dest: in_set_takeD)
  then have near: "\<bar>p - b\<bar> \<le> tol" "\<bar>q - b\<bar> \<le> tol" "\<bar>r - b\<bar> \<le> tol" "\<bar>s - b\<bar> \<le> tol" by (simp_all add: four)
  have m: "4 * mean4 xs = p + q + r + s" by (simp add: mean4_def four)
  show "\<bar>mean4 xs - b\<bar> \<le> tol" using near m unfolding abs_le_iff by linarith
  have sq: "(x - b)\<^sup>2 \<le> tol ^ 2" if "\<bar>x - b\<bar> \<le> tol" for x using that by (metis abs_ge_zero power2_abs power_mono)
  have "4 * variance4 xs = (p - b)\<^sup>2 + (q - b)\<^sup>2 + (r - b)\<^sup>2 + (s - b)\<^sup>2 - 4 * (mean4 xs - b)\<^sup>2"
    by (simp add: variance4_def mean4_def four power2_eq_square field_simps)
  also have "\<dots> \<le> 4 * tol ^ 2" using near [THEN sq] by (smt (verit) zero_le_power2)
  finally show "variance4 xs \<le> tol ^ 2" by simp
qed

lemma smoothed_snoc: "smoothed (xs @ [x]) = 9 / 10 * smoothed xs + 1 / 10 * variance4 (fst x)"
  by (simp add: smoothed_def)

lemma smoothed_nonneg: "0 \<le> smoothed xs"
  by (induction xs rule: rev_induct) (simp add: smoothed_def, simp add: smoothed_snoc variance4_nonneg)

lemma smoothed_le: "list_all (\<lambda>x. variance4 (fst x) \<le> V) xs \<Longrightarrow> 0 \<le> V \<Longrightarrow> smoothed xs \<le> V"
  by (induction xs rule: rev_induct) (simp add: smoothed_def, force simp: smoothed_snoc)

lemma smoothed_ge: "list_all (\<lambda>x. V \<le> variance4 (fst x)) ys \<Longrightarrow> V * (1 - (9 / 10) ^ length ys) \<le> smoothed (xs @ ys)"
proof (induction ys rule: rev_induct)
  case Nil
  show ?case using smoothed_nonneg by simp
next
  case (snoc y ys)
  then have "V * (1 - (9 / 10) ^ length ys) \<le> smoothed (xs @ ys)" "V \<le> variance4 (fst y)" by simp_all
  then show ?case by (simp add: smoothed_snoc [of "xs @ ys" y, simplified] algebra_simps)
qed

text \<open>
  Verdicts of the timing lock over a run of strides of four arrival times. While all arrivals are within the tolerance of
  their baselines no alarm is raised; a stride whose mean arrival is off by more than twice the tolerance raises it at
  once, whatever came before; and when the variance across channels stays at \<open>V\<close> or more for \<open>j\<close> strides
  with \<open>V * (1 - 0.9^j)\<close> above the squared tolerance, the last of them raises it.
\<close>

theorem timing_verdicts:
  assumes "0 \<le> tol" "list_all (\<lambda>x. 4 \<le> length (fst x)) xs"
  shows "\<exists>flags t. timing_run xs (timing_init tol) = Ok (flags, t) \<and> length flags = length xs \<and>
    (\<forall>k < length xs.
      (list_all (\<lambda>x. list_all (\<lambda>a. \<bar>a - snd x\<bar> \<le> tol) (fst x)) (take (Suc k) xs) \<longrightarrow> flags ! k = ''NOMINAL_TIMING'') \<and>
      (2 * tol < \<bar>mean4 (fst (xs ! k)) - snd (xs ! k)\<bar> \<longrightarrow> flags ! k = ''TIMING_COHERENCE_BREACH'') \<and>
      (\<forall>j V. j \<le> Suc k \<longrightarrow> list_all (\<lambda>x. V \<le> variance4 (fst x)) (drop (Suc k - j) (take (Suc k) xs)) \<longrightarrow>
        tol\<^sup>2 < V * (1 - (9 / 10) ^ j) \<longrightarrow> flags ! k = ''TIMING_COHERENCE_BREACH''))"
proof -
  let ?flag = "\<lambda>k. if breached tol (take (Suc k) xs) then ''TIMING_COHERENCE_BREACH'' else ''NOMINAL_TIMING''"
  have run: "timing_run xs (timing_init tol) = Ok (map ?flag [0..<length xs], (timing_init tol)\<lparr>tl_rolling_var := smoothed xs\<rparr>)"
    using timing_run_exact [OF assms(2), where t = "timing_init tol" and tol = tol and xs = "[]"] by (simp add: timing_init_def smoothed_def)
  have last: "last (take (Suc k) xs) = xs ! k" if "k < length xs" for k using that by (simp add: take_Suc_conv_app_nth)
  have quiet: "\<not> breached tol (take (Suc k) xs)"
    if "k < length xs" "list_all (\<lambda>x. list_all (\<lambda>a. \<bar>a - snd x\<bar> \<le> tol) (fst x)) (take (Suc k) xs)" for k
  proof -
    have each: "\<bar>mean4 (fst x) - snd x\<bar> \<le> tol \<and> variance4 (fst x) \<le> tol ^ 2" if "x \<in> set (take (Suc k) xs)" for x
      using that \<open>list_all _ (take (Suc k) xs)\<close> assms(2) within_tolerance [of "fst x" "snd x" tol] by (auto simp: list_all_iff dest: in_set_takeD)
    have "xs ! k \<in> set (take (Suc k) xs)" using that(1) by (simp add: take_Suc_conv_app_nth)
    with each have "\<bar>mean4 (fst (xs ! k)) - snd (xs ! k)\<bar> \<le> tol" by blast
    moreover have "smoothed (take (Suc k) xs) \<le> tol ^ 2" using each by (intro smoothed_le) (auto simp: list_all_iff)
    ultimately show ?thesis using assms(1) last [OF that(1)] by (simp add: breached_def)
  qed
  have spread: "breached tol (take (Suc k) xs)"
    if "k < length xs" "j \<le> Suc k" "list_all (\<lambda>x. V \<le> variance4 (fst x)) (drop (Suc k - j) (take (Suc k) xs))" "tol\<^sup>2 < V * (1 - (9 / 10) ^ j)" for k j V
  proof -
    have "V * (1 - (9 / 10) ^ length (drop (Suc k - j) (take (Suc k) xs))) \<le>
        smoothed (take (Suc k - j) (take (Suc k) xs) @ drop (Suc k - j) (take (Suc k) xs))" using that(3) by (rule smoothed_ge)
    then show ?thesis using that(1,2,4) by (simp only: append_take_drop_id) (simp add: breached_def)
  qed
  show ?thesis
  proof (rule exI [of _ "map ?flag [0..<length xs]"], rule exI [of _ "(timing_init tol)\<lparr>tl_rolling_var := smoothed xs\<rparr>"], intro conjI allI impI)
    fix k assume k: "k < length xs" "2 * tol < \<bar>mean4 (fst (xs ! k)) - snd (xs ! k)\<bar>"
    then have "breached tol (take (Suc k) xs)" by (simp add: breached_def last mult.commute)
    then show "map ?flag [0..<length xs] ! k = ''TIMING_COHERENCE_BREACH''" using k(1) by simp
  qed (use run quiet spread in simp_all)
qed

theorem timing_verdicts_witness:
  "\<exists>t. timing_run [([5, 5, 5, 5], 5), ([7, 7, 7, 7], 4)] (timing_init 1) = Ok ([''NOMINAL_TIMING'', ''TIMING_COHERENCE_BREACH''], t)"
proof -
  let ?xs = "[([5, 5, 5, 5], 5), ([7, 7, 7, 7], 4)] :: (real list \<times> real) list"
  obtain flags t where f: "timing_run ?xs (timing_init 1) = Ok (flags, t)" "length flags = 2" and v: "\<And>k. k < 2 \<Longrightarrow>
      (list_all (\<lambda>x. list_all (\<lambda>a. \<bar>a - snd x\<bar> \<le> 1) (fst x)) (take (Suc k) ?xs) \<longrightarrow> flags ! k = ''NOMINAL_TIMING'') \<and>
      (2 * 1 < \<bar>mean4 (fst (?xs ! k)) - snd (?xs ! k)\<bar> \<longrightarrow> flags ! k = ''TIMING_COHERENCE_BREACH'')"
    using timing_verdicts [of 1 ?xs] by auto
  have "flags ! 0 = ''NOMINAL_TIMING''" "flags ! 1 = ''TIMING_COHERENCE_BREACH''" using v [of 0] v [of 1] by (simp_all add: mean4_def)
  moreover have "flags = [flags ! 0, flags ! 1]" using f(2) by (intro nth_equalityI) (auto simp: less_Suc_eq numeral_2_eq_2)
  ultimately show ?thesis using f(1) by metis
qed

section \<open>The shield\<close>

definition bit_errors :: "real list \<times> real list \<times> real list \<Rightarrow> real" where
  "bit_errors x = Max (set (fst x))"

definition framed :: "real list \<times> real list \<times> real list \<Rightarrow> bool" where
  "framed x \<longleftrightarrow> length (fst x) = 4 \<and> length (fst (snd x)) = 4 \<and> length (snd (snd x)) = 4"

definition shield_state :: "real \<Rightarrow> (real list \<times> real list \<times> real list) list \<Rightarrow> conditioner \<Rightarrow> ber_monitor \<times> conditioner \<Rightarrow> bool" where
  "shield_state thr xs c0 mc \<longleftrightarrow> bm_threshold (fst mc) = thr \<and> co_base_load (snd mc) = co_base_load c0 \<and>
     bm_shielding (fst mc) = (xs \<noteq> [] \<and> thr < bit_errors (last xs)) \<and>
     co_trace_scale (snd mc) = (if xs \<noteq> [] \<and> thr < bit_errors (last xs) then 1 / 100
       else if list_ex (\<lambda>x. thr < bit_errors x) xs then 1 / 10000 else co_trace_scale c0)"

lemma framing_step:
  assumes "shield_state thr xs c0 mc" "framed x"
  shows "\<exists>D mc'. process_framing_stride (fst x) (fst (snd x)) (snd (snd x)) mc = Ok (D, mc') \<and> shield_state thr (xs @ [x]) c0 mc'"
proof -
  obtain m c where mc: "mc = (m, c)" by (cases mc)
  have s: "bm_threshold m = thr" "co_base_load c = co_base_load c0" "bm_shielding m = (xs \<noteq> [] \<and> thr < bit_errors (last xs))"
    "co_trace_scale c = (if xs \<noteq> [] \<and> thr < bit_errors (last xs) then 1 / 100
       else if list_ex (\<lambda>x. thr < bit_errors x) xs then 1 / 10000 else co_trace_scale c0)"
    using assms(1) by (simp_all add: shield_state_def mc)
  have ex: "xs \<noteq> [] \<Longrightarrow> thr < bit_errors (last xs) \<Longrightarrow> list_ex (\<lambda>x. thr < bit_errors x) xs"
    by (auto simp: list_ex_iff intro!: bexI [of _ "last xs"])
  obtain m' c' where sh: "shield (bit_errors x) m c = (m', c')" by (cases "shield (bit_errors x) m c")
  have "shield_state thr (xs @ [x]) c0 (m'\<lparr>bm_degradation := d\<rparr>, c')" for d
    using sh s ex unfolding shield_def shield_state_def by (auto split: if_splits)
  then show ?thesis using assms(2) sh
    by (simp add: mc framed_def process_framing_stride_def spread4_def bit_errors_def Let_def)
qed

lemma framing_run_state:
  assumes "list_all framed ys" "shield_state thr xs c0 mc"
  shows "\<exists>mc'. framing_run ys mc = Ok mc' \<and> shield_state thr (xs @ ys) c0 mc'"
  using assms
proof (induction ys arbitrary: xs mc)
  case (Cons y ys)
  obtain D mc1 where 1: "process_framing_stride (fst y) (fst (snd y)) (snd (snd y)) mc = Ok (D, mc1)" "shield_state thr (xs @ [y]) c0 mc1"
    using framing_step [OF Cons.prems(2), of y] Cons.prems(1) by auto
  from Cons.IH [OF _ 1(2)] Cons.prems(1) 1(1) show ?case by (cases y) auto
qed simp

text \<open>The loaded matrix as a quadratic form; \<open>alpha\<close> is what is added to its diagonal.\<close>

definition quad_form :: "cmat \<Rightarrow> (nat \<Rightarrow> complex) \<Rightarrow> complex" where
  "quad_form A v = (\<Sum>i<4. cnj (v i) * mat_vec A v i)"

lemma quad_form_cov: "quad_form (sample_cov len n Y) v = complex_of_real ((\<Sum>k<len. (cmod (\<Sum>i<4. cnj (v i) * Y ! i ! k))\<^sup>2) / real n)"
proof -
  let ?s = "\<lambda>k. \<Sum>i<4. cnj (v i) * Y ! i ! k"
  have "quad_form (sample_cov len n Y) v = (\<Sum>i<4. \<Sum>j<4. \<Sum>k<len. (cnj (v i) * Y ! i ! k) * cnj (cnj (v j) * Y ! j ! k)) / of_nat n"
    by (simp add: quad_form_def mat_vec_def sample_cov_def sum_divide_distrib sum_distrib_left sum_distrib_right mult_ac)
  also have "(\<Sum>i<4. \<Sum>j<4. \<Sum>k<len. (cnj (v i) * Y ! i ! k) * cnj (cnj (v j) * Y ! j ! k)) =
      (\<Sum>k<len. \<Sum>i<4. \<Sum>j<4. (cnj (v i) * Y ! i ! k) * cnj (cnj (v j) * Y ! j ! k))"
    by (subst sum.swap [of _ "{..<4}" "{..<len}"], subst sum.swap [of _ "{..<4}" "{..<len}"]) (rule refl)
  also have "\<dots> = (\<Sum>k<len. ?s k * cnj (?s k))" by (simp only: sum_product cnj_sum)
  also have "\<dots> = complex_of_real (\<Sum>k<len. (cmod (?s k))\<^sup>2)" by (simp add: complex_norm_square flip: of_real_power)
  finally show ?thesis by simp
qed

lemma quad_form_bounds:
  "0 \<le> Re (quad_form (sample_cov len n Y) v)" "Re (quad_form (sample_cov len n Y) v) \<le> trace4 (sample_cov len n Y) * sum_sq v"
proof -
  show "0 \<le> Re (quad_form (sample_cov len n Y) v)" by (simp add: quad_form_cov sum_nonneg)
  have "(cmod (\<Sum>i<4. cnj (v i) * Y ! i ! k))\<^sup>2 \<le> sum_sq v * (\<Sum>i<4. (cmod (Y ! i ! k))\<^sup>2)" for k
    using cauchy_schwarz_complex [of "\<lambda>i. cnj (v i)" "\<lambda>i. Y ! i ! k" 4] by (simp add: sum_sq_alt)
  then have "(\<Sum>k<len. (cmod (\<Sum>i<4. cnj (v i) * Y ! i ! k))\<^sup>2) \<le> (\<Sum>k<len. sum_sq v * (\<Sum>i<4. (cmod (Y ! i ! k))\<^sup>2))" by (rule sum_mono)
  also have "\<dots> = sum_sq v * (\<Sum>i<4. row_power len Y i)"
    by (simp only: sum_distrib_left [symmetric] row_power_def) (subst sum.swap, rule refl)
  finally have "(\<Sum>k<len. (cmod (\<Sum>i<4. cnj (v i) * Y ! i ! k))\<^sup>2) / real n \<le> sum_sq v * (\<Sum>i<4. row_power len Y i) / real n"
    by (rule divide_right_mono) simp
  then show "Re (quad_form (sample_cov len n Y) v) \<le> trace4 (sample_cov len n Y) * sum_sq v"
    by (simp add: quad_form_cov trace_power mult.commute)
qed

lemma quad_form_loaded:
  "Re (quad_form (condition_matrix 4 R c) v) = Re (quad_form R v) + loaded_diagonal c (trace4 R) * sum_sq v"
proof -
  let ?a = "complex_of_real (loaded_diagonal c (trace4 R))"
  have "condition_matrix 4 R c = (\<lambda>i j. R i j + (if i = j then ?a else 0))" unfolding condition_matrix_def Let_def trace4_def Re_sum ..
  then have "mat_vec (condition_matrix 4 R c) v i = mat_vec R v i + (if i < 4 then ?a * v i else 0)" for i
    by (simp add: mat_vec_def distrib_right sum.distrib if_distrib [of "\<lambda>x. x * _"] cong: if_cong)
  then have "quad_form (condition_matrix 4 R c) v = quad_form R v + (\<Sum>i<4. ?a * (cnj (v i) * v i))"
    by (simp add: quad_form_def distrib_left sum.distrib mult_ac)
  also have "(\<Sum>i<4. ?a * (cnj (v i) * v i)) = complex_of_real (loaded_diagonal c (trace4 R) * sum_sq v)"
    by (simp add: sum_sq_alt complex_norm_square sum_distrib_left mult.commute flip: of_real_power)
  finally show ?thesis by simp
qed

text \<open>
  After any framing strides the trace scale is 1/100 exactly when the worst bit error rate of the last stride is above the
  threshold; a covariance loaded then is conditioned: its quadratic form stays within a factor of 101 over all
  directions, whatever the signals are.
\<close>

theorem shield_conditions:
  assumes "list_all framed (xs @ [x])" "0 \<le> co_base_load c0" "trace4 (sample_cov len n Y) \<noteq> 0" "0 < n"
  shows "\<exists>m c. framing_run (xs @ [x]) (ber_init thr, c0) = Ok (m, c) \<and> (bm_shielding m \<longleftrightarrow> thr < bit_errors x) \<and>
    (thr < bit_errors x \<longrightarrow> co_trace_scale c = 1 / 100 \<and> (\<forall>u v. sum_sq u = 1 \<longrightarrow> sum_sq v = 1 \<longrightarrow>
      0 < Re (quad_form (condition_matrix 4 (sample_cov len n Y) c) u) \<and>
      Re (quad_form (condition_matrix 4 (sample_cov len n Y) c) v) \<le> 101 * Re (quad_form (condition_matrix 4 (sample_cov len n Y) c) u))) \<and>
    (\<not> thr < bit_errors x \<longrightarrow> co_trace_scale c = (if list_ex (\<lambda>y. thr < bit_errors y) xs then 1 / 10000 else co_trace_scale c0))"
proof -
  let ?R = "sample_cov len n Y"
  have "shield_state thr [] c0 (ber_init thr, c0)" by (simp add: shield_state_def ber_init_def)
  from framing_run_state [OF assms(1) this] obtain m c where r: "framing_run (xs @ [x]) (ber_init thr, c0) = Ok (m, c)"
    "shield_state thr (xs @ [x]) c0 (m, c)" by auto
  then have s: "co_base_load c = co_base_load c0" "bm_shielding m = (thr < bit_errors x)"
    "co_trace_scale c = (if thr < bit_errors x then 1 / 100 else if list_ex (\<lambda>x. thr < bit_errors x) (xs @ [x]) then 1 / 10000 else co_trace_scale c0)"
    by (auto simp: shield_state_def)
  have tr: "0 < trace4 ?R" using trace_nonneg [of len n Y] assms(3) by simp
  have "0 < Re (quad_form (condition_matrix 4 ?R c) u) \<and> Re (quad_form (condition_matrix 4 ?R c) v) \<le> 101 * Re (quad_form (condition_matrix 4 ?R c) u)"
    if "co_trace_scale c = 1 / 100" "sum_sq u = 1" "sum_sq v = 1" for u v
  proof -
    let ?a = "loaded_diagonal c (trace4 ?R)"
    have a: "trace4 ?R / 100 \<le> ?a" unfolding loaded_diagonal_def that(1) s(1) using assms(2) by simp
    have "Re (quad_form (condition_matrix 4 ?R c) u) = Re (quad_form ?R u) + ?a" "Re (quad_form (condition_matrix 4 ?R c) v) = Re (quad_form ?R v) + ?a"
      using that(2,3) by (simp_all add: quad_form_loaded)
    moreover have "0 \<le> Re (quad_form ?R u)" "Re (quad_form ?R v) \<le> trace4 ?R"
      using quad_form_bounds(1) [of len n Y u] quad_form_bounds(2) [of len n Y v] that(3) by simp_all
    ultimately show ?thesis using a tr by linarith
  qed
  with r(1) s show ?thesis by (intro exI [of _ m] exI [of _ c]) auto
qed

theorem shield_conditions_witness:
  "\<exists>m c. framing_run ([] @ [([0, 0, 1, 0], [0, 0, 0, 0], [0, 0, 0, 0])]) (ber_init (1 / 1000), \<lparr>co_base_load = 0, co_trace_scale = 1 / 10000\<rparr>) = Ok (m, c) \<and>
     bm_shielding m \<and> co_trace_scale c = 1 / 100"
proof -
  have "trace4 (sample_cov 1 1 (replicate 4 [1])) = 4" by (simp add: trace4_def sample_cov_def)
  moreover have "list_all framed ([] @ [([0, 0, 1, 0], [0, 0, 0, 0], [0, 0, 0, 0])])" by (simp add: framed_def)
  ultimately show ?thesis
    using shield_conditions [of "[]" "([0, 0, 1, 0], [0, 0, 0, 0], [0, 0, 0, 0])" "\<lparr>co_base_load = 0, co_trace_scale = 1 / 10000\<rparr>" 1 1 "replicate 4 [1]" "1 / 1000"]
    by (auto simp: bit_errors_def)
qed

section \<open>The gate\<close>

definition thermal_ok :: "thermal \<Rightarrow> bool" where
  "thermal_ok t \<longleftrightarrow> 0 < th_nominal t \<and> th_q t = th_nominal t / 1000 \<and> th_r t = th_nominal t / 2 \<and> th_spike t = th_nominal t * 4 \<and> 0 < th_x t \<and> 0 < th_p t"

definition gated :: "real \<Rightarrow> thermal \<Rightarrow> bool" where
  "gated reading t \<longleftrightarrow> th_spike t < reading - th_x t"

lemma thermal_init_ok: "thermal_ok (thermal_init dbm)"
  by (simp add: thermal_ok_def thermal_init_def Let_def)

lemma blend_ratio:
  assumes "0 < p" "0 < (r :: real)"
  shows "0 < p / (p + r)" "p / (p + r) < 1" "p / (p + r) \<le> p / r" "0 < (1 - p / (p + r)) * p" "(1 - p / (p + r)) * p \<le> p" "(1 - p / (p + r)) * p \<le> r"
proof -
  have "0 < p + r" using assms by simp
  have e: "(1 - p / (p + r)) * p = p * r / (p + r)" using \<open>0 < p + r\<close> by (simp add: field_simps)
  show "0 < p / (p + r)" "p / (p + r) < 1" using assms by simp_all
  show "p / (p + r) \<le> p / r" using assms by (intro divide_left_mono) simp_all
  show "0 < (1 - p / (p + r)) * p" using assms unfolding e by simp
  show "(1 - p / (p + r)) * p \<le> p" "(1 - p / (p + r)) * p \<le> r" using assms \<open>0 < p + r\<close> unfolding e by (simp_all add: pos_divide_le_eq algebra_simps)
qed

lemma thermal_step:
  assumes "thermal_ok t" "0 < reading"
  shows "\<exists>C factor k t'. compensate_stride R reading t = Ok (C, factor, t') \<and> thermal_ok t' \<and> th_nominal t' = th_nominal t \<and>
    factor = th_nominal t / th_x t' \<and> th_x t' = th_x t + k * (reading - th_x t) \<and> 0 < k \<and> k < 1 \<and> th_p t' \<le> th_p t + th_nominal t / 1000 \<and>
    (gated reading t \<longrightarrow> k \<le> (th_p t + th_nominal t / 1000) / (5000 * th_nominal t)) \<and> (\<not> gated reading t \<longrightarrow> th_p t' \<le> th_nominal t / 2)"
proof -
  let ?p = "th_p t + th_q t" and ?r = "if gated reading t then th_r t * 10000 else th_r t"
  let ?k = "?p / (?p + ?r)"
  have t: "0 < th_nominal t" "th_q t = th_nominal t / 1000" "th_r t = th_nominal t / 2" "th_spike t = th_nominal t * 4" "0 < th_x t" "0 < th_p t"
    using assms(1) by (auto simp: thermal_ok_def)
  have pos: "0 < ?p" "0 < ?r" using t by (simp_all add: add_pos_pos)
  note b = blend_ratio [OF pos]
  let ?x = "th_x t + ?k * (reading - th_x t)"
  have "x + k * (r - x) = (1 - k) * x + k * r" for x k r :: real by (simp add: algebra_simps)
  then have "?x = (1 - ?k) * th_x t + ?k * reading" .
  then have x: "0 < ?x" using b(1,2) t(5) assms(2) by (simp only: add_pos_pos mult_pos_pos diff_gt_0_iff_gt)
  have den: "\<not> ?p + ?r = 0" using pos by linarith
  have nz: "\<not> ?x = 0" using x by linarith
  have "kalman_1d_update reading (th_x t) (th_p t) (th_q t) (th_r t) (th_spike t) = Ok (?x, (1 - ?k) * ?p)"
    unfolding kalman_1d_update_def Let_def gated_def [symmetric] if_not_P [OF den] ..
  then have run: "compensate_stride R reading t = Ok (map (map (\<lambda>z. z * complex_of_real (th_nominal t / ?x))) R, th_nominal t / ?x, t\<lparr>th_x := ?x, th_p := (1 - ?k) * ?p\<rparr>)"
    unfolding compensate_stride_def by (simp only: seqE_simps prod.case if_not_P [OF nz] Let_def)
  have ok: "thermal_ok (t\<lparr>th_x := ?x, th_p := (1 - ?k) * ?p\<rparr>)" unfolding thermal_ok_def using t(1-4) x b(4) by simp
  define t' where "t' = t\<lparr>th_x := ?x, th_p := (1 - ?k) * ?p\<rparr>"
  have proj: "th_x t' = ?x" "th_nominal t' = th_nominal t" "th_p t' = (1 - ?k) * ?p" by (simp_all add: t'_def)
  have "th_p t' \<le> th_p t + th_nominal t / 1000" using b(5) unfolding proj(3) t(2) .
  moreover have "?k \<le> (th_p t + th_nominal t / 1000) / (5000 * th_nominal t)" if "gated reading t" using b(3) that by (simp add: t(2,3))
  moreover have "th_p t' \<le> th_nominal t / 2" if "\<not> gated reading t"
    using b(6) unfolding proj(3) if_not_P [OF that] t(3) .
  moreover note proj(1,2)
  ultimately show ?thesis using run [folded t'_def] ok [folded t'_def] b(1,2) by metis
qed

text \<open>A burst: every reading of it is above the gate when it arrives.\<close>

fun burst :: "(complex list list \<times> real) list \<Rightarrow> thermal \<Rightarrow> bool" where
  "burst [] t = True"
| "burst ((R, reading) # xs) t = (gated reading t \<and> (case compensate_stride R reading t of Inl _ \<Rightarrow> False | Inr (_, _, t') \<Rightarrow> burst xs t'))"

lemma burst_bound:
  assumes "thermal_ok t" "burst zs t" "list_all (\<lambda>z. snd z \<le> peak) zs" "th_x t \<le> peak"
  shows "\<exists>fs t'. thermal_run zs t = Ok (fs, t') \<and> length fs = length zs \<and> th_x t \<le> th_x t' \<and>
    th_x t' \<le> th_x t + real (length zs) * (th_p t + real (length zs) * (th_nominal t / 1000)) / (5000 * th_nominal t) * (peak - th_x t)"
  using assms
proof (induction zs arbitrary: t)
  case (Cons z zs)
  obtain R reading where z: "z = (R, reading)" by (cases z)
  let ?N = "th_nominal t" and ?q = "th_nominal t / 1000" and ?m = "real (length zs)" and ?D = "peak - th_x t"
  have N: "0 < ?N" "0 < th_x t" "0 < th_p t" "th_spike t = ?N * 4" using Cons.prems(1) by (auto simp: thermal_ok_def)
  have g: "gated reading t" using Cons.prems(2) by (simp add: z)
  then have up: "0 < reading - th_x t" using N(1,4) unfolding gated_def by linarith
  then have "0 < reading" using N(2) by linarith
  from thermal_step [OF Cons.prems(1) this, of R] obtain C factor k t1 where
    s: "compensate_stride R reading t = Ok (C, factor, t1)" "thermal_ok t1" "th_nominal t1 = ?N" "th_x t1 = th_x t + k * (reading - th_x t)"
      "0 < k" "k < 1" "th_p t1 \<le> th_p t + ?q" "k \<le> (th_p t + ?q) / (5000 * ?N)"
    using g by blast
  have le: "reading \<le> peak" using Cons.prems(3) by (simp add: z)
  have k1: "k * (reading - th_x t) \<le> 1 * (reading - th_x t)" using s(6) up by (intro mult_right_mono) simp_all
  then have x1: "th_x t1 \<le> peak" using le unfolding s(4) by simp
  have x1': "th_x t \<le> th_x t1" using s(5) up unfolding s(4) by simp
  note x1 = x1 x1'
  have "burst zs t1" using Cons.prems(2) s(1) by (simp add: z)
  from Cons.IH [OF s(2) this _ x1(1)] Cons.prems(3) obtain fs t' where r: "thermal_run zs t1 = Ok (fs, t')" "length fs = length zs"
    "th_x t1 \<le> th_x t'" "th_x t' \<le> th_x t1 + ?m * (th_p t1 + ?m * ?q) / (5000 * ?N) * (peak - th_x t1)"
    unfolding s(3) by auto
  have D: "0 \<le> ?D" using Cons.prems(4) by simp
  have q: "0 \<le> ?q" using N(1) by simp
  have p1: "0 \<le> th_p t1" using s(2) by (simp add: thermal_ok_def)
  have "?m * (th_p t1 + ?m * ?q) / (5000 * ?N) * (peak - th_x t1) \<le> ?m * ((th_p t + ?q) + ?m * ?q) / (5000 * ?N) * ?D"
    using s(7) x1 N(1,3) q p1 D by (intro mult_mono divide_right_mono mult_left_mono add_right_mono divide_nonneg_nonneg mult_nonneg_nonneg add_nonneg_nonneg) simp_all
  moreover have "k * (reading - th_x t) \<le> (th_p t + ?q) / (5000 * ?N) * ?D"
    using s(5,8) le up by (intro mult_mono) simp_all
  moreover have "(th_p t + ?q) / (5000 * ?N) * ?D + ?m * ((th_p t + ?q) + ?m * ?q) / (5000 * ?N) * ?D \<le>
      (?m + 1) * (th_p t + (?m + 1) * ?q) / (5000 * ?N) * ?D"
  proof -
    have "(th_p t + ?q) + ?m * ((th_p t + ?q) + ?m * ?q) \<le> (?m + 1) * (th_p t + (?m + 1) * ?q)" using q by (simp add: algebra_simps)
    then have "((th_p t + ?q) + ?m * ((th_p t + ?q) + ?m * ?q)) / (5000 * ?N) * ?D \<le> (?m + 1) * (th_p t + (?m + 1) * ?q) / (5000 * ?N) * ?D"
      using N(1) D by (intro mult_right_mono divide_right_mono) simp_all
    then show ?thesis by (simp add: add_divide_distrib distrib_right)
  qed
  ultimately have "th_x t' \<le> th_x t + (?m + 1) * (th_p t + (?m + 1) * ?q) / (5000 * ?N) * ?D" using r(4) s(4) by linarith
  then show ?case using r(1-3) s(1) x1(2) by (simp add: z add.commute)
qed simp

lemma thermal_run_ok:
  assumes "thermal_ok t" "list_all (\<lambda>z. 0 < snd z) xs"
  shows "\<exists>fs t'. thermal_run xs t = Ok (fs, t') \<and> thermal_ok t' \<and> th_nominal t' = th_nominal t \<and> list_all (\<lambda>f. 0 < f) fs"
  using assms
proof (induction xs arbitrary: t)
  case (Cons x xs)
  obtain R reading where x: "x = (R, reading)" by (cases x)
  have "0 < reading" using Cons.prems(2) by (simp add: x)
  from thermal_step [OF Cons.prems(1) this, of R] obtain C factor t1 where
    1: "compensate_stride R reading t = Ok (C, factor, t1)" "thermal_ok t1" "th_nominal t1 = th_nominal t" "factor = th_nominal t / th_x t1" by blast
  have "0 < factor" using 1(2,3) Cons.prems(1) by (simp add: 1(4) thermal_ok_def)
  with Cons.IH [OF 1(2)] Cons.prems(2) 1(1,3) show ?case by (auto simp: x)
qed simp

text \<open>
  Jamming leaks little into the noise floor. After any positive readings and a last one within the gate, a burst of \<open>n\<close>
  gated readings up to \<open>peak\<close> never fails, and raises the estimate by at most the fraction
  \<open>n (500 + n) / 5000000\<close> of the way to the peak.
\<close>

theorem burst_leaks_little:
  assumes "list_all (\<lambda>z. 0 < snd z) xs" "thermal_run xs (thermal_init dbm) = Ok (fs0, t0)" "0 < reading" "\<not> gated reading t0"
    "compensate_stride R reading t0 = Ok (C, factor, t)" "burst zs t" "list_all (\<lambda>z. snd z \<le> peak) zs" "th_x t \<le> peak"
  shows "\<exists>fs t'. thermal_run zs t = Ok (fs, t') \<and> length fs = length zs \<and> th_x t \<le> th_x t' \<and>
    th_x t' - th_x t \<le> real (length zs) * (500 + real (length zs)) / 5000000 * (peak - th_x t)"
proof -
  let ?n = "real (length zs)" and ?N = "th_nominal t"
  have ok0: "thermal_ok t0" using thermal_run_ok [OF thermal_init_ok assms(1), of dbm] assms(2) by auto
  from thermal_step [OF ok0 assms(3), of R] assms(4,5) have t: "thermal_ok t" "th_p t \<le> ?N / 2" by auto
  then have N: "0 < ?N" by (simp add: thermal_ok_def)
  have "?n * (th_p t + ?n * (?N / 1000)) / (5000 * ?N) * (peak - th_x t) \<le> ?n * (?N / 2 + ?n * (?N / 1000)) / (5000 * ?N) * (peak - th_x t)"
    using t(2) N assms(8) by (intro mult_right_mono divide_right_mono mult_left_mono) simp_all
  also have "?n * (?N / 2 + ?n * (?N / 1000)) / (5000 * ?N) = ?n * (500 + ?n) / 5000000" using N by (simp add: field_simps)
  finally have le: "?n * (th_p t + ?n * (?N / 1000)) / (5000 * ?N) * (peak - th_x t) \<le> ?n * (500 + ?n) / 5000000 * (peak - th_x t)" .
  obtain fs t' where r: "thermal_run zs t = Ok (fs, t')" "length fs = length zs" "th_x t \<le> th_x t'"
    "th_x t' \<le> th_x t + ?n * (th_p t + ?n * (?N / 1000)) / (5000 * ?N) * (peak - th_x t)"
    using burst_bound [OF t(1) assms(6-8)] by blast
  have "th_x t' - th_x t \<le> ?n * (500 + ?n) / 5000000 * (peak - th_x t)" using r(4) le by linarith
  with r(1-3) show ?thesis by blast
qed

theorem burst_leaks_little_witness:
  "\<exists>fs t t'. compensate_stride [] 1 (thermal_init 0) = Ok ([], 1, t) \<and> thermal_run [([], 50)] t = Ok (fs, t') \<and> th_x t' \<le> 1 + 501 / 5000000 * 49"
proof -
  have init: "thermal_init 0 = \<lparr>th_nominal = 1, th_x = 1, th_p = 1 / 10, th_q = 1 / 1000, th_r = 1 / 2, th_spike = 4\<rparr>"
    by (simp add: thermal_init_def)
  have ungated: "\<not> gated 1 (thermal_init 0)" by (simp add: gated_def init)
  obtain t where t: "compensate_stride [] 1 (thermal_init 0) = Ok ([], 1, t)" "th_x t = 1" "th_spike t = 4" "thermal_ok t"
    using thermal_step [of "thermal_init 0" 1 "[]", OF thermal_init_ok] by (auto simp: compensate_stride_def kalman_1d_update_def Let_def init)
  have g: "gated 50 t" using t(2,3) by (simp add: gated_def)
  have "burst [([], 50)] t" using thermal_step [OF t(4), of 50 "[]"] g by auto
  with burst_leaks_little [of "[]" 0 "[]" "thermal_init 0" 1 "[]" "[]" 1 t "[([], 50)]" 50] t ungated show ?thesis by auto
qed

end
