(* ===== verification/Correlator_Shape.thy ===== *)
theory Correlator_Shape
  imports Prelude
begin

text \<open>
  The shape of the correlation peak: \<^verbatim>\<open>correlator_dissector.py\<close> scores and flags the seven taps of every channel,
  \<^verbatim>\<open>correlator_fusion_bridge.py\<close> turns them into five features per channel, with a circular history of skews, and hands
  them to the calibration engine, the spatial detector, the inference queue and the dashboard. Magnitudes and
  averages are exact reals.
\<close>

section \<open>The dissector\<close>

text \<open>A row of \<^verbatim>\<open>correlation_taps\<close>, from -0.75 to 0.75 chips; the prompt is in the middle.\<close>

datatype taps = Taps complex complex complex complex complex complex complex

definition dissect_taps :: "real \<Rightarrow> real \<Rightarrow> taps \<Rightarrow> real \<times> bool" where
  "dissect_taps asymmetry_threshold multi_peak_threshold t = (case t of Taps t0 t1 t2 t3 t4 t5 t6 \<Rightarrow>
     let a0 = cmod t0; a1 = cmod t1; a2 = cmod t2; a3 = cmod t3; a4 = cmod t4; a5 = cmod t5; a6 = cmod t6;
          nrm = (if 1 / 10 ^ 9 < a3 then a3 else 1);
          n0 = a0 / nrm; n1 = a1 / nrm; n2 = a2 / nrm; n4 = a4 / nrm; n5 = a5 / nrm; n6 = a6 / nrm;
          d_0_6 = \<bar>n0 - n6\<bar>; d_1_5 = \<bar>n1 - n5\<bar>; d_2_4 = \<bar>n2 - n4\<bar>;
          total_sym = d_2_4 + d_1_5 + d_0_6;
          left_violation = (multi_peak_threshold < n1 - n2 \<or> multi_peak_threshold < n0 - n1);
          right_violation = (multi_peak_threshold < n5 - n4 \<or> multi_peak_threshold < n6 - n5);
          prompt_not_peak = (105 / 100 < n2 \<or> 105 / 100 < n4)
      in (total_sym, asymmetry_threshold < total_sym \<or> left_violation \<or> right_violation \<or> prompt_not_peak))"

text \<open>The loop over the channels fills both output arrays; longer arrays keep their tails.\<close>

definition dissect_channel_correlators ::
    "real \<Rightarrow> real \<Rightarrow> taps list \<Rightarrow> real list \<Rightarrow> bool list \<Rightarrow> fault + (real list \<times> bool list)" where
  "dissect_channel_correlators asymmetry_threshold multi_peak_threshold correlation_taps scores flags =
     (let rs = map (dissect_taps asymmetry_threshold multi_peak_threshold) correlation_taps
      in seqE (store_all scores 0 (map fst rs)) (\<lambda>scores'.
         seqE (store_all flags 0 (map snd rs)) (\<lambda>flags'. Ok (scores', flags'))))"

record dissector =
  ds_asymmetry :: real
  ds_multi_peak :: real
  ds_scores :: "real list"
  ds_flags :: "bool list"

definition dissector_init :: "nat \<Rightarrow> real \<Rightarrow> real \<Rightarrow> dissector" where
  "dissector_init num_channels asymmetry_threshold multi_peak_threshold =
     \<lparr>ds_asymmetry = asymmetry_threshold, ds_multi_peak = multi_peak_threshold,
      ds_scores = replicate num_channels 0, ds_flags = replicate num_channels False\<rparr>"

definition dissect_stride :: "taps list \<Rightarrow> dissector \<Rightarrow> fault + dissector" where
  "dissect_stride correlation_taps d =
     seqE (dissect_channel_correlators (ds_asymmetry d) (ds_multi_peak d) correlation_taps (ds_scores d) (ds_flags d))
       (\<lambda>(scores, flags). Ok (d\<lparr>ds_scores := scores, ds_flags := flags\<rparr>))"

section \<open>The features\<close>

text \<open>A row of \<^verbatim>\<open>feature_matrix\<close>, and what the bridge keeps for a channel\<close>

record features =
  fe_skew :: real
  fe_residual :: real
  fe_slope :: real
  fe_prompt :: real
  fe_stability :: real

record channel_trace =
  ct_history :: "real list"
  ct_index :: nat
  ct_features :: features

definition skew_asym :: "taps \<Rightarrow> real" where
  "skew_asym t = (case t of Taps t0 t1 t2 t3 t4 t5 t6 \<Rightarrow>
     let a3 = cmod t3; nrm = (if 1 / 10 ^ 12 < a3 then a3 else 1) in cmod t1 / nrm - cmod t5 / nrm)"

definition slope_imb :: "taps \<Rightarrow> real" where
  "slope_imb t = (case t of Taps t0 t1 t2 t3 t4 t5 t6 \<Rightarrow>
     let a3 = cmod t3; nrm = (if 1 / 10 ^ 12 < a3 then a3 else 1)
      in 2 * (1 - cmod t1 / nrm) - 2 * (1 - cmod t5 / nrm))"

definition prompt_norm :: "taps \<Rightarrow> real" where
  "prompt_norm t = (case t of Taps t0 t1 t2 t3 t4 t5 t6 \<Rightarrow>
     let a0 = cmod t0; a1 = cmod t1; a2 = cmod t2; a3 = cmod t3; a4 = cmod t4; a5 = cmod t5; a6 = cmod t6
      in a3 * a3 / (a0 * a0 + a1 * a1 + a2 * a2 + a3 * a3 + a4 * a4 + a5 * a5 + a6 * a6 + 1 / 10 ^ 12))"

text \<open>The two inline loops over the window\<close>

definition mean_of :: "nat \<Rightarrow> real list \<Rightarrow> real" where
  "mean_of n xs = sum_list xs / real n"

definition std_of :: "nat \<Rightarrow> real list \<Rightarrow> real" where
  "std_of n xs = (let mean_val = mean_of n xs
                  in sqrt (sum_list (map (\<lambda>x. (x - mean_val) * (x - mean_val)) xs) / real n))"

definition extract_channel :: "nat \<Rightarrow> taps \<Rightarrow> real \<Rightarrow> channel_trace \<Rightarrow> fault + channel_trace" where
  "extract_channel window_size t score c =
     seqE (store (ct_history c) (ct_index c) (skew_asym t)) (\<lambda>h.
       if length h < window_size then Fail OutOfBounds
       else if window_size = 0 then Fail ZeroDivisionError
       else Ok \<lparr>ct_history = h, ct_index = (ct_index c + 1) mod window_size,
         ct_features = \<lparr>fe_skew = skew_asym t, fe_residual = score, fe_slope = slope_imb t, fe_prompt = prompt_norm t,
           fe_stability = std_of window_size (take window_size h)\<rparr>\<rparr>)"

fun extract_fused_features :: "nat \<Rightarrow> taps list \<Rightarrow> real list \<Rightarrow> channel_trace list \<Rightarrow> fault + channel_trace list" where
  "extract_fused_features window_size [] scores cs = Ok cs"
| "extract_fused_features window_size (t # ts) (s # ss) (c # cs) =
     seqE (extract_channel window_size t s c) (\<lambda>c'.
     seqE (extract_fused_features window_size ts ss cs) (\<lambda>cs'. Ok (c' # cs')))"
| "extract_fused_features window_size (t # ts) scores cs = Fail OutOfBounds"

section \<open>The bridge\<close>

record bridge =
  cb_window :: nat
  cb_asymmetry :: real
  cb_multi_peak :: real
  cb_scores :: "real list"
  cb_flags :: "bool list"
  cb_channels :: "channel_trace list"

definition zero_features :: features where
  "zero_features = \<lparr>fe_skew = 0, fe_residual = 0, fe_slope = 0, fe_prompt = 0, fe_stability = 0\<rparr>"

text \<open>A window of no strides makes the trial run of the constructor write outside the history.\<close>

definition bridge_init :: "nat \<Rightarrow> nat \<Rightarrow> real \<Rightarrow> real \<Rightarrow> fault + bridge" where
  "bridge_init num_channels window_size asymmetry_threshold multi_peak_threshold =
     (if window_size = 0 \<and> 0 < num_channels then Fail OutOfBounds
      else Ok \<lparr>cb_window = window_size, cb_asymmetry = asymmetry_threshold, cb_multi_peak = multi_peak_threshold,
        cb_scores = replicate num_channels 0, cb_flags = replicate num_channels False,
        cb_channels = replicate num_channels
          \<lparr>ct_history = replicate window_size 0, ct_index = 0, ct_features = zero_features\<rparr>\<rparr>)"

definition execute_stride :: "taps list \<Rightarrow> bridge \<Rightarrow> fault + bridge" where
  "execute_stride correlation_taps b =
     seqE (dissect_channel_correlators (cb_asymmetry b) (cb_multi_peak b) correlation_taps (cb_scores b) (cb_flags b)) (\<lambda>(scores, flags).
     seqE (extract_fused_features (cb_window b) correlation_taps scores (cb_channels b)) (\<lambda>cs.
       Ok (b\<lparr>cb_scores := scores, cb_flags := flags, cb_channels := cs\<rparr>)))"

fun bridge_run :: "taps list list \<Rightarrow> bridge \<Rightarrow> fault + bridge" where
  "bridge_run [] b = Ok b"
| "bridge_run (x # xs) b = seqE (execute_stride x b) (bridge_run xs)"

subsection \<open>Handing over\<close>

text \<open>What the bridge touches of \<^verbatim>\<open>ArrayCalibrationEngine\<close>\<close>

record cal_engine =
  ce_W_diag :: "complex list"
  ce_calibrated :: bool

definition handoff_to_calibration_engine :: "bridge \<Rightarrow> cal_engine option \<Rightarrow> nat \<Rightarrow> fault + cal_engine option" where
  "handoff_to_calibration_engine b engine channel_idx =
     (if channel_idx < length (cb_flags b) then
        case engine of
          Some e \<Rightarrow> (if cb_flags b ! channel_idx then
             (if channel_idx < length (ce_W_diag e)
              then Ok (Some (e\<lparr>ce_W_diag := (ce_W_diag e)[channel_idx := ce_W_diag e ! channel_idx * (1 / 10)], ce_calibrated := False\<rparr>))
              else Fail IndexError)
             else Ok engine)
        | None \<Rightarrow> Ok None
      else Fail IndexError)"

text \<open>The threshold of the spatial detector; the mean of no scores is NaN and above nothing.\<close>

definition handoff_to_spatial_glrt :: "bridge \<Rightarrow> real option \<Rightarrow> real option" where
  "handoff_to_spatial_glrt b gamma =
     (case gamma of None \<Rightarrow> None
      | Some g \<Rightarrow> Some (if cb_scores b \<noteq> [] \<and> cb_asymmetry b < mean_of (length (cb_scores b)) (cb_scores b)
                        then g * (90 / 100) else g))"

text \<open>The inference queue with its bound; \<^verbatim>\<open>queue.Queue(maxsize)\<close> is unbounded for a bound of 0.\<close>

record edge_queue =
  eq_maxsize :: nat
  eq_items :: "(real list \<times> real) list"

definition edge_full :: "edge_queue \<Rightarrow> bool" where
  "edge_full q \<longleftrightarrow> 0 < eq_maxsize q \<and> eq_maxsize q \<le> length (eq_items q)"

definition feat_vector :: "real \<Rightarrow> features \<Rightarrow> real list" where
  "feat_vector cfo_hz f = [cfo_hz, fe_skew f, fe_slope f, fe_stability f, fe_residual f, fe_prompt f]"

definition handoff_to_edge_inference :: "bridge \<Rightarrow> edge_queue option \<Rightarrow> nat \<Rightarrow> real \<Rightarrow> real \<Rightarrow> fault + edge_queue option" where
  "handoff_to_edge_inference b edge_engine channel_idx cfo_hz now =
     (case edge_engine of None \<Rightarrow> Ok None
      | Some q \<Rightarrow>
        (if channel_idx < length (cb_channels b)
         then Ok (Some (if edge_full q then q
           else q\<lparr>eq_items := eq_items q @ [(feat_vector cfo_hz (ct_features (cb_channels b ! channel_idx)), now)]\<rparr>))
         else Fail IndexError))"

record fused_payload =
  fp_scores :: "real list"
  fp_flags :: "bool list"
  fp_verdict :: string
  fp_max_skew :: real
  fp_avg_stability :: real

definition fused_verdict :: "nat \<Rightarrow> string" where
  "fused_verdict active_threats =
     (if 2 < active_threats then ''CRITICAL SPOOFING'' else if 0 < active_threats then ''JAMMING'' else ''NORMAL'')"

text \<open>\<^verbatim>\<open>np.max\<close> of an empty column raises.\<close>

definition bridge_payload :: "bridge \<Rightarrow> fault + fused_payload" where
  "bridge_payload b =
     (if cb_channels b = [] then Fail ValueError
      else Ok \<lparr>fp_scores = cb_scores b, fp_flags = cb_flags b, fp_verdict = fused_verdict (length (filter id (cb_flags b))),
        fp_max_skew = Max (set (map (\<lambda>c. fe_skew (ct_features c)) (cb_channels b))),
        fp_avg_stability = mean_of (length (cb_channels b)) (map (\<lambda>c. fe_stability (ct_features c)) (cb_channels b))\<rparr>)"

section \<open>What the shape decides\<close>

text \<open>The receiver's gain and carrier phase, the same complex factor on all taps\<close>

fun gained :: "complex \<Rightarrow> taps \<Rightarrow> taps" where
  "gained c (Taps t0 t1 t2 t3 t4 t5 t6) = Taps (c * t0) (c * t1) (c * t2) (c * t3) (c * t4) (c * t5) (c * t6)"

fun prompt :: "taps \<Rightarrow> real" where
  "prompt (Taps t0 t1 t2 t3 t4 t5 t6) = cmod t3"

lemma dissect_gained:
  assumes "1 / 10 ^ 9 < prompt t" "1 / 10 ^ 9 < prompt (gained c t)"
  shows "dissect_taps sk mp (gained c t) = dissect_taps sk mp t"
proof (cases t)
  case (Taps t0 t1 t2 t3 t4 t5 t6)
  have nz: "cmod c \<noteq> 0" using assms(2) by (auto simp: Taps norm_mult)
  have ratio: "cmod c * x / (cmod c * cmod t3) = x / cmod t3" for x using nz by simp
  have p: "1 / 10 ^ 9 < cmod t3" "1 / 10 ^ 9 < cmod c * cmod t3" using assms by (simp_all add: Taps norm_mult)
  show ?thesis unfolding Taps gained.simps dissect_taps_def taps.case norm_mult Let_def if_P [OF p(1)] if_P [OF p(2)] ratio ..
qed

lemma slope_is_skew: "slope_imb t = - 2 * skew_asym t"
  by (cases t) (simp add: skew_asym_def slope_imb_def Let_def)

lemma prompt_norm_bounds: "0 \<le> prompt_norm t" "prompt_norm t < 1"
proof -
  have "0 \<le> prompt_norm t \<and> prompt_norm t < 1"
  proof (cases t)
    case (Taps t0 t1 t2 t3 t4 t5 t6)
    let ?D = "cmod t0 * cmod t0 + cmod t1 * cmod t1 + cmod t2 * cmod t2 + cmod t3 * cmod t3 + cmod t4 * cmod t4 +
      cmod t5 * cmod t5 + cmod t6 * cmod t6 + 1 / 10 ^ 12"
    have "cmod t3 * cmod t3 < ?D" by (smt (verit) zero_le_mult_iff norm_ge_zero zero_less_divide_1_iff zero_less_power)
    moreover have "0 \<le> cmod t3 * cmod t3" by simp
    ultimately have "0 < ?D" "cmod t3 * cmod t3 < ?D" by linarith+
    then show ?thesis unfolding Taps prompt_norm_def taps.case Let_def by (simp add: divide_nonneg_pos divide_less_eq)
  qed
  then show "0 \<le> prompt_norm t" "prompt_norm t < 1" by auto
qed

section \<open>Runs of the bridge\<close>

text \<open>A channel after a history \<open>ts\<close>: its circular history holds the skews, behind the zeros of the start.\<close>

definition channel_holds :: "nat \<Rightarrow> taps list \<Rightarrow> channel_trace \<Rightarrow> bool" where
  "channel_holds w ts c \<longleftrightarrow> ct_index c = length ts mod w \<and>
     ring_holds w (ct_history c) (replicate w 0 @ map skew_asym ts)"

definition window_of :: "nat \<Rightarrow> taps list \<Rightarrow> real list" where
  "window_of w ts = last_n w (replicate w 0 @ map skew_asym ts)"

definition row_of :: "nat \<Rightarrow> (taps \<Rightarrow> real) \<Rightarrow> taps list \<Rightarrow> taps \<Rightarrow> features" where
  "row_of w score ts t = \<lparr>fe_skew = skew_asym t, fe_residual = score t, fe_slope = - 2 * skew_asym t, fe_prompt = prompt_norm t,
     fe_stability = std_of w (window_of w (ts @ [t]))\<rparr>"

lemma std_of_rotate: "std_of n (xs @ ys) = std_of n (ys @ xs)"
  by (simp add: std_of_def mean_of_def add.commute Let_def)

lemma extract_holds:
  assumes "0 < w" "channel_holds w ts c"
  shows "\<exists>c'. extract_channel w t (score t) c = Ok c' \<and> channel_holds w (ts @ [t]) c' \<and> ct_features c' = row_of w score ts t"
proof -
  let ?ys = "replicate w 0 @ map skew_asym ts"
  let ?h = "(ct_history c)[length ts mod w := skew_asym t]"
  have ring: "ring_holds w (ct_history c) ?ys" and idx: "ct_index c = length ts mod w"
    using assms(2) by (auto simp: channel_holds_def)
  have len: "length (ct_history c) = w" using ring by (simp add: ring_holds_def)
  have ring': "ring_holds w ?h (replicate w 0 @ map skew_asym (ts @ [t]))"
    using ring_holds_step [OF assms(1) ring, of "skew_asym t"] by simp
  then have rot: "drop (length (ts @ [t]) mod w) ?h @ take (length (ts @ [t]) mod w) ?h = window_of w (ts @ [t])"
    using mod_add_self1 [of w "Suc (length ts)"] by (simp add: ring_holds_def window_of_def)
  have "std_of w ?h = std_of w (window_of w (ts @ [t]))"
    unfolding rot [symmetric] by (subst std_of_rotate) simp
  moreover have "store (ct_history c) (ct_index c) (skew_asym t) = Ok ?h"
    using assms(1) len by (simp add: idx buffer_simps)
  moreover have "(ct_index c + 1) mod w = length (ts @ [t]) mod w" by (simp add: idx mod_Suc_eq)
  ultimately show ?thesis
    using assms(1) len ring' by (simp add: extract_channel_def channel_holds_def row_of_def slope_is_skew)
qed

text \<open>All channels; the history of channel \<open>m\<close> is column \<open>m\<close> of the strides.\<close>

definition channels_hold :: "nat \<Rightarrow> nat \<Rightarrow> (nat \<Rightarrow> taps list) \<Rightarrow> channel_trace list \<Rightarrow> bool" where
  "channels_hold w n col cs \<longleftrightarrow> length cs = n \<and> (\<forall>m < n. channel_holds w (col m) (cs ! m))"

lemma extract_all_hold:
  assumes "0 < w" "channels_hold w n col cs" "length ts = n"
  shows "\<exists>cs'. extract_fused_features w ts (map score ts) cs = Ok cs' \<and> channels_hold w n (\<lambda>m. col m @ [ts ! m]) cs' \<and>
    (\<forall>m < n. ct_features (cs' ! m) = row_of w score (col m) (ts ! m))"
  using assms(2,3)
proof (induction ts arbitrary: n col cs)
  case Nil
  then show ?case by (simp add: channels_hold_def)
next
  case (Cons t ts)
  obtain c cs1 where cs: "cs = c # cs1" and n: "n = Suc (length ts)" "length cs1 = length ts"
    using Cons.prems by (cases cs) (auto simp: channels_hold_def)
  have hold: "channel_holds w (col 0) c" "channels_hold w (length ts) (\<lambda>m. col (Suc m)) cs1"
    using Cons.prems(1) cs n by (auto simp: channels_hold_def)
  from extract_holds [OF assms(1) hold(1)] obtain c' where c': "extract_channel w t (score t) c = Ok c'"
    "channel_holds w (col 0 @ [t]) c'" "ct_features c' = row_of w score (col 0) t" by blast
  from Cons.IH [OF hold(2) refl] obtain cs' where cs': "extract_fused_features w ts (map score ts) cs1 = Ok cs'"
    "channels_hold w (length ts) (\<lambda>m. col (Suc m) @ [ts ! m]) cs'"
    "\<forall>m < length ts. ct_features (cs' ! m) = row_of w score (col (Suc m)) (ts ! m)" by blast
  have "channels_hold w n (\<lambda>m. col m @ [(t # ts) ! m]) (c' # cs')"
    using c'(2) cs'(2) n by (auto simp: channels_hold_def nth_Cons split: nat.splits)
  moreover have "\<forall>m < n. ct_features ((c' # cs') ! m) = row_of w score (col m) ((t # ts) ! m)"
    using c'(3) cs'(3) n by (auto simp: nth_Cons split: nat.splits)
  ultimately show ?case using c'(1) cs'(1) cs by simp
qed

lemma dissect_exact:
  assumes "length scores = length ts" "length flags = length ts"
  shows "dissect_channel_correlators sk mp ts scores flags =
    Ok (map (\<lambda>t. fst (dissect_taps sk mp t)) ts, map (\<lambda>t. snd (dissect_taps sk mp t)) ts)"
  using assms by (simp add: dissect_channel_correlators_def Let_def store_all_Ok comp_def)

definition bridge_holds :: "nat \<Rightarrow> nat \<Rightarrow> real \<Rightarrow> real \<Rightarrow> taps list list \<Rightarrow> bridge \<Rightarrow> bool" where
  "bridge_holds n w sk mp xs b \<longleftrightarrow> cb_window b = w \<and> cb_asymmetry b = sk \<and> cb_multi_peak b = mp \<and>
     length (cb_scores b) = n \<and> length (cb_flags b) = n \<and> channels_hold w n (\<lambda>m. map (\<lambda>x. x ! m) xs) (cb_channels b)"

lemma execute_stride_holds:
  assumes "0 < w" "bridge_holds n w sk mp xs b" "length x = n"
  shows "\<exists>b'. execute_stride x b = Ok b' \<and> bridge_holds n w sk mp (xs @ [x]) b' \<and>
    cb_scores b' = map (\<lambda>t. fst (dissect_taps sk mp t)) x \<and> cb_flags b' = map (\<lambda>t. snd (dissect_taps sk mp t)) x \<and>
    (\<forall>m < n. ct_features (cb_channels b' ! m) =
       row_of w (\<lambda>t. fst (dissect_taps sk mp t)) (map (\<lambda>x. x ! m) xs) (x ! m))"
proof -
  have b: "cb_window b = w" "cb_asymmetry b = sk" "cb_multi_peak b = mp" "length (cb_scores b) = length x"
    "length (cb_flags b) = length x" "channels_hold w n (\<lambda>m. map (\<lambda>x. x ! m) xs) (cb_channels b)"
    using assms(2,3) by (auto simp: bridge_holds_def)
  from extract_all_hold [OF assms(1) b(6) assms(3), of "\<lambda>t. fst (dissect_taps sk mp t)"] obtain cs' where cs':
    "extract_fused_features w x (map (\<lambda>t. fst (dissect_taps sk mp t)) x) (cb_channels b) = Ok cs'"
    "channels_hold w n (\<lambda>m. map (\<lambda>x. x ! m) xs @ [x ! m]) cs'"
    "\<forall>m < n. ct_features (cs' ! m) = row_of w (\<lambda>t. fst (dissect_taps sk mp t)) (map (\<lambda>x. x ! m) xs) (x ! m)" by blast
  then show ?thesis
    using b(1-3) assms(3) by (simp add: execute_stride_def dissect_exact [OF b(4,5)] bridge_holds_def)
qed

lemma bridge_init_holds:
  assumes "0 < w"
  shows "\<exists>b. bridge_init n w sk mp = Ok b \<and> bridge_holds n w sk mp [] b"
  using assms ring_holds_step
  by (simp add: bridge_init_def bridge_holds_def channels_hold_def channel_holds_def ring_holds_def last_n_def)

lemma bridge_run_holds:
  assumes "0 < w" "list_all (\<lambda>x. length x = n) ys" "bridge_holds n w sk mp xs b"
  shows "\<exists>b'. bridge_run ys b = Ok b' \<and> bridge_holds n w sk mp (xs @ ys) b'"
  using assms(2,3)
proof (induction ys arbitrary: xs b)
  case (Cons y ys)
  from execute_stride_holds [OF assms(1) Cons.prems(2), of y] Cons.prems(1) obtain b1 where
    "execute_stride y b = Ok b1" "bridge_holds n w sk mp (xs @ [y]) b1" by auto
  with Cons.IH [of "xs @ [y]" b1] Cons.prems(1) show ?case by simp
qed simp

lemma bridge_run_snoc: "bridge_run (xs @ [x]) b = seqE (bridge_run xs b) (execute_stride x)"
proof (induction xs arbitrary: b)
  case Nil
  show ?case by (cases "execute_stride x b") simp_all
next
  case (Cons y xs)
  then show ?case by (cases "execute_stride y b") simp_all
qed

text \<open>
  A fresh bridge never fails on strides of its shape. After any of them the flags are the verdicts of the last
  stride's taps, and the features of a channel are the skew of its last taps, the dissector's score, minus twice
  the skew, the prompt's share of the power, and the standard deviation of the last \<open>w\<close> skews, counted as 0 before
  the first.
\<close>

theorem features_of_history:
  assumes "0 < w" "list_all (\<lambda>x. length x = n) (xs @ [x])" "bridge_init n w sk mp = Ok b0"
  shows "\<exists>b. bridge_run (xs @ [x]) b0 = Ok b \<and> length (cb_channels b) = n \<and>
    cb_flags b = map (\<lambda>t. snd (dissect_taps sk mp t)) x \<and>
    map ct_features (cb_channels b) = map (\<lambda>m. let t = x ! m in
      \<lparr>fe_skew = skew_asym t, fe_residual = fst (dissect_taps sk mp t), fe_slope = - 2 * skew_asym t, fe_prompt = prompt_norm t,
       fe_stability = std_of w (last_n w (replicate w 0 @ map (\<lambda>y. skew_asym (y ! m)) (xs @ [x])))\<rparr>) [0..<n]"
proof -
  obtain b1 where b1: "bridge_run xs b0 = Ok b1" "bridge_holds n w sk mp xs b1"
    using bridge_run_holds [OF assms(1), of n xs sk mp "[]" b0] bridge_init_holds [OF assms(1), of n sk mp] assms(2,3) by auto
  from execute_stride_holds [OF assms(1) b1(2), of x] assms(2) obtain b where b: "execute_stride x b1 = Ok b"
    "bridge_holds n w sk mp (xs @ [x]) b" "cb_flags b = map (\<lambda>t. snd (dissect_taps sk mp t)) x"
    "\<And>m. m < n \<Longrightarrow> ct_features (cb_channels b ! m) =
       row_of w (\<lambda>t. fst (dissect_taps sk mp t)) (map (\<lambda>x. x ! m) xs) (x ! m)" by auto
  have len: "length (cb_channels b) = n" using b(2) by (simp add: bridge_holds_def channels_hold_def)
  show ?thesis
    by (rule exI [of _ b], intro conjI nth_equalityI)
      (simp_all add: bridge_run_snoc b1(1) b(1,3) b(4) [unfolded row_of_def window_of_def] len Let_def comp_def)
qed

theorem features_of_history_witness:
  "\<exists>b0 b. bridge_init 1 2 (15 / 100) (5 / 100) = Ok b0 \<and>
     bridge_run [[Taps 0 3 0 1 0 0 0], [Taps 0 1 0 1 0 0 0]] b0 = Ok b \<and> fe_stability (ct_features (cb_channels b ! 0)) = 1"
proof -
  obtain b0 where b0: "bridge_init 1 2 (15 / 100) (5 / 100) = Ok b0" by (simp add: bridge_init_def)
  from features_of_history [OF _ _ this, of "[[Taps 0 3 0 1 0 0 0]]" "[Taps 0 1 0 1 0 0 0]"] obtain b where
    b: "bridge_run ([[Taps 0 3 0 1 0 0 0]] @ [[Taps 0 1 0 1 0 0 0]]) b0 = Ok b" "length (cb_channels b) = 1"
    "map ct_features (cb_channels b) = map (\<lambda>m. let t = [Taps 0 1 0 1 0 0 0] ! m in
      \<lparr>fe_skew = skew_asym t, fe_residual = fst (dissect_taps (15 / 100) (5 / 100) t), fe_slope = - 2 * skew_asym t, fe_prompt = prompt_norm t,
       fe_stability = std_of 2 (last_n 2 (replicate 2 0 @ map (\<lambda>y. skew_asym (y ! m)) ([[Taps 0 3 0 1 0 0 0]] @ [[Taps 0 1 0 1 0 0 0]])))\<rparr>) [0..<1]"
    by auto
  have "ct_features (cb_channels b ! 0) = map ct_features (cb_channels b) ! 0" using b(2) by simp
  then have "fe_stability (ct_features (cb_channels b ! 0)) = 1"
    unfolding b(3) by (simp add: Let_def skew_asym_def last_n_def std_of_def mean_of_def numeral_2_eq_2 [symmetric])
  with b0 b(1) show ?thesis by auto
qed

text \<open>
  The receiver's gain and carrier phase do not change the verdict of a channel or its score, as long as the
  prompt stays above the floor.
\<close>

theorem verdict_without_gain:
  assumes "length xs = length cs" "list_all (\<lambda>(t, c). 1 / 10 ^ 9 < prompt t \<and> 1 / 10 ^ 9 < prompt (gained c t)) (zip xs cs)"
  shows "dissect_stride (map (\<lambda>(t, c). gained c t) (zip xs cs)) d = dissect_stride xs d"
proof -
  have "map (dissect_taps a m) (map (\<lambda>(t, c). gained c t) (zip xs cs)) = map (dissect_taps a m) xs" for a m
    using assms
  proof (induction xs cs rule: list_induct2)
    case (Cons t ts c cs)
    then show ?case using dissect_gained [of t c a m] by simp
  qed simp
  then show ?thesis by (simp add: dissect_stride_def dissect_channel_correlators_def Let_def)
qed

theorem verdict_without_gain_witness:
  "dissect_stride [gained 2 (Taps 0 0 0 1 0 0 0)] (dissector_init 1 1 1) = dissect_stride [Taps 0 0 0 1 0 0 0] (dissector_init 1 1 1)"
  using verdict_without_gain [of "[Taps 0 0 0 1 0 0 0]" "[2]" "dissector_init 1 1 1"] by simp

end
