(* ===== verification/Null_Tracking.thy ===== *)
theory Null_Tracking
  imports Prelude
begin

text \<open>
  The adaptive null trackers: Frost's constrained least mean squares with a fixed step
  (\<^verbatim>\<open>adaptive_null_tracker.py\<close>), a normalised step (\<^verbatim>\<open>nlms_null_tracker.py\<close>) and a leak
  (\<^verbatim>\<open>leaky_nlms_tracker.py\<close>). Weights, steering vectors and samples are arrays of four complex
  numbers, exact here. The locales say what one update must satisfy for the whole run to keep the gain on
  the target and not to lose a null.
\<close>

section \<open>Vectors of four channels\<close>

datatype vec4 = V4 complex complex complex complex

fun hdot :: "vec4 \<Rightarrow> vec4 \<Rightarrow> complex" where
  "hdot (V4 w0 w1 w2 w3) (V4 x0 x1 x2 x3) = cnj w0 * x0 + cnj w1 * x1 + cnj w2 * x2 + cnj w3 * x3"

definition abs2 :: "complex \<Rightarrow> real" where
  "abs2 y = Re y * Re y + Im y * Im y"

fun vec_power :: "vec4 \<Rightarrow> real" where
  "vec_power (V4 x0 x1 x2 x3) = abs2 x0 + abs2 x1 + abs2 x2 + abs2 x3"

text \<open>\<open>u - c * a\<close>, component by component\<close>

fun sub_scaled :: "vec4 \<Rightarrow> complex \<Rightarrow> vec4 \<Rightarrow> vec4" where
  "sub_scaled (V4 u0 u1 u2 u3) c (V4 a0 a1 a2 a3) = V4 (u0 - c * a0) (u1 - c * a1) (u2 - c * a2) (u3 - c * a3)"

section \<open>The kernels\<close>

text \<open>The projection \<open>w = P * v + f\<close> that ends every update.\<close>

fun frost_project :: "vec4 \<Rightarrow> vec4 \<Rightarrow> vec4" where
  "frost_project (V4 a0 a1 a2 a3) (V4 v0 v1 v2 v3) =
     (let inner = cnj a0 * v0 + cnj a1 * v1 + cnj a2 * v2 + cnj a3 * v3
      in V4 (v0 - 1 / 4 * inner * a0 + 1 / 4 * a0) (v1 - 1 / 4 * inner * a1 + 1 / 4 * a1)
            (v2 - 1 / 4 * inner * a2 + 1 / 4 * a2) (v3 - 1 / 4 * inner * a3 + 1 / 4 * a3))"

fun lms_step :: "real \<Rightarrow> vec4 \<Rightarrow> vec4 \<Rightarrow> vec4 \<Rightarrow> vec4" where
  "lms_step mu a (V4 w0 w1 w2 w3) (V4 x0 x1 x2 x3) =
     (let y = cnj w0 * x0 + cnj w1 * x1 + cnj w2 * x2 + cnj w3 * x3; y_conj = cnj y; m = complex_of_real mu
      in frost_project a (V4 (w0 - m * y_conj * x0) (w1 - m * y_conj * x1)
                             (w2 - m * y_conj * x2) (w3 - m * y_conj * x3)))"

definition nlms_step :: "real \<Rightarrow> real \<Rightarrow> vec4 \<Rightarrow> vec4 \<Rightarrow> vec4 \<Rightarrow> vec4" where
  "nlms_step mu0 eps a w x = lms_step (mu0 / (vec_power x + eps)) a w x"

fun leaky_update :: "real \<Rightarrow> real \<Rightarrow> vec4 \<Rightarrow> vec4 \<Rightarrow> vec4" where
  "leaky_update alpha mu (V4 w0 w1 w2 w3) (V4 x0 x1 x2 x3) =
     (let y = cnj w0 * x0 + cnj w1 * x1 + cnj w2 * x2 + cnj w3 * x3; y_conj = cnj y;
          al = complex_of_real alpha; m = complex_of_real mu
      in V4 (al * w0 - m * y_conj * x0) (al * w1 - m * y_conj * x1)
            (al * w2 - m * y_conj * x2) (al * w3 - m * y_conj * x3))"

definition leaky_step :: "real \<Rightarrow> real \<Rightarrow> real \<Rightarrow> vec4 \<Rightarrow> vec4 \<Rightarrow> vec4 \<Rightarrow> vec4" where
  "leaky_step mu0 eps alpha a w x = frost_project a (leaky_update alpha (mu0 / (vec_power x + eps)) w x)"

text \<open>The loop over the received history, with the output power of each step before its update.\<close>

fun track_loop :: "(vec4 \<Rightarrow> vec4 \<Rightarrow> vec4) \<Rightarrow> vec4 \<Rightarrow> vec4 list \<Rightarrow> vec4 \<times> real list" where
  "track_loop upd w [] = (w, [])"
| "track_loop upd w (x # xs) =
     (case track_loop upd (upd w x) xs of (w', ps) \<Rightarrow> (w', abs2 (hdot w x) # ps))"

text \<open>\<^verbatim>\<open>AdaptiveNullTracker.track_null\<close>\<close>

definition lms_track_null :: "real \<Rightarrow> vec4 \<Rightarrow> vec4 \<Rightarrow> vec4 list \<Rightarrow> vec4 \<times> real list" where
  "lms_track_null mu w a xs = track_loop (lms_step mu a) w xs"

text \<open>\<^verbatim>\<open>NLMSNullTracker.track_null\<close>\<close>

definition nlms_track_null :: "real \<Rightarrow> real \<Rightarrow> vec4 \<Rightarrow> vec4 \<Rightarrow> vec4 list \<Rightarrow> fault + vec4 \<times> real list" where
  "nlms_track_null mu0 eps w a xs =
     (if list_ex (\<lambda>x. vec_power x + eps = 0) xs then Fail ZeroDivisionError
      else Ok (track_loop (nlms_step mu0 eps a) w xs))"

text \<open>\<^verbatim>\<open>LeakyNLMSTracker.track_null\<close>\<close>

definition leaky_track_null :: "real \<Rightarrow> real \<Rightarrow> real \<Rightarrow> vec4 \<Rightarrow> vec4 \<Rightarrow> vec4 list \<Rightarrow> fault + vec4 \<times> real list" where
  "leaky_track_null mu0 eps alpha w a xs =
     (if list_ex (\<lambda>x. vec_power x + eps = 0) xs then Fail ZeroDivisionError
      else Ok (track_loop (leaky_step mu0 eps alpha a) w xs))"

section \<open>Geometry\<close>

lemma abs2_nonneg [simp]: "0 \<le> abs2 y"
  by (simp add: abs2_def)

lemma vec_power_nonneg [simp]: "0 \<le> vec_power x"
  by (cases x) simp

lemma abs2_cnj [simp]: "abs2 (cnj y) = abs2 y"
  by (simp add: abs2_def)

lemma cnj_hdot: "cnj (hdot w x) = hdot x w"
  by (cases w; cases x) (simp add: mult.commute)

lemma hdot_sub_left: "hdot (sub_scaled u c a) x = hdot u x - cnj c * hdot a x"
  by (cases u; cases a; cases x) (simp add: algebra_simps)

lemma hdot_sub_right: "hdot x (sub_scaled u c a) = hdot x u - c * hdot x a"
  by (cases u; cases a; cases x) (simp add: algebra_simps)

lemma hdot_self: "hdot a a = complex_of_real (vec_power a)"
  by (cases a) (simp add: complex_eq_iff abs2_def algebra_simps)

lemma abs2_sub: "abs2 (u - c * a) = abs2 u - 2 * Re (c * (cnj u * a)) + abs2 c * abs2 a"
  by (simp add: abs2_def algebra_simps)

lemma vec_power_sub: "vec_power (sub_scaled u c a) = vec_power u - 2 * Re (c * hdot u a) + abs2 c * vec_power a"
  by (cases u; cases a) (simp add: abs2_sub algebra_simps)

lemma abs2_mult_real: "abs2 (complex_of_real r * z) = r\<^sup>2 * abs2 z"
  by (simp add: abs2_def power2_eq_square algebra_simps)

lemma abs2_cnj_mult: "Re (cnj z * z) = abs2 z" "Re (z * cnj z) = abs2 z"
  by (simp_all add: abs2_def)

text \<open>A steering vector with unit elements has power four; the projection relies on it.\<close>

definition steering :: "vec4 \<Rightarrow> bool" where
  "steering a \<longleftrightarrow> vec_power a = 4"

definition on_target :: "vec4 \<Rightarrow> vec4 \<Rightarrow> bool" where
  "on_target a w \<longleftrightarrow> hdot a w = 1"

text \<open>The squared distance of two weight vectors.\<close>

definition distance :: "vec4 \<Rightarrow> vec4 \<Rightarrow> real" where
  "distance w z = vec_power (sub_scaled w 1 z)"

lemma frost_project_eq: "frost_project a v = sub_scaled v (1 / 4 * (hdot a v - 1)) a"
  by (cases a; cases v) (simp add: Let_def algebra_simps)

lemma lms_step_eq: "lms_step mu a w x = frost_project a (sub_scaled w (complex_of_real mu * cnj (hdot w x)) x)"
  by (cases w; cases x) (simp add: Let_def algebra_simps)

lemma frost_project_on_target: "steering a \<Longrightarrow> on_target a (frost_project a v)"
  by (simp add: on_target_def frost_project_eq hdot_sub_right hdot_self steering_def field_simps)

lemma sub_scaled_swap: "sub_scaled (sub_scaled u c a) d b = sub_scaled (sub_scaled u d b) c a"
  by (cases u; cases a; cases b) simp

lemma distance_frost_project:
  assumes "steering a" "on_target a z"
  shows "distance (frost_project a v) z \<le> distance v z"
proof -
  let ?u = "sub_scaled v 1 z" and ?h = "hdot a (sub_scaled v 1 z)"
  have "hdot a v - 1 = ?h" using assms by (simp add: hdot_sub_right on_target_def)
  then have "distance (frost_project a v) z = vec_power (sub_scaled ?u (1 / 4 * ?h) a)"
    by (simp add: distance_def frost_project_eq sub_scaled_swap [of v _ a 1 z])
  also have "\<dots> = vec_power ?u - 2 * Re (1 / 4 * ?h * hdot ?u a) + abs2 (1 / 4 * ?h) * 4"
    using assms(1) by (simp add: vec_power_sub steering_def)
  also have "hdot ?u a = cnj ?h" by (simp add: cnj_hdot)
  also have "abs2 (1 / 4 * ?h) = 1 / 16 * abs2 ?h"
    using abs2_mult_real [of "1/4" ?h] by (simp add: power2_eq_square)
  also have "Re (1 / 4 * ?h * cnj ?h) = 1 / 4 * abs2 ?h" by (simp add: abs2_def)
  finally show ?thesis by (simp add: distance_def)
qed

lemma distance_gradient:
  assumes "hdot z x = 0"
  shows "distance (sub_scaled w (complex_of_real mu * cnj (hdot w x)) x) z =
    distance w z - (2 * mu - mu\<^sup>2 * vec_power x) * abs2 (hdot w x)"
proof -
  let ?y = "hdot w x" and ?e = "sub_scaled w 1 z"
  have y: "hdot ?e x = ?y" using assms by (simp add: hdot_sub_left)
  have "distance (sub_scaled w (complex_of_real mu * cnj ?y) x) z =
      vec_power (sub_scaled ?e (complex_of_real mu * cnj ?y) x)"
    by (simp add: distance_def sub_scaled_swap [of w _ x 1 z])
  also have "\<dots> = vec_power ?e - 2 * Re (complex_of_real mu * cnj ?y * ?y)
      + abs2 (complex_of_real mu * cnj ?y) * vec_power x"
    by (simp add: vec_power_sub y)
  also have "Re (complex_of_real mu * cnj ?y * ?y) = mu * abs2 ?y"
    by (simp add: abs2_def algebra_simps)
  finally show ?thesis
    by (simp add: distance_def abs2_mult_real algebra_simps)
qed

lemma distance_nonneg [simp]: "0 \<le> distance w z"
  by (simp add: distance_def)

section \<open>Contracts of an update\<close>

text \<open>
  An update that keeps the gain on the target puts every run of the loop on the target. An
  update that in addition comes closer to a null by at least its gain times the output power
  bounds the power a whole run lets through by the distance it started with.
\<close>

locale constrained_update =
  fixes upd :: "vec4 \<Rightarrow> vec4 \<Rightarrow> vec4 \<Rightarrow> vec4"
  assumes upd_on_target: "steering a \<Longrightarrow> on_target a (upd a w x)"
begin

lemma run_on_target: "steering a \<Longrightarrow> on_target a w \<Longrightarrow> on_target a (fst (track_loop (upd a) w xs))"
proof (induction xs arbitrary: w)
  case (Cons x xs)
  from Cons.IH [of "upd a w x"] Cons.prems upd_on_target [of a w x] show ?case by (auto split: prod.splits)
qed simp

lemma run_on_target_nonempty: "steering a \<Longrightarrow> xs \<noteq> [] \<Longrightarrow> on_target a (fst (track_loop (upd a) w xs))"
  using run_on_target [of a "upd a w (hd xs)" "tl xs"] upd_on_target
  by (cases xs) (auto split: prod.splits)

end

locale null_seeking_update = constrained_update +
  fixes rate :: "vec4 \<Rightarrow> real"
  assumes upd_closer: "steering a \<Longrightarrow> on_target a z \<Longrightarrow> hdot z x = 0 \<Longrightarrow>
      distance (upd a w x) z + rate x * abs2 (hdot w x) \<le> distance w z"
begin

lemma run_closer:
  "steering a \<Longrightarrow> on_target a z \<Longrightarrow> list_all (\<lambda>x. hdot z x = 0) xs \<Longrightarrow> track_loop (upd a) w xs = (w', ps) \<Longrightarrow>
    distance w' z + sum_list (map2 (\<lambda>x p. rate x * p) xs ps) \<le> distance w z"
proof (induction xs arbitrary: w w' ps)
  case (Cons x xs)
  obtain qs where qs: "track_loop (upd a) (upd a w x) xs = (w', qs)" "ps = abs2 (hdot w x) # qs"
    using Cons.prems(4) by (auto split: prod.splits)
  from Cons.IH [OF Cons.prems(1,2) _ qs(1)] Cons.prems(3)
  have "distance w' z + sum_list (map2 (\<lambda>x p. rate x * p) xs qs) \<le> distance (upd a w x) z" by simp
  with upd_closer [OF Cons.prems(1,2), of x w] Cons.prems(3) show ?case by (simp add: qs(2))
qed simp

end

lemma track_loop_powers: "track_loop upd w xs = (w', ps) \<Longrightarrow> length ps = length xs \<and> list_all (\<lambda>p. 0 \<le> p) ps"
  by (induction upd w xs arbitrary: w' ps rule: track_loop.induct) (auto split: prod.splits)

interpretation lms: null_seeking_update "lms_step mu" "\<lambda>x. 2 * mu - mu\<^sup>2 * vec_power x" for mu
proof
  fix a z w x assume "steering a" "on_target a z" "hdot z x = 0"
  then show "distance (lms_step mu a w x) z + (2 * mu - mu\<^sup>2 * vec_power x) * abs2 (hdot w x) \<le> distance w z"
    using distance_frost_project [of a z] distance_gradient [of z x w mu] by (simp add: lms_step_eq) (metis add.commute le_diff_eq)
qed (simp add: lms_step_eq frost_project_on_target)

definition nlms_rate :: "real \<Rightarrow> real \<Rightarrow> vec4 \<Rightarrow> real" where
  "nlms_rate mu0 eps x = (let mu = mu0 / (vec_power x + eps) in 2 * mu - mu\<^sup>2 * vec_power x)"

interpretation nlms: null_seeking_update "nlms_step mu0 eps" "nlms_rate mu0 eps" for mu0 eps
proof
  fix a z w x assume *: "steering a" "on_target a z" "hdot z x = 0"
  from lms.upd_closer [OF *, of "mu0 / (vec_power x + eps)" w]
  show "distance (nlms_step mu0 eps a w x) z + nlms_rate mu0 eps x * abs2 (hdot w x) \<le> distance w z"
    unfolding nlms_step_def nlms_rate_def Let_def .
qed (simp add: nlms_step_def lms.upd_on_target)

interpretation leaky: constrained_update "leaky_step mu0 eps alpha" for mu0 eps alpha
  by unfold_locales (simp add: leaky_step_def frost_project_on_target)

section \<open>Properties\<close>

lemma nlms_rate_bound:
  assumes "0 < eps" "0 < mu0" "mu0 < 2" "vec_power x \<le> B"
  shows "mu0 * (2 - mu0) / (B + eps) \<le> nlms_rate mu0 eps x"
proof -
  let ?p = "vec_power x" let ?mu = "mu0 / (?p + eps)"
  have pos: "0 < ?p + eps" using assms(1) vec_power_nonneg [of x] by linarith
  have "?mu * ?p \<le> mu0" using pos assms(1,2) by (simp add: divide_le_eq algebra_simps)
  then have "?mu * (2 - mu0) \<le> ?mu * (2 - ?mu * ?p)"
    using pos assms(2) by (intro mult_left_mono) auto
  moreover have "mu0 * (2 - mu0) / (B + eps) \<le> mu0 * (2 - mu0) / (?p + eps)"
    using pos assms by (intro divide_left_mono) (auto intro!: mult_nonneg_nonneg mult_pos_pos)
  moreover have "nlms_rate mu0 eps x = ?mu * (2 - ?mu * ?p)"
    by (simp add: nlms_rate_def Let_def power2_eq_square algebra_simps)
  ultimately show ?thesis by (simp add: field_simps)
qed

lemma weighted_sum:
  assumes "length ps = length xs" "list_all (\<lambda>p. 0 \<le> p) ps" "list_all (\<lambda>x. c \<le> f x) xs"
  shows "c * sum_list ps \<le> sum_list (map2 (\<lambda>x p. f x * p) xs (ps :: real list))"
  using assms
proof (induction ps xs rule: list_induct2)
  case (Cons p ps x xs)
  then have "c * p \<le> f x * p" by (intro mult_right_mono) auto
  with Cons show ?case by (simp add: distrib_left)
qed simp

text \<open>
  For a steering vector with unit elements the three trackers leave weights whose gain on the
  target is exactly one, whatever the received history, the step sizes and the initial weights.
\<close>

theorem trackers_keep_target_gain:
  assumes "steering a" "xs \<noteq> []"
  shows "on_target a (fst (lms_track_null mu w a xs)) \<and>
    (case nlms_track_null mu0 eps w a xs of Ok r \<Rightarrow> on_target a (fst r)
       | Fail e \<Rightarrow> e = ZeroDivisionError \<and> list_ex (\<lambda>x. vec_power x + eps = 0) xs) \<and>
    (case leaky_track_null mu0 eps alpha w a xs of Ok r \<Rightarrow> on_target a (fst r)
       | Fail e \<Rightarrow> e = ZeroDivisionError \<and> list_ex (\<lambda>x. vec_power x + eps = 0) xs)"
  using assms lms.run_on_target_nonempty nlms.run_on_target_nonempty leaky.run_on_target_nonempty
  by (auto simp: lms_track_null_def nlms_track_null_def leaky_track_null_def)

abbreviation ones :: vec4 where "ones \<equiv> V4 1 1 1 1"

theorem trackers_keep_target_gain_witness:
  "hdot ones (fst (lms_track_null (3 / 100) (V4 0 0 0 0) ones [V4 2 \<i> 0 1])) = 1"
  using trackers_keep_target_gain [of ones "[V4 2 \<i> 0 1]" "3 / 100" "V4 0 0 0 0"]
  by (simp add: steering_def on_target_def abs2_def)

text \<open>
  C33: The normalised tracker: as long as some weights exist that have gain one on the target and
  cancel every received sample, the total power it lets through over a history of any length is
  at most the squared distance of its initial weights from them, times a constant of the sample
  power and the step size. Output power above any given level is a bounded
  number of samples, and no strong sample moves the weights away from the null.
\<close>

theorem nlms_total_leakage:
  assumes "steering a" "on_target a z" "list_all (\<lambda>x. hdot z x = 0 \<and> vec_power x \<le> B) xs"
    and "0 < eps" "0 < mu0" "mu0 < 2"
  shows "\<exists>w' ps. nlms_track_null mu0 eps w a xs = Ok (w', ps) \<and> length ps = length xs \<and>
    distance w' z \<le> distance w z \<and> mu0 * (2 - mu0) / (B + eps) * sum_list ps \<le> distance w z"
proof -
  obtain w' ps where run: "track_loop (nlms_step mu0 eps a) w xs = (w', ps)" by fastforce
  note ps = track_loop_powers [OF run]
  have "vec_power x + eps \<noteq> 0" for x using assms(4) vec_power_nonneg [of x] by linarith
  then have ok: "nlms_track_null mu0 eps w a xs = Ok (w', ps)"
    by (simp add: nlms_track_null_def run list_ex_iff)
  have rates: "list_all (\<lambda>x. mu0 * (2 - mu0) / (B + eps) \<le> nlms_rate mu0 eps x) xs"
    "list_all (\<lambda>x. 0 \<le> nlms_rate mu0 eps x) xs"
  proof -
    show *: "list_all (\<lambda>x. mu0 * (2 - mu0) / (B + eps) \<le> nlms_rate mu0 eps x) xs"
      using assms(3) nlms_rate_bound [OF assms(4-6)] by (auto simp: list_all_iff)
    show "list_all (\<lambda>x. 0 \<le> nlms_rate mu0 eps x) xs"
    proof (clarsimp simp: list_all_iff)
      fix x assume "x \<in> set xs"
      have "0 \<le> mu0 * (2 - mu0) / (vec_power x + eps)" using assms(4-6) by simp
      with nlms_rate_bound [OF assms(4-6) order_refl, of x] show "0 \<le> nlms_rate mu0 eps x" by linarith
    qed
  qed
  have total: "distance w' z + sum_list (map2 (\<lambda>x p. nlms_rate mu0 eps x * p) xs ps) \<le> distance w z"
    using nlms.run_closer [OF assms(1,2) _ run] assms(3) by (simp add: list_all_iff)
  let ?S = "sum_list (map2 (\<lambda>x p. nlms_rate mu0 eps x * p) xs ps)"
  have S: "mu0 * (2 - mu0) / (B + eps) * sum_list ps \<le> ?S" "0 * sum_list ps \<le> ?S"
    using weighted_sum [OF _ _ rates(1), of ps] weighted_sum [OF _ _ rates(2), of ps] ps by blast+
  from S total distance_nonneg [of w' z]
  have "distance w' z \<le> distance w z" "mu0 * (2 - mu0) / (B + eps) * sum_list ps \<le> distance w z"
    by linarith+
  with ok ps show ?thesis by blast
qed

theorem nlms_total_leakage_witness:
  "\<exists>w' ps. nlms_track_null (8 / 100) (1 / 1000) (V4 (1/4) (1/4) (1/4) (1/4)) ones
      [V4 25 0 0 0, V4 0 0 0 0, V4 25 0 0 0] = Ok (w', ps) \<and> length ps = 3 \<and>
    sum_list ps \<le> 340"
proof -
  let ?z = "V4 0 (1/3) (1/3) (1/3)" and ?w = "V4 (1/4) (1/4) (1/4) (1/4)"
  let ?xs = "[V4 25 0 0 0, V4 0 0 0 0, V4 25 0 0 0]"
  obtain w' ps where "nlms_track_null (8 / 100) (1 / 1000) ?w ones ?xs = Ok (w', ps)" "length ps = length ?xs"
    "(8 / 100) * (2 - 8 / 100) / (625 + 1 / 1000) * sum_list ps \<le> distance ?w ?z"
    using nlms_total_leakage [of ones ?z 625 ?xs "1 / 1000" "8 / 100" ?w]
    by (force simp: steering_def on_target_def abs2_def)
  moreover have "distance ?w ?z = 1 / 12" by (simp add: distance_def abs2_def)
  ultimately show ?thesis by auto
qed

lemma leaky_update_eq: "leaky_update alpha mu w x =
    sub_scaled (sub_scaled (V4 0 0 0 0) (- complex_of_real alpha) w) (complex_of_real mu * cnj (hdot w x)) x"
  by (cases w; cases x) (simp add: Let_def algebra_simps)

lemma leaky_update_power:
  "vec_power (leaky_update alpha mu w x) =
     alpha\<^sup>2 * vec_power w - (2 * alpha * mu - mu\<^sup>2 * vec_power x) * abs2 (hdot w x)"
proof -
  let ?y = "hdot w x" and ?u = "sub_scaled (V4 0 0 0 0) (- complex_of_real alpha) w"
  have "abs2 (0 - - complex_of_real alpha * c) = alpha\<^sup>2 * abs2 c" for c
    by (simp add: abs2_mult_real)
  then have u1: "vec_power ?u = alpha\<^sup>2 * vec_power w"
    by (cases w) (simp add: algebra_simps abs2_mult_real)
  have u2: "hdot ?u x = complex_of_real alpha * ?y"
    by (cases w; cases x) (simp add: algebra_simps)
  note u = u1 u2
  have "Re (complex_of_real mu * cnj ?y * (complex_of_real alpha * ?y)) = mu * alpha * abs2 ?y"
    by (simp add: abs2_def algebra_simps)
  moreover have "vec_power (leaky_update alpha mu w x) = vec_power ?u
      - 2 * Re (complex_of_real mu * cnj ?y * hdot ?u x) + abs2 (complex_of_real mu * cnj ?y) * vec_power x"
    unfolding leaky_update_eq by (rule vec_power_sub)
  ultimately show ?thesis
    by (simp only: u abs2_mult_real abs2_cnj) (simp add: algebra_simps)
qed

lemma frost_project_power:
  assumes "steering a"
  shows "vec_power (frost_project a v) \<le> vec_power v + 1 / 4"
proof -
  let ?h = "hdot a v"
  have "hdot v a = cnj ?h" by (simp add: cnj_hdot)
  then have "vec_power (frost_project a v) =
      vec_power v - 2 * Re (1 / 4 * (?h - 1) * cnj ?h) + abs2 (1 / 4 * (?h - 1)) * 4"
    using assms by (simp add: frost_project_eq vec_power_sub steering_def)
  also have "\<dots> = vec_power v - 1 / 4 * abs2 ?h + 1 / 4"
    by (simp add: abs2_def field_simps)
  finally show ?thesis using abs2_nonneg [of ?h] by linarith
qed

lemma leaky_step_power:
  assumes "steering a" "0 < eps" "0 \<le> mu0" "mu0 \<le> 2 * alpha"
  shows "vec_power (leaky_step mu0 eps alpha a w x) \<le> alpha\<^sup>2 * vec_power w + 1 / 4"
proof -
  let ?p = "vec_power x" let ?mu = "mu0 / (?p + eps)"
  have pos: "0 < ?p + eps" using assms(2) vec_power_nonneg [of x] by linarith
  have "?mu * ?p \<le> mu0" using pos assms(2,3) by (simp add: divide_le_eq algebra_simps)
  then have "0 \<le> ?mu * (2 * alpha - ?mu * ?p)" using pos assms(3,4) by (intro mult_nonneg_nonneg) auto
  then have "0 \<le> (2 * alpha * ?mu - ?mu\<^sup>2 * ?p) * abs2 (hdot w x)"
    by (intro mult_nonneg_nonneg) (auto simp: power2_eq_square algebra_simps)
  then have "vec_power (leaky_update alpha ?mu w x) \<le> alpha\<^sup>2 * vec_power w"
    by (simp only: leaky_update_power)
  with frost_project_power [OF assms(1), of "leaky_update alpha ?mu w x"] show ?thesis
    by (simp add: leaky_step_def)
qed

text \<open>
  The leak bounds the weights: from initial weights of power at most \<open>B\<close>, where \<open>B\<close> is at
  least \<open>1 / (4 * (1 - alpha^2))\<close>, no history of any length makes their power exceed \<open>B\<close>.
\<close>

theorem leaky_weights_bounded:
  assumes "steering a" "0 < eps" "0 \<le> mu0" "mu0 \<le> 2 * alpha"
    and "vec_power w \<le> B" "1 \<le> 4 * (1 - alpha\<^sup>2) * B"
  shows "\<exists>w' ps. leaky_track_null mu0 eps alpha w a xs = Ok (w', ps) \<and> vec_power w' \<le> B"
proof -
  have "vec_power x + eps \<noteq> 0" for x using assms(2) vec_power_nonneg [of x] by linarith
  then have ok: "leaky_track_null mu0 eps alpha w a xs = Ok (track_loop (leaky_step mu0 eps alpha a) w xs)"
    by (simp add: leaky_track_null_def list_ex_iff)
  have "vec_power (fst (track_loop (leaky_step mu0 eps alpha a) w xs)) \<le> B"
    using assms(5)
  proof (induction xs arbitrary: w)
    case (Cons x xs)
    have "vec_power (leaky_step mu0 eps alpha a w x) \<le> alpha\<^sup>2 * vec_power w + 1 / 4"
      by (rule leaky_step_power [OF assms(1-4)])
    also have "\<dots> \<le> alpha\<^sup>2 * B + 1 / 4" using Cons.prems by (simp add: mult_left_mono)
    also have "\<dots> \<le> B" using assms(6) by (simp add: algebra_simps)
    finally show ?case using Cons.IH [of "leaky_step mu0 eps alpha a w x"] by (simp add: split_beta)
  qed simp
  with ok show ?thesis by (cases "track_loop (leaky_step mu0 eps alpha a) w xs") auto
qed

theorem leaky_weights_bounded_witness:
  "\<exists>w' ps. leaky_track_null (8 / 100) (1 / 1000) (999 / 1000) (V4 (1/4) (1/4) (1/4) (1/4)) ones
      [V4 100 0 0 0, V4 0 \<i> 0 0] = Ok (w', ps) \<and> vec_power w' \<le> 126"
  using leaky_weights_bounded [of ones "1 / 1000" "8 / 100" "999 / 1000" "V4 (1/4) (1/4) (1/4) (1/4)" 126
      "[V4 100 0 0 0, V4 0 \<i> 0 0]"]
  by (simp add: steering_def abs2_def power2_eq_square)

lemma lms_step_output:
  assumes "hdot a x = 0"
  shows "hdot (lms_step mu a w x) x = complex_of_real (1 - mu * vec_power x) * hdot w x"
  using assms by (simp add: lms_step_eq frost_project_eq hdot_sub_left hdot_self algebra_simps)

text \<open>
  The tracker with a fixed step under constant interference orthogonal to the target: its
  output power is multiplied by \<open>(1 - mu * |x|^2)^2\<close> in every step, so that it decays exactly while
  the interference is weaker than \<open>2 / mu\<close> and grows without bound beyond.
\<close>

theorem lms_power_law:
  assumes "hdot a x = 0"
  shows "snd (lms_track_null mu w a (replicate n x)) =
    map (\<lambda>k. ((1 - mu * vec_power x)\<^sup>2) ^ k * abs2 (hdot w x)) [0..<n]"
proof (induction n arbitrary: w)
  case (Suc n)
  let ?r = "1 - mu * vec_power x"
  have "abs2 (hdot (lms_step mu a w x) x) = ?r\<^sup>2 * abs2 (hdot w x)"
    by (simp only: lms_step_output [OF assms] abs2_mult_real)
  with Suc [of "lms_step mu a w x"]
  have "snd (track_loop (lms_step mu a) (lms_step mu a w x) (replicate n x)) =
      map (\<lambda>k. (?r\<^sup>2) ^ Suc k * abs2 (hdot w x)) [0..<n]"
    by (simp add: lms_track_null_def mult_ac)
  moreover have "map f [0..<Suc n] = f 0 # map (\<lambda>k. f (Suc k)) [0..<n]" for f :: "nat \<Rightarrow> real"
    by (simp add: map_upt_Suc del: upt_Suc)
  ultimately show ?case
    by (simp add: lms_track_null_def split_beta mult.assoc del: upt_Suc)
qed (simp add: lms_track_null_def)

theorem lms_power_law_witness:
  "snd (lms_track_null (3 / 100) (V4 1 0 0 0) ones [V4 10 (-10) 0 0, V4 10 (-10) 0 0]) = [100, 2500]"
  using lms_power_law [of ones "V4 10 (-10) 0 0" "3 / 100" "V4 1 0 0 0" 2]
  by (simp add: abs2_def power2_eq_square numeral_2_eq_2)

end
