(* ===== verification/Spatial_Enforcement.thy ===== *)
theory Spatial_Enforcement
  imports Null_Tracking
begin

text \<open>
  Angle of arrival: \<^verbatim>\<open>aoa_validator.py\<close> compares the direction the phases point at with the satellite's and takes a
  deviating wavefront out of the weights; \<^verbatim>\<open>aoa_enforcement_bridge.py\<close> derives from the deviation how much to trust a
  channel and how deep to null. Angles and weights are exact.
\<close>

section \<open>Validation and projection\<close>

text \<open>A row of \<^verbatim>\<open>phase_diffs\<close>, and the steering vector it stands for\<close>

type_synonym phases = "real \<times> real \<times> real"

fun wave_vector :: "phases \<Rightarrow> vec4" where
  "wave_vector (psi1, psi2, psi3) = V4 1 (cis psi1) (cis psi2) (cis psi3)"

fun measured_direction :: "real \<Rightarrow> phases \<Rightarrow> real \<times> real \<times> real" where
  "measured_direction scaling (psi1, psi2, psi3) =
     (let ux = psi1 * scaling; uy = psi2 * scaling; sum_sq = ux * ux + uy * uy
      in if 1 < sum_sq then (ux / sqrt sum_sq, uy / sqrt sum_sq, 0) else (ux, uy, sqrt (1 - sum_sq)))"

definition radians :: "real \<Rightarrow> real" where
  "radians deg = deg * pi / 180"

fun true_direction :: "real \<times> real \<Rightarrow> real \<times> real \<times> real" where
  "true_direction (az, el) =
     (cos (radians el) * cos (radians az), cos (radians el) * sin (radians az), sin (radians el))"

fun dot3 :: "real \<times> real \<times> real \<Rightarrow> real \<times> real \<times> real \<Rightarrow> real" where
  "dot3 (ux, uy, uz) (tx, ty, tz) = ux * tx + uy * ty + uz * tz"

definition angular_error :: "real \<Rightarrow> phases \<Rightarrow> real \<times> real \<Rightarrow> real" where
  "angular_error scaling psis azel =
     (let dot_prod = dot3 (measured_direction scaling psis) (true_direction azel)
      in arccos (if 1 < dot_prod then 1 else if dot_prod < -1 then -1 else dot_prod))"

text \<open>\<open>w - 0.25 * p * s\<close> with \<open>p = s^H w\<close>\<close>

definition project_null :: "vec4 \<Rightarrow> vec4 \<Rightarrow> vec4" where
  "project_null s w = sub_scaled w (1 / 4 * hdot s w) s"

record channel_verdict =
  vd_hijack :: bool
  vd_error :: real
  vd_weights :: vec4

definition validate_channel :: "real \<Rightarrow> real \<Rightarrow> phases \<Rightarrow> real \<times> real \<Rightarrow> vec4 \<Rightarrow> channel_verdict" where
  "validate_channel scaling fisher_margin_rad psis azel w =
     (let ang_err = angular_error scaling psis azel
      in if fisher_margin_rad < ang_err
         then \<lparr>vd_hijack = True, vd_error = ang_err, vd_weights = project_null (wave_vector psis) w\<rparr>
         else \<lparr>vd_hijack = False, vd_error = ang_err, vd_weights = w\<rparr>)"

fun validate_rows :: "real \<Rightarrow> real \<Rightarrow> phases list \<Rightarrow> (real \<times> real) list \<Rightarrow> vec4 list \<Rightarrow> fault + channel_verdict list" where
  "validate_rows scaling margin [] azels ws = Ok []"
| "validate_rows scaling margin (p # ps) (a # as) (w # ws) =
     seqE (validate_rows scaling margin ps as ws) (\<lambda>vs. Ok (validate_channel scaling margin p a w # vs))"
| "validate_rows scaling margin (p # ps) azels ws = Fail OutOfBounds"

text \<open>The kernel, with the arrays it writes: weights, flags and errors\<close>

definition validate_aoa_and_project_nulls :: "phases list \<Rightarrow> (real \<times> real) list \<Rightarrow> vec4 list \<Rightarrow> bool list \<Rightarrow> real list \<Rightarrow>
    real \<Rightarrow> real \<Rightarrow> real \<Rightarrow> fault + (vec4 list \<times> bool list \<times> real list)" where
  "validate_aoa_and_project_nulls phase_diffs true_az_el weights hijack_flags angular_errors element_spacing lambda_val margin =
     (if 2 * pi * element_spacing = 0 then Fail ZeroDivisionError
      else seqE (validate_rows (lambda_val / (2 * pi * element_spacing)) margin phase_diffs true_az_el weights) (\<lambda>vs.
        seqE (store_all weights 0 (map vd_weights vs)) (\<lambda>weights'.
        seqE (store_all hijack_flags 0 (map vd_hijack vs)) (\<lambda>flags'.
        seqE (store_all angular_errors 0 (map vd_error vs)) (\<lambda>errors'. Ok (weights', flags', errors'))))))"

record validator =
  va_spacing :: real
  va_lambda :: real
  va_margin :: real
  va_flags :: "bool list"
  va_errors :: "real list"

definition validator_init :: "nat \<Rightarrow> real \<Rightarrow> real \<Rightarrow> real \<Rightarrow> fault + validator" where
  "validator_init num_channels element_spacing lambda_val fisher_margin_deg =
     (if element_spacing = 0 then Fail ZeroDivisionError
      else Ok \<lparr>va_spacing = element_spacing, va_lambda = lambda_val, va_margin = radians fisher_margin_deg,
        va_flags = replicate num_channels False, va_errors = replicate num_channels 0\<rparr>)"

definition validate_spatial_integrity :: "phases list \<Rightarrow> (real \<times> real) list \<Rightarrow> vec4 list \<Rightarrow> validator \<Rightarrow>
    fault + (vec4 list \<times> validator)" where
  "validate_spatial_integrity phase_diffs true_az_el weights v =
     seqE (validate_aoa_and_project_nulls phase_diffs true_az_el weights (va_flags v) (va_errors v)
             (va_spacing v) (va_lambda v) (va_margin v))
       (\<lambda>(weights', flags, errors). Ok (weights', v\<lparr>va_flags := flags, va_errors := errors\<rparr>))"

section \<open>Enforcement\<close>

record descriptor =
  de_confidence :: real
  de_null_depth :: real
  de_excluded :: bool
  de_trust :: real
  de_coeffs :: vec4

fun conjugate_steering :: "phases \<Rightarrow> vec4" where
  "conjugate_steering (psi1, psi2, psi3) =
     V4 1 (Complex (cos psi1) (- sin psi1)) (Complex (cos psi2) (- sin psi2)) (Complex (cos psi3) (- sin psi3))"

definition threat_descriptor :: "real \<Rightarrow> real \<Rightarrow> phases \<Rightarrow> fault + descriptor" where
  "threat_descriptor fisher_margin_rad err psis =
     (if fisher_margin_rad + 1 / 10 ^ 12 = 0 then Fail ZeroDivisionError
      else let ratio = err / (fisher_margin_rad + 1 / 10 ^ 12); db_demand = 45 + 25 * (1 - exp (- ratio + 1))
        in Ok \<lparr>de_confidence = 1 - exp (- ratio), de_null_depth = (if 70 < db_demand then 70 else db_demand),
          de_excluded = True, de_trust = 1 / (1 + ratio * ratio), de_coeffs = conjugate_steering psis\<rparr>)"

definition clear_descriptor :: descriptor where
  "clear_descriptor = \<lparr>de_confidence = 0, de_null_depth = 0, de_excluded = False, de_trust = 1, de_coeffs = V4 0 0 0 0\<rparr>"

text \<open>The loop runs over the flags; the phases of a channel are read only when it is a threat.\<close>

fun descriptor_loop :: "real \<Rightarrow> nat \<Rightarrow> bool list \<Rightarrow> real list \<Rightarrow> phases list \<Rightarrow> fault + descriptor list" where
  "descriptor_loop margin m [] errs psis = Ok []"
| "descriptor_loop margin m (fl # fls) errs psis =
     seqE (load errs m) (\<lambda>err.
     seqE (if fl then seqE (load psis m) (threat_descriptor margin err) else Ok clear_descriptor) (\<lambda>d.
     seqE (descriptor_loop margin (Suc m) fls errs psis) (\<lambda>ds. Ok (d # ds))))"

record enforcement =
  en_spacing :: real
  en_lambda :: real
  en_default_margin :: real
  en_margin :: real
  en_flags :: "bool list"
  en_errors :: "real list"
  en_descriptors :: "descriptor list"

definition enforcement_init :: "nat \<Rightarrow> real \<Rightarrow> real \<Rightarrow> real \<Rightarrow> fault + enforcement" where
  "enforcement_init num_channels element_spacing lambda_val default_fisher_margin_deg =
     (if element_spacing = 0 then Fail ZeroDivisionError
      else Ok \<lparr>en_spacing = element_spacing, en_lambda = lambda_val, en_default_margin = radians default_fisher_margin_deg,
        en_margin = radians default_fisher_margin_deg, en_flags = replicate num_channels False,
        en_errors = replicate num_channels 0, en_descriptors = replicate num_channels clear_descriptor\<rparr>)"

definition execute_enforcement_stride :: "phases list \<Rightarrow> (real \<times> real) list \<Rightarrow> vec4 list \<Rightarrow> enforcement \<Rightarrow>
    fault + (vec4 list \<times> enforcement)" where
  "execute_enforcement_stride phase_diffs true_az_el weights e =
     seqE (validate_aoa_and_project_nulls phase_diffs true_az_el weights (en_flags e) (en_errors e)
             (en_spacing e) (en_lambda e) (en_margin e)) (\<lambda>(weights', flags, errors).
     seqE (descriptor_loop (en_margin e) 0 flags errors phase_diffs) (\<lambda>ds.
     seqE (store_all (en_descriptors e) 0 ds) (\<lambda>ds'.
       Ok (weights', e\<lparr>en_flags := flags, en_errors := errors, en_descriptors := ds'\<rparr>))))"

definition interoperate_with_glrt :: "bool \<Rightarrow> enforcement \<Rightarrow> enforcement" where
  "interoperate_with_glrt covariance_anomaly e =
     e\<lparr>en_margin := (if covariance_anomaly then en_default_margin e * (40 / 100) else en_default_margin e)\<rparr>"

record aoa_payload =
  ap_confidences :: "real list"
  ap_null_demands :: "real list"
  ap_exclusion :: "bool list"
  ap_trust :: "real list"

definition enforcement_payload :: "enforcement \<Rightarrow> aoa_payload" where
  "enforcement_payload e = \<lparr>ap_confidences = map de_confidence (en_descriptors e), ap_null_demands = map de_null_depth (en_descriptors e),
     ap_exclusion = map de_excluded (en_descriptors e), ap_trust = map de_trust (en_descriptors e)\<rparr>"

section \<open>The error is the angle between two directions\<close>

lemma spherical_bound: "\<bar>sin a * sin b + cos a * cos b * cos d\<bar> \<le> (1 :: real)"
proof -
  let ?p = "(1 + cos d) / 2" and ?q = "(1 - cos d) / 2"
  have "sin a * sin b + cos a * cos b * cos d = ?p * cos (a - b) - ?q * cos (a + b)"
    by (simp add: cos_diff cos_add field_simps)
  moreover have "\<bar>u * cos x\<bar> \<le> u" if "0 \<le> u" for u x :: real
    using that mult_left_le [of "\<bar>cos x\<bar>" u] by (simp add: abs_mult)
  moreover have "0 \<le> ?p" "0 \<le> ?q" using cos_ge_minus_one [of d] cos_le_one [of d] by (simp_all only: zero_le_divide_iff) linarith+
  ultimately have "\<bar>?p * cos (a - b)\<bar> \<le> ?p" "\<bar>?q * cos (a + b)\<bar> \<le> ?q"
    "sin a * sin b + cos a * cos b * cos d = ?p * cos (a - b) - ?q * cos (a + b)" by blast+
  moreover have "?p + ?q = 1" by (simp only: add_divide_distrib [symmetric]) simp
  ultimately show ?thesis by (simp only: abs_le_iff) linarith
qed

text \<open>A plane wave from a direction over the horizon\<close>

definition wave_from :: "real \<Rightarrow> real \<times> real \<Rightarrow> phases \<Rightarrow> bool" where
  "wave_from scaling azel psis \<longleftrightarrow> 0 \<le> snd azel \<and> snd azel \<le> 90 \<and>
     fst psis * scaling = cos (radians (snd azel)) * cos (radians (fst azel)) \<and>
     fst (snd psis) * scaling = cos (radians (snd azel)) * sin (radians (fst azel))"

definition geodesic :: "real \<times> real \<Rightarrow> real \<times> real \<Rightarrow> real" where
  "geodesic p q = arccos (sin (radians (snd p)) * sin (radians (snd q)) +
     cos (radians (snd p)) * cos (radians (snd q)) * cos (radians (fst p) - radians (fst q)))"

lemma wave_error:
  assumes "wave_from scaling q psis"
  shows "angular_error scaling psis p = geodesic p q"
proof -
  obtain a e where q: "q = (a, e)" by (cases q)
  obtain psi1 psi2 psi3 where ps: "psis = (psi1, psi2, psi3)" by (cases psis)
  obtain az el where p: "p = (az, el)" by (cases p)
  let ?e = "radians e" and ?a = "radians a"
  have e: "0 \<le> ?e" "?e \<le> pi / 2" using assms by (simp_all add: q wave_from_def radians_def)
  have u: "psi1 * scaling = cos ?e * cos ?a" "psi2 * scaling = cos ?e * sin ?a"
    using assms by (simp_all add: q ps wave_from_def)
  have "cos ?e * cos ?a * (cos ?e * cos ?a) + cos ?e * sin ?a * (cos ?e * sin ?a) = (cos ?e)\<^sup>2 * ((cos ?a)\<^sup>2 + (sin ?a)\<^sup>2)"
    by (simp only: power2_eq_square algebra_simps)
  also have "\<dots> = (cos ?e)\<^sup>2" by simp
  finally have sq: "cos ?e * cos ?a * (cos ?e * cos ?a) + cos ?e * sin ?a * (cos ?e * sin ?a) = (cos ?e)\<^sup>2" .
  have "1 - (cos ?e)\<^sup>2 = (sin ?e)\<^sup>2" by (simp add: sin_squared_eq)
  moreover have "0 \<le> sin ?e" using e by (intro sin_ge_zero) auto
  ultimately have root: "sqrt (1 - (cos ?e)\<^sup>2) = sin ?e" by simp
  have "(cos ?e)\<^sup>2 \<le> 1" by (simp add: power_le_one_iff abs_square_le_1)
  then have dir: "measured_direction scaling psis = (cos ?e * cos ?a, cos ?e * sin ?a, sin ?e)"
    unfolding ps measured_direction.simps Let_def u sq by (simp add: root)
  have "dot3 (measured_direction scaling psis) (true_direction p) =
      sin (radians el) * sin ?e + cos (radians el) * cos ?e * cos (radians az - ?a)"
    unfolding dir p by (simp add: cos_diff algebra_simps)
  with spherical_bound [of "radians el" ?e "radians az - ?a"] show ?thesis
    by (simp add: angular_error_def geodesic_def p q abs_le_iff)
qed

section \<open>What a stride leaves\<close>

lemma steering_power: "vec_power (wave_vector p) = 4"
  by (cases p) (simp add: abs2_def flip: power2_eq_square)

lemma project_null_properties:
  assumes "vec_power s = 4"
  shows "hdot s (project_null s w) = 0" "hdot (project_null s w) s = 0"
    "hdot s x = 0 \<Longrightarrow> hdot (project_null s w) x = hdot w x" "vec_power (project_null s w) \<le> vec_power w"
proof -
  have s: "hdot s s = 4" by (simp add: hdot_self assms)
  show z: "hdot s (project_null s w) = 0" by (simp add: project_null_def hdot_sub_right s)
  then show "hdot (project_null s w) s = 0" using cnj_hdot [of s "project_null s w"] by simp
  show "hdot s x = 0 \<Longrightarrow> hdot (project_null s w) x = hdot w x" by (simp add: project_null_def hdot_sub_left)
  obtain x y where h: "hdot s w = Complex x y" by (cases "hdot s w")
  have "hdot w s = Complex x (- y)" using cnj_hdot [of s w] by (simp add: h complex_eq_iff)
  then have "vec_power (project_null s w) = vec_power w - (x * x + y * y) / 4"
    unfolding project_null_def vec_power_sub assms h by (simp add: abs2_def field_simps)
  then show "vec_power (project_null s w) \<le> vec_power w" by simp
qed

lemma threat_descriptor_bounds:
  assumes "0 < margin" "margin < err"
  shows "\<exists>d. threat_descriptor margin err psis = Ok d \<and> 0 < de_confidence d \<and> de_confidence d < 1 \<and> de_null_depth d \<le> 70 \<and>
    de_excluded d \<and> 0 < de_trust d \<and> de_trust d < 1 \<and> de_coeffs d = conjugate_steering psis \<and>
    (margin + 1 / 10 ^ 12 \<le> err \<longrightarrow> 45 \<le> de_null_depth d \<and> de_trust d \<le> 1 / 2)"
proof -
  define r where "r = err / (margin + 1 / 10 ^ 12)"
  have m: "0 < margin + 1 / 10 ^ 12" using assms(1) by (simp add: add_pos_pos)
  have r: "0 < r" using assms m unfolding r_def by (intro divide_pos_pos) simp_all
  have one: "1 \<le> r" if "margin + 1 / 10 ^ 12 \<le> err" using that m unfolding r_def by (simp only: le_divide_eq_1_pos)
  have "0 < r * r" using r by simp
  then have t: "0 < 1 / (1 + r * r)" "1 / (1 + r * r) < 1" by (simp_all add: divide_simps add_pos_pos)
  have half: "1 / (1 + r * r) \<le> 1 / 2" if "1 \<le> r"
  proof -
    have "1 * 1 \<le> r * r" by (rule mult_mono) (use that in auto)
    then show ?thesis by (simp add: divide_simps)
  qed
  have e: "exp (- r) < 1" "0 < exp (- r)" "0 < exp (- r + 1)" using r by simp_all
  have e1: "exp (- r + 1) \<le> 1" if "1 \<le> r" using that by simp
  have "threat_descriptor margin err psis =
      Ok \<lparr>de_confidence = 1 - exp (- r), de_null_depth = (if 70 < 45 + 25 * (1 - exp (- r + 1)) then 70 else 45 + 25 * (1 - exp (- r + 1))),
        de_excluded = True, de_trust = 1 / (1 + r * r), de_coeffs = conjugate_steering psis\<rparr>"
    unfolding threat_descriptor_def Let_def r_def [symmetric] using m by (simp only: if_False order_less_irrefl less_imp_neq [THEN not_sym] simp_thms)
  then show ?thesis using e t one half e1 by auto
qed

lemma validate_rows_exact:
  "length ps \<le> length as \<Longrightarrow> length ps \<le> length ws \<Longrightarrow>
   validate_rows scaling margin ps as ws = Ok (map (\<lambda>m. validate_channel scaling margin (ps ! m) (as ! m) (ws ! m)) [0..<length ps])"
proof (induction scaling margin ps as ws rule: validate_rows.induct)
  case (2 scaling margin p ps a as w ws)
  then show ?case by (simp add: map_upt_Suc del: upt_Suc)
qed simp_all

lemma descriptor_loop_exact:
  assumes "\<And>i. i < length fls \<Longrightarrow> m + i < length errs \<and> (fls ! i \<longrightarrow> m + i < length psis \<and>
    threat_descriptor margin (errs ! (m + i)) (psis ! (m + i)) = Ok (d i))"
  shows "descriptor_loop margin m fls errs psis = Ok (map (\<lambda>i. if fls ! i then d i else clear_descriptor) [0..<length fls])"
  using assms
proof (induction fls arbitrary: m d)
  case (Cons fl fls)
  have "descriptor_loop margin (Suc m) fls errs psis = Ok (map (\<lambda>i. if fls ! i then d (Suc i) else clear_descriptor) [0..<length fls])"
  proof (rule Cons.IH)
    fix i assume "i < length fls"
    with Cons.prems [of "Suc i"] show "Suc m + i < length errs \<and> (fls ! i \<longrightarrow> Suc m + i < length psis \<and>
      threat_descriptor margin (errs ! (Suc m + i)) (psis ! (Suc m + i)) = Ok (d (Suc i)))" by simp
  qed
  with Cons.prems [of 0] show ?case by (simp add: load_def map_upt_Suc del: upt_Suc)
qed simp

definition enforcement_ok :: "nat \<Rightarrow> enforcement \<Rightarrow> bool" where
  "enforcement_ok n e \<longleftrightarrow> length (en_flags e) = n \<and> length (en_errors e) = n \<and> length (en_descriptors e) = n \<and>
     en_spacing e \<noteq> 0 \<and> 0 < en_margin e \<and> 0 < en_default_margin e"

definition en_scaling :: "enforcement \<Rightarrow> real" where
  "en_scaling e = en_lambda e / (2 * pi * en_spacing e)"

definition channel_enforced :: "real \<Rightarrow> real \<Rightarrow> phases \<Rightarrow> vec4 \<Rightarrow> vec4 \<Rightarrow> descriptor \<Rightarrow> bool" where
  "channel_enforced margin err psis w w' d \<longleftrightarrow>
     (if margin < err
      then hdot w' (wave_vector psis) = 0 \<and> (\<forall>x. hdot (wave_vector psis) x = 0 \<longrightarrow> hdot w' x = hdot w x) \<and> vec_power w' \<le> vec_power w \<and>
        de_excluded d \<and> 0 < de_confidence d \<and> de_confidence d < 1 \<and> de_null_depth d \<le> 70 \<and> 0 < de_trust d \<and> de_trust d < 1 \<and>
        de_coeffs d = conjugate_steering psis
      else w' = w \<and> d = clear_descriptor)"

lemma enforcement_stride_exact:
  assumes "enforcement_ok n e" "length ps = n" "length as = n" "length ws = n"
  shows "\<exists>ws' e'. execute_enforcement_stride ps as ws e = Ok (ws', e') \<and> enforcement_ok n e' \<and> length ws' = n \<and>
    en_spacing e' = en_spacing e \<and> en_lambda e' = en_lambda e \<and> en_default_margin e' = en_default_margin e \<and> en_margin e' = en_margin e \<and>
    en_flags e' = map (\<lambda>m. en_margin e < angular_error (en_scaling e) (ps ! m) (as ! m)) [0..<n] \<and>
    (\<forall>m < n. channel_enforced (en_margin e) (angular_error (en_scaling e) (ps ! m) (as ! m)) (ps ! m) (ws ! m) (ws' ! m) (en_descriptors e' ! m))"
proof -
  let ?err = "\<lambda>m. angular_error (en_scaling e) (ps ! m) (as ! m)"
  define v where "v = (\<lambda>m. validate_channel (en_scaling e) (en_margin e) (ps ! m) (as ! m) (ws ! m))"
  have v: "vd_hijack (v m) = (en_margin e < ?err m)" "vd_error (v m) = ?err m"
    "vd_weights (v m) = (if en_margin e < ?err m then project_null (wave_vector (ps ! m)) (ws ! m) else ws ! m)" for m
    by (simp_all add: v_def validate_channel_def Let_def)
  have ok: "length (en_flags e) = n" "length (en_errors e) = n" "length (en_descriptors e) = n" "en_spacing e \<noteq> 0" "0 < en_margin e"
    using assms(1) by (auto simp: enforcement_ok_def)
  have kernel: "validate_aoa_and_project_nulls ps as ws (en_flags e) (en_errors e) (en_spacing e) (en_lambda e) (en_margin e) =
      Ok (map (vd_weights \<circ> v) [0..<n], map (vd_hijack \<circ> v) [0..<n], map (vd_error \<circ> v) [0..<n])"
    using ok assms(2-4)
    by (simp add: validate_aoa_and_project_nulls_def validate_rows_exact store_all_Ok v_def en_scaling_def comp_def)
  have "\<forall>m. \<exists>d. en_margin e < ?err m \<longrightarrow> threat_descriptor (en_margin e) (?err m) (ps ! m) = Ok d \<and> 0 < de_confidence d \<and> de_confidence d < 1 \<and>
      de_null_depth d \<le> 70 \<and> de_excluded d \<and> 0 < de_trust d \<and> de_trust d < 1 \<and> de_coeffs d = conjugate_steering (ps ! m)"
    using threat_descriptor_bounds [OF ok(5)] by blast
  then obtain d where d: "\<And>m. en_margin e < ?err m \<Longrightarrow> threat_descriptor (en_margin e) (?err m) (ps ! m) = Ok (d m) \<and> 0 < de_confidence (d m) \<and>
      de_confidence (d m) < 1 \<and> de_null_depth (d m) \<le> 70 \<and> de_excluded (d m) \<and> 0 < de_trust (d m) \<and> de_trust (d m) < 1 \<and>
      de_coeffs (d m) = conjugate_steering (ps ! m)" by metis
  let ?ds = "map (\<lambda>m. if en_margin e < ?err m then d m else clear_descriptor) [0..<n]"
  have "descriptor_loop (en_margin e) 0 (map (vd_hijack \<circ> v) [0..<n]) (map (vd_error \<circ> v) [0..<n]) ps =
      Ok (map (\<lambda>i. if map (vd_hijack \<circ> v) [0..<n] ! i then d i else clear_descriptor) [0..<length (map (vd_hijack \<circ> v) [0..<n])])"
    by (rule descriptor_loop_exact) (use d assms(2) in \<open>auto simp: v\<close>)
  also have "map (\<lambda>i. if map (vd_hijack \<circ> v) [0..<n] ! i then d i else clear_descriptor) [0..<length (map (vd_hijack \<circ> v) [0..<n])] = ?ds"
    by (rule map_cong) (auto simp: v)
  finally have loop: "descriptor_loop (en_margin e) 0 (map (vd_hijack \<circ> v) [0..<n]) (map (vd_error \<circ> v) [0..<n]) ps = Ok ?ds" .
  have "execute_enforcement_stride ps as ws e =
      Ok (map (vd_weights \<circ> v) [0..<n], e\<lparr>en_flags := map (vd_hijack \<circ> v) [0..<n], en_errors := map (vd_error \<circ> v) [0..<n], en_descriptors := ?ds\<rparr>)"
    unfolding execute_enforcement_stride_def kernel seqE_simps prod.case loop by (simp add: ok store_all_Ok)
  moreover have "channel_enforced (en_margin e) (?err m) (ps ! m) (ws ! m) (map (vd_weights \<circ> v) [0..<n] ! m) (?ds ! m)" if "m < n" for m
    using that d [of m] project_null_properties [OF steering_power] by (simp add: channel_enforced_def v)
  ultimately show ?thesis using assms(1) by (simp add: enforcement_ok_def comp_def v)
qed

section \<open>Runs of the bridge\<close>

text \<open>The anomaly bit of the spatial detector sets the margin of a stride before it is enforced.\<close>

definition margin_of :: "bool \<Rightarrow> enforcement \<Rightarrow> real" where
  "margin_of anomaly e = (if anomaly then en_default_margin e * (40 / 100) else en_default_margin e)"

lemma interoperate_ok:
  "enforcement_ok n e \<Longrightarrow> enforcement_ok n (interoperate_with_glrt anomaly e)"
  "en_margin (interoperate_with_glrt anomaly e) = margin_of anomaly e" "en_scaling (interoperate_with_glrt anomaly e) = en_scaling e"
  "en_default_margin (interoperate_with_glrt anomaly e) = en_default_margin e"
  by (simp_all add: interoperate_with_glrt_def enforcement_ok_def margin_of_def en_scaling_def)

lemma enforcement_init_ok:
  "enforcement_init n spacing lam deg = Ok e \<Longrightarrow> 0 < deg \<Longrightarrow> enforcement_ok n e \<and> en_scaling e = lam / (2 * pi * spacing) \<and> en_default_margin e = radians deg"
  by (auto simp: enforcement_init_def enforcement_ok_def en_scaling_def radians_def split: if_splits)

text \<open>
  C7: One stride of the bridge, when every channel receives a plane wave from over the horizon: a channel is flagged and
  excluded exactly when its wave comes from further than the active margin off the satellite, along the great
  circle. A flagged channel's weights are blind to the wave it measured, answer every orthogonal
  direction as before and have no more power, and its trust and confidence lie strictly between 0 and 1; the others are untouched.
\<close>

theorem spoofed_wave_nulled:
  assumes "enforcement_ok n e" "length ps = n" "length as = n" "length ws = n" "length qs = n"
    "list_all (\<lambda>(q, psis). wave_from (en_scaling e) q psis) (zip qs ps)"
  shows "\<exists>ws' e'. execute_enforcement_stride ps as ws (interoperate_with_glrt anomaly e) = Ok (ws', e') \<and> enforcement_ok n e' \<and>
    en_flags e' = map (\<lambda>m. margin_of anomaly e < geodesic (as ! m) (qs ! m)) [0..<n] \<and>
    (\<forall>m < n. let w' = ws' ! m; d = en_descriptors e' ! m in
      if margin_of anomaly e < geodesic (as ! m) (qs ! m)
      then hdot w' (wave_vector (ps ! m)) = 0 \<and> (\<forall>x. hdot (wave_vector (ps ! m)) x = 0 \<longrightarrow> hdot w' x = hdot (ws ! m) x) \<and>
        vec_power w' \<le> vec_power (ws ! m) \<and> de_excluded d \<and> 0 < de_trust d \<and> de_trust d < 1 \<and> 0 < de_confidence d \<and> de_confidence d < 1
      else w' = ws ! m \<and> d = clear_descriptor)"
proof -
  let ?e = "interoperate_with_glrt anomaly e"
  have err: "angular_error (en_scaling ?e) (ps ! m) (as ! m) = geodesic (as ! m) (qs ! m)" if "m < n" for m
  proof -
    have "wave_from (en_scaling e) (qs ! m) (ps ! m)"
      using assms(6) that assms(2,5) unfolding list_all_length by (force simp: interoperate_ok)
    then show ?thesis by (simp add: wave_error interoperate_ok)
  qed
  from enforcement_stride_exact [OF interoperate_ok(1) [OF assms(1), of anomaly] assms(2-4)] obtain ws' e' where
    x: "execute_enforcement_stride ps as ws ?e = Ok (ws', e')" "enforcement_ok n e'"
    "en_flags e' = map (\<lambda>m. margin_of anomaly e < angular_error (en_scaling ?e) (ps ! m) (as ! m)) [0..<n]"
    "\<And>m. m < n \<Longrightarrow> channel_enforced (margin_of anomaly e) (angular_error (en_scaling ?e) (ps ! m) (as ! m)) (ps ! m) (ws ! m) (ws' ! m) (en_descriptors e' ! m)"
    unfolding interoperate_ok(2) by blast
  have "en_flags e' = map (\<lambda>m. margin_of anomaly e < geodesic (as ! m) (qs ! m)) [0..<n]"
    unfolding x(3) by (rule map_cong) (simp_all add: err)
  moreover have "let w' = ws' ! m; d = en_descriptors e' ! m in
      if margin_of anomaly e < geodesic (as ! m) (qs ! m)
      then hdot w' (wave_vector (ps ! m)) = 0 \<and> (\<forall>x. hdot (wave_vector (ps ! m)) x = 0 \<longrightarrow> hdot w' x = hdot (ws ! m) x) \<and>
        vec_power w' \<le> vec_power (ws ! m) \<and> de_excluded d \<and> 0 < de_trust d \<and> de_trust d < 1 \<and> 0 < de_confidence d \<and> de_confidence d < 1
      else w' = ws ! m \<and> d = clear_descriptor" if "m < n" for m
    using x(4) [OF that] unfolding err [OF that] channel_enforced_def Let_def by (auto split: if_splits)
  ultimately show ?thesis using x(1,2) by blast
qed

definition half_wave_bridge :: enforcement where
  "half_wave_bridge = \<lparr>en_spacing = 1 / 2, en_lambda = 1, en_default_margin = radians 5, en_margin = radians 5, en_flags = [False],
     en_errors = [0], en_descriptors = [clear_descriptor]\<rparr>"

theorem spoofed_wave_nulled_witness:
  "\<exists>ws' e'. execute_enforcement_stride [(pi, 0, 0)] [(90, 0)] [V4 1 1 1 1] (interoperate_with_glrt True half_wave_bridge) = Ok (ws', e') \<and>
     en_flags e' = [True] \<and> hdot (ws' ! 0) (V4 1 (-1) 1 1) = 0"
proof -
  have ok: "enforcement_ok 1 half_wave_bridge" by (simp add: enforcement_ok_def half_wave_bridge_def radians_def)
  have wave: "list_all (\<lambda>(q, psis). wave_from (en_scaling half_wave_bridge) q psis) (zip [(0, 0)] [(pi, 0, 0)])"
    by (simp add: wave_from_def en_scaling_def half_wave_bridge_def radians_def)
  have "margin_of True half_wave_bridge < geodesic ([(90, 0)] ! 0) ([(0, 0)] ! 0)"
    by (simp add: margin_of_def half_wave_bridge_def geodesic_def radians_def)
  with spoofed_wave_nulled [OF ok _ _ _ _ wave, of "[(90, 0)]" "[V4 1 1 1 1]" True] show ?thesis
    by (auto simp: Let_def)
qed

end
