(* ===== verification/Telemetry_Dispatcher.thy ===== *)
theory Telemetry_Dispatcher
  imports Binary_Codec
begin

text \<open>
  \<^verbatim>\<open>telemetry_dispatcher.py\<close>: one dispatcher with a JSON transport of its own and the binary
  transport of \<open>Websocket_Runtime\<close> behind the codec. A JSON payload is a map from keys to
  values. \<open>broadcast_binary\<close> is modelled from the extracted fields on: the extraction of
  the nine fields with their defaults and conversions is not.
\<close>

section \<open>The JSON transport\<close>

text \<open>\<^verbatim>\<open>payload.get("threat_state") == 3\<close>; Python compares integers and floats by value.\<close>

fun equals_int :: "json \<Rightarrow> int \<Rightarrow> bool" where
  "equals_int (JInt i) n = (i = n)"
| "equals_int (JNum r) n = (r = of_int n)"
| "equals_int (JBool b) n = ((if b then 1 else 0) = n)"
| "equals_int _ n = False"

definition critical_threat_state :: int where
  "critical_threat_state = 3"

definition json_critical :: "payload \<Rightarrow> bool" where
  "json_critical p =
     (case p ''threat_state'' of Some v \<Rightarrow> equals_int v critical_threat_state | None \<Rightarrow> False)"

definition client_push :: "payload \<Rightarrow> payload alert_queue \<Rightarrow> fault + payload alert_queue" where
  "client_push p q = alert_push json_critical p q"

definition client_pop :: "payload alert_queue \<Rightarrow> payload option \<times> payload alert_queue" where
  "client_pop q = alert_pop q"

interpretation json_queue: alert_retention client_push json_critical "\<lambda>_. True"
  by unfold_locales
    (simp_all add: client_push_def alert_push_room alert_push_routine alert_push_displace alert_push_yield)

section \<open>The dispatcher\<close>

record dispatcher =
  disp_capacity :: nat
  disp_clients :: "payload clients"
  disp_codec :: codec
  binary_runtime :: ws_runtime
  disp_broadcasts :: nat
  disp_dropped :: nat
  disp_critical_drops :: nat

definition disp_init :: "nat \<Rightarrow> int \<Rightarrow> dispatcher" where
  "disp_init cap ver = \<lparr>disp_capacity = cap, disp_clients = [], disp_codec = codec_init ver,
     binary_runtime = ws_init cap, disp_broadcasts = 0, disp_dropped = 0, disp_critical_drops = 0\<rparr>"

definition disp_register :: "string \<Rightarrow> dispatcher \<Rightarrow> dispatcher" where
  "disp_register client_id d =
     d\<lparr>disp_clients := dict_set client_id (new_queue (disp_capacity d)) (disp_clients d)\<rparr>"

definition disp_unregister :: "string \<Rightarrow> dispatcher \<Rightarrow> dispatcher" where
  "disp_unregister client_id d = d\<lparr>disp_clients := dict_del client_id (disp_clients d)\<rparr>"

definition disp_broadcast :: "payload \<Rightarrow> dispatcher \<Rightarrow> fault option \<times> dispatcher" where
  "disp_broadcast p d =
     (let (err, cs, dr, cr) = fan_out client_push p (disp_clients d) (disp_dropped d) (disp_critical_drops d)
      in (err, d\<lparr>disp_broadcasts := disp_broadcasts d + 1, disp_clients := cs,
                 disp_dropped := dr, disp_critical_drops := cr\<rparr>))"

definition disp_register_binary :: "string \<Rightarrow> dispatcher \<Rightarrow> dispatcher" where
  "disp_register_binary client_id d = d\<lparr>binary_runtime := ws_register client_id (binary_runtime d)\<rparr>"

definition disp_unregister_binary :: "string \<Rightarrow> dispatcher \<Rightarrow> dispatcher" where
  "disp_unregister_binary client_id d = d\<lparr>binary_runtime := ws_unregister client_id (binary_runtime d)\<rparr>"

text \<open>\<^verbatim>\<open>bytes(frame)\<close> copies the codec's view before it is queued.\<close>

definition disp_broadcast_binary :: "telemetry \<Rightarrow> dispatcher \<Rightarrow> fault option \<times> dispatcher" where
  "disp_broadcast_binary t d =
     (case encode t (disp_codec d) of
        Inl e \<Rightarrow> (Some e, d)
      | Inr c \<Rightarrow>
          let (err, rt) = ws_broadcast (view c) (binary_runtime d)
          in (err, d\<lparr>disp_codec := c, binary_runtime := rt\<rparr>))"

definition disp_shutdown :: "dispatcher \<Rightarrow> dispatcher" where
  "disp_shutdown d = d\<lparr>disp_clients := [], binary_runtime := (binary_runtime d)\<lparr>clients := []\<rparr>\<rparr>"

section \<open>From telemetry records to client queues\<close>

fun disp_send_all :: "telemetry list \<Rightarrow> dispatcher \<Rightarrow> fault option \<times> dispatcher" where
  "disp_send_all [] d = (None, d)"
| "disp_send_all (t # ts) d =
     (case disp_broadcast_binary t d of
        (Some e, d') \<Rightarrow> (Some e, d')
      | (None, d') \<Rightarrow> disp_send_all ts d')"

text \<open>A frame carries a record: it decodes to it and is critical exactly when the record is.\<close>

definition carries :: "int \<Rightarrow> byte list \<Rightarrow> telemetry \<Rightarrow> bool" where
  "carries ver f t \<longleftrightarrow> 5 \<le> length f \<and> decode f = Ok (ver, t) \<and> frame_threat f = Ok (threat_state t)"

lemma encode_carries:
  assumes "encodable (version c) t" and "length (write_buf c) = schema_size"
  shows "\<exists>c'. encode t c = Ok c' \<and> version c' = version c \<and> length (write_buf c') = schema_size \<and>
    carries (version c) (view c') t"
proof -
  obtain fs bs rest where e: "encode t c = Ok (c\<lparr>write_buf := bs\<rparr>)" "encode_fields (version c) t = Ok fs"
    "struct_unpack schema_format bs = Ok fs" "length bs = schema_size"
    "bs = le_bytes 1 (nat (version c)) @ le_bytes 4 (nat (threat_state t mod 2 ^ 32)) @ rest"
    using encode_Ok [OF assms] by blast
  moreover have "well_shaped t" "int32 (threat_state t)" using assms by (simp_all add: encodable_def)
  ultimately have "decode bs = Ok (version c, t)" "frame_threat bs = Ok (threat_state t)"
    using decode_fields frame_threat_encoded by blast+
  with e(1,4) show ?thesis by (simp add: carries_def view_def schema_size_value)
qed

lemma disp_broadcast_binary_step:
  assumes "encodable (version (disp_codec d)) t" and "length (write_buf (disp_codec d)) = schema_size"
    and "ws_history cap h (binary_runtime d)" and "0 < cap"
  shows "\<exists>f d'. disp_broadcast_binary t d = (None, d') \<and> carries (version (disp_codec d)) f t \<and>
    version (disp_codec d') = version (disp_codec d) \<and> length (write_buf (disp_codec d')) = schema_size \<and>
    ws_history cap (h @ [f]) (binary_runtime d')"
proof -
  obtain c where c: "encode t (disp_codec d) = Ok c" "version c = version (disp_codec d)"
    "length (write_buf c) = schema_size" "carries (version (disp_codec d)) (view c) t"
    using encode_carries [OF assms(1,2)] by blast
  then have "5 \<le> length (view c)" by (simp add: carries_def)
  with ws_broadcast_history [OF assms(3,4)] obtain rt where
    "ws_broadcast (view c) (binary_runtime d) = (None, rt)" "ws_history cap (h @ [view c]) rt" by blast
  with c show ?thesis by (auto simp: disp_broadcast_binary_def)
qed

lemma disp_send_all_history:
  assumes "\<forall>t \<in> set ts. encodable (version (disp_codec d)) t"
    and "length (write_buf (disp_codec d)) = schema_size"
    and "ws_history cap h (binary_runtime d)" and "0 < cap"
  shows "\<exists>fs d'. disp_send_all ts d = (None, d') \<and>
    list_all2 (carries (version (disp_codec d))) fs ts \<and> ws_history cap (h @ fs) (binary_runtime d')"
  using assms
proof (induction ts arbitrary: h d)
  case (Cons t ts)
  then obtain f d1 where d1: "disp_broadcast_binary t d = (None, d1)" "carries (version (disp_codec d)) f t"
    "version (disp_codec d1) = version (disp_codec d)" "length (write_buf (disp_codec d1)) = schema_size"
    "ws_history cap (h @ [f]) (binary_runtime d1)"
    using disp_broadcast_binary_step [of d t cap h] by auto
  have "\<forall>t \<in> set ts. encodable (version (disp_codec d1)) t" using Cons.prems(1) d1(3) by simp
  from Cons.IH [OF this d1(4,5) Cons.prems(4)] d1(3) obtain fs d2 where "disp_send_all ts d1 = (None, d2)"
    "list_all2 (carries (version (disp_codec d))) fs ts" "ws_history cap ((h @ [f]) @ fs) (binary_runtime d2)"
    by auto
  with d1 show ?case by (intro exI [of _ "f # fs"] exI [of _ d2]) simp
qed auto

lemma carries_critical: "carries ver f t \<Longrightarrow> frame_critical f = (threat_state t = 3)"
  by (simp add: carries_def frame_critical_def)

lemma carries_filter:
  "list_all2 (carries ver) fs ts \<Longrightarrow>
   list_all2 (carries ver) (filter frame_critical fs) (filter (\<lambda>t. threat_state t = 3) ts)"
  by (induction rule: list_all2_induct) (auto simp: carries_critical)

lemma carries_decode: "list_all2 (carries ver) fs ts \<Longrightarrow> map decode fs = map (\<lambda>t. Ok (ver, t)) ts"
  by (induction rule: list_all2_induct) (auto simp: carries_def)

lemma list_all2_last_n: "list_all2 P xs ys \<Longrightarrow> list_all2 P (last_n n xs) (last_n n ys)"
  by (simp add: last_n_def list_all2_lengthD list_all2_dropI)

section \<open>Properties\<close>

text \<open>
  C5: for any history of telemetry records that fit the schema, sent by a fresh dispatcher to
  any set of binary clients, the critical frames left in every client's queue decode to
  exactly the most recent \<open>cap\<close> records with threat state 3, in order, and no exception occurs.
\<close>

theorem dispatcher_critical_delivery:
  assumes "0 < cap" and "\<forall>t \<in> set ts. encodable ver t"
  shows "\<exists>d. disp_send_all ts ((disp_init cap ver)\<lparr>binary_runtime := ws_register_all ids (ws_init cap)\<rparr>) = (None, d) \<and>
    (\<forall>(cid, q) \<in> set (clients (binary_runtime d)).
       map decode (filter frame_critical (queue q)) =
         map (\<lambda>t. Ok (ver, t)) (last_n cap (filter (\<lambda>t. threat_state t = 3) ts)))"
proof -
  let ?d = "(disp_init cap ver)\<lparr>binary_runtime := ws_register_all ids (ws_init cap)\<rparr>"
  have "\<forall>t \<in> set ts. encodable (version (disp_codec ?d)) t" "length (write_buf (disp_codec ?d)) = schema_size"
    "ws_history cap [] (binary_runtime ?d)"
    using assms(2) by (simp_all add: disp_init_def codec_init_def ws_register_all_history)
  from disp_send_all_history [OF this assms(1)] obtain fs d where
    d: "disp_send_all ts ?d = (None, d)" "list_all2 (carries ver) fs ts" "ws_history cap fs (binary_runtime d)"
    by (auto simp: disp_init_def codec_init_def)
  have "map decode (last_n cap (filter frame_critical fs)) =
      map (\<lambda>t. Ok (ver, t)) (last_n cap (filter (\<lambda>t. threat_state t = 3) ts))"
    by (intro carries_decode list_all2_last_n carries_filter d(2))
  with d(1,3) show ?thesis by (auto simp: ws_history_def binary_queue.retained_def)
qed

theorem dispatcher_critical_delivery_witness:
  "\<exists>d. disp_send_all [sample_telemetry, sample_telemetry]
       ((disp_init 1 1)\<lparr>binary_runtime := ws_register_all [''hud''] (ws_init 1)\<rparr>) = (None, d) \<and>
    (\<forall>(cid, q) \<in> set (clients (binary_runtime d)).
       map decode (filter frame_critical (queue q)) =
         map (\<lambda>t. Ok (1, t)) (last_n 1 (filter (\<lambda>t. threat_state t = 3) [sample_telemetry, sample_telemetry])))"
  by (rule dispatcher_critical_delivery)
    (simp_all add: encodable_def sample_telemetry_def int32_def well_shaped_def)

text \<open>
  one JSON client queue under any history of payloads: the critical payloads kept are the
  most recent \<open>cap\<close> critical ones, and the drop counters account for every other push.
\<close>

theorem json_queue_retention:
  assumes "0 < cap"
  shows "\<exists>q. push_all client_push ps (new_queue cap) = Ok q \<and> length (queue q) \<le> cap \<and>
    filter json_critical (queue q) = last_n cap (filter json_critical ps) \<and>
    length (queue q) + drop_count q + critical_drop_count q = length ps \<and>
    critical_drop_count q = length (filter json_critical ps) - cap"
proof -
  have "length (queue q) + drop_count q + critical_drop_count q = length []"
    "critical_drop_count q = length (filter json_critical []) - cap" if "q = new_queue cap" for q
    using that by (simp_all add: new_queue_def)
  from json_queue.retained_push_all [OF json_queue.retained_new assms _ this [OF refl], of ps]
  show ?thesis by (auto simp: json_queue.retained_def)
qed

theorem json_queue_retention_witness:
  "\<exists>q. push_all client_push [[''threat_state'' \<mapsto> JInt 3], Map.empty] (new_queue 1) = Ok q \<and> length (queue q) \<le> 1 \<and>
    filter json_critical (queue q) = last_n 1 (filter json_critical [[''threat_state'' \<mapsto> JInt 3], Map.empty]) \<and>
    length (queue q) + drop_count q + critical_drop_count q = length [[''threat_state'' \<mapsto> JInt 3], Map.empty :: payload] \<and>
    critical_drop_count q = length (filter json_critical [[''threat_state'' \<mapsto> JInt 3], Map.empty]) - 1"
  by (rule json_queue_retention) simp

end
