(* ===== verification/Ring_Slots.thy ===== *)
theory Ring_Slots
  imports Binary_Codec "HOL-Library.Sublist"
begin

text \<open>
  The pre-allocated column buffers that \<^verbatim>\<open>fusion_ring_buffer.py\<close> and
  \<^verbatim>\<open>lockfree_fusion_ring_buffer.py\<close> share (one array per telemetry field, one row per slot),
  and the contract of a ring that drops its oldest record when it is full. The locale's
  lemmas speak about any interleaving of pushes and batched pops; both rings interpret it.
\<close>

section \<open>Column buffers\<close>

record columns =
  threat_state_buf :: "32 word list"
  jammer_score_buf :: "float64 list"
  spoof_score_buf :: "float64 list"
  sphericity_buf :: "float64 list"
  skew_residuals_buf :: "float64 list list"
  aoa_deviation_buf :: "float64 list list"
  nulling_directives_buf :: "bool list list"
  timestamp_buf :: "float64 list"

definition new_columns :: "nat \<Rightarrow> columns" where
  "new_columns n = \<lparr>threat_state_buf = replicate n 0, jammer_score_buf = replicate n 0,
     spoof_score_buf = replicate n 0, sphericity_buf = replicate n 0,
     skew_residuals_buf = replicate n (replicate 4 0), aoa_deviation_buf = replicate n (replicate 4 0),
     nulling_directives_buf = replicate n (replicate 4 False), timestamp_buf = replicate n 0\<rparr>"

text \<open>\<^verbatim>\<open>for c in range(4)\<close>: a source row shorter than four is read out of bounds.\<close>

definition row4 :: "'a list \<Rightarrow> fault + 'a list" where
  "row4 xs = (if length xs < 4 then Fail OutOfBounds else Ok (take 4 xs))"

definition write_slot :: "columns \<Rightarrow> nat \<Rightarrow> 'z sample_scheme \<Rightarrow> fault + columns" where
  "write_slot b i s =
     seqE (store (threat_state_buf b) i (word_of_int (threat_state s))) (\<lambda>b1.
     seqE (store (jammer_score_buf b) i (jammer_score s)) (\<lambda>b2.
     seqE (store (spoof_score_buf b) i (spoof_score s)) (\<lambda>b3.
     seqE (store (sphericity_buf b) i (sphericity s)) (\<lambda>b4.
     seqE (store (timestamp_buf b) i (timestamp s)) (\<lambda>b5.
     seqE (row4 (skew_residuals s)) (\<lambda>r1. seqE (store (skew_residuals_buf b) i r1) (\<lambda>b6.
     seqE (row4 (aoa_deviation s)) (\<lambda>r2. seqE (store (aoa_deviation_buf b) i r2) (\<lambda>b7.
     seqE (row4 (nulling_directives s)) (\<lambda>r3. seqE (store (nulling_directives_buf b) i r3) (\<lambda>b8.
       Ok \<lparr>threat_state_buf = b1, jammer_score_buf = b2, spoof_score_buf = b3, sphericity_buf = b4,
           skew_residuals_buf = b6, aoa_deviation_buf = b7, nulling_directives_buf = b8,
           timestamp_buf = b5\<rparr>)))))))))))"

definition read_slot :: "columns \<Rightarrow> nat \<Rightarrow> fault + sample" where
  "read_slot b i =
     seqE (load (threat_state_buf b) i) (\<lambda>t. seqE (load (jammer_score_buf b) i) (\<lambda>j.
     seqE (load (spoof_score_buf b) i) (\<lambda>sp. seqE (load (sphericity_buf b) i) (\<lambda>sph.
     seqE (load (timestamp_buf b) i) (\<lambda>ts. seqE (load (skew_residuals_buf b) i) (\<lambda>sk.
     seqE (load (aoa_deviation_buf b) i) (\<lambda>ao. seqE (load (nulling_directives_buf b) i) (\<lambda>nd.
       Ok \<lparr>threat_state = sint t, jammer_score = j, spoof_score = sp, sphericity = sph,
           skew_residuals = sk, aoa_deviation = ao, nulling_directives = nd, timestamp = ts\<rparr>))))))))"

definition shaped :: "nat \<Rightarrow> columns \<Rightarrow> bool" where
  "shaped n b \<longleftrightarrow> length (threat_state_buf b) = n \<and> length (jammer_score_buf b) = n \<and>
     length (spoof_score_buf b) = n \<and> length (sphericity_buf b) = n \<and> length (skew_residuals_buf b) = n \<and>
     length (aoa_deviation_buf b) = n \<and> length (nulling_directives_buf b) = n \<and>
     length (timestamp_buf b) = n \<and>
     (\<forall>r \<in> set (skew_residuals_buf b). length r = 4) \<and> (\<forall>r \<in> set (aoa_deviation_buf b). length r = 4) \<and>
     (\<forall>r \<in> set (nulling_directives_buf b). length r = 4)"

definition sample_ok :: "'z sample_scheme \<Rightarrow> bool" where
  "sample_ok s \<longleftrightarrow> 4 \<le> length (skew_residuals s) \<and> 4 \<le> length (aoa_deviation s) \<and>
     4 \<le> length (nulling_directives s)"

text \<open>What a slot keeps of a sample: the first four entries of each row, and 32 bits of the state.\<close>

definition stored :: "'z sample_scheme \<Rightarrow> sample" where
  "stored s = \<lparr>threat_state = sint (word_of_int (threat_state s) :: 32 word), jammer_score = jammer_score s,
     spoof_score = spoof_score s, sphericity = sphericity s, skew_residuals = take 4 (skew_residuals s),
     aoa_deviation = take 4 (aoa_deviation s), nulling_directives = take 4 (nulling_directives s),
     timestamp = timestamp s\<rparr>"

lemma shaped_new [simp]: "shaped n (new_columns n)"
  by (simp add: shaped_def new_columns_def)

lemma rows_update:
  "r \<in> set (xs[i := y]) \<Longrightarrow> \<forall>x \<in> set xs. length x = n \<Longrightarrow> length y = n \<Longrightarrow> length r = n"
  using set_update_subset_insert [of xs i y] by auto

lemma write_slot_Ok:
  assumes "shaped n b" and "i < n" and "sample_ok s"
  shows "\<exists>b'. write_slot b i s = Ok b' \<and> shaped n b' \<and>
    (\<forall>j < n. read_slot b' j = (if j = i then Ok (stored s) else read_slot b j))"
  using assms
  by (auto simp: shaped_def sample_ok_def write_slot_def row4_def store_def read_slot_def load_def stored_def
      intro: rows_update)

lemma read_slot_Ok: "shaped n b \<Longrightarrow> i < n \<Longrightarrow> \<exists>s. read_slot b i = Ok s \<and> sample_ok s \<and> stored s = s"
  by (auto simp: shaped_def read_slot_def load_def sample_ok_def stored_def)

text \<open>The slot's content, where it is known to exist.\<close>

definition slot :: "columns \<Rightarrow> nat \<Rightarrow> sample" where
  "slot b i = (case read_slot b i of Inr s \<Rightarrow> s | Inl _ \<Rightarrow> \<lparr>threat_state = 0, jammer_score = 0,
     spoof_score = 0, sphericity = 0, skew_residuals = [], aoa_deviation = [], nulling_directives = [],
     timestamp = 0\<rparr>)"

lemma read_slot_slot: "shaped n b \<Longrightarrow> i < n \<Longrightarrow> read_slot b i = Ok (slot b i)"
  using read_slot_Ok [of n b i] by (auto simp: slot_def)

lemma slot_props: "shaped n b \<Longrightarrow> i < n \<Longrightarrow> sample_ok (slot b i) \<and> stored (slot b i) = slot b i"
  using read_slot_Ok [of n b i] by (auto simp: slot_def)

lemma write_slot_slot:
  assumes "shaped n b" and "i < n" and "sample_ok s"
  obtains b' where "write_slot b i s = Ok b'" and "shaped n b'"
    and "\<And>j. j < n \<Longrightarrow> slot b' j = (if j = i then stored s else slot b j)"
  using write_slot_Ok [OF assms] by (force simp: slot_def)

lemma stored_exact: "int32 (threat_state s) \<Longrightarrow> well_shaped (s :: telemetry) \<Longrightarrow> stored s = sample.truncate s"
proof -
  assume "int32 (threat_state s)" "well_shaped s"
  then have "sint (word_of_int (threat_state s) :: 32 word) = threat_state s"
    by (simp add: int32_def signed_of_int signed_take_bit_int_eq_self)
  with \<open>well_shaped s\<close> show ?thesis
    by (simp add: stored_def well_shaped_def sample.truncate_def)
qed

section \<open>Rings that drop their oldest record\<close>

datatype 'i ring_op = Push 'i | Pop nat

fun pushes :: "'i ring_op list \<Rightarrow> 'i list" where
  "pushes [] = []"
| "pushes (Push x # ops) = x # pushes ops"
| "pushes (Pop n # ops) = pushes ops"

text \<open>A run of operations and everything the consumer received, in order.\<close>

fun ring_run :: "('s \<Rightarrow> 'i \<Rightarrow> fault + 's) \<Rightarrow> ('s \<Rightarrow> nat \<Rightarrow> fault + ('s \<times> 'o list)) \<Rightarrow> 'i ring_op list \<Rightarrow>
    's \<Rightarrow> fault + ('s \<times> 'o list)" where
  "ring_run push pop [] s = Ok (s, [])"
| "ring_run push pop (Push x # ops) s = seqE (push s x) (ring_run push pop ops)"
| "ring_run push pop (Pop n # ops) s =
     seqE (pop s n) (\<lambda>(s1, os). seqE (ring_run push pop ops s1) (\<lambda>(s2, os'). Ok (s2, os @ os')))"

locale drop_oldest =
  fixes push :: "'s \<Rightarrow> 'i \<Rightarrow> fault + 's" and pop :: "'s \<Rightarrow> nat \<Rightarrow> fault + ('s \<times> 'o list)"
    and contents :: "'s \<Rightarrow> 'r list" and drops :: "'s \<Rightarrow> nat" and inv :: "nat \<Rightarrow> 's \<Rightarrow> bool"
    and accepts :: "'i \<Rightarrow> bool" and keep :: "'i \<Rightarrow> 'r" and strip :: "'o \<Rightarrow> 'r" and batch :: nat
  assumes push_law: "inv cap s \<Longrightarrow> accepts x \<Longrightarrow> \<exists>s'. push s x = Ok s' \<and> inv cap s' \<and>
      contents s' = last_n cap (contents s @ [keep x]) \<and>
      drops s' = drops s + (if length (contents s) = cap then 1 else 0)"
    and pop_law: "inv cap s \<Longrightarrow> \<exists>s' os. pop s n = Ok (s', os) \<and> inv cap s' \<and>
      map strip os = take (min n batch) (contents s) \<and> contents s' = drop (min n batch) (contents s) \<and>
      drops s' = drops s"
    and fits: "inv cap s \<Longrightarrow> length (contents s) \<le> cap"
    and room: "inv cap s \<Longrightarrow> 0 < cap"
begin

lemma push_subseq:
  assumes "inv cap s" and "accepts x"
  obtains s' where "push s x = Ok s'" and "inv cap s'" and "subseq (contents s') (contents s @ [keep x])"
    and "length (contents s') + drops s' = length (contents s) + drops s + 1"
proof -
  from push_law [OF assms] obtain s' where s': "push s x = Ok s'" "inv cap s'"
    "contents s' = last_n cap (contents s @ [keep x])"
    "drops s' = drops s + (if length (contents s) = cap then 1 else 0)" by blast
  moreover have "subseq (last_n cap (contents s @ [keep x])) (contents s @ [keep x])"
    unfolding last_n_def by (rule suffix_imp_subseq) (rule suffix_drop)
  moreover have "length (contents s') + drops s' = length (contents s) + drops s + 1"
    using s'(3,4) fits [OF assms(1)] by (auto simp: min_def)
  ultimately show ?thesis using that by simp
qed

text \<open>
  Whatever the interleaving, the consumer sees records in push order; every record pushed is
  delivered, still in the ring, or counted as dropped.
\<close>

lemma run_order:
  assumes "inv cap s" and "\<forall>x \<in> set (pushes ops). accepts x"
  shows "\<exists>s' os. ring_run push pop ops s = Ok (s', os) \<and> inv cap s' \<and>
    subseq (map strip os @ contents s') (contents s @ map keep (pushes ops)) \<and>
    length os + length (contents s') + drops s' = length (contents s) + length (pushes ops) + drops s"
  using assms
proof (induction ops arbitrary: s rule: pushes.induct)
  case (2 x ops)
  then obtain s1 where s1: "push s x = Ok s1" "inv cap s1" "subseq (contents s1) (contents s @ [keep x])"
    "length (contents s1) + drops s1 = length (contents s) + drops s + 1"
    using push_subseq [of cap s x] by auto
  from "2.IH" [OF s1(2)] "2.prems" obtain s2 os where s2: "ring_run push pop ops s1 = Ok (s2, os)" "inv cap s2"
    "subseq (map strip os @ contents s2) (contents s1 @ map keep (pushes ops))"
    "length os + length (contents s2) + drops s2 = length (contents s1) + length (pushes ops) + drops s1"
    by auto
  have "subseq (contents s1 @ map keep (pushes ops)) ((contents s @ [keep x]) @ map keep (pushes ops))"
    by (rule list_emb_append_mono [OF s1(3)]) simp
  with s1 s2 show ?case by (auto intro: subseq_order.trans)
next
  case (3 n ops)
  then obtain s1 os1 where s1: "pop s n = Ok (s1, os1)" "inv cap s1"
    "map strip os1 = take (min n batch) (contents s)" "contents s1 = drop (min n batch) (contents s)"
    "drops s1 = drops s"
    using pop_law [of cap s n] by auto
  from "3.IH" [OF s1(2)] "3.prems" obtain s2 os where s2: "ring_run push pop ops s1 = Ok (s2, os)" "inv cap s2"
    "subseq (map strip os @ contents s2) (contents s1 @ map keep (pushes ops))"
    "length os + length (contents s2) + drops s2 = length (contents s1) + length (pushes ops) + drops s1"
    by auto
  have c: "contents s = map strip os1 @ contents s1" using s1 by simp
  have "subseq (map strip os1 @ map strip os @ contents s2)
      (map strip os1 @ contents s1 @ map keep (pushes ops))"
    by (rule list_emb_append_mono) (simp_all add: s2(3))
  moreover have "length (contents s) = length os1 + length (contents s1)" by (simp add: c)
  ultimately show ?case using s1(1,5) s2 by (simp add: c)
qed simp

text \<open>Without drops nothing is lost: deliveries and contents together are the pushes.\<close>

lemma run_exact:
  assumes "inv cap s" and "\<forall>x \<in> set (pushes ops). accepts x"
    and "ring_run push pop ops s = Ok (s', os)" and "drops s' = drops s"
  shows "map strip os @ contents s' = contents s @ map keep (pushes ops)"
  using run_order [OF assms(1,2)] assms(3,4) by (auto intro!: subseq_same_length)

lemma push_all_contents:
  assumes "inv cap s" and "\<forall>x \<in> set xs. accepts x"
  shows "\<exists>s'. ring_run push pop (map Push xs) s = Ok (s', []) \<and> inv cap s' \<and>
    contents s' = last_n cap (contents s @ map keep xs) \<and>
    drops s' = drops s + (length (contents s) + length xs - cap)"
  using assms
proof (induction xs arbitrary: s)
  case Nil
  then show ?case using fits [of cap s] by (simp add: last_n_short)
next
  case (Cons x xs)
  then obtain s1 where s1: "push s x = Ok s1" "inv cap s1" "contents s1 = last_n cap (contents s @ [keep x])"
    "drops s1 = drops s + (if length (contents s) = cap then 1 else 0)"
    using push_law [of cap s x] by auto
  from Cons.IH [OF s1(2)] Cons.prems(2) obtain s' where s': "ring_run push pop (map Push xs) s1 = Ok (s', [])" "inv cap s'"
    "contents s' = last_n cap (contents s1 @ map keep xs)" "drops s' = drops s1 + (length (contents s1) + length xs - cap)"
    by auto
  have "last_n cap (last_n cap (contents s @ [keep x]) @ map keep xs) = last_n cap (contents s @ keep x # map keep xs)"
    using last_n_append [of cap "contents s @ [keep x]" "map keep xs"] by simp
  moreover have "length (contents s1) = min cap (Suc (length (contents s)))" using s1(3) by simp
  ultimately show ?case using s1 s' fits [OF Cons.prems(1)] room [OF Cons.prems(1)] by auto
qed

end

end
