(* ===== verification/Fusion_Ring.thy ===== *)
theory Fusion_Ring
  imports Ring_Slots
begin

text \<open>
  \<^verbatim>\<open>fusion_ring_buffer.py\<close>: the lock-protected telemetry ring. Its pointers are 64-bit
  registers that only grow; they are natural numbers here. A pop first copies slots into
  a pre-allocated output area of 128 rows and then builds the dictionaries from it.
\<close>

section \<open>The compiled kernels\<close>

definition push_ring_record_jit :: "nat \<Rightarrow> nat \<Rightarrow> nat \<Rightarrow> nat \<Rightarrow> columns \<Rightarrow> 'z sample_scheme \<Rightarrow>
    fault + (nat \<times> nat \<times> nat \<times> columns)" where
  "push_ring_record_jit write_ptr read_ptr drop_counter capacity b s =
     (if capacity = 0 then Fail ZeroDivisionError
      else seqE (write_slot b (write_ptr mod capacity) s) (\<lambda>b'.
        let new_write_ptr = write_ptr + 1
        in if new_write_ptr - read_ptr > capacity
           then Ok (new_write_ptr, new_write_ptr - capacity, drop_counter + 1, b')
           else Ok (new_write_ptr, read_ptr, drop_counter, b')))"

text \<open>\<^verbatim>\<open>for i in range(popped_count)\<close>, the last argument being the rounds left\<close>

fun pop_loop :: "nat \<Rightarrow> columns \<Rightarrow> nat \<Rightarrow> columns \<Rightarrow> nat \<Rightarrow> nat \<Rightarrow> fault + (nat \<times> columns)" where
  "pop_loop capacity b curr_read_ptr out i 0 = Ok (curr_read_ptr, out)"
| "pop_loop capacity b curr_read_ptr out i (Suc k) =
     (if capacity = 0 then Fail ZeroDivisionError
      else seqE (read_slot b (curr_read_ptr mod capacity)) (\<lambda>s.
           seqE (write_slot out i s) (\<lambda>out'.
             pop_loop capacity b (curr_read_ptr + 1) out' (i + 1) k)))"

definition pop_batch_jit :: "nat \<Rightarrow> nat \<Rightarrow> nat \<Rightarrow> columns \<Rightarrow> columns \<Rightarrow> nat \<Rightarrow> fault + (nat \<times> nat \<times> columns)" where
  "pop_batch_jit write_ptr read_ptr capacity b out max_count =
     (let available = write_ptr - read_ptr
      in if available = 0 then Ok (read_ptr, 0, out)
         else
           let popped_count = (if available < max_count then available else max_count)
           in seqE (pop_loop capacity b read_ptr out 0 popped_count)
                (\<lambda>(curr, out'). Ok (curr, popped_count, out')))"

section \<open>The ring object\<close>

record fusion_ring =
  ring_capacity :: nat
  cols :: columns
  write_ptr :: nat
  read_ptr :: nat
  drop_counter :: nat
  out_cols :: columns

definition fusion_init :: "nat \<Rightarrow> fusion_ring" where
  "fusion_init cap = \<lparr>ring_capacity = cap, cols = new_columns cap, write_ptr = 0, read_ptr = 0,
     drop_counter = 0, out_cols = new_columns 128\<rparr>"

definition fusion_push :: "fusion_ring \<Rightarrow> 'z sample_scheme \<Rightarrow> fault + fusion_ring" where
  "fusion_push r s =
     seqE (push_ring_record_jit (write_ptr r) (read_ptr r) (drop_counter r) (ring_capacity r) (cols r) s)
       (\<lambda>(w, rd, d, b). Ok (r\<lparr>write_ptr := w, read_ptr := rd, drop_counter := d, cols := b\<rparr>))"

text \<open>The dictionaries built from the output rows, with the drop counter in each.\<close>

fun serialize :: "columns \<Rightarrow> nat \<Rightarrow> nat list \<Rightarrow> fault + telemetry list" where
  "serialize out drops [] = Ok []"
| "serialize out drops (i # is) =
     seqE (read_slot out i) (\<lambda>s. seqE (serialize out drops is) (\<lambda>rest.
       Ok (sample.extend s (telemetry.fields (int drops)) # rest)))"

definition fusion_pop_batch :: "fusion_ring \<Rightarrow> nat \<Rightarrow> fault + (fusion_ring \<times> telemetry list)" where
  "fusion_pop_batch r max_count =
     (let count = min max_count 128 in
      seqE (pop_batch_jit (write_ptr r) (read_ptr r) (ring_capacity r) (cols r) (out_cols r) count)
        (\<lambda>(rd, popped, out). let drops = drop_counter r in
           seqE (serialize out drops [0..<popped]) (\<lambda>ds.
             Ok (r\<lparr>read_ptr := rd, out_cols := out\<rparr>, ds))))"

section \<open>Abstraction: the unread records\<close>

definition window :: "columns \<Rightarrow> nat \<Rightarrow> nat \<Rightarrow> nat \<Rightarrow> sample list" where
  "window b cap r w = map (\<lambda>k. slot b (k mod cap)) [r..<w]"

definition fusion_contents :: "fusion_ring \<Rightarrow> sample list" where
  "fusion_contents r = window (cols r) (ring_capacity r) (read_ptr r) (write_ptr r)"

definition fusion_inv :: "nat \<Rightarrow> fusion_ring \<Rightarrow> bool" where
  "fusion_inv cap r \<longleftrightarrow> 0 < cap \<and> ring_capacity r = cap \<and> shaped cap (cols r) \<and> shaped 128 (out_cols r) \<and>
     read_ptr r \<le> write_ptr r \<and> write_ptr r - read_ptr r \<le> cap"

lemma fusion_inv_init: "0 < cap \<Longrightarrow> fusion_inv cap (fusion_init cap)"
  by (simp add: fusion_inv_def fusion_init_def)

lemma mod_window_inj:
  assumes "k mod c = w mod c" and "w - k < c" and "k \<le> w" shows "k = (w :: nat)"
  using assms by (metis dvd_imp_le le_antisym mod_eq_dvd_iff_nat not_le zero_less_diff)

text \<open>Writing slot \<open>w\<close> leaves the records from \<open>r\<close> to \<open>w\<close> as they are while \<open>w - r < cap\<close>.\<close>

lemma window_write [ring_simps]:
  assumes "\<And>j. j < cap \<Longrightarrow> slot b' j = (if j = w mod cap then x else slot b j)"
    and "0 < cap" and "r \<le> w" and "w - r < cap"
  shows "window b' cap r (Suc w) = window b cap r w @ [x]"
proof -
  have "slot b' (k mod cap) = slot b (k mod cap)" if "r \<le> k" "k < w" for k
  proof -
    have "w - k < cap" using that assms(4) by linarith
    then have "k mod cap \<noteq> w mod cap" using mod_window_inj [of k cap w] that by auto
    then show ?thesis using assms(1) [of "k mod cap"] assms(2) by simp
  qed
  moreover have "slot b' (w mod cap) = x" using assms(1) [of "w mod cap"] assms(2) by simp
  ultimately show ?thesis using assms(3) by (simp add: window_def)
qed

lemma window_drop: "drop n (window b cap r w) = window b cap (r + n) w"
  by (simp add: window_def drop_map)

lemma window_length [simp]: "length (window b cap r w) = w - r"
  by (simp add: window_def)

lemma drop_min_length: "drop m xs = drop (min m (length xs)) xs"
  by (simp add: min_def)

lemma fusion_push_law:
  assumes "fusion_inv cap r" and "sample_ok s"
  shows "\<exists>r'. fusion_push r s = Ok r' \<and> fusion_inv cap r' \<and>
    fusion_contents r' = last_n cap (fusion_contents r @ [stored s]) \<and>
    drop_counter r' = drop_counter r + (if length (fusion_contents r) = cap then 1 else 0)"
proof -
  have i: "0 < cap" "ring_capacity r = cap" "shaped cap (cols r)" "read_ptr r \<le> write_ptr r"
    "write_ptr r - read_ptr r \<le> cap" using assms(1) by (auto simp: fusion_inv_def)
  obtain b where b: "write_slot (cols r) (write_ptr r mod cap) s = Ok b" "shaped cap b"
    "\<And>j. j < cap \<Longrightarrow> slot b j = (if j = write_ptr r mod cap then stored s else slot (cols r) j)"
    using write_slot_slot [OF i(3) _ assms(2), of "write_ptr r mod cap"] i(1) by auto
  show ?thesis
  proof (cases "write_ptr r - read_ptr r = cap")
    case False
    then have "window b cap (read_ptr r) (Suc (write_ptr r)) =
        window (cols r) cap (read_ptr r) (write_ptr r) @ [stored s]"
      using i by (intro window_write [OF b(3)]) auto
    with False i b(1,2) assms(1) show ?thesis
      by (auto simp: fusion_push_def push_ring_record_jit_def fusion_inv_def fusion_contents_def
          last_n_short Let_def)
  next
    case True
    let ?r = "Suc (read_ptr r)"
    have "window b cap ?r (Suc (write_ptr r)) = window (cols r) cap ?r (write_ptr r) @ [stored s]"
      using True i by (intro window_write [OF b(3)]) auto
    moreover have "window (cols r) cap ?r (write_ptr r) = drop 1 (fusion_contents r)"
      by (simp add: fusion_contents_def window_drop i)
    moreover have "Suc (write_ptr r) - cap = ?r" using True i by simp
    moreover have "fusion_push r s = Ok (r\<lparr>write_ptr := Suc (write_ptr r), read_ptr := ?r,
        drop_counter := Suc (drop_counter r), cols := b\<rparr>)"
      using True i b(1) by (auto simp: fusion_push_def push_ring_record_jit_def Let_def)
    ultimately show ?thesis using True i(1,2,4) b(2) assms(1)
      by (simp add: fusion_inv_def fusion_contents_def last_n_def)
  qed
qed

lemma pop_loop_spec:
  assumes "shaped cap b" and "0 < cap" and "shaped 128 out" and "i + k \<le> 128"
  shows "\<exists>out'. pop_loop cap b rd out i k = Ok (rd + k, out') \<and> shaped 128 out' \<and>
    (\<forall>j < 128. slot out' j = (if i \<le> j \<and> j < i + k then slot b ((rd + (j - i)) mod cap) else slot out j))"
  using assms(3,4)
proof (induction k arbitrary: rd out i)
  case (Suc k)
  let ?s = "slot b (rd mod cap)"
  have s: "read_slot b (rd mod cap) = Ok ?s" "sample_ok ?s" "stored ?s = ?s"
    using read_slot_slot [OF assms(1), of "rd mod cap"] slot_props [OF assms(1), of "rd mod cap"] assms(2)
    by auto
  obtain o1 where o1: "write_slot out i ?s = Ok o1" "shaped 128 o1"
    "\<And>j. j < 128 \<Longrightarrow> slot o1 j = (if j = i then stored ?s else slot out j)"
    using write_slot_slot [OF Suc.prems(1) _ s(2), of i] Suc.prems(2) by auto
  from Suc.IH [OF o1(2), of "Suc i" "Suc rd"] Suc.prems(2) obtain out' where
    "pop_loop cap b (Suc rd) o1 (Suc i) k = Ok (Suc rd + k, out')" "shaped 128 out'"
    "\<forall>j < 128. slot out' j = (if Suc i \<le> j \<and> j < Suc i + k then slot b ((Suc rd + (j - Suc i)) mod cap) else slot o1 j)"
    by auto
  moreover from this(3) have
    "slot out' j = (if i \<le> j \<and> j < i + Suc k then slot b ((rd + (j - i)) mod cap) else slot out j)"
    if "j < 128" for j
  proof -
    consider "j = i" | "j < i" | "i < j" by linarith
    then show ?thesis
    proof cases
      case 3
      then have "Suc rd + (j - Suc i) = rd + (j - i)" by simp
      with 3 that \<open>\<forall>j < 128. _ j\<close> o1(3) [OF that] show ?thesis by simp
    qed (use that \<open>\<forall>j < 128. _ j\<close> o1(3) [OF that] s(3) in auto)
  qed
  ultimately show ?case using s(1) o1(1) assms(2) by simp
qed auto

lemma serialize_spec:
  "shaped 128 out \<Longrightarrow> \<forall>i \<in> set is. i < 128 \<Longrightarrow>
   serialize out d is = Ok (map (\<lambda>i. sample.extend (slot out i) (telemetry.fields (int d))) is)"
  by (induction "is") (simp_all add: read_slot_slot)

lemma truncate_extend [simp]: "sample.truncate (sample.extend s z) = s"
  by (cases s) (simp add: sample.extend_def sample.truncate_def)

lemma fusion_pop_law:
  assumes "fusion_inv cap r"
  shows "\<exists>r' os. fusion_pop_batch r n = Ok (r', os) \<and> fusion_inv cap r' \<and>
    map sample.truncate os = take (min n 128) (fusion_contents r) \<and>
    fusion_contents r' = drop (min n 128) (fusion_contents r) \<and> drop_counter r' = drop_counter r \<and>
    (\<forall>t \<in> set os. buffer_drops t = int (drop_counter r))"
proof (cases "write_ptr r = read_ptr r")
  case True
  with assms show ?thesis
    by (auto simp: fusion_pop_batch_def pop_batch_jit_def fusion_contents_def window_def fusion_inv_def Let_def)
next
  case False
  have i: "0 < cap" "ring_capacity r = cap" "shaped cap (cols r)" "shaped 128 (out_cols r)"
    "read_ptr r \<le> write_ptr r" using assms by (auto simp: fusion_inv_def)
  define k where "k = min (min n 128) (write_ptr r - read_ptr r)"
  have k: "k \<le> 128" unfolding k_def by linarith
  obtain out where out: "pop_loop cap (cols r) (read_ptr r) (out_cols r) 0 k = Ok (read_ptr r + k, out)"
    "shaped 128 out" "\<forall>j < 128. slot out j = (if j < k then slot (cols r) ((read_ptr r + j) mod cap) else slot (out_cols r) j)"
    using pop_loop_spec [OF i(3,1,4), of 0 k "read_ptr r"] k by (auto cong: if_cong)
  let ?os = "map (\<lambda>i. sample.extend (slot out i) (telemetry.fields (int (drop_counter r)))) [0..<k]"
  have "pop_batch_jit (write_ptr r) (read_ptr r) cap (cols r) (out_cols r) (min n 128) = Ok (read_ptr r + k, k, out)"
    using False i out(1) by (auto simp: pop_batch_jit_def Let_def k_def min_def)
  moreover have "serialize out (drop_counter r) [0..<k] = Ok ?os"
    using serialize_spec [OF out(2)] k by auto
  ultimately have "fusion_pop_batch r n = Ok (r\<lparr>read_ptr := read_ptr r + k, out_cols := out\<rparr>, ?os)"
    by (simp add: fusion_pop_batch_def i(2) Let_def)
  moreover have "map sample.truncate ?os = take (min n 128) (fusion_contents r)"
    using out(3) k i by (auto simp: fusion_contents_def window_def k_def intro!: nth_equalityI)
  moreover have "drop (min n 128) (fusion_contents r) = window (cols r) cap (read_ptr r + k) (write_ptr r)"
    using drop_min_length [of "min n 128" "fusion_contents r"]
    by (simp add: fusion_contents_def window_drop i(2) k_def)
  ultimately show ?thesis using assms out(2) i
    by (auto simp: fusion_inv_def fusion_contents_def k_def sample.extend_def telemetry.fields_def)
qed

interpretation fusion: drop_oldest fusion_push fusion_pop_batch fusion_contents drop_counter fusion_inv
  sample_ok stored sample.truncate 128
proof unfold_locales
  show "fusion_inv cap s \<Longrightarrow> sample_ok x \<Longrightarrow> \<exists>s'. fusion_push s x = Ok s' \<and> fusion_inv cap s' \<and>
      fusion_contents s' = last_n cap (fusion_contents s @ [stored x]) \<and>
      drop_counter s' = drop_counter s + (if length (fusion_contents s) = cap then 1 else 0)"
    for cap s and x :: "'a sample_scheme"
    by (rule fusion_push_law)
  show "fusion_inv cap s \<Longrightarrow> \<exists>s' os. fusion_pop_batch s n = Ok (s', os) \<and> fusion_inv cap s' \<and>
      map sample.truncate os = take (min n 128) (fusion_contents s) \<and>
      fusion_contents s' = drop (min n 128) (fusion_contents s) \<and> drop_counter s' = drop_counter s"
    for cap s n using fusion_pop_law [of cap s n] by blast
  show "fusion_inv cap s \<Longrightarrow> length (fusion_contents s) \<le> cap" for cap s
    by (simp add: fusion_inv_def fusion_contents_def)
  show "fusion_inv cap s \<Longrightarrow> 0 < cap" for cap s by (simp add: fusion_inv_def)
qed

section \<open>Properties\<close>

text \<open>
  pushing any number of samples into a fresh ring of capacity \<open>cap > 0\<close> never faults and
  leaves exactly the last \<open>cap\<close> of them, in order, with every older one counted in the drop
  counter.
\<close>

theorem fusion_push_contents:
  fixes xs :: "sample list"
  assumes "0 < cap" and "\<forall>x \<in> set xs. sample_ok x"
  shows "\<exists>r. ring_run fusion_push fusion_pop_batch (map Push xs) (fusion_init cap) = Ok (r, []) \<and>
    fusion_contents r = last_n cap (map stored xs) \<and> drop_counter r = length xs - cap"
  using fusion.push_all_contents [OF fusion_inv_init [OF assms(1)] assms(2)]
  by (auto simp: fusion_contents_def fusion_init_def window_def)

definition sample0 :: sample where
  "sample0 = \<lparr>threat_state = -1, jammer_score = 7, spoof_score = 8, sphericity = 9,
     skew_residuals = [1, 2, 3, 4], aoa_deviation = [5, 6, 7, 8],
     nulling_directives = [True, False, True, False], timestamp = 10\<rparr>"

theorem fusion_push_contents_witness:
  "\<exists>r. ring_run fusion_push fusion_pop_batch (map Push [sample0, sample0]) (fusion_init 1) = Ok (r, []) \<and>
    fusion_contents r = last_n 1 (map stored [sample0, sample0]) \<and> drop_counter r = length [sample0, sample0] - 1"
  by (rule fusion_push_contents) (simp_all add: sample_ok_def sample0_def)

text \<open>
  for any interleaving of pushes and batched pops, the records delivered followed by the
  records still in the ring are a subsequence of the pushes, and deliveries, contents and drop
  counter add up to the number of pushes; with no drop nothing is missing or reordered.
\<close>

theorem fusion_fifo:
  fixes ops :: "sample ring_op list"
  assumes "0 < cap" and "\<forall>x \<in> set (pushes ops). sample_ok x"
  shows "\<exists>r ds. ring_run fusion_push fusion_pop_batch ops (fusion_init cap) = Ok (r, ds) \<and>
    subseq (map sample.truncate ds @ fusion_contents r) (map stored (pushes ops)) \<and>
    length ds + length (fusion_contents r) + drop_counter r = length (pushes ops) \<and>
    (drop_counter r = 0 \<longrightarrow> map sample.truncate ds @ fusion_contents r = map stored (pushes ops))"
proof -
  let ?r0 = "fusion_init cap"
  note inv = fusion_inv_init [OF assms(1)]
  have e: "fusion_contents ?r0 = []" "drop_counter ?r0 = 0"
    by (simp_all add: fusion_contents_def fusion_init_def window_def)
  obtain r ds where r: "ring_run fusion_push fusion_pop_batch ops ?r0 = Ok (r, ds)"
    "subseq (map sample.truncate ds @ fusion_contents r) (map stored (pushes ops))"
    "length ds + length (fusion_contents r) + drop_counter r = length (pushes ops)"
    using fusion.run_order [OF inv assms(2)] e by auto
  with fusion.run_exact [OF inv assms(2) r(1)] e show ?thesis by auto
qed

theorem fusion_fifo_witness:
  "\<exists>r ds. ring_run fusion_push fusion_pop_batch [Push sample0, Pop 5, Push sample0] (fusion_init 3) = Ok (r, ds) \<and>
    subseq (map sample.truncate ds @ fusion_contents r) (map stored (pushes [Push sample0, Pop 5, Push sample0])) \<and>
    length ds + length (fusion_contents r) + drop_counter r = length (pushes [Push sample0, Pop 5, Push sample0]) \<and>
    (drop_counter r = 0 \<longrightarrow>
      map sample.truncate ds @ fusion_contents r = map stored (pushes [Push sample0, Pop 5, Push sample0]))"
  by (rule fusion_fifo) (simp_all add: sample_ok_def sample0_def)

end
