(* ===== verification/Threat_State.thy ===== *)
theory Threat_State
  imports Prelude
begin

text \<open>
  The threat state machine of \<^verbatim>\<open>phase58_fusion_supervisor.py\<close> (\<^verbatim>\<open>_update_state_machine_jit\<close>):
  a target state from the channel flags, the anomaly bit and the inference verdict, and one
  persistence counter per state. Its specification is a machine with a single candidate and
  a single count; the lemmas relate state changes to runs of equal targets.
\<close>

section \<open>The code\<close>

text \<open>\<^verbatim>\<open>for m in range(dissector_flags.shape[0])\<close>; a shorter \<^verbatim>\<open>aoa_flags\<close> is read out of bounds.\<close>

fun scan_flags :: "bool list \<Rightarrow> bool list \<Rightarrow> bool \<Rightarrow> bool \<Rightarrow> fault + (bool \<times> bool)" where
  "scan_flags [] aoa any_skew any_aoa = Ok (any_skew, any_aoa)"
| "scan_flags (d # ds) [] any_skew any_aoa = Fail OutOfBounds"
| "scan_flags (d # ds) (a # as) any_skew any_aoa = scan_flags ds as (any_skew \<or> d) (any_aoa \<or> a)"

definition target_state :: "bool \<Rightarrow> bool \<Rightarrow> bool \<Rightarrow> int \<Rightarrow> nat" where
  "target_state any_skew any_aoa glrt_anomaly inference_verdict =
     (if any_aoa \<or> (any_skew \<and> inference_verdict = 2) then 3
      else if any_skew \<or> inference_verdict = 2 then 2
      else if glrt_anomaly \<or> inference_verdict = 1 then 1
      else 0)"

definition reset_where :: "(nat \<Rightarrow> bool) \<Rightarrow> int list \<Rightarrow> int list" where
  "reset_where P c = map (\<lambda>s. if P s then 0 else c ! s) [0..<4]"

definition apply_hysteresis :: "nat \<Rightarrow> nat \<Rightarrow> int list \<Rightarrow> int \<Rightarrow> nat \<times> int list" where
  "apply_hysteresis current_state target persistence_counters hysteresis_threshold =
     (if target = current_state then
        (current_state, reset_where (\<lambda>s. s \<noteq> current_state) persistence_counters)
      else
        let c1 = persistence_counters[target := persistence_counters ! target + 1];
            c2 = reset_where (\<lambda>s. s \<noteq> target \<and> s \<noteq> current_state) c1
        in if c2 ! target \<ge> hysteresis_threshold then (target, c2[target := 0]) else (current_state, c2))"

record stride_flags =
  dissector_flags :: "bool list"
  aoa_flags :: "bool list"
  glrt_anomaly :: bool
  inference_verdict :: int

definition update_state_machine_jit :: "nat \<Rightarrow> stride_flags \<Rightarrow> int list \<Rightarrow> int \<Rightarrow> fault + (nat \<times> int list)" where
  "update_state_machine_jit current_state x persistence_counters hysteresis_threshold =
     seqE (scan_flags (dissector_flags x) (aoa_flags x) False False) (\<lambda>(any_skew, any_aoa).
       Ok (apply_hysteresis current_state
             (target_state any_skew any_aoa (glrt_anomaly x) (inference_verdict x))
             persistence_counters hysteresis_threshold))"

section \<open>The target of a stride\<close>

lemma scan_flags_Ok:
  "length ds \<le> length as \<Longrightarrow>
   scan_flags ds as s a = Ok (s \<or> True \<in> set ds, a \<or> True \<in> set (take (length ds) as))"
proof (induction ds as s a rule: scan_flags.induct)
  case (3 d ds a as s b)
  then show ?case by (cases d; cases a) auto
qed auto

definition stride_target :: "stride_flags \<Rightarrow> nat" where
  "stride_target x =
     target_state (True \<in> set (dissector_flags x)) (True \<in> set (take (length (dissector_flags x)) (aoa_flags x)))
       (glrt_anomaly x) (inference_verdict x)"

definition stride_ok :: "stride_flags \<Rightarrow> bool" where
  "stride_ok x \<longleftrightarrow> length (dissector_flags x) \<le> length (aoa_flags x)"

lemma target_state_less [simp]: "target_state a b c d < 4"
  by (simp add: target_state_def)

lemma update_state_machine_Ok:
  "stride_ok x \<Longrightarrow>
   update_state_machine_jit cs x c h = Ok (apply_hysteresis cs (stride_target x) c h)"
  by (simp add: update_state_machine_jit_def stride_ok_def scan_flags_Ok stride_target_def)

section \<open>Specification: one candidate, one count\<close>

text \<open>\<open>(current, candidate, count)\<close>: the candidate has been the target of the last \<open>count\<close> strides.\<close>

fun candidate_step :: "int \<Rightarrow> nat \<times> nat \<times> nat \<Rightarrow> nat \<Rightarrow> nat \<times> nat \<times> nat" where
  "candidate_step h (cur, cand, n) t =
     (if t = cur then (cur, cur, 0)
      else let m = (if cand = t then n + 1 else 1)
           in if int m \<ge> h then (t, t, 0) else (cur, t, m))"

definition counters_of :: "nat \<Rightarrow> nat \<Rightarrow> int list" where
  "counters_of cand n = (replicate 4 0)[cand := int n]"

lemma less_four: "(n :: nat) < 4 \<longleftrightarrow> n = 0 \<or> n = 1 \<or> n = 2 \<or> n = 3"
  by auto

lemma reset_where_nth [simp]:
  "length (reset_where P c) = 4" "s < 4 \<Longrightarrow> reset_where P c ! s = (if P s then 0 else c ! s)"
  by (simp_all add: reset_where_def)

lemma counters_of_nth [simp]:
  "length (counters_of cand n) = 4" "s < 4 \<Longrightarrow> counters_of cand n ! s = (if s = cand then int n else 0)"
  by (simp_all add: counters_of_def nth_list_update)

lemma counters_of_update [simp]: "cand < 4 \<Longrightarrow> (counters_of cand n)[cand := 0] = counters_of cand' 0"
proof (rule nth_equalityI)
  assume "cand < 4"
  fix i assume "i < length ((counters_of cand n)[cand := 0])"
  then have "i < 4" by simp
  with \<open>cand < 4\<close> show "(counters_of cand n)[cand := 0] ! i = counters_of cand' 0 ! i"
    by (auto simp: nth_list_update)
qed simp

lemma apply_hysteresis_refines:
  assumes "cur < 4" and "cand < 4" and "t < 4" and "cand = cur \<Longrightarrow> n = 0"
  shows "\<exists>cur' cand' n'. candidate_step h (cur, cand, n) t = (cur', cand', n') \<and>
    apply_hysteresis cur t (counters_of cand n) h = (cur', counters_of cand' n') \<and>
    cur' < 4 \<and> cand' < 4 \<and> (cand' = cur' \<longrightarrow> n' = 0)"
proof (cases "t = cur")
  case True
  have "reset_where (\<lambda>s. s \<noteq> cur) (counters_of cand n) = counters_of cur 0"
    by (rule nth_equalityI) (use assms in auto)
  with True assms show ?thesis by (simp add: apply_hysteresis_def)
next
  case False
  let ?m = "if cand = t then n + 1 else 1"
  let ?c = "(counters_of cand n)[t := counters_of cand n ! t + 1]"
  have c2: "reset_where (\<lambda>s. s \<noteq> t \<and> s \<noteq> cur) ?c = counters_of t ?m"
    by (rule nth_equalityI) (use assms False in \<open>auto simp: nth_list_update\<close>)
  have at: "counters_of t ?m ! t = int ?m" using assms(3) by simp
  show ?thesis
  proof (cases "int ?m \<ge> h")
    case True
    with False assms at show ?thesis
      by (simp only: apply_hysteresis_def candidate_step.simps if_False Let_def c2 if_True) auto
  next
    case nle: False
    with False assms at show ?thesis
      by (simp only: apply_hysteresis_def candidate_step.simps if_False Let_def c2) auto
  qed
qed

text \<open>A run of targets.\<close>

definition candidate_run :: "int \<Rightarrow> nat list \<Rightarrow> nat \<times> nat \<times> nat" where
  "candidate_run h ts = foldl (candidate_step h) (0, 0, 0) ts"

lemma candidate_run_snoc: "candidate_run h (ts @ [t]) = candidate_step h (candidate_run h ts) t"
  by (simp add: candidate_run_def)

text \<open>The count is at most the run of the candidate at the end of the history.\<close>

lemma candidate_run_suffix:
  "candidate_run h ts = (cur, cand, n) \<Longrightarrow> cand \<noteq> cur \<Longrightarrow>
   n \<le> length ts \<and> drop (length ts - n) ts = replicate n cand \<and> int n < max 1 h"
proof (induction ts arbitrary: cur cand n rule: rev_induct)
  case (snoc t ts)
  obtain cur0 cand0 n0 where r: "candidate_run h ts = (cur0, cand0, n0)" by (cases "candidate_run h ts") auto
  from snoc.prems r have s: "t \<noteq> cur0" "cand = t" "cur = cur0" "n = (if cand0 = t then n0 + 1 else 1)"
    "int n < h"
    by (auto simp: candidate_run_snoc Let_def split: if_splits)
  show ?case
  proof (cases "cand0 = t")
    case True
    with snoc.IH [OF r] s have "n0 \<le> length ts" "drop (length ts - n0) ts = replicate n0 t" by auto
    with s True show ?thesis by (simp add: replicate_append_same)
  qed (use s in simp)
qed (simp add: candidate_run_def)

lemma candidate_change:
  assumes "candidate_run h ts = (cur, c, n)" and "candidate_run h (ts @ [t]) = (cur', c', n')"
    and "cur' \<noteq> cur" and "1 \<le> h"
  shows "cur' = t \<and> nat h \<le> Suc (length ts) \<and> drop (Suc (length ts) - nat h) (ts @ [t]) = replicate (nat h) t"
proof -
  let ?m = "if c = t then n + 1 else 1"
  from assms have s: "t \<noteq> cur" "cur' = t" "int ?m \<ge> h"
    by (auto simp: candidate_run_snoc Let_def split: if_splits)
  show ?thesis
  proof (cases "c = t")
    case True
    with candidate_run_suffix [OF assms(1)] s assms(4)
    have "n \<le> length ts" "drop (length ts - n) ts = replicate n t" "nat h = Suc n" by auto
    with s show ?thesis by (simp add: replicate_append_same)
  next
    case False
    with s assms(4) have "nat h = 1" by simp
    with s show ?thesis by simp
  qed
qed

text \<open>\<open>h\<close> equal targets in a row always bring the machine to that state.\<close>

lemma candidate_progress:
  "t \<noteq> cur \<Longrightarrow> (cand = t \<longrightarrow> n < nat h) \<Longrightarrow> m = (if cand = t then n else 0) \<Longrightarrow> k \<le> nat h - m \<Longrightarrow> 0 < k \<Longrightarrow> 1 \<le> h \<Longrightarrow>
   foldl (candidate_step h) (cur, cand, n) (replicate k t) = (if m + k = nat h then (t, t, 0) else (cur, t, m + k))"
proof (induction k arbitrary: cand n m)
  case (Suc k)
  let ?m = "if cand = t then n + 1 else 1"
  show ?case
  proof (cases "int ?m \<ge> h")
    case True
    with Suc.prems have "k = 0" "m + 1 = nat h" by (auto split: if_splits)
    with True Suc.prems show ?thesis by (auto simp: Let_def)
  next
    case False
    then have step: "candidate_step h (cur, cand, n) t = (cur, t, ?m)" using Suc.prems(1) by (simp add: Let_def)
    show ?thesis
    proof (cases "k = 0")
      case True
      have "m + 1 = ?m" using Suc.prems(3) by auto
      moreover have "?m \<noteq> nat h" using False by linarith
      ultimately show ?thesis using step True by (simp only: replicate.simps foldl.simps) simp
    next
      case k: False
      with Suc.IH [of t ?m ?m] Suc.prems False step show ?thesis by (auto split: if_splits)
    qed
  qed
qed simp

lemma candidate_stays: "foldl (candidate_step h) (t, cand, n) (replicate k t) = (if k = 0 then (t, cand, n) else (t, t, 0))"
  by (induction k arbitrary: cand n) auto

lemma candidate_reaches:
  assumes "1 \<le> h" and "cand = t \<Longrightarrow> t \<noteq> cur \<Longrightarrow> int n < h"
  shows "fst (foldl (candidate_step h) (cur, cand, n) (replicate (nat h) t)) = t"
proof (cases "cur = t")
  case True
  then show ?thesis by (simp add: candidate_stays)
next
  case False
  define m where "m = (if cand = t then n else 0)"
  have m: "m < nat h" using assms False by (auto simp: m_def)
  have "replicate (nat h) t = replicate (nat h - m) t @ replicate m t"
    using m by (simp add: replicate_add [symmetric])
  moreover have "foldl (candidate_step h) (cur, cand, n) (replicate (nat h - m) t) = (t, t, 0)"
    using candidate_progress [of t cur cand n h m "nat h - m"] False m assms by (auto simp: m_def split: if_splits)
  ultimately show ?thesis by (simp add: candidate_stays)
qed

end
