(* ===== verification/Runtime_Hardening.thy ===== *)
theory Runtime_Hardening
  imports Telemetry_Dispatcher Fusion_Ring Threat_State
begin

text \<open>
  \<^verbatim>\<open>phase59_runtime_hardening_supervisor.py\<close> and \<^verbatim>\<open>telemetry_backpressure_guard.py\<close>: the
  bridge from the compute plane to the client queues. A stride runs the threat state
  machine and pushes one record into the fusion ring; the dispatch task pops a batch and
  pushes each record to every client of the dispatcher, watching the queue's fill ratio.
  The signal-processing front end that computes flags and scores is an input of the stride.
\<close>

section \<open>Backpressure guard\<close>

definition evaluate_pressure_state_jit :: "nat \<Rightarrow> int \<Rightarrow> real \<Rightarrow> real \<Rightarrow> nat" where
  "evaluate_pressure_state_jit queue_size capacity high_threshold critical_threshold =
     (if capacity \<le> 0 then 0
      else let fill_ratio = real queue_size / real_of_int capacity
        in if fill_ratio \<ge> critical_threshold then 2
           else if fill_ratio \<ge> high_threshold then 1 else 0)"

record pressure_guard =
  high_threshold :: real
  critical_threshold :: real

definition get_pressure_state :: "pressure_guard \<Rightarrow> nat \<Rightarrow> int \<Rightarrow> nat" where
  "get_pressure_state g queue_size capacity =
     evaluate_pressure_state_jit queue_size capacity (high_threshold g) (critical_threshold g)"

section \<open>The supervisor\<close>

record fusion_supervisor =
  current_state :: nat
  persistence_counters :: "int list"
  hysteresis_threshold :: int

definition fusion_supervisor_init :: "int \<Rightarrow> fusion_supervisor" where
  "fusion_supervisor_init h = \<lparr>current_state = 0, persistence_counters = replicate 4 0, hysteresis_threshold = h\<rparr>"

text \<open>The last step of \<^verbatim>\<open>process_stride\<close>, for the flags the bridges computed.\<close>

definition process_state :: "stride_flags \<Rightarrow> fusion_supervisor \<Rightarrow> fault + fusion_supervisor" where
  "process_state x s =
     seqE (update_state_machine_jit (current_state s) x (persistence_counters s) (hysteresis_threshold s))
       (\<lambda>(st, c). Ok (s\<lparr>current_state := st, persistence_counters := c\<rparr>))"

record hardening =
  hd_capacity :: nat
  hd_supervisor :: fusion_supervisor
  hd_ring :: fusion_ring
  hd_guard :: pressure_guard
  hd_dispatcher :: dispatcher
  total_processed_strides :: nat
  total_dropped_telemetry_frames :: nat
  total_critical_alerts_routed :: nat

definition hd_init :: "nat \<Rightarrow> nat \<Rightarrow> real \<Rightarrow> real \<Rightarrow> hardening" where
  "hd_init rcap qcap hi crit = \<lparr>hd_capacity = qcap,
     hd_supervisor = fusion_supervisor_init 3, hd_ring = fusion_init rcap,
     hd_guard = \<lparr>high_threshold = hi, critical_threshold = crit\<rparr>,
     hd_dispatcher = disp_init qcap 1, total_processed_strides = 0,
     total_dropped_telemetry_frames = 0, total_critical_alerts_routed = 0\<rparr>"

text \<open>
  One compute stride: the flags feed the state machine, and \<open>s\<close> holds the scores, residuals
  and clock reading that the record takes from the signal-processing arrays.
\<close>

definition ingest_compute_stride :: "stride_flags \<Rightarrow> sample \<Rightarrow> hardening \<Rightarrow> fault + (hardening \<times> nat)" where
  "ingest_compute_stride x s h =
     seqE (process_state x (hd_supervisor h)) (\<lambda>sup.
     let state = current_state sup in
     seqE (fusion_push (hd_ring h) (s\<lparr>threat_state := int state\<rparr>)) (\<lambda>ring.
       Ok (h\<lparr>hd_supervisor := sup, hd_ring := ring,
             total_processed_strides := total_processed_strides h + 1,
             total_critical_alerts_routed := total_critical_alerts_routed h + (if state = 3 then 1 else 0)\<rparr>,
           state)))"

text \<open>The dictionary of a popped record; \<open>num\<close> is the value of a double.\<close>

definition record_payload :: "(float64 \<Rightarrow> real) \<Rightarrow> telemetry \<Rightarrow> payload" where
  "record_payload num t =
     [''threat_state'' \<mapsto> JInt (threat_state t), ''jammer_score'' \<mapsto> JNum (num (jammer_score t)),
      ''spoof_score'' \<mapsto> JNum (num (spoof_score t)), ''sphericity'' \<mapsto> JNum (num (sphericity t)),
      ''skew_residuals'' \<mapsto> JList (map (JNum \<circ> num) (skew_residuals t)),
      ''aoa_deviation'' \<mapsto> JList (map (JNum \<circ> num) (aoa_deviation t)),
      ''nulling_directives'' \<mapsto> JList (map JBool (nulling_directives t)),
      ''timestamp'' \<mapsto> JNum (num (timestamp t)), ''buffer_drops'' \<mapsto> JInt (buffer_drops t)]"

text \<open>\<^verbatim>\<open>for client_id, client_queue in self.dispatcher.clients.items()\<close>\<close>

fun deliver :: "pressure_guard \<Rightarrow> nat \<Rightarrow> payload \<Rightarrow> payload clients \<Rightarrow> nat \<Rightarrow> fault + (payload clients \<times> nat)" where
  "deliver g cap p [] congested = Ok ([], congested)"
| "deliver g cap p ((cid, q) # cs) congested =
     (let pressure_state = get_pressure_state g (length (queue q)) (int cap);
          congested' = (if pressure_state = 2 then congested + 1 else congested)
      in seqE (client_push p q) (\<lambda>q'.
         seqE (deliver g cap p cs congested') (\<lambda>(cs', n). Ok ((cid, q') # cs', n))))"

fun deliver_all :: "pressure_guard \<Rightarrow> nat \<Rightarrow> payload list \<Rightarrow> payload clients \<Rightarrow> nat \<Rightarrow>
    fault + (payload clients \<times> nat)" where
  "deliver_all g cap [] cs n = Ok (cs, n)"
| "deliver_all g cap (p # ps) cs n = seqE (deliver g cap p cs n) (\<lambda>(cs', n'). deliver_all g cap ps cs' n')"

definition dispatch_pending_telemetry :: "(float64 \<Rightarrow> real) \<Rightarrow> hardening \<Rightarrow> fault + (hardening \<times> nat)" where
  "dispatch_pending_telemetry num h =
     seqE (fusion_pop_batch (hd_ring h) 128) (\<lambda>(ring, records).
       if length records = 0 then Ok (h\<lparr>hd_ring := ring\<rparr>, 0)
       else seqE (deliver_all (hd_guard h) (hd_capacity h) (map (record_payload num) records)
                    (disp_clients (hd_dispatcher h)) (total_dropped_telemetry_frames h))
         (\<lambda>(cs, n). Ok (h\<lparr>hd_ring := ring, hd_dispatcher := (hd_dispatcher h)\<lparr>disp_clients := cs\<rparr>,
                           total_dropped_telemetry_frames := n\<rparr>, length records)))"

section \<open>Delivery keeps the retention contract of every client\<close>

abbreviation all_retained :: "nat \<Rightarrow> payload list \<Rightarrow> payload clients \<Rightarrow> bool" where
  "all_retained cap hist cs \<equiv> (\<forall>(cid, q) \<in> set cs. json_queue.retained cap hist q)"

lemma deliver_retained:
  assumes "all_retained cap hist cs" and "0 < cap"
  shows "\<exists>cs' n'. deliver g c p cs n = Ok (cs', n') \<and> all_retained cap (hist @ [p]) cs' \<and>
    map fst cs' = map fst cs"
  using assms(1)
proof (induction cs arbitrary: n)
  case (Cons cq cs)
  obtain cid q where cq: "cq = (cid, q)" by (cases cq)
  with Cons.prems obtain q' where q': "client_push p q = Ok q'" "json_queue.retained cap (hist @ [p]) q'"
    using json_queue.retained_push [OF _ assms(2), of hist q p] by auto
  let ?n = "if get_pressure_state g (length (queue q)) (int c) = 2 then n + 1 else n"
  from Cons.IH [of ?n] Cons.prems obtain cs' n' where
    "deliver g c p cs ?n = Ok (cs', n')" "all_retained cap (hist @ [p]) cs'" "map fst cs' = map fst cs"
    by auto
  with q' cq show ?case by (simp add: Let_def)
qed simp

lemma deliver_all_retained:
  assumes "all_retained cap hist cs" and "0 < cap"
  shows "\<exists>cs' n'. deliver_all g c ps cs n = Ok (cs', n') \<and> all_retained cap (hist @ ps) cs' \<and>
    map fst cs' = map fst cs"
  using assms(1)
proof (induction ps arbitrary: hist cs n)
  case (Cons p ps)
  obtain cs1 n1 where 1: "deliver g c p cs n = Ok (cs1, n1)" "all_retained cap (hist @ [p]) cs1"
    "map fst cs1 = map fst cs"
    using deliver_retained [OF Cons.prems assms(2)] by blast
  from Cons.IH [OF 1(2), of n1] 1 show ?case by auto
qed auto

lemma dispatch_retained:
  assumes "fusion_inv rcap (hd_ring h)" and "all_retained cap hist (disp_clients (hd_dispatcher h))" and "0 < cap"
  shows "\<exists>h' ds. dispatch_pending_telemetry num h = Ok (h', length ds) \<and>
    map sample.truncate ds = take 128 (fusion_contents (hd_ring h)) \<and>
    fusion_inv rcap (hd_ring h') \<and> fusion_contents (hd_ring h') = drop 128 (fusion_contents (hd_ring h)) \<and>
    all_retained cap (hist @ map (record_payload num) ds) (disp_clients (hd_dispatcher h')) \<and>
    map fst (disp_clients (hd_dispatcher h')) = map fst (disp_clients (hd_dispatcher h))"
proof -
  obtain ring ds where r: "fusion_pop_batch (hd_ring h) 128 = Ok (ring, ds)" "fusion_inv rcap ring"
    "map sample.truncate ds = take 128 (fusion_contents (hd_ring h))"
    "fusion_contents ring = drop 128 (fusion_contents (hd_ring h))"
    using fusion_pop_law [OF assms(1), of 128] by auto
  obtain cs n where "deliver_all (hd_guard h) (hd_capacity h) (map (record_payload num) ds)
      (disp_clients (hd_dispatcher h)) (total_dropped_telemetry_frames h) = Ok (cs, n)"
    "all_retained cap (hist @ map (record_payload num) ds) cs"
    "map fst cs = map fst (disp_clients (hd_dispatcher h))"
    using deliver_all_retained [OF assms(2,3)] by blast
  with r assms(2) show ?thesis
    by (cases "ds = []") (auto simp: dispatch_pending_telemetry_def intro!: exI [of _ ds])
qed

section \<open>Strides\<close>

fun ingest_all :: "(stride_flags \<times> sample) list \<Rightarrow> hardening \<Rightarrow> fault + (hardening \<times> nat list)" where
  "ingest_all [] h = Ok (h, [])"
| "ingest_all ((x, s) # xs) h =
     seqE (ingest_compute_stride x s h) (\<lambda>(h1, st). seqE (ingest_all xs h1) (\<lambda>(h2, sts). Ok (h2, st # sts)))"

definition supervisor_inv :: "nat \<times> nat \<times> nat \<Rightarrow> fusion_supervisor \<Rightarrow> bool" where
  "supervisor_inv m s \<longleftrightarrow> (case m of (cur, cand, n) \<Rightarrow>
     current_state s = cur \<and> persistence_counters s = counters_of cand n \<and>
     cur < 4 \<and> cand < 4 \<and> (cand = cur \<longrightarrow> n = 0))"

lemma supervisor_inv_init: "supervisor_inv (0, 0, 0) (fusion_supervisor_init h)"
  by (simp add: supervisor_inv_def fusion_supervisor_init_def counters_of_def numeral_eq_Suc)

lemma process_state_refines:
  assumes "supervisor_inv m s" and "stride_ok x"
  shows "\<exists>s'. process_state x s = Ok s' \<and>
    supervisor_inv (candidate_step (hysteresis_threshold s) m (stride_target x)) s' \<and>
    hysteresis_threshold s' = hysteresis_threshold s"
proof -
  obtain cur cand n where m: "m = (cur, cand, n)" by (cases m) auto
  from assms(1) m have i: "current_state s = cur" "persistence_counters s = counters_of cand n"
    "cur < 4" "cand < 4" "cand = cur \<Longrightarrow> n = 0" by (auto simp: supervisor_inv_def)
  have "stride_target x < 4" by (simp add: stride_target_def)
  from apply_hysteresis_refines [OF i(3,4) this i(5), of "hysteresis_threshold s"] obtain cur' cand' n' where
    "candidate_step (hysteresis_threshold s) (cur, cand, n) (stride_target x) = (cur', cand', n')"
    "apply_hysteresis cur (stride_target x) (counters_of cand n) (hysteresis_threshold s) = (cur', counters_of cand' n')"
    "cur' < 4" "cand' < 4" "cand' = cur' \<longrightarrow> n' = 0" by blast
  with i(1,2) m update_state_machine_Ok [OF assms(2)] show ?thesis
    by (simp add: process_state_def supervisor_inv_def)
qed

text \<open>The machine of a history of targets, and the state after every stride.\<close>

definition states_of :: "int \<Rightarrow> nat \<times> nat \<times> nat \<Rightarrow> nat list \<Rightarrow> nat list" where
  "states_of h m ts = map (\<lambda>k. fst (foldl (candidate_step h) m (take (Suc k) ts))) [0..<length ts]"

lemma states_of_Cons: "states_of h m (t # ts) =
    fst (candidate_step h m t) # states_of h (candidate_step h m t) ts"
  unfolding states_of_def length_Cons
  by (subst upt_conv_Cons) (simp_all add: map_Suc_upt [symmetric] del: upt_Suc map_Suc_upt candidate_step.simps)

fun process_all :: "stride_flags list \<Rightarrow> fusion_supervisor \<Rightarrow> fault + fusion_supervisor" where
  "process_all [] s = Ok s"
| "process_all (x # xs) s = seqE (process_state x s) (process_all xs)"

lemma process_all_refines:
  assumes "supervisor_inv m s" and "\<forall>x \<in> set xs. stride_ok x"
  shows "\<exists>s'. process_all xs s = Ok s' \<and> hysteresis_threshold s' = hysteresis_threshold s \<and>
    supervisor_inv (foldl (candidate_step (hysteresis_threshold s)) m (map stride_target xs)) s'"
  using assms
proof (induction xs arbitrary: m s)
  case (Cons x xs)
  then obtain s1 where "process_state x s = Ok s1" "hysteresis_threshold s1 = hysteresis_threshold s"
    "supervisor_inv (candidate_step (hysteresis_threshold s) m (stride_target x)) s1"
    using process_state_refines [of m s x] by auto
  with Cons.IH [of "candidate_step (hysteresis_threshold s) m (stride_target x)" s1] Cons.prems
  show ?case by simp
qed simp

lemma process_all_fresh:
  assumes "\<forall>x \<in> set xs. stride_ok x"
  shows "\<exists>s. process_all xs (fusion_supervisor_init h) = Ok s \<and>
    supervisor_inv (candidate_run h (map stride_target xs)) s"
  using process_all_refines [OF supervisor_inv_init assms, of h]
  by (auto simp: candidate_run_def fusion_supervisor_init_def)

lemma supervisor_inv_state: "supervisor_inv m s \<Longrightarrow> current_state s = fst m"
  by (cases m) (simp add: supervisor_inv_def)

lemma stored_threat: "v < 4 \<Longrightarrow> threat_state (stored (s\<lparr>threat_state := int v\<rparr>)) = int v"
  by (auto simp: stored_def less_four)

lemma ingest_all_spec:
  assumes "supervisor_inv m (hd_supervisor h)" and "fusion_inv rcap (hd_ring h)"
    and "\<forall>(x, s) \<in> set xs. stride_ok x \<and> sample_ok s"
    and "length (fusion_contents (hd_ring h)) + length xs \<le> rcap"
  shows "\<exists>h' rs. ingest_all xs h =
      Ok (h', states_of (hysteresis_threshold (hd_supervisor h)) m (map (stride_target \<circ> fst) xs)) \<and>
    fusion_inv rcap (hd_ring h') \<and> fusion_contents (hd_ring h') = fusion_contents (hd_ring h) @ rs \<and>
    map threat_state rs = map int (states_of (hysteresis_threshold (hd_supervisor h)) m (map (stride_target \<circ> fst) xs)) \<and>
    hd_dispatcher h' = hd_dispatcher h"
  using assms
proof (induction xs arbitrary: m h)
  case Nil
  then show ?case by (simp add: states_of_def)
next
  case (Cons xs1 xs)
  let ?h = "hysteresis_threshold (hd_supervisor h)"
  obtain x s where xs: "xs1 = (x, s)" by (cases xs1)
  let ?m = "candidate_step ?h m (stride_target x)"
  obtain sup where sup: "process_state x (hd_supervisor h) = Ok sup" "supervisor_inv ?m sup"
    "hysteresis_threshold sup = ?h"
    using process_state_refines [OF Cons.prems(1), of x] Cons.prems(3) xs by auto
  have st: "current_state sup = fst ?m" by (rule supervisor_inv_state) (rule sup(2))
  have small: "fst ?m < 4" using sup(2) by (cases ?m) (simp add: supervisor_inv_def)
  let ?s = "s\<lparr>threat_state := int (current_state sup)\<rparr>"
  have "sample_ok ?s" using Cons.prems(3) xs by (simp add: sample_ok_def)
  from fusion_push_law [OF Cons.prems(2) this] Cons.prems(4) obtain ring where ring:
    "fusion_push (hd_ring h) ?s = Ok ring" "fusion_inv rcap ring"
    "fusion_contents ring = fusion_contents (hd_ring h) @ [stored ?s]"
    by (auto simp: last_n_short)
  define h1 where "h1 = h\<lparr>hd_supervisor := sup, hd_ring := ring,
      total_processed_strides := total_processed_strides h + 1,
      total_critical_alerts_routed := total_critical_alerts_routed h + (if current_state sup = 3 then 1 else 0)\<rparr>"
  have h1: "hd_supervisor h1 = sup" "hd_ring h1 = ring" "hd_dispatcher h1 = hd_dispatcher h"
    by (simp_all add: h1_def)
  have step: "ingest_compute_stride x s h = Ok (h1, current_state sup)"
    using sup(1) ring(1) by (simp add: ingest_compute_stride_def Let_def h1_def)
  have p: "supervisor_inv ?m (hd_supervisor h1)" "fusion_inv rcap (hd_ring h1)"
    "\<forall>(x, s) \<in> set xs. stride_ok x \<and> sample_ok s"
    "length (fusion_contents (hd_ring h1)) + length xs \<le> rcap"
    using sup(2) ring(2,3) Cons.prems(3,4) by (auto simp: h1)
  from Cons.IH [OF p] obtain h' rs where
    "ingest_all xs h1 = Ok (h', states_of ?h ?m (map (stride_target \<circ> fst) xs))" "fusion_inv rcap (hd_ring h')"
    "fusion_contents (hd_ring h') = fusion_contents ring @ rs"
    "map threat_state rs = map int (states_of ?h ?m (map (stride_target \<circ> fst) xs))"
    "hd_dispatcher h' = hd_dispatcher h"
    unfolding h1 sup(3) by blast
  with step ring(3) st small show ?case
    by (intro exI [of _ h'] exI [of _ "stored ?s # rs"])
      (simp add: xs states_of_Cons stored_threat comp_def del: candidate_step.simps)
qed

lemma disp_register_retained:
  assumes "all_retained cap [] (disp_clients d)" and "disp_capacity d = cap"
  shows "all_retained cap [] (disp_clients (disp_register cid d))"
  using assms set_dict_set [of cid "new_queue cap" "disp_clients d"] json_queue.retained_new [of cap]
  by (fastforce simp: disp_register_def)

lemma disp_register_all_retained:
  "all_retained cap [] (disp_clients (fold disp_register ids (disp_init cap ver)))"
proof -
  have "disp_capacity d = cap \<Longrightarrow> all_retained cap [] (disp_clients d) \<Longrightarrow>
      all_retained cap [] (disp_clients (fold disp_register ids d))" for d
  proof (induction ids arbitrary: d)
    case (Cons i ids)
    have "disp_capacity (disp_register i d) = cap" using Cons.prems(1) by (simp add: disp_register_def)
    with Cons.IH [of "disp_register i d"] disp_register_retained [OF Cons.prems(2,1)] show ?case by simp
  qed simp
  from this [of "disp_init cap ver"] show ?thesis by (simp add: disp_init_def)
qed

section \<open>Properties\<close>

text \<open>
  the supervisor's state changes on a stride only when that stride and the \<open>h - 1\<close> before
  it all asked for the new state: no shorter burst of evidence moves it.
\<close>

theorem state_change_needs_persistence:
  assumes "1 \<le> h" and "\<forall>y \<in> set (xs @ [x]). stride_ok y"
    and "process_all xs (fusion_supervisor_init h) = Ok s"
    and "process_all (xs @ [x]) (fusion_supervisor_init h) = Ok s'"
    and "current_state s' \<noteq> current_state s"
  shows "nat h \<le> length (xs @ [x]) \<and>
    map stride_target (drop (length (xs @ [x]) - nat h) (xs @ [x])) = replicate (nat h) (current_state s')"
proof -
  let ?ts = "map stride_target xs"
  obtain cur c n where r: "candidate_run h ?ts = (cur, c, n)" by (cases "candidate_run h ?ts") auto
  obtain cur' c' n' where r': "candidate_run h (?ts @ [stride_target x]) = (cur', c', n')"
    by (cases "candidate_run h (?ts @ [stride_target x])") auto
  have "current_state s = cur" "current_state s' = cur'"
    using process_all_fresh [of xs h] process_all_fresh [of "xs @ [x]" h] assms(2-4) r r'
    by (auto dest!: supervisor_inv_state)
  then have "cur' = stride_target x \<and> nat h \<le> Suc (length ?ts) \<and>
      drop (Suc (length ?ts) - nat h) (?ts @ [stride_target x]) = replicate (nat h) (stride_target x)"
    using candidate_change [OF r r' _ assms(1)] assms(5) by auto
  with \<open>current_state s' = cur'\<close> show ?thesis by (simp add: drop_map [symmetric] del: drop_append)
qed

definition spoof_stride :: stride_flags where
  "spoof_stride = \<lparr>dissector_flags = [False, True], aoa_flags = [False, True], glrt_anomaly = False,
     inference_verdict = 0\<rparr>"

theorem state_change_needs_persistence_witness:
  "nat 2 \<le> length ([spoof_stride] @ [spoof_stride]) \<and>
    map stride_target (drop (length ([spoof_stride] @ [spoof_stride]) - nat 2) ([spoof_stride] @ [spoof_stride])) =
      replicate (nat 2) (current_state \<lparr>current_state = 3, persistence_counters = [0, 0, 0, 0], hysteresis_threshold = 2\<rparr>)"
proof (rule state_change_needs_persistence)
  show "process_all [spoof_stride] (fusion_supervisor_init 2) =
      Ok \<lparr>current_state = 0, persistence_counters = [0, 0, 0, 1], hysteresis_threshold = 2\<rparr>"
    by code_simp
  show "process_all ([spoof_stride] @ [spoof_stride]) (fusion_supervisor_init 2) =
      Ok \<lparr>current_state = 3, persistence_counters = [0, 0, 0, 0], hysteresis_threshold = 2\<rparr>"
    by code_simp
qed (simp_all add: spoof_stride_def stride_ok_def)

text \<open>
  whatever happened before, \<open>h\<close> consecutive strides with the same target bring the
  supervisor to that target, escalations and recoveries alike.
\<close>

theorem state_reached_after_persistence:
  assumes "1 \<le> h" and "\<forall>y \<in> set (xs @ ys). stride_ok y" and "length ys = nat h"
    and "\<forall>y \<in> set ys. stride_target y = t"
  shows "\<exists>s. process_all (xs @ ys) (fusion_supervisor_init h) = Ok s \<and> current_state s = t"
proof -
  have "map stride_target ys = map (\<lambda>_. t) ys" using assms(4) by simp
  then have ys: "map stride_target ys = replicate (nat h) t"
    by (simp only: map_replicate_const assms(3))
  obtain cur c n where r: "candidate_run h (map stride_target xs) = (cur, c, n)"
    by (cases "candidate_run h (map stride_target xs)") auto
  have "c = t \<Longrightarrow> t \<noteq> cur \<Longrightarrow> int n < h" using candidate_run_suffix [OF r] assms(1) by auto
  with candidate_reaches [OF assms(1)] have
    "fst (foldl (candidate_step h) (cur, c, n) (replicate (nat h) t)) = t" by blast
  then have "fst (candidate_run h (map stride_target (xs @ ys))) = t"
    using r by (simp add: candidate_run_def ys)
  with process_all_fresh [OF assms(2), of h] show ?thesis by (auto dest: supervisor_inv_state)
qed

theorem state_reached_after_persistence_witness:
  "\<exists>s. process_all ([] @ [spoof_stride, spoof_stride]) (fusion_supervisor_init 2) = Ok s \<and> current_state s = 3"
  by (rule state_reached_after_persistence)
    (simp_all add: spoof_stride_def stride_ok_def stride_target_def target_state_def)

text \<open>
  C6: a batch of strides that fits the ring, ingested and then dispatched, delivers one record
  per stride to every client in order, each carrying the state the machine had at that stride;
  the ring is drained, and every client keeps exactly its most recent critical records.
\<close>

theorem ingest_dispatch_delivery:
  assumes "\<forall>(x, s) \<in> set xs. stride_ok x \<and> sample_ok s" and "length xs \<le> rcap" and "length xs \<le> 128"
    and "0 < rcap" and "0 < qcap"
  shows "\<exists>h1 h2 sts ds. ingest_all xs ((hd_init rcap qcap hi cr)
        \<lparr>hd_dispatcher := fold disp_register ids (disp_init qcap 1)\<rparr>) = Ok (h1, sts) \<and>
    sts = states_of 3 (0, 0, 0) (map (stride_target \<circ> fst) xs) \<and>
    dispatch_pending_telemetry num h1 = Ok (h2, length xs) \<and>
    map threat_state ds = map int sts \<and> fusion_contents (hd_ring h2) = [] \<and>
    (\<forall>(cid, q) \<in> set (disp_clients (hd_dispatcher h2)).
       filter json_critical (queue q) = last_n qcap (filter json_critical (map (record_payload num) ds)) \<and>
       (length xs < qcap \<longrightarrow> queue q = map (record_payload num) ds))"
proof -
  let ?h0 = "(hd_init rcap qcap hi cr)\<lparr>hd_dispatcher := fold disp_register ids (disp_init qcap 1)\<rparr>"
  let ?sts = "states_of 3 (0, 0, 0) (map (stride_target \<circ> fst) xs)"
  have init: "supervisor_inv (0, 0, 0) (hd_supervisor ?h0)" "hysteresis_threshold (hd_supervisor ?h0) = 3"
    "fusion_inv rcap (hd_ring ?h0)" "fusion_contents (hd_ring ?h0) = []"
    using assms(4) by (simp_all add: hd_init_def supervisor_inv_init fusion_inv_init)
      (simp_all add: fusion_supervisor_init_def fusion_contents_def fusion_init_def window_def)
  obtain h1 rs where 1: "ingest_all xs ?h0 = Ok (h1, ?sts)" "fusion_inv rcap (hd_ring h1)"
    "fusion_contents (hd_ring h1) = rs" "map threat_state rs = map int ?sts" "hd_dispatcher h1 = hd_dispatcher ?h0"
    using ingest_all_spec [OF init(1,3) assms(1)] init(2,4) assms(2) by auto
  have len: "length rs = length xs" using arg_cong [OF 1(4), of length] by (simp add: states_of_def)
  have ret: "all_retained qcap [] (disp_clients (hd_dispatcher h1))"
    using 1(5) disp_register_all_retained by simp
  obtain h2 ds where 2: "dispatch_pending_telemetry num h1 = Ok (h2, length ds)" "map sample.truncate ds = rs"
    "fusion_contents (hd_ring h2) = []"
    "all_retained qcap (map (record_payload num) ds) (disp_clients (hd_dispatcher h2))"
    using dispatch_retained [OF 1(2) ret assms(5), of num] 1(3) len assms(3) by auto
  have "length ds = length xs" using arg_cong [OF 2(2), of length] len by simp
  moreover have "map threat_state ds = map int ?sts"
    using 1(4) unfolding 2(2) [symmetric] by (simp add: comp_def sample.truncate_def)
  moreover have "\<forall>(cid, q) \<in> set (disp_clients (hd_dispatcher h2)).
      filter json_critical (queue q) = last_n qcap (filter json_critical (map (record_payload num) ds)) \<and>
      (length xs < qcap \<longrightarrow> queue q = map (record_payload num) ds)"
  proof -
    have "filter json_critical (queue q) = last_n qcap (filter json_critical (map (record_payload num) ds)) \<and>
        (length xs < qcap \<longrightarrow> queue q = map (record_payload num) ds)"
      if "json_queue.retained qcap (map (record_payload num) ds) q" for q
    proof
      show "filter json_critical (queue q) = last_n qcap (filter json_critical (map (record_payload num) ds))"
        using that unfolding json_queue.retained_def by (elim conjE)
      show "length xs < qcap \<longrightarrow> queue q = map (record_payload num) ds"
        using json_queue.retained_short [OF that] \<open>length ds = length xs\<close> by simp
    qed
    then show ?thesis using 2(4) by (simp add: split_beta)
  qed
  ultimately show ?thesis using 1(1) 2(1,3)
    by (intro exI [of _ h1] exI [of _ h2] exI [of _ ?sts] exI [of _ ds]) simp
qed

theorem ingest_dispatch_delivery_witness:
  "\<exists>h1 h2 sts ds. ingest_all [(spoof_stride, sample0), (spoof_stride, sample0), (spoof_stride, sample0)]
        ((hd_init 8 2 (7 / 10) (9 / 10))\<lparr>hd_dispatcher := fold disp_register [''hud''] (disp_init 2 1)\<rparr>) = Ok (h1, sts) \<and>
    sts = states_of 3 (0, 0, 0)
      (map (stride_target \<circ> fst) [(spoof_stride, sample0), (spoof_stride, sample0), (spoof_stride, sample0)]) \<and>
    dispatch_pending_telemetry (\<lambda>_. 0) h1 =
      Ok (h2, length [(spoof_stride, sample0), (spoof_stride, sample0), (spoof_stride, sample0)]) \<and>
    map threat_state ds = map int sts \<and> fusion_contents (hd_ring h2) = [] \<and>
    (\<forall>(cid, q) \<in> set (disp_clients (hd_dispatcher h2)).
       filter json_critical (queue q) = last_n 2 (filter json_critical (map (record_payload (\<lambda>_. 0)) ds)) \<and>
       (length [(spoof_stride, sample0), (spoof_stride, sample0), (spoof_stride, sample0)] < 2 \<longrightarrow>
          queue q = map (record_payload (\<lambda>_. 0)) ds))"
  by (rule ingest_dispatch_delivery) (simp_all add: spoof_stride_def stride_ok_def sample_ok_def sample0_def)

text \<open>
  \<open>total_dropped_telemetry_frames\<close> does not count drops: delivering to a client whose
  queue is at or above the critical fill ratio but still has room increments the counter
  although the record is queued and nothing is dropped.
\<close>

theorem congestion_counted_as_drop:
  assumes "length (queue q) < max_capacity q" and "0 < cap"
    and "critical_threshold g * real cap \<le> real (length (queue q))"
  shows "deliver g cap p [(cid, q)] n = Ok ([(cid, q\<lparr>queue := queue q @ [p]\<rparr>)], n + 1)"
proof -
  have "critical_threshold g \<le> real (length (queue q)) / real cap"
    using assms(2,3) by (simp add: pos_le_divide_eq)
  then show ?thesis using assms
    by (simp add: get_pressure_state_def evaluate_pressure_state_jit_def client_push_def alert_push_room Let_def)
qed

theorem congestion_counted_as_drop_witness:
  "deliver \<lparr>high_threshold = 7 / 10, critical_threshold = 9 / 10\<rparr> 10 Map.empty
     [(''hud'', (new_queue 10)\<lparr>queue := replicate 9 Map.empty\<rparr>)] 0 =
   Ok ([(''hud'', ((new_queue 10)\<lparr>queue := replicate 9 Map.empty\<rparr>)
       \<lparr>queue := queue ((new_queue 10)\<lparr>queue := replicate 9 Map.empty\<rparr>) @ [Map.empty]\<rparr>)], 0 + 1)"
  by (rule congestion_counted_as_drop) (simp_all add: new_queue_def)

end
