(* ===== verification/Fusion_Supervisor.thy ===== *)
theory Fusion_Supervisor
  imports Correlator_Shape Spatial_Enforcement Spatial_Glrt Runtime_Hardening
begin

text \<open>
  \<^verbatim>\<open>Phase58FusionSupervisor\<close>: one stride goes through the compiled sphericity test, which sets the margin of the angle check,
  through the correlator bridge, the enforcement bridge and the threat state machine. The weights of the caller
  are changed in place. Latencies are not modelled.
\<close>

section \<open>The supervisor\<close>

record supervisor58 =
  su_bridge :: bridge
  su_aoa :: enforcement
  su_M :: nat
  su_N :: nat
  su_rho :: real
  su_gamma :: real
  su_last_sphericity :: real
  su_last_metr :: real
  su_last_lambda_max :: real
  su_machine :: fusion_supervisor

text \<open>The bridges are built with their default thresholds, spacing and wavelength; the test's constants are copied.\<close>

definition phase58_init :: "(real \<Rightarrow> int \<Rightarrow> real) \<Rightarrow> nat \<Rightarrow> nat \<Rightarrow> int \<Rightarrow> real \<Rightarrow> fault + supervisor58" where
  "phase58_init ppf num_channels window_size hysteresis margin_deg =
     seqE (bridge_init num_channels window_size (15 / 100) (5 / 100)) (\<lambda>b.
     seqE (enforcement_init num_channels (127 / 1000) (254 / 1000) margin_deg) (\<lambda>e.
     seqE (glrt_init ppf num_channels 50 (1 / 10 ^ 7)) (\<lambda>d.
       Ok \<lparr>su_bridge = b, su_aoa = e, su_M = gd_M d, su_N = gd_N d, su_rho = gd_rho d, su_gamma = gd_gamma d,
         su_last_sphericity = 0, su_last_metr = 0, su_last_lambda_max = 0, su_machine = fusion_supervisor_init hysteresis\<rparr>)))"

record stride58 =
  st_Y :: "complex list list"
  st_taps :: "taps list"
  st_phases :: "phases list"
  st_azel :: "(real \<times> real) list"
  st_weights :: "vec4 list"
  st_verdict :: int

definition fusion_stride :: "stride58 \<Rightarrow> supervisor58 \<Rightarrow> fault + (nat \<times> vec4 list \<times> supervisor58)" where
  "fusion_stride x s =
     seqE (fast_glrt_eval (st_Y x) (su_M s) (su_N s) (su_rho s) (su_gamma s)) (\<lambda>r.
     let e = interoperate_with_glrt (gr_alert r) (su_aoa s)
     in seqE (execute_stride (st_taps x) (su_bridge s)) (\<lambda>b.
        seqE (execute_enforcement_stride (st_phases x) (st_azel x) (st_weights x) e) (\<lambda>(ws, e').
        seqE (process_state \<lparr>dissector_flags = cb_flags b, aoa_flags = en_flags e', glrt_anomaly = gr_alert r,
                inference_verdict = st_verdict x\<rparr> (su_machine s)) (\<lambda>m.
          Ok (current_state m, ws, s\<lparr>su_bridge := b, su_aoa := e', su_last_sphericity := gr_sphericity r, su_last_metr := gr_metr r,
            su_last_lambda_max := gr_lambda_max r, su_machine := m\<rparr>)))))"

fun stride_run :: "stride58 list \<Rightarrow> supervisor58 \<Rightarrow> fault + ((nat \<times> vec4 list) list \<times> supervisor58)" where
  "stride_run [] s = Ok ([], s)"
| "stride_run (x # xs) s = seqE (fusion_stride x s) (\<lambda>(st, ws, s1). seqE (stride_run xs s1) (\<lambda>(outs, s2). Ok ((st, ws) # outs, s2)))"

record control_payload =
  cp_verdict :: string
  cp_sphericity :: real
  cp_fim_beta :: real
  cp_correlator :: fused_payload
  cp_aoa :: aoa_payload

definition state_names :: "string list" where
  "state_names = [''NOMINAL'', ''WARNING_JAMMING'', ''WARNING_SPOOFING'', ''CRITICAL_MITIGATION'']"

definition format_control_plane_payload :: "supervisor58 \<Rightarrow> fault + control_payload" where
  "format_control_plane_payload s =
     (if current_state (su_machine s) < length state_names then
        seqE (bridge_payload (su_bridge s)) (\<lambda>c.
          Ok \<lparr>cp_verdict = state_names ! current_state (su_machine s), cp_sphericity = su_last_sphericity s,
            cp_fim_beta = su_last_metr s, cp_correlator = c, cp_aoa = enforcement_payload (su_aoa s)\<rparr>)
      else Fail IndexError)"

section \<open>What a stride says\<close>

text \<open>Strides of the right shapes with some signal in them\<close>

definition stride_formed :: "stride58 \<Rightarrow> bool" where
  "stride_formed x \<longleftrightarrow> strided (st_Y x) \<and> \<not> silent (st_Y x) \<and> length (st_taps x) = 4 \<and> length (st_phases x) = 4 \<and>
     length (st_azel x) = 4 \<and> length (st_weights x) = 4"

definition covariance_alert :: "real \<Rightarrow> real \<Rightarrow> stride58 \<Rightarrow> bool" where
  "covariance_alert rho gamma x = (case fast_glrt_eval (st_Y x) 4 50 rho gamma of Inl _ \<Rightarrow> False | Inr r \<Rightarrow> gr_alert r)"

definition channel_error :: "stride58 \<Rightarrow> nat \<Rightarrow> real" where
  "channel_error x m = angular_error (1 / pi) (st_phases x ! m) (st_azel x ! m)"

definition active_margin :: "real \<Rightarrow> bool \<Rightarrow> real" where
  "active_margin deg anomaly = (if anomaly then radians deg * (40 / 100) else radians deg)"

text \<open>The evidence of a stride does not depend on the state of the supervisor.\<close>

definition evidence :: "real \<Rightarrow> real \<Rightarrow> real \<Rightarrow> stride58 \<Rightarrow> stride_flags" where
  "evidence rho gamma deg x = (let alert = covariance_alert rho gamma x in
     \<lparr>dissector_flags = map (\<lambda>t. snd (dissect_taps (15 / 100) (5 / 100) t)) (st_taps x),
      aoa_flags = map (\<lambda>m. active_margin deg alert < channel_error x m) [0..<4], glrt_anomaly = alert, inference_verdict = st_verdict x\<rparr>)"

text \<open>The weights a stride leaves to the caller\<close>

definition weights_left :: "real \<Rightarrow> real \<Rightarrow> real \<Rightarrow> stride58 \<Rightarrow> vec4 list \<Rightarrow> bool" where
  "weights_left rho gamma deg x ws \<longleftrightarrow> length ws = 4 \<and> (\<forall>m < 4.
     if active_margin deg (covariance_alert rho gamma x) < channel_error x m
     then hdot (ws ! m) (wave_vector (st_phases x ! m)) = 0 \<and> vec_power (ws ! m) \<le> vec_power (st_weights x ! m)
     else ws ! m = st_weights x ! m)"

definition su_inv :: "nat \<Rightarrow> real \<Rightarrow> real \<Rightarrow> real \<Rightarrow> taps list list \<Rightarrow> supervisor58 \<Rightarrow> bool" where
  "su_inv w rho gamma deg hist s \<longleftrightarrow> bridge_holds 4 w (15 / 100) (5 / 100) hist (su_bridge s) \<and>
     enforcement_ok 4 (su_aoa s) \<and> en_scaling (su_aoa s) = 1 / pi \<and> en_default_margin (su_aoa s) = radians deg \<and>
     su_M s = 4 \<and> su_N s = 50 \<and> su_rho s = rho \<and> su_gamma s = gamma"

lemma evidence_ok: "stride_formed x \<Longrightarrow> stride_ok (evidence rho gamma deg x)"
  by (simp add: stride_ok_def evidence_def stride_formed_def Let_def)

lemma fusion_stride_exact:
  assumes "0 < w" "su_inv w rho gamma deg hist s" "stride_formed x" "process_state (evidence rho gamma deg x) (su_machine s) = Ok m"
  shows "\<exists>ws s'. fusion_stride x s = Ok (current_state m, ws, s') \<and> su_inv w rho gamma deg (hist @ [st_taps x]) s' \<and> su_machine s' = m \<and>
    en_flags (su_aoa s') = aoa_flags (evidence rho gamma deg x) \<and> weights_left rho gamma deg x ws"
proof -
  have inv: "bridge_holds 4 w (15 / 100) (5 / 100) hist (su_bridge s)" "enforcement_ok 4 (su_aoa s)" "en_scaling (su_aoa s) = 1 / pi"
    "en_default_margin (su_aoa s) = radians deg" "su_M s = 4" "su_N s = 50" "su_rho s = rho" "su_gamma s = gamma"
    using assms(2) by (auto simp: su_inv_def)
  have x: "strided (st_Y x)" "\<not> silent (st_Y x)" "length (st_taps x) = 4" "length (st_phases x) = 4" "length (st_azel x) = 4" "length (st_weights x) = 4"
    using assms(3) by (auto simp: stride_formed_def)
  obtain r where r: "fast_glrt_eval (st_Y x) 4 50 rho gamma = Ok r" using fast_value [OF x(1) _ x(2), of 50 rho gamma] by (auto simp: Let_def)
  let ?alert = "gr_alert r"
  have alert: "covariance_alert rho gamma x = ?alert" by (simp add: covariance_alert_def r)
  have margin: "margin_of ?alert (su_aoa s) = active_margin deg ?alert" by (simp add: margin_of_def active_margin_def inv(4))
  obtain b where b: "execute_stride (st_taps x) (su_bridge s) = Ok b" "bridge_holds 4 w (15 / 100) (5 / 100) (hist @ [st_taps x]) b"
    "cb_flags b = map (\<lambda>t. snd (dissect_taps (15 / 100) (5 / 100) t)) (st_taps x)"
    using execute_stride_holds [OF assms(1) inv(1) x(3)] by blast
  obtain ws e' where e': "execute_enforcement_stride (st_phases x) (st_azel x) (st_weights x) (interoperate_with_glrt ?alert (su_aoa s)) = Ok (ws, e')"
    "enforcement_ok 4 e'" "length ws = 4" "en_spacing e' = en_spacing (interoperate_with_glrt ?alert (su_aoa s))"
    "en_lambda e' = en_lambda (interoperate_with_glrt ?alert (su_aoa s))"
    "en_default_margin e' = en_default_margin (interoperate_with_glrt ?alert (su_aoa s))"
    "en_flags e' = map (\<lambda>m. active_margin deg ?alert < channel_error x m) [0..<4]"
    "\<And>m. m < 4 \<Longrightarrow> channel_enforced (active_margin deg ?alert) (channel_error x m) (st_phases x ! m) (st_weights x ! m) (ws ! m) (en_descriptors e' ! m)"
    using enforcement_stride_exact [OF interoperate_ok(1) [OF inv(2), of ?alert] x(4,5,6)]
    unfolding interoperate_ok(2,3) margin inv(3) channel_error_def [symmetric] by blast
  have ev: "\<lparr>dissector_flags = cb_flags b, aoa_flags = en_flags e', glrt_anomaly = ?alert, inference_verdict = st_verdict x\<rparr> = evidence rho gamma deg x"
    by (simp add: evidence_def Let_def alert b(3) e'(7))
  define s' where "s' = s\<lparr>su_bridge := b, su_aoa := e', su_last_sphericity := gr_sphericity r, su_last_metr := gr_metr r,
    su_last_lambda_max := gr_lambda_max r, su_machine := m\<rparr>"
  have "fusion_stride x s = Ok (current_state m, ws, s')"
    unfolding fusion_stride_def inv r seqE_simps Let_def b(1) e'(1) prod.case ev assms(4) s'_def ..
  moreover have "su_inv w rho gamma deg (hist @ [st_taps x]) s'"
  proof -
    have "en_scaling e' = 1 / pi" using e'(4,5) inv(3) by (simp add: en_scaling_def interoperate_with_glrt_def)
    then show ?thesis using b(2) e'(2,6) inv by (simp add: su_inv_def s'_def interoperate_with_glrt_def)
  qed
  moreover have "weights_left rho gamma deg x ws"
    using e'(3,8) by (simp add: weights_left_def alert channel_enforced_def)
  moreover have "en_flags e' = aoa_flags (evidence rho gamma deg x)" unfolding ev [symmetric] by simp
  ultimately show ?thesis by (intro exI [of _ ws] exI [of _ s']) (simp add: s'_def)
qed

lemma stride_run_exact:
  assumes "0 < w" "list_all stride_formed xs" "su_inv w rho gamma deg hist s" "supervisor_inv m (su_machine s)"
  shows "\<exists>outs s'. stride_run xs s = Ok (outs, s') \<and> process_all (map (evidence rho gamma deg) xs) (su_machine s) = Ok (su_machine s') \<and>
    length outs = length xs \<and> (\<forall>k < length xs. weights_left rho gamma deg (xs ! k) (snd (outs ! k))) \<and>
    su_inv w rho gamma deg (hist @ map st_taps xs) s' \<and>
    (xs \<noteq> [] \<longrightarrow> fst (last outs) = current_state (su_machine s')) \<and> hysteresis_threshold (su_machine s') = hysteresis_threshold (su_machine s) \<and>
    supervisor_inv (foldl (candidate_step (hysteresis_threshold (su_machine s))) m (map (\<lambda>x. stride_target (evidence rho gamma deg x)) xs)) (su_machine s')"
  using assms(2-4)
proof (induction xs arbitrary: s hist m)
  case (Cons x xs)
  let ?h = "hysteresis_threshold (su_machine s)" and ?t = "stride_target (evidence rho gamma deg x)"
  have x: "stride_formed x" and xs: "list_all stride_formed xs" using Cons.prems(1) by simp_all
  from process_state_refines [OF Cons.prems(3) evidence_ok [OF x, of rho gamma deg]] obtain m1 where
    m1: "process_state (evidence rho gamma deg x) (su_machine s) = Ok m1" "supervisor_inv (candidate_step ?h m ?t) m1"
      "hysteresis_threshold m1 = ?h" by blast
  from fusion_stride_exact [OF assms(1) Cons.prems(2) x m1(1)] obtain ws s1 where
    s1: "fusion_stride x s = Ok (current_state m1, ws, s1)" "su_inv w rho gamma deg (hist @ [st_taps x]) s1" "su_machine s1 = m1"
      "weights_left rho gamma deg x ws" by blast
  from Cons.IH [OF xs s1(2), of "candidate_step ?h m ?t"] m1(2,3) obtain outs s' where
    r: "stride_run xs s1 = Ok (outs, s')" "process_all (map (evidence rho gamma deg) xs) m1 = Ok (su_machine s')" "length outs = length xs"
      "\<forall>k < length xs. weights_left rho gamma deg (xs ! k) (snd (outs ! k))" "su_inv w rho gamma deg (hist @ map st_taps (x # xs)) s'"
      "xs \<noteq> [] \<longrightarrow> fst (last outs) = current_state (su_machine s')" "hysteresis_threshold (su_machine s') = ?h"
      "supervisor_inv (foldl (candidate_step ?h) (candidate_step ?h m ?t) (map (\<lambda>x. stride_target (evidence rho gamma deg x)) xs)) (su_machine s')"
    unfolding s1(3) by auto
  have "xs = [] \<Longrightarrow> su_machine s' = m1" using r(2) by simp
  then have "fst (last ((current_state m1, ws) # outs)) = current_state (su_machine s')" using r(3,6) by (cases "xs = []") auto
  moreover have "\<forall>k < length (x # xs). weights_left rho gamma deg ((x # xs) ! k) (snd (((current_state m1, ws) # outs) ! k))"
    using r(4) s1(4) by (auto simp: nth_Cons split: nat.splits)
  ultimately show ?case
    using s1(1) m1(1) r(1,2,3,5,7,8) by (intro exI [of _ "(current_state m1, ws) # outs"] exI [of _ s']) simp
qed simp

lemma phase58_init_inv:
  assumes "phase58_init ppf 4 w h deg = Ok s0" "0 < w" "0 < deg"
  shows "su_inv w (su_rho s0) (su_gamma s0) deg [] s0" "su_machine s0 = fusion_supervisor_init h"
proof -
  obtain b where b: "bridge_init 4 w (15 / 100) (5 / 100) = Ok b" "bridge_holds 4 w (15 / 100) (5 / 100) [] b"
    using bridge_init_holds [OF assms(2)] by blast
  obtain e where e: "enforcement_init 4 (127 / 1000) (254 / 1000) deg = Ok e" by (simp add: enforcement_init_def)
  have e_ok: "enforcement_ok 4 e" "en_scaling e = 1 / pi" "en_default_margin e = radians deg"
    using enforcement_init_ok [OF e assms(3)] by simp_all
  show "su_inv w (su_rho s0) (su_gamma s0) deg [] s0" "su_machine s0 = fusion_supervisor_init h"
    using assms(1) b(2) e_ok unfolding phase58_init_def b(1) e seqE_simps by (auto simp: glrt_init_def Let_def su_inv_def)
qed

lemma run_from_init:
  assumes "phase58_init ppf 4 w h deg = Ok s0" "0 < w" "0 < deg" "list_all stride_formed xs"
  shows "\<exists>outs s'. stride_run xs s0 = Ok (outs, s') \<and> length outs = length xs \<and>
    (\<forall>k < length xs. weights_left (su_rho s0) (su_gamma s0) deg (xs ! k) (snd (outs ! k))) \<and>
    su_inv w (su_rho s0) (su_gamma s0) deg (map st_taps xs) s' \<and>
    (xs \<noteq> [] \<longrightarrow> fst (last outs) = current_state (su_machine s')) \<and>
    supervisor_inv (candidate_run h (map (\<lambda>x. stride_target (evidence (su_rho s0) (su_gamma s0) deg x)) xs)) (su_machine s')"
  using stride_run_exact [OF assms(2,4) phase58_init_inv(1) [OF assms(1-3)], of "(0, 0, 0)"]
  by (auto simp: phase58_init_inv(2) [OF assms(1-3)] supervisor_inv_init candidate_run_def) (simp add: fusion_supervisor_init_def)

section \<open>Properties\<close>

definition deviates :: "real \<Rightarrow> stride58 \<Rightarrow> bool" where
  "deviates deg x \<longleftrightarrow> list_ex (\<lambda>m. radians deg < channel_error x m) [0..<4]"

lemma active_margin_le: "0 < deg \<Longrightarrow> active_margin deg anomaly \<le> radians deg"
  by (simp add: active_margin_def radians_def)

lemma deviating_target:
  assumes "0 < deg" "length (st_taps x) = 4" "deviates deg x"
  shows "stride_target (evidence rho gamma deg x) = 3"
proof -
  obtain m where m: "m < 4" "radians deg < channel_error x m" using assms(3) by (auto simp: deviates_def list_ex_iff)
  let ?a = "covariance_alert rho gamma x"
  have "active_margin deg ?a < channel_error x m" using m(2) active_margin_le [OF assms(1), of ?a] by linarith
  then have "True \<in> set (map (\<lambda>m. active_margin deg ?a < channel_error x m) [0..<4])" using m(1) by force
  then show ?thesis using assms(2) by (simp add: stride_target_def evidence_def Let_def target_state_def)
qed

text \<open>
  An intruder is met. After any history of well-formed strides, when in as many strides as the threshold some channel
  points further than the default margin off its satellite, the supervisor is in the mitigation state and
  reports it; and in every stride of the run each channel beyond the margin leaves with weights that are
  blind to the direction it measured.
\<close>

theorem intrusion_mitigated:
  assumes "phase58_init ppf 4 w h deg = Ok s0" "0 < w" "0 < deg" "1 \<le> h" "list_all stride_formed (xs @ ys)"
    "length ys = nat h" "list_all (deviates deg) ys"
  shows "\<exists>outs s p. stride_run (xs @ ys) s0 = Ok (outs, s) \<and> fst (last outs) = 3 \<and>
    (\<forall>k < length (xs @ ys). \<forall>m < 4. radians deg < channel_error ((xs @ ys) ! k) m \<longrightarrow>
      hdot (snd (outs ! k) ! m) (wave_vector (st_phases ((xs @ ys) ! k) ! m)) = 0) \<and>
    format_control_plane_payload s = Ok p \<and> cp_verdict p = ''CRITICAL_MITIGATION''"
proof -
  let ?t = "\<lambda>x. stride_target (evidence (su_rho s0) (su_gamma s0) deg x)"
  obtain outs s where r: "stride_run (xs @ ys) s0 = Ok (outs, s)" "length outs = length (xs @ ys)"
    "\<forall>k < length (xs @ ys). weights_left (su_rho s0) (su_gamma s0) deg ((xs @ ys) ! k) (snd (outs ! k))"
    "su_inv w (su_rho s0) (su_gamma s0) deg (map st_taps (xs @ ys)) s" "xs @ ys \<noteq> [] \<longrightarrow> fst (last outs) = current_state (su_machine s)"
    "supervisor_inv (candidate_run h (map ?t (xs @ ys))) (su_machine s)"
    using run_from_init [OF assms(1-3,5)] by blast
  have "map ?t ys = replicate (nat h) 3"
    using assms(3,5,6,7) by (intro replicate_eqI) (auto simp: list_all_iff stride_formed_def intro!: deviating_target)
  then have run: "candidate_run h (map ?t (xs @ ys)) = foldl (candidate_step h) (candidate_run h (map ?t xs)) (replicate (nat h) 3)"
    by (simp add: candidate_run_def)
  obtain cur cand n where c: "candidate_run h (map ?t xs) = (cur, cand, n)" by (cases "candidate_run h (map ?t xs)")
  have "fst (candidate_run h (map ?t (xs @ ys))) = 3"
    unfolding run c using candidate_run_suffix [OF c] assms(4) by (intro candidate_reaches) auto
  then have state: "current_state (su_machine s) = 3" using supervisor_inv_state [OF r(6)] by simp
  have "cb_channels (su_bridge s) \<noteq> []" using r(4) by (auto simp: su_inv_def bridge_holds_def channels_hold_def)
  then obtain p where p: "format_control_plane_payload s = Ok p" "cp_verdict p = ''CRITICAL_MITIGATION''"
    using state by (auto simp: format_control_plane_payload_def state_names_def bridge_payload_def)
  have "hdot (snd (outs ! k) ! m) (wave_vector (st_phases ((xs @ ys) ! k) ! m)) = 0"
    if "k < length (xs @ ys)" "m < 4" "radians deg < channel_error ((xs @ ys) ! k) m" for k m
    using r(3) that active_margin_le [OF assms(3), of "covariance_alert (su_rho s0) (su_gamma s0) ((xs @ ys) ! k)"]
    by (auto simp: weights_left_def)
  moreover have "ys \<noteq> []" using assms(4,6) by auto
  ultimately show ?thesis using r(1,5) state p by auto
qed

definition spoofed_stride :: stride58 where
  "spoofed_stride = \<lparr>st_Y = replicate 4 (replicate 50 1), st_taps = replicate 4 (Taps 0 0 0 1 0 0 0), st_phases = replicate 4 (pi, 0, 0),
     st_azel = replicate 4 (90, 0), st_weights = replicate 4 (V4 1 1 1 1), st_verdict = 0\<rparr>"

lemma spoofed_stride_facts: "stride_formed spoofed_stride" "deviates 5 spoofed_stride" "m < 4 \<Longrightarrow> channel_error spoofed_stride m = pi / 2"
proof -
  show e: "m < 4 \<Longrightarrow> channel_error spoofed_stride m = pi / 2" for m
    by (simp add: channel_error_def spoofed_stride_def angular_error_def radians_def)
  have "radians 5 < channel_error spoofed_stride 0" using e [of 0, simplified] pi_gt_zero by (simp only: radians_def)
  then show "deviates 5 spoofed_stride" by (simp add: deviates_def upt_rec)
  show "stride_formed spoofed_stride" by (simp add: stride_formed_def spoofed_stride_def strided_def silent_def list_all_iff)
qed

theorem intrusion_mitigated_witness:
  "\<exists>s0 outs s. phase58_init (\<lambda>_ _. 51) 4 1 1 5 = Ok s0 \<and> stride_run ([] @ [spoofed_stride]) s0 = Ok (outs, s) \<and> fst (last outs) = 3 \<and>
     hdot (snd (outs ! 0) ! 0) (V4 1 (-1) 1 1) = 0"
proof -
  obtain s0 where s0: "phase58_init (\<lambda>_ _. 51) 4 1 1 5 = Ok s0"
    by (simp add: phase58_init_def bridge_init_def enforcement_init_def glrt_init_def Let_def)
  have dev: "\<not> pi / 2 \<le> radians 5" by (simp add: radians_def)
  have "wave_vector (st_phases spoofed_stride ! 0) = V4 1 (-1) 1 1" by (simp add: spoofed_stride_def)
  with intrusion_mitigated [OF s0, of "[]" "[spoofed_stride]"] s0 dev show ?thesis
    by (fastforce simp: spoofed_stride_facts)
qed

text \<open>
  C8: Mitigation needs evidence. If a stride brings the supervisor into the mitigation state, that stride and the ones before
  it, as many as the threshold, each had a channel beyond the active margin (the default one, or 40 percent of it under a
  covariance alert), or a flagged correlator together with the classifier's spoofing verdict.
\<close>

theorem mitigation_needs_evidence:
  assumes "phase58_init ppf 4 w h deg = Ok s0" "0 < w" "0 < deg" "1 \<le> h" "list_all stride_formed (xs @ [x])"
    "stride_run xs s0 = Ok (outs, s)" "stride_run (xs @ [x]) s0 = Ok (outs', s')"
    "current_state (su_machine s) \<noteq> 3" "current_state (su_machine s') = 3"
  shows "nat h \<le> length (xs @ [x]) \<and> list_all (\<lambda>y.
      list_ex (\<lambda>m. active_margin deg (covariance_alert (su_rho s0) (su_gamma s0) y) < channel_error y m) [0..<4] \<or>
      list_ex (\<lambda>t. snd (dissect_taps (15 / 100) (5 / 100) t)) (st_taps y) \<and> st_verdict y = 2)
    (drop (length (xs @ [x]) - nat h) (xs @ [x]))"
proof -
  let ?t = "\<lambda>x. stride_target (evidence (su_rho s0) (su_gamma s0) deg x)"
  obtain cur c n where r: "candidate_run h (map ?t xs) = (cur, c, n)" by (cases "candidate_run h (map ?t xs)")
  obtain cur' c' n' where r': "candidate_run h (map ?t xs @ [?t x]) = (cur', c', n')" by (cases "candidate_run h (map ?t xs @ [?t x])")
  have "list_all stride_formed xs" using assms(5) by simp
  from run_from_init [OF assms(1-3) this] run_from_init [OF assms(1-3,5)] assms(6,7) r r'
  have "current_state (su_machine s) = cur" "current_state (su_machine s') = cur'" by (auto dest!: supervisor_inv_state)
  with candidate_change [OF r r' _ assms(4)] assms(8,9) have "nat h \<le> length (xs @ [x])"
    "drop (length (xs @ [x]) - nat h) (map ?t (xs @ [x])) = replicate (nat h) 3" by auto
  moreover from this(2) have "\<forall>y \<in> set (drop (length (xs @ [x]) - nat h) (xs @ [x])). ?t y = 3"
    by (metis (no_types, lifting) drop_map imageI in_set_replicate list.set_map)
  moreover have "list_ex (\<lambda>m. active_margin deg (covariance_alert (su_rho s0) (su_gamma s0) y) < channel_error y m) [0..<4] \<or>
      list_ex (\<lambda>t. snd (dissect_taps (15 / 100) (5 / 100) t)) (st_taps y) \<and> st_verdict y = 2"
    if "?t y = 3" for y
    using that by (force simp: stride_target_def evidence_def Let_def target_state_def list_ex_iff dest: in_set_takeD split: if_splits)
  ultimately show ?thesis by (simp only: list_all_iff) blast
qed

theorem mitigation_needs_evidence_witness:
  "\<exists>s0 outs s. phase58_init (\<lambda>_ _. 51) 4 1 1 5 = Ok s0 \<and> stride_run [spoofed_stride] s0 = Ok (outs, s) \<and> current_state (su_machine s) = 3 \<and>
     list_ex (\<lambda>m. active_margin 5 (covariance_alert (su_rho s0) (su_gamma s0) spoofed_stride) < channel_error spoofed_stride m) [0..<4]"
proof -
  obtain s0 where s0: "phase58_init (\<lambda>_ _. 51) 4 1 1 5 = Ok s0"
    by (simp add: phase58_init_def bridge_init_def enforcement_init_def glrt_init_def Let_def)
  let ?t = "stride_target (evidence (su_rho s0) (su_gamma s0) 5 spoofed_stride)"
  have t: "?t = 3" by (rule deviating_target) (simp_all add: spoofed_stride_facts, simp add: spoofed_stride_def)
  obtain outs s where r: "stride_run [spoofed_stride] s0 = Ok (outs, s)" "supervisor_inv (candidate_run 1 [?t]) (su_machine s)"
    using run_from_init [OF s0, of "[spoofed_stride]"] spoofed_stride_facts(1) by auto
  have state: "current_state (su_machine s) = 3" using supervisor_inv_state [OF r(2)] by (simp add: t candidate_run_def)
  have "current_state (su_machine s0) \<noteq> 3" using phase58_init_inv(2) [OF s0] by (simp add: fusion_supervisor_init_def)
  with mitigation_needs_evidence [OF s0, of "[]" spoofed_stride "[]" s0 outs s] r(1) state spoofed_stride_facts(1)
  have "list_ex (\<lambda>m. active_margin 5 (covariance_alert (su_rho s0) (su_gamma s0) spoofed_stride) < channel_error spoofed_stride m) [0..<4]"
    by (simp add: spoofed_stride_def)
  with s0 r(1) state show ?thesis by blast
qed

end
