(* ===== verification/Defense_Chain.thy ===== *)
theory Defense_Chain
  imports Fusion_Supervisor
begin

text \<open>
  The runtime supervisor of \<^verbatim>\<open>phase59_runtime_hardening_supervisor.py\<close> over the whole of phase 58: what \<^verbatim>\<open>Runtime_Hardening\<close>
  takes as inputs, the flags and the scores of a record, is computed here from samples, taps and phases. \<open>bits\<close> is the
  double that stands for a number.
\<close>

section \<open>A stride into the ring\<close>

definition stride_sample :: "(real \<Rightarrow> float64) \<Rightarrow> float64 \<Rightarrow> nat \<Rightarrow> supervisor58 \<Rightarrow> sample" where
  "stride_sample bits now state s =
     (let rows = map ct_features (cb_channels (su_bridge s))
      in \<lparr>threat_state = int state, jammer_score = bits (mean_of (length rows) (map fe_residual rows)),
          spoof_score = bits (Max (set (map fe_skew rows))), sphericity = bits (su_last_sphericity s),
          skew_residuals = map bits (cb_scores (su_bridge s)), aoa_deviation = map bits (en_errors (su_aoa s)),
          nulling_directives = en_flags (su_aoa s), timestamp = now\<rparr>)"

definition ingest_stride :: "(real \<Rightarrow> float64) \<Rightarrow> stride58 \<times> float64 \<Rightarrow> supervisor58 \<times> hardening \<Rightarrow>
    fault + (nat \<times> vec4 list \<times> supervisor58 \<times> hardening)" where
  "ingest_stride bits xt sh =
     seqE (fusion_stride (fst xt) (fst sh)) (\<lambda>(state, ws, s).
       if cb_channels (su_bridge s) = [] then Fail ValueError
       else let h = snd sh in seqE (fusion_push (hd_ring h) (stride_sample bits (snd xt) state s)) (\<lambda>ring.
         Ok (state, ws, s, h\<lparr>hd_supervisor := su_machine s, hd_ring := ring,
               total_processed_strides := total_processed_strides h + 1,
               total_critical_alerts_routed := total_critical_alerts_routed h + (if state = 3 then 1 else 0)\<rparr>)))"

fun ingest_run :: "(real \<Rightarrow> float64) \<Rightarrow> (stride58 \<times> float64) list \<Rightarrow> supervisor58 \<times> hardening \<Rightarrow>
    fault + (supervisor58 \<times> hardening)" where
  "ingest_run bits [] sh = Ok sh"
| "ingest_run bits (x # xs) sh = seqE (ingest_stride bits x sh) (\<lambda>(_, _, sh'). ingest_run bits xs sh')"

text \<open>Construction, with the clients that have registered\<close>

definition phase59_init :: "(real \<Rightarrow> int \<Rightarrow> real) \<Rightarrow> nat \<Rightarrow> nat \<Rightarrow> nat \<Rightarrow> real \<Rightarrow> real \<Rightarrow> string list \<Rightarrow>
    fault + (supervisor58 \<times> hardening)" where
  "phase59_init ppf num_channels rcap qcap hi cr ids =
     seqE (phase58_init ppf num_channels 10 3 5) (\<lambda>s.
       Ok (s, (hd_init rcap qcap hi cr)\<lparr>hd_dispatcher := fold disp_register ids (disp_init qcap 1)\<rparr>))"

section \<open>It is the stride of the hardening supervisor\<close>

text \<open>
  A stride through the whole of phase 58 is a step of the machine of \<^verbatim>\<open>Runtime_Hardening\<close> on the stride's evidence; the
  sample is the one the bridges left.
\<close>

lemma ingest_stride_exact:
  assumes "0 < w" "su_inv w rho gamma deg hist s" "stride_formed x" "supervisor_inv m (su_machine s)"
    "hd_supervisor h = su_machine s" "fusion_inv rcap (hd_ring h)" "length (fusion_contents (hd_ring h)) < rcap"
  shows "\<exists>state ws s' h' smp. ingest_stride bits (x, now) (s, h) = Ok (state, ws, s', h') \<and>
    ingest_compute_stride (evidence rho gamma deg x) smp h = Ok (h', state) \<and>
    su_inv w rho gamma deg (hist @ [st_taps x]) s' \<and> hd_supervisor h' = su_machine s' \<and> hd_dispatcher h' = hd_dispatcher h \<and>
    state = current_state (su_machine s') \<and> weights_left rho gamma deg x ws \<and> timestamp (stored smp) = now \<and>
    hysteresis_threshold (su_machine s') = hysteresis_threshold (su_machine s) \<and>
    supervisor_inv (candidate_step (hysteresis_threshold (su_machine s)) m (stride_target (evidence rho gamma deg x))) (su_machine s') \<and>
    fusion_inv rcap (hd_ring h') \<and> fusion_contents (hd_ring h') = fusion_contents (hd_ring h) @ [stored smp] \<and>
    threat_state (stored smp) = int (current_state (su_machine s')) \<and> nulling_directives (stored smp) = aoa_flags (evidence rho gamma deg x)"
proof -
  obtain m1 where m1: "process_state (evidence rho gamma deg x) (su_machine s) = Ok m1"
    "supervisor_inv (candidate_step (hysteresis_threshold (su_machine s)) m (stride_target (evidence rho gamma deg x))) m1"
    "hysteresis_threshold m1 = hysteresis_threshold (su_machine s)"
    using process_state_refines [OF assms(4) evidence_ok [OF assms(3)]] by blast
  obtain ws s' where s': "fusion_stride x s = Ok (current_state m1, ws, s')" "su_inv w rho gamma deg (hist @ [st_taps x]) s'"
    "su_machine s' = m1" "en_flags (su_aoa s') = aoa_flags (evidence rho gamma deg x)" "weights_left rho gamma deg x ws"
    using fusion_stride_exact [OF assms(1-3) m1(1)] by blast
  let ?smp = "stride_sample bits now (current_state m1) s'"
  have lens: "length (cb_scores (su_bridge s')) = 4" "length (en_errors (su_aoa s')) = 4" "length (en_flags (su_aoa s')) = 4"
    "length (cb_channels (su_bridge s')) = 4"
    using s'(2) by (auto simp: su_inv_def bridge_holds_def enforcement_ok_def channels_hold_def)
  then have "sample_ok ?smp" by (simp add: sample_ok_def stride_sample_def Let_def)
  from fusion_push_law [OF assms(6) this] assms(7) obtain ring where ring: "fusion_push (hd_ring h) ?smp = Ok ring" "fusion_inv rcap ring"
    "fusion_contents ring = fusion_contents (hd_ring h) @ [stored ?smp]" by (auto simp: last_n_short)
  have small: "current_state m1 < 4" using m1(2) by (auto simp: supervisor_inv_def split: prod.splits)
  have same: "?smp\<lparr>threat_state := int (current_state m1)\<rparr> = ?smp" by (simp add: stride_sample_def Let_def)
  define h' where "h' = h\<lparr>hd_supervisor := m1, hd_ring := ring, total_processed_strides := total_processed_strides h + 1,
    total_critical_alerts_routed := total_critical_alerts_routed h + (if current_state m1 = 3 then 1 else 0)\<rparr>"
  have ne: "cb_channels (su_bridge s') \<noteq> []" using lens(4) by auto
  have "ingest_stride bits (x, now) (s, h) = Ok (current_state m1, ws, s', h')"
    unfolding ingest_stride_def fst_conv snd_conv s'(1) seqE_simps prod.case if_not_P [OF ne] Let_def ring(1) h'_def s'(3) ..
  moreover have "ingest_compute_stride (evidence rho gamma deg x) ?smp h = Ok (h', current_state m1)"
    unfolding ingest_compute_stride_def assms(5) m1(1) seqE_simps Let_def same ring(1) h'_def ..
  moreover have "threat_state (stored ?smp) = int (current_state m1)"
    using stored_threat [OF small, of ?smp] unfolding same .
  moreover have "nulling_directives (stored ?smp) = aoa_flags (evidence rho gamma deg x)"
    using lens(3) by (simp add: stored_def stride_sample_def Let_def s'(4) [symmetric])
  moreover have "timestamp (stored ?smp) = now" by (simp add: stored_def stride_sample_def Let_def)
  ultimately show ?thesis
    using s'(2,3,5) m1(2,3) ring(2,3)
    by (intro exI [of _ "current_state m1"] exI [of _ ws] exI [of _ s'] exI [of _ h'] exI [of _ ?smp]) (simp add: h'_def)
qed

lemma ingest_run_exact:
  assumes "0 < w" "list_all (\<lambda>x. stride_formed (fst x)) xs" "su_inv w rho gamma deg hist s" "supervisor_inv m (su_machine s)"
    "hd_supervisor h = su_machine s" "fusion_inv rcap (hd_ring h)" "length (fusion_contents (hd_ring h)) + length xs \<le> rcap"
  shows "\<exists>s' h' rs hist'. ingest_run bits xs (s, h) = Ok (s', h') \<and> hd_dispatcher h' = hd_dispatcher h \<and> fusion_inv rcap (hd_ring h') \<and>
    fusion_contents (hd_ring h') = fusion_contents (hd_ring h) @ rs \<and> length rs = length xs \<and>
    su_inv w rho gamma deg hist' s' \<and> hd_supervisor h' = su_machine s' \<and>
    hysteresis_threshold (su_machine s') = hysteresis_threshold (su_machine s) \<and>
    supervisor_inv (foldl (candidate_step (hysteresis_threshold (su_machine s))) m
      (map (\<lambda>x. stride_target (evidence rho gamma deg (fst x))) xs)) (su_machine s')"
  using assms(2-7)
proof (induction xs arbitrary: s h hist m)
  case Nil
  then show ?case by auto
next
  case (Cons xt xs)
  obtain x now where xt: "xt = (x, now)" by (cases xt)
  have x: "stride_formed x" "list_all (\<lambda>x. stride_formed (fst x)) xs" and room: "length (fusion_contents (hd_ring h)) < rcap"
    using Cons.prems(1,6) by (simp_all add: xt)
  let ?t = "stride_target (evidence rho gamma deg x)" and ?h = "hysteresis_threshold (su_machine s)"
  from ingest_stride_exact [OF assms(1) Cons.prems(2) x(1) Cons.prems(3-5) room, of bits now] obtain state ws s1 h1 and smp :: sample where
    1: "ingest_stride bits (x, now) (s, h) = Ok (state, ws, s1, h1)" "su_inv w rho gamma deg (hist @ [st_taps x]) s1"
      "hd_supervisor h1 = su_machine s1" "hd_dispatcher h1 = hd_dispatcher h" "hysteresis_threshold (su_machine s1) = ?h"
      "supervisor_inv (candidate_step ?h m ?t) (su_machine s1)" "fusion_inv rcap (hd_ring h1)"
      "fusion_contents (hd_ring h1) = fusion_contents (hd_ring h) @ [stored smp]"
    by blast
  have fits: "length (fusion_contents (hd_ring h1)) + length xs \<le> rcap" using Cons.prems(6) by (simp add: 1(8))
  from Cons.IH [OF x(2) 1(2,6,3,7) fits] obtain s' h' rs hist' where
    2: "ingest_run bits xs (s1, h1) = Ok (s', h')" "hd_dispatcher h' = hd_dispatcher h1" "fusion_inv rcap (hd_ring h')"
      "fusion_contents (hd_ring h') = fusion_contents (hd_ring h1) @ rs" "length rs = length xs" "su_inv w rho gamma deg hist' s'"
      "hd_supervisor h' = su_machine s'" "hysteresis_threshold (su_machine s') = ?h"
      "supervisor_inv (foldl (candidate_step ?h) (candidate_step ?h m ?t)
        (map (\<lambda>x. stride_target (evidence rho gamma deg (fst x))) xs)) (su_machine s')"
    unfolding 1(5) by blast
  show ?case
    using 1(1,4,8) 2 by (intro exI [of _ s'] exI [of _ h'] exI [of _ "stored smp # rs"] exI [of _ hist']) (simp add: xt)
qed

section \<open>From the antenna to the operator\<close>

lemma phase59_init_inv:
  assumes "phase59_init ppf 4 rcap qcap hi cr ids = Ok (s, h)" "0 < rcap"
  shows "su_inv 10 (su_rho s) (su_gamma s) 5 [] s" "su_machine s = fusion_supervisor_init 3" "hd_supervisor h = su_machine s"
    "fusion_inv rcap (hd_ring h)" "fusion_contents (hd_ring h) = []" "all_retained qcap [] (disp_clients (hd_dispatcher h))"
    "hd_dispatcher h = fold disp_register ids (disp_init qcap 1)"
proof -
  have s: "phase58_init ppf 4 10 3 5 = Ok s" and
    h: "h = (hd_init rcap qcap hi cr)\<lparr>hd_dispatcher := fold disp_register ids (disp_init qcap 1)\<rparr>"
    using assms(1) by (auto simp: phase59_init_def seqE_Ok_iff)
  from phase58_init_inv [OF s] show "su_inv 10 (su_rho s) (su_gamma s) 5 [] s" "su_machine s = fusion_supervisor_init 3" by simp_all
  then show "hd_supervisor h = su_machine s" by (simp add: h hd_init_def)
  show "fusion_inv rcap (hd_ring h)" "fusion_contents (hd_ring h) = []" using assms(2)
    by (simp_all add: h hd_init_def fusion_inv_init) (simp add: fusion_contents_def fusion_init_def window_def)
  show "hd_dispatcher h = fold disp_register ids (disp_init qcap 1)" by (simp add: h)
  then show "all_retained qcap [] (disp_clients (hd_dispatcher h))" by (simp add: disp_register_all_retained)
qed

lemma three_reach_mitigation: "fst (candidate_run 3 (ts @ replicate 3 3)) = 3"
proof -
  obtain cur cand n where c: "candidate_run 3 ts = (cur, cand, n)" by (cases "candidate_run 3 ts")
  have "candidate_run 3 (ts @ replicate 3 3) = foldl (candidate_step 3) (candidate_run 3 ts) (replicate (nat 3) 3)"
    by (simp add: candidate_run_def)
  then show ?thesis unfolding c using candidate_run_suffix [OF c] by (simp only:, intro candidate_reaches) auto
qed

text \<open>The channels a stride nulls, and what its record says.\<close>

definition nulled :: "supervisor58 \<Rightarrow> stride58 \<Rightarrow> nat \<Rightarrow> bool" where
  "nulled s0 x k \<longleftrightarrow> active_margin 5 (covariance_alert (su_rho s0) (su_gamma s0) x) < channel_error x k"

lemma deviating_nulled: "radians 5 < channel_error x k \<Longrightarrow> nulled s0 x k"
  using active_margin_le [of 5] by (simp add: nulled_def) (meson le_less_trans zero_less_numeral)

text \<open>
  The strides: the last of them reports state 3 and leaves weights blind to the direction of every nulled channel, and
  the last record of the ring has state 3, the nulled channels and the clock of that stride.
\<close>

lemma intrusion_ingested:
  assumes "phase59_init ppf 4 rcap qcap hi cr ids = Ok (s0, h0)" "list_all (\<lambda>x. stride_formed (fst x)) (xs @ ys)" "length ys = 3"
    "list_all (\<lambda>y. deviates 5 (fst y)) ys" "length (xs @ ys) \<le> rcap"
  shows "\<exists>s1 h1 ws s h rs. ingest_run bits (xs @ butlast ys) (s0, h0) = Ok (s1, h1) \<and> ingest_stride bits (last ys) (s1, h1) = Ok (3, ws, s, h) \<and>
    hd_dispatcher h = hd_dispatcher h0 \<and> fusion_inv rcap (hd_ring h) \<and> fusion_contents (hd_ring h) = rs \<and> length rs = length (xs @ ys) \<and>
    threat_state (last rs) = 3 \<and> nulling_directives (last rs) = map (nulled s0 (fst (last ys))) [0..<4] \<and>
    timestamp (last rs) = snd (last ys) \<and> weights_left (su_rho s0) (su_gamma s0) 5 (fst (last ys)) ws"
proof -
  have "0 < rcap" using assms(3,5) by simp
  note i = phase59_init_inv [OF assms(1) this]
  let ?ev = "\<lambda>x. evidence (su_rho s0) (su_gamma s0) 5 (fst x)" let ?t = "\<lambda>x. stride_target (?ev x)"
  define y where "y = last ys"
  have ne: "ys \<noteq> []" using assms(3) by auto
  then have split: "xs @ ys = (xs @ butlast ys) @ [y]" by (simp add: y_def)
  have formed: "list_all (\<lambda>x. stride_formed (fst x)) (xs @ butlast ys)" "stride_formed (fst y)"
    using assms(2) unfolding split by simp_all
  have m0: "supervisor_inv (0, 0, 0) (su_machine s0)" "hysteresis_threshold (su_machine s0) = 3"
    unfolding i(2) by (rule supervisor_inv_init) (simp add: fusion_supervisor_init_def)
  have fits: "length (fusion_contents (hd_ring h0)) + length (xs @ butlast ys) \<le> rcap" using assms(3,5) i(5) by simp
  from ingest_run_exact [OF _ formed(1) i(1) m0(1) i(3,4) fits, of bits] obtain s1 h1 rs hist where
    r: "ingest_run bits (xs @ butlast ys) (s0, h0) = Ok (s1, h1)" "hd_dispatcher h1 = hd_dispatcher h0" "fusion_inv rcap (hd_ring h1)"
      "fusion_contents (hd_ring h1) = rs" "length rs = length (xs @ butlast ys)" "su_inv 10 (su_rho s0) (su_gamma s0) 5 hist s1"
      "hd_supervisor h1 = su_machine s1" "hysteresis_threshold (su_machine s1) = 3"
      "supervisor_inv (candidate_run 3 (map ?t (xs @ butlast ys))) (su_machine s1)"
    unfolding m0(2) candidate_run_def i(5) append_Nil by auto
  have room: "length (fusion_contents (hd_ring h1)) < rcap" using r(4,5) assms(3,5) by simp
  from ingest_stride_exact [OF _ r(6) formed(2) r(9,7,3) room, of bits "snd y"] obtain state ws s h and smp :: sample where
    l: "ingest_stride bits y (s1, h1) = Ok (state, ws, s, h)" "hd_dispatcher h = hd_dispatcher h1"
      "state = current_state (su_machine s)" "weights_left (su_rho s0) (su_gamma s0) 5 (fst y) ws" "timestamp (stored smp) = snd y"
      "supervisor_inv (candidate_step 3 (candidate_run 3 (map ?t (xs @ butlast ys))) (?t y)) (su_machine s)"
      "fusion_inv rcap (hd_ring h)" "fusion_contents (hd_ring h) = rs @ [stored smp]"
      "threat_state (stored smp) = int (current_state (su_machine s))" "nulling_directives (stored smp) = aoa_flags (?ev y)"
    unfolding r(4,8) prod.collapse by auto
  have ys: "?t z = 3" if "z \<in> set ys" for z
    using assms(2,4) that by (auto simp: list_all_iff stride_formed_def intro!: deviating_target)
  have "map ?t ys = replicate 3 3" using assms(3) ys by (intro replicate_eqI) auto
  then have three: "fst (candidate_run 3 (map ?t (xs @ ys))) = 3" by (simp add: three_reach_mitigation)
  have "candidate_step 3 (candidate_run 3 (map ?t (xs @ butlast ys))) (?t y) = candidate_run 3 (map ?t (xs @ ys))"
    unfolding split by (simp add: candidate_run_def)
  then have state: "current_state (su_machine s) = 3" using supervisor_inv_state [OF l(6)] three by simp
  have "aoa_flags (?ev y) = map (nulled s0 (fst y)) [0..<4]" by (simp add: evidence_def Let_def nulled_def)
  moreover have "length (rs @ [stored smp]) = length (xs @ ys)" unfolding split using r(5) by simp
  ultimately show ?thesis
    using r(1,2) l state unfolding y_def [symmetric]
    by (intro exI [of _ s1] exI [of _ h1] exI [of _ ws] exI [of _ s] exI [of _ h] exI [of _ "rs @ [stored smp]"]) simp
qed

text \<open>The dispatch: the last of the records sent is the last record of the ring.\<close>

lemma dispatch_last:
  assumes "fusion_inv rcap (hd_ring h)" "all_retained qcap [] (disp_clients (hd_dispatcher h))" "0 < qcap"
    "length (fusion_contents (hd_ring h)) \<le> 128" "fusion_contents (hd_ring h) \<noteq> []"
  shows "\<exists>h' ds. dispatch_pending_telemetry num h = Ok (h', length (fusion_contents (hd_ring h))) \<and> ds \<noteq> [] \<and>
    all_retained qcap (map (record_payload num) ds) (disp_clients (hd_dispatcher h')) \<and>
    map fst (disp_clients (hd_dispatcher h')) = map fst (disp_clients (hd_dispatcher h)) \<and>
    threat_state (last ds) = threat_state (last (fusion_contents (hd_ring h))) \<and>
    nulling_directives (last ds) = nulling_directives (last (fusion_contents (hd_ring h))) \<and>
    timestamp (last ds) = timestamp (last (fusion_contents (hd_ring h)))"
proof -
  obtain h' ds where d: "dispatch_pending_telemetry num h = Ok (h', length ds)"
    "map sample.truncate ds = take 128 (fusion_contents (hd_ring h))"
    "all_retained qcap ([] @ map (record_payload num) ds) (disp_clients (hd_dispatcher h'))"
    "map fst (disp_clients (hd_dispatcher h')) = map fst (disp_clients (hd_dispatcher h))"
    using dispatch_retained [OF assms(1,2,3), of num] by blast
  have trunc: "map sample.truncate ds = fusion_contents (hd_ring h)" using d(2) assms(4) by simp
  then have len: "length ds = length (fusion_contents (hd_ring h))" by (metis length_map)
  then have ne: "ds \<noteq> []" using assms(5) by auto
  then have "last (fusion_contents (hd_ring h)) = sample.truncate (last ds)" using trunc by (metis last_map)
  then have "threat_state (last ds) = threat_state (last (fusion_contents (hd_ring h)))"
    "nulling_directives (last ds) = nulling_directives (last (fusion_contents (hd_ring h)))"
    "timestamp (last ds) = timestamp (last (fusion_contents (hd_ring h)))"
    by (simp_all add: sample.truncate_def)
  moreover have "dispatch_pending_telemetry num h = Ok (h', length (fusion_contents (hd_ring h)))" using d(1) unfolding len .
  ultimately show ?thesis using d(3,4) ne unfolding append_Nil by blast
qed

lemma newest_critical:
  assumes "json_queue.retained qcap ps q" "0 < qcap" "ps \<noteq> []" "json_critical (last ps)"
  shows "filter json_critical (queue q) \<noteq> [] \<and> last (filter json_critical (queue q)) = last ps"
proof -
  have "filter json_critical (queue q) = last_n qcap (filter json_critical ps)"
    using assms(1) unfolding json_queue.retained_def by (elim conjE)
  moreover have "filter json_critical ps = filter json_critical (butlast ps @ [last ps])" using assms(3) by simp
  ultimately show ?thesis using assms(2,4) by (simp add: last_n_snoc)
qed

text \<open>
  C4: From the antenna to the operator. Take at most 128 well-formed strides, no more than the ring holds, of which the last three
  each have some channel that points further than 5 degrees off its satellite. The last stride reports the mitigation state,
  and the weights of every channel it nulls, among them all those beyond 5 degrees, are blind to the direction measured there.
  Once the batch is dispatched, every registered client holds the record of that stride as its newest critical one:
  state 3, the clock reading of the stride, and a mark for each of the four channels that says whether it was nulled.
\<close>

theorem intrusion_reaches_operators:
  assumes "phase59_init ppf 4 rcap qcap hi cr ids = Ok (s0, h0)" "0 < qcap"
    "list_all (\<lambda>x. stride_formed (fst x)) (xs @ ys)" "length ys = 3" "list_all (\<lambda>y. deviates 5 (fst y)) ys"
    "length (xs @ ys) \<le> rcap" "length (xs @ ys) \<le> 128"
  shows "\<exists>s1 h1 ws s h h'. ingest_run bits (xs @ butlast ys) (s0, h0) = Ok (s1, h1) \<and> ingest_stride bits (last ys) (s1, h1) = Ok (3, ws, s, h) \<and>
    (let x = fst (last ys) in
      (\<forall>k < 4. (radians 5 < channel_error x k \<longrightarrow> nulled s0 x k) \<and>
        (nulled s0 x k \<longrightarrow> hdot (ws ! k) (wave_vector (st_phases x ! k)) = 0)) \<and> (\<exists>k < 4. nulled s0 x k) \<and>
      dispatch_pending_telemetry num h = Ok (h', length (xs @ ys)) \<and>
      map fst (disp_clients (hd_dispatcher h')) = map fst (disp_clients (fold disp_register ids (disp_init qcap 1))) \<and>
      list_all (\<lambda>(cid, q). filter json_critical (queue q) \<noteq> [] \<and>
        (let r = last (filter json_critical (queue q)) in r ''threat_state'' = Some (JInt 3) \<and>
          r ''timestamp'' = Some (JNum (num (snd (last ys)))) \<and>
          r ''nulling_directives'' = Some (JList (map (\<lambda>k. JBool (nulled s0 x k)) [0..<4])))) (disp_clients (hd_dispatcher h')))"
proof -
  have "0 < rcap" using assms(4,6) by simp
  note i = phase59_init_inv [OF assms(1) this]
  define x where "x = fst (last ys)"
  obtain s1 h1 ws s h rs where r: "ingest_run bits (xs @ butlast ys) (s0, h0) = Ok (s1, h1)" "ingest_stride bits (last ys) (s1, h1) = Ok (3, ws, s, h)"
    "hd_dispatcher h = hd_dispatcher h0" "fusion_inv rcap (hd_ring h)" "fusion_contents (hd_ring h) = rs" "length rs = length (xs @ ys)"
    "threat_state (last rs) = 3" "nulling_directives (last rs) = map (nulled s0 x) [0..<4]"
    "timestamp (last rs) = snd (last ys)" "weights_left (su_rho s0) (su_gamma s0) 5 x ws"
    using intrusion_ingested [OF assms(1,3,4,5,6), of bits] unfolding x_def by blast
  have rs: "length rs \<le> 128" "rs \<noteq> []" using r(6) assms(4,7) by auto
  have ret: "all_retained qcap [] (disp_clients (hd_dispatcher h))" using i(6) r(3) by simp
  obtain h' ds where d: "dispatch_pending_telemetry num h = Ok (h', length rs)" "ds \<noteq> []"
    "all_retained qcap (map (record_payload num) ds) (disp_clients (hd_dispatcher h'))"
    "map fst (disp_clients (hd_dispatcher h')) = map fst (disp_clients (hd_dispatcher h))"
    "threat_state (last ds) = 3" "nulling_directives (last ds) = nulling_directives (last rs)" "timestamp (last ds) = timestamp (last rs)"
    using dispatch_last [OF r(4) ret assms(2), of num] rs unfolding r(5) r(7) by blast
  let ?p = "record_payload num (last ds)"
  have p: "?p ''threat_state'' = Some (JInt 3)" "?p ''timestamp'' = Some (JNum (num (snd (last ys))))"
    "?p ''nulling_directives'' = Some (JList (map (\<lambda>k. JBool (nulled s0 x k)) [0..<4]))"
    by (simp_all add: record_payload_def d(5-7) r(8,9) o_def)
  have crit: "json_critical ?p" by (simp add: json_critical_def p critical_threat_state_def)
  have clients: "list_all (\<lambda>(cid, q). filter json_critical (queue q) \<noteq> [] \<and>
      (let r = last (filter json_critical (queue q)) in r ''threat_state'' = Some (JInt 3) \<and>
        r ''timestamp'' = Some (JNum (num (snd (last ys)))) \<and>
        r ''nulling_directives'' = Some (JList (map (\<lambda>k. JBool (nulled s0 x k)) [0..<4])))) (disp_clients (hd_dispatcher h'))"
    using d(2,3) crit p newest_critical [OF _ assms(2), of "map (record_payload num) ds"] by (auto simp: list_all_iff Let_def last_map)
  have "ys \<noteq> []" using assms(4) by auto
  then have "deviates 5 x" using assms(5) last_in_set [of ys] by (simp add: list_all_iff x_def)
  then have some: "\<exists>k < 4. nulled s0 x k" using deviating_nulled by (auto simp: deviates_def list_ex_iff)
  have blind: "(radians 5 < channel_error x k \<longrightarrow> nulled s0 x k) \<and>
      (nulled s0 x k \<longrightarrow> hdot (ws ! k) (wave_vector (st_phases x ! k)) = 0)" if "k < 4" for k
    using that r(10) deviating_nulled by (simp add: weights_left_def nulled_def)
  have ids: "map fst (disp_clients (hd_dispatcher h')) = map fst (disp_clients (fold disp_register ids (disp_init qcap 1)))"
    using d(4) r(3) i(7) by simp
  show ?thesis
    using r(1,2,6) d(1) clients some blind ids unfolding x_def [symmetric] Let_def
    by (intro exI [of _ s1] exI [of _ h1] exI [of _ ws] exI [of _ s] exI [of _ h] exI [of _ h']) simp
qed

theorem intrusion_reaches_operators_witness:
  "\<exists>s0 h0 s1 h1 ws s h. phase59_init (\<lambda>_ _. 51) 4 8 2 (7 / 10) (9 / 10) [''hud''] = Ok (s0, h0) \<and>
     ingest_run (\<lambda>_. 0) [(spoofed_stride, 0), (spoofed_stride, 0)] (s0, h0) = Ok (s1, h1) \<and>
     ingest_stride (\<lambda>_. 0) (spoofed_stride, 0) (s1, h1) = Ok (3, ws, s, h)"
proof -
  obtain s0 h0 where 0: "phase59_init (\<lambda>_ _. 51) 4 8 2 (7 / 10) (9 / 10) [''hud''] = Ok (s0, h0)"
    by (simp add: phase59_init_def phase58_init_def bridge_init_def enforcement_init_def glrt_init_def Let_def)
  from intrusion_reaches_operators [OF this, of "[]" "replicate 3 (spoofed_stride, 0)" "\<lambda>_. 0"] 0 show ?thesis
    by (simp add: spoofed_stride_facts list_all_iff numeral_3_eq_3) blast
qed

end
