(* ===== verification/Stride_Aligner.thy ===== *)
theory Stride_Aligner
  imports Prelude
begin

text \<open>
  \<^verbatim>\<open>cache_stride_aligner.py\<close>: aligned views into over-provisioned sample buffers, by bit masks on addresses and lengths.
  Addresses are unbounded integers as in Python; a buffer is its address and its number of elements.
\<close>

unbundle bit_operations_syntax

section \<open>The aligner\<close>

record aligner =
  al_channels :: nat
  al_cache_line :: int
  al_element :: int
  al_per_line :: int

definition aligner_init :: "nat \<Rightarrow> int \<Rightarrow> int \<Rightarrow> fault + aligner" where
  "aligner_init chans cache_line_bytes element_bytes =
     (if element_bytes = 0 then Fail ZeroDivisionError
      else Ok \<lparr>al_channels = chans, al_cache_line = cache_line_bytes, al_element = element_bytes, al_per_line = cache_line_bytes div element_bytes\<rparr>)"

text \<open>A view: the first element, the rows and the columns, the skipped bytes\<close>

record aligned_view =
  av_start :: int
  av_rows :: nat
  av_columns :: int
  av_offset :: int

definition simd_length :: "aligner \<Rightarrow> nat \<Rightarrow> int" where
  "simd_length a expected = int expected AND NOT (al_per_line a - 1)"

definition generate_aligned_view :: "aligner \<Rightarrow> bool \<Rightarrow> int \<Rightarrow> int \<Rightarrow> nat \<Rightarrow> fault + aligned_view" where
  "generate_aligned_view a complex64 physical_address elements expected =
     (if \<not> complex64 then Fail TypeError
      else let alignment_mask = al_cache_line a - 1; misalignment = physical_address AND alignment_mask;
               offset_bytes = (al_cache_line a - misalignment) AND alignment_mask;
               offset_elements = offset_bytes div al_element a;
               simd_stride_len = simd_length a expected; total_elements = int (al_channels a) * simd_stride_len
           in if elements < offset_elements + total_elements then Fail BufferError
              else Ok \<lparr>av_start = offset_elements, av_rows = al_channels a, av_columns = simd_stride_len, av_offset = offset_bytes\<rparr>)"

text \<open>The helper allocates one line more than the view needs; \<open>address\<close> is where the allocation lies.\<close>

definition preallocate_aligned_buffer :: "aligner \<Rightarrow> int \<Rightarrow> nat \<Rightarrow> fault + aligned_view" where
  "preallocate_aligned_buffer a address expected =
     (let padded_size = int (al_channels a) * simd_length a expected + al_per_line a
      in generate_aligned_view a True address padded_size expected)"

definition default_aligner :: "nat \<Rightarrow> aligner" where
  "default_aligner chans = \<lparr>al_channels = chans, al_cache_line = 64, al_element = 8, al_per_line = 8\<rparr>"

lemma default_init: "aligner_init chans 64 8 = Ok (default_aligner chans)"
  by (simp add: aligner_init_def default_aligner_def)

section \<open>The masks\<close>

lemma and_63: "(x :: int) AND 63 = x mod 64"
  using take_bit_eq_mask [of 6 x] by (simp add: take_bit_eq_mod mask_eq_exp_minus_1)

lemma and_not_7: "(x :: int) AND NOT 7 = x - x mod 8"
proof -
  have "x = (x AND 7) + (x AND NOT 7)" by (subst disjunctive_add) (auto simp: bit_eq_iff bit_simps)
  moreover have "x AND 7 = x mod 8" using take_bit_eq_mask [of 3 x] by (simp add: take_bit_eq_mod mask_eq_exp_minus_1)
  ultimately show ?thesis by linarith
qed

lemma skip_to_line: "((x :: int) + (64 - x mod 64) mod 64 + 64 * y) mod 64 = 0"
proof -
  have "(x + (64 - x mod 64) mod 64 + 64 * y) mod 64 = (x + (64 - x mod 64) mod 64) mod 64" by (rule mod_mult_self2)
  also have "\<dots> = (x + (64 - x mod 64)) mod 64" by (rule mod_add_right_eq)
  also have "x + (64 - x mod 64) = 64 * (x div 64 + 1)" by (simp add: minus_mod_eq_mult_div)
  finally show ?thesis by simp
qed

text \<open>The byte address of the first element of a row of a view\<close>

definition row_address :: "aligner \<Rightarrow> int \<Rightarrow> aligned_view \<Rightarrow> nat \<Rightarrow> int" where
  "row_address a address v r = address + (av_start v + int r * av_columns v) * al_element a"

text \<open>
  On a buffer of whole elements (an address divisible by 8) the aligner returns a view exactly when it fits into the buffer; each of its
  rows starts on a 64-byte boundary, its rows have the largest multiple of 8 samples up to the expected length, and
  less than one line is skipped; a buffer of the helper's size is never refused.
\<close>

theorem rows_are_aligned:
  assumes "address mod 8 = 0"
  shows "\<exists>v. (\<forall>elements. generate_aligned_view (default_aligner chans) True address elements expected =
        (if elements < av_start v + int (av_rows v) * av_columns v then Fail BufferError else Ok v)) \<and>
    preallocate_aligned_buffer (default_aligner chans) address expected = Ok v \<and>
    av_columns v = int (expected div 8 * 8) \<and> av_rows v = chans \<and> 0 \<le> av_start v \<and> av_offset v < 64 \<and> av_offset v = 8 * av_start v \<and>
    list_all (\<lambda>r. row_address (default_aligner chans) address v r mod 64 = 0) [0..<chans]"
proof -
  let ?off = "(64 - address mod 64) mod 64" and ?n = "int (expected div 8 * 8)"
  have cols: "simd_length (default_aligner chans) expected = ?n"
    by (simp add: simd_length_def default_aligner_def and_not_7 [simplified] zdiv_int zmod_int minus_mod_eq_div_mult [symmetric])
  from assms have "8 dvd address" by presburger
  then obtain k where k: "address = 8 * k" by auto
  have off: "?off = 8 * ((8 - k mod 8) mod 8)"
  proof -
    have "address mod 64 = 8 * (k mod 8)" unfolding k using mult_mod_right [of 8 k 8] by simp
    moreover have "(8 * (8 - k mod 8)) mod 64 = 8 * ((8 - k mod 8) mod 8)" using mult_mod_right [of 8 "8 - k mod 8" 8] by simp
    ultimately show ?thesis by simp
  qed
  have start: "?off div 8 = (8 - k mod 8) mod 8" unfolding off by simp
  have off8: "8 * (?off div 8) = ?off" by (simp only: start) (simp only: off)
  define v where "v = \<lparr>av_start = ?off div 8, av_rows = chans, av_columns = ?n, av_offset = ?off\<rparr>"
  have skip: "av_offset v = 8 * av_start v" by (simp only: v_def aligned_view.select_convs off8)
  have any: "generate_aligned_view (default_aligner chans) True address elements expected =
      (if elements < av_start v + int (av_rows v) * av_columns v then Fail BufferError else Ok v)" for elements
    unfolding generate_aligned_view_def Let_def cols by (simp add: default_aligner_def and_63 v_def)
  moreover have "av_start v < 8" by (simp add: v_def start)
  then have "preallocate_aligned_buffer (default_aligner chans) address expected = Ok v"
    unfolding preallocate_aligned_buffer_def Let_def any cols by (simp add: default_aligner_def v_def)
  moreover have "row_address (default_aligner chans) address v r mod 64 = 0" for r
  proof -
    have "row_address (default_aligner chans) address v r = address + 8 * av_start v + 8 * (int r * av_columns v)"
      by (simp add: row_address_def default_aligner_def algebra_simps)
    also have "8 * av_start v = ?off" using skip by (simp add: v_def)
    also have "8 * (int r * av_columns v) = 64 * (int r * int (expected div 8))" by (simp add: v_def)
    finally have "row_address (default_aligner chans) address v r = address + ?off + 64 * (int r * int (expected div 8))" .
    then show ?thesis by (simp only: skip_to_line)
  qed
  moreover have "av_columns v = ?n" "av_rows v = chans" "0 \<le> av_start v" "av_offset v < 64" by (simp_all add: v_def)
  ultimately show ?thesis using any skip by (intro exI [of _ v]) (simp add: list_all_iff)
qed

theorem rows_are_aligned_witness:
  "\<exists>v. preallocate_aligned_buffer (default_aligner 4) 1016 4100 = Ok v \<and> av_columns v = 4096 \<and>
     list_all (\<lambda>r. row_address (default_aligner 4) 1016 v r mod 64 = 0) [0..<4]"
  using rows_are_aligned [of 1016 4 4100] by fastforce

text \<open>
  A buffer at an address that is no multiple of the element size, as a view into foreign memory can have, is accepted although no whole
  number of elements reaches the next boundary: the returned view is not aligned.
\<close>

lemma odd_address_not_aligned:
  "\<exists>v. generate_aligned_view (default_aligner 1) True 4 100 8 = Ok v \<and> row_address (default_aligner 1) 4 v 0 mod 64 = 60"
  by (simp add: generate_aligned_view_def default_aligner_def simd_length_def row_address_def Let_def)

end
