(* ===== verification/Carrier_Flywheel.thy ===== *)
theory Carrier_Flywheel
  imports Prelude
begin

text \<open>
  \<^verbatim>\<open>carrier_lock_flywheel.py\<close>: removal of the carrier with a recursively advanced rotator, the Costas error and the
  second-order loop with its coasting mode. The separate arrays of real and imaginary parts are complex numbers; numbers are exact.
\<close>

section \<open>Carrier removal\<close>

definition sign_I :: "real \<Rightarrow> real" where
  "sign_I v = (if 0 < v then 1 else if v < 0 then - 1 else 0)"

text \<open>The rotator of the next sample, renormalised at every 256th sample\<close>

definition advance :: "nat \<Rightarrow> complex \<Rightarrow> complex \<Rightarrow> fault + complex" where
  "advance i rotator_step rotator =
     (let next_r = rotator * rotator_step
      in if i mod 256 = 0 then if cmod next_r = 0 then Fail ZeroDivisionError else Ok (next_r / complex_of_real (cmod next_r))
         else Ok next_r)"

text \<open>The loop from sample \<open>i\<close> on, over the samples that are left; it fills \<open>wiped\<close> and sums the error.\<close>

fun wipe_loop :: "complex \<Rightarrow> complex list \<Rightarrow> nat \<Rightarrow> complex \<Rightarrow> real \<Rightarrow> complex list \<Rightarrow> fault + (real \<times> complex list)" where
  "wipe_loop rotator_step [] i rotator err_sum wiped = Ok (err_sum, wiped)"
| "wipe_loop rotator_step (v # vs) i rotator err_sum wiped =
     (let part = v * rotator
      in seqE (store wiped i part) (\<lambda>wiped'. seqE (advance i rotator_step rotator) (\<lambda>rotator'.
           wipe_loop rotator_step vs (i + 1) rotator' (err_sum + sign_I (Re part) * Im part) wiped')))"

definition fast_carrier_wipeoff :: "complex list \<Rightarrow> complex list \<Rightarrow> real \<Rightarrow> real \<Rightarrow> real \<Rightarrow> fault + (real \<times> complex list)" where
  "fast_carrier_wipeoff x wiped phase_0 doppler dt =
     (let phase_step = doppler * dt
      in seqE (wipe_loop (Complex (cos (- phase_step)) (sin (- phase_step))) x 0 (Complex (cos (- phase_0)) (sin (- phase_0))) 0 wiped)
           (\<lambda>(err_sum, wiped'). if x = [] then Fail ZeroDivisionError else Ok (err_sum / real (length x), wiped')))"

section \<open>The loop\<close>

record flywheel =
  fw_dt :: real
  fw_duration :: real
  fw_alpha :: real
  fw_beta :: real
  fw_phase :: real
  fw_doppler :: real
  fw_coasting :: bool
  fw_wiped :: "complex list"

definition flywheel_init :: "nat \<Rightarrow> real \<Rightarrow> real \<Rightarrow> fault + flywheel" where
  "flywheel_init stride_length sample_rate loop_bw =
     (if sample_rate = 0 then Fail ZeroDivisionError
      else let dt = 1 / sample_rate; duration = real stride_length * dt; damping = 707 / 1000;
               w_n = loop_bw * 8 * damping / (4 * damping\<^sup>2 + 1)
           in Ok \<lparr>fw_dt = dt, fw_duration = duration, fw_alpha = 2 * damping * w_n * duration, fw_beta = (w_n * duration)\<^sup>2,
                  fw_phase = 0, fw_doppler = 0, fw_coasting = False, fw_wiped = replicate stride_length 0\<rparr>)"

definition set_coasting_mode :: "bool \<Rightarrow> flywheel \<Rightarrow> flywheel" where
  "set_coasting_mode active f = f\<lparr>fw_coasting := active\<rparr>"

text \<open>Python's \<^verbatim>\<open>%\<close> by \<open>2\<pi>\<close>\<close>

definition wrap :: "real \<Rightarrow> real" where
  "wrap p = p - 2 * pi * of_int \<lfloor>p / (2 * pi)\<rfloor>"

definition execute_tracking_stride :: "complex list \<Rightarrow> flywheel \<Rightarrow> fault + (complex list \<times> flywheel)" where
  "execute_tracking_stride x f =
     seqE (fast_carrier_wipeoff x (fw_wiped f) (fw_phase f) (fw_doppler f) (fw_dt f)) (\<lambda>(mean_err, wiped).
       let phase = (if fw_coasting f then fw_phase f else fw_phase f + fw_alpha f * mean_err);
           doppler = (if fw_coasting f then fw_doppler f else fw_doppler f + fw_beta f * mean_err)
       in Ok (wiped, f\<lparr>fw_wiped := wiped, fw_phase := wrap (phase + doppler * fw_duration f), fw_doppler := doppler\<rparr>))"

text \<open>A run collects the output of every stride.\<close>

fun track_run :: "complex list list \<Rightarrow> flywheel \<Rightarrow> fault + (complex list \<times> flywheel)" where
  "track_run [] f = Ok ([], f)"
| "track_run (x # xs) f = seqE (execute_tracking_stride x f) (\<lambda>(y, f1). seqE (track_run xs f1) (\<lambda>(ys, f2). Ok (y @ ys, f2)))"

section \<open>The rotator is the carrier\<close>

lemma rotator_cis: "Complex (cos p) (sin p) = cis p"
  by (simp add: complex_eq_iff)

lemma advance_cis: "advance i (cis s) (cis p) = Ok (cis (p + s))"
  by (simp add: advance_def Let_def cis_mult)

definition mixed :: "real \<Rightarrow> real \<Rightarrow> complex list \<Rightarrow> complex list" where
  "mixed p s x = map (\<lambda>n. x ! n * cis (- (p + real n * s))) [0..<length x]"

definition costas_error :: "complex list \<Rightarrow> real" where
  "costas_error ys = sum_list (map (\<lambda>y. sign_I (Re y) * Im y) ys)"

lemma length_mixed [simp]: "length (mixed p s x) = length x"
  by (simp add: mixed_def)

lemma mixed_Nil [simp]: "mixed p s [] = []"
  by (simp add: mixed_def)

lemma mixed_Cons: "mixed p s (v # vs) = v * cis (- p) # mixed (p + s) s vs"
  by (simp add: mixed_def map_upt_Suc algebra_simps del: upt_Suc)

lemma mixed_append: "mixed p s (xs @ ys) = mixed p s xs @ mixed (p + real (length xs) * s) s ys"
  by (induction xs arbitrary: p) (simp_all add: mixed_Cons algebra_simps)

lemma wipe_loop_eq:
  "i + length vs \<le> length wiped \<Longrightarrow> wipe_loop (cis (- s)) vs i (cis (- p)) e wiped =
     Ok (e + costas_error (mixed p s vs), take i wiped @ mixed p s vs @ drop (i + length vs) wiped)"
proof (induction vs arbitrary: i p e wiped)
  case (Cons v vs)
  let ?w = "wiped[i := v * cis (- p)]"
  have "wipe_loop (cis (- s)) (v # vs) i (cis (- p)) e wiped =
      wipe_loop (cis (- s)) vs (i + 1) (cis (- (p + s))) (e + sign_I (Re (v * cis (- p))) * Im (v * cis (- p))) ?w"
    using Cons.prems by (simp add: store_def advance_cis Let_def)
  also have "\<dots> = Ok (e + sign_I (Re (v * cis (- p))) * Im (v * cis (- p)) + costas_error (mixed (p + s) s vs),
      take (i + 1) ?w @ mixed (p + s) s vs @ drop (i + 1 + length vs) ?w)"
    using Cons.prems by (intro Cons.IH) simp
  also have "take (i + 1) ?w = take i wiped @ [v * cis (- p)]" using Cons.prems by (simp add: take_Suc_conv_app_nth)
  finally show ?case by (simp add: mixed_Cons costas_error_def)
qed (simp add: costas_error_def)

lemma wipeoff_eq:
  assumes "x \<noteq> []" "length wiped = length x"
  shows "fast_carrier_wipeoff x wiped p d dt = Ok (costas_error (mixed p (d * dt) x) / real (length x), mixed p (d * dt) x)"
  using assms wipe_loop_eq [of 0 x wiped "d * dt" p 0] unfolding fast_carrier_wipeoff_def rotator_cis Let_def by simp

lemma cis_wrap: "cis (- (wrap p + q)) = cis (- (p + q))"
proof -
  have "- (wrap p + q) = - (p + q) + 2 * pi * of_int \<lfloor>p / (2 * pi)\<rfloor>" by (simp add: wrap_def)
  moreover have "cis (2 * pi * of_int \<lfloor>p / (2 * pi)\<rfloor>) = 1" by (intro cis_multiple_2pi) simp
  ultimately show ?thesis by (simp only: cis_mult [symmetric] mult_1_right)
qed

lemma mixed_wrap: "mixed (wrap p) s x = mixed p s x"
  unfolding mixed_def cis_wrap ..

section \<open>Coasting\<close>

definition flywheel_ok :: "nat \<Rightarrow> flywheel \<Rightarrow> bool" where
  "flywheel_ok n f \<longleftrightarrow> 0 < n \<and> length (fw_wiped f) = n \<and> fw_duration f = real n * fw_dt f"

lemma init_ok: "flywheel_init n sr bw = Ok f \<Longrightarrow> 0 < n \<Longrightarrow> flywheel_ok n f"
  unfolding flywheel_init_def Let_def by (cases "sr = 0") (auto simp: flywheel_ok_def)

lemma coasting_stride:
  assumes "flywheel_ok n f" "fw_coasting f" "length x = n"
  shows "\<exists>f'. execute_tracking_stride x f = Ok (mixed (fw_phase f) (fw_doppler f * fw_dt f) x, f') \<and> flywheel_ok n f' \<and> fw_coasting f' \<and>
    fw_doppler f' = fw_doppler f \<and> fw_dt f' = fw_dt f \<and> fw_phase f' = wrap (fw_phase f + real n * (fw_doppler f * fw_dt f))"
proof -
  have ok: "x \<noteq> []" "length (fw_wiped f) = length x" and d: "fw_doppler f * fw_duration f = real n * (fw_doppler f * fw_dt f)"
    using assms by (auto simp: flywheel_ok_def)
  have "execute_tracking_stride x f = Ok (mixed (fw_phase f) (fw_doppler f * fw_dt f) x,
      f\<lparr>fw_wiped := mixed (fw_phase f) (fw_doppler f * fw_dt f) x, fw_phase := wrap (fw_phase f + real n * (fw_doppler f * fw_dt f))\<rparr>)"
    using assms(2) unfolding execute_tracking_stride_def wipeoff_eq [OF ok] seqE_simps prod.case Let_def d [symmetric] by simp
  then show ?thesis using assms by (simp add: flywheel_ok_def)
qed

text \<open>
  C31: While the loop coasts, it is an open-loop mixer: over any number of strides of the constructed length the run never fails, the
  concatenated output is the whole input stream times the one continuous carrier that starts at the current phase and Doppler, sample
  by sample and across the stride boundaries, and the Doppler is frozen, whatever the samples are.
\<close>

theorem coasting_is_open_loop:
  assumes "flywheel_ok n f" "fw_coasting f" "list_all (\<lambda>x. length x = n) xs"
  shows "\<exists>ys f'. track_run xs f = Ok (ys, f') \<and> fw_doppler f' = fw_doppler f \<and> fw_coasting f' \<and>
    ys = map (\<lambda>k. concat xs ! k * cis (- (fw_phase f + real k * (fw_doppler f * fw_dt f)))) [0..<length (concat xs)]"
proof -
  have "\<exists>f'. track_run xs f = Ok (mixed (fw_phase f) (fw_doppler f * fw_dt f) (concat xs), f') \<and> fw_doppler f' = fw_doppler f \<and> fw_coasting f'"
    using assms
  proof (induction xs arbitrary: f)
    case (Cons x xs)
    then have len: "length x = n" by simp
    obtain f1 where f1: "execute_tracking_stride x f = Ok (mixed (fw_phase f) (fw_doppler f * fw_dt f) x, f1)"
      "flywheel_ok n f1" "fw_coasting f1" "fw_doppler f1 = fw_doppler f" "fw_dt f1 = fw_dt f"
      "fw_phase f1 = wrap (fw_phase f + real n * (fw_doppler f * fw_dt f))"
      using coasting_stride [OF Cons.prems(1,2) len] by blast
    from Cons.IH [OF f1(2,3)] Cons.prems(3) obtain f2 where
      "track_run xs f1 = Ok (mixed (fw_phase f1) (fw_doppler f1 * fw_dt f1) (concat xs), f2)" "fw_doppler f2 = fw_doppler f1" "fw_coasting f2"
      by auto
    with f1 len show ?case by (simp add: mixed_append mixed_wrap)
  qed simp
  then show ?thesis by (auto simp: mixed_def)
qed

theorem coasting_is_open_loop_witness:
  "\<exists>f ys f'. flywheel_init 2 4 100 = Ok f \<and> track_run [[1, \<i>], [2, 0]] (set_coasting_mode True f) = Ok (ys, f') \<and>
     ys = map (\<lambda>k. concat [[1, \<i>], [2, 0]] ! k * cis (- (fw_phase f + real k * (fw_doppler f * fw_dt f)))) [0..<4]"
proof -
  obtain f where f: "flywheel_init 2 4 100 = Ok f" by (simp add: flywheel_init_def Let_def)
  have "flywheel_ok 2 (set_coasting_mode True f)" using init_ok [OF f] by (simp add: flywheel_ok_def set_coasting_mode_def)
  from coasting_is_open_loop [OF this, of "[[1, \<i>], [2, 0]]"] f show ?thesis by (auto simp: set_coasting_mode_def numeral_eq_Suc)
qed

section \<open>Tracking\<close>

text \<open>
  A signal that is the loop's own carrier, of any positive amplitude, is an equilibrium: the stride is mixed to its amplitude, the
  error is zero and the state advances exactly as when coasting, so that a locked loop stays locked.
\<close>

theorem lock_is_equilibrium:
  assumes "flywheel_ok n f" "0 < A" "length x = n" "list_all (\<lambda>k. x ! k = complex_of_real A * cis (fw_phase f + real k * (fw_doppler f * fw_dt f))) [0..<n]"
  shows "\<exists>f'. execute_tracking_stride x f = Ok (replicate n (complex_of_real A), f') \<and> fw_doppler f' = fw_doppler f \<and>
    fw_phase f' = wrap (fw_phase f + fw_doppler f * fw_duration f)"
proof -
  let ?s = "fw_doppler f * fw_dt f"
  have "mixed (fw_phase f) ?s x = replicate n (complex_of_real A)"
  proof (rule nth_equalityI)
    fix k assume "k < length (mixed (fw_phase f) ?s x)"
    then have k: "k < n" using assms(3) by simp
    then have "x ! k = complex_of_real A * cis (fw_phase f + real k * ?s)" using assms(4) by (simp add: list_all_iff)
    then show "mixed (fw_phase f) ?s x ! k = replicate n (complex_of_real A) ! k"
      using k assms(3) by (simp add: mixed_def mult.assoc cis_mult)
  qed (use assms(3) in simp)
  moreover have "costas_error (replicate n (complex_of_real A)) = 0" by (simp add: costas_error_def sum_list_replicate)
  moreover have "x \<noteq> []" "length (fw_wiped f) = length x" using assms(1,3) by (auto simp: flywheel_ok_def)
  ultimately show ?thesis using wipeoff_eq [of x "fw_wiped f"] by (simp add: execute_tracking_stride_def Let_def)
qed

theorem lock_is_equilibrium_witness:
  "\<exists>f f'. flywheel_init 2 4 100 = Ok f \<and> execute_tracking_stride [3, 3] f = Ok ([3, 3], f')"
proof -
  obtain f where f: "flywheel_init 2 4 100 = Ok f" "fw_phase f = 0" "fw_doppler f = 0" by (simp add: flywheel_init_def Let_def)
  from lock_is_equilibrium [OF init_ok [OF f(1)], of 3 "[3, 3]"] f show ?thesis
    by (auto simp: list_all_iff numeral_eq_Suc less_Suc_eq)
qed

end
