(* ===== verification/Kalman_Loop.thy ===== *)
theory Kalman_Loop
  imports Prelude
begin

text \<open>
  The tracking loop: the unrolled three-state filter of \<^verbatim>\<open>kalman_loop_filter.py\<close> and the fused glue of
  \<^verbatim>\<open>tracking_loop_kernels.py\<close> around it, over exact real numbers. Reads beyond an array are \<open>OutOfBounds\<close>.
\<close>

section \<open>The filter\<close>

text \<open>The columns of a row of \<^verbatim>\<open>states\<close> and of \<^verbatim>\<open>covariances\<close>\<close>

record track =
  x0 :: real
  x1 :: real
  x2 :: real

record covariance =
  P00 :: real
  P01 :: real
  P02 :: real
  P11 :: real
  P12 :: real
  P22 :: real

definition process_noise :: "real \<Rightarrow> real \<Rightarrow> covariance" where
  "process_noise T q_accel = (let T2 = T * T; T3 = T2 * T; T4 = T3 * T in
     \<lparr>P00 = q_accel * (T4 * T / 20), P01 = q_accel * (T4 / 8), P02 = q_accel * (T3 / 6),
      P11 = q_accel * (T3 / 3), P12 = q_accel * (T2 / 2), P22 = q_accel * T\<rparr>)"

definition predict_state :: "real \<Rightarrow> track \<Rightarrow> track" where
  "predict_state T x = (let T2 = T * T in \<lparr>x0 = x0 x + T * x1 x + 1 / 2 * T2 * x2 x, x1 = x1 x + T * x2 x, x2 = x2 x\<rparr>)"

definition predict_covariance :: "real \<Rightarrow> real \<Rightarrow> covariance \<Rightarrow> covariance" where
  "predict_covariance T q_accel P = (let T2 = T * T; T3 = T2 * T; T4 = T3 * T; Q = process_noise T q_accel in
     \<lparr>P00 = P00 P + 2 * T * P01 P + T2 * P02 P + T2 * P11 P + T3 * P12 P + 1 / 4 * T4 * P22 P + P00 Q,
      P01 = P01 P + T * P02 P + T * P11 P + 3 / 2 * T2 * P12 P + 1 / 2 * T3 * P22 P + P01 Q,
      P02 = P02 P + T * P12 P + 1 / 2 * T2 * P22 P + P02 Q,
      P11 = P11 P + 2 * T * P12 P + T2 * P22 P + P11 Q,
      P12 = P12 P + T * P22 P + P12 Q,
      P22 = P22 P + P22 Q\<rparr>)"

definition measurement_noise :: "real \<Rightarrow> real \<Rightarrow> real" where
  "measurement_noise base_R snr = base_R / (if snr < 1 / 1000 then 1 / 1000 else snr)"

definition clamp_gain :: "real \<Rightarrow> real \<Rightarrow> real" where
  "clamp_gain limit K = (if limit < K then limit else K)"

text \<open>The body of the loop for one target\<close>

definition update_target :: "real \<Rightarrow> real \<Rightarrow> real \<Rightarrow> real \<Rightarrow> real \<Rightarrow> real \<Rightarrow> real \<Rightarrow> real \<Rightarrow> track \<times> covariance \<Rightarrow>
    fault + (track \<times> covariance)" where
  "update_target T q_accel base_R max_alpha max_beta max_gamma z snr xP =
     (let x = predict_state T (fst xP); P = predict_covariance T q_accel (snd xP); S = P00 P + measurement_noise base_R snr
      in if S = 0 then Fail ZeroDivisionError
         else let inv_S = 1 / S; K0 = clamp_gain max_alpha (P00 P * inv_S); K1 = clamp_gain max_beta (P01 P * inv_S);
                  K2 = clamp_gain max_gamma (P02 P * inv_S); y = z - x0 x
              in Ok (\<lparr>x0 = x0 x + K0 * y, x1 = x1 x + K1 * y, x2 = x2 x + K2 * y\<rparr>,
                     \<lparr>P00 = (1 - K0) * P00 P, P01 = (1 - K0) * P01 P, P02 = (1 - K0) * P02 P,
                      P11 = P11 P - K1 * P01 P, P12 = P12 P - K1 * P02 P, P22 = P22 P - K2 * P02 P\<rparr>))"

record kalman =
  kf_T :: real
  kf_q_accel :: real
  kf_base_R :: real
  kf_max_alpha :: real
  kf_max_beta :: real
  kf_max_gamma :: real
  kf_tracks :: "(track \<times> covariance) list"

fun update_kalman_loops :: "real \<Rightarrow> real \<Rightarrow> real \<Rightarrow> real \<Rightarrow> real \<Rightarrow> real \<Rightarrow> (track \<times> covariance) list \<Rightarrow> real list \<Rightarrow> real list \<Rightarrow>
    fault + (track \<times> covariance) list" where
  "update_kalman_loops T q r a b g [] zs snrs = Ok []"
| "update_kalman_loops T q r a b g (xP # xPs) (z # zs) (snr # snrs) =
     seqE (update_target T q r a b g z snr xP) (\<lambda>xP'. seqE (update_kalman_loops T q r a b g xPs zs snrs) (\<lambda>xPs'. Ok (xP' # xPs')))"
| "update_kalman_loops T q r a b g (xP # xPs) zs snrs = Fail OutOfBounds"

definition filter_stride :: "real list \<Rightarrow> real list \<Rightarrow> kalman \<Rightarrow> fault + (track list \<times> kalman)" where
  "filter_stride errors snrs f =
     seqE (update_kalman_loops (kf_T f) (kf_q_accel f) (kf_base_R f) (kf_max_alpha f) (kf_max_beta f) (kf_max_gamma f) (kf_tracks f) errors snrs)
       (\<lambda>xPs. Ok (map fst xPs, f\<lparr>kf_tracks := xPs\<rparr>))"

definition zero_track :: track where
  "zero_track = \<lparr>x0 = 0, x1 = 0, x2 = 0\<rparr>"

definition start_covariance :: covariance where
  "start_covariance = \<lparr>P00 = 100, P01 = 0, P02 = 0, P11 = 100, P12 = 0, P22 = 100\<rparr>"

text \<open>The trial run of the constructor goes through the filter; only the states are reset after it.\<close>

definition warmup :: "kalman \<Rightarrow> fault + kalman" where
  "warmup f = seqE (filter_stride (map (\<lambda>_. 0) (kf_tracks f)) (map (\<lambda>_. 1) (kf_tracks f)) f) (\<lambda>(_, f').
     Ok (f'\<lparr>kf_tracks := map (\<lambda>(x, P). (zero_track, P)) (kf_tracks f')\<rparr>))"

definition kalman_init :: "nat \<Rightarrow> real \<Rightarrow> real \<Rightarrow> real \<Rightarrow> real \<Rightarrow> fault + kalman" where
  "kalman_init targets stride_len sample_rate q_accel base_R =
     (if sample_rate = 0 then Fail ZeroDivisionError
      else warmup \<lparr>kf_T = stride_len / sample_rate, kf_q_accel = q_accel, kf_base_R = base_R, kf_max_alpha = 8 / 10, kf_max_beta = 4 / 10,
        kf_max_gamma = 1 / 10, kf_tracks = replicate targets (zero_track, start_covariance)\<rparr>)"

section \<open>The fused glue\<close>

text \<open>Python's \<^verbatim>\<open>%\<close> of a float by a positive integer\<close>

definition float_mod :: "real \<Rightarrow> nat \<Rightarrow> fault + real" where
  "float_mod x n = (if n = 0 then Fail ZeroDivisionError else Ok (x - real n * of_int \<lfloor>x / real n\<rfloor>))"

definition sync_replica_drivers :: "nat \<Rightarrow> real \<Rightarrow> track list \<Rightarrow> fault + (real list \<times> real list)" where
  "sync_replica_drivers code_length sample_rate xs =
     seqE (mapE (\<lambda>x. seqE (float_mod (x0 x) code_length) (\<lambda>p. if sample_rate = 0 then Fail ZeroDivisionError else Ok (p, x1 x / sample_rate))) xs)
       (\<lambda>ps. Ok (map fst ps, map snd ps))"

definition discriminator :: "real \<Rightarrow> real \<Rightarrow> fault + real" where
  "discriminator ie il = (if ie + il + 1 / 10 ^ 12 = 0 then Fail ZeroDivisionError else Ok (1 / 2 * (il - ie) / (ie + il + 1 / 10 ^ 12)))"

fun discriminate :: "real \<Rightarrow> real \<Rightarrow> track list \<Rightarrow> real list \<Rightarrow> real list \<Rightarrow> fault + (real \<times> real) list" where
  "discriminate T half_T2 [] ies ils = Ok []"
| "discriminate T half_T2 (x # xs) (ie # ies) (il # ils) =
     seqE (discriminator ie il) (\<lambda>d. seqE (discriminate T half_T2 xs ies ils) (\<lambda>r.
       Ok ((d, x0 x + T * x1 x + half_T2 * x2 x + d) # r)))"
| "discriminate T half_T2 (x # xs) ies ils = Fail OutOfBounds"

definition discriminate_and_track :: "real list \<Rightarrow> real list \<Rightarrow> real list \<Rightarrow> kalman \<Rightarrow> fault + (real list \<times> kalman)" where
  "discriminate_and_track I_E I_L snrs f =
     seqE (discriminate (kf_T f) (1 / 2 * (kf_T f)\<^sup>2) (map fst (kf_tracks f)) I_E I_L) (\<lambda>r.
       seqE (filter_stride (map snd r) snrs f) (\<lambda>(_, f'). Ok (map fst r, f')))"

section \<open>The textbook filter\<close>

text \<open>Matrices and vectors of dimension 3 over indices, with the laws of the filter as textbooks state them.\<close>

type_synonym mat = "nat \<Rightarrow> nat \<Rightarrow> real"

definition mm :: "mat \<Rightarrow> mat \<Rightarrow> mat" where "mm A B = (\<lambda>i j. \<Sum>k<3. A i k * B k j)"
definition mt :: "mat \<Rightarrow> mat" where "mt A = (\<lambda>i j. A j i)"
definition mv :: "mat \<Rightarrow> (nat \<Rightarrow> real) \<Rightarrow> nat \<Rightarrow> real" where "mv A v = (\<lambda>i. \<Sum>k<3. A i k * v k)"

definition transition :: "real \<Rightarrow> mat" where
  "transition T = (\<lambda>i j. [[1, T, T\<^sup>2 / 2], [0, 1, T], [0, 0, 1]] ! i ! j)"

definition noise_matrix :: "real \<Rightarrow> real \<Rightarrow> mat" where
  "noise_matrix T q = (\<lambda>i j. q * [[T ^ 5 / 20, T ^ 4 / 8, T ^ 3 / 6], [T ^ 4 / 8, T ^ 3 / 3, T ^ 2 / 2], [T ^ 3 / 6, T ^ 2 / 2, T]] ! i ! j)"

definition cov_matrix :: "covariance \<Rightarrow> mat" where
  "cov_matrix P = (\<lambda>i j. [[P00 P, P01 P, P02 P], [P01 P, P11 P, P12 P], [P02 P, P12 P, P22 P]] ! i ! j)"

definition state_vector :: "track \<Rightarrow> nat \<Rightarrow> real" where
  "state_vector x = (\<lambda>i. [x0 x, x1 x, x2 x] ! i)"

text \<open>Prediction, gain for the observation of the first component, and the update \<open>(I - K H) P\<close>\<close>

definition predicted_matrix :: "real \<Rightarrow> real \<Rightarrow> mat \<Rightarrow> mat" where
  "predicted_matrix T q P = (\<lambda>i j. mm (mm (transition T) P) (mt (transition T)) i j + noise_matrix T q i j)"

definition optimal_gain :: "real \<Rightarrow> mat \<Rightarrow> nat \<Rightarrow> real" where
  "optimal_gain R P = (\<lambda>i. P i 0 / (P 0 0 + R))"

definition observation :: "nat \<Rightarrow> real" where
  "observation = (\<lambda>j. if j = 0 then 1 else 0)"

definition updated_matrix :: "(nat \<Rightarrow> real) \<Rightarrow> mat \<Rightarrow> mat" where
  "updated_matrix K P = mm (\<lambda>i j. (if i = j then 1 else 0) - K i * observation j) P"

definition updated_vector :: "(nat \<Rightarrow> real) \<Rightarrow> real \<Rightarrow> (nat \<Rightarrow> real) \<Rightarrow> nat \<Rightarrow> real" where
  "updated_vector K z x = (\<lambda>i. x i + K i * (z - (\<Sum>j<3. observation j * x j)))"

lemma below_3: "i < (3 :: nat) \<longleftrightarrow> i = 0 \<or> i = 1 \<or> i = 2" by auto

lemma sum_3: "(\<Sum>k<(3 :: nat). f k) = (f 0 + f 1 + f 2 :: real)"
  by (simp add: eval_nat_numeral lessThan_Suc)

lemmas matrix_eval = mm_def mt_def mv_def transition_def noise_matrix_def cov_matrix_def state_vector_def predicted_matrix_def
  optimal_gain_def observation_def updated_matrix_def updated_vector_def sum_3

lemma predicted_covariance_matrix:
  "i < 3 \<Longrightarrow> j < 3 \<Longrightarrow> cov_matrix (predict_covariance T q P) i j = predicted_matrix T q (cov_matrix P) i j"
  unfolding below_3 by (elim disjE) (simp_all add: matrix_eval predict_covariance_def process_noise_def Let_def algebra_simps power_def numeral_eq_Suc)

lemma predicted_state_vector: "i < 3 \<Longrightarrow> state_vector (predict_state T x) i = mv (transition T) (state_vector x) i"
  unfolding below_3 by (elim disjE) (simp_all add: matrix_eval predict_state_def Let_def power2_eq_square)

section \<open>Positive covariances\<close>

definition form :: "covariance \<Rightarrow> real \<Rightarrow> real \<Rightarrow> real \<Rightarrow> real" where
  "form P a b c = P00 P * a\<^sup>2 + P11 P * b\<^sup>2 + P22 P * c\<^sup>2 + 2 * P01 P * a * b + 2 * P02 P * a * c + 2 * P12 P * b * c"

definition positive :: "covariance \<Rightarrow> bool" where
  "positive P \<longleftrightarrow> (\<forall>a b c. 0 \<le> form P a b c)"

lemma form_matrix: "form P a b c = (\<Sum>i<3. \<Sum>j<3. [a, b, c] ! i * cov_matrix P i j * [a, b, c] ! j)"
  by (simp add: form_def matrix_eval power2_eq_square algebra_simps)

lemma noise_positive: assumes "0 \<le> T" "0 \<le> q" shows "positive (process_noise T q)"
  unfolding positive_def
proof (intro allI)
  fix a b c
  have "form (process_noise T q) a b c = q * T * ((c + T * b / 2 + T\<^sup>2 * a / 6)\<^sup>2 + T\<^sup>2 / 12 * ((b + T * a / 2)\<^sup>2 + T\<^sup>2 * a\<^sup>2 / 60))"
    by (simp add: form_def process_noise_def Let_def power2_eq_square field_simps)
  moreover have "0 \<le> q * T * ((c + T * b / 2 + T\<^sup>2 * a / 6)\<^sup>2 + T\<^sup>2 / 12 * ((b + T * a / 2)\<^sup>2 + T\<^sup>2 * a\<^sup>2 / 60))"
    using assms by (intro mult_nonneg_nonneg add_nonneg_nonneg) simp_all
  ultimately show "0 \<le> form (process_noise T q) a b c" by simp
qed

lemma predict_positive: assumes "positive P" "0 \<le> T" "0 \<le> q" shows "positive (predict_covariance T q P)"
  unfolding positive_def
proof (intro allI)
  fix a b c
  have "form (predict_covariance T q P) a b c = form P a (T * a + b) (T\<^sup>2 * a / 2 + T * b + c) + form (process_noise T q) a b c"
    by (simp add: form_def predict_covariance_def Let_def power2_eq_square algebra_simps)
  with assms noise_positive [OF assms(2,3)] show "0 \<le> form (predict_covariance T q P) a b c" by (simp add: positive_def)
qed

lemma update_positive:
  assumes "positive P" "0 < S" "P00 P \<le> S"
  shows "positive \<lparr>P00 = (1 - P00 P / S) * P00 P, P01 = (1 - P00 P / S) * P01 P, P02 = (1 - P00 P / S) * P02 P,
    P11 = P11 P - P01 P / S * P01 P, P12 = P12 P - P01 P / S * P02 P, P22 = P22 P - P02 P / S * P02 P\<rparr>" (is "positive ?P'")
  unfolding positive_def
proof (intro allI)
  fix a b c
  define p where "p = P00 P * a + P01 P * b + P02 P * c"
  have upd: "form ?P' a b c = form P a b c - p\<^sup>2 / S"
    using assms(2) by (simp add: form_def p_def power2_eq_square field_simps)
  have "0 \<le> form P (a - p / S) b c" using assms(1) by (simp add: positive_def)
  moreover have "form P (a - p / S) b c = form P a b c - 2 * (p\<^sup>2 / S) + P00 P / S * (p\<^sup>2 / S)"
    using assms(2) by (simp add: form_def p_def power2_eq_square field_simps)
  moreover have "P00 P / S * (p\<^sup>2 / S) \<le> 1 * (p\<^sup>2 / S)"
    using assms(2,3) by (intro mult_right_mono) simp_all
  ultimately show "0 \<le> form ?P' a b c" using upd by linarith
qed

section \<open>The unrolled kernel is the textbook filter\<close>

definition of_vector :: "(nat \<Rightarrow> real) \<Rightarrow> track" where
  "of_vector v = \<lparr>x0 = v 0, x1 = v 1, x2 = v 2\<rparr>"

definition of_matrix :: "mat \<Rightarrow> covariance" where
  "of_matrix M = \<lparr>P00 = M 0 0, P01 = M 0 1, P02 = M 0 2, P11 = M 1 1, P12 = M 1 2, P22 = M 2 2\<rparr>"

definition predicted_gain :: "real \<Rightarrow> real \<Rightarrow> real \<Rightarrow> real \<Rightarrow> covariance \<Rightarrow> nat \<Rightarrow> real" where
  "predicted_gain T q base_R snr P = optimal_gain (measurement_noise base_R snr) (predicted_matrix T q (cov_matrix P))"

definition textbook_step :: "real \<Rightarrow> real \<Rightarrow> real \<Rightarrow> real \<times> real \<Rightarrow> track \<times> covariance \<Rightarrow> track \<times> covariance" where
  "textbook_step T q base_R = (\<lambda>(z, snr) (x, P). let K = predicted_gain T q base_R snr P in
     (of_vector (updated_vector K z (mv (transition T) (state_vector x))), of_matrix (updated_matrix K (predicted_matrix T q (cov_matrix P)))))"

definition within_clamps :: "kalman \<Rightarrow> real \<Rightarrow> covariance \<Rightarrow> bool" where
  "within_clamps f snr P \<longleftrightarrow> (let K = predicted_gain (kf_T f) (kf_q_accel f) (kf_base_R f) snr P
     in K 0 \<le> kf_max_alpha f \<and> K 1 \<le> kf_max_beta f \<and> K 2 \<le> kf_max_gamma f)"

lemma measurement_noise_positive: "0 < base_R \<Longrightarrow> 0 < measurement_noise base_R snr"
  by (simp add: measurement_noise_def)

lemma positive_P00: "positive P \<Longrightarrow> 0 \<le> P00 P"
  unfolding positive_def by (drule spec [of _ 1], drule spec [of _ 0], drule spec [of _ 0]) (simp add: form_def)

lemma innovation_positive:
  assumes "positive P" "0 \<le> T" "0 \<le> q" "0 < base_R"
  shows "0 < P00 (predict_covariance T q P) + measurement_noise base_R snr"
  using positive_P00 [OF predict_positive [OF assms(1-3)]] measurement_noise_positive [OF assms(4), of snr] by linarith

lemma gain_entries:
  "predicted_gain T q base_R snr P 0 = P00 (predict_covariance T q P) / (P00 (predict_covariance T q P) + measurement_noise base_R snr)"
  "predicted_gain T q base_R snr P 1 = P01 (predict_covariance T q P) / (P00 (predict_covariance T q P) + measurement_noise base_R snr)"
  "predicted_gain T q base_R snr P 2 = P02 (predict_covariance T q P) / (P00 (predict_covariance T q P) + measurement_noise base_R snr)"
  using predicted_covariance_matrix [of 0 0 T q P] predicted_covariance_matrix [of 1 0 T q P] predicted_covariance_matrix [of 2 0 T q P]
  by (simp_all add: predicted_gain_def optimal_gain_def cov_matrix_def [of "predict_covariance T q P"])

lemma update_target_textbook:
  assumes "positive (snd xP)" "0 \<le> kf_T f" "0 \<le> kf_q_accel f" "0 < kf_base_R f" "within_clamps f snr (snd xP)"
  shows "update_target (kf_T f) (kf_q_accel f) (kf_base_R f) (kf_max_alpha f) (kf_max_beta f) (kf_max_gamma f) z snr xP =
      Ok (textbook_step (kf_T f) (kf_q_accel f) (kf_base_R f) (z, snr) xP)"
    and "positive (snd (textbook_step (kf_T f) (kf_q_accel f) (kf_base_R f) (z, snr) xP))"
proof -
  let ?T = "kf_T f" and ?q = "kf_q_accel f" and ?R = "measurement_noise (kf_base_R f) snr"
  obtain x P where xP: "xP = (x, P)" by (cases xP)
  let ?x = "predict_state ?T x" and ?P = "predict_covariance ?T ?q P"
  let ?S = "P00 ?P + ?R" and ?K = "predicted_gain ?T ?q (kf_base_R f) snr P"
  have S: "0 < ?S" using innovation_positive assms xP by auto
  have K: "?K 0 = P00 ?P / ?S" "?K 1 = P01 ?P / ?S" "?K 2 = P02 ?P / ?S" by (rule gain_entries)+
  have open_gain: "clamp_gain (kf_max_alpha f) (P00 ?P * (1 / ?S)) = P00 ?P / ?S" "clamp_gain (kf_max_beta f) (P01 ?P * (1 / ?S)) = P01 ?P / ?S"
    "clamp_gain (kf_max_gamma f) (P02 ?P * (1 / ?S)) = P02 ?P / ?S"
    using assms(5) K by (simp_all add: within_clamps_def clamp_gain_def xP Let_def)
  have pre: "predicted_matrix ?T ?q (cov_matrix P) i j = cov_matrix ?P i j" if "i < 3" "j < 3" for i j
    using predicted_covariance_matrix [OF that] by simp
  have vec: "mv (transition ?T) (state_vector x) i = state_vector ?x i" if "i < 3" for i using predicted_state_vector [OF that] by simp
  have upd: "updated_matrix ?K (predicted_matrix ?T ?q (cov_matrix P)) i j = updated_matrix ?K (cov_matrix ?P) i j" if "i < 3" "j < 3" for i j
    using that pre by (simp add: updated_matrix_def mm_def sum_3)
  define P' where "P' = \<lparr>P00 = (1 - P00 ?P / ?S) * P00 ?P, P01 = (1 - P00 ?P / ?S) * P01 ?P, P02 = (1 - P00 ?P / ?S) * P02 ?P,
    P11 = P11 ?P - P01 ?P / ?S * P01 ?P, P12 = P12 ?P - P01 ?P / ?S * P02 ?P, P22 = P22 ?P - P02 ?P / ?S * P02 ?P\<rparr>"
  have m: "of_matrix (updated_matrix ?K (predicted_matrix ?T ?q (cov_matrix P))) = P'"
    by (simp add: of_matrix_def upd P'_def, simp add: updated_matrix_def mm_def sum_3 observation_def cov_matrix_def K K(2) [unfolded One_nat_def] algebra_simps)
  have v: "of_vector (updated_vector ?K z (mv (transition ?T) (state_vector x))) =
      \<lparr>x0 = x0 ?x + P00 ?P / ?S * (z - x0 ?x), x1 = x1 ?x + P01 ?P / ?S * (z - x0 ?x), x2 = x2 ?x + P02 ?P / ?S * (z - x0 ?x)\<rparr>"
    by (simp add: of_vector_def updated_vector_def sum_3 observation_def vec K K(2) [unfolded One_nat_def], simp add: state_vector_def)
  have step: "textbook_step ?T ?q (kf_base_R f) (z, snr) xP =
      (\<lparr>x0 = x0 ?x + P00 ?P / ?S * (z - x0 ?x), x1 = x1 ?x + P01 ?P / ?S * (z - x0 ?x), x2 = x2 ?x + P02 ?P / ?S * (z - x0 ?x)\<rparr>, P')"
    by (simp add: textbook_step_def xP Let_def m v)
  show "update_target ?T ?q (kf_base_R f) (kf_max_alpha f) (kf_max_beta f) (kf_max_gamma f) z snr xP = Ok (textbook_step ?T ?q (kf_base_R f) (z, snr) xP)"
    using S unfolding step unfolding update_target_def Let_def xP fst_conv snd_conv open_gain by (simp add: P'_def)
  have "positive P'"
    unfolding P'_def using assms xP S predict_positive measurement_noise_positive [OF assms(4), of snr]
    by (intro update_positive) (auto intro: less_imp_le)
  then show "positive (snd (textbook_step ?T ?q (kf_base_R f) (z, snr) xP))" by (simp add: step)
qed

text \<open>A run of strides, and the textbook run of one target over its own measurements\<close>

fun filter_run :: "(real list \<times> real list) list \<Rightarrow> kalman \<Rightarrow> fault + kalman" where
  "filter_run [] f = Ok f"
| "filter_run ((zs, snrs) # ss) f = seqE (filter_stride zs snrs f) (\<lambda>(_, f'). filter_run ss f')"

definition of_target :: "nat \<Rightarrow> (real list \<times> real list) list \<Rightarrow> (real \<times> real) list" where
  "of_target m ss = map (\<lambda>(zs, snrs). (zs ! m, snrs ! m)) ss"

fun stays_open :: "kalman \<Rightarrow> (real \<times> real) list \<Rightarrow> track \<times> covariance \<Rightarrow> bool" where
  "stays_open f [] xP = True"
| "stays_open f ((z, snr) # ms) xP = (within_clamps f snr (snd xP) \<and>
     stays_open f ms (textbook_step (kf_T f) (kf_q_accel f) (kf_base_R f) (z, snr) xP))"

definition well_posed :: "kalman \<Rightarrow> bool" where
  "well_posed f \<longleftrightarrow> 0 \<le> kf_T f \<and> 0 \<le> kf_q_accel f \<and> 0 < kf_base_R f"

lemma loops_textbook:
  assumes "well_posed f" "length zs = length xPs" "length snrs = length xPs"
    "\<And>m. m < length xPs \<Longrightarrow> positive (snd (xPs ! m)) \<and> within_clamps f (snrs ! m) (snd (xPs ! m))"
  shows "update_kalman_loops (kf_T f) (kf_q_accel f) (kf_base_R f) (kf_max_alpha f) (kf_max_beta f) (kf_max_gamma f) xPs zs snrs =
    Ok (map (\<lambda>m. textbook_step (kf_T f) (kf_q_accel f) (kf_base_R f) (zs ! m, snrs ! m) (xPs ! m)) [0..<length xPs])"
  using assms(2-4)
proof (induction xPs arbitrary: zs snrs)
  case (Cons xP xPs)
  then obtain z zs' snr snrs' where l: "zs = z # zs'" "snrs = snr # snrs'" by (cases zs; cases snrs) auto
  have "positive (snd xP) \<and> within_clamps f snr (snd xP)" using Cons.prems(3) [of 0] by (simp add: l)
  with assms(1) have 1: "update_target (kf_T f) (kf_q_accel f) (kf_base_R f) (kf_max_alpha f) (kf_max_beta f) (kf_max_gamma f) z snr xP =
      Ok (textbook_step (kf_T f) (kf_q_accel f) (kf_base_R f) (z, snr) xP)"
    by (intro update_target_textbook(1)) (simp_all add: well_posed_def)
  have 2: "update_kalman_loops (kf_T f) (kf_q_accel f) (kf_base_R f) (kf_max_alpha f) (kf_max_beta f) (kf_max_gamma f) xPs zs' snrs' =
      Ok (map (\<lambda>m. textbook_step (kf_T f) (kf_q_accel f) (kf_base_R f) (zs' ! m, snrs' ! m) (xPs ! m)) [0..<length xPs])"
  proof (rule Cons.IH)
    fix m assume "m < length xPs"
    then show "positive (snd (xPs ! m)) \<and> within_clamps f (snrs' ! m) (snd (xPs ! m))" using Cons.prems(3) [of "Suc m"] by (simp add: l)
  qed (use Cons.prems l in auto)
  show ?case by (simp add: l 1 2 map_upt_Suc del: upt_Suc)
qed simp

text \<open>
  C30: The unrolled kernel is the textbook Kalman filter: for any number of targets and strides, as long as no gain reaches its
  clamp, the run succeeds and every target ends with the state and covariance of the matrix filter
  (prediction \<open>F P F\<^sup>T + Q\<close>, optimal gain, update \<open>(I - K H) P\<close>) over its own measurements, and a covariance that is
  positive semidefinite at the start stays so.
\<close>

theorem kalman_textbook:
  assumes "well_posed f" "list_all (\<lambda>xP. positive (snd xP)) (kf_tracks f)"
    "list_all (\<lambda>(zs, snrs). length zs = length (kf_tracks f) \<and> length snrs = length (kf_tracks f)) ss"
    "\<And>m. m < length (kf_tracks f) \<Longrightarrow> stays_open f (of_target m ss) (kf_tracks f ! m)"
  shows "\<exists>f'. filter_run ss f = Ok f' \<and> list_all (\<lambda>xP. positive (snd xP)) (kf_tracks f') \<and>
    kf_tracks f' = map (\<lambda>m. fold (textbook_step (kf_T f) (kf_q_accel f) (kf_base_R f)) (of_target m ss) (kf_tracks f ! m)) [0..<length (kf_tracks f)]"
  using assms
proof (induction ss arbitrary: f)
  case Nil
  then show ?case by (simp add: of_target_def map_nth)
next
  case (Cons s ss)
  obtain zs snrs where s: "s = (zs, snrs)" by (cases s)
  let ?n = "length (kf_tracks f)" and ?step = "textbook_step (kf_T f) (kf_q_accel f) (kf_base_R f)"
  define new where "new = map (\<lambda>m. ?step (zs ! m, snrs ! m) (kf_tracks f ! m)) [0..<?n]"
  have each: "positive (snd (kf_tracks f ! m)) \<and> within_clamps f (snrs ! m) (snd (kf_tracks f ! m)) \<and>
      stays_open f (of_target m ss) (new ! m)" if "m < ?n" for m
    using that Cons.prems(2) Cons.prems(4) [OF that] by (simp add: list_all_length of_target_def s new_def)
  have len: "length zs = ?n" "length snrs = ?n" using Cons.prems(3) by (simp_all add: s)
  have "update_kalman_loops (kf_T f) (kf_q_accel f) (kf_base_R f) (kf_max_alpha f) (kf_max_beta f) (kf_max_gamma f) (kf_tracks f) zs snrs = Ok new"
    unfolding new_def using each len by (intro loops_textbook [OF Cons.prems(1)]) simp_all
  then have stride: "filter_stride zs snrs f = Ok (map fst new, f\<lparr>kf_tracks := new\<rparr>)" by (simp add: filter_stride_def)
  have "positive (snd (new ! m))" if "m < ?n" for m
    using that each [OF that] Cons.prems(1) by (simp add: new_def well_posed_def update_target_textbook(2))
  then have pos: "list_all (\<lambda>xP. positive (snd xP)) new" by (simp add: list_all_length new_def)
  have open': "stays_open (f\<lparr>kf_tracks := new\<rparr>) ms xP = stays_open f ms xP" for ms xP
    by (induction f ms xP rule: stays_open.induct) (simp_all add: within_clamps_def)
  have "\<exists>f'. filter_run ss (f\<lparr>kf_tracks := new\<rparr>) = Ok f' \<and> list_all (\<lambda>xP. positive (snd xP)) (kf_tracks f') \<and>
      kf_tracks f' = map (\<lambda>m. fold ?step (of_target m ss) (new ! m)) [0..<?n]"
    using Cons.IH [of "f\<lparr>kf_tracks := new\<rparr>"] Cons.prems(1,3) pos each open' by (simp add: well_posed_def new_def)
  then show ?case by (auto simp: s stride of_target_def new_def)
qed

definition small_filter :: kalman where
  "small_filter = \<lparr>kf_T = 1, kf_q_accel = 0, kf_base_R = 1, kf_max_alpha = 8 / 10, kf_max_beta = 4 / 10, kf_max_gamma = 1 / 10,
     kf_tracks = [(zero_track, \<lparr>P00 = 1, P01 = 0, P02 = 0, P11 = 0, P12 = 0, P22 = 0\<rparr>)]\<rparr>"

theorem kalman_textbook_witness:
  "\<exists>f'. filter_run [([3], [1])] small_filter = Ok f' \<and> list_all (\<lambda>xP. positive (snd xP)) (kf_tracks f')"
proof -
  have "\<exists>f'. filter_run [([3], [1])] small_filter = Ok f' \<and> list_all (\<lambda>xP. positive (snd xP)) (kf_tracks f') \<and>
    kf_tracks f' = map (\<lambda>m. fold (textbook_step (kf_T small_filter) (kf_q_accel small_filter) (kf_base_R small_filter))
      (of_target m [([3], [1])]) (kf_tracks small_filter ! m)) [0..<length (kf_tracks small_filter)]"
  proof (rule kalman_textbook)
    fix m assume "m < length (kf_tracks small_filter)"
    then have "m = 0" by (simp add: small_filter_def)
    then show "stays_open small_filter (of_target m [([3], [1])]) (kf_tracks small_filter ! m)"
      by (simp add: of_target_def within_clamps_def Let_def gain_entries gain_entries(2) [unfolded One_nat_def]
          predict_covariance_def process_noise_def measurement_noise_def small_filter_def)
  qed (simp_all add: well_posed_def small_filter_def positive_def form_def)
  then show ?thesis by blast
qed

section \<open>The closed loop\<close>

lemma discriminator_bound:
  assumes "0 \<le> ie" "0 \<le> il"
  shows "\<exists>d. discriminator ie il = Ok d \<and> \<bar>d\<bar> \<le> 1 / 2"
proof -
  let ?d = "1 / 2 * (il - ie) / (ie + il + 1 / 10 ^ 12)"
  have "\<bar>il - ie\<bar> \<le> ie + il + 1 / 10 ^ 12" "0 < ie + il + 1 / 10 ^ 12" using assms by (simp_all add: abs_le_iff)
  then have "\<bar>il - ie\<bar> / (ie + il + 1 / 10 ^ 12) \<le> 1" by (simp only: divide_le_eq_1_pos)
  moreover have "\<bar>?d\<bar> = 1 / 2 * (\<bar>il - ie\<bar> / (ie + il + 1 / 10 ^ 12))"
    using \<open>0 < ie + il + 1 / 10 ^ 12\<close> by (simp only: abs_mult abs_divide abs_of_pos)
  ultimately have "\<bar>?d\<bar> \<le> 1 / 2" by linarith
  moreover have "discriminator ie il = Ok ?d" using assms unfolding discriminator_def by (subst if_not_P) simp_all
  ultimately show ?thesis by blast
qed

definition predicted_phase :: "kalman \<Rightarrow> track \<Rightarrow> real" where
  "predicted_phase f x = x0 (predict_state (kf_T f) x)"

lemma discriminate_ok:
  assumes "length ies = length xs" "length ils = length xs" "list_all (\<lambda>v. 0 \<le> v) ies" "list_all (\<lambda>v. 0 \<le> v) ils"
  shows "\<exists>r. discriminate (kf_T f) (1 / 2 * (kf_T f)\<^sup>2) xs ies ils = Ok r \<and> length r = length xs \<and>
    (\<forall>m < length xs. \<bar>fst (r ! m)\<bar> \<le> 1 / 2 \<and> snd (r ! m) = predicted_phase f (xs ! m) + fst (r ! m))"
  using assms
proof (induction xs arbitrary: ies ils)
  case (Cons x xs)
  then obtain ie ies' il ils' where l: "ies = ie # ies'" "ils = il # ils'" by (cases ies; cases ils) auto
  obtain d where d: "discriminator ie il = Ok d" "\<bar>d\<bar> \<le> 1 / 2" using discriminator_bound [of ie il] Cons.prems(3,4) l by auto
  obtain r where r: "discriminate (kf_T f) (1 / 2 * (kf_T f)\<^sup>2) xs ies' ils' = Ok r" "length r = length xs"
    "\<And>m. m < length xs \<Longrightarrow> \<bar>fst (r ! m)\<bar> \<le> 1 / 2 \<and> snd (r ! m) = predicted_phase f (xs ! m) + fst (r ! m)"
    using Cons.IH [of ies' ils'] Cons.prems l by auto
  let ?h = "(d, x0 x + kf_T f * x1 x + 1 / 2 * (kf_T f)\<^sup>2 * x2 x + d)"
  have "\<bar>fst ((?h # r) ! m)\<bar> \<le> 1 / 2 \<and> snd ((?h # r) ! m) = predicted_phase f ((x # xs) ! m) + fst ((?h # r) ! m)"
    if "m < length (x # xs)" for m
    using that d(2) r(3) by (cases m) (simp_all add: predicted_phase_def predict_state_def Let_def power2_eq_square)
  then show ?case using d(1) r(1,2) by (intro exI [of _ "?h # r"]) (simp add: l)
qed simp

lemma loops_each:
  assumes "well_posed f" "0 \<le> kf_max_alpha f" "length zs = length xPs" "length snrs = length xPs" "list_all (\<lambda>xP. positive (snd xP)) xPs"
  shows "\<exists>new. update_kalman_loops (kf_T f) (kf_q_accel f) (kf_base_R f) (kf_max_alpha f) (kf_max_beta f) (kf_max_gamma f) xPs zs snrs = Ok new \<and>
    length new = length xPs \<and> (\<forall>m < length xPs. \<exists>K. 0 \<le> K \<and> K \<le> kf_max_alpha f \<and> K \<le> 1 \<and>
      x0 (fst (new ! m)) = predicted_phase f (fst (xPs ! m)) + K * (zs ! m - predicted_phase f (fst (xPs ! m))))"
  using assms(3-5)
proof (induction xPs arbitrary: zs snrs)
  case (Cons xP xPs)
  then obtain z zs' snr snrs' where l: "zs = z # zs'" "snrs = snr # snrs'" by (cases zs; cases snrs) auto
  from Cons.IH [of zs' snrs'] Cons.prems l obtain new where new:
    "update_kalman_loops (kf_T f) (kf_q_accel f) (kf_base_R f) (kf_max_alpha f) (kf_max_beta f) (kf_max_gamma f) xPs zs' snrs' = Ok new"
    "length new = length xPs"
    "\<And>m. m < length xPs \<Longrightarrow> \<exists>K. 0 \<le> K \<and> K \<le> kf_max_alpha f \<and> K \<le> 1 \<and>
      x0 (fst (new ! m)) = predicted_phase f (fst (xPs ! m)) + K * (zs' ! m - predicted_phase f (fst (xPs ! m)))" by auto
  let ?P = "predict_covariance (kf_T f) (kf_q_accel f) (snd xP)" and ?R = "measurement_noise (kf_base_R f) snr"
  let ?K = "clamp_gain (kf_max_alpha f) (P00 ?P * (1 / (P00 ?P + ?R)))"
  have pos: "positive (snd xP)" using Cons.prems(3) by simp
  then have S: "0 < P00 ?P + ?R" "0 \<le> P00 ?P" "0 < ?R"
    using assms(1) innovation_positive measurement_noise_positive positive_P00 [OF predict_positive] by (simp_all add: well_posed_def)
  obtain xP' where u: "update_target (kf_T f) (kf_q_accel f) (kf_base_R f) (kf_max_alpha f) (kf_max_beta f) (kf_max_gamma f) z snr xP = Ok xP'"
    and x': "x0 (fst xP') = predicted_phase f (fst xP) + ?K * (z - predicted_phase f (fst xP))"
    using S(1) by (simp add: update_target_def Let_def predicted_phase_def)
  have gain: "0 \<le> P00 ?P * (1 / (P00 ?P + ?R))" "P00 ?P * (1 / (P00 ?P + ?R)) \<le> 1" using S by (simp_all add: field_simps)
  then have K: "0 \<le> ?K" "?K \<le> kf_max_alpha f" "?K \<le> 1" using assms(2) unfolding clamp_gain_def by (simp_all split: if_split)
  have "\<exists>K. 0 \<le> K \<and> K \<le> kf_max_alpha f \<and> K \<le> 1 \<and> x0 (fst ((xP' # new) ! m)) =
      predicted_phase f (fst ((xP # xPs) ! m)) + K * (zs ! m - predicted_phase f (fst ((xP # xPs) ! m)))" if "m < length (xP # xPs)" for m
  proof (cases m)
    case 0
    with K x' l show ?thesis by (intro exI [of _ ?K]) simp
  next
    case (Suc k)
    with that new(3) [of k] l show ?thesis by simp
  qed
  with u new(1,2) show ?case by (intro exI [of _ "xP' # new"]) (simp add: l)
qed simp

text \<open>
  One closed-loop step of the fused glue, from correlation magnitudes and positive covariances, never fails; the reported
  discriminator errors lie in half a chip, and every phase moves from its prediction by a fraction of its own error, at most the
  clamp: no step pulls a phase by more than half the clamp, whatever the correlators report.
\<close>

theorem tracking_correction_bounded:
  assumes "well_posed f" "0 \<le> kf_max_alpha f" "list_all (\<lambda>xP. positive (snd xP)) (kf_tracks f)"
    "length I_E = length (kf_tracks f)" "length I_L = length (kf_tracks f)" "length snrs = length (kf_tracks f)"
    "list_all (\<lambda>v. 0 \<le> v) I_E" "list_all (\<lambda>v. 0 \<le> v) I_L"
  shows "\<exists>ds f'. discriminate_and_track I_E I_L snrs f = Ok (ds, f') \<and> length ds = length (kf_tracks f) \<and>
    (\<forall>m < length (kf_tracks f). \<bar>ds ! m\<bar> \<le> 1 / 2 \<and>
      (\<exists>K. 0 \<le> K \<and> K \<le> kf_max_alpha f \<and> x0 (fst (kf_tracks f' ! m)) = predicted_phase f (fst (kf_tracks f ! m)) + K * ds ! m) \<and>
      \<bar>x0 (fst (kf_tracks f' ! m)) - predicted_phase f (fst (kf_tracks f ! m))\<bar> \<le> kf_max_alpha f / 2)"
proof -
  let ?n = "length (kf_tracks f)"
  obtain r where r: "discriminate (kf_T f) (1 / 2 * (kf_T f)\<^sup>2) (map fst (kf_tracks f)) I_E I_L = Ok r" "length r = ?n"
    "\<And>m. m < ?n \<Longrightarrow> \<bar>fst (r ! m)\<bar> \<le> 1 / 2 \<and> snd (r ! m) = predicted_phase f (fst (kf_tracks f ! m)) + fst (r ! m)"
    using discriminate_ok [of I_E "map fst (kf_tracks f)" I_L f] assms(4,5,7,8) by auto
  obtain new where new: "update_kalman_loops (kf_T f) (kf_q_accel f) (kf_base_R f) (kf_max_alpha f) (kf_max_beta f) (kf_max_gamma f) (kf_tracks f) (map snd r) snrs = Ok new"
    "\<And>m. m < ?n \<Longrightarrow> \<exists>K. 0 \<le> K \<and> K \<le> kf_max_alpha f \<and> K \<le> 1 \<and>
      x0 (fst (new ! m)) = predicted_phase f (fst (kf_tracks f ! m)) + K * (map snd r ! m - predicted_phase f (fst (kf_tracks f ! m)))"
    using loops_each [OF assms(1,2), of "map snd r" "kf_tracks f" snrs] assms(3,6) r(2) by auto
  have run: "discriminate_and_track I_E I_L snrs f = Ok (map fst r, f\<lparr>kf_tracks := new\<rparr>)"
    unfolding discriminate_and_track_def r(1) seqE_simps filter_stride_def new(1) by simp
  have "\<bar>map fst r ! m\<bar> \<le> 1 / 2 \<and>
      (\<exists>K. 0 \<le> K \<and> K \<le> kf_max_alpha f \<and> x0 (fst (new ! m)) = predicted_phase f (fst (kf_tracks f ! m)) + K * map fst r ! m) \<and>
      \<bar>x0 (fst (new ! m)) - predicted_phase f (fst (kf_tracks f ! m))\<bar> \<le> kf_max_alpha f / 2" if m: "m < ?n" for m
  proof -
    obtain K where K: "0 \<le> K" "K \<le> kf_max_alpha f" "x0 (fst (new ! m)) = predicted_phase f (fst (kf_tracks f ! m)) + K * fst (r ! m)"
      using new(2) [OF m] r(2,3) m by auto
    have "\<bar>K * fst (r ! m)\<bar> \<le> kf_max_alpha f * (1 / 2)"
      unfolding abs_mult using K(1,2) r(3) [OF m] by (intro mult_mono) simp_all
    with K r(2,3) m show ?thesis by auto
  qed
  with run r(2) show ?thesis by force
qed

theorem tracking_correction_bounded_witness:
  "\<exists>ds f'. discriminate_and_track [1] [2] [10] small_filter = Ok (ds, f') \<and> \<bar>x0 (fst (kf_tracks f' ! 0))\<bar> \<le> 4 / 10"
proof -
  have "\<exists>ds f'. discriminate_and_track [1] [2] [10] small_filter = Ok (ds, f') \<and> length ds = length (kf_tracks small_filter) \<and>
    (\<forall>m < length (kf_tracks small_filter). \<bar>ds ! m\<bar> \<le> 1 / 2 \<and>
      (\<exists>K. 0 \<le> K \<and> K \<le> kf_max_alpha small_filter \<and>
        x0 (fst (kf_tracks f' ! m)) = predicted_phase small_filter (fst (kf_tracks small_filter ! m)) + K * ds ! m) \<and>
      \<bar>x0 (fst (kf_tracks f' ! m)) - predicted_phase small_filter (fst (kf_tracks small_filter ! m))\<bar> \<le> kf_max_alpha small_filter / 2)"
    by (rule tracking_correction_bounded) (simp_all add: well_posed_def small_filter_def positive_def form_def)
  then show ?thesis by (auto simp: small_filter_def predicted_phase_def predict_state_def zero_track_def Let_def)
qed

section \<open>Two departures from the documented filter\<close>

text \<open>
  The clamp on the phase gain alone turns a positive covariance into one with a negative quadratic form: the update is
  not "Joseph-form equivalent" once a clamp acts.
\<close>

lemma clamped_update_not_positive:
  "\<exists>P xP'. positive P \<and> update_target (1 / 10) 0 (1 / 10) (8 / 10) (4 / 10) (1 / 10) 0 1 (zero_track, P) = Ok xP' \<and> \<not> positive (snd xP')"
proof -
  let ?P = "\<lparr>P00 = (956 / 1000)\<^sup>2, P01 = 956 / 1000 * (44 / 100), P02 = 0, P11 = (44 / 100)\<^sup>2, P12 = 0, P22 = 0\<rparr>"
  have "positive ?P"
    unfolding positive_def
  proof (intro allI)
    fix a b c :: real
    have "form ?P a b c = (956 / 1000 * a + 44 / 100 * b)\<^sup>2" by (simp add: form_def power2_eq_square field_simps)
    then show "0 \<le> form ?P a b c" by simp
  qed
  moreover obtain xP' where u: "update_target (1 / 10) 0 (1 / 10) (8 / 10) (4 / 10) (1 / 10) 0 1 (zero_track, ?P) = Ok xP'"
    and f: "form (snd xP') (- 44 / 100) 1 0 < 0"
    by (simp add: update_target_def predict_covariance_def process_noise_def predict_state_def measurement_noise_def clamp_gain_def
        form_def zero_track_def Let_def power2_eq_square)
  ultimately show ?thesis unfolding positive_def by (meson not_less)
qed

text \<open>The trial run of the constructor uses up the initial uncertainty: a new filter starts with a phase variance near 20, not 100.\<close>

lemma first_covariance: "\<exists>f. kalman_init 1 4096 4000000 1 (1 / 10) = Ok f \<and> map (\<lambda>xP. fst xP) (kf_tracks f) = [zero_track] \<and>
    P00 (snd (kf_tracks f ! 0)) < 21"
  by (simp add: kalman_init_def warmup_def filter_stride_def update_target_def predict_covariance_def process_noise_def predict_state_def
      measurement_noise_def clamp_gain_def zero_track_def start_covariance_def Let_def)

end
