(* ===== verification/File_Player.thy ===== *)
theory File_Player
  imports Binary_Codec "HOL-Library.Sublist"
begin

text \<open>
  \<^verbatim>\<open>binary_file_player.py\<close>: reading a capture in chunks, raw or from an array file, and streaming it into the
  buffer pool and the iq_block queue of the spatial harness (\<^verbatim>\<open>spatial_hardware_harness.py\<close>), whose workers take
  blocks by reference and read them later. Readings of the clock are a sequence; what the workers do between the steps of the player is a list of
  events. \<open>f32\<close> is the number a single-precision pattern stands for, \<open>host_little\<close> the byte order of the host.
\<close>

section \<open>The player\<close>

datatype sample_type = Float32 | Int16
datatype byte_order = Little | Big | Native

type_synonym iq_block = "complex list list"

text \<open>An array file: its shape, and its entries when it has two dimensions\<close>

record npy_array =
  npy_shape :: "nat list"
  npy_rows :: iq_block

record player =
  bp_file :: string
  bp_rate :: real
  bp_channels :: nat
  bp_type :: sample_type
  bp_order :: byte_order
  bp_chunk :: nat
  bp_running :: bool
  bp_duration :: real
  bp_is_npy :: bool
  bp_npy :: "npy_array option"
  bp_transpose :: bool
  bp_total_samples :: nat
  bp_npy_index :: nat
  bp_raw :: "byte list"
  bp_flat :: "real list"
  bp_complex :: iq_block
  bp_total_bytes :: nat

definition lower_char :: "char \<Rightarrow> char" where
  "lower_char c = (let n = of_char c :: nat in if 65 \<le> n \<and> n \<le> 90 then char_of (n + 32) else c)"

definition parse_type :: "string \<Rightarrow> fault + sample_type" where
  "parse_type s = (let l = map lower_char s
     in if l = ''float32'' then Ok Float32 else if l = ''int16'' then Ok Int16 else Fail ValueError)"

definition parse_order :: "string \<Rightarrow> fault + byte_order" where
  "parse_order s = (let l = map lower_char s
     in if l = ''little'' then Ok Little else if l = ''big'' then Ok Big else if l = ''native'' then Ok Native
        else Fail ValueError)"

definition bytes_per_sample :: "sample_type \<Rightarrow> nat" where
  "bytes_per_sample t = (if t = Int16 then 4 else 8)"

definition bytes_per_chunk :: "player \<Rightarrow> nat" where
  "bytes_per_chunk p = bp_chunk p * bp_channels p * bytes_per_sample (bp_type p)"

text \<open>The orientation of an array file: whether to transpose, and the number of samples\<close>

definition npy_layout :: "nat \<Rightarrow> npy_array \<Rightarrow> fault + (bool \<times> nat)" where
  "npy_layout chans a = (case npy_shape a of
       [r, c] \<Rightarrow> if r = chans then Ok (False, c) else if c = chans then Ok (True, r) else Fail ValueError
     | _ \<Rightarrow> Fail ValueError)"

definition zero_block :: "nat \<Rightarrow> nat \<Rightarrow> iq_block" where
  "zero_block chans n = replicate chans (replicate n 0)"

definition player_init :: "string \<Rightarrow> real \<Rightarrow> nat \<Rightarrow> string \<Rightarrow> string \<Rightarrow> nat \<Rightarrow> npy_array option \<Rightarrow> fault + player" where
  "player_init path rate chans typ order chunk on_disk =
     seqE (parse_type typ) (\<lambda>t. seqE (parse_order order) (\<lambda>e.
       if rate = 0 then Fail ZeroDivisionError
       else let npy = suffix ''.npy'' path; n = chunk * chans * bytes_per_sample t;
                p = \<lparr>bp_file = path, bp_rate = rate, bp_channels = chans, bp_type = t, bp_order = e, bp_chunk = chunk,
                     bp_running = False, bp_duration = real chunk / rate, bp_is_npy = npy, bp_npy = None,
                     bp_transpose = False, bp_total_samples = 0, bp_npy_index = 0, bp_raw = replicate n 0,
                     bp_flat = replicate (chunk * chans * 2) 0, bp_complex = zero_block chans chunk, bp_total_bytes = 0\<rparr>
            in if \<not> npy then Ok p
               else case on_disk of None \<Rightarrow> Ok p
                 | Some a \<Rightarrow> seqE (npy_layout chans a) (\<lambda>(tr, n).
                     Ok (p\<lparr>bp_npy := Some a, bp_transpose := tr, bp_total_samples := n\<rparr>))))"

text \<open>One number of the raw buffer\<close>

definition element :: "bool \<Rightarrow> (32 word \<Rightarrow> real) \<Rightarrow> sample_type \<Rightarrow> byte_order \<Rightarrow> byte list \<Rightarrow> nat \<Rightarrow> real" where
  "element host_little f32 t e raw i =
     (let w = bytes_per_sample t div 2; bs = take w (drop (i * w) raw);
          le = (if e = Little \<or> e = Native \<and> host_little then bs else rev bs)
      in case t of Int16 \<Rightarrow> of_int (unpack_signed le) * (1 / 32768) | Float32 \<Rightarrow> f32 (word_of_nat (le_val le)))"

text \<open>\<^verbatim>\<open>reshape(chunk_size, num_channels, 2)\<close>, transposed into channels\<close>

definition planar :: "nat \<Rightarrow> nat \<Rightarrow> real list \<Rightarrow> iq_block" where
  "planar chans chunk flat =
     map (\<lambda>c. map (\<lambda>s. Complex (flat ! ((s * chans + c) * 2)) (flat ! ((s * chans + c) * 2 + 1))) [0..<chunk]) [0..<chans]"

text \<open>The open file is the list of the bytes that are left.\<close>

definition read_next_chunk :: "bool \<Rightarrow> (32 word \<Rightarrow> real) \<Rightarrow> player \<Rightarrow> byte list \<Rightarrow> iq_block option \<times> player \<times> byte list" where
  "read_next_chunk host_little f32 p rest =
     (let n = bytes_per_chunk p; got = take n rest; raw = got @ drop (length got) (bp_raw p); rest' = drop n rest
      in if length got < n then (None, p\<lparr>bp_raw := raw\<rparr>, rest')
         else let flat = map (element host_little f32 (bp_type p) (bp_order p) raw) [0..<bp_chunk p * bp_channels p * 2];
                  blk = planar (bp_channels p) (bp_chunk p) flat
              in (Some blk, p\<lparr>bp_raw := raw, bp_flat := flat, bp_complex := blk, bp_total_bytes := bp_total_bytes p + n\<rparr>, rest'))"

text \<open>Without a loaded array there is no read position.\<close>

definition read_next_chunk_npy :: "player \<Rightarrow> fault + (iq_block option \<times> player)" where
  "read_next_chunk_npy p = (case bp_npy p of None \<Rightarrow> Fail AttributeError
     | Some a \<Rightarrow>
         let i = bp_npy_index p; n = bp_chunk p
         in if bp_total_samples p < i + n then Ok (None, p)
            else let blk = (if bp_transpose p
                   then map (\<lambda>c. map (\<lambda>s. npy_rows a ! (i + s) ! c) [0..<n]) [0..<bp_channels p]
                   else map (\<lambda>c. take n (drop i (npy_rows a ! c))) [0..<bp_channels p])
                 in Ok (Some blk, p\<lparr>bp_complex := blk, bp_npy_index := i + n,
                   bp_total_bytes := bp_total_bytes p + n * bp_channels p * 8\<rparr>))"

definition fetch :: "bool \<Rightarrow> (32 word \<Rightarrow> real) \<Rightarrow> player \<Rightarrow> byte list \<Rightarrow> fault + (iq_block option \<times> player \<times> byte list)" where
  "fetch host_little f32 p rest =
     (if bp_is_npy p then seqE (read_next_chunk_npy p) (\<lambda>(b, p'). Ok (b, p', rest))
      else Ok (read_next_chunk host_little f32 p rest))"

section \<open>The harness\<close>

text \<open>
  A queued block is the index of its buffer with its label; a queue of size 0 is unbounded. A worker that has taken a block
  holds the same reference until it reads the buffer. For the statements the number of blocks copied so far is kept, with each
  block held the number at which it was taken, and the most blocks that were copied while a block was held.
\<close>

record harness =
  h_running :: bool
  h_pool_index :: nat
  h_pool_size :: nat
  h_pool :: "iq_block list"
  h_queue :: "(nat \<times> string) list"
  h_queue_max :: nat
  h_dropped :: nat
  h_held :: "(nat \<times> string \<times> nat) list"
  h_copied :: nat
  h_lag :: nat

definition harness_init :: "nat \<Rightarrow> nat \<Rightarrow> harness" where
  "harness_init chans chunk = \<lparr>h_running = True, h_pool_index = 0, h_pool_size = 1050,
     h_pool = replicate 1050 (zero_block chans chunk), h_queue = [], h_queue_max = 1000, h_dropped = 0,
     h_held = [], h_copied = 0, h_lag = 0\<rparr>"

text \<open>
  Some worker takes the oldest block; some worker reads the block it holds, the \<open>k\<close>-th of those held; the end of the run; the
  lockdown empties the queue.
\<close>

datatype worker_event = Take | Use nat | Halt | Lockdown

fun worker :: "worker_event \<Rightarrow> harness \<times> (string \<times> iq_block) list \<Rightarrow> harness \<times> (string \<times> iq_block) list" where
  "worker Take (h, taken) = (case h_queue h of [] \<Rightarrow> (h, taken)
     | (i, label) # q \<Rightarrow> (h\<lparr>h_queue := q, h_held := h_held h @ [(i, label, h_copied h)]\<rparr>, taken))"
| "worker (Use k) (h, taken) = (if k < length (h_held h)
     then (case h_held h ! k of (i, label, since) \<Rightarrow>
       (h\<lparr>h_held := take k (h_held h) @ drop (Suc k) (h_held h), h_lag := max (h_lag h) (h_copied h - since)\<rparr>,
        taken @ [(label, h_pool h ! i)]))
     else (h, taken))"
| "worker Halt (h, taken) = (h\<lparr>h_running := False\<rparr>, taken)"
| "worker Lockdown (h, taken) = (h\<lparr>h_queue := []\<rparr>, taken)"

text \<open>\<^verbatim>\<open>np.copyto\<close> of an array of \<open>r\<close> by \<open>c\<close>: the sizes agree or a size of 1 is repeated\<close>

definition copyto :: "iq_block \<Rightarrow> nat \<Rightarrow> nat \<Rightarrow> iq_block \<Rightarrow> fault + iq_block" where
  "copyto dst r c src =
     (if (r = length dst \<or> r = 1) \<and> list_all (\<lambda>row. c = length row \<or> c = 1) dst
      then Ok (map (\<lambda>i. map (\<lambda>j. src ! (if r = 1 then 0 else i) ! (if c = 1 then 0 else j)) [0..<length (dst ! i)]) [0..<length dst])
      else Fail ValueError)"

text \<open>The block goes into the next buffer of the pool.\<close>

definition pool_copy :: "player \<Rightarrow> iq_block \<Rightarrow> harness \<Rightarrow> fault + (nat \<times> harness)" where
  "pool_copy p blk h =
     (if h_pool_size h = 0 then Fail ZeroDivisionError
      else let i = h_pool_index h; h1 = h\<lparr>h_pool_index := (i + 1) mod h_pool_size h\<rparr>
           in if length (h_pool h) \<le> i then Fail IndexError
              else seqE (copyto (h_pool h ! i) (bp_channels p) (bp_chunk p) blk) (\<lambda>b.
                Ok (i, h1\<lparr>h_pool := (h_pool h)[i := b], h_copied := h_copied h + 1\<rparr>)))"

definition scenario_of :: "real \<Rightarrow> string" where
  "scenario_of elapsed = (if elapsed < 10 then ''normal'' else if elapsed < 20 then ''jamming'' else ''spoofing'')"

definition put_nowait :: "nat \<times> string \<Rightarrow> harness \<Rightarrow> harness" where
  "put_nowait x h =
     (if 0 < h_queue_max h \<and> h_queue_max h \<le> length (h_queue h) then h\<lparr>h_dropped := h_dropped h + 1\<rparr>
      else h\<lparr>h_queue := h_queue h @ [x]\<rparr>)"

section \<open>Streaming\<close>

text \<open>
  A session: the player, the rest of the file, the harness, what the workers read, the blocks played so far (kept for the
  statements), the number of clock readings, the next deadline and the number of chunks.
\<close>

record session =
  ss_player :: player
  ss_rest :: "byte list"
  ss_harness :: harness
  ss_taken :: "(string \<times> iq_block) list"
  ss_played :: "(string \<times> iq_block) list"
  ss_reads :: nat
  ss_next :: real
  ss_count :: nat

definition workers :: "worker_event list \<Rightarrow> session \<Rightarrow> session" where
  "workers es s = (let r = fold worker es (ss_harness s, ss_taken s) in s\<lparr>ss_harness := fst r, ss_taken := snd r\<rparr>)"

text \<open>The waiting loop returns the number of clock readings.\<close>

partial_function (option) busy_wait :: "(nat \<Rightarrow> real) \<Rightarrow> real \<Rightarrow> nat \<Rightarrow> nat option" where
  "busy_wait clock target k = (if target - clock k \<le> 0 then Some (Suc k) else busy_wait clock target (Suc k))"

definition throttle :: "(nat \<Rightarrow> real) \<Rightarrow> session \<Rightarrow> session option" where
  "throttle clock s =
     (let d = bp_duration (ss_player s); target = ss_next s + d; now = clock (ss_reads s)
      in if target < now - d then Some (s\<lparr>ss_next := now, ss_reads := Suc (ss_reads s)\<rparr>)
         else Option.bind (busy_wait clock target (Suc (ss_reads s))) (\<lambda>k. Some (s\<lparr>ss_next := target, ss_reads := k\<rparr>)))"

text \<open>
  One chunk: fetch it, copy it, let the workers act, label and enqueue it. \<open>None\<close> is the end of the file.
\<close>

definition stream_deliver :: "bool \<Rightarrow> (32 word \<Rightarrow> real) \<Rightarrow> (nat \<Rightarrow> real) \<Rightarrow> worker_event list \<Rightarrow> session \<Rightarrow> fault + (bool \<times> session)" where
  "stream_deliver host_little f32 clock es s =
     seqE (fetch host_little f32 (ss_player s) (ss_rest s)) (\<lambda>(b, p, rest).
       let s1 = s\<lparr>ss_player := p, ss_rest := rest\<rparr> in
       case b of None \<Rightarrow> Ok (False, s1)
       | Some blk \<Rightarrow> seqE (pool_copy p blk (ss_harness s1)) (\<lambda>(i, h).
           let label = scenario_of (clock (ss_reads s) - clock 0);
               s2 = workers es (s1\<lparr>ss_harness := h, ss_reads := Suc (ss_reads s), ss_played := ss_played s @ [(label, blk)]\<rparr>)
           in Ok (True, s2\<lparr>ss_harness := put_nowait (i, label) (ss_harness s2), ss_count := ss_count s2 + 1\<rparr>)))"

text \<open>Round \<open>i\<close> of the loop; the workers act twice in a round.\<close>

partial_function (option) stream_loop :: "bool \<Rightarrow> (32 word \<Rightarrow> real) \<Rightarrow> (nat \<Rightarrow> real) \<Rightarrow> (nat \<Rightarrow> worker_event list \<times> worker_event list) \<Rightarrow>
    nat \<Rightarrow> session \<Rightarrow> (fault + session) option" where
  "stream_loop host_little f32 clock evs i s =
     (let s0 = workers (fst (evs i)) s in
      if \<not> (bp_running (ss_player s0) \<and> h_running (ss_harness s0)) then Some (Ok s0)
      else case stream_deliver host_little f32 clock (snd (evs i)) s0 of
          Inl e \<Rightarrow> Some (Fail e)
        | Inr r \<Rightarrow> if \<not> fst r then Some (Ok (snd r))
            else Option.bind (throttle clock (snd r)) (stream_loop host_little f32 clock evs (Suc i)))"

text \<open>\<open>content\<close> is the capture, or \<open>None\<close> when it cannot be opened; the first reading of the clock is the start.\<close>

definition stream_to_harness :: "bool \<Rightarrow> (32 word \<Rightarrow> real) \<Rightarrow> (nat \<Rightarrow> real) \<Rightarrow> (nat \<Rightarrow> worker_event list \<times> worker_event list) \<Rightarrow>
    byte list option \<Rightarrow> player \<Rightarrow> harness \<Rightarrow> (fault + session) option" where
  "stream_to_harness host_little f32 clock evs content p h =
     (let s = \<lparr>ss_player = p, ss_rest = [], ss_harness = h, ss_taken = [], ss_played = [], ss_reads = 1, ss_next = clock 0, ss_count = 0\<rparr>
      in if \<not> bp_is_npy p \<and> content = None then Some (Ok s)
         else Option.bind (stream_loop host_little f32 clock evs 0
                (s\<lparr>ss_player := p\<lparr>bp_running := True\<rparr>, ss_rest := (case content of None \<Rightarrow> [] | Some bs \<Rightarrow> bs)\<rparr>))
              (\<lambda>r. Some (seqE r (\<lambda>s'. Ok (s'\<lparr>ss_player := (ss_player s')\<lparr>bp_running := False\<rparr>\<rparr>)))))"

text \<open>The capture file of the self-test: interleaved 16-bit numbers of samples between -1 and 1\<close>

definition int16_of :: "real \<Rightarrow> int" where
  "int16_of x = (if 0 \<le> x * 32767 then \<lfloor>x * 32767\<rfloor> else \<lceil>x * 32767\<rceil>)"

definition capture_bytes :: "bool \<Rightarrow> nat \<Rightarrow> nat \<Rightarrow> (nat \<Rightarrow> nat \<Rightarrow> complex) \<Rightarrow> byte list" where
  "capture_bytes host_little num_samples chans data =
     concat (map (\<lambda>s. concat (map (\<lambda>c. concat (map (\<lambda>x.
       let bs = le_bytes 2 (nat (int16_of x mod 2 ^ 16)) in if host_little then bs else rev bs)
         [Re (data s c), Im (data s c)])) [0..<chans])) [0..<num_samples])"

section \<open>Streaming ends\<close>

lemma busy_wait_ends:
  assumes "k \<le> n" "target \<le> clock n"
  shows "\<exists>m. busy_wait clock target k = Some m"
  using assms(1)
proof (induction k rule: inc_induct)
  case base
  then show ?case using assms(2) by (simp add: busy_wait.simps)
next
  case (step k)
  then show ?case by (cases "target - clock k \<le> 0") (simp_all add: busy_wait.simps [of clock target k])
qed

definition clock_advances :: "(nat \<Rightarrow> real) \<Rightarrow> bool" where
  "clock_advances clock \<longleftrightarrow> (\<forall>t k. \<exists>n \<ge> k. t \<le> clock n)"

abbreviation same_stream :: "session \<Rightarrow> session \<Rightarrow> bool" where
  "same_stream s s' \<equiv> ss_player s' = ss_player s \<and> ss_rest s' = ss_rest s \<and> ss_harness s' = ss_harness s \<and>
     ss_taken s' = ss_taken s \<and> ss_played s' = ss_played s \<and> ss_count s' = ss_count s"

lemma throttle_ends: "clock_advances clock \<Longrightarrow> \<exists>s'. throttle clock s = Some s'"
proof -
  assume adv: "clock_advances clock"
  let ?t = "ss_next s + bp_duration (ss_player s)"
  obtain n where "Suc (ss_reads s) \<le> n" "?t \<le> clock n" using adv unfolding clock_advances_def by blast
  then obtain m where "busy_wait clock ?t (Suc (ss_reads s)) = Some m" using busy_wait_ends by blast
  then show ?thesis by (simp add: throttle_def Let_def)
qed

lemma throttle_same: "throttle clock s = Some s' \<Longrightarrow> same_stream s s'"
  unfolding throttle_def Let_def by (cases "ss_next s + bp_duration (ss_player s) < clock (ss_reads s) - bp_duration (ss_player s)")
    (auto simp: bind_eq_Some_conv)

text \<open>What is left to play, and the settings that no read changes\<close>

definition left_to_read :: "player \<Rightarrow> byte list \<Rightarrow> nat" where
  "left_to_read p rest = (if bp_is_npy p then bp_total_samples p - bp_npy_index p else length rest)"

abbreviation left :: "session \<Rightarrow> nat" where
  "left s \<equiv> left_to_read (ss_player s) (ss_rest s)"

abbreviation same_settings :: "player \<Rightarrow> player \<Rightarrow> bool" where
  "same_settings p p' \<equiv> bp_channels p' = bp_channels p \<and> bp_chunk p' = bp_chunk p \<and> bp_type p' = bp_type p \<and> bp_order p' = bp_order p \<and>
     bp_is_npy p' = bp_is_npy p \<and> bp_running p' = bp_running p \<and> bp_npy p' = bp_npy p \<and> bp_transpose p' = bp_transpose p \<and>
     bp_total_samples p' = bp_total_samples p \<and> bp_duration p' = bp_duration p"

text \<open>The block that the bytes of a chunk stand for\<close>

definition chunk_block :: "bool \<Rightarrow> (32 word \<Rightarrow> real) \<Rightarrow> player \<Rightarrow> byte list \<Rightarrow> iq_block" where
  "chunk_block host f32 p bs =
     planar (bp_channels p) (bp_chunk p) (map (element host f32 (bp_type p) (bp_order p) bs) [0..<bp_chunk p * bp_channels p * 2])"

lemma element_prefix:
  assumes "(i + 1) * (bytes_per_sample t div 2) \<le> length bs"
  shows "element host f32 t e (bs @ xs) i = element host f32 t e bs i"
proof -
  let ?w = "bytes_per_sample t div 2"
  have "i * ?w + ?w \<le> length bs" using assms by simp
  then have "?w \<le> length bs - i * ?w" "i * ?w \<le> length bs" by linarith+
  then have "take ?w (drop (i * ?w) (bs @ xs)) = take ?w (drop (i * ?w) bs)" by simp
  then show ?thesis unfolding element_def Let_def by (simp only:)
qed

lemma read_chunk_eof: "length rest < bytes_per_chunk p \<Longrightarrow>
    \<exists>p'. read_next_chunk host f32 p rest = (None, p', drop (bytes_per_chunk p) rest)"
  by (simp add: read_next_chunk_def Let_def)

lemma read_chunk_full:
  assumes "bytes_per_chunk p \<le> length rest"
  shows "\<exists>p'. read_next_chunk host f32 p rest = (Some (chunk_block host f32 p (take (bytes_per_chunk p) rest)), p', drop (bytes_per_chunk p) rest) \<and>
    bp_total_bytes p' = bp_total_bytes p + bytes_per_chunk p"
proof -
  let ?n = "bytes_per_chunk p" and ?m = "bp_chunk p * bp_channels p * 2"
  have "element host f32 (bp_type p) (bp_order p) (take ?n rest @ xs) i = element host f32 (bp_type p) (bp_order p) (take ?n rest) i"
    if "i < ?m" for i xs
  proof (rule element_prefix)
    have "Suc i * (bytes_per_sample (bp_type p) div 2) \<le> ?m * (bytes_per_sample (bp_type p) div 2)"
      using that by (intro mult_le_mono1) simp
    also have "\<dots> = ?n" by (simp add: bytes_per_chunk_def bytes_per_sample_def)
    finally show "(i + 1) * (bytes_per_sample (bp_type p) div 2) \<le> length (take ?n rest)" using assms by simp
  qed
  then have elements: "map (element host f32 (bp_type p) (bp_order p) (take ?n rest @ xs)) [0..<?m] =
      map (element host f32 (bp_type p) (bp_order p) (take ?n rest)) [0..<?m]" for xs
    by simp
  have "length (take ?n rest) = ?n" using assms by simp
  then show ?thesis by (simp only: read_next_chunk_def Let_def chunk_block_def elements less_irrefl if_False) simp
qed

lemma read_settings:
  assumes "read_next_chunk host f32 p rest = (b, p', rest')"
  shows "same_settings p p'"
proof -
  have "same_settings p (fst (snd (read_next_chunk host f32 p rest)))" by (simp add: read_next_chunk_def Let_def)
  then show ?thesis by (simp only: assms fst_conv snd_conv)
qed

lemma read_npy_settings: "read_next_chunk_npy p = Ok (b, p') \<Longrightarrow> same_settings p p'"
  unfolding read_next_chunk_npy_def Let_def
  by (cases "bp_npy p"; cases "bp_total_samples p < bp_npy_index p + bp_chunk p") auto

lemma fetch_settings: "fetch host f32 p rest = Ok (b, p', rest') \<Longrightarrow> same_settings p p'"
  unfolding fetch_def by (cases "bp_is_npy p") (auto simp: seqE_Ok_iff dest: read_settings read_npy_settings)

lemma bytes_positive: "0 < bp_chunk p \<Longrightarrow> 0 < bp_channels p \<Longrightarrow> 0 < bytes_per_chunk p"
  by (simp add: bytes_per_chunk_def bytes_per_sample_def)

lemma fetch_shrinks:
  assumes "fetch host f32 p rest = Ok (Some b, p', rest')" "0 < bp_chunk p" "0 < bp_channels p"
  shows "left_to_read p' rest' < left_to_read p rest"
proof (cases "bp_is_npy p")
  case True
  then have r: "read_next_chunk_npy p = Ok (Some b, p')" "rest' = rest" using assms(1) by (auto simp: fetch_def seqE_Ok_iff)
  then have "bp_npy_index p + bp_chunk p \<le> bp_total_samples p \<and> bp_npy_index p' = bp_npy_index p + bp_chunk p"
    unfolding read_next_chunk_npy_def Let_def
    by (cases "bp_npy p"; cases "bp_total_samples p < bp_npy_index p + bp_chunk p") auto
  then have "bp_total_samples p - bp_npy_index p' < bp_total_samples p - bp_npy_index p" using assms(2) by arith
  with read_npy_settings [OF r(1)] True show ?thesis by (simp add: left_to_read_def)
next
  case False
  then have r: "read_next_chunk host f32 p rest = (Some b, p', rest')" using assms(1) by (simp add: fetch_def)
  then have "bytes_per_chunk p \<le> length rest \<and> rest' = drop (bytes_per_chunk p) rest"
    using read_chunk_eof [of rest p host f32] read_chunk_full [of p rest host f32] by (cases "bytes_per_chunk p \<le> length rest") auto
  with read_settings [OF r] False bytes_positive [OF assms(2,3)] show ?thesis by (auto simp: left_to_read_def)
qed

lemma workers_stream [simp]:
  "ss_player (workers es s) = ss_player s" "ss_rest (workers es s) = ss_rest s" "ss_played (workers es s) = ss_played s"
  "ss_count (workers es s) = ss_count s" "ss_reads (workers es s) = ss_reads s"
  by (simp_all add: workers_def Let_def)

lemma stream_deliver_shrinks:
  assumes "stream_deliver host f32 clock es s = Ok (True, s')" "0 < bp_chunk (ss_player s)" "0 < bp_channels (ss_player s)"
  shows "left s' < left s \<and> same_settings (ss_player s) (ss_player s')"
proof -
  from assms(1) obtain b p rest where f: "fetch host f32 (ss_player s) (ss_rest s) = Ok (b, p, rest)"
    unfolding stream_deliver_def seqE_Ok_iff by (metis prod_cases3)
  with assms(1) obtain blk where b: "b = Some blk" by (cases b) (auto simp: stream_deliver_def)
  from assms(1) have "ss_player s' = p \<and> ss_rest s' = rest" by (auto simp: stream_deliver_def f b seqE_Ok_iff Let_def)
  with fetch_shrinks [OF f [unfolded b] assms(2,3)] fetch_settings [OF f] show ?thesis by simp
qed

lemma stream_loop_ends:
  assumes "clock_advances clock" "0 < bp_chunk (ss_player s)" "0 < bp_channels (ss_player s)"
  shows "\<exists>r. stream_loop host f32 clock evs i s = Some r"
  using assms(2,3)
proof (induction "left s" arbitrary: i s rule: less_induct)
  case less
  let ?s0 = "workers (fst (evs i)) s"
  show ?case
  proof (cases "bp_running (ss_player ?s0) \<and> h_running (ss_harness ?s0)")
    case running: True
    show ?thesis
    proof (cases "stream_deliver host f32 clock (snd (evs i)) ?s0")
      case (Inr r)
      obtain b s1 where r: "r = (b, s1)" by (cases r)
      show ?thesis
      proof (cases b)
        case True
        with Inr r less.prems have s1: "left s1 < left s" "same_settings (ss_player s) (ss_player s1)"
          using stream_deliver_shrinks [of host f32 clock "snd (evs i)" ?s0 s1] by simp_all
        obtain s2 where s2: "throttle clock s1 = Some s2" using throttle_ends [OF assms(1)] by blast
        have "left s2 = left s1" using throttle_same [OF s2] by simp
        then have "left s2 < left s" "0 < bp_chunk (ss_player s2)" "0 < bp_channels (ss_player s2)"
          using throttle_same [OF s2] s1 less.prems by simp_all
        from less.hyps [OF this, of "Suc i"] show ?thesis
          using running Inr r True s2 by (simp add: stream_loop.simps [of host f32 clock evs i s] Let_def)
      qed (use running Inr r in \<open>simp add: stream_loop.simps [of host f32 clock evs i s] Let_def\<close>)
    qed (use running in \<open>simp add: stream_loop.simps [of host f32 clock evs i s] Let_def\<close>)
  qed (simp add: stream_loop.simps [of host f32 clock evs i s] Let_def)
qed

text \<open>
  C26: Playback ends: on a clock that passes every time, whatever the workers and the harness do, whether the capture is raw, an
  array file, missing or of the wrong shape, streaming returns, with a session or with an error.
\<close>

theorem playback_ends:
  assumes "clock_advances clock" "0 < bp_chunk p" "0 < bp_channels p"
  shows "\<exists>r. stream_to_harness host_little f32 clock evs content p h = Some r"
proof -
  let ?s = "\<lparr>ss_player = p\<lparr>bp_running := True\<rparr>, ss_rest = (case content of None \<Rightarrow> [] | Some bs \<Rightarrow> bs), ss_harness = h, ss_taken = [],
    ss_played = [], ss_reads = 1, ss_next = clock 0, ss_count = 0\<rparr>"
  obtain r where "stream_loop host_little f32 clock evs 0 ?s = Some r"
    using stream_loop_ends [OF assms(1), of ?s host_little f32 evs 0] assms(2,3) by auto
  then show ?thesis by (simp add: stream_to_harness_def Let_def)
qed

theorem playback_ends_witness:
  "\<exists>p r. player_init ''x.npy'' 2 4 ''float32'' ''little'' 8 None = Ok p \<and>
     stream_to_harness True (\<lambda>_. 0) real (\<lambda>_. ([], [])) None p (harness_init 4 8) = Some r"
proof -
  have "clock_advances real" unfolding clock_advances_def
  proof (intro allI)
    fix t :: real and k :: nat
    obtain n where "t < real n" using reals_Archimedean2 by blast
    then have "k \<le> max k n \<and> t \<le> real (max k n)" by linarith
    then show "\<exists>n\<ge>k. t \<le> real n" by blast
  qed
  moreover obtain p where "player_init ''x.npy'' 2 4 ''float32'' ''little'' 8 None = Ok p" "bp_chunk p = 8" "bp_channels p = 4"
    by (auto simp: player_init_def parse_type_def parse_order_def lower_char_def Let_def suffix_def)
  ultimately show ?thesis using playback_ends [of real p True "\<lambda>_. 0" "\<lambda>_. ([], [])" None "harness_init 4 8"] by auto
qed

end
