(* ===== verification/File_Stream.thy ===== *)
theory File_Stream
  imports File_Player
begin

text \<open>
  Playback into the block pool of the harness: every block of a capture is played once and in order, and workers
  read intact blocks as long as the blocks dropped, and those copied while a worker holds a block, are fewer than the
  pool has buffers to spare.
\<close>

section \<open>Shapes\<close>

definition block_shaped :: "nat \<Rightarrow> nat \<Rightarrow> iq_block \<Rightarrow> bool" where
  "block_shaped r c b \<longleftrightarrow> length b = r \<and> list_all (\<lambda>row. length row = c) b"

lemma copyto_same:
  assumes "block_shaped r c dst" "block_shaped r c src" shows "copyto dst r c src = Ok src"
proof -
  have "map (\<lambda>i. map (\<lambda>j. src ! (if r = 1 then 0 else i) ! (if c = 1 then 0 else j)) [0..<length (dst ! i)]) [0..<length dst] = src"
  proof (rule nth_equalityI)
    show "length (map (\<lambda>i. map (\<lambda>j. src ! (if r = 1 then 0 else i) ! (if c = 1 then 0 else j)) [0..<length (dst ! i)]) [0..<length dst]) = length src"
      using assms by (simp add: block_shaped_def)
    fix i assume "i < length (map (\<lambda>i. map (\<lambda>j. src ! (if r = 1 then 0 else i) ! (if c = 1 then 0 else j)) [0..<length (dst ! i)]) [0..<length dst])"
    then have i: "i < r" using assms(1) by (simp add: block_shaped_def)
    then have len: "length (dst ! i) = c" "length (src ! i) = c" using assms by (auto simp: block_shaped_def list_all_length)
    have r: "(if r = 1 then 0 else i) = i" using i by auto
    have c: "(if c = 1 then 0 else j) = j" if "j < c" for j using that by auto
    show "map (\<lambda>i. map (\<lambda>j. src ! (if r = 1 then 0 else i) ! (if c = 1 then 0 else j)) [0..<length (dst ! i)]) [0..<length dst] ! i = src ! i"
      using i len assms(1) by (intro nth_equalityI) (auto simp: block_shaped_def c [simplified])
  qed
  moreover have "list_all (\<lambda>row. c = length row \<or> c = 1) dst" "r = length dst"
    using assms(1) by (auto simp: block_shaped_def list_all_iff)
  ultimately show ?thesis by (simp add: copyto_def)
qed

lemma planar_shaped: "block_shaped chans chunk (planar chans chunk flat)"
  by (simp add: block_shaped_def planar_def list_all_iff)

text \<open>An array file whose rows have the length of its shape\<close>

definition player_ok :: "player \<Rightarrow> bool" where
  "player_ok p \<longleftrightarrow> (case bp_npy p of None \<Rightarrow> True
     | Some a \<Rightarrow> bp_transpose p \<or> bp_channels p \<le> length (npy_rows a) \<and> list_all (\<lambda>row. length row = bp_total_samples p) (npy_rows a))"

lemma player_ok_settings: "same_settings p p' \<Longrightarrow> player_ok p' = player_ok p"
  unfolding player_ok_def by (elim conjE) (simp only:)

lemma fetch_shaped:
  assumes "fetch host f32 p rest = Ok (Some b, p', rest')" "player_ok p"
  shows "block_shaped (bp_channels p) (bp_chunk p) b"
proof (cases "bp_is_npy p")
  case True
  with assms(1) have r: "read_next_chunk_npy p = Ok (Some b, p')" by (auto simp: fetch_def seqE_Ok_iff)
  then obtain a where a: "bp_npy p = Some a" by (cases "bp_npy p") (auto simp: read_next_chunk_npy_def)
  let ?i = "bp_npy_index p" and ?n = "bp_chunk p"
  from r a have fits: "?i + ?n \<le> bp_total_samples p" and b: "b = (if bp_transpose p
      then map (\<lambda>c. map (\<lambda>s. npy_rows a ! (?i + s) ! c) [0..<?n]) [0..<bp_channels p]
      else map (\<lambda>c. take ?n (drop ?i (npy_rows a ! c))) [0..<bp_channels p])"
    by (cases "bp_total_samples p < ?i + ?n"; simp add: read_next_chunk_npy_def Let_def)+
  show ?thesis
  proof (cases "bp_transpose p")
    case False
    with assms(2) a have "length (npy_rows a ! c) = bp_total_samples p" if "c < bp_channels p" for c
      using that by (simp add: player_ok_def list_all_length)
    with False fits show ?thesis by (simp add: b block_shaped_def list_all_length)
  qed (simp add: b block_shaped_def list_all_iff)
next
  case False
  with assms(1) have r: "read_next_chunk host f32 p rest = (Some b, p', rest')" by (simp add: fetch_def)
  then have "b = chunk_block host f32 p (take (bytes_per_chunk p) rest)"
    using read_chunk_eof [of rest p host f32] read_chunk_full [of p rest host f32] by (cases "bytes_per_chunk p \<le> length rest") auto
  then show ?thesis by (simp add: chunk_block_def planar_shaped)
qed

section \<open>The pool\<close>

definition pool_ok :: "nat \<Rightarrow> nat \<Rightarrow> harness \<Rightarrow> bool" where
  "pool_ok r c h \<longleftrightarrow> length (h_pool h) = h_pool_size h \<and> h_pool_index h < h_pool_size h \<and> 0 < h_queue_max h \<and>
     length (h_queue h) \<le> h_queue_max h \<and> list_all (block_shaped r c) (h_pool h)"

text \<open>
  Every block has the number of its play; block \<open>n\<close> lies in buffer \<open>i + n\<close> of the pool, counted around, as long as fewer than a
  pool full of blocks have followed it. \<open>us\<close>, \<open>ms\<close> and \<open>ns\<close> are the numbers of the blocks that were read, are held and are
  queued. A queued block is at most as many plays old as there are blocks queued from it on, blocks dropped, and blocks copied
  but not queued yet; a held one was at most that old when it was taken.
\<close>

definition holds_play :: "nat \<Rightarrow> (string \<times> iq_block) list \<Rightarrow> harness \<Rightarrow> nat \<times> string \<times> nat \<Rightarrow> nat \<Rightarrow> bool" where
  "holds_play i P h = (\<lambda>(b, label, since) m. b = (i + m) mod h_pool_size h \<and> label = fst (P ! m) \<and> since \<le> length P \<and>
     since \<le> m + h_queue_max h + h_dropped h + 1)"

definition queues_play :: "nat \<Rightarrow> (string \<times> iq_block) list \<Rightarrow> harness \<Rightarrow> nat \<times> string \<Rightarrow> nat \<Rightarrow> bool" where
  "queues_play i P h = (\<lambda>(b, label) n. b = (i + n) mod h_pool_size h \<and> label = fst (P ! n))"

definition plays :: "nat \<Rightarrow> nat \<Rightarrow> (string \<times> iq_block) list \<Rightarrow> harness \<Rightarrow> (string \<times> iq_block) list \<Rightarrow> nat list \<Rightarrow> nat list \<Rightarrow> nat list \<Rightarrow> bool" where
  "plays i pending P h taken us ms ns \<longleftrightarrow>
     h_copied h = length P \<and> h_pool_index h = (i + length P) mod h_pool_size h \<and>
     (\<forall>n < length P. length P \<le> n + h_pool_size h \<longrightarrow> h_pool h ! ((i + n) mod h_pool_size h) = snd (P ! n)) \<and>
     taken = map ((!) P) us \<and> list_all2 (holds_play i P h) (h_held h) ms \<and> list_all2 (queues_play i P h) (h_queue h) ns \<and>
     (\<forall>j < length ns. length P \<le> ns ! j + (length ns - j) + h_dropped h + pending) \<and>
     distinct (us @ ms @ ns) \<and> set (us @ ms @ ns) \<subseteq> {..<length P}"

abbreviation same_size :: "harness \<Rightarrow> harness \<Rightarrow> bool" where
  "same_size h h' \<equiv> h_queue_max h' = h_queue_max h \<and> h_pool_size h' = h_pool_size h"

lemma worker_counts:
  assumes "worker ev (h, t) = (h', t')"
  shows "h_dropped h' = h_dropped h \<and> same_size h h' \<and> h_lag h \<le> h_lag h' \<and> h_pool h' = h_pool h \<and> h_pool_index h' = h_pool_index h \<and>
    (pool_ok r c h \<longrightarrow> pool_ok r c h')"
  using assms by (cases ev) (auto simp: pool_ok_def split: list.splits if_splits prod.splits)

lemma take_plays:
  assumes "plays i pending P h taken us ms ns" "pool_ok r c h" "pending \<le> 1" "h_queue h = (b, label) # q"
  shows "\<exists>ms' ns'. plays i pending P (h\<lparr>h_queue := q, h_held := h_held h @ [(b, label, h_copied h)]\<rparr>) taken us ms' ns' \<and>
    set (us @ ms' @ ns') \<subseteq> set (us @ ms @ ns)"
proof -
  have inv: "h_copied h = length P" "list_all2 (holds_play i P h) (h_held h) ms" "list_all2 (queues_play i P h) (h_queue h) ns"
    "\<forall>j < length ns. length P \<le> ns ! j + (length ns - j) + h_dropped h + pending"
    using assms(1) by (simp_all add: plays_def)
  obtain n ns' where ns: "ns = n # ns'" "queues_play i P h (b, label) n" "list_all2 (queues_play i P h) q ns'"
    using inv(3) by (auto simp: assms(4) list_all2_Cons1)
  have "length P \<le> n + length ns + h_dropped h + pending" using inv(4) by (auto simp: ns(1) dest: spec [of _ 0])
  moreover have "length ns \<le> h_queue_max h" using inv(3) assms(2) by (simp add: pool_ok_def list_all2_lengthD)
  ultimately have "holds_play i P h (b, label, h_copied h) n" using ns(2) inv(1) assms(3) by (auto simp: holds_play_def queues_play_def)
  then have held: "list_all2 (holds_play i P h) (h_held h @ [(b, label, h_copied h)]) (ms @ [n])"
    using inv(2) by (simp add: list_all2_appendI)
  have ages: "length P \<le> ns' ! j + (length ns' - j) + h_dropped h + pending" if "j < length ns'" for j
    using inv(4) that by (auto simp: ns(1) dest!: spec [of _ "Suc j"])
  have "plays i pending P (h\<lparr>h_queue := q, h_held := h_held h @ [(b, label, h_copied h)]\<rparr>) taken us (ms @ [n]) ns'"
    using assms(1) held ns(3) ages by (auto simp: plays_def ns(1) holds_play_def queues_play_def)
  moreover have "set (us @ (ms @ [n]) @ ns') \<subseteq> set (us @ ms @ ns)" by (auto simp: ns(1))
  ultimately show ?thesis by blast
qed

lemma remove_nth_distinct:
  assumes "k < length ms" "distinct (us @ ms @ ns)"
  shows "distinct ((us @ [ms ! k]) @ (take k ms @ drop (Suc k) ms) @ ns)"
    "set ((us @ [ms ! k]) @ (take k ms @ drop (Suc k) ms) @ ns) = set (us @ ms @ ns)"
proof -
  have ms: "ms = take k ms @ ms ! k # drop (Suc k) ms" using assms(1) by (simp add: id_take_nth_drop)
  have "distinct (us @ (A @ x # B) @ ns) \<Longrightarrow> distinct ((us @ [x]) @ (A @ B) @ ns)"
    "set ((us @ [x]) @ (A @ B) @ ns) = set (us @ (A @ x # B) @ ns)" for A B x by auto
  from this [where A = "take k ms" and x = "ms ! k" and B = "drop (Suc k) ms"] assms(2)
  show "distinct ((us @ [ms ! k]) @ (take k ms @ drop (Suc k) ms) @ ns)"
    "set ((us @ [ms ! k]) @ (take k ms @ drop (Suc k) ms) @ ns) = set (us @ ms @ ns)"
    unfolding ms [symmetric] by blast+
qed

lemma use_plays:
  assumes "plays i pending P h taken us ms ns" "k < length (h_held h)" "h_held h ! k = (b, label, since)"
    "h_dropped h + max (h_lag h) (h_copied h - since) + h_queue_max h < h_pool_size h"
  shows "\<exists>us' ms'. plays i pending P (h\<lparr>h_held := take k (h_held h) @ drop (Suc k) (h_held h), h_lag := max (h_lag h) (h_copied h - since)\<rparr>)
    (taken @ [(label, h_pool h ! b)]) us' ms' ns \<and> set (us' @ ms' @ ns) \<subseteq> set (us @ ms @ ns)"
proof -
  have inv: "h_copied h = length P" "list_all2 (holds_play i P h) (h_held h) ms" "distinct (us @ ms @ ns)"
    "set (us @ ms @ ns) \<subseteq> {..<length P}" using assms(1) by (simp_all add: plays_def)
  have k: "k < length ms" using assms(2) list_all2_lengthD [OF inv(2)] by simp
  have m: "b = (i + ms ! k) mod h_pool_size h" "label = fst (P ! (ms ! k))" "since \<le> length P" "since \<le> ms ! k + h_queue_max h + h_dropped h + 1"
    using list_all2_nthD [OF inv(2) assms(2)] by (simp_all add: assms(3) holds_play_def)
  have "ms ! k < length P" using inv(4) nth_mem [OF k] by auto
  moreover have "length P \<le> ms ! k + h_pool_size h" using m(3,4) assms(4) inv(1) by linarith
  ultimately have "h_pool h ! b = snd (P ! (ms ! k))" using assms(1) by (simp add: plays_def m(1))
  then have "taken @ [(label, h_pool h ! b)] = map ((!) P) (us @ [ms ! k])" using assms(1) m(2) by (simp add: plays_def)
  moreover have "list_all2 (holds_play i P h) (take k (h_held h) @ drop (Suc k) (h_held h)) (take k ms @ drop (Suc k) ms)"
    using inv(2) by (intro list_all2_appendI list_all2_takeI list_all2_dropI)
  ultimately have "plays i pending P (h\<lparr>h_held := take k (h_held h) @ drop (Suc k) (h_held h), h_lag := max (h_lag h) (h_copied h - since)\<rparr>)
      (taken @ [(label, h_pool h ! b)]) (us @ [ms ! k]) (take k ms @ drop (Suc k) ms) ns"
    using assms(1) remove_nth_distinct [OF k inv(3)] inv(4) unfolding plays_def by (simp only:) (simp add: holds_play_def queues_play_def)
  moreover have "set ((us @ [ms ! k]) @ (take k ms @ drop (Suc k) ms) @ ns) \<subseteq> set (us @ ms @ ns)"
    using remove_nth_distinct(2) [OF k inv(3)] by simp
  ultimately show ?thesis by blast
qed

lemma worker_plays:
  assumes "plays i pending P h taken us ms ns" "pool_ok r c h" "pending \<le> 1" "worker ev (h, taken) = (h', taken')"
    "h_dropped h' + h_lag h' + h_queue_max h' < h_pool_size h'"
  shows "\<exists>us' ms' ns'. plays i pending P h' taken' us' ms' ns' \<and> set (us' @ ms' @ ns') \<subseteq> set (us @ ms @ ns)"
proof (cases ev)
  case Take
  show ?thesis
  proof (cases "h_queue h")
    case (Cons x q)
    obtain b label where "x = (b, label)" by (cases x)
    with assms(4) Take Cons have h': "h' = h\<lparr>h_queue := q, h_held := h_held h @ [(b, label, h_copied h)]\<rparr>" "taken' = taken" by auto
    from Cons \<open>x = (b, label)\<close> have "h_queue h = (b, label) # q" by simp
    from take_plays [OF assms(1-3) this] show ?thesis unfolding h' by blast
  qed (use assms Take in auto)
next
  case (Use k)
  show ?thesis
  proof (cases "k < length (h_held h)")
    case True
    obtain b label since where held: "h_held h ! k = (b, label, since)" by (cases "h_held h ! k")
    with assms(4) Use True have h': "h' = h\<lparr>h_held := take k (h_held h) @ drop (Suc k) (h_held h), h_lag := max (h_lag h) (h_copied h - since)\<rparr>"
      "taken' = taken @ [(label, h_pool h ! b)]" by auto
    have "h_dropped h + max (h_lag h) (h_copied h - since) + h_queue_max h < h_pool_size h" using assms(5) by (simp add: h')
    from use_plays [OF assms(1) True held this] show ?thesis unfolding h' by blast
  qed (use assms Use in auto)
next
  case Halt
  with assms show ?thesis by (intro exI [of _ us] exI [of _ ms] exI [of _ ns]) (auto simp: plays_def holds_play_def queues_play_def)
next
  case Lockdown
  with assms show ?thesis by (intro exI [of _ us] exI [of _ ms] exI [of _ "[]"]) (auto simp: plays_def holds_play_def queues_play_def)
qed

lemma workers_keep:
  assumes "fold worker es (h, taken) = (h', taken')"
  shows "h_dropped h' = h_dropped h \<and> same_size h h' \<and> h_lag h \<le> h_lag h' \<and> h_pool h' = h_pool h \<and> h_pool_index h' = h_pool_index h \<and>
    (pool_ok r c h \<longrightarrow> pool_ok r c h' \<and> (\<forall>us ms ns. plays i pending P h taken us ms ns \<longrightarrow> pending \<le> 1 \<longrightarrow>
      h_dropped h' + h_lag h' + h_queue_max h' < h_pool_size h' \<longrightarrow>
      (\<exists>us' ms' ns'. plays i pending P h' taken' us' ms' ns' \<and> set (us' @ ms' @ ns') \<subseteq> set (us @ ms @ ns))))"
  using assms
proof (induction es arbitrary: h taken)
  case Nil
  then show ?case by auto
next
  case (Cons ev es)
  obtain h1 taken1 where 1: "worker ev (h, taken) = (h1, taken1)" by (cases "worker ev (h, taken)")
  note c = worker_counts [OF 1, of r c]
  from Cons.prems 1 have "fold worker es (h1, taken1) = (h', taken')" by simp
  note IH = Cons.IH [OF this]
  have "\<exists>us' ms' ns'. plays i pending P h' taken' us' ms' ns' \<and> set (us' @ ms' @ ns') \<subseteq> set (us @ ms @ ns)"
    if "pool_ok r c h" "plays i pending P h taken us ms ns" "pending \<le> 1" "h_dropped h' + h_lag h' + h_queue_max h' < h_pool_size h'" for us ms ns
  proof -
    have "h_dropped h1 + h_lag h1 + h_queue_max h1 < h_pool_size h1" using that(4) IH by linarith
    from worker_plays [OF that(2,1,3) 1 this] obtain us1 ms1 ns1
      where 2: "plays i pending P h1 taken1 us1 ms1 ns1" "set (us1 @ ms1 @ ns1) \<subseteq> set (us @ ms @ ns)" by blast
    have "pool_ok r c h1" using c that(1) by blast
    with IH 2(1) that(3,4) obtain us2 ms2 ns2
      where "plays i pending P h' taken' us2 ms2 ns2" "set (us2 @ ms2 @ ns2) \<subseteq> set (us1 @ ms1 @ ns1)" by blast
    with 2(2) show ?thesis by (meson subset_trans)
  qed
  moreover have "h_dropped h' = h_dropped h \<and> same_size h h' \<and> h_lag h \<le> h_lag h' \<and> h_pool h' = h_pool h \<and> h_pool_index h' = h_pool_index h \<and>
      (pool_ok r c h \<longrightarrow> pool_ok r c h')"
    using c IH by auto
  ultimately show ?case by blast
qed

lemma pool_copy_ok:
  assumes "pool_ok (bp_channels p) (bp_chunk p) h" "block_shaped (bp_channels p) (bp_chunk p) b"
  shows "pool_copy p b h = Ok (h_pool_index h, h\<lparr>h_pool_index := (h_pool_index h + 1) mod h_pool_size h,
    h_pool := (h_pool h)[h_pool_index h := b], h_copied := h_copied h + 1\<rparr>)"
proof -
  from assms(1) have "h_pool_index h < length (h_pool h)" "h_pool_size h \<noteq> 0" by (auto simp: pool_ok_def)
  moreover from this assms(1) have "block_shaped (bp_channels p) (bp_chunk p) (h_pool h ! h_pool_index h)"
    by (simp add: pool_ok_def list_all_length)
  ultimately show ?thesis using copyto_same [OF _ assms(2)] by (simp add: pool_copy_def Let_def)
qed

lemma pool_copy_plays:
  assumes "pool_ok r c h" "plays i 0 P h taken us ms ns" "block_shaped r c b"
  defines "h' \<equiv> h\<lparr>h_pool_index := (h_pool_index h + 1) mod h_pool_size h, h_pool := (h_pool h)[h_pool_index h := b], h_copied := h_copied h + 1\<rparr>"
  shows "pool_ok r c h' \<and> plays i 1 (P @ [(label, b)]) h' taken us ms ns"
proof
  let ?P = "P @ [(label, b)]" and ?s = "h_pool_size h"
  have size: "length (h_pool h) = ?s" "h_pool_index h < ?s" using assms(1) by (simp_all add: pool_ok_def)
  show "pool_ok r c h'"
    using assms(1,3) size(2) by (auto simp: pool_ok_def h'_def list_all_iff dest!: set_update_subset_insert [THEN subsetD])
  have inv: "h_pool_index h = (i + length P) mod ?s" "list_all2 (holds_play i P h) (h_held h) ms" "list_all2 (queues_play i P h) (h_queue h) ns"
    "set (us @ ms @ ns) \<subseteq> {..<length P}" "taken = map ((!) P) us"
    using assms(2) by (simp_all add: plays_def)
  have content: "h_pool h' ! ((i + n) mod ?s) = snd (?P ! n)" if "n < length ?P" "length ?P \<le> n + ?s" for n
  proof (cases "n = length P")
    case True
    with size inv(1) show ?thesis by (simp add: h'_def)
  next
    case False
    with that have n: "n < length P" "length P < n + ?s" by simp_all
    have "(i + n) mod ?s \<noteq> (i + length P) mod ?s"
    proof
      assume "(i + n) mod ?s = (i + length P) mod ?s"
      then have "?s dvd (i + length P) - (i + n)" using n(1) by (subst mod_eq_dvd_iff_nat [symmetric]) simp_all
      then have "?s dvd length P - n" by simp
      with n show False by (auto dest: dvd_imp_le)
    qed
    with assms(2) n size inv(1) show ?thesis by (simp add: h'_def plays_def nth_append)
  qed
  have old: "?P ! m = P ! m" if "m < length P" for m using that by (simp add: nth_append)
  have held: "list_all2 (holds_play i ?P h') (h_held h) ms"
    using inv(2) by (rule list.rel_mono_strong) (use inv(4) old in \<open>auto simp: holds_play_def h'_def\<close>)
  have queued: "list_all2 (queues_play i ?P h') (h_queue h) ns"
    using inv(3) by (rule list.rel_mono_strong) (use inv(4) old in \<open>auto simp: queues_play_def h'_def\<close>)
  have "taken = map ((!) ?P) us" using inv(4) old by (auto simp: inv(5))
  then show "plays i 1 ?P h' taken us ms ns"
    using assms(2) content held queued inv(1) size(2)
    by (auto simp: plays_def h'_def mod_Suc_eq)
qed

lemma put_plays:
  assumes "pool_ok r c h" "plays i 1 P h taken us ms ns" "P = Q @ [(label, b)]" "length Q \<notin> set (us @ ms @ ns)"
    "j = (i + length Q) mod h_pool_size h"
  shows "pool_ok r c (put_nowait (j, label) h) \<and> (\<exists>ns'. plays i 0 P (put_nowait (j, label) h) taken us ms ns')"
proof (cases "h_queue_max h \<le> length (h_queue h)")
  case True
  have "list_all2 (holds_play i P (h\<lparr>h_dropped := h_dropped h + 1\<rparr>)) (h_held h) ms"
    using assms(2) unfolding plays_def by (elim conjE) (erule list_all2_mono, auto simp: holds_play_def)
  then have "plays i 0 P (h\<lparr>h_dropped := h_dropped h + 1\<rparr>) taken us ms ns"
    using assms(2) by (simp add: plays_def queues_play_def)
  with True assms(1) show ?thesis by (auto simp: put_nowait_def pool_ok_def)
next
  case False
  let ?h = "h\<lparr>h_queue := h_queue h @ [(j, label)]\<rparr>"
  have inv: "list_all2 (queues_play i P h) (h_queue h) ns" "\<forall>k < length ns. length P \<le> ns ! k + (length ns - k) + h_dropped h + 1"
    using assms(2) by (simp_all add: plays_def)
  have "list_all2 (queues_play i P ?h) (h_queue ?h) (ns @ [length Q])"
    using inv(1) assms(3,5) by (auto simp: queues_play_def intro!: list_all2_appendI)
  moreover have "length P \<le> (ns @ [length Q]) ! k + (length (ns @ [length Q]) - k) + h_dropped h + 0"
    if "k < length (ns @ [length Q])" for k
  proof (cases "k < length ns")
    case True
    with inv(2) have "length P \<le> ns ! k + (length ns - k) + h_dropped h + 1" by blast
    with True show ?thesis by (simp add: nth_append)
  next
    case False
    with that assms(3) show ?thesis by (simp add: nth_append)
  qed
  ultimately have "plays i 0 P ?h taken us ms (ns @ [length Q])"
    using assms(2,3,4) by (auto simp: plays_def holds_play_def)
  with False assms(1) show ?thesis by (auto simp: put_nowait_def pool_ok_def)
qed

section \<open>A session\<close>

definition session_ok :: "nat \<Rightarrow> session \<Rightarrow> bool" where
  "session_ok i s \<longleftrightarrow> player_ok (ss_player s) \<and> pool_ok (bp_channels (ss_player s)) (bp_chunk (ss_player s)) (ss_harness s) \<and>
     (\<exists>us ms ns. plays i 0 (ss_played s) (ss_harness s) (ss_taken s) us ms ns)"

abbreviation dropped :: "session \<Rightarrow> nat" where "dropped s \<equiv> h_dropped (ss_harness s)"

definition used :: "session \<Rightarrow> nat" where
  "used s = h_dropped (ss_harness s) + h_lag (ss_harness s)"

definition spare :: "session \<Rightarrow> nat" where
  "spare s = h_pool_size (ss_harness s) - h_queue_max (ss_harness s)"

lemma spare_room: "used s < spare s \<Longrightarrow>
    h_dropped (ss_harness s) + h_lag (ss_harness s) + h_queue_max (ss_harness s) < h_pool_size (ss_harness s)"
  by (simp add: used_def spare_def)

lemma workers_counts: "used s \<le> used (workers es s)" "spare (workers es s) = spare s"
proof -
  obtain h t where f: "fold worker es (ss_harness s, ss_taken s) = (h, t)" by (cases "fold worker es (ss_harness s, ss_taken s)")
  from workers_keep [OF f] show "used s \<le> used (workers es s)" "spare (workers es s) = spare s"
    by (simp_all add: workers_def f spare_def used_def)
qed

lemma workers_session:
  assumes "session_ok i s" "used (workers es s) < spare s"
  shows "session_ok i (workers es s)"
proof -
  obtain h t where f: "fold worker es (ss_harness s, ss_taken s) = (h, t)" by (cases "fold worker es (ss_harness s, ss_taken s)")
  have w: "workers es s = s\<lparr>ss_harness := h, ss_taken := t\<rparr>" by (simp add: workers_def f)
  have "used (workers es s) < spare (workers es s)" using assms(2) by (simp add: workers_counts)
  from spare_room [OF this] have room: "h_dropped h + h_lag h + h_queue_max h < h_pool_size h" by (simp add: w)
  obtain us ms ns where plays: "plays i 0 (ss_played s) (ss_harness s) (ss_taken s) us ms ns" and
    pool: "pool_ok (bp_channels (ss_player s)) (bp_chunk (ss_player s)) (ss_harness s)" and player: "player_ok (ss_player s)"
    using assms(1) by (auto simp: session_ok_def)
  from workers_keep [OF f, of "bp_channels (ss_player s)" "bp_chunk (ss_player s)" i 0 "ss_played s"] pool plays room
  have "pool_ok (bp_channels (ss_player s)) (bp_chunk (ss_player s)) h" "\<exists>us ms ns. plays i 0 (ss_played s) h t us ms ns"
    by (blast, metis le0 zero_le_one)
  with player show ?thesis by (simp add: session_ok_def w)
qed

lemma put_counts: "h_dropped h \<le> h_dropped (put_nowait x h)" "h_lag (put_nowait x h) = h_lag h" "same_size h (put_nowait x h)"
  by (simp_all add: put_nowait_def)

lemma stream_deliver_keeps:
  assumes "session_ok i s" "stream_deliver host f32 clock es s = Ok (b, s')" "used s' < spare s'"
  shows "session_ok i s'"
proof -
  let ?p = "ss_player s" and ?h = "ss_harness s"
  from assms(2) obtain ob p rest where f: "fetch host f32 ?p (ss_rest s) = Ok (ob, p, rest)"
    unfolding stream_deliver_def seqE_Ok_iff by (metis prod_cases3)
  note settings = fetch_settings [OF f]
  show ?thesis
  proof (cases ob)
    case None
    with assms(2) f have "s' = s\<lparr>ss_player := p, ss_rest := rest\<rparr>" by (simp add: stream_deliver_def)
    with assms(1) settings player_ok_settings [OF settings] show ?thesis by (simp add: session_ok_def)
  next
    case (Some blk)
    define h1 where "h1 = ?h\<lparr>h_pool_index := (h_pool_index ?h + 1) mod h_pool_size ?h, h_pool := (h_pool ?h)[h_pool_index ?h := blk],
      h_copied := h_copied ?h + 1\<rparr>"
    define label where "label = scenario_of (clock (ss_reads s) - clock 0)"
    let ?P = "ss_played s @ [(label, blk)]"
    have shaped: "block_shaped (bp_channels p) (bp_chunk p) blk"
      using fetch_shaped [OF f [unfolded Some]] assms(1) settings by (simp add: session_ok_def)
    have pool: "pool_ok (bp_channels p) (bp_chunk p) ?h" using assms(1) settings by (simp add: session_ok_def)
    obtain us ms ns where plays: "plays i 0 (ss_played s) ?h (ss_taken s) us ms ns" using assms(1) by (auto simp: session_ok_def)
    from pool_copy_plays [OF pool plays shaped, of label, folded h1_def]
    have h1: "pool_ok (bp_channels p) (bp_chunk p) h1" "plays i 1 ?P h1 (ss_taken s) us ms ns" by blast+
    obtain h2 taken2 where w: "fold worker es (h1, ss_taken s) = (h2, taken2)" by (cases "fold worker es (h1, ss_taken s)")
    have copy: "pool_copy p blk ?h = Ok (h_pool_index ?h, h1)" using pool_copy_ok [OF pool shaped] by (simp add: h1_def)
    let ?x = "(h_pool_index ?h, label)"
    have s': "s' = s\<lparr>ss_player := p, ss_rest := rest, ss_reads := Suc (ss_reads s), ss_played := ?P,
        ss_taken := taken2, ss_harness := put_nowait ?x h2, ss_count := Suc (ss_count s)\<rparr>"
      by (rule sym) (use assms(2) in \<open>simp add: stream_deliver_def f Some copy workers_def w Let_def label_def\<close>)
    have room: "h_dropped h2 + h_lag h2 + h_queue_max h2 < h_pool_size h2"
      using spare_room [OF assms(3)] put_counts [where h = h2 and x = ?x] by (simp add: s')
    note keep = workers_keep [OF w, of "bp_channels p" "bp_chunk p" i 1 ?P]
    with h1 room obtain us2 ms2 ns2 where 2: "plays i 1 ?P h2 taken2 us2 ms2 ns2" "set (us2 @ ms2 @ ns2) \<subseteq> set (us @ ms @ ns)"
      by (metis order_refl)
    have pool2: "pool_ok (bp_channels p) (bp_chunk p) h2" using keep h1(1) by blast
    have "set (us @ ms @ ns) \<subseteq> {..<length (ss_played s)}" using plays by (simp add: plays_def)
    with 2(2) have new: "length (ss_played s) \<notin> set (us2 @ ms2 @ ns2)" by auto
    have "h_pool_index ?h = (i + length (ss_played s)) mod h_pool_size ?h" using plays by (simp add: plays_def)
    moreover have "h_pool_size h2 = h_pool_size ?h" using keep by (simp add: h1_def)
    ultimately have "h_pool_index ?h = (i + length (ss_played s)) mod h_pool_size h2" by simp
    from put_plays [OF pool2 2(1) refl new this] have "pool_ok (bp_channels p) (bp_chunk p) (put_nowait ?x h2)"
      "\<exists>us ms ns. plays i 0 ?P (put_nowait ?x h2) taken2 us ms ns" by blast+
    then show ?thesis using assms(1) settings player_ok_settings [OF settings] by (simp add: session_ok_def s')
  qed
qed

text \<open>Every step counts up; a session that ends with few drops and short holds had few and short ones all the way.\<close>

lemma pool_copy_counts: "pool_copy p b h = Ok (i, h') \<Longrightarrow> h_dropped h' = h_dropped h \<and> same_size h h' \<and> h_lag h' = h_lag h"
  unfolding pool_copy_def Let_def
  by (cases "h_pool_size h = 0"; cases "length (h_pool h) \<le> h_pool_index h") (auto simp: seqE_Ok_iff)

lemma stream_deliver_counts:
  assumes "stream_deliver host f32 clock es s = Ok (b, s')"
  shows "used s \<le> used s' \<and> spare s' = spare s"
proof -
  from assms obtain ob p rest where f: "fetch host f32 (ss_player s) (ss_rest s) = Ok (ob, p, rest)"
    unfolding stream_deliver_def seqE_Ok_iff by (metis prod_cases3)
  show ?thesis
  proof (cases ob)
    case None
    with assms f show ?thesis by (auto simp: stream_deliver_def spare_def used_def)
  next
    case (Some blk)
    from assms f Some obtain i h where c: "pool_copy p blk (ss_harness s) = Ok (i, h)"
      by (cases "pool_copy p blk (ss_harness s)") (auto simp: stream_deliver_def Let_def)
    define x where "x = (i, scenario_of (clock (ss_reads s) - clock 0))"
    define s1 where "s1 = s\<lparr>ss_player := p, ss_rest := rest, ss_harness := h, ss_reads := Suc (ss_reads s),
      ss_played := ss_played s @ [(snd x, blk)]\<rparr>"
    from assms f Some c have s': "s' = (workers es s1)\<lparr>ss_harness := put_nowait x (ss_harness (workers es s1)), ss_count := ss_count (workers es s1) + 1\<rparr>"
      by (simp add: stream_deliver_def Let_def s1_def x_def)
    have "used s1 = used s" "spare s1 = spare s" using pool_copy_counts [OF c] by (simp_all add: s1_def used_def spare_def)
    moreover have "used (workers es s1) \<le> used s'" "spare s' = spare (workers es s1)"
      using put_counts [where h = "ss_harness (workers es s1)" and x = x] by (simp_all add: s' used_def spare_def)
    ultimately show ?thesis using workers_counts [where s = s1 and es = es] by simp
  qed
qed

lemma stream_loop_keeps:
  assumes "stream_loop host f32 clock evs i s = Some (Ok s')"
  shows "used s \<le> used s' \<and> spare s' = spare s \<and> (session_ok n s \<longrightarrow> used s' < spare s \<longrightarrow> session_ok n s')"
proof -
  have "\<forall>s'. r = Ok s' \<longrightarrow> used s \<le> used s' \<and> spare s' = spare s \<and> (session_ok n s \<longrightarrow> used s' < spare s \<longrightarrow> session_ok n s')"
    if "stream_loop host f32 clock evs i s = Some r" for r
  proof (rule stream_loop.raw_induct [where P = "\<lambda>host f32 clock evs i s r. \<forall>s'. r = Ok s' \<longrightarrow>
      used s \<le> used s' \<and> spare s' = spare s \<and> (session_ok n s \<longrightarrow> used s' < spare s \<longrightarrow> session_ok n s')", OF _ that])
    fix loop host f32 clock evs i s r
    assume IH: "\<And>host f32 clock evs i s r. loop host f32 clock evs i s = Some r \<Longrightarrow> \<forall>s'. r = Ok s' \<longrightarrow>
        used s \<le> used s' \<and> spare s' = spare s \<and> (session_ok n s \<longrightarrow> used s' < spare s \<longrightarrow> session_ok n s')"
      and ret: "(let s0 = workers (fst (evs i)) s in
        if \<not> (bp_running (ss_player s0) \<and> h_running (ss_harness s0)) then Some (Ok s0)
        else case stream_deliver host f32 clock (snd (evs i)) s0 of Inl e \<Rightarrow> Some (Fail e)
          | Inr r \<Rightarrow> if \<not> fst r then Some (Ok (snd r)) else Option.bind (throttle clock (snd r)) (loop host f32 clock evs (Suc i))) = Some r"
    let ?s0 = "workers (fst (evs i)) s"
    note s0 = workers_counts [where s = s and es = "fst (evs i)"] workers_session [of n s "fst (evs i)"]
    show "\<forall>s'. r = Ok s' \<longrightarrow> used s \<le> used s' \<and> spare s' = spare s \<and> (session_ok n s \<longrightarrow> used s' < spare s \<longrightarrow> session_ok n s')"
    proof (cases "bp_running (ss_player ?s0) \<and> h_running (ss_harness ?s0)")
      case False
      with ret s0 show ?thesis by (auto simp: Let_def)
    next
      case running: True
      show ?thesis
      proof (cases "stream_deliver host f32 clock (snd (evs i)) ?s0")
        case (Inl e)
        with ret running show ?thesis by (auto simp: Let_def)
      next
        case (Inr x)
        obtain b s1 where x: "x = (b, s1)" by (cases x)
        note d = Inr [unfolded x]
        note s1 = stream_deliver_counts [OF d] stream_deliver_keeps [OF _ d]
        have step: "session_ok n s1" if "session_ok n s" "used s1 < spare s"
        proof -
          have "used ?s0 < spare s" using that(2) s1(1) by simp
          with s0(3) that(1) have "session_ok n ?s0" by blast
          with s1(2) s1(1) s0(2) that(2) show ?thesis by simp
        qed
        show ?thesis
        proof (cases b)
          case False
          with ret running d x have "r = Ok s1" by (simp add: Let_def)
          with s0 s1 step show ?thesis by auto
        next
          case True
          with ret running d x obtain s2 where s2: "throttle clock s1 = Some s2" "loop host f32 clock evs (Suc i) s2 = Some r"
            by (auto simp: Let_def bind_eq_Some_conv)
          have same: "session_ok n s2 = session_ok n s1" "used s2 = used s1" "spare s2 = spare s1"
            using throttle_same [OF s2(1)] by (simp_all add: session_ok_def spare_def used_def)
          show ?thesis
          proof (intro allI impI)
            fix s' assume "r = Ok s'"
            with IH [OF s2(2)] have later: "used s2 \<le> used s'" "spare s' = spare s2"
              "session_ok n s2 \<longrightarrow> used s' < spare s2 \<longrightarrow> session_ok n s'" by auto
            then show "used s \<le> used s' \<and> spare s' = spare s \<and> (session_ok n s \<longrightarrow> used s' < spare s \<longrightarrow> session_ok n s')"
              using same s0(1,2) s1(1) step by auto
          qed
        qed
      qed
    qed
  qed
  with assms show ?thesis by blast
qed

text \<open>
  C25: Workers read what was played. Take a run over a fresh harness, with more buffers than queue places, in which the blocks
  dropped and the most blocks copied between the taking and the reading of any one block are together fewer than the
  difference. Then whatever the workers, the lockdown and the end of the run did in between, every block a worker read, when it
  read it, was a block that was played, under its own label, and none was read twice.
\<close>

theorem workers_take_played_blocks:
  assumes "stream_to_harness host_little f32 clock evs content p h = Some (Ok s)" "player_ok p"
    "pool_ok (bp_channels p) (bp_chunk p) h" "h_queue h = []" "h_held h = []" "h_copied h = 0"
    "h_dropped (ss_harness s) + h_lag (ss_harness s) < h_pool_size h - h_queue_max h"
  shows "\<exists>us. distinct us \<and> set us \<subseteq> {..<length (ss_played s)} \<and> ss_taken s = map ((!) (ss_played s)) us"
proof -
  define s0 where "s0 = \<lparr>ss_player = p, ss_rest = [], ss_harness = h, ss_taken = [], ss_played = [], ss_reads = 1, ss_next = clock 0, ss_count = 0\<rparr>"
  define s1 where "s1 = s0\<lparr>ss_player := p\<lparr>bp_running := True\<rparr>, ss_rest := (case content of None \<Rightarrow> [] | Some bs \<Rightarrow> bs)\<rparr>"
  show ?thesis
  proof (cases "\<not> bp_is_npy p \<and> content = None")
    case True
    with assms(1) have "s = s0" by (simp add: stream_to_harness_def Let_def s0_def)
    then show ?thesis by (simp add: s0_def)
  next
    case False
    with assms(1) obtain s2 where run: "stream_loop host_little f32 clock evs 0 s1 = Some (Ok s2)"
      and s: "s = s2\<lparr>ss_player := (ss_player s2)\<lparr>bp_running := False\<rparr>\<rparr>"
      unfolding stream_to_harness_def Let_def s1_def s0_def by (auto simp: bind_eq_Some_conv seqE_Ok_iff)
    have "player_ok (p\<lparr>bp_running := True\<rparr>)" using assms(2) by (cases "bp_npy p") (simp_all add: player_ok_def)
    moreover have "h_pool_index h = h_pool_index h mod h_pool_size h" using assms(3) by (simp add: pool_ok_def)
    then have "plays (h_pool_index h) 0 [] h [] [] [] []" using assms(4-6) by (simp add: plays_def)
    ultimately have "session_ok (h_pool_index h) s1" using assms(3) by (auto simp: session_ok_def s1_def s0_def)
    moreover have "used s2 < spare s1" using assms(7) by (simp add: s spare_def used_def s1_def s0_def)
    ultimately have "session_ok (h_pool_index h) s2" using stream_loop_keeps [OF run] by blast
    then obtain us ms ns where "plays (h_pool_index h) 0 (ss_played s2) (ss_harness s2) (ss_taken s2) us ms ns"
      by (auto simp: session_ok_def)
    then show ?thesis by (intro exI [of _ us]) (auto simp: plays_def s)
  qed
qed

text \<open>A small player and harness: chunks of one sample of one channel, two buffers and a queue of one place\<close>

definition small_player :: player where
  "small_player = \<lparr>bp_file = ''x.bin'', bp_rate = 1, bp_channels = 1, bp_type = Int16, bp_order = Little, bp_chunk = 1,
     bp_running = False, bp_duration = 1, bp_is_npy = False, bp_npy = None, bp_transpose = False, bp_total_samples = 0,
     bp_npy_index = 0, bp_raw = [0, 0, 0, 0], bp_flat = [0, 0], bp_complex = [[0]], bp_total_bytes = 0\<rparr>"

definition small_harness :: harness where
  "small_harness = \<lparr>h_running = True, h_pool_index = 0, h_pool_size = 2, h_pool = [[[0]], [[0]]], h_queue = [],
     h_queue_max = 1, h_dropped = 0, h_held = [], h_copied = 0, h_lag = 0\<rparr>"

lemma replicate_few: "replicate 2 x = [x, x]" "replicate 4 x = [x, x, x, x]"
  by (simp_all add: numeral_eq_Suc)

lemma small_player_init: "player_init ''x.bin'' 1 1 ''INT16'' ''Little'' 1 None = Ok small_player"
proof -
  have "parse_type ''INT16'' = Ok Int16" "parse_order ''Little'' = Ok Little" by code_simp+
  then show ?thesis by (simp add: player_init_def Let_def suffix_def small_player_def bytes_per_sample_def zero_block_def replicate_few)
qed

definition take_in :: "nat \<Rightarrow> nat \<Rightarrow> worker_event list \<times> worker_event list" where
  "take_in k i = (if i = k then ([Take, Use 0], []) else ([], []))"

lemmas stream_eval = stream_to_harness_def stream_loop.simps busy_wait.simps stream_deliver_def throttle_def fetch_def
  read_next_chunk_def bytes_per_chunk_def bytes_per_sample_def element_def planar_def pool_copy_def copyto_def put_nowait_def
  workers_def take_in_def small_player_def small_harness_def scenario_of_def unpack_signed_def

lemma one_block_taken:
  "\<exists>s. stream_to_harness True f32 real (take_in 1) (Some [7, 0, 0, 0]) small_player small_harness = Some (Ok s) \<and>
     ss_taken s = [(''normal'', [[Complex (7 / 32768) 0]])] \<and> dropped s = 0 \<and> h_lag (ss_harness s) = 0"
  by (simp add: stream_eval Let_def)

theorem workers_take_played_blocks_witness:
  "\<exists>s us. stream_to_harness True (\<lambda>_. 0) real (take_in 1) (Some [7, 0, 0, 0]) small_player small_harness = Some (Ok s) \<and>
     ss_taken s = [(''normal'', [[Complex (7 / 32768) 0]])] \<and> ss_taken s = map ((!) (ss_played s)) us"
proof -
  obtain s where s: "stream_to_harness True (\<lambda>_. 0) real (take_in 1) (Some [7, 0, 0, 0]) small_player small_harness = Some (Ok s)"
    "ss_taken s = [(''normal'', [[Complex (7 / 32768) 0]])]" "dropped s = 0" "h_lag (ss_harness s) = 0"
    using one_block_taken by blast
  have "\<exists>us. distinct us \<and> set us \<subseteq> {..<length (ss_played s)} \<and> ss_taken s = map ((!) (ss_played s)) us"
    by (rule workers_take_played_blocks [OF s(1)])
      (simp_all add: player_ok_def pool_ok_def block_shaped_def small_player_def small_harness_def s(3,4))
  with s show ?thesis by blast
qed

text \<open>
  A block can also be overwritten while a worker holds it: with two buffers, of three blocks played the first is taken at once
  and read after the third has been copied.
\<close>

definition slow_worker :: "nat \<Rightarrow> worker_event list \<times> worker_event list" where
  "slow_worker i = (if i = 1 then ([Take], []) else if i = 3 then ([Use 0], []) else ([], []))"

lemma held_block_overwritten:
  "\<exists>s. stream_to_harness True f32 real slow_worker (Some [1, 0, 0, 0, 2, 0, 0, 0, 3, 0, 0, 0]) small_player small_harness = Some (Ok s) \<and>
     ss_taken s = [(''normal'', [[Complex (3 / 32768) 0]])] \<and> h_lag (ss_harness s) = 2"
  by (simp add: stream_eval slow_worker_def Let_def)

text \<open>
  Dropped blocks use up buffers: with two buffers and a queue of one place, two drops suffice that a worker takes the
  third block of the capture in the place of the first, under the label of the first.
\<close>

theorem queued_block_overwritten:
  "\<exists>s. stream_to_harness True f32 real (take_in 3) (Some [1, 0, 0, 0, 2, 0, 0, 0, 3, 0, 0, 0]) small_player small_harness = Some (Ok s) \<and>
     map snd (ss_played s) = [[[Complex (1 / 32768) 0]], [[Complex (2 / 32768) 0]], [[Complex (3 / 32768) 0]]] \<and>
     ss_taken s = [(''normal'', [[Complex (3 / 32768) 0]])] \<and> h_dropped (ss_harness s) = 2"
  by (simp add: stream_eval Let_def)

section \<open>Every iq_block is played\<close>

definition chunks_of :: "nat \<Rightarrow> byte list \<Rightarrow> byte list list" where
  "chunks_of n bs = map (\<lambda>k. take n (drop (k * n) bs)) [0..<length bs div n]"

lemma chunks_of_short: "length bs < n \<Longrightarrow> chunks_of n bs = []"
  by (simp add: chunks_of_def)

lemma chunks_of_step: "0 < n \<Longrightarrow> n \<le> length bs \<Longrightarrow> chunks_of n bs = take n bs # chunks_of n (drop n bs)"
  by (simp add: chunks_of_def le_div_geq map_upt_Suc add.commute del: upt_Suc)

lemma chunk_block_settings: "same_settings p p' \<Longrightarrow> chunk_block host f32 p' bs = chunk_block host f32 p bs"
  unfolding chunk_block_def by (elim conjE) (simp only:)

lemma bytes_settings: "same_settings p p' \<Longrightarrow> bytes_per_chunk p' = bytes_per_chunk p"
  by (simp add: bytes_per_chunk_def)

definition playing :: "session \<Rightarrow> bool" where
  "playing s \<longleftrightarrow> \<not> bp_is_npy (ss_player s) \<and> bp_running (ss_player s) \<and> h_running (ss_harness s) \<and>
     pool_ok (bp_channels (ss_player s)) (bp_chunk (ss_player s)) (ss_harness s)"

lemma workers_playing:
  assumes "playing s" "Halt \<notin> set es" shows "playing (workers es s)"
proof -
  have *: "h_running h' \<and> pool_ok r c h'" if "fold worker es (h, t) = (h', t')" "h_running h" "pool_ok r c h" "Halt \<notin> set es" for h t h' t' r c
    using that
  proof (induction es arbitrary: h t)
    case (Cons ev es)
    obtain h1 t1 where 1: "worker ev (h, t) = (h1, t1)" by (cases "worker ev (h, t)")
    with Cons.prems have "h_running h1 \<and> pool_ok r c h1" by (cases ev) (auto simp: pool_ok_def split: list.splits if_splits prod.splits)
    with Cons 1 show ?case by simp
  qed simp
  obtain h t where f: "fold worker es (ss_harness s, ss_taken s) = (h, t)" by (cases "fold worker es (ss_harness s, ss_taken s)")
  from assms *[OF f] show ?thesis by (auto simp: playing_def workers_def f)
qed

lemma stream_deliver_full:
  assumes "playing s" "Halt \<notin> set es" "bytes_per_chunk (ss_player s) \<le> length (ss_rest s)"
  defines "n \<equiv> bytes_per_chunk (ss_player s)"
  shows "\<exists>s'. stream_deliver host f32 clock es s = Ok (True, s') \<and> playing s' \<and> ss_rest s' = drop n (ss_rest s) \<and>
    same_settings (ss_player s) (ss_player s') \<and> ss_count s' = ss_count s + 1 \<and> bp_total_bytes (ss_player s') = bp_total_bytes (ss_player s) + n \<and>
    map snd (ss_played s') = map snd (ss_played s) @ [chunk_block host f32 (ss_player s) (take n (ss_rest s))]"
proof -
  let ?p = "ss_player s" and ?blk = "chunk_block host f32 (ss_player s) (take n (ss_rest s))"
  obtain p where p: "read_next_chunk host f32 ?p (ss_rest s) = (Some ?blk, p, drop n (ss_rest s))" "bp_total_bytes p = bp_total_bytes ?p + n"
    using read_chunk_full [OF assms(3), of host f32] by (auto simp: n_def)
  note settings = read_settings [OF p(1)]
  have f: "fetch host f32 ?p (ss_rest s) = Ok (Some ?blk, p, drop n (ss_rest s))" using assms(1) p(1) by (simp add: fetch_def playing_def)
  have block_shaped: "block_shaped (bp_channels p) (bp_chunk p) ?blk" using settings by (simp add: chunk_block_def planar_shaped)
  have pool: "pool_ok (bp_channels p) (bp_chunk p) (ss_harness s)" using assms(1) settings by (simp add: playing_def)
  note copy = pool_copy_ok [OF pool block_shaped]
  define s1 where "s1 = s\<lparr>ss_player := p, ss_rest := drop n (ss_rest s),
    ss_harness := (ss_harness s)\<lparr>h_pool_index := (h_pool_index (ss_harness s) + 1) mod h_pool_size (ss_harness s),
      h_pool := (h_pool (ss_harness s))[h_pool_index (ss_harness s) := ?blk], h_copied := h_copied (ss_harness s) + 1\<rparr>,
    ss_reads := Suc (ss_reads s), ss_played := ss_played s @ [(scenario_of (clock (ss_reads s) - clock 0), ?blk)]\<rparr>"
  have "playing s1"
    using assms(1) settings pool block_shaped
    by (auto simp: playing_def s1_def pool_ok_def list_all_iff dest!: set_update_subset_insert [THEN subsetD])
  then have w: "playing (workers es s1)" using assms(2) by (rule workers_playing)
  define x where "x = (h_pool_index (ss_harness s), scenario_of (clock (ss_reads s) - clock 0))"
  have "stream_deliver host f32 clock es s = Ok (True, (workers es s1)\<lparr>ss_harness := put_nowait x (ss_harness (workers es s1)), ss_count := ss_count s + 1\<rparr>)"
    by (simp add: stream_deliver_def f copy Let_def s1_def x_def)
  moreover have "playing ((workers es s1)\<lparr>ss_harness := put_nowait x (ss_harness (workers es s1)), ss_count := ss_count s + 1\<rparr>)"
    using w by (simp add: playing_def pool_ok_def put_nowait_def)
  ultimately show ?thesis using settings p(2) by (intro exI conjI) (assumption, simp_all add: s1_def)
qed

lemma throttle_playing: "throttle clock s = Some s' \<Longrightarrow> playing s' = playing s"
  by (simp add: playing_def throttle_same)

definition no_halt :: "(nat \<Rightarrow> worker_event list \<times> worker_event list) \<Rightarrow> bool" where
  "no_halt evs \<longleftrightarrow> (\<forall>i. Halt \<notin> set (fst (evs i)) \<union> set (snd (evs i)))"

lemma stream_loop_plays:
  assumes "clock_advances clock" "no_halt evs"
    "playing s" "0 < bytes_per_chunk (ss_player s)"
  shows "\<exists>s'. stream_loop host f32 clock evs i s = Some (Ok s') \<and>
    map snd (ss_played s') = map snd (ss_played s) @ map (chunk_block host f32 (ss_player s)) (chunks_of (bytes_per_chunk (ss_player s)) (ss_rest s)) \<and>
    ss_count s' = ss_count s + length (ss_rest s) div bytes_per_chunk (ss_player s) \<and>
    bp_total_bytes (ss_player s') = bp_total_bytes (ss_player s) + length (ss_rest s) div bytes_per_chunk (ss_player s) * bytes_per_chunk (ss_player s)"
  using assms(3,4)
proof (induction "length (ss_rest s)" arbitrary: i s rule: less_induct)
  case less
  let ?s0 = "workers (fst (evs i)) s" and ?n = "bytes_per_chunk (ss_player s)"
  have s0: "playing ?s0" using less.prems(1) assms(2) by (intro workers_playing) (auto simp: no_halt_def)
  then have run: "bp_running (ss_player ?s0) \<and> h_running (ss_harness ?s0)" by (simp add: playing_def)
  note unf = stream_loop.simps [of host f32 clock evs i s]
  show ?case
  proof (cases "?n \<le> length (ss_rest s)")
    case False
    then obtain p' where r: "read_next_chunk host f32 (ss_player s) (ss_rest s) = (None, p', drop ?n (ss_rest s))"
      using read_chunk_eof by fastforce
    have "bp_total_bytes p' = bp_total_bytes (ss_player s)"
      using r False by (simp add: read_next_chunk_def Let_def) auto
    moreover have "stream_deliver host f32 clock (snd (evs i)) ?s0 = Ok (False, ?s0\<lparr>ss_player := p', ss_rest := drop ?n (ss_rest s)\<rparr>)"
      using s0 r by (simp add: stream_deliver_def fetch_def playing_def)
    ultimately show ?thesis using run False by (simp add: unf Let_def chunks_of_short)
  next
    case True
    have "bytes_per_chunk (ss_player ?s0) \<le> length (ss_rest ?s0)" using True by simp
    from stream_deliver_full [OF s0 _ this, of "snd (evs i)" host f32 clock] assms(2) [unfolded no_halt_def] obtain s1 where
      d: "stream_deliver host f32 clock (snd (evs i)) ?s0 = Ok (True, s1)" and s1: "playing s1" "ss_rest s1 = drop ?n (ss_rest s)"
        "same_settings (ss_player s) (ss_player s1)" "ss_count s1 = ss_count s + 1" "bp_total_bytes (ss_player s1) = bp_total_bytes (ss_player s) + ?n"
        "map snd (ss_played s1) = map snd (ss_played s) @ [chunk_block host f32 (ss_player s) (take ?n (ss_rest s))]"
      by auto
    obtain s2 where s2: "throttle clock s1 = Some s2" using throttle_ends [OF assms(1)] by blast
    note same = throttle_same [OF s2]
    have n: "bytes_per_chunk (ss_player s2) = ?n" using bytes_settings [OF s1(3)] same by simp
    have "length (ss_rest s2) < length (ss_rest s)" using same s1(2) less.prems(2) True by simp
    moreover have "playing s2" using throttle_playing [OF s2] s1(1) by simp
    moreover have "0 < bytes_per_chunk (ss_player s2)" using n less.prems(2) by simp
    ultimately obtain s' where s': "stream_loop host f32 clock evs (Suc i) s2 = Some (Ok s')"
      "map snd (ss_played s') = map snd (ss_played s2) @ map (chunk_block host f32 (ss_player s2)) (chunks_of ?n (ss_rest s2))"
      "ss_count s' = ss_count s2 + length (ss_rest s2) div ?n"
      "bp_total_bytes (ss_player s') = bp_total_bytes (ss_player s2) + length (ss_rest s2) div ?n * ?n"
      using less.hyps [of s2 "Suc i"] n by auto
    have div: "length (ss_rest s) div ?n = Suc (length (ss_rest s2) div ?n)"
      using same s1(2) less.prems(2) True by (simp add: le_div_geq)
    have blocks: "chunk_block host f32 (ss_player s2) = chunk_block host f32 (ss_player s)"
      using same chunk_block_settings [OF s1(3)] by (simp add: fun_eq_iff)
    have "stream_loop host f32 clock evs i s = Some (Ok s')" using run d s2 s'(1) by (simp add: unf Let_def)
    moreover have "map snd (ss_played s') = map snd (ss_played s) @ map (chunk_block host f32 (ss_player s)) (chunks_of ?n (ss_rest s))"
      using s'(2) same s1(2,6) blocks chunks_of_step [OF less.prems(2) True] by simp
    moreover have "ss_count s' = ss_count s + length (ss_rest s) div ?n" using s'(3) same s1(4) div by simp
    moreover have "bp_total_bytes (ss_player s') = bp_total_bytes (ss_player s) + length (ss_rest s) div ?n * ?n"
      using s'(4) same s1(5) div by simp
    ultimately show ?thesis by blast
  qed
qed

text \<open>
  A raw capture is played completely: unless the run is ended, every full chunk of the file is read once, in order, as the block
  its bytes stand for, drops or not; the rest that does not fill a chunk is not played, and the counters agree.
\<close>

theorem playback_complete:
  assumes "clock_advances clock" "no_halt evs" "\<not> bp_is_npy p" "h_running h"
    "pool_ok (bp_channels p) (bp_chunk p) h" "0 < bp_chunk p" "0 < bp_channels p"
  shows "\<exists>s. stream_to_harness host_little f32 clock evs (Some bs) p h = Some (Ok s) \<and>
    map snd (ss_played s) = map (chunk_block host_little f32 p) (chunks_of (bytes_per_chunk p) bs) \<and>
    ss_count s = length bs div bytes_per_chunk p \<and>
    bp_total_bytes (ss_player s) = bp_total_bytes p + length bs div bytes_per_chunk p * bytes_per_chunk p \<and> \<not> bp_running (ss_player s)"
proof -
  define q where "q = p\<lparr>bp_running := True\<rparr>"
  define s0 where "s0 = \<lparr>ss_player = q, ss_rest = bs, ss_harness = h, ss_taken = [], ss_played = [], ss_reads = 1, ss_next = clock 0, ss_count = 0\<rparr>"
  have q: "bytes_per_chunk q = bytes_per_chunk p" "chunk_block host_little f32 q = chunk_block host_little f32 p" "bp_total_bytes q = bp_total_bytes p"
    by (simp_all add: q_def bytes_per_chunk_def chunk_block_def fun_eq_iff)
  have "playing s0" using assms(3-5) by (simp add: playing_def s0_def q_def)
  moreover have "0 < bytes_per_chunk (ss_player s0)" using bytes_positive [OF assms(6,7)] by (simp add: s0_def q)
  ultimately obtain s' where s': "stream_loop host_little f32 clock evs 0 s0 = Some (Ok s')"
      "map snd (ss_played s') = map (chunk_block host_little f32 p) (chunks_of (bytes_per_chunk p) bs)"
      "ss_count s' = length bs div bytes_per_chunk p"
      "bp_total_bytes (ss_player s') = bp_total_bytes p + length bs div bytes_per_chunk p * bytes_per_chunk p"
    using stream_loop_plays [OF assms(1,2), where s = s0 and host = host_little and ?f32.0 = f32 and i = 0] by (auto simp: s0_def q)
  have "stream_to_harness host_little f32 clock evs (Some bs) p h = Some (Ok (s'\<lparr>ss_player := (ss_player s')\<lparr>bp_running := False\<rparr>\<rparr>))"
    using s'(1) assms(3) by (simp add: stream_to_harness_def Let_def s0_def q_def)
  with s' show ?thesis by simp
qed

lemma real_clock: "clock_advances real"
  unfolding clock_advances_def
proof (intro allI)
  fix t :: real and k :: nat
  obtain n where "t < real n" using reals_Archimedean2 by blast
  then have "k \<le> max k n \<and> t \<le> real (max k n)" by linarith
  then show "\<exists>n\<ge>k. t \<le> real n" by blast
qed

theorem playback_complete_witness:
  "\<exists>s. stream_to_harness True (\<lambda>_. 0) real (take_in 1) (Some [7, 0, 0, 0, 9]) small_player small_harness = Some (Ok s) \<and> ss_count s = 1"
proof -
  have "\<exists>s. stream_to_harness True (\<lambda>_. 0) real (take_in 1) (Some [7, 0, 0, 0, 9]) small_player small_harness = Some (Ok s) \<and>
    map snd (ss_played s) = map (chunk_block True (\<lambda>_. 0) small_player) (chunks_of (bytes_per_chunk small_player) [7, 0, 0, 0, 9]) \<and>
    ss_count s = length [7, 0, 0, 0, 9 :: byte] div bytes_per_chunk small_player \<and>
    bp_total_bytes (ss_player s) = bp_total_bytes small_player + length [7, 0, 0, 0, 9 :: byte] div bytes_per_chunk small_player * bytes_per_chunk small_player \<and>
    \<not> bp_running (ss_player s)"
    by (rule playback_complete [OF real_clock])
      (simp_all add: no_halt_def take_in_def small_player_def small_harness_def pool_ok_def block_shaped_def)
  then show ?thesis by (auto simp: small_player_def bytes_per_chunk_def bytes_per_sample_def)
qed

section \<open>What a capture holds is what is played\<close>

lemma concat_slice:
  assumes "\<And>i. i < m \<Longrightarrow> length (f i) = w" "i < m"
  shows "take w (drop (i * w) (concat (map f [0..<m]))) = f i"
proof -
  have len: "length (concat (map f [0..<j])) = j * w" if "j \<le> m" for j
    using that by (induction j) (simp_all add: assms(1))
  have "[0..<i + (m - i)] = [0..<i] @ [i..<i + (m - i)]" by (rule upt_add_eq_append) simp
  with assms(2) have "[0..<m] = [0..<i] @ i # [Suc i..<m]" by (simp add: upt_conv_Cons [of i m])
  then have "concat (map f [0..<m]) = concat (map f [0..<i]) @ f i @ concat (map f [Suc i..<m])" by simp
  moreover have "length (concat (map f [0..<i])) = i * w" using len [of i] assms(2) by simp
  ultimately show ?thesis using assms by simp
qed

lemma slice_slice: "a + w \<le> l \<Longrightarrow> take w (drop a (take l (drop t bs))) = take w (drop (t + a) bs)"
  by (simp add: drop_take add.commute)

definition number_bytes :: "bool \<Rightarrow> real \<Rightarrow> byte list" where
  "number_bytes host_little x = (let bs = le_bytes 2 (nat (int16_of x mod 2 ^ 16)) in if host_little then bs else rev bs)"

lemma capture_slice:
  assumes "s < n" "c < chans"
  shows "take 2 (drop (((s * chans + c) * 2) * 2) (capture_bytes host n chans data)) = number_bytes host (Re (data s c))"
    "take 2 (drop (((s * chans + c) * 2 + 1) * 2) (capture_bytes host n chans data)) = number_bytes host (Im (data s c))"
    "length (capture_bytes host n chans data) = n * (chans * 4)"
proof -
  have two: "length (number_bytes host x) = 2" for x by (simp add: number_bytes_def Let_def)
  define C where "C = (\<lambda>s c. number_bytes host (Re (data s c)) @ number_bytes host (Im (data s c)))"
  define S where "S = (\<lambda>s. concat (map (C s) [0..<chans]))"
  have C: "length (C s c) = 4" for s c by (simp add: C_def two)
  have S: "length (S s) = chans * 4" for s by (simp add: S_def length_concat C comp_def sum_list_triv)
  have all: "capture_bytes host n chans data = concat (map S [0..<n])"
    unfolding capture_bytes_def S_def C_def number_bytes_def by simp
  have 1: "take (chans * 4) (drop (s * (chans * 4)) (capture_bytes host n chans data)) = S s"
    unfolding all using S assms(1) by (intro concat_slice)
  have 2: "take 4 (drop (c * 4) (S s)) = C s c" unfolding S_def using C assms(2) by (intro concat_slice)
  have c: "c * 4 + 4 \<le> chans * 4" using mult_le_mono1 [of "Suc c" chans 4] assms(2) by simp
  have 3: "take 4 (drop (s * (chans * 4) + c * 4) (capture_bytes host n chans data)) = C s c"
    using slice_slice [OF c] 1 2 by metis
  have off: "((s * chans + c) * 2) * 2 = s * (chans * 4) + c * 4" "((s * chans + c) * 2 + 1) * 2 = s * (chans * 4) + c * 4 + 2"
    by (simp_all add: algebra_simps)
  have "take 2 (drop 0 (C s c)) = number_bytes host (Re (data s c))" "take 2 (drop 2 (C s c)) = number_bytes host (Im (data s c))"
    by (simp_all add: C_def two)
  then show "take 2 (drop (((s * chans + c) * 2) * 2) (capture_bytes host n chans data)) = number_bytes host (Re (data s c))"
    "take 2 (drop (((s * chans + c) * 2 + 1) * 2) (capture_bytes host n chans data)) = number_bytes host (Im (data s c))"
    using slice_slice [of 0 2 4 "s * (chans * 4) + c * 4" "capture_bytes host n chans data"]
      slice_slice [of 2 2 4 "s * (chans * 4) + c * 4" "capture_bytes host n chans data"]
    unfolding off 3 by simp_all
  show "length (capture_bytes host n chans data) = n * (chans * 4)" unfolding all by (simp add: length_concat S comp_def sum_list_triv)
qed

lemma int16_close:
  assumes "\<bar>x\<bar> \<le> 1" shows "- (2 ^ 15) \<le> int16_of x" "int16_of x < 2 ^ 15" "\<bar>of_int (int16_of x) * (1 / 32768) - x\<bar> \<le> 2 / 32768"
proof -
  have near: "\<bar>of_int (int16_of x) - x * 32767\<bar> < 1" unfolding int16_of_def by (cases "0 \<le> x * 32767") (simp_all, linarith+)
  with assms have "- 32768 < real_of_int (int16_of x)" "real_of_int (int16_of x) < 32768" by linarith+
  then show "- (2 ^ 15) \<le> int16_of x" "int16_of x < 2 ^ 15" by simp_all
  from near assms show "\<bar>of_int (int16_of x) * (1 / 32768) - x\<bar> \<le> 2 / 32768" by linarith
qed

definition host_order :: "bool \<Rightarrow> byte_order \<Rightarrow> bool" where
  "host_order host_little e \<longleftrightarrow> e = Native \<or> e = (if host_little then Little else Big)"

lemma number_read:
  assumes "\<bar>x\<bar> \<le> 1" "host_order host e"
  shows "unpack_signed (if e = Little \<or> e = Native \<and> host then number_bytes host x else rev (number_bytes host x)) = int16_of x"
proof -
  have "pack_signed 2 (int16_of x) = Ok (le_bytes 2 (nat (int16_of x mod 2 ^ 16)))"
    using int16_close(1,2) [OF assms(1)] by (simp add: pack_signed_def)
  then have "unpack_signed (le_bytes 2 (nat (int16_of x mod 2 ^ 16))) = int16_of x" using unpack_pack_signed by fastforce
  with assms(2) show ?thesis by (cases host; cases e) (simp_all add: number_bytes_def host_order_def)
qed

lemma element_int16:
  assumes "take 2 (drop (i * 2) bs) = number_bytes host x" "\<bar>x\<bar> \<le> 1" "host_order host e"
  shows "element host f32 Int16 e bs i = of_int (int16_of x) * (1 / 32768)"
proof -
  have w: "bytes_per_sample Int16 div 2 = 2" by (simp add: bytes_per_sample_def)
  show ?thesis unfolding element_def Let_def w assms(1) number_read [OF assms(2,3)] by simp
qed

text \<open>
  A 16-bit capture written by the self-test's generator and read back in chunks gives, in every chunk, channel and sample, the
  value that was written, to within 2/32768 in each component: nothing is shifted, swapped or lost between the interleaved
  file and the planar blocks.
\<close>

theorem capture_roundtrip:
  assumes "bp_type p = Int16" "host_order host_little (bp_order p)" "0 < bp_chunk p"
    "\<And>s c. \<bar>Re (data s c)\<bar> \<le> 1 \<and> \<bar>Im (data s c)\<bar> \<le> 1" "k < n div bp_chunk p" "c < bp_channels p" "s < bp_chunk p"
    and blk_def: "blk = chunk_block host_little f32 p (chunks_of (bytes_per_chunk p) (capture_bytes host_little n (bp_channels p) data) ! k)"
  shows "\<bar>Re (blk ! c ! s) - Re (data (k * bp_chunk p + s) c)\<bar> \<le> 2 / 32768 \<and> \<bar>Im (blk ! c ! s) - Im (data (k * bp_chunk p + s) c)\<bar> \<le> 2 / 32768"
proof -
  let ?M = "bp_channels p" and ?T = "bp_chunk p" and ?bs = "capture_bytes host_little n (bp_channels p) data"
  let ?N = "?T * (?M * 4)" and ?i = "(s * ?M + c) * 2" and ?x = "data (k * ?T + s) c"
  have N: "bytes_per_chunk p = ?N" using assms(1) by (simp add: bytes_per_chunk_def bytes_per_sample_def)
  have "Suc k * ?T \<le> n div ?T * ?T" using assms(5) by (intro mult_le_mono1) simp
  also have "\<dots> \<le> n" by (rule div_times_less_eq_dividend)
  finally have row: "k * ?T + s < n" using assms(7) by simp
  have len: "length ?bs = n * (?M * 4)" using capture_slice(3) [OF row assms(6)] .
  have M: "0 < ?M * 4" using assms(6) by simp
  have "length ?bs div ?N = n div ?T" using M by (simp add: len div_mult_mult2)
  then have slice: "chunks_of (bytes_per_chunk p) ?bs ! k = take ?N (drop (k * ?N) ?bs)" using assms(5) by (simp add: chunks_of_def N)
  have i: "(?i + b) * 2 + 2 \<le> ?N" if "b \<le> 1" for b
  proof -
    have "s * ?M + c + 1 \<le> ?T * ?M" using mult_le_mono1 [of "Suc s" ?T ?M] assms(6,7) by simp
    then have "(s * ?M + c + 1) * 4 \<le> ?T * ?M * 4" by (rule mult_le_mono1)
    with that show ?thesis by (simp add: algebra_simps)
  qed
  have off: "k * ?N + ?i * 2 = ((k * ?T + s) * ?M + c) * 2 * 2" "k * ?N + (?i + 1) * 2 = (((k * ?T + s) * ?M + c) * 2 + 1) * 2"
    by (simp_all add: algebra_simps)
  have 1: "take 2 (drop (?i * 2) (take ?N (drop (k * ?N) ?bs))) = number_bytes host_little (Re ?x)"
    using slice_slice [of "?i * 2" 2 ?N "k * ?N" ?bs] i [of 0] unfolding off capture_slice(1) [OF row assms(6), of host_little data] by simp
  have 2: "take 2 (drop ((?i + 1) * 2) (take ?N (drop (k * ?N) ?bs))) = number_bytes host_little (Im ?x)"
    using slice_slice [of "(?i + 1) * 2" 2 ?N "k * ?N" ?bs] i [of 1] unfolding off capture_slice(2) [OF row assms(6), of host_little data] by simp
  have x: "\<bar>Re ?x\<bar> \<le> 1" "\<bar>Im ?x\<bar> \<le> 1" using assms(4) by blast+
  note re = element_int16 [OF 1 x(1) assms(2)] and im = element_int16 [OF 2 x(2) assms(2)]
  have "?i + 1 < ?T * ?M * 2" using i [of 1] by simp
  then have "blk ! c ! s = Complex (of_int (int16_of (Re ?x)) * (1 / 32768)) (of_int (int16_of (Im ?x)) * (1 / 32768))"
    using assms(1,6,7) re im by (simp add: blk_def chunk_block_def planar_def slice)
  then show ?thesis using int16_close(3) assms(4) by simp
qed

theorem capture_roundtrip_witness:
  "\<bar>Re (chunk_block True (\<lambda>_. 0) small_player (chunks_of (bytes_per_chunk small_player) (capture_bytes True 3 1 (\<lambda>s c. Complex (1 / 2) (- 1))) ! 2) ! 0 ! 0)
     - 1 / 2\<bar> \<le> 2 / 32768"
  using capture_roundtrip [of small_player True "\<lambda>s c. Complex (1 / 2) (- 1)" 2 3 0 0 _ "\<lambda>_. 0", OF _ _ _ _ _ _ _ refl]
  by (simp add: small_player_def host_order_def)

end
