(* ===== verification/Polyphase.thy ===== *)
theory Polyphase
  imports Prelude
begin

text \<open>
  \<^verbatim>\<open>polyphase_decimator.py\<close>: the Kaiser-windowed prototype, its polyphase matrix, the sliding input buffer and the
  decimating core. Single-precision numbers are exact; \<open>filter_taps\<close> is positive.
\<close>

section \<open>Filter design\<close>

text \<open>\<^verbatim>\<open>for k in range(1, 50)\<close> with its early exit\<close>

fun i0_loop :: "real \<Rightarrow> nat list \<Rightarrow> real \<Rightarrow> real \<Rightarrow> real" where
  "i0_loop x2 [] ans trm = ans"
| "i0_loop x2 (k # ks) ans trm =
     (let trm' = trm * (x2 / (real k * real k)); ans' = ans + trm'
      in if trm' < ans' / 10 ^ 15 then ans' else i0_loop x2 ks ans' trm')"

definition i0 :: "real \<Rightarrow> real" where
  "i0 x = i0_loop ((x / 2)\<^sup>2) [1..<50] 1 1"

definition centre :: "nat \<Rightarrow> real" where
  "centre N = (real N - 1) / 2"

definition kaiser_window :: "nat \<Rightarrow> real \<Rightarrow> fault + real list" where
  "kaiser_window N beta =
     (if 0 < N \<and> centre N = 0 \<or> i0 beta = 0 then Fail ZeroDivisionError
      else Ok (map (\<lambda>n. let v = (real n - centre N) / centre N in i0 (beta * sqrt (1 - v\<^sup>2)) / i0 beta) [0..<N]))"

definition design_lowpass_prototype :: "nat \<Rightarrow> nat \<Rightarrow> real \<Rightarrow> fault + real list" where
  "design_lowpass_prototype M N beta =
     seqE (kaiser_window N beta) (\<lambda>w.
       let fc = 1 / real M;
           h = map (\<lambda>n. if real n = centre N then 2 * fc
                 else let x = 2 * pi * fc * (real n - centre N) in sin x / (pi * (real n - centre N))) [0..<N];
           hw = map2 (*) h w; h_sum = sum_list hw
       in if h_sum = 0 \<and> 0 < N then Fail ZeroDivisionError else Ok (map (\<lambda>v. v / h_sum) hw))"

section \<open>The decimator\<close>

record decimator =
  channels :: nat
  stride_size :: nat
  dec_M :: nat
  dec_N :: nat
  L_sub :: nat
  h_poly :: "real list list"
  in_buffer :: "complex list list"
  out_buffer :: "complex list list"

definition poly_matrix :: "nat \<Rightarrow> nat \<Rightarrow> real list \<Rightarrow> real list list" where
  "poly_matrix M L h_rev = map (\<lambda>k. map (\<lambda>n. h_rev ! (n * M + k)) [0..<L]) [0..<M]"

definition decimator_init :: "nat \<Rightarrow> nat \<Rightarrow> nat \<Rightarrow> nat option \<Rightarrow> fault + decimator" where
  "decimator_init chans strd M filter_taps =
     (if M = 0 then Fail ZeroDivisionError
      else if strd mod M \<noteq> 0 then Fail ValueError
      else let base_taps = (case filter_taps of None \<Rightarrow> 24 * M | Some n \<Rightarrow> n);
               N = nat \<lceil>real base_taps / real M\<rceil> * M; L = N div M
           in seqE (design_lowpass_prototype M N 6) (\<lambda>h.
                Ok \<lparr>channels = chans, stride_size = strd, dec_M = M, dec_N = N, L_sub = L,
                    h_poly = poly_matrix M L (rev h),
                    in_buffer = replicate chans (replicate (N - 1 + strd) 0),
                    out_buffer = replicate chans (replicate (strd div M) 0)\<rparr>))"

text \<open>The two copying loops of \<^verbatim>\<open>_shift_and_load_buffer\<close> for one channel\<close>

fun slide_loop :: "nat \<Rightarrow> nat list \<Rightarrow> complex list \<Rightarrow> fault + complex list" where
  "slide_loop strd [] buf = Ok buf"
| "slide_loop strd (i # is) buf =
     seqE (load buf (i + strd)) (\<lambda>v. seqE (store buf i v) (slide_loop strd is))"

fun inject_loop :: "nat \<Rightarrow> complex list \<Rightarrow> nat list \<Rightarrow> complex list \<Rightarrow> fault + complex list" where
  "inject_loop hist new [] buf = Ok buf"
| "inject_loop hist new (i # is) buf =
     seqE (load new i) (\<lambda>v. seqE (store buf (hist + i) v) (inject_loop hist new is))"

definition shift_and_load :: "nat \<Rightarrow> nat \<Rightarrow> complex list \<Rightarrow> complex list \<Rightarrow> fault + complex list" where
  "shift_and_load hist strd new buf = seqE (slide_loop strd [0..<hist] buf) (inject_loop hist new [0..<strd])"

text \<open>One output: the sum over the branches of the sub-filters' outputs\<close>

definition branch :: "real list list \<Rightarrow> nat \<Rightarrow> nat \<Rightarrow> complex list \<Rightarrow> nat \<Rightarrow> nat \<Rightarrow> fault + complex" where
  "branch poly M L buf base_idx k =
     seqE (mapE (\<lambda>n. seqE (load buf (base_idx + n * M + k)) (\<lambda>v. Ok (v * complex_of_real (poly ! k ! n)))) [0..<L])
       (\<lambda>vs. Ok (sum_list vs))"

definition decimate_core :: "real list list \<Rightarrow> nat \<Rightarrow> nat \<Rightarrow> nat \<Rightarrow> complex list \<Rightarrow> fault + complex list" where
  "decimate_core poly M L num_outputs buf =
     mapE (\<lambda>m. seqE (mapE (branch poly M L buf (m * M)) [0..<M]) (\<lambda>bs. Ok (sum_list bs))) [0..<num_outputs]"

definition decimate_stride :: "complex list list \<Rightarrow> decimator \<Rightarrow> fault + decimator" where
  "decimate_stride iq_stride d =
     (if length iq_stride \<noteq> channels d \<or> \<not> list_all (\<lambda>r. length r = stride_size d) iq_stride then Fail ValueError
      else seqE (mapE (\<lambda>(new, buf). shift_and_load (dec_N d - 1) (stride_size d) new buf) (zip iq_stride (in_buffer d))) (\<lambda>bufs.
        seqE (mapE (decimate_core (h_poly d) (dec_M d) (L_sub d) (stride_size d div dec_M d)) bufs) (\<lambda>outs.
          Ok (d\<lparr>in_buffer := bufs, out_buffer := outs\<rparr>))))"

text \<open>A run collects the output of every stride.\<close>

fun decimate_run :: "complex list list list \<Rightarrow> decimator \<Rightarrow> fault + (complex list list list \<times> decimator)" where
  "decimate_run [] d = Ok ([], d)"
| "decimate_run (x # xs) d =
     seqE (decimate_stride x d) (\<lambda>d1. seqE (decimate_run xs d1) (\<lambda>(ys, d2). Ok (out_buffer d1 # ys, d2)))"

section \<open>Sliding\<close>

lemma slide_loop_eq:
  "m \<le> H \<Longrightarrow> length buf = H + S \<Longrightarrow> 0 < S \<Longrightarrow>
     slide_loop S [m..<H] buf = Ok (take m buf @ drop (m + S) buf @ drop H buf)"
proof (induction m arbitrary: buf rule: inc_induct)
  case base
  then show ?case by simp
next
  case (step m)
  have upt: "[m..<H] = m # [Suc m..<H]" using step.hyps by (simp add: upt_rec)
  let ?b = "buf[m := buf ! (m + S)]"
  have "slide_loop S [m..<H] buf = slide_loop S [Suc m..<H] ?b"
    using step.hyps step.prems unfolding upt by (simp add: load_def store_def)
  also have "\<dots> = Ok (take (Suc m) ?b @ drop (Suc m + S) ?b @ drop H ?b)"
    using step.prems by (intro step.IH) simp_all
  also have "\<dots> = Ok (take m buf @ drop (m + S) buf @ drop H buf)"
  proof -
    have "take (Suc m) ?b = take m buf @ [buf ! (m + S)]" "drop (Suc m + S) ?b = drop (Suc m + S) buf" "drop H ?b = drop H buf"
      using step.hyps step.prems by (simp_all add: take_Suc_conv_app_nth)
    moreover have "drop (m + S) buf = buf ! (m + S) # drop (Suc m + S) buf"
      using step.hyps step.prems by (simp add: Cons_nth_drop_Suc)
    ultimately show ?thesis by simp
  qed
  finally show ?case .
qed

lemma inject_loop_eq:
  "m \<le> S \<Longrightarrow> length new = S \<Longrightarrow> length buf = H + S \<Longrightarrow>
     inject_loop H new [m..<S] buf = Ok (take (H + m) buf @ drop m new)"
proof (induction m arbitrary: buf rule: inc_induct)
  case (step m)
  have upt: "[m..<S] = m # [Suc m..<S]" using step.hyps by (simp add: upt_rec)
  let ?b = "buf[H + m := new ! m]"
  have "inject_loop H new [m..<S] buf = inject_loop H new [Suc m..<S] ?b"
    using step.hyps step.prems unfolding upt by (simp add: load_def store_def)
  also have "\<dots> = Ok (take (H + Suc m) ?b @ drop (Suc m) new)"
    using step.prems by (intro step.IH) simp_all
  also have "take (H + Suc m) ?b = take (H + m) buf @ [new ! m]"
    using step.hyps step.prems by (simp add: take_Suc_conv_app_nth)
  also have "(take (H + m) buf @ [new ! m]) @ drop (Suc m) new = take (H + m) buf @ drop m new"
    using step.hyps step.prems by (simp add: Cons_nth_drop_Suc)
  finally show ?case .
qed simp

lemma shift_and_load_eq:
  assumes "length buf = H + S" "length new = S" "0 < S"
  shows "shift_and_load H S new buf = Ok (drop S buf @ new)"
  using assms slide_loop_eq [of 0 H buf S] inject_loop_eq [of 0 S new "drop S buf @ drop H buf" H]
  by (simp add: shift_and_load_def)

section \<open>The polyphase form of a convolution\<close>

lemma sum_groups: "(\<Sum>k<(M :: nat). \<Sum>n<L. f (n * M + k)) = (\<Sum>i<L * M. (f i :: complex))"
proof -
  have "(\<Sum>k<M. \<Sum>n<L. f (n * M + k)) = (\<Sum>n<L. \<Sum>k<M. f (n * M + k))" by (rule sum.swap)
  also have "\<dots> = (\<Sum>n<L. sum f {n * M..<n * M + M})"
  proof (rule sum.cong [OF refl])
    fix n :: nat
    show "(\<Sum>k<M. f (n * M + k)) = sum f {n * M..<n * M + M}"
      by (rule sum.reindex_bij_witness [of _ "\<lambda>i. i - n * M" "\<lambda>k. n * M + k"]) auto
  qed
  also have "\<dots> = (\<Sum>i<L * M. f i)" by (rule sum.nat_group)
  finally show ?thesis .
qed

lemma sum_list_upt: "sum_list (map f [0..<n]) = (\<Sum>k<n. (f k :: complex))"
  by (simp add: interv_sum_list_conv_sum_set_nat atLeast0LessThan)

lemma decimate_core_eq:
  assumes "length buf = L * M - 1 + S" "S mod M = 0" "0 < M" "0 < L" "length h_rev = L * M"
  shows "decimate_core (poly_matrix M L h_rev) M L (S div M) buf =
    Ok (map (\<lambda>m. \<Sum>i<L * M. buf ! (m * M + i) * complex_of_real (h_rev ! i)) [0..<S div M])"
proof -
  have bound: "m * M + n * M + k < length buf" if "m < S div M" "n < L" "k < M" for m n k
  proof -
    have "n * M + k < L * M" using mult_le_mono1 [of "Suc n" L M] that by simp
    moreover have "m * M + M \<le> S"
    proof -
      have "Suc m * M \<le> S div M * M" using that(1) by (intro mult_le_mono1) simp
      also have "\<dots> \<le> S" by (rule div_times_less_eq_dividend)
      finally show ?thesis by simp
    qed
    ultimately show ?thesis using assms(1,3) by linarith
  qed
  have "branch (poly_matrix M L h_rev) M L buf (m * M) k =
      Ok (\<Sum>n<L. buf ! (m * M + (n * M + k)) * complex_of_real (h_rev ! (n * M + k)))" if "m < S div M" "k < M" for m k
  proof -
    have "mapE (\<lambda>n. seqE (load buf (m * M + n * M + k)) (\<lambda>v. Ok (v * complex_of_real (poly_matrix M L h_rev ! k ! n)))) [0..<L] =
        Ok (map (\<lambda>n. buf ! (m * M + (n * M + k)) * complex_of_real (h_rev ! (n * M + k))) [0..<L])"
      using bound [OF that(1) _ that(2)] that(2) by (intro mapE_Ok) (simp add: load_def poly_matrix_def add.assoc)
    then show ?thesis by (simp add: branch_def sum_list_upt)
  qed
  then have "mapE (branch (poly_matrix M L h_rev) M L buf (m * M)) [0..<M] =
      Ok (map (\<lambda>k. \<Sum>n<L. buf ! (m * M + (n * M + k)) * complex_of_real (h_rev ! (n * M + k))) [0..<M])" if "m < S div M" for m
    using that by (intro mapE_Ok) simp
  then show ?thesis unfolding decimate_core_def
    by (intro mapE_Ok) (simp add: sum_list_upt sum_groups [of "\<lambda>i. buf ! (_ + i) * complex_of_real (h_rev ! i)"])
qed

section \<open>Streams of strides\<close>

definition dec_ok :: "real list \<Rightarrow> decimator \<Rightarrow> bool" where
  "dec_ok h d \<longleftrightarrow> length (in_buffer d) = channels d \<and>
     list_all (\<lambda>r. length r = dec_N d - 1 + stride_size d) (in_buffer d) \<and>
     h_poly d = poly_matrix (dec_M d) (L_sub d) (rev h) \<and> dec_N d = L_sub d * dec_M d \<and> length h = dec_N d \<and>
     0 < dec_M d \<and> 0 < L_sub d \<and> stride_size d mod dec_M d = 0 \<and> 0 < stride_size d"

definition fits_stride :: "decimator \<Rightarrow> complex list list \<Rightarrow> bool" where
  "fits_stride d x \<longleftrightarrow> length x = channels d \<and> list_all (\<lambda>r. length r = stride_size d) x"

definition filtered :: "real list \<Rightarrow> decimator \<Rightarrow> complex list \<Rightarrow> complex list" where
  "filtered h d buf = map (\<lambda>m. \<Sum>i<dec_N d. buf ! (m * dec_M d + i) * complex_of_real (rev h ! i)) [0..<stride_size d div dec_M d]"

lemma mapE_zip_Ok:
  "length xs = length ys \<Longrightarrow> (\<And>i. i < length xs \<Longrightarrow> f (xs ! i, ys ! i) = Ok (g (xs ! i) (ys ! i))) \<Longrightarrow>
     mapE f (zip xs ys) = Ok (map2 g xs ys)"
proof (induction xs ys rule: list_induct2)
  case (Cons x xs y ys)
  from Cons.prems [of 0] have "f (x, y) = Ok (g x y)" by simp
  moreover have "mapE f (zip xs ys) = Ok (map2 g xs ys)"
  proof (rule Cons.IH)
    fix i assume "i < length xs"
    with Cons.prems [of "Suc i"] show "f (xs ! i, ys ! i) = Ok (g (xs ! i) (ys ! i))" by simp
  qed
  ultimately show ?case by simp
qed simp

lemma decimate_stride_ok:
  assumes "dec_ok h d" "fits_stride d x"
  defines "bufs \<equiv> map2 (\<lambda>new buf. drop (stride_size d) buf @ new) x (in_buffer d)"
  shows "decimate_stride x d = Ok (d\<lparr>in_buffer := bufs, out_buffer := map (filtered h d) bufs\<rparr>)"
    and "dec_ok h (d\<lparr>in_buffer := bufs, out_buffer := map (filtered h d) bufs\<rparr>)"
proof -
  let ?S = "stride_size d" and ?H = "dec_N d - 1"
  have len: "length x = length (in_buffer d)" "length x = channels d"
    and rows: "\<And>c. c < channels d \<Longrightarrow> length (in_buffer d ! c) = ?H + ?S \<and> length (x ! c) = ?S"
    using assms(1,2) by (auto simp: dec_ok_def fits_stride_def list_all_length)
  have shape: "length b = ?H + ?S" if "b \<in> set bufs" for b
  proof -
    from that obtain c where c: "c < channels d" "b = drop ?S (in_buffer d ! c) @ x ! c"
      using len by (auto simp: bufs_def set_zip)
    with rows [OF c(1)] show ?thesis by simp
  qed
  have "mapE (\<lambda>(new, buf). shift_and_load ?H ?S new buf) (zip x (in_buffer d)) = Ok bufs"
    unfolding bufs_def using len rows assms(1)
    by (intro mapE_zip_Ok) (auto simp: shift_and_load_eq dec_ok_def)
  moreover have "mapE (decimate_core (h_poly d) (dec_M d) (L_sub d) (?S div dec_M d)) bufs = Ok (map (filtered h d) bufs)"
  proof (rule mapE_Ok)
    fix b assume "b \<in> set bufs"
    from shape [OF this] assms(1)
    show "decimate_core (h_poly d) (dec_M d) (L_sub d) (?S div dec_M d) b = Ok (filtered h d b)"
      by (simp add: dec_ok_def filtered_def decimate_core_eq)
  qed
  ultimately show "decimate_stride x d = Ok (d\<lparr>in_buffer := bufs, out_buffer := map (filtered h d) bufs\<rparr>)"
    using assms(2) by (simp add: decimate_stride_def fits_stride_def)
  show "dec_ok h (d\<lparr>in_buffer := bufs, out_buffer := map (filtered h d) bufs\<rparr>)"
  proof -
    have "length bufs = channels d" using len by (simp add: bufs_def)
    moreover have "list_all (\<lambda>r. length r = ?H + ?S) bufs" using shape by (simp add: list_all_iff)
    ultimately show ?thesis using assms(1) by (simp add: dec_ok_def)
  qed
qed

lemma decimate_run_ok:
  "dec_ok h d \<Longrightarrow> list_all (fits_stride d) xs \<Longrightarrow>
    \<exists>ys d'. decimate_run xs d = Ok (ys, d') \<and> length ys = length xs \<and>
      (\<forall>t < length xs. \<forall>c < channels d. \<forall>m < stride_size d div dec_M d.
         ys ! t ! c ! m = (\<Sum>i<dec_N d. (in_buffer d ! c @ concat (map (\<lambda>x. x ! c) xs)) !
            ((t + 1) * stride_size d + m * dec_M d + i) * complex_of_real (rev h ! i)))"
proof (induction xs arbitrary: d)
  case (Cons x xs)
  let ?S = "stride_size d" and ?M = "dec_M d" and ?N = "dec_N d"
  define bufs where "bufs = map2 (\<lambda>new buf. drop ?S buf @ new) x (in_buffer d)"
  define d1 where "d1 = d\<lparr>in_buffer := bufs, out_buffer := map (filtered h d) bufs\<rparr>"
  have "fits_stride d1 = fits_stride d" by (rule ext) (simp add: d1_def fits_stride_def)
  then have x: "fits_stride d x" "list_all (fits_stride d1) xs" using Cons.prems(2) by simp_all
  note step = decimate_stride_ok [OF Cons.prems(1) x(1), folded bufs_def, folded d1_def]
  obtain ys d' where run: "decimate_run xs d1 = Ok (ys, d')" "length ys = length xs"
    and out: "\<And>t c m. t < length xs \<Longrightarrow> c < channels d \<Longrightarrow> m < ?S div ?M \<Longrightarrow>
      ys ! t ! c ! m = (\<Sum>i<?N. (bufs ! c @ concat (map (\<lambda>x. x ! c) xs)) ! ((t + 1) * ?S + m * ?M + i) * complex_of_real (rev h ! i))"
    using Cons.IH [OF step(2) x(2)] by (auto simp: d1_def)
  have chan: "bufs ! c = drop ?S (in_buffer d ! c) @ x ! c" "length (in_buffer d ! c) = ?N - 1 + ?S" "length (x ! c) = ?S"
    if "c < channels d" for c
    using that Cons.prems(1) x(1) by (auto simp: bufs_def dec_ok_def fits_stride_def list_all_length)
  have stream: "(bufs ! c @ rest) ! k = (in_buffer d ! c @ x ! c @ rest) ! (?S + k)" if "c < channels d" for c k rest
  proof -
    have "bufs ! c @ rest = drop ?S (in_buffer d ! c @ x ! c @ rest)" using chan [OF that] by simp
    moreover have "?S \<le> length (in_buffer d ! c @ x ! c @ rest)" using chan [OF that] by simp
    ultimately show ?thesis by (simp only: nth_drop)
  qed
  have "(out_buffer d1 # ys) ! t ! c ! m = (\<Sum>i<?N. (in_buffer d ! c @ concat (map (\<lambda>x. x ! c) (x # xs))) !
      ((t + 1) * ?S + m * ?M + i) * complex_of_real (rev h ! i))"
    if t: "t < length (x # xs)" and c: "c < channels d" and m: "m < ?S div ?M" for t c m
  proof (cases t)
    case 0
    have "c < length bufs" using c Cons.prems(1) x(1) by (simp add: bufs_def dec_ok_def fits_stride_def)
    then have "(out_buffer d1 # ys) ! t ! c ! m = (\<Sum>i<?N. bufs ! c ! (m * ?M + i) * complex_of_real (rev h ! i))"
      using 0 m by (simp add: d1_def filtered_def)
    also have "\<dots> = (\<Sum>i<?N. (bufs ! c @ concat (map (\<lambda>x. x ! c) xs)) ! (m * ?M + i) * complex_of_real (rev h ! i))"
    proof (intro sum.cong refl)
      fix i assume "i \<in> {..<?N}"
      moreover have "m * ?M + ?M \<le> ?S"
      proof -
        have "Suc m * ?M \<le> ?S div ?M * ?M" using m by (intro mult_le_mono1) simp
        also have "\<dots> \<le> ?S" by (rule div_times_less_eq_dividend)
        finally show ?thesis by simp
      qed
      moreover have "length (bufs ! c) = ?N - 1 + ?S" using chan [OF c] by simp
      moreover have "0 < ?M" using Cons.prems(1) by (simp add: dec_ok_def)
      ultimately have "m * ?M + i < length (bufs ! c)" by simp
      then show "bufs ! c ! (m * ?M + i) * complex_of_real (rev h ! i) =
          (bufs ! c @ concat (map (\<lambda>x. x ! c) xs)) ! (m * ?M + i) * complex_of_real (rev h ! i)"
        by (simp add: nth_append)
    qed
    finally show ?thesis using 0 stream [OF c] by (simp add: add.assoc)
  next
    case (Suc t')
    with out [of t' c m] t c m stream [OF c] show ?thesis by (simp add: add.assoc)
  qed
  then show ?case using step(1) run by (auto simp del: nth_Cons_Suc nth_Cons_0)
qed simp

lemma i0_loop_ge: "0 \<le> trm \<Longrightarrow> 0 \<le> x2 \<Longrightarrow> ans \<le> i0_loop x2 ks ans trm"
proof (induction ks arbitrary: ans trm)
  case (Cons k ks)
  let ?t = "trm * (x2 / (real k * real k))"
  have t: "0 \<le> ?t" using Cons.prems by simp
  from Cons.IH [OF t Cons.prems(2), of "ans + ?t"] t have "ans \<le> i0_loop x2 ks (ans + ?t) ?t" by linarith
  with t show ?case unfolding i0_loop.simps Let_def by (simp split: if_split)
qed simp

lemma i0_pos: "1 \<le> i0 x"
  by (simp add: i0_def i0_loop_ge)

lemma kaiser_length: "kaiser_window N beta = Ok w \<Longrightarrow> length w = N"
  unfolding kaiser_window_def by (cases "0 < N \<and> centre N = 0 \<or> i0 beta = 0") (auto simp: Let_def)

lemma design_length:
  assumes "design_lowpass_prototype M N beta = Ok h"
  shows "length h = N"
proof -
  obtain w where w: "kaiser_window N beta = Ok w" using assms unfolding design_lowpass_prototype_def seqE_Ok_iff by blast
  define hw where "hw = map2 (*) (map (\<lambda>n. if real n = centre N then 2 * (1 / real M)
    else sin (2 * pi * (1 / real M) * (real n - centre N)) / (pi * (real n - centre N))) [0..<N]) w"
  have "length hw = N" using kaiser_length [OF w] by (simp add: hw_def)
  moreover have "(if sum_list hw = 0 \<and> 0 < N then Fail ZeroDivisionError else Ok (map (\<lambda>v. v / sum_list hw) hw)) = Ok h"
    using assms unfolding design_lowpass_prototype_def w seqE_simps Let_def hw_def [symmetric] .
  ultimately show ?thesis by (cases "sum_list hw = 0 \<and> 0 < N") (auto simp: if_not_P)
qed

lemma decimator_init_ok:
  assumes "decimator_init chans S M taps = Ok d" "0 < S" "taps \<noteq> Some 0"
  shows "\<exists>h. design_lowpass_prototype M (dec_N d) 6 = Ok h \<and> dec_ok h d \<and> channels d = chans \<and> stride_size d = S \<and>
    dec_M d = M \<and> (\<forall>c < chans. in_buffer d ! c = replicate (dec_N d - 1 + S) 0)"
proof -
  define base where "base = (case taps of None \<Rightarrow> 24 * M | Some n \<Rightarrow> n)"
  define L where "L = nat \<lceil>real base / real M\<rceil>"
  define N where "N = L * M"
  have M: "0 < M" using assms(1) by (cases "M = 0") (simp_all add: decimator_init_def)
  have mod: "S mod M = 0" using assms(1) M by (cases "S mod M = 0") (simp_all add: decimator_init_def)
  have L: "N div M = L" using M by (simp add: N_def)
  have unf: "decimator_init chans S M taps = seqE (design_lowpass_prototype M N 6) (\<lambda>h.
      Ok \<lparr>channels = chans, stride_size = S, dec_M = M, dec_N = N, L_sub = L, h_poly = poly_matrix M L (rev h),
        in_buffer = replicate chans (replicate (N - 1 + S) 0), out_buffer = replicate chans (replicate (S div M) 0)\<rparr>)"
    using M mod unfolding decimator_init_def base_def [symmetric] L_def [symmetric] N_def [symmetric] Let_def L by simp
  obtain h where h: "design_lowpass_prototype M N 6 = Ok h"
    and d: "d = \<lparr>channels = chans, stride_size = S, dec_M = M, dec_N = N, L_sub = L, h_poly = poly_matrix M L (rev h),
      in_buffer = replicate chans (replicate (N - 1 + S) 0), out_buffer = replicate chans (replicate (S div M) 0)\<rparr>"
    using assms(1) unfolding unf seqE_Ok_iff by auto
  have "0 < base" using assms(3) M by (auto simp: base_def split: option.splits)
  then have "0 < real base / real M" using M by simp
  then have "0 < L" unfolding L_def by linarith
  then have "dec_ok h d" using M mod assms(2) design_length [OF h] by (simp add: d dec_ok_def list_all_iff N_def)
  then show ?thesis using h by (intro exI [of _ h]) (simp add: d)
qed

text \<open>
  C27: A fresh decimator never fails on strides of its shape, and over any number of strides its outputs are the causal convolution
  of the whole input stream (zeros before its start) with the prototype filter, kept at every \<open>M\<close>-th sample: the polyphase
  form and the sliding buffer leave no trace at stride boundaries.
\<close>

theorem decimation_is_filtering:
  assumes "decimator_init chans S M taps = Ok d" "0 < S" "taps \<noteq> Some 0" "list_all (fits_stride d) xs"
  shows "\<exists>h ys d'. design_lowpass_prototype M (dec_N d) 6 = Ok h \<and> decimate_run xs d = Ok (ys, d') \<and> length ys = length xs \<and>
    (\<forall>t < length xs. \<forall>c < chans. \<forall>m < S div M.
       ys ! t ! c ! m = (\<Sum>j<dec_N d. complex_of_real (h ! j) *
         (let p = t * S + m * M in if j \<le> p then concat (map (\<lambda>x. x ! c) xs) ! (p - j) else 0)))"
proof -
  obtain h where h: "design_lowpass_prototype M (dec_N d) 6 = Ok h" and ok: "dec_ok h d"
    and d: "channels d = chans" "stride_size d = S" "dec_M d = M" "\<And>c. c < chans \<Longrightarrow> in_buffer d ! c = replicate (dec_N d - 1 + S) 0"
    using decimator_init_ok [OF assms(1-3)] by auto
  obtain ys d' where run: "decimate_run xs d = Ok (ys, d')" "length ys = length xs"
    and out: "\<And>t c m. t < length xs \<Longrightarrow> c < chans \<Longrightarrow> m < S div M \<Longrightarrow>
      ys ! t ! c ! m = (\<Sum>i<dec_N d. (in_buffer d ! c @ concat (map (\<lambda>x. x ! c) xs)) ! ((t + 1) * S + m * M + i) * complex_of_real (rev h ! i))"
    using decimate_run_ok [OF ok assms(4)] d by auto
  have "ys ! t ! c ! m = (\<Sum>j<dec_N d. complex_of_real (h ! j) *
         (let p = t * S + m * M in if j \<le> p then concat (map (\<lambda>x. x ! c) xs) ! (p - j) else 0))"
    if t: "t < length xs" "c < chans" "m < S div M" for t c m
  proof -
    let ?X = "concat (map (\<lambda>x. x ! c) xs)" and ?N = "dec_N d" and ?p = "t * S + m * M"
    let ?f = "\<lambda>i. (in_buffer d ! c @ ?X) ! ((t + 1) * S + m * M + i) * complex_of_real (rev h ! i)"
    have N: "length h = ?N" using ok by (simp add: dec_ok_def)
    have "?f (?N - Suc j) = complex_of_real (h ! j) * (if j \<le> ?p then ?X ! (?p - j) else 0)" if j: "j < ?N" for j
    proof -
      have "rev h ! (?N - Suc j) = h ! j" using j N by (simp add: rev_nth)
      moreover have "(in_buffer d ! c @ ?X) ! ((t + 1) * S + m * M + (?N - Suc j)) = (if j \<le> ?p then ?X ! (?p - j) else 0)"
      proof (cases "j \<le> ?p")
        case True
        then have i: "(t + 1) * S + m * M + (?N - Suc j) = length (in_buffer d ! c) + (?p - j)"
          using j d(4) [OF t(2)] by simp
        show ?thesis unfolding i nth_append_length_plus using True by simp
      next
        case False
        then have i: "(t + 1) * S + m * M + (?N - Suc j) < ?N - 1 + S" using j by simp
        show ?thesis unfolding d(4) [OF t(2)] using i False by (simp only: nth_append_left length_replicate nth_replicate if_False)
      qed
      ultimately show ?thesis by simp
    qed
    then have "(\<Sum>j<?N. ?f (?N - Suc j)) = (\<Sum>j<?N. complex_of_real (h ! j) * (if j \<le> ?p then ?X ! (?p - j) else 0))"
      by (intro sum.cong) auto
    then show ?thesis using out [OF t] sum.nat_diff_reindex [of ?f ?N] by (simp add: Let_def)
  qed
  with h run show ?thesis by blast
qed

lemma small_decimator: "\<exists>d. decimator_init 1 2 2 (Some 2) = Ok d"
proof -
  have c: "centre 2 = 1 / 2" by (simp add: centre_def)
  have i: "i0 6 \<noteq> 0" "i0 0 = 1" using i0_pos [of 6] by (auto simp: i0_def upt_rec)
  have w: "kaiser_window 2 6 = Ok [1 / i0 6, 1 / i0 6]"
    using i by (simp add: kaiser_window_def c Let_def upt_rec power2_eq_square)
  have "sin (pi / 2) = 1" "sin (- (pi / 2)) = - 1" by simp_all
  then have "design_lowpass_prototype 2 2 6 \<noteq> Fail e" for e
    using i0_pos [of 6] by (simp add: design_lowpass_prototype_def w c Let_def upt_rec field_simps)
  then obtain h where "design_lowpass_prototype 2 2 6 = Ok h" by (cases "design_lowpass_prototype 2 2 6") auto
  then show ?thesis by (simp add: decimator_init_def)
qed

theorem decimation_is_filtering_witness:
  "\<exists>d ys d'. decimator_init 1 2 2 (Some 2) = Ok d \<and> decimate_run [[[1, 2]], [[3, 4]]] d = Ok (ys, d') \<and> length ys = 2"
proof -
  obtain d where d: "decimator_init 1 2 2 (Some 2) = Ok d" using small_decimator by blast
  from decimator_init_ok [OF d] have "fits_stride d = fits_stride d" and f: "list_all (fits_stride d) [[[1, 2]], [[3, 4]]]"
    by (auto simp: fits_stride_def)
  from decimation_is_filtering [OF d _ _ f] d show ?thesis by auto
qed

end
