(* ===== verification/Peak_Finder.thy ===== *)
theory Peak_Finder
  imports Prelude "HOL-Library.Multiset"
begin

text \<open>
  \<^verbatim>\<open>spatial_peak_finder.py\<close>: the sweep over the interior of a spectrum grid for strict local maxima above an
  adaptive threshold, the three best of which are kept and published in slots. Single-precision numbers are exact reals; the
  kernel reads the real parts of the grid.
\<close>

section \<open>The kernel\<close>

text \<open>A value with its two grid coordinates; the three arrays of length three are three of these.\<close>

type_synonym peak_entry = "real \<times> real \<times> real"
type_synonym top3 = "peak_entry \<times> peak_entry \<times> peak_entry"

type_synonym grid = "complex list list"

definition cell :: "grid \<Rightarrow> nat \<Rightarrow> nat \<Rightarrow> real" where
  "cell g i j = Re (g ! i ! j)"

definition peak_threshold :: "real \<Rightarrow> grid \<Rightarrow> nat \<Rightarrow> nat \<Rightarrow> real" where
  "peak_threshold threshold_factor g M_az M_el =
     (let sum_val = (\<Sum>i<M_az. \<Sum>j<M_el. cell g i j);
          mean_val = sum_val / real (M_az * M_el);
          sum_sq_diff = (\<Sum>i<M_az. \<Sum>j<M_el. (cell g i j - mean_val) * (cell g i j - mean_val));
          std_val = sqrt (sum_sq_diff / real (M_az * M_el))
      in mean_val + threshold_factor * std_val)"

definition is_max :: "grid \<Rightarrow> nat \<Rightarrow> nat \<Rightarrow> bool" where
  "is_max g i j = (let val = cell g i j in
     cell g (i - 1) (j - 1) < val \<and> cell g (i - 1) j < val \<and> cell g (i - 1) (j + 1) < val \<and>
     cell g i (j - 1) < val \<and> cell g i (j + 1) < val \<and>
     cell g (i + 1) (j - 1) < val \<and> cell g (i + 1) j < val \<and> cell g (i + 1) (j + 1) < val)"

text \<open>The shift-and-insert step\<close>

fun insert_peak :: "peak_entry \<Rightarrow> top3 \<Rightarrow> top3" where
  "insert_peak x (p0, p1, p2) =
     (if fst p0 < fst x then (x, p0, p1)
      else if fst p1 < fst x then (p0, x, p1)
      else if fst p2 < fst x then (p0, p1, x)
      else (p0, p1, p2))"

definition no_peak :: peak_entry where
  "no_peak = (0, 0, 0)"

text \<open>The cells in the order of the two loops\<close>

definition interior :: "nat \<Rightarrow> nat \<Rightarrow> (nat \<times> nat) list" where
  "interior M_az M_el = concat (map (\<lambda>i. map (Pair i) [1..<M_el - 1]) [1..<M_az - 1])"

definition peak_step :: "grid \<Rightarrow> real list \<Rightarrow> real list \<Rightarrow> real \<Rightarrow> nat \<times> nat \<Rightarrow> top3 \<Rightarrow> top3" where
  "peak_step g az el threshold = (\<lambda>(i, j) p.
     if cell g i j \<le> threshold then p
     else if is_max g i j then insert_peak (cell g i j, az ! i, el ! j) p else p)"

text \<open>A row shorter than the first, or a coordinate list shorter than the grid, is read out of bounds.\<close>

definition find_peaks_kernel :: "grid \<Rightarrow> real list \<Rightarrow> real list \<Rightarrow> real \<Rightarrow> fault + top3" where
  "find_peaks_kernel g az el threshold_factor =
     (let M_az = length g; M_el = (if g = [] then 0 else length (hd g))
      in if M_az * M_el = 0 then Fail ZeroDivisionError
         else if \<not> list_all (\<lambda>r. length r = M_el) g \<or> length az < M_az \<or> length el < M_el then Fail OutOfBounds
         else Ok (fold (peak_step g az el (peak_threshold threshold_factor g M_az M_el)) (interior M_az M_el)
                    (no_peak, no_peak, no_peak)))"

section \<open>The finder\<close>

record peak_slot =
  slot_valid :: bool
  slot_azimuth :: real
  slot_elevation :: real
  slot_value :: real

record peak_finder =
  angles_az_deg :: "real list"
  angles_el_deg :: "real list"
  threshold_factor :: real
  shared_slots :: "peak_slot list"

text \<open>\<^verbatim>\<open>np.arange\<close>\<close>

definition arange :: "real \<Rightarrow> real \<Rightarrow> real \<Rightarrow> real list" where
  "arange start stop stp = map (\<lambda>k. start + real k * stp) [0..<nat \<lceil>(stop - start) / stp\<rceil>]"

definition empty_slot :: peak_slot where
  "empty_slot = \<lparr>slot_valid = False, slot_azimuth = 0, slot_elevation = 0, slot_value = 0\<rparr>"

definition finder_init :: "real \<Rightarrow> real \<Rightarrow> real \<Rightarrow> peak_finder" where
  "finder_init step_az step_el factor = \<lparr>angles_az_deg = arange (- 90) (90 + 1 / 100000) step_az,
     angles_el_deg = arange 0 (90 + 1 / 100000) step_el, threshold_factor = factor, shared_slots = replicate 3 empty_slot\<rparr>"

definition publish :: "peak_entry \<Rightarrow> peak_slot" where
  "publish p = (if 0 < fst p
     then \<lparr>slot_valid = True, slot_azimuth = fst (snd p), slot_elevation = snd (snd p), slot_value = fst p\<rparr>
     else empty_slot)"

definition find_peaks :: "grid \<Rightarrow> peak_finder \<Rightarrow> fault + (top3 \<times> peak_finder)" where
  "find_peaks g f =
     seqE (find_peaks_kernel g (angles_az_deg f) (angles_el_deg f) (threshold_factor f)) (\<lambda>p.
       case p of (p0, p1, p2) \<Rightarrow> Ok (p, f\<lparr>shared_slots := [publish p0, publish p1, publish p2]\<rparr>))"

section \<open>The three slots hold the three highest peaks\<close>

text \<open>Insertion into a descending list behind equal values, and its effect on the first three places.\<close>

fun insert_desc :: "peak_entry \<Rightarrow> peak_entry list \<Rightarrow> peak_entry list" where
  "insert_desc x [] = [x]"
| "insert_desc x (y # ys) = (if fst y < fst x then x # y # ys else y # insert_desc x ys)"

definition top_of :: "peak_entry list \<Rightarrow> top3" where
  "top_of L = (let M = L @ [no_peak, no_peak, no_peak] in (M ! 0, M ! 1, M ! 2))"

lemma insert_peak_top:
  assumes "0 < fst x" shows "insert_peak x (top_of L) = top_of (insert_desc x L)"
proof -
  consider "L = []" | a where "L = [a]" | a b where "L = [a, b]" | a b c M where "L = a # b # c # M"
    by (metis list.exhaust)
  then show ?thesis using assms by cases (auto simp: top_of_def no_peak_def Let_def)
qed

lemma insert_peak_nonpositive:
  assumes "fst x \<le> 0" "list_all (\<lambda>p. 0 < fst p) L" shows "insert_peak x (top_of L) = top_of L"
proof -
  consider "L = []" | a where "L = [a]" | a b where "L = [a, b]" | a b c M where "L = a # b # c # M"
    by (metis list.exhaust)
  then show ?thesis using assms by cases (auto simp: top_of_def no_peak_def Let_def)
qed

lemma mset_insert_desc [simp]: "mset (insert_desc x L) = add_mset x (mset L)"
  by (induction L) auto

lemma set_insert_desc [simp]: "set (insert_desc x L) = insert x (set L)"
  by (induction L) auto

abbreviation descending :: "peak_entry \<Rightarrow> real" where "descending p \<equiv> - fst p"

lemma sorted_insert_desc: "sorted (map descending L) \<Longrightarrow> sorted (map descending (insert_desc x L))"
  by (induction L) auto

lemma filter_insert_desc: "sorted (map descending L) \<Longrightarrow>
    filter (\<lambda>p. descending p = v) (insert_desc x L) = filter (\<lambda>p. descending p = v) L @ (if descending x = v then [x] else [])"
proof (induction L)
  case (Cons y L)
  show ?case
  proof (cases "fst y < fst x \<and> descending x = v")
    case True
    with Cons.prems have "\<forall>p \<in> set (y # L). descending p \<noteq> v" by auto
    then have "filter (\<lambda>p. descending p = v) (y # L) = []" by (simp only: filter_empty_conv)
    with True show ?thesis by (simp only: insert_desc.simps if_True filter.simps(2) [of _ x]) simp
  qed (use Cons in auto)
qed simp

lemma sort_snoc: "sort_key descending (xs @ [x]) = insert_desc x (sort_key descending xs)"
proof (rule properties_for_sort_key)
  fix k assume "k \<in> set (insert_desc x (sort_key descending xs))"
  have "filter (\<lambda>p. descending p = descending k) (insert_desc x (sort_key descending xs)) =
      filter (\<lambda>p. descending p = descending k) (xs @ [x])"
    by (simp only: filter_insert_desc sorted_sort_key sort_key_stable filter_append filter.simps if_cancel)
  then show "filter (\<lambda>p. descending k = descending p) (insert_desc x (sort_key descending xs)) =
      filter (\<lambda>p. descending k = descending p) (xs @ [x])"
    by (simp only: eq_commute)
qed (simp_all add: sorted_insert_desc)

definition peaks :: "grid \<Rightarrow> real list \<Rightarrow> real list \<Rightarrow> real \<Rightarrow> (nat \<times> nat) list \<Rightarrow> peak_entry list" where
  "peaks g az el threshold cells = map (\<lambda>(i, j). (cell g i j, az ! i, el ! j))
     (filter (\<lambda>(i, j). threshold < cell g i j \<and> is_max g i j \<and> 0 < cell g i j) cells)"

lemma fold_peak_step:
  "fold (peak_step g az el threshold) cells (top_of []) = top_of (sort_key descending (peaks g az el threshold cells))"
proof (induction cells rule: rev_induct)
  case Nil
  then show ?case by (simp add: peaks_def)
next
  case (snoc c cells)
  obtain i j where c: "c = (i, j)" by (cases c)
  let ?x = "(cell g i j, az ! i, el ! j)" and ?L = "sort_key descending (peaks g az el threshold cells)"
  have pos: "list_all (\<lambda>p. 0 < fst p) ?L" by (auto simp: list_all_iff peaks_def)
  show ?case
  proof (cases "threshold < cell g i j \<and> is_max g i j")
    case True
    show ?thesis
    proof (cases "0 < cell g i j")
      case True
      then have "peaks g az el threshold (cells @ [c]) = peaks g az el threshold cells @ [?x]"
        using \<open>threshold < cell g i j \<and> is_max g i j\<close> by (simp add: peaks_def c)
      with True \<open>threshold < cell g i j \<and> is_max g i j\<close> snoc show ?thesis
        by (simp add: peak_step_def c sort_snoc insert_peak_top)
    next
      case False
      then have "peaks g az el threshold (cells @ [c]) = peaks g az el threshold cells" by (simp add: peaks_def c)
      with False \<open>threshold < cell g i j \<and> is_max g i j\<close> snoc insert_peak_nonpositive [of ?x ?L] pos show ?thesis
        by (simp add: peak_step_def c)
    qed
  next
    case False
    then have "peaks g az el threshold (cells @ [c]) = peaks g az el threshold cells" by (auto simp: peaks_def c)
    with False snoc show ?thesis by (auto simp: peak_step_def c)
  qed
qed

lemma set_interior: "(i, j) \<in> set (interior M_az M_el) \<longleftrightarrow> 0 < i \<and> i < M_az - 1 \<and> 0 < j \<and> j < M_el - 1"
  by (auto simp: interior_def intro!: bexI [of _ i])

text \<open>
  C29: On a rectangular grid with its coordinates the finder never fails, and the three results it returns are, in this order,
  the three highest of the interior cells that exceed all eight neighbours, the adaptive threshold and zero, highest first and
  earlier cells first among equals, filled up with zeros; the slots publish exactly them, and slots without a peak are empty.
\<close>

theorem slots_hold_highest_peaks:
  assumes "g \<noteq> []" "hd g \<noteq> []" "list_all (\<lambda>r. length r = length (hd g)) g"
    and "length g \<le> length (angles_az_deg f)" "length (hd g) \<le> length (angles_el_deg f)"
  defines "threshold \<equiv> peak_threshold (threshold_factor f) g (length g) (length (hd g))"
  defines "found \<equiv> sort_key (\<lambda>p. - fst p) (map (\<lambda>(i, j). (cell g i j, angles_az_deg f ! i, angles_el_deg f ! j))
     (filter (\<lambda>(i, j). threshold < cell g i j \<and> is_max g i j \<and> 0 < cell g i j) (interior (length g) (length (hd g)))))"
  shows "find_peaks g f = Ok (((found @ replicate 3 no_peak) ! 0, (found @ replicate 3 no_peak) ! 1, (found @ replicate 3 no_peak) ! 2),
     f\<lparr>shared_slots := take 3 (map publish found @ replicate 3 empty_slot)\<rparr>)"
proof -
  have found: "found = sort_key descending (peaks g (angles_az_deg f) (angles_el_deg f) threshold (interior (length g) (length (hd g))))"
    by (simp add: found_def peaks_def)
  have "top_of [] = (no_peak, no_peak, no_peak)" by (simp add: top_of_def)
  then have kernel: "find_peaks_kernel g (angles_az_deg f) (angles_el_deg f) (threshold_factor f) = Ok (top_of found)"
    using assms(1-5) fold_peak_step [of g "angles_az_deg f" "angles_el_deg f" threshold "interior (length g) (length (hd g))"]
    by (simp add: find_peaks_kernel_def Let_def found threshold_def)
  have "publish no_peak = empty_slot" by (simp add: publish_def no_peak_def)
  then have "(case top_of L of (p0, p1, p2) \<Rightarrow> [publish p0, publish p1, publish p2]) =
      take 3 (map publish L @ replicate 3 empty_slot)" for L
  proof -
    consider "L = []" | a where "L = [a]" | a b where "L = [a, b]" | a b c M where "L = a # b # c # M"
      by (metis list.exhaust)
    then show ?thesis using \<open>publish no_peak = empty_slot\<close> by cases (auto simp: top_of_def Let_def numeral_3_eq_3)
  qed
  then have slots: "(case top_of found of (p0, p1, p2) \<Rightarrow> [publish p0, publish p1, publish p2]) =
      take 3 (map publish found @ replicate 3 empty_slot)" .
  obtain p0 p1 p2 where top: "top_of found = (p0, p1, p2)" by (cases "top_of found")
  then have "((found @ replicate 3 no_peak) ! 0, (found @ replicate 3 no_peak) ! 1, (found @ replicate 3 no_peak) ! 2) = (p0, p1, p2)"
    by (simp add: top_of_def Let_def numeral_3_eq_3)
  then show ?thesis unfolding find_peaks_def kernel top seqE_simps prod.case slots [unfolded top prod.case] by (simp only:)
qed

definition small_grid :: grid where
  "small_grid = [[0, 0, 0], [0, 5, 0], [0, 0, 0]]"

definition small_finder :: peak_finder where
  "small_finder = \<lparr>angles_az_deg = [10, 20, 30], angles_el_deg = [40, 50, 60], threshold_factor = 0,
     shared_slots = replicate 3 empty_slot\<rparr>"

theorem slots_hold_highest_peaks_witness:
  "find_peaks small_grid small_finder = Ok (((5, 20, 50), no_peak, no_peak), small_finder\<lparr>shared_slots :=
     [\<lparr>slot_valid = True, slot_azimuth = 20, slot_elevation = 50, slot_value = 5\<rparr>, empty_slot, empty_slot]\<rparr>)"
proof -
  have cells: "interior 3 3 = [(1, 1)]" by (simp add: interior_def upt_rec)
  have "peak_threshold 0 small_grid 3 3 = 5 / 9"
    by (simp add: peak_threshold_def small_grid_def cell_def Let_def numeral_3_eq_3)
  moreover have "cell small_grid 1 1 = 5" "is_max small_grid 1 1"
    by (simp_all add: small_grid_def cell_def is_max_def Let_def)
  ultimately show ?thesis
    using slots_hold_highest_peaks [of small_grid small_finder] cells
    by (simp add: small_finder_def publish_def numeral_3_eq_3 [symmetric]) (simp add: small_grid_def numeral_3_eq_3 publish_def)
qed

end
