(* ===== verification/Spaced_Events.thy ===== *)
theory Spaced_Events
  imports Prelude
begin

text \<open>
  The contract of a component that reports an event only when enough steps have passed since
  the last one: a weight handover with its settling counter, a frequency bin with its own
  counter, the block-size tuner with its hold timer. The locale's lemma is the distance of any
  two events of a run.
\<close>

fun event_run :: "('i \<Rightarrow> 's \<Rightarrow> fault + (bool \<times> 's)) \<Rightarrow> 'i list \<Rightarrow> 's \<Rightarrow> fault + (bool list \<times> 's)" where
  "event_run step [] s = Ok ([], s)"
| "event_run step (i # is) s =
     seqE (step i s) (\<lambda>(b, s1). seqE (event_run step is s1) (\<lambda>(bs, s2). Ok (b # bs, s2)))"

lemma event_run_length: "event_run step is s = Ok (bs, s') \<Longrightarrow> length bs = length is"
  by (induction step "is" s arbitrary: bs s' rule: event_run.induct) (auto simp: seqE_Ok_iff)

text \<open>\<open>spaced gap c bs\<close>: no event comes less than \<open>gap\<close> steps after the one before it, the last one before the
  run being \<open>c\<close> steps back.\<close>

fun spaced :: "int \<Rightarrow> int \<Rightarrow> bool list \<Rightarrow> bool" where
  "spaced gap c [] = True"
| "spaced gap c (b # bs) = (if b then gap \<le> c + 1 \<and> spaced gap 0 bs else spaced gap (c + 1) bs)"

lemma spaced_mono: "spaced gap c bs \<Longrightarrow> c \<le> c' \<Longrightarrow> spaced gap c' bs"
  by (induction gap c bs arbitrary: c' rule: spaced.induct) (auto split: if_splits)

lemma spaced_first: "spaced gap c bs \<Longrightarrow> 0 \<le> c \<Longrightarrow> j < length bs \<Longrightarrow> bs ! j \<Longrightarrow> gap \<le> c + int j + 1"
proof (induction gap c bs arbitrary: j rule: spaced.induct)
  case (2 gap c b bs)
  then show ?case by (cases j) (fastforce split: if_splits)+
qed simp

lemma spaced_apart: "spaced gap c bs \<Longrightarrow> 0 \<le> c \<Longrightarrow> j < length bs \<Longrightarrow> i < j \<Longrightarrow> bs ! i \<Longrightarrow> bs ! j \<Longrightarrow>
    gap \<le> int j - int i"
proof (induction gap c bs arbitrary: i j rule: spaced.induct)
  case (2 gap c b bs)
  obtain k where k: "j = Suc k" using "2.prems"(4) by (cases j) auto
  show ?case
  proof (cases i)
    case 0
    with "2.prems" k have "spaced gap 0 bs" "bs ! k" "k < length bs" by (auto split: if_splits)
    with spaced_first [of gap 0 bs k] 0 k show ?thesis by simp
  next
    case (Suc i')
    with "2.prems" "2.IH" k show ?thesis by (auto split: if_splits)
  qed
qed simp

locale spaced_events =
  fixes step :: "'i \<Rightarrow> 's \<Rightarrow> fault + (bool \<times> 's)" and since :: "'s \<Rightarrow> int" and gap :: int
  assumes event: "step i s = Ok (True, s') \<Longrightarrow> gap \<le> since s + 1 \<and> since s' \<le> 0"
    and quiet: "step i s = Ok (False, s') \<Longrightarrow> since s' \<le> since s + 1"
begin

lemma run_spaced: "event_run step is s = Ok (bs, s') \<Longrightarrow> spaced gap (since s) bs"
proof (induction "is" arbitrary: s bs)
  case (Cons i "is")
  then obtain b s1 bs1 where s1: "step i s = Ok (b, s1)" "event_run step is s1 = Ok (bs1, s')" "bs = b # bs1"
    by (auto simp: seqE_Ok_iff)
  from Cons.IH [OF s1(2)] have *: "spaced gap (since s1) bs1" .
  show ?case
  proof (cases b)
    case True
    with event [of i s s1] s1 spaced_mono [OF *, of 0] show ?thesis by simp
  next
    case False
    with quiet [of i s s1] s1 spaced_mono [OF *, of "since s + 1"] show ?thesis by simp
  qed
qed simp

lemma run_apart:
  assumes "event_run step is s = Ok (bs, s')" "0 \<le> since s" "j < length bs" "bs ! j"
  shows "gap \<le> since s + int j + 1" and "i < j \<Longrightarrow> bs ! i \<Longrightarrow> gap \<le> int j - int i"
  using spaced_first [OF run_spaced] spaced_apart [OF run_spaced] assms by blast+

end

end
