(* ===== verification/Weight_Handover.thy ===== *)
theory Weight_Handover
  imports Null_Tracking Spaced_Events
begin

unbundle bit_operations_syntax

text \<open>
  Two ways to bring standby weights into force: \<^verbatim>\<open>double_buffered_weight_handover.py\<close> swaps one
  pair of weight vectors, \<^verbatim>\<open>fft_bin_handover_registers.py\<close> one pair for each of 16 frequency bins.
  Both wait for a number of strides and for the leakage of the standby weights to fall below a
  threshold. Numbers are exact, except the bins' step counters, which are 32-bit integers.
\<close>

section \<open>Double-buffered handover\<close>

record handover =
  mu :: real
  settling_threshold :: real
  active_weights :: vec4
  shadow_weights :: vec4
  settling_counter :: nat

definition quarter :: vec4 where
  "quarter = V4 (1 / 4) (1 / 4) (1 / 4) (1 / 4)"

definition handover_init :: "real \<Rightarrow> real \<Rightarrow> handover" where
  "handover_init m thr = \<lparr>mu = m, settling_threshold = thr, active_weights = quarter,
     shadow_weights = quarter, settling_counter = 0\<rparr>"

definition adapt :: "real \<Rightarrow> vec4 \<Rightarrow> vec4 \<Rightarrow> vec4 list \<Rightarrow> vec4" where
  "adapt m target w xs = fold (\<lambda>x w. lms_step m target w x) xs w"

definition leakage :: "vec4 \<Rightarrow> vec4 list \<Rightarrow> real" where
  "leakage w xs = sum_list (map (\<lambda>x. abs2 (hdot w x)) xs)"

text \<open>The result is the pair of adapted weights, the verdict and the new counter.\<close>

definition handover_update_jit :: "vec4 \<Rightarrow> vec4 \<Rightarrow> vec4 \<Rightarrow> vec4 \<Rightarrow> vec4 list \<Rightarrow> vec4 list \<Rightarrow> real \<Rightarrow> nat \<Rightarrow>
    nat \<Rightarrow> real \<Rightarrow> fault + (vec4 \<times> vec4 \<times> bool \<times> nat)" where
  "handover_update_jit act shd target_active target_shadow x_active x_shadow m N counter thr =
     (if length x_active < N \<or> length x_shadow < N then Fail OutOfBounds
      else if N = 0 then Fail ZeroDivisionError
      else let act' = adapt m target_active act (take N x_active);
               shd' = adapt m target_shadow shd (take N x_shadow);
               p_avg = leakage shd' (take N x_shadow) / real N;
               next_counter = counter + 1
           in if 10 \<le> next_counter \<and> p_avg < thr then Ok (act', shd', True, 0)
              else Ok (act', shd', False, next_counter))"

record handover_stride =
  target_active :: vec4
  target_shadow :: vec4
  x_active :: "vec4 list"
  x_shadow :: "vec4 list"

fun scaled :: "complex \<Rightarrow> vec4 \<Rightarrow> vec4" where
  "scaled c (V4 a0 a1 a2 a3) = V4 (a0 * c) (a1 * c) (a2 * c) (a3 * c)"

definition process_stride :: "handover_stride \<Rightarrow> handover \<Rightarrow> fault + (bool \<times> handover)" where
  "process_stride i h =
     seqE (handover_update_jit (active_weights h) (shadow_weights h) (target_active i) (target_shadow i)
             (x_active i) (x_shadow i) (mu h) (length (x_active i)) (settling_counter h) (settling_threshold h))
       (\<lambda>(act, shd, switched, counter).
          if switched
          then Ok (True, h\<lparr>active_weights := shd, shadow_weights := scaled (1 / 4) (target_shadow i),
                           settling_counter := counter\<rparr>)
          else Ok (False, h\<lparr>active_weights := act, shadow_weights := shd, settling_counter := counter\<rparr>))"

section \<open>Bin registers\<close>

text \<open>The four arrays of 16 rows, as a list of 16 bins.\<close>

record bin =
  bin_active :: vec4
  bin_shadow :: vec4
  adaptation_steps :: "32 word"
  leakage_power :: real

record bin_registers =
  bin_threshold :: real
  min_steps :: int
  bins :: "bin list"

definition bins_init :: "real \<Rightarrow> int \<Rightarrow> bin_registers" where
  "bins_init thr steps = \<lparr>bin_threshold = thr, min_steps = steps, bins = replicate 16
     \<lparr>bin_active = quarter, bin_shadow = quarter, adaptation_steps = 0, leakage_power = 1\<rparr>\<rparr>"

definition bin_step :: "real \<Rightarrow> int \<Rightarrow> vec4 \<Rightarrow> bin \<Rightarrow> bin \<times> bool" where
  "bin_step thr steps x b =
     (let n = adaptation_steps b + 1;
          p = abs2 (hdot (bin_shadow b) x);
          l = 9 / 10 * leakage_power b + 1 / 10 * p
      in if steps \<le> sint n \<and> l < thr
         then (b\<lparr>bin_active := bin_shadow b, adaptation_steps := 0, leakage_power := 1\<rparr>, True)
         else (b\<lparr>adaptation_steps := n, leakage_power := l\<rparr>, False))"

text \<open>\<^verbatim>\<open>for f in range(16)\<close>, with \<open>f\<close> the index of the first of the remaining bins\<close>

fun bin_loop :: "real \<Rightarrow> int \<Rightarrow> nat \<Rightarrow> vec4 list \<Rightarrow> bin list \<Rightarrow> int \<Rightarrow> nat \<Rightarrow> fault + (bin list \<times> int \<times> nat)" where
  "bin_loop thr steps f xs [] swapped_mask total_swaps = Ok ([], swapped_mask, total_swaps)"
| "bin_loop thr steps f [] (b # bs) swapped_mask total_swaps = Fail OutOfBounds"
| "bin_loop thr steps f (x # xs) (b # bs) swapped_mask total_swaps =
     (case bin_step thr steps x b of (b', sw) \<Rightarrow>
        seqE (bin_loop thr steps (f + 1) xs bs (if sw then swapped_mask OR push_bit f 1 else swapped_mask)
                (if sw then total_swaps + 1 else total_swaps))
          (\<lambda>(bs', m, n). Ok (b' # bs', m, n)))"

definition process_handover_stride :: "vec4 list \<Rightarrow> bin_registers \<Rightarrow> fault + (int \<times> nat \<times> bin_registers)" where
  "process_handover_stride x_shd r =
     seqE (bin_loop (bin_threshold r) (min_steps r) 0 x_shd (bins r) 0 0)
       (\<lambda>(bs, swapped_mask, total_swaps). Ok (swapped_mask, total_swaps, r\<lparr>bins := bs\<rparr>))"

fun registers_run :: "vec4 list list \<Rightarrow> bin_registers \<Rightarrow> fault + (int list \<times> bin_registers)" where
  "registers_run [] r = Ok ([], r)"
| "registers_run (xs # xss) r =
     seqE (process_handover_stride xs r) (\<lambda>(m, n, r1).
       seqE (registers_run xss r1) (\<lambda>(ms, r2). Ok (m # ms, r2)))"

section \<open>Handovers are settled and apart\<close>

lemma adapt_on_target: "steering a \<Longrightarrow> xs \<noteq> [] \<Longrightarrow> on_target a (adapt m a w xs)"
proof (induction xs rule: rev_induct)
  case (snoc x xs)
  then show ?case using lms.upd_on_target [of a m] by (simp add: adapt_def)
qed simp

lemma scaled_on_target: "steering a \<Longrightarrow> on_target a (scaled (1 / 4) a)"
proof (cases a)
  case (V4 a0 a1 a2 a3)
  assume "steering a"
  have "hdot a (scaled (1 / 4) a) = 1 / 4 * hdot a a" by (simp add: V4 algebra_simps)
  with \<open>steering a\<close> show ?thesis by (simp add: on_target_def hdot_self steering_def)
qed

lemma process_stride_cases:
  "process_stride i h = Ok (b, h') \<Longrightarrow>
    (b \<longrightarrow> 10 \<le> settling_counter h + 1 \<and> settling_counter h' = 0) \<and>
    (\<not> b \<longrightarrow> settling_counter h' = settling_counter h + 1)"
  by (auto simp: process_stride_def handover_update_jit_def Let_def split: if_splits)

interpretation stride_events: spaced_events process_stride "\<lambda>h. int (settling_counter h)" 10
proof
  fix i h h' assume "process_stride i h = Ok (True, h')"
  from process_stride_cases [OF this]
  show "10 \<le> int (settling_counter h) + 1 \<and> int (settling_counter h') \<le> 0" by auto
next
  fix i h h' assume "process_stride i h = Ok (False, h')"
  from process_stride_cases [OF this]
  show "int (settling_counter h') \<le> int (settling_counter h) + 1" by auto
qed

definition stride_shaped :: "handover_stride \<Rightarrow> bool" where
  "stride_shaped i \<longleftrightarrow> x_active i \<noteq> [] \<and> length (x_active i) \<le> length (x_shadow i)"

lemma process_stride_total: "stride_shaped i \<Longrightarrow> \<exists>b h'. process_stride i h = Ok (b, h')"
  by (auto simp: stride_shaped_def process_stride_def handover_update_jit_def Let_def)

lemma strides_total: "list_all stride_shaped is \<Longrightarrow> \<exists>bs h'. event_run process_stride is h = Ok (bs, h')"
proof (induction "is" arbitrary: h)
  case (Cons i "is")
  from process_stride_total [of i h] Cons.prems obtain b h1 where h1: "process_stride i h = Ok (b, h1)" by auto
  from Cons.IH [of h1] Cons.prems h1 show ?case by auto
qed simp

text \<open>
  Any run of strides of the double-buffered handover from a fresh object succeeds, no switch comes before the
  tenth stride, and two switches are at least ten strides apart.
\<close>

theorem handover_spacing:
  assumes "list_all stride_shaped is"
  shows "\<exists>bs h'. event_run process_stride is (handover_init m thr) = Ok (bs, h') \<and> length bs = length is \<and>
    (\<forall>j < length bs. bs ! j \<longrightarrow> 9 \<le> j \<and> (\<forall>i < j. bs ! i \<longrightarrow> 10 \<le> j - i))"
proof -
  obtain bs h' where run: "event_run process_stride is (handover_init m thr) = Ok (bs, h')"
    using strides_total [OF assms] by blast
  have zero: "settling_counter (handover_init m thr) = 0" by (simp add: handover_init_def)
  have "9 \<le> j \<and> (\<forall>i < j. bs ! i \<longrightarrow> 10 \<le> j - i)" if "j < length bs" "bs ! j" for j
    using stride_events.run_apart [OF run _ that] zero by fastforce
  with run event_run_length [OF run] show ?thesis by blast
qed

text \<open>
  When a stride switches, the weights it puts in force are the adapted standby weights: they have gain one on the
  standby target, their average leakage over the stride's standby samples is below the threshold, and the new
  standby weights have gain one on that target as well.
\<close>

theorem handover_installs_settled:
  assumes "process_stride i h = Ok (True, h')" "steering (target_shadow i)"
  shows "active_weights h' = adapt (mu h) (target_shadow i) (shadow_weights h) (take (length (x_active i)) (x_shadow i)) \<and>
    on_target (target_shadow i) (active_weights h') \<and> on_target (target_shadow i) (shadow_weights h') \<and>
    leakage (active_weights h') (take (length (x_active i)) (x_shadow i)) / real (length (x_active i)) < settling_threshold h"
proof -
  let ?xs = "take (length (x_active i)) (x_shadow i)"
  from assms(1) have "x_active i \<noteq> []" "length (x_active i) \<le> length (x_shadow i)"
    and act: "active_weights h' = adapt (mu h) (target_shadow i) (shadow_weights h) ?xs"
    and shd: "shadow_weights h' = scaled (1 / 4) (target_shadow i)"
    and leak: "leakage (active_weights h') ?xs / real (length (x_active i)) < settling_threshold h"
    by (auto simp: process_stride_def handover_update_jit_def Let_def split: if_splits)
  then have "?xs \<noteq> []" by (cases "x_shadow i") auto
  with adapt_on_target [OF assms(2)] scaled_on_target [OF assms(2)] act shd leak show ?thesis by simp
qed

definition quiet_stride :: handover_stride where
  "quiet_stride = \<lparr>target_active = ones, target_shadow = ones, x_active = [V4 0 0 0 0], x_shadow = [V4 0 0 0 0]\<rparr>"

theorem handover_spacing_witness:
  "\<exists>bs h'. event_run process_stride [quiet_stride, quiet_stride] (handover_init 1 1) = Ok (bs, h') \<and> \<not> bs ! 1 \<and> length bs = 2"
  using handover_spacing [of "[quiet_stride, quiet_stride]" 1 1]
  by (fastforce simp: stride_shaped_def quiet_stride_def)

theorem handover_installs_settled_witness:
  "leakage (active_weights (snd (projr (process_stride quiet_stride (handover_init 1 1\<lparr>settling_counter := 9\<rparr>)))))
     [V4 0 0 0 0] / real (Suc 0) < 1"
proof -
  obtain h' where h': "process_stride quiet_stride (handover_init 1 1\<lparr>settling_counter := 9\<rparr>) = Ok (True, h')"
    by (auto simp: process_stride_def handover_update_jit_def quiet_stride_def handover_init_def leakage_def
        adapt_def quarter_def abs2_def Let_def)
  have "steering (target_shadow quiet_stride)" by (simp add: quiet_stride_def steering_def abs2_def)
  from handover_installs_settled [OF h' this, THEN conjunct2, THEN conjunct2, THEN conjunct2]
  have "leakage (active_weights h') [V4 0 0 0 0] / real (Suc 0) < 1"
    by (simp add: quiet_stride_def handover_init_def)
  then show ?thesis unfolding h' by simp
qed

section \<open>Bins\<close>

lemma bin_loop_eq:
  assumes "length bs \<le> length xs"
  shows "\<exists>m n. bin_loop thr steps f xs bs msk tot =
      Ok (map2 (\<lambda>x b. fst (bin_step thr steps x b)) xs bs, m, n) \<and>
    n = tot + length (filter (\<lambda>(x, b). snd (bin_step thr steps x b)) (zip xs bs)) \<and>
    (\<forall>k. bit m k = (bit msk k \<or> (f \<le> k \<and> k < f + length bs \<and> snd (bin_step thr steps (xs ! (k - f)) (bs ! (k - f))))))"
  using assms
proof (induction thr steps f xs bs msk tot rule: bin_loop.induct)
  case (3 thr steps f x xs b bs msk tot)
  obtain b' sw where b': "bin_step thr steps x b = (b', sw)" by fastforce
  let ?msk = "if sw then msk OR push_bit f 1 else msk" and ?tot = "if sw then tot + 1 else tot"
  from "3.prems" have len: "length bs \<le> length xs" by simp
  obtain m n where IH:
    "bin_loop thr steps (f + 1) xs bs ?msk ?tot = Ok (map2 (\<lambda>x b. fst (bin_step thr steps x b)) xs bs, m, n)"
    "n = ?tot + length (filter (\<lambda>(x, b). snd (bin_step thr steps x b)) (zip xs bs))"
    "\<And>k. bit m k = (bit ?msk k \<or> (f + 1 \<le> k \<and> k < f + 1 + length bs \<and>
        snd (bin_step thr steps (xs ! (k - (f + 1))) (bs ! (k - (f + 1))))))"
    using "3.IH" [OF b' [symmetric] len] by blast
  have "bit m k = (bit msk k \<or> (f \<le> k \<and> k < f + length (b # bs) \<and>
      snd (bin_step thr steps ((x # xs) ! (k - f)) ((b # bs) ! (k - f)))))" for k
  proof (cases "k = f")
    case True
    then show ?thesis by (auto simp: IH(3) bit_or_iff bit_push_bit_iff bit_exp_iff b')
  next
    case False
    then have "f \<le> k \<Longrightarrow> k - f = Suc (k - (f + 1))" "f + 1 \<le> k \<longleftrightarrow> f \<le> k" by auto
    moreover have "bit ?msk k = bit msk k" using False by (auto simp: bit_or_iff bit_push_bit_iff bit_exp_iff)
    ultimately show ?thesis by (auto simp: IH(3))
  qed
  with IH(1,2) b' show ?case by auto
qed auto

text \<open>
  One stride of the bin registers: bit \<open>k\<close> of the returned mask is set exactly for the bins that swapped, the
  count is their number, and every bin makes its own step, a swapped one with the standby weights in force.
\<close>

theorem bin_stride_mask:
  assumes "length (bins r) \<le> length xs"
  shows "\<exists>m n r'. process_handover_stride xs r = Ok (m, n, r') \<and>
    bins r' = map2 (\<lambda>x b. fst (bin_step (bin_threshold r) (min_steps r) x b)) xs (bins r) \<and>
    n = length (filter (\<lambda>(x, b). snd (bin_step (bin_threshold r) (min_steps r) x b)) (zip xs (bins r))) \<and>
    (\<forall>k. bit m k \<longleftrightarrow> k < length (bins r) \<and>
       snd (bin_step (bin_threshold r) (min_steps r) (xs ! k) (bins r ! k)))"
  using bin_loop_eq [OF assms, of "bin_threshold r" "min_steps r" 0 0 0]
  by (auto simp: process_handover_stride_def)

theorem bin_stride_mask_witness:
  "\<exists>m n r'. process_handover_stride (replicate 16 (V4 1 0 0 0)) (bins_init (8 / 100) 5) = Ok (m, n, r') \<and> \<not> bit m 3"
  using bin_stride_mask [of "bins_init (8 / 100) 5" "replicate 16 (V4 1 0 0 0)"]
  by (force simp: bins_init_def bin_step_def Let_def)

definition bin_event :: "real \<Rightarrow> int \<Rightarrow> vec4 \<Rightarrow> bin \<Rightarrow> fault + (bool \<times> bin)" where
  "bin_event thr steps x b = (case bin_step thr steps x b of (b', sw) \<Rightarrow> Ok (sw, b'))"

lemma sint_add_one: "sint (w + 1 :: 32 word) \<le> sint w + 1"
  using signed_take_bit_int_less_eq_self_iff [of 31 "sint w + 1"] sint_greater_eq [of w]
  by (simp add: sint_word_ariths)

lemma bin_event_cases: "bin_event thr steps x b = Ok (sw, b') \<Longrightarrow>
    (if sw then steps \<le> sint (adaptation_steps b + 1) \<and> adaptation_steps b' = 0
     else adaptation_steps b' = adaptation_steps b + 1)"
  by (auto simp: bin_event_def bin_step_def Let_def split: if_splits)

interpretation bin_events: spaced_events "bin_event thr steps" "\<lambda>b. sint (adaptation_steps b)" steps for thr steps
proof
  fix x b b' assume "bin_event thr steps x b = Ok (True, b')"
  from bin_event_cases [OF this] sint_add_one [of "adaptation_steps b"]
  show "steps \<le> sint (adaptation_steps b) + 1 \<and> sint (adaptation_steps b') \<le> 0" by simp
next
  fix x b b' assume "bin_event thr steps x b = Ok (False, b')"
  from bin_event_cases [OF this] sint_add_one [of "adaptation_steps b"]
  show "sint (adaptation_steps b') \<le> sint (adaptation_steps b) + 1" by simp
qed

lemma process_handover_stride_bin:
  assumes "process_handover_stride xs r = Ok (m, n, r')" "length (bins r) \<le> length xs" "f < length (bins r)"
  shows "bin_event (bin_threshold r) (min_steps r) (xs ! f) (bins r ! f) = Ok (bit m f, bins r' ! f)"
    and "length (bins r') = length (bins r)" "bin_threshold r' = bin_threshold r" "min_steps r' = min_steps r"
proof -
  obtain m0 n0 where loop: "bin_loop (bin_threshold r) (min_steps r) 0 xs (bins r) 0 0 =
        Ok (map2 (\<lambda>x b. fst (bin_step (bin_threshold r) (min_steps r) x b)) xs (bins r), m0, n0)"
    and bits: "\<And>k. bit m0 k = (bit (0 :: int) k \<or> (0 \<le> k \<and> k < 0 + length (bins r) \<and>
        snd (bin_step (bin_threshold r) (min_steps r) (xs ! (k - 0)) (bins r ! (k - 0)))))"
    using bin_loop_eq [OF assms(2), of "bin_threshold r" "min_steps r" 0 0 0] by blast
  from assms(1) have "m0 = m"
    and r': "r' = r\<lparr>bins := map2 (\<lambda>x b. fst (bin_step (bin_threshold r) (min_steps r) x b)) xs (bins r)\<rparr>"
    by (simp_all add: process_handover_stride_def loop)
  with bits [of f] assms(3) have "bit m f = snd (bin_step (bin_threshold r) (min_steps r) (xs ! f) (bins r ! f))"
    by simp
  with r' assms(2,3) show "bin_event (bin_threshold r) (min_steps r) (xs ! f) (bins r ! f) = Ok (bit m f, bins r' ! f)"
    by (simp add: bin_event_def split_beta)
  from r' assms(2) show "length (bins r') = length (bins r)" "bin_threshold r' = bin_threshold r" "min_steps r' = min_steps r"
    by simp_all
qed

lemma registers_run_bin:
  "registers_run xss r = Ok (ms, r') \<Longrightarrow> list_all (\<lambda>xs. length (bins r) \<le> length xs) xss \<Longrightarrow> f < length (bins r) \<Longrightarrow>
    event_run (bin_event (bin_threshold r) (min_steps r)) (map (\<lambda>xs. xs ! f) xss) (bins r ! f) =
      Ok (map (\<lambda>m. bit m f) ms, bins r' ! f)"
proof (induction xss arbitrary: r ms)
  case (Cons xs xss)
  then obtain m n r1 ms1 where r1: "process_handover_stride xs r = Ok (m, n, r1)"
      "registers_run xss r1 = Ok (ms1, r')" "ms = m # ms1"
    by (auto simp: seqE_Ok_iff)
  note step = process_handover_stride_bin [OF r1(1) _ Cons.prems(3)]
  from Cons.prems(2) have "length (bins r) \<le> length xs" by simp
  note step = step [OF this]
  from Cons.IH [OF r1(2)] Cons.prems(2,3) step show ?case by (simp add: r1(3))
qed simp

lemma registers_run_total:
  "list_all (\<lambda>xs. length (bins r) \<le> length xs) xss \<Longrightarrow>
    \<exists>ms r'. registers_run xss r = Ok (ms, r') \<and> length ms = length xss"
proof (induction xss arbitrary: r)
  case (Cons xs xss)
  then obtain m n r1 where r1: "process_handover_stride xs r = Ok (m, n, r1)" "length (bins r1) = length (bins r)"
    using bin_loop_eq [of "bins r" xs "bin_threshold r" "min_steps r" 0 0 0]
    by (auto simp: process_handover_stride_def)
  from Cons.IH [of r1] Cons.prems r1 show ?case by auto
qed simp

text \<open>
  In any run of the bin registers from fresh ones, a bin swaps at most every \<open>min_steps\<close> strides and not before the
  first \<open>min_steps\<close>, although its 32-bit counter can wrap around.
\<close>

theorem bin_swap_spacing:
  assumes "list_all (\<lambda>xs. 16 \<le> length xs) xss"
  shows "\<exists>ms r'. registers_run xss (bins_init thr steps) = Ok (ms, r') \<and> length ms = length xss \<and>
    (\<forall>f < 16. \<forall>j < length ms. bit (ms ! j) f \<longrightarrow>
       steps \<le> int j + 1 \<and> (\<forall>i < j. bit (ms ! i) f \<longrightarrow> steps \<le> int j - int i))"
proof -
  let ?r = "bins_init thr steps"
  have r: "length (bins ?r) = 16" "bin_threshold ?r = thr" "min_steps ?r = steps"
    "f < 16 \<Longrightarrow> adaptation_steps (bins ?r ! f) = 0" for f
    by (simp_all add: bins_init_def)
  obtain ms r' where run: "registers_run xss ?r = Ok (ms, r')" "length ms = length xss"
    using registers_run_total [of ?r xss] assms r(1) by auto
  have "steps \<le> int j + 1 \<and> (\<forall>i < j. bit (ms ! i) f \<longrightarrow> steps \<le> int j - int i)"
    if f: "f < 16" and j: "j < length ms" "bit (ms ! j) f" for f j
  proof -
    have ev: "event_run (bin_event thr steps) (map (\<lambda>xs. xs ! f) xss) (bins ?r ! f) =
        Ok (map (\<lambda>m. bit m f) ms, bins r' ! f)"
      using registers_run_bin [OF run(1), of f] assms f r by simp
    from bin_events.run_apart [OF ev, of j] j r(4) [OF f] show ?thesis by simp
  qed
  with run show ?thesis by blast
qed

theorem bin_swap_spacing_witness:
  "\<exists>ms r'. registers_run (replicate 3 (replicate 16 (V4 0 0 0 0))) (bins_init (8 / 100) 5) = Ok (ms, r') \<and>
    \<not> bit (ms ! 2) 7"
proof -
  obtain ms r' where "registers_run (replicate 3 (replicate 16 (V4 0 0 0 0))) (bins_init (8 / 100) 5) = Ok (ms, r')"
    and len: "length ms = 3"
    and *: "\<forall>f < 16. \<forall>j < length ms. bit (ms ! j) f \<longrightarrow> (5 :: int) \<le> int j + 1 \<and> (\<forall>i < j. bit (ms ! i) f \<longrightarrow> 5 \<le> int j - int i)"
    using bin_swap_spacing [of "replicate 3 (replicate 16 (V4 0 0 0 0))" "8 / 100" 5] by (auto simp: list_all_iff)
  moreover have "\<not> bit (ms ! 2) 7"
  proof
    assume "bit (ms ! 2) 7"
    with *[rule_format, of 7 2] len show False by simp
  qed
  ultimately show ?thesis by blast
qed

end
