(* ===== verification/Frequency_Stap.thy ===== *)
theory Frequency_Stap
  imports Weight_Handover
begin

text \<open>
  Adaptive filtering in the frequency domain: \<^verbatim>\<open>fft_stap_processor.py\<close> transforms blocks of 16
  samples, \<^verbatim>\<open>overlap_save_stap_processor.py\<close> blocks of 32 of which the first half are old, and
  \<^verbatim>\<open>bin_level_overlap_handover.py\<close> adds standby weights for every bin. The transforms are the
  modules' own matrices; sums and sines are exact.
\<close>

section \<open>The transforms\<close>

definition dft_mat :: "nat \<Rightarrow> complex list list" where
  "dft_mat N = map (\<lambda>f. map (\<lambda>t. let angle = - 2 * pi * real f * real t / real N
      in complex_of_real (cos angle) + \<i> * complex_of_real (sin angle)) [0..<N]) [0..<N]"

definition idft_mat :: "nat \<Rightarrow> complex list list" where
  "idft_mat N = map (\<lambda>f. map (\<lambda>t. let angle_inv = 2 * pi * real f * real t / real N
      in (complex_of_real (cos angle_inv) + \<i> * complex_of_real (sin angle_inv)) / of_nat N) [0..<N]) [0..<N]"

fun chan :: "nat \<Rightarrow> vec4 \<Rightarrow> complex" where
  "chan c (V4 x0 x1 x2 x3) = [x0, x1, x2, x3] ! c"

text \<open>\<^verbatim>\<open>X_freq[f, c]\<close> for the four channels\<close>

definition spectrum :: "nat \<Rightarrow> vec4 list \<Rightarrow> nat \<Rightarrow> vec4" where
  "spectrum N block f = (let X = (\<lambda>c. \<Sum>t<N. dft_mat N ! f ! t * chan c (block ! t)) in V4 (X 0) (X 1) (X 2) (X 3))"

text \<open>\<^verbatim>\<open>y_time[t]\<close>\<close>

definition inverse_transform :: "nat \<Rightarrow> complex list \<Rightarrow> nat \<Rightarrow> complex" where
  "inverse_transform N Y t = (\<Sum>f<N. idft_mat N ! t ! f * Y ! f)"

section \<open>One filter per bin\<close>

definition ALPHA :: real where
  "ALPHA = 9999 / 10000"

text \<open>The output of a bin and its updated weights.\<close>

definition bin_pass :: "real \<Rightarrow> real \<Rightarrow> vec4 \<Rightarrow> vec4 \<Rightarrow> vec4 \<Rightarrow> fault + (complex \<times> vec4)" where
  "bin_pass m eps a x w =
     (if vec_power x + eps = 0 then Fail ZeroDivisionError else Ok (hdot w x, leaky_step m eps ALPHA a w x))"

fun bins_pass :: "real \<Rightarrow> real \<Rightarrow> vec4 \<Rightarrow> vec4 list \<Rightarrow> vec4 list \<Rightarrow> fault + (complex list \<times> vec4 list)" where
  "bins_pass m eps a [] ws = Ok ([], ws)"
| "bins_pass m eps a (x # xs) [] = Fail OutOfBounds"
| "bins_pass m eps a (x # xs) (w # ws) =
     seqE (bin_pass m eps a x w) (\<lambda>(y, w'). seqE (bins_pass m eps a xs ws) (\<lambda>(ys, ws'). Ok (y # ys, w' # ws')))"

definition fft_stap_process_block_jit :: "vec4 list \<Rightarrow> vec4 list \<Rightarrow> vec4 \<Rightarrow> real \<Rightarrow> real \<Rightarrow>
    fault + (complex list \<times> vec4 list)" where
  "fft_stap_process_block_jit x_block weights target_a m eps =
     (if length x_block < 16 then Fail OutOfBounds
      else seqE (bins_pass m eps target_a (map (spectrum 16 x_block) [0..<16]) weights) (\<lambda>(Y, weights').
        Ok (map (inverse_transform 16 Y) [0..<16], weights')))"

record fft_stap =
  fs_mu :: real
  fs_epsilon :: real
  fs_weights :: "vec4 list"

definition fft_stap_init :: "real \<Rightarrow> real \<Rightarrow> fft_stap" where
  "fft_stap_init m eps = \<lparr>fs_mu = m, fs_epsilon = eps, fs_weights = replicate 16 quarter\<rparr>"

text \<open>The blocks of 16 rows; the rest of the history that does not fill a block is ignored.\<close>

definition blocks16 :: "'a list \<Rightarrow> 'a list list" where
  "blocks16 hist = map (\<lambda>b. take 16 (drop (b * 16) hist)) [0..<length hist div 16]"

fun fft_stap_blocks :: "vec4 \<Rightarrow> vec4 list list \<Rightarrow> fft_stap \<Rightarrow> fault + (complex list \<times> fft_stap)" where
  "fft_stap_blocks a [] p = Ok ([], p)"
| "fft_stap_blocks a (x # xs) p =
     seqE (fft_stap_process_block_jit x (fs_weights p) a (fs_mu p) (fs_epsilon p)) (\<lambda>(out, ws).
       seqE (fft_stap_blocks a xs (p\<lparr>fs_weights := ws\<rparr>)) (\<lambda>(outs, p'). Ok (out @ outs, p')))"

definition process_telemetry_history :: "vec4 \<Rightarrow> vec4 list \<Rightarrow> fft_stap \<Rightarrow> fault + (complex list \<times> fft_stap)" where
  "process_telemetry_history target_steering received_history p = fft_stap_blocks target_steering (blocks16 received_history) p"

section \<open>Overlap-save\<close>

text \<open>\<^verbatim>\<open>for t in range(16)\<close>: the old half moves up, the new samples go below\<close>

fun slide_rows :: "nat list \<Rightarrow> vec4 list \<Rightarrow> vec4 list \<Rightarrow> fault + vec4 list" where
  "slide_rows [] new_data sliding_buf = Ok sliding_buf"
| "slide_rows (t # ts) new_data sliding_buf =
     seqE (load sliding_buf (t + 16)) (\<lambda>old.
       seqE (store sliding_buf t old) (\<lambda>b1.
         seqE (load new_data t) (\<lambda>x.
           seqE (store b1 (t + 16) x) (slide_rows ts new_data))))"

definition overlap_save_stap_jit :: "vec4 list \<Rightarrow> vec4 list \<Rightarrow> vec4 list \<Rightarrow> vec4 \<Rightarrow> real \<Rightarrow> real \<Rightarrow>
    fault + (complex list \<times> vec4 list \<times> vec4 list)" where
  "overlap_save_stap_jit sliding_buf new_data weights target_a m eps =
     seqE (slide_rows [0..<16] new_data sliding_buf) (\<lambda>buf.
       seqE (bins_pass m eps target_a (map (spectrum 32 buf) [0..<32]) weights) (\<lambda>(Y, weights').
         Ok (map (\<lambda>t. inverse_transform 32 Y (t + 16)) [0..<16], buf, weights')))"

record overlap_save =
  os_mu :: real
  os_epsilon :: real
  os_sliding :: "vec4 list"
  os_weights :: "vec4 list"

definition zero4 :: vec4 where
  "zero4 = V4 0 0 0 0"

definition overlap_save_init :: "real \<Rightarrow> real \<Rightarrow> overlap_save" where
  "overlap_save_init m eps = \<lparr>os_mu = m, os_epsilon = eps, os_sliding = replicate 32 zero4, os_weights = replicate 32 quarter\<rparr>"

fun overlap_save_blocks :: "vec4 \<Rightarrow> vec4 list list \<Rightarrow> overlap_save \<Rightarrow> fault + (complex list \<times> overlap_save)" where
  "overlap_save_blocks a [] p = Ok ([], p)"
| "overlap_save_blocks a (x # xs) p =
     seqE (overlap_save_stap_jit (os_sliding p) x (os_weights p) a (os_mu p) (os_epsilon p)) (\<lambda>(out, buf, ws).
       seqE (overlap_save_blocks a xs (p\<lparr>os_sliding := buf, os_weights := ws\<rparr>)) (\<lambda>(outs, p'). Ok (out @ outs, p')))"

definition overlap_save_history :: "vec4 \<Rightarrow> vec4 list \<Rightarrow> overlap_save \<Rightarrow> fault + (complex list \<times> overlap_save)" where
  "overlap_save_history target_steering received_history p =
     overlap_save_blocks target_steering (blocks16 received_history)
       (p\<lparr>os_sliding := map (\<lambda>_. zero4) (os_sliding p)\<rparr>)"

section \<open>Overlap-save with a handover in every bin\<close>

definition bin_level_step :: "real \<Rightarrow> real \<Rightarrow> real \<Rightarrow> int \<Rightarrow> vec4 \<Rightarrow> vec4 \<Rightarrow> vec4 \<Rightarrow> bin \<Rightarrow>
    fault + (complex \<times> bool \<times> bin)" where
  "bin_level_step m eps thr steps target_act target_shd x b =
     (if vec_power x + eps = 0 then Fail ZeroDivisionError
      else let y_act = hdot (bin_active b) x;
               act = leaky_step m eps ALPHA target_act (bin_active b) x;
               p_shd = abs2 (hdot (bin_shadow b) x);
               l = 9 / 10 * leakage_power b + 1 / 10 * p_shd;
               n = adaptation_steps b + 1;
               shd = leaky_step m eps ALPHA target_shd (bin_shadow b) x
           in if steps \<le> sint n \<and> l < thr
              then Ok (y_act, True, \<lparr>bin_active = shd, bin_shadow = shd, adaptation_steps = 0, leakage_power = 1\<rparr>)
              else Ok (y_act, False, \<lparr>bin_active = act, bin_shadow = shd, adaptation_steps = n, leakage_power = l\<rparr>))"

fun bin_level_pass :: "real \<Rightarrow> real \<Rightarrow> real \<Rightarrow> int \<Rightarrow> vec4 \<Rightarrow> vec4 \<Rightarrow> vec4 list \<Rightarrow> bin list \<Rightarrow>
    fault + (complex list \<times> nat \<times> bin list)" where
  "bin_level_pass m eps thr steps ta ts [] bs = Ok ([], 0, bs)"
| "bin_level_pass m eps thr steps ta ts (x # xs) [] = Fail OutOfBounds"
| "bin_level_pass m eps thr steps ta ts (x # xs) (b # bs) =
     seqE (bin_level_step m eps thr steps ta ts x b) (\<lambda>(y, sw, b').
       seqE (bin_level_pass m eps thr steps ta ts xs bs) (\<lambda>(ys, swaps, bs').
         Ok (y # ys, (if sw then swaps + 1 else swaps), b' # bs')))"

definition bin_level_overlap_handover_jit :: "vec4 list \<Rightarrow> vec4 list \<Rightarrow> bin list \<Rightarrow> vec4 \<Rightarrow> vec4 \<Rightarrow> real \<Rightarrow> real \<Rightarrow> real \<Rightarrow> int \<Rightarrow>
    fault + (complex list \<times> nat \<times> vec4 list \<times> bin list)" where
  "bin_level_overlap_handover_jit sliding_buf new_data bs target_act target_shd m eps thr steps =
     seqE (slide_rows [0..<16] new_data sliding_buf) (\<lambda>buf.
       seqE (bin_level_pass m eps thr steps target_act target_shd (map (spectrum 32 buf) [0..<32]) bs) (\<lambda>(Y, swaps, bs').
         Ok (map (\<lambda>t. inverse_transform 32 Y (t + 16)) [0..<16], swaps, buf, bs')))"

record bin_level =
  bl_mu :: real
  bl_epsilon :: real
  bl_threshold :: real
  bl_min_steps :: int
  bl_sliding :: "vec4 list"
  bl_bins :: "bin list"

definition bin_level_init :: "real \<Rightarrow> real \<Rightarrow> real \<Rightarrow> int \<Rightarrow> bin_level" where
  "bin_level_init m eps thr steps = \<lparr>bl_mu = m, bl_epsilon = eps, bl_threshold = thr, bl_min_steps = steps,
     bl_sliding = replicate 32 zero4,
     bl_bins = replicate 32 \<lparr>bin_active = quarter, bin_shadow = quarter, adaptation_steps = 0, leakage_power = 1\<rparr>\<rparr>"

fun bin_level_blocks :: "vec4 \<Rightarrow> vec4 \<Rightarrow> vec4 list list \<Rightarrow> bin_level \<Rightarrow> fault + (complex list \<times> nat \<times> bin_level)" where
  "bin_level_blocks ta ts [] p = Ok ([], 0, p)"
| "bin_level_blocks ta ts (x # xs) p =
     seqE (bin_level_overlap_handover_jit (bl_sliding p) x (bl_bins p) ta ts (bl_mu p) (bl_epsilon p) (bl_threshold p) (bl_min_steps p))
       (\<lambda>(out, swaps, buf, bs).
         seqE (bin_level_blocks ta ts xs (p\<lparr>bl_sliding := buf, bl_bins := bs\<rparr>)) (\<lambda>(outs, total, p').
           Ok (out @ outs, swaps + total, p')))"

definition process_history :: "vec4 \<Rightarrow> vec4 \<Rightarrow> vec4 list \<Rightarrow> bin_level \<Rightarrow> fault + (complex list \<times> nat \<times> bin_level)" where
  "process_history target_act target_shd received_history p =
     bin_level_blocks target_act target_shd (blocks16 received_history) (p\<lparr>bl_sliding := map (\<lambda>_. zero4) (bl_sliding p)\<rparr>)"

section \<open>The transforms are inverse to each other\<close>

lemma dft_entry: "f < N \<Longrightarrow> t < N \<Longrightarrow> dft_mat N ! f ! t = cis (- (2 * pi * real f * real t / real N))"
  by (simp add: dft_mat_def Let_def complex_eq_iff)

lemma idft_entry: "f < N \<Longrightarrow> t < N \<Longrightarrow> idft_mat N ! f ! t = cis (2 * pi * real f * real t / real N) / of_nat N"
  by (simp add: idft_mat_def Let_def complex_eq_iff Re_divide_of_nat Im_divide_of_nat)

lemma cis_eq_one: "cis x = 1 \<Longrightarrow> \<exists>n :: int. x = of_int n * (2 * pi)"
proof -
  assume "cis x = 1"
  then have "cos x = 1" by (simp add: complex_eq_iff)
  then show ?thesis using cos_one_2pi_int [of x] by auto
qed

lemma roots_sum:
  assumes "0 < N" "\<bar>k\<bar> < int N" "k \<noteq> 0"
  shows "(\<Sum>f<N. cis (2 * pi * real f * of_int k / real N)) = 0"
proof -
  let ?z = "cis (2 * pi * of_int k / real N)"
  have pow: "cis (2 * pi * real f * of_int k / real N) = ?z ^ f" for f
    by (simp add: DeMoivre mult_ac)
  have "?z \<noteq> 1"
  proof
    assume "?z = 1"
    then obtain n :: int where "2 * pi * of_int k / real N = of_int n * (2 * pi)" using cis_eq_one by blast
    then have "real_of_int k = of_int n * real N" using assms(1) by (simp add: field_simps)
    then have "k = n * int N" by (metis of_int_eq_iff of_int_mult of_int_of_nat_eq)
    moreover from this assms(3) have "1 \<le> \<bar>n\<bar>" by auto
    then have "int N \<le> \<bar>n\<bar> * int N" by (simp add: mult_le_cancel_right1)
    ultimately show False using assms(2) by (simp add: abs_mult)
  qed
  moreover have "?z ^ N = 1"
  proof -
    have "?z ^ N = cis (2 * pi * of_int k)" using assms(1) by (simp add: DeMoivre)
    also have "\<dots> = 1" by (rule cis_multiple_2pi) simp
    finally show ?thesis .
  qed
  ultimately have "(\<Sum>f<N. ?z ^ f) = 0" by (simp add: geometric_sum)
  then show ?thesis by (simp add: pow)
qed

section \<open>A bank of bin filters as a circular convolution\<close>

text \<open>The impulse response of the filters of channel \<open>c\<close>, at a lag that may be negative.\<close>

definition impulse :: "nat \<Rightarrow> vec4 list \<Rightarrow> nat \<Rightarrow> int \<Rightarrow> complex" where
  "impulse N ws c k = (\<Sum>f<N. cnj (chan c (ws ! f)) * cis (2 * pi * real f * of_int k / real N)) / of_nat N"

lemma impulse_periodic: "0 < N \<Longrightarrow> impulse N ws c (k - int N) = impulse N ws c k"
proof -
  assume N: "0 < N"
  have "cis (2 * pi * real f * of_int (k - int N) / real N) = cis (2 * pi * real f * of_int k / real N)" for f
  proof -
    have "2 * pi * real f * of_int (k - int N) / real N = 2 * pi * real f * of_int k / real N - of_int (int f) * (2 * pi)"
      using N by (simp add: field_simps)
    moreover have "cis (of_int (int f) * (2 * pi)) = 1"
      using cis_multiple_2pi [of "of_int (int f)"] by (simp add: mult_ac)
    ultimately show ?thesis by (simp only: cis_divide [symmetric] div_by_1)
  qed
  then show ?thesis by (simp add: impulse_def)
qed

lemma hdot_chan: "hdot w x = (\<Sum>c<4. cnj (chan c w) * chan c x)"
  by (cases w; cases x) (simp add: eval_nat_numeral)

lemma chan_spectrum: "c < 4 \<Longrightarrow> chan c (spectrum N block f) = (\<Sum>t<N. dft_mat N ! f ! t * chan c (block ! t))"
proof -
  assume "c < 4"
  then have "c \<in> {0, 1, 2, 3}" by auto
  then show ?thesis by (auto simp: spectrum_def Let_def)
qed

lemma cis_lag: "cis (2 * pi * real t * real f / real N) * cis (- (2 * pi * real f * real s / real N)) =
    cis (2 * pi * real f * of_int (int t - int s) / real N)"
  by (simp add: cis_mult algebra_simps diff_divide_distrib)

lemma inverse_transform_filters:
  assumes "t < N" "\<And>f. f < N \<Longrightarrow> Y ! f = hdot (ws ! f) (spectrum N block f)"
  shows "inverse_transform N Y t =
    (\<Sum>s<N. \<Sum>c<4. impulse N ws c (int t - int s) * chan c (block ! s))"
proof -
  have "inverse_transform N Y t = (\<Sum>f<N. \<Sum>c<4. \<Sum>s<N. idft_mat N ! t ! f * (cnj (chan c (ws ! f)) *
      (dft_mat N ! f ! s * chan c (block ! s))))"
    by (simp add: inverse_transform_def assms(2) hdot_chan chan_spectrum sum_distrib_left)
  also have "\<dots> = (\<Sum>f<N. \<Sum>c<4. \<Sum>s<N. cnj (chan c (ws ! f)) *
      cis (2 * pi * real f * of_int (int t - int s) / real N) / of_nat N * chan c (block ! s))"
  proof (intro sum.cong refl)
    fix f c s assume "f \<in> {..<N}" "s \<in> {..<N}"
    then have "idft_mat N ! t ! f * (cnj (chan c (ws ! f)) * (dft_mat N ! f ! s * chan c (block ! s))) =
        cnj (chan c (ws ! f)) * (cis (2 * pi * real t * real f / real N) * cis (- (2 * pi * real f * real s / real N)))
          / of_nat N * chan c (block ! s)"
      using assms(1) by (simp add: idft_entry dft_entry)
    then show "idft_mat N ! t ! f * (cnj (chan c (ws ! f)) * (dft_mat N ! f ! s * chan c (block ! s))) =
        cnj (chan c (ws ! f)) * cis (2 * pi * real f * of_int (int t - int s) / real N) / of_nat N * chan c (block ! s)"
      by (simp only: cis_lag)
  qed
  also have "\<dots> = (\<Sum>s<N. \<Sum>c<4. \<Sum>f<N. cnj (chan c (ws ! f)) *
      cis (2 * pi * real f * of_int (int t - int s) / real N) / of_nat N * chan c (block ! s))"
    by (subst sum.swap, subst (2) sum.swap, subst sum.swap) (rule refl)
  also have "\<dots> = (\<Sum>s<N. \<Sum>c<4. impulse N ws c (int t - int s) * chan c (block ! s))"
    by (simp add: impulse_def sum_distrib_right sum_divide_distrib)
  finally show ?thesis .
qed

section \<open>The kernels never fail and keep the gain on the target\<close>

lemma slide_rows_eq:
  assumes "m \<le> 16" "length buf = 32" "length new = 16"
  shows "slide_rows [m..<16] new buf = Ok (map (\<lambda>i. if i < 16 then (if i < m then buf ! i else buf ! (i + 16))
    else (if i < m + 16 then buf ! i else new ! (i - 16))) [0..<32])"
  using assms
proof (induction m arbitrary: buf rule: inc_induct)
  case base
  then show ?case by (auto intro!: nth_equalityI)
next
  case (step m)
  let ?b = "buf[m := buf ! (m + 16), m + 16 := new ! m]"
  have upt: "[m..<16] = m # [Suc m..<16]" using step.hyps by (simp add: upt_rec)
  have "slide_rows [m..<16] new buf = slide_rows [Suc m..<16] new ?b"
    using step.hyps step.prems unfolding upt by (simp add: load_def store_def)
  also have "\<dots> = Ok (map (\<lambda>i. if i < 16 then (if i < Suc m then ?b ! i else ?b ! (i + 16))
    else (if i < Suc m + 16 then ?b ! i else new ! (i - 16))) [0..<32])"
    using step.prems by (intro step.IH) simp_all
  also have "\<dots> = Ok (map (\<lambda>i. if i < 16 then (if i < m then buf ! i else buf ! (i + 16))
    else (if i < m + 16 then buf ! i else new ! (i - 16))) [0..<32])"
  proof -
    have last: "x - 16 = m" if "x < 17 + m" "\<not> x < m + 16" for x using that by simp
    show ?thesis using step.hyps step.prems by (auto simp: nth_list_update less_Suc_eq last)
  qed
  finally show ?case .
qed

lemma slide_rows_halves: "length buf = 32 \<Longrightarrow> length new = 16 \<Longrightarrow> slide_rows [0..<16] new buf = Ok (drop 16 buf @ new)"
  using slide_rows_eq [of 0 buf new] by (auto intro!: nth_equalityI simp: nth_append add.commute)

lemma denominator: "0 < eps \<Longrightarrow> vec_power x + eps \<noteq> 0"
  using vec_power_nonneg [of x] by linarith

lemma bins_pass_ok:
  assumes "0 < eps" "length ws = length xs"
  shows "bins_pass m eps a xs ws = Ok (map2 (\<lambda>x w. hdot w x) xs ws, map2 (\<lambda>x w. leaky_step m eps ALPHA a w x) xs ws)"
  using assms(2)
proof (induction xs arbitrary: ws)
  case (Cons x xs)
  then show ?case using assms(1) by (cases ws) (auto simp: bin_pass_def denominator)
qed simp

lemma bins_on_target:
  assumes "steering a" "length ws = length xs"
  shows "list_all (on_target a) (map2 (\<lambda>x w. leaky_step m eps ALPHA a w x) xs ws)"
  using leaky.upd_on_target [OF assms(1)] by (auto simp: list_all_iff)

lemma hdot_spectrum_nth:
  "f < N \<Longrightarrow> length ws = N \<Longrightarrow> map2 (\<lambda>x w. hdot w x) (map (spectrum N block) [0..<N]) ws ! f = hdot (ws ! f) (spectrum N block f)"
  by simp

lemma overlap_window:
  assumes "t < 16" "\<And>k. 16 < k \<Longrightarrow> k < 32 \<Longrightarrow> g (int k) = (0 :: complex)" "\<And>k. g (k - 32) = g k"
  shows "(\<Sum>s<32. g (int (t + 16) - int s) * h s) = (\<Sum>k\<le>16. g (int k) * h (t + 16 - k))"
proof -
  have zero: "g (int (t + 16) - int s) = 0" if "s < 32" "s \<notin> {t..t + 16}" for s
  proof (cases "s < t")
    case True
    with assms(2) [of "t + 16 - s"] assms(1) show ?thesis by (simp add: of_nat_diff)
  next
    case False
    with that have s: "t + 16 < s" by simp
    with assms(2) [of "t + 48 - s"] assms(3) [of "int (t + 48) - int s"] that(1) show ?thesis
      by (simp add: of_nat_diff algebra_simps)
  qed
  have "(\<Sum>s<32. g (int (t + 16) - int s) * h s) = (\<Sum>s\<in>{t..t + 16}. g (int (t + 16) - int s) * h s)"
    using assms(1) zero by (intro sum.mono_neutral_right) auto
  also have "\<dots> = (\<Sum>k\<le>16. g (int k) * h (t + 16 - k))"
    by (rule sum.reindex_bij_witness [of _ "\<lambda>k. t + 16 - k" "\<lambda>s. t + 16 - s"]) (auto simp: of_nat_diff)
  finally show ?thesis .
qed

text \<open>
  C28: Overlap-save computes a linear convolution: if the impulse response of the bin filters is no longer than 17
  samples, every output sample of a block is the filters applied to the true stream of samples, old and new,
  without wrap-around. The block slides the buffer, never fails, and leaves weights on the target.
\<close>

theorem overlap_save_linear:
  assumes "length sliding = 32" "length new = 16" "length ws = 32" "0 < eps" "steering a"
    and short: "\<forall>c < 4. \<forall>k. 16 < k \<and> k < 32 \<longrightarrow> impulse 32 ws c (int k) = 0"
  shows "\<exists>out ws'. overlap_save_stap_jit sliding new ws a m eps = Ok (out, drop 16 sliding @ new, ws') \<and>
    length out = 16 \<and> length ws' = 32 \<and> list_all (on_target a) ws' \<and>
    (\<forall>t < 16. out ! t = (\<Sum>c<4. \<Sum>k\<le>16. impulse 32 ws c (int k) * chan c ((sliding @ new) ! (32 + t - k))))"
proof -
  let ?buf = "drop 16 sliding @ new" let ?X = "map (spectrum 32 ?buf) [0..<32]"
  let ?Y = "map2 (\<lambda>x w. hdot w x) ?X ws" and ?ws' = "map2 (\<lambda>x w. leaky_step m eps ALPHA a w x) ?X ws"
  let ?out = "map (\<lambda>t. inverse_transform 32 ?Y (t + 16)) [0..<16]"
  have run: "overlap_save_stap_jit sliding new ws a m eps = Ok (?out, ?buf, ?ws')"
    using assms(1-4) by (simp add: overlap_save_stap_jit_def slide_rows_halves bins_pass_ok)
  have "?out ! t = (\<Sum>c<4. \<Sum>k\<le>16. impulse 32 ws c (int k) * chan c ((sliding @ new) ! (32 + t - k)))" if t: "t < 16" for t
  proof -
    have "?out ! t = (\<Sum>s<32. \<Sum>c<4. impulse 32 ws c (int (t + 16) - int s) * chan c (?buf ! s))"
      using t inverse_transform_filters [of "t + 16" 32 ?Y ws ?buf] hdot_spectrum_nth [of _ 32 ws ?buf] assms(3)
      by simp
    also have "\<dots> = (\<Sum>c<4. \<Sum>s<32. impulse 32 ws c (int (t + 16) - int s) * chan c (?buf ! s))"
      by (rule sum.swap)
    also have "\<dots> = (\<Sum>c<4. \<Sum>k\<le>16. impulse 32 ws c (int k) * chan c (?buf ! (t + 16 - k)))"
    proof (rule sum.cong [OF refl])
      fix c :: nat assume "c \<in> {..<4}"
      then show "(\<Sum>s<32. impulse 32 ws c (int (t + 16) - int s) * chan c (?buf ! s)) =
          (\<Sum>k\<le>16. impulse 32 ws c (int k) * chan c (?buf ! (t + 16 - k)))"
        using short impulse_periodic [of 32 ws c] by (intro overlap_window t) simp_all
    qed
    also have "\<dots> = (\<Sum>c<4. \<Sum>k\<le>16. impulse 32 ws c (int k) * chan c ((sliding @ new) ! (32 + t - k)))"
      using t assms(1) by (intro sum.cong refl) (auto simp: nth_append)
    finally show ?thesis .
  qed
  with run bins_on_target [OF assms(5), of ws ?X] assms(3) show ?thesis by force
qed

lemma impulse_uniform:
  assumes "0 < k" "k < N"
  shows "impulse N (replicate N w) c (int k) = 0"
proof -
  have "(\<Sum>f<N. cnj (chan c (replicate N w ! f)) * cis (2 * pi * real f * of_int (int k) / real N)) =
      cnj (chan c w) * (\<Sum>f<N. cis (2 * pi * real f * of_int (int k) / real N))"
    by (simp add: sum_distrib_left)
  then show ?thesis using roots_sum [of N "int k"] assms by (simp add: impulse_def)
qed

theorem overlap_save_linear_witness:
  "\<exists>out ws'. overlap_save_stap_jit (replicate 32 zero4) (replicate 16 (V4 1 0 0 0)) (replicate 32 quarter) ones (5 / 100) (1 / 10000) =
     Ok (out, replicate 16 zero4 @ replicate 16 (V4 1 0 0 0), ws') \<and> length out = 16 \<and> length ws' = 32"
proof -
  let ?s = "replicate 32 zero4" and ?n = "replicate 16 (V4 1 0 0 0)" and ?w = "replicate 32 quarter"
  have short: "\<forall>c < 4. \<forall>k. 16 < k \<and> k < 32 \<longrightarrow> impulse 32 ?w c (int k) = 0"
    using impulse_uniform [of _ 32 quarter] by auto
  have "steering ones" by (simp add: steering_def abs2_def)
  then obtain out ws' where "overlap_save_stap_jit ?s ?n ?w ones (5 / 100) (1 / 10000) = Ok (out, drop 16 ?s @ ?n, ws')"
    "length out = 16" "length ws' = 32"
    using overlap_save_linear [of ?s ?n ?w "1 / 10000" ones "5 / 100"] short by auto
  then show ?thesis by auto
qed

text \<open>
  One block of the processor with 16 bins is a circular convolution of each channel with the impulse response of its
  filters, summed over the channels; the block never fails and leaves weights on the target.
\<close>

theorem fft_block_circular:
  assumes "length block = 16" "length ws = 16" "0 < eps" "steering a"
  shows "\<exists>out ws'. fft_stap_process_block_jit block ws a m eps = Ok (out, ws') \<and> length out = 16 \<and> length ws' = 16 \<and>
    list_all (on_target a) ws' \<and>
    (\<forall>t < 16. out ! t = (\<Sum>s<16. \<Sum>c<4. impulse 16 ws c (int t - int s) * chan c (block ! s)))"
proof -
  let ?X = "map (spectrum 16 block) [0..<16]"
  let ?Y = "map2 (\<lambda>x w. hdot w x) ?X ws" and ?ws' = "map2 (\<lambda>x w. leaky_step m eps ALPHA a w x) ?X ws"
  let ?out = "map (inverse_transform 16 ?Y) [0..<16]"
  have run: "fft_stap_process_block_jit block ws a m eps = Ok (?out, ?ws')"
    using assms(1-3) by (simp add: fft_stap_process_block_jit_def bins_pass_ok)
  have "?out ! t = (\<Sum>s<16. \<Sum>c<4. impulse 16 ws c (int t - int s) * chan c (block ! s))" if "t < 16" for t
    using that inverse_transform_filters [of t 16 ?Y ws block] hdot_spectrum_nth [of _ 16 ws block] assms(2) by simp
  with run bins_on_target [OF assms(4), of ws ?X] assms(2) show ?thesis by force
qed

theorem fft_block_circular_witness:
  "\<exists>out ws'. fft_stap_process_block_jit (replicate 16 ones) (replicate 16 quarter) ones (5 / 100) (1 / 10000) = Ok (out, ws') \<and> length out = 16"
proof -
  have "steering ones" by (simp add: steering_def abs2_def)
  then show ?thesis
    using fft_block_circular [of "replicate 16 ones" "replicate 16 quarter" "1 / 10000" ones "5 / 100"] by auto
qed

section \<open>Swaps of the bin-level handover\<close>

text \<open>The strides a bin has earned towards its next swap: the potential of the bound below.\<close>

definition earned :: "bin \<Rightarrow> int" where
  "earned b = max 0 (sint (adaptation_steps b))"

definition covered :: "vec4 \<Rightarrow> vec4 \<Rightarrow> bin \<Rightarrow> bool" where
  "covered ta ts b \<longleftrightarrow> on_target ts (bin_shadow b) \<and> (on_target ta (bin_active b) \<or> on_target ts (bin_active b))"

lemma bin_level_step_ok:
  assumes "0 < eps" "steering ta" "steering ts"
  shows "\<exists>y sw b'. bin_level_step m eps thr steps ta ts x b = Ok (y, sw, b') \<and> covered ta ts b' \<and>
    steps * int (if sw then 1 else 0) + earned b' \<le> earned b + 1"
  using leaky.upd_on_target [OF assms(2)] leaky.upd_on_target [OF assms(3)] sint_add_one [of "adaptation_steps b"]
  by (auto simp: bin_level_step_def denominator [OF assms(1)] Let_def covered_def earned_def)

lemma bin_level_pass_ok:
  assumes "0 < eps" "steering ta" "steering ts" "length bs = length xs"
  shows "\<exists>ys n bs'. bin_level_pass m eps thr steps ta ts xs bs = Ok (ys, n, bs') \<and> length ys = length xs \<and>
    length bs' = length bs \<and> list_all (covered ta ts) bs' \<and>
    steps * int n + sum_list (map earned bs') \<le> sum_list (map earned bs) + int (length bs)"
  using assms(4)
proof (induction xs arbitrary: bs)
  case (Cons x xs)
  then obtain b bs0 where bs: "bs = b # bs0" "length bs0 = length xs" by (cases bs) auto
  obtain y sw b' where step: "bin_level_step m eps thr steps ta ts x b = Ok (y, sw, b')" "covered ta ts b'"
    "steps * int (if sw then 1 else 0) + earned b' \<le> earned b + 1"
    using bin_level_step_ok [OF assms(1-3)] by blast
  obtain ys n bs' where rest: "bin_level_pass m eps thr steps ta ts xs bs0 = Ok (ys, n, bs')" "length ys = length xs"
    "length bs' = length bs0" "list_all (covered ta ts) bs'"
    "steps * int n + sum_list (map earned bs') \<le> sum_list (map earned bs0) + int (length bs0)"
    using Cons.IH [OF bs(2)] by blast
  let ?n = "if sw then n + 1 else n"
  have "bin_level_pass m eps thr steps ta ts (x # xs) bs = Ok (y # ys, ?n, b' # bs')"
    by (simp add: bs step(1) rest(1))
  moreover have "steps * int ?n + sum_list (map earned (b' # bs')) \<le> sum_list (map earned bs) + int (length bs)"
    using step(3) rest(5) by (auto simp: bs distrib_left)
  ultimately show ?case using step(2) rest(2-4) bs by auto
qed simp

lemma bin_level_blocks_ok:
  assumes "0 < bl_epsilon p" "steering ta" "steering ts" "length (bl_sliding p) = 32" "length (bl_bins p) = 32"
    and "list_all (\<lambda>x. length x = 16) xss"
  shows "\<exists>out n p'. bin_level_blocks ta ts xss p = Ok (out, n, p') \<and> length out = 16 * length xss \<and>
    (xss \<noteq> [] \<longrightarrow> list_all (covered ta ts) (bl_bins p')) \<and>
    bl_min_steps p * int n + sum_list (map earned (bl_bins p')) \<le> sum_list (map earned (bl_bins p)) + 32 * int (length xss)"
  using assms(1,4-6)
proof (induction xss arbitrary: p)
  case (Cons x xss)
  let ?buf = "drop 16 (bl_sliding p) @ x"
  obtain ys n bs' where pass: "bin_level_pass (bl_mu p) (bl_epsilon p) (bl_threshold p) (bl_min_steps p) ta ts
      (map (spectrum 32 ?buf) [0..<32]) (bl_bins p) = Ok (ys, n, bs')" "length bs' = 32" "list_all (covered ta ts) bs'"
    "bl_min_steps p * int n + sum_list (map earned bs') \<le> sum_list (map earned (bl_bins p)) + 32"
    using bin_level_pass_ok [OF Cons.prems(1) assms(2,3), of "bl_bins p" "map (spectrum 32 ?buf) [0..<32]"
        "bl_mu p" "bl_threshold p" "bl_min_steps p"] Cons.prems(3) by auto
  let ?p = "p\<lparr>bl_sliding := ?buf, bl_bins := bs'\<rparr>"
  have block: "bin_level_overlap_handover_jit (bl_sliding p) x (bl_bins p) ta ts (bl_mu p) (bl_epsilon p) (bl_threshold p)
      (bl_min_steps p) = Ok (map (\<lambda>t. inverse_transform 32 ys (t + 16)) [0..<16], n, ?buf, bs')"
    using Cons.prems by (simp add: bin_level_overlap_handover_jit_def slide_rows_halves pass(1))
  obtain outs n' p' where rest: "bin_level_blocks ta ts xss ?p = Ok (outs, n', p')" "length outs = 16 * length xss"
    "xss \<noteq> [] \<longrightarrow> list_all (covered ta ts) (bl_bins p')"
    "bl_min_steps p * int n' + sum_list (map earned (bl_bins p')) \<le> sum_list (map earned bs') + 32 * int (length xss)"
    using Cons.IH [of ?p] Cons.prems pass(2) by auto
  moreover have "list_all (covered ta ts) (bl_bins p')"
    using rest(1,3) pass(3) by (cases "xss = []") auto
  ultimately show ?case using pass(4) by (simp add: block distrib_left)
qed simp

lemma blocks16_shape: "list_all (\<lambda>x. length x = 16) (blocks16 hist)" "length (blocks16 hist) = length hist div 16"
proof -
  have "length (take 16 (drop (b * 16) hist)) = 16" if "b < length hist div 16" for b
  proof -
    have "(b + 1) * 16 \<le> length hist div 16 * 16" using that by (intro mult_le_mono1) simp
    also have "\<dots> \<le> length hist" by (simp add: div_times_less_eq_dividend)
    finally show ?thesis by simp
  qed
  then show "list_all (\<lambda>x. length x = 16) (blocks16 hist)" by (auto simp: blocks16_def list_all_iff)
qed (simp add: blocks16_def)

text \<open>
  A history of any length through a fresh bin-level handover never fails; it gives one output sample for every
  sample of a full block; all 32 bins end with weights of gain one on the active or the standby target; and the
  number of swaps times \<open>min_steps\<close> is at most the number of bins times the number of blocks.
\<close>

theorem bin_level_history:
  assumes "0 < eps" "steering ta" "steering ts" "16 \<le> length hist"
  shows "\<exists>out n p'. process_history ta ts hist (bin_level_init m eps thr steps) = Ok (out, n, p') \<and>
    length out = 16 * (length hist div 16) \<and> list_all (covered ta ts) (bl_bins p') \<and>
    steps * int n \<le> 32 * int (length hist div 16)"
proof -
  let ?p = "bin_level_init m eps thr steps"
  let ?q = "?p\<lparr>bl_sliding := map (\<lambda>_. zero4) (bl_sliding ?p)\<rparr>"
  have q: "0 < bl_epsilon ?q" "length (bl_sliding ?q) = 32" "length (bl_bins ?q) = 32" "bl_min_steps ?q = steps"
    "sum_list (map earned (bl_bins ?q)) = 0"
    using assms(1) by (simp_all add: bin_level_init_def earned_def sum_list_replicate)
  obtain out n p' where run: "bin_level_blocks ta ts (blocks16 hist) ?q = Ok (out, n, p')"
    and out: "length out = 16 * length (blocks16 hist)"
    and good: "blocks16 hist \<noteq> [] \<longrightarrow> list_all (covered ta ts) (bl_bins p')"
    and sum: "bl_min_steps ?q * int n + sum_list (map earned (bl_bins p')) \<le>
      sum_list (map earned (bl_bins ?q)) + 32 * int (length (blocks16 hist))"
    using bin_level_blocks_ok [OF q(1) assms(2,3) q(2,3) blocks16_shape(1)] by blast
  have "0 \<le> sum_list (map earned (bl_bins p'))" by (rule sum_list_nonneg) (auto simp: earned_def)
  with sum have "steps * int n \<le> 32 * int (length hist div 16)"
    unfolding q(4,5) blocks16_shape(2) by linarith
  moreover have "blocks16 hist \<noteq> []" using assms(4) blocks16_shape(2) [of hist] by (cases "blocks16 hist") auto
  ultimately show ?thesis using run out good blocks16_shape(2) [of hist] unfolding process_history_def by metis
qed

theorem bin_level_history_witness:
  "\<exists>out n p'. process_history ones ones (replicate 40 ones) (bin_level_init (5 / 100) (1 / 10000) (8 / 100) 5) = Ok (out, n, p') \<and>
     length out = 32 \<and> n \<le> 12"
proof -
  have "steering ones" by (simp add: steering_def abs2_def)
  then obtain out n p' where "process_history ones ones (replicate 40 ones) (bin_level_init (5 / 100) (1 / 10000) (8 / 100) 5) = Ok (out, n, p')"
    "length out = 32" "5 * int n \<le> 64"
    using bin_level_history [of "1 / 10000" ones ones "replicate 40 ones" "5 / 100" "8 / 100" 5] by auto
  then show ?thesis by auto
qed

end
