(* ===== verification/Overlap_Tuning.thy ===== *)
theory Overlap_Tuning
  imports Null_Tracking Spaced_Events
begin

text \<open>
  The block-size tuner with its hold timer (\<^verbatim>\<open>adaptive_overlap_tuner.py\<close>) and the manager that
  re-aligns the sliding buffer when the block size changes
  (\<^verbatim>\<open>dynamic_overlap_window_manager.py\<close>). Scores and margins are exact reals, the buffer is a
  list of rows of four channels.
\<close>

section \<open>The tuner\<close>

definition CONFIG_FFT_SIZES :: "nat list" where
  "CONFIG_FFT_SIZES = [16, 32, 64]"

definition CONFIG_STEPS :: "nat list" where
  "CONFIG_STEPS = [8, 16, 32]"

definition tuner_update_jit :: "real \<Rightarrow> real \<Rightarrow> real \<Rightarrow> nat \<Rightarrow> int \<Rightarrow> int \<Rightarrow> nat \<times> int" where
  "tuner_update_jit spectral_complexity boundary_artifact latency_margin_s current_size_idx hold_counter min_hold_steps =
     (if 0 < hold_counter then (current_size_idx, hold_counter - 1)
      else if latency_margin_s < 1 / 1000
        then (if current_size_idx \<noteq> 0 then (0, min_hold_steps) else (0, 0))
      else let next_idx =
             (if (6 / 10 < spectral_complexity \<or> 8 / 100 < boundary_artifact) \<and> 2 / 1000 \<le> latency_margin_s
                then min (current_size_idx + 1) 2
              else if spectral_complexity < 2 / 10 \<and> boundary_artifact < 2 / 100
                then current_size_idx - 1
              else current_size_idx)
           in if next_idx \<noteq> current_size_idx then (next_idx, min_hold_steps) else (next_idx, 0))"

record overlap_tuner =
  min_hold_steps :: int
  current_size_idx :: nat
  hold_counter :: int

definition overlap_tuner_init :: "int \<Rightarrow> overlap_tuner" where
  "overlap_tuner_init hold = \<lparr>min_hold_steps = hold, current_size_idx = 1, hold_counter = 0\<rparr>"

record tune_result =
  size_idx :: nat
  fft_size :: nat
  step_size :: nat
  hold_active :: nat

definition tune_block_size :: "real \<Rightarrow> real \<Rightarrow> real \<Rightarrow> overlap_tuner \<Rightarrow> fault + (tune_result \<times> overlap_tuner)" where
  "tune_block_size spectral_complexity boundary_artifact latency_margin_s t =
     (case tuner_update_jit spectral_complexity boundary_artifact latency_margin_s
             (current_size_idx t) (hold_counter t) (min_hold_steps t) of
        (next_idx, new_hold) \<Rightarrow>
          if 3 \<le> next_idx then Fail IndexError
          else Ok (\<lparr>size_idx = next_idx, fft_size = CONFIG_FFT_SIZES ! next_idx, step_size = CONFIG_STEPS ! next_idx,
                    hold_active = (if 0 < new_hold then 1 else 0)\<rparr>,
                   t\<lparr>current_size_idx := next_idx, hold_counter := new_hold\<rparr>))"

section \<open>The window manager\<close>

definition ZERO_ROW :: vec4 where
  "ZERO_ROW = V4 0 0 0 0"

text \<open>The copy loop: row \<open>t\<close> of the new buffer from row \<open>max(0, start_idx + t)\<close> of the old one.\<close>

fun copy_rows :: "vec4 list \<Rightarrow> int \<Rightarrow> nat list \<Rightarrow> vec4 list \<Rightarrow> fault + vec4 list" where
  "copy_rows old_buf start_idx [] new_buf = Ok new_buf"
| "copy_rows old_buf start_idx (t # ts) new_buf =
     seqE (load old_buf (nat (max 0 (start_idx + int t)))) (\<lambda>row.
       seqE (store new_buf t row) (copy_rows old_buf start_idx ts))"

definition adjust_overlap_buffer_jit :: "vec4 list \<Rightarrow> nat \<Rightarrow> nat \<Rightarrow> vec4 list \<Rightarrow> fault + (nat \<times> vec4 list)" where
  "adjust_overlap_buffer_jit old_buf old_fft_size new_fft_size new_buf =
     (let new_D = new_fft_size div 2; start_idx = int old_fft_size - int new_D
      in seqE (copy_rows old_buf start_idx [0..<new_D] (map (\<lambda>_. ZERO_ROW) new_buf)) (\<lambda>nb. Ok (new_D, nb)))"

record window_manager =
  temp_buf :: "vec4 list"
  active_fft_size :: nat
  active_discard :: nat

definition manager_init :: window_manager where
  "manager_init = \<lparr>temp_buf = replicate 64 ZERO_ROW, active_fft_size = 32, active_discard = 16\<rparr>"

text \<open>The caller's buffer is changed in place: it is the last component of the result.\<close>

definition transition_block_size :: "vec4 list \<Rightarrow> nat \<Rightarrow> window_manager \<Rightarrow>
    fault + (nat \<times> window_manager \<times> vec4 list)" where
  "transition_block_size current_buffer new_fft_size m =
     seqE (adjust_overlap_buffer_jit current_buffer (active_fft_size m) new_fft_size (temp_buf m)) (\<lambda>(new_D, tb).
       if length tb < new_fft_size \<or> length current_buffer < new_fft_size then Fail IndexError
       else Ok (new_D, m\<lparr>temp_buf := tb, active_fft_size := new_fft_size, active_discard := new_D\<rparr>,
                take new_fft_size tb @ replicate (length current_buffer - new_fft_size) ZERO_ROW))"

section \<open>The hold timer\<close>

text \<open>A tuning stride as an event: did the block size change?\<close>

definition tune_event :: "real \<times> real \<times> real \<Rightarrow> overlap_tuner \<Rightarrow> fault + (bool \<times> overlap_tuner)" where
  "tune_event i t = (case i of (c, b, l) \<Rightarrow>
     seqE (tune_block_size c b l t) (\<lambda>(r, t'). Ok (current_size_idx t' \<noteq> current_size_idx t, t')))"

lemma tuner_update_cases:
  assumes "tuner_update_jit c b l idx hold steps = (idx', hold')"
  shows "if idx' \<noteq> idx then hold \<le> 0 \<and> hold' = steps else hold' = (if 0 < hold then hold - 1 else 0)"
    and "idx \<le> 2 \<Longrightarrow> idx' \<le> 2 \<and> idx' \<le> idx + 1"
  using assms by (auto simp: tuner_update_jit_def Let_def split: if_splits)

lemma tune_event_cases:
  assumes "tune_event i t = Ok (ev, t')"
  shows "min_hold_steps t' = min_hold_steps t"
    and "if ev then hold_counter t \<le> 0 \<and> hold_counter t' = min_hold_steps t
         else hold_counter t' = (if 0 < hold_counter t then hold_counter t - 1 else 0)"
proof -
  obtain c b l where i: "i = (c, b, l)" by (cases i)
  obtain idx' hold' where u: "tuner_update_jit c b l (current_size_idx t) (hold_counter t) (min_hold_steps t) = (idx', hold')"
    by fastforce
  from assms have t': "t' = t\<lparr>current_size_idx := idx', hold_counter := hold'\<rparr>" "ev = (idx' \<noteq> current_size_idx t)"
    by (auto simp: i u tune_event_def tune_block_size_def split: if_splits)
  with tuner_update_cases(1) [OF u] show "min_hold_steps t' = min_hold_steps t"
    and "if ev then hold_counter t \<le> 0 \<and> hold_counter t' = min_hold_steps t
         else hold_counter t' = (if 0 < hold_counter t then hold_counter t - 1 else 0)"
    by (simp_all split: if_splits)
qed

text \<open>The strides since the last change, as far as the timer knows; the timer of a tuner with hold \<open>h\<close>.\<close>

definition hold_event :: "int \<Rightarrow> real \<times> real \<times> real \<Rightarrow> overlap_tuner \<Rightarrow> fault + (bool \<times> overlap_tuner)" where
  "hold_event h i t = (if min_hold_steps t = h then tune_event i t else Fail ValueError)"

interpretation tuner_events: spaced_events "hold_event h" "\<lambda>t. h - max 0 (hold_counter t)" "h + 1" for h
proof
  fix i t t' assume "hold_event h i t = Ok (True, t')"
  then have "tune_event i t = Ok (True, t')" "min_hold_steps t = h" by (auto simp: hold_event_def split: if_splits)
  with tune_event_cases [of i t True t']
  show "h + 1 \<le> h - max 0 (hold_counter t) + 1 \<and> h - max 0 (hold_counter t') \<le> 0" by auto
next
  fix i t t' assume "hold_event h i t = Ok (False, t')"
  then have "tune_event i t = Ok (False, t')" by (auto simp: hold_event_def split: if_splits)
  with tune_event_cases [of i t False t']
  show "h - max 0 (hold_counter t') \<le> h - max 0 (hold_counter t) + 1" by (auto split: if_splits)
qed

lemma hold_event_run:
  "event_run tune_event is t = r \<Longrightarrow> event_run (hold_event (min_hold_steps t)) is t = r"
proof (induction "is" arbitrary: t r)
  case (Cons i "is")
  show ?case
  proof (cases "tune_event i t")
    case (Inr p)
    obtain ev t1 where p: "p = (ev, t1)" by (cases p)
    from tune_event_cases(1) [of i t ev t1] Cons.IH [of t1] Cons.prems Inr p
    show ?thesis by (simp add: hold_event_def)
  qed (use Cons.prems in \<open>simp add: hold_event_def\<close>)
qed simp

lemma tune_event_total: "current_size_idx t \<le> 2 \<Longrightarrow> \<exists>ev t'. tune_event i t = Ok (ev, t') \<and> current_size_idx t' \<le> 2"
proof -
  assume idx: "current_size_idx t \<le> 2"
  obtain c b l where i: "i = (c, b, l)" by (cases i)
  obtain idx' hold' where u: "tuner_update_jit c b l (current_size_idx t) (hold_counter t) (min_hold_steps t) = (idx', hold')"
    by fastforce
  from tuner_update_cases(2) [OF u] idx show ?thesis by (auto simp: i u tune_event_def tune_block_size_def)
qed

lemma tune_run_total: "current_size_idx t \<le> 2 \<Longrightarrow> \<exists>bs t'. event_run tune_event is t = Ok (bs, t') \<and> current_size_idx t' \<le> 2"
proof (induction "is" arbitrary: t)
  case (Cons i "is")
  from tune_event_total [OF Cons.prems, of i] obtain ev t1 where "tune_event i t = Ok (ev, t1)" "current_size_idx t1 \<le> 2" by blast
  with Cons.IH [of t1] show ?case by auto
qed simp

text \<open>
  The tuner never fails, and after a change of the block size it holds the new one for at least \<open>hold\<close> strides,
  whatever the scores, emergencies included.
\<close>

theorem tuner_holds:
  assumes "0 \<le> hold"
  shows "\<exists>bs t'. event_run tune_event is (overlap_tuner_init hold) = Ok (bs, t') \<and> length bs = length is \<and> current_size_idx t' \<le> 2 \<and>
    (\<forall>j < length bs. bs ! j \<longrightarrow> (\<forall>i < j. bs ! i \<longrightarrow> hold + 1 \<le> int j - int i))"
proof -
  let ?t = "overlap_tuner_init hold"
  have t: "current_size_idx ?t \<le> 2" "min_hold_steps ?t = hold" "hold_counter ?t = 0" by (simp_all add: overlap_tuner_init_def)
  obtain bs t' where run: "event_run tune_event is ?t = Ok (bs, t')" "current_size_idx t' \<le> 2"
    using tune_run_total [OF t(1)] by blast
  note run' = hold_event_run [OF run(1), unfolded t(2)]
  have "hold + 1 \<le> int j - int i" if "j < length bs" "bs ! j" "i < j" "bs ! i" for i j
    using tuner_events.run_apart(2) [OF run' _ that(1,2,3,4)] assms t(3) by simp
  with run event_run_length [OF run(1)] show ?thesis by blast
qed

theorem tuner_holds_witness:
  "\<exists>bs t'. event_run tune_event [(0.1, 0.01, 0.005), (0.8, 0.12, 0.004)] (overlap_tuner_init 3) = Ok (bs, t') \<and> \<not> (bs ! 0 \<and> bs ! 1)"
proof -
  obtain bs t' where "event_run tune_event [(0.1, 0.01, 0.005), (0.8, 0.12, 0.004)] (overlap_tuner_init 3) = Ok (bs, t')"
    and len: "length bs = 2" and *: "\<forall>j < length bs. bs ! j \<longrightarrow> (\<forall>i < j. bs ! i \<longrightarrow> (3 :: int) + 1 \<le> int j - int i)"
    using tuner_holds [of 3 "[(0.1, 0.01, 0.005), (0.8, 0.12, 0.004)]", OF zero_le_numeral]
    unfolding list.size add_0 One_nat_def [symmetric] one_add_one by blast
  moreover have "\<not> (bs ! 0 \<and> bs ! 1)" using *[rule_format, of 1 0] len by auto
  ultimately show ?thesis by blast
qed

section \<open>History across a transition\<close>

lemma copy_rows_eq:
  assumes "m + n \<le> length new_buf" "s + (m + n) \<le> length old_buf"
  shows "copy_rows old_buf (int s) [m..<m + n] new_buf =
    Ok (take m new_buf @ take n (drop (s + m) old_buf) @ drop (m + n) new_buf)"
  using assms
proof (induction n arbitrary: m new_buf)
  case (Suc n)
  have upt: "[m..<m + Suc n] = m # [Suc m..<Suc m + n]" by (simp add: upt_rec)
  have idx: "nat (max 0 (int s + int m)) = s + m" by simp
  have len: "s + m < length old_buf" "m < length new_buf" using Suc.prems by simp_all
  let ?row = "old_buf ! (s + m)"
  have "copy_rows old_buf (int s) [Suc m..<Suc m + n] (new_buf[m := ?row]) =
      Ok (take (Suc m) (new_buf[m := ?row]) @ take n (drop (s + Suc m) old_buf) @ drop (Suc m + n) (new_buf[m := ?row]))"
    using Suc.prems by (intro Suc.IH) simp_all
  moreover have "take (Suc m) (new_buf[m := ?row]) = take m new_buf @ [?row]"
    using len by (simp add: take_Suc_conv_app_nth)
  moreover have "take (Suc n) (drop (s + m) old_buf) = ?row # take n (drop (s + Suc m) old_buf)"
    using len by (simp add: Cons_nth_drop_Suc [symmetric])
  ultimately show ?case using len unfolding upt copy_rows.simps idx
    by (simp add: load_def store_def)
qed simp

lemma take_padded:
  assumes "length A = D" "D \<le> n" "n \<le> N"
  shows "take n (A @ replicate (N - D) z) @ replicate (N - n) z = A @ replicate (N - D) z"
proof -
  obtain k where k: "n = D + k" using assms(2) le_Suc_ex by blast
  obtain l where l: "N = D + k + l" using assms(3) k le_Suc_ex by blast
  show ?thesis by (simp add: k l assms(1) replicate_add)
qed

text \<open>
  A transition to a block at most twice as large succeeds in a buffer of 64 rows: the first half block of the
  new buffer is the most recent part of the old window, everything after it is zero, and that half block is the
  new discard length.
\<close>

theorem transition_keeps_history:
  assumes "length buf = 64" "length (temp_buf m) = 64" "active_fft_size m \<le> 64" "new \<le> 64" "new div 2 \<le> active_fft_size m"
  shows "\<exists>m'. transition_block_size buf new m = Ok (new div 2, m',
      drop (active_fft_size m - new div 2) (take (active_fft_size m) buf) @ replicate (64 - new div 2) ZERO_ROW) \<and>
    active_fft_size m' = new \<and> active_discard m' = new div 2 \<and> length (temp_buf m') = 64"
proof -
  let ?D = "new div 2" and ?s = "active_fft_size m - new div 2"
  have zeros: "map (\<lambda>_. ZERO_ROW) (temp_buf m) = replicate 64 ZERO_ROW" using assms(2) by (simp add: map_replicate_const)
  have start: "int (active_fft_size m) - int ?D = int ?s" using assms(5) by simp
  have copy: "copy_rows buf (int ?s) [0..<?D] (replicate 64 ZERO_ROW) = Ok (take ?D (drop ?s buf) @ replicate (64 - ?D) ZERO_ROW)"
    using copy_rows_eq [of 0 ?D "replicate 64 ZERO_ROW" ?s buf] assms by simp
  have window: "take ?D (drop ?s buf) = drop ?s (take (active_fft_size m) buf)"
    using assms by (simp add: drop_take)
  let ?tb = "take ?D (drop ?s buf) @ replicate (64 - ?D) ZERO_ROW"
  have len: "length (take ?D (drop ?s buf)) = ?D" using assms by simp
  have "take new ?tb @ replicate (64 - new) ZERO_ROW = ?tb"
    using take_padded [OF len div_le_dividend assms(4)] .
  moreover have tb: "length ?tb = 64" using len assms(4) by simp
  moreover have "adjust_overlap_buffer_jit buf (active_fft_size m) new (temp_buf m) = Ok (?D, ?tb)"
    unfolding adjust_overlap_buffer_jit_def Let_def start zeros copy by simp
  moreover have "\<not> (length ?tb < new \<or> length buf < new)" unfolding tb using assms(1,4) by simp
  ultimately show ?thesis unfolding transition_block_size_def window [symmetric] assms(1)
    by (intro exI [of _ "m\<lparr>temp_buf := ?tb, active_fft_size := new, active_discard := ?D\<rparr>"])
       (simp only: seqE_simps prod.case if_False select_convs update_convs simp_thms, simp)
qed

theorem transition_keeps_history_witness:
  "\<exists>m' tail. transition_block_size (map (\<lambda>t. V4 (of_nat t) 0 0 0) [0..<64]) 64 manager_init =
      Ok (32, m', V4 0 0 0 0 # tail) \<and> length (temp_buf m') = 64"
  using transition_keeps_history [of "map (\<lambda>t. V4 (of_nat t) 0 0 0) [0..<64]" manager_init 64]
  by (force simp: manager_init_def upt_rec)

end
