(* ===== verification/Sweep_Verification.thy ===== *)
theory Sweep_Verification
  imports Overlap_Tuning
begin

text \<open>
  The closed-loop sweep (\<^verbatim>\<open>automated_rf_sweep_verification.py\<close>) and the parts it coordinates
  beside the tuner and the window manager: the table of frequency-hop profiles
  (\<^verbatim>\<open>fast_lock_calibration_table.py\<close>) and the monitor of the radio's phase-locked loop
  (\<^verbatim>\<open>physical_sdr_pll_validation.py\<close>). Clock readings are arguments.
\<close>

section \<open>Hop profiles\<close>

record profile =
  initial_mu :: real
  settle_threshold :: real
  expected_lock_ms :: real

definition hop_profile :: "nat \<Rightarrow> nat \<Rightarrow> profile" where
  "hop_profile f_from f_to =
     (let dist = abs (int f_from - int f_to)
      in if dist = 0 then \<lparr>initial_mu = 5 / 100, settle_threshold = 4 / 100, expected_lock_ms = 1\<rparr>
         else if dist \<le> 2 then \<lparr>initial_mu = 8 / 100, settle_threshold = 6 / 100, expected_lock_ms = 7 / 2\<rparr>
         else \<lparr>initial_mu = 3 / 100, settle_threshold = 8 / 100, expected_lock_ms = 8\<rparr>)"

definition hop_profile_table :: "profile list list" where
  "hop_profile_table = map (\<lambda>f_from. map (hop_profile f_from) [0..<8]) [0..<8]"

definition lookup_profile :: "int \<Rightarrow> int \<Rightarrow> profile list list \<Rightarrow> profile" where
  "lookup_profile freq_from_idx freq_to_idx tab =
     tab ! nat (min (max freq_from_idx 0) 7) ! nat (min (max freq_to_idx 0) 7)"

section \<open>The lock monitor\<close>

definition EVENT_PLL_NONE :: nat where "EVENT_PLL_NONE = 0"
definition EVENT_PLL_UNLOCK :: nat where "EVENT_PLL_UNLOCK = 1"
definition EVENT_PLL_RELOCK :: nat where "EVENT_PLL_RELOCK = 2"

record pll_state =
  current_lock :: int
  unlock_ts :: int
  total_unlocks :: int
  max_unlock_duration_ns :: int

definition pll_init :: pll_state where
  "pll_init = \<lparr>current_lock = 1, unlock_ts = 0, total_unlocks = 0, max_unlock_duration_ns = 0\<rparr>"

definition monitor_pll_stride_jit :: "int \<Rightarrow> int \<Rightarrow> pll_state \<Rightarrow> (nat \<times> int) \<times> pll_state" where
  "monitor_pll_stride_jit pll_status ts_ns s =
     (if pll_status = 0 then
        (if current_lock s = 1
         then ((EVENT_PLL_UNLOCK, 0), s\<lparr>current_lock := 0, unlock_ts := ts_ns, total_unlocks := total_unlocks s + 1\<rparr>)
         else ((EVENT_PLL_NONE, ts_ns - unlock_ts s), s))
      else
        (if current_lock s = 0
         then let duration = ts_ns - unlock_ts s
              in ((EVENT_PLL_RELOCK, duration),
                  s\<lparr>current_lock := 1, max_unlock_duration_ns :=
                      (if max_unlock_duration_ns s < duration then duration else max_unlock_duration_ns s)\<rparr>)
         else ((EVENT_PLL_NONE, 0), s)))"

record pll_result =
  lock_status :: int
  total_unlock_events :: int
  max_unlock_duration_ms :: real
  pll_event :: nat
  last_event_duration_ms :: real

definition pll_process_stride :: "int \<Rightarrow> int \<Rightarrow> pll_state \<Rightarrow> pll_result \<times> pll_state" where
  "pll_process_stride pll_status now_ns s =
     (case monitor_pll_stride_jit pll_status now_ns s of ((event, duration), s') \<Rightarrow>
        (\<lparr>lock_status = current_lock s', total_unlock_events = total_unlocks s',
          max_unlock_duration_ms = real_of_int (max_unlock_duration_ns s') / 1000000,
          pll_event = event, last_event_duration_ms = real_of_int duration / 1000000\<rparr>, s'))"

definition pll_run :: "(int \<times> int) list \<Rightarrow> pll_state \<Rightarrow> pll_state" where
  "pll_run es s = fold (\<lambda>(pll_status, now) s. snd (pll_process_stride pll_status now s)) es s"

section \<open>The sweep\<close>

definition run_sweep_step_jit :: "real \<Rightarrow> int \<Rightarrow> real \<Rightarrow> int \<times> int" where
  "run_sweep_step_jit rf_power_dbm pll_status latency_margin_s =
     (if pll_status = 0 \<or> - 40 < rf_power_dbm then 1 else 0, if latency_margin_s < 15 / 10000 then 1 else 0)"

record rf_sweep =
  calibration :: "profile list list"
  overlap_manager :: window_manager
  tuner :: overlap_tuner
  pll_validator :: pll_state
  sliding_buffer :: "vec4 list"

definition sweep_init :: rf_sweep where
  "sweep_init = \<lparr>calibration = hop_profile_table, overlap_manager = manager_init, tuner = overlap_tuner_init 4,
     pll_validator = pll_init, sliding_buffer = replicate 64 ZERO_ROW\<rparr>"

record sweep_stride =
  freq_from :: int
  freq_to :: int
  rf_power_dbm :: real
  pll_status :: int
  spectral_complexity :: real
  boundary_artifact :: real
  latency_margin_s :: real
  now_ns :: int

record sweep_result =
  sw_profile :: profile
  anomaly_detected :: int
  hold_required :: int
  reported_fft_size :: nat
  discard_overlap :: nat
  pll_lock :: int
  pll_unlocks :: int

definition verify_stride :: "sweep_stride \<Rightarrow> rf_sweep \<Rightarrow> fault + (sweep_result \<times> rf_sweep)" where
  "verify_stride i v =
     (let cal_profile = lookup_profile (freq_from i) (freq_to i) (calibration v);
          flags = run_sweep_step_jit (rf_power_dbm i) (pll_status i) (latency_margin_s i)
      in seqE (tune_block_size (spectral_complexity i) (boundary_artifact i) (latency_margin_s i) (tuner v)) (\<lambda>(tune_res, t').
           let new_fft = fft_size tune_res
           in seqE (if new_fft \<noteq> active_fft_size (overlap_manager v)
                    then transition_block_size (sliding_buffer v) new_fft (overlap_manager v)
                    else Ok (active_discard (overlap_manager v), overlap_manager v, sliding_buffer v))
                (\<lambda>(discard_len, m', buf').
                   case pll_process_stride (pll_status i) (now_ns i) (pll_validator v) of (pll_res, p') \<Rightarrow>
                     Ok (\<lparr>sw_profile = cal_profile, anomaly_detected = fst flags, hold_required = snd flags,
                          reported_fft_size = new_fft, discard_overlap = discard_len,
                          pll_lock = lock_status pll_res, pll_unlocks = total_unlock_events pll_res\<rparr>,
                         v\<lparr>tuner := t', overlap_manager := m', sliding_buffer := buf', pll_validator := p'\<rparr>))))"

fun sweep_run :: "sweep_stride list \<Rightarrow> rf_sweep \<Rightarrow> fault + (sweep_result list \<times> rf_sweep)" where
  "sweep_run [] v = Ok ([], v)"
| "sweep_run (i # is) v =
     seqE (verify_stride i v) (\<lambda>(r, v1). seqE (sweep_run is v1) (\<lambda>(rs, v2). Ok (r # rs, v2)))"

section \<open>Coordination of tuner and window manager\<close>

definition sweep_ok :: "rf_sweep \<Rightarrow> bool" where
  "sweep_ok v \<longleftrightarrow> current_size_idx (tuner v) \<le> 2 \<and>
     active_fft_size (overlap_manager v) = CONFIG_FFT_SIZES ! current_size_idx (tuner v) \<and>
     active_discard (overlap_manager v) = active_fft_size (overlap_manager v) div 2 \<and>
     length (temp_buf (overlap_manager v)) = 64 \<and> length (sliding_buffer v) = 64"

lemma sweep_ok_init: "sweep_ok sweep_init"
  by (simp add: sweep_ok_def sweep_init_def manager_init_def overlap_tuner_init_def CONFIG_FFT_SIZES_def)

lemma config_sizes:
  assumes "i \<le> 2" "j \<le> 2" "j \<le> i + 1"
  shows "CONFIG_FFT_SIZES ! j \<le> 64" "CONFIG_FFT_SIZES ! j div 2 \<le> CONFIG_FFT_SIZES ! i"
proof -
  from assms have "i \<in> {0, 1, 2}" "j \<in> {0, 1, 2}" by auto
  with assms(3) show "CONFIG_FFT_SIZES ! j \<le> 64" "CONFIG_FFT_SIZES ! j div 2 \<le> CONFIG_FFT_SIZES ! i"
    by (auto simp: CONFIG_FFT_SIZES_def)
qed

text \<open>What a stride leaves in the sliding buffer: unchanged, or the most recent half block and zeros.\<close>

definition realigned :: "vec4 list \<Rightarrow> nat \<Rightarrow> nat \<Rightarrow> vec4 list" where
  "realigned buf old new = (if new = old then buf
     else drop (old - new div 2) (take old buf) @ replicate (64 - new div 2) ZERO_ROW)"

lemma verify_stride_ok:
  assumes "sweep_ok v"
  shows "\<exists>r v'. verify_stride i v = Ok (r, v') \<and> sweep_ok v' \<and>
    reported_fft_size r = active_fft_size (overlap_manager v') \<and>
    discard_overlap r = reported_fft_size r div 2 \<and>
    sliding_buffer v' = realigned (sliding_buffer v) (active_fft_size (overlap_manager v)) (reported_fft_size r)"
proof -
  let ?t = "tuner v" and ?m = "overlap_manager v" and ?buf = "sliding_buffer v"
  obtain idx' hold' where u: "tuner_update_jit (spectral_complexity i) (boundary_artifact i) (latency_margin_s i)
      (current_size_idx ?t) (hold_counter ?t) (min_hold_steps ?t) = (idx', hold')" by fastforce
  have idx: "current_size_idx ?t \<le> 2" and act: "active_fft_size ?m = CONFIG_FFT_SIZES ! current_size_idx ?t"
    and disc: "active_discard ?m = active_fft_size ?m div 2"
    and len: "length (temp_buf ?m) = 64" "length ?buf = 64"
    using assms by (simp_all add: sweep_ok_def)
  note idx' = tuner_update_cases(2) [OF u idx]
  let ?new = "CONFIG_FFT_SIZES ! idx'"
  from idx' obtain r where r: "tune_block_size (spectral_complexity i) (boundary_artifact i) (latency_margin_s i) ?t =
      Ok (r, ?t\<lparr>current_size_idx := idx', hold_counter := hold'\<rparr>)" "fft_size r = ?new"
    by (simp add: tune_block_size_def u)
  have "\<exists>m' buf'. (if ?new \<noteq> active_fft_size ?m then transition_block_size ?buf ?new ?m
      else Ok (active_discard ?m, ?m, ?buf)) = Ok (?new div 2, m', buf') \<and> active_fft_size m' = ?new \<and>
      active_discard m' = ?new div 2 \<and> length (temp_buf m') = 64 \<and> buf' = realigned ?buf (active_fft_size ?m) ?new \<and>
      length buf' = 64"
  proof (cases "?new = active_fft_size ?m")
    case True
    with len disc show ?thesis by (auto simp: realigned_def)
  next
    case False
    have c: "active_fft_size ?m \<le> 64" "?new \<le> 64" "?new div 2 \<le> active_fft_size ?m"
      using config_sizes [OF idx idx] config_sizes [of "current_size_idx ?t" idx'] idx idx' act by auto
    from transition_keeps_history [OF len(2,1) c] obtain m' where
      "transition_block_size ?buf ?new ?m = Ok (?new div 2, m', realigned ?buf (active_fft_size ?m) ?new)"
      "active_fft_size m' = ?new" "active_discard m' = ?new div 2" "length (temp_buf m') = 64"
      using False by (auto simp: realigned_def)
    moreover have "length (realigned ?buf (active_fft_size ?m) ?new) = 64"
      using c len(2) False by (simp add: realigned_def)
    ultimately show ?thesis using False by auto
  qed
  then obtain m' buf' where trans: "(if ?new \<noteq> active_fft_size ?m then transition_block_size ?buf ?new ?m
      else Ok (active_discard ?m, ?m, ?buf)) = Ok (?new div 2, m', buf')" "active_fft_size m' = ?new"
      "active_discard m' = ?new div 2" "length (temp_buf m') = 64" "buf' = realigned ?buf (active_fft_size ?m) ?new"
      "length buf' = 64" by blast
  obtain pr p' where "pll_process_stride (pll_status i) (now_ns i) (pll_validator v) = (pr, p')" by fastforce
  then have "verify_stride i v =
      Ok (\<lparr>sw_profile = lookup_profile (freq_from i) (freq_to i) (calibration v),
            anomaly_detected = fst (run_sweep_step_jit (rf_power_dbm i) (pll_status i) (latency_margin_s i)),
            hold_required = snd (run_sweep_step_jit (rf_power_dbm i) (pll_status i) (latency_margin_s i)),
            reported_fft_size = ?new, discard_overlap = ?new div 2,
            pll_lock = lock_status pr, pll_unlocks = total_unlock_events pr\<rparr>,
          v\<lparr>tuner := ?t\<lparr>current_size_idx := idx', hold_counter := hold'\<rparr>, overlap_manager := m',
            sliding_buffer := buf', pll_validator := p'\<rparr>)"
    unfolding verify_stride_def Let_def r(1) seqE_simps prod.case r(2) trans(1) by simp
  with trans idx' show ?thesis by (simp add: sweep_ok_def)
qed

lemma sweep_run_ok:
  "sweep_ok v \<Longrightarrow> \<exists>rs v'. sweep_run is v = Ok (rs, v') \<and> sweep_ok v' \<and> length rs = length is \<and>
     list_all (\<lambda>r. discard_overlap r = reported_fft_size r div 2) rs"
proof (induction "is" arbitrary: v)
  case (Cons i "is")
  from verify_stride_ok [OF Cons.prems, of i] obtain r v1 where
    v1: "verify_stride i v = Ok (r, v1)" "sweep_ok v1" "discard_overlap r = reported_fft_size r div 2" by blast
  from Cons.IH [OF v1(2)] v1(1,3) show ?case by auto
qed simp

text \<open>
  The sweep coordinates its parts: any number of strides from a fresh object, followed by one more, succeed; tuner
  and window manager agree on the block size, the discard length is half of it, and the sliding
  buffer is left alone or realigned to hold the most recent half block of the window it had.
\<close>

theorem sweep_coordination:
  "\<exists>rs v r v'. sweep_run is sweep_init = Ok (rs, v) \<and> verify_stride i v = Ok (r, v') \<and> length rs = length is \<and>
    reported_fft_size r = CONFIG_FFT_SIZES ! current_size_idx (tuner v') \<and>
    active_fft_size (overlap_manager v') = reported_fft_size r \<and>
    discard_overlap r = reported_fft_size r div 2 \<and>
    length (sliding_buffer v) = 64 \<and>
    sliding_buffer v' = (let old = active_fft_size (overlap_manager v); new = reported_fft_size r in
      if new = old then sliding_buffer v
      else drop (old - new div 2) (take old (sliding_buffer v)) @ replicate (64 - new div 2) ZERO_ROW)"
proof -
  obtain rs v where v: "sweep_run is sweep_init = Ok (rs, v)" "sweep_ok v" "length rs = length is"
    using sweep_run_ok [OF sweep_ok_init] by blast
  obtain r v' where r: "verify_stride i v = Ok (r, v')" "sweep_ok v'" "reported_fft_size r = active_fft_size (overlap_manager v')"
    "discard_overlap r = reported_fft_size r div 2"
    "sliding_buffer v' = realigned (sliding_buffer v) (active_fft_size (overlap_manager v)) (reported_fft_size r)"
    using verify_stride_ok [OF v(2)] by blast
  from r(2,3) have "reported_fft_size r = CONFIG_FFT_SIZES ! current_size_idx (tuner v')"
    by (simp add: sweep_ok_def)
  moreover from v(2) have "length (sliding_buffer v) = 64" by (simp add: sweep_ok_def)
  moreover have "sliding_buffer v' = (let old = active_fft_size (overlap_manager v); new = reported_fft_size r in
      if new = old then sliding_buffer v
      else drop (old - new div 2) (take old (sliding_buffer v)) @ replicate (64 - new div 2) ZERO_ROW)"
    unfolding Let_def using r(5) unfolding realigned_def .
  ultimately show ?thesis using v(1,3) r(1,3,4) by metis
qed

section \<open>Outages\<close>

definition down :: "(int \<times> int) list \<Rightarrow> nat \<Rightarrow> bool" where
  "down es k \<longleftrightarrow> fst (es ! k) = 0"

definition outage_start :: "(int \<times> int) list \<Rightarrow> nat \<Rightarrow> bool" where
  "outage_start es i \<longleftrightarrow> i < length es \<and> down es i \<and> (i = 0 \<or> \<not> down es (i - 1))"

definition outage :: "(int \<times> int) list \<Rightarrow> nat \<Rightarrow> nat \<Rightarrow> bool" where
  "outage es i j \<longleftrightarrow> outage_start es i \<and> i < j \<and> j < length es \<and> (\<forall>k. i \<le> k \<and> k < j \<longrightarrow> down es k) \<and> \<not> down es j"

definition still_open :: "(int \<times> int) list \<Rightarrow> nat \<Rightarrow> bool" where
  "still_open es i \<longleftrightarrow> outage_start es i \<and> (\<forall>k. i \<le> k \<and> k < length es \<longrightarrow> down es k)"

lemma down_append: "k < length es \<Longrightarrow> down (es @ [e]) k = down es k"
  by (simp add: down_def nth_append)

lemma down_last [simp]: "down (es @ [e]) (length es) \<longleftrightarrow> fst e = 0"
  by (simp add: down_def)

lemma down_single [simp]: "down [e] 0 \<longleftrightarrow> fst e = 0"
  by (simp add: down_def)

lemma outage_start_append:
  "outage_start (es @ [e]) i \<longleftrightarrow>
     outage_start es i \<or> (i = length es \<and> fst e = 0 \<and> (es = [] \<or> \<not> down es (length es - 1)))"
proof (cases "i < length es")
  case True
  then show ?thesis by (simp add: outage_start_def down_append)
next
  case False
  then show ?thesis by (cases "i = length es") (auto simp: outage_start_def down_append)
qed

lemma outage_start_less: "outage_start es i \<Longrightarrow> i < length es"
  by (simp add: outage_start_def)

lemma outage_append:
  "outage (es @ [e]) i j \<longleftrightarrow> outage es i j \<or> (j = length es \<and> fst e \<noteq> 0 \<and> still_open es i)"
proof (cases "j < length es")
  case True
  then show ?thesis by (auto simp: outage_def outage_start_append down_append)
next
  case False
  then show ?thesis
    by (cases "j = length es") (auto simp: outage_def still_open_def outage_start_append down_append
        dest: outage_start_less)
qed

lemma still_open_unique: "still_open es i \<Longrightarrow> still_open es j \<Longrightarrow> i = j"
proof (rule ccontr)
  assume o: "still_open es i" "still_open es j" and ne: "i \<noteq> j"
  have less: "False" if "still_open es a" "still_open es b" "a < b" for a b
  proof -
    from that have "b < length es" "\<not> down es (b - 1)" by (auto simp: still_open_def outage_start_def)
    moreover from that this have "down es (b - 1)" unfolding still_open_def
      by (metis One_nat_def Suc_leI Suc_pred bot_nat_0.extremum_strict diff_less gr0I less_Suc_eq_le less_trans zero_less_one)
    ultimately show ?thesis by simp
  qed
  from less [OF o] less [OF o(2,1)] ne show False by linarith
qed

lemma still_open_append: "still_open (es @ [e]) i \<longleftrightarrow>
    fst e = 0 \<and> (still_open es i \<or> (i = length es \<and> (es = [] \<or> \<not> down es (length es - 1))))"
proof
  assume l: "still_open (es @ [e]) i"
  then have "i \<le> length es" by (auto simp: still_open_def outage_start_def)
  with l have "fst e = 0" by (auto simp: still_open_def dest: spec [of _ "length es"])
  with l show "fst e = 0 \<and> (still_open es i \<or> (i = length es \<and> (es = [] \<or> \<not> down es (length es - 1))))"
    by (auto simp: still_open_def outage_start_append down_append dest: outage_start_append [THEN iffD1])
next
  assume r: "fst e = 0 \<and> (still_open es i \<or> (i = length es \<and> (es = [] \<or> \<not> down es (length es - 1))))"
  then show "still_open (es @ [e]) i"
    by (auto simp: still_open_def outage_start_append less_Suc_eq down_append)
qed

definition outage_lengths :: "(int \<times> int) list \<Rightarrow> int set" where
  "outage_lengths es = {snd (es ! j) - snd (es ! i) | i j. outage es i j}"

lemma finite_outage_lengths [simp]: "finite (outage_lengths es)"
proof -
  have "outage_lengths es \<subseteq> (\<lambda>(i, j). snd (es ! j) - snd (es ! i)) ` ({..<length es} \<times> {..<length es})"
    by (fastforce simp: outage_lengths_def outage_def dest: outage_start_less)
  then show ?thesis by (rule finite_subset) simp
qed

lemma outage_lengths_append:
  "outage_lengths (es @ [e]) =
     outage_lengths es \<union> (if fst e \<noteq> 0 then {snd e - snd (es ! i) | i. still_open es i} else {})"
proof -
  have "snd ((es @ [e]) ! j) - snd ((es @ [e]) ! i) = snd (es ! j) - snd (es ! i)" if "outage es i j" for i j
    using that by (auto simp: outage_def nth_append)
  moreover have "snd ((es @ [e]) ! length es) - snd ((es @ [e]) ! i) = snd e - snd (es ! i)" if "still_open es i" for i
    using that by (auto simp: still_open_def nth_append dest: outage_start_less)
  ultimately show ?thesis
    unfolding outage_lengths_def outage_append by (auto; metis)
qed

definition pll_tracks :: "(int \<times> int) list \<Rightarrow> pll_state \<Rightarrow> bool" where
  "pll_tracks es s \<longleftrightarrow>
     current_lock s = (if es = [] \<or> \<not> down es (length es - 1) then 1 else 0) \<and>
     (\<forall>i. still_open es i \<longrightarrow> unlock_ts s = snd (es ! i)) \<and>
     total_unlocks s = int (card (Collect (outage_start es))) \<and>
     max_unlock_duration_ns s = Max (insert 0 (outage_lengths es))"

lemma still_open_exists: "es \<noteq> [] \<Longrightarrow> down es (length es - 1) \<Longrightarrow> \<exists>i. still_open es i"
proof (induction es rule: rev_induct)
  case (snoc e es)
  then show ?case by (cases "es = [] \<or> \<not> down es (length es - 1)") (auto simp: still_open_append)
qed simp

lemma finite_starts [simp]: "finite (Collect (outage_start es))"
  by (rule finite_subset [of _ "{..<length es}"]) (auto dest: outage_start_less)

lemma card_starts_append:
  "card (Collect (outage_start (es @ [e]))) = card (Collect (outage_start es)) +
     (if fst e = 0 \<and> (es = [] \<or> \<not> down es (length es - 1)) then 1 else 0)"
proof -
  let ?new = "fst e = 0 \<and> (es = [] \<or> \<not> down es (length es - 1))"
  have "Collect (outage_start (es @ [e])) = (if ?new then insert (length es) (Collect (outage_start es)) else Collect (outage_start es))"
    by (rule set_eqI, simp only: mem_Collect_eq outage_start_append) auto
  moreover have "length es \<notin> Collect (outage_start es)" by (auto dest: outage_start_less)
  ultimately show ?thesis by simp
qed

lemma not_still_open:
  assumes "es = [] \<or> \<not> down es (length es - 1)"
  shows "\<not> still_open es i"
proof
  assume o: "still_open es i"
  then have "i < length es" by (auto simp: still_open_def dest: outage_start_less)
  then have "i \<le> length es - 1" "length es - 1 < length es" "es \<noteq> []" by auto
  with o assms show False unfolding still_open_def by blast
qed

lemma pll_tracks_step:
  assumes "pll_tracks es s"
  shows "pll_tracks (es @ [e]) (snd (pll_process_stride (fst e) (snd e) s))"
proof -
  have lock: "current_lock s = (if es = [] \<or> \<not> down es (length es - 1) then 1 else 0)"
    and ts: "\<And>i. still_open es i \<Longrightarrow> unlock_ts s = snd (es ! i)"
    and cnt: "total_unlocks s = int (card (Collect (outage_start es)))"
    and mx: "max_unlock_duration_ns s = Max (insert 0 (outage_lengths es))"
    using assms by (auto simp: pll_tracks_def)
  have snd_open: "snd ((es @ [e]) ! i) = snd (es ! i)" if "still_open es i" for i
    using that by (auto simp: still_open_def nth_append dest: outage_start_less)
  show ?thesis
  proof (cases "fst e = 0")
    case True
    then show ?thesis
      using lock ts cnt mx snd_open
      by (auto simp: pll_tracks_def pll_process_stride_def monitor_pll_stride_jit_def still_open_append
          card_starts_append outage_lengths_append not_still_open split: if_splits)
  next
    case False
    show ?thesis
    proof (cases "es = [] \<or> \<not> down es (length es - 1)")
      case True
      from not_still_open [OF this] False True lock cnt mx show ?thesis
        by (simp add: pll_tracks_def pll_process_stride_def monitor_pll_stride_jit_def still_open_append
            card_starts_append outage_lengths_append)
    next
      case open': False
      then obtain i where i: "still_open es i" using still_open_exists by blast
      then have "{snd e - snd (es ! i) | i. still_open es i} = {snd e - unlock_ts s}"
        using still_open_unique ts by (auto; blast)
      with False have "outage_lengths (es @ [e]) = insert (snd e - unlock_ts s) (outage_lengths es)"
        by (simp add: outage_lengths_append)
      then have "insert 0 (outage_lengths (es @ [e])) = insert (snd e - unlock_ts s) (insert 0 (outage_lengths es))"
        by auto
      moreover have "Max (insert (snd e - unlock_ts s) (insert 0 (outage_lengths es))) =
          max (snd e - unlock_ts s) (Max (insert 0 (outage_lengths es)))"
        by (rule Max_insert) simp_all
      ultimately have "Max (insert 0 (outage_lengths (es @ [e]))) = max (snd e - unlock_ts s) (max_unlock_duration_ns s)"
        by (simp only: mx)
      with False open' lock cnt show ?thesis
        by (simp add: pll_tracks_def pll_process_stride_def monitor_pll_stride_jit_def still_open_append
            card_starts_append Let_def max_def)
    qed
  qed
qed

lemma pll_run_tracks: "pll_tracks es (pll_run es pll_init)"
proof (induction es rule: rev_induct)
  case Nil
  have "outage_lengths [] = {}" by (auto simp: outage_lengths_def outage_def outage_start_def)
  then show ?case
    by (simp add: pll_tracks_def pll_run_def pll_init_def still_open_def outage_start_def)
next
  case (snoc e es)
  from pll_tracks_step [OF this, of e] show ?case by (simp add: pll_run_def split_beta)
qed

text \<open>
  The lock monitor tells the truth about any history of status words and clock readings: it reports a lock exactly
  when the last status was not zero (or there was none), the number of unlock events is the number of
  outages that began, and the longest duration is the longest of the outages that ended.
\<close>

theorem pll_report_exact:
  "current_lock (pll_run es pll_init) = (if es = [] \<or> fst (last es) \<noteq> 0 then 1 else 0) \<and>
   total_unlocks (pll_run es pll_init) =
     int (card {i. i < length es \<and> fst (es ! i) = 0 \<and> (i = 0 \<or> fst (es ! (i - 1)) \<noteq> 0)}) \<and>
   max_unlock_duration_ns (pll_run es pll_init) =
     Max (insert 0 {snd (es ! j) - snd (es ! i) | i j. outage es i j})"
proof -
  note tracks = pll_run_tracks [of es, unfolded pll_tracks_def outage_lengths_def]
  have "(es = [] \<or> \<not> down es (length es - 1)) = (es = [] \<or> fst (last es) \<noteq> 0)"
    by (cases "es = []") (simp_all add: down_def last_conv_nth)
  moreover have "Collect (outage_start es) = {i. i < length es \<and> fst (es ! i) = 0 \<and> (i = 0 \<or> fst (es ! (i - 1)) \<noteq> 0)}"
    by (auto simp: outage_start_def down_def)
  ultimately show ?thesis using tracks by simp
qed

theorem pll_report_exact_witness:
  "current_lock (pll_run [(1, 0), (0, 10), (0, 25), (1, 70), (0, 90)] pll_init) = 0 \<and>
   total_unlocks (pll_run [(1, 0), (0, 10), (0, 25), (1, 70), (0, 90)] pll_init) = 2"
proof -
  let ?es = "[(1, 0), (0, 10), (0, 25), (1, 70), (0, 90)] :: (int \<times> int) list"
  have "{i. i < length ?es \<and> fst (?es ! i) = 0 \<and> (i = 0 \<or> fst (?es ! (i - 1)) \<noteq> 0)} = {1, 4}"
    by (auto simp: less_Suc_eq nth_Cons' split: if_splits)
  with pll_report_exact [of ?es] show ?thesis by simp
qed

end
