(* ===== verification/Payload_Codec.thy ===== *)
theory Payload_Codec
  imports Prelude
begin

text \<open>
  The contract shared by the three telemetry compressors (\<^verbatim>\<open>TelemetryPayloadCompressor\<close>,
  \<^verbatim>\<open>TelemetryHuffmanCompactor\<close>, \<^verbatim>\<open>AdaptiveHuffmanTableManager\<close>): an object with
  pre-allocated buffers whose \<open>compress\<close> and \<open>decompress\<close> both mutate it. The locale states
  what one frame must satisfy; its lemma lifts that to a whole stream of frames sent through
  one object, whose buffers are never cleared between frames.
\<close>

type_synonym 's coder = "'s \<Rightarrow> byte list \<Rightarrow> fault + ('s \<times> byte list)"

text \<open>Compress and decompress every frame of a stream, threading the object's state.\<close>

fun transmit :: "'s coder \<Rightarrow> 's coder \<Rightarrow> 's \<Rightarrow> byte list list \<Rightarrow> fault + ('s \<times> byte list list)" where
  "transmit enc dec s [] = Ok (s, [])"
| "transmit enc dec s (f # fs) =
     seqE (enc s f) (\<lambda>(s1, c). seqE (dec s1 c) (\<lambda>(s2, d).
       seqE (transmit enc dec s2 fs) (\<lambda>(s3, ds). Ok (s3, d # ds))))"

locale payload_codec =
  fixes enc :: "'s coder" and dec :: "'s coder"
    and inv :: "'s \<Rightarrow> bool" and good :: "byte list \<Rightarrow> bool" and bound :: nat
  assumes enc_ok: "inv s \<Longrightarrow> good f \<Longrightarrow>
      \<exists>s' c. enc s f = Ok (s', c) \<and> inv s' \<and> length c \<le> bound"
    and dec_enc: "inv s \<Longrightarrow> good f \<Longrightarrow> enc s f = Ok (s', c) \<Longrightarrow> inv t \<Longrightarrow>
      \<exists>t'. dec t c = Ok (t', f) \<and> inv t'"
begin

lemma one_frame:
  assumes "inv s" and "good f"
  shows "\<exists>s1 c s2. enc s f = Ok (s1, c) \<and> dec s1 c = Ok (s2, f) \<and> inv s2"
  using assms enc_ok [of s f] dec_enc [of s f] by blast

lemma transmit_all:
  assumes "inv s" and "\<forall>f \<in> set fs. good f"
  shows "\<exists>s'. transmit enc dec s fs = Ok (s', fs) \<and> inv s'"
  using assms
proof (induction fs arbitrary: s)
  case Nil
  then show ?case by simp
next
  case (Cons f fs)
  then obtain s1 c s2 where "enc s f = Ok (s1, c)" "dec s1 c = Ok (s2, f)" "inv s2"
    using one_frame [of s f] by auto
  moreover from this(3) Cons obtain s3 where "transmit enc dec s2 fs = Ok (s3, fs)" "inv s3"
    by fastforce
  ultimately show ?case by simp
qed

end

end
