(* ===== verification/Payload_Rle.thy ===== *)
theory Payload_Rle
  imports Payload_Codec
begin

text \<open>
  The marker-based run-length coder of \<^verbatim>\<open>telemetry_payload_compressor.py\<close>. Source positions
  are modelled by the unread suffix of the input; the output arrays stay pre-allocated
  buffers written by index, with a write outside them as \<open>OutOfBounds\<close>. \<open>rle\<close> and \<open>unrle\<close>
  are the coder's abstract specification on byte strings, which the loops refine.
\<close>

section \<open>The compiled kernels\<close>

text \<open>\<^verbatim>\<open>while i + run_len < src_len and src[i + run_len] == val and run_len < 255\<close>\<close>

fun run_length :: "byte \<Rightarrow> byte list \<Rightarrow> nat \<Rightarrow> nat" where
  "run_length val [] n = n"
| "run_length val (x # xs) n = (if x = val \<and> n < 255 then run_length val xs (Suc n) else n)"

function compress_rle_loop :: "byte \<Rightarrow> byte list \<Rightarrow> byte list \<Rightarrow> nat \<Rightarrow> fault + (byte list \<times> nat)" where
  "compress_rle_loop marker [] dst write_idx = Ok (dst, write_idx)"
| "compress_rle_loop marker (val # rest) dst write_idx =
     (let run_len = run_length val rest 1;
          next = drop (run_len - 1) rest
      in if val = marker then
           seqE (store dst write_idx marker) (\<lambda>d1.
           seqE (store d1 (write_idx + 1) (word_of_nat run_len)) (\<lambda>d2.
           seqE (store d2 (write_idx + 2) marker) (\<lambda>d3.
             compress_rle_loop marker next d3 (write_idx + 3))))
         else if run_len \<ge> 4 then
           seqE (store dst write_idx marker) (\<lambda>d1.
           seqE (store d1 (write_idx + 1) (word_of_nat run_len)) (\<lambda>d2.
           seqE (store d2 (write_idx + 2) val) (\<lambda>d3.
             compress_rle_loop marker next d3 (write_idx + 3))))
         else
           seqE (store_all dst write_idx (replicate run_len val)) (\<lambda>d1.
             compress_rle_loop marker next d1 (write_idx + run_len)))"
  by pat_completeness auto
termination
  by (relation "measure (\<lambda>(m, src, d, w). length src)") auto

definition compress_rle_jit :: "byte list \<Rightarrow> byte list \<Rightarrow> byte \<Rightarrow> fault + (byte list \<times> nat)" where
  "compress_rle_jit src dst marker = compress_rle_loop marker src dst 0"

text \<open>
  The decoder. A marker whose two operands lie past the end of the input is an
  out-of-range read.
\<close>

fun decompress_rle_loop :: "byte \<Rightarrow> byte list \<Rightarrow> byte list \<Rightarrow> nat \<Rightarrow> fault + (byte list \<times> nat)" where
  "decompress_rle_loop marker [] dst write_idx = Ok (dst, write_idx)"
| "decompress_rle_loop marker (val # rest) dst write_idx =
     (if val = marker then
        (case rest of
           run_len # run_val # rest' \<Rightarrow>
             seqE (store_all dst write_idx (replicate (unat run_len) run_val)) (\<lambda>d1.
               decompress_rle_loop marker rest' d1 (write_idx + unat run_len))
         | _ \<Rightarrow> Fail OutOfBounds)
      else
        seqE (store dst write_idx val) (\<lambda>d1. decompress_rle_loop marker rest d1 (write_idx + 1)))"

definition decompress_rle_jit :: "byte list \<Rightarrow> byte list \<Rightarrow> byte \<Rightarrow> fault + (byte list \<times> nat)" where
  "decompress_rle_jit src dst marker = decompress_rle_loop marker src dst 0"

section \<open>The compressor object\<close>

record rle_compressor =
  rle_marker :: byte
  compress_buf :: "byte list"
  decompress_buf :: "byte list"

definition rle_init :: rle_compressor where
  "rle_init = \<lparr>rle_marker = 0xFE, compress_buf = replicate 250 0, decompress_buf = replicate 109 0\<rparr>"

definition rle_compress :: "rle_compressor coder" where
  "rle_compress s raw_frame =
     seqE (compress_rle_jit raw_frame (compress_buf s) (rle_marker s)) (\<lambda>(buf, comp_len).
       Ok (s\<lparr>compress_buf := buf\<rparr>, take comp_len buf))"

definition rle_decompress :: "rle_compressor coder" where
  "rle_decompress s compressed_frame =
     seqE (decompress_rle_jit compressed_frame (decompress_buf s) (rle_marker s)) (\<lambda>(buf, dec_len).
       Ok (s\<lparr>decompress_buf := buf\<rparr>, take dec_len buf))"

definition rle_inv :: "rle_compressor \<Rightarrow> bool" where
  "rle_inv s \<longleftrightarrow> rle_marker s = 0xFE \<and> length (compress_buf s) = 250 \<and> length (decompress_buf s) = 109"

lemma rle_inv_init: "rle_inv rle_init"
  by (simp add: rle_inv_def rle_init_def)

section \<open>Abstract specification\<close>

function rle :: "byte \<Rightarrow> byte list \<Rightarrow> byte list" where
  "rle m [] = []"
| "rle m (v # xs) =
     (let k = run_length v xs 1; ys = drop (k - 1) xs
      in if v = m \<or> k \<ge> 4 then [m, word_of_nat k, v] @ rle m ys
         else replicate k v @ rle m ys)"
  by pat_completeness auto
termination
  by (relation "measure (\<lambda>(m, src). length src)") auto

fun unrle :: "byte \<Rightarrow> byte list \<Rightarrow> byte list option" where
  "unrle m [] = Some []"
| "unrle m (v # xs) =
     (if v = m then
        (case xs of
           k # r # ys \<Rightarrow> map_option (\<lambda>zs. replicate (unat k) r @ zs) (unrle m ys)
         | _ \<Rightarrow> None)
      else map_option ((#) v) (unrle m xs))"

text \<open>A run: the bytes it covers, its bounds, and what stops it.\<close>

lemma run_length_ge: "n \<le> run_length v xs n"
  by (induction v xs n rule: run_length.induct) auto

lemma run_length_le: "n \<le> 255 \<Longrightarrow> run_length v xs n \<le> 255"
  by (induction v xs n rule: run_length.induct) auto

lemma run_length_covers: "take (run_length v xs n - n) xs = replicate (run_length v xs n - n) v"
proof (induction v xs n rule: run_length.induct)
  case (2 val x xs n)
  have "Suc n \<le> run_length val xs (Suc n)" by (rule run_length_ge)
  then have "run_length val xs (Suc n) - n = Suc (run_length val xs (Suc n) - Suc n)" by simp
  with 2 show ?case by auto
qed simp

lemma run_length_fits: "run_length v xs n \<le> n + length xs"
  by (induction v xs n rule: run_length.induct) auto

lemma run_length_maximal:
  "n \<le> 255 \<Longrightarrow> run_length v xs n < 255 \<Longrightarrow> drop (run_length v xs n - n) xs = y # ys \<Longrightarrow> y \<noteq> v"
proof (induction v xs n rule: run_length.induct)
  case (2 val x xs n)
  have "Suc n \<le> run_length val xs (Suc n)" by (rule run_length_ge)
  then have "run_length val xs (Suc n) - n = Suc (run_length val xs (Suc n) - Suc n)" by simp
  with 2 show ?case by (auto split: if_splits)
qed simp

text \<open>The bytes from a position on: the run found there, then the rest.\<close>

lemma run_split:
  assumes "k = run_length v xs 1"
  shows "v # xs = replicate k v @ drop (k - 1) xs"
proof -
  have "1 \<le> k" using assms run_length_ge by simp
  moreover have "xs = replicate (k - 1) v @ drop (k - 1) xs"
    using run_length_covers [of v xs 1] append_take_drop_id [of "k - 1" xs] assms by simp
  ultimately show ?thesis by (cases k) auto
qed

lemma unrle_replicate_append:
  "v \<noteq> m \<Longrightarrow> unrle m (replicate k v @ xs) = map_option (\<lambda>zs. replicate k v @ zs) (unrle m xs)"
  by (induction k) (cases "unrle m xs"; simp add: comp_def)+

lemma unat_run: "k \<le> 255 \<Longrightarrow> unat (word_of_nat k :: byte) = k"
  by (simp add: unsigned_of_nat take_bit_nat_eq_self)

text \<open>Every byte string is restored from its run-length form.\<close>

lemma unrle_rle: "unrle m (rle m xs) = Some xs"
proof (induction m xs rule: rle.induct)
  case (2 m v xs)
  define k ys where "k = run_length v xs 1" and "ys = drop (k - 1) xs"
  have le: "k \<le> 255" unfolding k_def by (rule run_length_le) simp
  have IH: "unrle m (rle m ys) = Some ys"
    using 2 [OF k_def ys_def] by (cases "v = m \<or> 4 \<le> k") simp_all
  have "v # xs = replicate k v @ ys"
    unfolding ys_def by (rule run_split) (rule k_def)
  moreover have "unrle m (rle m (v # xs)) = Some (replicate k v @ ys)"
    by (simp add: Let_def k_def [symmetric] ys_def [symmetric] unat_run [OF le]
        unrle_replicate_append IH del: One_nat_def)
  ultimately show ?case by simp
qed simp

text \<open>
  The expansion is at most two bytes per byte plus one: only isolated markers grow, and two
  runs of the marker are never adjacent unless the first one is full.
\<close>

lemma length_rle:
  "length (rle m xs) \<le> 2 * length xs + (case xs of v # _ \<Rightarrow> if v = m then 1 else 0 | [] \<Rightarrow> 0)"
proof (induction m xs rule: rle.induct)
  case (2 m v xs)
  define k ys where k_def: "k = run_length v xs 1" and ys_def: "ys = drop (k - 1) xs"
  have k: "1 \<le> k" "k \<le> 255" unfolding k_def using run_length_ge run_length_le by simp_all
  have "v # xs = replicate k v @ ys" unfolding ys_def by (rule run_split) (rule k_def)
  then have len: "Suc (length xs) = k + length ys"
    by (metis length_Cons length_append length_replicate)
  have IH: "length (rle m ys) \<le> 2 * length ys + (case ys of v # _ \<Rightarrow> if v = m then 1 else 0 | [] \<Rightarrow> 0)"
    using 2 [OF k_def ys_def] by (cases "v = m \<or> 4 \<le> k") simp_all
  then have IH1: "length (rle m ys) \<le> 2 * length ys + 1"
    by (auto split: list.splits if_splits)
  have eq: "length (rle m (v # xs)) = (if v = m \<or> 4 \<le> k then 3 else k) + length (rle m ys)"
    by (simp add: Let_def k_def [symmetric] ys_def [symmetric] del: One_nat_def)
  have tight: "length (rle m ys) \<le> 2 * length ys" if "v = m" "k \<noteq> 255"
  proof (cases ys)
    case (Cons y zs)
    with that k have "y \<noteq> m"
      using run_length_maximal [of 1 v xs y zs] by (simp add: k_def ys_def)
    with IH show ?thesis unfolding Cons by (simp del: rle.simps)
  qed simp
  show ?case
    using k len IH1 tight unfolding eq by (cases "v = m"; cases "k = 255") auto
qed simp

lemma length_rle_le: "length (rle m xs) \<le> 2 * length xs + 1"
  using length_rle [of m xs] by (auto split: list.splits if_splits)

text \<open>
  The weight of the coded frame, for a cost per symbol: the entropy coders that run behind
  this one size their output by it.
\<close>

lemma weight_rle:
  assumes "wt m = a" and "\<And>x. wt x \<le> b" and "2 * a + b \<le> c" and "a + 2 * b \<le> 4 * c" and "b \<le> (c::nat)"
  shows "sum_list (map wt (rle m xs)) \<le> c * length xs"
  using assms
proof (induction m xs rule: rle.induct)
  case (2 m v xs)
  define k ys where k_def: "k = run_length v xs 1" and ys_def: "ys = drop (k - 1) xs"
  have k: "1 \<le> k" unfolding k_def by (rule run_length_ge)
  have "v # xs = replicate k v @ ys" unfolding ys_def by (rule run_split) (rule k_def)
  then have len: "Suc (length xs) = k + length ys"
    by (metis length_Cons length_append length_replicate)
  have IH: "sum_list (map wt (rle m ys)) \<le> c * length ys"
    using "2.IH" [OF k_def ys_def] "2.prems" by (cases "v = m \<or> 4 \<le> k") simp_all
  have wt: "wt v \<le> b" "wt (word_of_nat k) \<le> b" using "2.prems" by auto
  have eq: "sum_list (map wt (rle m (v # xs))) =
      (if v = m \<or> 4 \<le> k then wt m + wt (word_of_nat k) + wt v else k * wt v) + sum_list (map wt (rle m ys))"
    by (simp add: Let_def k_def [symmetric] ys_def [symmetric] sum_list_replicate del: One_nat_def)
  consider "v = m" | "v \<noteq> m" "4 \<le> k" | "v \<noteq> m" "\<not> 4 \<le> k" by blast
  then have "(if v = m \<or> 4 \<le> k then wt m + wt (word_of_nat k) + wt v else k * wt v) \<le> c * k"
  proof cases
    case 1
    then have "wt m + wt (word_of_nat k) + wt v \<le> c * 1" using wt(2) "2.prems"(1,3) by auto
    also have "\<dots> \<le> c * k" using k by (rule mult_le_mono2)
    finally show ?thesis using 1 by simp
  next
    case 2
    then have "wt m + wt (word_of_nat k) + wt v \<le> c * 4" using wt "2.prems"(1,4) by linarith
    also have "\<dots> \<le> c * k" using 2 by (intro mult_le_mono2)
    finally show ?thesis using 2 by simp
  next
    case 3
    moreover have "wt v \<le> c" using wt(1) "2.prems"(5) by (rule le_trans)
    ultimately show ?thesis by (simp add: mult.commute mult_le_mono)
  qed
  with IH have "sum_list (map wt (rle m (v # xs))) \<le> c * (k + length ys)"
    unfolding eq add_mult_distrib2 by (rule add_mono [rotated])
  then show ?case using len by simp
qed simp

section \<open>The kernels refine the specification\<close>

lemma compress_rle_loop_eq:
  "compress_rle_loop m src dst w =
   seqE (store_all dst w (rle m src)) (\<lambda>d. Ok (d, w + length (rle m src)))"
proof (induction m src dst w rule: compress_rle_loop.induct)
  case (2 m v rest dst w)
  let ?k = "run_length v rest 1" and ?ys = "drop (run_length v rest 1 - 1) rest"
  consider "v = m" | "v \<noteq> m" "4 \<le> ?k" | "v \<noteq> m" "\<not> 4 \<le> ?k" by blast
  then show ?case
  proof cases
    case 1
    with "2.IH"(1) [OF refl refl 1] show ?thesis
      by (simp add: Let_def numeral_eq_Suc)
  next
    case 2
    with "2.IH"(2) [OF refl refl 2] show ?thesis
      by (simp add: Let_def numeral_eq_Suc)
  next
    case 3
    with "2.IH"(3) [OF refl refl 3] show ?thesis
      by (simp add: Let_def store_all_append add.assoc)
  qed
qed simp

lemma decompress_rle_loop_eq:
  "decompress_rle_loop m src dst w =
   (case unrle m src of
      Some out \<Rightarrow> seqE (store_all dst w out) (\<lambda>d. Ok (d, w + length out))
    | None \<Rightarrow> Fail OutOfBounds)"
proof (induction m src dst w rule: decompress_rle_loop.induct)
  case (2 m v rest dst w)
  show ?case
  proof (cases "v = m")
    case True
    show ?thesis
    proof (cases "\<exists>k r ys. rest = k # r # ys")
      case False
      with True show ?thesis by (auto split: list.splits)
    next
      case (True)
      then obtain k r ys where rest: "rest = k # r # ys" by blast
      let ?run = "store_all dst w (replicate (unat k) r)"
      from "2.IH"(1) [OF \<open>v = m\<close> rest refl] show ?thesis
        using \<open>v = m\<close> rest store_all_fault [of dst w "replicate (unat k) r"]
        by (cases "unrle m ys"; cases ?run) (auto simp: store_all_append add.assoc)
    qed
  next
    case False
    then show ?thesis
      using "2.IH"(2) [OF False] store_all_fault [of dst w "[v]"]
      by (cases "unrle m rest"; cases "store dst w v") simp_all
  qed
qed simp

section \<open>The object meets the shared contract\<close>

definition telemetry_frame :: "byte list \<Rightarrow> bool" where
  "telemetry_frame f \<longleftrightarrow> length f \<le> 109"

lemma compress_rle_jit_Ok:
  assumes "length (rle m f) \<le> length buf"
  shows "\<exists>d. compress_rle_jit f buf m = Ok (d, length (rle m f)) \<and>
    length d = length buf \<and> take (length (rle m f)) d = rle m f"
  using assms by (simp add: compress_rle_jit_def compress_rle_loop_eq store_all_Ok)

lemma decompress_rle_jit_Ok:
  assumes "unrle m c = Some f" and "length f \<le> length buf"
  shows "\<exists>d. decompress_rle_jit c buf m = Ok (d, length f) \<and>
    length d = length buf \<and> take (length f) d = f"
  using assms by (simp add: decompress_rle_jit_def decompress_rle_loop_eq store_all_Ok)

lemma rle_compress_spec:
  assumes "rle_inv s" and "telemetry_frame f"
  shows "\<exists>s'. rle_compress s f = Ok (s', rle 0xFE f) \<and> rle_inv s'"
proof -
  have "length (rle 0xFE f) \<le> length (compress_buf s)"
    using assms length_rle_le [of "0xFE" f] by (simp add: rle_inv_def telemetry_frame_def)
  then obtain d where "compress_rle_jit f (compress_buf s) 0xFE = Ok (d, length (rle 0xFE f))"
    "length d = length (compress_buf s)" "take (length (rle 0xFE f)) d = rle 0xFE f"
    using compress_rle_jit_Ok by blast
  with assms show ?thesis by (simp add: rle_compress_def rle_inv_def)
qed

lemma rle_decompress_spec:
  assumes "rle_inv s" and "unrle 0xFE c = Some f" and "telemetry_frame f"
  shows "\<exists>s'. rle_decompress s c = Ok (s', f) \<and> rle_inv s'"
proof -
  have "length f \<le> length (decompress_buf s)"
    using assms by (simp add: rle_inv_def telemetry_frame_def)
  then obtain d where "decompress_rle_jit c (decompress_buf s) 0xFE = Ok (d, length f)"
    "length d = length (decompress_buf s)" "take (length f) d = f"
    using decompress_rle_jit_Ok assms(2) by blast
  with assms show ?thesis by (simp add: rle_decompress_def rle_inv_def)
qed

interpretation rle_codec: payload_codec rle_compress rle_decompress rle_inv telemetry_frame 219
proof unfold_locales
  fix s f assume "rle_inv s" "telemetry_frame f"
  moreover from this(2) have "length (rle 0xFE f) \<le> 219"
    using length_rle_le [of "0xFE" f] by (simp add: telemetry_frame_def)
  ultimately show "\<exists>s' c. rle_compress s f = Ok (s', c) \<and> rle_inv s' \<and> length c \<le> 219"
    using rle_compress_spec by blast
next
  fix s f s' c t assume "rle_inv s" "telemetry_frame f" "rle_compress s f = Ok (s', c)" "rle_inv t"
  then show "\<exists>t'. rle_decompress t c = Ok (t', f) \<and> rle_inv t'"
    using rle_compress_spec [of s f] rle_decompress_spec [of t c f] unrle_rle [of "0xFE" f] by auto
qed

end
