(* ===== verification/Bit_Packing.thy ===== *)
theory Bit_Packing
  imports Payload_Rle
begin

unbundle bit_operations_syntax

text \<open>
  The bit accumulator that \<^verbatim>\<open>telemetry_huffman_compactor.py\<close> and
  \<^verbatim>\<open>adaptive_huffman_table_manager.py\<close> share word for word: an encoder that shifts code
  words into an integer and flushes whole bytes into a pre-allocated array, and a decoder
  that refills the integer from the input and peeks at its leading bits. Each module's code
  table and decoding cascade is a parameter; the locale \<open>prefix_code\<close> says what the two
  must satisfy, and its lemmas are the encoder's specification and the round trip.
\<close>

section \<open>The encoder's loops\<close>

text \<open>\<^verbatim>\<open>while bit_count >= 8\<close>\<close>

function flush_bytes :: "nat \<Rightarrow> nat \<Rightarrow> byte list \<Rightarrow> nat \<Rightarrow> fault + (nat \<times> nat \<times> byte list \<times> nat)" where
  "flush_bytes bit_buf bit_count dst write_idx =
     (if 8 \<le> bit_count then
        let bit_count' = bit_count - 8;
            byte_val = drop_bit bit_count' bit_buf AND 0xFF
        in seqE (store dst write_idx (word_of_nat byte_val)) (\<lambda>dst'.
             flush_bytes (bit_buf AND (push_bit bit_count' 1 - 1)) bit_count' dst' (write_idx + 1))
      else Ok (bit_buf, bit_count, dst, write_idx))"
  by pat_completeness auto
termination
  by (relation "measure (\<lambda>(bb, bc, d, w). bc)") auto

declare flush_bytes.simps [simp del]

text \<open>\<^verbatim>\<open>for i in range(src_len)\<close>, with \<open>code val = (code, code_len)\<close>\<close>

fun encode_loop :: "(byte \<Rightarrow> nat \<times> nat) \<Rightarrow> byte list \<Rightarrow> nat \<Rightarrow> nat \<Rightarrow> byte list \<Rightarrow> nat \<Rightarrow>
    fault + (nat \<times> nat \<times> byte list \<times> nat)" where
  "encode_loop code [] bit_buf bit_count dst write_idx = Ok (bit_buf, bit_count, dst, write_idx)"
| "encode_loop code (val # src) bit_buf bit_count dst write_idx =
     seqE (flush_bytes (push_bit (snd (code val)) bit_buf OR fst (code val))
             (bit_count + snd (code val)) dst write_idx)
       (\<lambda>(bb, bc, d, w). encode_loop code src bb bc d w)"

text \<open>The final partial byte is padded with zeros on the right.\<close>

fun finish_byte :: "nat \<times> nat \<times> byte list \<times> nat \<Rightarrow> fault + (byte list \<times> nat)" where
  "finish_byte (bit_buf, bit_count, dst, write_idx) =
     (if bit_count > 0 then
        seqE (store dst write_idx (word_of_nat (push_bit (8 - bit_count) bit_buf AND 0xFF)))
          (\<lambda>dst'. Ok (dst', write_idx + 1))
      else Ok (dst, write_idx))"

definition encode_bits :: "(byte \<Rightarrow> nat \<times> nat) \<Rightarrow> byte list \<Rightarrow> byte list \<Rightarrow> fault + (byte list \<times> nat)" where
  "encode_bits code src dst = seqE (encode_loop code src 0 0 dst 0) finish_byte"

section \<open>The decoder's loops\<close>

text \<open>\<^verbatim>\<open>while bit_count < limit and read_idx < src_len\<close>\<close>

fun refill :: "nat \<Rightarrow> byte list \<Rightarrow> nat \<Rightarrow> nat \<Rightarrow> byte list \<times> nat \<times> nat" where
  "refill limit [] bit_buf bit_count = ([], bit_buf, bit_count)"
| "refill limit (byte_val # src) bit_buf bit_count =
     (if bit_count < limit then refill limit src (push_bit 8 bit_buf OR unat byte_val) (bit_count + 8)
      else (byte_val # src, bit_buf, bit_count))"

text \<open>\<open>(bit_buf >> (bit_count - k)) & msk\<close>; the shift amount is negative when fewer bits are left.\<close>

definition peek :: "nat \<Rightarrow> nat \<Rightarrow> nat \<Rightarrow> nat \<Rightarrow> fault + nat" where
  "peek bit_buf bit_count k msk =
     (if bit_count < k then Fail NegativeShift else Ok (drop_bit (bit_count - k) bit_buf AND msk))"

text \<open>One pass of the cascade: a symbol and the bits it used, or \<^verbatim>\<open>break\<close>.\<close>

datatype decode_step = Emit byte nat | Halt

fun decode_loop :: "nat \<Rightarrow> (nat \<Rightarrow> nat \<Rightarrow> fault + decode_step) \<Rightarrow> nat \<Rightarrow> byte list \<Rightarrow> nat \<Rightarrow> nat \<Rightarrow>
    byte list \<Rightarrow> nat \<Rightarrow> fault + (byte list \<times> nat)" where
  "decode_loop limit cascade 0 src bit_buf bit_count dst write_idx = Ok (dst, write_idx)"
| "decode_loop limit cascade (Suc n) src bit_buf bit_count dst write_idx =
     (let (src', bb, bc) = refill limit src bit_buf bit_count
      in seqE (cascade bb bc) (\<lambda>st. case st of
           Halt \<Rightarrow> Ok (dst, write_idx)
         | Emit v k \<Rightarrow>
             seqE (store dst write_idx v) (\<lambda>dst'.
               decode_loop limit cascade n src' (bb AND (push_bit (bc - k) 1 - 1)) (bc - k)
                 dst' (write_idx + 1))))"

definition decode_bits :: "nat \<Rightarrow> (nat \<Rightarrow> nat \<Rightarrow> fault + decode_step) \<Rightarrow> byte list \<Rightarrow> nat \<Rightarrow> byte list \<Rightarrow>
    fault + (byte list \<times> nat)" where
  "decode_bits limit cascade src expected_dec_len dst =
     decode_loop limit cascade expected_dec_len src 0 0 dst 0"

section \<open>Specification: packing a bit string into bytes\<close>

function pack :: "bool list \<Rightarrow> byte list" where
  "pack bs = (if bs = [] then []
     else word_of_nat (val_of (take 8 (bs @ replicate 7 False))) # pack (drop 8 bs))"
  by pat_completeness auto
termination
  by (relation "measure length") auto

declare pack.simps [simp del]

lemma pack_Nil [simp]: "pack [] = []"
  by (simp add: pack.simps)

lemma pack_full: "length us = 8 \<Longrightarrow> pack (us @ bs) = word_of_nat (val_of us) # pack bs"
  by (subst pack.simps) auto

lemma pack_partial:
  assumes "0 < length us" and "length us \<le> 8"
  shows "pack us = [word_of_nat (val_of (us @ replicate (8 - length us) False))]"
proof -
  have "take 8 (us @ replicate 7 False) = us @ replicate (8 - length us) False"
    using assms by (cases us) (auto simp: min_def)
  with assms show ?thesis by (subst pack.simps) simp
qed

text \<open>Unpacking gives the bits back, followed by fewer than eight zeros.\<close>

lemma bytes_bits_pack: "\<exists>z < 8. bytes_bits (pack bs) = bs @ replicate z False"
proof (induction bs rule: pack.induct)
  case (1 bs)
  show ?case
  proof (cases "length bs < 8")
    case True
    show ?thesis
    proof (cases "bs = []")
      case False
      with True have "bytes_bits (pack bs) = bs @ replicate (8 - length bs) False"
        by (simp add: pack_partial byte_bits_word_of_val)
      moreover have "8 - length bs < 8" using False by (cases bs) auto
      ultimately show ?thesis by blast
    qed auto
  next
    case False
    then have "pack (take 8 bs @ drop 8 bs) = word_of_nat (val_of (take 8 bs)) # pack (drop 8 bs)"
      by (intro pack_full) simp
    moreover from False have "bs \<noteq> []" by auto
    ultimately show ?thesis
      using "1.IH" False by (auto simp: byte_bits_word_of_val)
  qed
qed

lemma length_pack: "length (pack bs) = (length bs + 7) div 8"
proof (induction bs rule: pack.induct)
  case (1 bs)
  show ?case
  proof (cases "bs = []")
    case False
    have "length (pack bs) = Suc (length (pack (drop 8 bs)))"
      using False by (subst pack.simps) simp
    also have "\<dots> = Suc ((length bs - 8 + 7) div 8)"
      using "1.IH" [OF False] by simp
    also have "\<dots> = (length bs + 7) div 8"
      using False by (cases "length bs \<ge> 8") (auto simp: le_div_geq Suc_le_eq div_eq_dividend_iff)
    finally show ?thesis .
  qed simp
qed

section \<open>The accumulator against bit strings\<close>

lemma and_mask: "(x::nat) AND (push_bit n 1 - 1) = take_bit n x"
  by (simp add: take_bit_eq_mask mask_eq_exp_minus_1 push_bit_eq_mult)

lemma and_mask_exp: "(x::nat) AND (2 ^ n - Suc 0) = take_bit n x"
  using and_mask [of x n] by (simp add: push_bit_eq_mult)

lemma and_255: "(x::nat) AND 0xFF = take_bit 8 x"
  using and_mask_exp [of x 8] by simp

lemma bits_of_push_or:
  assumes "c < 2 ^ l"
  shows "bits_of (n + l) (push_bit l v OR c) = bits_of n v @ bits_of l c"
proof -
  have "drop_bit l c = 0" using assms by (simp add: drop_bit_eq_div)
  then have "drop_bit l (push_bit l v OR c) = v"
    by (simp only: drop_bit_or) (simp add: push_bit_eq_mult drop_bit_eq_div)
  moreover have "bits_of l (push_bit l v OR c) = bits_of l c"
    by (rule bits_of_cong) (simp add: bit_or_iff bit_push_bit_iff)
  ultimately show ?thesis by (simp add: bits_of_add)
qed

lemma peek_bits:
  assumes "bits_of bc bb = us @ ws @ vs" and "k = length us + length ws"
  shows "peek bb bc k (push_bit (length ws) 1 - 1) = Ok (val_of ws)"
proof -
  have len: "bc = k + length vs" using arg_cong [OF assms(1), of length] assms(2) by simp
  then have "take k (bits_of bc bb) = bits_of k (drop_bit (bc - k) bb)"
    by (intro take_bits_of) simp
  then have "bits_of k (drop_bit (bc - k) bb) = us @ ws" using assms by simp
  then have "drop (length us) (bits_of k (drop_bit (bc - k) bb)) = ws" by simp
  then have "bits_of (length ws) (drop_bit (bc - k) bb) = ws"
    using assms(2) by (simp add: drop_bits_of)
  then have "val_of ws = take_bit (length ws) (drop_bit (bc - k) bb)"
    using val_of_bits_of by metis
  with len show ?thesis by (simp add: peek_def and_mask and_mask_exp)
qed

lemma flush_bytes_spec:
  assumes "\<And>bb' bc' d w'. bc' < 8 \<Longrightarrow>
      k (bb', bc', d, w') = seqE (store_all d w' (pack (bits_of bc' bb' @ t)))
        (\<lambda>d'. Ok (d', w' + length (pack (bits_of bc' bb' @ t))))"
  shows "seqE (flush_bytes bb bc dst w) k =
    seqE (store_all dst w (pack (bits_of bc bb @ t))) (\<lambda>d'. Ok (d', w + length (pack (bits_of bc bb @ t))))"
proof (induction bb bc dst w rule: flush_bytes.induct)
  case (1 bb bc dst w)
  show ?case
  proof (cases "8 \<le> bc")
    case True
    have "bits_of bc bb = bits_of 8 (drop_bit (bc - 8) bb) @ bits_of (bc - 8) bb"
      using bits_of_add [of 8 "bc - 8" bb] True by simp
    then have p: "pack (bits_of bc bb @ t) =
        word_of_nat (take_bit 8 (drop_bit (bc - 8) bb)) # pack (bits_of (bc - 8) bb @ t)"
      by (simp add: pack_full)
    have IH: "seqE (flush_bytes (take_bit (bc - 8) bb) (bc - 8) d (w + 1)) k =
        seqE (store_all d (Suc w) (pack (bits_of (bc - 8) bb @ t)))
          (\<lambda>d'. Ok (d', Suc (w + length (pack (bits_of (bc - 8) bb @ t)))))" for d
      using "1.IH" [OF True refl refl, of d] by (simp add: and_mask_exp)
    show ?thesis
      using True by (subst flush_bytes.simps) (simp add: p IH [simplified] and_255 and_mask_exp Let_def)
  next
    case False
    then show ?thesis by (subst flush_bytes.simps) (simp add: assms)
  qed
qed

lemma finish_byte_spec:
  assumes "bc < 8"
  shows "finish_byte (bb, bc, d, w) =
    seqE (store_all d w (pack (bits_of bc bb))) (\<lambda>d'. Ok (d', w + length (pack (bits_of bc bb))))"
proof (cases "bc = 0")
  case False
  have "bits_of (bc + (8 - bc)) (push_bit (8 - bc) bb OR 0) = bits_of bc bb @ bits_of (8 - bc) 0"
    by (rule bits_of_push_or) simp
  moreover have "bits_of n 0 = replicate n False" for n by (induction n) auto
  ultimately have "bits_of 8 (push_bit (8 - bc) bb) = bits_of bc bb @ replicate (8 - bc) False"
    using assms by simp
  then have "val_of (bits_of bc bb @ replicate (8 - bc) False) = take_bit 8 (push_bit (8 - bc) bb)"
    using val_of_bits_of by metis
  then have "pack (bits_of bc bb) = [word_of_nat (take_bit 8 (push_bit (8 - bc) bb))]"
    using assms False by (simp add: pack_partial)
  with False show ?thesis by (simp add: and_255)
qed simp

text \<open>Refilling moves bytes from the input to the accumulator and keeps the stream.\<close>

lemma refill_spec:
  assumes "refill limit src bb bc = (src', bb', bc')"
  shows "bits_of bc' bb' @ bytes_bits src' = bits_of bc bb @ bytes_bits src \<and> (limit \<le> bc' \<or> src' = [])"
  using assms
proof (induction limit src bb bc rule: refill.induct)
  case (2 limit b src bb bc)
  have "bits_of (bc + 8) (push_bit 8 bb OR unat b) = bits_of bc bb @ byte_bits b"
    by (rule bits_of_push_or) simp
  with 2 show ?case by (cases "bc < limit") (simp, force)
qed auto

section \<open>Prefix codes\<close>

locale prefix_code =
  fixes code :: "byte \<Rightarrow> nat \<times> nat"
    and cascade :: "nat \<Rightarrow> nat \<Rightarrow> fault + decode_step"
    and limit :: nat
    and word :: "byte \<Rightarrow> bool list"
  assumes word_code: "word v = bits_of (snd (code v)) (fst (code v))"
    and code_fits: "fst (code v) < 2 ^ snd (code v)"
    and word_len: "length (word v) \<le> limit"
    and cascade_word: "bits_of bc bb = word v @ rest \<Longrightarrow> cascade bb bc = Ok (Emit v (length (word v)))"
begin

abbreviation stream :: "byte list \<Rightarrow> bool list" where
  "stream vs \<equiv> concat (map word vs)"

lemma encode_loop_spec:
  "bc < 8 \<Longrightarrow> seqE (encode_loop code src bb bc dst w) finish_byte =
   seqE (store_all dst w (pack (bits_of bc bb @ stream src)))
     (\<lambda>d. Ok (d, w + length (pack (bits_of bc bb @ stream src))))"
proof (induction src arbitrary: bb bc dst w)
  case Nil
  then show ?case
    using finish_byte_spec [of bc bb dst w] by (simp only: encode_loop.simps seqE_simps) simp
next
  case (Cons v src)
  let ?k = "\<lambda>(bb, bc, d, w). seqE (encode_loop code src bb bc d w) finish_byte"
  let ?bb = "push_bit (snd (code v)) bb OR fst (code v)" and ?bc = "bc + snd (code v)"
  have assoc: "seqE (encode_loop code (v # src) bb bc dst w) finish_byte =
      seqE (flush_bytes ?bb ?bc dst w) ?k"
    by (auto simp: seqE_def split: sum.splits)
  have "seqE (flush_bytes ?bb ?bc dst w) ?k =
      seqE (store_all dst w (pack (bits_of ?bc ?bb @ stream src)))
        (\<lambda>d. Ok (d, w + length (pack (bits_of ?bc ?bb @ stream src))))"
    by (rule flush_bytes_spec) (simp only: prod.case Cons.IH)
  moreover have "bits_of ?bc ?bb = bits_of bc bb @ word v"
    using bits_of_push_or [OF code_fits] by (simp add: word_code)
  ultimately show ?case by (simp only: assoc) simp
qed

text \<open>The encoder writes exactly the packed stream, or runs past the end of its buffer.\<close>

lemma encode_bits_spec:
  "encode_bits code src dst =
   seqE (store_all dst 0 (pack (stream src))) (\<lambda>d. Ok (d, length (pack (stream src))))"
  using encode_loop_spec [of 0 src 0 dst 0] by (simp add: encode_bits_def)

lemma encode_bits_Ok:
  assumes "length (stream src) \<le> 8 * length dst"
  shows "\<exists>d. encode_bits code src dst = Ok (d, length (pack (stream src))) \<and> length d = length dst \<and>
    take (length (pack (stream src))) d = pack (stream src) \<and> length (pack (stream src)) \<le> length dst"
proof -
  have "length (pack (stream src)) \<le> length dst" using assms by (simp add: length_pack)
  then show ?thesis by (simp add: encode_bits_spec store_all_Ok)
qed

lemma decode_loop_spec:
  "bits_of bc bb @ bytes_bits src = stream vs @ pad \<Longrightarrow>
   decode_loop limit cascade (length vs) src bb bc dst w =
   seqE (store_all dst w vs) (\<lambda>d. Ok (d, w + length vs))"
proof (induction vs arbitrary: src bb bc dst w)
  case Nil
  then show ?case by simp
next
  case (Cons v vs)
  obtain src' bb' bc' where r: "refill limit src bb bc = (src', bb', bc')"
    by (cases "refill limit src bb bc") auto
  from refill_spec [OF r] Cons.prems
  have st: "bits_of bc' bb' @ bytes_bits src' = word v @ stream vs @ pad"
    and full: "limit \<le> bc' \<or> src' = []" by auto
  have "length (word v) \<le> bc'"
    using full word_len [of v] arg_cong [OF st, of length] by (auto intro: le_trans)
  moreover from this have "take (length (word v)) (bits_of bc' bb') = word v"
    using arg_cong [OF st, of "take (length (word v))"] by simp
  ultimately obtain rest where rest: "bits_of bc' bb' = word v @ rest"
    by (metis append_take_drop_id)
  have len: "bc' = length (word v) + length rest"
    using arg_cong [OF rest, of length] by simp
  have "drop (length (word v)) (bits_of bc' bb') = rest" using rest by simp
  then have rest': "bits_of (bc' - length (word v)) bb' = rest"
    using len by (simp add: drop_bits_of)
  have st': "bits_of (bc' - length (word v)) (take_bit (bc' - length (word v)) bb') @ bytes_bits src' =
      stream vs @ pad"
    using st rest rest' by simp
  show ?case
    using cascade_word [OF rest] Cons.IH [OF st'] by (simp add: r and_mask_exp)
qed

lemma decode_bits_spec:
  "decode_bits limit cascade (pack (stream vs)) (length vs) dst =
   seqE (store_all dst 0 vs) (\<lambda>d. Ok (d, length vs))"
proof -
  obtain z where "bytes_bits (pack (stream vs)) = stream vs @ replicate z False"
    using bytes_bits_pack by blast
  then show ?thesis
    using decode_loop_spec [of 0 0 "pack (stream vs)" vs] by (simp add: decode_bits_def)
qed

end

end
