(* ===== verification/Huffman_Compactor.thy ===== *)
theory Huffman_Compactor
  imports Bit_Packing
begin

text \<open>
  \<^verbatim>\<open>telemetry_huffman_compactor.py\<close>: a fixed prefix code behind the run-length coder, with a
  one-byte header that holds the run-length length. The frames of the telemetry format
  always fit its buffers and come back unchanged.
\<close>

section \<open>The code table and the decoding cascade\<close>

definition huff_code :: "byte \<Rightarrow> nat \<times> nat" where
  "huff_code val =
     (if val = 0 then (0, 1)
      else if val = 254 then (2, 2)
      else (push_bit 8 3 OR unat val, 10))"

definition huff_cascade :: "nat \<Rightarrow> nat \<Rightarrow> fault + decode_step" where
  "huff_cascade bit_buf bit_count =
     seqE (peek bit_buf bit_count 1 1) (\<lambda>bit1.
       if bit1 = 0 then Ok (Emit 0 1)
       else seqE (peek bit_buf bit_count 2 3) (\<lambda>bit2.
         if bit2 = 2 then Ok (Emit 254 2)
         else if bit2 = 3 then
           seqE (peek bit_buf bit_count 10 0xFF) (\<lambda>literal_val. Ok (Emit (word_of_nat literal_val) 10))
         else Ok Halt))"

definition huffman_encode_jit :: "byte list \<Rightarrow> byte list \<Rightarrow> fault + (byte list \<times> nat)" where
  "huffman_encode_jit src dst = encode_bits huff_code src dst"

definition huffman_decode_jit :: "byte list \<Rightarrow> nat \<Rightarrow> byte list \<Rightarrow> fault + (byte list \<times> nat)" where
  "huffman_decode_jit src expected_dec_len dst = decode_bits 10 huff_cascade src expected_dec_len dst"

section \<open>The compactor object\<close>

record huff_compactor =
  rle_compressor_of :: rle_compressor
  huff_compress_buf :: "byte list"
  huff_decompress_buf :: "byte list"

definition huff_init :: huff_compactor where
  "huff_init = \<lparr>rle_compressor_of = rle_init,
     huff_compress_buf = replicate 250 0, huff_decompress_buf = replicate 250 0\<rparr>"

text \<open>\<^verbatim>\<open>bytes([n])\<close> raises \<open>ValueError\<close> above 255.\<close>

definition header_byte :: "nat \<Rightarrow> fault + byte" where
  "header_byte n = (if n < 256 then Ok (word_of_nat n) else Fail ValueError)"

definition huff_compress :: "huff_compactor coder" where
  "huff_compress s raw_frame =
     seqE (rle_compress (rle_compressor_of s) raw_frame) (\<lambda>(r, rle_bytes).
     seqE (huffman_encode_jit rle_bytes (huff_compress_buf s)) (\<lambda>(buf, huff_len).
     seqE (header_byte (length rle_bytes)) (\<lambda>header.
       Ok (s\<lparr>rle_compressor_of := r, huff_compress_buf := buf\<rparr>, header # take huff_len buf))))"

definition huff_decompress :: "huff_compactor coder" where
  "huff_decompress s comp_payload =
     (case comp_payload of
        [] \<Rightarrow> Fail IndexError
      | rle_len # huff_bytes \<Rightarrow>
          seqE (huffman_decode_jit huff_bytes (unat rle_len) (huff_decompress_buf s)) (\<lambda>(buf, dec_len).
          seqE (rle_decompress (rle_compressor_of s) (take dec_len buf)) (\<lambda>(r, frame).
            Ok (s\<lparr>rle_compressor_of := r, huff_decompress_buf := buf\<rparr>, frame))))"

definition huff_inv :: "huff_compactor \<Rightarrow> bool" where
  "huff_inv s \<longleftrightarrow> rle_inv (rle_compressor_of s) \<and>
     length (huff_compress_buf s) = 250 \<and> length (huff_decompress_buf s) = 250"

lemma huff_inv_init: "huff_inv huff_init"
  by (simp add: huff_inv_def huff_init_def rle_inv_init)

section \<open>The table is a prefix code that the cascade inverts\<close>

definition huff_word :: "byte \<Rightarrow> bool list" where
  "huff_word v = (if v = 0 then [False] else if v = 254 then [True, False] else [True, True] @ byte_bits v)"

lemma peek_first:
  "bits_of bc bb = us @ vs \<Longrightarrow> k = length us \<Longrightarrow> peek bb bc k (2 ^ k - 1) = Ok (val_of us)"
  using peek_bits [of bc bb "[]" us vs k] by (simp add: push_bit_eq_mult)

text \<open>The literal byte behind a prefix of \<open>k - 8\<close> bits.\<close>

lemma peek_byte:
  "bits_of bc bb = us @ byte_bits v @ vs \<Longrightarrow> k = length us + 8 \<Longrightarrow> peek bb bc k 255 = Ok (unat v)"
  using peek_bits [of bc bb us "byte_bits v" vs k] by (simp add: push_bit_eq_mult del: bits_of.simps)

lemma escape_code:
  assumes "l = length us" and "val_of us = e"
  shows "bits_of (l + 8) (push_bit 8 e OR unat (v::byte)) = us @ byte_bits v"
  using bits_of_push_or [of "unat v" 8 l e] bits_of_val_of [of us] assms by simp

lemma escape_fits: "e < 2 ^ l \<Longrightarrow> push_bit 8 e OR unat (v::byte) < 2 ^ (l + 8)"
proof -
  assume e: "e < 2 ^ l"
  have "unat v < 2 ^ 8 * 2 ^ l"
    by (rule less_le_trans [of _ "2 ^ 8 * 1"]) simp_all
  then have "take_bit (l + 8) (unat v) = unat v"
    by (simp add: take_bit_nat_eq_self power_add mult.commute)
  moreover have "take_bit (l + 8) (push_bit 8 e) = push_bit 8 e"
    using e by (simp add: take_bit_push_bit take_bit_nat_eq_self)
  ultimately have "take_bit (l + 8) (push_bit 8 e OR unat v) = push_bit 8 e OR unat v"
    by simp
  then show ?thesis by (metis take_bit_nat_less_exp)
qed

interpretation huff: prefix_code huff_code huff_cascade 10 huff_word
proof unfold_locales
  fix v :: byte
  have "bits_of (2 + 8) (push_bit 8 3 OR unat v) = [True, True] @ byte_bits v"
    by (rule escape_code) simp_all
  moreover have "bits_of 1 0 = [False]" "bits_of 2 2 = [True, False]" by code_simp+
  ultimately show "huff_word v = bits_of (snd (huff_code v)) (fst (huff_code v))"
    by (simp add: huff_word_def huff_code_def del: bits_of.simps)
next
  fix v :: byte
  have "push_bit 8 3 OR unat v < 2 ^ (2 + 8)"
    by (rule escape_fits) simp
  then show "fst (huff_code v) < 2 ^ snd (huff_code v)" by (auto simp: huff_code_def)
next
  fix v :: byte show "length (huff_word v) \<le> 10" by (simp add: huff_word_def)
next
  fix bc bb v rest
  assume a: "bits_of bc bb = huff_word v @ rest"
  consider "v = 0" | "v = 254" | "v \<noteq> 0" "v \<noteq> 254" by blast
  then show "huff_cascade bb bc = Ok (Emit v (length (huff_word v)))"
  proof cases
    case 1
    with a peek_first [of bc bb "[False]" rest 1] show ?thesis
      by (simp add: huff_cascade_def huff_word_def)
  next
    case 2
    with a peek_first [of bc bb "[True]" "False # rest" 1] peek_first [of bc bb "[True, False]" rest 2]
    show ?thesis by (simp add: huff_cascade_def huff_word_def)
  next
    case 3
    with a have b: "bits_of bc bb = [True, True] @ byte_bits v @ rest" by (simp add: huff_word_def)
    with peek_first [of bc bb "[True]" "True # byte_bits v @ rest" 1]
      peek_first [of bc bb "[True, True]" "byte_bits v @ rest" 2] peek_byte [OF b, of 10] 3
    show ?thesis by (simp add: huff_cascade_def huff_word_def)
  qed
qed

section \<open>The object meets the shared contract\<close>

lemma length_huff_stream: "length (huff.stream vs) = sum_list (map (length \<circ> huff_word) vs)"
  by (induction vs) auto

lemma huff_stream_bound: "length (huff.stream (rle 254 f)) \<le> 14 * length f"
  unfolding length_huff_stream
  by (rule weight_rle [where a = 2 and b = 10]) (simp_all add: huff_word_def)

lemma huffman_decode_jit_pack:
  assumes "length vs \<le> length dst"
  shows "\<exists>d. huffman_decode_jit (pack (huff.stream vs)) (length vs) dst = Ok (d, length vs) \<and>
    length d = length dst \<and> take (length vs) d = vs"
  using assms by (simp add: huffman_decode_jit_def huff.decode_bits_spec store_all_Ok)

lemma unat_header: "n < 256 \<Longrightarrow> unat (word_of_nat n :: byte) = n"
  by (simp add: unsigned_of_nat take_bit_nat_eq_self)

lemma huff_compress_spec:
  assumes "huff_inv s" and "telemetry_frame f"
  shows "\<exists>s'. huff_compress s f =
      Ok (s', word_of_nat (length (rle 254 f)) # pack (huff.stream (rle 254 f))) \<and> huff_inv s'"
proof -
  let ?r = "rle 254 f"
  obtain r where r: "rle_compress (rle_compressor_of s) f = Ok (r, ?r)" "rle_inv r"
    using rle_compress_spec [of "rle_compressor_of s" f] assms by (auto simp: huff_inv_def)
  have "length (huff.stream ?r) \<le> 8 * length (huff_compress_buf s)"
    using huff_stream_bound [of f] assms by (simp add: huff_inv_def telemetry_frame_def)
  then obtain d where "huffman_encode_jit ?r (huff_compress_buf s) = Ok (d, length (pack (huff.stream ?r)))"
    "length d = length (huff_compress_buf s)" "take (length (pack (huff.stream ?r))) d = pack (huff.stream ?r)"
    using huff.encode_bits_Ok unfolding huffman_encode_jit_def by blast
  moreover have "header_byte (length ?r) = Ok (word_of_nat (length ?r))"
    using length_rle_le [of 254 f] assms by (simp add: header_byte_def telemetry_frame_def)
  ultimately show ?thesis using r assms by (simp add: huff_compress_def huff_inv_def)
qed

lemma huff_decompress_spec:
  assumes "huff_inv t" and "telemetry_frame f"
  shows "\<exists>t'. huff_decompress t (word_of_nat (length (rle 254 f)) # pack (huff.stream (rle 254 f))) =
      Ok (t', f) \<and> huff_inv t'"
proof -
  let ?r = "rle 254 f"
  have len: "length ?r \<le> 219"
    using length_rle_le [of 254 f] assms by (simp add: telemetry_frame_def)
  then obtain d where "huffman_decode_jit (pack (huff.stream ?r)) (length ?r) (huff_decompress_buf t) = Ok (d, length ?r)"
    "length d = length (huff_decompress_buf t)" "take (length ?r) d = ?r"
    using huffman_decode_jit_pack [of ?r "huff_decompress_buf t"] assms by (auto simp: huff_inv_def)
  moreover obtain t' where "rle_decompress (rle_compressor_of t) ?r = Ok (t', f)" "rle_inv t'"
    using rle_decompress_spec [of "rle_compressor_of t" ?r f] unrle_rle [of 254 f] assms
    by (auto simp: huff_inv_def)
  ultimately show ?thesis
    using assms len by (simp add: huff_decompress_def huff_inv_def unat_header)
qed

interpretation huff_codec: payload_codec huff_compress huff_decompress huff_inv telemetry_frame 192
proof unfold_locales
  fix s f assume a: "huff_inv s" "telemetry_frame f"
  then have "length (pack (huff.stream (rle 254 f))) \<le> 191"
    using huff_stream_bound [of f] by (simp add: length_pack telemetry_frame_def)
  with huff_compress_spec [OF a]
  show "\<exists>s' c. huff_compress s f = Ok (s', c) \<and> huff_inv s' \<and> length c \<le> 192" by auto
next
  fix s f s' c t
  assume "huff_inv s" "telemetry_frame f" "huff_compress s f = Ok (s', c)" "huff_inv t"
  then show "\<exists>t'. huff_decompress t c = Ok (t', f) \<and> huff_inv t'"
    using huff_compress_spec [of s f] huff_decompress_spec [of t f] by auto
qed

section \<open>Properties\<close>

text \<open>
  C19: every stream of telemetry frames of at most 109 bytes sent through one fresh Huffman
  compactor, its buffers reused from frame to frame, comes back unchanged, without an
  exception and without an access outside the pre-allocated buffers.
\<close>

theorem huffman_stream_roundtrip:
  assumes "\<forall>f \<in> set fs. length f \<le> 109"
  shows "\<exists>s'. transmit huff_compress huff_decompress huff_init fs = Ok (s', fs) \<and> huff_inv s'"
  using assms huff_codec.transmit_all [OF huff_inv_init, of fs] by (simp add: telemetry_frame_def)

theorem huffman_stream_roundtrip_witness:
  "\<exists>s'. transmit huff_compress huff_decompress huff_init [[1, 3, 254, 0, 0, 0, 0, 0], []] =
     Ok (s', [[1, 3, 254, 0, 0, 0, 0, 0], []]) \<and> huff_inv s'"
  by (rule huffman_stream_roundtrip) simp

text \<open>
  the compressed form of a telemetry frame is never longer than 192 bytes (191 packed
  bytes and the header), whatever the compactor did before.
\<close>

theorem huff_compress_size:
  assumes "huff_inv s" and "length f \<le> 109"
  shows "\<exists>s' c. huff_compress s f = Ok (s', c) \<and> huff_inv s' \<and> length c \<le> 192"
  using huff_codec.enc_ok assms by (simp add: telemetry_frame_def)

theorem huff_compress_size_witness:
  "huff_inv huff_init \<and> (\<exists>s' c. huff_compress huff_init (replicate 109 7) = Ok (s', c) \<and> huff_inv s' \<and> length c \<le> 192)"
  using huff_compress_size [OF huff_inv_init, of "replicate 109 7"] huff_inv_init by simp

end
