(* ===== verification/Adaptive_Huffman.thy ===== *)
theory Adaptive_Huffman
  imports Huffman_Compactor
begin

text \<open>
  \<^verbatim>\<open>adaptive_huffman_table_manager.py\<close>: two prefix codes, one chosen per frame from the
  threat level in the frame's second byte, and a header byte that packs the table number
  above a seven-bit run-length length. The round trip holds while that length fits its seven
  bits; a longer one is read back as a different table and a shorter length.
\<close>

section \<open>The code tables and the decoding cascade\<close>

definition adaptive_code :: "nat \<Rightarrow> byte \<Rightarrow> nat \<times> nat" where
  "adaptive_code table_id val =
     (if table_id = 0 then
        (if val = 0 then (0, 1)
         else if val = 254 then (2, 2)
         else (push_bit 8 3 OR unat val, 10))
      else
        (if val = 3 then (0, 1)
         else if val = 1 then (2, 2)
         else if val = 0 then (6, 3)
         else if val = 254 then (14, 4)
         else (push_bit 8 15 OR unat val, 12)))"

definition adaptive_cascade :: "nat \<Rightarrow> nat \<Rightarrow> nat \<Rightarrow> fault + decode_step" where
  "adaptive_cascade table_id bit_buf bit_count =
     (if table_id = 0 then
        seqE (peek bit_buf bit_count 1 1) (\<lambda>bit1.
          if bit1 = 0 then Ok (Emit 0 1)
          else seqE (peek bit_buf bit_count 2 3) (\<lambda>bit2.
            if bit2 = 2 then Ok (Emit 254 2)
            else if bit2 = 3 then
              seqE (peek bit_buf bit_count 10 0xFF) (\<lambda>literal_val. Ok (Emit (word_of_nat literal_val) 10))
            else Ok Halt))
      else
        seqE (peek bit_buf bit_count 1 1) (\<lambda>bit1.
          if bit1 = 0 then Ok (Emit 3 1)
          else seqE (peek bit_buf bit_count 2 3) (\<lambda>bit2.
            if bit2 = 2 then Ok (Emit 1 2)
            else seqE (peek bit_buf bit_count 3 7) (\<lambda>bit3.
              if bit3 = 6 then Ok (Emit 0 3)
              else seqE (peek bit_buf bit_count 4 15) (\<lambda>bit4.
                if bit4 = 14 then Ok (Emit 254 4)
                else if bit4 = 15 then
                  seqE (peek bit_buf bit_count 12 0xFF) (\<lambda>literal_val. Ok (Emit (word_of_nat literal_val) 12))
                else Ok Halt)))))"

definition adaptive_huffman_encode_jit :: "byte list \<Rightarrow> nat \<Rightarrow> byte list \<Rightarrow> fault + (byte list \<times> nat)" where
  "adaptive_huffman_encode_jit src table_id dst = encode_bits (adaptive_code table_id) src dst"

definition adaptive_huffman_decode_jit :: "byte list \<Rightarrow> nat \<Rightarrow> nat \<Rightarrow> byte list \<Rightarrow> fault + (byte list \<times> nat)" where
  "adaptive_huffman_decode_jit src table_id expected_dec_len dst =
     decode_bits 12 (adaptive_cascade table_id) src expected_dec_len dst"

section \<open>The manager object\<close>

record adaptive_manager =
  adapt_rle :: rle_compressor
  adapt_compress_buf :: "byte list"
  adapt_decompress_buf :: "byte list"

definition adaptive_init :: adaptive_manager where
  "adaptive_init = \<lparr>adapt_rle = rle_init,
     adapt_compress_buf = replicate 250 0, adapt_decompress_buf = replicate 250 0\<rparr>"

definition adaptive_compress :: "adaptive_manager coder" where
  "adaptive_compress s raw_frame =
     (if length raw_frame < 2 then Fail IndexError
      else
        let threat_state = raw_frame ! 1; table_id = (if threat_state = 3 then 1 else 0) in
        seqE (rle_compress (adapt_rle s) raw_frame) (\<lambda>(r, rle_bytes).
        seqE (adaptive_huffman_encode_jit rle_bytes table_id (adapt_compress_buf s)) (\<lambda>(buf, huff_len).
        seqE (header_byte (length rle_bytes OR push_bit 7 table_id)) (\<lambda>header.
          Ok (s\<lparr>adapt_rle := r, adapt_compress_buf := buf\<rparr>, header # take huff_len buf)))))"

definition adaptive_decompress :: "adaptive_manager coder" where
  "adaptive_decompress s comp_payload =
     (case comp_payload of
        [] \<Rightarrow> Fail IndexError
      | hdr # huff_bytes \<Rightarrow>
          let table_id = unat (drop_bit 7 hdr AND 1); rle_len = unat (hdr AND 127) in
          seqE (adaptive_huffman_decode_jit huff_bytes table_id rle_len (adapt_decompress_buf s))
            (\<lambda>(buf, dec_len).
          seqE (rle_decompress (adapt_rle s) (take dec_len buf)) (\<lambda>(r, frame).
            Ok (s\<lparr>adapt_rle := r, adapt_decompress_buf := buf\<rparr>, frame))))"

definition adaptive_inv :: "adaptive_manager \<Rightarrow> bool" where
  "adaptive_inv s \<longleftrightarrow> rle_inv (adapt_rle s) \<and>
     length (adapt_compress_buf s) = 250 \<and> length (adapt_decompress_buf s) = 250"

lemma adaptive_inv_init: "adaptive_inv adaptive_init"
  by (simp add: adaptive_inv_def adaptive_init_def rle_inv_init)

section \<open>Both tables are prefix codes that the cascade inverts\<close>

definition critical_word :: "byte \<Rightarrow> bool list" where
  "critical_word v =
     (if v = 3 then [False] else if v = 1 then [True, False] else if v = 0 then [True, True, False]
      else if v = 254 then [True, True, True, False] else [True, True, True, True] @ byte_bits v)"

interpretation table0: prefix_code "adaptive_code 0" "adaptive_cascade 0" 12 huff_word
proof unfold_locales
  fix v :: byte
  have code: "adaptive_code 0 v = huff_code v" by (simp add: adaptive_code_def huff_code_def)
  show "huff_word v = bits_of (snd (adaptive_code 0 v)) (fst (adaptive_code 0 v))"
    unfolding code by (rule huff.word_code)
  show "fst (adaptive_code 0 v) < 2 ^ snd (adaptive_code 0 v)"
    unfolding code by (rule huff.code_fits)
  show "length (huff_word v) \<le> 12" using huff.word_len [of v] by simp
next
  fix bc bb v rest
  have "adaptive_cascade 0 = huff_cascade" by (simp add: adaptive_cascade_def huff_cascade_def fun_eq_iff)
  then show "bits_of bc bb = huff_word v @ rest \<Longrightarrow>
      adaptive_cascade 0 bb bc = Ok (Emit v (length (huff_word v)))"
    using huff.cascade_word by simp
qed

interpretation table1: prefix_code "adaptive_code 1" "adaptive_cascade 1" 12 critical_word
proof unfold_locales
  fix v :: byte
  have "bits_of (4 + 8) (push_bit 8 15 OR unat v) = [True, True, True, True] @ byte_bits v"
    by (rule escape_code) simp_all
  moreover have "bits_of 1 0 = [False]" "bits_of 2 2 = [True, False]" "bits_of 3 6 = [True, True, False]"
    "bits_of 4 14 = [True, True, True, False]" by code_simp+
  ultimately show "critical_word v = bits_of (snd (adaptive_code 1 v)) (fst (adaptive_code 1 v))"
    by (simp add: critical_word_def adaptive_code_def del: bits_of.simps)
next
  fix v :: byte
  have "push_bit 8 15 OR unat v < 2 ^ (4 + 8)" by (rule escape_fits) simp
  then show "fst (adaptive_code 1 v) < 2 ^ snd (adaptive_code 1 v)" by (auto simp: adaptive_code_def)
next
  fix v :: byte show "length (critical_word v) \<le> 12" by (simp add: critical_word_def)
next
  fix bc bb v rest
  assume a: "bits_of bc bb = critical_word v @ rest"
  note [simp] = adaptive_cascade_def critical_word_def
  consider "v = 3" | "v = 1" | "v = 0" | "v = 254" | "v \<notin> {0, 1, 3, 254}" by blast
  then show "adaptive_cascade 1 bb bc = Ok (Emit v (length (critical_word v)))"
  proof cases
    case 1
    with a peek_first [of bc bb "[False]" rest 1] show ?thesis by simp
  next
    case 2
    with a peek_first [of bc bb "[True]" "False # rest" 1] peek_first [of bc bb "[True, False]" rest 2]
    show ?thesis by simp
  next
    case 3
    with a peek_first [of bc bb "[True]" "True # False # rest" 1]
      peek_first [of bc bb "[True, True]" "False # rest" 2] peek_first [of bc bb "[True, True, False]" rest 3]
    show ?thesis by simp
  next
    case 4
    with a peek_first [of bc bb "[True]" "True # True # False # rest" 1]
      peek_first [of bc bb "[True, True]" "True # False # rest" 2]
      peek_first [of bc bb "[True, True, True]" "False # rest" 3]
      peek_first [of bc bb "[True, True, True, False]" rest 4]
    show ?thesis by simp
  next
    case 5
    with a have b: "bits_of bc bb = [True, True, True, True] @ byte_bits v @ rest" by simp
    with peek_first [of bc bb "[True]" "True # True # True # byte_bits v @ rest" 1]
      peek_first [of bc bb "[True, True]" "True # True # byte_bits v @ rest" 2]
      peek_first [of bc bb "[True, True, True]" "True # byte_bits v @ rest" 3]
      peek_first [of bc bb "[True, True, True, True]" "byte_bits v @ rest" 4]
      peek_byte [OF b, of 12] 5
    show ?thesis by simp
  qed
qed

section \<open>The object against the specification\<close>

definition table_word :: "nat \<Rightarrow> byte \<Rightarrow> bool list" where
  "table_word t = (if t = 0 then huff_word else critical_word)"

abbreviation table_stream :: "nat \<Rightarrow> byte list \<Rightarrow> bool list" where
  "table_stream t vs \<equiv> concat (map (table_word t) vs)"

definition frame_table :: "byte list \<Rightarrow> nat" where
  "frame_table f = (if f ! 1 = 3 then 1 else 0)"

lemma frame_table_cases: "frame_table f = 0 \<or> frame_table f = 1"
  by (simp add: frame_table_def)

lemma table_stream_bound: "length (table_stream t vs) \<le> 12 * length vs"
proof (induction vs)
  case (Cons v vs)
  have "length (table_word t v) \<le> 12" by (simp add: table_word_def table0.word_len table1.word_len)
  with Cons show ?case by simp
qed simp

lemma huff_stream_rle_bound: "length (table_stream 0 (rle 254 f)) \<le> 14 * length f"
  using huff_stream_bound [of f] by (simp add: table_word_def)

lemma adaptive_encode_Ok:
  assumes "t = 0 \<or> t = 1" and "length (table_stream t vs) \<le> 8 * length buf"
  shows "\<exists>d. adaptive_huffman_encode_jit vs t buf = Ok (d, length (pack (table_stream t vs))) \<and>
    length d = length buf \<and> take (length (pack (table_stream t vs))) d = pack (table_stream t vs)"
  using assms table0.encode_bits_Ok [of vs buf] table1.encode_bits_Ok [of vs buf]
  by (auto simp: adaptive_huffman_encode_jit_def table_word_def)

lemma adaptive_decode_Ok:
  assumes "t = 0 \<or> t = 1" and "length vs \<le> length dst"
  shows "\<exists>d. adaptive_huffman_decode_jit (pack (table_stream t vs)) t (length vs) dst = Ok (d, length vs) \<and>
    length d = length dst \<and> take (length vs) d = vs"
  using assms table0.decode_bits_spec [of vs dst] table1.decode_bits_spec [of vs dst]
  by (auto simp: adaptive_huffman_decode_jit_def table_word_def store_all_Ok)

text \<open>Reading the header byte back.\<close>

lemma header_fields:
  assumes "n < 256"
  shows "unat (drop_bit 7 (word_of_nat n :: byte) AND 1) = n div 128"
    and "unat ((word_of_nat n :: byte) AND 127) = n mod 128"
proof -
  have n: "unat (word_of_nat n :: byte) = n" by (rule unat_header) (rule assms)
  have "unat (drop_bit 7 (word_of_nat n :: byte)) = n div 128"
    by (simp add: drop_bit_eq_div unat_div n)
  moreover have "n div 128 < 2" using assms by (simp add: less_mult_imp_div_less)
  ultimately show "unat (drop_bit 7 (word_of_nat n :: byte) AND 1) = n div 128"
    using and_mask_exp [of "n div 128" 1] by (simp add: unsigned_and_eq take_bit_nat_eq_self)
  show "unat ((word_of_nat n :: byte) AND 127) = n mod 128"
    using and_mask_exp [of n 7] by (simp add: unsigned_and_eq n take_bit_eq_mod)
qed

lemma header_value:
  assumes "(n::nat) < 128" and "t = 0 \<or> t = 1"
  shows "n OR push_bit 7 t = n + 128 * t"
proof -
  have "bit n i \<Longrightarrow> i < 7" for i :: nat
    using assms(1) take_bit_nat_eq_self [of n 7] bit_take_bit_iff [of 7 n i] by simp
  then have "n + push_bit 7 t = n OR push_bit 7 t"
    by (intro disjunctive_add) (fastforce simp: bit_push_bit_iff not_le [symmetric])
  then show ?thesis by (simp add: push_bit_eq_mult)
qed

lemma adaptive_compress_spec:
  assumes "adaptive_inv s" and "2 \<le> length f" and "length f \<le> 109"
    and "length (table_stream (frame_table f) (rle 254 f)) \<le> 2000"
  shows "\<exists>s'. adaptive_compress s f =
      seqE (header_byte (length (rle 254 f) OR push_bit 7 (frame_table f)))
        (\<lambda>h. Ok (s', h # pack (table_stream (frame_table f) (rle 254 f)))) \<and> adaptive_inv s'"
proof -
  let ?r = "rle 254 f" and ?t = "frame_table f"
  obtain r where r: "rle_compress (adapt_rle s) f = Ok (r, ?r)" "rle_inv r"
    using rle_compress_spec [of "adapt_rle s" f] assms by (auto simp: adaptive_inv_def telemetry_frame_def)
  obtain d where "adaptive_huffman_encode_jit ?r ?t (adapt_compress_buf s) = Ok (d, length (pack (table_stream ?t ?r)))"
    "length d = 250" "take (length (pack (table_stream ?t ?r))) d = pack (table_stream ?t ?r)"
    using adaptive_encode_Ok [OF frame_table_cases, of f ?r "adapt_compress_buf s"] assms
    by (auto simp: adaptive_inv_def)
  with r assms show ?thesis
    by (auto simp: adaptive_compress_def adaptive_inv_def frame_table_def Let_def)
qed

text \<open>The header of a frame whose run-length form fits seven bits carries table and length.\<close>

lemma adaptive_roundtrip_short:
  assumes "adaptive_inv s" and "adaptive_inv t" and "2 \<le> length f" and "length f \<le> 109"
    and "length (rle 254 f) < 128"
  shows "\<exists>s' c t'. adaptive_compress s f = Ok (s', c) \<and> adaptive_inv s' \<and> length c \<le> 192 \<and>
    adaptive_decompress t c = Ok (t', f) \<and> adaptive_inv t'"
proof -
  let ?r = "rle 254 f" and ?t = "frame_table f"
  define h where h_def: "h = length ?r + 128 * ?t"
  have t: "?t = 0 \<or> ?t = 1" by (rule frame_table_cases)
  have bits: "length (table_stream ?t ?r) \<le> 1524"
    using table_stream_bound [of ?t ?r] assms(5) by linarith
  have h: "h < 256" using assms(5) t by (auto simp: h_def)
  obtain s' where c: "adaptive_compress s f = Ok (s', word_of_nat h # pack (table_stream ?t ?r))"
      "adaptive_inv s'"
    using adaptive_compress_spec [of s f] assms bits h
    by (auto simp: header_value [OF assms(5) t] header_byte_def h_def)
  obtain d where d: "adaptive_huffman_decode_jit (pack (table_stream ?t ?r)) ?t (length ?r) (adapt_decompress_buf t) =
      Ok (d, length ?r)" "length d = length (adapt_decompress_buf t)" "take (length ?r) d = ?r"
    using adaptive_decode_Ok [OF t, of ?r "adapt_decompress_buf t"] assms by (auto simp: adaptive_inv_def)
  obtain t' where "rle_decompress (adapt_rle t) ?r = Ok (t', f)" "rle_inv t'"
    using rle_decompress_spec [of "adapt_rle t" ?r f] unrle_rle [of 254 f] assms
    by (auto simp: adaptive_inv_def telemetry_frame_def)
  moreover have "h div 128 = ?t" "h mod 128 = length ?r" using assms(5) by (simp_all add: h_def)
  ultimately have "\<exists>t'. adaptive_decompress t (word_of_nat h # pack (table_stream ?t ?r)) = Ok (t', f) \<and> adaptive_inv t'"
    using d assms(2) by (auto simp: adaptive_decompress_def adaptive_inv_def Let_def header_fields [OF h])
  moreover have "length (pack (table_stream ?t ?r)) \<le> 191" using bits by (simp add: length_pack)
  ultimately show ?thesis using c by auto
qed

definition adaptive_frame :: "byte list \<Rightarrow> bool" where
  "adaptive_frame f \<longleftrightarrow> 2 \<le> length f \<and> length f \<le> 109 \<and> length (rle 254 f) < 128"

interpretation adaptive_codec: payload_codec adaptive_compress adaptive_decompress adaptive_inv adaptive_frame 192
proof unfold_locales
  fix s f assume "adaptive_inv s" "adaptive_frame f"
  then show "\<exists>s' c. adaptive_compress s f = Ok (s', c) \<and> adaptive_inv s' \<and> length c \<le> 192"
    using adaptive_roundtrip_short [of s s f] by (auto simp: adaptive_frame_def)
next
  fix s f s' c t
  assume "adaptive_inv s" "adaptive_frame f" "adaptive_compress s f = Ok (s', c)" "adaptive_inv t"
  then show "\<exists>t'. adaptive_decompress t c = Ok (t', f) \<and> adaptive_inv t'"
    using adaptive_roundtrip_short [of s t f] by (auto simp: adaptive_frame_def)
qed

section \<open>Properties\<close>

text \<open>
  C18: every stream of telemetry frames whose run-length form stays below 128 bytes comes back
  unchanged through one adaptive Huffman manager, whichever of the two tables each frame's
  threat level selects.
\<close>

theorem adaptive_stream_roundtrip:
  assumes "\<forall>f \<in> set fs. 2 \<le> length f \<and> length f \<le> 109 \<and> length (rle 254 f) < 128"
  shows "\<exists>s'. transmit adaptive_compress adaptive_decompress adaptive_init fs = Ok (s', fs) \<and> adaptive_inv s'"
  using assms adaptive_codec.transmit_all [OF adaptive_inv_init, of fs] by (simp add: adaptive_frame_def)

theorem adaptive_stream_roundtrip_witness:
  "\<exists>s'. transmit adaptive_compress adaptive_decompress adaptive_init [[1, 3, 254, 0, 0, 0, 0, 0], [1, 0, 7]] =
     Ok (s', [[1, 3, 254, 0, 0, 0, 0, 0], [1, 0, 7]]) \<and> adaptive_inv s'"
  by (rule adaptive_stream_roundtrip) code_simp

text \<open>
  a nominal frame (threat level other than 3) whose run-length form is exactly 128 bytes
  is lost: the length overflows into the header's table bit, so the receiver selects the
  other table with length 0 and returns an empty frame, without an error.
\<close>

theorem adaptive_header_overflow:
  assumes "adaptive_inv s" and "adaptive_inv t" and "2 \<le> length f" and "length f \<le> 109"
    and "f ! 1 \<noteq> 3" and "length (rle 254 f) = 128"
  shows "\<exists>s' c t'. adaptive_compress s f = Ok (s', c) \<and> adaptive_decompress t c = Ok (t', [])"
proof -
  have t0: "frame_table f = 0" using assms(5) by (simp add: frame_table_def)
  have "length (table_stream 0 (rle 254 f)) \<le> 1526"
    using huff_stream_rle_bound [of f] assms(4) by linarith
  then obtain s' c where "adaptive_compress s f = Ok (s', 128 # c)"
    using adaptive_compress_spec [of s f] assms t0 by (auto simp: header_byte_def)
  moreover have "\<exists>t'. adaptive_decompress t (128 # c) = Ok (t', [])"
    by (simp add: adaptive_decompress_def adaptive_huffman_decode_jit_def decode_bits_def
        rle_decompress_def decompress_rle_jit_def)
  ultimately show ?thesis by blast
qed

theorem adaptive_header_overflow_witness:
  "\<exists>s' c t'. adaptive_compress adaptive_init ([1, 0] @ concat (replicate 9 [254, 1]) @ [254, 254] @ concat (replicate 43 [5, 6]) @ [5]) = Ok (s', c) \<and>
     adaptive_decompress adaptive_init c = Ok (t', [])"
  by (rule adaptive_header_overflow [OF adaptive_inv_init adaptive_inv_init]) code_simp+

end
