(* ===== verification/Lockfree_Ring.thy ===== *)
theory Lockfree_Ring
  imports Fusion_Ring
begin

text \<open>
  \<^verbatim>\<open>lockfree_fusion_ring_buffer.py\<close>: the ring whose slots carry a status word. A push claims
  a sequence number, advances the read pointer over the slot it is about to overwrite, marks
  the slot and writes it; the three steps are separate definitions. Run by one thread the
  ring keeps the same contract as the lock-protected one.
\<close>

section \<open>Slot status and kernels\<close>

abbreviation EMPTY :: nat where "EMPTY \<equiv> 0"
abbreviation WRITING :: nat where "WRITING \<equiv> 1"
abbreviation READY :: nat where "READY \<equiv> 2"

definition write_slot_jit :: "nat \<Rightarrow> columns \<Rightarrow> nat list \<Rightarrow> 'z sample_scheme \<Rightarrow> fault + (columns \<times> nat list)" where
  "write_slot_jit i b status s =
     seqE (write_slot b i s) (\<lambda>b'. seqE (store status i READY) (\<lambda>status'. Ok (b', status')))"

text \<open>\<^verbatim>\<open>for i in range(max_count)\<close>, halting at the first slot that is not READY\<close>

fun read_slots_loop :: "nat \<Rightarrow> columns \<Rightarrow> nat list \<Rightarrow> columns \<Rightarrow> nat \<Rightarrow> nat \<Rightarrow> nat \<Rightarrow> nat \<Rightarrow>
    fault + (nat \<times> nat list \<times> columns)" where
  "read_slots_loop cap b status out curr_ptr i popped 0 = Ok (popped, status, out)"
| "read_slots_loop cap b status out curr_ptr i popped (Suc k) =
     (if cap = 0 then Fail ZeroDivisionError
      else let sl = curr_ptr mod cap in
        seqE (load status sl) (\<lambda>st.
          if st \<noteq> READY then Ok (popped, status, out)
          else seqE (read_slot b sl) (\<lambda>s. seqE (write_slot out i s) (\<lambda>out'.
            seqE (store status sl EMPTY) (\<lambda>status'.
              read_slots_loop cap b status' out' (curr_ptr + 1) (i + 1) (popped + 1) k)))))"

definition read_slots_jit :: "nat \<Rightarrow> nat \<Rightarrow> columns \<Rightarrow> nat list \<Rightarrow> columns \<Rightarrow> nat \<Rightarrow>
    fault + (nat \<times> nat list \<times> columns)" where
  "read_slots_jit rd cap b status out max_count =
     read_slots_loop cap b status out rd 0 0 max_count"

section \<open>The ring object\<close>

record lf_ring =
  lf_capacity :: nat
  lf_cols :: columns
  status_buf :: "nat list"
  write_sequence :: nat
  lf_read_ptr :: nat
  lf_drop_counter :: nat
  lf_out :: columns

definition lf_init :: "nat \<Rightarrow> lf_ring" where
  "lf_init cap = \<lparr>lf_capacity = cap, lf_cols = new_columns cap, status_buf = replicate cap EMPTY,
     write_sequence = 0, lf_read_ptr = 0, lf_drop_counter = 0, lf_out = new_columns 128\<rparr>"

text \<open>Step 1: \<^verbatim>\<open>AtomicSequence.increment\<close> returns the number it advances past.\<close>

definition lf_claim :: "lf_ring \<Rightarrow> nat \<times> lf_ring" where
  "lf_claim r = (write_sequence r, r\<lparr>write_sequence := write_sequence r + 1\<rparr>)"

text \<open>Step 2: overflow. Sequence numbers never run behind the read pointer of a push's own thread.\<close>

definition lf_overflow :: "nat \<Rightarrow> lf_ring \<Rightarrow> lf_ring" where
  "lf_overflow idx r =
     (if lf_capacity r \<le> idx - lf_read_ptr r
      then r\<lparr>lf_drop_counter := lf_drop_counter r + 1, lf_read_ptr := idx - lf_capacity r + 1\<rparr>
      else r)"

text \<open>Step 3: \<^verbatim>\<open>status_buf[slot] = 1\<close>; a NumPy store checks its index.\<close>

definition lf_mark :: "nat \<Rightarrow> lf_ring \<Rightarrow> fault + lf_ring" where
  "lf_mark sl r =
     (if sl < length (status_buf r) then Ok (r\<lparr>status_buf := (status_buf r)[sl := WRITING]\<rparr>)
      else Fail IndexError)"

definition lf_write :: "nat \<Rightarrow> 'z sample_scheme \<Rightarrow> lf_ring \<Rightarrow> fault + lf_ring" where
  "lf_write sl s r =
     seqE (write_slot_jit sl (lf_cols r) (status_buf r) s)
       (\<lambda>(b, status). Ok (r\<lparr>lf_cols := b, status_buf := status\<rparr>))"

definition lf_push_idx :: "lf_ring \<Rightarrow> 'z sample_scheme \<Rightarrow> fault + (lf_ring \<times> nat)" where
  "lf_push_idx r s =
     (let (idx, r1) = lf_claim r in
      if lf_capacity r = 0 then Fail ZeroDivisionError
      else let sl = idx mod lf_capacity r; r2 = lf_overflow idx r1
        in seqE (lf_mark sl r2) (\<lambda>r3. seqE (lf_write sl s r3) (\<lambda>r4. Ok (r4, idx))))"

definition lf_push :: "lf_ring \<Rightarrow> 'z sample_scheme \<Rightarrow> fault + lf_ring" where
  "lf_push r s = seqE (lf_push_idx r s) (\<lambda>(r', idx). Ok r')"

definition lf_pop_batch :: "lf_ring \<Rightarrow> nat \<Rightarrow> fault + (lf_ring \<times> telemetry list)" where
  "lf_pop_batch r max_count =
     (let count = min max_count 128 in
      seqE (read_slots_jit (lf_read_ptr r) (lf_capacity r) (lf_cols r) (status_buf r) (lf_out r) count)
        (\<lambda>(popped, status, out).
           let r' = r\<lparr>status_buf := status, lf_out := out, lf_read_ptr := lf_read_ptr r + popped\<rparr>
           in seqE (serialize out (lf_drop_counter r') [0..<popped]) (\<lambda>ds. Ok (r', ds))))"

section \<open>One thread: the drop-oldest contract\<close>

definition lf_contents :: "lf_ring \<Rightarrow> sample list" where
  "lf_contents r = window (lf_cols r) (lf_capacity r) (lf_read_ptr r) (write_sequence r)"

text \<open>Exactly the slots of the unread records are READY; all others are EMPTY.\<close>

definition status_ok :: "nat \<Rightarrow> nat \<Rightarrow> nat \<Rightarrow> nat list \<Rightarrow> bool" where
  "status_ok cap r w status \<longleftrightarrow> length status = cap \<and>
     (\<forall>k. r \<le> k \<and> k < w \<longrightarrow> status ! (k mod cap) = READY) \<and>
     (\<forall>k. w \<le> k \<and> k < r + cap \<longrightarrow> status ! (k mod cap) = EMPTY)"

definition lf_inv :: "nat \<Rightarrow> lf_ring \<Rightarrow> bool" where
  "lf_inv cap r \<longleftrightarrow> 0 < cap \<and> lf_capacity r = cap \<and> shaped cap (lf_cols r) \<and> shaped 128 (lf_out r) \<and>
     lf_read_ptr r \<le> write_sequence r \<and> write_sequence r - lf_read_ptr r \<le> cap \<and>
     status_ok cap (lf_read_ptr r) (write_sequence r) (status_buf r)"

lemma lf_inv_init: "0 < cap \<Longrightarrow> lf_inv cap (lf_init cap)"
  by (simp add: lf_inv_def lf_init_def status_ok_def)

lemma mod_neq [ring_simps]: "k < w \<Longrightarrow> w - k < cap \<Longrightarrow> k mod cap \<noteq> w mod (cap :: nat)"
  using mod_window_inj [of k cap w] by auto

lemma status_update: "status_ok cap r w st \<Longrightarrow> 0 < cap \<Longrightarrow>
    st[i mod cap := v] ! (k mod cap) = (if k mod cap = i mod cap then v else st ! (k mod cap))"
  by (simp add: status_ok_def nth_list_update)

lemma status_ready:
  assumes "status_ok cap r w st" and "0 < cap" and "r \<le> w" and "w - r < cap"
  shows "status_ok cap r (Suc w) (st[w mod cap := READY])"
  unfolding status_ok_def
proof (intro conjI allI impI)
  fix k assume "r \<le> k \<and> k < Suc w"
  then show "st[w mod cap := READY] ! (k mod cap) = READY"
    using assms(1) by (cases "k = w") (auto simp: status_update [OF assms(1,2)] status_ok_def)
next
  fix k assume k: "Suc w \<le> k \<and> k < r + cap"
  then have "w mod cap \<noteq> k mod cap" using assms(3,4) by (intro mod_neq) linarith+
  with k show "st[w mod cap := READY] ! (k mod cap) = EMPTY"
    using assms(1) by (simp add: status_update [OF assms(1,2)] status_ok_def)
qed (use assms(1) in \<open>simp add: status_ok_def\<close>)

text \<open>Freeing the oldest slot, by a pop or by the overflow rule.\<close>

lemma status_advance:
  assumes "status_ok cap r w st" and "0 < cap" and "r < w" and "w - r \<le> cap"
  shows "status_ok cap (Suc r) w (st[r mod cap := EMPTY])"
  unfolding status_ok_def
proof (intro conjI allI impI)
  fix k assume k: "Suc r \<le> k \<and> k < w"
  then have "r mod cap \<noteq> k mod cap" using assms(4) by (intro mod_neq) linarith+
  with k show "st[r mod cap := EMPTY] ! (k mod cap) = READY"
    using assms(1) by (simp add: status_update [OF assms(1,2)] status_ok_def)
next
  fix k assume k: "w \<le> k \<and> k < Suc r + cap"
  show "st[r mod cap := EMPTY] ! (k mod cap) = EMPTY"
  proof (cases "k = r + cap")
    case False
    with k assms(1) show ?thesis by (simp add: status_update [OF assms(1,2)] status_ok_def)
  qed (simp add: status_update [OF assms(1,2)])
qed (use assms(1) in \<open>simp add: status_ok_def\<close>)

lemma lf_push_law:
  assumes "lf_inv cap r" and "sample_ok s"
  shows "\<exists>r'. lf_push r s = Ok r' \<and> lf_inv cap r' \<and>
    lf_contents r' = last_n cap (lf_contents r @ [stored s]) \<and>
    lf_drop_counter r' = lf_drop_counter r + (if length (lf_contents r) = cap then 1 else 0)"
proof -
  let ?w = "write_sequence r" and ?rd = "lf_read_ptr r"
  have i: "0 < cap" "lf_capacity r = cap" "shaped cap (lf_cols r)" "?rd \<le> ?w" "?w - ?rd \<le> cap"
    "status_ok cap ?rd ?w (status_buf r)" using assms(1) by (auto simp: lf_inv_def)
  have len: "?w mod cap < length (status_buf r)" using i(1,6) by (simp add: status_ok_def)
  obtain b where b: "write_slot (lf_cols r) (?w mod cap) s = Ok b" "shaped cap b"
    "\<And>j. j < cap \<Longrightarrow> slot b j = (if j = ?w mod cap then stored s else slot (lf_cols r) j)"
    using write_slot_slot [OF i(3) _ assms(2), of "?w mod cap"] i(1) by auto
  let ?st = "(status_buf r)[?w mod cap := READY]"
  show ?thesis
  proof (cases "?w - ?rd = cap")
    case False
    then have win: "window b cap ?rd (Suc ?w) = window (lf_cols r) cap ?rd ?w @ [stored s]"
      using i by (intro window_write [OF b(3)]) auto
    have st: "status_ok cap ?rd (Suc ?w) ?st" using False i by (intro status_ready) auto
    have "lf_push r s = Ok (r\<lparr>write_sequence := Suc ?w, lf_cols := b, status_buf := ?st\<rparr>)"
      using False i len b(1)
      by (auto simp: lf_push_def lf_push_idx_def lf_claim_def lf_overflow_def lf_mark_def lf_write_def
          write_slot_jit_def buffer_simps Let_def)
    with False win st i b(2) assms(1) show ?thesis
      by (auto simp: lf_inv_def lf_contents_def last_n_short)
  next
    case True
    then have "?rd < ?w" using i(1) by simp
    have same: "?rd mod cap = ?w mod cap"
      using True i(4) by (metis le_add_diff_inverse mod_add_self2)
    have win: "window b cap (Suc ?rd) (Suc ?w) = window (lf_cols r) cap (Suc ?rd) ?w @ [stored s]"
      using True i by (intro window_write [OF b(3)]) auto
    have "status_ok cap (Suc ?rd) ?w ((status_buf r)[?w mod cap := EMPTY])"
      using status_advance [OF i(6,1) \<open>?rd < ?w\<close> i(5)] by (simp add: same)
    then have st: "status_ok cap (Suc ?rd) (Suc ?w) ?st"
      using status_ready [of cap "Suc ?rd" ?w "(status_buf r)[?w mod cap := EMPTY]"] i(1) True \<open>?rd < ?w\<close>
      by auto
    have "lf_push r s = Ok (r\<lparr>write_sequence := Suc ?w, lf_drop_counter := Suc (lf_drop_counter r),
        lf_read_ptr := Suc ?rd, lf_cols := b, status_buf := ?st\<rparr>)"
      using True i len b(1)
      by (auto simp: lf_push_def lf_push_idx_def lf_claim_def lf_overflow_def lf_mark_def lf_write_def
          write_slot_jit_def buffer_simps Let_def)
    moreover have "window (lf_cols r) cap (Suc ?rd) ?w = drop 1 (lf_contents r)"
      by (simp add: lf_contents_def window_drop i)
    ultimately show ?thesis using True win st i b(2) assms(1)
      by (simp add: lf_inv_def lf_contents_def last_n_def)
  qed
qed

lemma read_slots_loop_spec:
  assumes "shaped cap b" and "0 < cap" and "shaped 128 out" and "i + k \<le> 128"
    and "status_ok cap rd w st" and "rd \<le> w" and "w - rd \<le> cap" and "n = min k (w - rd)"
  shows "\<exists>st' out'. read_slots_loop cap b st out rd i p k = Ok (p + n, st', out') \<and>
    shaped 128 out' \<and> status_ok cap (rd + n) w st' \<and>
    (\<forall>j < 128. slot out' j = (if i \<le> j \<and> j < i + n then slot b ((rd + (j - i)) mod cap) else slot out j))"
  using assms(3-8)
proof (induction k arbitrary: rd out i st p n)
  case (Suc k)
  have len: "rd mod cap < length st" using Suc.prems(3) assms(2) by (simp add: status_ok_def)
  show ?case
  proof (cases "rd = w")
    case True
    then have "st ! (rd mod cap) = EMPTY" using Suc.prems(3) assms(2) by (auto simp: status_ok_def)
    with True Suc.prems assms(2) len show ?thesis by (auto simp: load_def Let_def)
  next
    case False
    then have lt: "rd < w" using Suc.prems(4) by simp
    then have ready: "st ! (rd mod cap) = READY" using Suc.prems(3) by (simp add: status_ok_def)
    let ?s = "slot b (rd mod cap)"
    have s: "read_slot b (rd mod cap) = Ok ?s" "sample_ok ?s" "stored ?s = ?s"
      using read_slot_slot [OF assms(1), of "rd mod cap"] slot_props [OF assms(1), of "rd mod cap"] assms(2)
      by auto
    obtain o1 where o1: "write_slot out i ?s = Ok o1" "shaped 128 o1"
      "\<And>j. j < 128 \<Longrightarrow> slot o1 j = (if j = i then stored ?s else slot out j)"
      using write_slot_slot [OF Suc.prems(1) _ s(2), of i] Suc.prems(2) by auto
    have adv: "status_ok cap (Suc rd) w (st[rd mod cap := EMPTY])"
      by (rule status_advance [OF Suc.prems(3) assms(2) lt Suc.prems(5)])
    define m where "m = min k (w - Suc rd)"
    have n: "n = Suc m" using Suc.prems(6) lt by (simp add: m_def)
    have pre: "Suc i + k \<le> 128" "Suc rd \<le> w" "w - Suc rd \<le> cap" using Suc.prems(2,5) lt by auto
    from Suc.IH [OF o1(2) pre(1) adv pre(2,3) m_def, of "Suc p"] obtain st' out' where r:
      "read_slots_loop cap b (st[rd mod cap := EMPTY]) o1 (Suc rd) (Suc i) (Suc p) k = Ok (Suc p + m, st', out')"
      "shaped 128 out'" "status_ok cap (Suc rd + m) w st'"
      "\<forall>j < 128. slot out' j = (if Suc i \<le> j \<and> j < Suc i + m then slot b ((Suc rd + (j - Suc i)) mod cap) else slot o1 j)"
      by blast
    have "slot out' j = (if i \<le> j \<and> j < i + n then slot b ((rd + (j - i)) mod cap) else slot out j)"
      if "j < 128" for j
    proof -
      consider "j = i" | "j < i" | "i < j" by linarith
      then show ?thesis
      proof cases
        case 3
        then have "Suc rd + (j - Suc i) = rd + (j - i)" by simp
        with 3 that r(4) o1(3) [OF that] show ?thesis by (simp add: n)
      qed (use that r(4) o1(3) [OF that] s(3) in \<open>auto simp: n\<close>)
    qed
    with r(1-3) s(1) o1(1) assms(2) len ready show ?thesis by (simp add: n load_def store_def Let_def)
  qed
qed auto

lemma lf_pop_law:
  assumes "lf_inv cap r"
  shows "\<exists>r' os. lf_pop_batch r n = Ok (r', os) \<and> lf_inv cap r' \<and>
    map sample.truncate os = take (min n 128) (lf_contents r) \<and>
    lf_contents r' = drop (min n 128) (lf_contents r) \<and> lf_drop_counter r' = lf_drop_counter r"
proof -
  let ?w = "write_sequence r" and ?rd = "lf_read_ptr r"
  have i: "0 < cap" "lf_capacity r = cap" "shaped cap (lf_cols r)" "shaped 128 (lf_out r)" "?rd \<le> ?w"
    "?w - ?rd \<le> cap" "status_ok cap ?rd ?w (status_buf r)" using assms(1) by (auto simp: lf_inv_def)
  define k where "k = min (min n 128) (?w - ?rd)"
  have "0 + min n 128 \<le> 128" by simp
  from read_slots_loop_spec [OF i(3,1,4) this i(7,5,6) k_def, of 0] obtain st out where r:
    "read_slots_loop cap (lf_cols r) (status_buf r) (lf_out r) ?rd 0 0 (min n 128) = Ok (k, st, out)"
    "shaped 128 out" "status_ok cap (?rd + k) ?w st"
    "\<forall>j < 128. slot out j = (if j < k then slot (lf_cols r) ((?rd + j) mod cap) else slot (lf_out r) j)"
    by (auto cong: if_cong)
  have k: "k \<le> 128" "k \<le> ?w - ?rd" unfolding k_def by linarith+
  let ?os = "map (\<lambda>i. sample.extend (slot out i) (telemetry.fields (int (lf_drop_counter r)))) [0..<k]"
  let ?r = "r\<lparr>status_buf := st, lf_out := out, lf_read_ptr := ?rd + k\<rparr>"
  have "serialize out (lf_drop_counter r) [0..<k] = Ok ?os" using serialize_spec [OF r(2)] k by auto
  with r(1) have "lf_pop_batch r n = Ok (?r, ?os)"
    by (simp add: lf_pop_batch_def read_slots_jit_def i(2) Let_def)
  moreover have "map sample.truncate ?os = take (min n 128) (lf_contents r)"
    using r(4) k i by (auto simp: lf_contents_def window_def k_def ac_simps intro!: nth_equalityI)
  moreover have "drop (min n 128) (lf_contents r) = window (lf_cols r) cap (?rd + k) ?w"
    using drop_min_length [of "min n 128" "lf_contents r"]
    by (simp add: lf_contents_def window_drop i(2) k_def)
  moreover have "lf_inv cap ?r" using i r(2,3) k by (auto simp: lf_inv_def)
  ultimately show ?thesis by (auto simp: lf_contents_def i(2))
qed

interpretation lockfree: drop_oldest lf_push lf_pop_batch lf_contents lf_drop_counter lf_inv
  sample_ok stored sample.truncate 128
  using lf_push_law lf_pop_law by unfold_locales (blast+, auto simp: lf_inv_def lf_contents_def)

section \<open>Properties\<close>

text \<open>
  C17: used by one thread, the status-word ring returns the same records and counts the same
  drops as the lock-protected ring, for every interleaving of pushes and pops.
\<close>

theorem lockfree_equiv_fusion:
  fixes ops :: "sample ring_op list"
  assumes "0 < cap" and "\<forall>x \<in> set (pushes ops). sample_ok x"
  shows "\<exists>r1 r2 ds1 ds2. ring_run lf_push lf_pop_batch ops (lf_init cap) = Ok (r1, ds1) \<and>
    ring_run fusion_push fusion_pop_batch ops (fusion_init cap) = Ok (r2, ds2) \<and>
    map sample.truncate ds1 = map sample.truncate ds2 \<and> lf_contents r1 = fusion_contents r2 \<and>
    lf_drop_counter r1 = drop_counter r2"
proof -
  have "\<exists>r1 r2 ds1 ds2. ring_run lf_push lf_pop_batch ops r = Ok (r1, ds1) \<and>
      ring_run fusion_push fusion_pop_batch ops f = Ok (r2, ds2) \<and>
      map sample.truncate ds1 = map sample.truncate ds2 \<and> lf_contents r1 = fusion_contents r2 \<and>
      lf_drop_counter r1 = drop_counter r2"
    if "lf_inv cap r" "fusion_inv cap f" "lf_contents r = fusion_contents f" "lf_drop_counter r = drop_counter f"
    for r f
    using that assms(2)
  proof (induction ops arbitrary: r f rule: pushes.induct)
    case (2 x ops)
    then obtain r1 f1 where "lf_push r x = Ok r1" "lf_inv cap r1" "fusion_push f x = Ok f1" "fusion_inv cap f1"
      "lf_contents r1 = fusion_contents f1" "lf_drop_counter r1 = drop_counter f1"
      using lf_push_law [of cap r x] fusion_push_law [of cap f x] by auto
    with "2.IH" [of r1 f1] "2.prems" show ?case by simp
  next
    case (3 n ops)
    then obtain r1 f1 o1 o2 where p: "lf_pop_batch r n = Ok (r1, o1)" "lf_inv cap r1"
      "fusion_pop_batch f n = Ok (f1, o2)" "fusion_inv cap f1" "map sample.truncate o1 = map sample.truncate o2"
      "lf_contents r1 = fusion_contents f1" "lf_drop_counter r1 = drop_counter f1"
      using lf_pop_law [of cap r n] fusion_pop_law [of cap f n] by auto
    from "3.IH" [OF p(2,4,6,7)] "3.prems"(5) p show ?case by fastforce
  qed simp
  moreover have "lf_contents (lf_init cap) = fusion_contents (fusion_init cap)"
    "lf_drop_counter (lf_init cap) = drop_counter (fusion_init cap)"
    by (simp_all add: lf_contents_def fusion_contents_def lf_init_def fusion_init_def window_def)
  ultimately show ?thesis using lf_inv_init fusion_inv_init assms(1) by blast
qed

theorem lockfree_equiv_fusion_witness:
  "\<exists>r1 r2 ds1 ds2. ring_run lf_push lf_pop_batch [Push sample0, Push sample0, Pop 1] (lf_init 1) = Ok (r1, ds1) \<and>
    ring_run fusion_push fusion_pop_batch [Push sample0, Push sample0, Pop 1] (fusion_init 1) = Ok (r2, ds2) \<and>
    map sample.truncate ds1 = map sample.truncate ds2 \<and> lf_contents r1 = fusion_contents r2 \<and>
    lf_drop_counter r1 = drop_counter r2"
  by (rule lockfree_equiv_fusion) (simp_all add: sample_ok_def sample0_def)

end
