(* ===== verification/Bounded_Queue.thy ===== *)
theory Bounded_Queue
  imports Prelude
begin

text \<open>
  The contract of a single-producer queue that refuses or loses nothing while it is used
  within its capacity. The shared telemetry bus and the double-buffered DMA ring
  interpret it; its lemma is the FIFO order over any run of operations.
\<close>

datatype 'e queue_op = Put 'e | Get

fun puts :: "'e queue_op list \<Rightarrow> 'e list" where
  "puts [] = []"
| "puts (Put e # ops) = e # puts ops"
| "puts (Get # ops) = puts ops"

text \<open>\<open>fits_queue cap c ops\<close>: starting from \<open>c\<close> queued entries, no put finds the queue full.\<close>

fun fits_queue :: "nat \<Rightarrow> nat \<Rightarrow> 'e queue_op list \<Rightarrow> bool" where
  "fits_queue cap c [] = True"
| "fits_queue cap c (Put e # ops) = (c < cap \<and> fits_queue cap (c + 1) ops)"
| "fits_queue cap c (Get # ops) = fits_queue cap (c - 1) ops"

fun queue_run :: "('e \<Rightarrow> 's \<Rightarrow> fault + 's) \<Rightarrow> ('s \<Rightarrow> fault + ('e option \<times> 's)) \<Rightarrow> 'e queue_op list \<Rightarrow> 's \<Rightarrow>
    fault + ('s \<times> 'e list)" where
  "queue_run put get [] s = Ok (s, [])"
| "queue_run put get (Put e # ops) s = seqE (put e s) (queue_run put get ops)"
| "queue_run put get (Get # ops) s =
     seqE (get s) (\<lambda>(x, s1). seqE (queue_run put get ops s1) (\<lambda>(s2, es).
       Ok (s2, (case x of None \<Rightarrow> es | Some e \<Rightarrow> e # es))))"

locale bounded_queue =
  fixes put :: "'e \<Rightarrow> 's \<Rightarrow> fault + 's" and get :: "'s \<Rightarrow> fault + ('e option \<times> 's)"
    and contents :: "'s \<Rightarrow> 'e list" and inv :: "'s \<Rightarrow> bool" and cap :: nat
  assumes put_room: "inv s \<Longrightarrow> length (contents s) < cap \<Longrightarrow>
      \<exists>s'. put e s = Ok s' \<and> inv s' \<and> contents s' = contents s @ [e]"
    and get_head: "inv s \<Longrightarrow>
      \<exists>s'. get s = Ok (case contents s of [] \<Rightarrow> None | e # _ \<Rightarrow> Some e, s') \<and> inv s' \<and> contents s' = tl (contents s)"
begin

lemma run_fifo:
  assumes "inv s" and "fits_queue cap (length (contents s)) ops"
  shows "\<exists>s' es. queue_run put get ops s = Ok (s', es) \<and> inv s' \<and> es @ contents s' = contents s @ puts ops"
  using assms
proof (induction ops arbitrary: s rule: puts.induct)
  case (2 e ops)
  then obtain s1 where "put e s = Ok s1" "inv s1" "contents s1 = contents s @ [e]"
    using put_room [of s e] by auto
  with "2.IH" [of s1] "2.prems" show ?case by auto
next
  case (3 ops)
  from get_head [OF "3.prems"(1)] obtain s1 where s1:
    "get s = Ok (case contents s of [] \<Rightarrow> None | e # _ \<Rightarrow> Some e, s1)" "inv s1" "contents s1 = tl (contents s)"
    by blast
  from "3.IH" [OF s1(2)] "3.prems"(2) s1(3) obtain s2 es where
    "queue_run put get ops s1 = Ok (s2, es)" "inv s2" "es @ contents s2 = contents s1 @ puts ops"
    by auto
  with s1 show ?case by (cases "contents s") auto
qed simp

end

end
