(* ===== verification/Telemetry_Bus.thy ===== *)
theory Telemetry_Bus
  imports Bounded_Queue
begin

text \<open>
  \<^verbatim>\<open>ipc_shared_bus.py\<close>, \<^verbatim>\<open>SharedTelemetryBus\<close>: a shared-memory ring with a write index, a read
  index and a compare-and-swap on the latter. A narrowing of doubles to the 32-bit floats of
  the C structure is the parameter \<open>narrow\<close>. The producer never looks at the read index; the
  lemmas give the discipline under which the bus is a queue, and the properties at the end
  what happens outside it. Shared-memory set-up and the named locks are not modelled.
\<close>

type_synonym double = "64 word"
type_synonym single = "32 word"

section \<open>Entries\<close>

record entry =
  e_timestamp :: double
  e_frame_index :: "64 word"
  e_latencies :: "64 word list"
  e_snr :: "single list"
  e_peaks :: "(single \<times> single \<times> single) list"

datatype peak = PDict "string \<Rightarrow> double option" | PSeq "double list"

text \<open>\<^verbatim>\<open>p.get("az", 0.0)\<close> of a dictionary, or \<^verbatim>\<open>p[0], p[1], p[2]\<close> of a sequence\<close>

fun peak_fields :: "(double \<Rightarrow> single) \<Rightarrow> peak \<Rightarrow> fault + (single \<times> single \<times> single)" where
  "peak_fields narrow (PDict d) =
     Ok (narrow (case d ''az'' of Some v \<Rightarrow> v | None \<Rightarrow> 0), narrow (case d ''el'' of Some v \<Rightarrow> v | None \<Rightarrow> 0),
         narrow (case d ''val'' of Some v \<Rightarrow> v | None \<Rightarrow> 0))"
| "peak_fields narrow (PSeq xs) =
     (case xs of a # b # c # _ \<Rightarrow> Ok (narrow a, narrow b, narrow c) | _ \<Rightarrow> Fail IndexError)"

text \<open>\<^verbatim>\<open>for idx in range(3)\<close>; missing peaks are zero.\<close>

fun peak_rows :: "(double \<Rightarrow> single) \<Rightarrow> nat \<Rightarrow> peak list \<Rightarrow> fault + (single \<times> single \<times> single) list" where
  "peak_rows narrow 0 ps = Ok []"
| "peak_rows narrow (Suc k) [] = seqE (peak_rows narrow k []) (\<lambda>rows. Ok ((0, 0, 0) # rows))"
| "peak_rows narrow (Suc k) (p # ps) =
     seqE (peak_fields narrow p) (\<lambda>row. seqE (peak_rows narrow k ps) (\<lambda>rows. Ok (row # rows)))"

definition make_entry :: "(double \<Rightarrow> single) \<Rightarrow> double \<Rightarrow> int \<Rightarrow> int list \<Rightarrow> double list \<Rightarrow> peak list \<Rightarrow> fault + entry" where
  "make_entry narrow timestamp frame_index latencies snrs peaks =
     (if length latencies < 5 \<or> length snrs < 4 then Fail IndexError
      else seqE (peak_rows narrow 3 peaks) (\<lambda>rows.
        Ok \<lparr>e_timestamp = timestamp, e_frame_index = word_of_int frame_index,
            e_latencies = map word_of_int (take 5 latencies), e_snr = map narrow (take 4 snrs),
            e_peaks = rows\<rparr>))"

section \<open>The bus\<close>

record bus =
  write_index :: nat
  read_index :: nat
  bus_size :: nat
  entries :: "entry list"

definition zero_entry :: entry where
  "zero_entry = \<lparr>e_timestamp = 0, e_frame_index = 0, e_latencies = replicate 5 0, e_snr = replicate 4 0,
     e_peaks = replicate 3 (0, 0, 0)\<rparr>"

definition bus_init :: "nat \<Rightarrow> bus" where
  "bus_init n = \<lparr>write_index = 0, read_index = 0, bus_size = n, entries = replicate n zero_entry\<rparr>"

text \<open>
  \<open>write_telemetry\<close> for a frame that converts without an exception; the entry is stored first
  and the write head moves last. \<^verbatim>\<open>entries[w_idx]\<close> of a ctypes array raises outside it.
\<close>

definition bus_put :: "entry \<Rightarrow> bus \<Rightarrow> fault + bus" where
  "bus_put e b =
     (let w_idx = write_index b in
      if w_idx < length (entries b) then
        Ok (b\<lparr>entries := (entries b)[w_idx := e], write_index := (w_idx + 1) mod bus_size b\<rparr>)
      else Fail IndexError)"

definition write_telemetry :: "(double \<Rightarrow> single) \<Rightarrow> double \<Rightarrow> int \<Rightarrow> int list \<Rightarrow> double list \<Rightarrow> peak list \<Rightarrow>
    bus \<Rightarrow> fault + bus" where
  "write_telemetry narrow timestamp frame_index latencies snrs peaks b =
     seqE (make_entry narrow timestamp frame_index latencies snrs peaks) (\<lambda>e. bus_put e b)"

definition read_latest :: "bus \<Rightarrow> fault + entry" where
  "read_latest b =
     (if bus_size b = 0 then Fail ZeroDivisionError
      else let i = (write_index b + bus_size b - 1) mod bus_size b
        in if i < length (entries b) then Ok (entries b ! i) else Fail IndexError)"

text \<open>
  One round of the pop loop: load both indices, give up when they agree, otherwise try the
  compare-and-swap. Between the loads and the swap other processes may run.
\<close>

definition cas_read_index :: "nat \<Rightarrow> nat \<Rightarrow> bus \<Rightarrow> bool \<times> bus" where
  "cas_read_index expected new b =
     (if read_index b = expected then (True, b\<lparr>read_index := new\<rparr>) else (False, b))"

definition copy_entry :: "bus \<Rightarrow> nat \<Rightarrow> fault + entry" where
  "copy_entry b i = (if i < length (entries b) then Ok (entries b ! i) else Fail IndexError)"

text \<open>Run by one consumer with no other process in between, the first swap succeeds.\<close>

definition pop_telemetry :: "bus \<Rightarrow> fault + (entry option \<times> bus)" where
  "pop_telemetry b =
     (let r_idx = read_index b; w_idx = write_index b in
      if r_idx = w_idx then Ok (None, b)
      else if bus_size b = 0 then Fail ZeroDivisionError
      else case cas_read_index r_idx ((r_idx + 1) mod bus_size b) b of
          (True, b') \<Rightarrow> seqE (copy_entry b' r_idx) (\<lambda>e. Ok (Some e, b'))
        | (False, b') \<Rightarrow> Ok (None, b'))"

section \<open>Abstraction\<close>

definition unread :: "bus \<Rightarrow> nat" where
  "unread b = (write_index b + bus_size b - read_index b) mod bus_size b"

definition bus_contents :: "bus \<Rightarrow> entry list" where
  "bus_contents b = map (\<lambda>k. entries b ! ((read_index b + k) mod bus_size b)) [0..<unread b]"

definition bus_inv :: "nat \<Rightarrow> bus \<Rightarrow> bool" where
  "bus_inv n b \<longleftrightarrow> 0 < n \<and> bus_size b = n \<and> length (entries b) = n \<and> write_index b < n \<and> read_index b < n"

lemma bus_inv_init: "0 < n \<Longrightarrow> bus_inv n (bus_init n)"
  by (simp add: bus_inv_def bus_init_def)

lemma length_bus_contents [simp]: "length (bus_contents b) = unread b"
  by (simp add: bus_contents_def)

lemma unread_less: "bus_inv n b \<Longrightarrow> unread b < n"
  by (simp add: bus_inv_def unread_def)

lemma write_index_unread: "bus_inv n b \<Longrightarrow> (read_index b + unread b) mod n = write_index b"
  by (simp add: bus_inv_def unread_def mod_add_right_eq)

lemma unread_eq:
  assumes "bus_inv n b" and "write_index b = (read_index b + c) mod n" and "c < n" shows "unread b = c"
  using assms unread_add [of "read_index b" n c] by (simp add: bus_inv_def unread_def)

text \<open>A write with a slot to spare appends.\<close>

lemma bus_put_room:
  assumes "bus_inv n b" and "unread b + 1 < n"
  shows "\<exists>b'. bus_put e b = Ok b' \<and> bus_inv n b' \<and> bus_contents b' = bus_contents b @ [e]"
proof -
  let ?b = "b\<lparr>entries := (entries b)[write_index b := e], write_index := (write_index b + 1) mod n\<rparr>"
  have i: "0 < n" "bus_size b = n" "length (entries b) = n" "write_index b < n" "read_index b < n"
    using assms(1) by (auto simp: bus_inv_def)
  have w: "write_index b = (read_index b + unread b) mod n" using write_index_unread [OF assms(1)] by simp
  have put: "bus_put e b = Ok ?b" using i by (simp add: bus_put_def Let_def)
  have inv: "bus_inv n ?b" using i by (simp add: bus_inv_def)
  have "(write_index b + 1) mod n = (read_index b + Suc (unread b)) mod n" by (subst w) (simp add: mod_Suc_eq)
  then have un: "unread ?b = Suc (unread b)" using unread_eq [OF inv, of "Suc (unread b)"] assms(2) by simp
  have "entries ?b ! ((read_index b + k) mod n) = entries b ! ((read_index b + k) mod n)" if "k < unread b" for k
    using slots_differ [OF that, of n "read_index b"] assms(2) i(3) w by (simp add: nth_list_update)
  moreover have "entries ?b ! ((read_index b + unread b) mod n) = e" using w i by simp
  ultimately have "bus_contents ?b = bus_contents b @ [e]" by (simp add: bus_contents_def un [simplified] i(2))
  with put inv show ?thesis by blast
qed

text \<open>A write into the last free slot makes the indices agree: the bus then looks empty.\<close>

lemma bus_put_full:
  assumes "bus_inv n b" and "unread b + 1 = n"
  shows "\<exists>b'. bus_put e b = Ok b' \<and> bus_inv n b' \<and> bus_contents b' = [] \<and> write_index b' = read_index b'"
proof -
  let ?b = "b\<lparr>entries := (entries b)[write_index b := e], write_index := (write_index b + 1) mod n\<rparr>"
  have i: "0 < n" "bus_size b = n" "length (entries b) = n" "write_index b < n" "read_index b < n"
    using assms(1) by (auto simp: bus_inv_def)
  have w: "write_index b = (read_index b + unread b) mod n" using write_index_unread [OF assms(1)] by simp
  have inv: "bus_inv n ?b" using i by (simp add: bus_inv_def)
  have "(write_index b + 1) mod n = (read_index b + Suc (unread b)) mod n" by (subst w) (simp add: mod_Suc_eq)
  also have "\<dots> = read_index b" using assms(2) i(5) by simp
  finally have wi: "(write_index b + 1) mod n = read_index b" .
  then have "unread ?b = 0" using unread_eq [OF inv, of 0] i by simp
  with wi inv i show ?thesis by (auto simp: bus_put_def bus_contents_def Let_def)
qed

lemma pop_telemetry_spec:
  assumes "bus_inv n b"
  shows "\<exists>b'. bus_inv n b' \<and> pop_telemetry b = Ok (case bus_contents b of [] \<Rightarrow> None | e # _ \<Rightarrow> Some e, b') \<and>
    bus_contents b' = tl (bus_contents b)"
proof -
  have i: "0 < n" "bus_size b = n" "length (entries b) = n" "write_index b < n" "read_index b < n"
    using assms(1) by (auto simp: bus_inv_def)
  have w: "write_index b = (read_index b + unread b) mod n" using write_index_unread [OF assms(1)] by simp
  show ?thesis
  proof (cases "unread b")
    case 0
    then have "read_index b = write_index b" using w i by simp
    moreover have "bus_contents b = []" using 0 by (simp add: bus_contents_def)
    ultimately show ?thesis using assms by (simp add: pop_telemetry_def)
  next
    case (Suc c)
    let ?b = "b\<lparr>read_index := (read_index b + 1) mod n\<rparr>"
    have inv: "bus_inv n ?b" using i by (simp add: bus_inv_def)
    have "Suc c < n" using Suc unread_less [OF assms] by simp
    then have ne: "read_index b \<noteq> write_index b"
      using slots_differ [of 0 "Suc c" n "read_index b"] w Suc i by simp
    have "write_index ?b = ((read_index b + 1) mod n + c) mod n" using w Suc by (simp add: mod_add_left_eq)
    then have un: "unread ?b = c" using unread_eq [OF inv, of c] \<open>Suc c < n\<close> by simp
    have shift: "(Suc (read_index b) mod n + k) mod n = Suc (read_index b + k) mod n" for k
      by (simp add: mod_add_left_eq)
    have "bus_contents b = entries b ! (read_index b mod n) # bus_contents ?b"
      by (simp add: bus_contents_def un [simplified] i(2) Suc shift comp_def upt_conv_Cons map_Suc_upt [symmetric] del: upt_Suc map_Suc_upt)
    then show ?thesis using ne i inv
      by (intro exI [of _ ?b]) (simp add: pop_telemetry_def cas_read_index_def copy_entry_def Let_def)
  qed
qed

interpretation bus_queue: bounded_queue bus_put pop_telemetry bus_contents "bus_inv n" "n - 1" for n
proof unfold_locales
  fix s :: bus and e
  assume "bus_inv n s" "length (bus_contents s) < n - 1"
  then show "\<exists>s'. bus_put e s = Ok s' \<and> bus_inv n s' \<and> bus_contents s' = bus_contents s @ [e]"
    using bus_put_room [of n s e] by simp
next
  fix s :: bus assume "bus_inv n s"
  then show "\<exists>s'. pop_telemetry s = Ok (case bus_contents s of [] \<Rightarrow> None | e # _ \<Rightarrow> Some e, s') \<and> bus_inv n s' \<and>
      bus_contents s' = tl (bus_contents s)"
    using pop_telemetry_spec [of n s] by blast
qed

section \<open>Concurrent consumers\<close>

text \<open>
  Consumers are interleaved at the granularity of shared-memory accesses: load the read
  index, load the write index (giving up when they agree), compare-and-swap, copy the entry.
  \<open>produced\<close>, and the slot numbers in \<open>delivered\<close>, are bookkeeping for the statements.
\<close>

datatype consumer_pc = Idle | HaveR nat | HaveRW nat nat | Claimed nat

record bus_system =
  sys_bus :: bus
  sys_pc :: "nat \<Rightarrow> consumer_pc"
  produced :: "entry list"
  delivered :: "(nat \<times> nat \<times> entry) list"

definition sys_init :: "nat \<Rightarrow> bus_system" where
  "sys_init n = \<lparr>sys_bus = bus_init n, sys_pc = (\<lambda>_. Idle), produced = [], delivered = []\<rparr>"

datatype bus_event = Produce entry | LoadR nat | LoadW nat | Cas nat | Copy nat

inductive bus_step :: "bus_system \<Rightarrow> bus_event \<Rightarrow> bus_system \<Rightarrow> bool" where
  produce: "bus_put e (sys_bus s) = Ok b \<Longrightarrow>
    bus_step s (Produce e) (s\<lparr>sys_bus := b, produced := produced s @ [e]\<rparr>)"
| load_r: "sys_pc s c = Idle \<Longrightarrow>
    bus_step s (LoadR c) (s\<lparr>sys_pc := (sys_pc s)(c := HaveR (read_index (sys_bus s)))\<rparr>)"
| load_w_empty: "sys_pc s c = HaveR r \<Longrightarrow> write_index (sys_bus s) = r \<Longrightarrow>
    bus_step s (LoadW c) (s\<lparr>sys_pc := (sys_pc s)(c := Idle)\<rparr>)"
| load_w: "sys_pc s c = HaveR r \<Longrightarrow> write_index (sys_bus s) \<noteq> r \<Longrightarrow>
    bus_step s (LoadW c) (s\<lparr>sys_pc := (sys_pc s)(c := HaveRW r (write_index (sys_bus s)))\<rparr>)"
| cas_ok: "sys_pc s c = HaveRW r w \<Longrightarrow> cas_read_index r ((r + 1) mod bus_size (sys_bus s)) (sys_bus s) = (True, b) \<Longrightarrow>
    bus_step s (Cas c) (s\<lparr>sys_bus := b, sys_pc := (sys_pc s)(c := Claimed r)\<rparr>)"
| cas_retry: "sys_pc s c = HaveRW r w \<Longrightarrow> cas_read_index r ((r + 1) mod bus_size (sys_bus s)) (sys_bus s) = (False, b) \<Longrightarrow>
    bus_step s (Cas c) (s\<lparr>sys_pc := (sys_pc s)(c := Idle)\<rparr>)"
| copy: "sys_pc s c = Claimed r \<Longrightarrow> copy_entry (sys_bus s) r = Ok e \<Longrightarrow>
    bus_step s (Copy c) (s\<lparr>sys_pc := (sys_pc s)(c := Idle), delivered := delivered s @ [(c, r, e)]\<rparr>)"

inductive_cases bus_step_produceE: "bus_step s (Produce e) s'"
inductive_cases bus_step_loadRE: "bus_step s (LoadR c) s'"
inductive_cases bus_step_loadWE: "bus_step s (LoadW c) s'"
inductive_cases bus_step_casE: "bus_step s (Cas c) s'"
inductive_cases bus_step_copyE: "bus_step s (Copy c) s'"

inductive bus_reach :: "nat \<Rightarrow> bus_system \<Rightarrow> bool" for n where
  start: "bus_reach n (sys_init n)"
| step: "bus_reach n s \<Longrightarrow> bus_step s ev s' \<Longrightarrow> bus_reach n s'"

text \<open>The invariant while the producer has not wrapped around.\<close>

definition slots :: "(nat \<times> nat \<times> entry) list \<Rightarrow> nat list" where
  "slots ds = map (\<lambda>(c, k, e). k) ds"

definition sys_ok :: "nat \<Rightarrow> bus_system \<Rightarrow> bool" where
  "sys_ok n s \<longleftrightarrow>
     bus_inv n (sys_bus s) \<and> write_index (sys_bus s) = length (produced s) \<and>
     read_index (sys_bus s) \<le> length (produced s) \<and>
     (\<forall>k < length (produced s). entries (sys_bus s) ! k = produced s ! k) \<and>
     (\<forall>c r. sys_pc s c = HaveR r \<longrightarrow> r \<le> read_index (sys_bus s)) \<and>
     (\<forall>c r w. sys_pc s c = HaveRW r w \<longrightarrow> r < w \<and> w \<le> length (produced s)) \<and>
     (\<forall>c k. sys_pc s c = Claimed k \<longrightarrow> k < read_index (sys_bus s) \<and> k \<notin> set (slots (delivered s))) \<and>
     (\<forall>c c' k. sys_pc s c = Claimed k \<and> sys_pc s c' = Claimed k \<longrightarrow> c = c') \<and>
     distinct (slots (delivered s)) \<and>
     (\<forall>(c, k, e) \<in> set (delivered s). k < read_index (sys_bus s) \<and> e = produced s ! k)"

lemma sys_ok_init: "0 < n \<Longrightarrow> sys_ok n (sys_init n)"
  by (simp add: sys_ok_def sys_init_def slots_def bus_inv_init) (simp add: bus_init_def)

lemma sys_ok_produce:
  assumes "sys_ok n s" and "bus_put e (sys_bus s) = Ok b" and "Suc (length (produced s)) < n"
  shows "sys_ok n (s\<lparr>sys_bus := b, produced := produced s @ [e]\<rparr>)"
proof -
  have i: "bus_inv n (sys_bus s)" "write_index (sys_bus s) = length (produced s)"
    using assms(1) by (simp_all add: sys_ok_def)
  then have b: "b = (sys_bus s)\<lparr>entries := (entries (sys_bus s))[length (produced s) := e],
      write_index := Suc (length (produced s))\<rparr>"
    using assms(2,3) by (auto simp: bus_put_def bus_inv_def Let_def split: if_splits)
  have "read_index b = read_index (sys_bus s)" "write_index b = Suc (length (produced s))" "bus_inv n b"
    using b i assms(3) by (auto simp: bus_inv_def)
  moreover have "entries b ! k = (produced s @ [e]) ! k" if "k < Suc (length (produced s))" for k
    using that assms(1,3) i b by (auto simp: sys_ok_def bus_inv_def nth_list_update nth_append less_Suc_eq)
  moreover have "(produced s @ [e]) ! k = produced s ! k" if "k < read_index (sys_bus s)" for k
    using that assms(1) by (simp add: sys_ok_def nth_append)
  ultimately show ?thesis
    using assms(1) by (fastforce simp: sys_ok_def intro: le_SucI)
qed

lemma sys_ok_load_r: "sys_ok n s \<Longrightarrow> sys_ok n (s\<lparr>sys_pc := (sys_pc s)(c := HaveR (read_index (sys_bus s)))\<rparr>)"
  by (auto simp: sys_ok_def)

lemma sys_ok_idle: "sys_ok n s \<Longrightarrow> sys_ok n (s\<lparr>sys_pc := (sys_pc s)(c := Idle)\<rparr>)"
  by (auto simp: sys_ok_def)

lemma sys_ok_load_w:
  assumes "sys_ok n s" and "sys_pc s c = HaveR r" and "write_index (sys_bus s) \<noteq> r"
  shows "sys_ok n (s\<lparr>sys_pc := (sys_pc s)(c := HaveRW r (write_index (sys_bus s)))\<rparr>)"
proof -
  have "r \<le> read_index (sys_bus s)" "read_index (sys_bus s) \<le> length (produced s)"
    "write_index (sys_bus s) = length (produced s)" using assms by (auto simp: sys_ok_def)
  with assms(3) have "r < write_index (sys_bus s) \<and> write_index (sys_bus s) \<le> length (produced s)" by simp
  with assms(1) show ?thesis by (auto simp: sys_ok_def)
qed

lemma sys_ok_cas:
  assumes "sys_ok n s" and "length (produced s) < n" and "sys_pc s c = HaveRW r w"
    and "cas_read_index r ((r + 1) mod bus_size (sys_bus s)) (sys_bus s) = (True, b)"
  shows "sys_ok n (s\<lparr>sys_bus := b, sys_pc := (sys_pc s)(c := Claimed r)\<rparr>)"
proof -
  have r: "read_index (sys_bus s) = r" and b: "b = (sys_bus s)\<lparr>read_index := (r + 1) mod n\<rparr>"
    using assms(1,4) by (auto simp: cas_read_index_def sys_ok_def bus_inv_def split: if_splits)
  have "r < length (produced s)" using assms(1,3) by (fastforce simp: sys_ok_def)
  then have m: "(r + 1) mod n = Suc r" using assms(2) by simp
  have "k < r" if "sys_pc s d = Claimed k" for d k using that assms(1) r by (auto simp: sys_ok_def)
  moreover have "r \<notin> set (slots (delivered s))"
    using assms(1) r by (fastforce simp: sys_ok_def slots_def)
  moreover have "bus_inv n b" using assms(1,2) \<open>r < length (produced s)\<close> by (simp add: b m sys_ok_def bus_inv_def)
  ultimately show ?thesis
    using assms(1) \<open>r < length (produced s)\<close> r m unfolding sys_ok_def b
    by (auto simp: less_Suc_eq le_Suc_eq)
qed

lemma sys_ok_copy:
  assumes "sys_ok n s" and "sys_pc s c = Claimed r" and "copy_entry (sys_bus s) r = Ok e"
  shows "sys_ok n (s\<lparr>sys_pc := (sys_pc s)(c := Idle), delivered := delivered s @ [(c, r, e)]\<rparr>)"
proof -
  have "r < read_index (sys_bus s)" "r \<notin> set (slots (delivered s))"
    "read_index (sys_bus s) \<le> length (produced s)"
    using assms(1,2) by (auto simp: sys_ok_def)
  then have r: "r < read_index (sys_bus s)" "r \<notin> set (slots (delivered s))" "r < length (produced s)"
    by simp_all
  have e: "e = produced s ! r"
    using assms(1,3) r(3) by (auto simp: sys_ok_def copy_entry_def split: if_splits)
  have "k \<noteq> r" if "sys_pc s d = Claimed k" "d \<noteq> c" for d k
    using that assms(1,2) by (auto simp: sys_ok_def)
  with assms(1) r e show ?thesis by (auto simp: sys_ok_def slots_def)
qed

lemma produced_mono: "bus_step s ev s' \<Longrightarrow> length (produced s) \<le> length (produced s')"
  by (induction rule: bus_step.induct) auto

lemma sys_ok_step:
  assumes "bus_step s ev s'" and "sys_ok n s" and "length (produced s') < n"
  shows "sys_ok n s'"
  using assms
proof (induction rule: bus_step.induct)
  case (produce e s b) then show ?case using sys_ok_produce by simp
next
  case (load_r s c) then show ?case using sys_ok_load_r by simp
next
  case (load_w_empty s c r) then show ?case using sys_ok_idle by simp
next
  case (load_w s c r) then show ?case using sys_ok_load_w by simp
next
  case (cas_ok s c r w b) then show ?case using sys_ok_cas by simp
next
  case (cas_retry s c r w b) then show ?case using sys_ok_idle by simp
next
  case (copy s c r e) then show ?case using sys_ok_copy by simp
qed

lemma bus_reach_ok: "bus_reach n s \<Longrightarrow> 0 < n \<Longrightarrow> length (produced s) < n \<Longrightarrow> sys_ok n s"
proof (induction rule: bus_reach.induct)
  case (step s ev s')
  then show ?case using produced_mono [of s ev s'] sys_ok_step [of s ev s' n] by simp
qed (simp add: sys_ok_init)

text \<open>The same steps as a function, to run schedules.\<close>

fun sys_next :: "bus_system \<Rightarrow> bus_event \<Rightarrow> bus_system option" where
  "sys_next s (Produce e) =
     (case bus_put e (sys_bus s) of
        Inr b \<Rightarrow> Some (s\<lparr>sys_bus := b, produced := produced s @ [e]\<rparr>) | Inl _ \<Rightarrow> None)"
| "sys_next s (LoadR c) =
     (case sys_pc s c of
        Idle \<Rightarrow> Some (s\<lparr>sys_pc := (sys_pc s)(c := HaveR (read_index (sys_bus s)))\<rparr>) | _ \<Rightarrow> None)"
| "sys_next s (LoadW c) =
     (case sys_pc s c of
        HaveR r \<Rightarrow> Some (s\<lparr>sys_pc := (sys_pc s)(c :=
          (if write_index (sys_bus s) = r then Idle else HaveRW r (write_index (sys_bus s))))\<rparr>)
      | _ \<Rightarrow> None)"
| "sys_next s (Cas c) =
     (case sys_pc s c of
        HaveRW r w \<Rightarrow>
          (case cas_read_index r ((r + 1) mod bus_size (sys_bus s)) (sys_bus s) of
             (True, b) \<Rightarrow> Some (s\<lparr>sys_bus := b, sys_pc := (sys_pc s)(c := Claimed r)\<rparr>)
           | (False, b) \<Rightarrow> Some (s\<lparr>sys_pc := (sys_pc s)(c := Idle)\<rparr>))
      | _ \<Rightarrow> None)"
| "sys_next s (Copy c) =
     (case sys_pc s c of
        Claimed r \<Rightarrow>
          (case copy_entry (sys_bus s) r of
             Inr e \<Rightarrow> Some (s\<lparr>sys_pc := (sys_pc s)(c := Idle), delivered := delivered s @ [(c, r, e)]\<rparr>)
           | Inl _ \<Rightarrow> None)
      | _ \<Rightarrow> None)"

lemma sys_next_step: "sys_next s ev = Some s' \<Longrightarrow> bus_step s ev s'"
  by (cases ev) (auto split: sum.splits consumer_pc.splits prod.splits bool.splits if_splits
      intro: bus_step.intros)

fun sys_exec :: "bus_event list \<Rightarrow> bus_system \<Rightarrow> bus_system option" where
  "sys_exec [] s = Some s"
| "sys_exec (ev # evs) s = (case sys_next s ev of Some s' \<Rightarrow> sys_exec evs s' | None \<Rightarrow> None)"

lemma sys_exec_reach: "sys_exec evs s = Some s' \<Longrightarrow> bus_reach n s \<Longrightarrow> bus_reach n s'"
  by (induction evs arbitrary: s) (auto split: option.splits dest!: sys_next_step intro: bus_reach.step)

section \<open>Properties\<close>

text \<open>
  used by one producer and one consumer with at most \<open>n - 1\<close> unread entries at any time,
  the bus of \<open>n\<close> slots is a queue: what was popped followed by what is left is what was written.
\<close>

theorem bus_fifo:
  assumes "0 < n" and "fits_queue (n - 1) 0 ops"
  shows "\<exists>b es. queue_run bus_put pop_telemetry ops (bus_init n) = Ok (b, es) \<and> es @ bus_contents b = puts ops"
proof -
  have "bus_contents (bus_init n) = []" by (simp add: bus_contents_def unread_def bus_init_def)
  with bus_queue.run_fifo [OF bus_inv_init [OF assms(1)], of ops] assms(2) show ?thesis by auto
qed

theorem bus_fifo_witness:
  "\<exists>b es. queue_run bus_put pop_telemetry [Put zero_entry, Get, Put zero_entry, Get, Put zero_entry] (bus_init 2) = Ok (b, es) \<and>
     es @ bus_contents b = puts [Put zero_entry, Get, Put zero_entry, Get, Put zero_entry]"
  by (rule bus_fifo) simp_all

text \<open>
  the producer does not look at the read index. Writing exactly \<open>n\<close> entries to a fresh
  bus of \<open>n\<close> slots makes it look empty: the next pop returns nothing and all \<open>n\<close> are lost.
\<close>

theorem bus_overrun:
  assumes "length es = n" and "0 < n"
  shows "\<exists>b. queue_run bus_put pop_telemetry (map Put es) (bus_init n) = Ok (b, []) \<and>
    pop_telemetry b = Ok (None, b)"
proof -
  obtain us e where es: "es = us @ [e]" using assms by (cases es rule: rev_cases) auto
  have run: "queue_run bus_put pop_telemetry (map Put xs @ ops) b =
      seqE (queue_run bus_put pop_telemetry (map Put xs) b) (\<lambda>(b1, _). queue_run bus_put pop_telemetry ops b1)"
    for xs ops and b :: bus
  proof (induction xs arbitrary: b)
    case (Cons x xs)
    then show ?case by (cases "bus_put x b") auto
  qed simp
  have fits: "fits_queue (n - 1) k (map Put us)" if "k + length us = n - 1" for k
    using that by (induction us arbitrary: k) auto
  have puts: "puts (map Put us) = us" by (induction us) auto
  have none: "queue_run bus_put pop_telemetry (map Put us) b = Ok (b', ds) \<Longrightarrow> ds = []" for b b' ds
    by (induction us arbitrary: b) (auto simp: seqE_Ok_iff)
  have c0: "bus_contents (bus_init n) = []" by (simp add: bus_contents_def unread_def bus_init_def)
  from bus_queue.run_fifo [OF bus_inv_init [OF assms(2)], of "map Put us"] fits [of 0] assms(1) c0
  obtain b1 ds where b1: "queue_run bus_put pop_telemetry (map Put us) (bus_init n) = Ok (b1, ds)"
    "bus_inv n b1" "ds @ bus_contents b1 = us" by (auto simp: es puts)
  with none have "bus_contents b1 = us" by auto
  then have "unread b1 + 1 = n" using assms(1) es by (metis length_append_singleton length_bus_contents Suc_eq_plus1)
  from bus_put_full [OF b1(2) this] obtain b where
    "bus_put e b1 = Ok b" "write_index b = read_index b" by blast
  with b1(1) show ?thesis by (auto simp: es run pop_telemetry_def)
qed

theorem bus_overrun_witness:
  "\<exists>b. queue_run bus_put pop_telemetry (map Put [zero_entry, zero_entry]) (bus_init 2) = Ok (b, []) \<and>
     pop_telemetry b = Ok (None, b)"
  by (rule bus_overrun) simp_all

text \<open>
  as long as the producer has not wrapped around, any interleaving of any number of
  consumers delivers every slot at most once, and each delivery is the entry written there.
\<close>

theorem bus_exactly_once:
  assumes "bus_reach n s" and "0 < n" and "length (produced s) < n"
  shows "distinct (map (\<lambda>(c, k, e). k) (delivered s)) \<and> (\<forall>(c, k, e) \<in> set (delivered s). e = produced s ! k)"
  using bus_reach_ok [OF assms] by (auto simp: sys_ok_def slots_def)

definition two_consumers :: bus_system where
  "two_consumers = the (sys_exec [Produce zero_entry, LoadR 0, LoadR 1, LoadW 0, LoadW 1, Cas 1, Cas 0, Copy 1] (sys_init 2))"

theorem bus_exactly_once_witness:
  "distinct (map (\<lambda>(c, k, e). k) (delivered two_consumers)) \<and>
   list_all (\<lambda>(c, k, e). e = produced two_consumers ! k) (delivered two_consumers)"
  unfolding list_all_iff
proof (rule bus_exactly_once [of 2])
  have "sys_exec [Produce zero_entry, LoadR 0, LoadR 1, LoadW 0, LoadW 1, Cas 1, Cas 0, Copy 1] (sys_init 2) =
      Some two_consumers"
    by (simp add: two_consumers_def sys_init_def bus_init_def bus_put_def cas_read_index_def copy_entry_def Let_def)
  then show "bus_reach 2 two_consumers" by (rule sys_exec_reach) (rule bus_reach.start)
  show "length (produced two_consumers) < 2"
    by (simp add: two_consumers_def sys_init_def bus_init_def bus_put_def cas_read_index_def copy_entry_def Let_def)
qed simp

definition aba_schedule :: "bus_event list" where
  "aba_schedule = [LoadR 0, Produce zero_entry, LoadW 0, LoadR 1, LoadW 1, Cas 1, Copy 1,
    Produce (zero_entry\<lparr>e_frame_index := 1\<rparr>), LoadR 1, LoadW 1, Cas 1, Copy 1, Cas 0, Copy 0]"

text \<open>
  once the ring wraps, the compare-and-swap cannot tell that the read index has come back
  to the value it loaded: on a bus of two slots a schedule of two consumers delivers three
  entries although only two were ever written, the first one twice.
\<close>

theorem bus_aba_duplicate:
  "\<exists>s. bus_reach 2 s \<and> length (produced s) = 2 \<and>
     map (\<lambda>(c, k, e). e) (delivered s) = [produced s ! 0, produced s ! 1, produced s ! 0]"
proof -
  let ?e = "zero_entry\<lparr>e_frame_index := 1\<rparr>"
  have "map_option (\<lambda>s. (produced s, map (\<lambda>(c, k, e). e) (delivered s))) (sys_exec aba_schedule (sys_init 2)) =
      Some ([zero_entry, ?e], [zero_entry, ?e, zero_entry])"
    by (simp add: aba_schedule_def sys_init_def bus_init_def bus_put_def cas_read_index_def copy_entry_def Let_def)
  then obtain s where s: "sys_exec aba_schedule (sys_init 2) = Some s" and "produced s = [zero_entry, ?e]"
    "map (\<lambda>(c, k, e). e) (delivered s) = [zero_entry, ?e, zero_entry]"
    by auto
  with sys_exec_reach [OF s bus_reach.start] show ?thesis by (intro exI [of _ s]) simp
qed

end
