(* ===== verification/Dma_Ring.thy ===== *)
theory Dma_Ring
  imports Bounded_Queue
begin

unbundle bit_operations_syntax

text \<open>
  \<^verbatim>\<open>dma_descriptor_ring.py\<close>: two memory planes between the hardware writer and the signal
  processor. A plane's samples are an abstract \<open>'p\<close>; payloads have the plane's shape. A pull
  spins while its plane is empty, which is \<open>None\<close> here, and returns a view: the plane's index,
  whose samples are whatever the plane holds when the view is read.
\<close>

section \<open>The ring\<close>

abbreviation STATE_EMPTY :: "8 word" where "STATE_EMPTY \<equiv> 0"
abbreviation STATE_FULL :: "8 word" where "STATE_FULL \<equiv> 1"

record 'p dma_ring =
  buffer_planes :: "'p list"
  write_head :: "8 word"
  read_head :: "8 word"
  plane_state :: "8 word list"
  overflow_events :: "32 word"
  total_strides :: "64 word"

definition dma_init :: "'p \<Rightarrow> 'p dma_ring" where
  "dma_init z = \<lparr>buffer_planes = [z, z], write_head = 0, read_head = 0,
     plane_state = [STATE_EMPTY, STATE_EMPTY], overflow_events = 0, total_strides = 0\<rparr>"

definition dma_push :: "'p \<Rightarrow> 'p dma_ring \<Rightarrow> bool \<times> 'p dma_ring" where
  "dma_push payload d =
     (let active_idx = unat (write_head d) in
      if plane_state d ! active_idx = STATE_FULL then
        (False, d\<lparr>overflow_events := overflow_events d + 1\<rparr>)
      else
        (True, d\<lparr>buffer_planes := (buffer_planes d)[active_idx := payload],
                 plane_state := (plane_state d)[active_idx := STATE_FULL],
                 write_head := write_head d XOR 1\<rparr>))"

definition dsp_pull :: "'p dma_ring \<Rightarrow> (nat \<times> 'p dma_ring) option" where
  "dsp_pull d =
     (let active_idx = unat (read_head d) in
      if plane_state d ! active_idx = STATE_EMPTY then None
      else Some (active_idx, d\<lparr>plane_state := (plane_state d)[active_idx := STATE_EMPTY],
                               read_head := read_head d XOR 1, total_strides := total_strides d + 1\<rparr>))"

definition view_samples :: "nat \<Rightarrow> 'p dma_ring \<Rightarrow> 'p" where
  "view_samples i d = buffer_planes d ! i"

section \<open>Abstraction: at most two queued strides\<close>

definition head_ok :: "8 word \<Rightarrow> bool" where
  "head_ok h \<longleftrightarrow> h = 0 \<or> h = 1"

definition dma_inv :: "'p dma_ring \<Rightarrow> bool" where
  "dma_inv d \<longleftrightarrow> length (buffer_planes d) = 2 \<and> length (plane_state d) = 2 \<and>
     head_ok (write_head d) \<and> head_ok (read_head d) \<and>
     (if write_head d = read_head d then plane_state d ! 0 = plane_state d ! 1 \<and> set (plane_state d) \<subseteq> {0, 1}
      else plane_state d ! unat (read_head d) = STATE_FULL \<and> plane_state d ! unat (write_head d) = STATE_EMPTY)"

definition dma_contents :: "'p dma_ring \<Rightarrow> 'p list" where
  "dma_contents d =
     (if plane_state d ! unat (read_head d) = STATE_EMPTY then []
      else if write_head d = read_head d
        then [buffer_planes d ! unat (read_head d), buffer_planes d ! unat (read_head d XOR 1)]
        else [buffer_planes d ! unat (read_head d)])"

lemma dma_inv_init: "dma_inv (dma_init z)"
  by (simp add: dma_inv_def dma_init_def head_ok_def)

lemma xor_one: "(0 :: 8 word) XOR 1 = 1" "(1 :: 8 word) XOR 1 = 0"
  by simp_all

lemma list_of_two: "length xs = 2 \<Longrightarrow> \<exists>a b. xs = [a, b]"
  by (auto simp: numeral_eq_Suc length_Suc_conv)

text \<open>The reachable shapes of the ring, spelled out for the proofs.\<close>

lemma dma_cases:
  assumes "dma_inv d"
  obtains a b w r where "buffer_planes d = [a, b]" and "write_head d = w" and "read_head d = r"
    and "(w, r, plane_state d) \<in> {(0, 0, [0, 0]), (0, 0, [1, 1]), (1, 1, [0, 0]), (1, 1, [1, 1]),
      (0, 1, [0, 1]), (1, 0, [1, 0])}"
proof -
  from assms obtain a b where planes: "buffer_planes d = [a, b]" unfolding dma_inv_def using list_of_two by blast
  from assms obtain p q where st: "plane_state d = [p, q]" unfolding dma_inv_def using list_of_two by blast
  have "(write_head d, read_head d, plane_state d) \<in> {(0, 0, [0, 0]), (0, 0, [1, 1]), (1, 1, [0, 0]), (1, 1, [1, 1]),
      (0, 1, [0, 1]), (1, 0, [1, 0])}"
  proof -
    have "write_head d = 0 \<or> write_head d = 1" "read_head d = 0 \<or> read_head d = 1"
      using assms by (simp_all add: dma_inv_def head_ok_def)
    then show ?thesis
    proof (elim disjE)
      assume "write_head d = 0" "read_head d = 0"
      then show ?thesis using assms st by (simp add: dma_inv_def)
    next
      assume "write_head d = 0" "read_head d = 1"
      then show ?thesis using assms st by (simp add: dma_inv_def)
    next
      assume "write_head d = 1" "read_head d = 0"
      then show ?thesis using assms st by (simp add: dma_inv_def)
    next
      assume "write_head d = 1" "read_head d = 1"
      then show ?thesis using assms st by (simp add: dma_inv_def)
    qed
  qed
  with planes that show thesis by blast
qed

definition dma_put :: "'p \<Rightarrow> 'p dma_ring \<Rightarrow> fault + 'p dma_ring" where
  "dma_put p d = Ok (snd (dma_push p d))"

definition dma_get :: "'p dma_ring \<Rightarrow> fault + ('p option \<times> 'p dma_ring)" where
  "dma_get d = Ok (case dsp_pull d of None \<Rightarrow> (None, d) | Some (i, d') \<Rightarrow> (Some (view_samples i d'), d'))"

interpretation dma_queue: bounded_queue dma_put dma_get dma_contents dma_inv 2
proof unfold_locales
  fix s :: "'a dma_ring" and e
  assume "dma_inv s" and len: "length (dma_contents s) < 2"
  then show "\<exists>s'. dma_put e s = Ok s' \<and> dma_inv s' \<and> dma_contents s' = dma_contents s @ [e]"
    by (elim dma_cases)
      (auto simp: dma_put_def dma_push_def dma_inv_def dma_contents_def head_ok_def Let_def split: if_splits)
next
  fix s :: "'a dma_ring" assume "dma_inv s"
  then show "\<exists>s'. dma_get s = Ok (case dma_contents s of [] \<Rightarrow> None | e # _ \<Rightarrow> Some e, s') \<and> dma_inv s' \<and>
      dma_contents s' = tl (dma_contents s)"
    by (elim dma_cases)
      (auto simp: dma_get_def dsp_pull_def view_samples_def dma_inv_def dma_contents_def head_ok_def Let_def
        split: if_splits)
qed

section \<open>Properties\<close>

text \<open>
  a push that finds both planes full returns false, counts one overflow and leaves the
  queued strides as they are; any other push queues its stride and counts none.
\<close>

theorem dma_push_behaviour:
  assumes "dma_inv d"
  shows "if length (dma_contents d) = 2
         then dma_push p d = (False, d\<lparr>overflow_events := overflow_events d + 1\<rparr>)
         else fst (dma_push p d) \<and> dma_contents (snd (dma_push p d)) = dma_contents d @ [p] \<and>
              overflow_events (snd (dma_push p d)) = overflow_events d"
  using assms
  by (elim dma_cases) (auto simp: dma_push_def dma_contents_def Let_def)

definition full_dma :: "nat dma_ring" where
  "full_dma = snd (dma_push 7 (snd (dma_push 6 (dma_init 0))))"

theorem dma_push_behaviour_witness:
  "if length (dma_contents full_dma) = 2
   then dma_push 8 full_dma = (False, full_dma\<lparr>overflow_events := overflow_events full_dma + 1\<rparr>)
   else fst (dma_push 8 full_dma) \<and> dma_contents (snd (dma_push 8 full_dma)) = dma_contents full_dma @ [8] \<and>
     overflow_events (snd (dma_push 8 full_dma)) = overflow_events full_dma"
  by (rule dma_push_behaviour)
    (simp add: full_dma_def dma_push_def dma_init_def dma_inv_def head_ok_def Let_def)

text \<open>
  a pull frees its plane while handing out a view of it. When two strides were queued,
  the very next push is accepted into that plane, and the view already handed out then shows
  the new stride instead of the one that was pulled.
\<close>

theorem dma_view_overwritten:
  assumes "dma_inv d" and "dma_contents d = [a, b]"
  shows "\<exists>v d1 d2. dsp_pull d = Some (v, d1) \<and> view_samples v d1 = a \<and>
    dma_push c d1 = (True, d2) \<and> view_samples v d2 = c \<and> dma_contents d2 = [b, c]"
  using assms
  by (elim dma_cases) (auto simp: dma_push_def dsp_pull_def view_samples_def dma_contents_def Let_def
      split: if_splits)

theorem dma_view_overwritten_witness:
  "\<exists>v d1 d2. dsp_pull full_dma = Some (v, d1) \<and>
    view_samples v d1 = 6 \<and> dma_push 8 d1 = (True, d2) \<and> view_samples v d2 = 8 \<and> dma_contents d2 = [7, 8]"
  by (rule dma_view_overwritten)
    (simp_all add: full_dma_def dma_push_def dma_init_def dma_inv_def dma_contents_def head_ok_def Let_def)

end
