(* ===== verification/Handshake.thy ===== *)
theory Handshake
  imports Prelude
begin

text \<open>
  \<^verbatim>\<open>nonce_memory_cache.py\<close> and the inline evaluator of \<^verbatim>\<open>secure_handshake_interceptor.py\<close>.
  The Ed25519 verification and the hardware clock are parameters. The
  quarantine worker only moves queued items to disk and is not modelled.
\<close>

section \<open>The nonce cache\<close>

record nonce_cache =
  window_size :: nat
  nonce_buffer :: "64 word list"

definition cache_init :: "nat \<Rightarrow> nonce_cache" where
  "cache_init w = \<lparr>window_size = w, nonce_buffer = replicate w 0\<rparr>"

text \<open>The slot of a nonce; a 64-bit cell keeps the nonce's low 64 bits.\<close>

definition slot_idx :: "nonce_cache \<Rightarrow> int \<Rightarrow> nat" where
  "slot_idx c nonce = nat (nonce mod int (window_size c))"

definition check_and_set_nonce :: "int \<Rightarrow> nonce_cache \<Rightarrow> fault + (bool \<times> nonce_cache)" where
  "check_and_set_nonce nonce c =
     (if window_size c = 0 then Fail ZeroDivisionError
      else let i = slot_idx c nonce; current_val = uint (nonce_buffer c ! i)
        in if current_val = nonce then Ok (True, c)
           else Ok (False, c\<lparr>nonce_buffer := (nonce_buffer c)[i := word_of_int nonce]\<rparr>))"

section \<open>The interceptor\<close>

record request =
  rq_node :: int
  rq_nonce :: int
  rq_timestamp_us :: real
  rq_signature :: "byte list"
  rq_payload :: "byte list"

datatype verdict = UNAUTHORIZED_NODE | REPLAY_ATTACK | EXPIRED_WINDOW | INVALID_SIGNATURE | VERIFIED

record 'k interceptor =
  authorized_keys :: "int \<Rightarrow> 'k option"
  nonces :: nonce_cache
  max_time_drift_us :: real
  quarantine_queue :: "(int \<times> byte list \<times> string) list"

definition interceptor_init :: "(int \<Rightarrow> 'k option) \<Rightarrow> 'k interceptor" where
  "interceptor_init keys = \<lparr>authorized_keys = keys, nonces = cache_init 1048576,
     max_time_drift_us = 100000, quarantine_queue = []\<rparr>"

fun le_unsigned :: "nat \<Rightarrow> nat \<Rightarrow> byte list" where
  "le_unsigned 0 v = []"
| "le_unsigned (Suc n) v = word_of_nat v # le_unsigned n (v div 256)"

text \<open>\<^verbatim>\<open>struct.pack('<IQQ', node_id, nonce, int(timestamp_us)) + payload\<close>\<close>

definition unsigned_field :: "nat \<Rightarrow> int \<Rightarrow> fault + byte list" where
  "unsigned_field n v = (if 0 \<le> v \<and> v < 2 ^ (8 * n) then Ok (le_unsigned n (nat v)) else Fail StructError)"

definition py_trunc :: "real \<Rightarrow> int" where
  "py_trunc x = (if 0 \<le> x then \<lfloor>x\<rfloor> else \<lceil>x\<rceil>)"

definition message_block :: "request \<Rightarrow> fault + byte list" where
  "message_block r =
     seqE (unsigned_field 4 (rq_node r)) (\<lambda>a. seqE (unsigned_field 8 (rq_nonce r)) (\<lambda>b.
     seqE (unsigned_field 8 (py_trunc (rq_timestamp_us r))) (\<lambda>c. Ok (a @ b @ c @ rq_payload r))))"

definition quarantine :: "request \<Rightarrow> string \<Rightarrow> 'k interceptor \<Rightarrow> 'k interceptor" where
  "quarantine r reason s = s\<lparr>quarantine_queue := quarantine_queue s @ [(rq_node r, rq_payload r, reason)]\<rparr>"

text \<open>
  \<open>verify key signature message\<close> is the Ed25519 check and \<open>now\<close> the clock in microseconds. An
  exception propagates out of the evaluator; the nonce has been recorded by then, so the
  state is part of every outcome.
\<close>

definition intercept_payload :: "('k \<Rightarrow> byte list \<Rightarrow> byte list \<Rightarrow> bool) \<Rightarrow> real \<Rightarrow> request \<Rightarrow> 'k interceptor \<Rightarrow>
    (fault + verdict) \<times> 'k interceptor" where
  "intercept_payload verify now r s =
     (case authorized_keys s (rq_node r) of
        None \<Rightarrow> (Ok UNAUTHORIZED_NODE, quarantine r ''UNAUTHORIZED_NODE_IDENTITY'' s)
      | Some pub_key \<Rightarrow>
          (case check_and_set_nonce (rq_nonce r) (nonces s) of
             Inl e \<Rightarrow> (Fail e, s)
           | Inr (is_duplicate, c) \<Rightarrow>
               let s1 = s\<lparr>nonces := c\<rparr> in
               if is_duplicate then (Ok REPLAY_ATTACK, quarantine r ''REPLAY_ATTACK_CACHE_DUPLICATE'' s1)
               else if abs (now - rq_timestamp_us r) > max_time_drift_us s1
                 then (Ok EXPIRED_WINDOW, quarantine r ''EXPIRED_TEMPORAL_WINDOW'' s1)
               else (case message_block r of
                   Inl e \<Rightarrow> (Fail e, s1)
                 | Inr m \<Rightarrow>
                     if verify pub_key (rq_signature r) m then (Ok VERIFIED, s1)
                     else (Ok INVALID_SIGNATURE, quarantine r ''INVALID_ED25519_SIGNATURE'' s1))))"

section \<open>Slots and what is recorded in them\<close>

definition ic_inv :: "'k interceptor \<Rightarrow> bool" where
  "ic_inv s \<longleftrightarrow> 0 < window_size (nonces s) \<and> length (nonce_buffer (nonces s)) = window_size (nonces s)"

lemma ic_inv_init: "ic_inv (interceptor_init keys)"
  by (simp add: ic_inv_def interceptor_init_def cache_init_def)

definition recorded :: "int \<Rightarrow> 'k interceptor \<Rightarrow> bool" where
  "recorded nonce s \<longleftrightarrow> uint (nonce_buffer (nonces s) ! slot_idx (nonces s) nonce) = nonce"

lemma slot_idx_less: "ic_inv s \<Longrightarrow> slot_idx (nonces s) n < length (nonce_buffer (nonces s))"
  by (simp add: ic_inv_def slot_idx_def nat_less_iff)

lemma uint_word_of_int64: "0 \<le> n \<Longrightarrow> n < 2 ^ 64 \<Longrightarrow> uint (word_of_int n :: 64 word) = n"
  by (simp add: unsigned_of_int take_bit_int_eq_self)

text \<open>The state after any request: same keys and window, and the slot of its nonce updated.\<close>

lemma quarantine_simps [simp]:
  "nonces (quarantine r t s) = nonces s" "authorized_keys (quarantine r t s) = authorized_keys s"
  "max_time_drift_us (quarantine r t s) = max_time_drift_us s"
  by (simp_all add: quarantine_def)

lemma intercept_state:
  assumes "ic_inv s" and "intercept_payload verify now r s = (v, s')"
  shows "ic_inv s' \<and> authorized_keys s' = authorized_keys s \<and> max_time_drift_us s' = max_time_drift_us s \<and>
    window_size (nonces s') = window_size (nonces s) \<and>
    nonce_buffer (nonces s') =
      (if authorized_keys s (rq_node r) = None \<or> recorded (rq_nonce r) s then nonce_buffer (nonces s)
       else (nonce_buffer (nonces s))[slot_idx (nonces s) (rq_nonce r) := word_of_int (rq_nonce r)])"
  using assms
  by (auto simp: intercept_payload_def check_and_set_nonce_def ic_inv_def recorded_def Let_def
      split: option.splits if_splits sum.splits)

lemma intercept_records:
  assumes "ic_inv s" and "intercept_payload verify now r s = (v, s')"
    and "authorized_keys s (rq_node r) \<noteq> None" and "0 \<le> rq_nonce r" and "rq_nonce r < 2 ^ 64"
  shows "recorded (rq_nonce r) s'"
  using intercept_state [OF assms(1,2)] assms(3-5) slot_idx_less [OF assms(1), of "rq_nonce r"]
  by (auto simp: recorded_def slot_idx_def uint_word_of_int64)

text \<open>A recorded nonce stays recorded until a nonce of the same slot comes by.\<close>

lemma intercept_keeps:
  assumes "ic_inv s" and "intercept_payload verify now r s = (v, s')" and "recorded n s"
    and "slot_idx (nonces s) (rq_nonce r) \<noteq> slot_idx (nonces s) n"
  shows "recorded n s'"
  using intercept_state [OF assms(1,2)] assms(3,4) by (auto simp: recorded_def slot_idx_def)

lemma replay_rejected:
  assumes "ic_inv s" and "recorded (rq_nonce r) s" and "authorized_keys s (rq_node r) \<noteq> None"
  shows "fst (intercept_payload verify now r s) = Ok REPLAY_ATTACK"
  using assms by (auto simp: intercept_payload_def check_and_set_nonce_def ic_inv_def recorded_def Let_def)

fun intercept_all :: "('k \<Rightarrow> byte list \<Rightarrow> byte list \<Rightarrow> bool) \<Rightarrow> (real \<times> request) list \<Rightarrow> 'k interceptor \<Rightarrow>
    (fault + verdict) list \<times> 'k interceptor" where
  "intercept_all verify [] s = ([], s)"
| "intercept_all verify ((now, r) # rs) s =
     (let (v, s1) = intercept_payload verify now r s; (vs, s2) = intercept_all verify rs s1 in (v # vs, s2))"

lemma intercept_all_keeps:
  assumes "ic_inv s" and "recorded n s"
    and "\<forall>(now, r) \<in> set rs. rq_nonce r mod int (window_size (nonces s)) \<noteq> n mod int (window_size (nonces s))"
  shows "ic_inv (snd (intercept_all verify rs s)) \<and> recorded n (snd (intercept_all verify rs s)) \<and>
    authorized_keys (snd (intercept_all verify rs s)) = authorized_keys s"
  using assms
proof (induction rs arbitrary: s)
  case (Cons nr rs)
  obtain now r where nr: "nr = (now, r)" by (cases nr)
  obtain v s1 where s1: "intercept_payload verify now r s = (v, s1)" by (cases "intercept_payload verify now r s")
  note st = intercept_state [OF Cons.prems(1) s1]
  have "slot_idx (nonces s) (rq_nonce r) \<noteq> slot_idx (nonces s) n"
    using Cons.prems(1,3) nr by (auto simp: slot_idx_def ic_inv_def eq_nat_nat_iff)
  with intercept_keeps [OF Cons.prems(1) s1 Cons.prems(2)] have "recorded n s1" .
  with Cons.IH [of s1] Cons.prems(3) st nr s1 show ?case by (simp add: split_beta Let_def)
qed simp

section \<open>Properties\<close>

text \<open>
  a request is verified only if its node is authorized, its clock is within the drift
  window, its signature is valid over the packed node, nonce, timestamp and payload, and its
  nonce was not the one recorded in its slot.
\<close>

theorem verified_sound:
  assumes "fst (intercept_payload verify now r s) = Ok VERIFIED"
  shows "\<exists>k m. authorized_keys s (rq_node r) = Some k \<and> abs (now - rq_timestamp_us r) \<le> max_time_drift_us s \<and>
    message_block r = Ok m \<and> verify k (rq_signature r) m \<and> \<not> recorded (rq_nonce r) s"
  using assms
  by (auto simp: intercept_payload_def check_and_set_nonce_def recorded_def Let_def
      split: option.splits if_splits sum.splits)

definition demo_keys :: "int \<Rightarrow> nat option" where
  "demo_keys = [7 \<mapsto> 1]"

definition demo_verify :: "nat \<Rightarrow> byte list \<Rightarrow> byte list \<Rightarrow> bool" where
  "demo_verify k sig m \<longleftrightarrow> sig = [1]"

definition demo_request :: request where
  "demo_request = \<lparr>rq_node = 7, rq_nonce = 1, rq_timestamp_us = 0, rq_signature = [1], rq_payload = []\<rparr>"

text \<open>An interceptor of four slots; the window size of \<open>interceptor_init\<close> only changes the modulus.\<close>

definition demo_interceptor :: "nat interceptor" where
  "demo_interceptor = (interceptor_init demo_keys)\<lparr>nonces := cache_init 4\<rparr>"

lemma demo_interceptor_inv: "ic_inv demo_interceptor"
  by (simp add: demo_interceptor_def ic_inv_def cache_init_def)

lemmas demo_defs = demo_interceptor_def interceptor_init_def cache_init_def demo_keys_def demo_verify_def
  demo_request_def

theorem verified_sound_witness:
  "\<exists>k m. authorized_keys demo_interceptor (rq_node demo_request) = Some k \<and>
    abs (0 - rq_timestamp_us demo_request) \<le> max_time_drift_us demo_interceptor \<and>
    message_block demo_request = Ok m \<and> demo_verify k (rq_signature demo_request) m \<and>
    \<not> recorded (rq_nonce demo_request) demo_interceptor"
  by (rule verified_sound)
    (simp add: demo_defs intercept_payload_def check_and_set_nonce_def slot_idx_def message_block_def
      unsigned_field_def py_trunc_def Let_def)

text \<open>
  once a request from an authorized node has been evaluated, a later request with the same
  nonce is rejected as a replay, whatever came in between, as long as no other nonce of the
  same slot did.
\<close>

theorem replay_trap:
  assumes "ic_inv s" and "authorized_keys s (rq_node r) \<noteq> None" and "0 \<le> rq_nonce r" and "rq_nonce r < 2 ^ 64"
    and "\<forall>(t, q) \<in> set rs. rq_nonce q mod int (window_size (nonces s)) \<noteq>
      rq_nonce r mod int (window_size (nonces s))"
    and "rq_nonce r' = rq_nonce r" and "authorized_keys s (rq_node r') \<noteq> None"
  shows "fst (intercept_payload verify now' r'
    (snd (intercept_all verify rs (snd (intercept_payload verify now r s))))) = Ok REPLAY_ATTACK"
proof -
  obtain v s1 where s1: "intercept_payload verify now r s = (v, s1)" by (cases "intercept_payload verify now r s")
  note st = intercept_state [OF assms(1) s1]
  have "recorded (rq_nonce r) s1" by (rule intercept_records [OF assms(1) s1 assms(2-4)])
  with intercept_all_keeps [of s1 "rq_nonce r" rs verify] st assms(5)
  have "ic_inv (snd (intercept_all verify rs s1))" "recorded (rq_nonce r') (snd (intercept_all verify rs s1))"
    "authorized_keys (snd (intercept_all verify rs s1)) = authorized_keys s"
    by (simp_all add: assms(6))
  with replay_rejected [of "snd (intercept_all verify rs s1)" r'] assms(7) s1 show ?thesis by simp
qed

theorem replay_trap_witness:
  "fst (intercept_payload demo_verify 0 demo_request
    (snd (intercept_all demo_verify [(0, demo_request\<lparr>rq_nonce := 2\<rparr>)]
      (snd (intercept_payload demo_verify 0 demo_request demo_interceptor))))) = Ok REPLAY_ATTACK"
  by (rule replay_trap) (simp_all add: demo_defs ic_inv_def)

text \<open>
  the nonce is recorded before the signature is checked. A forged request with an invalid
  signature, sent in the name of an authorized node, makes the genuine request that carries
  the same nonce be rejected as a replay.
\<close>

theorem forged_request_burns_nonce:
  assumes "ic_inv s" and "authorized_keys s (rq_node g) = Some k" and "0 \<le> rq_nonce g" and "rq_nonce g < 2 ^ 64"
    and "\<not> recorded (rq_nonce g) s" and "rq_nonce f = rq_nonce g" and "rq_node f = rq_node g"
    and "abs (now - rq_timestamp_us f) \<le> max_time_drift_us s" and "message_block f = Ok m"
    and "\<not> verify k (rq_signature f) m"
  shows "fst (intercept_payload verify now f s) = Ok INVALID_SIGNATURE \<and>
    fst (intercept_payload verify now' g (snd (intercept_payload verify now f s))) = Ok REPLAY_ATTACK"
proof
  show "fst (intercept_payload verify now f s) = Ok INVALID_SIGNATURE"
    using assms by (auto simp: intercept_payload_def check_and_set_nonce_def recorded_def ic_inv_def Let_def)
  obtain v s1 where s1: "intercept_payload verify now f s = (v, s1)" by (cases "intercept_payload verify now f s")
  have "recorded (rq_nonce g) s1"
    using intercept_records [OF assms(1) s1] assms(2-4,6,7) by simp
  with replay_rejected [of s1 g] intercept_state [OF assms(1) s1] assms(2) s1
  show "fst (intercept_payload verify now' g (snd (intercept_payload verify now f s))) = Ok REPLAY_ATTACK"
    by simp
qed

theorem forged_request_burns_nonce_witness:
  "fst (intercept_payload demo_verify 0 (demo_request\<lparr>rq_signature := []\<rparr>) demo_interceptor) = Ok INVALID_SIGNATURE \<and>
   fst (intercept_payload demo_verify 0 demo_request
     (snd (intercept_payload demo_verify 0 (demo_request\<lparr>rq_signature := []\<rparr>) demo_interceptor))) = Ok REPLAY_ATTACK"
  by (rule forged_request_burns_nonce [OF demo_interceptor_inv, where k = 1 and
        m = "le_unsigned 4 7 @ le_unsigned 8 1 @ le_unsigned 8 0"])
    (simp_all add: demo_defs recorded_def slot_idx_def message_block_def unsigned_field_def py_trunc_def)

text \<open>
  a captured request can be replayed inside its own drift window: any request of an
  authorized node whose nonce falls into the same slot, valid or not, evicts the recorded
  nonce, after which the identical captured request is verified a second time.
\<close>

theorem replay_after_eviction:
  assumes "ic_inv s" and "fst (intercept_payload verify now r s) = Ok VERIFIED"
    and "authorized_keys s (rq_node f) \<noteq> None" and "rq_nonce f \<noteq> rq_nonce r"
    and "0 \<le> rq_nonce f" and "rq_nonce f < 2 ^ 64"
    and "rq_nonce f mod int (window_size (nonces s)) = rq_nonce r mod int (window_size (nonces s))"
    and "abs (now2 - rq_timestamp_us r) \<le> max_time_drift_us s"
  shows "fst (intercept_payload verify now2 r (snd (intercept_payload verify now1 f
    (snd (intercept_payload verify now r s))))) = Ok VERIFIED"
proof -
  obtain v s1 where s1: "intercept_payload verify now r s = (v, s1)" by (cases "intercept_payload verify now r s")
  obtain v2 s2 where s2: "intercept_payload verify now1 f s1 = (v2, s2)" by (cases "intercept_payload verify now1 f s1")
  note st1 = intercept_state [OF assms(1) s1]
  then have i1: "ic_inv s1" by simp
  note st2 = intercept_state [OF i1 s2]
  have "authorized_keys s1 (rq_node f) \<noteq> None" using st1 assms(3) by simp
  then have "recorded (rq_nonce f) s2" using intercept_records [OF i1 s2] assms(5,6) by simp
  moreover have "slot_idx (nonces s2) (rq_nonce f) = slot_idx (nonces s2) (rq_nonce r)"
    using st1 st2 assms(7) by (simp add: slot_idx_def)
  ultimately have fresh: "\<not> recorded (rq_nonce r) s2" using assms(4) by (simp add: recorded_def)
  obtain k m where "authorized_keys s (rq_node r) = Some k" "message_block r = Ok m" "verify k (rq_signature r) m"
    using assms(2) by (auto simp: intercept_payload_def check_and_set_nonce_def Let_def
        split: option.splits if_splits sum.splits)
  with fresh st1 st2 assms(8) have "fst (intercept_payload verify now2 r s2) = Ok VERIFIED"
    by (auto simp: intercept_payload_def check_and_set_nonce_def recorded_def ic_inv_def Let_def)
  with s1 s2 show ?thesis by simp
qed

theorem replay_after_eviction_witness:
  "fst (intercept_payload demo_verify 0 demo_request (snd (intercept_payload demo_verify 0
      (demo_request\<lparr>rq_nonce := 5, rq_signature := []\<rparr>)
      (snd (intercept_payload demo_verify 0 demo_request demo_interceptor))))) = Ok VERIFIED"
  by (rule replay_after_eviction [OF demo_interceptor_inv])
    (simp_all add: demo_defs intercept_payload_def check_and_set_nonce_def slot_idx_def message_block_def
      unsigned_field_def py_trunc_def Let_def)

end
