(* ===== verification/Tenant_Broker.thy ===== *)
theory Tenant_Broker
  imports Prelude
begin

text \<open>
  \<^verbatim>\<open>tenant_config_broker.py\<close>: signature check, tier lookup and role-based routing of
  configuration requests. Base64 decoding with Ed25519 verification, and \<^verbatim>\<open>json.loads\<close>, are
  parameters; the three registered terminals are the code's. Logging is not modelled.
\<close>

section \<open>Tiers and the trust registry\<close>

datatype tier = DEFENSE_ADMIN | COMMERCIAL_OPERATOR | SYSTEM_AUDITOR | UNAUTHORIZED

text \<open>A registry entry: the terminal's public key and its tier.\<close>

type_synonym 'k registry = "string \<Rightarrow> ('k \<times> tier) option"

definition trust_registry :: "'k \<Rightarrow> 'k \<Rightarrow> 'k \<Rightarrow> 'k registry" where
  "trust_registry admin operator auditor =
     [''terminal_alpha_admin'' \<mapsto> (admin, DEFENSE_ADMIN),
      ''terminal_beta_operator'' \<mapsto> (operator, COMMERCIAL_OPERATOR),
      ''terminal_gamma_auditor'' \<mapsto> (auditor, SYSTEM_AUDITOR)]"

datatype check = Valid | Invalid | Malformed

text \<open>\<open>check key signature payload\<close> decodes and verifies; \<open>has_crypto\<close> is the import guard.\<close>

definition verify_request_signature :: "bool \<Rightarrow> 'k registry \<Rightarrow> ('k \<Rightarrow> string \<Rightarrow> string \<Rightarrow> check) \<Rightarrow>
    string \<Rightarrow> string \<Rightarrow> string \<Rightarrow> tier" where
  "verify_request_signature has_crypto registry chk terminal_id payload signature_b64 =
     (if \<not> has_crypto then UNAUTHORIZED
      else case registry terminal_id of
          None \<Rightarrow> UNAUTHORIZED
        | Some (pub_key, t) \<Rightarrow>
            (case chk pub_key signature_b64 payload of
               Valid \<Rightarrow> t | Invalid \<Rightarrow> UNAUTHORIZED | Malformed \<Rightarrow> UNAUTHORIZED))"

section \<open>Responses and handlers\<close>

type_synonym obj = "(string \<times> json) list"

definition get :: "obj \<Rightarrow> string \<Rightarrow> json \<Rightarrow> json" where
  "get d k dflt = (case map_of d k of Some v \<Rightarrow> v | None \<Rightarrow> dflt)"

definition error_response :: "string \<Rightarrow> obj" where
  "error_response reason = [(''status'', JStr ''error''), (''reason'', JStr reason)]"

definition refuse_action :: "string \<Rightarrow> json \<Rightarrow> obj" where
  "refuse_action reason action = error_response reason @ [(''action'', action)]"

definition success :: "json \<Rightarrow> obj \<Rightarrow> obj" where
  "success action extra = [(''status'', JStr ''success''), (''executed_action'', action)] @ extra"

definition admin_actions :: "json list" where
  "admin_actions = [JStr ''UPDATE_ARRAY_GEOMETRY'', JStr ''SET_SVD_WEIGHTS'', JStr ''UPDATE_GLRT_THRESHOLD'']"

definition operator_actions :: "json list" where
  "operator_actions = [JStr ''VIEW_TELEMETRY'', JStr ''TOGGLE_LOGGING_LEVEL'']"

definition auditor_actions :: "json list" where
  "auditor_actions = [JStr ''EXTRACT_WORM_LEDGER'']"

definition handle_defense_admin :: "json \<Rightarrow> obj \<Rightarrow> obj" where
  "handle_defense_admin action data =
     (if action \<notin> set admin_actions then refuse_action ''INVALID_ADMIN_ACTION'' action
      else if action = JStr ''UPDATE_GLRT_THRESHOLD''
        then success action [(''new_gamma'', get data ''gamma'' (JNum 50.17))]
      else success action [])"

definition handle_commercial_operator :: "json \<Rightarrow> obj \<Rightarrow> obj" where
  "handle_commercial_operator action data =
     (if action \<notin> set operator_actions then refuse_action ''UNAUTHORIZED_FOR_TIER'' action
      else if action = JStr ''TOGGLE_LOGGING_LEVEL''
        then success action [(''logging_level'', get data ''level'' (JStr ''INFO''))]
      else success action [])"

definition handle_system_auditor :: "json \<Rightarrow> obj \<Rightarrow> obj" where
  "handle_system_auditor action data =
     (if action \<notin> set auditor_actions then refuse_action ''UNAUTHORIZED_FOR_TIER'' action
      else if action = JStr ''EXTRACT_WORM_LEDGER''
        then success action [(''target_file'', get data ''target_file'' (JStr ''certin_incident_spoofing.json'')),
                             (''payload_ready'', JBool True)]
      else success action [])"

text \<open>
  The request's three fields with their defaults. \<open>loads\<close> is \<open>None\<close> on a \<^verbatim>\<open>JSONDecodeError\<close>; a
  document that is not an object has no \<^verbatim>\<open>get\<close>, and the exception leaves the handler.
\<close>

record config_request =
  terminal_id :: "string option"
  signature :: "string option"
  raw_payload :: "string option"

definition the_default :: "'a \<Rightarrow> 'a option \<Rightarrow> 'a" where
  "the_default d x = (case x of Some v \<Rightarrow> v | None \<Rightarrow> d)"

definition process_config_update :: "bool \<Rightarrow> 'k registry \<Rightarrow> ('k \<Rightarrow> string \<Rightarrow> string \<Rightarrow> check) \<Rightarrow>
    (string \<Rightarrow> json option) \<Rightarrow> config_request \<Rightarrow> fault + obj" where
  "process_config_update has_crypto registry chk loads r =
     (let raw_json_str = the_default ''{}'' (raw_payload r);
          t = verify_request_signature has_crypto registry chk (the_default '''' (terminal_id r)) raw_json_str
                (the_default '''' (signature r))
      in if t = UNAUTHORIZED then Ok (error_response ''UNAUTHORIZED_SIGNATURE_OR_TERMINAL'')
         else case loads raw_json_str of
             None \<Rightarrow> Ok (error_response ''MALFORMED_INNER_PAYLOAD'')
           | Some (JObj command_data) \<Rightarrow>
               let action = get command_data ''action'' (JStr '''') in
               Ok (case t of
                     DEFENSE_ADMIN \<Rightarrow> handle_defense_admin action command_data
                   | COMMERCIAL_OPERATOR \<Rightarrow> handle_commercial_operator action command_data
                   | SYSTEM_AUDITOR \<Rightarrow> handle_system_auditor action command_data
                   | UNAUTHORIZED \<Rightarrow> error_response ''CRITICAL_STATE_ERROR'')
           | Some _ \<Rightarrow> Fail AttributeError)"

section \<open>Specification: who may do what\<close>

fun allowed :: "tier \<Rightarrow> json set" where
  "allowed DEFENSE_ADMIN = set admin_actions"
| "allowed COMMERCIAL_OPERATOR = set operator_actions"
| "allowed SYSTEM_AUDITOR = set auditor_actions"
| "allowed UNAUTHORIZED = {}"

definition succeeded :: "obj \<Rightarrow> bool" where
  "succeeded resp \<longleftrightarrow> map_of resp ''status'' = Some (JStr ''success'')"

definition authorised :: "bool \<Rightarrow> 'k registry \<Rightarrow> ('k \<Rightarrow> string \<Rightarrow> string \<Rightarrow> check) \<Rightarrow> (string \<Rightarrow> json option) \<Rightarrow>
    config_request \<Rightarrow> bool" where
  "authorised has_crypto registry chk loads r \<longleftrightarrow> has_crypto \<and>
     (\<exists>k t d. registry (the_default '''' (terminal_id r)) = Some (k, t) \<and>
        chk k (the_default '''' (signature r)) (the_default ''{}'' (raw_payload r)) = Valid \<and>
        loads (the_default ''{}'' (raw_payload r)) = Some (JObj d) \<and> get d ''action'' (JStr '''') \<in> allowed t)"

lemma succeeded_error [simp]: "\<not> succeeded (error_response x)" "\<not> succeeded (refuse_action x a)"
  by (simp_all add: succeeded_def error_response_def refuse_action_def)

lemma succeeded_success [simp]: "succeeded (success a x)"
  by (simp add: succeeded_def success_def)

lemma succeeded_handlers [simp]:
  "succeeded (handle_defense_admin a d) \<longleftrightarrow> a \<in> allowed DEFENSE_ADMIN"
  "succeeded (handle_commercial_operator a d) \<longleftrightarrow> a \<in> allowed COMMERCIAL_OPERATOR"
  "succeeded (handle_system_auditor a d) \<longleftrightarrow> a \<in> allowed SYSTEM_AUDITOR"
  by (simp_all add: handle_defense_admin_def handle_commercial_operator_def handle_system_auditor_def)

lemma verified_tier:
  "verify_request_signature hc reg chk tid p sg = t \<Longrightarrow> t \<noteq> UNAUTHORIZED \<Longrightarrow>
   hc \<and> (\<exists>k. reg tid = Some (k, t) \<and> chk k sg p = Valid)"
  by (auto simp: verify_request_signature_def split: if_splits option.splits check.splits)

section \<open>Properties\<close>

text \<open>
  a configuration request is executed exactly when the cryptography is available, the
  terminal is registered, its signature is valid over the raw payload and the payload is an
  object whose action belongs to the terminal's tier; no other request yields a success.
\<close>

theorem rbac_exact:
  "(\<exists>resp. process_config_update hc reg chk loads r = Ok resp \<and> succeeded resp) \<longleftrightarrow>
   authorised hc reg chk loads r"
proof -
  let ?t = "verify_request_signature hc reg chk (the_default '''' (terminal_id r))
    (the_default ''{}'' (raw_payload r)) (the_default '''' (signature r))"
  show ?thesis
  proof (cases "?t = UNAUTHORIZED")
    case True
    then have "\<not> authorised hc reg chk loads r"
      by (auto simp: authorised_def verify_request_signature_def split: if_splits option.splits)
    with True show ?thesis by (simp add: process_config_update_def Let_def)
  next
    case False
    then obtain k where "hc" "reg (the_default '''' (terminal_id r)) = Some (k, ?t)"
      "chk k (the_default '''' (signature r)) (the_default ''{}'' (raw_payload r)) = Valid"
      using verified_tier by metis
    then have "authorised hc reg chk loads r \<longleftrightarrow> (\<exists>d. loads (the_default ''{}'' (raw_payload r)) = Some (JObj d) \<and>
        get d ''action'' (JStr '''') \<in> allowed ?t)"
      by (auto simp: authorised_def)
    with False show ?thesis
      by (cases ?t) (auto simp: process_config_update_def Let_def split: option.splits json.splits)
  qed
qed

end
