(* ===== verification/Resumption.thy ===== *)
theory Resumption
  imports Python_Text "HOL-Library.List_Lexorder" "HOL-Library.Multiset"
begin

text \<open>
  \<^verbatim>\<open>telemetry_resumption_protocol.py\<close>: resumption tokens, the server's bounded history with
  the catch-up query, and the client that suppresses duplicates and sorts what it shows.
  Dictionaries are payload maps; the wall clock is an argument.
\<close>

section \<open>Tokens\<close>

text \<open>Python's \<^verbatim>\<open>int(x)\<close> of a number truncates towards zero.\<close>

definition trunc :: "real \<Rightarrow> int" where
  "trunc x = (if x < 0 then \<lceil>x\<rceil> else \<lfloor>x\<rfloor>)"

definition token_text :: "int \<Rightarrow> int \<Rightarrow> string" where
  "token_text ms sq = str_int ms @ '':'' @ str_int sq"

text \<open>
  \<^verbatim>\<open>int(timestamp * 1000)\<close>, by the kind of the timestamp: numbers are scaled, a text or a list
  is repeated a thousand times, a dictionary cannot be multiplied.
\<close>

definition generate_token :: "int \<Rightarrow> json \<Rightarrow> fault + string" where
  "generate_token seq_num ts = (case ts of
       JNum r \<Rightarrow> Ok (token_text (trunc (r * 1000)) seq_num)
     | JInt i \<Rightarrow> Ok (token_text (i * 1000) seq_num)
     | JBool b \<Rightarrow> Ok (token_text (of_bool b * 1000) seq_num)
     | JStr s \<Rightarrow> (case parse_int (concat (replicate 1000 s)) of
                    Some i \<Rightarrow> Ok (token_text i seq_num) | None \<Rightarrow> Fail ValueError)
     | _ \<Rightarrow> Fail TypeError)"

definition parse_token :: "string \<Rightarrow> fault + (int \<times> int)" where
  "parse_token t = (case split_on (CHR '':'') t of
       [a, b] \<Rightarrow> (case parse_int a of None \<Rightarrow> Fail ValueError
                  | Some i \<Rightarrow> (case parse_int b of None \<Rightarrow> Fail ValueError | Some j \<Rightarrow> Ok (i, j)))
     | _ \<Rightarrow> Ok (0, 0))"

lemma parse_token_text [simp]: "parse_token (token_text ms sq) = Ok (ms, sq)"
  by (simp add: parse_token_def token_text_def split_on_once split_on_none str_int_no_colon)

section \<open>Server\<close>

record resumption_server =
  cache_limit :: nat
  history :: "payload list"
  sequence_counter :: nat

definition server_init :: "nat \<Rightarrow> resumption_server" where
  "server_init limit = \<lparr>cache_limit = limit, history = [], sequence_counter = 0\<rparr>"

text \<open>Truth of a value in \<^verbatim>\<open>x or y\<close>.\<close>

fun truthy :: "json \<Rightarrow> bool" where
  "truthy JNull = False"
| "truthy (JBool b) = b"
| "truthy (JInt i) = (i \<noteq> 0)"
| "truthy (JNum r) = (r \<noteq> 0)"
| "truthy (JStr s) = (s \<noteq> [])"
| "truthy (JList xs) = (xs \<noteq> [])"
| "truthy (JObj m) = (m \<noteq> [])"

definition frame_time :: "real \<Rightarrow> payload \<Rightarrow> json" where
  "frame_time now p = (case p ''timestamp'' of
       Some v \<Rightarrow> if truthy v then v else JNum now
     | None \<Rightarrow> JNum now)"

text \<open>A \<^verbatim>\<open>deque\<close> with a maximal length drops from the left.\<close>

definition deque_append :: "nat \<Rightarrow> 'a list \<Rightarrow> 'a \<Rightarrow> 'a list" where
  "deque_append limit q x = drop (length q + 1 - limit) (q @ [x])"

text \<open>The caller's dictionary is updated in place: it is the second component of the result.\<close>

definition cache_frame :: "real \<Rightarrow> payload \<Rightarrow> resumption_server \<Rightarrow>
    resumption_server \<times> (fault + (string \<times> payload))" where
  "cache_frame now p s =
     (let s1 = s\<lparr>sequence_counter := sequence_counter s + 1\<rparr>;
          n = sequence_counter s1
      in case generate_token (int n) (frame_time now p) of
           Fail e \<Rightarrow> (s1, Fail e)
         | Ok token \<Rightarrow>
             let p' = p(''resumption_token'' \<mapsto> JStr token, ''seq'' \<mapsto> JInt (int n))
             in (s1\<lparr>history := deque_append (cache_limit s) (history s) p'\<rparr>, Ok (token, p')))"

definition num_is :: "json option \<Rightarrow> int \<Rightarrow> bool" where
  "num_is v k = (case v of Some (JInt i) \<Rightarrow> i = k | Some (JNum r) \<Rightarrow> r = of_int k
                 | Some (JBool b) \<Rightarrow> of_bool b = k | _ \<Rightarrow> False)"

definition frame_is_critical :: "payload \<Rightarrow> bool" where
  "frame_is_critical f \<longleftrightarrow> num_is (f ''threat_state'') 3 \<or>
     f ''threat_verdict'' = Some (JStr ''CRITICAL_MITIGATION'')"

definition token_seq :: "payload \<Rightarrow> fault + int" where
  "token_seq f = (case f ''resumption_token'' of
       None \<Rightarrow> Fail KeyError
     | Some (JStr t) \<Rightarrow> seqE (parse_token t) (\<lambda>(f_ts, f_seq). Ok f_seq)
     | Some _ \<Rightarrow> Fail AttributeError)"

fun select_frames :: "int \<Rightarrow> bool \<Rightarrow> payload list \<Rightarrow> fault + payload list" where
  "select_frames last_seq only_critical [] = Ok []"
| "select_frames last_seq only_critical (f # fs) =
     seqE (token_seq f) (\<lambda>f_seq. seqE (select_frames last_seq only_critical fs) (\<lambda>rest.
       Ok (if last_seq < f_seq \<and> (\<not> only_critical \<or> frame_is_critical f) then f # rest else rest)))"

definition retrieve_catchup :: "string \<Rightarrow> bool \<Rightarrow> resumption_server \<Rightarrow> fault + payload list" where
  "retrieve_catchup last_token only_critical s =
     (if last_token = [] then Ok []
      else seqE (parse_token last_token) (\<lambda>(last_ts, last_seq).
             select_frames last_seq only_critical (history s)))"

section \<open>Client\<close>

text \<open>
  Sequence values are hashed: equal numbers of different types are one key, and lists and
  dictionaries have no hash.
\<close>

fun hash_key :: "json \<Rightarrow> json option" where
  "hash_key (JBool b) = Some (JInt (of_bool b))"
| "hash_key (JNum r) = Some (if r = of_int \<lfloor>r\<rfloor> then JInt \<lfloor>r\<rfloor> else JNum r)"
| "hash_key (JList xs) = None"
| "hash_key (JObj m) = None"
| "hash_key v = Some v"

record hud_client =
  seen_sequences :: "json set"
  reorder_buffer :: "payload list"

definition hud_init :: hud_client where
  "hud_init = \<lparr>seen_sequences = {}, reorder_buffer = []\<rparr>"

definition ingest_frame :: "payload \<Rightarrow> hud_client \<Rightarrow> fault + (hud_client \<times> bool)" where
  "ingest_frame f c = (case f ''seq'' of
       None \<Rightarrow> Ok (c, True)
     | Some JNull \<Rightarrow> Ok (c, True)
     | Some v \<Rightarrow> (case hash_key v of
           None \<Rightarrow> Fail TypeError
         | Some k \<Rightarrow> if k \<in> seen_sequences c then Ok (c, False)
             else Ok (c\<lparr>seen_sequences := insert k (seen_sequences c),
                        reorder_buffer := reorder_buffer c @ [f]\<rparr>, True)))"

text \<open>The sort key: numbers compare with numbers, texts with texts, and nothing across.\<close>

definition seq_num :: "payload \<Rightarrow> real option" where
  "seq_num f = (case f ''seq'' of
       None \<Rightarrow> Some 0 | Some (JInt i) \<Rightarrow> Some (of_int i) | Some (JNum r) \<Rightarrow> Some r
     | Some (JBool b) \<Rightarrow> Some (of_bool b) | _ \<Rightarrow> None)"

definition seq_text :: "payload \<Rightarrow> nat list option" where
  "seq_text f = (case f ''seq'' of Some (JStr s) \<Rightarrow> Some (map of_char s) | _ \<Rightarrow> None)"

definition sort_frames :: "payload list \<Rightarrow> fault + payload list" where
  "sort_frames fs =
     (if length fs \<le> 1 then Ok fs
      else if list_all (\<lambda>f. seq_num f \<noteq> None) fs then Ok (sort_key (\<lambda>f. the (seq_num f)) fs)
      else if list_all (\<lambda>f. seq_text f \<noteq> None) fs then Ok (sort_key (\<lambda>f. the (seq_text f)) fs)
      else Fail TypeError)"

definition flush_sorted_frames :: "hud_client \<Rightarrow> fault + (hud_client \<times> payload list)" where
  "flush_sorted_frames c =
     seqE (sort_frames (reorder_buffer c)) (\<lambda>flushed. Ok (c\<lparr>reorder_buffer := []\<rparr>, flushed))"

section \<open>Runs of the server and of the client\<close>

fun serve :: "(real \<times> payload) list \<Rightarrow> resumption_server \<Rightarrow>
    resumption_server \<times> (fault + (string \<times> payload)) list" where
  "serve [] s = (s, [])"
| "serve ((now, p) # ps) s =
     (let (s1, r) = cache_frame now p s; (s2, rs) = serve ps s1 in (s2, r # rs))"

text \<open>The frames that were really cached: a timestamp that is no number loses its frame.\<close>

definition stored :: "(fault + (string \<times> payload)) list \<Rightarrow> payload list" where
  "stored rs = concat (map (\<lambda>r. case r of Fail _ \<Rightarrow> [] | Ok (token, f) \<Rightarrow> [f]) rs)"

definition well_tagged :: "nat \<Rightarrow> string \<Rightarrow> payload \<Rightarrow> bool" where
  "well_tagged n token f \<longleftrightarrow> (\<exists>ms. token = token_text ms (int n)) \<and>
     f ''resumption_token'' = Some (JStr token) \<and> f ''seq'' = Some (JInt (int n))"

lemma stored_simps [simp]:
  "stored [] = []" "stored (Fail e # rs) = stored rs" "stored (Ok (t, f) # rs) = f # stored rs"
  "stored (rs @ rs') = stored rs @ stored rs'"
  by (simp_all add: stored_def)

lemma stored_mem: "f \<in> set (stored rs) \<longleftrightarrow> (\<exists>i t. i < length rs \<and> rs ! i = Ok (t, f))"
  by (auto simp: stored_def in_set_conv_nth split: sum.splits prod.splits) (metis nth_mem)+

lemma generate_token_Ok: "generate_token n ts = Ok t \<Longrightarrow> \<exists>ms. t = token_text ms n"
  by (auto simp: generate_token_def split: json.splits option.splits)

lemma cache_frame_cases:
  assumes "cache_frame now p s = (s1, r)"
  shows "sequence_counter s1 = Suc (sequence_counter s)" and "cache_limit s1 = cache_limit s"
    and "(\<exists>e. r = Fail e \<and> history s1 = history s) \<or>
      (\<exists>t f. r = Ok (t, f) \<and> well_tagged (Suc (sequence_counter s)) t f \<and>
         history s1 = deque_append (cache_limit s) (history s) f)"
  using assms generate_token_Ok
  by (force simp: cache_frame_def Let_def well_tagged_def split: sum.splits)+

lemma last_n_split: "last_n n (xs @ ys) = drop (length xs + length ys - n) xs @ last_n n ys"
  by (simp add: last_n_def)

lemma last_n_deque: "last_n n (deque_append n xs x @ ys) = last_n n (xs @ x # ys)"
proof (cases "n = 0")
  case False
  let ?a = "length xs + 1 - n"
  from False have "deque_append n xs x @ ys = drop ?a (xs @ x # ys)"
    by (simp add: deque_append_def)
  then show ?thesis using last_n_drop [of ?a "xs @ x # ys" n] by simp
qed (simp add: last_n_def deque_append_def)

lemma serve_history:
  assumes "serve ps s = (s', rs)" and "length (history s) \<le> cache_limit s"
  shows "history s' = last_n (cache_limit s) (history s @ stored rs)"
  using assms
proof (induction ps arbitrary: s rs)
  case Nil
  then show ?case by (simp add: last_n_def)
next
  case (Cons p ps)
  obtain now q where p: "p = (now, q)" by (cases p)
  obtain s1 r where step: "cache_frame now q s = (s1, r)" by fastforce
  with Cons.prems p obtain rs' where rest: "serve ps s1 = (s', rs')" "rs = r # rs'"
    by (auto split: prod.splits)
  have "length (history s1) \<le> cache_limit s1"
    using cache_frame_cases [OF step] Cons.prems by (auto simp: deque_append_def)
  from Cons.IH [OF rest(1) this] cache_frame_cases [OF step] rest(2) show ?case
    by (auto simp: last_n_deque)
qed

lemma serve_tagged:
  assumes "serve ps s = (s', rs)"
  shows "length rs = length ps"
    and "i < length rs \<Longrightarrow> rs ! i = Ok (t, f) \<Longrightarrow> well_tagged (sequence_counter s + Suc i) t f"
  using assms
proof (induction ps arbitrary: s rs i)
  case (Cons p ps)
  obtain now q where p: "p = (now, q)" by (cases p)
  { case 1
    with Cons.IH(1) p show ?case by (auto split: prod.splits) }
  { case 2
    obtain s1 r where step: "cache_frame now q s = (s1, r)" by fastforce
    obtain s2 rs' where "serve ps s1 = (s2, rs')" by fastforce
    with 2(3) p step have rest: "serve ps s1 = (s', rs')" "rs = r # rs'" by simp_all
    show ?case
    proof (cases i)
      case 0
      with 2 rest cache_frame_cases(3) [OF step] show ?thesis by auto
    next
      case (Suc j)
      with 2 rest Cons.IH(2) [of j rs' s1] cache_frame_cases(1) [OF step] show ?thesis by simp
    qed }
qed auto

lemma token_seq_tagged: "well_tagged n t f \<Longrightarrow> token_seq f = Ok (int n)"
  by (auto simp: well_tagged_def token_seq_def)

lemma select_frames_Ok:
  "(\<And>f. f \<in> set fs \<Longrightarrow> token_seq f = Ok (q f)) \<Longrightarrow>
   select_frames l oc fs = Ok (filter (\<lambda>f. l < q f \<and> (\<not> oc \<or> frame_is_critical f)) fs)"
  by (induction fs) auto

definition frame_no :: "payload \<Rightarrow> int" where
  "frame_no f = (case token_seq f of Ok n \<Rightarrow> n | Fail _ \<Rightarrow> 0)"

lemma stored_take_no:
  assumes "serve ps s = (s', rs)" and "f \<in> set (stored (take k rs))"
  shows "token_seq f = Ok (frame_no f)" and "frame_no f \<le> int (sequence_counter s + k)"
proof -
  from assms(2) obtain i t where "i < length rs" "i < k" "rs ! i = Ok (t, f)"
    by (auto simp: stored_mem)
  with serve_tagged(2) [OF assms(1)] token_seq_tagged
  have "token_seq f = Ok (int (sequence_counter s + Suc i))" by blast
  with \<open>i < k\<close> show "token_seq f = Ok (frame_no f)" "frame_no f \<le> int (sequence_counter s + k)"
    by (auto simp: frame_no_def)
qed

lemma stored_drop_no:
  assumes "serve ps s = (s', rs)" and "f \<in> set (stored (drop k rs))"
  shows "token_seq f = Ok (frame_no f)" and "int (sequence_counter s + k) < frame_no f"
proof -
  from assms(2) obtain i t where "i < length (drop k rs)" "drop k rs ! i = Ok (t, f)"
    by (auto simp: stored_mem)
  then have "k + i < length rs" "rs ! (k + i) = Ok (t, f)" by auto
  with serve_tagged(2) [OF assms(1)] token_seq_tagged
  have "token_seq f = Ok (int (sequence_counter s + Suc (k + i)))" by blast
  then show "token_seq f = Ok (frame_no f)" "int (sequence_counter s + k) < frame_no f"
    by (auto simp: frame_no_def)
qed

text \<open>One session of the display: frames arrive in any order, now and then it is redrawn.\<close>

datatype hud_event = Arrive payload | Redraw

fun hud_run :: "hud_event list \<Rightarrow> hud_client \<Rightarrow> fault + (hud_client \<times> payload list list)" where
  "hud_run [] c = Ok (c, [])"
| "hud_run (Arrive f # es) c = seqE (ingest_frame f c) (\<lambda>(c', new). hud_run es c')"
| "hud_run (Redraw # es) c = seqE (flush_sorted_frames c) (\<lambda>(c', out).
     seqE (hud_run es c') (\<lambda>(c'', outs). Ok (c'', out # outs)))"

definition seq_of :: "payload \<Rightarrow> int" where
  "seq_of f = (case f ''seq'' of Some (JInt i) \<Rightarrow> i | _ \<Rightarrow> 0)"

definition numbered :: "payload \<Rightarrow> bool" where
  "numbered f \<longleftrightarrow> (\<exists>i. f ''seq'' = Some (JInt i))"

fun arrivals :: "hud_event list \<Rightarrow> payload list" where
  "arrivals [] = []"
| "arrivals (Arrive f # es) = f # arrivals es"
| "arrivals (Redraw # es) = arrivals es"

lemma ingest_numbered:
  assumes "numbered f"
  shows "ingest_frame f c = Ok (if JInt (seq_of f) \<in> seen_sequences c then (c, False)
    else (c\<lparr>seen_sequences := insert (JInt (seq_of f)) (seen_sequences c),
            reorder_buffer := reorder_buffer c @ [f]\<rparr>, True))"
  using assms by (auto simp: numbered_def ingest_frame_def seq_of_def)

lemma sort_numbered:
  assumes "list_all numbered fs"
  obtains out where "sort_frames fs = Ok out" "mset out = mset fs" "sorted (map seq_of out)"
proof -
  let ?out = "sort_key (\<lambda>f. the (seq_num f)) fs"
  have key: "seq_num f = Some (real_of_int (seq_of f))" if "numbered f" for f
    using that by (auto simp: numbered_def seq_num_def seq_of_def)
  have "map (\<lambda>f. the (seq_num f)) ?out = map (\<lambda>f. real_of_int (seq_of f)) ?out"
    using assms key by (auto simp: list_all_iff)
  then have "sorted (map (\<lambda>f. real_of_int (seq_of f)) ?out)"
    using sorted_sort_key [of "\<lambda>f. the (seq_num f)" fs] by metis
  then have "sorted (map seq_of ?out)"
    by (simp add: sorted_wrt_map)
  moreover have "sort_frames fs = Ok ?out"
    using assms key by (cases fs; cases "tl fs") (auto simp: sort_frames_def list_all_iff)
  ultimately show thesis using that [of ?out] by simp
qed

text \<open>
  The invariant of the display: the seen keys are the sequence numbers of all frames shown or
  buffered so far, and each of these frames has its own number.
\<close>

definition hud_inv :: "payload list \<Rightarrow> hud_client \<Rightarrow> bool" where
  "hud_inv shown c \<longleftrightarrow> list_all numbered (reorder_buffer c) \<and>
     distinct (map seq_of (shown @ reorder_buffer c)) \<and>
     seen_sequences c = JInt ` seq_of ` set (shown @ reorder_buffer c)"

lemma hud_inv_ingest:
  assumes "hud_inv shown c" and "numbered f"
  obtains c' new where "ingest_frame f c = Ok (c', new)" "hud_inv shown c'"
    "seq_of ` set (shown @ reorder_buffer c') = insert (seq_of f) (seq_of ` set (shown @ reorder_buffer c))"
    "set (reorder_buffer c') \<subseteq> insert f (set (reorder_buffer c))"
proof (cases "JInt (seq_of f) \<in> seen_sequences c")
  case True
  then have "seq_of f \<in> seq_of ` set (shown @ reorder_buffer c)"
    using assms by (auto simp: hud_inv_def)
  with True assms that [of c False] show thesis by (auto simp: ingest_numbered insert_absorb)
next
  case False
  with assms show thesis
    by (intro that [OF ingest_numbered [OF assms(2), of c, simplified False if_False]])
      (auto simp: hud_inv_def)
qed

lemma hud_inv_flush:
  assumes "hud_inv shown c"
  obtains c' out where "flush_sorted_frames c = Ok (c', out)" "hud_inv (shown @ out) c'"
    "reorder_buffer c' = []" "set out = set (reorder_buffer c)" "sorted_wrt (<) (map seq_of out)"
proof -
  from assms obtain out where out: "sort_frames (reorder_buffer c) = Ok out"
    "mset out = mset (reorder_buffer c)" "sorted (map seq_of out)"
    using sort_numbered by (auto simp: hud_inv_def)
  then have set: "set out = set (reorder_buffer c)" by (metis set_mset_mset)
  have dist: "distinct (map seq_of out) = distinct (map seq_of (reorder_buffer c))"
    using out(2) by (metis mset_map distinct_count_atmost_1 set_mset_mset)
  with out(3) assms have "sorted_wrt (<) (map seq_of out)"
    by (simp add: strict_sorted_iff hud_inv_def)
  moreover have "hud_inv (shown @ out) (c\<lparr>reorder_buffer := []\<rparr>)"
    using assms dist set by (auto simp: hud_inv_def)
  ultimately show thesis using that out set by (simp add: flush_sorted_frames_def)
qed

lemma hud_run_inv:
  assumes "hud_inv shown c" and "list_all numbered (arrivals es)"
  shows "\<exists>c' outs. hud_run es c = Ok (c', outs) \<and> hud_inv (shown @ concat outs) c' \<and>
    (\<forall>out \<in> set outs. sorted_wrt (<) (map seq_of out)) \<and>
    seq_of ` set (concat outs @ reorder_buffer c') \<union> seq_of ` set shown =
      seq_of ` set (arrivals es) \<union> seq_of ` set (shown @ reorder_buffer c) \<and>
    set (concat outs @ reorder_buffer c') \<subseteq> set (arrivals es) \<union> set (reorder_buffer c)"
  using assms
proof (induction es arbitrary: shown c)
  case Nil
  then show ?case by auto
next
  case (Cons e es)
  show ?case
  proof (cases e)
    case (Arrive f)
    with Cons.prems obtain c1 new where 1: "ingest_frame f c = Ok (c1, new)" "hud_inv shown c1"
      "seq_of ` set (shown @ reorder_buffer c1) = insert (seq_of f) (seq_of ` set (shown @ reorder_buffer c))"
      "set (reorder_buffer c1) \<subseteq> insert f (set (reorder_buffer c))"
      using hud_inv_ingest [of shown c f] by auto
    from Cons.IH [OF 1(2)] Cons.prems Arrive obtain c' outs where
      "hud_run es c1 = Ok (c', outs)" "hud_inv (shown @ concat outs) c'"
      "\<forall>out \<in> set outs. sorted_wrt (<) (map seq_of out)"
      "seq_of ` set (concat outs @ reorder_buffer c') \<union> seq_of ` set shown =
        seq_of ` set (arrivals es) \<union> seq_of ` set (shown @ reorder_buffer c1)"
      "set (concat outs @ reorder_buffer c') \<subseteq> set (arrivals es) \<union> set (reorder_buffer c1)"
      by auto
    moreover from this(4) 1(3) have "seq_of ` set (concat outs @ reorder_buffer c') \<union> seq_of ` set shown =
        seq_of ` set (arrivals (Arrive f # es)) \<union> seq_of ` set (shown @ reorder_buffer c)"
      by simp
    ultimately show ?thesis using 1 Arrive by (intro exI [of _ c'] exI [of _ outs]) auto
  next
    case Redraw
    from Cons.prems obtain c1 out where 1: "flush_sorted_frames c = Ok (c1, out)"
      "hud_inv (shown @ out) c1" "reorder_buffer c1 = []" "set out = set (reorder_buffer c)"
      "sorted_wrt (<) (map seq_of out)"
      using hud_inv_flush by blast
    from Cons.IH [OF 1(2)] Cons.prems Redraw obtain c' outs where
      "hud_run es c1 = Ok (c', outs)" "hud_inv ((shown @ out) @ concat outs) c'"
      "\<forall>out \<in> set outs. sorted_wrt (<) (map seq_of out)"
      "seq_of ` set (concat outs @ reorder_buffer c') \<union> seq_of ` set (shown @ out) =
        seq_of ` set (arrivals es) \<union> seq_of ` set ((shown @ out) @ reorder_buffer c1)"
      "set (concat outs @ reorder_buffer c') \<subseteq> set (arrivals es) \<union> set (reorder_buffer c1)"
      by auto
    moreover from this(4) 1(3,4)
    have "seq_of ` set (concat (out # outs) @ reorder_buffer c') \<union> seq_of ` set shown =
        seq_of ` set (arrivals (Redraw # es)) \<union> seq_of ` set (shown @ reorder_buffer c)"
      by (simp add: image_Un Un_ac)
    ultimately show ?thesis using 1 Redraw
      by (intro exI [of _ c'] exI [of _ "out # outs"]) auto
  qed
qed

section \<open>Properties\<close>

text \<open>
  C15: whatever frames the server caches, a client that comes back with the token of any frame
  it once received gets exactly the critical frames dispatched after it, in order, from the
  last \<open>cache_limit\<close> frames dispatched since; nothing is returned twice, nothing critical
  inside that window is missing, and no token of the server makes the query fail.
\<close>

theorem catchup_complete:
  assumes run: "serve ps (server_init limit) = (s, rs)"
    and k: "k < length ps" and token: "rs ! k = Ok (token, f)"
  shows "retrieve_catchup token True s =
    Ok (filter frame_is_critical (last_n limit (stored (drop (Suc k) rs))))"
proof -
  have len: "length rs = length ps" using serve_tagged(1) [OF run] .
  have hist: "history s = last_n limit (stored (take (Suc k) rs) @ stored (drop (Suc k) rs))"
    using serve_history [OF run] stored_simps(4) [of "take (Suc k) rs" "drop (Suc k) rs"]
    by (simp add: server_init_def del: stored_simps(4))
  have nos: "token_seq g = Ok (frame_no g)" if "g \<in> set (history s)" for g
    using that stored_take_no(1) [OF run] stored_drop_no(1) [OF run]
    by (auto simp: hist last_n_split dest!: in_set_dropD) (auto simp: last_n_def dest: in_set_dropD)
  have old: "filter (\<lambda>g. int (Suc k) < frame_no g \<and> P g) (drop m (stored (take (Suc k) rs))) = []" for m P
    using stored_take_no(2) [OF run, of _ "Suc k"]
    by (force simp: filter_empty_conv server_init_def dest!: in_set_dropD)
  have new: "filter (\<lambda>g. int (Suc k) < frame_no g \<and> P g) (last_n limit (stored (drop (Suc k) rs))) =
      filter P (last_n limit (stored (drop (Suc k) rs)))" for P
    using stored_drop_no(2) [OF run, of _ "Suc k"]
    by (intro filter_cong) (auto simp: last_n_def server_init_def dest!: in_set_dropD)
  from serve_tagged(2) [OF run, of k token f] k len token
  obtain ms where "token = token_text ms (int (Suc k))"
    by (auto simp: well_tagged_def server_init_def)
  then show ?thesis
    using select_frames_Ok [of "history s" frame_no "int (Suc k)" True] nos old new
    by (simp add: retrieve_catchup_def hist last_n_split) (simp add: token_text_def)
qed

theorem catchup_complete_witness:
  "retrieve_catchup (token_text 1000 1) True (fst (serve
      [(0, [''timestamp'' \<mapsto> JInt 1]), (0, [''timestamp'' \<mapsto> JInt 2, ''threat_state'' \<mapsto> JInt 3]),
       (0, [''timestamp'' \<mapsto> JInt 3])] (server_init 2))) =
   Ok [[''timestamp'' \<mapsto> JInt 2, ''threat_state'' \<mapsto> JInt 3,
        ''resumption_token'' \<mapsto> JStr (token_text 2000 2), ''seq'' \<mapsto> JInt 2]]"
proof -
  let ?ps = "[(0, [''timestamp'' \<mapsto> JInt 1]), (0, [''timestamp'' \<mapsto> JInt 2, ''threat_state'' \<mapsto> JInt 3]),
    (0, [''timestamp'' \<mapsto> JInt 3])]"
  obtain s rs where run: "serve ?ps (server_init 2) = (s, rs)" by fastforce
  then have rs: "rs = [
      Ok (token_text 1000 1, [''timestamp'' \<mapsto> JInt 1, ''resumption_token'' \<mapsto> JStr (token_text 1000 1), ''seq'' \<mapsto> JInt 1]),
      Ok (token_text 2000 2, [''timestamp'' \<mapsto> JInt 2, ''threat_state'' \<mapsto> JInt 3,
        ''resumption_token'' \<mapsto> JStr (token_text 2000 2), ''seq'' \<mapsto> JInt 2]),
      Ok (token_text 3000 3, [''timestamp'' \<mapsto> JInt 3, ''resumption_token'' \<mapsto> JStr (token_text 3000 3), ''seq'' \<mapsto> JInt 3])]"
    by (auto simp: cache_frame_def server_init_def frame_time_def generate_token_def Let_def)
  have "retrieve_catchup (token_text 1000 1) True s =
      Ok (filter frame_is_critical (last_n 2 (stored (drop (Suc 0) rs))))"
    by (rule catchup_complete [OF run, of 0]) (simp_all add: rs)
  then have "retrieve_catchup (token_text 1000 1) True s =
      Ok [[''timestamp'' \<mapsto> JInt 2, ''threat_state'' \<mapsto> JInt 3,
        ''resumption_token'' \<mapsto> JStr (token_text 2000 2), ''seq'' \<mapsto> JInt 2]]"
    by (simp add: rs last_n_def frame_is_critical_def num_is_def)
  then show ?thesis unfolding run fst_conv .
qed

text \<open>
  C14: for every interleaving of arrivals (live, caught up, repeated or out of order) and
  redraws, the display never fails, shows or buffers each sequence number that arrived exactly
  once, shows only frames that arrived, and each redraw is strictly increasing.
\<close>

theorem display_exactly_once:
  assumes "list_all numbered (arrivals es)"
  shows "\<exists>c outs. hud_run es hud_init = Ok (c, outs) \<and>
    distinct (map seq_of (concat outs @ reorder_buffer c)) \<and>
    seq_of ` set (concat outs @ reorder_buffer c) = seq_of ` set (arrivals es) \<and>
    set (concat outs @ reorder_buffer c) \<subseteq> set (arrivals es) \<and>
    (\<forall>out \<in> set outs. sorted_wrt (<) (map seq_of out))"
proof -
  have "hud_inv [] hud_init" by (simp add: hud_inv_def hud_init_def)
  from hud_run_inv [OF this assms] show ?thesis by (auto simp: hud_inv_def hud_init_def)
qed

theorem display_exactly_once_witness:
  "\<exists>c outs. hud_run [Arrive [''seq'' \<mapsto> JInt 2], Arrive [''seq'' \<mapsto> JInt 1], Arrive [''seq'' \<mapsto> JInt 2], Redraw]
     hud_init = Ok (c, outs) \<and> seq_of ` set (concat outs @ reorder_buffer c) = {1, 2}"
proof -
  let ?es = "[Arrive [''seq'' \<mapsto> JInt 2], Arrive [''seq'' \<mapsto> JInt 1], Arrive [''seq'' \<mapsto> JInt 2], Redraw]"
  have "list_all numbered (arrivals ?es)" by (simp add: numbered_def)
  from display_exactly_once [OF this] obtain c outs where
    "hud_run ?es hud_init = Ok (c, outs)"
    "seq_of ` set (concat outs @ reorder_buffer c) = seq_of ` set (arrivals ?es)" by blast
  moreover have "seq_of ` set (arrivals ?es) = {1, 2}" by (auto simp: seq_of_def)
  ultimately show ?thesis by metis
qed

end
