(* ===== verification/Mitigation.thy ===== *)
theory Mitigation
  imports Prelude
begin

text \<open>
  The closed mitigation loop: \<^verbatim>\<open>anomaly_event_tagging.py\<close> packs a stride's indicators into an
  event tag, \<^verbatim>\<open>loopback_mitigation_controller.py\<close> turns tags and synchronisation states into
  actions, \<^verbatim>\<open>mitigation_hysteresis_filter.py\<close> debounces the actions, and
  \<^verbatim>\<open>dynamic_hysteresis_tuner.py\<close> chooses the debouncing windows. Integers of the compiled
  kernels are \<open>int\<close>, floats are exact reals without NaN.
\<close>

unbundle bit_operations_syntax

section \<open>Event tags\<close>

definition CODE_CLEAN_OPERATION :: int where "CODE_CLEAN_OPERATION = 0"
definition CODE_PURE_RF_DEGRADATION :: int where "CODE_PURE_RF_DEGRADATION = 1"
definition CODE_PURE_TRANSPORT_STALL :: int where "CODE_PURE_TRANSPORT_STALL = 2"
definition CODE_MIXED_FAULT_CONDITION :: int where "CODE_MIXED_FAULT_CONDITION = 3"
definition CODE_HANDOVER_IN_PROGRESS :: int where "CODE_HANDOVER_IN_PROGRESS = 4"

lemmas code_defs = CODE_CLEAN_OPERATION_def CODE_PURE_RF_DEGRADATION_def
  CODE_PURE_TRANSPORT_STALL_def CODE_MIXED_FAULT_CONDITION_def CODE_HANDOVER_IN_PROGRESS_def

record indicators =
  loopback_latency_s :: real
  dma_stall_flag :: int
  buf_occupancy :: real
  null_depth_db :: real
  handover_active :: int
  seq_idx :: int

definition rf_bad :: "indicators \<Rightarrow> bool" where
  "rf_bad x \<longleftrightarrow> null_depth_db x \<ge> -20"

definition dma_bad :: "indicators \<Rightarrow> bool" where
  "dma_bad x \<longleftrightarrow> dma_stall_flag x = 1 \<or> buf_occupancy x > 80"

definition transport_bad :: "indicators \<Rightarrow> bool" where
  "transport_bad x \<longleftrightarrow> loopback_latency_s x \<ge> 8 / 1000 \<or> dma_bad x"

definition classify :: "indicators \<Rightarrow> int" where
  "classify x = (if handover_active x = 1 then CODE_HANDOVER_IN_PROGRESS
     else if rf_bad x \<and> transport_bad x then CODE_MIXED_FAULT_CONDITION
     else if \<not> rf_bad x \<and> transport_bad x then CODE_PURE_TRANSPORT_STALL
     else if rf_bad x \<and> \<not> transport_bad x then CODE_PURE_RF_DEGRADATION
     else CODE_CLEAN_OPERATION)"

text \<open>The null depth, cut to a positive number of decibels below 100.\<close>

definition depth_field :: "real \<Rightarrow> int" where
  "depth_field db = \<lfloor>min (max (- db) 0) 100\<rfloor> AND 0xFFF"

definition generate_tag :: "indicators \<Rightarrow> int" where
  "generate_tag x =
     (let p_code = classify x AND 7;
          t_state = of_bool (loopback_latency_s x \<ge> 4 / 1000) AND 7;
          d_state = of_bool (dma_bad x) AND 7;
          r_state = of_bool (rf_bad x) AND 7;
          seq_field = seq_idx x AND 0xFF;
          db_val = depth_field (null_depth_db x)
      in push_bit 20 db_val OR push_bit 12 seq_field OR push_bit 9 r_state OR
         push_bit 6 d_state OR push_bit 3 t_state OR p_code)"

record tag_fields =
  primary_code :: int
  timing_state :: int
  dma_state :: int
  rf_state :: int
  seq_idx_lsb :: int
  null_depth :: int

definition unpack_tag :: "int \<Rightarrow> tag_fields" where
  "unpack_tag packed = \<lparr>primary_code = packed AND 7, timing_state = drop_bit 3 packed AND 7,
     dma_state = drop_bit 6 packed AND 7, rf_state = drop_bit 9 packed AND 7,
     seq_idx_lsb = drop_bit 12 packed AND 0xFF, null_depth = - (drop_bit 20 packed AND 0xFFF)\<rparr>"

lemma and_masks:
  "(x :: int) AND 7 = take_bit 3 x" "x AND 0xFF = take_bit 8 x" "x AND 0xFFF = take_bit 12 x"
proof -
  have "(7::int) = mask 3" "(0xFF::int) = mask 8" "(0xFFF::int) = mask 12"
    by (simp_all add: mask_eq_exp_minus_1)
  then show "x AND 7 = take_bit 3 x" "x AND 0xFF = take_bit 8 x" "x AND 0xFFF = take_bit 12 x"
    by (simp_all add: take_bit_eq_mask)
qed

text \<open>A field of a tag is read back from between its neighbours.\<close>

lemma unpack_fields:
  fixes p t d r s n :: int
  defines "tag \<equiv> push_bit 20 n OR push_bit 12 (take_bit 8 s) OR push_bit 9 (take_bit 3 r) OR
    push_bit 6 (take_bit 3 d) OR push_bit 3 (take_bit 3 t) OR take_bit 3 p"
  shows "take_bit 3 tag = take_bit 3 p" "take_bit 3 (drop_bit 3 tag) = take_bit 3 t"
    "take_bit 3 (drop_bit 6 tag) = take_bit 3 d" "take_bit 3 (drop_bit 9 tag) = take_bit 3 r"
    "take_bit 8 (drop_bit 12 tag) = take_bit 8 s" "take_bit 12 (drop_bit 20 tag) = take_bit 12 n"
  unfolding tag_def
  by (auto intro!: bit_eqI simp: bit_simps)

lemma tag_width:
  fixes p t d r s n :: int
  defines "tag \<equiv> push_bit 20 (take_bit 12 n) OR push_bit 12 (take_bit 8 s) OR push_bit 9 (take_bit 3 r) OR
    push_bit 6 (take_bit 3 d) OR push_bit 3 (take_bit 3 t) OR take_bit 3 p"
  shows "take_bit 32 tag = tag"
  unfolding tag_def by (simp add: take_bit_push_bit)

lemma depth_field_range: "0 \<le> depth_field db \<and> depth_field db \<le> 100"
proof -
  let ?v = "\<lfloor>min (max (- db) 0) 100\<rfloor>"
  have v: "0 \<le> ?v" "?v \<le> 100" by linarith+
  then have "take_bit 12 ?v = ?v" by (simp add: take_bit_int_eq_self)
  with v show ?thesis by (simp add: depth_field_def and_masks)
qed

lemma depth_field_floor: "- 100 \<le> db \<Longrightarrow> db \<le> 0 \<Longrightarrow> depth_field db = \<lfloor>- db\<rfloor>"
proof -
  assume "- 100 \<le> db" "db \<le> 0"
  then have "min (max (- db) 0) 100 = - db" by simp
  moreover have "0 \<le> \<lfloor>- db\<rfloor>" using \<open>db \<le> 0\<close> by simp
  moreover have "\<lfloor>- db\<rfloor> < 2 ^ 12" using \<open>- 100 \<le> db\<close> by simp
  ultimately show ?thesis by (simp add: depth_field_def and_masks take_bit_int_eq_self)
qed

lemma classify_range: "classify x \<in> {0..4}"
  by (simp add: classify_def code_defs)

lemma take_bit_classify [simp]: "take_bit 3 (classify x) = classify x"
  using classify_range [of x] by (simp add: take_bit_int_eq_self)

section \<open>Mitigation controller\<close>

definition ACTION_NO_ACTION :: int where "ACTION_NO_ACTION = 0"
definition ACTION_REDUCE_SAMPLE_RATE :: int where "ACTION_REDUCE_SAMPLE_RATE = 1"
definition ACTION_POSTPONE_HANDOVER :: int where "ACTION_POSTPONE_HANDOVER = 2"
definition ACTION_REDUCE_TRACKER_GAIN :: int where "ACTION_REDUCE_TRACKER_GAIN = 3"
definition ACTION_ESCALATE_TO_OPERATOR :: int where "ACTION_ESCALATE_TO_OPERATOR = 4"

lemmas action_defs = ACTION_NO_ACTION_def ACTION_REDUCE_SAMPLE_RATE_def
  ACTION_POSTPONE_HANDOVER_def ACTION_REDUCE_TRACKER_GAIN_def ACTION_ESCALATE_TO_OPERATOR_def

definition evaluate_mitigation_decision :: "int \<Rightarrow> real \<Rightarrow> int \<Rightarrow> int \<Rightarrow> int \<Rightarrow> int \<Rightarrow> int \<times> int \<times> int" where
  "evaluate_mitigation_decision sync_state drift_s event_tag handover consecutive_critical consecutive_slips =
     (let p_code = event_tag AND 7;
          new_critical = (if sync_state = 3 then consecutive_critical + 1 else max 0 (consecutive_critical - 1));
          new_slips = (if p_code = 2 \<or> sync_state = 2 then consecutive_slips + 1 else max 0 (consecutive_slips - 1));
          action = (if new_critical \<ge> 8 then ACTION_ESCALATE_TO_OPERATOR
                    else if new_slips \<ge> 3 then ACTION_REDUCE_SAMPLE_RATE
                    else if handover = 1 \<and> sync_state \<ge> 2 then ACTION_POSTPONE_HANDOVER
                    else if p_code = 1 \<and> \<bar>drift_s\<bar> > 3 / 1000 then ACTION_REDUCE_TRACKER_GAIN
                    else ACTION_NO_ACTION)
      in (action, new_critical, new_slips))"

record controller =
  ctl_history_len :: nat
  consecutive_critical :: int
  consecutive_slips :: int
  ctl_action_history :: "int list"
  ctl_history_idx :: nat

definition controller_init :: "nat \<Rightarrow> controller" where
  "controller_init n = \<lparr>ctl_history_len = n, consecutive_critical = 0, consecutive_slips = 0,
     ctl_action_history = replicate n 0, ctl_history_idx = 0\<rparr>"

text \<open>
  One stride of telemetry. The counters are saved before the action is recorded, and the
  history array is a numpy array: an index outside it raises.
\<close>

record stride =
  sync_state :: int
  drift_s :: real
  event_tag :: int
  stride_handover :: int

definition process_telemetry_stride :: "stride \<Rightarrow> controller \<Rightarrow> controller \<times> (fault + int)" where
  "process_telemetry_stride x c =
     (let (action, new_crit, new_slips) = evaluate_mitigation_decision (sync_state x) (drift_s x)
            (event_tag x) (stride_handover x) (consecutive_critical c) (consecutive_slips c);
          c1 = c\<lparr>consecutive_critical := new_crit, consecutive_slips := new_slips\<rparr>
      in if ctl_history_idx c < length (ctl_action_history c)
         then (c1\<lparr>ctl_action_history := (ctl_action_history c)[ctl_history_idx c := action],
                  ctl_history_idx := (ctl_history_idx c + 1) mod ctl_history_len c\<rparr>, Ok action)
         else (c1, Fail IndexError))"

section \<open>Hysteresis filter\<close>

text \<open>The scan backwards through the circular history; \<open>None\<close> is a read outside the array.\<close>

fun consecutive_from :: "int list \<Rightarrow> nat \<Rightarrow> nat \<Rightarrow> int \<Rightarrow> nat \<Rightarrow> fault + bool" where
  "consecutive_from hist len idx a 0 = Ok True"
| "consecutive_from hist len idx a (Suc w) =
     seqE (load hist idx) (\<lambda>h. if h \<noteq> a then Ok False
       else if len = 0 then Fail ZeroDivisionError
       else consecutive_from hist len ((idx + len - 1) mod len) a w)"

definition evaluate_hysteresis :: "int \<Rightarrow> int list \<Rightarrow> nat \<Rightarrow> nat \<Rightarrow> int \<Rightarrow> int \<Rightarrow> nat \<Rightarrow> nat \<Rightarrow>
    fault + (int list \<times> int \<times> nat \<times> int)" where
  "evaluate_hysteresis raw_action action_history history_idx history_len current_filtered_action
     action_duration up_window down_window =
     seqE (store action_history history_idx raw_action) (\<lambda>hist.
     seqE (if raw_action \<noteq> current_filtered_action then
             seqE (consecutive_from hist history_len history_idx raw_action
                     (if raw_action \<noteq> 0 then up_window else down_window)) (\<lambda>consecutive.
               Ok (if consecutive then (raw_action, 1) else (current_filtered_action, action_duration + 1)))
           else Ok (current_filtered_action, action_duration + 1)) (\<lambda>(new_action, duration).
     if history_len = 0 then Fail ZeroDivisionError
     else Ok (hist, new_action, (history_idx + 1) mod history_len, duration)))"

record hyst_filter =
  history_len :: nat
  up_window :: nat
  down_window :: nat
  action_history :: "int list"
  history_idx :: nat
  current_filtered_action :: int
  action_duration :: int

definition filter_init :: "nat \<Rightarrow> nat \<Rightarrow> nat \<Rightarrow> hyst_filter" where
  "filter_init n up down = \<lparr>history_len = n, up_window = up, down_window = down,
     action_history = replicate n 0, history_idx = 0, current_filtered_action = 0, action_duration = 0\<rparr>"

definition filter_action :: "int \<Rightarrow> hyst_filter \<Rightarrow> fault + (hyst_filter \<times> int)" where
  "filter_action raw f =
     seqE (evaluate_hysteresis raw (action_history f) (history_idx f) (history_len f)
             (current_filtered_action f) (action_duration f) (up_window f) (down_window f))
       (\<lambda>(hist, new_act, next_idx, duration).
          Ok (f\<lparr>action_history := hist, current_filtered_action := new_act, history_idx := next_idx,
                action_duration := duration\<rparr>, new_act))"

fun filter_all :: "int list \<Rightarrow> hyst_filter \<Rightarrow> fault + (hyst_filter \<times> int list)" where
  "filter_all [] f = Ok (f, [])"
| "filter_all (a # as) f = seqE (filter_action a f) (\<lambda>(f', out).
     seqE (filter_all as f') (\<lambda>(f'', outs). Ok (f'', out # outs)))"

section \<open>Window tuner\<close>

definition tune_hysteresis_windows :: "real \<Rightarrow> real \<Rightarrow> real \<Rightarrow> nat \<Rightarrow> nat \<Rightarrow> nat \<times> nat" where
  "tune_hysteresis_windows relock_time_ms interference_persistence handover_instability fallback_up fallback_down =
     (let down = (if relock_time_ms > 0 then
                    if relock_time_ms > 8 then 10 else if relock_time_ms > 4 then 7 else 4
                  else fallback_down);
          up = (if interference_persistence > 7 / 10 \<or> handover_instability > 6 / 10 then 6
                else if interference_persistence > 3 / 10 then 4 else 2)
      in (up, down))"

record tuner =
  fallback_up :: nat
  fallback_down :: nat
  active_up :: nat
  active_down :: nat

definition tuner_init :: "nat \<Rightarrow> nat \<Rightarrow> tuner" where
  "tuner_init up down = \<lparr>fallback_up = up, fallback_down = down, active_up = up, active_down = down\<rparr>"

definition tune_windows :: "real \<Rightarrow> real \<Rightarrow> real \<Rightarrow> tuner \<Rightarrow> tuner \<times> (nat \<times> nat)" where
  "tune_windows relock_time_ms persistence instability t =
     (let (up, down) = tune_hysteresis_windows relock_time_ms persistence instability
            (fallback_up t) (fallback_down t)
      in (t\<lparr>active_up := up, active_down := down\<rparr>, (up, down)))"

lemma tune_windows_range:
  "fst (snd (tune_windows r p i t)) \<in> {2, 4, 6}"
  "snd (snd (tune_windows r p i t)) \<in> {4, 7, 10, fallback_down t}"
  by (simp_all add: tune_windows_def tune_hysteresis_windows_def Let_def)

section \<open>Reference filter\<close>

text \<open>
  What the filter should do, over the list of past raw actions, newest first, with zeros before
  the first: follow the raw action once the whole window before it asked for the same.
\<close>

definition window_agrees :: "nat \<Rightarrow> int list \<Rightarrow> int \<Rightarrow> bool" where
  "window_agrees w past a \<longleftrightarrow> (\<forall>h \<in> set (take w (a # past @ replicate w 0)). h = a)"

fun debounced :: "nat \<Rightarrow> nat \<Rightarrow> int list \<Rightarrow> int \<Rightarrow> int list \<Rightarrow> int list" where
  "debounced up down past cur [] = []"
| "debounced up down past cur (a # as) =
     (let cur' = (if window_agrees (if a \<noteq> 0 then up else down) past a then a else cur)
      in cur' # debounced up down (a # past) cur' as)"

lemma back_index:
  assumes "j < n"
  shows "((i + n - 1) mod n + n - j) mod n = (i + n - Suc j) mod n"
proof -
  have "(i + n - 1) mod n + n - j = (i + n - 1) mod n + (n - j)" using assms by simp
  then have "((i + n - 1) mod n + n - j) mod n = (i + n - 1 + (n - j)) mod n"
    by (simp add: mod_add_left_eq)
  also have "i + n - 1 + (n - j) = i + n - Suc j + n" using assms by arith
  finally show ?thesis by simp
qed

lemma consecutive_from_Ok:
  assumes "i < n" and "length hist = n" and "w \<le> n"
  shows "consecutive_from hist n i a w = Ok (\<forall>j < w. hist ! ((i + n - j) mod n) = a)"
  using assms
proof (induction w arbitrary: i)
  case 0
  then show ?case by simp
next
  case (Suc w)
  let ?i = "(i + n - 1) mod n"
  have "consecutive_from hist n ?i a w = Ok (\<forall>j < w. hist ! ((?i + n - j) mod n) = a)"
    using Suc by (intro Suc.IH) auto
  also have "(\<forall>j < w. hist ! ((?i + n - j) mod n) = a) \<longleftrightarrow> (\<forall>j < w. hist ! ((i + n - Suc j) mod n) = a)"
    using Suc.prems back_index [of _ n i] by auto
  finally show ?case using Suc.prems by (auto simp: load_def All_less_Suc2)
qed

definition hist_inv :: "int list \<Rightarrow> hyst_filter \<Rightarrow> bool" where
  "hist_inv past f \<longleftrightarrow> 0 < history_len f \<and> length (action_history f) = history_len f \<and>
     history_idx f < history_len f \<and> up_window f \<le> history_len f \<and> down_window f \<le> history_len f \<and>
     (\<forall>j < history_len f. action_history f ! ((history_idx f + history_len f - Suc j) mod history_len f) =
        (past @ replicate (history_len f) 0) ! j)"

lemma back_neq:
  assumes "0 < j" "j < n" "i < n"
  shows "(i + n - j) mod n \<noteq> (i :: nat)"
proof (cases "j \<le> i")
  case True
  then have "(i + n - j) mod n = (i - j + n) mod n" by simp
  also have "\<dots> = i - j" using assms by simp
  finally show ?thesis using assms True by simp
qed (use assms in simp)

lemma read_stored:
  assumes "hist_inv past f" and j: "j < history_len f"
  shows "(action_history f)[history_idx f := a] ! ((history_idx f + history_len f - j) mod history_len f) =
    (a # past @ replicate (history_len f) 0) ! j"
proof (cases j)
  case 0
  with assms show ?thesis by (simp add: hist_inv_def)
next
  case (Suc k)
  with assms have "(history_idx f + history_len f - j) mod history_len f \<noteq> history_idx f"
    by (intro back_neq) (auto simp: hist_inv_def)
  with Suc assms show ?thesis by (simp add: hist_inv_def)
qed

lemma scan_agrees:
  assumes "hist_inv past f" and "w \<le> history_len f"
  shows "consecutive_from ((action_history f)[history_idx f := a]) (history_len f) (history_idx f) a w =
    Ok (window_agrees w past a)"
proof -
  let ?n = "history_len f" and ?i = "history_idx f" and ?h = "action_history f"
  have inv: "?i < ?n" "length ?h = ?n" using assms by (auto simp: hist_inv_def)
  have read: "?h[?i := a] ! ((?i + ?n - j) mod ?n) = (a # past @ replicate ?n 0) ! j" if "j < ?n" for j
    using read_stored [OF assms(1) that] .
  have "(\<forall>j < w. ?h[?i := a] ! ((?i + ?n - j) mod ?n) = a) \<longleftrightarrow>
      (\<forall>j < w. (a # past @ replicate ?n 0) ! j = a)"
    using read assms(2) by auto
  also have "\<dots> \<longleftrightarrow> (\<forall>j < w. take w (a # past @ replicate w 0) ! j = a)"
  proof -
    have "take (w - 1) (past @ replicate ?n 0) = take (w - 1) (past @ replicate w 0)"
      using assms(2) by (simp add: min_def) arith
    then have "take w (a # past @ replicate ?n 0) = take w (a # past @ replicate w 0)"
      by (simp add: take_Cons')
    then have "(a # past @ replicate ?n 0) ! j = take w (a # past @ replicate w 0) ! j" if "j < w" for j
      using that by (metis nth_take)
    then show ?thesis by auto
  qed
  also have "\<dots> \<longleftrightarrow> window_agrees w past a"
  proof -
    have "length (take w (a # past @ replicate w 0)) = w" by simp
    then show ?thesis by (simp only: window_agrees_def all_set_conv_all_nth)
  qed
  finally show ?thesis using consecutive_from_Ok [OF inv(1), of "?h[?i := a]" w a] inv assms(2) by simp
qed

lemma filter_action_ref:
  assumes "hist_inv past f"
  obtains f' cur where "filter_action a f = Ok (f', cur)" "hist_inv (a # past) f'"
    "cur = (if window_agrees (if a \<noteq> 0 then up_window f else down_window f) past a then a
            else current_filtered_action f)"
    "current_filtered_action f' = cur" "up_window f' = up_window f" "down_window f' = down_window f"
proof -
  let ?n = "history_len f" and ?i = "history_idx f" and ?h = "action_history f"
  let ?w = "if a \<noteq> 0 then up_window f else down_window f"
  have inv: "?i < ?n" "length ?h = ?n" "?w \<le> ?n" using assms by (auto simp: hist_inv_def)
  have next_hist: "?h[?i := a] ! (((?i + 1) mod ?n + ?n - Suc j) mod ?n) = ((a # past) @ replicate ?n 0) ! j"
    if j: "j < ?n" for j
  proof -
    have "((?i + 1) mod ?n + ?n - Suc j) mod ?n = (?i + ?n - j) mod ?n"
    proof -
      have "(?i + 1) mod ?n + ?n - Suc j = (?i + 1) mod ?n + (?n - Suc j)" using j by simp
      then have "((?i + 1) mod ?n + ?n - Suc j) mod ?n = (?i + 1 + (?n - Suc j)) mod ?n"
        by (simp only: mod_add_left_eq)
      also have "?i + 1 + (?n - Suc j) = ?i + ?n - j" using j by simp
      finally show ?thesis .
    qed
    with read_stored [OF assms j, of a] show ?thesis by simp
  qed
  show thesis
  proof (rule that)
    show "filter_action a f = Ok (f\<lparr>action_history := ?h[?i := a],
        current_filtered_action := (if window_agrees ?w past a then a else current_filtered_action f),
        history_idx := (?i + 1) mod ?n,
        action_duration := (if a \<noteq> current_filtered_action f \<and> window_agrees ?w past a then 1
          else action_duration f + 1)\<rparr>,
        if window_agrees ?w past a then a else current_filtered_action f)"
      using inv scan_agrees [OF assms, of ?w a]
      by (auto simp: filter_action_def evaluate_hysteresis_def store_def)
  qed (use assms inv next_hist in \<open>auto simp: hist_inv_def\<close>)
qed

lemma filter_all_ref:
  assumes "hist_inv past f"
  shows "\<exists>f'. filter_all as f =
    Ok (f', debounced (up_window f) (down_window f) past (current_filtered_action f) as)"
  using assms
proof (induction as arbitrary: past f)
  case Nil
  then show ?case by simp
next
  case (Cons a as)
  obtain f' cur where step: "filter_action a f = Ok (f', cur)" "hist_inv (a # past) f'"
    "cur = (if window_agrees (if a \<noteq> 0 then up_window f else down_window f) past a then a
            else current_filtered_action f)"
    "current_filtered_action f' = cur" "up_window f' = up_window f" "down_window f' = down_window f"
    using filter_action_ref [OF Cons.prems] .
  from Cons.IH [OF step(2)] step show ?case by (auto simp: Let_def)
qed

lemma hist_inv_init: "0 < n \<Longrightarrow> up \<le> n \<Longrightarrow> down \<le> n \<Longrightarrow> hist_inv [] (filter_init n up down)"
  by (simp add: hist_inv_def filter_init_def)

lemma debounced_append:
  "\<exists>cur'. debounced up down past cur (xs @ ys) =
     debounced up down past cur xs @ debounced up down (rev xs @ past) cur' ys"
proof (induction xs arbitrary: past cur)
  case Nil
  then show ?case by auto
next
  case (Cons x xs)
  from Cons.IH [of "x # past"] show ?case by (simp add: Let_def)
qed

lemma debounced_Nil_iff [simp]: "debounced up down past cur as = [] \<longleftrightarrow> as = []"
  by (cases as) (auto simp: Let_def)

lemma window_agrees_replicate:
  assumes "w \<le> Suc m"
  shows "window_agrees w (replicate m a @ past) a"
proof -
  have "a # (replicate m a @ past) @ replicate w 0 = replicate (Suc m) a @ past @ replicate w 0" by simp
  then have "take w (a # (replicate m a @ past) @ replicate w 0) = replicate w a"
    using assms by (simp only: take_append) (simp del: replicate.simps add: min_def)
  then show ?thesis by (simp add: window_agrees_def)
qed

lemma debounced_persistent:
  assumes "a \<noteq> 0" "up \<le> m + Suc k"
  shows "last (debounced up down (replicate m a @ past) cur (replicate (Suc k) a)) = a"
  using assms
proof (induction k arbitrary: m cur)
  case 0
  then show ?case using window_agrees_replicate [of up m a past] by simp
next
  case (Suc k)
  from Suc.IH [of "Suc m"] Suc.prems
  have "last (debounced up down (a # replicate m a @ past) c (replicate (Suc k) a)) = a" for c by simp
  moreover have "replicate (Suc (Suc k)) a = a # replicate (Suc k) a" by simp
  ultimately show ?case by (simp only: debounced.simps Let_def last_ConsR debounced_Nil_iff) simp
qed

section \<open>Runs of the controller\<close>

fun run_controller :: "stride list \<Rightarrow> controller \<Rightarrow> fault + (controller \<times> int list)" where
  "run_controller [] c = Ok (c, [])"
| "run_controller (x # xs) c = (case process_telemetry_stride x c of
     (c', Fail e) \<Rightarrow> Fail e
   | (c', Ok a) \<Rightarrow> seqE (run_controller xs c') (\<lambda>(c'', as). Ok (c'', a # as)))"

definition ctl_ok :: "controller \<Rightarrow> bool" where
  "ctl_ok c \<longleftrightarrow> length (ctl_action_history c) = ctl_history_len c \<and> ctl_history_idx c < ctl_history_len c \<and>
     0 \<le> consecutive_critical c \<and> 0 \<le> consecutive_slips c"

lemma ctl_ok_init: "0 < n \<Longrightarrow> ctl_ok (controller_init n)"
  by (simp add: ctl_ok_def controller_init_def)

lemma stride_step:
  assumes "ctl_ok c"
  obtains c' a where "process_telemetry_stride x c = (c', Ok a)" "ctl_ok c'"
    "sync_state x = 3 \<Longrightarrow> consecutive_critical c' = consecutive_critical c + 1"
    "consecutive_critical c' \<ge> 8 \<longleftrightarrow> a = ACTION_ESCALATE_TO_OPERATOR"
  using assms
  by (auto simp: process_telemetry_stride_def evaluate_mitigation_decision_def Let_def ctl_ok_def
      action_defs split: prod.splits if_splits intro!: that)

lemma run_desync:
  assumes "ctl_ok c" and "\<forall>x \<in> set xs. sync_state x = 3"
  shows "\<exists>c' as. run_controller xs c = Ok (c', as) \<and> length as = length xs \<and>
    (\<forall>i < length xs. 7 \<le> consecutive_critical c + int i \<longrightarrow> as ! i = ACTION_ESCALATE_TO_OPERATOR)"
  using assms
proof (induction xs arbitrary: c)
  case Nil
  then show ?case by simp
next
  case (Cons x xs)
  obtain c1 a where step: "process_telemetry_stride x c = (c1, Ok a)" "ctl_ok c1"
    "sync_state x = 3 \<Longrightarrow> consecutive_critical c1 = consecutive_critical c + 1"
    "consecutive_critical c1 \<ge> 8 \<longleftrightarrow> a = ACTION_ESCALATE_TO_OPERATOR"
    using stride_step [OF Cons.prems(1), of x] by blast
  from Cons.IH [OF step(2)] Cons.prems(2) obtain c' as where rest: "run_controller xs c1 = Ok (c', as)"
    "length as = length xs"
    "\<forall>i < length xs. 7 \<le> consecutive_critical c1 + int i \<longrightarrow> as ! i = ACTION_ESCALATE_TO_OPERATOR" by auto
  have "(a # as) ! i = ACTION_ESCALATE_TO_OPERATOR"
    if "i < length (x # xs)" "7 \<le> consecutive_critical c + int i" for i
    using that step rest Cons.prems(2) by (cases i) auto
  with step rest show ?case by auto
qed

section \<open>Properties\<close>

text \<open>
  every event tag unpacks to exactly the classification and the flags it was built from,
  the low eight bits of the sequence index and the null depth in whole decibels, and it fits
  into 32 bits.
\<close>

theorem tag_roundtrip:
  "unpack_tag (generate_tag x) = \<lparr>primary_code = classify x,
     timing_state = of_bool (loopback_latency_s x \<ge> 4 / 1000), dma_state = of_bool (dma_bad x),
     rf_state = of_bool (rf_bad x), seq_idx_lsb = seq_idx x mod 256,
     null_depth = - depth_field (null_depth_db x)\<rparr> \<and>
   0 \<le> generate_tag x \<and> generate_tag x < 2 ^ 32"
proof -
  have flag: "take_bit 3 (of_bool b) = (of_bool b :: int)" for b by (cases b) simp_all
  have depth: "take_bit 12 (depth_field d) = depth_field d" for d
    using depth_field_range [of d] by (simp add: take_bit_int_eq_self)
  let ?p = "classify x" and ?t = "of_bool (loopback_latency_s x \<ge> 4 / 1000) :: int"
    and ?d = "of_bool (dma_bad x) :: int" and ?r = "of_bool (rf_bad x) :: int"
    and ?s = "seq_idx x" and ?n = "depth_field (null_depth_db x)"
  have tag: "generate_tag x = push_bit 20 ?n OR push_bit 12 (take_bit 8 ?s) OR push_bit 9 (take_bit 3 ?r) OR
      push_bit 6 (take_bit 3 ?d) OR push_bit 3 (take_bit 3 ?t) OR take_bit 3 ?p"
    by (simp only: generate_tag_def Let_def and_masks)
  have "unpack_tag (generate_tag x) = \<lparr>primary_code = ?p, timing_state = ?t, dma_state = ?d, rf_state = ?r,
      seq_idx_lsb = take_bit 8 ?s, null_depth = - ?n\<rparr>"
    unfolding unpack_tag_def and_masks tag unpack_fields by (simp add: flag depth)
  moreover have "generate_tag x = take_bit 32 (generate_tag x)"
  proof -
    have n: "?n = take_bit 12 ?n" by (simp add: depth)
    show ?thesis unfolding tag by (subst (1 2) n) (rule tag_width [symmetric])
  qed
  moreover have "0 \<le> take_bit 32 (generate_tag x)" "take_bit 32 (generate_tag x) < 2 ^ 32"
    by (rule take_bit_nonnegative, rule take_bit_int_less_exp)
  ultimately show ?thesis by (simp add: take_bit_eq_mod)
qed

text \<open>
  C16: the filter over its circular history array is the reference filter: while both windows
  fit into the history, no sequence of raw actions reads or writes outside the array, and the
  output follows a raw action exactly when all actions of the window before it agree.
\<close>

theorem filter_refines_reference:
  assumes "0 < n" and "up \<le> n" and "down \<le> n"
  shows "\<exists>f. filter_all raws (filter_init n up down) = Ok (f, debounced up down [] 0 raws)"
  using filter_all_ref [OF hist_inv_init [OF assms], of raws] by (simp add: filter_init_def)

theorem filter_refines_reference_witness:
  "(\<exists>f. filter_all [1, 1, 1, 0] (filter_init 4 3 2) = Ok (f, debounced 3 2 [] 0 [1, 1, 1, 0])) \<and>
   debounced 3 2 [] 0 [1, 1, 1, 0] = [0, 0, 1, 1]"
  using filter_refines_reference [of 4 3 2 "[1, 1, 1, 0]"]
  by (simp add: window_agrees_def numeral_eq_Suc)

text \<open>
  whatever happened before, a loss of synchronisation that lasts seven strides and then as
  long as the filter's window is escalated: the controller's actions, passed through the
  filter, end in the escalation to the operator.
\<close>

theorem desync_escalates:
  assumes "ctl_ok c" and "hist_inv past f" and "\<forall>x \<in> set xs. sync_state x = 3"
    and len: "length xs = 7 + Suc k" and up: "up_window f \<le> Suc k"
  shows "\<exists>c' as f' outs. run_controller xs c = Ok (c', as) \<and> filter_all as f = Ok (f', outs) \<and>
    last outs = ACTION_ESCALATE_TO_OPERATOR"
proof -
  obtain c' as where run: "run_controller xs c = Ok (c', as)" and las: "length as = length xs"
    and esc: "\<forall>i < length xs. 7 \<le> consecutive_critical c + int i \<longrightarrow> as ! i = ACTION_ESCALATE_TO_OPERATOR"
    using run_desync [OF assms(1,3)] by blast
  have "0 \<le> consecutive_critical c" using assms(1) by (simp add: ctl_ok_def)
  then have "drop 7 as = replicate (Suc k) ACTION_ESCALATE_TO_OPERATOR"
    using esc las len by (intro nth_equalityI) (auto simp del: replicate.simps)
  then have split: "as = take 7 as @ replicate (Suc k) ACTION_ESCALATE_TO_OPERATOR"
    by (metis append_take_drop_id)
  obtain f' where out: "filter_all as f =
      Ok (f', debounced (up_window f) (down_window f) past (current_filtered_action f) as)"
    using filter_all_ref [OF assms(2)] by blast
  obtain cur where "debounced (up_window f) (down_window f) past (current_filtered_action f) as =
      debounced (up_window f) (down_window f) past (current_filtered_action f) (take 7 as) @
      debounced (up_window f) (down_window f) (rev (take 7 as) @ past) cur
        (replicate (Suc k) ACTION_ESCALATE_TO_OPERATOR)"
    using debounced_append split by metis
  moreover have "last (debounced (up_window f) (down_window f) (rev (take 7 as) @ past) cur
      (replicate (Suc k) ACTION_ESCALATE_TO_OPERATOR)) = ACTION_ESCALATE_TO_OPERATOR"
    using debounced_persistent [of ACTION_ESCALATE_TO_OPERATOR "up_window f" 0 k] up
    by (simp add: action_defs)
  ultimately have "last (debounced (up_window f) (down_window f) past (current_filtered_action f) as) =
      ACTION_ESCALATE_TO_OPERATOR" by simp
  with run out show ?thesis by blast
qed

theorem desync_escalates_witness:
  "\<exists>c' as f' outs. run_controller (replicate 10 \<lparr>sync_state = 3, drift_s = 0, event_tag = 0, stride_handover = 0\<rparr>)
       (controller_init 100) = Ok (c', as) \<and>
     filter_all as (filter_init 50 3 5) = Ok (f', outs) \<and> last outs = ACTION_ESCALATE_TO_OPERATOR"
  by (rule desync_escalates [OF ctl_ok_init hist_inv_init, where k = 2])
    (simp_all add: filter_init_def)

end
