(* ===== verification/Register_Actuator.thy ===== *)
theory Register_Actuator
  imports Prelude
begin

text \<open>
  \<^verbatim>\<open>sdr_register_actuator.py\<close>: the circular queue of register commands between the
  mitigation logic and the radio, with the safety interlock and the minimum write interval;
  and \<^verbatim>\<open>sdr_register_feedback_monitor.py\<close>, which waits for the radio to acknowledge them.
  The nanosecond clock is an argument.
\<close>

section \<open>Registers and commands\<close>

definition REG_SAMPLE_RATE :: int where "REG_SAMPLE_RATE = 0x10"
definition REG_HANDOVER_CTRL :: int where "REG_HANDOVER_CTRL = 0x20"
definition REG_TRACKER_GAIN :: int where "REG_TRACKER_GAIN = 0x30"
definition REG_SAFETY_INTERLOCK :: int where "REG_SAFETY_INTERLOCK = 0xF0"

lemmas reg_defs = REG_SAMPLE_RATE_def REG_HANDOVER_CTRL_def REG_TRACKER_GAIN_def REG_SAFETY_INTERLOCK_def

record command =
  address :: int
  cvalue :: int
  ts_ns :: int

definition no_command :: command where
  "no_command = \<lparr>address = 0, cvalue = 0, ts_ns = 0\<rparr>"

definition push_command :: "int \<Rightarrow> int \<Rightarrow> int \<Rightarrow> command list \<Rightarrow> nat \<Rightarrow> nat \<Rightarrow> fault + (command list \<times> nat)" where
  "push_command addr val ts queue q_write_idx q_len =
     seqE (store queue q_write_idx \<lparr>address = addr, cvalue = val, ts_ns = ts\<rparr>)
       (\<lambda>queue'. Ok (queue', (q_write_idx + 1) mod q_len))"

text \<open>The register file: values and the time of the last write of each register.\<close>

record reg_file =
  hardware_registers :: "int list"
  last_write_timestamps :: "int list"

text \<open>One turn of the queue loop; the second component says whether the write was applied.\<close>

definition apply_command :: "int \<Rightarrow> int \<Rightarrow> command \<Rightarrow> reg_file \<Rightarrow> reg_file \<times> bool" where
  "apply_command min_write_interval_ns interlock_active c rf =
     (let addr = address c in
      if addr < 0 \<or> addr \<ge> 256 then (rf, False)
      else if interlock_active = 1 \<and> addr \<noteq> REG_SAFETY_INTERLOCK then (rf, False)
      else if addr \<noteq> REG_SAFETY_INTERLOCK \<and>
              ts_ns c - last_write_timestamps rf ! nat addr < min_write_interval_ns then (rf, False)
      else (rf\<lparr>hardware_registers := (hardware_registers rf)[nat addr := cvalue c],
               last_write_timestamps := (last_write_timestamps rf)[nat addr := ts_ns c]\<rparr>, True))"

text \<open>
  The loop itself. It ends when the read index meets the write index; \<open>fuel\<close> bounds the turns,
  and \<open>None\<close> is a loop that has not ended yet.
\<close>

fun process_queue :: "nat \<Rightarrow> command list \<Rightarrow> nat \<Rightarrow> nat \<Rightarrow> nat \<Rightarrow> reg_file \<Rightarrow> int \<Rightarrow> int \<Rightarrow> nat \<Rightarrow>
    (fault + (nat \<times> nat \<times> reg_file)) option" where
  "process_queue fuel queue read_idx q_write_idx q_len rf interval interlock processed =
     (if read_idx = q_write_idx then Some (Ok (read_idx, processed, rf))
      else case fuel of
        0 \<Rightarrow> None
      | Suc fuel' \<Rightarrow>
          (case load queue read_idx of
             Fail e \<Rightarrow> Some (Fail e)
           | Ok c \<Rightarrow> (case apply_command interval interlock c rf of (rf', written) \<Rightarrow>
               process_queue fuel' queue ((read_idx + 1) mod q_len) q_write_idx q_len rf' interval interlock
                 (if written then processed + 1 else processed))))"

declare process_queue.simps [simp del]

record actuator =
  min_write_interval_ns :: int
  q_len :: nat
  command_queue :: "command list"
  q_read_idx :: nat
  q_write_idx :: nat
  reg_state :: reg_file

definition actuator_init :: "int \<Rightarrow> actuator" where
  "actuator_init interval_ns =
     \<lparr>min_write_interval_ns = interval_ns, q_len = 32, command_queue = replicate 32 no_command,
      q_read_idx = 0, q_write_idx = 0,
      reg_state = \<lparr>hardware_registers = (replicate 256 0)[nat REG_SAMPLE_RATE := 1,
          nat REG_HANDOVER_CTRL := 1, nat REG_TRACKER_GAIN := 819, nat REG_SAFETY_INTERLOCK := 0],
        last_write_timestamps = replicate 256 0\<rparr>\<rparr>"

text \<open>The action's register and value; other action codes push nothing.\<close>

definition action_command :: "int \<Rightarrow> (int \<times> int) option" where
  "action_command action_code =
     (if action_code = 1 then Some (REG_SAMPLE_RATE, 2)
      else if action_code = 2 then Some (REG_HANDOVER_CTRL, 0)
      else if action_code = 3 then Some (REG_TRACKER_GAIN, 204)
      else if action_code = 4 then Some (REG_SAFETY_INTERLOCK, 1)
      else None)"

definition push_reg :: "int \<Rightarrow> int \<Rightarrow> int \<Rightarrow> actuator \<Rightarrow> fault + actuator" where
  "push_reg addr val now a =
     seqE (push_command addr val now (command_queue a) (q_write_idx a) (q_len a))
       (\<lambda>(queue, w). Ok (a\<lparr>command_queue := queue, q_write_idx := w\<rparr>))"

definition push_mitigation_action :: "int \<Rightarrow> int \<Rightarrow> actuator \<Rightarrow> fault + (actuator \<times> nat)" where
  "push_mitigation_action now action_code a =
     (case action_command action_code of
        None \<Rightarrow> Ok (a, q_write_idx a)
      | Some (addr, val) \<Rightarrow> seqE (push_reg addr val now a) (\<lambda>a'. Ok (a', q_write_idx a')))"

definition run_queue :: "int \<Rightarrow> actuator \<Rightarrow> (fault + (actuator \<times> nat)) option" where
  "run_queue interlock a =
     map_option (\<lambda>r. seqE r (\<lambda>(rd, n, rf). Ok (a\<lparr>q_read_idx := rd, reg_state := rf\<rparr>, n)))
       (process_queue (q_len a) (command_queue a) (q_read_idx a) (q_write_idx a) (q_len a) (reg_state a)
          (min_write_interval_ns a) interlock 0)"

definition interlock_reg :: "actuator \<Rightarrow> int" where
  "interlock_reg a = hardware_registers (reg_state a) ! nat REG_SAFETY_INTERLOCK"

definition process_actuations :: "actuator \<Rightarrow> (fault + (actuator \<times> nat)) option" where
  "process_actuations a = run_queue (interlock_reg a) a"

definition clear_safety_interlock :: "int \<Rightarrow> actuator \<Rightarrow> (fault + (actuator \<times> nat)) option" where
  "clear_safety_interlock now a =
     (case push_reg REG_SAFETY_INTERLOCK 0 now a of
        Fail e \<Rightarrow> Some (Fail e)
      | Ok a' \<Rightarrow> run_queue 0 a')"

section \<open>Feedback monitor\<close>

definition STATUS_CLEAN :: int where "STATUS_CLEAN = 0"
definition STATUS_PENDING :: int where "STATUS_PENDING = 1"
definition STATUS_TIMEOUT :: int where "STATUS_TIMEOUT = 2"

text \<open>A row of the table of pending writes: register (-1 for none), acknowledgement, time.\<close>

record pending =
  reg_addr :: int
  ack_addr :: int
  write_ts :: int

record monitor =
  timeout_ns :: int
  pending_writes :: "pending list"

definition monitor_init :: "int \<Rightarrow> monitor" where
  "monitor_init timeout = \<lparr>timeout_ns = timeout, pending_writes =
     map (\<lambda>ack. \<lparr>reg_addr = -1, ack_addr = ack, write_ts = -1\<rparr>) [0x80, 0x81, 0x82, 0x83]\<rparr>"

definition pending_row :: "int \<Rightarrow> nat option" where
  "pending_row addr = (if addr = REG_SAMPLE_RATE then Some 0 else if addr = REG_HANDOVER_CTRL then Some 1
     else if addr = REG_TRACKER_GAIN then Some 2 else if addr = REG_SAFETY_INTERLOCK then Some 3 else None)"

definition register_write_issued :: "int \<Rightarrow> int \<Rightarrow> monitor \<Rightarrow> monitor" where
  "register_write_issued now addr m =
     (case pending_row addr of
        None \<Rightarrow> m
      | Some i \<Rightarrow> m\<lparr>pending_writes := (pending_writes m)[i :=
          (pending_writes m ! i)\<lparr>reg_addr := addr, write_ts := now\<rparr>]\<rparr>)"

fun check_rows :: "int list \<Rightarrow> int \<Rightarrow> int \<Rightarrow> int \<Rightarrow> pending list \<Rightarrow> pending list \<times> int" where
  "check_rows regs now timeout status [] = ([], status)"
| "check_rows regs now timeout status (p # ps) =
     (if reg_addr p = -1 then (case check_rows regs now timeout status ps of (ps', st) \<Rightarrow> (p # ps', st))
      else if regs ! nat (reg_addr p) = regs ! nat (ack_addr p)
        then (case check_rows regs now timeout status ps of (ps', st) \<Rightarrow> (p\<lparr>reg_addr := -1\<rparr> # ps', st))
      else (case check_rows regs now timeout
               (if now - write_ts p > timeout then STATUS_TIMEOUT
                else if status \<noteq> STATUS_TIMEOUT then STATUS_PENDING else status) ps of
              (ps', st) \<Rightarrow> (p # ps', st)))"

definition check_status :: "int \<Rightarrow> int list \<Rightarrow> monitor \<Rightarrow> monitor \<times> int" where
  "check_status now regs m =
     (case check_rows regs now (timeout_ns m) STATUS_CLEAN (pending_writes m) of
        (ps, st) \<Rightarrow> (m\<lparr>pending_writes := ps\<rparr>, st))"

definition waiting :: "int list \<Rightarrow> pending \<Rightarrow> bool" where
  "waiting regs p \<longleftrightarrow> reg_addr p \<noteq> -1 \<and> regs ! nat (reg_addr p) \<noteq> regs ! nat (ack_addr p)"

lemma check_rows_status:
  "snd (check_rows regs now timeout status ps) =
     (if status = STATUS_TIMEOUT \<or> (\<exists>p \<in> set ps. waiting regs p \<and> now - write_ts p > timeout) then STATUS_TIMEOUT
      else if \<exists>p \<in> set ps. waiting regs p then STATUS_PENDING else status)"
proof (induction ps arbitrary: status)
  case Nil
  then show ?case by simp
next
  case (Cons p ps)
  show ?case
  proof (cases "waiting regs p")
    case False
    then have "snd (check_rows regs now timeout status (p # ps)) = snd (check_rows regs now timeout status ps)"
      by (auto simp: waiting_def split_def)
    with Cons.IH [of status] False show ?thesis by (auto simp del: check_rows.simps)
  next
    case True
    let ?st = "if now - write_ts p > timeout then STATUS_TIMEOUT
      else if status \<noteq> STATUS_TIMEOUT then STATUS_PENDING else status"
    from True have "snd (check_rows regs now timeout status (p # ps)) = snd (check_rows regs now timeout ?st ps)"
      by (simp add: waiting_def split_def)
    with Cons.IH [of ?st] True show ?thesis
      by (auto simp: STATUS_TIMEOUT_def STATUS_PENDING_def simp del: check_rows.simps)
  qed
qed

section \<open>The queue as a list\<close>

definition backlog :: "nat \<Rightarrow> nat \<Rightarrow> nat \<Rightarrow> nat" where
  "backlog n r w = (w + n - r) mod n"

definition queued :: "'a list \<Rightarrow> nat \<Rightarrow> nat \<Rightarrow> 'a list" where
  "queued q r w = map (\<lambda>k. q ! ((r + k) mod length q)) [0..<backlog (length q) r w]"

lemma backlog_self [simp]: "r < n \<Longrightarrow> backlog n r r = 0"
  by (simp add: backlog_def)

lemma backlog_step:
  assumes "r < n" "w < n" "r \<noteq> w"
  shows "backlog n r w = Suc (backlog n ((r + 1) mod n) w)"
  using assms by (cases "Suc r = n"; cases "r < w") (auto simp: backlog_def mod_if)

lemma backlog_less: "0 < n \<Longrightarrow> backlog n r w < n"
  by (simp add: backlog_def)

lemma backlog_push:
  assumes "r < n" "w < n" "(w + 1) mod n \<noteq> r"
  shows "backlog n r ((w + 1) mod n) = Suc (backlog n r w)"
  using assms by (cases "Suc w = n"; cases "r \<le> w") (auto simp: backlog_def mod_if)

lemma queued_self [simp]: "r < length q \<Longrightarrow> queued q r r = []"
  by (simp add: queued_def)

lemma queued_step:
  assumes "r < length q" "w < length q" "r \<noteq> w"
  shows "queued q r w = q ! r # queued q ((r + 1) mod length q) w"
proof -
  let ?n = "length q"
  have "queued q r w = map (\<lambda>k. q ! ((r + k) mod ?n)) (0 # map Suc [0..<backlog ?n ((r + 1) mod ?n) w])"
    using backlog_step [OF assms] by (simp only: queued_def upt_conv_Cons map_Suc_upt zero_less_Suc)
  also have "\<dots> = q ! r # map (\<lambda>k. q ! ((r + Suc k) mod ?n)) [0..<backlog ?n ((r + 1) mod ?n) w]"
    using assms by simp
  also have "map (\<lambda>k. q ! ((r + Suc k) mod ?n)) [0..<backlog ?n ((r + 1) mod ?n) w] = queued q ((r + 1) mod ?n) w"
  proof -
    have "(r + Suc k) mod ?n = ((r + 1) mod ?n + k) mod ?n" for k
      unfolding mod_add_left_eq by simp
    then show ?thesis by (simp only: queued_def)
  qed
  finally show ?thesis .
qed

lemma queued_push:
  assumes "r < length q" "w < length q"
  shows "queued (q[w := x]) r ((w + 1) mod length q) =
    (if (w + 1) mod length q = r then [] else queued q r w @ [x])"
proof (cases "(w + 1) mod length q = r")
  case True
  with assms show ?thesis by simp
next
  case False
  let ?n = "length q" and ?u = "backlog (length q) r w"
  have last: "(r + ?u) mod ?n = w"
    using assms by (simp add: backlog_def mod_add_right_eq)
  have "w \<noteq> (r + k) mod ?n" if "k < ?u" for k
  proof -
    have "?u < ?n" by (rule backlog_less) (use assms in auto)
    with slots_differ [OF that this, of r] last show ?thesis by simp
  qed
  then have old: "map (\<lambda>k. q[w := x] ! ((r + k) mod ?n)) [0..<?u] = queued q r w"
    by (simp add: queued_def)
  from backlog_push [OF assms False] last assms show ?thesis
    using False old by (simp add: queued_def)
qed

section \<open>What the loop computes\<close>

fun apply_all :: "int \<Rightarrow> int \<Rightarrow> command list \<Rightarrow> reg_file \<Rightarrow> reg_file \<times> nat" where
  "apply_all interval interlock [] rf = (rf, 0)"
| "apply_all interval interlock (c # cs) rf =
     (case apply_command interval interlock c rf of (rf', written) \<Rightarrow>
        case apply_all interval interlock cs rf' of (rf'', k) \<Rightarrow> (rf'', if written then Suc k else k))"

lemma process_queue_all:
  assumes "r < length q" and "w < length q" and "backlog (length q) r w \<le> fuel"
  shows "process_queue fuel q r w (length q) rf interval interlock processed =
    Some (Ok (w, processed + snd (apply_all interval interlock (queued q r w) rf),
              fst (apply_all interval interlock (queued q r w) rf)))"
  using assms
proof (induction fuel arbitrary: r rf processed)
  case 0
  then have "r = w" using backlog_step [of r "length q" w] by (cases "r = w") auto
  with 0 show ?case by (simp add: process_queue.simps)
next
  case (Suc fuel)
  show ?case
  proof (cases "r = w")
    case True
    with Suc.prems show ?thesis by (simp add: process_queue.simps)
  next
    case False
    obtain rf' written where c: "apply_command interval interlock (q ! r) rf = (rf', written)" by fastforce
    let ?r = "(r + 1) mod length q"
    have "process_queue fuel q ?r w (length q) rf' interval interlock p =
        Some (Ok (w, p + snd (apply_all interval interlock (queued q ?r w) rf'),
              fst (apply_all interval interlock (queued q ?r w) rf')))" for p
    proof (rule Suc.IH)
      show "?r < length q" using Suc.prems(1) by (intro mod_less_divisor) linarith
    qed (use Suc.prems backlog_step [of r "length q" w] False in auto)
    with Suc.prems False c queued_step [of r q w] show ?thesis
      by (subst process_queue.simps) (simp add: load_def split_def)
  qed
qed

definition act_ok :: "actuator \<Rightarrow> bool" where
  "act_ok a \<longleftrightarrow> q_len a = 32 \<and> length (command_queue a) = 32 \<and> q_read_idx a < 32 \<and> q_write_idx a < 32 \<and>
     length (hardware_registers (reg_state a)) = 256 \<and> length (last_write_timestamps (reg_state a)) = 256"

definition commands :: "actuator \<Rightarrow> command list" where
  "commands a = queued (command_queue a) (q_read_idx a) (q_write_idx a)"

lemma act_ok_init: "act_ok (actuator_init interval)"
  by (simp add: act_ok_def actuator_init_def)

lemma commands_init [simp]: "commands (actuator_init interval) = []"
  by (simp add: commands_def actuator_init_def)

lemma length_commands: "length (commands a) = backlog (length (command_queue a)) (q_read_idx a) (q_write_idx a)"
  by (simp add: commands_def queued_def)

lemma full_iff:
  assumes "r < n" "w < n"
  shows "(w + 1) mod n = r \<longleftrightarrow> backlog n r w = n - 1"
proof
  assume "(w + 1) mod n = r"
  with assms show "backlog n r w = n - 1"
    by (cases "Suc w = n") (auto simp: backlog_def)
next
  assume full: "backlog n r w = n - 1"
  show "(w + 1) mod n = r"
  proof (rule ccontr)
    assume "(w + 1) mod n \<noteq> r"
    from backlog_push [OF assms this] full backlog_less [of n r "(w + 1) mod n"] assms show False by simp
  qed
qed

lemma push_reg_ok:
  assumes "act_ok a"
  obtains a' where "push_reg addr val now a = Ok a'" "act_ok a'" "reg_state a' = reg_state a"
    "min_write_interval_ns a' = min_write_interval_ns a"
    "commands a' = (if length (commands a) = 31 then []
       else commands a @ [\<lparr>address = addr, cvalue = val, ts_ns = now\<rparr>])"
proof -
  let ?c = "\<lparr>address = addr, cvalue = val, ts_ns = now\<rparr>"
  let ?a = "a\<lparr>command_queue := (command_queue a)[q_write_idx a := ?c],
    q_write_idx := (q_write_idx a + 1) mod 32\<rparr>"
  from assms have idx: "q_read_idx a < 32" "q_write_idx a < 32" "length (command_queue a) = 32"
    by (auto simp: act_ok_def)
  have "commands ?a = (if length (commands a) = 31 then [] else commands a @ [?c])"
    using queued_push [of "q_read_idx a" "command_queue a" "q_write_idx a" ?c]
      full_iff [of "q_read_idx a" 32 "q_write_idx a"] idx
    by (simp add: length_commands) (simp add: commands_def)
  moreover have "push_reg addr val now a = Ok ?a"
    using assms by (simp add: push_reg_def push_command_def store_def act_ok_def)
  moreover have "act_ok ?a" using assms by (simp add: act_ok_def)
  ultimately show thesis by (intro that [of ?a]) auto
qed

lemma apply_command_length [simp]:
  "length (hardware_registers (fst (apply_command iv il c rf))) = length (hardware_registers rf)"
  "length (last_write_timestamps (fst (apply_command iv il c rf))) = length (last_write_timestamps rf)"
  by (simp_all add: apply_command_def Let_def)

lemma apply_all_length [simp]:
  "length (hardware_registers (fst (apply_all iv il cs rf))) = length (hardware_registers rf)"
  "length (last_write_timestamps (fst (apply_all iv il cs rf))) = length (last_write_timestamps rf)"
  using apply_command_length
  by (induction cs arbitrary: rf) (auto simp: split_def)

lemma run_queue_ok:
  assumes "act_ok a"
  obtains a' where
    "run_queue il a = Some (Ok (a', snd (apply_all (min_write_interval_ns a) il (commands a) (reg_state a))))"
    "act_ok a'" "commands a' = []" "min_write_interval_ns a' = min_write_interval_ns a"
    "reg_state a' = fst (apply_all (min_write_interval_ns a) il (commands a) (reg_state a))"
proof -
  let ?rf = "fst (apply_all (min_write_interval_ns a) il (commands a) (reg_state a))"
  let ?a = "a\<lparr>q_read_idx := q_write_idx a, reg_state := ?rf\<rparr>"
  have "backlog 32 (q_read_idx a) (q_write_idx a) \<le> 32"
    using backlog_less [of 32] by (simp add: less_imp_le)
  then have "run_queue il a = Some (Ok (?a, snd (apply_all (min_write_interval_ns a) il (commands a) (reg_state a))))"
    using process_queue_all [of "q_read_idx a" "command_queue a" "q_write_idx a" 32 "reg_state a"] assms
    by (simp add: run_queue_def act_ok_def commands_def)
  moreover have "act_ok ?a" "commands ?a = []" using assms by (simp_all add: act_ok_def commands_def)
  ultimately show thesis by (intro that [of ?a]) auto
qed

text \<open>Two applied writes of one register are at least the minimum interval apart.\<close>

lemma write_spacing:
  assumes "apply_command interval il c rf = (rf', True)" and "address c \<noteq> REG_SAFETY_INTERLOCK"
  shows "interval \<le> ts_ns c - last_write_timestamps rf ! nat (address c)"
  using assms by (auto simp: apply_command_def Let_def split: if_splits)

section \<open>Reachable states\<close>

datatype act_op = Action int int | Process

fun act_run :: "act_op list \<Rightarrow> actuator \<Rightarrow> (fault + actuator) option" where
  "act_run [] a = Some (Ok a)"
| "act_run (Action now code # ops) a =
     (case push_mitigation_action now code a of
        Fail e \<Rightarrow> Some (Fail e) | Ok (a', w) \<Rightarrow> act_run ops a')"
| "act_run (Process # ops) a =
     (case process_actuations a of
        None \<Rightarrow> None | Some (Fail e) \<Rightarrow> Some (Fail e) | Some (Ok (a', n)) \<Rightarrow> act_run ops a')"

inductive act_reach :: "int \<Rightarrow> actuator \<Rightarrow> bool" for interval where
  reach_init: "act_reach interval (actuator_init interval)"
| reach_action: "act_reach interval a \<Longrightarrow> push_mitigation_action now code a = Ok (a', w) \<Longrightarrow> act_reach interval a'"
| reach_process: "act_reach interval a \<Longrightarrow> process_actuations a = Some (Ok (a', n)) \<Longrightarrow> act_reach interval a'"
| reach_clear: "act_reach interval a \<Longrightarrow> clear_safety_interlock now a = Some (Ok (a', n)) \<Longrightarrow> act_reach interval a'"

text \<open>Every queued command for the interlock register locks it.\<close>

definition only_locks :: "actuator \<Rightarrow> bool" where
  "only_locks a \<longleftrightarrow> (\<forall>c \<in> set (commands a). address c = REG_SAFETY_INTERLOCK \<longrightarrow> cvalue c = 1)"

lemma push_action_ok:
  assumes "act_ok a" and "only_locks a"
  obtains a' w where "push_mitigation_action now code a = Ok (a', w)" "act_ok a'" "only_locks a'"
    "reg_state a' = reg_state a"
proof (cases "action_command code")
  case None
  with assms that show thesis by (auto simp: push_mitigation_action_def)
next
  case (Some p)
  obtain addr val where p: "p = (addr, val)" by (cases p)
  from push_reg_ok [OF assms(1), of addr val now] obtain a' where a': "push_reg addr val now a = Ok a'" "act_ok a'"
    "reg_state a' = reg_state a" "commands a' = (if length (commands a) = 31 then []
       else commands a @ [\<lparr>address = addr, cvalue = val, ts_ns = now\<rparr>])" by metis
  have "addr = REG_SAFETY_INTERLOCK \<longrightarrow> val = 1"
    using Some p by (auto simp: action_command_def reg_defs split: if_splits)
  with a' assms(2) have "only_locks a'" by (auto simp: only_locks_def)
  with a' Some p that show thesis by (auto simp: push_mitigation_action_def)
qed

lemma act_reach_ok: "act_reach interval a \<Longrightarrow> act_ok a \<and> only_locks a"
proof (induction rule: act_reach.induct)
  case reach_init
  then show ?case by (simp add: act_ok_init only_locks_def)
next
  case (reach_action a now code a' w)
  then show ?case using push_action_ok [of a now code] by auto
next
  case (reach_process a a' n)
  then have "act_ok a" by simp
  then obtain a2 m where "run_queue (interlock_reg a) a = Some (Ok (a2, m))" "act_ok a2" "commands a2 = []"
    using run_queue_ok by blast
  with reach_process show ?case by (simp add: process_actuations_def only_locks_def)
next
  case (reach_clear a now a' n)
  from reach_clear obtain a1 where a1: "push_reg REG_SAFETY_INTERLOCK 0 now a = Ok a1" "act_ok a1"
    using push_reg_ok [of a REG_SAFETY_INTERLOCK 0 now] by metis
  obtain a2 m where "run_queue 0 a1 = Some (Ok (a2, m))" "act_ok a2" "commands a2 = []"
    using run_queue_ok [OF a1(2)] by blast
  with reach_clear a1 show ?case by (simp add: clear_safety_interlock_def only_locks_def)
qed

text \<open>With the interlock on, a batch of commands changes no register value.\<close>

lemma locked_batch:
  assumes "hardware_registers rf ! nat REG_SAFETY_INTERLOCK = 1"
    and "\<forall>c \<in> set cs. address c = REG_SAFETY_INTERLOCK \<longrightarrow> cvalue c = 1"
  shows "hardware_registers (fst (apply_all iv 1 cs rf)) = hardware_registers rf"
  using assms
proof (induction cs arbitrary: rf)
  case Nil
  then show ?case by simp
next
  case (Cons c cs)
  have "hardware_registers (fst (apply_command iv 1 c rf)) = hardware_registers rf"
    using Cons.prems list_update_id [of "hardware_registers rf" "nat REG_SAFETY_INTERLOCK"]
    by (auto simp: apply_command_def Let_def)
  with Cons.IH [of "fst (apply_command iv 1 c rf)"] Cons.prems show ?case by (simp add: split_def)
qed

lemma locked_run:
  assumes "act_ok a" and "only_locks a" and "interlock_reg a = 1"
  shows "\<exists>a'. act_run ops a = Some (Ok a') \<and>
    hardware_registers (reg_state a') = hardware_registers (reg_state a)"
  using assms
proof (induction ops arbitrary: a)
  case Nil
  then show ?case by simp
next
  case (Cons op ops)
  show ?case
  proof (cases op)
    case (Action now code)
    from push_action_ok [OF Cons.prems(1,2)] obtain a' w where a': "push_mitigation_action now code a = Ok (a', w)"
      "act_ok a'" "only_locks a'" "reg_state a' = reg_state a" by metis
    from Cons.IH [OF a'(2,3)] a' Cons.prems(3) Action show ?thesis by (auto simp: interlock_reg_def)
  next
    case Process
    from run_queue_ok [OF Cons.prems(1), of 1] obtain a' n where a': "run_queue 1 a = Some (Ok (a', n))"
      "act_ok a'" "commands a' = []"
      "reg_state a' = fst (apply_all (min_write_interval_ns a) 1 (commands a) (reg_state a))" by metis
    have regs: "hardware_registers (reg_state a') = hardware_registers (reg_state a)"
      using locked_batch [of "reg_state a" "commands a"] Cons.prems a'(4)
      by (simp add: interlock_reg_def only_locks_def)
    with a' have "only_locks a'" "interlock_reg a' = 1"
      using Cons.prems(3) by (auto simp: only_locks_def interlock_reg_def)
    from Cons.IH [OF a'(2) this] a' regs Cons.prems(3) Process show ?thesis
      by (auto simp: process_actuations_def)
  qed
qed

section \<open>Properties\<close>

text \<open>
  the interlock is a latch. From every reachable state whose interlock register is set, any
  sequence of mitigation actions and queue runs ends without a fault, without looping, and with
  every hardware register unchanged; only \<^verbatim>\<open>clear_safety_interlock\<close> unlocks.
\<close>

theorem interlock_latch:
  assumes "act_reach interval a" and "interlock_reg a = 1"
  shows "\<exists>a'. act_run ops a = Some (Ok a') \<and>
    hardware_registers (reg_state a') = hardware_registers (reg_state a)"
  using act_reach_ok [OF assms(1)] assms(2) by (intro locked_run) auto

theorem interlock_latch_witness:
  "\<exists>a. interlock_reg a = 1 \<and> (\<exists>a'. act_run [Action 7 1, Process, Action 8 2, Process] a = Some (Ok a') \<and>
     hardware_registers (reg_state a') = hardware_registers (reg_state a))"
proof -
  let ?c = "\<lparr>address = REG_SAFETY_INTERLOCK, cvalue = 1, ts_ns = 5\<rparr>"
  have reach0: "act_reach 10 (actuator_init 10)" by (rule reach_init)
  obtain a1 where a1: "push_reg REG_SAFETY_INTERLOCK 1 5 (actuator_init 10) = Ok a1" "act_ok a1"
    "reg_state a1 = reg_state (actuator_init 10)" "commands a1 = [?c]"
    using push_reg_ok [OF act_ok_init, of REG_SAFETY_INTERLOCK 1 5] by auto
  then have "push_mitigation_action 5 4 (actuator_init 10) = Ok (a1, q_write_idx a1)"
    by (simp add: push_mitigation_action_def action_command_def)
  with reach0 have reach1: "act_reach 10 a1" by (rule reach_action)
  obtain a2 n where a2: "run_queue (interlock_reg a1) a1 = Some (Ok (a2, n))"
    "reg_state a2 = fst (apply_all (min_write_interval_ns a1) (interlock_reg a1) [?c] (reg_state a1))"
    using run_queue_ok [OF a1(2)] a1(4) by metis
  with reach1 have reach2: "act_reach 10 a2"
    by (intro reach_process [of 10 a1 a2 n]) (simp_all add: process_actuations_def)
  have "length (hardware_registers (reg_state a1)) = 256" using a1(2) by (simp add: act_ok_def)
  then have "interlock_reg a2 = 1"
    using a2(2) by (simp add: interlock_reg_def [of a2] apply_command_def Let_def reg_defs)
  with interlock_latch [OF reach2 this] show ?thesis by blast
qed

text \<open>Sending one action a number of times.\<close>

lemma push_many:
  assumes "act_ok a" and "action_command code = Some (addr, val)" and "length (commands a) + k \<le> 31"
  shows "\<exists>a'. act_run (replicate k (Action now code)) a = Some (Ok a') \<and> act_ok a' \<and>
    reg_state a' = reg_state a \<and> length (commands a') = length (commands a) + k"
  using assms
proof (induction k arbitrary: a)
  case 0
  then show ?case by simp
next
  case (Suc k)
  from push_reg_ok [OF Suc.prems(1), of addr val now] Suc.prems(3) obtain a1 where a1:
    "push_reg addr val now a = Ok a1" "act_ok a1" "reg_state a1 = reg_state a"
    "commands a1 = commands a @ [\<lparr>address = addr, cvalue = val, ts_ns = now\<rparr>]" by auto
  with Suc.prems Suc.IH [of a1] show ?case by (auto simp: push_mitigation_action_def)
qed

lemma act_run_append:
  "act_run (xs @ ys) a = (case act_run xs a of Some (Ok a') \<Rightarrow> act_run ys a' | r \<Rightarrow> r)"
proof (induction xs arbitrary: a)
  case Nil
  then show ?case by simp
next
  case (Cons x xs)
  then show ?case by (cases x) (auto split: option.splits sum.splits)
qed

text \<open>
  the queue has no room check. When exactly 32 actions are issued between two queue runs,
  the write index meets the read index and every one of them is lost: the next queue run leaves
  the register file as it was, an escalation that should have set the interlock included.
\<close>

theorem queue_overrun:
  assumes "act_ok a" and "commands a = []" and "action_command code \<noteq> None"
  shows "\<exists>a'. act_run (replicate 32 (Action now code) @ [Process]) a = Some (Ok a') \<and>
    reg_state a' = reg_state a"
proof -
  from assms(3) obtain addr val where code: "action_command code = Some (addr, val)" by auto
  from push_many [OF assms(1) code, of 31] assms(2) obtain a1 where a1:
    "act_run (replicate 31 (Action now code)) a = Some (Ok a1)" "act_ok a1" "reg_state a1 = reg_state a"
    "length (commands a1) = 31" by auto
  from push_reg_ok [OF a1(2), of addr val now] a1(4) obtain a2 where a2:
    "push_reg addr val now a1 = Ok a2" "act_ok a2" "reg_state a2 = reg_state a1" "commands a2 = []" by metis
  from run_queue_ok [OF a2(2)] a2(4) obtain a3 n where a3:
    "run_queue (interlock_reg a2) a2 = Some (Ok (a3, n))" "reg_state a3 = reg_state a2" by (metis apply_all.simps(1) fst_conv)
  have "act_run (replicate 31 (Action now code) @ [Action now code, Process]) a = Some (Ok a3)"
    unfolding act_run_append using a1 a2 a3 code by (simp add: push_mitigation_action_def process_actuations_def)
  moreover have "replicate 32 (Action now code) @ [Process] = replicate 31 (Action now code) @ [Action now code, Process]"
    using replicate_append_same [of 31 "Action now code"] replicate_Suc [of 31 "Action now code"] by simp
  ultimately show ?thesis using a1 a2 a3 by auto
qed

theorem queue_overrun_witness:
  "\<exists>a'. act_run (replicate 32 (Action 5 4) @ [Process]) (actuator_init 10) = Some (Ok a') \<and>
     reg_state a' = reg_state (actuator_init 10)"
  by (rule queue_overrun) (simp_all add: act_ok_init action_command_def)

text \<open>
  Unlocking runs the whole queue with the interlock switched off: an action queued while the
  interlock was set is written to the radio when it is cleared.
\<close>

lemma clear_replays_locked_command:
  assumes "act_ok a" and "commands a = []"
    and "min_write_interval_ns a \<le> now - last_write_timestamps (reg_state a) ! nat REG_SAMPLE_RATE"
  shows "\<exists>a1 w a2 n. push_mitigation_action now 1 a = Ok (a1, w) \<and>
    clear_safety_interlock later a1 = Some (Ok (a2, n)) \<and>
    hardware_registers (reg_state a2) ! nat REG_SAMPLE_RATE = 2"
proof -
  let ?c1 = "\<lparr>address = REG_SAMPLE_RATE, cvalue = 2, ts_ns = now\<rparr>"
    and ?c2 = "\<lparr>address = REG_SAFETY_INTERLOCK, cvalue = 0, ts_ns = later\<rparr>"
  from push_reg_ok [OF assms(1), of REG_SAMPLE_RATE 2 now] assms(2) obtain a1 where a1:
    "push_reg REG_SAMPLE_RATE 2 now a = Ok a1" "act_ok a1" "reg_state a1 = reg_state a"
    "min_write_interval_ns a1 = min_write_interval_ns a" "commands a1 = [?c1]" by auto
  from push_reg_ok [OF a1(2), of REG_SAFETY_INTERLOCK 0 later] a1(5) obtain a2 where a2:
    "push_reg REG_SAFETY_INTERLOCK 0 later a1 = Ok a2" "act_ok a2" "reg_state a2 = reg_state a1"
    "min_write_interval_ns a2 = min_write_interval_ns a1" "commands a2 = [?c1, ?c2]" by auto
  from run_queue_ok [OF a2(2), of 0] obtain a3 n where a3: "run_queue 0 a2 = Some (Ok (a3, n))"
    "reg_state a3 = fst (apply_all (min_write_interval_ns a2) 0 [?c1, ?c2] (reg_state a2))"
    unfolding a2(5) by metis
  have "hardware_registers (reg_state a3) ! nat REG_SAMPLE_RATE = 2"
    using assms a1 a2 a3(2)
    by (simp add: apply_command_def Let_def reg_defs act_ok_def)
  with a1 a2 a3 show ?thesis
    by (simp add: push_mitigation_action_def clear_safety_interlock_def action_command_def)
qed

end
