(* ===== verification/Loopback_Monitor.thy ===== *)
theory Loopback_Monitor
  imports Prelude "HOL-Library.Multiset"
begin

text \<open>
  \<^verbatim>\<open>firmware_loopback_sync.py\<close>: the hardware-in-the-loop timing monitor, its stride kernel with
  the circular histories, the event counters and the metrics it reports. Floats are exact
  reals; the compiled kernel's array accesses can go out of bounds.
\<close>

definition STATE_NOMINAL :: int where "STATE_NOMINAL = 0"
definition STATE_WARNING :: int where "STATE_WARNING = 1"
definition STATE_CRITICAL :: int where "STATE_CRITICAL = 2"

definition EVENT_NONE :: int where "EVENT_NONE = 0"
definition EVENT_CLOCK_SLIP :: int where "EVENT_CLOCK_SLIP = 1"
definition EVENT_TRANSPORT_STALL :: int where "EVENT_TRANSPORT_STALL = 2"
definition EVENT_ABRUPT_HANDOVER :: int where "EVENT_ABRUPT_HANDOVER = 3"
definition EVENT_RECOVERY :: int where "EVENT_RECOVERY = 4"

lemmas state_defs = STATE_NOMINAL_def STATE_WARNING_def STATE_CRITICAL_def

record loopback_config =
  history_len :: nat
  drift_warning_s :: real
  drift_critical_s :: real
  latency_warning_s :: real
  latency_critical_s :: real
  slip_threshold_samples :: int
  continuity_gap_threshold :: int
  null_warning_db :: real
  null_critical_db :: real
  recovery_clear_count :: int
  warmup_strides :: int

definition default_config :: loopback_config where
  "default_config = \<lparr>history_len = 256, drift_warning_s = 25 / 10000, drift_critical_s = 5 / 1000,
     latency_warning_s = 4 / 1000, latency_critical_s = 8 / 1000, slip_threshold_samples = 2,
     continuity_gap_threshold = 1, null_warning_db = -20, null_critical_db = -10,
     recovery_clear_count = 8, warmup_strides = 16\<rparr>"

text \<open>The entries of the summary, counter and control arrays that the code uses, by name.\<close>

record loopback_sync =
  cfg :: loopback_config
  ts_sys_hist :: "real list"
  ts_sdr_hist :: "real list"
  latency_hist :: "real list"
  drift_hist :: "real list"
  null_db_hist :: "real list"
  seq_hist :: "int list"
  state_hist :: "int list"
  event_hist :: "int list"
  mean_drift :: real
  max_abs_drift :: real
  mean_latency :: real
  max_latency :: real
  min_null :: real
  slip_count :: nat
  stall_count :: nat
  handover_count :: nat
  recovery_count :: nat
  write_idx :: nat
  initialized :: bool
  prev_seq :: int
  clear_counter :: int
  total_strides :: nat

definition loopback_init :: "loopback_config \<Rightarrow> loopback_sync" where
  "loopback_init c = (let n = history_len c in
     \<lparr>cfg = c, ts_sys_hist = replicate n 0, ts_sdr_hist = replicate n 0, latency_hist = replicate n 0,
      drift_hist = replicate n 0, null_db_hist = replicate n 0, seq_hist = replicate n 0,
      state_hist = replicate n 0, event_hist = replicate n 0,
      mean_drift = 0, max_abs_drift = 0, mean_latency = 0, max_latency = 0, min_null = 0,
      slip_count = 0, stall_count = 0, handover_count = 0, recovery_count = 0,
      write_idx = 0, initialized = False, prev_seq = -1, clear_counter = 0, total_strides = 0\<rparr>)"

record timing =
  ts_sys_s :: real
  ts_sdr_s :: real
  seq_idx :: int
  loopback_latency_s :: real
  null_depth_db :: real
  handover_active :: int

section \<open>Classification of a stride\<close>

definition seq_gap :: "loopback_sync \<Rightarrow> timing \<Rightarrow> int" where
  "seq_gap m x = (if initialized m then if seq_idx x > prev_seq m then seq_idx x - prev_seq m - 1 else 0 else 0)"

definition threshold_state :: "loopback_config \<Rightarrow> timing \<Rightarrow> int" where
  "threshold_state c x = (let abs_drift = \<bar>ts_sys_s x - ts_sdr_s x\<bar> in
     if abs_drift \<ge> drift_critical_s c \<or> loopback_latency_s x \<ge> latency_critical_s c \<or>
        null_depth_db x \<ge> null_critical_db c then STATE_CRITICAL
     else if abs_drift \<ge> drift_warning_s c \<or> loopback_latency_s x \<ge> latency_warning_s c \<or>
        null_depth_db x \<ge> null_warning_db c then STATE_WARNING
     else STATE_NOMINAL)"

text \<open>The sequence gap overrides the state in both directions.\<close>

definition stride_state :: "loopback_config \<Rightarrow> int \<Rightarrow> timing \<Rightarrow> int" where
  "stride_state c gap x =
     (if gap \<ge> slip_threshold_samples c then STATE_CRITICAL
      else if gap \<ge> continuity_gap_threshold c then STATE_WARNING
      else threshold_state c x)"

definition stride_event :: "loopback_config \<Rightarrow> int \<Rightarrow> bool \<Rightarrow> timing \<Rightarrow> int" where
  "stride_event c gap recovered x =
     (if recovered then EVENT_RECOVERY
      else if loopback_latency_s x \<ge> latency_critical_s c then EVENT_TRANSPORT_STALL
      else if handover_active x = 1 then EVENT_ABRUPT_HANDOVER
      else if gap \<ge> slip_threshold_samples c then EVENT_CLOCK_SLIP
      else EVENT_NONE)"

section \<open>Window statistics\<close>

text \<open>The loop over the first \<open>k\<close> entries of the histories, with its accumulators.\<close>

record window_sums =
  sum_drift :: real
  top_drift :: real
  sum_latency :: real
  top_latency :: real
  low_null :: real

fun scan_window :: "nat \<Rightarrow> real list \<Rightarrow> real list \<Rightarrow> real list \<Rightarrow> nat \<Rightarrow> window_sums \<Rightarrow> fault + window_sums" where
  "scan_window i ds ls ns 0 s = Ok s"
| "scan_window i ds ls ns (Suc k) s =
     seqE (load ds i) (\<lambda>d. seqE (load ls i) (\<lambda>l. seqE (load ns i) (\<lambda>nd.
       scan_window (Suc i) ds ls ns k
         \<lparr>sum_drift = sum_drift s + d, top_drift = (if \<bar>d\<bar> > top_drift s then \<bar>d\<bar> else top_drift s),
          sum_latency = sum_latency s + l, top_latency = (if l > top_latency s then l else top_latency s),
          low_null = (if nd < low_null s then nd else low_null s)\<rparr>)))"

definition window_zero :: window_sums where
  "window_zero = \<lparr>sum_drift = 0, top_drift = 0, sum_latency = 0, top_latency = 0, low_null = 10 ^ 9\<rparr>"

section \<open>The stride kernel\<close>

record outcome =
  out_state :: int
  out_event :: int
  out_drift_s :: real
  continuity_gap :: int
  recovery_time_s :: real

text \<open>The eight histories with this stride's entries written at the write index.\<close>

record hist_write =
  w_ts_sys :: "real list"
  w_ts_sdr :: "real list"
  w_latency :: "real list"
  w_drift :: "real list"
  w_null :: "real list"
  w_seq :: "int list"
  w_state :: "int list"
  w_event :: "int list"

definition write_histories :: "timing \<Rightarrow> int \<Rightarrow> int \<Rightarrow> loopback_sync \<Rightarrow> fault + hist_write" where
  "write_histories x state event m =
     (let w = write_idx m in
      seqE (store (ts_sys_hist m) w (ts_sys_s x)) (\<lambda>h1.
      seqE (store (ts_sdr_hist m) w (ts_sdr_s x)) (\<lambda>h2.
      seqE (store (latency_hist m) w (loopback_latency_s x)) (\<lambda>h3.
      seqE (store (drift_hist m) w (ts_sys_s x - ts_sdr_s x)) (\<lambda>h4.
      seqE (store (null_db_hist m) w (null_depth_db x)) (\<lambda>h5.
      seqE (store (seq_hist m) w (seq_idx x)) (\<lambda>h6.
      seqE (store (state_hist m) w state) (\<lambda>h7.
      seqE (store (event_hist m) w event) (\<lambda>h8.
        Ok \<lparr>w_ts_sys = h1, w_ts_sdr = h2, w_latency = h3, w_drift = h4, w_null = h5, w_seq = h6,
            w_state = h7, w_event = h8\<rparr>)))))))))"

definition next_clear :: "int \<Rightarrow> loopback_sync \<Rightarrow> int" where
  "next_clear state m =
     (if state = STATE_NOMINAL \<and> int (total_strides m) \<ge> warmup_strides (cfg m) then clear_counter m + 1 else 0)"

text \<open>The counters, summary and control words after the stride.\<close>

definition next_state :: "timing \<Rightarrow> int \<Rightarrow> int \<Rightarrow> hist_write \<Rightarrow> window_sums \<Rightarrow> nat \<Rightarrow> nat \<Rightarrow> loopback_sync \<Rightarrow> loopback_sync" where
  "next_state x gap clear h s valid_len n m =
     m\<lparr>ts_sys_hist := w_ts_sys h, ts_sdr_hist := w_ts_sdr h, latency_hist := w_latency h,
       drift_hist := w_drift h, null_db_hist := w_null h, seq_hist := w_seq h, state_hist := w_state h,
       event_hist := w_event h,
       mean_drift := sum_drift s / of_nat valid_len, max_abs_drift := top_drift s,
       mean_latency := sum_latency s / of_nat valid_len, max_latency := top_latency s, min_null := low_null s,
       slip_count := slip_count m +
         (if gap \<ge> slip_threshold_samples (cfg m) \<or> gap \<ge> continuity_gap_threshold (cfg m) then 1 else 0),
       stall_count := stall_count m + (if loopback_latency_s x \<ge> latency_critical_s (cfg m) then 1 else 0),
       handover_count := handover_count m +
         (if \<not> loopback_latency_s x \<ge> latency_critical_s (cfg m) \<and> handover_active x = 1 then 1 else 0),
       recovery_count := recovery_count m + (if clear = recovery_clear_count (cfg m) then 1 else 0),
       write_idx := (write_idx m + 1) mod n, initialized := True, prev_seq := seq_idx x,
       clear_counter := clear, total_strides := total_strides m + 1\<rparr>"

definition evaluate_stride :: "timing \<Rightarrow> loopback_sync \<Rightarrow> fault + (loopback_sync \<times> outcome)" where
  "evaluate_stride x m =
     (let c = cfg m; n = length (ts_sys_hist m);
          gap = seq_gap m x;
          state = stride_state c gap x;
          clear = next_clear state m;
          recovered = (clear = recovery_clear_count c);
          event = stride_event c gap recovered x;
          valid_len = min (total_strides m + 1) n
      in seqE (write_histories x state event m) (\<lambda>h.
         seqE (scan_window 0 (w_drift h) (w_latency h) (w_null h) valid_len window_zero) (\<lambda>s.
           if valid_len = 0 then Fail ZeroDivisionError
           else Ok (next_state x gap clear h s valid_len n m,
                    \<lparr>out_state = state, out_event = event, out_drift_s = ts_sys_s x - ts_sdr_s x,
                     continuity_gap = gap,
                     recovery_time_s = (if recovered then of_int (recovery_clear_count c) * loopback_latency_s x
                                        else -1)\<rparr>))))"

section \<open>Metrics\<close>

record loopback_metrics =
  m_total_strides :: real
  nominal_fraction :: real
  warning_fraction :: real
  critical_fraction :: real
  m_mean_drift :: real
  m_max_abs_drift :: real
  m_mean_latency :: real
  m_max_latency :: real
  m_min_null :: real
  m_counts :: "nat list"

definition state_share :: "int \<Rightarrow> loopback_sync \<Rightarrow> real" where
  "state_share v m = of_nat (count_list (state_hist m) v) / of_nat (max (total_strides m) 1)"

definition metrics :: "loopback_sync \<Rightarrow> loopback_metrics" where
  "metrics m = \<lparr>m_total_strides = of_nat (max (total_strides m) 1),
     nominal_fraction = state_share STATE_NOMINAL m, warning_fraction = state_share STATE_WARNING m,
     critical_fraction = state_share STATE_CRITICAL m, m_mean_drift = mean_drift m,
     m_max_abs_drift = max_abs_drift m, m_mean_latency = mean_latency m, m_max_latency = max_latency m,
     m_min_null = min_null m,
     m_counts = [slip_count m, stall_count m, handover_count m, recovery_count m]\<rparr>"

fun evaluate_all :: "timing list \<Rightarrow> loopback_sync \<Rightarrow> fault + (loopback_sync \<times> outcome list)" where
  "evaluate_all [] m = Ok (m, [])"
| "evaluate_all (x # xs) m = seqE (evaluate_stride x m) (\<lambda>(m', out).
     seqE (evaluate_all xs m') (\<lambda>(m'', outs). Ok (m'', out # outs)))"

section \<open>Invariant\<close>

abbreviation stride_drift :: "timing \<Rightarrow> real" where
  "stride_drift x \<equiv> ts_sys_s x - ts_sdr_s x"

definition monitor_inv :: "loopback_config \<Rightarrow> timing list \<Rightarrow> loopback_sync \<Rightarrow> bool" where
  "monitor_inv c xs m \<longleftrightarrow> cfg m = c \<and> write_idx m = length xs mod history_len c \<and> total_strides m = length xs \<and>
     length (ts_sys_hist m) = history_len c \<and> length (ts_sdr_hist m) = history_len c \<and>
     length (seq_hist m) = history_len c \<and> length (event_hist m) = history_len c \<and>
     length (state_hist m) = history_len c \<and> set (state_hist m) \<subseteq> {STATE_NOMINAL, STATE_WARNING, STATE_CRITICAL} \<and>
     ring_holds (history_len c) (drift_hist m) (map stride_drift xs) \<and>
     ring_holds (history_len c) (latency_hist m) (map loopback_latency_s xs) \<and>
     ring_holds (history_len c) (null_db_hist m) (map null_depth_db xs)"

text \<open>What the summary says of a window of strides.\<close>

definition summarises :: "loopback_sync \<Rightarrow> timing list \<Rightarrow> bool" where
  "summarises m ys \<longleftrightarrow>
     mean_drift m = sum_list (map stride_drift ys) / of_nat (length ys) \<and>
     max_abs_drift m = Max (insert 0 ((\<lambda>x. \<bar>stride_drift x\<bar>) ` set ys)) \<and>
     mean_latency m = sum_list (map loopback_latency_s ys) / of_nat (length ys) \<and>
     max_latency m = Max (insert 0 (loopback_latency_s ` set ys)) \<and>
     min_null m = Min (insert (10 ^ 9) (null_depth_db ` set ys))"

lemma monitor_inv_init: "0 < history_len c \<Longrightarrow> monitor_inv c [] (loopback_init c)"
  by (auto simp: monitor_inv_def loopback_init_def Let_def ring_holds_init STATE_NOMINAL_def)

lemma scan_window_eq:
  assumes "i + k \<le> length ds" "i + k \<le> length ls" "i + k \<le> length ns"
  shows "scan_window i ds ls ns k s = Ok
    \<lparr>sum_drift = sum_drift s + sum_list (take k (drop i ds)),
     top_drift = fold max (map abs (take k (drop i ds))) (top_drift s),
     sum_latency = sum_latency s + sum_list (take k (drop i ls)),
     top_latency = fold max (take k (drop i ls)) (top_latency s),
     low_null = fold min (take k (drop i ns)) (low_null s)\<rparr>"
  using assms
proof (induction k arbitrary: i s)
  case 0
  then show ?case by simp
next
  case (Suc k)
  have step: "take (Suc k) (drop i zs) = zs ! i # take k (drop (Suc i) zs)" if "i + Suc k \<le> length zs" for zs :: "real list"
    using that by (simp add: Cons_nth_drop_Suc [symmetric])
  from Suc show ?case by (simp add: load_def step max_def min_def)
qed

lemma fold_max_Max: "fold max xs (a :: real) = Max (insert a (set xs))"
  using Max.set_eq_fold [of a xs] by simp

lemma fold_min_Min: "fold min xs (a :: real) = Min (insert a (set xs))"
  using Min.set_eq_fold [of a xs] by simp

text \<open>The part of a circular history that is in use is the window, up to order.\<close>

lemma ring_window:
  assumes "ring_holds n h ys" and "0 < n"
  shows "mset (take (min (length ys) n) h) = mset (last_n n ys)"
proof (cases "length ys < n")
  case True
  with assms show ?thesis by (simp add: ring_holds_def last_n_short)
next
  case False
  then have "drop (length ys mod n) h @ take (length ys mod n) h = last_n n ys" "length h = n"
    using assms by (auto simp: ring_holds_def)
  moreover have "mset (drop k h @ take k h) = mset h" for k
    by (metis append_take_drop_id mset_append union_commute)
  ultimately show ?thesis using False by (metis min.absorb2 not_less order_refl take_all)
qed

lemma sum_list_window:
  assumes "mset us = mset vs"
  shows "sum_list us = sum_list (vs :: real list)" and "set us = set vs" and "length us = length vs"
  using assms by (metis sum_mset_sum_list, metis set_mset_mset, metis size_mset)

lemma stride_state_range: "stride_state c g x \<in> {STATE_NOMINAL, STATE_WARNING, STATE_CRITICAL}"
  by (simp add: stride_state_def threshold_state_def Let_def)

lemma evaluate_stride_ok:
  assumes inv: "monitor_inv c xs m" and n: "0 < history_len c"
  obtains m' out where "evaluate_stride x m = Ok (m', out)" "monitor_inv c (xs @ [x]) m'"
    "summarises m' (last_n (history_len c) (xs @ [x]))"
proof -
  let ?n = "history_len c" and ?w = "write_idx m"
  have w: "?w < ?n" "?w = length xs mod ?n" using inv n by (auto simp: monitor_inv_def)
  define ds where "ds = (drift_hist m)[?w := stride_drift x]"
  define ls where "ls = (latency_hist m)[?w := loopback_latency_s x]"
  define ns where "ns = (null_db_hist m)[?w := null_depth_db x]"
  have hist: "ring_holds ?n ds (map stride_drift (xs @ [x]))"
    "ring_holds ?n ls (map loopback_latency_s (xs @ [x]))" "ring_holds ?n ns (map null_depth_db (xs @ [x]))"
    using inv ring_holds_step [OF n, of _ "map stride_drift xs" "stride_drift x"]
      ring_holds_step [OF n, of _ "map loopback_latency_s xs" "loopback_latency_s x"]
      ring_holds_step [OF n, of _ "map null_depth_db xs" "null_depth_db x"]
    by (simp_all add: monitor_inv_def ds_def ls_def ns_def)
  then have len: "length ds = ?n" "length ls = ?n" "length ns = ?n" by (auto simp: ring_holds_def)
  let ?v = "min (Suc (length xs)) ?n"
  have v: "0 < ?v" using n by simp
  define s where "s = \<lparr>sum_drift = sum_list (take ?v ds), top_drift = fold max (map abs (take ?v ds)) 0,
    sum_latency = sum_list (take ?v ls), top_latency = fold max (take ?v ls) 0,
    low_null = fold min (take ?v ns) (10 ^ 9)\<rparr>"
  have scan: "scan_window 0 ds ls ns ?v window_zero = Ok s"
    by (subst scan_window_eq) (auto simp: len s_def window_zero_def)
  have lens: "length (ts_sys_hist m) = ?n" "length (ts_sdr_hist m) = ?n" "length (seq_hist m) = ?n"
    "length (event_hist m) = ?n" "length (state_hist m) = ?n" "length (drift_hist m) = ?n"
    "length (latency_hist m) = ?n" "length (null_db_hist m) = ?n" "cfg m = c" "total_strides m = length xs"
    using inv by (simp_all add: monitor_inv_def ring_holds_def)
  define h where "h st ev = \<lparr>w_ts_sys = (ts_sys_hist m)[?w := ts_sys_s x], w_ts_sdr = (ts_sdr_hist m)[?w := ts_sdr_s x],
    w_latency = ls, w_drift = ds, w_null = ns, w_seq = (seq_hist m)[?w := seq_idx x],
    w_state = (state_hist m)[?w := st], w_event = (event_hist m)[?w := ev]\<rparr>" for st ev
  have wr: "write_histories x st ev m = Ok (h st ev)" for st ev
    using w(1) by (simp add: write_histories_def Let_def store_Ok lens h_def ds_def ls_def ns_def)
  let ?g = "seq_gap m x"
  let ?st = "stride_state c ?g x"
  let ?cl = "next_clear ?st m"
  let ?ev = "stride_event c ?g (?cl = recovery_clear_count c) x"
  let ?m = "next_state x ?g ?cl (h ?st ?ev) s ?v ?n m"
  have "valid = ?v \<Longrightarrow> scan_window 0 (w_drift (h st ev)) (w_latency (h st ev)) (w_null (h st ev)) valid window_zero = Ok s"
    for st ev valid using scan by (simp add: h_def)
  then obtain out where run: "evaluate_stride x m = Ok (?m, out)"
    using v unfolding evaluate_stride_def Let_def wr seqE_simps lens by simp
  have m': "cfg ?m = c" "write_idx ?m = (?w + 1) mod ?n"
      "total_strides ?m = Suc (length xs)" "drift_hist ?m = ds" "latency_hist ?m = ls" "null_db_hist ?m = ns"
      "length (ts_sys_hist ?m) = ?n" "length (ts_sdr_hist ?m) = ?n" "length (seq_hist ?m) = ?n"
      "length (event_hist ?m) = ?n" "length (state_hist ?m) = ?n"
      "state_hist ?m = (state_hist m)[?w := ?st]"
      "mean_drift ?m = sum_drift s / of_nat ?v" "max_abs_drift ?m = top_drift s"
      "mean_latency ?m = sum_latency s / of_nat ?v" "max_latency ?m = top_latency s" "min_null ?m = low_null s"
    by (simp_all add: next_state_def h_def lens)
  have states: "set (state_hist ?m) \<subseteq> {STATE_NOMINAL, STATE_WARNING, STATE_CRITICAL}"
    using set_update_subset_insert [of "state_hist m" ?w] stride_state_range inv m'(12)
    by (fastforce simp: monitor_inv_def)
  have "monitor_inv c (xs @ [x]) ?m"
    unfolding monitor_inv_def using m' hist states w(2) by (simp add: mod_Suc_eq)
  moreover have "summarises ?m (last_n ?n (xs @ [x]))"
  proof -
    have map_last: "last_n ?n (map f (xs @ [x])) = map f (last_n ?n (xs @ [x]))" for f :: "timing \<Rightarrow> real"
      by (simp only: last_n_def drop_map length_map)
    note wins = hist [THEN ring_window, OF n]
    have d: "mset (take ?v ds) = mset (map stride_drift (last_n ?n (xs @ [x])))"
      and l: "mset (take ?v ls) = mset (map loopback_latency_s (last_n ?n (xs @ [x])))"
      and nl: "mset (take ?v ns) = mset (map null_depth_db (last_n ?n (xs @ [x])))"
      using wins unfolding map_last length_map length_append by simp_all
    have v_len: "real ?v = real (length (last_n ?n (xs @ [x])))" by (simp add: min.commute)
    note D = sum_list_window [OF d] and L = sum_list_window [OF l] and N = sum_list_window [OF nl]
    show ?thesis
      unfolding summarises_def m'(13-17)
      unfolding s_def fold_max_Max fold_min_Min window_sums.select_convs set_map D(1,2) L(1,2) N(1,2) image_image v_len
      by (intro conjI refl)
  qed
  ultimately show thesis using run that by blast
qed

lemma evaluate_all_snoc:
  "evaluate_all (xs @ [x]) m = seqE (evaluate_all xs m) (\<lambda>(m', outs).
     seqE (evaluate_stride x m') (\<lambda>(m'', out). Ok (m'', outs @ [out])))"
proof (induction xs arbitrary: m)
  case Nil
  show ?case by (cases "evaluate_stride x m") auto
next
  case (Cons y ys)
  show ?case
  proof (cases "evaluate_stride y m")
    case (Inr r)
    obtain m1 o1 where r: "r = (m1, o1)" by (cases r)
    show ?thesis
    proof (cases "evaluate_all ys m1")
      case (Inr r2)
      then show ?thesis using Cons [of m1] \<open>evaluate_stride y m = Inr r\<close> r
        by (cases r2; cases "evaluate_stride x (fst r2)") auto
    qed (use Cons [of m1] Inr r in simp)
  qed simp
qed

lemma evaluate_all_ok:
  assumes "0 < history_len c"
  shows "\<exists>m outs. evaluate_all xs (loopback_init c) = Ok (m, outs) \<and> monitor_inv c xs m \<and>
    (xs \<noteq> [] \<longrightarrow> summarises m (last_n (history_len c) xs))"
proof (induction xs rule: rev_induct)
  case Nil
  show ?case using monitor_inv_init [OF assms] by simp
next
  case (snoc x xs)
  then obtain m outs where m: "evaluate_all xs (loopback_init c) = Ok (m, outs)" "monitor_inv c xs m" by auto
  obtain m' out where "evaluate_stride x m = Ok (m', out)" "monitor_inv c (xs @ [x]) m'"
    "summarises m' (last_n (history_len c) (xs @ [x]))"
    using evaluate_stride_ok [OF m(2) assms, of x] by blast
  with m show ?case by (simp add: evaluate_all_snoc)
qed

lemma count_states:
  "set hs \<subseteq> {STATE_NOMINAL, STATE_WARNING, STATE_CRITICAL} \<Longrightarrow>
   count_list hs STATE_NOMINAL + count_list hs STATE_WARNING + count_list hs STATE_CRITICAL = length hs"
  by (induction hs) (auto simp: state_defs)

section \<open>Properties\<close>

text \<open>
  the monitor never faults, and after any non-empty sequence of strides its summary is
  exactly the mean drift, largest absolute drift, mean and largest latency and smallest null
  depth of the last \<open>history_len\<close> strides, however often the circular histories have wrapped.
\<close>

theorem summary_of_window:
  assumes "0 < history_len c" and "xs \<noteq> []"
  shows "\<exists>m outs. evaluate_all xs (loopback_init c) = Ok (m, outs) \<and>
    summarises m (last_n (history_len c) xs)"
  using evaluate_all_ok [OF assms(1), of xs] assms(2) by blast

theorem summary_of_window_witness:
  "\<exists>m outs. evaluate_all (replicate 300 \<lparr>ts_sys_s = 1, ts_sdr_s = 0, seq_idx = 0, loopback_latency_s = 0,
       null_depth_db = -30, handover_active = 0\<rparr>) (loopback_init default_config) = Ok (m, outs) \<and>
     summarises m (last_n 256 (replicate 300 \<lparr>ts_sys_s = 1, ts_sdr_s = 0, seq_idx = 0,
       loopback_latency_s = 0, null_depth_db = -30, handover_active = 0\<rparr>))"
  using summary_of_window [of default_config "replicate 300 \<lparr>ts_sys_s = 1, ts_sdr_s = 0, seq_idx = 0,
       loopback_latency_s = 0, null_depth_db = -30, handover_active = 0\<rparr>"]
  by (simp add: default_config_def)

text \<open>
  the reported state fractions are not fractions. After any run, nominal, warning and
  critical fraction add up to the size of the history divided by the number of strides: the
  history entries that were never written count as nominal, and entries that were overwritten
  do not count at all.
\<close>

theorem fractions_do_not_add_up:
  assumes "0 < history_len c"
  shows "\<exists>m outs. evaluate_all xs (loopback_init c) = Ok (m, outs) \<and>
    nominal_fraction (metrics m) + warning_fraction (metrics m) + critical_fraction (metrics m) =
      of_nat (history_len c) / of_nat (max (length xs) 1)"
proof -
  obtain m outs where m: "evaluate_all xs (loopback_init c) = Ok (m, outs)" "monitor_inv c xs m"
    using evaluate_all_ok [OF assms, of xs] by auto
  then have "count_list (state_hist m) STATE_NOMINAL + count_list (state_hist m) STATE_WARNING +
      count_list (state_hist m) STATE_CRITICAL = history_len c"
    by (simp add: monitor_inv_def count_states)
  then have "real (count_list (state_hist m) STATE_NOMINAL) + real (count_list (state_hist m) STATE_WARNING) +
      real (count_list (state_hist m) STATE_CRITICAL) = real (history_len c)"
    by (simp only: flip: of_nat_add)
  with m show ?thesis
    by (simp add: metrics_def state_share_def monitor_inv_def flip: add_divide_distrib)
qed

theorem fractions_do_not_add_up_witness:
  "\<exists>m outs. evaluate_all [] (loopback_init default_config) = Ok (m, outs) \<and>
    nominal_fraction (metrics m) + warning_fraction (metrics m) + critical_fraction (metrics m) = 256"
  using fractions_do_not_add_up [of default_config "[]"] by (simp add: default_config_def)

text \<open>A single missing frame turns a critical stride into a warning.\<close>

lemma gap_downgrades:
  assumes "threshold_state c x = STATE_CRITICAL" and "continuity_gap_threshold c \<le> gap"
    and "gap < slip_threshold_samples c"
  shows "stride_state c gap x = STATE_WARNING" and "stride_state c gap x \<noteq> threshold_state c x"
  using assms by (auto simp: stride_state_def state_defs)

end
