(* ===== verification/Bft_Consensus.thy ===== *)
theory Bft_Consensus
  imports Python_Text
begin

text \<open>
  \<^verbatim>\<open>cluster_bft_consensus.py\<close>: the vote ledger and the polling loop that waits for a quorum.
  SHA-256 and the decoding of datagrams are parameters; the polls that fit into the 80 ms
  window are a list, each one idle, a datagram's text or a failed receive.
\<close>

section \<open>The engine\<close>

record bft_engine =
  bft_node_id :: nat
  bft_N :: nat
  bft_f :: nat
  quorum_size :: nat
  vote_ledger :: "nat list"

definition bft_init :: "nat \<Rightarrow> nat \<Rightarrow> nat \<Rightarrow> fault + bft_engine" where
  "bft_init node_id peers f =
     (if peers < 3 * f + 1 then Fail ValueError
      else if peers \<le> node_id then Fail IndexError
      else Ok \<lparr>bft_node_id = node_id, bft_N = peers, bft_f = f, quorum_size = 2 * f + 1,
               vote_ledger = replicate peers 0\<rparr>)"

text \<open>The datagram another node is sent, one per peer.\<close>

definition claim_message :: "nat \<Rightarrow> string \<Rightarrow> string" where
  "claim_message node payload_hash =
     ''PRE_PREPARE|'' @ str_int (int node) @ ''|'' @ payload_hash"

definition broadcast_threat_claim :: "('b \<Rightarrow> string) \<Rightarrow> 'b \<Rightarrow> bft_engine \<Rightarrow> (nat \<times> string) list" where
  "broadcast_threat_claim hash_signature sig e =
     map (\<lambda>i. (i, claim_message (bft_node_id e) (hash_signature sig)))
       (filter (\<lambda>i. i \<noteq> bft_node_id e) [0..<bft_N e])"

section \<open>Waiting for the quorum\<close>

datatype poll = Idle | Datagram string | ReceiveError

text \<open>
  One received datagram: three fields, an integer peer index in range that has not voted, and
  the expected hash. A field that is no integer raises, and the loop drops the datagram.
\<close>

definition tally :: "nat \<Rightarrow> string \<Rightarrow> string \<Rightarrow> nat list \<times> nat \<Rightarrow> nat list \<times> nat" where
  "tally n target data_str st = (case st of (ledger, votes) \<Rightarrow>
     (case split_on (CHR ''|'') data_str of
        [msg_type, peer_id_str, peer_hash] \<Rightarrow>
          (case parse_int peer_id_str of
             None \<Rightarrow> st
           | Some peer_id \<Rightarrow>
               if 0 \<le> peer_id \<and> peer_id < int n \<and> ledger ! nat peer_id = 0
               then if peer_hash = target then (ledger[nat peer_id := 1], votes + 1) else st
               else st)
      | _ \<Rightarrow> st))"

fun await_loop :: "nat \<Rightarrow> nat \<Rightarrow> string \<Rightarrow> poll list \<Rightarrow> nat list \<times> nat \<Rightarrow> (nat list \<times> nat) \<times> bool" where
  "await_loop n quorum target [] st = (st, quorum \<le> snd st)"
| "await_loop n quorum target (p # ps) st =
     (if quorum \<le> snd st then (st, True)
      else await_loop n quorum target ps
        (case p of Datagram d \<Rightarrow> tally n target d st | _ \<Rightarrow> st))"

definition await_consensus :: "('b \<Rightarrow> string) \<Rightarrow> 'b \<Rightarrow> poll list \<Rightarrow> bft_engine \<Rightarrow> bft_engine \<times> bool" where
  "await_consensus hash_signature sig polls e =
     (let ledger = (replicate (bft_N e) 0)[bft_node_id e := 1] in
      case await_loop (bft_N e) (quorum_size e) (hash_signature sig) polls (ledger, 1) of
        ((ledger', votes), res) \<Rightarrow> (e\<lparr>vote_ledger := ledger'\<rparr>, res))"

section \<open>Counting\<close>

text \<open>The peer a datagram votes for, if it is a vote for the target at all.\<close>

definition voter :: "nat \<Rightarrow> string \<Rightarrow> poll \<Rightarrow> nat option" where
  "voter n target p = (case p of
       Datagram d \<Rightarrow> (case split_on (CHR ''|'') d of
           [msg_type, peer_id_str, peer_hash] \<Rightarrow> (case parse_int peer_id_str of
               Some i \<Rightarrow> if 0 \<le> i \<and> i < int n \<and> peer_hash = target then Some (nat i) else None
             | None \<Rightarrow> None)
         | _ \<Rightarrow> None)
     | _ \<Rightarrow> None)"

definition voters :: "nat \<Rightarrow> string \<Rightarrow> poll list \<Rightarrow> nat set" where
  "voters n target ps = {i. \<exists>p \<in> set ps. voter n target p = Some i}"

definition votes_inv :: "nat \<Rightarrow> nat set \<Rightarrow> nat list \<times> nat \<Rightarrow> bool" where
  "votes_inv n V st \<longleftrightarrow> length (fst st) = n \<and> V \<subseteq> {..<n} \<and> snd st = card V \<and>
     (\<forall>i < n. fst st ! i = (if i \<in> V then 1 else 0))"

lemma voter_lt: "voter n target p = Some i \<Longrightarrow> i < n"
  by (auto simp: voter_def split: poll.splits list.splits option.splits if_splits)

lemma voters_simps [simp]:
  "voters n target [] = {}"
  "voters n target (p # ps) = set_option (voter n target p) \<union> voters n target ps"
  by (auto simp: voters_def)

lemma voters_finite [simp]: "finite (voters n target ps)"
  by (induction ps) auto

lemma tally_voter:
  assumes "votes_inv n V st"
  shows "votes_inv n (V \<union> set_option (voter n target p)) (case p of Datagram d \<Rightarrow> tally n target d st | _ \<Rightarrow> st)"
proof (cases "voter n target p")
  case None
  then have "(case p of Datagram d \<Rightarrow> tally n target d st | _ \<Rightarrow> st) = st"
    by (auto simp: voter_def tally_def split: poll.splits list.splits option.splits if_splits prod.splits)
  with None assms show ?thesis by simp
next
  case (Some i)
  obtain ledger votes where st: "st = (ledger, votes)" by (cases st)
  from Some obtain d where p: "p = Datagram d" by (auto simp: voter_def split: poll.splits)
  have i: "i < n" using Some by (rule voter_lt)
  have t: "tally n target d st = (if ledger ! i = 0 then (ledger[i := 1], votes + 1) else st)"
    using Some by (auto simp: voter_def tally_def p st split: list.splits option.splits if_splits)
  have fin: "finite V" using assms by (auto simp: votes_inv_def intro: finite_subset)
  show ?thesis
  proof (cases "i \<in> V")
    case True
    with t p i assms Some show ?thesis by (simp add: votes_inv_def st insert_absorb)
  next
    case False
    with t p i assms Some fin show ?thesis by (auto simp: votes_inv_def st nth_list_update)
  qed
qed

lemma votes_inv_card: "votes_inv n V st \<Longrightarrow> snd st = card V"
  by (simp add: votes_inv_def)

lemma await_loop_iff:
  assumes "votes_inv n V st"
  shows "snd (await_loop n quorum target ps st) \<longleftrightarrow> quorum \<le> card (V \<union> voters n target ps)"
  using assms
proof (induction ps arbitrary: V st)
  case Nil
  then show ?case by (simp add: votes_inv_card)
next
  case (Cons p ps)
  show ?case
  proof (cases "quorum \<le> snd st")
    case True
    have "finite V" using Cons.prems by (auto simp: votes_inv_def intro: finite_subset)
    then have "card V \<le> card (V \<union> voters n target (p # ps))" by (intro card_mono) auto
    with True Cons.prems show ?thesis by (simp add: votes_inv_card)
  next
    case False
    with Cons.IH [OF tally_voter [OF Cons.prems, of target p]] show ?thesis by (simp add: Un_assoc)
  qed
qed

section \<open>Properties\<close>

text \<open>
  the engine reports consensus exactly when the node itself and the distinct peers named in
  the received datagrams with the right hash are at least 2f+1: no datagram counts twice, none
  with another hash counts, and malformed ones are ignored. The senders of the datagrams do
  not matter.
\<close>

theorem consensus_iff_quorum:
  assumes "bft_init node peers f = Ok e"
  shows "snd (await_consensus hash_signature sig polls e) \<longleftrightarrow>
    2 * f + 1 \<le> card (insert node (voters peers (hash_signature sig) polls))"
proof -
  from assms have e: "node < peers" "e = \<lparr>bft_node_id = node, bft_N = peers, bft_f = f, quorum_size = 2 * f + 1,
      vote_ledger = replicate peers 0\<rparr>" by (auto simp: bft_init_def split: if_splits)
  then have "votes_inv peers {node} ((replicate peers 0)[node := 1], 1)"
    by (auto simp: votes_inv_def nth_list_update)
  from await_loop_iff [OF this, of "2 * f + 1" "hash_signature sig" polls] e show ?thesis
    by (simp add: await_consensus_def split_def)
qed

theorem consensus_iff_quorum_witness:
  "\<exists>e. bft_init 0 4 1 = Ok e \<and> \<not> snd (await_consensus (\<lambda>b. b) ''h'' [Idle, Datagram ''x''] e)"
proof -
  obtain e where e: "bft_init 0 4 1 = Ok e" by (simp add: bft_init_def)
  have "voters 4 ''h'' [Idle, Datagram ''x''] = {}" by (simp add: voter_def)
  with consensus_iff_quorum [OF e, of "\<lambda>b. b" "''h''" "[Idle, Datagram ''x'']"] e show ?thesis by auto
qed

text \<open>
  One sender that knows the hash reaches the quorum alone, by naming the peers one after the
  other.
\<close>

definition forged :: "nat \<Rightarrow> string \<Rightarrow> poll list" where
  "forged n h = map (\<lambda>i. Datagram (claim_message i h)) [0..<n]"

lemma voter_claim:
  assumes "CHR ''|'' \<notin> set h" and "i < n"
  shows "voter n h (Datagram (claim_message i h)) = Some i"
proof -
  have bar: "CHR ''|'' \<notin> set (str_int j)" for j
  proof -
    have "CHR ''|'' \<notin> set (digits k)" for k using digits_chars [of "CHR ''|''" k] digit_char_neq(5) by metis
    then show ?thesis by (simp add: str_int_def)
  qed
  define tag where "tag = ''PRE_PREPARE''"
  have tag: "CHR ''|'' \<notin> set tag" by (simp add: tag_def)
  have "claim_message i h = tag @ CHR ''|'' # (str_int (int i) @ CHR ''|'' # h)"
    by (simp add: claim_message_def tag_def)
  then have "split_on (CHR ''|'') (claim_message i h) = [tag, str_int (int i), h]"
    by (simp add: split_on_once [OF tag] split_on_once [OF bar] split_on_none [OF assms(1)])
  with assms(2) show ?thesis by (simp add: voter_def)
qed

lemma forged_quorum:
  assumes "bft_init node peers f = Ok e" and "CHR ''|'' \<notin> set (hash_signature sig)"
  shows "snd (await_consensus hash_signature sig (forged peers (hash_signature sig)) e)"
proof -
  from assms(1) have e: "node < peers" "3 * f + 1 \<le> peers" "e = \<lparr>bft_node_id = node, bft_N = peers, bft_f = f,
      quorum_size = 2 * f + 1, vote_ledger = replicate peers 0\<rparr>" by (auto simp: bft_init_def split: if_splits)
  have "{..<peers} \<subseteq> voters peers (hash_signature sig) (forged peers (hash_signature sig))"
    using voter_claim [OF assms(2)] by (force simp: voters_def forged_def)
  then have "card {..<peers} \<le> card ({node} \<union> voters peers (hash_signature sig) (forged peers (hash_signature sig)))"
    by (intro card_mono) auto
  moreover have "votes_inv peers {node} ((replicate peers 0)[node := 1], 1)"
    using e by (auto simp: votes_inv_def nth_list_update)
  ultimately show ?thesis
    using await_loop_iff [of peers "{node}" "((replicate peers 0)[node := 1], 1)" "2 * f + 1"] e
    by (simp add: await_consensus_def split_def)
qed

end
