(* ===== verification/Raft.thy ===== *)
theory Raft
  imports Prelude
begin

text \<open>
  \<^verbatim>\<open>cluster_raft_consensus.py\<close>: the message handler, the election timer and the commit of a
  configuration, with the binary header. Between two \<^verbatim>\<open>await\<close>s a coroutine runs alone, so the
  commit is two steps: proposing, and finishing after messages have been handled. \<open>dumps\<close> and
  \<open>loads\<close> (JSON to and from bytes) are parameters; sockets are the messages they carry.
\<close>

section \<open>Messages\<close>

datatype raft_state = FOLLOWER | CANDIDATE | LEADER

datatype msg_type = REQUEST_VOTE | VOTE_ACK | APPEND_ENTRIES | APPEND_ACK

record header =
  msg_kind :: msg_type
  msg_term :: nat
  log_index :: nat

text \<open>\<^verbatim>\<open>struct.Struct('!B Q Q H')\<close>: the fields must fit.\<close>

definition pack_header :: "msg_type \<Rightarrow> nat \<Rightarrow> nat \<Rightarrow> nat \<Rightarrow> fault + header" where
  "pack_header kind t idx payload_len =
     (if t < 2 ^ 64 \<and> idx < 2 ^ 64 \<and> payload_len < 2 ^ 16
      then Ok \<lparr>msg_kind = kind, msg_term = t, log_index = idx\<rparr> else Fail StructError)"

section \<open>Nodes\<close>

text \<open>A waiter is pending, set, or cancelled by the timeout.\<close>

datatype waiter = Pending | Resolved | Cancelled

record node =
  node_id :: nat
  peers :: nat
  state :: raft_state
  current_term :: nat
  voted_for :: "nat option"
  entries :: "byte list list"
  commit_index :: nat
  replicated :: payload
  commit_waiters :: "nat \<Rightarrow> waiter option"
  append_acks :: "nat \<Rightarrow> nat option"

definition raft_init :: "nat \<Rightarrow> nat \<Rightarrow> node" where
  "raft_init nid n = \<lparr>node_id = nid, peers = n, state = FOLLOWER, current_term = 0, voted_for = None,
     entries = [], commit_index = 0, replicated = Map.empty, commit_waiters = Map.empty,
     append_acks = Map.empty\<rparr>"

definition sync_term :: "nat \<Rightarrow> node \<Rightarrow> node" where
  "sync_term t n = (if t > current_term n
     then n\<lparr>current_term := t, state := FOLLOWER, voted_for := None\<rparr> else n)"

definition handle_vote :: "nat \<Rightarrow> node \<Rightarrow> node \<times> (fault + header option)" where
  "handle_vote candidate n =
     (if voted_for n = None \<or> voted_for n = Some candidate
      then (n\<lparr>voted_for := Some candidate\<rparr>,
            seqE (pack_header VOTE_ACK (current_term n) (node_id n) 0) (\<lambda>h. Ok (Some h)))
      else (n, Ok None))"

text \<open>Storing the payload comes before parsing it: a payload that does not parse stays in the log.\<close>

definition store_entry :: "nat \<Rightarrow> byte list \<Rightarrow> node \<Rightarrow> node" where
  "store_entry idx payload n =
     n\<lparr>entries := (if length (entries n) \<le> idx then entries n @ [payload] else (entries n)[idx := payload])\<rparr>"

definition handle_append :: "(byte list \<Rightarrow> fault + payload) \<Rightarrow> nat \<Rightarrow> byte list \<Rightarrow> node \<Rightarrow>
    node \<times> (fault + header option)" where
  "handle_append loads idx payload n =
     (let n1 = n\<lparr>state := FOLLOWER\<rparr> in
      let ack = seqE (pack_header APPEND_ACK (current_term n) idx 0) (\<lambda>h. Ok (Some h)) in
      if payload = [] then (n1, ack)
      else let n2 = store_entry idx payload n1 in
        (case loads payload of
           Fail e \<Rightarrow> (n2, Fail e)
         | Ok update \<Rightarrow> (n2\<lparr>replicated := replicated n2 ++ update, commit_index := idx\<rparr>, ack)))"

definition handle_ack :: "nat \<Rightarrow> node \<Rightarrow> node" where
  "handle_ack idx n =
     (if state n \<noteq> LEADER then n
      else let k = (case append_acks n idx of None \<Rightarrow> 0 | Some k \<Rightarrow> k) + 1;
               n1 = n\<lparr>append_acks := (append_acks n)(idx \<mapsto> k)\<rparr>
           in if k \<ge> peers n div 2 \<and> commit_waiters n idx = Some Pending
              then n1\<lparr>commit_waiters := (commit_waiters n)(idx \<mapsto> Resolved)\<rparr> else n1)"

definition process_raft_message :: "(byte list \<Rightarrow> fault + payload) \<Rightarrow> msg_type \<Rightarrow> nat \<Rightarrow> nat \<Rightarrow> byte list \<Rightarrow>
    node \<Rightarrow> node \<times> (fault + header option)" where
  "process_raft_message loads kind t idx payload n =
     (let n1 = sync_term t n in
      case kind of
        REQUEST_VOTE \<Rightarrow> handle_vote idx n1
      | APPEND_ENTRIES \<Rightarrow> handle_append loads idx payload n1
      | APPEND_ACK \<Rightarrow> (handle_ack idx n1, Ok None)
      | VOTE_ACK \<Rightarrow> (n1, Ok None))"

text \<open>The election timer of a follower makes it a leader, with a higher term and no votes.\<close>

definition election_timeout :: "node \<Rightarrow> node" where
  "election_timeout n = (if state n = FOLLOWER
     then n\<lparr>state := LEADER, current_term := current_term n + 1\<rparr> else n)"

section \<open>Committing a configuration\<close>

text \<open>
  Proposing: \<open>Ok None\<close> is the refusal of a node that is no leader, \<open>Ok (Some (header, payload))\<close>
  the frame for the peers. The local log grows before the frame is packed.
\<close>

definition propose :: "(payload \<Rightarrow> byte list) \<Rightarrow> payload \<Rightarrow> node \<Rightarrow>
    node \<times> (fault + (header \<times> byte list) option)" where
  "propose dumps updates n =
     (if state n \<noteq> LEADER then (n, Ok None)
      else let payload = dumps updates; idx = length (entries n);
               n1 = n\<lparr>entries := entries n @ [payload]\<rparr>
           in case pack_header APPEND_ENTRIES (current_term n) idx (length payload) of
                Fail e \<Rightarrow> (n1, Fail e)
              | Ok h \<Rightarrow> (n1\<lparr>commit_waiters := (commit_waiters n1)(idx \<mapsto> Pending),
                              append_acks := (append_acks n1)(idx \<mapsto> 0)\<rparr>, Ok (Some (h, payload))))"

definition finish :: "payload \<Rightarrow> nat \<Rightarrow> node \<Rightarrow> node \<times> bool" where
  "finish updates idx n =
     (if commit_waiters n idx = Some Resolved
      then (n\<lparr>replicated := replicated n ++ updates, commit_index := idx\<rparr>, True)
      else (n\<lparr>commit_waiters := (commit_waiters n)(idx \<mapsto> Cancelled)\<rparr>, False))"

section \<open>Runs of one node\<close>

datatype raft_event =
    Message msg_type nat nat "byte list"
  | Timeout
  | Propose payload
  | Finish payload nat

text \<open>What the node sends, in order.\<close>

fun raft_step :: "(payload \<Rightarrow> byte list) \<Rightarrow> (byte list \<Rightarrow> fault + payload) \<Rightarrow> raft_event \<Rightarrow> node \<Rightarrow>
    node \<times> header list" where
  "raft_step dumps loads (Message k t i p) n =
     (case process_raft_message loads k t i p n of
        (n', Ok (Some h)) \<Rightarrow> (n', [h]) | (n', _) \<Rightarrow> (n', []))"
| "raft_step dumps loads Timeout n = (election_timeout n, [])"
| "raft_step dumps loads (Propose u) n =
     (case propose dumps u n of (n', Ok (Some (h, p))) \<Rightarrow> (n', [h]) | (n', _) \<Rightarrow> (n', []))"
| "raft_step dumps loads (Finish u i) n = (fst (finish u i n), [])"

definition raft_run :: "(payload \<Rightarrow> byte list) \<Rightarrow> (byte list \<Rightarrow> fault + payload) \<Rightarrow> raft_event list \<Rightarrow>
    node \<Rightarrow> node" where
  "raft_run dumps loads es n = foldl (\<lambda>m e. fst (raft_step dumps loads e m)) n es"

text \<open>The votes a node casts: its term and the candidate, in the order of the acknowledgements.\<close>

fun cast_vote :: "raft_event \<Rightarrow> node \<Rightarrow> header list \<Rightarrow> (nat \<times> nat) list" where
  "cast_vote (Message REQUEST_VOTE t i p) n hs = map (\<lambda>h. (msg_term h, i)) hs"
| "cast_vote e n hs = []"

fun votes_of :: "(payload \<Rightarrow> byte list) \<Rightarrow> (byte list \<Rightarrow> fault + payload) \<Rightarrow> raft_event list \<Rightarrow> node \<Rightarrow>
    (nat \<times> nat) list" where
  "votes_of dumps loads [] n = []"
| "votes_of dumps loads (e # es) n =
     (case raft_step dumps loads e n of (n', hs) \<Rightarrow> cast_vote e n hs @ votes_of dumps loads es n')"

text \<open>Terms never go back, and in one term the recorded vote only ever is one candidate.\<close>

lemma raft_step_fst [simp]:
  "fst (raft_step dumps loads (Message k t i p) n) = fst (process_raft_message loads k t i p n)"
  "fst (raft_step dumps loads (Propose u) n) = fst (propose dumps u n)"
  by (simp_all split: prod.splits sum.splits option.splits)

text \<open>What keeps the vote: terms never go back, and a vote of the same term stays.\<close>

definition keeps_vote :: "node \<Rightarrow> node \<Rightarrow> bool" where
  "keeps_vote n n' \<longleftrightarrow> current_term n \<le> current_term n' \<and>
     (current_term n' = current_term n \<longrightarrow> voted_for n \<noteq> None \<longrightarrow> voted_for n' = voted_for n)"

lemma keeps_vote_trans: "keeps_vote a b \<Longrightarrow> keeps_vote b c \<Longrightarrow> keeps_vote a c"
  by (auto simp: keeps_vote_def)

lemma keeps_vote_same: "current_term n' = current_term n \<Longrightarrow> voted_for n' = voted_for n \<Longrightarrow> keeps_vote n n'"
  by (simp add: keeps_vote_def)

lemma keeps_vote_sync: "keeps_vote n (sync_term t n)"
  by (simp add: keeps_vote_def sync_term_def)

lemma keeps_vote_vote: "keeps_vote n (fst (handle_vote c n))"
  by (auto simp: keeps_vote_def handle_vote_def)

lemma keeps_vote_append: "keeps_vote n (fst (handle_append loads i p n))"
  by (rule keeps_vote_same) (simp_all add: handle_append_def store_entry_def Let_def split: sum.splits)

lemma keeps_vote_ack: "keeps_vote n (handle_ack i n)"
  by (rule keeps_vote_same) (simp_all add: handle_ack_def Let_def)

lemma keeps_vote_message: "keeps_vote n (fst (process_raft_message loads k t i p n))"
proof -
  have "keeps_vote (sync_term t n) (fst (process_raft_message loads k t i p n))"
    by (cases k) (simp_all add: process_raft_message_def keeps_vote_vote keeps_vote_append keeps_vote_ack,
        simp add: keeps_vote_same)
  then show ?thesis by (rule keeps_vote_trans [OF keeps_vote_sync])
qed

lemma keeps_vote_propose: "keeps_vote n (fst (propose dumps u n))"
  by (rule keeps_vote_same) (simp_all add: propose_def Let_def split: sum.splits)

lemma keeps_vote_step: "keeps_vote n (fst (raft_step dumps loads e n))"
proof (cases e)
  case (Message k t i p)
  then show ?thesis by (simp only: raft_step_fst keeps_vote_message)
next
  case Timeout
  then show ?thesis by (simp add: keeps_vote_def election_timeout_def)
next
  case (Propose u)
  then show ?thesis by (simp only: raft_step_fst keeps_vote_propose)
next
  case (Finish u i)
  then show ?thesis by (simp add: keeps_vote_same finish_def)
qed

lemma step_term:
  "current_term n \<le> current_term (fst (raft_step dumps loads e n))"
  "current_term (fst (raft_step dumps loads e n)) = current_term n \<Longrightarrow> voted_for n = Some c \<Longrightarrow>
     voted_for (fst (raft_step dumps loads e n)) = Some c"
  using keeps_vote_step [of n dumps loads e] by (simp_all add: keeps_vote_def)

lemma step_vote:
  assumes "(t, c) \<in> set (cast_vote e n (snd (raft_step dumps loads e n)))"
  shows "t = current_term (fst (raft_step dumps loads e n)) \<and>
    voted_for (fst (raft_step dumps loads e n)) = Some c \<and>
    (t = current_term n \<longrightarrow> voted_for n \<in> {None, Some c})"
proof -
  from assms obtain u i p where e: "e = Message REQUEST_VOTE u i p"
    by (cases "(e, n, snd (raft_step dumps loads e n))" rule: cast_vote.cases) auto
  let ?m = "sync_term u n"
  have term_eq: "current_term ?m = current_term n \<Longrightarrow> voted_for ?m = voted_for n"
    by (simp add: sync_term_def split: if_splits)
  have f: "fst (raft_step dumps loads e n) = fst (handle_vote i ?m)"
    by (simp only: e raft_step_fst) (simp add: process_raft_message_def)
  show ?thesis
  proof (cases "voted_for ?m = None \<or> voted_for ?m = Some i")
    case True
    with assms have "c = i" "t = current_term ?m"
      by (auto simp: e process_raft_message_def handle_vote_def pack_header_def Let_def split: if_splits)
    with True term_eq f show ?thesis by (auto simp: handle_vote_def)
  next
    case False
    with assms show ?thesis by (simp add: e process_raft_message_def handle_vote_def Let_def)
  qed
qed

lemma votes_of_step:
  "votes_of dumps loads (e # es) n = cast_vote e n (snd (raft_step dumps loads e n)) @
     votes_of dumps loads es (fst (raft_step dumps loads e n))"
  by (simp add: split_def)

lemma votes_bound: "(t, c) \<in> set (votes_of dumps loads es n) \<Longrightarrow> current_term n \<le> t"
proof (induction es arbitrary: n)
  case Nil
  then show ?case by simp
next
  case (Cons e es)
  let ?n = "fst (raft_step dumps loads e n)"
  from Cons.prems consider "(t, c) \<in> set (cast_vote e n (snd (raft_step dumps loads e n)))"
    | "(t, c) \<in> set (votes_of dumps loads es ?n)" by (auto simp only: votes_of_step set_append)
  then show ?case
  proof cases
    case 1
    with step_vote [OF 1] step_term(1) show ?thesis by metis
  next
    case 2
    from Cons.IH [OF this] step_term(1) show ?thesis using order_trans by blast
  qed
qed

lemma votes_recorded:
  assumes "(current_term n, c) \<in> set (votes_of dumps loads es n)" and "voted_for n = Some c'"
  shows "c = c'"
  using assms
proof (induction es arbitrary: n)
  case Nil
  then show ?case by simp
next
  case (Cons e es)
  let ?n = "fst (raft_step dumps loads e n)"
  from Cons.prems(1) consider "(current_term n, c) \<in> set (cast_vote e n (snd (raft_step dumps loads e n)))"
    | "(current_term n, c) \<in> set (votes_of dumps loads es ?n)"
    by (auto simp only: votes_of_step set_append)
  then show ?case
  proof cases
    case 1
    from step_vote [OF 1] Cons.prems(2) show ?thesis by auto
  next
    case 2
    have "current_term ?n \<le> current_term n" by (rule votes_bound [OF 2])
    with step_term(1) have eq: "current_term ?n = current_term n" by (metis order_antisym)
    show ?thesis using Cons.IH [of ?n] 2 eq step_term(2) [OF eq Cons.prems(2)] by simp
  qed
qed

section \<open>Commits\<close>

fun is_ack :: "nat \<Rightarrow> raft_event \<Rightarrow> bool" where
  "is_ack i (Message APPEND_ACK t j p) \<longleftrightarrow> j = i"
| "is_ack i e \<longleftrightarrow> False"

text \<open>What \<open>k\<close> acknowledgements of an index allow.\<close>

definition acks_bound :: "nat \<Rightarrow> nat \<Rightarrow> node \<Rightarrow> bool" where
  "acks_bound i k n \<longleftrightarrow> (\<forall>a. append_acks n i = Some a \<longrightarrow> a \<le> k) \<and>
     (commit_waiters n i = Some Resolved \<longrightarrow> peers n div 2 \<le> k)"

lemma acks_bound_mono: "acks_bound i k n \<Longrightarrow> k \<le> k' \<Longrightarrow> acks_bound i k' n"
  by (force simp: acks_bound_def)

lemma acks_bound_same:
  "append_acks n' = append_acks n \<Longrightarrow> commit_waiters n' = commit_waiters n \<Longrightarrow> peers n' = peers n \<Longrightarrow>
   acks_bound i k n' = acks_bound i k n"
  by (simp add: acks_bound_def)

lemma acks_bound_ack: "acks_bound i k n \<Longrightarrow> acks_bound i (if j = i then Suc k else k) (handle_ack j n)"
  by (auto simp: acks_bound_def handle_ack_def Let_def split: option.splits)

lemma acks_bound_propose: "acks_bound i k n \<Longrightarrow> acks_bound i k (fst (propose dumps u n))"
  by (auto simp: acks_bound_def propose_def Let_def split: sum.splits)

lemma acks_bound_finish: "acks_bound i k n \<Longrightarrow> acks_bound i k (fst (finish u j n))"
  by (auto simp: acks_bound_def finish_def)

lemma acks_bound_sync [simp]: "acks_bound i k (sync_term t n) = acks_bound i k n"
  by (rule acks_bound_same) (simp_all add: sync_term_def)

lemma acks_bound_message:
  assumes "acks_bound i k n"
  shows "acks_bound i (if is_ack i (Message c t j p) then Suc k else k) (fst (process_raft_message loads c t j p n))"
proof (cases c)
  case REQUEST_VOTE
  have "acks_bound i k (fst (handle_vote j (sync_term t n))) = acks_bound i k (sync_term t n)"
    by (rule acks_bound_same) (simp_all add: handle_vote_def)
  with REQUEST_VOTE assms show ?thesis by (simp add: process_raft_message_def)
next
  case APPEND_ENTRIES
  have "acks_bound i k (fst (handle_append loads j p (sync_term t n))) = acks_bound i k (sync_term t n)"
    by (rule acks_bound_same) (simp_all add: handle_append_def store_entry_def Let_def split: sum.splits)
  with APPEND_ENTRIES assms show ?thesis by (simp add: process_raft_message_def)
next
  case APPEND_ACK
  with acks_bound_ack [of i k "sync_term t n" j] assms show ?thesis by (simp add: process_raft_message_def)
next
  case VOTE_ACK
  with assms show ?thesis by (simp add: process_raft_message_def)
qed

lemma acks_bound_step:
  assumes "acks_bound i k n"
  shows "acks_bound i (if is_ack i e then Suc k else k) (fst (raft_step dumps loads e n))"
proof (cases e)
  case (Message c t j p)
  with acks_bound_message [OF assms] show ?thesis by (simp only: raft_step_fst)
next
  case Timeout
  with assms show ?thesis by (simp add: election_timeout_def acks_bound_def)
next
  case (Propose u)
  with acks_bound_propose [OF assms] show ?thesis by (simp only: raft_step_fst is_ack.simps if_False)
next
  case (Finish u j)
  with acks_bound_finish [OF assms] show ?thesis by simp
qed

lemma acks_bound_run:
  "acks_bound i k n \<Longrightarrow> acks_bound i (k + length (filter (is_ack i) es)) (raft_run dumps loads es n)"
proof (induction es arbitrary: k n)
  case Nil
  then show ?case by (simp add: raft_run_def)
next
  case (Cons e es)
  from Cons.IH [OF acks_bound_step [OF Cons.prems, where e = e and dumps = dumps and loads = loads]]
  show ?case by (simp add: raft_run_def split: if_splits)
qed

lemma peers_run: "peers (raft_run dumps loads es n) = peers n"
proof (induction es arbitrary: n)
  case Nil
  then show ?case by (simp add: raft_run_def)
next
  case (Cons e es)
  have "peers (fst (raft_step dumps loads e n)) = peers n"
  proof (cases e)
    case (Message k t i p)
    show ?thesis
      by (cases k) (simp_all only: Message raft_step_fst,
          auto simp: process_raft_message_def sync_term_def handle_vote_def handle_append_def
            store_entry_def handle_ack_def Let_def split: sum.splits)
  next
    case (Propose u)
    then show ?thesis by (simp only: raft_step_fst) (simp add: propose_def Let_def split: sum.splits)
  qed (simp_all add: election_timeout_def finish_def)
  with Cons.IH [of "fst (raft_step dumps loads e n)"] show ?case by (simp add: raft_run_def)
qed

section \<open>Properties\<close>

text \<open>
  C35: in one term a node acknowledges the vote request of at most one candidate, whatever
  messages, timeouts, proposals and commits it handles in whatever order.
\<close>

theorem one_vote_per_term:
  assumes "(t, c) \<in> set (votes_of dumps loads es n)" and "(t, c') \<in> set (votes_of dumps loads es n)"
  shows "c = c'"
  using assms
proof (induction es arbitrary: n)
  case Nil
  then show ?case by simp
next
  case (Cons e es)
  let ?n = "fst (raft_step dumps loads e n)"
  let ?V = "cast_vote e n (snd (raft_step dumps loads e n))" and ?W = "votes_of dumps loads es ?n"
  have now: "a = b" if "(t, a) \<in> set ?V" "(t, b) \<in> set ?V" for a b
    using step_vote [OF that(1)] step_vote [OF that(2)] by simp
  have later: "b = a" if "(t, a) \<in> set ?V" "(t, b) \<in> set ?W" for a b
    using step_vote [OF that(1)] votes_recorded [of ?n b dumps loads es a] that(2) by simp
  from Cons.prems have "(t, c) \<in> set ?V \<or> (t, c) \<in> set ?W" "(t, c') \<in> set ?V \<or> (t, c') \<in> set ?W"
    by (auto simp only: votes_of_step set_append)
  with now later Cons.IH [of ?n] show ?case by metis
qed

text \<open>Two requests of the term: the second candidate gets no acknowledgement.\<close>

theorem one_vote_per_term_witness:
  "(1, 5) \<in> set (votes_of (\<lambda>_. []) (\<lambda>_. Fail ValueError) [Message REQUEST_VOTE 1 5 [], Message REQUEST_VOTE 1 6 []] (raft_init 0 2)) \<and>
   (1, 6) \<notin> set (votes_of (\<lambda>_. []) (\<lambda>_. Fail ValueError) [Message REQUEST_VOTE 1 5 [], Message REQUEST_VOTE 1 6 []] (raft_init 0 2))"
   (is "?v \<and> \<not> ?w")
proof (rule conjI)
  show v: ?v by (simp add: raft_init_def process_raft_message_def sync_term_def handle_vote_def pack_header_def)
  show "\<not> ?w"
  proof
    assume ?w
    from one_vote_per_term [OF v this] show False by simp
  qed
qed

text \<open>
  a configuration change is reported as committed only after acknowledgements of its index
  have arrived from at least half of the peers (counted with repetition): whatever the node
  handled since its start, fewer acknowledgements mean a rejected change, which leaves the
  replicated configuration and the commit index as they were.
\<close>

theorem commit_needs_acks:
  assumes "length (filter (is_ack i) es) < p div 2"
  shows "\<not> snd (finish u i (raft_run dumps loads es (raft_init nid p))) \<and>
    replicated (fst (finish u i (raft_run dumps loads es (raft_init nid p)))) =
      replicated (raft_run dumps loads es (raft_init nid p)) \<and>
    commit_index (fst (finish u i (raft_run dumps loads es (raft_init nid p)))) =
      commit_index (raft_run dumps loads es (raft_init nid p))"
proof -
  have "acks_bound i 0 (raft_init nid p)" by (simp add: acks_bound_def raft_init_def)
  from acks_bound_run [OF this, of es dumps loads] assms
  have "commit_waiters (raft_run dumps loads es (raft_init nid p)) i \<noteq> Some Resolved"
    by (auto simp: acks_bound_def peers_run) (simp add: raft_init_def)
  then show ?thesis by (simp add: finish_def)
qed

theorem commit_needs_acks_witness:
  "\<not> snd (finish Map.empty 0 (raft_run (\<lambda>_. []) (\<lambda>_. Fail ValueError) [Timeout, Propose Map.empty, Message APPEND_ACK 1 1 []] (raft_init 0 2)))"
  using commit_needs_acks [of 0 "[Timeout, Propose Map.empty, Message APPEND_ACK 1 1 []]" 2 Map.empty "(\<lambda>_. [])" "(\<lambda>_. Fail ValueError)" 0]
  by simp

text \<open>
  the timer makes leaders without votes, so that two nodes of a fresh three-node mesh can
  lead the same term, and one node acknowledges both: when each of the two proposes its own
  configuration, both report it as committed at index 0 and hold different configurations,
  while the third holds both.
\<close>

theorem raft_split_brain:
  assumes "dumps u \<noteq> []" "length (dumps u) < 2 ^ 16" "loads (dumps u) = Ok u"
    and "dumps v \<noteq> []" "length (dumps v) < 2 ^ 16" "loads (dumps v) = Ok v"
  shows "let a = raft_run dumps loads [Timeout, Propose u, Message APPEND_ACK 1 0 []] (raft_init 0 2);
             b = raft_run dumps loads [Timeout, Propose v, Message APPEND_ACK 1 0 []] (raft_init 1 2);
             c = raft_run dumps loads [Message APPEND_ENTRIES 1 0 (dumps u)] (raft_init 2 2);
             c' = raft_step dumps loads (Message APPEND_ENTRIES 1 0 (dumps v)) c
         in current_term a = current_term b \<and> state a = LEADER \<and> state b = LEADER \<and>
            snd (raft_step dumps loads (Message APPEND_ENTRIES 1 0 (dumps u)) (raft_init 2 2)) =
              [\<lparr>msg_kind = APPEND_ACK, msg_term = 1, log_index = 0\<rparr>] \<and>
            snd c' = [\<lparr>msg_kind = APPEND_ACK, msg_term = 1, log_index = 0\<rparr>] \<and>
            snd (finish u 0 a) \<and> snd (finish v 0 b) \<and>
            replicated (fst (finish u 0 a)) = u \<and> replicated (fst (finish v 0 b)) = v \<and>
            replicated (fst c') = u ++ v"
proof -
  note kernel = raft_run_def raft_init_def election_timeout_def propose_def pack_header_def
    process_raft_message_def sync_term_def handle_ack_def handle_append_def store_entry_def finish_def Let_def
  have a: "raft_run dumps loads [Timeout, Propose w, Message APPEND_ACK 1 0 []] (raft_init k 2) =
      \<lparr>node_id = k, peers = 2, state = LEADER, current_term = 1, voted_for = None, entries = [dumps w],
       commit_index = 0, replicated = Map.empty, commit_waiters = [0 \<mapsto> Resolved], append_acks = [0 \<mapsto> 1]\<rparr>"
    if "w \<in> {u, v}" for w k
    using assms(2,5) that by (auto simp: kernel)
  have c: "raft_step dumps loads (Message APPEND_ENTRIES 1 0 (dumps u)) (raft_init 2 2) =
      (\<lparr>node_id = 2, peers = 2, state = FOLLOWER, current_term = 1, voted_for = None, entries = [dumps u],
        commit_index = 0, replicated = u, commit_waiters = Map.empty, append_acks = Map.empty\<rparr>,
       [\<lparr>msg_kind = APPEND_ACK, msg_term = 1, log_index = 0\<rparr>])"
    using assms(1,3) by (simp add: kernel)
  have c2: "raft_step dumps loads (Message APPEND_ENTRIES 1 0 (dumps v))
      \<lparr>node_id = 2, peers = 2, state = FOLLOWER, current_term = 1, voted_for = None, entries = [dumps u],
        commit_index = 0, replicated = u, commit_waiters = Map.empty, append_acks = Map.empty\<rparr> =
      (\<lparr>node_id = 2, peers = 2, state = FOLLOWER, current_term = 1, voted_for = None, entries = [dumps v],
        commit_index = 0, replicated = u ++ v, commit_waiters = Map.empty, append_acks = Map.empty\<rparr>,
       [\<lparr>msg_kind = APPEND_ACK, msg_term = 1, log_index = 0\<rparr>])"
    using assms(4,6) by (simp add: kernel)
  have one: "raft_run dumps loads [e] n = fst (raft_step dumps loads e n)" for e n
    by (simp add: raft_run_def)
  have uv: "u \<in> {u, v}" "v \<in> {u, v}" by simp_all
  show ?thesis
    unfolding Let_def one c fst_conv c2 snd_conv a [OF uv(1)] a [OF uv(2)] by (simp add: finish_def)
qed

theorem raft_split_brain_witness:
  "\<exists>dumps loads.
     replicated (fst (finish [''k'' \<mapsto> JNull] 0
       (raft_run dumps loads [Timeout, Propose [''k'' \<mapsto> JNull], Message APPEND_ACK 1 0 []] (raft_init 0 2)))) =
       [''k'' \<mapsto> JNull] \<and>
     replicated (fst (finish Map.empty 0
       (raft_run dumps loads [Timeout, Propose Map.empty, Message APPEND_ACK 1 0 []] (raft_init 1 2)))) = Map.empty"
proof (intro exI)
  let ?dumps = "\<lambda>w :: payload. if w ''k'' = None then [0] else [1] :: byte list"
  let ?loads = "\<lambda>b. if b = [0] then Ok Map.empty else Ok [''k'' \<mapsto> JNull] :: fault + payload"
  show "replicated (fst (finish [''k'' \<mapsto> JNull] 0
       (raft_run ?dumps ?loads [Timeout, Propose [''k'' \<mapsto> JNull], Message APPEND_ACK 1 0 []] (raft_init 0 2)))) =
       [''k'' \<mapsto> JNull] \<and>
     replicated (fst (finish Map.empty 0
       (raft_run ?dumps ?loads [Timeout, Propose Map.empty, Message APPEND_ACK 1 0 []] (raft_init 1 2)))) = Map.empty"
    using raft_split_brain [of ?dumps "[''k'' \<mapsto> JNull]" ?loads Map.empty, unfolded Let_def]
    by (elim meta_impE) (simp_all only: simp_thms, simp_all)
qed

end
