(* ===== verification/Cordic.thy ===== *)
theory Cordic
  imports Prelude
begin

text \<open>
  \<^verbatim>\<open>cordic_trig_accelerator.py\<close>: the integer kernel with its 32-bit wrap-around and the two
  entry points with their buffers. Angles are binary: \<open>2 ^ 31\<close> is a half turn. Converting a
  float sample to \<^verbatim>\<open>int32\<close> is a parameter, because C leaves it undefined out of range.
\<close>

section \<open>The kernel\<close>

type_synonym q31 = "32 word"

definition ATAN_TABLE :: "q31 list" where
  "ATAN_TABLE = [536870912, 316933406, 167414882, 85004756, 42667331, 21354465, 10679838, 5340245,
     2670163, 1335087, 667544, 333772, 166886, 83443, 41722, 20861, 10430, 5215, 2608, 1304, 652, 326,
     163, 81, 41, 20, 10, 5, 3, 1, 1, 0]"

definition CORDIC_GAIN_INV :: int where
  "CORDIC_GAIN_INV = 1304095400"

definition PI_OVER_2 :: q31 where
  "PI_OVER_2 = 1073741824"

text \<open>\<^verbatim>\<open>np.int32((np.int64(x) * CORDIC_GAIN_INV) >> 31)\<close>; the product fits 64 bits.\<close>

definition gain :: "q31 \<Rightarrow> q31" where
  "gain x = word_of_int (drop_bit 31 (sint x * CORDIC_GAIN_INV))"

definition vector_step :: "nat \<Rightarrow> q31 \<times> q31 \<times> q31 \<Rightarrow> q31 \<times> q31 \<times> q31" where
  "vector_step j v = (case v of (x, y, z) \<Rightarrow>
     if 0 \<le>s y
     then (x + signed_drop_bit j y, y - signed_drop_bit j x, z + ATAN_TABLE ! j)
     else (x - signed_drop_bit j y, y + signed_drop_bit j x, z - ATAN_TABLE ! j))"

definition vector_fold :: "q31 \<times> q31 \<times> q31 \<Rightarrow> q31 \<times> q31 \<times> q31" where
  "vector_fold v = (case v of (x, y, z) \<Rightarrow>
     if x <s 0 then if 0 \<le>s y then (y, - x, z + PI_OVER_2) else (- y, x, z - PI_OVER_2)
     else (x, y, z))"

definition rotate_step :: "nat \<Rightarrow> q31 \<times> q31 \<times> q31 \<Rightarrow> q31 \<times> q31 \<times> q31" where
  "rotate_step j v = (case v of (x, y, z) \<Rightarrow>
     if 0 \<le>s z
     then (x - signed_drop_bit j y, y + signed_drop_bit j x, z - ATAN_TABLE ! j)
     else (x + signed_drop_bit j y, y - signed_drop_bit j x, z + ATAN_TABLE ! j))"

definition rotate_fold :: "q31 \<times> q31 \<times> q31 \<Rightarrow> q31 \<times> q31 \<times> q31" where
  "rotate_fold v = (case v of (x, y, z) \<Rightarrow>
     if PI_OVER_2 <s z then (- y, x, z - PI_OVER_2)
     else if z <s - PI_OVER_2 then (y, - x, z + PI_OVER_2)
     else (x, y, z))"

text \<open>One element of a stride, in vectoring (\<open>mode = 0\<close>) or rotation mode; at most 32 iterations.\<close>

definition cordic_element :: "int \<Rightarrow> nat \<Rightarrow> q31 \<times> q31 \<times> q31 \<Rightarrow> q31 \<times> q31 \<times> q31" where
  "cordic_element mode iterations v =
     (if mode = 0 then
        (if fst v = 0 \<and> fst (snd v) = 0 then (0, 0, 0)
         else case fold vector_step [0..<iterations] (vector_fold v) of (x, y, z) \<Rightarrow> (gain x, 0, z))
      else case fold rotate_step [0..<iterations] (rotate_fold v) of (x, y, z) \<Rightarrow> (gain x, gain y, z))"

definition cordic_process_stride :: "int \<Rightarrow> nat \<Rightarrow> (q31 \<times> q31 \<times> q31) list \<Rightarrow> (q31 \<times> q31 \<times> q31) list" where
  "cordic_process_stride mode iterations vs = map (cordic_element mode iterations) vs"

section \<open>The entry points\<close>

record accelerator =
  stride_size :: nat
  in_buffer :: "(q31 \<times> q31 \<times> q31) list"
  out_buffer :: "(q31 \<times> q31 \<times> q31) list"

definition accelerator_init :: "nat \<Rightarrow> accelerator" where
  "accelerator_init n = \<lparr>stride_size = n, in_buffer = replicate n (0, 0, 0), out_buffer = replicate n (0, 0, 0)\<rparr>"

text \<open>Writing the inputs to the first entries and the kernel's results over the first outputs.\<close>

definition run_stride :: "int \<Rightarrow> (q31 \<times> q31 \<times> q31) list \<Rightarrow> accelerator \<Rightarrow> accelerator" where
  "run_stride mode vs a = a\<lparr>in_buffer := vs @ drop (length vs) (in_buffer a),
     out_buffer := cordic_process_stride mode 32 vs @ drop (length vs) (out_buffer a)\<rparr>"

datatype iq_input = Complex_Samples "(real \<times> real) list" | Integer_Rows "int list" "int list"

fun iq_length :: "iq_input \<Rightarrow> nat" where
  "iq_length (Complex_Samples cs) = length cs"
| "iq_length (Integer_Rows xs ys) = length xs"

fun iq_words :: "(real \<Rightarrow> q31) \<Rightarrow> iq_input \<Rightarrow> (q31 \<times> q31 \<times> q31) list" where
  "iq_words to_int32 (Complex_Samples cs) =
     map (\<lambda>(re, im). (to_int32 (re * (2 ^ 31 - 1)), to_int32 (im * (2 ^ 31 - 1)), 0)) cs"
| "iq_words to_int32 (Integer_Rows xs ys) = map (\<lambda>(x, y). (word_of_int x, word_of_int y, 0)) (zip xs ys)"

definition vectoring_cartesian_to_polar :: "(real \<Rightarrow> q31) \<Rightarrow> iq_input \<Rightarrow> accelerator \<Rightarrow>
    fault + accelerator \<times> q31 list \<times> q31 list" where
  "vectoring_cartesian_to_polar to_int32 iq a =
     (if stride_size a < iq_length iq then Fail ValueError
      else let a' = run_stride 0 (iq_words to_int32 iq) a; out = take (iq_length iq) (out_buffer a')
           in Ok (a', map fst out, map (snd \<circ> snd) out))"

definition rotation_polar_to_cartesian :: "int list \<Rightarrow> int list option \<Rightarrow> accelerator \<Rightarrow>
    fault + accelerator \<times> q31 list \<times> q31 list" where
  "rotation_polar_to_cartesian phase magnitude a =
     (let n = length phase in
      if stride_size a < n then Fail ValueError
      else case magnitude of
          Some ms \<Rightarrow> if length ms \<noteq> n \<and> length ms \<noteq> 1 then Fail ValueError
            else let xs = (if length ms = n then ms else replicate n (hd ms));
                     a' = run_stride 1 (map (\<lambda>(x, z). (word_of_int x, 0, word_of_int z)) (zip xs phase)) a
                 in Ok (a', map fst (take n (out_buffer a')), map (fst \<circ> snd) (take n (out_buffer a')))
        | None \<Rightarrow>
            let a' = run_stride 1 (map (\<lambda>z. (2147483647, 0, word_of_int z)) phase) a
            in Ok (a', map fst (take n (out_buffer a')), map (fst \<circ> snd) (take n (out_buffer a'))))"

section \<open>Convergence\<close>

text \<open>
  The angle path alone: as long as every table entry is at most the sum of the later ones and
  one unit, the rest angle stays within the sum of the entries still to come and one unit.
\<close>

definition rest :: "nat \<Rightarrow> int" where
  "rest j = 1 + sum_list (map sint (drop j ATAN_TABLE))"

definition angle_step :: "nat \<Rightarrow> int \<Rightarrow> int" where
  "angle_step j z = (if 0 \<le> z then z - sint (ATAN_TABLE ! j) else z + sint (ATAN_TABLE ! j))"

lemma atan_entries: "map sint ATAN_TABLE = [536870912, 316933406, 167414882, 85004756, 42667331, 21354465,
    10679838, 5340245, 2670163, 1335087, 667544, 333772, 166886, 83443, 41722, 20861, 10430, 5215, 2608,
    1304, 652, 326, 163, 81, 41, 20, 10, 5, 3, 1, 1, 0]"
  by (simp add: ATAN_TABLE_def)

lemma atan_length [simp]: "length ATAN_TABLE = 32"
  by (simp add: ATAN_TABLE_def)

lemma rest_Suc: "j < 32 \<Longrightarrow> rest j = sint (ATAN_TABLE ! j) + rest (Suc j)"
  by (simp add: rest_def flip: Cons_nth_drop_Suc)

lemma rest_end [simp]: "rest 32 = 1"
  by (simp add: rest_def)

lemma rest_start: "rest 0 = 1191606174"
  by (simp add: rest_def atan_entries)

lemma atan_covered: "j < 32 \<Longrightarrow> 0 \<le> sint (ATAN_TABLE ! j) \<and> sint (ATAN_TABLE ! j) \<le> rest (Suc j)"
proof -
  have "\<forall>j \<in> set [0..<32]. 0 \<le> map sint ATAN_TABLE ! j \<and>
      map sint ATAN_TABLE ! j \<le> 1 + sum_list (drop (Suc j) (map sint ATAN_TABLE))"
    unfolding atan_entries by (simp add: upt_rec numeral_nat)
  then show "j < 32 \<Longrightarrow> ?thesis" by (simp add: rest_def drop_map)
qed

lemma rest_le: "j \<le> 32 \<Longrightarrow> rest j \<le> 1191606174"
proof (induction j)
  case 0
  show ?case by (simp add: rest_start)
next
  case (Suc j)
  with rest_Suc [of j] atan_covered [of j] show ?case by simp
qed

lemma angle_step_bound: "j < 32 \<Longrightarrow> \<bar>z\<bar> \<le> rest j \<Longrightarrow> \<bar>angle_step j z\<bar> \<le> rest (Suc j)"
  using atan_covered [of j] rest_Suc [of j] by (auto simp: angle_step_def)

text \<open>Additions that stay in the 32-bit range do not wrap.\<close>

lemma sint_add_exact:
  "\<bar>sint a + sint b\<bar> < 2 ^ 31 \<Longrightarrow> sint (a + b :: q31) = sint a + sint b"
  by (simp add: sint_word_ariths signed_take_bit_int_eq_self)

lemma sint_diff_exact:
  "\<bar>sint a - sint b\<bar> < 2 ^ 31 \<Longrightarrow> sint (a - b :: q31) = sint a - sint b"
  by (simp add: sint_word_ariths signed_take_bit_int_eq_self)

lemma rotate_step_angle:
  assumes "j < 32" and "\<bar>sint z\<bar> \<le> rest j"
  shows "sint (snd (snd (rotate_step j (x, y, z)))) = angle_step j (sint z)"
proof -
  have "\<bar>angle_step j (sint z)\<bar> < 2 ^ 31"
    using angle_step_bound [OF assms] rest_le [of "Suc j"] assms(1) by simp
  then show ?thesis
    by (auto simp: rotate_step_def angle_step_def word_sle_eq intro!: sint_add_exact sint_diff_exact split: if_splits)
qed

lemma rotate_angles:
  assumes "\<bar>sint (snd (snd v))\<bar> \<le> rest 0" and "n \<le> 32"
  shows "sint (snd (snd (fold rotate_step [0..<n] v))) = fold angle_step [0..<n] (sint (snd (snd v))) \<and>
    \<bar>sint (snd (snd (fold rotate_step [0..<n] v)))\<bar> \<le> rest n"
  using assms(2)
proof (induction n)
  case 0
  with assms(1) show ?case by simp
next
  case (Suc n)
  obtain x y z where v: "fold rotate_step [0..<n] v = (x, y, z)" by (cases "fold rotate_step [0..<n] v")
  from Suc.IH [OF Suc_leD [OF Suc.prems]]
  have z: "\<bar>sint z\<bar> \<le> rest n" "sint z = fold angle_step [0..<n] (sint (snd (snd v)))"
    unfolding v snd_conv by blast+
  from Suc.prems have n: "n < 32" by simp
  from rotate_step_angle [OF n z(1)] angle_step_bound [OF n z(1)] v z(2) show ?case by simp
qed

lemma rotate_fold_angle: "\<bar>sint (snd (snd (rotate_fold v)))\<bar> \<le> 2 ^ 30"
proof -
  obtain x y z where v: "v = (x, y, z)" by (cases v)
  have range: "- (2 ^ 31) \<le> sint z" "sint z < 2 ^ 31" using sint_range_size [of z] by (simp_all add: word_size)
  have p: "sint PI_OVER_2 = 2 ^ 30" "sint (- PI_OVER_2) = - (2 ^ 30)" by (simp_all add: PI_OVER_2_def)
  consider "2 ^ 30 < sint z" | "sint z < - (2 ^ 30)" | "\<bar>sint z\<bar> \<le> 2 ^ 30" by linarith
  then show ?thesis
  proof cases
    case 1
    then have "sint (z - PI_OVER_2) = sint z - 2 ^ 30" using range p by (subst sint_diff_exact) simp_all
    with 1 range p v show ?thesis by (simp add: rotate_fold_def word_sless_alt)
  next
    case 2
    then have "sint (z + PI_OVER_2) = sint z + 2 ^ 30" using range p by (subst sint_add_exact) simp_all
    with 2 range p v show ?thesis by (simp add: rotate_fold_def word_sless_alt)
  next
    case 3
    with p v show ?thesis by (auto simp: rotate_fold_def word_sless_alt)
  qed
qed

section \<open>Properties\<close>

text \<open>
  C34: rotation mode converges for every input: no step of the angle path wraps around (it is
  the one over unbounded integers), the start angle is brought into a quarter turn either way,
  and after the 32 iterations at most one unit of the 32-bit angle measure is left.
\<close>

theorem rotation_converges:
  "\<bar>sint (snd (snd (rotate_fold (x, y, z))))\<bar> \<le> 2 ^ 30 \<and>
   sint (snd (snd (cordic_element 1 32 (x, y, z)))) =
     fold angle_step [0..<32] (sint (snd (snd (rotate_fold (x, y, z))))) \<and>
   \<bar>sint (snd (snd (cordic_element 1 32 (x, y, z))))\<bar> \<le> 1"
proof -
  have "\<bar>sint (snd (snd (rotate_fold (x, y, z))))\<bar> \<le> rest 0"
    using rotate_fold_angle [of "(x, y, z)"] by (simp add: rest_start)
  from rotate_angles [OF this, of 32] rotate_fold_angle [of "(x, y, z)"] show ?thesis
    unfolding cordic_element_def split_def by auto
qed

text \<open>
  The default magnitude of \<open>rotation_polar_to_cartesian\<close> overflows: the gain of the
  iterations is about 1.65, so that the angle 0 yields a negative cosine and a sine of 0.4.
\<close>

lemma default_magnitude_overflows:
  "map sint (fst (snd (projr (rotation_polar_to_cartesian [0] None (accelerator_init 1))))) = [- 429451173] \<and>
   map sint (snd (snd (projr (rotation_polar_to_cartesian [0] None (accelerator_init 1))))) = [859040652]"
proof -
  have "cordic_element 1 32 (2147483647, 0, 0) = (word_of_int (- 429451173), 859040652, - 1)"
    by code_simp
  then show ?thesis
    by (simp add: rotation_polar_to_cartesian_def run_stride_def cordic_process_stride_def accelerator_init_def Let_def)
qed

end
