(* ===== verification/Numerics.thy ===== *)
theory Numerics
  imports Prelude
begin

text \<open>
  Rounding to the nearest integer with ties to even, as \<^verbatim>\<open>round\<close> and \<^verbatim>\<open>np.round\<close> do it.
\<close>

definition round_even :: "real \<Rightarrow> int" where
  "round_even x = (let f = \<lfloor>x\<rfloor>; d = x - of_int f in
     if d < 1 / 2 then f else if 1 / 2 < d then f + 1 else if even f then f else f + 1)"

lemma round_even_of_int [simp]: "round_even (of_int k) = k"
  by (simp add: round_even_def)

lemma round_even_numerals [simp]:
  "round_even 0 = 0" "round_even 1 = 1" "round_even (numeral w) = numeral w"
  using round_even_of_int [of 0] round_even_of_int [of 1] round_even_of_int [of "numeral w"] by simp_all

lemma round_even_near: "\<bar>of_int (round_even x) - x\<bar> \<le> 1 / 2"
  by (simp add: round_even_def Let_def; linarith)

lemma round_even_le: "x \<le> of_int k \<Longrightarrow> round_even x \<le> k"
  by (simp add: round_even_def Let_def; linarith)

lemma round_even_ge: "of_int k \<le> x \<Longrightarrow> k \<le> round_even x"
  by (simp add: round_even_def Let_def; linarith)


lemma int_div_less: "0 < p \<Longrightarrow> a < n * p \<Longrightarrow> a div p < (n :: int)"
proof (rule ccontr)
  assume p: "0 < p" and a: "a < n * p" and "\<not> a div p < n"
  then have "n * p \<le> (a div p) * p" by (simp add: mult_right_mono)
  also have "\<dots> \<le> a" using p by (simp add: minus_mod_eq_div_mult [symmetric])
  finally show False using a by simp
qed

end
