(* ===== verification/Prn_Synthesizer.thy ===== *)
theory Prn_Synthesizer
  imports Numerics "HOL-Library.Log_Nat"
begin

unbundle bit_operations_syntax

text \<open>
  \<^verbatim>\<open>prn_code_synthesizer.py\<close>: packing a \<open>\<plusminus>1\<close> code into words, unpacking it into the lookup
  table, the fixed-point phase accumulator and the class with its table cache. The kernels run
  with \<^verbatim>\<open>boundscheck=False\<close>, so that an index outside an array is the fault \<open>OutOfBounds\<close>. Every
  operation of the \<^verbatim>\<open>int64\<close> accumulator wraps around at 64 bits, and the phase kept between two
  strides is what is left of the accumulator after its conversion to a double of 53 bits.
  Steps and spacings are reals; their products with the scale are exact, as in a double.
\<close>

section \<open>Packing and unpacking\<close>

type_synonym uint32 = "32 word"

definition pack_bit :: "real list \<Rightarrow> nat \<Rightarrow> uint32 list \<Rightarrow> uint32 list" where
  "pack_bit row i ws = ws[i div 32 := ws ! (i div 32) OR push_bit (i mod 32) (if row ! i < 0 then 1 else 0)]"

definition pack_row :: "real list \<Rightarrow> uint32 list" where
  "pack_row row = fold (pack_bit row) [0..<length row] (replicate ((length row + 31) div 32) 0)"

definition pack_prn_to_bits :: "real list list \<Rightarrow> uint32 list list" where
  "pack_prn_to_bits rows = map pack_row rows"

definition unpack_bit :: "uint32 list \<Rightarrow> nat \<Rightarrow> fault + int" where
  "unpack_bit ws i = seqE (load ws (i div 32)) (\<lambda>w. Ok (1 - 2 * of_bool (bit w (i mod 32))))"

definition unpack_code_table :: "uint32 list list \<Rightarrow> nat \<Rightarrow> nat \<Rightarrow> fault + int list list" where
  "unpack_code_table tbl code_length targets =
     mapE (\<lambda>m. seqE (load tbl m) (\<lambda>ws. mapE (unpack_bit ws) [0..<code_length])) [0..<targets]"

section \<open>The phase accumulator\<close>

text \<open>Signed 64-bit arithmetic, and the double nearest to an integer.\<close>

definition i64 :: "int \<Rightarrow> int" where
  "i64 z = sint (word_of_int z :: 64 word)"

definition double_of_int :: "int \<Rightarrow> real" where
  "double_of_int z = (let e = nat (bitlen \<bar>z\<bar> - 53) in of_int (round_even (of_int z / 2 ^ e)) * 2 ^ e)"

text \<open>A chip by its fixed-point phase; a negative index counts from the end, as in the kernel.\<close>

definition chip :: "int list \<Rightarrow> nat \<Rightarrow> int \<Rightarrow> fault + int" where
  "chip lut fb phi = (let i = drop_bit fb phi; k = (if i < 0 then i + int (length lut) else i) in
     if k < 0 then Fail OutOfBounds else load lut (nat k))"

type_synonym eml = "int \<times> int \<times> int"

definition prn_sample :: "int list \<Rightarrow> int \<Rightarrow> nat \<Rightarrow> int \<Rightarrow> int \<Rightarrow> fault + eml" where
  "prn_sample lut len_fx fb spacing_fx phase_fx =
     (let e_fx = i64 (phase_fx - spacing_fx); e_fx = (if e_fx < 0 then i64 (e_fx + len_fx) else e_fx);
          l_fx = i64 (phase_fx + spacing_fx); l_fx = (if l_fx \<ge> len_fx then i64 (l_fx - len_fx) else l_fx)
      in seqE (chip lut fb e_fx) (\<lambda>e. seqE (chip lut fb phase_fx) (\<lambda>p.
         seqE (chip lut fb l_fx) (\<lambda>l. Ok (e, p, l)))))"

fun prn_loop :: "int list \<Rightarrow> int \<Rightarrow> nat \<Rightarrow> int \<Rightarrow> int \<Rightarrow> nat \<Rightarrow> int \<Rightarrow> fault + int \<times> eml list" where
  "prn_loop lut len_fx fb spacing_fx step_fx 0 phase_fx = Ok (phase_fx, [])"
| "prn_loop lut len_fx fb spacing_fx step_fx (Suc n) phase_fx =
     (let phase_fx = (if phase_fx \<ge> len_fx then i64 (phase_fx - len_fx) else phase_fx) in
      seqE (prn_sample lut len_fx fb spacing_fx phase_fx) (\<lambda>r.
      seqE (prn_loop lut len_fx fb spacing_fx step_fx n (i64 (phase_fx + step_fx))) (\<lambda>(phi, rs).
        Ok (phi, r # rs))))"

record synth =
  stride_len :: nat
  code_length :: nat
  frac_bits :: nat
  code_lut :: "int list list"
  code_phases :: "real list"
  replicas :: "eml list list"
  cached_table :: "(nat \<times> int) option"

definition scale :: "synth \<Rightarrow> real" where
  "scale s = of_int (i64 (push_bit (frac_bits s) 1))"

text \<open>One target of the kernel: the phase it enters with is rounded to fixed point.\<close>

definition synthesize_target :: "synth \<Rightarrow> real list \<Rightarrow> real \<Rightarrow> nat \<Rightarrow> fault + real \<times> eml list" where
  "synthesize_target s steps spacing m =
     seqE (load (code_phases s) m) (\<lambda>ph. seqE (load steps m) (\<lambda>st. seqE (load (code_lut s) m) (\<lambda>lut.
       seqE (prn_loop lut (i64 (push_bit (frac_bits s) (int (code_length s)))) (frac_bits s)
               (i64 (round_even (spacing * scale s))) (i64 (round_even (st * scale s))) (stride_len s)
               (i64 (round_even (ph * scale s))))
            (\<lambda>(phi, rs). Ok (double_of_int phi / scale s, rs)))))"

definition synthesize_prn_replicas :: "real list \<Rightarrow> real \<Rightarrow> synth \<Rightarrow> fault + synth" where
  "synthesize_prn_replicas steps spacing s =
     seqE (mapE (synthesize_target s steps spacing) [0..<length (replicas s)]) (\<lambda>rs.
       Ok (s\<lparr>code_phases := map fst rs, replicas := map snd rs\<rparr>))"

section \<open>The class\<close>

text \<open>Construction runs the kernel once on a table of zeros and then clears the phases.\<close>

definition synth_init :: "nat \<Rightarrow> nat \<Rightarrow> nat \<Rightarrow> nat \<Rightarrow> fault + synth" where
  "synth_init targets stride code_len fb =
     seqE (unpack_code_table (replicate targets (replicate ((code_len + 31) div 32) 0)) code_len targets) (\<lambda>lut.
     seqE (synthesize_prn_replicas (replicate targets (1 / 4)) (1 / 2)
         \<lparr>stride_len = stride, code_length = code_len, frac_bits = fb, code_lut = lut,
          code_phases = replicate targets 0, replicas = replicate targets (replicate stride (0, 0, 0)),
          cached_table = None\<rparr>)
       (\<lambda>s. Ok (s\<lparr>code_phases := replicate targets 0\<rparr>)))"

text \<open>The signature of a table: four of its words.\<close>

definition table_sig :: "uint32 list list \<Rightarrow> fault + int" where
  "table_sig tbl = (case tbl of
       [] \<Rightarrow> Fail IndexError
     | row # rows \<Rightarrow> (let nw = length row in
         if nw = 0 then Fail IndexError
         else Ok (uint (row ! 0) XOR push_bit 1 (uint (last tbl ! (nw - 1))) XOR
                  push_bit 2 (uint (row ! (nw div 2))) XOR push_bit 3 (uint (last tbl ! 0)))))"

text \<open>A table is passed with the identity of its object.\<close>

definition refresh_lut :: "nat \<Rightarrow> uint32 list list \<Rightarrow> synth \<Rightarrow> fault + synth" where
  "refresh_lut obj tbl s = seqE (table_sig tbl) (\<lambda>sig.
     if cached_table s = Some (obj, sig) then Ok s
     else seqE (unpack_code_table tbl (code_length s) (length (code_lut s))) (\<lambda>lut.
            Ok (s\<lparr>code_lut := lut, cached_table := Some (obj, sig)\<rparr>)))"

definition synthesize_stride :: "nat \<Rightarrow> uint32 list list \<Rightarrow> real list \<Rightarrow> real \<Rightarrow> synth \<Rightarrow> fault + synth" where
  "synthesize_stride obj tbl steps spacing s =
     seqE (refresh_lut obj tbl s) (synthesize_prn_replicas steps spacing)"

text \<open>A run of strides over one table, with the steps and the spacing of each, and the replicas
  of every stride.\<close>

fun synth_run :: "nat \<Rightarrow> uint32 list list \<Rightarrow> (real list \<times> real) list \<Rightarrow> synth \<Rightarrow>
    fault + synth \<times> eml list list list" where
  "synth_run obj tbl [] s = Ok (s, [])"
| "synth_run obj tbl ((steps, spacing) # xs) s =
     seqE (synthesize_stride obj tbl steps spacing s) (\<lambda>s'.
     seqE (synth_run obj tbl xs s') (\<lambda>(s'', outs). Ok (s'', replicas s' # outs)))"

section \<open>Packing then unpacking\<close>

definition sign_chip :: "real \<Rightarrow> int" where
  "sign_chip x = (if x < 0 then - 1 else 1)"

lemma pack_prefix:
  assumes "n \<le> length row"
  defines "ws \<equiv> fold (pack_bit row) [0..<n] (replicate ((length row + 31) div 32) 0)"
  shows "length ws = (length row + 31) div 32"
    and "\<And>w b. w < length ws \<Longrightarrow> b < 32 \<Longrightarrow> bit (ws ! w) b \<longleftrightarrow> 32 * w + b < n \<and> row ! (32 * w + b) < 0"
  using assms(1) unfolding ws_def
proof (induction n)
  case 0
  { case 1 then show ?case by simp }
  { case 2 then show ?case by simp }
next
  case (Suc n)
  let ?v = "fold (pack_bit row) [0..<n] (replicate ((length row + 31) div 32) 0)"
  { case 1 with Suc.IH(1) show ?case by (simp add: pack_bit_def) }
  {
    case (2 w b)
    have n: "n = 32 * (n div 32) + n mod 32" by simp
    have "32 * w + b < Suc n \<longleftrightarrow> 32 * w + b < n \<or> (w = n div 32 \<and> b = n mod 32)"
    proof -
      have "32 * w + b = n \<Longrightarrow> w = n div 32 \<and> b = n mod 32" using 2(2) by auto
      with n show ?thesis by (auto simp: less_Suc_eq)
    qed
    moreover have "w = n div 32 \<Longrightarrow> b = n mod 32 \<Longrightarrow> 32 * w + b = n" by simp
    ultimately show ?case
      using 2 Suc.IH(1) Suc.IH(2) [of w b]
      by (auto simp: pack_bit_def nth_list_update bit_or_iff bit_push_bit_iff bit_1_iff)
  }
qed


lemma unpack_pack_row:
  "mapE (unpack_bit (pack_row row)) [0..<length row] = Ok (map sign_chip row)"
proof -
  have "unpack_bit (pack_row row) i = Ok (sign_chip (row ! i))" if "i < length row" for i
  proof -
    from pack_prefix(1) [of "length row" row] that have len: "i div 32 < length (pack_row row)"
      by (simp add: pack_row_def; linarith)
    then have "bit (pack_row row ! (i div 32)) (i mod 32) \<longleftrightarrow> row ! i < 0"
      using pack_prefix(2) [of "length row" row "i div 32" "i mod 32"] that by (simp add: pack_row_def)
    with len show ?thesis by (simp add: unpack_bit_def load_def sign_chip_def)
  qed
  then have "mapE (unpack_bit (pack_row row)) [0..<length row] = Ok (map (\<lambda>i. sign_chip (row ! i)) [0..<length row])"
    by (intro mapE_Ok) simp
  also have "map (\<lambda>i. sign_chip (row ! i)) [0..<length row] = map sign_chip row"
    by (rule nth_equalityI) simp_all
  finally show ?thesis .
qed

lemma unpack_pack:
  assumes "\<forall>row \<in> set rows. length row = n"
  shows "unpack_code_table (pack_prn_to_bits rows) n (length rows) = Ok (map (map sign_chip) rows)"
proof -
  have "unpack_code_table (pack_prn_to_bits rows) n (length rows) =
      Ok (map (\<lambda>m. map sign_chip (rows ! m)) [0..<length rows])"
    unfolding unpack_code_table_def
  proof (rule mapE_Ok)
    fix m
    assume "m \<in> set [0..<length rows]"
    then have m: "m < length rows" by simp
    with assms have "length (rows ! m) = n" by simp
    with unpack_pack_row [of "rows ! m"] m
    show "seqE (load (pack_prn_to_bits rows) m) (\<lambda>ws. mapE (unpack_bit ws) [0..<n]) = Ok (map sign_chip (rows ! m))"
      by (simp add: load_def pack_prn_to_bits_def)
  qed
  also have "map (\<lambda>m. map sign_chip (rows ! m)) [0..<length rows] = map (map sign_chip) rows"
    by (rule nth_equalityI) simp_all
  finally show ?thesis .
qed

section \<open>The accumulator is the phase modulo the code length\<close>

text \<open>The chip of a code at any phase, in fixed point.\<close>

definition chip_at :: "real list \<Rightarrow> nat \<Rightarrow> int \<Rightarrow> int" where
  "chip_at row fb phi = sign_chip (row ! nat (phi mod (int (length row) * 2 ^ fb) div 2 ^ fb))"

definition eml_at :: "real list \<Rightarrow> nat \<Rightarrow> int \<Rightarrow> int \<Rightarrow> eml" where
  "eml_at row fb sp phi = (chip_at row fb (phi - sp), chip_at row fb phi, chip_at row fb (phi + sp))"

text \<open>
  The head room: two code lengths in fixed point fit the 53 bits of a double. The default of
  32 fractional bits leaves room for codes of \<open>2 ^ 20\<close> chips.
\<close>

definition headroom :: "nat \<Rightarrow> nat \<Rightarrow> bool" where
  "headroom n fb \<longleftrightarrow> 2 * (int n * 2 ^ fb) \<le> 2 ^ 53"

lemma i64_id: "- (2 ^ 53) \<le> z \<Longrightarrow> z \<le> 2 ^ 53 \<Longrightarrow> i64 z = z"
  by (simp add: i64_def sint_sbintrunc' signed_take_bit_int_eq_self)

lemma double_exact:
  assumes "\<bar>z\<bar> < 2 ^ 53"
  shows "double_of_int z = of_int z"
proof -
  have "bitlen \<bar>z\<bar> \<le> 53"
  proof (cases "z = 0")
    case False
    with assms bitlen_le_iff_power [of "\<bar>z\<bar>" 53] show ?thesis by simp
  qed (simp add: bitlen_def floorlog_def)
  then show ?thesis by (simp add: double_of_int_def)
qed

text \<open>Without it the length of a code wraps around: 1023 chips with 54 fractional bits.\<close>

lemma length_wraps: "i64 (push_bit 54 1023) = - (2 ^ 54)"
  by (simp add: i64_def)

lemma chip_at_cong: "phi mod (int (length row) * 2 ^ fb) = psi mod (int (length row) * 2 ^ fb) \<Longrightarrow>
    chip_at row fb phi = chip_at row fb psi"
  by (simp add: chip_at_def)

lemma chip_Ok:
  assumes "0 \<le> phi" and "phi < int (length row) * 2 ^ fb"
  shows "chip (map sign_chip row) fb phi = Ok (chip_at row fb phi)"
proof -
  have d: "drop_bit fb phi = phi div 2 ^ fb" by (simp add: drop_bit_eq_div)
  have "phi div 2 ^ fb < int (length row)" using assms(2) by (intro int_div_less) simp_all
  moreover have "0 \<le> phi div 2 ^ fb" using assms(1) by (simp add: pos_imp_zdiv_nonneg_iff)
  ultimately show ?thesis using assms by (simp add: chip_def Let_def d load_def chip_at_def nat_less_iff)
qed

lemma sample_Ok:
  assumes "0 \<le> phi" "phi < int (length row) * 2 ^ fb" "0 \<le> sp" "sp \<le> int (length row) * 2 ^ fb"
    and "headroom (length row) fb"
  shows "prn_sample (map sign_chip row) (int (length row) * 2 ^ fb) fb sp phi = Ok (eml_at row fb sp phi)"
proof -
  let ?L = "int (length row) * 2 ^ fb"
  have e: "chip (map sign_chip row) fb (if phi - sp < 0 then phi - sp + ?L else phi - sp) = Ok (chip_at row fb (phi - sp))"
    using assms chip_Ok [of "phi - sp" row fb] chip_Ok [of "phi - sp + ?L" row fb]
      chip_at_cong [of "phi - sp + ?L" row fb "phi - sp"] by auto
  have l: "chip (map sign_chip row) fb (if ?L \<le> phi + sp then phi + sp - ?L else phi + sp) = Ok (chip_at row fb (phi + sp))"
    using assms chip_Ok [of "phi + sp" row fb] chip_Ok [of "phi + sp - ?L" row fb]
      chip_at_cong [of "phi + sp - ?L" row fb "phi + sp"] by auto
  have L: "2 * ?L \<le> 2 ^ 53" using assms(5) by (simp add: headroom_def)
  have w: "i64 (phi - sp) = phi - sp" "i64 (phi + sp) = phi + sp" using assms(1-4) L by (auto intro!: i64_id)
  have we: "(if phi - sp < 0 then i64 (phi - sp + ?L) else phi - sp) = (if phi - sp < 0 then phi - sp + ?L else phi - sp)"
    using assms(1-4) L by (auto intro!: i64_id)
  have wl: "(if ?L \<le> phi + sp then i64 (phi + sp - ?L) else phi + sp) = (if ?L \<le> phi + sp then phi + sp - ?L else phi + sp)"
    using assms(1-4) L by (auto intro!: i64_id)
  show ?thesis unfolding prn_sample_def Let_def w we wl using e l chip_Ok [OF assms(1,2)] by (simp add: eml_at_def)
qed

lemma eml_at_cong:
  assumes "phi mod (int (length row) * 2 ^ fb) = psi mod (int (length row) * 2 ^ fb)"
  shows "eml_at row fb sp phi = eml_at row fb sp psi"
  using mod_add_cong [OF assms refl, of sp] mod_diff_cong [OF assms refl, of sp] assms
  by (simp add: eml_at_def chip_at_def)

text \<open>Bounds of the accumulator between samples: at most one length above the code.\<close>

definition phase_ok :: "nat \<Rightarrow> nat \<Rightarrow> int \<Rightarrow> bool" where
  "phase_ok n fb phi \<longleftrightarrow> 0 \<le> phi \<and> phi < 2 * (int n * 2 ^ fb)"

lemma loop_Ok:
  assumes "row \<noteq> []" "phase_ok (length row) fb phi" "0 \<le> sp" "sp \<le> int (length row) * 2 ^ fb"
    "0 \<le> st" "st \<le> int (length row) * 2 ^ fb" "headroom (length row) fb"
  shows "\<exists>phi'. prn_loop (map sign_chip row) (int (length row) * 2 ^ fb) fb sp st n phi =
      Ok (phi', map (\<lambda>i. eml_at row fb sp (phi + int i * st)) [0..<n]) \<and> phase_ok (length row) fb phi' \<and>
    phi' mod (int (length row) * 2 ^ fb) = (phi + int n * st) mod (int (length row) * 2 ^ fb)"
  using assms(2)
proof (induction n arbitrary: phi)
  case 0
  then show ?case by simp
next
  case (Suc n)
  let ?L = "int (length row) * 2 ^ fb"
  define psi where "psi = (if ?L \<le> phi then phi - ?L else phi)"
  have L: "0 < ?L" using assms(1) by simp
  have "psi mod ?L = phi mod ?L" by (simp add: psi_def)
  then have psi: "0 \<le> psi" "psi < ?L" "psi mod ?L = phi mod ?L"
    using Suc.prems by (auto simp: psi_def phase_ok_def)
  have room: "2 * ?L \<le> 2 ^ 53" using assms(7) by (simp add: headroom_def)
  have w: "(if ?L \<le> phi then i64 (phi - ?L) else phi) = psi"
    using Suc.prems L room unfolding psi_def phase_ok_def by (auto intro!: i64_id)
  have w2: "i64 (psi + st) = psi + st" using psi(1,2) assms(5,6) room by (intro i64_id) linarith+
  have "phase_ok (length row) fb (psi + st)" using psi assms(5,6) by (simp add: phase_ok_def)
  from Suc.IH [OF this] obtain phi' where
    rec: "prn_loop (map sign_chip row) ?L fb sp st n (psi + st) =
        Ok (phi', map (\<lambda>i. eml_at row fb sp (psi + st + int i * st)) [0..<n])"
      "phase_ok (length row) fb phi'" "phi' mod ?L = (psi + st + int n * st) mod ?L" by blast
  have shift: "(psi + k) mod ?L = (phi + k) mod ?L" for k using psi(3) by (rule mod_add_cong) simp
  have tail: "eml_at row fb sp (psi + st + int i * st) = eml_at row fb sp (phi + int (Suc i) * st)" for i
    using shift [of "st + int i * st"] by (intro eml_at_cong) (simp add: algebra_simps)
  have "map (\<lambda>i. eml_at row fb sp (phi + int i * st)) [0..<Suc n] =
      eml_at row fb sp phi # map (\<lambda>i. eml_at row fb sp (phi + int (Suc i) * st)) [0..<n]"
    by (simp add: upt_conv_Cons map_Suc_upt [symmetric] del: upt_Suc)
  moreover have "eml_at row fb sp psi = eml_at row fb sp phi" by (rule eml_at_cong [OF psi(3)])
  moreover have "phi' mod ?L = (phi + int (Suc n) * st) mod ?L"
    using rec(3) shift [of "st + int n * st"] by (simp add: algebra_simps)
  ultimately show ?case
    using rec(1,2) sample_Ok [OF psi(1,2) assms(3,4,7)] by (simp add: w w2 Let_def tail del: upt_Suc)
qed


section \<open>Strides\<close>

definition fx :: "nat \<Rightarrow> real \<Rightarrow> int" where
  "fx fb x = round_even (x * 2 ^ fb)"

lemma fx_bounds: "0 \<le> x \<Longrightarrow> x \<le> real n \<Longrightarrow> 0 \<le> fx fb x \<and> fx fb x \<le> int n * 2 ^ fb"
  unfolding fx_def by (intro conjI round_even_ge round_even_le) (simp_all add: mult_right_mono)

lemma fx_exact: "fx fb (of_int k / 2 ^ fb) = k"
  by (simp add: fx_def)

definition replica_stride_ok :: "real list list \<Rightarrow> real list \<times> real \<Rightarrow> bool" where
  "replica_stride_ok rows x \<longleftrightarrow> length (fst x) = length rows \<and> 0 \<le> snd x \<and>
     (\<forall>m < length rows. 0 \<le> fst x ! m \<and> fst x ! m \<le> length (rows ! m) \<and> snd x \<le> length (rows ! m))"

text \<open>The replicas of one stride, by the whole phase that each target has run through so far.\<close>

definition stride_replicas :: "real list list \<Rightarrow> nat \<Rightarrow> nat \<Rightarrow> (nat \<Rightarrow> int) \<Rightarrow> real list \<times> real \<Rightarrow> eml list list" where
  "stride_replicas rows fb n T x = map (\<lambda>m. map (\<lambda>i. eml_at (rows ! m) fb (fx fb (snd x))
     (T m + int i * fx fb (fst x ! m))) [0..<n]) [0..<length rows]"

definition lut_ready :: "real list list \<Rightarrow> synth \<Rightarrow> bool" where
  "lut_ready rows s \<longleftrightarrow> code_lut s = map (map sign_chip) rows"

definition synth_inv :: "real list list \<Rightarrow> nat \<Rightarrow> nat \<Rightarrow> (nat \<Rightarrow> int) \<Rightarrow> synth \<Rightarrow> bool" where
  "synth_inv rows n fb T s \<longleftrightarrow> stride_len s = n \<and> frac_bits s = fb \<and> length (replicas s) = length rows \<and>
     length (code_phases s) = length rows \<and> (\<forall>row \<in> set rows. length row = code_length s) \<and> 0 < code_length s \<and>
     headroom (code_length s) fb \<and>
     (\<forall>m < length rows. \<exists>phi. code_phases s ! m = of_int phi / 2 ^ fb \<and> phase_ok (code_length s) fb phi \<and>
        phi mod (int (code_length s) * 2 ^ fb) = T m mod (int (code_length s) * 2 ^ fb))"

lemma target_step:
  assumes "synth_inv rows n fb T s" "lut_ready rows s" "replica_stride_ok rows (steps, sp)" "m < length rows"
  shows "\<exists>phi. synthesize_target s steps sp m = Ok (of_int phi / 2 ^ fb,
      map (\<lambda>i. eml_at (rows ! m) fb (fx fb sp) (T m + int i * fx fb (steps ! m))) [0..<n]) \<and>
    phase_ok (code_length s) fb phi \<and>
    phi mod (int (code_length s) * 2 ^ fb) = (T m + int n * fx fb (steps ! m)) mod (int (code_length s) * 2 ^ fb)"
proof -
  let ?row = "rows ! m" and ?L = "int (code_length s) * 2 ^ fb"
  from assms(1,4) obtain phi where phi: "code_phases s ! m = of_int phi / 2 ^ fb"
    "phase_ok (code_length s) fb phi" "phi mod ?L = T m mod ?L" by (auto simp: synth_inv_def)
  have "?row \<in> set rows" using assms(4) by simp
  with assms(1) have "length ?row = code_length s" "0 < code_length s" by (simp_all add: synth_inv_def)
  then have len: "length ?row = code_length s" "?row \<noteq> []" "stride_len s = n" "frac_bits s = fb"
    "length (code_phases s) = length rows" using assms(1) by (auto simp: synth_inv_def)
  have st: "0 \<le> fx fb (steps ! m)" "fx fb (steps ! m) \<le> ?L" "0 \<le> fx fb sp" "fx fb sp \<le> ?L"
    using fx_bounds [of "steps ! m" "code_length s" fb] fx_bounds [of sp "code_length s" fb] assms(3,4) len(1)
    by (auto simp: replica_stride_ok_def)
  have room: "headroom (code_length s) fb" "2 * ?L \<le> 2 ^ 53" using assms(1) by (simp_all add: synth_inv_def headroom_def)
  from loop_Ok [OF len(2), of fb phi "fx fb sp" "fx fb (steps ! m)" n] phi(2) st len(1) room(1) obtain phi' where
    run: "prn_loop (map sign_chip ?row) ?L fb (fx fb sp) (fx fb (steps ! m)) n phi =
        Ok (phi', map (\<lambda>i. eml_at ?row fb (fx fb sp) (phi + int i * fx fb (steps ! m))) [0..<n])"
      "phase_ok (code_length s) fb phi'" "phi' mod ?L = (phi + int n * fx fb (steps ! m)) mod ?L" by auto
  have shift: "(phi + k) mod ?L = (T m + k) mod ?L" for k using phi(3) by (rule mod_add_cong) simp
  have "eml_at ?row fb (fx fb sp) (phi + k) = eml_at ?row fb (fx fb sp) (T m + k)" for k
    using shift [of k] len(1) by (intro eml_at_cong) simp
  moreover have "length steps = length rows" using assms(3) by (simp add: replica_stride_ok_def)
  moreover have "i64 (push_bit fb (int (code_length s))) = ?L"
  proof -
    have "0 \<le> ?L" by simp
    with room(2) have "i64 ?L = ?L" by (intro i64_id) linarith+
    then show ?thesis by (simp add: push_bit_eq_mult)
  qed
  moreover have "scale s = 2 ^ fb"
  proof -
    have "(2 :: int) ^ fb \<le> ?L" using \<open>0 < code_length s\<close> by simp
    moreover have "(0 :: int) \<le> 2 ^ fb" by simp
    ultimately have "i64 (2 ^ fb) = 2 ^ fb" using room(2) by (intro i64_id) linarith+
    then have "i64 (push_bit fb 1) = 2 ^ fb" by (simp add: push_bit_eq_mult)
    then show ?thesis using len(4) by (simp add: scale_def)
  qed
  moreover have "i64 (fx fb sp) = fx fb sp" "i64 (fx fb (steps ! m)) = fx fb (steps ! m)" "i64 phi = phi"
    using st room(2) phi(2) by (auto simp: phase_ok_def intro!: i64_id)
  moreover have "double_of_int phi' = of_int phi'"
    using run(2) room(2) by (intro double_exact) (simp add: phase_ok_def)
  moreover have "round_even (of_int phi / 2 ^ fb * 2 ^ fb) = phi" using fx_exact [of fb phi] by (simp add: fx_def)
  ultimately show ?thesis
    using run shift assms(2,4) len phi(1)
    by (intro exI [of _ phi']) (simp add: synthesize_target_def load_def lut_ready_def fx_exact flip: fx_def)
qed

lemma replicas_step:
  assumes "synth_inv rows n fb T s" "lut_ready rows s" "replica_stride_ok rows (steps, sp)"
  shows "\<exists>s'. synthesize_prn_replicas steps sp s = Ok s' \<and> replicas s' = stride_replicas rows fb n T (steps, sp) \<and>
    synth_inv rows n fb (\<lambda>m. T m + int n * fx fb (steps ! m)) s' \<and> lut_ready rows s' \<and>
    cached_table s' = cached_table s \<and> code_length s' = code_length s"
proof -
  have "\<forall>m \<in> {..<length rows}. \<exists>phi. synthesize_target s steps sp m = Ok (of_int phi / 2 ^ fb,
      map (\<lambda>i. eml_at (rows ! m) fb (fx fb sp) (T m + int i * fx fb (steps ! m))) [0..<n]) \<and>
    phase_ok (code_length s) fb phi \<and>
    phi mod (int (code_length s) * 2 ^ fb) = (T m + int n * fx fb (steps ! m)) mod (int (code_length s) * 2 ^ fb)"
    using target_step [OF assms] by blast
  from bchoice [OF this] obtain P where P: "\<And>m. m < length rows \<Longrightarrow> synthesize_target s steps sp m = Ok (of_int (P m) / 2 ^ fb,
      map (\<lambda>i. eml_at (rows ! m) fb (fx fb sp) (T m + int i * fx fb (steps ! m))) [0..<n])"
    "\<And>m. m < length rows \<Longrightarrow> phase_ok (code_length s) fb (P m) \<and>
    P m mod (int (code_length s) * 2 ^ fb) = (T m + int n * fx fb (steps ! m)) mod (int (code_length s) * 2 ^ fb)"
    by auto
  have "mapE (synthesize_target s steps sp) [0..<length rows] = Ok (map (\<lambda>m. (of_int (P m) / 2 ^ fb,
      map (\<lambda>i. eml_at (rows ! m) fb (fx fb sp) (T m + int i * fx fb (steps ! m))) [0..<n])) [0..<length rows])"
    by (rule mapE_Ok) (simp add: P(1))
  with P(2) assms(1,2) show ?thesis
    by (auto simp: synthesize_prn_replicas_def synth_inv_def lut_ready_def stride_replicas_def)
qed


text \<open>The cache: the table it was filled from is the one of the run.\<close>

definition cache_ok :: "nat \<Rightarrow> real list list \<Rightarrow> synth \<Rightarrow> bool" where
  "cache_ok obj rows s \<longleftrightarrow> length (code_lut s) = length rows \<and> (\<forall>sig. cached_table s = Some (obj, sig) \<longrightarrow> lut_ready rows s)"

lemma table_sig_Ok:
  assumes "rows \<noteq> []" "\<forall>row \<in> set rows. length row = n" "0 < n"
  shows "\<exists>sig. table_sig (pack_prn_to_bits rows) = Ok sig"
proof -
  obtain row rs where rows: "rows = row # rs" using assms(1) by (cases rows) auto
  have "length (pack_row row) = (length row + 31) div 32"
    using pack_prefix(1) [of "length row" row] by (simp add: pack_row_def)
  with assms rows have "pack_row row \<noteq> []" by (auto simp: div_eq_0_iff)
  with rows show ?thesis by (simp add: table_sig_def pack_prn_to_bits_def Let_def)
qed

lemma refresh_step:
  assumes "rows \<noteq> []" "synth_inv rows n fb T s" "cache_ok obj rows s"
  shows "\<exists>s'. refresh_lut obj (pack_prn_to_bits rows) s = Ok s' \<and> synth_inv rows n fb T s' \<and>
    lut_ready rows s' \<and> cache_ok obj rows s'"
proof -
  have rows: "\<forall>row \<in> set rows. length row = code_length s" "0 < code_length s"
    using assms(2) by (auto simp: synth_inv_def)
  obtain sig where sig: "table_sig (pack_prn_to_bits rows) = Ok sig" using table_sig_Ok [OF assms(1) rows] by blast
  show ?thesis
  proof (cases "cached_table s = Some (obj, sig)")
    case True
    with assms sig show ?thesis by (simp add: refresh_lut_def cache_ok_def)
  next
    case False
    with unpack_pack [OF rows(1)] assms(2,3) sig show ?thesis
      by (simp add: refresh_lut_def cache_ok_def lut_ready_def synth_inv_def)
  qed
qed

lemma synth_stride_step:
  assumes "rows \<noteq> []" "synth_inv rows n fb T s" "cache_ok obj rows s" "replica_stride_ok rows (steps, sp)"
  shows "\<exists>s'. synthesize_stride obj (pack_prn_to_bits rows) steps sp s = Ok s' \<and>
    replicas s' = stride_replicas rows fb n T (steps, sp) \<and>
    synth_inv rows n fb (\<lambda>m. T m + int n * fx fb (steps ! m)) s' \<and> cache_ok obj rows s'"
proof -
  from refresh_step [OF assms(1-3)] obtain s1 where
    s1: "refresh_lut obj (pack_prn_to_bits rows) s = Ok s1" "synth_inv rows n fb T s1" "lut_ready rows s1" by blast
  from replicas_step [OF s1(2,3) assms(4)] s1(1) show ?thesis
    by (auto simp: synthesize_stride_def cache_ok_def lut_ready_def)
qed

text \<open>The reference: every stride goes on with the phase where the last one ended.\<close>

fun continuous_replicas :: "real list list \<Rightarrow> nat \<Rightarrow> nat \<Rightarrow> (nat \<Rightarrow> int) \<Rightarrow> (real list \<times> real) list \<Rightarrow>
    eml list list list" where
  "continuous_replicas rows fb n T [] = []"
| "continuous_replicas rows fb n T (x # xs) = stride_replicas rows fb n T x #
     continuous_replicas rows fb n (\<lambda>m. T m + int n * fx fb (fst x ! m)) xs"

lemma run_continuous:
  assumes "rows \<noteq> []" "synth_inv rows n fb T s" "cache_ok obj rows s" "\<forall>x \<in> set xs. replica_stride_ok rows x"
  shows "\<exists>s'. synth_run obj (pack_prn_to_bits rows) xs s = Ok (s', continuous_replicas rows fb n T xs)"
  using assms(2-4)
proof (induction xs arbitrary: T s)
  case Nil
  then show ?case by simp
next
  case (Cons x xs)
  obtain steps sp where x: "x = (steps, sp)" by (cases x)
  with Cons.prems(3) have "replica_stride_ok rows (steps, sp)" by simp
  from synth_stride_step [OF assms(1) Cons.prems(1,2) this] obtain s' where
    s': "synthesize_stride obj (pack_prn_to_bits rows) steps sp s = Ok s'"
      "replicas s' = stride_replicas rows fb n T (steps, sp)"
      "synth_inv rows n fb (\<lambda>m. T m + int n * fx fb (steps ! m)) s'" "cache_ok obj rows s'" by blast
  from Cons.IH [OF s'(3,4)] Cons.prems(3) s'(1,2) show ?case by (auto simp: x)
qed

lemma pack_ones: "pack_row (replicate n 1) = replicate ((n + 31) div 32) 0"
proof -
  have "fold (pack_bit (replicate n 1)) [0..<k] (replicate w 0) = replicate w 0" if "k \<le> n" for k w
    using that
  proof (induction k)
    case (Suc k)
    then show ?case
      by (cases "k div 32 < w") (simp_all add: pack_bit_def list_update_same_conv list_update_beyond)
  qed simp
  then show ?thesis by (simp add: pack_row_def)
qed

lemma synth_init_inv:
  assumes "\<forall>row \<in> set rows. length row = len" "0 < len" "headroom len fb"
  shows "\<exists>s. synth_init (length rows) n len fb = Ok s \<and> synth_inv rows n fb (\<lambda>_. 0) s \<and> cache_ok obj rows s"
proof -
  define k where "k = length rows"
  define ones where "ones = replicate k (replicate len (1 :: real))"
  define lut where "lut = map (map sign_chip) ones"
  define s0 where "s0 = \<lparr>stride_len = n, code_length = len, frac_bits = fb, code_lut = lut,
      code_phases = replicate k 0, replicas = replicate k (replicate n (0, 0, 0)), cached_table = None\<rparr>"
  have "unpack_code_table (pack_prn_to_bits ones) len (length ones) = Ok lut"
    unfolding lut_def by (rule unpack_pack) (simp add: ones_def)
  then have lut: "unpack_code_table (replicate k (replicate ((len + 31) div 32) 0)) len k = Ok lut"
    by (simp add: ones_def pack_prn_to_bits_def pack_ones)
  have len_ones: "length ones = k" by (simp add: ones_def)
  have inv0: "synth_inv ones n fb (\<lambda>_. 0) s0"
    using assms(2,3) by (auto simp: synth_inv_def s0_def ones_def phase_ok_def intro!: exI [of _ 0])
  have ready0: "lut_ready ones s0" by (simp add: lut_ready_def s0_def lut_def)
  have ok0: "replica_stride_ok ones (replicate k (1 / 4), 1 / 2)"
    using assms(2) by (auto simp: replica_stride_ok_def ones_def)
  from replicas_step [OF inv0 ready0 ok0] obtain s1 where s1: "synthesize_prn_replicas (replicate k (1 / 4)) (1 / 2) s0 = Ok s1"
    "synth_inv ones n fb (\<lambda>m. 0 + int n * fx fb (replicate k (1 / 4) ! m)) s1" "lut_ready ones s1"
    "cached_table s1 = cached_table s0" "code_length s1 = code_length s0"
    by blast
  have "synth_init k n len fb = Ok (s1\<lparr>code_phases := replicate k 0\<rparr>)"
    using lut s1(1) by (simp add: synth_init_def s0_def)
  moreover have "synth_inv rows n fb (\<lambda>_. 0) (s1\<lparr>code_phases := replicate k 0\<rparr>)"
    using s1(2,5) assms len_ones by (auto simp: synth_inv_def k_def phase_ok_def s0_def intro!: exI [of _ 0])
  moreover have "cache_ok obj rows (s1\<lparr>code_phases := replicate k 0\<rparr>)"
    using s1(3,4) len_ones by (simp add: cache_ok_def lut_ready_def k_def s0_def)
  ultimately show ?thesis by (auto simp: k_def)
qed

section \<open>Properties\<close>

text \<open>
  C11: as long as two code lengths in fixed point fit the 53 bits of a double (the default of
  32 fractional bits leaves room for a million chips), packing a code, constructing the
  synthesizer and running any strides over it, with steps and spacing between zero and the code
  length, yields in every stride, for every target and sample, the early, prompt and late chips of one continuous
  code phase modulo the code length: the 64-bit accumulator never wraps around, no index leaves a
  table, the single subtraction keeps the phase in range, and nothing is lost where one stride ends and the next begins.
\<close>

theorem prn_replicas_continuous:
  assumes "rows \<noteq> []" "\<forall>row \<in> set rows. length row = len" "0 < len" "headroom len fb"
    and "\<forall>x \<in> set xs. replica_stride_ok rows x"
  shows "\<exists>s s'. synth_init (length rows) n len fb = Ok s \<and>
    synth_run obj (pack_prn_to_bits rows) xs s = Ok (s', continuous_replicas rows fb n (\<lambda>_. 0) xs)"
  using synth_init_inv [OF assms(2-4), of n obj] run_continuous [OF assms(1) _ _ assms(5)] by blast

theorem prn_replicas_continuous_witness:
  "\<exists>s s'. synth_init 1 2 3 1 = Ok s \<and>
    synth_run 7 (pack_prn_to_bits [[1, - 1, - 1]]) [([1], 1 / 2), ([1 / 2], 1 / 2)] s =
      Ok (s', [[[(- 1, 1, 1), (1, - 1, - 1)]], [[(- 1, - 1, - 1), (- 1, - 1, 1)]]])"
proof -
  have "\<exists>s s'. synth_init (length [[1, - 1, - 1 :: real]]) 2 3 1 = Ok s \<and>
    synth_run 7 (pack_prn_to_bits [[1, - 1, - 1]]) [([1], 1 / 2), ([1 / 2], 1 / 2)] s =
      Ok (s', continuous_replicas [[1, - 1, - 1]] 1 2 (\<lambda>_. 0) [([1], 1 / 2), ([1 / 2], 1 / 2)])"
    by (rule prn_replicas_continuous) (auto simp: replica_stride_ok_def headroom_def)
  then show ?thesis
    by (simp add: stride_replicas_def fx_def eml_at_def chip_at_def sign_chip_def numeral_2_eq_2)
qed

text \<open>
  The signature looks at four words: a table of one target changed in place at another word
  keeps the old replicas.
\<close>

lemma in_place_edit_missed:
  assumes "cached_table s = Some (obj, sig)" "table_sig [ws] = Ok sig" "0 < k" "k < length ws - 1" "k \<noteq> length ws div 2"
  shows "refresh_lut obj [ws[k := w]] s = Ok s"
proof -
  have "table_sig [ws[k := w]] = table_sig [ws]" using assms(3-5) by (auto simp: table_sig_def Let_def)
  with assms(1,2) show ?thesis by (simp add: refresh_lut_def)
qed

end
