(* ===== verification/Hybrid_Barrier.thy ===== *)
theory Hybrid_Barrier
  imports Prelude
begin

text \<open>
  \<^verbatim>\<open>LockFreeHybridBarrier\<close> of \<^verbatim>\<open>subsystem_sync_coordinator.py\<close>: the counter under the lock, the
  spin phase that reads the generation without it, and the sleep on the condition variable.
  Every step below is one critical section or one unlocked read, so that an interleaving of
  threads is a list of steps.
\<close>

section \<open>The barrier\<close>

record barrier =
  generation :: nat
  arrival_count :: nat

definition barrier_init :: barrier where
  "barrier_init = \<lparr>generation = 0, arrival_count = 0\<rparr>"

text \<open>The first critical section of \<^verbatim>\<open>wait\<close>; the result says whether the thread is the last.\<close>

definition arrive :: "nat \<Rightarrow> barrier \<Rightarrow> barrier \<times> bool" where
  "arrive n b =
     (if arrival_count b + 1 = n then (b\<lparr>arrival_count := 0, generation := generation b + 1\<rparr>, True)
      else (b\<lparr>arrival_count := arrival_count b + 1\<rparr>, False))"

text \<open>Where a thread is: outside, or inside \<^verbatim>\<open>wait\<close> with the generation it read on arrival.\<close>

datatype thread_state = Running | Spinning nat | Sleeping nat | Parked nat

record barrier_system =
  bar :: barrier
  threads :: "nat \<Rightarrow> thread_state"
  begun :: "nat \<Rightarrow> nat"
  finished :: "nat \<Rightarrow> nat"
  masters :: nat

definition system_init :: barrier_system where
  "system_init = \<lparr>bar = barrier_init, threads = \<lambda>_. Running, begun = \<lambda>_. 0, finished = \<lambda>_. 0, masters = 0\<rparr>"

text \<open>\<^verbatim>\<open>notify_all\<close>: every parked thread has to look at the generation again.\<close>

definition wake :: "thread_state \<Rightarrow> thread_state" where
  "wake t = (case t of Parked g \<Rightarrow> Sleeping g | _ \<Rightarrow> t)"

datatype barrier_event = Arrive nat | Spin nat | Spin_Timeout nat | Sleep nat

text \<open>\<^verbatim>\<open>return False\<close> of a thread that has seen a new generation.\<close>

definition leave :: "nat \<Rightarrow> barrier_system \<Rightarrow> barrier_system" where
  "leave t s = s\<lparr>threads := (threads s)(t := Running), finished := (finished s)(t := finished s t + 1)\<rparr>"

fun barrier_exec :: "nat \<Rightarrow> barrier_event \<Rightarrow> barrier_system \<Rightarrow> barrier_system option" where
  "barrier_exec n (Arrive t) s =
     (if t < n \<and> threads s t = Running then
        (case arrive n (bar s) of
           (b, True) \<Rightarrow> Some (s\<lparr>bar := b, threads := wake \<circ> threads s, begun := (begun s)(t := begun s t + 1),
             finished := (finished s)(t := finished s t + 1), masters := masters s + 1\<rparr>)
         | (b, False) \<Rightarrow> Some (s\<lparr>bar := b, threads := (threads s)(t := Spinning (generation (bar s))),
             begun := (begun s)(t := begun s t + 1)\<rparr>))
      else None)"
| "barrier_exec n (Spin t) s =
     (case threads s t of
        Spinning g \<Rightarrow> if t < n then Some (if generation (bar s) \<noteq> g then leave t s else s) else None
      | _ \<Rightarrow> None)"
| "barrier_exec n (Spin_Timeout t) s =
     (case threads s t of
        Spinning g \<Rightarrow> if t < n then Some (s\<lparr>threads := (threads s)(t := Sleeping g)\<rparr>) else None
      | _ \<Rightarrow> None)"
| "barrier_exec n (Sleep t) s =
     (case threads s t of
        Sleeping g \<Rightarrow> if t < n
          then Some (if generation (bar s) = g then s\<lparr>threads := (threads s)(t := Parked g)\<rparr> else leave t s)
          else None
      | _ \<Rightarrow> None)"

inductive barrier_reach :: "nat \<Rightarrow> barrier_system \<Rightarrow> bool" for n where
  start: "barrier_reach n system_init"
| step: "barrier_reach n s \<Longrightarrow> barrier_exec n e s = Some s' \<Longrightarrow> barrier_reach n s'"

section \<open>The invariant\<close>

fun waits_for :: "thread_state \<Rightarrow> nat option" where
  "waits_for Running = None"
| "waits_for (Spinning g) = Some g"
| "waits_for (Sleeping g) = Some g"
| "waits_for (Parked g) = Some g"

lemma waits_for_wake [simp]: "waits_for (wake t) = waits_for t"
  by (cases t) (simp_all add: wake_def)

lemma waits_for_None [simp]: "waits_for t = None \<longleftrightarrow> t = Running"
  by (cases t) simp_all

lemma wake_facts [simp]: "wake t = Running \<longleftrightarrow> t = Running" "wake t \<noteq> Parked g"
  by (cases t; simp add: wake_def)+

definition waiting_now :: "nat \<Rightarrow> barrier_system \<Rightarrow> nat set" where
  "waiting_now n s = {t. t < n \<and> waits_for (threads s t) = Some (generation (bar s))}"

definition thread_ok :: "nat \<Rightarrow> barrier_system \<Rightarrow> nat \<Rightarrow> bool" where
  "thread_ok gen s t \<longleftrightarrow> (case waits_for (threads s t) of
       None \<Rightarrow> begun s t = gen \<and> finished s t = gen
     | Some g \<Rightarrow> begun s t = g + 1 \<and> finished s t = g \<and> (g = gen \<or> g + 1 = gen)) \<and>
     (\<forall>g. threads s t = Parked g \<longrightarrow> g = gen)"

definition barrier_inv :: "nat \<Rightarrow> barrier_system \<Rightarrow> bool" where
  "barrier_inv n s \<longleftrightarrow> arrival_count (bar s) = card (waiting_now n s) \<and> card (waiting_now n s) < n \<and>
     masters s = generation (bar s) \<and> (\<forall>t < n. thread_ok (generation (bar s)) s t)"

lemma waiting_now_finite [simp]: "finite (waiting_now n s)"
  by (rule finite_subset [of _ "{..<n}"]) (auto simp: waiting_now_def)

lemma barrier_inv_init: "0 < n \<Longrightarrow> barrier_inv n system_init"
  by (simp add: barrier_inv_def system_init_def barrier_init_def waiting_now_def thread_ok_def)

lemma leave_inv:
  assumes "barrier_inv n s" "t < n" "waits_for (threads s t) = Some g" "generation (bar s) \<noteq> g"
  shows "barrier_inv n (leave t s)"
proof -
  have "waiting_now n (leave t s) = waiting_now n s"
    using assms(3,4) by (auto simp: waiting_now_def leave_def)
  moreover have "thread_ok (generation (bar s)) (leave t s) u" if "u < n" for u
    using assms that by (auto simp: barrier_inv_def thread_ok_def leave_def split: option.splits)
  ultimately show ?thesis using assms(1) by (simp add: barrier_inv_def) (simp add: leave_def)
qed

lemma move_inv:
  assumes "barrier_inv n s" "t < n" "waits_for (threads s t) = waits_for t'"
    and "\<And>g. t' = Parked g \<Longrightarrow> g = generation (bar s)"
  shows "barrier_inv n (s\<lparr>threads := (threads s)(t := t')\<rparr>)"
proof -
  have "waiting_now n (s\<lparr>threads := (threads s)(t := t')\<rparr>) = waiting_now n s"
    using assms(3) by (auto simp: waiting_now_def)
  moreover have "thread_ok (generation (bar s)) (s\<lparr>threads := (threads s)(t := t')\<rparr>) u" if "u < n" for u
    using assms that by (auto simp: barrier_inv_def thread_ok_def split: option.splits)
  ultimately show ?thesis using assms(1) by (simp add: barrier_inv_def)
qed

text \<open>The last thread to arrive finds every other thread waiting in the current generation.\<close>

lemma last_arrival:
  assumes "barrier_inv n s" "t < n" "threads s t = Running" "arrival_count (bar s) + 1 = n" "u < n" "u \<noteq> t"
  shows "waits_for (threads s u) = Some (generation (bar s))"
proof -
  have "card (waiting_now n s) = card ({..<n} - {t})" using assms(1,2,4) by (simp add: barrier_inv_def)
  moreover have "waiting_now n s \<subseteq> {..<n} - {t}" using assms(3) by (auto simp: waiting_now_def)
  ultimately have "waiting_now n s = {..<n} - {t}" by (intro card_subset_eq) simp_all
  with assms(5,6) show ?thesis by (auto simp: waiting_now_def)
qed

lemma arrive_inv:
  assumes "barrier_inv n s" "barrier_exec n (Arrive t) s = Some s'"
  shows "barrier_inv n s'"
proof -
  from assms(2) have t: "t < n" "threads s t = Running" by (auto split: if_splits)
  then have not_waiting: "t \<notin> waiting_now n s" by (simp add: waiting_now_def)
  let ?G = "generation (bar s)"
  show ?thesis
  proof (cases "arrival_count (bar s) + 1 = n")
    case True
    have others: "waits_for (threads s u) = Some ?G" if "u < n" "u \<noteq> t" for u
      using last_arrival [OF assms(1) t True that] .
    from True assms(2) t have s': "s' = s\<lparr>bar := (bar s)\<lparr>arrival_count := 0, generation := ?G + 1\<rparr>,
        threads := wake \<circ> threads s, begun := (begun s)(t := begun s t + 1),
        finished := (finished s)(t := finished s t + 1), masters := masters s + 1\<rparr>"
      by (simp add: arrive_def)
    have "waits_for (threads s u) \<noteq> Some (?G + 1)" if "u < n" for u
      using others [OF that] t(2) by (cases "u = t") auto
    then have "waiting_now n s' = {}" by (auto simp: waiting_now_def s')
    moreover have "thread_ok (?G + 1) s' u" if "u < n" for u
      using assms(1) that t others [OF that] by (cases "u = t") (auto simp: barrier_inv_def thread_ok_def s')
    ultimately show ?thesis using assms(1) t(1) by (simp add: barrier_inv_def) (simp add: s')
  next
    case False
    with assms(2) t have s': "s' = s\<lparr>bar := (bar s)\<lparr>arrival_count := arrival_count (bar s) + 1\<rparr>,
        threads := (threads s)(t := Spinning ?G), begun := (begun s)(t := begun s t + 1)\<rparr>"
      by (simp add: arrive_def)
    have "waiting_now n s' = insert t (waiting_now n s)" using t by (auto simp: waiting_now_def s')
    then have "card (waiting_now n s') = card (waiting_now n s) + 1" using not_waiting by simp
    moreover have "thread_ok ?G s' u" if "u < n" for u
      using assms(1) that t by (auto simp: barrier_inv_def thread_ok_def s' split: option.splits)
    ultimately show ?thesis using assms(1) False by (simp add: barrier_inv_def) (simp add: s')
  qed
qed

lemma barrier_exec_inv:
  assumes "barrier_inv n s" "barrier_exec n e s = Some s'"
  shows "barrier_inv n s'"
proof (cases e)
  case (Arrive t)
  with assms arrive_inv show ?thesis by blast
next
  case (Spin t)
  with assms leave_inv [OF assms(1), of t] show ?thesis
    by (auto split: thread_state.splits if_splits)
next
  case (Spin_Timeout t)
  with assms obtain g where "threads s t = Spinning g" "t < n" "s' = s\<lparr>threads := (threads s)(t := Sleeping g)\<rparr>"
    by (auto split: thread_state.splits if_splits)
  with move_inv [OF assms(1), of t "Sleeping g"] show ?thesis by simp
next
  case (Sleep t)
  with assms obtain g where g: "threads s t = Sleeping g" "t < n"
    "s' = (if generation (bar s) = g then s\<lparr>threads := (threads s)(t := Parked g)\<rparr> else leave t s)"
    by (auto split: thread_state.splits if_splits)
  with leave_inv [OF assms(1), of t g] move_inv [OF assms(1), of t "Parked g"] show ?thesis by auto
qed

lemma barrier_reach_inv: "barrier_reach n s \<Longrightarrow> 0 < n \<Longrightarrow> barrier_inv n s"
  by (induction rule: barrier_reach.induct) (blast intro: barrier_inv_init barrier_exec_inv)+

section \<open>Properties\<close>

text \<open>
  C12: however the steps of the threads interleave, no thread returns from its \<open>k\<close>-th wait before
  every thread has begun its \<open>k\<close>-th wait, no thread is more than one wait ahead, and exactly one
  thread per generation is told to be the master.
\<close>

theorem barrier_safe:
  assumes "barrier_reach n s" "t < n" "u < n"
  shows "finished s t \<le> begun s u \<and> begun s u \<le> generation (bar s) + 1 \<and> masters s = generation (bar s)"
proof -
  have "thread_ok (generation (bar s)) s t" "thread_ok (generation (bar s)) s u" "masters s = generation (bar s)"
    using barrier_reach_inv [OF assms(1)] assms(2,3) by (auto simp: barrier_inv_def)
  then show ?thesis by (auto simp: thread_ok_def split: option.splits)
qed

fun barrier_run :: "nat \<Rightarrow> barrier_event list \<Rightarrow> barrier_system \<Rightarrow> barrier_system option" where
  "barrier_run n [] s = Some s"
| "barrier_run n (e # es) s = (case barrier_exec n e s of None \<Rightarrow> None | Some s' \<Rightarrow> barrier_run n es s')"

lemma barrier_run_reach: "barrier_run n es s = Some s' \<Longrightarrow> barrier_reach n s \<Longrightarrow> barrier_reach n s'"
  by (induction es arbitrary: s) (auto split: option.splits intro: barrier_reach.step)

theorem barrier_safe_witness:
  "\<exists>s. barrier_run 2 [Arrive 1, Spin_Timeout 1, Sleep 1, Arrive 0] system_init = Some s \<and>
     finished s 0 = 1 \<and> finished s 0 \<le> begun s 1 \<and> masters s = 1"
proof -
  obtain s where s: "barrier_run 2 [Arrive 1, Spin_Timeout 1, Sleep 1, Arrive 0] system_init = Some s"
      "finished s 0 = 1" "generation (bar s) = 1"
    by (simp add: system_init_def barrier_init_def arrive_def wake_def)
  from barrier_safe [OF barrier_run_reach [OF s(1) barrier_reach.start], of 0 1] s show ?thesis by auto
qed

text \<open>
  the barrier cannot hang: no wake-up is lost, and whenever all threads are inside \<^verbatim>\<open>wait\<close>
  at least one of them is past its generation and returns with its next step.
\<close>

theorem barrier_progress:
  assumes "barrier_reach n s" "0 < n" and "\<forall>t < n. threads s t \<noteq> Running"
  shows "\<exists>t < n. \<exists>e s'. barrier_exec n e s = Some s' \<and> threads s' t = Running \<and> finished s' t = finished s t + 1"
proof -
  have inv: "barrier_inv n s" using barrier_reach_inv assms(1,2) .
  have "waiting_now n s \<noteq> {..<n}" using inv by (auto simp: barrier_inv_def)
  then obtain t where t: "t < n" "waits_for (threads s t) \<noteq> Some (generation (bar s))" by (auto simp: waiting_now_def)
  then obtain g where g: "waits_for (threads s t) = Some g" "g \<noteq> generation (bar s)"
    using assms(3) by (cases "waits_for (threads s t)") auto
  then have "threads s t = Spinning g \<or> threads s t = Sleeping g"
    using inv t(1) by (cases "threads s t") (auto simp: barrier_inv_def thread_ok_def)
  then have "barrier_exec n (Spin t) s = Some (leave t s) \<or> barrier_exec n (Sleep t) s = Some (leave t s)"
    using t(1) g(2) by auto
  moreover have "threads (leave t s) t = Running" "finished (leave t s) t = finished s t + 1"
    by (simp_all add: leave_def)
  ultimately show ?thesis using t(1) by blast
qed

theorem barrier_progress_witness:
  "\<exists>s. barrier_run 2 [Arrive 1, Arrive 0, Arrive 0] system_init = Some s \<and>
     (\<exists>t < 2. \<exists>e s'. barrier_exec 2 e s = Some s' \<and> threads s' t = Running \<and> finished s' t = finished s t + 1)"
proof -
  obtain s where s: "barrier_run 2 [Arrive 1, Arrive 0, Arrive 0] system_init = Some s"
      "threads s 0 = Spinning 1" "threads s 1 = Spinning 0"
    by (simp add: system_init_def barrier_init_def arrive_def wake_def)
  have "\<forall>t < 2. threads s t \<noteq> Running" using s(2,3) by (auto simp: less_2_cases_iff)
  from barrier_progress [OF barrier_run_reach [OF s(1) barrier_reach.start] _ this] s(1) show ?thesis by auto
qed

end
