(* ===== verification/Sync_Coordinator.thy ===== *)
theory Sync_Coordinator
  imports Hybrid_Barrier
begin

text \<open>
  \<^verbatim>\<open>SubsystemSyncCoordinator\<close> and \<^verbatim>\<open>DoubleBuffer\<close> of \<^verbatim>\<open>subsystem_sync_coordinator.py\<close>: thread
  indices, the timing matrices, and what the master of the last barrier does at a frame boundary.
  Clock readings are arguments; buffers are their identities; the orchestrator is the power state
  its configuration holds; a boundary hook is the state change it makes before it returns or
  raises (the loop swallows the exception).
\<close>

section \<open>State\<close>

record double_buffer =
  db_active :: nat
  db_inactive :: nat

definition swap :: "double_buffer \<Rightarrow> double_buffer" where
  "swap d = d\<lparr>db_active := db_inactive d, db_inactive := db_active d\<rparr>"

type_synonym matrix = "int list list"

record coordinator =
  num_threads :: nat
  stride_length :: nat
  thread_to_idx :: "(nat \<times> nat) list"
  layer_cpu_time :: matrix
  layer_wall_time :: matrix
  layer_wait_time :: matrix
  start_cpu :: matrix
  start_wall :: matrix
  arrival_times :: matrix
  layer_skew :: "int list"
  current_mode :: string
  frame_counter :: nat
  last_frame_ns :: int
  latest_stride_latency_ns :: int
  double_buffering_enabled :: bool
  buffer_registry :: double_buffer
  active_in_buffer :: nat
  active_out_buffer :: nat
  buffer_read_pointer :: nat
  pending_buffer_swap :: "(nat \<times> nat) option"

definition zeros :: "nat \<Rightarrow> nat \<Rightarrow> matrix" where
  "zeros m n = replicate m (replicate n 0)"

definition coordinator_init :: "nat \<Rightarrow> nat \<Rightarrow> nat \<Rightarrow> nat \<Rightarrow> int \<Rightarrow> coordinator" where
  "coordinator_init n stride ping pong now = \<lparr>num_threads = n, stride_length = stride, thread_to_idx = [],
     layer_cpu_time = zeros n 4, layer_wall_time = zeros n 4, layer_wait_time = zeros n 4,
     start_cpu = zeros n 4, start_wall = zeros n 4, arrival_times = zeros 4 n, layer_skew = replicate 4 0,
     current_mode = ''NOMINAL_RENEWABLE_MODE'', frame_counter = 0, last_frame_ns = now,
     latest_stride_latency_ns = 0, double_buffering_enabled = True,
     buffer_registry = \<lparr>db_active = ping, db_inactive = pong\<rparr>, active_in_buffer = ping,
     active_out_buffer = pong, buffer_read_pointer = 0, pending_buffer_swap = None\<rparr>"

section \<open>Thread indices\<close>

text \<open>The dictionary keeps its entries in order; a thread beyond the limit gets a shared index.\<close>

definition get_thread_index :: "nat \<Rightarrow> coordinator \<Rightarrow> fault + nat \<times> coordinator" where
  "get_thread_index tid c = (case map_of (thread_to_idx c) tid of
       Some idx \<Rightarrow> Ok (idx, c)
     | None \<Rightarrow> (let idx = length (thread_to_idx c) in
         if idx \<ge> num_threads c
         then (if num_threads c = 0 then Fail ZeroDivisionError else Ok (tid mod num_threads c, c))
         else Ok (idx, c\<lparr>thread_to_idx := thread_to_idx c @ [(tid, idx)]\<rparr>)))"

section \<open>Layers\<close>

text \<open>Writing one cell of a matrix; NumPy raises on an index that is out of range.\<close>

definition put_cell :: "matrix \<Rightarrow> nat \<Rightarrow> nat \<Rightarrow> int \<Rightarrow> fault + matrix" where
  "put_cell m i j v = (if i < length m \<and> j < length (m ! i) then Ok (m[i := (m ! i)[j := v]]) else Fail IndexError)"

definition get_cell :: "matrix \<Rightarrow> nat \<Rightarrow> nat \<Rightarrow> fault + int" where
  "get_cell m i j = (if i < length m \<and> j < length (m ! i) then Ok (m ! i ! j) else Fail IndexError)"

definition enter_layer :: "nat \<Rightarrow> nat \<Rightarrow> int \<Rightarrow> int \<Rightarrow> coordinator \<Rightarrow> fault + coordinator" where
  "enter_layer tid layer cpu wall c =
     seqE (get_thread_index tid c) (\<lambda>(idx, c).
     seqE (put_cell (start_cpu c) idx layer cpu) (\<lambda>sc.
     seqE (put_cell (start_wall c) idx layer wall) (\<lambda>sw.
       Ok (c\<lparr>start_cpu := sc, start_wall := sw\<rparr>))))"

text \<open>\<^verbatim>\<open>exit_layer\<close> up to the barrier, and after it.\<close>

definition exit_before :: "nat \<Rightarrow> nat \<Rightarrow> int \<Rightarrow> int \<Rightarrow> coordinator \<Rightarrow> fault + nat \<times> coordinator" where
  "exit_before tid layer cpu wall c =
     seqE (get_thread_index tid c) (\<lambda>(idx, c).
     seqE (get_cell (start_cpu c) idx layer) (\<lambda>sc.
     seqE (get_cell (start_wall c) idx layer) (\<lambda>sw.
     seqE (put_cell (layer_cpu_time c) idx layer (cpu - sc)) (\<lambda>lc.
     seqE (put_cell (layer_wall_time c) idx layer (wall - sw)) (\<lambda>lw.
     seqE (put_cell (arrival_times c) layer idx wall) (\<lambda>ar.
       Ok (idx, c\<lparr>layer_cpu_time := lc, layer_wall_time := lw, arrival_times := ar\<rparr>)))))))"

definition next_mode :: "string option option \<Rightarrow> string \<Rightarrow> string" where
  "next_mode orchestrator mode = (case orchestrator of
       None \<Rightarrow> mode
     | Some state \<Rightarrow> (case state of None \<Rightarrow> ''NOMINAL_RENEWABLE_MODE'' | Some m \<Rightarrow> m))"

definition boundary_buffers :: "coordinator \<Rightarrow> coordinator" where
  "boundary_buffers c = (case pending_buffer_swap c of
       Some (i, o') \<Rightarrow> c\<lparr>active_in_buffer := i, active_out_buffer := o', pending_buffer_swap := None\<rparr>
     | None \<Rightarrow> if double_buffering_enabled c
         then c\<lparr>buffer_registry := swap (buffer_registry c),
                active_in_buffer := db_active (swap (buffer_registry c)),
                active_out_buffer := db_inactive (swap (buffer_registry c))\<rparr>
         else c)"

definition execute_frame_boundary_hook :: "int \<Rightarrow> string option option \<Rightarrow> (coordinator \<Rightarrow> coordinator) list \<Rightarrow>
    coordinator \<Rightarrow> fault + coordinator" where
  "execute_frame_boundary_hook now orchestrator hooks c =
     (let c1 = boundary_buffers (c\<lparr>latest_stride_latency_ns := now - last_frame_ns c\<rparr>) in
      if stride_length c1 = 0 then Fail ZeroDivisionError
      else let c2 = c1\<lparr>buffer_read_pointer := (buffer_read_pointer c1 + stride_length c1) mod (stride_length c1 * 100)\<rparr>;
               c3 = c2\<lparr>current_mode := next_mode orchestrator (current_mode c2)\<rparr>;
               c4 = fold (\<lambda>hook c. hook c) hooks c3
           in Ok (c4\<lparr>frame_counter := frame_counter c4 + 1, last_frame_ns := now\<rparr>))"

text \<open>After the barrier: the wait time, and for the master the skew and the frame boundary.\<close>

definition exit_after :: "nat \<Rightarrow> nat \<Rightarrow> bool \<Rightarrow> int \<Rightarrow> int \<Rightarrow> string option option \<Rightarrow> (coordinator \<Rightarrow> coordinator) list \<Rightarrow>
    coordinator \<Rightarrow> fault + coordinator" where
  "exit_after idx layer is_master waited now orchestrator hooks c =
     seqE (put_cell (layer_wait_time c) idx layer waited) (\<lambda>lw.
       let c1 = c\<lparr>layer_wait_time := lw\<rparr> in
       if is_master then
         (let arrivals = arrival_times c1 ! layer;
              c2 = c1\<lparr>layer_skew := (layer_skew c1)[layer := Max (set arrivals) - Min (set arrivals)]\<rparr>
          in if layer = 3 then execute_frame_boundary_hook now orchestrator hooks c2 else Ok c2)
       else Ok c1)"

definition register_buffer_swap :: "nat \<Rightarrow> nat \<Rightarrow> coordinator \<Rightarrow> coordinator" where
  "register_buffer_swap i o' c = c\<lparr>pending_buffer_swap := Some (i, o')\<rparr>"


section \<open>The frame boundary among the threads\<close>

text \<open>
  The last layer's barrier together with the boundary: the thread that \<^verbatim>\<open>wait\<close> told to be the
  master runs the boundary as a later step, after the lock is released, and arrives again only
  once it is done.
\<close>

record frame_system =
  fs_bar :: barrier_system
  fs_coord :: coordinator
  fs_master :: "nat option"

definition frame_init :: "nat \<Rightarrow> nat \<Rightarrow> nat \<Rightarrow> nat \<Rightarrow> int \<Rightarrow> frame_system" where
  "frame_init n stride ping pong now = \<lparr>fs_bar = system_init, fs_coord = coordinator_init n stride ping pong now,
     fs_master = None\<rparr>"

datatype frame_event = Barrier barrier_event | Boundary int

fun frame_exec :: "nat \<Rightarrow> string option option \<Rightarrow> frame_event \<Rightarrow> frame_system \<Rightarrow> frame_system option" where
  "frame_exec n orchestrator (Barrier e) s =
     (if fs_master s \<noteq> None \<and> e = Arrive (the (fs_master s)) then None
      else case barrier_exec n e (fs_bar s) of
          None \<Rightarrow> None
        | Some b \<Rightarrow> Some (s\<lparr>fs_bar := b, fs_master := (if masters b = masters (fs_bar s) then fs_master s
            else (case e of Arrive t \<Rightarrow> Some t | _ \<Rightarrow> fs_master s))\<rparr>))"
| "frame_exec n orchestrator (Boundary now) s = (case fs_master s of
       None \<Rightarrow> None
     | Some t \<Rightarrow> (case execute_frame_boundary_hook now orchestrator [] (fs_coord s) of
           Fail _ \<Rightarrow> None
         | Ok c \<Rightarrow> Some (s\<lparr>fs_coord := c, fs_master := None\<rparr>)))"

inductive frame_reach :: "nat \<Rightarrow> nat \<Rightarrow> nat \<Rightarrow> nat \<Rightarrow> frame_system \<Rightarrow> bool" for n stride ping pong where
  start: "frame_reach n stride ping pong (frame_init n stride ping pong now)"
| step: "frame_reach n stride ping pong s \<Longrightarrow> frame_exec n orchestrator e s = Some s' \<Longrightarrow>
    frame_reach n stride ping pong s'"

definition buffers_ok :: "nat \<Rightarrow> nat \<Rightarrow> nat \<Rightarrow> coordinator \<Rightarrow> bool" where
  "buffers_ok stride ping pong c \<longleftrightarrow> stride_length c = stride \<and> double_buffering_enabled c \<and>
     pending_buffer_swap c = None \<and>
     buffer_registry c = (if even (frame_counter c) then \<lparr>db_active = ping, db_inactive = pong\<rparr>
                          else \<lparr>db_active = pong, db_inactive = ping\<rparr>) \<and>
     active_in_buffer c = db_active (buffer_registry c) \<and> active_out_buffer c = db_inactive (buffer_registry c) \<and>
     buffer_read_pointer c = stride * (frame_counter c mod 100)"

lemma boundary_ok:
  assumes "buffers_ok stride ping pong c" "0 < stride"
  shows "\<exists>c'. execute_frame_boundary_hook now orchestrator [] c = Ok c' \<and> buffers_ok stride ping pong c' \<and>
    frame_counter c' = frame_counter c + 1"
proof -
  have "(stride * (k mod 100) + stride) mod (stride * 100) = stride * (Suc k mod 100)" for k
    using mult_mod_right [of stride "k mod 100 + 1" 100] by (simp add: algebra_simps mod_Suc_eq)
  with assms show ?thesis
    by (auto simp: execute_frame_boundary_hook_def boundary_buffers_def swap_def buffers_ok_def Let_def)
qed

definition frame_inv :: "nat \<Rightarrow> nat \<Rightarrow> nat \<Rightarrow> nat \<Rightarrow> frame_system \<Rightarrow> bool" where
  "frame_inv n stride ping pong s \<longleftrightarrow> barrier_inv n (fs_bar s) \<and> buffers_ok stride ping pong (fs_coord s) \<and>
     (case fs_master s of
        None \<Rightarrow> frame_counter (fs_coord s) = generation (bar (fs_bar s))
      | Some t \<Rightarrow> frame_counter (fs_coord s) + 1 = generation (bar (fs_bar s)) \<and> t < n \<and>
          threads (fs_bar s) t = Running)"

text \<open>What one step of the barrier does to the generation and to a running thread.\<close>

lemma exec_running:
  "barrier_exec n e s = Some s' \<Longrightarrow> threads s u = Running \<Longrightarrow> e \<noteq> Arrive u \<Longrightarrow> threads s' u = Running"
  by (cases e) (auto simp: leave_def arrive_def split: thread_state.splits if_splits)

lemma exec_master:
  assumes "barrier_exec n e s = Some s'" "barrier_inv n s"
  shows "(masters s' = masters s \<and> generation (bar s') = generation (bar s)) \<or>
    (\<exists>t. e = Arrive t \<and> t < n \<and> threads s t = Running \<and> masters s' = masters s + 1 \<and> threads s' t = Running \<and>
       generation (bar s') = generation (bar s) + 1 \<and> (\<forall>u < n. u \<noteq> t \<longrightarrow> threads s u \<noteq> Running))"
proof (cases e)
  case (Arrive t)
  with assms(1) have t: "t < n" "threads s t = Running" by (auto split: if_splits)
  show ?thesis
  proof (cases "arrival_count (bar s) + 1 = n")
    case True
    with last_arrival [OF assms(2) t True] have "\<forall>u < n. u \<noteq> t \<longrightarrow> threads s u \<noteq> Running" by force
    with True assms(1) Arrive t show ?thesis by (auto simp: arrive_def)
  next
    case False
    with assms(1) Arrive t show ?thesis by (auto simp: arrive_def)
  qed
qed (use assms(1) in \<open>auto simp: leave_def split: thread_state.splits if_splits\<close>)

lemma frame_exec_inv:
  assumes "frame_inv n stride ping pong s" "frame_exec n orchestrator e s = Some s'" "0 < stride"
  shows "frame_inv n stride ping pong s'"
proof (cases e)
  case (Boundary now)
  with assms boundary_ok [of stride ping pong "fs_coord s" now orchestrator] show ?thesis
    by (auto simp: frame_inv_def split: option.splits sum.splits)
next
  case (Barrier b)
  with assms(2) obtain bs where bs: "barrier_exec n b (fs_bar s) = Some bs"
    "s' = s\<lparr>fs_bar := bs, fs_master := (if masters bs = masters (fs_bar s) then fs_master s
        else (case b of Arrive t \<Rightarrow> Some t | _ \<Rightarrow> fs_master s))\<rparr>"
    by (auto split: if_splits option.splits)
  have busy: "b \<noteq> Arrive t" if "fs_master s = Some t" for t
    using assms(2) Barrier that by auto
  have inv: "barrier_inv n (fs_bar s)" "buffers_ok stride ping pong (fs_coord s)" using assms(1) by (auto simp: frame_inv_def)
  have inv': "barrier_inv n bs" by (rule barrier_exec_inv [OF inv(1) bs(1)])
  from exec_master [OF bs(1) inv(1)] show ?thesis
  proof
    assume same: "masters bs = masters (fs_bar s) \<and> generation (bar bs) = generation (bar (fs_bar s))"
    show ?thesis
    proof (cases "fs_master s")
      case None
      with assms(1) same inv' show ?thesis by (simp add: frame_inv_def bs(2))
    next
      case (Some t)
      with assms(1) same inv' exec_running [OF bs(1) _ busy [OF Some]] show ?thesis by (simp add: frame_inv_def bs(2))
    qed
  next
    assume "\<exists>t. b = Arrive t \<and> t < n \<and> threads (fs_bar s) t = Running \<and> masters bs = masters (fs_bar s) + 1 \<and>
      threads bs t = Running \<and> generation (bar bs) = generation (bar (fs_bar s)) + 1 \<and>
      (\<forall>u < n. u \<noteq> t \<longrightarrow> threads (fs_bar s) u \<noteq> Running)"
    then obtain t where t: "b = Arrive t" "t < n" "masters bs = masters (fs_bar s) + 1" "threads bs t = Running"
      "generation (bar bs) = generation (bar (fs_bar s)) + 1" "\<forall>u < n. u \<noteq> t \<longrightarrow> threads (fs_bar s) u \<noteq> Running"
      by blast
    have "fs_master s = None"
    proof (cases "fs_master s")
      case (Some u)
      with assms(1) have "u < n" "threads (fs_bar s) u = Running" by (auto simp: frame_inv_def)
      with t(1,6) busy [OF Some] show ?thesis by auto
    qed
    with assms(1) t inv inv' show ?thesis by (simp add: frame_inv_def bs(2))
  qed
qed

lemma frame_reach_inv: "frame_reach n stride ping pong s \<Longrightarrow> 0 < n \<Longrightarrow> 0 < stride \<Longrightarrow> frame_inv n stride ping pong s"
proof (induction rule: frame_reach.induct)
  case (start now)
  then show ?case
    by (simp add: frame_inv_def frame_init_def buffers_ok_def coordinator_init_def barrier_inv_init)
      (simp add: system_init_def barrier_init_def)
next
  case (step s orchestrator e s')
  then show ?case using frame_exec_inv by blast
qed

section \<open>Properties\<close>

text \<open>
  C13: for any interleaving of the worker threads there is exactly one frame boundary per
  generation of the last barrier (none is skipped or run twice, one may still be due), the
  input and output buffers are always the two halves of the double buffer and change places at
  every boundary, and the read pointer is the frame number times the stride, modulo 100 strides.
\<close>

theorem one_boundary_per_frame:
  assumes "frame_reach n stride ping pong s" "0 < n" "0 < stride"
  shows "frame_counter (fs_coord s) + (if fs_master s = None then 0 else 1) = generation (bar (fs_bar s)) \<and>
    (active_in_buffer (fs_coord s), active_out_buffer (fs_coord s)) =
      (if even (frame_counter (fs_coord s)) then (ping, pong) else (pong, ping)) \<and>
    buffer_read_pointer (fs_coord s) = stride * (frame_counter (fs_coord s) mod 100)"
  using frame_reach_inv [OF assms] by (auto simp: frame_inv_def buffers_ok_def split: option.splits)

fun frame_run :: "nat \<Rightarrow> string option option \<Rightarrow> frame_event list \<Rightarrow> frame_system \<Rightarrow> frame_system option" where
  "frame_run n orchestrator [] s = Some s"
| "frame_run n orchestrator (e # es) s = (case frame_exec n orchestrator e s of
       None \<Rightarrow> None | Some s' \<Rightarrow> frame_run n orchestrator es s')"

lemma frame_run_reach: "frame_run n orchestrator es s = Some s' \<Longrightarrow> frame_reach n stride ping pong s \<Longrightarrow>
    frame_reach n stride ping pong s'"
  by (induction es arbitrary: s) (auto split: option.splits intro: frame_reach.step)

text \<open>
  Two workers: worker 1 leaves the last barrier and sees the buffers of the frame that has just
  ended, while the boundary of the master, worker 0, is still to come.
\<close>

lemma released_before_boundary:
  "\<exists>s. frame_run 2 None [Barrier (Arrive 1), Barrier (Arrive 0), Barrier (Spin 1)] (frame_init 2 4096 7 8 0) = Some s \<and>
     finished (fs_bar s) 1 = 1 \<and> threads (fs_bar s) 1 = Running \<and> fs_master s = Some 0 \<and>
     frame_counter (fs_coord s) = 0 \<and> active_in_buffer (fs_coord s) = 7"
  by (simp add: frame_init_def system_init_def barrier_init_def arrive_def leave_def coordinator_init_def wake_def)

theorem one_boundary_per_frame_witness:
  "\<exists>s. frame_run 1 None [Barrier (Arrive 0), Boundary 5] (frame_init 1 4096 7 8 0) = Some s \<and>
     frame_counter (fs_coord s) = 1 \<and> (active_in_buffer (fs_coord s), active_out_buffer (fs_coord s)) = (8, 7)"
proof -
  obtain s where s: "frame_run 1 None [Barrier (Arrive 0), Boundary 5] (frame_init 1 4096 7 8 0) = Some s"
      "frame_counter (fs_coord s) = 1"
    by (simp add: frame_init_def system_init_def barrier_init_def arrive_def coordinator_init_def
      execute_frame_boundary_hook_def boundary_buffers_def swap_def Let_def)
  from one_boundary_per_frame [OF frame_run_reach [OF s(1) frame_reach.start]] s show ?thesis by simp
qed

end
