(* ===== verification/Hil_Flow.thy ===== *)
theory Hil_Flow
  imports Prelude
begin

text \<open>
  \<^verbatim>\<open>hil_frontend_sync.py\<close> and \<^verbatim>\<open>hil_flow_controller.py\<close>: the drift tracker with its sliding window
  and verdict, and the controller that throttles the sample rate and catches up. Floats are
  exact reals; the constructor's trial run over five history entries is part of the model.
\<close>

section \<open>The drift tracker\<close>

record tracker =
  drift_history :: "real list"
  drift_warning_thresh :: real
  clock_slip_thresh :: real
  last_sequence :: int
  total_dropped_frames :: int
  recovery_events_count :: nat
  current_state :: nat

definition DRIFT_WARNING :: real where
  "DRIFT_WARNING = 2 / 1000"

definition CLOCK_SLIP :: real where
  "CLOCK_SLIP = 5 / 1000"

text \<open>The trial run writes the entries 0 to 4 of the history, whatever its length.\<close>

definition tracker_init :: "nat \<Rightarrow> real \<Rightarrow> real \<Rightarrow> fault + tracker" where
  "tracker_init history_window warn slip =
     (if history_window < 5 then Fail OutOfBounds
      else Ok \<lparr>drift_history = replicate history_window 0, drift_warning_thresh = warn, clock_slip_thresh = slip,
               last_sequence = 0, total_dropped_frames = 0, recovery_events_count = 0, current_state = 0\<rparr>)"

definition dropped_frames :: "int \<Rightarrow> int \<Rightarrow> int" where
  "dropped_frames last_seq curr_seq =
     (if last_seq > 0 then let gap = curr_seq - last_seq - 1 in if gap > 0 then gap else 0 else 0)"

text \<open>Shifting the window, and the standard deviation over it.\<close>

definition shift_in :: "real list \<Rightarrow> real \<Rightarrow> real list" where
  "shift_in h x = (if h = [] then [] else tl h @ [x])"

definition jitter_of :: "real list \<Rightarrow> real" where
  "jitter_of h = (let mean = sum_list h / real (length h)
     in sqrt (sum_list (map (\<lambda>d. (d - mean) * (d - mean)) h) / real (length h)))"

definition sync_verdict :: "real list \<Rightarrow> real \<Rightarrow> real \<Rightarrow> int \<Rightarrow> real \<Rightarrow> real \<Rightarrow> nat" where
  "sync_verdict h drift jitter dropped warn slip =
     (let v = (if 1 < length h then
                 if \<bar>drift - h ! (length h - 2)\<bar> \<ge> slip then 2 else if jitter \<ge> warn then 1 else 0
               else 0)
      in if dropped > 10 \<or> (1 < length h \<and> \<bar>drift - h ! 0\<bar> > 5 / 100) then 3 else v)"

definition evaluate_sync :: "real list \<Rightarrow> int \<Rightarrow> int \<Rightarrow> real \<Rightarrow> real \<Rightarrow> real \<Rightarrow> real \<Rightarrow>
    fault + real list \<times> real \<times> real \<times> int \<times> nat" where
  "evaluate_sync h last_seq curr_seq sdr_ts sys_ts warn slip =
     (let dropped = dropped_frames last_seq curr_seq; drift = sys_ts - sdr_ts; h' = shift_in h drift in
      if h' = [] then Fail ZeroDivisionError
      else Ok (h', drift, jitter_of h', dropped, sync_verdict h' drift (jitter_of h') dropped warn slip))"

record sync_metrics =
  m_drift :: real
  m_jitter :: real
  m_dropped :: int
  m_state :: nat
  m_total_drops :: int
  m_recoveries :: nat

definition tracker_stride :: "real \<Rightarrow> real \<Rightarrow> int \<Rightarrow> tracker \<Rightarrow> fault + tracker \<times> sync_metrics" where
  "tracker_stride sdr_ts sys_ts seq k =
     (let h = (if last_sequence k = 0 then map (\<lambda>_. sys_ts - sdr_ts) (drift_history k) else drift_history k) in
      seqE (evaluate_sync h (last_sequence k) seq sdr_ts sys_ts (drift_warning_thresh k) (clock_slip_thresh k))
        (\<lambda>(h', drift, jitter, dropped, next_state).
          let k' = k\<lparr>drift_history := h',
                recovery_events_count := recovery_events_count k +
                  (if current_state k \<in> {1, 2, 3} \<and> next_state = 0 then 1 else 0),
                current_state := next_state, last_sequence := seq,
                total_dropped_frames := total_dropped_frames k + dropped\<rparr>
          in Ok (k', \<lparr>m_drift = drift, m_jitter = jitter, m_dropped = dropped, m_state = next_state,
                      m_total_drops = total_dropped_frames k', m_recoveries = recovery_events_count k'\<rparr>)))"

section \<open>The flow controller\<close>

text \<open>Actions: 0 continue, 1 hold, 2 reduce the rate, 3 recovery burst.\<close>

definition flow_action :: "nat \<Rightarrow> int \<Rightarrow> nat \<Rightarrow> nat \<Rightarrow> nat \<times> nat" where
  "flow_action sync_state dropped last_act nominal_count =
     (if sync_state = 3 \<or> dropped > 5 then (2, 0)
      else if sync_state = 2 then (1, 0)
      else if sync_state = 1 then (2, 0)
      else if last_act \<in> {1, 2} then (3, 0)
      else if last_act = 3 then (if nominal_count < 5 then (3, nominal_count + 1) else (0, 0))
      else (0, 0))"

record flow_controller =
  sync_tracker :: tracker
  last_action :: nat
  consecutive_nominal_count :: nat
  current_rate_factor :: real

definition flow_controller_init :: "nat \<Rightarrow> fault + flow_controller" where
  "flow_controller_init window = seqE (tracker_init window DRIFT_WARNING CLOCK_SLIP) (\<lambda>k.
     Ok \<lparr>sync_tracker = k, last_action = 0, consecutive_nominal_count = 0, current_rate_factor = 1\<rparr>)"

definition next_rate :: "nat \<Rightarrow> real \<Rightarrow> real" where
  "next_rate action rate =
     (if action = 2 then max (80 / 100) (rate - 5 / 100)
      else if action = 3 then min 1 (rate + 5 / 100) else rate)"

definition flow_stride :: "real \<times> real \<times> int \<Rightarrow> flow_controller \<Rightarrow> fault + flow_controller \<times> nat \<times> real" where
  "flow_stride x c = (case x of (sdr_ts, sys_ts, seq) \<Rightarrow>
     seqE (tracker_stride sdr_ts sys_ts seq (sync_tracker c)) (\<lambda>(k, m).
       case flow_action (m_state m) (m_dropped m) (last_action c) (consecutive_nominal_count c) of
         (action, nominal) \<Rightarrow>
           let rate = next_rate action (current_rate_factor c)
           in Ok (c\<lparr>sync_tracker := k, last_action := action, consecutive_nominal_count := nominal,
                    current_rate_factor := rate\<rparr>, action, rate)))"

fun flow_run :: "(real \<times> real \<times> int) list \<Rightarrow> flow_controller \<Rightarrow> fault + flow_controller \<times> (nat \<times> real) list" where
  "flow_run [] c = Ok (c, [])"
| "flow_run (x # xs) c = seqE (flow_stride x c) (\<lambda>(c', a, rt). seqE (flow_run xs c') (\<lambda>(c'', os). Ok (c'', (a, rt) # os)))"

section \<open>Invariants\<close>

text \<open>
  A continuing controller is at the full rate; in a burst the rate has grown since the lowest
  one by a step per burst stride.
\<close>

definition rate_inv :: "nat \<Rightarrow> nat \<Rightarrow> real \<Rightarrow> bool" where
  "rate_inv action nominal rate \<longleftrightarrow> 80 / 100 \<le> rate \<and> rate \<le> 1 \<and> action \<le> 3 \<and> nominal \<le> 5 \<and>
     (action = 0 \<longrightarrow> rate = 1) \<and> (action = 3 \<longrightarrow> min 1 (80 / 100 + 5 / 100 * (real nominal + 1)) \<le> rate)"

lemma rate_inv_step:
  assumes "rate_inv a c rate" "flow_action st dropped a c = (a', c')"
  shows "rate_inv a' c' (next_rate a' rate)"
proof -
  have inv: "80 / 100 \<le> rate" "rate \<le> 1" "c \<le> 5" "a = 0 \<longrightarrow> rate = 1"
    "a = 3 \<longrightarrow> min 1 (80 / 100 + 5 / 100 * (real c + 1)) \<le> rate" using assms(1) by (simp_all add: rate_inv_def)
  consider "a' = 2" "c' = 0" | "a' = 1" "c' = 0" | "a' = 3" "c' = 0" | "a' = 3" "c' = c + 1" "a = 3" "c < 5"
    | "a' = 0" "c' = 0" "a = 3" "c = 5" | "a' = 0" "c' = 0" "a = 0"
    using assms by (auto simp: rate_inv_def flow_action_def split: if_splits)
  then show ?thesis
  proof cases
    case 4
    then have "min 1 (80 / 100 + 5 / 100 * (real c + 1)) + 5 / 100 \<le> rate + 5 / 100" using inv(5) by simp
    then have "min 1 (80 / 100 + 5 / 100 * (real (c + 1) + 1)) \<le> min 1 (rate + 5 / 100)" by (simp add: min_def field_simps split: if_splits)
    with 4 inv show ?thesis by (simp add: rate_inv_def next_rate_def)
  next
    case 5
    with inv have "rate = 1" by simp
    with 5 show ?thesis by (simp add: rate_inv_def next_rate_def)
  qed (use inv in \<open>simp_all add: rate_inv_def next_rate_def\<close>)
qed

definition flow_inv :: "nat \<Rightarrow> flow_controller \<Rightarrow> bool" where
  "flow_inv w c \<longleftrightarrow> length (drift_history (sync_tracker c)) = w \<and> 0 < w \<and>
     drift_warning_thresh (sync_tracker c) = DRIFT_WARNING \<and> clock_slip_thresh (sync_tracker c) = CLOCK_SLIP \<and>
     rate_inv (last_action c) (consecutive_nominal_count c) (current_rate_factor c)"

lemma flow_inv_init: "flow_controller_init w = Ok c \<Longrightarrow> flow_inv w c"
  by (auto simp: flow_controller_init_def tracker_init_def flow_inv_def rate_inv_def split: if_splits)

text \<open>The history of the tracker after a stride.\<close>

definition window_before :: "real \<Rightarrow> tracker \<Rightarrow> real list" where
  "window_before drift k = (if last_sequence k = 0 then map (\<lambda>_. drift) (drift_history k) else drift_history k)"

lemma flow_stride_Ok:
  assumes "flow_inv w c"
  shows "\<exists>c' a rt. flow_stride (sdr, sys, seq) c = Ok (c', a, rt) \<and> flow_inv w c' \<and>
    a = last_action c' \<and> rt = current_rate_factor c' \<and>
    last_sequence (sync_tracker c') = seq \<and>
    drift_history (sync_tracker c') = tl (window_before (sys - sdr) (sync_tracker c)) @ [sys - sdr] \<and>
    (a, consecutive_nominal_count c') = flow_action
      (sync_verdict (drift_history (sync_tracker c')) (sys - sdr) (jitter_of (drift_history (sync_tracker c')))
        (dropped_frames (last_sequence (sync_tracker c)) seq) DRIFT_WARNING CLOCK_SLIP)
      (dropped_frames (last_sequence (sync_tracker c)) seq) (last_action c) (consecutive_nominal_count c)"
proof -
  let ?k = "sync_tracker c" and ?drift = "sys - sdr"
  let ?h = "tl (window_before ?drift ?k) @ [?drift]" and ?d = "dropped_frames (last_sequence ?k) seq"
  let ?v = "sync_verdict ?h ?drift (jitter_of ?h) ?d DRIFT_WARNING CLOCK_SLIP"
  have nonempty: "window_before ?drift ?k \<noteq> []" "length (window_before ?drift ?k) = w"
    using assms by (auto simp: flow_inv_def window_before_def)
  then have h: "shift_in (window_before ?drift ?k) ?drift = ?h" "length ?h = w"
    using assms by (auto simp: shift_in_def flow_inv_def)
  have thresh: "drift_warning_thresh ?k = DRIFT_WARNING" "clock_slip_thresh ?k = CLOCK_SLIP"
    using assms by (simp_all add: flow_inv_def)
  obtain k' m where k': "tracker_stride sdr sys seq ?k = Ok (k', m)" "m_state m = ?v" "m_dropped m = ?d"
      "drift_history k' = ?h" "last_sequence k' = seq" "drift_warning_thresh k' = DRIFT_WARNING"
      "clock_slip_thresh k' = CLOCK_SLIP"
    using h by (simp add: tracker_stride_def evaluate_sync_def thresh Let_def flip: window_before_def)
  obtain a n where a: "flow_action ?v ?d (last_action c) (consecutive_nominal_count c) = (a, n)"
    by (cases "flow_action ?v ?d (last_action c) (consecutive_nominal_count c)")
  have "rate_inv a n (next_rate a (current_rate_factor c))"
    using assms rate_inv_step [OF _ a] by (auto simp: flow_inv_def)
  with a assms h(2) k' show ?thesis
    by (intro exI [of _ "c\<lparr>sync_tracker := k', last_action := a, consecutive_nominal_count := n,
      current_rate_factor := next_rate a (current_rate_factor c)\<rparr>"] exI conjI) (auto simp: flow_stride_def flow_inv_def Let_def)
qed

section \<open>A quiet link\<close>

lemma jitter_constant: "h \<noteq> [] \<Longrightarrow> set h \<subseteq> {x} \<Longrightarrow> jitter_of h = 0"
proof -
  assume h: "h \<noteq> []" "set h \<subseteq> {x}"
  then have "h = replicate (length h) x" by (metis replicate_length_same subset_singletonD set_empty singletonD)
  then obtain n where "h = replicate (Suc n) x" using h(1) by (cases "length h") auto
  moreover from this have "sum_list h / real (length h) = x" by (simp add: sum_list_replicate field_simps)
  ultimately show ?thesis by (simp add: jitter_of_def sum_list_replicate)
qed

lemma quiet_verdict:
  assumes "h \<noteq> []" "set h \<subseteq> {x}"
  shows "sync_verdict h x (jitter_of h) 0 DRIFT_WARNING CLOCK_SLIP = 0"
proof -
  have "h ! i = x" if "i < length h" for i using assms(2) nth_mem [OF that] by auto
  with assms(1) jitter_constant [OF assms] show ?thesis
    by (simp add: sync_verdict_def DRIFT_WARNING_def CLOCK_SLIP_def)
qed

text \<open>Strides with one constant drift and consecutive sequence numbers.\<close>

definition quiet :: "real \<Rightarrow> int \<Rightarrow> (real \<times> real \<times> int) list \<Rightarrow> bool" where
  "quiet d s xs \<longleftrightarrow> (\<forall>i < length xs. fst (snd (xs ! i)) - fst (xs ! i) = d \<and> snd (snd (xs ! i)) = s + int i)"

lemma quiet_Cons: "quiet d s (x # xs) \<longleftrightarrow> fst (snd x) - fst x = d \<and> snd (snd x) = s \<and> quiet d (s + 1) xs"
  unfolding quiet_def list.size(4) One_nat_def add_Suc_right add_0_right All_less_Suc2 by (auto simp: algebra_simps)


lemma quiet_append: "quiet d s (us @ vs) \<longleftrightarrow> quiet d s us \<and> quiet d (s + int (length us)) vs"
proof (induction us arbitrary: s)
  case Nil
  then show ?case by (simp add: quiet_def)
next
  case (Cons u us)
  then show ?case by (simp add: quiet_Cons algebra_simps)
qed

text \<open>The last \<open>j\<close> entries of the window are the constant drift.\<close>

definition settled :: "real \<Rightarrow> nat \<Rightarrow> tracker \<Rightarrow> bool" where
  "settled d j k \<longleftrightarrow> (\<forall>i < length (drift_history k). length (drift_history k) \<le> i + j \<longrightarrow> drift_history k ! i = d)"

lemma settled_step:
  assumes "settled d j k" "drift_history k \<noteq> []" "drift_history k' = tl (window_before d k) @ [d]"
  shows "settled d (Suc j) k'"
proof -
  have "drift_history k' ! i = d" if "i < length (drift_history k')" "length (drift_history k') \<le> i + Suc j" for i
    using assms that by (cases "i = length (tl (window_before d k))")
      (auto simp: settled_def window_before_def nth_append nth_tl split: if_splits)
  then show ?thesis by (simp add: settled_def)
qed

lemma settled_verdict:
  assumes "settled d (length (drift_history k)) k" "drift_history k \<noteq> []"
  shows "sync_verdict (drift_history k) d (jitter_of (drift_history k)) 0 DRIFT_WARNING CLOCK_SLIP = 0"
  using assms by (intro quiet_verdict) (auto simp: settled_def in_set_conv_nth)

lemma settled_mono: "settled d j k \<Longrightarrow> i \<le> j \<Longrightarrow> settled d i k"
  by (simp add: settled_def)

text \<open>The first strides of a quiet link fill the window, whatever the controller does meanwhile.\<close>

lemma quiet_fills:
  assumes "flow_inv w c" "settled d j (sync_tracker c)" "quiet d s xs"
  shows "\<exists>c' os. flow_run xs c = Ok (c', os) \<and> flow_inv w c' \<and> settled d (j + length xs) (sync_tracker c') \<and>
    (xs \<noteq> [] \<longrightarrow> last_sequence (sync_tracker c') = s + int (length xs) - 1)"
  using assms
proof (induction xs arbitrary: c j s)
  case Nil
  then show ?case by simp
next
  case (Cons x xs)
  obtain sdr sys seq where x: "x = (sdr, sys, seq)" by (cases x)
  from Cons.prems(3) have q: "sys - sdr = d" "seq = s" "quiet d (s + 1) xs" by (simp_all add: quiet_Cons x)
  from flow_stride_Ok [OF Cons.prems(1), of sdr sys seq] obtain c1 a rt where
    c1: "flow_stride x c = Ok (c1, a, rt)" "flow_inv w c1" "last_sequence (sync_tracker c1) = s"
      "drift_history (sync_tracker c1) = tl (window_before d (sync_tracker c)) @ [d]" by (auto simp: x q)
  have "drift_history (sync_tracker c) \<noteq> []" using Cons.prems(1) by (auto simp: flow_inv_def)
  from settled_step [OF Cons.prems(2) this c1(4)] have "settled d (Suc j) (sync_tracker c1)" .
  from Cons.IH [OF c1(2) this q(3)] obtain c' os where
    "flow_run xs c1 = Ok (c', os)" "flow_inv w c'" "settled d (Suc j + length xs) (sync_tracker c')"
    "xs \<noteq> [] \<longrightarrow> last_sequence (sync_tracker c') = s + 1 + int (length xs) - 1" by auto
  note c' = this
  have "last_sequence (sync_tracker c') = s + int (length (x # xs)) - 1"
    using c'(1,4) c1(3) by (cases "xs = []") simp_all
  with c'(1-3) c1(1) show ?case by simp
qed

text \<open>How many quiet strides are left until the controller continues.\<close>

definition remaining :: "flow_controller \<Rightarrow> nat" where
  "remaining c = (if last_action c = 0 then 0
     else if last_action c = 3 then 6 - consecutive_nominal_count c else 7)"

lemma remaining_step:
  assumes "rate_inv (last_action c) (consecutive_nominal_count c) r"
    "(last_action c', consecutive_nominal_count c') = flow_action 0 0 (last_action c) (consecutive_nominal_count c)"
  shows "remaining c' \<le> remaining c - 1"
  using assms by (auto simp: remaining_def flow_action_def rate_inv_def split: if_splits)

lemma quiet_continues:
  assumes "flow_inv w c" "settled d w (sync_tracker c)" "quiet d s xs" "last_sequence (sync_tracker c) = s - 1"
    "remaining c \<le> length xs" "xs \<noteq> []"
  shows "\<exists>c' os. flow_run xs c = Ok (c', os) \<and> last os = (0, 1)"
  using assms
proof (induction xs arbitrary: c s)
  case Nil
  then show ?case by simp
next
  case (Cons x xs)
  obtain sdr sys seq where x: "x = (sdr, sys, seq)" by (cases x)
  from Cons.prems(3) have q: "sys - sdr = d" "seq = s" "quiet d (s + 1) xs" by (simp_all add: quiet_Cons x)
  have no_drop: "dropped_frames (last_sequence (sync_tracker c)) s = 0"
    using Cons.prems(4) by (simp add: dropped_frames_def)
  from flow_stride_Ok [OF Cons.prems(1), of sdr sys seq] obtain c1 a rt where
    c1: "flow_stride x c = Ok (c1, a, rt)" "flow_inv w c1" "a = last_action c1" "rt = current_rate_factor c1"
      "last_sequence (sync_tracker c1) = s"
      "drift_history (sync_tracker c1) = tl (window_before d (sync_tracker c)) @ [d]"
      "(a, consecutive_nominal_count c1) = flow_action
        (sync_verdict (drift_history (sync_tracker c1)) d (jitter_of (drift_history (sync_tracker c1))) 0
          DRIFT_WARNING CLOCK_SLIP) 0 (last_action c) (consecutive_nominal_count c)"
    by (auto simp: x q no_drop)
  have ne: "drift_history (sync_tracker c) \<noteq> []" "drift_history (sync_tracker c1) \<noteq> []"
    "length (drift_history (sync_tracker c1)) = w" using Cons.prems(1) c1(2) by (auto simp: flow_inv_def)
  have settled: "settled d w (sync_tracker c1)"
    using settled_step [OF Cons.prems(2) ne(1) c1(6)] by (rule settled_mono) simp
  with settled_verdict [of d "sync_tracker c1"] ne c1(7)
  have act: "(last_action c1, consecutive_nominal_count c1) = flow_action 0 0 (last_action c) (consecutive_nominal_count c)"
    by (simp add: c1(3))
  have rem: "remaining c1 \<le> length xs"
    using remaining_step [OF _ act] Cons.prems(1,5) by (force simp: flow_inv_def)
  show ?case
  proof (cases xs)
    case Nil
    with rem have "remaining c1 = 0" by simp
    then have "last_action c1 = 0" using c1(2) by (auto simp: remaining_def flow_inv_def rate_inv_def split: if_splits)
    with c1 Nil show ?thesis by (simp add: flow_inv_def rate_inv_def)
  next
    case (Cons y ys)
    with Cons.IH [OF c1(2) settled q(3) _ rem] c1(1,5) obtain c' os where
      "flow_run xs c1 = Ok (c', os)" "last os = (0, 1)" by auto
    moreover from this(1) Cons have "os \<noteq> []" by (auto simp: seqE_Ok_iff)
    ultimately show ?thesis using c1(1) by simp
  qed
qed

lemma flow_run_bounds:
  assumes "flow_inv w c"
  shows "\<exists>c' os. flow_run xs c = Ok (c', os) \<and> flow_inv w c' \<and> length os = length xs \<and>
    list_all (\<lambda>(a, rt). a \<le> 3 \<and> 80 / 100 \<le> rt \<and> rt \<le> 1 \<and> (a = 0 \<longrightarrow> rt = 1)) os"
  using assms
proof (induction xs arbitrary: c)
  case Nil
  then show ?case by simp
next
  case (Cons x xs)
  obtain sdr sys seq where x: "x = (sdr, sys, seq)" by (cases x)
  from flow_stride_Ok [OF Cons.prems, of sdr sys seq] obtain c1 a rt where
    c1: "flow_stride x c = Ok (c1, a, rt)" "flow_inv w c1" "a = last_action c1" "rt = current_rate_factor c1" by (auto simp: x)
  from Cons.IH [OF c1(2)] c1 show ?case by (auto simp: flow_inv_def rate_inv_def)
qed

lemma flow_run_append:
  "flow_run (xs @ ys) c = seqE (flow_run xs c) (\<lambda>(c', os). seqE (flow_run ys c') (\<lambda>(c'', os'). Ok (c'', os @ os')))"
  by (induction xs arbitrary: c) (auto simp: seqE_def split: sum.splits prod.splits)

section \<open>Properties\<close>

text \<open>
  whatever timestamps and sequence numbers a controller with a window of at least five has
  processed, it has not failed, its rate factor has stayed between 0.8 and 1 and was 1 whenever
  it continued normally; and as soon as the link is quiet (constant drift, consecutive frames)
  for the length of the window and seven more strides, it continues normally at the full rate.
\<close>

theorem flow_recovers:
  assumes "5 \<le> w" and "quiet d s ys" and "w + 7 \<le> length ys"
  shows "\<exists>c0 c os c' os'. flow_controller_init w = Ok c0 \<and> flow_run xs c0 = Ok (c, os) \<and>
    list_all (\<lambda>(a, rt). a \<le> 3 \<and> 80 / 100 \<le> rt \<and> rt \<le> 1 \<and> (a = 0 \<longrightarrow> rt = 1)) os \<and>
    flow_run ys c = Ok (c', os') \<and> last os' = (0, 1)"
proof -
  obtain c0 where c0: "flow_controller_init w = Ok c0" using assms(1) by (simp add: flow_controller_init_def tracker_init_def)
  obtain c os where c: "flow_run xs c0 = Ok (c, os)" "flow_inv w c"
      "list_all (\<lambda>(a, rt). a \<le> 3 \<and> 80 / 100 \<le> rt \<and> rt \<le> 1 \<and> (a = 0 \<longrightarrow> rt = 1)) os"
    using flow_run_bounds [OF flow_inv_init [OF c0]] by blast
  define us where "us = take w ys"
  define vs where "vs = drop w ys"
  have split: "ys = us @ vs" "length us = w" "7 \<le> length vs" "us \<noteq> []" "vs \<noteq> []"
    using assms(1,3) by (auto simp: us_def vs_def)
  have q: "quiet d s us" "quiet d (s + int w) vs"
    using assms(2) split(2) by (simp_all add: split(1) quiet_append)
  have "settled d 0 (sync_tracker c)" by (simp add: settled_def)
  from quiet_fills [OF c(2) this q(1)] split(2,4) obtain c1 os1 where
    c1: "flow_run us c = Ok (c1, os1)" "flow_inv w c1" "settled d w (sync_tracker c1)"
      "last_sequence (sync_tracker c1) = s + int w - 1" by auto
  have "remaining c1 \<le> length vs" using split(3) by (auto simp: remaining_def)
  from quiet_continues [OF c1(2,3) q(2) c1(4) this split(5)] obtain c2 os2 where
    c2: "flow_run vs c1 = Ok (c2, os2)" "last os2 = (0, 1)" by blast
  have "os2 \<noteq> []" using c2(1) split(5) by (cases vs) (auto simp: seqE_Ok_iff)
  with c1(1) c2 have "flow_run ys c = Ok (c2, os1 @ os2)" "last (os1 @ os2) = (0, 1)"
    by (simp_all add: split(1) flow_run_append)
  with c0 c show ?thesis by blast
qed

theorem flow_recovers_witness:
  "\<exists>c0 c os c' os'. flow_controller_init 5 = Ok c0 \<and> flow_run [(0, 1, 1), (0, 9, 30)] c0 = Ok (c, os) \<and>
    list_all (\<lambda>(a, rt). a \<le> 3 \<and> 80 / 100 \<le> rt \<and> rt \<le> 1 \<and> (a = 0 \<longrightarrow> rt = 1)) os \<and>
    flow_run (map (\<lambda>i. (0, 2, int i)) [31..<43]) c = Ok (c', os') \<and> last os' = (0, 1)"
  by (rule flow_recovers [of _ 2 31]) (simp_all add: quiet_def del: upt_rec_numeral)

text \<open>After a throttled stride the burst lasts six quiet strides, not five.\<close>

lemma burst_is_six:
  "map (\<lambda>k. fst (((\<lambda>s. flow_action 0 0 (fst s) (snd s)) ^^ k) (2, 0))) [1, 2, 3, 4, 5, 6, 7] = [3, 3, 3, 3, 3, 3, 0]"
  by (simp add: flow_action_def numeral_eq_Suc)

end
