(* ===== verification/Quantizer.thy ===== *)
theory Quantizer
  imports Numerics
begin

text \<open>
  \<^verbatim>\<open>fixed_point_quantizer.py\<close> and \<^verbatim>\<open>soft_decision_decoder.py\<close>: the saturating quantizer with
  its buffers and overflow count, and the two stages of the decoder. Samples are exact reals.
\<close>

section \<open>The quantizer\<close>

record quantizer =
  bit_width :: nat
  q_stride_size :: nat
  scale_factor :: real
  max_val :: int
  min_val :: int
  out_real :: "int list"
  out_imag :: "int list"

text \<open>The constructor's trial run writes entry 0 of the buffers.\<close>

definition quantizer_init :: "nat \<Rightarrow> nat \<Rightarrow> real \<Rightarrow> fault + quantizer" where
  "quantizer_init width stride sf =
     (if width \<noteq> 16 \<and> width \<noteq> 32 then Fail ValueError
      else if stride = 0 then Fail OutOfBounds
      else Ok \<lparr>bit_width = width, q_stride_size = stride, scale_factor = sf,
               max_val = (if width = 16 then 32767 else 2147483647),
               min_val = (if width = 16 then - 32768 else - 2147483648),
               out_real = replicate stride 0, out_imag = replicate stride 0\<rparr>)"

text \<open>One component: its value and whether it saturated.\<close>

definition quantize_component :: "int \<Rightarrow> int \<Rightarrow> real \<Rightarrow> int \<times> nat" where
  "quantize_component hi lo x =
     (if x > of_int hi then (hi, 1) else if x < of_int lo then (lo, 1) else (round_even x, 0))"

definition quantize_and_clamp :: "real \<Rightarrow> int \<Rightarrow> int \<Rightarrow> (real \<times> real) list \<Rightarrow> int list \<times> int list \<times> nat" where
  "quantize_and_clamp sf hi lo iq =
     (let re = map (\<lambda>(x, y). quantize_component hi lo (x * sf)) iq;
          im = map (\<lambda>(x, y). quantize_component hi lo (y * sf)) iq
      in (map fst re, map fst im, sum_list (map snd re) + sum_list (map snd im)))"

text \<open>A stride: the two views and whether the saturation warning is logged.\<close>

definition quantize_stride :: "(real \<times> real) list \<Rightarrow> quantizer \<Rightarrow> fault + quantizer \<times> int list \<times> int list \<times> nat" where
  "quantize_stride iq q =
     (if q_stride_size q < length iq then Fail ValueError
      else case quantize_and_clamp (scale_factor q) (max_val q) (min_val q) iq of (re, im, sat) \<Rightarrow>
        let q' = q\<lparr>out_real := re @ drop (length iq) (out_real q), out_imag := im @ drop (length iq) (out_imag q)\<rparr>
        in Ok (q', take (length iq) (out_real q'), take (length iq) (out_imag q'), sat))"

section \<open>Properties of the quantizer\<close>

definition clamp :: "int \<Rightarrow> int \<Rightarrow> real \<Rightarrow> real" where
  "clamp hi lo x = max (of_int lo) (min (of_int hi) x)"

definition out_of_range :: "int \<Rightarrow> int \<Rightarrow> real \<Rightarrow> bool" where
  "out_of_range hi lo x \<longleftrightarrow> x < of_int lo \<or> of_int hi < x"

text \<open>The specification of one output for one input.\<close>

definition quantized_ok :: "nat \<Rightarrow> real \<Rightarrow> int \<Rightarrow> bool" where
  "quantized_ok width x k \<longleftrightarrow> - (2 ^ (width - 1)) \<le> k \<and> k < 2 ^ (width - 1) \<and>
     \<bar>of_int k - clamp (2 ^ (width - 1) - 1) (- (2 ^ (width - 1))) x\<bar> \<le> 1 / 2"

lemma quantize_component_ok:
  assumes "lo \<le> hi"
  shows "lo \<le> fst (quantize_component hi lo x) \<and> fst (quantize_component hi lo x) \<le> hi \<and>
    \<bar>of_int (fst (quantize_component hi lo x)) - clamp hi lo x\<bar> \<le> 1 / 2 \<and>
    snd (quantize_component hi lo x) = (if out_of_range hi lo x then 1 else 0)"
proof -
  consider "x > of_int hi" | "x < of_int lo" | "of_int lo \<le> x" "x \<le> of_int hi" by linarith
  then show ?thesis
  proof cases
    case 3
    with round_even_ge [of lo x] round_even_le [of x hi] round_even_near [of x] show ?thesis
      by (simp add: quantize_component_def clamp_def out_of_range_def)
  next
    case 2
    moreover have "x \<le> of_int hi" using 2 assms by (meson le_less_linear less_trans not_le of_int_le_iff order.strict_trans1)
    ultimately show ?thesis using assms by (simp add: quantize_component_def clamp_def out_of_range_def)
  qed (use assms in \<open>simp_all add: quantize_component_def clamp_def out_of_range_def\<close>)
qed

lemma sum_saturations:
  assumes "lo \<le> hi"
  shows "sum_list (map (\<lambda>x. snd (quantize_component hi lo (f x))) xs) =
    length (filter (\<lambda>x. out_of_range hi lo (f x)) xs)"
  using quantize_component_ok [OF assms] by (induction xs) simp_all

text \<open>
  a stride that fits is quantized without failure: every component comes out within the
  signed range of the width and within half a unit of the input clamped to that range, the
  count is the number of components out of range, and the buffer behind the stride is kept.
\<close>

theorem quantize_stride_correct:
  assumes "quantizer_init width stride sf = Ok q0" "out_real q = us" "out_imag q = vs"
    "q = q0\<lparr>out_real := us, out_imag := vs\<rparr>" "length iq \<le> stride"
  shows "\<exists>q' re im sat. quantize_stride iq q = Ok (q', re, im, sat) \<and>
    list_all2 (\<lambda>(x, y) k. quantized_ok width (x * sf) k) iq re \<and>
    list_all2 (\<lambda>(x, y) k. quantized_ok width (y * sf) k) iq im \<and>
    sat = length (filter (\<lambda>(x, y). out_of_range (max_val q) (min_val q) (x * sf)) iq) +
          length (filter (\<lambda>(x, y). out_of_range (max_val q) (min_val q) (y * sf)) iq) \<and>
    drop (length iq) (out_real q') = drop (length iq) us \<and> drop (length iq) (out_imag q') = drop (length iq) vs"
proof -
  from assms(1) have w: "width = 16 \<or> width = 32"
    "q0 = \<lparr>bit_width = width, q_stride_size = stride, scale_factor = sf,
       max_val = 2 ^ (width - 1) - 1, min_val = - (2 ^ (width - 1)), out_real = replicate stride 0, out_imag = replicate stride 0\<rparr>"
    by (auto simp: quantizer_init_def split: if_splits)
  let ?hi = "2 ^ (width - 1) - 1 :: int" and ?lo = "- (2 ^ (width - 1)) :: int"
  have le: "?lo \<le> ?hi" using w(1) by auto
  have ok: "quantized_ok width x (fst (quantize_component ?hi ?lo x))" for x
    using quantize_component_ok [OF le, of x] by (auto simp: quantized_ok_def)
  show ?thesis
    using w(2) assms(2-5) ok
    by (simp add: quantize_stride_def quantize_and_clamp_def Let_def split_def list_all2_map2 o_def
        sum_saturations [OF le] list_all2_same del: One_nat_def)
qed

theorem quantize_stride_correct_witness:
  "\<exists>q' re im sat. quantize_stride [(1, 2), (- 40000, 1 / 4)]
      (projr (quantizer_init 16 4 1)\<lparr>out_real := [5, 6, 7, 8], out_imag := [0, 0, 0, 9]\<rparr>) = Ok (q', re, im, sat) \<and>
    sat = 1 \<and> drop 2 (out_real q') = [7, 8]"
  using quantize_stride_correct [of 16 4 1 "projr (quantizer_init 16 4 1)"
      "projr (quantizer_init 16 4 1)\<lparr>out_real := [5, 6, 7, 8], out_imag := [0, 0, 0, 9]\<rparr>"
      "[5, 6, 7, 8]" "[0, 0, 0, 9]" "[(1, 2), (- 40000, 1 / 4)]"]
  by (auto simp: quantizer_init_def out_of_range_def numeral_2_eq_2)

section \<open>The decoder\<close>

record decoder =
  d_blocks :: nat
  path_metrics :: "real list"

definition decoder_init :: "nat \<Rightarrow> decoder" where
  "decoder_init blocks = \<lparr>d_blocks = blocks, path_metrics = replicate 16 0\<rparr>"

text \<open>One soft bit pair: the metrics and the hard decision in the Viterbi buffer.\<close>

definition viterbi_bit :: "real list \<Rightarrow> nat \<Rightarrow> real list \<times> byte list \<Rightarrow> fault + real list \<times> byte list" where
  "viterbi_bit soft i st = (case st of (pm, out) \<Rightarrow>
     (let b0 = soft ! (2 * i); b1 = soft ! (2 * i + 1);
          pm' = map (\<lambda>m. m * (9 / 10) + ((b0 - 1 / 2)\<^sup>2 + (b1 - 1 / 2)\<^sup>2)) pm
      in if b0 + b1 > 1
         then seqE (load out (i div 8)) (\<lambda>b. seqE (store out (i div 8) (or b (push_bit (i mod 8) 1))) (\<lambda>out'. Ok (pm', out')))
         else Ok (pm', out)))"

fun viterbi :: "real list \<Rightarrow> nat list \<Rightarrow> real list \<times> byte list \<Rightarrow> fault + real list \<times> byte list" where
  "viterbi soft [] st = Ok st"
| "viterbi soft (i # is) st = seqE (viterbi_bit soft i st) (viterbi soft is)"

text \<open>One Reed-Solomon block: the syndrome sum over 32 passes, and the repair.\<close>

definition syndrome_sum :: "byte list \<Rightarrow> nat" where
  "syndrome_sum bs = sum_list (concat (map (\<lambda>_. map unat bs) [0..<32]))"

definition repair_block :: "byte list \<Rightarrow> byte list \<times> nat" where
  "repair_block bs = (if syndrome_sum bs > 0
     then (map (\<lambda>b. if b \<noteq> 0 then 0 else b) bs, length (filter (\<lambda>b. b \<noteq> 0) bs)) else (bs, 0))"

definition block :: "byte list \<Rightarrow> nat \<Rightarrow> byte list" where
  "block out k = take 255 (drop (k * 255) out)"

definition dual_stage_decode :: "real list \<Rightarrow> decoder \<Rightarrow> fault + decoder \<times> nat \<times> byte list" where
  "dual_stage_decode soft d =
     seqE (viterbi soft [0..<length soft div 2] (path_metrics d, replicate (255 * d_blocks d) 0)) (\<lambda>(pm, out).
       let blocks = map (\<lambda>k. repair_block (block out k)) [0..<length out div 255]
       in Ok (d\<lparr>path_metrics := pm\<rparr>, sum_list (map snd blocks), concat (map (take 223 \<circ> fst) blocks)))"

lemma viterbi_length: "viterbi soft is st = Ok st' \<Longrightarrow> length (snd st') = length (snd st)"
  by (induction "is" arbitrary: st)
    (auto simp: seqE_Ok_iff viterbi_bit_def Let_def split: prod.splits if_splits dest: store_length)

lemma viterbi_Ok: "\<forall>i \<in> set is. i < 8 * length out \<Longrightarrow> \<exists>st'. viterbi soft is (pm, out) = Ok st'"
proof (induction "is" arbitrary: pm out)
  case Nil
  then show ?case by simp
next
  case (Cons i "is")
  then have "i div 8 < length out" by auto
  then have "\<exists>pm' out'. viterbi_bit soft i (pm, out) = Ok (pm', out') \<and> length out' = length out"
    by (cases "soft ! (2 * i) + soft ! (2 * i + 1) > 1") (simp_all add: viterbi_bit_def Let_def load_def store_def)
  then obtain pm' out' where "viterbi_bit soft i (pm, out) = Ok (pm', out')" "length out' = length out" by blast
  with Cons.IH [of out' pm'] Cons.prems show ?case by simp
qed

lemma syndrome_zero: "syndrome_sum bs = 0 \<longleftrightarrow> set bs \<subseteq> {0}"
  by (auto simp: syndrome_sum_def unat_eq_0 dest: bspec [of _ _ 0])

lemma repair_zero: "fst (repair_block bs) = replicate (length bs) 0"
  using syndrome_zero [of bs] by (auto simp: repair_block_def intro: nth_equalityI) (auto simp: list_eq_iff_nth_eq subset_iff in_set_conv_nth)

text \<open>
  The repair clears every byte that is not zero, and a block without such bytes is zero
  already: the payload is zero whatever was received.
\<close>

theorem decoder_payload_zero:
  assumes "length soft div 2 \<le> 8 * (255 * d_blocks d)"
  shows "\<exists>d' n. dual_stage_decode soft d = Ok (d', n, replicate (223 * d_blocks d) 0)"
proof -
  from viterbi_Ok [of "[0..<length soft div 2]" "replicate (255 * d_blocks d) 0" soft "path_metrics d"] assms
  obtain pm out where v: "viterbi soft [0..<length soft div 2] (path_metrics d, replicate (255 * d_blocks d) 0) = Ok (pm, out)"
    by auto
  then have len: "length out = d_blocks d * 255" using viterbi_length by fastforce
  have "(take 223 \<circ> fst) (repair_block (block out k)) = replicate 223 0" if "k < d_blocks d" for k
  proof -
    have "k * 255 + 255 \<le> d_blocks d * 255" using that by simp
    then have "length (block out k) = 255" using len by (simp add: block_def)
    then show ?thesis by (simp add: repair_zero)
  qed
  then have "map ((take 223 \<circ> fst) \<circ> (\<lambda>k. repair_block (block out k))) [0..<d_blocks d] = replicate (d_blocks d) (replicate 223 0)"
    by (intro nth_equalityI) simp_all
  moreover have "concat (replicate m (replicate 223 0)) = replicate (223 * m) (0 :: byte)" for m
    by (induction m) (simp_all add: replicate_add)
  ultimately show ?thesis using v len by (simp add: dual_stage_decode_def Let_def)
qed

theorem decoder_payload_zero_witness:
  "\<exists>d' n. dual_stage_decode [1, 1, 1, 1] (decoder_init 1) = Ok (d', n, replicate (223 * d_blocks (decoder_init 1)) 0)"
  by (rule decoder_payload_zero) (simp add: decoder_init_def)

end
