(* ===== verification/Zk_Prover.thy ===== *)
theory Zk_Prover
  imports Text_Encoding
begin

text \<open>
  \<^verbatim>\<open>zk_containment_prover.py\<close>: the Schnorr proof of a containment statement and its verifier.
  The group is a parameter with the module's constants as one instance. SHA-256 (its digest as
  an integer), the formatting of floats, the clock and the decoding of UTF-8 are parameters.
\<close>

section \<open>Python's modular power\<close>

definition mod_inverse :: "int \<Rightarrow> int \<Rightarrow> int option" where
  "mod_inverse b m = (if gcd (nat (b mod m)) (nat m) = 1 then Some (fst (bezw (nat (b mod m)) (nat m)) mod m) else None)"

text \<open>\<^verbatim>\<open>pow(b, e, m)\<close> for a positive modulus; \<open>None\<close> is the \<^verbatim>\<open>ValueError\<close> of a base without inverse.\<close>

definition pow_mod :: "int \<Rightarrow> int \<Rightarrow> int \<Rightarrow> int option" where
  "pow_mod b e m = (if 0 \<le> e then Some (b ^ nat e mod m)
     else map_option (\<lambda>i. i ^ nat (- e) mod m) (mod_inverse b m))"

section \<open>The prover\<close>

record group =
  P :: int
  G :: int

definition Q :: "group \<Rightarrow> int" where
  "Q k = P k - 1"

definition prover_group :: group where
  "prover_group = \<lparr>P = 0xFFFFFFFFFFFFFFFFC90FDAA22168C234C4C6628B80DC1CD129024E088A67CC74020BBEA63B139B22514A08798E3404DDEF9519B3CD3A431B302B0A6DF25F14374FE1356D6D51C245E485B576625E7EC6F44C42E9A637ED6B0BFF5CB6F406B7EDEE386BFB5A899FA5AE9F24117C4B1FE649286651ECE65381FFFFFFFFFFFFFFFF,
     G = 2\<rparr>"

definition str_bool :: "bool \<Rightarrow> string" where
  "str_bool b = (if b then ''True'' else ''False'')"

definition statement_of :: "(real \<Rightarrow> string) \<Rightarrow> (real \<Rightarrow> string) \<Rightarrow> string \<Rightarrow> real \<Rightarrow> real \<Rightarrow> bool \<Rightarrow> string" where
  "statement_of fmt2 fmt hist null_depth_db ber loop_stable =
     hist @ '':'' @ fmt2 null_depth_db @ '':'' @ fmt ber @ '':'' @ str_bool loop_stable"

definition challenge_input :: "int \<Rightarrow> int \<Rightarrow> string \<Rightarrow> string" where
  "challenge_input t y stmt = str_int t @ '':'' @ str_int y @ '':'' @ stmt"

definition proof_payload :: "nat \<Rightarrow> nat \<Rightarrow> nat \<Rightarrow> string" where
  "proof_payload y c s = ''ZK_NIZKP|y:'' @ hex y @ ''|c:'' @ hex c @ ''|s:'' @ hex s"

text \<open>Signing a statement with a witness \<open>x\<close> and a nonce \<open>r\<close>: the proof and the public key.\<close>

definition sign :: "(string \<Rightarrow> nat) \<Rightarrow> group \<Rightarrow> nat \<Rightarrow> nat \<Rightarrow> string \<Rightarrow> string \<times> int" where
  "sign sha k x r stmt =
     (let y = G k ^ x mod P k; t = G k ^ r mod P k; c = sha (challenge_input t y stmt);
          s = (int r + int c * int x) mod Q k
      in (b64encode (proof_payload (nat y) c (nat s)), y))"

definition generate_proof :: "(string \<Rightarrow> nat) \<Rightarrow> (real \<Rightarrow> string) \<Rightarrow> (real \<Rightarrow> string) \<Rightarrow> group \<Rightarrow> nat \<Rightarrow>
    string \<Rightarrow> real \<Rightarrow> real \<Rightarrow> bool \<Rightarrow> string \<Rightarrow> fault + string \<times> string \<times> int" where
  "generate_proof sha fmt2 fmt k time_ns hist null_depth_db ber loop_stable raw_iq_state =
     (if null_depth_db > - 40 then Fail ValueError
      else if \<not> loop_stable then Fail ValueError
      else let stmt = statement_of fmt2 fmt hist null_depth_db ber loop_stable in
        case sign sha k (sha raw_iq_state) (sha (str_int (int time_ns) @ raw_iq_state @ hist)) stmt of
          (sig, y) \<Rightarrow> Ok (sig, stmt, y))"

section \<open>The verifier\<close>

text \<open>One field of the payload: what follows the first colon up to the next.\<close>

definition field_int :: "string list \<Rightarrow> nat \<Rightarrow> int option" where
  "field_int parts i = (if i < length parts
     then let fs = split_on (CHR '':'') (parts ! i) in if 1 < length fs then parse_int16 (fs ! 1) else None
     else None)"

definition check_response :: "(string \<Rightarrow> nat) \<Rightarrow> group \<Rightarrow> string \<Rightarrow> int \<Rightarrow> int \<Rightarrow> int \<Rightarrow> bool" where
  "check_response sha k stmt y c s =
     (case pow_mod y (P k - 2) (P k) of None \<Rightarrow> False | Some y_inv \<Rightarrow>
      (case pow_mod y_inv c (P k) of None \<Rightarrow> False | Some y_inv_c \<Rightarrow>
      (case pow_mod (G k) s (P k) of None \<Rightarrow> False | Some g_s \<Rightarrow>
        c = int (sha (challenge_input (g_s * y_inv_c mod P k) y stmt)))))"

definition verify_proof :: "(string \<Rightarrow> nat) \<Rightarrow> (string \<Rightarrow> string option) \<Rightarrow> group \<Rightarrow> string \<Rightarrow> string \<Rightarrow> bool" where
  "verify_proof sha utf8 k proof_b64 stmt =
     (case b64decode proof_b64 of None \<Rightarrow> False | Some bytes \<Rightarrow>
      (case utf8 bytes of None \<Rightarrow> False | Some payload \<Rightarrow>
       (let parts = split_on (CHR ''|'') payload in
        case (field_int parts 1, field_int parts 2, field_int parts 3) of
          (Some y, Some c, Some s) \<Rightarrow> check_response sha k stmt y c s
        | _ \<Rightarrow> False)))"

section \<open>Reading a proof back\<close>

lemma hex_no [simp]: "CHR ''|'' \<notin> set (hex n)" "CHR '':'' \<notin> set (hex n)"
  using hex_chars by blast+

lemma payload_parts:
  "split_on (CHR ''|'') (proof_payload y c s) = [''ZK_NIZKP'', ''y:'' @ hex y, ''c:'' @ hex c, ''s:'' @ hex s]"
proof -
  define tag where "tag = ''ZK_NIZKP''"
  have tag: "CHR ''|'' \<notin> set tag" by (simp add: tag_def)
  have parts: "CHR ''|'' \<notin> set (''y:'' @ hex y)" "CHR ''|'' \<notin> set (''c:'' @ hex c)" "CHR ''|'' \<notin> set (''s:'' @ hex s)"
    by simp_all
  have "proof_payload y c s = tag @ CHR ''|'' # ((''y:'' @ hex y) @ CHR ''|'' # ((''c:'' @ hex c) @ CHR ''|'' # (''s:'' @ hex s)))"
    by (simp add: proof_payload_def tag_def)
  then show ?thesis
    unfolding tag_def [symmetric]
    by (simp only: split_on_once [OF tag] split_on_once [OF parts(1)] split_on_once [OF parts(2)] split_on_none [OF parts(3)])
qed

lemma payload_ascii: "\<forall>ch \<in> set (proof_payload y c s). (of_char ch :: nat) < 128"
  using hex_chars by (auto simp: proof_payload_def)

lemma verify_encoded:
  assumes "\<And>s. \<forall>ch \<in> set s. (of_char ch :: nat) < 128 \<Longrightarrow> utf8 s = Some s"
  shows "verify_proof sha utf8 k (b64encode (proof_payload y c s)) stmt = check_response sha k stmt (int y) (int c) (int s)"
  using assms [OF payload_ascii]
  by (simp add: verify_proof_def b64_decode_encode payload_parts field_int_def split_on_none Let_def numeral_2_eq_2 numeral_3_eq_3)

section \<open>The equation\<close>

lemma power_mod_period:
  assumes "(g :: int) ^ n mod p = 1" "1 < p"
  shows "g ^ (m mod n) mod p = g ^ m mod p"
proof -
  have "g ^ m = (g ^ n) ^ (m div n) * g ^ (m mod n)"
    by (simp flip: power_mult power_add)
  also have "\<dots> mod p = ((g ^ n mod p) ^ (m div n) mod p) * (g ^ (m mod n)) mod p"
    by (simp add: mod_mult_left_eq power_mod)
  finally show ?thesis using assms by simp
qed

lemma response_recovers:
  fixes x :: nat
  assumes "2 < P k" "G k ^ nat (P k - 1) mod P k = 1"
  defines "y \<equiv> G k ^ x mod P k"
  shows "(G k ^ nat ((int r + int c * int x) mod Q k) mod P k) * ((y ^ nat (P k - 2) mod P k) ^ c mod P k) mod P k
    = G k ^ r mod P k"
proof -
  let ?p = "P k" and ?n = "nat (P k - 1)"
  have n: "?n = Suc (nat (?p - 2))" using assms(1) by linarith
  have "nat ((int r + int c * int x) mod Q k) = (r + c * x) mod ?n"
    using assms(1) by (simp add: Q_def nat_mod_distrib flip: of_nat_mult of_nat_add)
  then have a: "G k ^ nat ((int r + int c * int x) mod Q k) mod ?p = G k ^ (r + c * x) mod ?p"
    using power_mod_period [OF assms(2), of "r + c * x"] assms(1) by simp
  have "y ^ ?n mod ?p = (G k ^ ?n mod ?p) ^ x mod ?p"
    by (simp add: y_def power_mod mult.commute flip: power_mult)
  then have one: "y ^ ?n mod ?p = 1" using assms(1,2) by simp
  have "(G k ^ nat ((int r + int c * int x) mod Q k) mod ?p) * ((y ^ nat (?p - 2) mod ?p) ^ c mod ?p) mod ?p =
      G k ^ (r + c * x) * (y ^ nat (?p - 2)) ^ c mod ?p"
    unfolding a by (simp add: mod_mult_eq power_mod)
  also have "\<dots> = (G k ^ r * ((G k ^ x) ^ c * (y ^ nat (?p - 2)) ^ c)) mod ?p"
    by (simp add: power_add mult.commute [of c x] mult.assoc flip: power_mult)
  also have "(G k ^ x) ^ c * (y ^ nat (?p - 2)) ^ c = (G k ^ x * y ^ nat (?p - 2)) ^ c"
    by (simp add: power_mult_distrib)
  also have "G k ^ r * (G k ^ x * y ^ nat (?p - 2)) ^ c mod ?p =
      G k ^ r * ((y * y ^ nat (?p - 2)) mod ?p) ^ c mod ?p"
    unfolding y_def by (metis (no_types, lifting) mod_mult_left_eq mod_mult_right_eq power_mod)
  also have "y * y ^ nat (?p - 2) = y ^ ?n" by (simp add: n)
  finally show ?thesis using one assms(1) by simp
qed

lemma sign_verifies:
  assumes "\<And>s. \<forall>ch \<in> set s. (of_char ch :: nat) < 128 \<Longrightarrow> utf8 s = Some s"
    and "2 < P k" "G k ^ nat (P k - 1) mod P k = 1"
  shows "verify_proof sha utf8 k (fst (sign sha k x r stmt)) stmt"
proof -
  let ?y = "G k ^ x mod P k"
  define c where "c = sha (challenge_input (G k ^ r mod P k) ?y stmt)"
  have pos: "0 \<le> ?y" "0 \<le> (int r + int c * int x) mod Q k" using assms(2) by (simp_all add: Q_def)
  have eq: "fst (sign sha k x r stmt) = b64encode (proof_payload (nat ?y) c (nat ((int r + int c * int x) mod Q k)))"
    by (simp add: sign_def Let_def c_def)
  have "check_response sha k stmt ?y (int c) ((int r + int c * int x) mod Q k)"
    using response_recovers [OF assms(2,3), of r c x] assms(2) pos
    by (simp add: check_response_def pow_mod_def c_def [symmetric])
  moreover have "verify_proof sha utf8 k (fst (sign sha k x r stmt)) stmt =
      check_response sha k stmt (int (nat ?y)) (int c) (int (nat ((int r + int c * int x) mod Q k)))"
    unfolding eq by (rule verify_encoded) (rule assms(1))
  ultimately show ?thesis using pos by simp
qed

text \<open>
  Completeness, for a group whose generator has an order that divides \<open>P - 1\<close>: a proof within
  the bounds is accepted, outside the bounds the prover raises instead of signing. For the
  module's own 1024-bit prime the order is a fact of number theory that is not checked here.
\<close>

lemma sound_bounds_verify:
  assumes "\<And>s. \<forall>ch \<in> set s. (of_char ch :: nat) < 128 \<Longrightarrow> utf8 s = Some s"
    and "2 < P k" "G k ^ nat (P k - 1) mod P k = 1"
  shows "generate_proof sha fmt2 fmt k now hist null_depth_db ber loop_stable raw = Fail ValueError \<and>
      (null_depth_db > - 40 \<or> \<not> loop_stable) \<or>
    (\<exists>sig y. generate_proof sha fmt2 fmt k now hist null_depth_db ber loop_stable raw =
        Ok (sig, statement_of fmt2 fmt hist null_depth_db ber loop_stable, y) \<and>
      null_depth_db \<le> - 40 \<and> loop_stable \<and>
      verify_proof sha utf8 k sig (statement_of fmt2 fmt hist null_depth_db ber loop_stable))"
proof (cases "null_depth_db > - 40 \<or> \<not> loop_stable")
  case True
  then show ?thesis by (auto simp: generate_proof_def)
next
  case False
  define stmt where "stmt = statement_of fmt2 fmt hist null_depth_db ber loop_stable"
  obtain sig y where s: "sign sha k (sha raw) (sha (str_int (int now) @ raw @ hist)) stmt = (sig, y)" by fastforce
  from sign_verifies [OF assms, of sha "sha raw" "sha (str_int (int now) @ raw @ hist)" stmt]
  have "verify_proof sha utf8 k sig stmt" by (simp add: s)
  with False s show ?thesis unfolding generate_proof_def Let_def stmt_def [symmetric] by auto
qed

text \<open>
  A proof made without a secret: public key 1, whose every power is 1, the hash of the
  challenge, and the nonce itself as the response.
\<close>

definition forged_proof :: "(string \<Rightarrow> nat) \<Rightarrow> group \<Rightarrow> nat \<Rightarrow> string \<Rightarrow> string" where
  "forged_proof sha k r stmt =
     b64encode (proof_payload 1 (sha (challenge_input (G k ^ r mod P k) 1 stmt)) r)"

lemma forged_response:
  assumes "1 < P k"
  shows "check_response sha k stmt 1 (int (sha (challenge_input (G k ^ r mod P k) 1 stmt))) (int r)"
  using assms by (simp add: check_response_def pow_mod_def mod_inverse_def)

lemma prover_group_large: "2 < P prover_group"
  by (simp add: prover_group_def)

section \<open>Properties\<close>

text \<open>
  C24: the verifier vouches for what the prover refuses to sign. For the module's own group, a
  null depth above -40 dB or an unstable loop makes the prover raise, for every hash, clock,
  secret and formatting; the verifier accepts the statement of those very values with a proof
  anybody can write down without a secret, whatever the nonce.
\<close>

theorem refused_statement_accepted:
  assumes "\<And>s. \<forall>ch \<in> set s. (of_char ch :: nat) < 128 \<Longrightarrow> utf8 s = Some s"
    and "null_depth_db > - 40 \<or> \<not> loop_stable"
  shows "generate_proof sha fmt2 fmt prover_group now hist null_depth_db ber loop_stable raw = Fail ValueError \<and>
    (let stmt = statement_of fmt2 fmt hist null_depth_db ber loop_stable in
       verify_proof sha utf8 prover_group (forged_proof sha prover_group r stmt) stmt)"
proof
  show "generate_proof sha fmt2 fmt prover_group now hist null_depth_db ber loop_stable raw = Fail ValueError"
    using assms(2) by (auto simp: generate_proof_def)
next
  define stmt where "stmt = statement_of fmt2 fmt hist null_depth_db ber loop_stable"
  have "verify_proof sha utf8 prover_group (forged_proof sha prover_group r stmt) stmt =
      check_response sha prover_group stmt (int 1) (int (sha (challenge_input (G prover_group ^ r mod P prover_group) 1 stmt))) (int r)"
    unfolding forged_proof_def by (rule verify_encoded) (rule assms(1))
  also have "\<dots>" using forged_response [of prover_group sha stmt r] prover_group_large by simp
  finally show "let stmt = statement_of fmt2 fmt hist null_depth_db ber loop_stable in
       verify_proof sha utf8 prover_group (forged_proof sha prover_group r stmt) stmt"
    by (simp add: stmt_def)
qed

theorem refused_statement_accepted_witness:
  "generate_proof (\<lambda>s. length s) (\<lambda>_. ''0.00'') (\<lambda>_. ''0.0'') prover_group 5 ''h'' 0 0 True ''iq'' = Fail ValueError \<and>
    verify_proof (\<lambda>s. length s) Some prover_group
      (forged_proof (\<lambda>s. length s) prover_group 7 ''h:0.00:0.0:True'') ''h:0.00:0.0:True''"
  using refused_statement_accepted [of Some 0 True "\<lambda>s. length s" "\<lambda>_. ''0.00''" "\<lambda>_. ''0.0''" 5 "''h''" 0 "''iq''" 7]
  by (simp add: statement_of_def str_bool_def Let_def)

end
