(* ===== verification/Deployment.thy ===== *)
theory Deployment
  imports Ledger Text_Encoding
begin

text \<open>
  \<^verbatim>\<open>secure_model_deployer.py\<close>: verification of a model against its detached signature, the move
  into production and the quarantine with its ledger entry. The inbox, the production and the
  quarantine directory are maps from names to contents; a model is passed by its name in the
  inbox. Parsing the key and Ed25519 are parameters, as is which moves the system allows.
\<close>

section \<open>State\<close>

record deployer =
  inbox :: "string \<Rightarrow> string option"
  production :: "string \<Rightarrow> string option"
  quarantine :: "string \<Rightarrow> string option"
  incident_log :: ledger_file

text \<open>The outcome of \<^verbatim>\<open>public_key.verify\<close>: it returns, raises \<^verbatim>\<open>InvalidSignature\<close> or something else.\<close>

datatype sig_result = Verified | Invalid | Raised

text \<open>
  What the deployer finds: whether the cryptography package is there, the content of the root
  key file if there is one, how keys are loaded (\<open>None\<close> raises) and signatures checked, which
  files can be read and which moves succeed.
\<close>

record 'k environment =
  has_crypto :: bool
  root_key :: "string option"
  load_key :: "string \<Rightarrow> 'k option"
  check_signature :: "'k \<Rightarrow> string \<Rightarrow> string \<Rightarrow> sig_result"
  readable :: "string \<Rightarrow> bool"
  movable :: "string \<Rightarrow> bool"

section \<open>Operations\<close>

definition execute_quarantine :: "(payload \<Rightarrow> string) \<Rightarrow> 'k environment \<Rightarrow> json \<Rightarrow> string \<Rightarrow> string \<Rightarrow> deployer \<Rightarrow> deployer" where
  "execute_quarantine digest env now model_name reason d =
     (let d1 = (case inbox d model_name of
            Some bytes \<Rightarrow> if movable env model_name
              then d\<lparr>inbox := (inbox d)(model_name := None),
                     quarantine := (quarantine d)(model_name @ ''.blackholed'' \<mapsto> bytes)\<rparr> else d
          | None \<Rightarrow> d)
      in d1\<lparr>incident_log := commit_violation digest now model_name reason (incident_log d1)\<rparr>)"

datatype trust = Trusted | Rejected string

text \<open>The signature check; an unloadable key is an exception that nobody catches.\<close>

definition check_trust :: "'k environment \<Rightarrow> string \<Rightarrow> string \<Rightarrow> fault + trust" where
  "check_trust env model_bytes signature_text =
     (case (has_crypto env, root_key env) of
        (True, Some pem) \<Rightarrow> (case load_key env pem of
            None \<Rightarrow> Fail ValueError
          | Some key \<Rightarrow> (case b64decode (strip signature_text) of
                None \<Rightarrow> Ok (Rejected ''SIGNATURE_PARSING_FAILURE'')
              | Some sig_bytes \<Rightarrow> (case check_signature env key sig_bytes model_bytes of
                    Verified \<Rightarrow> Ok Trusted
                  | Invalid \<Rightarrow> Ok (Rejected ''INVALID_CRYPTOGRAPHIC_SIGNATURE'')
                  | Raised \<Rightarrow> Ok (Rejected ''SIGNATURE_PARSING_FAILURE''))))
      | _ \<Rightarrow> Ok Trusted)"

definition verify_and_deploy :: "(payload \<Rightarrow> string) \<Rightarrow> 'k environment \<Rightarrow> json \<Rightarrow> string \<Rightarrow> string option \<Rightarrow>
    deployer \<Rightarrow> fault + deployer \<times> bool" where
  "verify_and_deploy digest env now model_name signature d =
     (case inbox d model_name of
        None \<Rightarrow> Ok (d, False)
      | Some model_bytes \<Rightarrow> (case signature of
          None \<Rightarrow> Ok (execute_quarantine digest env now model_name ''MISSING_DETACHED_SIGNATURE'' d, False)
        | Some signature_text \<Rightarrow>
            if \<not> readable env model_name then Ok (d, False)
            else seqE (check_trust env model_bytes signature_text) (\<lambda>t. case t of
                Rejected reason \<Rightarrow> Ok (execute_quarantine digest env now model_name reason d, False)
              | Trusted \<Rightarrow> if movable env model_name
                  then Ok (d\<lparr>inbox := (inbox d)(model_name := None),
                             production := (production d)(model_name \<mapsto> model_bytes)\<rparr>, True)
                  else Ok (d, False))))"

text \<open>Deployment requests in order; the process ends with the first uncaught exception.\<close>

type_synonym deploy_request = "json \<times> string \<times> string option"

fun deploy_all :: "(payload \<Rightarrow> string) \<Rightarrow> 'k environment \<Rightarrow> deploy_request list \<Rightarrow> deployer \<Rightarrow> deployer \<times> fault option" where
  "deploy_all digest env [] d = (d, None)"
| "deploy_all digest env ((now, name, signature) # rs) d =
     (case verify_and_deploy digest env now name signature d of
        Fail e \<Rightarrow> (d, Some e)
      | Ok (d', res) \<Rightarrow> deploy_all digest env rs d')"

section \<open>What reaches production\<close>

lemma quarantine_production [simp]: "production (execute_quarantine digest env now name reason d) = production d"
  by (simp add: execute_quarantine_def Let_def split: option.splits)

lemma quarantine_inbox: "inbox (execute_quarantine digest env now name reason d) n = Some b \<Longrightarrow> inbox d n = Some b"
  by (auto simp: execute_quarantine_def Let_def split: option.splits if_splits)

text \<open>A model that carries a signature of the root key.\<close>

definition vouched :: "'k environment \<Rightarrow> string \<Rightarrow> bool" where
  "vouched env bytes \<longleftrightarrow> (\<exists>pem key sig. root_key env = Some pem \<and> load_key env pem = Some key \<and>
     check_signature env key sig bytes = Verified)"

lemma check_trust_vouched:
  assumes "check_trust env bytes sig = Ok Trusted" "has_crypto env" "root_key env \<noteq> None"
  shows "vouched env bytes"
  using assms by (auto simp: check_trust_def vouched_def split: option.splits sig_result.splits)

lemma deploy_production:
  assumes "verify_and_deploy digest env now name signature d = Ok (d', res)"
    and "has_crypto env" "root_key env \<noteq> None" "production d' n = Some b"
  shows "production d n = Some b \<or> (vouched env b \<and> res \<and> inbox d n = Some b)"
proof (cases "inbox d name")
  case None
  with assms(1,4) show ?thesis by (simp add: verify_and_deploy_def)
next
  case (Some bytes)
  show ?thesis
  proof (cases signature)
    case None
    with Some assms(1,4) show ?thesis by (auto simp: verify_and_deploy_def)
  next
    case sig: (Some sig)
    show ?thesis
    proof (cases "readable env name")
      case False
      with Some sig assms(1,4) show ?thesis by (simp add: verify_and_deploy_def)
    next
      case True
      with Some sig assms(1) obtain t where t: "check_trust env bytes sig = Ok t"
        by (cases "check_trust env bytes sig") (auto simp: verify_and_deploy_def)
      show ?thesis
      proof (cases t)
        case (Rejected reason)
        with Some sig True t assms(1,4) show ?thesis by (auto simp: verify_and_deploy_def)
      next
        case Trusted
        with t check_trust_vouched [OF _ assms(2,3)] have "vouched env bytes" by simp
        with Trusted Some sig True t assms(1,4) show ?thesis
          by (auto simp: verify_and_deploy_def split: if_splits)
      qed
    qed
  qed
qed

section \<open>Properties\<close>

text \<open>
  C21: with the cryptography package and a root key, whatever requests the deployer serves and
  however they end, every model in production was there before or carries a signature that the
  root key verifies for exactly its bytes.
\<close>

theorem only_vouched_models_deployed:
  assumes "has_crypto env" "root_key env \<noteq> None"
    and "production (fst (deploy_all digest env rs d)) n = Some b"
  shows "production d n = Some b \<or> vouched env b"
  using assms(3)
proof (induction rs arbitrary: d)
  case Nil
  then show ?case by simp
next
  case (Cons r rs)
  obtain now name signature where r: "r = (now, name, signature)" by (cases r)
  show ?case
  proof (cases "verify_and_deploy digest env now name signature d")
    case (Inl e)
    with Cons.prems r show ?thesis by simp
  next
    case (Inr p)
    obtain d' res where p: "p = (d', res)" by (cases p)
    with Inr Cons.prems r have "production d' n = Some b \<or> vouched env b" by (intro Cons.IH) simp
    with deploy_production [OF _ assms(1,2), of digest now name signature d d' res n b] Inr p show ?thesis by auto
  qed
qed

definition example_env :: "nat environment" where
  "example_env = \<lparr>has_crypto = True, root_key = Some ''pem'', load_key = \<lambda>_. Some 0,
     check_signature = \<lambda>_ s m. if s = m then Verified else Invalid, readable = \<lambda>_. True, movable = \<lambda>_. True\<rparr>"

definition example_deployer :: deployer where
  "example_deployer = \<lparr>inbox = [''m'' \<mapsto> ''abc'', ''n'' \<mapsto> ''xyz''], production = Map.empty, quarantine = Map.empty,
     incident_log = []\<rparr>"

theorem only_vouched_models_deployed_witness:
  "production (fst (deploy_all (\<lambda>_. ''h'') example_env
     [(JNull, ''n'', Some ''YWJj''), (JNull, ''m'', Some ''YWJj'')] example_deployer)) ''m'' = Some ''abc'' \<and>
   vouched example_env ''abc''"
proof -
  have v: "verify_and_deploy (\<lambda>_. ''h'') example_env JNull ''n'' (Some ''YWJj'') example_deployer =
      Ok (execute_quarantine (\<lambda>_. ''h'') example_env JNull ''n'' ''INVALID_CRYPTOGRAPHIC_SIGNATURE'' example_deployer, False)"
    by (simp add: verify_and_deploy_def check_trust_def example_env_def example_deployer_def b64decode_def
      strip_def is_space_def b64_val_def Let_def char_of_def bit_0)
  have w: "production (fst (deploy_all (\<lambda>_. ''h'') example_env
     [(JNull, ''n'', Some ''YWJj''), (JNull, ''m'', Some ''YWJj'')] example_deployer)) ''m'' = Some ''abc''"
    by (simp add: v del: fun_upd_apply)
      (simp add: verify_and_deploy_def check_trust_def example_env_def example_deployer_def b64decode_def
      strip_def is_space_def b64_val_def Let_def execute_quarantine_def char_of_def bit_0)
  have "has_crypto example_env" "root_key example_env \<noteq> None" by (simp_all add: example_env_def)
  from only_vouched_models_deployed [OF this w] w show ?thesis by (simp add: example_deployer_def)
qed

text \<open>
  a model whose signature is missing, cannot be decoded or does not verify is refused,
  leaves the inbox for the quarantine under its name with the suffix, and is recorded in the
  incident ledger; production is untouched.
\<close>

theorem rejected_model_quarantined:
  assumes "has_crypto env" "root_key env = Some pem" "load_key env pem = Some key" "inbox d name = Some bytes"
    and "readable env name" "movable env name"
    and "\<And>sig. signature = Some sig \<Longrightarrow>
      (case b64decode (strip sig) of None \<Rightarrow> True | Some s \<Rightarrow> check_signature env key s bytes \<noteq> Verified)"
  shows "\<exists>d' reason. verify_and_deploy digest env now name signature d = Ok (d', False) \<and>
    inbox d' name = None \<and> quarantine d' (name @ ''.blackholed'') = Some bytes \<and> production d' = production d \<and>
    incident_log d' = commit_violation digest now name reason (incident_log d)"
proof -
  have "\<exists>reason. verify_and_deploy digest env now name signature d =
      Ok (execute_quarantine digest env now name reason d, False)"
  proof (cases signature)
    case None
    with assms(4) show ?thesis by (auto simp: verify_and_deploy_def)
  next
    case (Some sig)
    with assms(1-5) assms(7) [OF Some] show ?thesis
      by (auto simp: verify_and_deploy_def check_trust_def split: option.splits sig_result.splits)
  qed
  then obtain reason where "verify_and_deploy digest env now name signature d =
      Ok (execute_quarantine digest env now name reason d, False)" ..
  with assms(4,6) show ?thesis by (auto simp: execute_quarantine_def)
qed

theorem rejected_model_quarantined_witness:
  "\<exists>d' reason. verify_and_deploy (\<lambda>_. ''h'') example_env JNull ''n'' None example_deployer = Ok (d', False) \<and>
    quarantine d' (''n'' @ ''.blackholed'') = Some ''xyz'' \<and>
    incident_log d' = commit_violation (\<lambda>_. ''h'') JNull ''n'' reason []"
  using rejected_model_quarantined [of example_env "''pem''" 0 example_deployer "''n''" "''xyz''" None "\<lambda>_. ''h''" JNull]
  by (auto simp: example_env_def example_deployer_def)

text \<open>Without the package or without the key file any model with any signature file is deployed.\<close>

lemma unsigned_model_deployed:
  assumes "\<not> has_crypto env \<or> root_key env = None" "inbox d name = Some bytes" "readable env name" "movable env name"
  shows "\<exists>d'. verify_and_deploy digest env now name (Some signature_text) d = Ok (d', True) \<and>
    production d' name = Some bytes"
  using assms by (auto simp: verify_and_deploy_def check_trust_def split: bool.splits)

end
