(* ===== verification/Spec2Isabelle.thy ===== *)
theory Spec2Isabelle
  imports Fft_Core Weight_Morphing Sub_Bin_Peak Cfar_Thresholds Process_Supervisor Host_Setup Receiver_Bridge Harness_Pipeline Rff_Features Array_Calibration Inference_Engine Shared_Memory Link_Monitors Defense_Chain Fusion_Supervisor Spatial_Glrt Spatial_Enforcement Correlator_Shape Stride_Aligner Carrier_Flywheel Kalman_Loop File_Stream File_Player Polyphase Peak_Finder Frequency_Stap Sweep_Verification Overlap_Tuning Weight_Handover Spaced_Events Null_Tracking Adaptive_Huffman Telemetry_Dispatcher Lockfree_Ring Runtime_Hardening Telemetry_Bus Dma_Ring
    Handshake Tenant_Broker Resumption Mitigation Register_Actuator Loopback_Monitor Ledger Bft_Consensus
    Raft Cordic Prn_Synthesizer Sync_Coordinator Hil_Flow Quantizer Zk_Prover Deployment Power_Failover
begin

text \<open>
  A verification development for the SpaceShield backend: the Python package
  \<^verbatim>\<open>backend/src/satcom_core\<close>, and the programs under \<^verbatim>\<open>scripts\<close> that write its ledger and deploy its
  models.

  THE PROGRAM.  A ground station samples an antenna array, extracts indicators of jamming and
  spoofing, decides on a threat state, acts on the radio and reports to its operators. Around
  the signal processing lies the software this development is about: the rings and buses that
  carry records between processes, the coders that shrink telemetry, the transport that feeds
  client queues, the state machines that debounce decisions, the hash-chained ledger every
  incident ends in, the checks on requests, models and licences, and the protocols of a small
  cluster of stations.

  Blocks of samples enter from a capture or a radio and leave as weights, features and verdicts:
  receiver bridge or player, calibration, sphericity test, features, inference in the harness; taps,
  phases and spectra through the correlator and angle bridges into the fusion supervisor, whose
  states and records the rings, dispatchers and client queues carry on.

  HOW THE MODEL IS BUILT.  One theory per module or pair of modules that belong together. An
  object is a record with the attributes of its class; a method is a function from the record
  (and its arguments) to the new record and the result; a compiled kernel is a function from
  the arrays it is passed to the arrays it leaves. A step that can raise returns a sum,
  \<^verbatim>\<open>Fail\<close> with the exception or \<^verbatim>\<open>Ok\<close> with the value; the fault \<^verbatim>\<open>OutOfBounds\<close> stands for an
  access outside an array by a kernel that is compiled without bounds checks. Locks make an
  operation one step; where the code interleaves without a lock (the shared bus, the barrier, the
  inference queue, the programs on one ledger) the steps are its atomic accesses and a relation,
  or a list of steps of any threads, generates the reachable states. An object that is handed
  over by reference stays one cell of a store until its holder has used it (the blocks of the
  player).

  TELEMETRY CODERS
    Payload_Rle        \<^verbatim>\<open>telemetry_payload_compressor.py\<close>: marker-based run-length coding
    Bit_Packing        the bit accumulator both Huffman modules contain
    Huffman_Compactor  \<^verbatim>\<open>telemetry_huffman_compactor.py\<close>: one prefix code behind run lengths
    Adaptive_Huffman   \<^verbatim>\<open>adaptive_huffman_table_manager.py\<close>: two codes chosen by threat level
    Payload_Codec      the contract of a telemetry compressor, interpreted by all three
    Binary_Codec       \<^verbatim>\<open>binary_telemetry_codec.py\<close>: the fixed 109-byte frame
  Lemmas: every compiled loop writes exactly the bits or bytes its reference function says, the
  decoder inverts them, no frame of the telemetry format overruns the pre-allocated arrays, so
  that whole streams of frames survive the codec objects with their reused buffers. For the
  adaptive coder the header has seven bits for a length, and the round trip needs it to fit.

  QUEUES, RINGS AND BUSES
    Alert_Queue           the bounded client queue that keeps critical alerts, with its contract
    Websocket_Runtime     \<^verbatim>\<open>hardened_websocket_runtime.py\<close>: the queue over binary frames
    Telemetry_Dispatcher  \<^verbatim>\<open>telemetry_dispatcher.py\<close>: both transports
    Ring_Slots            the column buffers of both rings and the contract of dropping the oldest
    Fusion_Ring           \<^verbatim>\<open>fusion_ring_buffer.py\<close>
    Lockfree_Ring         \<^verbatim>\<open>lockfree_fusion_ring_buffer.py\<close>
    Bounded_Queue         the contract of a queue used within its capacity
    Telemetry_Bus         \<^verbatim>\<open>ipc_shared_bus.py\<close>: the shared-memory ring and racing consumers
    Dma_Ring              \<^verbatim>\<open>dma_descriptor_ring.py\<close>: two planes between radio and processor
    Threat_State          the state machine of \<^verbatim>\<open>phase58_fusion_supervisor.py\<close>
    Runtime_Hardening     \<^verbatim>\<open>phase59_runtime_hardening_supervisor.py\<close> and
                          \<^verbatim>\<open>telemetry_backpressure_guard.py\<close>: strides, ring, dispatch
    Shared_Memory         \<^verbatim>\<open>secure_ipc_bridge.py\<close>, \<^verbatim>\<open>peer_pipeline_transport.py\<close> and
                          \<^verbatim>\<open>hil_register_ingestor.py\<close>: memory shared between processes
    Resumption            \<^verbatim>\<open>telemetry_resumption_protocol.py\<close>: tokens, history, catch-up
  Lemmas: which alerts a history of pushes leaves in a queue, which records a history of pushes
  and pops delivers, in which order, and how many are counted as dropped; that the lock-free
  ring run by one thread is the locked one; that racing consumers of the bus take each entry
  once; that a threat state changes exactly when its target has persisted; that a client which
  reconnects shows every record of the retained history once. The composition theorems follow
  a critical record from the stride through ring and dispatcher into the queue of each client.
  The shared rings refine atomic operations when every process takes the lock, and a torn read is
  shown without it.

  SECURITY
    Handshake       \<^verbatim>\<open>nonce_memory_cache.py\<close>, \<^verbatim>\<open>secure_handshake_interceptor.py\<close>
    Tenant_Broker   \<^verbatim>\<open>tenant_config_broker.py\<close>: signatures, tiers and routing
    Zk_Prover       \<^verbatim>\<open>zk_containment_prover.py\<close>: Schnorr proofs of containment statements
    Text_Encoding   hexadecimal and base64
    Python_Text     Python's integer parsing and string splitting
    Ledger          the incident ledgers and the security log: five writers
                    (\<^verbatim>\<open>cluster_failover_broker.py\<close>, \<^verbatim>\<open>secure_model_deployer.py\<close>,
                    \<^verbatim>\<open>secure_handshake_interceptor.py\<close>, \<^verbatim>\<open>space_shield_supervisor.py\<close>,
                    \<^verbatim>\<open>rf_threat_simulator.py\<close>), \<^verbatim>\<open>compact_worm_ledger.py\<close>,
                    \<^verbatim>\<open>verify_log_integrity.py\<close>, \<^verbatim>\<open>secure_ledger_rotator.py\<close> and
                    \<^verbatim>\<open>scripts/disaster_recovery_restore.py\<close>
    Process_Supervisor  \<^verbatim>\<open>space_shield_supervisor.py\<close>: start, restart and teardown of children
    Deployment      \<^verbatim>\<open>secure_model_deployer.py\<close>: verify, deploy, quarantine and report
    Host_Setup      \<^verbatim>\<open>license_validator.py\<close> and \<^verbatim>\<open>rt_thread_allocator.py\<close>: what runs before
                    the harness
  Lemmas: what passes the handshake carried a fresh nonce and a signature; a request is served
  only by a tier that may make it; the verifier of containment proofs accepts, from a holder of
  the secret, statements the prover refuses to sign; the three programs that share the ledger of
  the repository's \<^verbatim>\<open>compliance\<close> directory keep its chain unbroken as long as no two of their
  operations overlap, and overlapping steps break it (the broker's and the
  supervisor's entries go to ledgers of their own in other directories); any change to a chained file is noticed (or is a
  collision of the digest), and the writers that do not read it back break what the auditors
  accept; a model reaches production only with a valid signature and everything else leaves
  a ledger entry; a token is accepted with exactly its key's signature and up to the midnight its
  last day begins with, the real-time set-up never gets past its first system call, and the
  container's children are restarted at most three times each and never found where they are
  looked for.

  MITIGATION AND RADIO CONTROL
    Mitigation         \<^verbatim>\<open>anomaly_event_tagging.py\<close>, \<^verbatim>\<open>loopback_mitigation_controller.py\<close>,
                       \<^verbatim>\<open>mitigation_hysteresis_filter.py\<close>, \<^verbatim>\<open>dynamic_hysteresis_tuner.py\<close>
    Register_Actuator  \<^verbatim>\<open>sdr_register_actuator.py\<close>, \<^verbatim>\<open>sdr_register_feedback_monitor.py\<close>
    Loopback_Monitor   \<^verbatim>\<open>firmware_loopback_sync.py\<close>
    Hil_Flow           \<^verbatim>\<open>hil_frontend_sync.py\<close>, \<^verbatim>\<open>hil_flow_controller.py\<close>
  Lemmas: tags unpack to what was packed; the filter over its circular history is the plain
  statement "the last w actions agree"; the interlock latches until it is cleared; the circular
  command queue is a queue until it is full and empties itself when it overruns; the monitor's
  statistics are those of its window; the flow controller returns to the full rate.

  CLUSTER
    Bft_Consensus   \<^verbatim>\<open>cluster_bft_consensus.py\<close>: votes and the quorum
    Raft            \<^verbatim>\<open>cluster_raft_consensus.py\<close>: elections and configuration commits
    Power_Failover  \<^verbatim>\<open>energy_aware_orchestrator.py\<close>, and the watchdog of
                    \<^verbatim>\<open>cluster_failover_broker.py\<close>
  Lemmas: consensus is reported exactly with a quorum of equal votes; a node grants one vote in
  a term; a commit needs a majority of acknowledgements, and yet one node can lead two terms at
  once; a failover follows silence and nothing else.

  DETECTION AND FUSION
    Spatial_Glrt         \<^verbatim>\<open>spatial_glrt_detector.py\<close> and the compiled evaluation in
                         \<^verbatim>\<open>phase58_fusion_supervisor.py\<close>
    Correlator_Shape     \<^verbatim>\<open>correlator_dissector.py\<close>, \<^verbatim>\<open>correlator_fusion_bridge.py\<close>
    Spatial_Enforcement  \<^verbatim>\<open>aoa_validator.py\<close>, \<^verbatim>\<open>aoa_enforcement_bridge.py\<close>
    Fusion_Supervisor    \<^verbatim>\<open>Phase58FusionSupervisor\<close>: one stride through all of them
    Defense_Chain        the runtime supervisor over the whole of phase 58
    Link_Monitors        \<^verbatim>\<open>subframe_timing_lock.py\<close>, \<^verbatim>\<open>downlink_ber_monitor.py\<close>,
                         \<^verbatim>\<open>covariance_conditioner.py\<close>, \<^verbatim>\<open>thermal_drift_compensator.py\<close>
    Peak_Finder          \<^verbatim>\<open>spatial_peak_finder.py\<close>: the peaks of a spectrum grid
    Sub_Bin_Peak         \<^verbatim>\<open>quadratic_peak_tracker.py\<close>: the summit between the bins
    Cfar_Thresholds      \<^verbatim>\<open>neyman_pearson_coordinator.py\<close>: thresholds from the background
  Lemmas: when the two evaluations of the statistic agree and where they do not; which channels of
  plane waves are flagged, and that a flagged wavefront is taken out of the weights; that a
  state change needs evidence as long as the threshold; that an intrusion reaches every operator;
  which peaks are published, in which order; the fitted summit is exact for a paraboloid, and the
  newest readings, inside the guard, do not move the thresholds.

  FROM RECEIVER TO VERDICT
    File_Player, File_Stream  \<^verbatim>\<open>binary_file_player.py\<close> and the buffer pool of the harness
    Receiver_Bridge           \<^verbatim>\<open>soapy_receiver_bridge.py\<close>: one turn of the capture loop
    Array_Calibration         \<^verbatim>\<open>array_calibration_engine.py\<close>
    Rff_Features              \<^verbatim>\<open>rff_feature_extractor.py\<close>
    Inference_Engine          \<^verbatim>\<open>edge_inference_engine.py\<close>: batches, network, verdict
    Harness_Pipeline          the workers, logger and lockdown of \<^verbatim>\<open>spatial_hardware_harness.py\<close>
                              with \<^verbatim>\<open>write_certin_compliance_log\<close> of \<^verbatim>\<open>rf_threat_simulator.py\<close>
  Lemmas: playback ends, and the blocks the workers use are the blocks played, each once and intact,
  while the blocks held and dropped together stay below the spare buffers of the pool (a block held
  longer is overwritten); calibration brings the antennas into phase; a pure tone has the
  frequency it has and no phase noise; every request the inference worker reaches is answered
  in the order of arrival, whatever steps several producers take between its own; and the composed
  harness: which incidents are ever written (none), when its final wait returns, what a lockdown
  leaves of the ledger. A worker's turn is two steps, and a run is any list of steps of any
  threads. The bridge's own power modes are modelled with the bridge; the harness builds it
  without an orchestrator, so they belong to no composed property.

  FILTERS, WEIGHTS AND TRACKING LOOPS
    Null_Tracking     \<^verbatim>\<open>adaptive_null_tracker.py\<close>, \<^verbatim>\<open>nlms_null_tracker.py\<close>,
                      \<^verbatim>\<open>leaky_nlms_tracker.py\<close>
    Spaced_Events     the contract of a component that reports at most every so many steps
    Weight_Handover   \<^verbatim>\<open>double_buffered_weight_handover.py\<close>,
                      \<^verbatim>\<open>fft_bin_handover_registers.py\<close>
    Overlap_Tuning    \<^verbatim>\<open>adaptive_overlap_tuner.py\<close>,
                      \<^verbatim>\<open>dynamic_overlap_window_manager.py\<close>
    Sweep_Verification  \<^verbatim>\<open>automated_rf_sweep_verification.py\<close> and the parts it drives:
                      \<^verbatim>\<open>fast_lock_calibration_table.py\<close>, \<^verbatim>\<open>physical_sdr_pll_validation.py\<close>
    Frequency_Stap    \<^verbatim>\<open>fft_stap_processor.py\<close>, \<^verbatim>\<open>overlap_save_stap_processor.py\<close>,
                      \<^verbatim>\<open>bin_level_overlap_handover.py\<close>
    Polyphase         \<^verbatim>\<open>polyphase_decimator.py\<close>
    Kalman_Loop       \<^verbatim>\<open>kalman_loop_filter.py\<close>, \<^verbatim>\<open>tracking_loop_kernels.py\<close>
    Carrier_Flywheel  \<^verbatim>\<open>carrier_lock_flywheel.py\<close>
    Stride_Aligner    \<^verbatim>\<open>cache_stride_aligner.py\<close>
    Weight_Morphing   \<^verbatim>\<open>phase_coherent_swapper.py\<close>, \<^verbatim>\<open>multipath_tap_clamper.py\<close>
    Fft_Core          \<^verbatim>\<open>vectorized_fft_core.py\<close>: the radix-4 transform
  Lemmas: the update keeps the gain on the target and the leakage over a run is bounded; weights change
  only at distances of at least the settling time; buffers, tuner and report of a sweep agree;
  overlap-save is the linear convolution and the decimator the prototype filter, across
  blocks; the unrolled filter is the textbook one and its covariance stays positive semidefinite; coasting
  mixes with one continuous carrier; a morph from old to new weights never jumps; the in-place
  butterflies compute the discrete Fourier transform of the stored samples.

  SIGNAL SUPPORT AND SCHEDULING
    Cordic            \<^verbatim>\<open>cordic_trig_accelerator.py\<close>: the 32-bit rotation kernel
    Prn_Synthesizer   \<^verbatim>\<open>prn_code_synthesizer.py\<close>: spreading codes from a phase accumulator
    Quantizer         \<^verbatim>\<open>fixed_point_quantizer.py\<close>, \<^verbatim>\<open>soft_decision_decoder.py\<close>
    Numerics          rounding to even and integer division
    Hybrid_Barrier    the barrier of \<^verbatim>\<open>subsystem_sync_coordinator.py\<close>
    Sync_Coordinator  the coordinator of the same module: frames, matrices, buffers

  Lemmas: the rotation's residual angle shrinks to the table's last step for every start; strides of
  a replica join without a jump in phase while the 64-bit accumulator has head room and its end
  fits a double; quantized samples are the nearest level or saturated,
  and counted; no thread leaves the barrier before all have entered, some step is always possible,
  and every frame has one boundary.

  INTERFACES.  Each contract is a locale with the operations a client calls and the laws it relies
  on, and each is interpreted by the models of the code: \<^verbatim>\<open>constrained_update\<close> and its extension
  \<^verbatim>\<open>null_seeking_update\<close> (the three null trackers), \<^verbatim>\<open>spaced_events\<close> (the weight handover, a
  frequency bin, the block-size tuner), \<^verbatim>\<open>payload_codec\<close> (three coders),
  \<^verbatim>\<open>prefix_code\<close> (three code tables), \<^verbatim>\<open>alert_retention\<close> (two queues), \<^verbatim>\<open>drop_oldest\<close> (two rings),
  \<^verbatim>\<open>bounded_queue\<close> (the bus, the two DMA planes), \<^verbatim>\<open>chained_log\<close> (the incident ledger, the security
  log). What holds of any history of operations is proved once in the locale.

  NUMBERS.  Registers and arrays of fixed width are words where they can wrap; Python's integers
  and pointers that only count up are \<^verbatim>\<open>int\<close> and \<^verbatim>\<open>nat\<close>. A double that is only copied is its bit
  pattern. A float that is computed with is an exact real, except where an integer is
  converted to one (the phase of a replica): the model has no other rounding, no NaN and no
  infinity, so comparisons near a threshold are those of the exact value. Clock readings are
  arguments.

  PARAMETERS.  SHA-256, the JSON and date libraries, UTF-8 decoding, Ed25519 and RSA libraries, key
  parsing, float formatting, C's conversion of floats to integers, which files can be moved, the
  answers of the operating system; eigenvalue and eigenvector routines, the chi-squared quantile,
  \<^verbatim>\<open>np.sign\<close> on complex numbers, phase unwrapping, line fit and averaged periodogram; the
  weights and the compiled session of the classifier. What a property needs of them is a
  hypothesis with a witness.

  TERMINATION AND FUEL.  There is no fuel: bounded loops are recursion over the range or the data.
  The bit-flushing, run-length and queue loops terminate by a measure. Where the code waits or can
  loop for ever the result is an option: a pull from an empty DMA plane spins and is \<^verbatim>\<open>None\<close>,
  the actuator's queue loop is \<^verbatim>\<open>None\<close> when it has not ended after one round of the queue, and the
  player's waiting and streaming loops and the register poll are partial functions, with theorems
  (playback_ends, stride_ingested) that they return. The rotation kernel has its 32 iterations.

  NOT MODELLED.  Tests, benchmarks, demonstrations and the trial calls that only trigger
  compilation; the dashboard and HTTP endpoints; printing and logging; the device access of the
  receivers; the allocation of shared memory; gzip, file modes and process priorities; the
  simulators, which draw random signals; the training of the classifiers, whose behaviour is in
  weight files; the array processing that is a call of a decomposition followed by formulas on its
  result (subspace projectors, separators, spectrum mappers), whose content is in the library; and
  the statistics whose outcome is decided by rounding, which exact reals cannot express.
\<close>

end
